(* ===== verification/Rodos_Prelude.thy ===== *)
theory Rodos_Prelude
  imports Main "HOL-Library.Word" "HOL-Library.Monad_Syntax"
begin

text \<open>
  Shared ground of the development: the fact collections the component theories add to, the
  names of the machine types of the sources, and the generic lemmas on circular buffers, bytes
  and 64-bit signed time values that more than one component uses.

  A \<open>size_t\<close> index of the sources is a \<^typ>\<open>nat\<close> (the operations that use one keep it below the
  length of the array it indexes); the counters and the data words keep their width as
  \<^typ>\<open>'a word\<close>; an \<open>int64_t\<close> time value is an \<^typ>\<open>int\<close> whose wrap-around is written out
  by \<open>i64\<close>.
\<close>

unbundle bit_operations_syntax

section \<open>Fact collections\<close>

named_theorems ring_simps \<open>rewriting circular buffers to lists\<close>
named_theorems inv_intros \<open>operations keep the invariant of their component\<close>
named_theorems op_defs \<open>unfolding of the operations of a component\<close>

section \<open>Machine types\<close>

type_synonym u8 = "8 word"
type_synonym u16 = "16 word"
type_synonym u32 = "32 word"
type_synonym u64 = "64 word"

text \<open>
  The value an \<open>int64_t\<close> holds after an arithmetic result \<open>x\<close> was stored into it, in two's
  complement.
\<close>

definition i64 :: "int \<Rightarrow> int" where
  "i64 x = (x + 2 ^ 63) mod 2 ^ 64 - 2 ^ 63"

definition in_i64 :: "int \<Rightarrow> bool" where
  "in_i64 x \<longleftrightarrow> - (2 ^ 63) \<le> x \<and> x < 2 ^ 63"

definition END_OF_TIME :: int where
  "END_OF_TIME = 0x7FFFFFFFFFFFFFFF"

lemma i64_exact [simp]: "in_i64 x \<Longrightarrow> i64 x = x"
  by (simp add: i64_def in_i64_def)

lemma i64_range: "in_i64 (i64 x)"
proof -
  have "0 \<le> (x + 2 ^ 63) mod 2 ^ 64" and "(x + 2 ^ 63) mod 2 ^ 64 < (2 :: int) ^ 64"
    by (auto intro: pos_mod_bound)
  then show ?thesis by (simp add: i64_def in_i64_def)
qed

lemma in_i64I: "-9223372036854775808 \<le> x \<Longrightarrow> x \<le> 9223372036854775807 \<Longrightarrow> in_i64 x"
  by (simp add: in_i64_def)

lemma in_i64_nonneg: "0 \<le> x \<Longrightarrow> x \<le> END_OF_TIME \<Longrightarrow> in_i64 x"
  by (simp add: in_i64_def END_OF_TIME_def)

text \<open>The same for the narrower signed integers.\<close>

definition i32 :: "int \<Rightarrow> int" where
  "i32 x = (x + 2 ^ 31) mod 2 ^ 32 - 2 ^ 31"

definition i8 :: "int \<Rightarrow> int" where
  "i8 x = (x + 2 ^ 7) mod 2 ^ 8 - 2 ^ 7"

definition in_i32 :: "int \<Rightarrow> bool" where
  "in_i32 x \<longleftrightarrow> - (2 ^ 31) \<le> x \<and> x < 2 ^ 31"

lemma i32_exact [simp]: "in_i32 x \<Longrightarrow> i32 x = x"
  by (simp add: i32_def in_i32_def)

section \<open>Division of C: truncation toward zero\<close>

definition c_div :: "int \<Rightarrow> int \<Rightarrow> int" where
  "c_div a b = sgn a * sgn b * (\<bar>a\<bar> div \<bar>b\<bar>)"

lemma c_div_nonneg [simp]: "0 \<le> a \<Longrightarrow> 0 < b \<Longrightarrow> c_div a b = a div b"
  by (cases "a = 0") (auto simp: c_div_def)

definition c_mod :: "int \<Rightarrow> int \<Rightarrow> int" where
  "c_mod a b = a - c_div a b * b"

lemma c_mod_nonneg [simp]: "0 \<le> a \<Longrightarrow> 0 < b \<Longrightarrow> c_mod a b = a mod b"
  by (simp add: c_mod_def minus_div_mult_eq_mod)

section \<open>Loops over a list\<close>

text \<open>
  A loop \<open>ITERATE_LIST\<close> or \<open>for\<close> is a \<^const>\<open>fold\<close>; its invariant speaks of the elements already
  visited.
\<close>

lemma nth_list_update': "j < length xs \<Longrightarrow> xs[i := x] ! j = (if i = j then x else xs ! j)"
  by (simp add: nth_list_update)

lemma fold_invariant:
  assumes "P [] s" and "\<And>ys x s. set ys \<subseteq> set xs \<Longrightarrow> x \<in> set xs \<Longrightarrow> P ys s \<Longrightarrow> P (ys @ [x]) (f x s)"
  shows "P xs (fold f xs s)"
proof -
  have "P ys (fold f ys s)" if "set ys \<subseteq> set xs" for ys
    using that by (induction ys rule: rev_induct) (auto simp: assms)
  then show ?thesis by blast
qed

section \<open>Circular buffers as lists\<close>

text \<open>
  \<open>ring_list xs r n\<close> is the list of the \<open>n\<close> elements found in the array \<open>xs\<close> when it is read
  circularly from index \<open>r\<close> on. It is the abstraction function of every ring buffer of the
  sources.
\<close>

definition ring_list :: "'a list \<Rightarrow> nat \<Rightarrow> nat \<Rightarrow> 'a list" where
  "ring_list xs r n = map (\<lambda>i. xs ! ((r + i) mod length xs)) [0..<n]"

definition ring_dist :: "nat \<Rightarrow> nat \<Rightarrow> nat \<Rightarrow> nat" where
  "ring_dist len r w = (if r \<le> w then w - r else len - r + w)"

definition ring_next :: "nat \<Rightarrow> nat \<Rightarrow> nat" where
  "ring_next len i = (if i < len - 1 then i + 1 else 0)"

lemma ring_next_less [simp]: "0 < len \<Longrightarrow> ring_next len i < len"
  by (auto simp: ring_next_def)

lemma ring_next_less_index [simp]: "i < len \<Longrightarrow> ring_next len i < len"
  by (auto simp: ring_next_def)

lemma ring_next_mod: "i < len \<Longrightarrow> ring_next len i = (i + 1) mod len"
  by (cases "i + 1 = len") (auto simp: ring_next_def)

lemma length_ring_list [ring_simps, simp]: "length (ring_list xs r n) = n"
  by (simp add: ring_list_def)

lemma ring_list_0 [ring_simps, simp]: "ring_list xs r 0 = []"
  by (simp add: ring_list_def)

lemma nth_ring_list: "i < n \<Longrightarrow> ring_list xs r n ! i = xs ! ((r + i) mod length xs)"
  by (simp add: ring_list_def)

lemma ring_list_snoc:
  "ring_list xs r (Suc n) = ring_list xs r n @ [xs ! ((r + n) mod length xs)]"
  by (simp add: ring_list_def)

lemma ring_list_Cons:
  assumes "r < length xs"
  shows "ring_list xs r (Suc n) = xs ! r # ring_list xs (ring_next (length xs) r) n"
proof (rule nth_equalityI)
  fix i assume "i < length (ring_list xs r (Suc n))"
  then show "ring_list xs r (Suc n) ! i = (xs ! r # ring_list xs (ring_next (length xs) r) n) ! i"
    using assms by (cases i) (auto simp: nth_ring_list ring_next_mod mod_simps)
qed simp

lemma ring_dist_less: "r < len \<Longrightarrow> w < len \<Longrightarrow> ring_dist len r w < len"
  by (auto simp: ring_dist_def)

lemma ring_dist_add: "r < len \<Longrightarrow> w < len \<Longrightarrow> (r + ring_dist len r w) mod len = w"
  by (auto simp: ring_dist_def)

lemma ring_mod:
  "r < len \<Longrightarrow> i < len \<Longrightarrow> (r + i) mod len = (if r + i < len then r + i else r + i - len)"
  for r :: nat
  by (auto simp: le_mod_geq)

lemma ring_mod_less [simp]: "r < len \<Longrightarrow> k mod len < len"
  for r :: nat
  by (rule mod_less_divisor) simp

lemma ring_dist_eqI:
  "r < len \<Longrightarrow> n < len \<Longrightarrow> (r + n) mod len = w \<Longrightarrow> ring_dist len r w = n"
  by (auto simp: ring_dist_def ring_mod split: if_splits)

lemma ring_dist_0_iff: "r < len \<Longrightarrow> w < len \<Longrightarrow> ring_dist len r w = 0 \<longleftrightarrow> r = w"
  by (auto simp: ring_dist_def)

lemma ring_dist_next_w:
  assumes "r < len" "w < len" "ring_next len w \<noteq> r"
  shows "ring_dist len r (ring_next len w) = Suc (ring_dist len r w)"
  using assms by (auto simp: ring_dist_def ring_next_def)

lemma ring_full_iff:
  assumes "r < len" "w < len" "2 \<le> len"
  shows "ring_next len w = r \<longleftrightarrow> ring_dist len r w = len - 1"
  using assms by (auto simp: ring_dist_def ring_next_def)

lemma ring_dist_next_r:
  assumes "r < len" "w < len" "r \<noteq> w"
  shows "Suc (ring_dist len (ring_next len r) w) = ring_dist len r w"
  using assms by (auto simp: ring_dist_def ring_next_def)

text \<open>Writing at a slot outside the window that is read leaves the window as it is.\<close>

lemma ring_list_update_outside:
  assumes "r < length xs" "n < length xs" "w = (r + n) mod length xs"
  shows "ring_list (xs[w := v]) r n = ring_list xs r n"
proof (rule nth_equalityI)
  fix i assume "i < length (ring_list (xs[w := v]) r n)"
  then have i: "i < n" by simp
  with assms have "(r + i) mod length xs \<noteq> (r + n) mod length xs"
    by (auto simp: ring_mod split: if_splits)
  then show "ring_list (xs[w := v]) r n ! i = ring_list xs r n ! i"
    using i assms(3) by (simp add: nth_ring_list)
qed simp

text \<open>Appending and removing one element, on the window between a read and a write index.\<close>

lemma ring_list_push:
  assumes "r < length xs" "w < length xs" "ring_next (length xs) w \<noteq> r"
  shows "ring_list (xs[w := v]) r (ring_dist (length xs) r (ring_next (length xs) w)) =
     ring_list xs r (ring_dist (length xs) r w) @ [v]"
  using assms ring_dist_less [OF assms(1,2)] ring_dist_add [OF assms(1,2)]
  by (simp add: ring_dist_next_w ring_list_snoc ring_list_update_outside)

lemma ring_list_pop:
  assumes "r < length xs" "w < length xs" "r \<noteq> w"
  shows "ring_list xs r (ring_dist (length xs) r w) =
     xs ! r # ring_list xs (ring_next (length xs) r) (ring_dist (length xs) (ring_next (length xs) r) w)"
  using assms by (simp add: ring_list_Cons flip: ring_dist_next_r)

section \<open>Reachable states\<close>

inductive reach :: "('s \<Rightarrow> bool) \<Rightarrow> ('s \<Rightarrow> 's \<Rightarrow> bool) \<Rightarrow> 's \<Rightarrow> bool" for init step where
  initially: "init s \<Longrightarrow> reach init step s"
| stepwise: "reach init step s \<Longrightarrow> step s s' \<Longrightarrow> reach init step s'"

lemma reach_inv:
  assumes "reach init step s" "\<And>s. init s \<Longrightarrow> P s" "\<And>s s'. step s s' \<Longrightarrow> P s \<Longrightarrow> P s'"
  shows "P s"
  using assms(1) by (induction rule: reach.induct) (blast intro: assms)+

end
