(* ===== verification/Queue_Spec.thy ===== *)
theory Queue_Spec
  imports Rodos_Prelude
begin

text \<open>
  The contract of a bounded first-in first-out channel: what the users of \<open>Fifo\<close> and of the
  other ring buffers of the sources rely on. A channel has a content (a list, oldest element
  first) and a capacity; \<open>put\<close> appends or refuses, \<open>get\<close> removes the head or refuses. The
  lemmas of the locale are about arbitrary sequences of calls and are proved once here.
\<close>

section \<open>Sequences of calls\<close>

datatype 'a qop = Put 'a | Get

text \<open>
  Runs a sequence of calls and returns the values that were accepted, the values that were
  delivered and the final state.
\<close>

primrec queue_run ::
  "('q \<Rightarrow> 'a \<Rightarrow> bool \<times> 'q) \<Rightarrow> ('q \<Rightarrow> 'a option \<times> 'q) \<Rightarrow> 'a qop list \<Rightarrow> 'q \<Rightarrow> 'a list \<times> 'a list \<times> 'q"
where
  "queue_run put get [] q = ([], [], q)"
| "queue_run put get (c # cs) q =
     (case c of
        Put v \<Rightarrow>
          (let (ok, q1) = put q v; (acc, out, q2) = queue_run put get cs q1
           in (if ok then v # acc else acc, out, q2))
      | Get \<Rightarrow>
          (let (r, q1) = get q; (acc, out, q2) = queue_run put get cs q1
           in (acc, (case r of None \<Rightarrow> out | Some v \<Rightarrow> v # out), q2)))"

section \<open>The contract\<close>

locale bounded_queue =
  fixes inv :: "'q \<Rightarrow> bool"
    and content :: "'q \<Rightarrow> 'a list"
    and cap :: "'q \<Rightarrow> nat"
    and put :: "'q \<Rightarrow> 'a \<Rightarrow> bool \<times> 'q"
    and get :: "'q \<Rightarrow> 'a option \<times> 'q"
  assumes content_cap: "inv q \<Longrightarrow> length (content q) \<le> cap q"
    and inv_put: "inv q \<Longrightarrow> inv (snd (put q v))"
    and inv_get: "inv q \<Longrightarrow> inv (snd (get q))"
    and cap_put: "inv q \<Longrightarrow> cap (snd (put q v)) = cap q"
    and cap_get: "inv q \<Longrightarrow> cap (snd (get q)) = cap q"
    and put_iff: "inv q \<Longrightarrow> fst (put q v) \<longleftrightarrow> length (content q) < cap q"
    and content_put:
      "inv q \<Longrightarrow> content (snd (put q v)) = (if fst (put q v) then content q @ [v] else content q)"
    and get_None: "inv q \<Longrightarrow> fst (get q) = None \<longleftrightarrow> content q = []"
    and content_get:
      "inv q \<Longrightarrow> content q = (case fst (get q) of None \<Rightarrow> [] | Some v \<Rightarrow> [v]) @ content (snd (get q))"
begin

lemma run_preserves:
  "inv q \<Longrightarrow> queue_run put get cs q = (acc, out, q') \<Longrightarrow>
     inv q' \<and> cap q' = cap q \<and> content q @ acc = out @ content q'"
proof (induction cs arbitrary: q acc out)
  case Nil
  then show ?case by simp
next
  case (Cons c cs)
  show ?case
  proof (cases c)
    case (Put v)
    obtain acc1 where r: "queue_run put get cs (snd (put q v)) = (acc1, out, q')"
      and acc: "acc = (if fst (put q v) then v # acc1 else acc1)"
      using Cons.prems(2) Put by (auto simp: Let_def split: prod.splits)
    from Cons.IH [OF inv_put [OF Cons.prems(1)] r] show ?thesis
      using Cons.prems(1) by (auto simp: acc content_put cap_put split: if_splits)
  next
    case Get
    obtain out1 where r: "queue_run put get cs (snd (get q)) = (acc, out1, q')"
      and out: "out = (case fst (get q) of None \<Rightarrow> out1 | Some v \<Rightarrow> v # out1)"
      using Cons.prems(2) Get by (auto simp: Let_def split: prod.splits)
    from Cons.IH [OF inv_get [OF Cons.prems(1)] r] show ?thesis
      using content_get [OF Cons.prems(1)] cap_get [OF Cons.prems(1)]
      by (auto simp: out split: option.splits)
  qed
qed

lemma run_fifo:
  assumes "inv q" "content q = []" "queue_run put get cs q = (acc, out, q')"
  shows "acc = out @ content q'" and "length acc \<le> length out + cap q"
proof -
  from run_preserves [OF assms(1,3)] assms(2)
  have *: "inv q'" "cap q' = cap q" "acc = out @ content q'" by auto
  then show "acc = out @ content q'" by simp
  from * content_cap [of q'] show "length acc \<le> length out + cap q" by simp
qed

end

end
