(* ===== verification/Fifo.thy ===== *)
theory Fifo
  imports Queue_Spec
begin

text \<open>
  The ring buffers of \<open>api/fifo.h\<close>: \<open>Fifo\<close>, its asynchronous use by one writer and one reader,
  \<open>MultipleReaderFifo\<close> and \<open>BlockFifo\<close>. The template parameter \<open>len\<close> is the length of the
  array \<open>buffer\<close>, as it is in the class; the reference parameter of \<open>get\<close> is an argument and a
  component of the result.
\<close>

section \<open>Fifo\<close>

record 'a fifo =
  buffer :: "'a list"
  writeX :: nat
  readX :: nat
  putErrors :: u32
  getErrors :: u32

definition fifo_len :: "'a fifo \<Rightarrow> nat" where
  "fifo_len f = length (buffer f)"

definition advanceIndex :: "nat \<Rightarrow> nat \<Rightarrow> nat" where
  "advanceIndex len index = (if index < len - 1 then index + 1 else 0)"

definition Fifo_init :: "'a list \<Rightarrow> 'a fifo" where
  "Fifo_init buf = \<lparr>buffer = buf, writeX = 0, readX = 0, putErrors = 0, getErrors = 0\<rparr>"

definition put :: "'a fifo \<Rightarrow> 'a \<Rightarrow> bool \<times> 'a fifo" where
  "put f val =
     (let index = advanceIndex (fifo_len f) (writeX f)
      in if index = readX f then (False, f\<lparr>putErrors := putErrors f + 1\<rparr>)
         else (True, f\<lparr>buffer := (buffer f)[writeX f := val], writeX := index\<rparr>))"

definition putGeneric :: "nat \<Rightarrow> 'a fifo \<Rightarrow> nat \<Rightarrow> 'a \<Rightarrow> bool \<times> 'a fifo" where
  "putGeneric sizeofType f msgLen msg =
     (if \<not> msgLen \<le> sizeofType then (False, f) else put f msg)"

definition get :: "'a fifo \<Rightarrow> 'a \<Rightarrow> bool \<times> 'a \<times> 'a fifo" where
  "get f val =
     (if readX f = writeX f then (False, val, f\<lparr>getErrors := getErrors f + 1\<rparr>)
      else (True, buffer f ! readX f, f\<lparr>readX := advanceIndex (fifo_len f) (readX f)\<rparr>))"

definition getElementCount :: "'a fifo \<Rightarrow> nat" where
  "getElementCount f =
     (let r = readX f; w = writeX f in if r \<le> w then w - r else fifo_len f - r + w)"

definition getFreeSpaceCount :: "'a fifo \<Rightarrow> nat" where
  "getFreeSpaceCount f = fifo_len f - getElementCount f - 1"

definition isFull :: "'a fifo \<Rightarrow> bool" where
  "isFull f \<longleftrightarrow> advanceIndex (fifo_len f) (writeX f) = readX f"

definition isEmpty :: "'a fifo \<Rightarrow> bool" where
  "isEmpty f \<longleftrightarrow> readX f = writeX f"

definition clear :: "'a fifo \<Rightarrow> 'a fifo" where
  "clear f = f\<lparr>readX := 0, writeX := 0\<rparr>"

section \<open>BlockFifo\<close>

text \<open>
  The loop of \<open>advanceIndexEx\<close> subtracts \<open>len\<close> until the index is in range; with \<open>len = 0\<close> it
  would never end, which is the value \<open>None\<close>.
\<close>

partial_function (option) reduceIndex :: "nat \<Rightarrow> nat \<Rightarrow> nat option" where
  "reduceIndex len newIndex =
     (if newIndex \<ge> len then reduceIndex len (newIndex - len) else Some newIndex)"

definition advanceIndexEx :: "nat \<Rightarrow> nat \<Rightarrow> nat \<Rightarrow> nat option" where
  "advanceIndexEx len index advanceSize = reduceIndex len (index + advanceSize)"

text \<open>The pointer result is the index of the buffer it points to; the null pointer is \<open>None\<close>.\<close>

definition getBufferToWrite :: "'a fifo \<Rightarrow> nat option \<times> nat" where
  "getBufferToWrite f =
     (let r = readX f; w = writeX f
      in if r = advanceIndex (fifo_len f) w then (None, 0)
         else if r > w then (Some w, r - w - 1)
         else (Some w, if r = 0 then fifo_len f - w - 1 else fifo_len f - w))"

definition writeConcluded :: "'a fifo \<Rightarrow> nat \<Rightarrow> 'a fifo option" where
  "writeConcluded f numOfWrittenElements =
     map_option (\<lambda>i. f\<lparr>writeX := i\<rparr>) (advanceIndexEx (fifo_len f) (writeX f) numOfWrittenElements)"

definition getBufferToRead :: "'a fifo \<Rightarrow> nat option \<times> nat" where
  "getBufferToRead f =
     (let r = readX f; w = writeX f
      in if r = w then (None, 0)
         else if r < w then (Some r, w - r)
         else (Some r, fifo_len f - r))"

definition readConcluded :: "'a fifo \<Rightarrow> nat \<Rightarrow> 'a fifo option" where
  "readConcluded f sizeRed =
     map_option (\<lambda>i. f\<lparr>readX := i\<rparr>) (advanceIndexEx (fifo_len f) (readX f) sizeRed)"

text \<open>The client writes \<open>vs\<close> through the pointer it was given.\<close>

fun store_block :: "'a list \<Rightarrow> nat \<Rightarrow> 'a list \<Rightarrow> 'a list" where
  "store_block buf i [] = buf"
| "store_block buf i (v # vs) = store_block (buf[i := v]) (i + 1) vs"

definition writeBlock :: "'a fifo \<Rightarrow> 'a list \<Rightarrow> 'a fifo option" where
  "writeBlock f vs =
     (case getBufferToWrite f of
        (None, _) \<Rightarrow> Some f
      | (Some w, maxLen) \<Rightarrow>
          (let us = take maxLen vs
           in writeConcluded (f\<lparr>buffer := store_block (buffer f) w us\<rparr>) (length us)))"

definition readBlock :: "'a fifo \<Rightarrow> nat \<Rightarrow> ('a list \<times> 'a fifo) option" where
  "readBlock f n =
     (case getBufferToRead f of
        (None, _) \<Rightarrow> Some ([], f)
      | (Some r, maxLen) \<Rightarrow>
          (let k = min n maxLen
           in map_option (Pair (take k (drop r (buffer f)))) (readConcluded f k)))"

section \<open>MultipleReaderFifo\<close>

record 'a mrfifo =
  mr_buffer :: "'a list"
  mr_writeX :: nat
  mr_readX :: "nat list"
  mr_overflowCnt :: "u32 list"
  mr_readerCnt :: u32

definition MultipleReaderFifo_init :: "'a list \<Rightarrow> nat \<Rightarrow> 'a mrfifo" where
  "MultipleReaderFifo_init buf numOfreaders =
     \<lparr>mr_buffer = buf, mr_writeX = 0, mr_readX = replicate numOfreaders 0,
      mr_overflowCnt = replicate numOfreaders 0, mr_readerCnt = 0\<rparr>"

text \<open>The result \<open>None\<close> stands for the \<open>-1\<close> of the source: no more readers.\<close>

definition getReaderId :: "'a mrfifo \<Rightarrow> nat option \<times> 'a mrfifo" where
  "getReaderId m =
     (let myId = mr_readerCnt m; m' = m\<lparr>mr_readerCnt := mr_readerCnt m + 1\<rparr>
      in if unat myId \<ge> length (mr_readX m) then (None, m') else (Some (unat myId), m'))"

fun shiftReaders :: "nat \<Rightarrow> nat \<Rightarrow> nat list \<Rightarrow> u32 list \<Rightarrow> nat list \<times> u32 list" where
  "shiftReaders len nextIndex (r # rs) (c # cs) =
     (let (rs', cs') = shiftReaders len nextIndex rs cs
      in if nextIndex = r then (advanceIndex len r # rs', (c + 1) # cs') else (r # rs', c # cs'))"
| "shiftReaders len nextIndex rs cs = (rs, cs)"

definition mr_put :: "'a mrfifo \<Rightarrow> 'a \<Rightarrow> nat \<times> 'a mrfifo" where
  "mr_put m val =
     (let writtenPos = mr_writeX m;
          nextIndex = advanceIndex (length (mr_buffer m)) (mr_writeX m);
          (rs, cs) = shiftReaders (length (mr_buffer m)) nextIndex (mr_readX m) (mr_overflowCnt m)
      in (writtenPos, m\<lparr>mr_readX := rs, mr_overflowCnt := cs,
            mr_buffer := (mr_buffer m)[mr_writeX m := val], mr_writeX := nextIndex\<rparr>))"

definition mr_putGeneric :: "nat \<Rightarrow> 'a mrfifo \<Rightarrow> nat \<Rightarrow> 'a \<Rightarrow> bool \<times> 'a mrfifo" where
  "mr_putGeneric sizeofType m msgLen msg =
     (if \<not> msgLen \<le> sizeofType then (False, m) else (True, snd (mr_put m msg)))"

definition mr_get :: "'a mrfifo \<Rightarrow> 'a \<Rightarrow> nat \<Rightarrow> bool \<times> 'a \<times> 'a mrfifo" where
  "mr_get m val readerId =
     (if readerId \<ge> length (mr_readX m) then (False, val, m)
      else if mr_readX m ! readerId = mr_writeX m then (False, val, m)
      else (True, mr_buffer m ! (mr_readX m ! readerId),
            m\<lparr>mr_readX := (mr_readX m)[readerId :=
                 advanceIndex (length (mr_buffer m)) (mr_readX m ! readerId)]\<rparr>))"

section \<open>Invariant and abstraction of Fifo\<close>

definition fifo_inv :: "'a fifo \<Rightarrow> bool" where
  "fifo_inv f \<longleftrightarrow> 2 \<le> fifo_len f \<and> writeX f < fifo_len f \<and> readX f < fifo_len f"

definition fifo_list :: "'a fifo \<Rightarrow> 'a list" where
  "fifo_list f = ring_list (buffer f) (readX f) (getElementCount f)"

definition fifo_get :: "'a fifo \<Rightarrow> 'a option \<times> 'a fifo" where
  "fifo_get f = (let (ok, v, f') = get f (buffer f ! 0) in (if ok then Some v else None, f'))"

lemma advanceIndex_ring: "advanceIndex = ring_next"
  by (simp add: fun_eq_iff advanceIndex_def ring_next_def)

lemma getElementCount_ring: "getElementCount f = ring_dist (fifo_len f) (readX f) (writeX f)"
  by (simp add: getElementCount_def ring_dist_def Let_def)

lemmas [op_defs] = put_def get_def putGeneric_def clear_def isFull_def isEmpty_def
  getFreeSpaceCount_def fifo_get_def Fifo_init_def

lemma fifo_inv_init [inv_intros]: "2 \<le> length buf \<Longrightarrow> fifo_inv (Fifo_init buf)"
  by (auto simp: fifo_inv_def Fifo_init_def fifo_len_def)

lemma fifo_inv_put [inv_intros]: "fifo_inv f \<Longrightarrow> fifo_inv (snd (put f v))"
  by (auto simp: fifo_inv_def put_def fifo_len_def Let_def advanceIndex_ring)

lemma fifo_inv_get [inv_intros]: "fifo_inv f \<Longrightarrow> fifo_inv (snd (snd (get f v)))"
  by (auto simp: fifo_inv_def get_def fifo_len_def advanceIndex_ring)

lemma fifo_inv_clear [inv_intros]: "fifo_inv f \<Longrightarrow> fifo_inv (clear f)"
  by (auto simp: fifo_inv_def clear_def fifo_len_def)

lemma fifo_len_put [simp]: "fifo_len (snd (put f v)) = fifo_len f"
  by (simp add: put_def fifo_len_def Let_def)

lemma fifo_len_get [simp]: "fifo_len (snd (snd (get f v))) = fifo_len f"
  by (simp add: get_def fifo_len_def)

lemma count_less: "fifo_inv f \<Longrightarrow> getElementCount f < fifo_len f"
  by (simp add: fifo_inv_def getElementCount_ring ring_dist_less)

lemma length_fifo_list [simp]: "length (fifo_list f) = getElementCount f"
  by (simp add: fifo_list_def)

lemma isFull_iff: "fifo_inv f \<Longrightarrow> isFull f \<longleftrightarrow> getElementCount f = fifo_len f - 1"
  by (simp add: fifo_inv_def isFull_def advanceIndex_ring getElementCount_ring ring_full_iff)

lemma isEmpty_iff: "fifo_inv f \<Longrightarrow> isEmpty f \<longleftrightarrow> fifo_list f = []"
  by (auto simp: fifo_inv_def isEmpty_def ring_dist_0_iff getElementCount_ring
      simp flip: length_0_conv)

lemma put_ok_iff: "fifo_inv f \<Longrightarrow> fst (put f v) \<longleftrightarrow> getElementCount f < fifo_len f - 1"
  using isFull_iff [of f] count_less [of f] by (auto simp: put_def isFull_def Let_def)

lemma fifo_list_put:
  assumes "fifo_inv f"
  shows "fifo_list (snd (put f v)) = (if fst (put f v) then fifo_list f @ [v] else fifo_list f)"
proof (cases "fst (put f v)")
  case True
  then have "ring_next (length (buffer f)) (writeX f) \<noteq> readX f"
    by (auto simp: put_def Let_def advanceIndex_ring fifo_len_def split: if_splits)
  with True assms show ?thesis
    by (auto simp: put_def Let_def fifo_list_def getElementCount_ring advanceIndex_ring
        fifo_len_def fifo_inv_def ring_list_push)
next
  case False
  then show ?thesis
    by (auto simp: put_def Let_def fifo_list_def getElementCount_def fifo_len_def split: if_splits)
qed

lemma fifo_get_cases:
  assumes "fifo_inv f"
  shows "fifo_list f =
    (case fst (fifo_get f) of None \<Rightarrow> [] | Some v \<Rightarrow> [v]) @ fifo_list (snd (fifo_get f))"
proof (cases "readX f = writeX f")
  case True
  then show ?thesis by (simp add: fifo_get_def get_def fifo_list_def getElementCount_def)
next
  case False
  with assms show ?thesis
    by (simp add: fifo_get_def get_def fifo_list_def getElementCount_ring advanceIndex_ring
        fifo_len_def fifo_inv_def ring_list_pop)
qed

interpretation fq: bounded_queue fifo_inv fifo_list "\<lambda>f. fifo_len f - 1" put fifo_get
proof
  fix f :: "'a fifo" and v
  assume i: "fifo_inv f"
  show "length (fifo_list f) \<le> fifo_len f - 1" using count_less [OF i] by simp
  show "fifo_inv (snd (put f v))" using i by (rule fifo_inv_put)
  show "fifo_inv (snd (fifo_get f))"
    using fifo_inv_get [OF i, of "buffer f ! 0"] by (simp add: fifo_get_def case_prod_beta)
  show "fifo_len (snd (put f v)) - 1 = fifo_len f - 1" by simp
  show "fifo_len (snd (fifo_get f)) - 1 = fifo_len f - 1"
    by (simp add: fifo_get_def get_def fifo_len_def)
  show "fst (put f v) = (length (fifo_list f) < fifo_len f - 1)" using i by (simp add: put_ok_iff)
  show "fifo_list (snd (put f v)) = (if fst (put f v) then fifo_list f @ [v] else fifo_list f)"
    using i by (rule fifo_list_put)
  show "(fst (fifo_get f) = None) = (fifo_list f = [])"
    using isEmpty_iff [OF i] by (auto simp: fifo_get_def get_def isEmpty_def)
  show "fifo_list f = (case fst (fifo_get f) of None \<Rightarrow> [] | Some v \<Rightarrow> [v]) @ fifo_list (snd (fifo_get f))"
    using i by (rule fifo_get_cases)
qed

section \<open>Blocks\<close>

lemma reduceIndex_mod: "0 < len \<Longrightarrow> reduceIndex len n = Some (n mod len)"
proof (induction n rule: less_induct)
  case (less n)
  then show ?case
    by (cases "len \<le> n") (auto simp: reduceIndex.simps [of len n] le_mod_geq)
qed

lemma reduceIndex_0: "reduceIndex 0 n = Some k \<Longrightarrow> False"
  by (rule reduceIndex.raw_induct [where P = "\<lambda>len n k. len = 0 \<longrightarrow> False", rule_format])
    (auto split: if_splits)

lemma length_store_block [simp]: "length (store_block buf i vs) = length buf"
  by (induction buf i vs rule: store_block.induct) auto

lemma nth_store_block:
  "i + length vs \<le> length buf \<Longrightarrow> j < length buf \<Longrightarrow>
     store_block buf i vs ! j = (if i \<le> j \<and> j < i + length vs then vs ! (j - i) else buf ! j)"
proof (induction buf i vs rule: store_block.induct)
  case (2 buf i v vs)
  then show ?case by (cases "i = j") (auto simp: nth_Cons' Suc_diff_Suc)
qed auto

lemma ring_list_store_block:
  assumes r: "r < length xs" and k: "n + length us < length xs"
    and w: "w = (r + n) mod length xs" and fit: "w + length us \<le> length xs"
  shows "ring_list (store_block xs w us) r (n + length us) = ring_list xs r n @ us"
proof (rule nth_equalityI)
  fix i assume "i < length (ring_list (store_block xs w us) r (n + length us))"
  then have i: "i < n + length us" by simp
  with k have "i < length xs" and "n < length xs" by simp_all
  then have pos: "(r + i) mod length xs = (if r + i < length xs then r + i else r + i - length xs)"
    and w': "w = (if r + n < length xs then r + n else r + n - length xs)"
    using r w by (simp_all add: ring_mod)
  show "ring_list (store_block xs w us) r (n + length us) ! i = (ring_list xs r n @ us) ! i"
  proof (cases "i < n")
    case True
    then have "\<not> (w \<le> (r + i) mod length xs \<and> (r + i) mod length xs < w + length us)"
      using w' r k pos by (auto split: if_splits)
    moreover have "(r + i) mod length xs < length xs"
      by (rule mod_less_divisor) (use r in linarith)
    ultimately show ?thesis
      using True fit by (auto simp: nth_ring_list nth_append nth_store_block)
  next
    case False
    then have "(r + i) mod length xs = w + (i - n)"
      using w' r k fit i pos by (auto split: if_splits)
    then show ?thesis
      using False i fit by (auto simp: nth_ring_list nth_append nth_store_block)
  qed
qed simp

lemma ring_list_take_drop:
  assumes r: "r < length xs" and n: "n < length xs" and k: "k \<le> n" "r + k \<le> length xs"
  shows "ring_list xs r n = take k (drop r xs) @ ring_list xs ((r + k) mod length xs) (n - k)"
proof (rule nth_equalityI)
  fix i assume "i < length (ring_list xs r n)"
  then have i: "i < n" by simp
  have "(r + i) mod length xs = ((r + k) mod length xs + (i - k)) mod length xs" if "\<not> i < k"
  proof -
    from that obtain d where "i = k + d" using le_Suc_ex [of k i] by auto
    then show ?thesis by (simp add: mod_add_left_eq add.assoc)
  qed
  with i r n k show "ring_list xs r n ! i =
      (take k (drop r xs) @ ring_list xs ((r + k) mod length xs) (n - k)) ! i"
    by (cases "i < k") (auto simp: nth_ring_list nth_append)
qed (use k in simp)

lemma writeBlock_spec:
  assumes "fifo_inv f"
  shows "\<exists>f'. writeBlock f vs = Some f' \<and> fifo_inv f' \<and> fifo_len f' = fifo_len f \<and>
      fifo_list f' = fifo_list f @ take (snd (getBufferToWrite f)) vs"
proof (cases "getBufferToWrite f")
  case (Pair p maxLen)
  show ?thesis
  proof (cases p)
    case None
    with Pair have "maxLen = 0" by (auto simp: getBufferToWrite_def Let_def split: if_splits)
    with None Pair assms show ?thesis by (simp add: writeBlock_def)
  next
    case (Some w)
    let ?L = "length (buffer f)"
    define us where "us = take maxLen vs"
    let ?n = "getElementCount f"
    from assms have len: "readX f < ?L" "writeX f < ?L" "2 \<le> ?L"
      by (auto simp: fifo_inv_def fifo_len_def)
    have red: "reduceIndex ?L k = Some (k mod ?L)" for k
      using len by (intro reduceIndex_mod) linarith
    have w: "w = writeX f" "w = (readX f + ?n) mod ?L"
      using Pair Some len
      by (auto simp: getBufferToWrite_def Let_def getElementCount_ring ring_dist_add fifo_len_def
          split: if_splits)
    have fit: "w + maxLen \<le> ?L" "?n + maxLen < ?L"
      using Pair Some len
      by (auto simp: getBufferToWrite_def Let_def getElementCount_def advanceIndex_def fifo_len_def
          split: if_splits)
    have us: "length us \<le> maxLen" by (simp add: us_def)
    let ?w' = "(w + length us) mod ?L"
    let ?f' = "f\<lparr>buffer := store_block (buffer f) w us, writeX := ?w'\<rparr>"
    have r: "writeBlock f vs = Some ?f'"
      using Pair Some len w
      by (simp add: writeBlock_def writeConcluded_def advanceIndexEx_def red fifo_len_def us_def)
    have "(readX f + (?n + length us)) mod ?L = ?w'"
      using w(2) by (simp add: mod_add_left_eq add.assoc)
    then have cnt: "ring_dist ?L (readX f) ?w' = ?n + length us"
      using len fit us by (intro ring_dist_eqI) auto
    have "fifo_list ?f' = ring_list (store_block (buffer f) w us) (readX f) (?n + length us)"
      by (simp add: fifo_list_def getElementCount_ring [of ?f'] fifo_len_def cnt)
    also have "\<dots> = fifo_list f @ us"
      unfolding fifo_list_def using fit us w(2) len by (intro ring_list_store_block) auto
    finally have "fifo_list ?f' = fifo_list f @ us" .
    moreover have "fifo_inv ?f'" using assms len by (simp add: fifo_inv_def fifo_len_def)
    ultimately show ?thesis using r Pair by (auto simp: fifo_len_def us_def)
  qed
qed

lemma readBlock_spec:
  assumes "fifo_inv f"
  shows "\<exists>out f'. readBlock f n = Some (out, f') \<and> fifo_inv f' \<and> fifo_len f' = fifo_len f \<and>
      fifo_list f = out @ fifo_list f' \<and> length out = min n (snd (getBufferToRead f))"
proof (cases "getBufferToRead f")
  case (Pair p maxLen)
  show ?thesis
  proof (cases p)
    case None
    with Pair have "maxLen = 0" by (auto simp: getBufferToRead_def Let_def split: if_splits)
    with None Pair assms show ?thesis by (simp add: readBlock_def)
  next
    case (Some r)
    let ?k = "min n maxLen" and ?L = "length (buffer f)" and ?m = "getElementCount f"
    from assms have len: "readX f < ?L" "writeX f < ?L" "2 \<le> ?L"
      by (auto simp: fifo_inv_def fifo_len_def)
    have red: "reduceIndex ?L k = Some (k mod ?L)" for k
      using len by (intro reduceIndex_mod) linarith
    have r: "r = readX f" and fit: "r + maxLen \<le> ?L" "maxLen \<le> ?m"
      using Pair Some len
      by (auto simp: getBufferToRead_def Let_def getElementCount_def fifo_len_def split: if_splits)
    have m: "?m < ?L" using count_less [OF assms] by (simp add: fifo_len_def)
    let ?r' = "(r + ?k) mod ?L"
    let ?f' = "f\<lparr>readX := ?r'\<rparr>"
    have res: "readBlock f n = Some (take ?k (drop r (buffer f)), ?f')"
      using Pair Some len r
      by (simp add: readBlock_def readConcluded_def advanceIndexEx_def red fifo_len_def Let_def)
    have "(r + ?k + (?m - ?k)) mod ?L = writeX f"
      using len r fit by (simp add: getElementCount_ring ring_dist_add fifo_len_def)
    then have "ring_dist ?L ?r' (writeX f) = ?m - ?k"
      using len m ring_mod_less [OF len(1)] by (intro ring_dist_eqI) (auto simp: mod_add_left_eq)
    then have "fifo_list f = take ?k (drop r (buffer f)) @ fifo_list ?f'"
      using ring_list_take_drop [OF len(1) m, of ?k] r fit
      by (simp add: fifo_list_def getElementCount_ring fifo_len_def)
    moreover have "fifo_inv ?f'" using assms len by (simp add: fifo_inv_def fifo_len_def)
    ultimately show ?thesis using res Pair fit by (auto simp: fifo_len_def)
  qed
qed

section \<open>Several readers\<close>

definition mr_inv :: "'a mrfifo \<Rightarrow> bool" where
  "mr_inv m \<longleftrightarrow> 2 \<le> length (mr_buffer m) \<and> mr_writeX m < length (mr_buffer m) \<and>
     list_all (\<lambda>r. r < length (mr_buffer m)) (mr_readX m) \<and>
     length (mr_overflowCnt m) = length (mr_readX m)"

text \<open>What reader \<open>i\<close> has not read yet.\<close>

definition mr_list :: "'a mrfifo \<Rightarrow> nat \<Rightarrow> 'a list" where
  "mr_list m i = ring_list (mr_buffer m) (mr_readX m ! i)
     (ring_dist (length (mr_buffer m)) (mr_readX m ! i) (mr_writeX m))"

lemma shiftReaders_length:
  "length cs = length rs \<Longrightarrow> length (fst (shiftReaders L k rs cs)) = length rs \<and>
     length (snd (shiftReaders L k rs cs)) = length rs"
  by (induction L k rs cs rule: shiftReaders.induct) (auto simp: case_prod_beta Let_def)

lemma shiftReaders_nth:
  "length cs = length rs \<Longrightarrow> i < length rs \<Longrightarrow>
     fst (shiftReaders L k rs cs) ! i = (if k = rs ! i then advanceIndex L k else rs ! i) \<and>
     snd (shiftReaders L k rs cs) ! i = (if k = rs ! i then cs ! i + 1 else cs ! i)"
proof (induction L k rs cs arbitrary: i rule: shiftReaders.induct)
  case (1 L k r rs c cs)
  then show ?case by (cases i) (auto simp: case_prod_beta Let_def)
qed auto

lemma mr_inv_put [inv_intros]:
  assumes "mr_inv m"
  shows "mr_inv (snd (mr_put m v))"
proof -
  let ?L = "length (mr_buffer m)"
  let ?s = "shiftReaders ?L (ring_next ?L (mr_writeX m)) (mr_readX m) (mr_overflowCnt m)"
  from assms have l: "length (mr_overflowCnt m) = length (mr_readX m)" "mr_writeX m < ?L"
    by (auto simp: mr_inv_def)
  have "list_all (\<lambda>r. r < ?L) (fst ?s)"
    using assms shiftReaders_length [OF l(1)] shiftReaders_nth [OF l(1)] l(2)
    by (simp add: list_all_length mr_inv_def advanceIndex_ring)
  with assms l shiftReaders_length [OF l(1)] show ?thesis
    by (simp add: mr_inv_def mr_put_def Let_def case_prod_beta advanceIndex_ring)
qed

lemma mr_inv_get [inv_intros]: "mr_inv m \<Longrightarrow> mr_inv (snd (snd (mr_get m v i)))"
  by (auto simp: mr_inv_def mr_get_def advanceIndex_ring list_all_length nth_list_update)

lemma mr_list_put:
  assumes inv: "mr_inv m" and i: "i < length (mr_readX m)"
  defines "full \<equiv> length (mr_list m i) = length (mr_buffer m) - 1"
  shows "mr_list (snd (mr_put m v)) i = (if full then tl (mr_list m i) else mr_list m i) @ [v] \<and>
     mr_overflowCnt (snd (mr_put m v)) ! i = (if full then mr_overflowCnt m ! i + 1 else mr_overflowCnt m ! i)"
proof -
  let ?L = "length (mr_buffer m)" and ?r = "mr_readX m ! i" and ?w = "mr_writeX m"
  let ?n = "ring_next ?L ?w" and ?b = "(mr_buffer m)[?w := v]"
  from inv i have len: "?r < ?L" "?w < ?L" "2 \<le> ?L"
    and ov: "length (mr_overflowCnt m) = length (mr_readX m)"
    by (auto simp: mr_inv_def list_all_length)
  have full: "full \<longleftrightarrow> ?n = ?r"
    using ring_full_iff [OF len] by (simp add: full_def mr_list_def)
  have put: "mr_list (snd (mr_put m v)) i =
      ring_list ?b (if full then ring_next ?L ?n else ?r)
        (ring_dist ?L (if full then ring_next ?L ?n else ?r) ?n)"
    and cnt: "mr_overflowCnt (snd (mr_put m v)) ! i =
      (if full then mr_overflowCnt m ! i + 1 else mr_overflowCnt m ! i)"
    using shiftReaders_nth [OF ov i, of ?L ?n] full
    by (simp_all add: mr_list_def mr_put_def Let_def case_prod_beta advanceIndex_ring)
  have "mr_list (snd (mr_put m v)) i = (if full then tl (mr_list m i) else mr_list m i) @ [v]"
  proof (cases full)
    case False
    with len full show ?thesis unfolding put by (simp add: ring_list_push mr_list_def [of m])
  next
    case True
    with full have r: "?n = ?r" by simp
    then have neq: "ring_next ?L ?r \<noteq> ?r" "?r \<noteq> ?w"
      using len by (auto simp: ring_next_def split: if_splits)
    then have "mr_list (snd (mr_put m v)) i =
        ring_list (mr_buffer m) (ring_next ?L ?r) (ring_dist ?L (ring_next ?L ?r) ?w) @ [v]"
      using True put r len ring_list_push [of "ring_next ?L ?r" "mr_buffer m" ?w v] by simp
    moreover have "mr_list m i = mr_buffer m ! ?r #
        ring_list (mr_buffer m) (ring_next ?L ?r) (ring_dist ?L (ring_next ?L ?r) ?w)"
      using len neq by (simp add: mr_list_def ring_list_pop)
    ultimately show ?thesis using True by simp
  qed
  with cnt show ?thesis by simp
qed

lemma mr_list_get:
  assumes inv: "mr_inv m" and i: "i < length (mr_readX m)" and j: "j < length (mr_readX m)"
  shows "fst (mr_get m v i) \<longleftrightarrow> mr_list m i \<noteq> []"
    and "fst (mr_get m v i) \<Longrightarrow> mr_list m i = fst (snd (mr_get m v i)) # mr_list (snd (snd (mr_get m v i))) i"
    and "j \<noteq> i \<Longrightarrow> mr_list (snd (snd (mr_get m v i))) j = mr_list m j"
proof -
  from inv i have len: "mr_readX m ! i < length (mr_buffer m)" "mr_writeX m < length (mr_buffer m)"
    by (auto simp: mr_inv_def list_all_length)
  show "fst (mr_get m v i) \<longleftrightarrow> mr_list m i \<noteq> []"
    using i len ring_dist_0_iff [OF len]
    by (auto simp: mr_get_def mr_list_def simp flip: length_0_conv)
  show "fst (mr_get m v i) \<Longrightarrow> mr_list m i = fst (snd (mr_get m v i)) # mr_list (snd (snd (mr_get m v i))) i"
    using i len by (auto simp: mr_get_def mr_list_def ring_list_pop advanceIndex_ring split: if_splits)
  show "j \<noteq> i \<Longrightarrow> mr_list (snd (snd (mr_get m v i))) j = mr_list m j"
    by (simp add: mr_get_def mr_list_def)
qed

section \<open>Properties\<close>



text \<open>
  A block writer and a block reader of a \<open>BlockFifo\<close> preserve the stream: writing a block
  through the pointer of \<open>getBufferToWrite\<close>, at most the announced number of elements, and
  calling \<open>writeConcluded\<close> always returns and appends exactly that prefix; reading through
  \<open>getBufferToRead\<close> and calling \<open>readConcluded\<close> always returns and removes exactly what was read
  from the front.
\<close>

lemma block_fifo_stream:
  assumes "fifo_inv f"
  shows "\<exists>f1 out f2. writeBlock f vs = Some f1 \<and> readBlock f1 n = Some (out, f2) \<and> fifo_inv f2 \<and>
    fifo_list f @ take (snd (getBufferToWrite f)) vs = out @ fifo_list f2 \<and>
    length out = min n (snd (getBufferToRead f1))"
proof -
  from writeBlock_spec [OF assms] obtain f1 where f1: "writeBlock f vs = Some f1" "fifo_inv f1"
    "fifo_list f1 = fifo_list f @ take (snd (getBufferToWrite f)) vs" by blast
  from readBlock_spec [OF f1(2)] obtain out f2 where "readBlock f1 n = Some (out, f2)" "fifo_inv f2"
    "fifo_list f1 = out @ fifo_list f2" "length out = min n (snd (getBufferToRead f1))" by blast
  with f1 show ?thesis by auto
qed

lemma block_fifo_stream_witness:
  "fifo_inv (Fifo_init [0, 0, 0, 0 :: nat]) \<and>
   (\<exists>f1 out f2. writeBlock (Fifo_init [0, 0, 0, 0 :: nat]) [1, 2, 3, 4] = Some f1 \<and>
      readBlock f1 2 = Some (out, f2) \<and> fifo_inv f2 \<and>
      fifo_list (Fifo_init [0, 0, 0, 0 :: nat]) @
        take (snd (getBufferToWrite (Fifo_init [0, 0, 0, 0 :: nat]))) [1, 2, 3, 4] = out @ fifo_list f2 \<and>
      length out = min 2 (snd (getBufferToRead f1)))"
proof -
  have i: "fifo_inv (Fifo_init [0, 0, 0, 0 :: nat])" by (rule fifo_inv_init) simp
  show ?thesis using i block_fifo_stream [OF i, of "[1, 2, 3, 4]" 2] by simp
qed

text \<open>
  A \<open>MultipleReaderFifo\<close> never refuses a value: after \<open>put\<close> every reader has the new value
  last in what it has not read yet, a reader that was \<open>len - 1\<close> values behind loses exactly its
  oldest one and its overflow counter counts it, and the others lose nothing.
\<close>

lemma multiple_reader_put:
  assumes "mr_inv m" "i < length (mr_readX m)"
  shows "mr_inv (snd (mr_put m v)) \<and>
    (if length (mr_list m i) = length (mr_buffer m) - 1
     then mr_list (snd (mr_put m v)) i = tl (mr_list m i) @ [v] \<and>
          mr_overflowCnt (snd (mr_put m v)) ! i = mr_overflowCnt m ! i + 1
     else mr_list (snd (mr_put m v)) i = mr_list m i @ [v] \<and>
          mr_overflowCnt (snd (mr_put m v)) ! i = mr_overflowCnt m ! i)"
  using mr_inv_put [OF assms(1)] mr_list_put [OF assms] by simp

lemma multiple_reader_put_witness:
  "mr_overflowCnt (snd (mr_put (snd (mr_put (MultipleReaderFifo_init [0, 0 :: nat] 2) 5)) 6)) ! 1 = 1"
proof -
  let ?m = "snd (mr_put (MultipleReaderFifo_init [0, 0 :: nat] 2) 5)"
  have "mr_inv ?m" and "1 < length (mr_readX ?m)"
    and "length (mr_list ?m 1) = length (mr_buffer ?m) - 1" and "mr_overflowCnt ?m ! 1 = 0"
    by code_simp+
  then show ?thesis using multiple_reader_put [of ?m 1 6] by simp
qed

end
