(* ===== verification/Fifo_Async.thy ===== *)
theory Fifo_Async
  imports Fifo
begin

text \<open>
  \<open>Fifo\<close> used the way its documentation allows: one writer and one reader that interrupt each
  other at any point. \<open>Fifo::put\<close> and \<open>Fifo::get\<close> are cut at their accesses to the shared
  members: the test against the other side's index, the copy of the element, the store of the
  side's own index. The ghost lists record what was accepted and what was delivered.
\<close>

section \<open>The interleaving model\<close>

datatype 'a writer_pc =
    W_Idle
  | W_Tested 'a nat  \<comment> \<open>fifo not full; \<open>index\<close> computed, nothing stored yet\<close>
  | W_Stored 'a nat  \<comment> \<open>element stored, \<open>writeX\<close> not yet moved\<close>

datatype 'a reader_pc =
    R_Idle
  | R_Tested         \<comment> \<open>fifo not empty\<close>
  | R_Copied 'a      \<comment> \<open>element copied, \<open>readX\<close> not yet moved\<close>

record 'a afifo =
  a_fifo :: "'a fifo"
  a_wpc :: "'a writer_pc"
  a_rpc :: "'a reader_pc"
  a_accepted :: "'a list"
  a_delivered :: "'a list"

definition afifo_start :: "'a list \<Rightarrow> 'a afifo" where
  "afifo_start buf = \<lparr>a_fifo = Fifo_init buf, a_wpc = W_Idle, a_rpc = R_Idle,
     a_accepted = [], a_delivered = []\<rparr>"

inductive put_step :: "'a afifo \<Rightarrow> 'a afifo \<Rightarrow> bool" where
  put_full: "a_wpc s = W_Idle \<Longrightarrow> f = a_fifo s \<Longrightarrow>
     advanceIndex (fifo_len f) (writeX f) = readX f \<Longrightarrow>
     put_step s (s\<lparr>a_fifo := f\<lparr>putErrors := putErrors f + 1\<rparr>\<rparr>)"
| put_test: "a_wpc s = W_Idle \<Longrightarrow> f = a_fifo s \<Longrightarrow>
     index = advanceIndex (fifo_len f) (writeX f) \<Longrightarrow> index \<noteq> readX f \<Longrightarrow>
     put_step s (s\<lparr>a_wpc := W_Tested val index\<rparr>)"
| put_store: "a_wpc s = W_Tested val index \<Longrightarrow> f = a_fifo s \<Longrightarrow>
     put_step s (s\<lparr>a_wpc := W_Stored val index,
       a_fifo := f\<lparr>buffer := (buffer f)[writeX f := val]\<rparr>\<rparr>)"
| put_publish: "a_wpc s = W_Stored val index \<Longrightarrow> f = a_fifo s \<Longrightarrow>
     put_step s (s\<lparr>a_wpc := W_Idle, a_fifo := f\<lparr>writeX := index\<rparr>,
       a_accepted := a_accepted s @ [val]\<rparr>)"

inductive get_step :: "'a afifo \<Rightarrow> 'a afifo \<Rightarrow> bool" where
  get_empty: "a_rpc s = R_Idle \<Longrightarrow> f = a_fifo s \<Longrightarrow> readX f = writeX f \<Longrightarrow>
     get_step s (s\<lparr>a_fifo := f\<lparr>getErrors := getErrors f + 1\<rparr>\<rparr>)"
| get_test: "a_rpc s = R_Idle \<Longrightarrow> f = a_fifo s \<Longrightarrow> readX f \<noteq> writeX f \<Longrightarrow>
     get_step s (s\<lparr>a_rpc := R_Tested\<rparr>)"
| get_copy: "a_rpc s = R_Tested \<Longrightarrow> f = a_fifo s \<Longrightarrow>
     get_step s (s\<lparr>a_rpc := R_Copied (buffer f ! readX f)\<rparr>)"
| get_publish: "a_rpc s = R_Copied val \<Longrightarrow> f = a_fifo s \<Longrightarrow>
     get_step s (s\<lparr>a_rpc := R_Idle, a_fifo := f\<lparr>readX := advanceIndex (fifo_len f) (readX f)\<rparr>,
       a_delivered := a_delivered s @ [val]\<rparr>)"

inductive async_reachable :: "'a list \<Rightarrow> 'a afifo \<Rightarrow> bool" for buf where
  async_start: "async_reachable buf (afifo_start buf)"
| async_put: "async_reachable buf s \<Longrightarrow> put_step s t \<Longrightarrow> async_reachable buf t"
| async_get: "async_reachable buf s \<Longrightarrow> get_step s t \<Longrightarrow> async_reachable buf t"

section \<open>The invariant\<close>

definition writer_ok :: "'a fifo \<Rightarrow> 'a writer_pc \<Rightarrow> bool" where
  "writer_ok f pc =
     (case pc of
        W_Idle \<Rightarrow> True
      | W_Tested val index \<Rightarrow> index = advanceIndex (fifo_len f) (writeX f) \<and> index \<noteq> readX f
      | W_Stored val index \<Rightarrow> index = advanceIndex (fifo_len f) (writeX f) \<and> index \<noteq> readX f \<and>
          buffer f ! writeX f = val)"

definition reader_ok :: "'a fifo \<Rightarrow> 'a reader_pc \<Rightarrow> bool" where
  "reader_ok f pc =
     (case pc of
        R_Idle \<Rightarrow> True
      | R_Tested \<Rightarrow> readX f \<noteq> writeX f
      | R_Copied val \<Rightarrow> readX f \<noteq> writeX f \<and> buffer f ! readX f = val)"

definition async_inv :: "'a afifo \<Rightarrow> bool" where
  "async_inv s \<longleftrightarrow> fifo_inv (a_fifo s) \<and> writer_ok (a_fifo s) (a_wpc s) \<and>
     reader_ok (a_fifo s) (a_rpc s) \<and> a_accepted s = a_delivered s @ fifo_list (a_fifo s)"

lemma fifo_list_cong:
  "buffer f = buffer g \<Longrightarrow> readX f = readX g \<Longrightarrow> writeX f = writeX g \<Longrightarrow> fifo_list f = fifo_list g"
  by (simp add: fifo_list_def getElementCount_ring fifo_len_def)

text \<open>Storing the element before \<open>writeX\<close> moves does not change what the reader sees.\<close>

lemma fifo_list_store:
  assumes "fifo_inv f"
  shows "fifo_list (f\<lparr>buffer := (buffer f)[writeX f := val]\<rparr>) = fifo_list f"
  using assms ring_dist_add [of "readX f" "fifo_len f" "writeX f"]
    ring_dist_less [of "readX f" "fifo_len f" "writeX f"]
  by (simp add: fifo_list_def getElementCount_ring fifo_inv_def fifo_len_def ring_list_update_outside)

lemma fifo_list_publish_write:
  assumes "fifo_inv f" "advanceIndex (fifo_len f) (writeX f) \<noteq> readX f"
  shows "fifo_list (f\<lparr>writeX := advanceIndex (fifo_len f) (writeX f)\<rparr>) =
    fifo_list f @ [buffer f ! writeX f]"
  using assms ring_list_push [of "readX f" "buffer f" "writeX f" "buffer f ! writeX f"]
  by (simp add: fifo_list_def getElementCount_ring fifo_inv_def fifo_len_def advanceIndex_ring)

lemma fifo_list_publish_read:
  assumes "fifo_inv f" "readX f \<noteq> writeX f"
  shows "fifo_list f =
    buffer f ! readX f # fifo_list (f\<lparr>readX := advanceIndex (fifo_len f) (readX f)\<rparr>)"
  using assms
  by (simp add: fifo_list_def getElementCount_ring fifo_inv_def fifo_len_def advanceIndex_ring
      ring_list_pop)

lemma async_inv_start: "2 \<le> length buf \<Longrightarrow> async_inv (afifo_start buf)"
  using fifo_inv_init [of buf]
  by (simp add: async_inv_def afifo_start_def writer_ok_def reader_ok_def
      fifo_list_def getElementCount_def Fifo_init_def)

lemma async_inv_put_step: "put_step s t \<Longrightarrow> async_inv s \<Longrightarrow> async_inv t"
proof (induction rule: put_step.induct)
  case (put_full s f)
  then show ?case
    by (auto simp: async_inv_def fifo_inv_def writer_ok_def reader_ok_def fifo_len_def
        split: reader_pc.splits intro: fifo_list_cong)
next
  case (put_test s f index val)
  then show ?case by (simp add: async_inv_def writer_ok_def)
next
  case (put_store s val index f)
  then have "fifo_inv f" by (simp add: async_inv_def)
  with put_store fifo_list_store [OF this, of val] show ?case
    by (auto simp: async_inv_def fifo_inv_def writer_ok_def reader_ok_def fifo_len_def
        split: reader_pc.splits)
next
  case (put_publish s val index f)
  then have f: "fifo_inv f" "index = advanceIndex (fifo_len f) (writeX f)" "index \<noteq> readX f"
    "buffer f ! writeX f = val" by (auto simp: async_inv_def writer_ok_def)
  with put_publish fifo_list_publish_write [of f] show ?case
    by (auto simp: async_inv_def fifo_inv_def writer_ok_def reader_ok_def fifo_len_def
        advanceIndex_ring split: reader_pc.splits)
qed

text \<open>The slot after \<open>writeX\<close> can only become \<open>readX\<close> by the reader passing over it.\<close>

lemma next_read_not_next_write:
  assumes "fifo_inv f" "advanceIndex (fifo_len f) (writeX f) \<noteq> readX f" "readX f \<noteq> writeX f"
  shows "advanceIndex (fifo_len f) (writeX f) \<noteq> advanceIndex (fifo_len f) (readX f)"
  using assms by (auto simp: fifo_inv_def advanceIndex_def split: if_splits)

lemma async_inv_get_step: "get_step s t \<Longrightarrow> async_inv s \<Longrightarrow> async_inv t"
proof (induction rule: get_step.induct)
  case (get_empty s f)
  then show ?case
    by (auto simp: async_inv_def fifo_inv_def writer_ok_def reader_ok_def fifo_len_def
        split: writer_pc.splits intro: fifo_list_cong)
next
  case (get_test s f)
  then show ?case by (simp add: async_inv_def reader_ok_def)
next
  case (get_copy s f)
  then show ?case by (simp add: async_inv_def reader_ok_def)
next
  case (get_publish s val f)
  then have f: "fifo_inv f" "readX f \<noteq> writeX f" "buffer f ! readX f = val"
    by (auto simp: async_inv_def reader_ok_def)
  with get_publish fifo_list_publish_read [OF f(1,2)] next_read_not_next_write [OF f(1) _ f(2)]
  show ?case
    by (auto simp: async_inv_def fifo_inv_def writer_ok_def reader_ok_def fifo_len_def
        advanceIndex_ring split: writer_pc.splits)
qed

lemma async_reachable_inv: "async_reachable buf s \<Longrightarrow> 2 \<le> length buf \<Longrightarrow> async_inv s"
  by (induction rule: async_reachable.induct)
    (auto intro: async_inv_start async_inv_put_step async_inv_get_step)

section \<open>Properties\<close>

text \<open>
  C7. One writer and one reader may interrupt each other anywhere inside \<open>put\<close> and \<open>get\<close>: in
  every reachable state the delivered values followed by the stored ones are the accepted
  values in order, the value a reader has copied is the oldest stored one, and the slot a
  writer is writing is none of the slots that hold a stored value.
\<close>

theorem async_fifo_consistent:
  assumes "async_reachable buf s" "2 \<le> length buf"
  shows "a_accepted s = a_delivered s @ fifo_list (a_fifo s) \<and>
    (\<forall>v. a_rpc s = R_Copied v \<longrightarrow> (\<exists>rest. fifo_list (a_fifo s) = v # rest)) \<and>
    (\<forall>v. fifo_list ((a_fifo s)\<lparr>buffer := (buffer (a_fifo s))[writeX (a_fifo s) := v]\<rparr>) =
         fifo_list (a_fifo s))"
proof -
  have inv: "async_inv s" using assms by (rule async_reachable_inv)
  then have f: "fifo_inv (a_fifo s)" by (simp add: async_inv_def)
  have "\<exists>rest. fifo_list (a_fifo s) = v # rest" if "a_rpc s = R_Copied v" for v
    using inv that fifo_list_publish_read [OF f] by (auto simp: async_inv_def reader_ok_def)
  with inv fifo_list_store [OF f] show ?thesis by (simp add: async_inv_def)
qed

text \<open>A run in which the reader is interrupted by a complete \<open>put\<close> between its copy and its index update.\<close>

theorem async_fifo_consistent_witness:
  "\<exists>s :: nat afifo. async_reachable [0, 0, 0] s \<and> a_rpc s = R_Copied 5 \<and> a_wpc s = W_Stored 6 2 \<and>
     a_accepted s = a_delivered s @ fifo_list (a_fifo s)"
proof -
  let ?f0 = "Fifo_init [0, 0, 0 :: nat]"
  let ?f1 = "?f0\<lparr>buffer := [5, 0, 0]\<rparr>" and ?f2 = "?f0\<lparr>buffer := [5, 0, 0], writeX := 1\<rparr>"
  let ?f3 = "?f0\<lparr>buffer := [5, 6, 0], writeX := 1\<rparr>"
  let ?s0 = "afifo_start [0, 0, 0 :: nat]"
  note d = afifo_start_def Fifo_init_def fifo_len_def advanceIndex_def
  have "async_reachable [0, 0, 0] (?s0\<lparr>a_wpc := W_Tested 5 1\<rparr>)"
    by (rule async_put [OF async_start]) (auto simp: d put_step.simps)
  then have "async_reachable [0, 0, 0] (?s0\<lparr>a_wpc := W_Stored 5 1, a_fifo := ?f1\<rparr>)"
    by (rule async_put) (auto simp: d put_step.simps)
  then have "async_reachable [0, 0, 0] (?s0\<lparr>a_fifo := ?f2, a_accepted := [5]\<rparr>)"
    by (rule async_put) (auto simp: d put_step.simps)
  then have "async_reachable [0, 0, 0] (?s0\<lparr>a_fifo := ?f2, a_accepted := [5], a_rpc := R_Tested\<rparr>)"
    by (rule async_get) (auto simp: d get_step.simps)
  then have "async_reachable [0, 0, 0] (?s0\<lparr>a_fifo := ?f2, a_accepted := [5], a_rpc := R_Copied 5\<rparr>)"
    by (rule async_get) (auto simp: d get_step.simps)
  then have "async_reachable [0, 0, 0]
      (?s0\<lparr>a_fifo := ?f2, a_accepted := [5], a_rpc := R_Copied 5, a_wpc := W_Tested 6 2\<rparr>)"
    by (rule async_put) (auto simp: d put_step.simps)
  then have r: "async_reachable [0, 0, 0]
      (?s0\<lparr>a_fifo := ?f3, a_accepted := [5], a_rpc := R_Copied 5, a_wpc := W_Stored 6 2\<rparr>)"
    by (rule async_put) (auto simp: d put_step.simps)
  show ?thesis using r async_fifo_consistent [OF r] by (intro exI) auto
qed

end
