(* ===== verification/Comm_Buffer.thy ===== *)
theory Comm_Buffer
  imports Rodos_Prelude
begin

text \<open>
  \<open>CommBuffer\<close> of \<open>api/commbuffer.h\<close>: three slots and three pointers, exchanged so that a
  reader and a writer can overlap. A pointer is the index of its slot. The first part models the
  calls one after the other; the second lets one writer and one reader interrupt each other
  between any two accesses to the shared members.
\<close>

section \<open>The calls\<close>

record 'a commbuffer =
  cb_buffer :: "'a list"
  cb_writer :: nat
  cb_reader :: nat
  cb_intermediate :: nat
  cb_readingNow :: bool
  cb_newDataAvailable :: bool
  cb_writeCnt :: u64
  cb_readCnt :: u64

definition CommBuffer_init :: "'a \<Rightarrow> 'a \<Rightarrow> 'a \<Rightarrow> 'a commbuffer" where
  "CommBuffer_init a b c = \<lparr>cb_buffer = [a, b, c], cb_writer = 0, cb_reader = 1,
     cb_intermediate = 2, cb_readingNow = False, cb_newDataAvailable = False,
     cb_writeCnt = 0, cb_readCnt = 0\<rparr>"

text \<open>The three parts of \<open>put\<close>: the store of the data, the exchange of reader and writer, and
  the exchange with the intermediate buffer while a reader is active.\<close>

definition cb_store :: "'a \<Rightarrow> 'a commbuffer \<Rightarrow> 'a commbuffer" where
  "cb_store data c = c\<lparr>cb_buffer := (cb_buffer c)[cb_writer c := data]\<rparr>"

definition cb_swap :: "'a commbuffer \<Rightarrow> 'a commbuffer" where
  "cb_swap c = c\<lparr>cb_reader := cb_writer c, cb_writer := cb_reader c\<rparr>"

definition cb_check :: "'a commbuffer \<Rightarrow> 'a commbuffer" where
  "cb_check c =
     (if cb_readingNow c
      then c\<lparr>cb_writer := cb_intermediate c, cb_intermediate := cb_writer c\<rparr> else c)"

definition cb_put :: "'a \<Rightarrow> 'a commbuffer \<Rightarrow> 'a commbuffer" where
  "cb_put data c =
     (let c1 = cb_check (cb_swap (cb_store data c))
      in c1\<lparr>cb_writeCnt := cb_writeCnt c1 + 1, cb_newDataAvailable := True\<rparr>)"

definition cb_putGeneric :: "nat \<Rightarrow> nat \<Rightarrow> 'a \<Rightarrow> 'a commbuffer \<Rightarrow> bool \<times> 'a commbuffer" where
  "cb_putGeneric sizeofType len msg c =
     (if \<not> len \<le> sizeofType then (False, c) else (True, cb_put msg c))"

text \<open>\<open>zero\<close> is the value whose bytes are all zero.\<close>

definition cb_putZero :: "'a \<Rightarrow> 'a commbuffer \<Rightarrow> 'a commbuffer" where
  "cb_putZero zero c =
     (let c1 = cb_store zero c in cb_put (cb_buffer c1 ! cb_writer c1) c1)"

definition cb_get :: "'a commbuffer \<Rightarrow> 'a \<times> 'a commbuffer" where
  "cb_get c =
     (let c1 = c\<lparr>cb_newDataAvailable := False, cb_readingNow := True\<rparr>;
          data = cb_buffer c1 ! cb_reader c1
      in (data, c1\<lparr>cb_readingNow := False, cb_readCnt := cb_readCnt c1 + 1\<rparr>))"

definition cb_getOnlyIfNewData :: "'a \<Rightarrow> 'a commbuffer \<Rightarrow> bool \<times> 'a \<times> 'a commbuffer" where
  "cb_getOnlyIfNewData data c =
     (if cb_newDataAvailable c then (True, cb_get c) else (False, data, c))"

definition cb_inv :: "'a commbuffer \<Rightarrow> bool" where
  "cb_inv c \<longleftrightarrow> length (cb_buffer c) = 3 \<and>
     distinct [cb_writer c, cb_reader c, cb_intermediate c] \<and>
     cb_writer c < 3 \<and> cb_reader c < 3 \<and> cb_intermediate c < 3"

lemmas cb_defs [op_defs] = cb_store_def cb_swap_def cb_check_def cb_put_def cb_putGeneric_def
  cb_putZero_def cb_get_def cb_getOnlyIfNewData_def CommBuffer_init_def

lemma cb_inv_init [inv_intros]: "cb_inv (CommBuffer_init a b c)"
  by (simp add: cb_inv_def cb_defs)

lemma cb_inv_store [inv_intros]: "cb_inv c \<Longrightarrow> cb_inv (cb_store v c)"
  by (simp add: cb_inv_def cb_defs)

lemma cb_inv_swap [inv_intros]: "cb_inv c \<Longrightarrow> cb_inv (cb_swap c)"
  by (auto simp: cb_inv_def cb_defs)

lemma cb_inv_check [inv_intros]: "cb_inv c \<Longrightarrow> cb_inv (cb_check c)"
  by (auto simp: cb_inv_def cb_defs)

lemma cb_inv_put [inv_intros]: "cb_inv c \<Longrightarrow> cb_inv (cb_put v c)"
  using cb_inv_check [OF cb_inv_swap [OF cb_inv_store]] by (simp add: cb_put_def Let_def cb_inv_def)

lemma cb_inv_get [inv_intros]: "cb_inv c \<Longrightarrow> cb_inv (snd (cb_get c))"
  by (simp add: cb_inv_def cb_defs Let_def)

lemma cb_reader_put: "cb_inv c \<Longrightarrow> cb_buffer (cb_put v c) ! cb_reader (cb_put v c) = v"
  by (auto simp: cb_inv_def cb_defs Let_def)

section \<open>A writer and a reader that interrupt each other\<close>

datatype cb_wpc = CW_Idle | CW_Stored | CW_Swapped

datatype 'a cb_rpc =
    CR_Idle
  | CR_Flagged               \<comment> \<open>\<open>readingNow\<close> set, \<open>reader\<close> not loaded yet\<close>
  | CR_Copying nat 'a        \<comment> \<open>slot \<open>readerTmp\<close> and its content when the copy began\<close>

text \<open>
  Ghost state: how many \<open>put\<close> calls exchanged the pointers since the copy began, and whether a
  further \<open>put\<close> stored its data when there were already two.
\<close>

record 'a acommbuffer =
  ac_cb :: "'a commbuffer"
  ac_wpc :: cb_wpc
  ac_rpc :: "'a cb_rpc"
  ac_swaps :: nat
  ac_third :: bool

definition acb_start :: "'a \<Rightarrow> 'a \<Rightarrow> 'a \<Rightarrow> 'a acommbuffer" where
  "acb_start a b c = \<lparr>ac_cb = CommBuffer_init a b c, ac_wpc = CW_Idle, ac_rpc = CR_Idle,
     ac_swaps = 0, ac_third = False\<rparr>"

inductive acb_step :: "'a acommbuffer \<Rightarrow> 'a acommbuffer \<Rightarrow> bool" where
  put_store: "ac_wpc s = CW_Idle \<Longrightarrow>
     acb_step s (s\<lparr>ac_wpc := CW_Stored, ac_cb := cb_store v (ac_cb s),
       ac_third := (ac_third s \<or> 2 \<le> ac_swaps s)\<rparr>)"
| put_swap: "ac_wpc s = CW_Stored \<Longrightarrow>
     acb_step s (s\<lparr>ac_wpc := CW_Swapped, ac_cb := cb_swap (ac_cb s), ac_swaps := ac_swaps s + 1\<rparr>)"
| put_check: "ac_wpc s = CW_Swapped \<Longrightarrow> c = cb_check (ac_cb s) \<Longrightarrow>
     acb_step s (s\<lparr>ac_wpc := CW_Idle,
       ac_cb := c\<lparr>cb_writeCnt := cb_writeCnt c + 1, cb_newDataAvailable := True\<rparr>\<rparr>)"
| get_flag: "ac_rpc s = CR_Idle \<Longrightarrow>
     acb_step s (s\<lparr>ac_rpc := CR_Flagged,
       ac_cb := (ac_cb s)\<lparr>cb_newDataAvailable := False, cb_readingNow := True\<rparr>\<rparr>)"
| get_load: "ac_rpc s = CR_Flagged \<Longrightarrow> c = ac_cb s \<Longrightarrow>
     acb_step s (s\<lparr>ac_rpc := CR_Copying (cb_reader c) (cb_buffer c ! cb_reader c),
       ac_swaps := 0, ac_third := False\<rparr>)"
| get_done: "ac_rpc s = CR_Copying p v \<Longrightarrow> c = ac_cb s \<Longrightarrow>
     acb_step s (s\<lparr>ac_rpc := CR_Idle,
       ac_cb := c\<lparr>cb_readingNow := False, cb_readCnt := cb_readCnt c + 1\<rparr>\<rparr>)"

inductive acb_reachable :: "'a acommbuffer \<Rightarrow> bool" where
  acb_init: "acb_reachable (acb_start a b c)"
| acb_next: "acb_reachable s \<Longrightarrow> acb_step s t \<Longrightarrow> acb_reachable t"

inductive_simps acb_step_simps: "acb_step s t"

text \<open>Where the slot that is being copied is, after so many exchanges.\<close>

definition copy_slot_ok :: "'a acommbuffer \<Rightarrow> nat \<Rightarrow> 'a \<Rightarrow> bool" where
  "copy_slot_ok s p v \<longleftrightarrow> cb_readingNow (ac_cb s) \<and> p < 3 \<and>
     (ac_third s \<or> cb_buffer (ac_cb s) ! p = v) \<and>
     (ac_swaps s = 0 \<longrightarrow> p = cb_reader (ac_cb s)) \<and>
     (ac_swaps s = 1 \<longrightarrow>
        (if ac_wpc s = CW_Swapped then p = cb_writer (ac_cb s) else p = cb_intermediate (ac_cb s)))"

definition acb_inv :: "'a acommbuffer \<Rightarrow> bool" where
  "acb_inv s \<longleftrightarrow> cb_inv (ac_cb s) \<and>
     (ac_rpc s \<noteq> CR_Idle \<longrightarrow> cb_readingNow (ac_cb s)) \<and>
     (\<forall>p v. ac_rpc s = CR_Copying p v \<longrightarrow> copy_slot_ok s p v)"

lemma acb_inv_start: "acb_inv (acb_start a b c)"
  by (simp add: acb_inv_def acb_start_def cb_inv_init)

lemma acb_inv_step: "acb_step s t \<Longrightarrow> acb_inv s \<Longrightarrow> acb_inv t"
proof (induction rule: acb_step.induct)
  case (put_store s v)
  then show ?case
    by (auto simp: acb_inv_def copy_slot_ok_def cb_store_def cb_inv_def nth_list_update)
next
  case (put_swap s)
  then show ?case
    by (auto simp: acb_inv_def copy_slot_ok_def cb_swap_def cb_inv_def)
next
  case (put_check s c)
  then show ?case
    by (auto simp: acb_inv_def copy_slot_ok_def cb_check_def cb_inv_def)
next
  case (get_load s c)
  then show ?case by (auto simp: acb_inv_def copy_slot_ok_def cb_inv_def)
qed (auto simp: acb_inv_def cb_inv_def)

lemma acb_reachable_inv: "acb_reachable s \<Longrightarrow> acb_inv s"
  by (induction rule: acb_reachable.induct) (auto intro: acb_inv_start acb_inv_step)

section \<open>Properties\<close>

text \<open>
  Called one after the other, \<open>get\<close> returns the value of the latest \<open>put\<close>, whatever was
  put before; the three pointers always designate three different slots; and
  \<open>getOnlyIfNewData\<close> succeeds after a \<open>put\<close> and fails, leaving the output parameter alone,
  once that value was read.
\<close>

lemma comm_buffer_latest:
  assumes "cb_inv c"
  shows "let c1 = cb_put v (fold cb_put vs c); (ok, d, c2) = cb_getOnlyIfNewData x c1
    in cb_inv c1 \<and> fst (cb_get c1) = v \<and> ok \<and> d = v \<and> cb_inv c2 \<and>
       cb_getOnlyIfNewData x c2 = (False, x, c2)"
proof -
  have "cb_inv (fold cb_put vs c)"
    using assms by (induction vs arbitrary: c) (auto intro: cb_inv_put)
  note i = this cb_inv_put [OF this, of v] cb_reader_put [OF this, of v]
  moreover have "cb_newDataAvailable (cb_put v (fold cb_put vs c))" by (simp add: cb_put_def Let_def)
  ultimately show ?thesis
    using cb_inv_get [OF i(2)]
    by (simp add: cb_getOnlyIfNewData_def) (simp add: cb_get_def Let_def)
qed

lemma comm_buffer_latest_witness:
  "cb_inv (CommBuffer_init 0 0 (0 :: nat)) \<and>
   fst (cb_get (cb_put 9 (fold cb_put [7, 8] (CommBuffer_init 0 0 (0 :: nat))))) = 9"
  using comm_buffer_latest [OF cb_inv_init, of 9 "[7, 8]" "0 :: nat" 0 0 0]
  by (simp add: Let_def case_prod_beta cb_inv_init)

text \<open>
  A copy that \<open>get\<close> is making is not disturbed by a writer that interrupts it at any point,
  as long as no third \<open>put\<close> stores data after two \<open>put\<close> calls have exchanged the pointers
  since the copy began: the slot still holds the value it held when the copy began.
\<close>

lemma comm_buffer_copy_stable:
  assumes "acb_reachable s" "ac_rpc s = CR_Copying p v" "\<not> ac_third s"
  shows "cb_buffer (ac_cb s) ! p = v"
  using acb_reachable_inv [OF assms(1)] assms(2,3) by (auto simp: acb_inv_def copy_slot_ok_def)

lemma acb_put_run:
  assumes "acb_reachable s" "ac_wpc s = CW_Idle"
  shows "acb_reachable (s\<lparr>ac_cb := cb_put v (ac_cb s), ac_swaps := ac_swaps s + 1,
      ac_third := (ac_third s \<or> 2 \<le> ac_swaps s)\<rparr>)"
proof -
  from assms have "acb_reachable (s\<lparr>ac_wpc := CW_Stored, ac_cb := cb_store v (ac_cb s),
      ac_third := (ac_third s \<or> 2 \<le> ac_swaps s)\<rparr>)"
    by (blast intro: acb_next acb_step.put_store)
  from acb_next [OF this acb_step.put_swap]
  have "acb_reachable (s\<lparr>ac_wpc := CW_Swapped, ac_cb := cb_swap (cb_store v (ac_cb s)),
      ac_third := (ac_third s \<or> 2 \<le> ac_swaps s), ac_swaps := ac_swaps s + 1\<rparr>)" by (cases s) simp
  from acb_next [OF this acb_step.put_check [OF _ refl]] assms(2) show ?thesis
    by (cases s) (simp add: cb_put_def Let_def)
qed

definition acb_copying :: "nat acommbuffer" where
  "acb_copying = (acb_start 0 1 0)\<lparr>ac_rpc := CR_Copying 1 1,
     ac_cb := (CommBuffer_init 0 1 0)\<lparr>cb_readingNow := True\<rparr>\<rparr>"

lemma acb_copying_reachable: "acb_reachable acb_copying"
proof -
  from acb_next [OF acb_init acb_step.get_flag]
  have "acb_reachable ((acb_start 0 1 0)\<lparr>ac_rpc := CR_Flagged,
      ac_cb := (CommBuffer_init 0 1 (0 :: nat))\<lparr>cb_newDataAvailable := False, cb_readingNow := True\<rparr>\<rparr>)"
    by (simp add: acb_start_def)
  from acb_next [OF this acb_step.get_load [OF _ refl]] show ?thesis
    by (simp add: acb_copying_def acb_start_def CommBuffer_init_def)
qed

lemmas acb_run_defs = acb_copying_def acb_start_def CommBuffer_init_def cb_put_def cb_store_def
  cb_swap_def cb_check_def Let_def

lemma comm_buffer_copy_stable_witness:
  "\<exists>s. acb_reachable s \<and> ac_rpc s = CR_Copying 1 1 \<and> \<not> ac_third s \<and> ac_swaps s = 2 \<and>
     cb_buffer (ac_cb s) ! 1 = (1 :: nat)"
proof -
  let ?s = "acb_copying\<lparr>ac_cb := cb_put 8 (cb_put 7 (ac_cb acb_copying)), ac_swaps := 2\<rparr>"
  have r: "acb_reachable ?s"
    using acb_put_run [OF acb_put_run [OF acb_copying_reachable, of 7], of 8]
    by (simp add: acb_copying_def acb_start_def numeral_2_eq_2)
  have f: "ac_rpc ?s = CR_Copying 1 1" "\<not> ac_third ?s" "ac_swaps ?s = 2"
    by (simp_all add: acb_copying_def acb_start_def)
  from r f comm_buffer_copy_stable [OF r f(1,2)] show ?thesis by blast
qed

text \<open>
  Three \<open>put\<close> calls during one \<open>get\<close> overwrite the slot that is being copied: there is a
  reachable state in which the copy is under way and its source no longer holds the value it
  held when the copy began. "Always consistent" in the class comment holds for two overlapping
  \<open>put\<close> calls at most.
\<close>

lemma comm_buffer_three_puts_tear:
  "\<exists>(s :: nat acommbuffer) p v. acb_reachable s \<and> ac_rpc s = CR_Copying p v \<and>
     cb_writeCnt (ac_cb s) = 3 \<and> cb_buffer (ac_cb s) ! p \<noteq> v"
proof -
  let ?s = "acb_copying\<lparr>ac_cb := cb_put 9 (cb_put 8 (cb_put 7 (ac_cb acb_copying))),
    ac_swaps := 3, ac_third := True\<rparr>"
  have "acb_reachable ?s"
    using acb_put_run [OF acb_put_run [OF acb_put_run
        [OF acb_copying_reachable, of 7], of 8], of 9]
    by (simp add: acb_copying_def acb_start_def numeral_eq_Suc)
  moreover have "ac_rpc ?s = CR_Copying 1 1" "cb_writeCnt (ac_cb ?s) = 3" "cb_buffer (ac_cb ?s) ! 1 \<noteq> 1"
    by (simp_all add: acb_run_defs)
  ultimately show ?thesis by blast
qed

end
