(* ===== verification/Time_Model.thy ===== *)
theory Time_Model
  imports Rodos_Prelude
begin

text \<open>
  The integer part of the time model (\<open>src/independent/timemodel.cpp\<close>, \<open>api/timemodel.h\<close>): the
  unit constants, the next beat of a periodic activity, and the conversion to and from the
  ECSS/CCSDS unsegmented time code. An \<open>int64_t\<close> is an \<^typ>\<open>int\<close>; every operation that can leave
  the range of the type is stored through \<^const>\<open>i64\<close>.
\<close>

section \<open>Units\<close>

definition NANOSECONDS :: int where "NANOSECONDS = 1"
definition MICROSECONDS :: int where "MICROSECONDS = 1000 * NANOSECONDS"
definition MILLISECONDS :: int where "MILLISECONDS = 1000 * MICROSECONDS"
definition SECONDS :: int where "SECONDS = 1000 * MILLISECONDS"
definition MINUTES :: int where "MINUTES = 60 * SECONDS"
definition HOURS :: int where "HOURS = 60 * MINUTES"
definition DAYS :: int where "DAYS = 24 * HOURS"

lemmas unit_defs = NANOSECONDS_def MICROSECONDS_def MILLISECONDS_def SECONDS_def MINUTES_def
  HOURS_def DAYS_def

lemma SECONDS_eq: "SECONDS = 1000000000"
  by (simp add: unit_defs)

section \<open>Operations\<close>

definition computeNextBeat :: "int \<Rightarrow> int \<Rightarrow> int \<Rightarrow> int" where
  "computeNextBeat begin period timeNow =
     (if \<not> begin \<ge> 0 then END_OF_TIME
      else if \<not> period \<ge> 0 then END_OF_TIME
      else if \<not> timeNow \<ge> 0 then END_OF_TIME
      else if begin > timeNow then begin
      else if period = 0 then END_OF_TIME
      else if period \<ge> END_OF_TIME - begin then END_OF_TIME
      else i64 (i64 ((c_div (timeNow - begin) period + 1) * period) + begin))"

text \<open>Conversion of an \<open>int64_t\<close> to \<open>uint32_t\<close>.\<close>

definition to_u32 :: "int \<Rightarrow> int" where
  "to_u32 x = x mod 2 ^ 32"

definition splitTimeECSS :: "int \<Rightarrow> int \<times> int" where
  "splitTimeECSS localTime =
     (let seconds = to_u32 (c_div localTime SECONDS);
          preFraction = i64 (localTime - i64 (seconds * SECONDS));
          preFraction' = i64 (preFraction * 2 ^ 32);
          fraction = to_u32 (c_div preFraction' SECONDS)
      in (seconds, fraction))"

text \<open>The right shift of a non-negative \<open>int64_t\<close> by \<open>fractSize\<close>.\<close>

definition ECSSTimeToLocalTime :: "int \<Rightarrow> int \<Rightarrow> nat \<Rightarrow> int" where
  "ECSSTimeToLocalTime seconds fraction fractSize =
     i64 (i64 (SECONDS * seconds) + i64 (SECONDS * fraction) div 2 ^ fractSize)"

section \<open>The next beat\<close>

lemma next_multiple_bounds:
  fixes d p :: int
  assumes "0 \<le> d" "0 < p"
  shows "d < (d div p + 1) * p" and "(d div p + 1) * p \<le> d + p"
proof -
  define q m where "q = d div p" and "m = d mod p"
  have d: "d = q * p + m" by (simp add: q_def m_def)
  have m: "0 \<le> m" "m < p" using assms by (simp_all add: m_def)
  show "d < (d div p + 1) * p" unfolding q_def [symmetric] using d m by (simp add: distrib_right)
  show "(d div p + 1) * p \<le> d + p" unfolding q_def [symmetric] using d m by (simp add: distrib_right)
qed

lemma computeNextBeat_exact:
  assumes "0 \<le> b" "b \<le> t" "0 < p" "p < END_OF_TIME - b" "t + p \<le> END_OF_TIME"
  shows "computeNextBeat b p t = ((t - b) div p + 1) * p + b"
proof -
  let ?k = "((t - b) div p + 1) * p"
  have k: "t - b < ?k" "?k \<le> t - b + p"
    using next_multiple_bounds [of "t - b" p] assms by auto
  then have "in_i64 ?k" "in_i64 (?k + b)"
    using assms by (auto intro!: in_i64_nonneg)
  then show ?thesis using assms by (simp add: computeNextBeat_def)
qed

section \<open>The ECSS time code\<close>

lemma to_u32_exact: "0 \<le> x \<Longrightarrow> x < 2 ^ 32 \<Longrightarrow> to_u32 x = x"
  by (simp add: to_u32_def)

lemma i64_seconds:
  assumes "0 \<le> s" "s < 2 ^ 32" "0 \<le> x" "x < SECONDS"
  shows "i64 (SECONDS * s + x) = SECONDS * s + x"
  using assms by (intro i64_exact in_i64I) (auto simp: SECONDS_eq)

lemma i64_fraction:
  assumes "0 \<le> x" "x < 2 ^ 32" "0 \<le> y" "y \<le> SECONDS"
  shows "i64 (y * x) = y * x"
proof (intro i64_exact in_i64_nonneg)
  show "0 \<le> y * x" using assms by simp
  have "y * x \<le> SECONDS * 2 ^ 32" using assms by (intro mult_mono) auto
  then show "y * x \<le> END_OF_TIME" by (simp add: SECONDS_eq END_OF_TIME_def)
qed

lemma splitTimeECSS_exact:
  assumes "0 \<le> t" "t < 2 ^ 32 * SECONDS"
  shows "splitTimeECSS t = (t div SECONDS, (t mod SECONDS) * 2 ^ 32 div SECONDS)"
proof -
  define s m where "s = t div SECONDS" and "m = t mod SECONDS"
  have t: "t = s * SECONDS + m" by (simp add: s_def m_def)
  have s: "0 \<le> s" "s < 2 ^ 32" using assms by (auto simp: s_def SECONDS_eq)
  have m: "0 \<le> m" "m < SECONDS" by (simp_all add: m_def SECONDS_eq)
  have e1: "to_u32 (c_div t SECONDS) = s"
    using assms s by (simp add: to_u32_exact s_def SECONDS_eq)
  have e2: "i64 (s * SECONDS) = s * SECONDS"
    using i64_seconds [OF s, of 0] by (simp add: SECONDS_eq mult.commute)
  have e3: "i64 (t - s * SECONDS) = m"
    using i64_seconds [of 0, OF _ _ m] by (simp add: t)
  have e4: "i64 (m * 2 ^ 32) = m * 2 ^ 32"
    using m by (intro i64_exact in_i64_nonneg) (simp_all add: SECONDS_eq END_OF_TIME_def)
  have e5: "c_div (m * 2 ^ 32) SECONDS = m * 2 ^ 32 div SECONDS"
    using m by (intro c_div_nonneg) (simp_all add: SECONDS_eq)
  have e6: "to_u32 (m * 2 ^ 32 div SECONDS) = m * 2 ^ 32 div SECONDS"
    using m by (intro to_u32_exact) (simp_all add: SECONDS_eq)
  show ?thesis
    by (simp only: splitTimeECSS_def Let_def e1 e2 e3 e4 e5 e6 s_def [symmetric] m_def [symmetric])
qed

lemma fraction_back:
  assumes "0 \<le> m" "m < SECONDS"
  shows "SECONDS * (m * 2 ^ 32 div SECONDS) div 2 ^ 32 \<le> m"
    and "m - 1 \<le> SECONDS * (m * 2 ^ 32 div SECONDS) div 2 ^ 32"
proof -
  define f where "f = m * 2 ^ 32 div SECONDS"
  have "SECONDS * f \<le> m * 2 ^ 32" "m * 2 ^ 32 < SECONDS * f + SECONDS"
    unfolding f_def SECONDS_eq by linarith+
  then show "SECONDS * (m * 2 ^ 32 div SECONDS) div 2 ^ 32 \<le> m"
    "m - 1 \<le> SECONDS * (m * 2 ^ 32 div SECONDS) div 2 ^ 32"
    unfolding f_def [symmetric] unfolding SECONDS_eq by auto
qed

section \<open>Properties\<close>

text \<open>
  \<open>computeNextBeat\<close> returns the earliest point of the beat \<open>begin + k * period\<close> that lies
  strictly after \<open>timeNow\<close>: no beat is skipped and none lies in the past, as long as the result
  is representable.
\<close>

lemma computeNextBeat_is_next:
  assumes "0 \<le> b" "b \<le> t" "0 < p" "p < END_OF_TIME - b" "t + p \<le> END_OF_TIME"
  shows "t < computeNextBeat b p t \<and> (\<exists>k\<ge>1. computeNextBeat b p t = b + k * p) \<and>
    (\<forall>k. t < b + k * p \<longrightarrow> computeNextBeat b p t \<le> b + k * p)"
proof -
  let ?q = "(t - b) div p"
  have r: "computeNextBeat b p t = b + (?q + 1) * p"
    using computeNextBeat_exact [OF assms] by (simp add: algebra_simps)
  have q: "0 \<le> ?q" using assms by (simp add: pos_imp_zdiv_nonneg_iff)
  have min: "?q + 1 \<le> k" if "t < b + k * p" for k
  proof -
    from that have "t - b < k * p" by simp
    moreover have "?q * p \<le> t - b"
      using next_multiple_bounds(2) [of "t - b" p] assms by (simp add: distrib_right)
    ultimately have "?q * p < k * p" by simp
    then show ?thesis using assms(3) by simp
  qed
  have "b + (?q + 1) * p \<le> b + k * p" if "t < b + k * p" for k
    using mult_right_mono [OF min [OF that], of p] assms(3) by simp
  moreover have "t < b + (?q + 1) * p"
    using next_multiple_bounds(1) [of "t - b" p] assms by simp
  ultimately show ?thesis unfolding r using q by (intro conjI exI [of _ "?q + 1"]) auto
qed

lemma computeNextBeat_is_next_witness:
  "computeNextBeat 10 3 20 = 22 \<and> (20 :: int) < computeNextBeat 10 3 20"
proof -
  have "computeNextBeat 10 3 20 = 22"
    by (simp add: computeNextBeat_def END_OF_TIME_def i64_def)
  moreover have "(20 :: int) < computeNextBeat 10 3 20"
    using computeNextBeat_is_next [of 10 20 3] by (simp add: END_OF_TIME_def)
  ultimately show ?thesis by simp
qed

text \<open>
  The guard of \<open>computeNextBeat\<close> tests \<open>period\<close> against \<open>END_OF_TIME - begin\<close> and not against
  \<open>END_OF_TIME - timeNow\<close>: for a time within one period of \<open>END_OF_TIME\<close> the signed arithmetic
  leaves the range of \<open>int64_t\<close>, and the value stored in two's complement is a negative time.
\<close>

lemma computeNextBeat_overflow:
  "0 \<le> (0 :: int) \<and> 2 ^ 62 < END_OF_TIME - 0 \<and> (2 :: int) ^ 62 \<le> END_OF_TIME \<and>
   computeNextBeat 0 (2 ^ 62) (2 ^ 62) = - (2 ^ 63)"
  by (simp add: computeNextBeat_def END_OF_TIME_def i64_def c_div_def)

text \<open>
  Splitting a local time into the ECSS time code with a 32-bit fraction and converting it
  again loses less than one nanosecond: for every time that fits the 32-bit seconds counter the
  result is the time itself or one nanosecond less.
\<close>

lemma ecss_roundtrip:
  assumes "0 \<le> t" "t < 2 ^ 32 * SECONDS"
  shows "case splitTimeECSS t of (s, f) \<Rightarrow> 0 \<le> s \<and> s < 2 ^ 32 \<and> 0 \<le> f \<and> f < 2 ^ 32 \<and>
    ECSSTimeToLocalTime s f 32 \<le> t \<and> t - 1 \<le> ECSSTimeToLocalTime s f 32"
proof -
  let ?s = "t div SECONDS" and ?m = "t mod SECONDS"
  let ?f = "?m * 2 ^ 32 div SECONDS"
  have s: "0 \<le> ?s" "?s < 2 ^ 32" using assms by (auto simp: SECONDS_eq)
  have m: "0 \<le> ?m" "?m < SECONDS" by (simp_all add: SECONDS_eq)
  have f: "0 \<le> ?f" "?f < 2 ^ 32" using m by (simp_all add: SECONDS_eq)
  have bk: "SECONDS * ?f div 2 ^ 32 \<le> ?m" "?m - 1 \<le> SECONDS * ?f div 2 ^ 32"
    using fraction_back [OF m] by simp_all
  have "SECONDS * ?f div 2 ^ 32 \<ge> 0" using f by (simp add: SECONDS_eq)
  then have e1: "i64 (SECONDS * ?s + SECONDS * ?f div 2 ^ 32) = SECONDS * ?s + SECONDS * ?f div 2 ^ 32"
    using bk m by (intro i64_seconds s) auto
  have e2: "i64 (SECONDS * ?s) = SECONDS * ?s"
    using i64_seconds [OF s, of 0] unfolding add_0_right by (simp add: SECONDS_def unit_defs)
  have e3: "i64 (SECONDS * ?f) = SECONDS * ?f"
    by (rule i64_fraction [OF f]) (simp_all add: SECONDS_eq)
  have r: "ECSSTimeToLocalTime ?s ?f 32 = SECONDS * ?s + SECONDS * ?f div 2 ^ 32"
    by (simp only: ECSSTimeToLocalTime_def e1 e2 e3)
  have t: "SECONDS * ?s + ?m = t" by simp
  show ?thesis
    unfolding splitTimeECSS_exact [OF assms] prod.case
    by (intro conjI; use s f bk r t in linarith)
qed

lemma ecss_roundtrip_witness:
  "case splitTimeECSS 1500000001 of (s, f) \<Rightarrow> 0 \<le> s \<and> s < 2 ^ 32 \<and> 0 \<le> f \<and> f < 2 ^ 32 \<and>
     ECSSTimeToLocalTime s f 32 \<le> 1500000001 \<and> 1500000001 - 1 \<le> ECSSTimeToLocalTime s f 32"
  by (rule ecss_roundtrip) (simp_all add: SECONDS_eq)

end
