(* ===== verification/Time_Event.thy ===== *)
theory Time_Event
  imports Time_Model
begin

text \<open>
  Time events (\<open>src/independent/timeevent.cpp\<close>, \<open>api/timeevent.h\<close>): the static list of events
  with their trigger time and period, their activation, the propagation that the timer interrupt
  runs and the time of the next trigger. The virtual \<open>handle\<close> and \<open>init\<close> of an event are code of
  the application: they are arguments, and what the propagation relies on is the contract
  \<open>event_handler\<close>.
\<close>

section \<open>State\<close>

record time_event =
  ev_name :: string
  eventAt :: int
  eventPeriod :: int

text \<open>\<open>ev_world\<close> is the state that the handlers of the application read and change.\<close>

record 'w ev_state =
  timeEventList :: "time_event list"
  ev_world :: 'w

section \<open>Operations\<close>

text \<open>The constructor of \<open>ListElement\<close> inserts at the head of the list.\<close>

definition TimeEvent_new :: "string \<Rightarrow> 'w ev_state \<Rightarrow> 'w ev_state" where
  "TimeEvent_new name st = st\<lparr>timeEventList :=
     \<lparr>ev_name = name, eventAt = END_OF_TIME, eventPeriod = 0\<rparr> # timeEventList st\<rparr>"

definition update_event :: "nat \<Rightarrow> (time_event \<Rightarrow> time_event) \<Rightarrow> 'w ev_state \<Rightarrow> 'w ev_state" where
  "update_event i f st = st\<lparr>timeEventList := (timeEventList st)[i := f (timeEventList st ! i)]\<rparr>"

definition activateAt :: "nat \<Rightarrow> int \<Rightarrow> 'w ev_state \<Rightarrow> 'w ev_state" where
  "activateAt i time = update_event i (\<lambda>e. e\<lparr>eventAt := time, eventPeriod := 0\<rparr>)"

definition activatePeriodic :: "nat \<Rightarrow> int \<Rightarrow> int \<Rightarrow> 'w ev_state \<Rightarrow> 'w ev_state" where
  "activatePeriodic i startAt period =
     update_event i (\<lambda>e. e\<lparr>eventPeriod := period, eventAt := startAt\<rparr>)"

text \<open>What the propagation stores into a due event before it calls the handler.\<close>

definition rearm :: "int \<Rightarrow> time_event \<Rightarrow> time_event" where
  "rearm timeNow e =
     (let iterEventAt = eventAt e; iterEventPeriod = eventPeriod e
      in if iterEventPeriod = 0 then e\<lparr>eventAt := END_OF_TIME\<rparr>
         else (let e1 = e\<lparr>eventAt := i64 (iterEventAt + iterEventPeriod)\<rparr>
               in if iterEventAt < timeNow
                  then e1\<lparr>eventAt := computeNextBeat iterEventAt iterEventPeriod timeNow\<rparr>
                  else e1))"

definition propagate_one ::
  "(nat \<Rightarrow> 'w ev_state \<Rightarrow> 'w ev_state) \<Rightarrow> int \<Rightarrow> nat \<Rightarrow> nat \<times> 'w ev_state \<Rightarrow> nat \<times> 'w ev_state"
where
  "propagate_one handle timeNow i s =
     (let (cnt, st) = s
      in if eventAt (timeEventList st ! i) < timeNow
         then (cnt + 1, handle i (update_event i (rearm timeNow) st))
         else (cnt, st))"

definition propagate ::
  "(nat \<Rightarrow> 'w ev_state \<Rightarrow> 'w ev_state) \<Rightarrow> int \<Rightarrow> 'w ev_state \<Rightarrow> nat \<times> 'w ev_state" where
  "propagate handle timeNow st =
     fold (propagate_one handle timeNow) [0..<length (timeEventList st)] (0, st)"

definition getNextTriggerTime :: "'w ev_state \<Rightarrow> int" where
  "getNextTriggerTime st =
     fold (\<lambda>e next. if eventAt e < next then eventAt e else next) (timeEventList st) END_OF_TIME"

definition initAllElements :: "(nat \<Rightarrow> 'w ev_state \<Rightarrow> 'w ev_state) \<Rightarrow> 'w ev_state \<Rightarrow> nat \<times> 'w ev_state" where
  "initAllElements init st =
     fold (\<lambda>i (cnt, s). (cnt + 1, init i s)) [0..<length (timeEventList st)] (0, st)"

text \<open>The default \<open>handle\<close> of the class does nothing; a handler of an application changes its own
  state. The list of events is not its state.\<close>

definition TimeEvent_handle :: "nat \<Rightarrow> 'w ev_state \<Rightarrow> 'w ev_state" where
  "TimeEvent_handle i st = st"

definition app_handle :: "(nat \<Rightarrow> 'w \<Rightarrow> 'w) \<Rightarrow> nat \<Rightarrow> 'w ev_state \<Rightarrow> 'w ev_state" where
  "app_handle g i st = st\<lparr>ev_world := g i (ev_world st)\<rparr>"

section \<open>The contract of a handler\<close>

definition due :: "int \<Rightarrow> time_event \<Rightarrow> bool" where
  "due timeNow e \<longleftrightarrow> eventAt e < timeNow"

definition next_event :: "int \<Rightarrow> time_event \<Rightarrow> time_event" where
  "next_event timeNow e = (if due timeNow e then rearm timeNow e else e)"

definition due_from :: "int \<Rightarrow> time_event list \<Rightarrow> nat \<Rightarrow> nat list" where
  "due_from timeNow es i = filter (\<lambda>j. due timeNow (es ! j)) [i..<length es]"

lemma propagate_one_pair:
  "propagate_one handle t i (c, st) =
     (if eventAt (timeEventList st ! i) < t then (c + 1, handle i (update_event i (rearm t) st))
      else (c, st))"
  by (simp add: propagate_one_def)

locale event_handler =
  fixes handle :: "nat \<Rightarrow> 'w ev_state \<Rightarrow> 'w ev_state"
  assumes handle_frame: "timeEventList (handle i st) = timeEventList st"
begin

lemma propagate_prefix:
  assumes "n \<le> length (timeEventList st)"
  shows "timeEventList (snd (fold (propagate_one handle t) [0..<n] (0, st))) =
      map (next_event t) (take n (timeEventList st)) @ drop n (timeEventList st) \<and>
    fst (fold (propagate_one handle t) [0..<n] (0, st)) =
      length (filter (\<lambda>j. due t (timeEventList st ! j)) [0..<n])"
  using assms
proof (induction n)
  case 0
  then show ?case by simp
next
  case (Suc n)
  let ?es = "timeEventList st"
  obtain c s where cs: "fold (propagate_one handle t) [0..<n] (0, st) = (c, s)"
    by (cases "fold (propagate_one handle t) [0..<n] (0, st)")
  with Suc have es: "timeEventList s = map (next_event t) (take n ?es) @ drop n ?es"
    and c: "c = length (filter (\<lambda>j. due t (?es ! j)) [0..<n])" by auto
  have n: "n < length ?es" using Suc.prems by simp
  have nth: "timeEventList s ! n = ?es ! n" using n by (simp add: es nth_append)
  have upd: "(timeEventList s)[n := next_event t (?es ! n)] =
      map (next_event t) (take (Suc n) ?es) @ drop (Suc n) ?es"
    using n by (simp add: es list_update_append take_Suc_conv_app_nth flip: Cons_nth_drop_Suc)
  show ?case
  proof (cases "due t (?es ! n)")
    case True
    then show ?thesis
      using upd nth c
      by (simp add: cs propagate_one_pair due_def handle_frame update_event_def next_event_def)
  next
    case False
    then have "(timeEventList s)[n := next_event t (?es ! n)] = timeEventList s"
      using list_update_id [of "timeEventList s" n] by (simp add: next_event_def nth)
    then show ?thesis using upd nth c False by (simp add: cs propagate_one_pair due_def)
  qed
qed

lemma propagate_events:
  "timeEventList (snd (propagate handle t st)) = map (next_event t) (timeEventList st)"
  "fst (propagate handle t st) = length (filter (due t) (timeEventList st))"
proof -
  show "timeEventList (snd (propagate handle t st)) = map (next_event t) (timeEventList st)"
    using propagate_prefix [of "length (timeEventList st)" st t] by (simp add: propagate_def)
  have "map (\<lambda>j. timeEventList st ! j) [0..<length (timeEventList st)] = timeEventList st"
    by (rule map_nth)
  then have "length (filter (\<lambda>j. due t (timeEventList st ! j)) [0..<length (timeEventList st)]) =
      length (filter (due t) (timeEventList st))"
    by (metis (no_types, lifting) comp_def filter_map length_map filter_cong)
  then show "fst (propagate handle t st) = length (filter (due t) (timeEventList st))"
    using propagate_prefix [of "length (timeEventList st)" st t] by (simp add: propagate_def)
qed

end

interpretation default_handler: event_handler TimeEvent_handle
  by unfold_locales (simp add: TimeEvent_handle_def)

interpretation app_handler: event_handler "app_handle g" for g :: "nat \<Rightarrow> 'w \<Rightarrow> 'w"
  by unfold_locales (simp add: app_handle_def)

section \<open>The order of the handlers\<close>

lemma app_handle_fields [simp]:
  "ev_world (app_handle g i st) = g i (ev_world st)"
  "timeEventList (app_handle g i st) = timeEventList st"
  by (simp_all add: app_handle_def)

lemma update_event_world [simp]: "ev_world (update_event i f st) = ev_world st"
  by (simp add: update_event_def)

lemma app_world_prefix:
  "n \<le> length (timeEventList st) \<Longrightarrow>
   ev_world (snd (fold (propagate_one (app_handle g) t) [0..<n] (0, st))) =
     fold g (filter (\<lambda>j. due t (timeEventList st ! j)) [0..<n]) (ev_world st)"
proof (induction n)
  case 0
  then show ?case by simp
next
  case (Suc n)
  obtain c s where cs: "fold (propagate_one (app_handle g) t) [0..<n] (0, st) = (c, s)"
    by (cases "fold (propagate_one (app_handle g) t) [0..<n] (0, st)")
  have "timeEventList s ! n = timeEventList st ! n"
    using app_handler.propagate_prefix [where n = n and st = st and t = t and g = g] Suc.prems cs by (simp add: nth_append)
  with Suc cs show ?case
    by (simp add: propagate_one_pair due_def)
qed

lemma app_propagate_world:
  "ev_world (snd (propagate (app_handle g) t st)) =
     fold g (due_from t (timeEventList st) 0) (ev_world st)"
  using app_world_prefix [of "length (timeEventList st)" st g t]
  by (simp add: propagate_def due_from_def)

section \<open>The next trigger\<close>

lemma getNextTriggerTime_fold:
  fixes m :: int
  defines "nxt \<equiv> \<lambda>es m. fold (\<lambda>e next. if eventAt e < next then eventAt e else next) es m"
  shows "nxt es m \<le> m \<and> (\<forall>e \<in> set es. nxt es m \<le> eventAt e) \<and>
    (nxt es m = m \<or> (\<exists>e \<in> set es. nxt es m = eventAt e))"
proof (induction es arbitrary: m)
  case (Cons e es)
  from Cons [of "if eventAt e < m then eventAt e else m"] show ?case
    by (auto simp: nxt_def split: if_splits)
qed (simp add: nxt_def)

text \<open>The next beat of a due periodic event is representable.\<close>

definition beat_fits :: "int \<Rightarrow> time_event \<Rightarrow> bool" where
  "beat_fits t e \<longleftrightarrow> eventPeriod e = 0 \<or>
     (0 \<le> eventAt e \<and> 0 < eventPeriod e \<and> eventPeriod e < END_OF_TIME - eventAt e \<and>
      t + eventPeriod e \<le> END_OF_TIME)"

lemma next_event_not_due:
  assumes "beat_fits t e" "t \<le> END_OF_TIME"
  shows "t \<le> eventAt (next_event t e)"
proof (cases "due t e \<and> eventPeriod e \<noteq> 0")
  case True
  then have "eventAt e \<le> t" and "eventAt (next_event t e) = computeNextBeat (eventAt e) (eventPeriod e) t"
    by (auto simp: next_event_def due_def rearm_def Let_def)
  moreover have "0 \<le> eventAt e" "0 < eventPeriod e" "eventPeriod e < END_OF_TIME - eventAt e"
    "t + eventPeriod e \<le> END_OF_TIME" using True assms by (auto simp: beat_fits_def)
  ultimately show ?thesis
    using computeNextBeat_exact [of "eventAt e" t "eventPeriod e"]
      next_multiple_bounds(1) [of "t - eventAt e" "eventPeriod e"] by simp
next
  case False
  then show ?thesis using assms(2) by (auto simp: next_event_def due_def rearm_def Let_def)
qed

section \<open>Properties\<close>

text \<open>
  C28. One propagation at time \<open>t\<close>, with handlers that work on the state of the application:
  the handler of every event that is due (\<open>eventAt < t\<close>) runs exactly once, in the order of the
  list, and no other handler runs; the returned number is the number of handlers that ran; a due
  event without period is disarmed, a due periodic event is armed for its next beat after \<open>t\<close>,
  all other events are unchanged.
\<close>

theorem propagate_calls_due_handlers:
  "ev_world (snd (propagate (app_handle g) t st)) =
     fold g (due_from t (timeEventList st) 0) (ev_world st) \<and>
   fst (propagate (app_handle g) t st) = length (due_from t (timeEventList st) 0) \<and>
   timeEventList (snd (propagate (app_handle g) t st)) =
     map (\<lambda>e. if eventAt e < t
        then e\<lparr>eventAt := (if eventPeriod e = 0 then END_OF_TIME
                           else computeNextBeat (eventAt e) (eventPeriod e) t)\<rparr>
        else e) (timeEventList st)"
proof -
  have "next_event t = (\<lambda>e. if eventAt e < t
        then e\<lparr>eventAt := (if eventPeriod e = 0 then END_OF_TIME
                           else computeNextBeat (eventAt e) (eventPeriod e) t)\<rparr>
        else e)"
    by (simp add: fun_eq_iff next_event_def due_def rearm_def Let_def)
  then show ?thesis
    using app_propagate_world [of g t st]
      app_handler.propagate_prefix [where n = "length (timeEventList st)" and st = st and t = t and g = g]
      app_handler.propagate_events(1) [where t = t and g = g and st = st]
    by (simp add: propagate_def due_from_def)
qed

text \<open>
  After a propagation at time \<open>t\<close> nothing is due any more: the next trigger time is not
  before \<open>t\<close>, and propagating again at the same time calls no handler. Hence the timer, which is
  set to the next trigger time, is never set into the past.
\<close>

lemma propagate_clears_due:
  assumes "\<forall>e \<in> set (timeEventList st). beat_fits t e" "t \<le> END_OF_TIME"
  shows "let st' = snd (propagate (app_handle g) t st)
    in t \<le> getNextTriggerTime st' \<and> fst (propagate (app_handle g) t st') = 0"
proof -
  let ?st' = "snd (propagate (app_handle g) t st)"
  have es: "timeEventList ?st' = map (next_event t) (timeEventList st)"
    by (rule app_handler.propagate_events(1))
  then have nd: "\<forall>e \<in> set (timeEventList ?st'). t \<le> eventAt e"
    using assms next_event_not_due by auto
  then have "t \<le> getNextTriggerTime ?st'"
    using getNextTriggerTime_fold [where es = "timeEventList ?st'" and m = END_OF_TIME] assms(2)
    by (auto simp: getNextTriggerTime_def)
  moreover have "filter (due t) (timeEventList ?st') = []"
    using nd by (auto simp: due_def filter_empty_conv)
  then have "fst (propagate (app_handle g) t ?st') = 0"
    by (simp add: app_handler.propagate_events(2))
  ultimately show ?thesis by (simp add: Let_def)
qed

definition demo_events :: "nat list ev_state" where
  "demo_events = \<lparr>timeEventList =
     [\<lparr>ev_name = ''a'', eventAt = 10, eventPeriod = 5\<rparr>, \<lparr>ev_name = ''b'', eventAt = 12, eventPeriod = 0\<rparr>,
      \<lparr>ev_name = ''c'', eventAt = 99, eventPeriod = 0\<rparr>], ev_world = []\<rparr>"

lemma propagate_clears_due_witness:
  "17 \<le> getNextTriggerTime (snd (propagate (app_handle (\<lambda>i w. i # w)) 17 demo_events)) \<and>
   fst (propagate (app_handle (\<lambda>i w. i # w)) 17 (snd (propagate (app_handle (\<lambda>i w. i # w)) 17 demo_events))) = 0"
proof -
  have b: "\<forall>e \<in> set (timeEventList demo_events). beat_fits 17 e"
    by (simp add: demo_events_def beat_fits_def END_OF_TIME_def)
  show ?thesis using b propagate_clears_due [OF b, of "\<lambda>i w. i # w"]
    by (simp add: Let_def END_OF_TIME_def)
qed

text \<open>
  The test "still in the past?" of the propagation reads the trigger time loaded before the
  event was advanced, so it always succeeds and the first advance is dead: a periodic event with
  a beat exactly at \<open>t\<close>, which is not in the past of \<open>t\<close>, loses that beat and is armed for
  \<open>t + period\<close>.
\<close>

lemma propagate_skips_coinciding_beat:
  assumes "0 \<le> eventAt e" "0 < eventPeriod e" "eventAt e + k * eventPeriod e = t" "0 < k"
    "t + eventPeriod e \<le> END_OF_TIME"
  shows "eventAt (rearm t e) = t + eventPeriod e"
proof -
  let ?a = "eventAt e" and ?p = "eventPeriod e"
  have kp: "?p \<le> k * ?p" using assms(2,4) by simp
  have "?a < t" using assms(2,3) kp by linarith
  moreover have "(t - ?a) div ?p = k" using assms(2,3) by (auto simp flip: assms(3))
  moreover have "?p < END_OF_TIME - ?a" using assms kp by linarith
  ultimately show ?thesis
    using assms computeNextBeat_exact [of ?a t ?p]
    by (simp add: rearm_def Let_def distrib_right)
qed

lemma propagate_skips_coinciding_beat_witness:
  "eventAt (rearm 15 \<lparr>ev_name = ''a'', eventAt = 10, eventPeriod = 5\<rparr>) = 20"
  using propagate_skips_coinciding_beat [of "\<lparr>ev_name = ''a'', eventAt = 10, eventPeriod = 5\<rparr>" 1 15]
  by (simp add: END_OF_TIME_def)

end
