(* ===== verification/Threads.thy ===== *)
theory Threads
  imports Time_Event
begin

text \<open>
  Threads and the scheduler of the bare-metal ports (\<open>src/bare-metal-generic/thread_on_hw.cpp\<close>,
  \<open>scheduler.cpp\<close>, \<open>hw_specific_generic.cpp\<close>, \<open>src/independent/thread.cpp\<close>). A \<open>Thread*\<close> is the
  index of the thread in \<open>threadList\<close>; a \<open>void*\<close> signaler is the number of the object, \<open>None\<close> the
  null pointer. Each call of \<open>NOW()\<close> is an argument of its own. Context save and restore are the
  processor's; the model keeps what they leave behind in memory.
\<close>

section \<open>State\<close>

definition CEILING_PRIORITY :: int where "CEILING_PRIORITY = 1003"
definition TIME_SLICE_FOR_SAME_PRIORITY :: int where "TIME_SLICE_FOR_SAME_PRIORITY = 100 * MILLISECONDS"
definition MIN_SYS_TICK_SPACING :: int where "MIN_SYS_TICK_SPACING = 500 * MICROSECONDS"
definition EMPTY_MEMORY_MARKER :: u32 where "EMPTY_MEMORY_MARKER = 0xDEADBEEF"

record thread =
  th_name :: string
  th_priority :: int
  th_suspendedUntil :: int
  th_waitingFor :: "nat option"
  th_lastActivation :: u64
  th_nextBeat :: int
  th_period :: int
  th_stackBegin :: nat
  th_stackAddr :: nat       \<comment> \<open>the address in the saved context\<close>
  th_stackWord :: u32       \<comment> \<open>the memory word at \<open>stackBegin\<close>\<close>

record kernel =
  threadList :: "thread list"
  idlethread :: nat
  currentThread :: nat
  scheduleCounter :: u64
  preSelectedNextToRun :: "nat option"
  preSelectedEarliestSuspendedUntil :: int
  timeToTryAgainToSchedule :: int
  yieldSchedulingLock :: bool
  schedulerRunning :: bool
  timerRunning :: bool
  timerInterval :: int      \<comment> \<open>microseconds\<close>

abbreviation thr :: "kernel \<Rightarrow> nat \<Rightarrow> thread" where
  "thr k i \<equiv> threadList k ! i"

definition upd_thread :: "nat \<Rightarrow> (thread \<Rightarrow> thread) \<Rightarrow> kernel \<Rightarrow> kernel" where
  "upd_thread i f k = k\<lparr>threadList := (threadList k)[i := f (thr k i)]\<rparr>"

section \<open>Selecting a thread\<close>

definition earlier :: "int \<Rightarrow> int \<Rightarrow> int" where
  "earlier a b = (if a < b then a else b)"

definition find_step :: "kernel \<Rightarrow> int \<Rightarrow> nat \<Rightarrow> nat \<times> int \<Rightarrow> nat \<times> int" where
  "find_step k timeNow iter s =
     (let (nextThreadToRun, selectedEarliest) = s;
          iterSuspendedUntil = th_suspendedUntil (thr k iter);
          iterPrio = th_priority (thr k iter);
          nextThreadToRunPrio = th_priority (thr k nextThreadToRun)
      in if iterSuspendedUntil < timeNow then
           (if iterPrio > nextThreadToRunPrio then (iter, selectedEarliest)
            else if iterPrio = nextThreadToRunPrio then
              (if th_lastActivation (thr k iter) < th_lastActivation (thr k nextThreadToRun)
               then (iter, selectedEarliest) else (nextThreadToRun, selectedEarliest))
            else (nextThreadToRun, selectedEarliest))
         else if iterPrio \<ge> nextThreadToRunPrio
           then (nextThreadToRun, earlier selectedEarliest iterSuspendedUntil)
         else (nextThreadToRun, selectedEarliest))"

definition findNextToRun :: "kernel \<Rightarrow> int \<Rightarrow> nat \<times> int" where
  "findNextToRun k timeNow =
     fold (find_step k timeNow) [0..<length (threadList k)] (idlethread k, END_OF_TIME)"

text \<open>The copy of the selection that runs inside the scheduler.\<close>

definition find_stepFromISR :: "kernel \<Rightarrow> int \<Rightarrow> nat \<Rightarrow> nat \<times> int \<Rightarrow> nat \<times> int" where
  "find_stepFromISR k timeNow iter s =
     (let (nextThreadToRun, selectedEarliest) = s;
          iterSuspendedUntil = th_suspendedUntil (thr k iter);
          iterPrio = th_priority (thr k iter);
          nextThreadToRunPrio = th_priority (thr k nextThreadToRun)
      in if iterSuspendedUntil < timeNow then
           (if iterPrio > nextThreadToRunPrio then (iter, selectedEarliest)
            else if iterPrio = nextThreadToRunPrio then
              (if th_lastActivation (thr k iter) < th_lastActivation (thr k nextThreadToRun)
               then (iter, selectedEarliest) else (nextThreadToRun, selectedEarliest))
            else (nextThreadToRun, selectedEarliest))
         else if iterPrio \<ge> nextThreadToRunPrio
           then (nextThreadToRun, earlier selectedEarliest iterSuspendedUntil)
         else (nextThreadToRun, selectedEarliest))"

definition findNextToRunFromISR :: "kernel \<Rightarrow> int \<Rightarrow> nat \<times> int" where
  "findNextToRunFromISR k timeNow =
     fold (find_stepFromISR k timeNow) [0..<length (threadList k)] (idlethread k, END_OF_TIME)"

definition waiter_step :: "kernel \<Rightarrow> nat option \<Rightarrow> nat \<Rightarrow> nat \<Rightarrow> nat" where
  "waiter_step k signaler iter nextWaiter =
     (if th_waitingFor (thr k iter) = signaler then
        (if th_priority (thr k iter) > th_priority (thr k nextWaiter) then iter
         else if th_priority (thr k iter) = th_priority (thr k nextWaiter) then
           (if th_lastActivation (thr k iter) < th_lastActivation (thr k nextWaiter) then iter
            else nextWaiter)
         else nextWaiter)
      else nextWaiter)"

definition findNextWaitingFor :: "kernel \<Rightarrow> nat option \<Rightarrow> nat option" where
  "findNextWaitingFor k signaler =
     (let nextWaiter = fold (waiter_step k signaler) [0..<length (threadList k)] (idlethread k)
      in if nextWaiter = idlethread k then None else Some nextWaiter)"

section \<open>The scheduler\<close>

definition checkStackViolations :: "nat \<Rightarrow> kernel \<Rightarrow> bool \<times> kernel" where
  "checkStackViolations i k =
     (if th_stackAddr (thr k i) < th_stackBegin (thr k i) + 300
      then (True, upd_thread i (\<lambda>t. t\<lparr>th_suspendedUntil := END_OF_TIME\<rparr>) k)
      else if th_stackWord (thr k i) \<noteq> EMPTY_MEMORY_MARKER
      then (True, upd_thread i (\<lambda>t. t\<lparr>th_suspendedUntil := END_OF_TIME\<rparr>) k)
      else (False, k))"

definition updateTriggerToNextTimingEvent :: "int \<Rightarrow> int \<Rightarrow> int \<Rightarrow> kernel \<Rightarrow> kernel" where
  "updateTriggerToNextTimingEvent nextSchedulingEventTime nextTimeEventTriggerTime timeNow k =
     (let reactivationTime = min nextSchedulingEventTime nextTimeEventTriggerTime;
          nextOfNextBeat = computeNextBeat 0 MIN_SYS_TICK_SPACING (i64 (timeNow + MIN_SYS_TICK_SPACING));
          reactivationTime' = max reactivationTime nextOfNextBeat;
          intervalInNanoSecs = i64 (reactivationTime' - timeNow)
      in k\<lparr>timerInterval := c_div intervalInNanoSecs 1000\<rparr>)"

definition schedule :: "int \<Rightarrow> int \<Rightarrow> int \<Rightarrow> int \<Rightarrow> kernel \<Rightarrow> nat \<times> kernel" where
  "schedule nowFind nowSlice nowTimer nextTimeEventTime k =
     (let k1 = k\<lparr>scheduleCounter := scheduleCounter k + 1\<rparr>;
          (nextThreadToRun, selectedEarliest) =
            (case preSelectedNextToRun k1 of
               None \<Rightarrow> findNextToRunFromISR k1 nowFind
             | Some p \<Rightarrow> (p, preSelectedEarliestSuspendedUntil k1));
          k2 = k1\<lparr>preSelectedNextToRun := None\<rparr>;
          (violation, k3) = checkStackViolations nextThreadToRun k2;
          next = (if violation then idlethread k3 else nextThreadToRun);
          k4 = upd_thread next (\<lambda>t. t\<lparr>th_lastActivation := scheduleCounter k3\<rparr>) k3;
          nextSchedulingEventTime =
            min selectedEarliest (i64 (TIME_SLICE_FOR_SAME_PRIORITY + nowSlice));
          k5 = k4\<lparr>timeToTryAgainToSchedule := nextSchedulingEventTime\<rparr>
      in (next, updateTriggerToNextTimingEvent nextSchedulingEventTime nextTimeEventTime nowTimer k5))"

definition activate :: "nat \<Rightarrow> kernel \<Rightarrow> kernel" where
  "activate i k = k\<lparr>currentThread := i, yieldSchedulingLock := False, timerRunning := True\<rparr>"

text \<open>The timer interrupt: handlers of time events may change the kernel (resume threads).\<close>

definition schedulerWrapper ::
  "(nat \<Rightarrow> kernel ev_state \<Rightarrow> kernel ev_state) \<Rightarrow> nat \<Rightarrow> int \<Rightarrow> int \<Rightarrow> int \<Rightarrow> int \<Rightarrow> int \<Rightarrow>
     kernel ev_state \<Rightarrow> kernel ev_state" where
  "schedulerWrapper handle ctx nowEvents nowTest nowFind nowSlice nowTimer st =
     (let active_trd = currentThread (ev_world st);
          st0 = st\<lparr>ev_world := upd_thread active_trd (\<lambda>t. t\<lparr>th_stackAddr := ctx\<rparr>) (ev_world st)\<rparr>;
          st1 = snd (propagate handle nowEvents st0);
          k = ev_world st1;
          nextSchedulingEventTime = timeToTryAgainToSchedule k
      in if nowTest < nextSchedulingEventTime
         then st1\<lparr>ev_world := activate active_trd
                ((updateTriggerToNextTimingEvent nextSchedulingEventTime (getNextTriggerTime st1)
                    nowTimer k)\<lparr>timerRunning := True\<rparr>)\<rparr>
         else (let (next, k') = schedule nowFind nowSlice nowTimer (getNextTriggerTime st1) k
               in st1\<lparr>ev_world := activate next k'\<rparr>))"

definition idle :: "int \<Rightarrow> int \<Rightarrow> kernel \<Rightarrow> kernel" where
  "idle nextTimeEventTime nowTimer k =
     (let k1 = upd_thread (idlethread k) (\<lambda>t. t\<lparr>th_suspendedUntil := 0\<rparr>) k;
          k2 = k1\<lparr>currentThread := idlethread k1, schedulerRunning := True\<rparr>;
          k3 = updateTriggerToNextTimingEvent (timeToTryAgainToSchedule k2) nextTimeEventTime nowTimer k2
      in activate (idlethread k3) k3)"

text \<open>
  The body of the idle thread after its \<open>yield\<close>, without the sleep of the processor itself: the
  intervals programmed into the timer, in microseconds. \<open>TIME_WAKEUP_FROM_SLEEP\<close> is a parameter of
  the port.
\<close>

definition idle_sleep :: "int \<Rightarrow> int \<Rightarrow> int \<Rightarrow> int \<Rightarrow> kernel \<Rightarrow> int list \<times> kernel" where
  "idle_sleep TIME_WAKEUP_FROM_SLEEP nextTimeEventTime now now' k =
     (let reactivationTime = min (timeToTryAgainToSchedule k) nextTimeEventTime;
          durationToNextTimingEvent = i64 (reactivationTime - now);
          interval = i64 (i64 (durationToNextTimingEvent - TIME_WAKEUP_FROM_SLEEP) - MIN_SYS_TICK_SPACING)
      in if interval > TIME_WAKEUP_FROM_SLEEP \<and> interval > MIN_SYS_TICK_SPACING
         then (let remainingTime = max (i64 (reactivationTime - now')) MIN_SYS_TICK_SPACING
               in ([c_div interval 1000, c_div remainingTime 1000],
                   k\<lparr>timerInterval := c_div remainingTime 1000, timerRunning := True\<rparr>))
         else ([], k))"

text \<open>\<open>init\<close> is the virtual method of the threads of the application.\<close>

definition initializeThreads :: "(nat \<Rightarrow> kernel \<Rightarrow> kernel) \<Rightarrow> kernel \<Rightarrow> kernel" where
  "initializeThreads init k =
     fold (\<lambda>i k. upd_thread i (\<lambda>t. t\<lparr>th_suspendedUntil := 0\<rparr>) (init i k)) [0..<length (threadList k)] k"

text \<open>\<open>threadStartupWrapper\<close> before it calls \<open>run\<close>, and its endless loop after \<open>run\<close> returned, up
  to each \<open>yield\<close>.\<close>

definition thread_startup :: "nat \<Rightarrow> kernel \<Rightarrow> kernel" where
  "thread_startup i k = upd_thread i (\<lambda>t. t\<lparr>th_suspendedUntil := 0\<rparr>) (k\<lparr>currentThread := i\<rparr>)"

definition thread_terminated :: "nat \<Rightarrow> kernel \<Rightarrow> kernel" where
  "thread_terminated i = upd_thread i (\<lambda>t. t\<lparr>th_suspendedUntil := END_OF_TIME\<rparr>)"

section \<open>Operations of a thread\<close>

definition setPriority :: "nat \<Rightarrow> int \<Rightarrow> kernel \<Rightarrow> kernel" where
  "setPriority i prio = upd_thread i (\<lambda>t. t\<lparr>th_priority := prio\<rparr>)"

definition setPrioCurrentRunner :: "int \<Rightarrow> kernel \<Rightarrow> int \<times> kernel" where
  "setPrioCurrentRunner newPrio k =
     (th_priority (thr k (currentThread k)), setPriority (currentThread k) newPrio k)"

definition resume :: "nat \<Rightarrow> kernel \<Rightarrow> kernel" where
  "resume i k = upd_thread i (\<lambda>t. t\<lparr>th_waitingFor := None, th_suspendedUntil := 0\<rparr>)
     (k\<lparr>timeToTryAgainToSchedule := 0\<rparr>)"

text \<open>\<open>suspendCallerUntil\<close> up to its \<open>yield\<close>, and from there to its return.\<close>

definition suspend_begin :: "int \<Rightarrow> nat option \<Rightarrow> kernel \<Rightarrow> kernel" where
  "suspend_begin reactivationTime signaler k =
     (let caller = currentThread k;
          (prev, k1) = setPrioCurrentRunner CEILING_PRIORITY k;
          k2 = upd_thread caller
                 (\<lambda>t. t\<lparr>th_waitingFor := signaler, th_suspendedUntil := reactivationTime\<rparr>) k1
      in snd (setPrioCurrentRunner prev k2))"

definition suspend_end :: "nat \<Rightarrow> kernel \<Rightarrow> bool \<times> kernel" where
  "suspend_end caller k =
     (let k1 = upd_thread caller (\<lambda>t. t\<lparr>th_waitingFor := None\<rparr>) k
      in (th_suspendedUntil (thr k1 caller) = 0, k1))"

definition setPeriodicBeat :: "nat \<Rightarrow> int \<Rightarrow> int \<Rightarrow> kernel \<Rightarrow> kernel" where
  "setPeriodicBeat i begin period = upd_thread i (\<lambda>t. t\<lparr>th_nextBeat := begin, th_period := period\<rparr>)"

text \<open>The part of \<open>suspendUntilNextBeat\<close> after the thread was woken.\<close>

definition beat_reached :: "nat \<Rightarrow> int \<Rightarrow> kernel \<Rightarrow> kernel" where
  "beat_reached i timeNow =
     upd_thread i (\<lambda>t. t\<lparr>th_nextBeat := computeNextBeat (th_nextBeat t) (th_period t) timeNow\<rparr>)"

text \<open>
  \<open>Thread::yield\<close> up to the call of the scheduler. \<open>intr1\<close> and \<open>intr2\<close> are the timer interrupts
  that may run between the selection and its first check, and between that and the stop of the
  timer. The result says whether the scheduler is called.
\<close>

definition yield_prepare ::
  "(kernel \<Rightarrow> kernel) \<Rightarrow> (kernel \<Rightarrow> kernel) \<Rightarrow> int \<Rightarrow> kernel \<Rightarrow> bool \<times> kernel" where
  "yield_prepare intr1 intr2 nowFind k =
     (let k1 = k\<lparr>timeToTryAgainToSchedule := 0\<rparr>;
          startScheduleCounter = scheduleCounter k1;
          (preselection, selectedEarliest) = findNextToRun k1 nowFind;
          k2 = intr1 k1
      in if startScheduleCounter \<noteq> scheduleCounter k2 then (False, k2)
         else if preselection = currentThread k2 then (False, k2)
         else (let k3 = intr2 (k2\<lparr>yieldSchedulingLock := True\<rparr>);
                   k4 = k3\<lparr>timerRunning := False\<rparr>
               in if startScheduleCounter = scheduleCounter k4
                  then (True, k4\<lparr>preSelectedNextToRun := Some preselection,
                                preSelectedEarliestSuspendedUntil := selectedEarliest\<rparr>)
                  else (True, k4)))"

text \<open>The whole of \<open>yield\<close>: every port implements the call of the scheduler by saving the context
  and entering \<open>schedulerWrapper\<close>.\<close>

definition yield ::
  "(kernel \<Rightarrow> kernel) \<Rightarrow> (kernel \<Rightarrow> kernel) \<Rightarrow> (nat \<Rightarrow> kernel ev_state \<Rightarrow> kernel ev_state) \<Rightarrow> nat \<Rightarrow>
     int \<Rightarrow> int \<Rightarrow> int \<Rightarrow> int \<Rightarrow> int \<Rightarrow> int \<Rightarrow> kernel ev_state \<Rightarrow> kernel ev_state" where
  "yield intr1 intr2 handle ctx nowYield nowEvents nowTest nowFind nowSlice nowTimer st =
     (let (call, k) = yield_prepare intr1 intr2 nowYield (ev_world st)
      in if call then schedulerWrapper handle ctx nowEvents nowTest nowFind nowSlice nowTimer (st\<lparr>ev_world := k\<rparr>)
         else st\<lparr>ev_world := k\<rparr>)"

section \<open>What the selection returns\<close>

definition kernel_inv :: "kernel \<Rightarrow> bool" where
  "kernel_inv k \<longleftrightarrow> idlethread k < length (threadList k) \<and> currentThread k < length (threadList k) \<and>
     (\<forall>p. preSelectedNextToRun k = Some p \<longrightarrow> p < length (threadList k))"

definition ready :: "kernel \<Rightarrow> int \<Rightarrow> nat \<Rightarrow> bool" where
  "ready k now i \<longleftrightarrow> th_suspendedUntil (thr k i) < now"

text \<open>Thread \<open>i\<close> is served before thread \<open>j\<close>: higher priority, or same priority and activated
  longer ago.\<close>

definition before :: "kernel \<Rightarrow> nat \<Rightarrow> nat \<Rightarrow> bool" where
  "before k i j \<longleftrightarrow> th_priority (thr k i) > th_priority (thr k j) \<or>
     th_priority (thr k i) = th_priority (thr k j) \<and>
     th_lastActivation (thr k i) < th_lastActivation (thr k j)"

lemma before_trans: "before k i j \<Longrightarrow> \<not> before k l j \<Longrightarrow> \<not> before k l i"
  by (auto simp: before_def)

lemma before_irrefl [simp]: "\<not> before k i i"
  by (simp add: before_def)

lemma find_step_pair:
  "find_step k now i (n, sel) =
     (if ready k now i then (if before k i n then (i, sel) else (n, sel))
      else if th_priority (thr k i) \<ge> th_priority (thr k n)
        then (n, min sel (th_suspendedUntil (thr k i)))
      else (n, sel))"
  by (auto simp: find_step_def ready_def before_def earlier_def Let_def)

lemma findNextToRunFromISR_eq: "findNextToRunFromISR = findNextToRun"
  by (simp add: fun_eq_iff findNextToRunFromISR_def findNextToRun_def find_step_def [abs_def]
      find_stepFromISR_def [abs_def])

text \<open>The state of the selection loop after the threads \<open>vs\<close> were visited.\<close>

definition selects :: "kernel \<Rightarrow> int \<Rightarrow> nat list \<Rightarrow> nat \<times> int \<Rightarrow> bool" where
  "selects k now vs r \<longleftrightarrow> (case r of (n, sel) \<Rightarrow>
     (n = idlethread k \<or> n \<in> set vs \<and> ready k now n \<and> before k n (idlethread k)) \<and>
     (\<forall>i \<in> set vs. ready k now i \<longrightarrow> \<not> before k i n) \<and> \<not> before k (idlethread k) n \<and>
     (\<forall>i \<in> set vs. \<not> ready k now i \<and> th_priority (thr k i) \<ge> th_priority (thr k n) \<longrightarrow>
        sel \<le> th_suspendedUntil (thr k i)) \<and>
     (sel = END_OF_TIME \<or> (\<exists>i \<in> set vs. \<not> ready k now i \<and> sel = th_suspendedUntil (thr k i))))"

lemma selects_step:
  assumes "selects k now vs r"
  shows "selects k now (vs @ [i]) (find_step k now i r)"
proof (cases r)
  case (Pair n sel)
  have prio: "before k i n \<Longrightarrow> th_priority (thr k n) \<le> th_priority (thr k i)"
    by (auto simp: before_def)
  show ?thesis
  proof (cases "ready k now i \<and> before k i n")
    case True
    then have b: "before k i n" and r: "ready k now i" by auto
    from b have l: "\<not> before k l n \<Longrightarrow> \<not> before k l i" for l by (rule before_trans)
    have "before k i (idlethread k)"
      using b assms Pair by (auto simp: selects_def before_def)
    with r b l prio assms Pair show ?thesis
      by (auto simp: selects_def find_step_pair dest: order_trans)
  next
    case False
    with assms Pair show ?thesis by (auto simp: selects_def find_step_pair min_def)
  qed
qed

lemma findNextToRun_selects: "selects k now [0..<length (threadList k)] (findNextToRun k now)"
  unfolding findNextToRun_def
proof (rule fold_invariant)
  show "selects k now [] (idlethread k, END_OF_TIME)" by (simp add: selects_def)
qed (rule selects_step)

section \<open>Waiting threads\<close>

definition waits_for :: "kernel \<Rightarrow> nat option \<Rightarrow> nat \<Rightarrow> bool" where
  "waits_for k signaler i \<longleftrightarrow> i < length (threadList k) \<and> th_waitingFor (thr k i) = signaler"

lemma waiter_step_before:
  "waiter_step k sg i n = (if th_waitingFor (thr k i) = sg \<and> before k i n then i else n)"
  by (auto simp: waiter_step_def before_def)

definition best_waiter :: "kernel \<Rightarrow> nat option \<Rightarrow> nat list \<Rightarrow> nat \<Rightarrow> bool" where
  "best_waiter k sg vs n \<longleftrightarrow>
     (n = idlethread k \<or> n \<in> set vs \<and> th_waitingFor (thr k n) = sg \<and> before k n (idlethread k)) \<and>
     (\<forall>i \<in> set vs. th_waitingFor (thr k i) = sg \<longrightarrow> \<not> before k i n)"

lemma best_waiter_step:
  assumes "best_waiter k sg vs n"
  shows "best_waiter k sg (vs @ [i]) (waiter_step k sg i n)"
proof (cases "th_waitingFor (thr k i) = sg \<and> before k i n")
  case True
  then have l: "\<not> before k l n \<Longrightarrow> \<not> before k l i" for l by (blast dest: before_trans)
  have "before k i (idlethread k)" using True assms by (auto simp: best_waiter_def before_def)
  with True l assms show ?thesis by (auto simp: best_waiter_def waiter_step_before)
next
  case False
  with assms show ?thesis by (auto simp: best_waiter_def waiter_step_before)
qed

lemma waiter_loop: "best_waiter k sg vs (fold (waiter_step k sg) vs (idlethread k))"
proof (rule fold_invariant)
  show "best_waiter k sg [] (idlethread k)" by (simp add: best_waiter_def)
qed (rule best_waiter_step)

lemma findNextWaitingFor_Some:
  assumes "findNextWaitingFor k sg = Some w"
  shows "waits_for k sg w \<and> w \<noteq> idlethread k \<and> before k w (idlethread k) \<and>
    (\<forall>i. waits_for k sg i \<longrightarrow> \<not> before k i w)"
  using assms waiter_loop [of k sg "[0..<length (threadList k)]"]
  by (auto simp: findNextWaitingFor_def waits_for_def best_waiter_def Let_def split: if_splits)

lemma findNextWaitingFor_None:
  assumes "findNextWaitingFor k sg = None" "waits_for k sg i"
  shows "\<not> before k i (idlethread k)"
  using assms waiter_loop [of k sg "[0..<length (threadList k)]"]
  by (auto simp: findNextWaitingFor_def waits_for_def best_waiter_def Let_def split: if_splits)

section \<open>One call of the scheduler\<close>

lemma findNextToRun_cong:
  assumes "threadList k = threadList k'" "idlethread k = idlethread k'"
  shows "findNextToRun k = findNextToRun k'"
proof -
  have "find_step k = find_step k'"
    using assms by (auto simp: fun_eq_iff find_step_def Let_def)
  with assms show ?thesis by (intro ext) (simp only: findNextToRun_def)
qed

lemma upd_thread_fields [simp]:
  "length (threadList (upd_thread i f k)) = length (threadList k)"
  "idlethread (upd_thread i f k) = idlethread k" "currentThread (upd_thread i f k) = currentThread k"
  "scheduleCounter (upd_thread i f k) = scheduleCounter k"
  "preSelectedNextToRun (upd_thread i f k) = preSelectedNextToRun k"
  "preSelectedEarliestSuspendedUntil (upd_thread i f k) = preSelectedEarliestSuspendedUntil k"
  "timeToTryAgainToSchedule (upd_thread i f k) = timeToTryAgainToSchedule k"
  by (simp_all add: upd_thread_def)

lemma thr_upd_thread:
  "j < length (threadList k) \<Longrightarrow> thr (upd_thread i f k) j = (if i = j then f (thr k j) else thr k j)"
  by (simp add: upd_thread_def)

lemma updateTrigger_fields [simp]:
  "threadList (updateTriggerToNextTimingEvent a b t k) = threadList k"
  "idlethread (updateTriggerToNextTimingEvent a b t k) = idlethread k"
  "currentThread (updateTriggerToNextTimingEvent a b t k) = currentThread k"
  "scheduleCounter (updateTriggerToNextTimingEvent a b t k) = scheduleCounter k"
  "preSelectedNextToRun (updateTriggerToNextTimingEvent a b t k) = preSelectedNextToRun k"
  "timeToTryAgainToSchedule (updateTriggerToNextTimingEvent a b t k) = timeToTryAgainToSchedule k"
  by (simp_all add: updateTriggerToNextTimingEvent_def Let_def)

lemma activate_fields [simp]:
  "threadList (activate i k) = threadList k" "idlethread (activate i k) = idlethread k"
  "currentThread (activate i k) = i" "scheduleCounter (activate i k) = scheduleCounter k"
  "preSelectedNextToRun (activate i k) = preSelectedNextToRun k"
  by (simp_all add: activate_def)

definition stack_ok :: "thread \<Rightarrow> bool" where
  "stack_ok t \<longleftrightarrow> th_stackBegin t + 300 \<le> th_stackAddr t \<and> th_stackWord t = EMPTY_MEMORY_MARKER"

lemma checkStackViolations_cases:
  "checkStackViolations i k =
     (if stack_ok (thr k i) then (False, k)
      else (True, upd_thread i (\<lambda>t. t\<lparr>th_suspendedUntil := END_OF_TIME\<rparr>) k))"
  by (auto simp: checkStackViolations_def stack_ok_def)

text \<open>The thread the scheduler starts from: the preselection, if there is one.\<close>

definition selection :: "int \<Rightarrow> kernel \<Rightarrow> nat \<times> int" where
  "selection now k =
     (case preSelectedNextToRun k of
        None \<Rightarrow> findNextToRun k now
      | Some p \<Rightarrow> (p, preSelectedEarliestSuspendedUntil k))"

lemma schedule_unfold:
  "schedule nowFind nowSlice nowTimer ev k =
     (let (n, sel) = selection nowFind k;
          ok = stack_ok (thr k n);
          next = (if ok then n else idlethread k);
          k1 = k\<lparr>scheduleCounter := scheduleCounter k + 1, preSelectedNextToRun := None\<rparr>;
          k2 = (if ok then k1 else upd_thread n (\<lambda>t. t\<lparr>th_suspendedUntil := END_OF_TIME\<rparr>) k1);
          k3 = upd_thread next (\<lambda>t. t\<lparr>th_lastActivation := scheduleCounter k + 1\<rparr>) k2;
          nse = min sel (i64 (TIME_SLICE_FOR_SAME_PRIORITY + nowSlice))
      in (next, updateTriggerToNextTimingEvent nse ev nowTimer (k3\<lparr>timeToTryAgainToSchedule := nse\<rparr>)))"
proof -
  have "findNextToRun (k\<lparr>scheduleCounter := c\<rparr>) = findNextToRun k" for c
    by (rule findNextToRun_cong) simp_all
  then show ?thesis
    by (simp add: schedule_def selection_def findNextToRunFromISR_eq checkStackViolations_cases
        Let_def split: option.splits prod.splits)
qed

lemma schedule_fields:
  assumes "schedule nowFind nowSlice nowTimer ev k = (next, k')" "selection nowFind k = (n, sel)"
    "stack_ok (thr k n)"
  shows "next = n" "scheduleCounter k' = scheduleCounter k + 1" "preSelectedNextToRun k' = None"
    "idlethread k' = idlethread k"
    "timeToTryAgainToSchedule k' = min sel (i64 (TIME_SLICE_FOR_SAME_PRIORITY + nowSlice))"
    "threadList k' = (threadList k)[n := (thr k n)\<lparr>th_lastActivation := scheduleCounter k + 1\<rparr>]"
  using assms by (auto simp: schedule_unfold Let_def upd_thread_def)

section \<open>Rounds of the scheduler\<close>

text \<open>The scheduler called again and again, at the times \<open>ts\<close>, with no thread suspending itself.\<close>

fun sched_rounds :: "int list \<Rightarrow> int \<Rightarrow> kernel \<Rightarrow> nat list \<times> kernel" where
  "sched_rounds [] ev k = ([], k)"
| "sched_rounds (t # ts) ev k =
     (let (n, k1) = schedule t t t ev k; (ns, k2) = sched_rounds ts ev (activate n k1)
      in (n # ns, k2))"

text \<open>The threads \<open>R\<close> of priority \<open>p\<close> are ready, all others have lower priority or sleep for ever.\<close>

definition rr_group :: "kernel \<Rightarrow> nat set \<Rightarrow> int \<Rightarrow> bool" where
  "rr_group k R p \<longleftrightarrow> preSelectedNextToRun k = None \<and> idlethread k < length (threadList k) \<and>
     th_priority (thr k (idlethread k)) < p \<and> R \<noteq> {} \<and> R \<subseteq> {..<length (threadList k)} \<and>
     (\<forall>i \<in> R. th_priority (thr k i) = p \<and> th_suspendedUntil (thr k i) = 0 \<and> stack_ok (thr k i)) \<and>
     (\<forall>i < length (threadList k). i \<notin> R \<longrightarrow>
        th_priority (thr k i) < p \<or> th_suspendedUntil (thr k i) = END_OF_TIME)"

lemma rr_group_cong:
  assumes g: "rr_group k R p" and "preSelectedNextToRun k' = None" "idlethread k' = idlethread k"
    "length (threadList k') = length (threadList k)"
    and e: "\<And>i. i < length (threadList k) \<Longrightarrow> th_priority (thr k' i) = th_priority (thr k i) \<and>
      th_suspendedUntil (thr k' i) = th_suspendedUntil (thr k i) \<and>
      stack_ok (thr k' i) = stack_ok (thr k i)"
  shows "rr_group k' R p"
proof -
  have "i < length (threadList k)" if "i \<in> R" for i using g that by (auto simp: rr_group_def)
  with assms show ?thesis unfolding rr_group_def by simp
qed

lemma rr_select:
  assumes g: "rr_group k R p" and t: "0 < t" "t \<le> END_OF_TIME"
  obtains n sel where "selection t k = (n, sel)" "n \<in> R" "stack_ok (thr k n)"
    "\<forall>i \<in> R. th_lastActivation (thr k n) \<le> th_lastActivation (thr k i)"
proof -
  obtain n sel where f: "findNextToRun k t = (n, sel)" by (cases "findNextToRun k t")
  have s: "selects k t [0..<length (threadList k)] (n, sel)"
    using findNextToRun_selects [of k t] f by simp
  have rdy: "ready k t i" if "i \<in> R" for i using g t that by (auto simp: rr_group_def ready_def)
  have nb: "\<not> before k i n" if "i \<in> R" for i
    using s rdy [OF that] g that by (auto simp: selects_def rr_group_def)
  from g obtain r where r: "r \<in> R" by (auto simp: rr_group_def)
  have pn: "p \<le> th_priority (thr k n)" using nb [OF r] g r by (auto simp: before_def rr_group_def)
  have nR: "n \<in> R"
  proof (rule ccontr)
    assume "n \<notin> R"
    moreover have "n \<noteq> idlethread k" using pn g by (auto simp: rr_group_def)
    ultimately have "n < length (threadList k)" "ready k t n" using s by (auto simp: selects_def)
    with \<open>n \<notin> R\<close> g pn t show False by (force simp: rr_group_def ready_def)
  qed
  show thesis
  proof (rule that)
    show "selection t k = (n, sel)" using f g by (simp add: selection_def rr_group_def)
    show "n \<in> R" by (rule nR)
    show "stack_ok (thr k n)" using nR g by (auto simp: rr_group_def)
    show "\<forall>i \<in> R. th_lastActivation (thr k n) \<le> th_lastActivation (thr k i)"
      using nb nR g by (auto simp: before_def rr_group_def not_less)
  qed
qed

lemma rr_schedule:
  assumes g: "rr_group k R p" and t: "0 < t" "t \<le> END_OF_TIME"
    and s: "schedule t t t ev k = (n, k1)"
  defines "k' \<equiv> activate n k1"
  shows "n \<in> R" "\<forall>i \<in> R. th_lastActivation (thr k n) \<le> th_lastActivation (thr k i)"
    "rr_group k' R p" "scheduleCounter k' = scheduleCounter k + 1"
    "\<forall>i \<in> R. th_lastActivation (thr k' i) =
       (if i = n then scheduleCounter k + 1 else th_lastActivation (thr k i))"
proof -
  from rr_select [OF g t] obtain m sel where m: "selection t k = (m, sel)" "m \<in> R"
    "stack_ok (thr k m)" "\<forall>i \<in> R. th_lastActivation (thr k m) \<le> th_lastActivation (thr k i)" by blast
  note f = schedule_fields [OF s m(1,3)]
  show "n \<in> R" "\<forall>i \<in> R. th_lastActivation (thr k n) \<le> th_lastActivation (thr k i)"
    "scheduleCounter k' = scheduleCounter k + 1"
    using f m by (simp_all add: k'_def)
  have "m < length (threadList k)" using m(2) g by (auto simp: rr_group_def)
  then show "\<forall>i \<in> R. th_lastActivation (thr k' i) =
       (if i = n then scheduleCounter k + 1 else th_lastActivation (thr k i))"
    using f by (auto simp: k'_def nth_list_update)
  have "th_priority (thr k' i) = th_priority (thr k i) \<and>
      th_suspendedUntil (thr k' i) = th_suspendedUntil (thr k i) \<and>
      stack_ok (thr k' i) = stack_ok (thr k i)" if "i < length (threadList k)" for i
    using f that by (cases "i = m") (simp_all add: k'_def stack_ok_def)
  then show "rr_group k' R p"
    using f g by (intro rr_group_cong [OF g]) (simp_all add: k'_def rr_group_def)
qed

end
