(* ===== verification/Scheduling.thy ===== *)
theory Scheduling
  imports Threads
begin

text \<open>
  The properties of the scheduler: what one call selects, that it is called again in time, what
  \<open>yield\<close> makes of its preselection, the timer, the rotation among threads of the same priority,
  and the invariant of arbitrary sequences of kernel operations.
\<close>

section \<open>Operations that do not schedule\<close>

text \<open>The operation changes neither the number of threads, nor who runs, nor any activation stamp,
  nor the stack of a thread.\<close>

definition keeps :: "kernel \<Rightarrow> kernel \<Rightarrow> bool" where
  "keeps k k' \<longleftrightarrow> length (threadList k') = length (threadList k) \<and> idlethread k' = idlethread k \<and>
     currentThread k' = currentThread k \<and> scheduleCounter k' = scheduleCounter k \<and>
     preSelectedNextToRun k' = preSelectedNextToRun k \<and>
     preSelectedEarliestSuspendedUntil k' = preSelectedEarliestSuspendedUntil k \<and>
     (\<forall>i < length (threadList k). th_lastActivation (thr k' i) = th_lastActivation (thr k i))"

lemma keeps_refl [simp, intro]: "keeps k k"
  by (simp add: keeps_def)

lemma keeps_trans: "keeps k k' \<Longrightarrow> keeps k' k'' \<Longrightarrow> keeps k k''"
  by (auto simp: keeps_def)

lemma keeps_upd_thread [intro]:
  "(\<And>t. th_lastActivation (f t) = th_lastActivation t) \<Longrightarrow> keeps k (upd_thread i f k)"
  by (auto simp: keeps_def thr_upd_thread)

lemma keeps_timeToTry [simp]: "keeps k (k'\<lparr>timeToTryAgainToSchedule := t\<rparr>) = keeps k k'"
  by (simp add: keeps_def)

locale quiet_op =
  fixes quiet_step :: "kernel \<Rightarrow> kernel"
  assumes step_keeps: "keeps k (quiet_step k)"
begin

lemma after: "keeps k k' \<Longrightarrow> keeps k (quiet_step k')"
  using step_keeps keeps_trans by blast

lemma keeps_kernel_inv: "kernel_inv k \<Longrightarrow> kernel_inv (quiet_step k)"
  using step_keeps [of k] by (auto simp: keeps_def kernel_inv_def)

end

interpretation resume: quiet_op "resume i" for i
  by unfold_locales (auto simp: resume_def intro: keeps_trans [OF _ keeps_upd_thread])

interpretation set_priority: quiet_op "setPriority i p" for i p
  by unfold_locales (auto simp: setPriority_def)

interpretation set_beat: quiet_op "setPeriodicBeat i b p" for i b p
  by unfold_locales (auto simp: setPeriodicBeat_def)

interpretation beat: quiet_op "beat_reached i t" for i t
  by unfold_locales (auto simp: beat_reached_def)

interpretation terminated: quiet_op "thread_terminated i" for i
  by unfold_locales (auto simp: thread_terminated_def)

interpretation ceiling: quiet_op "\<lambda>k. snd (setPrioCurrentRunner p k)" for p
  by unfold_locales (simp add: setPrioCurrentRunner_def set_priority.step_keeps)

interpretation suspend: quiet_op "suspend_begin t sg" for t sg
proof
  fix k
  have "keeps k (upd_thread (currentThread k) (\<lambda>r. r\<lparr>th_waitingFor := sg, th_suspendedUntil := t\<rparr>)
      (snd (setPrioCurrentRunner CEILING_PRIORITY k)))"
    by (rule keeps_trans [OF ceiling.step_keeps keeps_upd_thread]) simp
  then show "keeps k (suspend_begin t sg k)"
    by (simp add: suspend_begin_def case_prod_beta Let_def ceiling.after)
qed

interpretation suspended: quiet_op "\<lambda>k. snd (suspend_end i k)" for i
  by unfold_locales (auto simp: suspend_end_def Let_def)

text \<open>The handlers of time events: event \<open>i\<close> resumes the threads \<open>g i\<close>.\<close>

definition resume_all :: "(nat \<Rightarrow> nat list) \<Rightarrow> nat \<Rightarrow> kernel \<Rightarrow> kernel" where
  "resume_all g i = fold resume (g i)"

lemma fold_keeps: "(\<And>x k. keeps k (f x k)) \<Longrightarrow> keeps k (fold f xs k)"
  by (induction xs arbitrary: k) (auto intro: keeps_trans)

interpretation resumer: quiet_op "resume_all g i" for g i
  by unfold_locales (simp add: resume_all_def fold_keeps resume.step_keeps)

text \<open>What resuming threads leaves unchanged besides.\<close>

definition keeps_stacks :: "kernel \<Rightarrow> kernel \<Rightarrow> bool" where
  "keeps_stacks k k' \<longleftrightarrow> length (threadList k') = length (threadList k) \<and>
     (\<forall>i < length (threadList k). stack_ok (thr k' i) = stack_ok (thr k i))"

lemma resume_stacks: "keeps_stacks k (resume i k)"
  by (auto simp: keeps_stacks_def resume_def thr_upd_thread stack_ok_def)

lemma fold_stacks: "(\<And>x k. keeps_stacks k (f x k)) \<Longrightarrow> keeps_stacks k (fold f xs k)"
proof (induction xs arbitrary: k)
  case (Cons x xs)
  then have "keeps_stacks (f x k) (fold f xs (f x k))" "keeps_stacks k (f x k)" by auto
  then show ?case by (simp add: keeps_stacks_def)
qed (simp add: keeps_stacks_def)

lemma resume_all_stacks: "keeps_stacks k (resume_all g i k)"
  by (simp add: resume_all_def fold_stacks resume_stacks)

lemma resume_all_time:
  "timeToTryAgainToSchedule k = 0 \<Longrightarrow> timeToTryAgainToSchedule (fold (resume_all g) is k) = 0"
proof (induction "is" arbitrary: k)
  case (Cons i "is")
  have "timeToTryAgainToSchedule k = 0 \<Longrightarrow> timeToTryAgainToSchedule (fold resume js k) = 0" for js k
    by (induction js arbitrary: k) (simp_all add: resume_def)
  with Cons show ?case by (simp add: resume_all_def)
qed simp

section \<open>Rotation\<close>

lemma sched_rounds_Cons:
  assumes "schedule t t t ev k = (n, k1)"
  shows "fst (sched_rounds (t # ts) ev k) = n # fst (sched_rounds ts ev (activate n k1))"
  using assms by (simp add: case_prod_beta Let_def)

lemma rr_rounds:
  fixes c0 :: u64
  assumes "rr_group k R p" "\<forall>t \<in> set ts. 0 < t \<and> t \<le> END_OF_TIME" "c0 \<le> scheduleCounter k"
    "unat (scheduleCounter k) + length ts < 2 ^ 64"
    "length ts \<le> card {i \<in> R. th_lastActivation (thr k i) \<le> c0}"
  shows "distinct (fst (sched_rounds ts ev k)) \<and> length (fst (sched_rounds ts ev k)) = length ts \<and>
    set (fst (sched_rounds ts ev k)) \<subseteq> {i \<in> R. th_lastActivation (thr k i) \<le> c0}"
  using assms
proof (induction ts arbitrary: k)
  case (Cons t ts)
  let ?old = "\<lambda>k. {i \<in> R. th_lastActivation (thr k i) \<le> c0}"
  obtain n k1 where s: "schedule t t t ev k = (n, k1)" by (cases "schedule t t t ev k")
  let ?k = "activate n k1"
  have t: "0 < t" "t \<le> END_OF_TIME" using Cons.prems(2) by auto
  note r = rr_schedule [OF Cons.prems(1) t s]
  have fin: "finite R" using Cons.prems(1) by (auto simp: rr_group_def intro: finite_subset)
  have "0 < card (?old k)" using Cons.prems(5) by (simp only: length_Cons)
  then have "?old k \<noteq> {}" by (metis card.empty less_irrefl)
  then obtain m where "m \<in> R" "th_lastActivation (thr k m) \<le> c0" by auto
  with r(2) have "th_lastActivation (thr k n) \<le> c0" by (meson order_trans)
  with r(1) have n: "n \<in> ?old k" by simp
  have cnt: "unat (scheduleCounter ?k) = unat (scheduleCounter k) + 1"
    using Cons.prems(4) r(4) by (simp add: unat_word_ariths)
  then have "c0 < scheduleCounter ?k" using Cons.prems(3) by (simp add: word_less_nat_alt word_le_nat_alt)
  with r(4,5) have old: "?old ?k = ?old k - {n}" by (auto split: if_splits)
  have "distinct (fst (sched_rounds ts ev ?k)) \<and> length (fst (sched_rounds ts ev ?k)) = length ts \<and>
      set (fst (sched_rounds ts ev ?k)) \<subseteq> ?old ?k"
  proof (rule Cons.IH)
    show "length ts \<le> card (?old ?k)"
      unfolding old card_Diff_singleton [OF n] using Cons.prems(5) by simp
  qed (use r(3) cnt Cons.prems \<open>c0 < scheduleCounter ?k\<close> in auto)
  then show ?case unfolding old sched_rounds_Cons [OF s] using n by auto
qed simp

section \<open>The timer\<close>

lemma timer_beat:
  assumes "0 \<le> now" "now + 2 * MIN_SYS_TICK_SPACING \<le> END_OF_TIME"
  defines "b \<equiv> computeNextBeat 0 MIN_SYS_TICK_SPACING (i64 (now + MIN_SYS_TICK_SPACING))"
  shows "now + MIN_SYS_TICK_SPACING < b" "b \<le> now + 2 * MIN_SYS_TICK_SPACING"
proof -
  let ?p = MIN_SYS_TICK_SPACING and ?t = "now + MIN_SYS_TICK_SPACING"
  have p: "0 < ?p" "?p < END_OF_TIME"
    by (simp_all add: MIN_SYS_TICK_SPACING_def MICROSECONDS_def NANOSECONDS_def END_OF_TIME_def)
  have "i64 ?t = ?t" using assms p by (intro i64_exact in_i64_nonneg) auto
  moreover have "computeNextBeat 0 ?p ?t = (?t div ?p + 1) * ?p"
    using computeNextBeat_exact [of 0 ?t ?p] assms p by simp
  ultimately have "b = (?t div ?p + 1) * ?p" by (simp add: b_def)
  then show "?t < b" "b \<le> now + 2 * ?p"
    using next_multiple_bounds [of ?t ?p] p assms(1) by auto
qed

section \<open>The preselection of yield\<close>

lemma no_preselection: "preSelectedNextToRun k = None \<Longrightarrow> k\<lparr>preSelectedNextToRun := None\<rparr> = k"
  by (cases k) simp

lemma schedule_preselected:
  assumes "findNextToRun k t = (p, preSelectedEarliestSuspendedUntil k)" "preSelectedNextToRun k = Some p"
  shows "schedule t s u ev k = schedule t s u ev (k\<lparr>preSelectedNextToRun := None\<rparr>)"
proof -
  have "findNextToRun (k\<lparr>preSelectedNextToRun := None\<rparr>) = findNextToRun k"
    by (rule findNextToRun_cong) simp_all
  with assms have "selection t k = (p, preSelectedEarliestSuspendedUntil k)"
    "selection t (k\<lparr>preSelectedNextToRun := None\<rparr>) = (p, preSelectedEarliestSuspendedUntil k)"
    by (simp_all add: selection_def)
  then show ?thesis by (simp add: schedule_unfold Let_def)
qed

text \<open>What handlers of interrupts and of time events do when the scheduler is not called: they resume threads,
  and nothing else the selection reads changes.\<close>

definition only_wakes :: "kernel \<Rightarrow> kernel \<Rightarrow> bool" where
  "only_wakes k k' \<longleftrightarrow> keeps k k' \<and> (\<forall>i < length (threadList k). th_priority (thr k' i) = th_priority (thr k i) \<and>
     (th_suspendedUntil (thr k' i) = th_suspendedUntil (thr k i) \<or> th_suspendedUntil (thr k' i) = 0))"

text \<open>No sleeping thread was woken.\<close>

definition nobody_woken :: "kernel \<Rightarrow> int \<Rightarrow> kernel \<Rightarrow> bool" where
  "nobody_woken k now k' \<longleftrightarrow> (\<forall>i < length (threadList k). ready k' now i \<longrightarrow> ready k now i)"

text \<open>An interrupt either called the scheduler, or at most resumed threads.\<close>

definition timer_interrupt :: "(kernel \<Rightarrow> kernel) \<Rightarrow> kernel \<Rightarrow> bool" where
  "timer_interrupt intr k \<longleftrightarrow> only_wakes k (intr k) \<or>
     scheduleCounter (intr k) \<noteq> scheduleCounter k \<and>
       (preSelectedNextToRun k = None \<longrightarrow> preSelectedNextToRun (intr k) = None)"

lemma only_wakes_trans: "only_wakes k k' \<Longrightarrow> only_wakes k' k'' \<Longrightarrow> only_wakes k k''"
proof -
  assume w: "only_wakes k k'" "only_wakes k' k''"
  then have "length (threadList k') = length (threadList k)" by (simp add: only_wakes_def keeps_def)
  with w show ?thesis using keeps_trans [of k k' k''] unfolding only_wakes_def by metis
qed

lemma only_wakes_upd:
  "(\<And>t. th_lastActivation (f t) = th_lastActivation t \<and> th_priority (f t) = th_priority t \<and>
     (th_suspendedUntil (f t) = th_suspendedUntil t \<or> th_suspendedUntil (f t) = 0)) \<Longrightarrow> only_wakes k (upd_thread i f k)"
  by (auto simp: only_wakes_def thr_upd_thread)

lemma only_wakes_resume: "only_wakes k (resume i k)"
  by (simp add: only_wakes_def resume.step_keeps) (auto simp: resume_def thr_upd_thread)

lemma only_wakes_fold: "(\<And>x k. only_wakes k (f x k)) \<Longrightarrow> only_wakes k (fold f xs k)"
  by (induction xs arbitrary: k) (auto simp: only_wakes_def [of k k for k] intro: only_wakes_trans)

lemma only_wakes_before:
  "only_wakes k k' \<Longrightarrow> i < length (threadList k) \<Longrightarrow> j < length (threadList k) \<Longrightarrow> before k' i j = before k i j"
  by (simp add: only_wakes_def keeps_def before_def)

lemma only_wakes_ready: "only_wakes k k' \<Longrightarrow> ready k now i \<Longrightarrow> 0 < now \<Longrightarrow> i < length (threadList k) \<Longrightarrow> ready k' now i"
  by (auto simp: only_wakes_def ready_def)

lemma find_step_wakes:
  assumes "only_wakes k k'" "nobody_woken k now k'" "0 < now" "i < length (threadList k)" "n < length (threadList k)"
  shows "find_step k' now i (n, sel) = find_step k now i (n, sel)"
proof -
  have r: "ready k' now i = ready k now i"
    using assms only_wakes_ready by (auto simp: nobody_woken_def)
  moreover have "\<not> ready k now i \<Longrightarrow> th_suspendedUntil (thr k' i) = th_suspendedUntil (thr k i)"
    using assms(1,3,4) r by (auto simp: only_wakes_def ready_def)
  ultimately show ?thesis
    using assms(1,4,5) only_wakes_before [OF assms(1,4,5)] by (simp add: find_step_pair only_wakes_def)
qed

lemma find_fold_wakes:
  assumes "only_wakes k k'" "nobody_woken k now k'" "0 < now" "\<forall>i \<in> set vs. i < length (threadList k)"
    and "fst r < length (threadList k)"
  shows "fold (find_step k' now) vs r = fold (find_step k now) vs r"
  using assms(4,5)
proof (induction vs arbitrary: r)
  case (Cons i vs)
  obtain n sel where r: "r = (n, sel)" by (cases r)
  with Cons.prems have "find_step k' now i r = find_step k now i r" "fst (find_step k now i r) < length (threadList k)"
    using find_step_wakes [OF assms(1-3), of i n sel] by (auto simp: find_step_pair)
  with Cons show ?case by simp
qed simp

text \<open>The selection does not notice interrupts that wake nobody.\<close>

lemma findNextToRun_wakes:
  assumes "kernel_inv k" "only_wakes k k'" "nobody_woken k now k'" "0 < now"
  shows "findNextToRun k' now = findNextToRun k now"
  using find_fold_wakes [OF assms(2-4), of "[0..<length (threadList k)]" "(idlethread k, END_OF_TIME)"] assms(1,2)
  by (simp add: findNextToRun_def only_wakes_def keeps_def kernel_inv_def)

section \<open>Sequences of kernel operations\<close>

datatype kernel_op =
    OpTimer nat int int int int int
  | OpYield nat int int int int int int
  | OpResume nat
  | OpSuspend int "nat option"
  | OpSetPriority nat int
  | OpBeat nat int

text \<open>\<open>g\<close> says which threads the handler of each time event resumes.\<close>

fun kernel_exec :: "(nat \<Rightarrow> nat list) \<Rightarrow> kernel_op \<Rightarrow> kernel ev_state \<Rightarrow> kernel ev_state" where
  "kernel_exec g (OpTimer ctx t1 t2 t3 t4 t5) st =
     schedulerWrapper (app_handle (resume_all g)) ctx t1 t2 t3 t4 t5 st"
| "kernel_exec g (OpYield ctx t0 t1 t2 t3 t4 t5) st =
     yield (\<lambda>k. k) (\<lambda>k. k) (app_handle (resume_all g)) ctx t0 t1 t2 t3 t4 t5 st"
| "kernel_exec g (OpResume i) st = st\<lparr>ev_world := resume i (ev_world st)\<rparr>"
| "kernel_exec g (OpSuspend t sg) st = st\<lparr>ev_world := suspend_begin t sg (ev_world st)\<rparr>"
| "kernel_exec g (OpSetPriority i p) st = st\<lparr>ev_world := setPriority i p (ev_world st)\<rparr>"
| "kernel_exec g (OpBeat i t) st = st\<lparr>ev_world := beat_reached i t (ev_world st)\<rparr>"

text \<open>No stamp is newer than the counter, and no two threads carry the same stamp, unless they
  never ran.\<close>

definition stamps_ok :: "kernel \<Rightarrow> bool" where
  "stamps_ok k \<longleftrightarrow>
     (\<forall>i < length (threadList k). th_lastActivation (thr k i) \<le> scheduleCounter k) \<and>
     (\<forall>i < length (threadList k). \<forall>j < length (threadList k). i \<noteq> j \<longrightarrow>
        th_lastActivation (thr k i) = th_lastActivation (thr k j) \<longrightarrow> th_lastActivation (thr k i) = 0)"

text \<open>One operation: at most one call of the scheduler.\<close>

definition kstep :: "kernel \<Rightarrow> kernel \<Rightarrow> bool" where
  "kstep k k' \<longleftrightarrow> kernel_inv k' \<and> preSelectedNextToRun k' = None \<and> stamps_ok k' \<and>
     length (threadList k') = length (threadList k) \<and>
     unat (scheduleCounter k') \<le> unat (scheduleCounter k) + 1"

lemma keeps_inv: "keeps k k' \<Longrightarrow> kernel_inv k \<Longrightarrow> kernel_inv k'"
  by (auto simp: keeps_def kernel_inv_def)

lemma keeps_stamps: "keeps k k' \<Longrightarrow> stamps_ok k \<Longrightarrow> stamps_ok k'"
  by (auto simp: keeps_def stamps_ok_def)

lemma keeps_kstep:
  "keeps k k' \<Longrightarrow> kernel_inv k \<Longrightarrow> stamps_ok k \<Longrightarrow> preSelectedNextToRun k = None \<Longrightarrow> kstep k k'"
  using keeps_inv [of k k'] keeps_stamps [of k k'] by (simp add: kstep_def) (simp add: keeps_def)

lemma keeps_activate: "keeps k k' \<Longrightarrow> keeps k (activate (currentThread k) k')"
  by (simp add: keeps_def activate_def)

lemma keeps_trigger: "keeps k k' \<Longrightarrow> keeps k (updateTriggerToNextTimingEvent a b t k')"
  by (simp add: keeps_def updateTriggerToNextTimingEvent_def Let_def)

lemma schedule_stamps:
  assumes "schedule t s u ev k = (n, k')" "kernel_inv k" "stamps_ok k"
    "unat (scheduleCounter k) + 1 < 2 ^ 64"
  shows "kstep k (activate n k')"
proof -
  obtain m sel where m: "selection t k = (m, sel)" by (cases "selection t k")
  have lt: "m < length (threadList k)"
    using m assms(2) findNextToRun_selects [of k t]
    by (auto simp: selection_def selects_def kernel_inv_def split: option.splits prod.splits)
  let ?c = "scheduleCounter k + 1"
  have c: "unat ?c = unat (scheduleCounter k) + 1" using assms(4) by (simp add: unat_word_ariths)
  then have old: "th_lastActivation (thr k i) < ?c" if "i < length (threadList k)" for i
    using assms(3) that by (fastforce simp: stamps_ok_def word_less_nat_alt word_le_nat_alt)
  have fields: "n < length (threadList k)" "scheduleCounter k' = ?c" "preSelectedNextToRun k' = None"
    "idlethread k' = idlethread k" "length (threadList k') = length (threadList k)"
    using assms(1,2) lt m by (auto simp: schedule_unfold Let_def kernel_inv_def)
  have last: "th_lastActivation (thr k' i) = (if i = n then ?c else th_lastActivation (thr k i))"
    if "i < length (threadList k)" for i
    using assms(1) m that by (auto simp: schedule_unfold Let_def thr_upd_thread)
  have new: "th_lastActivation (thr k i) \<noteq> ?c" "?c \<noteq> th_lastActivation (thr k i)"
    if "i < length (threadList k)" for i using old [OF that] by auto
  have "stamps_ok (activate n k')"
    using assms(3) fields last unfolding stamps_ok_def
    by (auto simp: less_imp_le old new)
  with fields c assms(2) show ?thesis by (auto simp: kstep_def kernel_inv_def)
qed

lemma wrapper_kstep:
  assumes "kernel_inv (ev_world st)" "stamps_ok (ev_world st)"
    "unat (scheduleCounter (ev_world st)) + 1 < 2 ^ 64"
    "preSelectedNextToRun (ev_world st) = None \<or> t2 \<ge> 0 \<and> timeToTryAgainToSchedule (ev_world st) = 0"
  shows "kstep (ev_world st)
    (ev_world (schedulerWrapper (app_handle (resume_all g)) ctx t1 t2 t3 t4 t5 st))"
proof -
  let ?k = "ev_world st" and ?c = "currentThread (ev_world st)"
  let ?st0 = "st\<lparr>ev_world := upd_thread ?c (\<lambda>t. t\<lparr>th_stackAddr := ctx\<rparr>) ?k\<rparr>"
  let ?st1 = "snd (propagate (app_handle (resume_all g)) t1 ?st0)"
  let ?k1 = "ev_world ?st1"
  have k1: "?k1 = fold (resume_all g) (due_from t1 (timeEventList st) 0)
      (upd_thread ?c (\<lambda>t. t\<lparr>th_stackAddr := ctx\<rparr>) ?k)"
    by (simp add: app_propagate_world)
  have keep: "keeps ?k ?k1" unfolding k1
    by (rule keeps_trans [OF keeps_upd_thread fold_keeps [OF resumer.step_keeps]]) simp
  note inv = keeps_inv [OF keep assms(1)] keeps_stamps [OF keep assms(2)]
  show ?thesis
  proof (cases "t2 < timeToTryAgainToSchedule ?k1")
    case True
    moreover have "timeToTryAgainToSchedule ?k = 0 \<Longrightarrow> timeToTryAgainToSchedule ?k1 = 0"
      unfolding k1 by (rule resume_all_time) simp
    ultimately have "preSelectedNextToRun ?k = None" using assms(4) by auto
    moreover have "keeps ?k (activate ?c ((updateTriggerToNextTimingEvent
        (timeToTryAgainToSchedule ?k1) (getNextTriggerTime ?st1) t5 ?k1)\<lparr>timerRunning := True\<rparr>))"
      using keeps_activate [OF keeps_trigger [OF keep]] by (simp add: keeps_def activate_def)
    ultimately show ?thesis using True assms(1,2) by (simp add: schedulerWrapper_def Let_def keeps_kstep)
  next
    case False
    obtain n k' where s: "schedule t3 t4 t5 (getNextTriggerTime ?st1) ?k1 = (n, k')"
      by (cases "schedule t3 t4 t5 (getNextTriggerTime ?st1) ?k1")
    have "kstep ?k1 (activate n k')"
      using schedule_stamps [OF s inv] keep assms(3) by (simp add: keeps_def)
    then have "kstep ?k (activate n k')" using keep by (simp add: kstep_def keeps_def)
    with False s show ?thesis by (simp add: schedulerWrapper_def Let_def)
  qed
qed

text \<open>The real timer interrupt is an interrupt in this sense, time events that resume threads included.\<close>

lemma wrapper_is_timer_interrupt:
  "timer_interrupt (\<lambda>k. ev_world (schedulerWrapper (app_handle (resume_all g)) ctx t1 t2 t3 t4 t5
     \<lparr>timeEventList = es, ev_world = k\<rparr>)) k"
proof -
  let ?st = "\<lparr>timeEventList = es, ev_world = k\<rparr>" and ?c = "currentThread k"
  let ?st0 = "?st\<lparr>ev_world := upd_thread ?c (\<lambda>t. t\<lparr>th_stackAddr := ctx\<rparr>) k\<rparr>"
  let ?st1 = "snd (propagate (app_handle (resume_all g)) t1 ?st0)"
  let ?k1 = "ev_world ?st1"
  have "only_wakes k (upd_thread ?c (\<lambda>t. t\<lparr>th_stackAddr := ctx\<rparr>) k)" by (rule only_wakes_upd) simp
  moreover have "only_wakes k' (fold (resume_all g) is k')" for "is" k'
    by (intro only_wakes_fold) (simp add: resume_all_def only_wakes_fold only_wakes_resume)
  ultimately have w: "only_wakes k ?k1" by (auto simp: app_propagate_world intro: only_wakes_trans)
  show ?thesis
  proof (cases "t2 < timeToTryAgainToSchedule ?k1")
    case True
    have "only_wakes k (activate ?c ((updateTriggerToNextTimingEvent
        (timeToTryAgainToSchedule ?k1) (getNextTriggerTime ?st1) t5 ?k1)\<lparr>timerRunning := True\<rparr>))"
      using w by (simp add: only_wakes_def keeps_def activate_def updateTriggerToNextTimingEvent_def Let_def)
    with True show ?thesis by (simp add: timer_interrupt_def schedulerWrapper_def Let_def)
  next
    case False
    obtain n k' where s: "schedule t3 t4 t5 (getNextTriggerTime ?st1) ?k1 = (n, k')"
      by (cases "schedule t3 t4 t5 (getNextTriggerTime ?st1) ?k1")
    then have "scheduleCounter k' = scheduleCounter k + 1" "preSelectedNextToRun k' = None"
      using w by (auto simp: schedule_unfold Let_def only_wakes_def keeps_def split: prod.splits)
    with False s show ?thesis by (simp add: timer_interrupt_def schedulerWrapper_def Let_def)
  qed
qed

text \<open>What \<open>yield\<close> leaves to the scheduler, whatever interrupts run: its selection, dropped when an interrupt
  called the scheduler.\<close>

lemma yield_prepare_cases:
  assumes "timer_interrupt intr1 (k\<lparr>timeToTryAgainToSchedule := 0\<rparr>)" "\<And>k. timer_interrupt intr2 k"
    "preSelectedNextToRun k = None" "yield_prepare intr1 intr2 t k = (call, k')" "findNextToRun k t = (p, sel)"
  obtains "scheduleCounter k' \<noteq> scheduleCounter k" "call \<Longrightarrow> preSelectedNextToRun k' = None"
    | "\<not> call" "only_wakes k k'" "currentThread k' = p"
    | "call" "only_wakes k (k'\<lparr>preSelectedNextToRun := None, preSelectedEarliestSuspendedUntil := preSelectedEarliestSuspendedUntil k\<rparr>)"
      "preSelectedNextToRun k' = Some p" "preSelectedEarliestSuspendedUntil k' = sel"
proof -
  let ?k1 = "k\<lparr>timeToTryAgainToSchedule := 0\<rparr>"
  let ?k2 = "intr1 ?k1"
  let ?k2' = "?k2\<lparr>yieldSchedulingLock := True\<rparr>"
  let ?k3 = "intr2 ?k2'"
  let ?k5 = "?k3\<lparr>timerRunning := False, preSelectedNextToRun := Some p, preSelectedEarliestSuspendedUntil := sel\<rparr>"
  have "findNextToRun ?k1 = findNextToRun k" by (rule findNextToRun_cong) simp_all
  with assms(4,5) consider
    (gone) "scheduleCounter ?k2 \<noteq> scheduleCounter k" "k' = ?k2" "\<not> call"
    | (same) "scheduleCounter ?k2 = scheduleCounter k" "k' = ?k2" "\<not> call" "currentThread ?k2 = p"
    | (void) "scheduleCounter ?k2 = scheduleCounter k" "scheduleCounter ?k3 \<noteq> scheduleCounter k" "k' = ?k3\<lparr>timerRunning := False\<rparr>" "call"
    | (go) "scheduleCounter ?k2 = scheduleCounter k" "scheduleCounter ?k3 = scheduleCounter k" "k' = ?k5" "call"
    by (fastforce simp: yield_prepare_def Let_def split: if_splits)
  then show ?thesis
  proof cases
    case gone then show ?thesis using that(1) by simp
  next
    case same
    then have "only_wakes ?k1 ?k2" using assms(1) by (simp add: timer_interrupt_def)
    then have "only_wakes k ?k2" by (simp add: only_wakes_def keeps_def)
    with same show ?thesis using that(2) by simp
  next
    case void
    then have "only_wakes ?k1 ?k2" using assms(1) by (simp add: timer_interrupt_def)
    then have "preSelectedNextToRun ?k2' = None" using assms(3) by (simp add: only_wakes_def keeps_def)
    with assms(2) [of ?k2'] void have "preSelectedNextToRun k' = None"
      by (auto simp: timer_interrupt_def only_wakes_def keeps_def)
    with void show ?thesis using that(1) by simp
  next
    case go
    then have w: "only_wakes ?k1 ?k2" "only_wakes ?k2' ?k3"
      using assms(1) assms(2) [of ?k2'] by (auto simp: timer_interrupt_def)
    from w(2) have "only_wakes ?k2 ?k3" by (simp add: only_wakes_def keeps_def)
    with w(1) have "only_wakes ?k1 ?k3" by (rule only_wakes_trans)
    then have "only_wakes k (k'\<lparr>preSelectedNextToRun := None, preSelectedEarliestSuspendedUntil := preSelectedEarliestSuspendedUntil k\<rparr>)"
      using go assms(3) by (simp add: only_wakes_def keeps_def)
    with go show ?thesis using that(3) by simp
  qed
qed

lemma yield_prepare_quiet:
  assumes "yield_prepare (\<lambda>k. k) (\<lambda>k. k) t k = (call, k')" "kernel_inv k"
  shows "kernel_inv k'" "stamps_ok k' = stamps_ok k" "length (threadList k') = length (threadList k)"
    "scheduleCounter k' = scheduleCounter k" "timeToTryAgainToSchedule k' = 0"
    "\<not> call \<Longrightarrow> keeps k k'"
proof -
  have "findNextToRun (k\<lparr>timeToTryAgainToSchedule := 0\<rparr>) = findNextToRun k"
    by (rule findNextToRun_cong) simp_all
  with findNextToRun_selects [of k t] assms(2)
  have "fst (findNextToRun (k\<lparr>timeToTryAgainToSchedule := 0\<rparr>) t) < length (threadList k)"
    by (auto simp: selects_def kernel_inv_def split: prod.splits)
  with assms show "kernel_inv k'" "stamps_ok k' = stamps_ok k" "length (threadList k') = length (threadList k)"
    "scheduleCounter k' = scheduleCounter k" "timeToTryAgainToSchedule k' = 0" "\<not> call \<Longrightarrow> keeps k k'"
    by (auto simp: yield_prepare_def Let_def kernel_inv_def stamps_ok_def split: prod.splits if_splits)
qed

definition op_time_ok :: "kernel_op \<Rightarrow> bool" where
  "op_time_ok oper = (case oper of OpYield ctx t0 t1 t2 t3 t4 t5 \<Rightarrow> 0 \<le> t2 | _ \<Rightarrow> True)"

lemma yield_kstep:
  assumes "kernel_inv (ev_world st)" "stamps_ok (ev_world st)" "preSelectedNextToRun (ev_world st) = None"
    "unat (scheduleCounter (ev_world st)) + 1 < 2 ^ 64" "0 \<le> t2"
  shows "kstep (ev_world st)
    (ev_world (yield (\<lambda>k. k) (\<lambda>k. k) (app_handle (resume_all g)) ctx t0 t1 t2 t3 t4 t5 st))"
proof -
  obtain call k where y: "yield_prepare (\<lambda>k. k) (\<lambda>k. k) t0 (ev_world st) = (call, k)"
    by (cases "yield_prepare (\<lambda>k. k) (\<lambda>k. k) t0 (ev_world st)")
  note q = yield_prepare_quiet [OF y assms(1)]
  show ?thesis
  proof (cases call)
    case True
    have "kstep k (ev_world (schedulerWrapper (app_handle (resume_all g)) ctx t1 t2 t3 t4 t5
        (st\<lparr>ev_world := k\<rparr>)))"
      using wrapper_kstep [of "st\<lparr>ev_world := k\<rparr>" t2] q assms by simp
    with True y q show ?thesis by (simp add: yield_def kstep_def)
  next
    case False
    with q y keeps_kstep [OF _ assms(1-3)] show ?thesis by (simp add: yield_def)
  qed
qed

lemma kernel_exec_kstep:
  assumes "kernel_inv (ev_world st)" "stamps_ok (ev_world st)" "preSelectedNextToRun (ev_world st) = None"
    "unat (scheduleCounter (ev_world st)) + 1 < 2 ^ 64" "op_time_ok oper"
  shows "kstep (ev_world st) (ev_world (kernel_exec g oper st))"
proof (cases oper)
  case (OpTimer ctx t1 t2 t3 t4 t5)
  then show ?thesis using assms wrapper_kstep by simp
next
  case (OpYield ctx t0 t1 t2 t3 t4 t5)
  then show ?thesis using assms yield_kstep by (simp add: op_time_ok_def)
qed (use keeps_kstep [OF _ assms(1-3)] in
     \<open>simp_all add: resume.step_keeps suspend.step_keeps set_priority.step_keeps beat.step_keeps\<close>)

lemma kernel_run_kstep:
  assumes "kernel_inv (ev_world st)" "stamps_ok (ev_world st)" "preSelectedNextToRun (ev_world st) = None"
    "unat (scheduleCounter (ev_world st)) + length ops < 2 ^ 64" "\<forall>oper \<in> set ops. op_time_ok oper"
  shows "kernel_inv (ev_world (fold (kernel_exec g) ops st)) \<and>
    stamps_ok (ev_world (fold (kernel_exec g) ops st)) \<and>
    preSelectedNextToRun (ev_world (fold (kernel_exec g) ops st)) = None \<and>
    length (threadList (ev_world (fold (kernel_exec g) ops st))) = length (threadList (ev_world st))"
  using assms
proof (induction ops arbitrary: st)
  case (Cons oper ops)
  have k: "kstep (ev_world st) (ev_world (kernel_exec g oper st))"
    by (rule kernel_exec_kstep) (use Cons.prems in simp_all)
  then have "kernel_inv (ev_world (fold (kernel_exec g) ops (kernel_exec g oper st))) \<and>
    stamps_ok (ev_world (fold (kernel_exec g) ops (kernel_exec g oper st))) \<and>
    preSelectedNextToRun (ev_world (fold (kernel_exec g) ops (kernel_exec g oper st))) = None \<and>
    length (threadList (ev_world (fold (kernel_exec g) ops (kernel_exec g oper st)))) =
      length (threadList (ev_world (kernel_exec g oper st)))"
    using Cons.prems by (intro Cons.IH) (auto simp: kstep_def)
  with k show ?case by (simp add: kstep_def)
qed simp

lemma wrapper_preselected:
  assumes "preSelectedNextToRun (ev_world st) = Some p" "0 \<le> t2"
    "timeToTryAgainToSchedule (ev_world st) = 0" "p < length (threadList (ev_world st))"
    "p \<noteq> currentThread (ev_world st)" "stack_ok (thr (ev_world st) p)"
  shows "currentThread (ev_world (schedulerWrapper (app_handle (resume_all g)) ctx t1 t2 t3 t4 t5 st)) = p \<and>
    timeToTryAgainToSchedule (ev_world (schedulerWrapper (app_handle (resume_all g)) ctx t1 t2 t3 t4 t5 st)) =
      min (preSelectedEarliestSuspendedUntil (ev_world st)) (i64 (TIME_SLICE_FOR_SAME_PRIORITY + t4))"
proof -
  let ?k = "ev_world st" and ?c = "currentThread (ev_world st)"
  let ?b = "upd_thread ?c (\<lambda>t. t\<lparr>th_stackAddr := ctx\<rparr>) ?k"
  let ?st1 = "snd (propagate (app_handle (resume_all g)) t1 (st\<lparr>ev_world := ?b\<rparr>))"
  let ?k1 = "ev_world ?st1"
  have k1: "?k1 = fold (resume_all g) (due_from t1 (timeEventList st) 0) ?b"
    by (simp add: app_propagate_world)
  have "keeps ?k ?b" by (rule keeps_upd_thread) simp
  moreover have "keeps ?b ?k1" unfolding k1 by (rule fold_keeps) (rule resumer.step_keeps)
  ultimately have "keeps ?k ?k1" by (rule keeps_trans)
  then have sel: "selection t3 ?k1 = (p, preSelectedEarliestSuspendedUntil ?k)"
    using assms(1) by (simp add: keeps_def selection_def)
  have "keeps_stacks ?b ?k1" unfolding k1 by (rule fold_stacks) (rule resume_all_stacks)
  then have ok: "stack_ok (thr ?k1 p)"
    using assms(4-6) by (simp add: keeps_stacks_def thr_upd_thread)
  have t: "timeToTryAgainToSchedule ?k1 = 0" unfolding k1 by (rule resume_all_time) (simp add: assms(3))
  obtain n k' where s: "schedule t3 t4 t5 (getNextTriggerTime ?st1) ?k1 = (n, k')"
    by (cases "schedule t3 t4 t5 (getNextTriggerTime ?st1) ?k1")
  with schedule_fields [OF s sel ok] t assms(2) show ?thesis
    by (simp add: schedulerWrapper_def Let_def activate_def)
qed

section \<open>A small system\<close>

definition demo_thread :: "int \<Rightarrow> int \<Rightarrow> u64 \<Rightarrow> thread" where
  "demo_thread prio until stamp = \<lparr>th_name = [], th_priority = prio, th_suspendedUntil = until,
     th_waitingFor = None, th_lastActivation = stamp, th_nextBeat = 0, th_period = 0,
     th_stackBegin = 0, th_stackAddr = 400, th_stackWord = EMPTY_MEMORY_MARKER\<rparr>"

text \<open>The idle thread, two threads of priority 10 and a sleeping thread of priority 20.\<close>

definition demo_kernel :: kernel where
  "demo_kernel = \<lparr>threadList = [demo_thread 0 0 0, demo_thread 10 0 2, demo_thread 10 0 1, demo_thread 20 500 0],
     idlethread = 0, currentThread = 1, scheduleCounter = 2, preSelectedNextToRun = None,
     preSelectedEarliestSuspendedUntil = 0, timeToTryAgainToSchedule = 0, yieldSchedulingLock = False,
     schedulerRunning = True, timerRunning = True, timerInterval = 0\<rparr>"

lemma demo_ok:
  "kernel_inv demo_kernel" "stamps_ok demo_kernel" "preSelectedNextToRun demo_kernel = None"
  "\<forall>i < length (threadList demo_kernel). stack_ok (thr demo_kernel i)"
  "length (threadList demo_kernel) = 4" "scheduleCounter demo_kernel = 2"
  by (auto simp: demo_kernel_def demo_thread_def kernel_inv_def stamps_ok_def stack_ok_def less_Suc_eq
      numeral_eq_Suc)

lemma demo_find: "findNextToRun demo_kernel 100 = (2, 500)"
  by (simp add: findNextToRun_def find_step_def demo_kernel_def demo_thread_def earlier_def
      END_OF_TIME_def upt_rec)

section \<open>Properties\<close>

text \<open>
  C1. One call of the scheduler without preselection, all stacks being sound: the thread it
  returns is ready or is the idle thread; no ready thread has a higher priority, and none of the
  same priority was activated longer ago; the call is stamped into the returned thread, and no
  other thread is changed.
\<close>

theorem schedule_selects:
  assumes "kernel_inv k" "preSelectedNextToRun k = None"
    "\<forall>i < length (threadList k). stack_ok (thr k i)" "schedule t s u ev k = (n, k')"
  shows "n < length (threadList k) \<and> (n = idlethread k \<or> ready k t n) \<and>
    (\<forall>i < length (threadList k). ready k t i \<longrightarrow>
       th_priority (thr k i) < th_priority (thr k n) \<or>
       th_priority (thr k i) = th_priority (thr k n) \<and>
       th_lastActivation (thr k n) \<le> th_lastActivation (thr k i)) \<and>
    scheduleCounter k' = scheduleCounter k + 1 \<and>
    threadList k' = (threadList k)[n := (thr k n)\<lparr>th_lastActivation := scheduleCounter k'\<rparr>]"
proof -
  obtain m sel where f: "findNextToRun k t = (m, sel)" by (cases "findNextToRun k t")
  have sl: "selects k t [0..<length (threadList k)] (m, sel)"
    using findNextToRun_selects [of k t] f by simp
  then have m: "m < length (threadList k)" using assms(1) by (auto simp: selects_def kernel_inv_def)
  have "selection t k = (m, sel)" using f assms(2) by (simp add: selection_def)
  note sf = schedule_fields [OF assms(4) this] and ok = assms(3) [rule_format, OF m]
  have "th_priority (thr k i) < th_priority (thr k m) \<or> th_priority (thr k i) = th_priority (thr k m) \<and>
      th_lastActivation (thr k m) \<le> th_lastActivation (thr k i)"
    if "ready k t i" "i < length (threadList k)" for i
  proof -
    have "\<not> before k i m" using sl that by (auto simp: selects_def)
    then show ?thesis by (auto simp: before_def not_less)
  qed
  moreover have "m = idlethread k \<or> ready k t m" using sl by (auto simp: selects_def)
  ultimately show ?thesis using sf [OF ok] m by simp
qed

theorem schedule_selects_witness:
  "case schedule 100 100 100 1000 demo_kernel of (n, k') \<Rightarrow>
     n = 2 \<and> scheduleCounter k' = 3 \<and>
     threadList k' = (threadList demo_kernel)[2 := (thr demo_kernel 2)\<lparr>th_lastActivation := 3\<rparr>]"
proof -
  have n: "fst (schedule 100 100 100 1000 demo_kernel) = 2"
    using demo_ok(3,4,5) demo_find by (simp add: schedule_unfold selection_def Let_def)
  then show ?thesis
    using schedule_selects [OF demo_ok(1,3,4), of 100 100 100 1000 2
        "snd (schedule 100 100 100 1000 demo_kernel)"] demo_ok(6)
    by (auto simp: prod_eq_iff case_prod_beta)
qed

text \<open>
  C10. No wake-up is missed: the time at which the scheduler runs again is at most one time slice
  away, and not after the wake-up time of any sleeping thread that has at least the priority of
  the selected one; and it is one of these times, so the scheduler is not called for nothing.
\<close>

theorem schedule_wakes_in_time:
  assumes "preSelectedNextToRun k = None" "schedule t s u ev k = (n, k')"
    "stack_ok (thr k (fst (findNextToRun k t)))"
  shows "timeToTryAgainToSchedule k' \<le> i64 (TIME_SLICE_FOR_SAME_PRIORITY + s) \<and>
    (\<forall>i < length (threadList k). \<not> ready k t i \<and> th_priority (thr k i) \<ge> th_priority (thr k n) \<longrightarrow>
       timeToTryAgainToSchedule k' \<le> th_suspendedUntil (thr k i)) \<and>
    (timeToTryAgainToSchedule k' \<in> {i64 (TIME_SLICE_FOR_SAME_PRIORITY + s), END_OF_TIME} \<or>
     (\<exists>i < length (threadList k). \<not> ready k t i \<and>
        timeToTryAgainToSchedule k' = th_suspendedUntil (thr k i)))"
proof -
  obtain m sel where f: "findNextToRun k t = (m, sel)" by (cases "findNextToRun k t")
  have sl: "selects k t [0..<length (threadList k)] (m, sel)"
    using findNextToRun_selects [of k t] f by simp
  have "selection t k = (m, sel)" using f assms(1) by (simp add: selection_def)
  note sf = schedule_fields [OF assms(2) this]
  have sf: "n = m" "timeToTryAgainToSchedule k' = min sel (i64 (TIME_SLICE_FOR_SAME_PRIORITY + s))"
    using sf assms(3) f by auto
  then show ?thesis using sl unfolding selects_def by (auto simp: min_le_iff_disj min_def)
qed

theorem schedule_wakes_in_time_witness:
  "timeToTryAgainToSchedule (snd (schedule 100 100 100 1000 demo_kernel)) \<le> 500"
proof -
  have n: "fst (schedule 100 100 100 1000 demo_kernel) = 2"
    using demo_ok(3,4,5) demo_find by (simp add: schedule_unfold selection_def Let_def)
  have "\<not> ready demo_kernel 100 3" "th_priority (thr demo_kernel 3) \<ge> th_priority (thr demo_kernel 2)"
    "th_suspendedUntil (thr demo_kernel 3) = 500"
    by (simp_all add: ready_def demo_kernel_def demo_thread_def)
  moreover have "\<forall>i < 4. \<not> ready demo_kernel 100 i \<and>
      th_priority (thr demo_kernel i) \<ge> th_priority (thr demo_kernel 2) \<longrightarrow>
      timeToTryAgainToSchedule (snd (schedule 100 100 100 1000 demo_kernel)) \<le>
        th_suspendedUntil (thr demo_kernel i)"
    using schedule_wakes_in_time [OF demo_ok(3), of 100 100 100 1000 2
        "snd (schedule 100 100 100 1000 demo_kernel)"] n demo_ok(4,5) demo_find
    by (simp add: prod_eq_iff)
  ultimately show ?thesis by (auto dest: spec [where x = 3])
qed

text \<open>
  A thread whose stack is violated is never activated: the idle thread runs instead, the
  offender is suspended until the end of time and is not ready at any later point of time.
\<close>

lemma schedule_stops_violator:
  assumes "kernel_inv k" "preSelectedNextToRun k = None" "schedule t s u ev k = (n, k')"
    "findNextToRun k t = (m, sel)" "\<not> stack_ok (thr k m)"
  shows "n = idlethread k \<and> th_suspendedUntil (thr k' m) = END_OF_TIME \<and>
    (\<forall>t' \<le> END_OF_TIME. \<not> ready k' t' m)"
proof -
  have sl: "selects k t [0..<length (threadList k)] (m, sel)"
    using findNextToRun_selects [of k t] assms(4) by simp
  then have m: "m < length (threadList k)" using assms(1) by (auto simp: selects_def kernel_inv_def)
  have "selection t k = (m, sel)" using assms(2,4) by (simp add: selection_def)
  with assms(3,5) m have "n = idlethread k \<and> th_suspendedUntil (thr k' m) = END_OF_TIME"
    by (auto simp: schedule_unfold Let_def thr_upd_thread)
  then show ?thesis by (auto simp: ready_def)
qed

lemma schedule_stops_violator_witness:
  "let k = demo_kernel\<lparr>threadList := (threadList demo_kernel)[2 := (thr demo_kernel 2)\<lparr>th_stackAddr := 250\<rparr>]\<rparr>;
       (n, k') = schedule 100 100 100 1000 k
   in n = 0 \<and> \<not> ready k' 200 2"
proof -
  let ?k = "demo_kernel\<lparr>threadList := (threadList demo_kernel)[2 := (thr demo_kernel 2)\<lparr>th_stackAddr := 250\<rparr>]\<rparr>"
  obtain n k' where s: "schedule 100 100 100 1000 ?k = (n, k')" by (cases "schedule 100 100 100 1000 ?k")
  have "kernel_inv ?k" "preSelectedNextToRun ?k = None"
    using demo_ok by (simp_all add: kernel_inv_def)
  moreover have "findNextToRun ?k 100 = (2, 500)"
    by (simp add: findNextToRun_def find_step_def demo_kernel_def demo_thread_def earlier_def
        END_OF_TIME_def upt_rec)
  moreover have "\<not> stack_ok (thr ?k 2)" by (simp add: stack_ok_def demo_kernel_def demo_thread_def)
  moreover have "idlethread ?k = 0" by (simp add: demo_kernel_def)
  ultimately have "n = 0 \<and> \<not> ready k' 200 2"
    using schedule_stops_violator [of ?k 100 100 100 1000 n k' 2 500] s by (simp add: END_OF_TIME_def)
  with s show ?thesis by (simp add: Let_def)
qed

text \<open>
  C9. The short cuts of \<open>yield\<close> are sound, whatever interrupts run before the scheduler does. Let \<open>k\<close> be
  the kernel when \<open>yield\<close> selects, \<open>k'\<close> when it returns or calls the scheduler, and \<open>k''\<close> when the
  scheduler itself starts, time events having resumed threads meanwhile. An interrupt that called the
  scheduler voids the selection. Otherwise the thread that goes on (the preselected one, or the current one
  when the call is skipped) is the idle thread or was ready, and no thread that was ready at the selection has a
  higher priority or the same one and an older activation: only threads woken afterwards can come before it.
  If nobody was woken, or the selection was voided, the scheduler does with what \<open>yield\<close> left exactly what it
  would have done without, and a skipped call would have selected the current thread.
\<close>

theorem yield_preselection_valid:
  assumes "timer_interrupt intr1 (k\<lparr>timeToTryAgainToSchedule := 0\<rparr>)" "\<And>k. timer_interrupt intr2 k"
    "preSelectedNextToRun k = None" "kernel_inv k" "0 < t"
    "yield_prepare intr1 intr2 t k = (call, k')" "only_wakes k' k''"
  shows "(call \<and> (scheduleCounter k' \<noteq> scheduleCounter k \<or> nobody_woken k t k'') \<longrightarrow>
      schedule t s u ev k'' = schedule t s u ev (k''\<lparr>preSelectedNextToRun := None\<rparr>)) \<and>
    (\<not> call \<and> scheduleCounter k' = scheduleCounter k \<and> nobody_woken k t k'' \<longrightarrow>
      fst (findNextToRun k'' t) = currentThread k'') \<and>
    (scheduleCounter k' = scheduleCounter k \<longrightarrow>
      (let n = (if call then fst (selection t k'') else currentThread k'')
       in (n = idlethread k \<or> ready k t n) \<and>
          (\<forall>i < length (threadList k). ready k t i \<longrightarrow> \<not> before k'' i n)))"
proof -
  obtain p sel where p: "findNextToRun k t = (p, sel)" by (cases "findNextToRun k t")
  have sl: "p = idlethread k \<or> ready k t p" "\<forall>i < length (threadList k). ready k t i \<longrightarrow> \<not> before k i p" "p < length (threadList k)"
    using findNextToRun_selects [of k t] p assms(4) by (auto simp: selects_def kernel_inv_def)
  have best: "\<forall>i < length (threadList k). ready k t i \<longrightarrow> \<not> before k'' i p" if "only_wakes k k''"
    using sl only_wakes_before [OF that] by auto
  from assms(1-3,6) p show ?thesis
  proof (cases rule: yield_prepare_cases)
    case 1
    then have "call \<Longrightarrow> k''\<lparr>preSelectedNextToRun := None\<rparr> = k''"
      using assms(7) by (intro no_preselection) (simp add: only_wakes_def keeps_def)
    with 1(1) show ?thesis by simp
  next
    case 2
    then have w: "only_wakes k k''" using assms(7) only_wakes_trans by blast
    then have "nobody_woken k t k'' \<Longrightarrow> findNextToRun k'' t = (p, sel)"
      using findNextToRun_wakes [OF assms(4) w _ assms(5)] p by simp
    moreover have "currentThread k'' = p" using 2 assms(7) by (simp add: only_wakes_def keeps_def)
    ultimately show ?thesis using 2(1) sl best [OF w] by (simp add: Let_def)
  next
    case 3
    let ?r = "\<lambda>k1. k1\<lparr>preSelectedNextToRun := None, preSelectedEarliestSuspendedUntil := preSelectedEarliestSuspendedUntil k\<rparr>"
    have "only_wakes (?r k') (?r k'')" using assms(7) by (simp add: only_wakes_def keeps_def)
    with 3(2) have w: "only_wakes k (?r k'')" by (rule only_wakes_trans)
    have f: "findNextToRun (?r k'') = findNextToRun k''" by (rule findNextToRun_cong) simp_all
    have pre: "preSelectedNextToRun k'' = Some p" "preSelectedEarliestSuspendedUntil k'' = sel"
      using 3 assms(7) by (simp_all add: only_wakes_def keeps_def)
    have "schedule t s u ev k'' = schedule t s u ev (k''\<lparr>preSelectedNextToRun := None\<rparr>)" if "nobody_woken k t k''"
    proof (rule schedule_preselected)
      have "nobody_woken k t (?r k'')" using that by (simp add: nobody_woken_def ready_def)
      then show "findNextToRun k'' t = (p, preSelectedEarliestSuspendedUntil k'')"
        using findNextToRun_wakes [OF assms(4) w _ assms(5)] p pre f by simp
    qed (rule pre)
    moreover have "\<forall>i < length (threadList k). ready k t i \<longrightarrow> \<not> before k'' i p"
      using sl only_wakes_before [OF w] by (auto simp: before_def)
    moreover have "scheduleCounter k' = scheduleCounter k" using 3(2) by (simp add: only_wakes_def keeps_def)
    ultimately show ?thesis using 3(1) pre sl by (simp add: Let_def selection_def)
  qed
qed

theorem yield_preselection_valid_witness:
  "let k = demo_kernel;
       (call, k') = yield_prepare (resume 1) (\<lambda>k. resume 3 k) 100 k;
       k'' = resume 1 k'
   in call \<and> preSelectedNextToRun k' = Some 2 \<and> ready k'' 100 3 \<and> before k'' 3 2 \<and> \<not> ready k 100 3 \<and>
      \<not> before k'' 1 2 \<and>
      (let (call, k') = yield_prepare (resume 1) (resume 2) 100 k
       in call \<and> schedule 100 100 100 1000 k' = schedule 100 100 100 1000 (k'\<lparr>preSelectedNextToRun := None\<rparr>))"
proof -
  have w: "timer_interrupt (resume i) k" for i k by (simp add: timer_interrupt_def only_wakes_resume)
  have f: "findNextToRun (demo_kernel\<lparr>timeToTryAgainToSchedule := 0\<rparr>) 100 = (2, 500)"
    using demo_find findNextToRun_cong [of "demo_kernel\<lparr>timeToTryAgainToSchedule := 0\<rparr>" demo_kernel] by simp
  have y: "fst (yield_prepare (resume 1) (resume j) 100 demo_kernel)"
    "preSelectedNextToRun (snd (yield_prepare (resume 1) (resume j) 100 demo_kernel)) = Some 2"
    "scheduleCounter (snd (yield_prepare (resume 1) (resume j) 100 demo_kernel)) = scheduleCounter demo_kernel"
    "threadList (snd (yield_prepare (resume 1) (resume j) 100 demo_kernel)) = threadList (resume j (resume 1 demo_kernel))" for j
    using f by (simp_all add: yield_prepare_def Let_def resume_def upd_thread_def demo_kernel_def)
  obtain c3 k3 where y3: "yield_prepare (resume 1) (resume 3) 100 demo_kernel = (c3, k3)" by fastforce
  obtain c2 k2 where y2: "yield_prepare (resume 1) (resume 2) 100 demo_kernel = (c2, k2)" by fastforce
  note v = yield_preselection_valid [OF w w demo_ok(3,1) _ y3 only_wakes_resume [of k3 1]]
  have same: "only_wakes k2 k2" by (simp add: only_wakes_def)
  have n: "nobody_woken demo_kernel 100 k2"
    using y(4) [of 2] y2
    by (simp add: nobody_woken_def ready_def resume_def upd_thread_def demo_kernel_def demo_thread_def less_Suc_eq numeral_eq_Suc)
  have "schedule 100 100 100 1000 k2 = schedule 100 100 100 1000 (k2\<lparr>preSelectedNextToRun := None\<rparr>)"
    using yield_preselection_valid [OF w w demo_ok(3,1) _ y2 same] y(1) [of 2] y2 n by simp
  moreover have "ready demo_kernel 100 1" "\<not> ready demo_kernel 100 3"
    by (simp_all add: ready_def demo_kernel_def demo_thread_def)
  moreover have "ready (resume 1 k3) 100 3 \<and> before (resume 1 k3) 3 2"
    using y(4) [of 3] y3
    by (simp add: ready_def before_def resume_def upd_thread_def demo_kernel_def demo_thread_def numeral_eq_Suc)
  moreover have "selection 100 (resume 1 k3) = (2, preSelectedEarliestSuspendedUntil k3)"
    using y(2) [of 3] y3 by (simp add: selection_def resume_def)
  ultimately show ?thesis
    using v y(1-3) [of 3] y(1) [of 2] y2 y3 demo_ok(5) by (simp add: Let_def)
qed

text \<open>
  C3. Threads of the same priority share the processor in turns: if the threads \<open>R\<close> are ready and
  everything else has a lower priority or sleeps for ever, then of any \<open>card R\<close> consecutive calls of
  the scheduler each thread of \<open>R\<close> gets exactly one.
\<close>

theorem scheduler_rotates:
  assumes "rr_group k R p" "stamps_ok k" "unat (scheduleCounter k) + length ts < 2 ^ 64"
    "\<forall>t \<in> set ts. 0 < t \<and> t \<le> END_OF_TIME" "length ts = card R"
  shows "distinct (fst (sched_rounds ts ev k)) \<and> set (fst (sched_rounds ts ev k)) = R"
proof -
  have R: "R \<subseteq> {..<length (threadList k)}" using assms(1) by (simp add: rr_group_def)
  then have all: "{i \<in> R. th_lastActivation (thr k i) \<le> scheduleCounter k} = R"
    using assms(2) by (auto simp: stamps_ok_def)
  have d: "distinct (fst (sched_rounds ts ev k))" "length (fst (sched_rounds ts ev k)) = length ts"
    "set (fst (sched_rounds ts ev k)) \<subseteq> R"
    using rr_rounds [OF assms(1,4) order_refl assms(3), of ev] assms(5) unfolding all by auto
  then have "card (set (fst (sched_rounds ts ev k))) = card R"
    using assms(5) by (simp add: distinct_card)
  with d R show ?thesis by (simp add: card_subset_eq finite_subset)
qed

theorem scheduler_rotates_witness:
  "set (fst (sched_rounds [100, 200] 1000 (demo_kernel\<lparr>threadList := [demo_thread 0 0 0,
     demo_thread 10 0 2, demo_thread 10 0 1, demo_thread 20 END_OF_TIME 0]\<rparr>))) = {1, 2}"
proof -
  let ?k = "demo_kernel\<lparr>threadList := [demo_thread 0 0 0, demo_thread 10 0 2, demo_thread 10 0 1,
     demo_thread 20 END_OF_TIME 0]\<rparr>"
  have "rr_group ?k {1, 2} 10"
    by (auto simp: rr_group_def demo_kernel_def demo_thread_def stack_ok_def less_Suc_eq numeral_eq_Suc)
  moreover have "stamps_ok ?k"
    by (auto simp: stamps_ok_def demo_kernel_def demo_thread_def less_Suc_eq numeral_eq_Suc)
  ultimately show ?thesis
    using scheduler_rotates [of ?k "{1, 2}" 10 "[100, 200]" 1000]
    by (simp add: END_OF_TIME_def demo_kernel_def)
qed

text \<open>
  The timer is never set so short that the system drowns in interrupts, and never so long
  that an event is overrun by more than the documented two spacings: the programmed interval is
  more than one spacing (less the rounding to microseconds), and it ends no later than the next
  event or two spacings from now.
\<close>

lemma timer_interval_bounds:
  assumes "0 \<le> now" "now + 2 * MIN_SYS_TICK_SPACING \<le> END_OF_TIME"
    "a \<le> END_OF_TIME" "b \<le> END_OF_TIME"
  shows "let i = timerInterval (updateTriggerToNextTimingEvent a b now k)
    in MIN_SYS_TICK_SPACING \<le> i * MICROSECONDS \<and>
       now + i * MICROSECONDS \<le> max (min a b) (now + 2 * MIN_SYS_TICK_SPACING) \<and>
       min a b < now + (i + 1) * MICROSECONDS"
proof -
  define n where "n = computeNextBeat 0 MIN_SYS_TICK_SPACING (i64 (now + MIN_SYS_TICK_SPACING))"
  note n = timer_beat [OF assms(1,2), folded n_def]
  define d where "d = max (min a b) n - now"
  have M: "MIN_SYS_TICK_SPACING = 500000" "MICROSECONDS = 1000"
    by (simp_all add: MIN_SYS_TICK_SPACING_def unit_defs)
  have d: "500000 < d" "now + d \<le> max (min a b) (now + 1000000)" "min a b \<le> now + d"
    using n M by (auto simp: d_def)
  have "in_i64 d" using d assms M by (intro in_i64_nonneg) auto
  then have "timerInterval (updateTriggerToNextTimingEvent a b now k) = d div 1000"
    using d(1) by (simp add: updateTriggerToNextTimingEvent_def Let_def n_def d_def c_div_def)
  moreover have "500000 \<le> d div 1000 * 1000" using zdiv_mono1 [of 500000 d 1000] d(1) by simp
  moreover have "d div 1000 * 1000 \<le> d" "d < (d div 1000 + 1) * 1000"
    using div_mult_mod_eq [of d 1000] pos_mod_bound [of 1000 d] pos_mod_sign [of 1000 d]
    by (simp_all add: distrib_right)
  ultimately show ?thesis using d M by (auto simp: Let_def)
qed

lemma timer_interval_bounds_witness:
  "timerInterval (updateTriggerToNextTimingEvent 5000000 9000000 1000000 demo_kernel) = 4000"
  using timer_interval_bounds [of 1000000 5000000 9000000 demo_kernel]
  by (auto simp: Let_def MIN_SYS_TICK_SPACING_def unit_defs END_OF_TIME_def)

text \<open>
  C2. Whatever sequence of timer interrupts, yields, resumes, suspensions, priority changes and
  beats the system runs through, with time events that resume threads: the thread that runs is a
  thread of the list, no preselection is left over for a later call, no activation stamp is newer
  than the schedule counter, and no two threads that ran carry the same stamp, so the rotation
  is never ambiguous.
\<close>

theorem kernel_run_invariant:
  assumes "kernel_inv (ev_world st)" "stamps_ok (ev_world st)" "preSelectedNextToRun (ev_world st) = None"
    "unat (scheduleCounter (ev_world st)) + length ops < 2 ^ 64" "\<forall>oper \<in> set ops. op_time_ok oper"
  shows "let k = ev_world (fold (kernel_exec g) ops st)
    in currentThread k < length (threadList k) \<and> length (threadList k) = length (threadList (ev_world st)) \<and>
       preSelectedNextToRun k = None \<and>
       (\<forall>i < length (threadList k). th_lastActivation (thr k i) \<le> scheduleCounter k) \<and>
       (\<forall>i < length (threadList k). \<forall>j < length (threadList k). i \<noteq> j \<longrightarrow>
          th_lastActivation (thr k i) = th_lastActivation (thr k j) \<longrightarrow> th_lastActivation (thr k i) = 0)"
  using kernel_run_kstep [OF assms, of g] by (simp add: Let_def kernel_inv_def stamps_ok_def)

theorem kernel_run_invariant_witness:
  "let k = ev_world (fold (kernel_exec (\<lambda>i. [3]))
      [OpTimer 400 50 50 50 50 50, OpSuspend 900 None, OpYield 400 60 60 60 60 60 60, OpResume 1]
      \<lparr>timeEventList = [\<lparr>ev_name = [], eventAt = 20, eventPeriod = 5\<rparr>], ev_world = demo_kernel\<rparr>)
   in currentThread k < 4 \<and> preSelectedNextToRun k = None"
proof -
  let ?st = "\<lparr>timeEventList = [\<lparr>ev_name = [], eventAt = 20, eventPeriod = 5\<rparr>], ev_world = demo_kernel\<rparr>"
  let ?ops = "[OpTimer 400 50 50 50 50 50, OpSuspend 900 None, OpYield 400 60 60 60 60 60 60, OpResume 1]"
  have w: "ev_world ?st = demo_kernel" by simp
  have c: "unat (scheduleCounter demo_kernel) + length ?ops < 2 ^ 64" by (simp add: demo_ok(6))
  have t: "\<forall>oper \<in> set ?ops. op_time_ok oper" by (simp add: op_time_ok_def)
  show ?thesis
    using kernel_run_invariant [of ?st ?ops "\<lambda>i. [3]", unfolded w, OF demo_ok(1-3) c t]
    unfolding Let_def demo_ok(5) by argo
qed

text \<open>
  The preselection of \<open>yield\<close> is taken before the time events are propagated: a thread that
  a handler resumes within the same \<open>yield\<close> is not considered, whatever its priority, and the
  request of \<open>resume\<close> to schedule at once (\<open>timeToTryAgainToSchedule = 0\<close>) is overwritten. The
  thread selected before the handlers ran gets the processor until its own next event or the end
  of its time slice.
\<close>

lemma yield_ignores_event_resumes:
  assumes "kernel_inv (ev_world st)" "0 \<le> t2" "findNextToRun (ev_world st) t0 = (p, sel)"
    "p \<noteq> currentThread (ev_world st)" "stack_ok (thr (ev_world st) p)"
  shows "let k' = ev_world (yield (\<lambda>k. k) (\<lambda>k. k) (app_handle (resume_all g)) ctx t0 t1 t2 t3 t4 t5 st)
    in currentThread k' = p \<and>
       timeToTryAgainToSchedule k' = min sel (i64 (TIME_SLICE_FOR_SAME_PRIORITY + t4))"
proof -
  let ?k = "ev_world st"
  let ?k5 = "?k\<lparr>timeToTryAgainToSchedule := 0, yieldSchedulingLock := True, timerRunning := False,
    preSelectedNextToRun := Some p, preSelectedEarliestSuspendedUntil := sel\<rparr>"
  have "findNextToRun (?k\<lparr>timeToTryAgainToSchedule := 0\<rparr>) = findNextToRun ?k"
    by (rule findNextToRun_cong) simp_all
  then have y: "yield_prepare (\<lambda>k. k) (\<lambda>k. k) t0 ?k = (True, ?k5)"
    using assms(3,4) by (simp add: yield_prepare_def Let_def)
  have "p < length (threadList ?k)"
    using findNextToRun_selects [of ?k t0] assms(1,3) by (auto simp: selects_def kernel_inv_def)
  with y show ?thesis
    using wrapper_preselected [of "st\<lparr>ev_world := ?k5\<rparr>" p t2 g ctx t1 t3 t4 t5] assms(2,4,5)
    by (simp add: yield_def Let_def)
qed

lemma yield_ignores_event_resumes_witness:
  "let k' = ev_world (yield (\<lambda>k. k) (\<lambda>k. k) (app_handle (resume_all (\<lambda>i. [3]))) 400 100 100 100 100 100 100
      \<lparr>timeEventList = [\<lparr>ev_name = [], eventAt = 20, eventPeriod = 0\<rparr>], ev_world = demo_kernel\<rparr>)
   in currentThread k' = 2 \<and> timeToTryAgainToSchedule k' = 500 \<and>
      th_suspendedUntil (thr k' 3) = 0 \<and> th_priority (thr k' 3) > th_priority (thr k' 2)"
proof -
  let ?st = "\<lparr>timeEventList = [\<lparr>ev_name = [], eventAt = 20, eventPeriod = 0\<rparr>], ev_world = demo_kernel\<rparr>"
  let ?k' = "ev_world (yield (\<lambda>k. k) (\<lambda>k. k) (app_handle (resume_all (\<lambda>i. [3]))) 400 100 100 100 100 100 100 ?st)"
  have "min 500 (i64 (TIME_SLICE_FOR_SAME_PRIORITY + 100)) = 500"
    by (simp add: TIME_SLICE_FOR_SAME_PRIORITY_def unit_defs i64_def)
  moreover have "currentThread demo_kernel = 1" by (simp add: demo_kernel_def)
  ultimately have "currentThread ?k' = 2 \<and> timeToTryAgainToSchedule ?k' = 500"
    using yield_ignores_event_resumes [of ?st 100 100 2 500 "\<lambda>i. [3]" 400 100 100 100 100]
      demo_ok demo_find by (simp add: Let_def)
  moreover have "th_suspendedUntil (thr ?k' 3) = 0" "th_priority (thr ?k' 3) > th_priority (thr ?k' 2)"
    by code_simp+
  ultimately show ?thesis by (simp add: Let_def)
qed

end
