(* ===== verification/Semaphore.thy ===== *)
theory Semaphore
  imports Threads
begin

text \<open>
  The mutex semaphore (\<open>src/bare-metal-generic/rodos-semaphore.cpp\<close>, \<open>api/rodos-semaphore.h\<close>) and
  the barrier (\<open>src/independent/barrier.cpp\<close>). The priority ceiling protects a section only against
  threads of lower priority: waiters sleep inside such a section and keep the ceiling priority, so
  another thread at the ceiling may run between any two statements. Therefore the methods are cut at every
  access to a shared variable, and the scheduler may switch threads between any two of these steps. \<open>self\<close> is
  the number of the semaphore object, the value its waiters have in \<open>waitingFor\<close>.
\<close>

section \<open>The code\<close>

record semaphore =
  sem_owner :: "nat option"
  ownerEnterCnt :: int
  ownerPriority :: int

definition Semaphore_init :: semaphore where
  "Semaphore_init = \<lparr>sem_owner = None, ownerEnterCnt = 0, ownerPriority = 0\<rparr>"

text \<open>The places of a thread: in the ceiling section of \<open>enter\<close>, in that of \<open>leave\<close>, and everywhere. Local
  variables are arguments: \<open>callerPriority\<close>, the priority \<open>prev\<close> the ceiler restores, whether the thread has slept,
  \<open>currentOwnerPriority\<close>, \<open>nextWaiter\<close>, the position in the list of threads, \<open>waiter\<close>.\<close>

datatype enter_at = ETest | ETest2 | EPrio | ERaise | ELoop | ELoop2 | ESusp | ESusp2 | EReset | ETake | EOwnPrio | ECnt | ELower

datatype leave_at =
    LFree
  | LSave
  | LClear int
  | LLoop int nat nat
  | LFound int "nat option"
  | LResume int nat
  | LResume2 int nat
  | LLower int "nat option"

datatype sem_pc =
    Outside
  | EnterStart
  | EnterPrev int
  | EnterCeil int int
  | Enter enter_at int int bool
  | Sleeping int int
  | LeaveStart
  | LeaveDec
  | LeaveCheck
  | LeavePrev
  | LeaveCeil int
  | Leave leave_at int
  | LeaveRestore int "nat option"
  | LeaveYield "nat option"
  | OtherPrev
  | OtherCeil int
  | Other int bool        \<comment> \<open>in a ceiling section of other code, and whether it slept there\<close>
  | Yielding
  | Yielded
  | NullOwner             \<comment> \<open>the owner was used through a null pointer\<close>

text \<open>One statement of the ceiling section of \<open>enter\<close>. The suspension sets \<open>waitingFor\<close> and \<open>suspendedUntil\<close> one after
  the other; its own ceiler changes nothing, as the caller has the ceiling priority already.\<close>

definition enter_section ::
  "nat \<Rightarrow> enter_at \<Rightarrow> int \<Rightarrow> int \<Rightarrow> bool \<Rightarrow> kernel \<Rightarrow> semaphore \<Rightarrow> sem_pc \<times> kernel \<times> semaphore" where
  "enter_section self e callerPriority prev slept k s =
     (let caller = currentThread k;
          go = (\<lambda>e. Enter e callerPriority prev slept)
      in case e of
        ETest \<Rightarrow> (go (if sem_owner s \<noteq> None then ETest2 else ETake), k, s)
      | ETest2 \<Rightarrow> (go (if sem_owner s \<noteq> Some caller then EPrio else ETake), k, s)
      | EPrio \<Rightarrow> (case sem_owner s of None \<Rightarrow> (NullOwner, k, s)
          | Some ow \<Rightarrow> (go (if callerPriority > th_priority (thr k ow) then ERaise else ELoop), k, s))
      | ERaise \<Rightarrow> (case sem_owner s of None \<Rightarrow> (NullOwner, k, s)
          | Some ow \<Rightarrow> (go ELoop, setPriority ow callerPriority k, s))
      | ELoop \<Rightarrow> (go (if sem_owner s \<noteq> None then ELoop2 else EReset), k, s)
      | ELoop2 \<Rightarrow> (go (if sem_owner s \<noteq> Some caller then ESusp else EReset), k, s)
      | ESusp \<Rightarrow> (go ESusp2, upd_thread caller (\<lambda>t. t\<lparr>th_waitingFor := Some self\<rparr>) k, s)
      | ESusp2 \<Rightarrow> (Sleeping callerPriority prev, upd_thread caller (\<lambda>t. t\<lparr>th_suspendedUntil := END_OF_TIME\<rparr>) k, s)
      | EReset \<Rightarrow> (go ETake, k, s\<lparr>ownerEnterCnt := 0\<rparr>)
      | ETake \<Rightarrow> (go EOwnPrio, k, s\<lparr>sem_owner := Some caller\<rparr>)
      | EOwnPrio \<Rightarrow> (go ECnt, k, s\<lparr>ownerPriority := callerPriority\<rparr>)
      | ECnt \<Rightarrow> (go ELower, k, s\<lparr>ownerEnterCnt := ownerEnterCnt s + 1\<rparr>)
      | ELower \<Rightarrow> (Yielding, snd (setPrioCurrentRunner prev k), s))"

text \<open>One statement of the ceiling section of \<open>leave\<close>, the search for a waiter being one step for each thread.\<close>

definition leave_section :: "nat \<Rightarrow> leave_at \<Rightarrow> int \<Rightarrow> kernel \<Rightarrow> semaphore \<Rightarrow> sem_pc \<times> kernel \<times> semaphore" where
  "leave_section self l prev k s =
     (let go = (\<lambda>l. Leave l prev)
      in case l of
        LFree \<Rightarrow> (go LSave, k, s\<lparr>sem_owner := None\<rparr>)
      | LSave \<Rightarrow> (go (LClear (ownerPriority s)), k, s)
      | LClear currentOwnerPriority \<Rightarrow> (go (LLoop currentOwnerPriority (idlethread k) 0), k, s\<lparr>ownerPriority := 0\<rparr>)
      | LLoop currentOwnerPriority nextWaiter iter \<Rightarrow>
          (if iter < length (threadList k)
           then (go (LLoop currentOwnerPriority (waiter_step k (Some self) iter nextWaiter) (iter + 1)), k, s)
           else (go (LFound currentOwnerPriority (if nextWaiter = idlethread k then None else Some nextWaiter)), k, s))
      | LFound currentOwnerPriority waiter \<Rightarrow>
          (case waiter of
             None \<Rightarrow> (go (LLower currentOwnerPriority None), k, s)
           | Some w \<Rightarrow> (go (LResume currentOwnerPriority w), k, s\<lparr>sem_owner := Some w\<rparr>))
      | LResume currentOwnerPriority w \<Rightarrow>
          (go (LResume2 currentOwnerPriority w),
           upd_thread w (\<lambda>t. t\<lparr>th_waitingFor := None\<rparr>) (k\<lparr>timeToTryAgainToSchedule := 0\<rparr>), s)
      | LResume2 currentOwnerPriority w \<Rightarrow>
          (go (LLower currentOwnerPriority (Some w)), upd_thread w (\<lambda>t. t\<lparr>th_suspendedUntil := 0\<rparr>) k, s)
      | LLower currentOwnerPriority waiter \<Rightarrow>
          (LeaveRestore currentOwnerPriority waiter, snd (setPrioCurrentRunner prev k), s))"

text \<open>One step of the running thread, wherever its next step is determined. \<open>Yielded\<close> is the return of \<open>yield\<close>.\<close>

definition sem_exec :: "nat \<Rightarrow> sem_pc \<Rightarrow> kernel \<Rightarrow> semaphore \<Rightarrow> sem_pc \<times> kernel \<times> semaphore" where
  "sem_exec self pc k s =
     (let caller = currentThread k; prio = th_priority (thr k caller)
      in case pc of
        EnterStart \<Rightarrow> (if \<not> schedulerRunning k then Outside else EnterPrev prio, k, s)
      | EnterPrev callerPriority \<Rightarrow> (EnterCeil callerPriority prio, k, s)
      | EnterCeil callerPriority prev \<Rightarrow> (Enter ETest callerPriority prev False, setPriority caller CEILING_PRIORITY k, s)
      | Enter e callerPriority prev slept \<Rightarrow> enter_section self e callerPriority prev slept k s
      | LeaveStart \<Rightarrow> (if \<not> schedulerRunning k then Outside else if sem_owner s \<noteq> Some caller then Outside else LeaveDec, k, s)
      | LeaveDec \<Rightarrow> (LeaveCheck, k, s\<lparr>ownerEnterCnt := ownerEnterCnt s - 1\<rparr>)
      | LeaveCheck \<Rightarrow> (if ownerEnterCnt s > 0 then Outside else LeavePrev, k, s)
      | LeavePrev \<Rightarrow> (LeaveCeil prio, k, s)
      | LeaveCeil prev \<Rightarrow> (Leave LFree prev, setPriority caller CEILING_PRIORITY k, s)
      | Leave l prev \<Rightarrow> leave_section self l prev k s
      | LeaveRestore currentOwnerPriority waiter \<Rightarrow>
          (LeaveYield waiter, snd (setPrioCurrentRunner currentOwnerPriority k), s)
      | LeaveYield waiter \<Rightarrow> (if waiter \<noteq> None \<and> ownerPriority s = 0 then Yielding else Outside, k, s)
      | OtherPrev \<Rightarrow> (OtherCeil prio, k, s)
      | OtherCeil prev \<Rightarrow> (Other prev False, setPriority caller CEILING_PRIORITY k, s)
      | Yielded \<Rightarrow> (Outside, k, s)
      | _ \<Rightarrow> (pc, k, s))"

section \<open>The barrier\<close>

text \<open>\<open>waitForSignal\<close> up to its suspension (\<open>Inl\<close>: the value returned at once), and from there on.\<close>

definition barrier_wait ::
  "nat \<Rightarrow> bool \<Rightarrow> int \<Rightarrow> kernel \<Rightarrow> nat option \<Rightarrow> (bool + int) \<times> kernel \<times> nat option" where
  "barrier_wait self cond timeOutAt k ow =
     (if ow \<noteq> None then (Inl False, k, ow)
      else if \<not> cond then (Inl True, k, None)
      else (let (prev, k1) = setPrioCurrentRunner CEILING_PRIORITY k
            in (Inr prev, suspend_begin timeOutAt (Some self) k1, Some (currentThread k))))"

definition barrier_woken :: "int \<Rightarrow> kernel \<Rightarrow> nat option \<Rightarrow> bool \<times> kernel \<times> nat option" where
  "barrier_woken prev k ow =
     (ow = None, snd (setPrioCurrentRunner prev (snd (suspend_end (currentThread k) k))), None)"

definition barrier_unblock :: "kernel \<Rightarrow> nat option \<Rightarrow> bool \<times> kernel \<times> nat option" where
  "barrier_unblock k ow =
     (case ow of
        None \<Rightarrow> (False, k, None)
      | Some i \<Rightarrow> (let (prev, k1) = setPrioCurrentRunner CEILING_PRIORITY k
                  in (True, snd (setPrioCurrentRunner prev (resume i k1)), None)))"

section \<open>Threads using the semaphore\<close>

text \<open>\<open>ss_depth\<close> is an auxiliary variable: how often a thread is inside, that is, has counted up \<open>ownerEnterCnt\<close> and not
  yet down.\<close>

record sem_sys =
  ss_k :: kernel
  ss_s :: semaphore
  ss_pc :: "nat \<Rightarrow> sem_pc"
  ss_depth :: "nat \<Rightarrow> nat"
  ss_now :: int

definition depth_after :: "sem_pc \<Rightarrow> nat \<Rightarrow> nat" where
  "depth_after pc d = (case pc of Enter e _ _ _ \<Rightarrow> if e = ECnt then d + 1 else d | LeaveDec \<Rightarrow> d - 1 | _ \<Rightarrow> d)"

definition sem_after :: "sem_sys \<Rightarrow> sem_pc \<Rightarrow> kernel \<Rightarrow> semaphore \<Rightarrow> sem_sys" where
  "sem_after st pc k s = (let i = currentThread (ss_k st) in
     st\<lparr>ss_k := k, ss_s := s, ss_pc := (ss_pc st)(i := pc), ss_depth := (ss_depth st)(i := depth_after (ss_pc st i) (ss_depth st i))\<rparr>)"

abbreviation current :: "sem_sys \<Rightarrow> nat" where
  "current st \<equiv> currentThread (ss_k st)"

text \<open>The scheduler runs in a timer interrupt, at any time, or in the \<open>yield\<close> of the running thread, which then has
  yielded: when it runs again, \<open>yield\<close> returns. Its choice and the switch are one step, since nothing but interrupts comes
  between them, and a thread they resume there is not considered, as if it were resumed after the switch.\<close>

definition sem_switch :: "sem_sys \<Rightarrow> sem_sys" where
  "sem_switch st = st\<lparr>ss_k := (ss_k st)\<lparr>currentThread := fst (findNextToRun (ss_k st) (ss_now st))\<rparr>,
     ss_pc := (ss_pc st)(current st := if ss_pc st (current st) = Yielding then Yielded else ss_pc st (current st))\<rparr>"

text \<open>
  The steps of a system of any number of threads. A thread other than the idle thread may call \<open>enter\<close> and \<open>leave\<close> whenever
  it is outside; there it also may change its own priority below the ceiling, wait for something else, and suspend itself and
  yield. \<open>Other\<close> is any other ceiling section in which a thread may sleep and at the end of which it yields, such as
  those of \<open>suspendCallerUntil\<close> and of other semaphores (but not that of the barrier, which ends without a \<open>yield\<close>).
  Interrupts and other threads resume threads that do not wait for this semaphore, or, if \<open>foreign\<close>, any thread. Not
  considered are stack violations, after which the scheduler runs the idle thread, and threads that set the priority of others.
\<close>

inductive sem_step :: "bool \<Rightarrow> nat \<Rightarrow> sem_sys \<Rightarrow> sem_sys \<Rightarrow> bool" for foreign self where
  call: "current st \<noteq> idlethread (ss_k st) \<Longrightarrow> ss_pc st (current st) = Outside \<Longrightarrow> pc \<in> {EnterStart, LeaveStart, OtherPrev} \<Longrightarrow>
    sem_step foreign self st (st\<lparr>ss_pc := (ss_pc st)(current st := pc)\<rparr>)"
| exec: "sem_exec self (ss_pc st (current st)) (ss_k st) (ss_s st) = (pc, k, s) \<Longrightarrow>
    sem_step foreign self st (sem_after st pc k s)"
| wake: "ss_pc st (current st) = Sleeping cp prev \<Longrightarrow> ready (ss_k st) (ss_now st) (current st) \<Longrightarrow>
    sem_step foreign self st (st\<lparr>ss_k := snd (suspend_end (current st) (ss_k st)),
      ss_pc := (ss_pc st)(current st := Enter ELoop cp prev True)\<rparr>)"
| switch: "sem_step foreign self st (sem_switch st)"
| stamp: "sem_step foreign self st (st\<lparr>ss_k := upd_thread j (\<lambda>t. t\<lparr>th_lastActivation := c\<rparr>) (ss_k st)\<rparr>)"
| time: "ss_now st \<le> t \<Longrightarrow> t < END_OF_TIME \<Longrightarrow> sem_step foreign self st (st\<lparr>ss_now := t\<rparr>)"
| resume: "j < length (threadList (ss_k st)) \<Longrightarrow> foreign \<or> th_waitingFor (thr (ss_k st) j) \<noteq> Some self \<Longrightarrow>
    sem_step foreign self st (st\<lparr>ss_k := resume j (ss_k st)\<rparr>)"
| priority: "current st \<noteq> idlethread (ss_k st) \<Longrightarrow> ss_pc st (current st) = Outside \<Longrightarrow> p < CEILING_PRIORITY \<Longrightarrow>
    sem_step foreign self st (st\<lparr>ss_k := setPriority (current st) p (ss_k st)\<rparr>)"
| other_wait: "current st \<noteq> idlethread (ss_k st) \<Longrightarrow> ss_pc st (current st) = Outside \<or> ss_pc st (current st) = Other prev b \<Longrightarrow>
    sg \<noteq> Some self \<Longrightarrow>
    sem_step foreign self st (st\<lparr>ss_k := upd_thread (current st) (\<lambda>t. t\<lparr>th_waitingFor := sg\<rparr>) (ss_k st)\<rparr>)"
| other_sleep: "ss_pc st (current st) = Other prev b \<Longrightarrow>
    sem_step foreign self st (st\<lparr>ss_k := upd_thread (current st) (\<lambda>t. t\<lparr>th_suspendedUntil := u\<rparr>) (ss_k st),
      ss_pc := (ss_pc st)(current st := Other prev True)\<rparr>)"
| other_lower: "ss_pc st (current st) = Other prev b \<Longrightarrow>
    sem_step foreign self st (st\<lparr>ss_k := setPriority (current st) prev (ss_k st), ss_pc := (ss_pc st)(current st := Yielding)\<rparr>)"
| sleep: "current st \<noteq> idlethread (ss_k st) \<Longrightarrow> ss_pc st (current st) = Outside \<Longrightarrow>
    sem_step foreign self st (st\<lparr>ss_k := upd_thread (current st) (\<lambda>t. t\<lparr>th_suspendedUntil := u\<rparr>) (ss_k st),
      ss_pc := (ss_pc st)(current st := Yielding)\<rparr>)"

text \<open>Nobody uses the semaphore yet, and all threads have priorities below the ceiling and are awake.\<close>

definition sem_start :: "nat \<Rightarrow> sem_sys \<Rightarrow> bool" where
  "sem_start self st \<longleftrightarrow> ss_s st = Semaphore_init \<and> (\<forall>i. ss_pc st i = Outside \<and> ss_depth st i = 0) \<and>
     schedulerRunning (ss_k st) \<and> kernel_inv (ss_k st) \<and> 0 < ss_now st \<and> ss_now st < END_OF_TIME \<and>
     (\<forall>i < length (threadList (ss_k st)). th_waitingFor (thr (ss_k st) i) \<noteq> Some self \<and>
        th_priority (thr (ss_k st) i) < CEILING_PRIORITY \<and> th_suspendedUntil (thr (ss_k st) i) < ss_now st)"

inductive sem_reachable :: "bool \<Rightarrow> nat \<Rightarrow> sem_sys \<Rightarrow> bool" for foreign self where
  start: "sem_start self st \<Longrightarrow> sem_reachable foreign self st"
| step: "sem_reachable foreign self st \<Longrightarrow> sem_step foreign self st st' \<Longrightarrow> sem_reachable foreign self st'"

section \<open>The invariant\<close>

text \<open>The places at the ceiling priority.\<close>

definition at_ceil :: "sem_pc \<Rightarrow> bool" where
  "at_ceil pc = (case pc of Enter _ _ _ _ \<Rightarrow> True | Sleeping _ _ \<Rightarrow> True | Leave _ _ \<Rightarrow> True | Other _ _ \<Rightarrow> True | _ \<Rightarrow> False)"

text \<open>The exclusive places: a ceiling section in which the thread did not sleep.\<close>

definition exclusive :: "sem_pc \<Rightarrow> bool" where
  "exclusive pc = (case pc of Enter _ _ _ slept \<Rightarrow> \<not> slept | Leave _ _ \<Rightarrow> True | Other _ slept \<Rightarrow> \<not> slept | _ \<Rightarrow> False)"

text \<open>The places at which a thread may be suspended.\<close>

definition may_sleep :: "sem_pc \<Rightarrow> bool" where
  "may_sleep pc = (case pc of Sleeping _ _ \<Rightarrow> True | Other _ slept \<Rightarrow> slept | Yielding \<Rightarrow> True | Yielded \<Rightarrow> True | _ \<Rightarrow> False)"

text \<open>Every saved priority is one below the ceiling.\<close>

definition saved_ok :: "sem_pc \<Rightarrow> bool" where
  "saved_ok pc = (case pc of EnterPrev p \<Rightarrow> p < CEILING_PRIORITY
     | EnterCeil p q \<Rightarrow> p < CEILING_PRIORITY \<and> q < CEILING_PRIORITY
     | Enter _ p q _ \<Rightarrow> p < CEILING_PRIORITY \<and> q < CEILING_PRIORITY
     | Sleeping p q \<Rightarrow> p < CEILING_PRIORITY \<and> q < CEILING_PRIORITY
     | LeaveCeil q \<Rightarrow> q < CEILING_PRIORITY
     | Leave l q \<Rightarrow> q < CEILING_PRIORITY \<and> (case l of LFree \<Rightarrow> True | LSave \<Rightarrow> True | LClear p \<Rightarrow> p < CEILING_PRIORITY
         | LLoop p _ _ \<Rightarrow> p < CEILING_PRIORITY | LFound p _ \<Rightarrow> p < CEILING_PRIORITY | LResume p _ \<Rightarrow> p < CEILING_PRIORITY
         | LResume2 p _ \<Rightarrow> p < CEILING_PRIORITY | LLower p _ \<Rightarrow> p < CEILING_PRIORITY)
     | LeaveRestore p _ \<Rightarrow> p < CEILING_PRIORITY
     | OtherCeil q \<Rightarrow> q < CEILING_PRIORITY | Other q _ \<Rightarrow> q < CEILING_PRIORITY | _ \<Rightarrow> True)"


text \<open>The kernel runs; the idle thread and threads that do not exist are outside; the threads at the ceiling are those at the
  places of the ceiling; a thread that did not suspend itself is ready.\<close>

definition base_inv :: "sem_sys \<Rightarrow> bool" where
  "base_inv st \<longleftrightarrow> schedulerRunning (ss_k st) \<and> kernel_inv (ss_k st) \<and> ss_pc st (idlethread (ss_k st)) = Outside \<and>
     (\<forall>i. \<not> i < length (threadList (ss_k st)) \<longrightarrow> ss_pc st i = Outside) \<and> 0 < ss_now st \<and> ss_now st < END_OF_TIME \<and>
     ownerPriority (ss_s st) < CEILING_PRIORITY \<and> (\<forall>i. saved_ok (ss_pc st i)) \<and>
     (\<forall>i < length (threadList (ss_k st)).
        (if at_ceil (ss_pc st i) then th_priority (thr (ss_k st) i) = CEILING_PRIORITY
         else th_priority (thr (ss_k st) i) < CEILING_PRIORITY) \<and>
        (\<not> may_sleep (ss_pc st i) \<or> ss_pc st i = Yielded \<and> i = current st \<longrightarrow> ready (ss_k st) (ss_now st) i))"

text \<open>At most one thread is at an exclusive place; while it is interrupted, threads at the ceiling run, or a thread that is about
  to yield.\<close>

definition excl_inv :: "sem_sys \<Rightarrow> bool" where
  "excl_inv st \<longleftrightarrow> (\<forall>i j. exclusive (ss_pc st i) \<and> exclusive (ss_pc st j) \<longrightarrow> i = j) \<and>
     (\<forall>j. exclusive (ss_pc st j) \<longrightarrow> j = current st \<or> at_ceil (ss_pc st (current st)) \<or> ss_pc st (current st) = Yielding)"

text \<open>What the place of the owner says of the number of times it is inside.\<close>

definition owner_place :: "sem_pc \<Rightarrow> nat \<Rightarrow> bool" where
  "owner_place pc d = (case pc of Sleeping _ _ \<Rightarrow> d = 0
     | Enter e _ _ slept \<Rightarrow> if e = ELower then 0 < d else (slept \<longrightarrow> d = 0)
     | LeaveCheck \<Rightarrow> True | LeavePrev \<Rightarrow> d = 0 | LeaveCeil _ \<Rightarrow> d = 0 | Leave l _ \<Rightarrow> l = LFree \<and> d = 0
     | LeaveRestore _ _ \<Rightarrow> False | LeaveYield _ \<Rightarrow> False | _ \<Rightarrow> 0 < d)"

definition owner_inv :: "sem_sys \<Rightarrow> bool" where
  "owner_inv st \<longleftrightarrow> (\<forall>i. sem_owner (ss_s st) \<noteq> Some i \<longrightarrow> ss_depth st i = 0) \<and>
     (sem_owner (ss_s st) = None \<longrightarrow> ownerEnterCnt (ss_s st) = 0) \<and>
     (\<forall>i. sem_owner (ss_s st) = Some i \<longrightarrow> i < length (threadList (ss_k st)) \<and> i \<noteq> idlethread (ss_k st) \<and>
        ownerEnterCnt (ss_s st) = int (ss_depth st i) \<and> owner_place (ss_pc st i) (ss_depth st i))"

text \<open>Between \<open>owner = 0\<close> and the handing over.\<close>

definition releasing :: "sem_pc \<Rightarrow> bool" where
  "releasing pc = (case pc of Leave l _ \<Rightarrow> (case l of LSave \<Rightarrow> True | LClear _ \<Rightarrow> True | LLoop _ _ _ \<Rightarrow> True | LFound _ _ \<Rightarrow> True | _ \<Rightarrow> False)
     | _ \<Rightarrow> False)"

definition resuming :: "nat \<Rightarrow> sem_pc \<Rightarrow> bool" where
  "resuming i pc = (case pc of Leave l _ \<Rightarrow> (case l of LResume _ v \<Rightarrow> v = i | _ \<Rightarrow> False) | _ \<Rightarrow> False)"

definition resuming2 :: "nat \<Rightarrow> sem_pc \<Rightarrow> bool" where
  "resuming2 i pc = (case pc of Leave l _ \<Rightarrow> (case l of LResume2 _ v \<Rightarrow> v = i | _ \<Rightarrow> False) | _ \<Rightarrow> False)"

text \<open>A thread asleep in \<open>enter\<close>: it was handed the semaphore and is awake or about to be resumed; or it waits, and another
  thread owns the semaphore or is about to hand it over.\<close>

definition sleeper_ok :: "nat \<Rightarrow> sem_sys \<Rightarrow> nat \<Rightarrow> bool" where
  "sleeper_ok self st i \<longleftrightarrow>
     (let w = th_waitingFor (thr (ss_k st) i); u = th_suspendedUntil (thr (ss_k st) i)
      in if sem_owner (ss_s st) = Some i
         then (\<exists>l. resuming i (ss_pc st l)) \<and> w = Some self \<and> u = END_OF_TIME \<or>
              (\<exists>l. resuming2 i (ss_pc st l)) \<and> w \<noteq> Some self \<and> u = END_OF_TIME \<or>
              w \<noteq> Some self \<and> u = 0
         else w = Some self \<and> u = END_OF_TIME \<and> (sem_owner (ss_s st) = None \<longrightarrow> (\<exists>l. releasing (ss_pc st l))))"

definition enter_ok :: "nat \<Rightarrow> sem_sys \<Rightarrow> nat \<Rightarrow> enter_at \<Rightarrow> bool \<Rightarrow> bool" where
  "enter_ok self st i e slept \<longleftrightarrow>
     (if slept then sem_owner (ss_s st) = Some i \<and> e \<in> {ELoop, ELoop2, EReset, ETake, EOwnPrio, ECnt, ELower}
      else case e of
        ETest \<Rightarrow> True
      | ETest2 \<Rightarrow> sem_owner (ss_s st) \<noteq> None
      | ERaise \<Rightarrow> (\<exists>ow. sem_owner (ss_s st) = Some ow \<and> ow \<noteq> i \<and> \<not> at_ceil (ss_pc st ow))
      | ESusp2 \<Rightarrow> (\<exists>ow. sem_owner (ss_s st) = Some ow \<and> ow \<noteq> i) \<and> th_waitingFor (thr (ss_k st) i) = Some self
      | EReset \<Rightarrow> False
      | ETake \<Rightarrow> sem_owner (ss_s st) = None \<or> sem_owner (ss_s st) = Some i
      | EOwnPrio \<Rightarrow> sem_owner (ss_s st) = Some i
      | ECnt \<Rightarrow> sem_owner (ss_s st) = Some i
      | ELower \<Rightarrow> sem_owner (ss_s st) = Some i
      | _ \<Rightarrow> (\<exists>ow. sem_owner (ss_s st) = Some ow \<and> ow \<noteq> i))"

definition leave_ok :: "nat \<Rightarrow> sem_sys \<Rightarrow> nat \<Rightarrow> leave_at \<Rightarrow> bool" where
  "leave_ok self st i l \<longleftrightarrow>
     (let waits = (\<lambda>j. j < length (threadList (ss_k st)) \<and> th_waitingFor (thr (ss_k st) j) = Some self)
      in case l of
        LFree \<Rightarrow> sem_owner (ss_s st) = Some i
      | LLoop _ n m \<Rightarrow> sem_owner (ss_s st) = None \<and> (n \<noteq> idlethread (ss_k st) \<longrightarrow> waits n) \<and>
          (n = idlethread (ss_k st) \<longrightarrow> (\<forall>j < m. \<not> waits j))
      | LFound _ w \<Rightarrow> sem_owner (ss_s st) = None \<and> (case w of None \<Rightarrow> \<forall>j. \<not> waits j | Some v \<Rightarrow> waits v)
      | LResume _ v \<Rightarrow> sem_owner (ss_s st) = Some v \<and> v \<noteq> i
      | LResume2 _ v \<Rightarrow> sem_owner (ss_s st) = Some v \<and> v \<noteq> i
      | LLower _ _ \<Rightarrow> sem_owner (ss_s st) \<noteq> Some i
      | _ \<Rightarrow> sem_owner (ss_s st) = None)"

definition place_ok :: "nat \<Rightarrow> sem_sys \<Rightarrow> nat \<Rightarrow> bool" where
  "place_ok self st i = (case ss_pc st i of
       Enter e _ _ slept \<Rightarrow> enter_ok self st i e slept
     | Sleeping _ _ \<Rightarrow> sleeper_ok self st i
     | LeaveDec \<Rightarrow> sem_owner (ss_s st) = Some i
     | LeaveCheck \<Rightarrow> sem_owner (ss_s st) = Some i
     | LeavePrev \<Rightarrow> sem_owner (ss_s st) = Some i
     | LeaveCeil _ \<Rightarrow> sem_owner (ss_s st) = Some i
     | Leave l _ \<Rightarrow> leave_ok self st i l
     | LeaveRestore _ _ \<Rightarrow> sem_owner (ss_s st) \<noteq> Some i
     | LeaveYield _ \<Rightarrow> sem_owner (ss_s st) \<noteq> Some i
     | NullOwner \<Rightarrow> False
     | _ \<Rightarrow> True)"

text \<open>Only threads in \<open>enter\<close> wait for the semaphore.\<close>

definition waiting_place :: "sem_pc \<Rightarrow> bool" where
  "waiting_place pc = (case pc of Sleeping _ _ \<Rightarrow> True | Enter e _ _ slept \<Rightarrow> e = ESusp2 \<and> \<not> slept | _ \<Rightarrow> False)"

definition sem_inv :: "nat \<Rightarrow> sem_sys \<Rightarrow> bool" where
  "sem_inv self st \<longleftrightarrow> base_inv st \<and> excl_inv st \<and> owner_inv st \<and> (\<forall>i. place_ok self st i) \<and>
     (\<forall>i < length (threadList (ss_k st)). th_waitingFor (thr (ss_k st) i) = Some self \<longrightarrow> waiting_place (ss_pc st i))"

lemma upd_thread_running [simp]:
  "schedulerRunning (upd_thread i f k) = schedulerRunning k"
  by (simp add: upd_thread_def)

lemma kernel_inv_upd [simp]: "kernel_inv (upd_thread i f k) = kernel_inv k"
  by (simp add: kernel_inv_def)

lemmas kernel_op_defs = setPrioCurrentRunner_def setPriority_def suspend_begin_def suspend_end_def
  resume_def Let_def

lemma start_inv: "sem_start self st \<Longrightarrow> sem_inv self st"
  by (simp add: sem_start_def sem_inv_def base_inv_def excl_inv_def owner_inv_def place_ok_def Semaphore_init_def
      at_ceil_def exclusive_def may_sleep_def saved_ok_def ready_def CEILING_PRIORITY_def kernel_inv_def)

lemma sem_invD:
  assumes "sem_inv self st"
  shows "base_inv st" "excl_inv st" "owner_inv st" "place_ok self st i"
    "i < length (threadList (ss_k st)) \<Longrightarrow> th_waitingFor (thr (ss_k st) i) = Some self \<Longrightarrow> waiting_place (ss_pc st i)"
  using assms by (auto simp: sem_inv_def)

lemma base_invD:
  assumes "base_inv st"
  shows "schedulerRunning (ss_k st)" "kernel_inv (ss_k st)" "ss_pc st (idlethread (ss_k st)) = Outside"
    "\<not> i < length (threadList (ss_k st)) \<Longrightarrow> ss_pc st i = Outside" "0 < ss_now st" "ss_now st < END_OF_TIME"
    "ownerPriority (ss_s st) < CEILING_PRIORITY" "saved_ok (ss_pc st i)"
    "i < length (threadList (ss_k st)) \<Longrightarrow> at_ceil (ss_pc st i) \<Longrightarrow> th_priority (thr (ss_k st) i) = CEILING_PRIORITY"
    "i < length (threadList (ss_k st)) \<Longrightarrow> \<not> at_ceil (ss_pc st i) \<Longrightarrow> th_priority (thr (ss_k st) i) < CEILING_PRIORITY"
    "i < length (threadList (ss_k st)) \<Longrightarrow> \<not> may_sleep (ss_pc st i) \<Longrightarrow> ready (ss_k st) (ss_now st) i"
    "ss_pc st (current st) = Yielded \<Longrightarrow> ready (ss_k st) (ss_now st) (current st)"
    "current st < length (threadList (ss_k st))" "idlethread (ss_k st) < length (threadList (ss_k st))"
  using assms by (auto simp: base_inv_def kernel_inv_def)

lemma excl_invD:
  assumes "excl_inv st"
  shows "exclusive (ss_pc st i) \<Longrightarrow> exclusive (ss_pc st j) \<Longrightarrow> i = j"
    "exclusive (ss_pc st j) \<Longrightarrow> j \<noteq> current st \<Longrightarrow> at_ceil (ss_pc st (current st)) \<or> ss_pc st (current st) = Yielding"
  using assms by (auto simp: excl_inv_def)

lemma owner_invD:
  assumes "owner_inv st"
  shows "sem_owner (ss_s st) \<noteq> Some i \<Longrightarrow> ss_depth st i = 0" "sem_owner (ss_s st) = None \<Longrightarrow> ownerEnterCnt (ss_s st) = 0"
    "sem_owner (ss_s st) = Some i \<Longrightarrow> i < length (threadList (ss_k st))"
    "sem_owner (ss_s st) = Some i \<Longrightarrow> i \<noteq> idlethread (ss_k st)"
    "sem_owner (ss_s st) = Some i \<Longrightarrow> ownerEnterCnt (ss_s st) = int (ss_depth st i)"
    "sem_owner (ss_s st) = Some i \<Longrightarrow> owner_place (ss_pc st i) (ss_depth st i)"
  using assms by (auto simp: owner_inv_def)


lemmas place_defs = at_ceil_def exclusive_def may_sleep_def saved_ok_def

lemmas sem_exec_defs = sem_exec_def enter_section_def leave_section_def kernel_op_defs

lemma sem_exec_frame:
  assumes "sem_exec self pc k s = (pc', k', s')"
  shows "length (threadList k') = length (threadList k)" "idlethread k' = idlethread k" "currentThread k' = currentThread k"
    "schedulerRunning k' = schedulerRunning k" "kernel_inv k' = kernel_inv k"
  using assms by (auto simp: sem_exec_defs kernel_inv_def split: sem_pc.splits enter_at.splits leave_at.splits option.splits if_splits)

text \<open>What one step does to the threads.\<close>

lemma sem_exec_priority:
  assumes "sem_exec self pc k s = (pc', k', s')" "j < length (threadList k)" "j \<noteq> currentThread k"
  shows "th_priority (thr k' j) = (case pc of Enter e cp _ _ \<Rightarrow> if e = ERaise \<and> sem_owner s = Some j then cp else th_priority (thr k j)
    | _ \<Rightarrow> th_priority (thr k j))"
  using assms by (auto simp: sem_exec_defs thr_upd_thread split: sem_pc.splits enter_at.splits leave_at.splits option.splits if_splits)

lemma sem_exec_until:
  assumes "sem_exec self pc k s = (pc', k', s')" "j < length (threadList k)"
  shows "th_suspendedUntil (thr k' j) = (case pc of
      Enter e _ _ _ \<Rightarrow> if e = ESusp2 \<and> j = currentThread k then END_OF_TIME else th_suspendedUntil (thr k j)
    | Leave l _ \<Rightarrow> if (\<exists>c. l = LResume2 c j) then 0 else th_suspendedUntil (thr k j)
    | _ \<Rightarrow> th_suspendedUntil (thr k j))"
  using assms by (auto simp: sem_exec_defs thr_upd_thread split: sem_pc.splits enter_at.splits leave_at.splits option.splits if_splits)

lemma sem_exec_waiting:
  assumes "sem_exec self pc k s = (pc', k', s')" "j < length (threadList k)"
  shows "th_waitingFor (thr k' j) = (case pc of
      Enter e _ _ _ \<Rightarrow> if e = ESusp \<and> j = currentThread k then Some self else th_waitingFor (thr k j)
    | Leave l _ \<Rightarrow> if (\<exists>c. l = LResume c j) then None else th_waitingFor (thr k j)
    | _ \<Rightarrow> th_waitingFor (thr k j))"
  using assms by (auto simp: sem_exec_defs thr_upd_thread split: sem_pc.splits enter_at.splits leave_at.splits option.splits if_splits)

lemma sem_exec_self:
  assumes "sem_exec self pc k s = (pc', k', s')" "currentThread k < length (threadList k)" "saved_ok pc" "schedulerRunning k"
    and "th_priority (thr k (currentThread k)) = CEILING_PRIORITY \<longleftrightarrow> at_ceil pc"
    and "th_priority (thr k (currentThread k)) \<le> CEILING_PRIORITY" "ownerPriority s < CEILING_PRIORITY"
    and "(\<exists>cp prev slept. pc = Enter ERaise cp prev slept) \<longrightarrow> sem_owner s \<noteq> Some (currentThread k)" "pc' \<noteq> NullOwner"
  shows "saved_ok pc'" "ownerPriority s' < CEILING_PRIORITY"
    "if at_ceil pc' then th_priority (thr k' (currentThread k)) = CEILING_PRIORITY
      else th_priority (thr k' (currentThread k)) < CEILING_PRIORITY"
  using assms
  by (auto simp: sem_exec_defs place_defs thr_upd_thread CEILING_PRIORITY_def split: sem_pc.splits enter_at.splits leave_at.splits option.splits if_splits)


lemma sem_exec_owner:
  assumes "sem_exec self pc k s = (pc', k', s')"
  shows "sem_owner s' = (case pc of Enter e _ _ _ \<Rightarrow> if e = ETake then Some (currentThread k) else sem_owner s
    | Leave l _ \<Rightarrow> (case l of LFree \<Rightarrow> None | LFound _ (Some w) \<Rightarrow> Some w | _ \<Rightarrow> sem_owner s) | _ \<Rightarrow> sem_owner s)"
    "ownerEnterCnt s' = (case pc of Enter e _ _ _ \<Rightarrow> if e = EReset then 0 else if e = ECnt then ownerEnterCnt s + 1 else ownerEnterCnt s
    | LeaveDec \<Rightarrow> ownerEnterCnt s - 1 | _ \<Rightarrow> ownerEnterCnt s)"
  using assms by (auto simp: sem_exec_defs split: sem_pc.splits enter_at.splits leave_at.splits option.splits if_splits)

text \<open>A thread comes to an exclusive place only from below the ceiling, and gives up the ceiling only from an exclusive place or
  in front of a \<open>yield\<close>.\<close>

lemma sem_exec_exclusive:
  assumes "sem_exec self pc k s = (pc', k', s')" "pc' \<noteq> NullOwner"
  shows "exclusive pc' \<Longrightarrow> exclusive pc \<or> \<not> at_ceil pc \<and> pc \<noteq> Yielding"
    "at_ceil pc \<Longrightarrow> at_ceil pc' \<or> pc' = Yielding \<or> exclusive pc"
    "pc = Yielding \<Longrightarrow> pc' = Yielding" "pc' \<noteq> Yielded \<or> pc = Yielded" "\<not> may_sleep pc' \<Longrightarrow> \<not> may_sleep pc \<or> pc = Yielded"
  using assms by (auto simp: sem_exec_defs place_defs split: sem_pc.splits enter_at.splits leave_at.splits option.splits if_splits)

lemma sem_exec_suspend:
  assumes "sem_exec self pc k s = (pc', k', s')" "pc = Enter ESusp2 cp prev slept"
  shows "may_sleep pc'"
  using assms by (auto simp: sem_exec_defs may_sleep_def)

lemma sem_after_fields [simp]:
  "ss_k (sem_after st pc k s) = k" "ss_s (sem_after st pc k s) = s" "ss_now (sem_after st pc k s) = ss_now st"
  "ss_pc (sem_after st pc k s) = (ss_pc st)(current st := pc)"
  "ss_depth (sem_after st pc k s) = (ss_depth st)(current st := depth_after (ss_pc st (current st)) (ss_depth st (current st)))"
  by (simp_all add: sem_after_def Let_def)

lemma exec_no_null:
  assumes "sem_inv self st" "sem_exec self (ss_pc st (current st)) (ss_k st) (ss_s st) = (pc, k, s)"
  shows "pc \<noteq> NullOwner"
  using sem_invD(4) [OF assms(1), of "current st"] assms(2)
  by (auto simp: sem_exec_defs place_ok_def enter_ok_def split: sem_pc.splits enter_at.splits leave_at.splits option.splits if_splits)

lemma exec_base:
  assumes inv: "sem_inv self st" and e: "sem_exec self (ss_pc st (current st)) (ss_k st) (ss_s st) = (pc, k, s)"
  shows "base_inv (sem_after st pc k s)"
proof -
  note B = base_invD [OF sem_invD(1) [OF inv]] and f = sem_exec_frame [OF e] and x = sem_exec_exclusive [OF e exec_no_null [OF inv e]]
  have P: "place_ok self st (current st)" by (rule sem_invD(4) [OF inv])
  have pr: "th_priority (thr (ss_k st) (current st)) = CEILING_PRIORITY \<longleftrightarrow> at_ceil (ss_pc st (current st))"
    "th_priority (thr (ss_k st) (current st)) \<le> CEILING_PRIORITY"
    "(\<exists>cp prev slept. ss_pc st (current st) = Enter ERaise cp prev slept) \<longrightarrow> sem_owner (ss_s st) \<noteq> Some (current st)"
    using B(9,10) [OF B(13)] P by (cases "at_ceil (ss_pc st (current st))"; force simp: place_ok_def enter_ok_def split: if_splits)+
  have self: "saved_ok pc" "ownerPriority s < CEILING_PRIORITY"
    "if at_ceil pc then th_priority (thr k (current st)) = CEILING_PRIORITY else th_priority (thr k (current st)) < CEILING_PRIORITY"
    using sem_exec_self [OF e B(13,8,1) pr(1,2) B(7) pr(3) exec_no_null [OF inv e]] by blast+
  have prio: "if at_ceil (ss_pc st j) then th_priority (thr k j) = CEILING_PRIORITY else th_priority (thr k j) < CEILING_PRIORITY"
    if "j < length (threadList (ss_k st))" "j \<noteq> current st" for j
    unfolding sem_exec_priority [OF e that] using B(8) [of "current st"] B(9,10) [OF that(1)] P
    by (auto simp: place_ok_def enter_ok_def saved_ok_def split: sem_pc.splits if_splits)
  have rdy: "ready k (ss_now st) j" if "j < length (threadList (ss_k st))" "ready (ss_k st) (ss_now st) j" "j = current st \<Longrightarrow> \<not> may_sleep pc" for j
    using that B(5) sem_exec_suspend [OF e] unfolding ready_def sem_exec_until [OF e that(1)] by (cases "ss_pc st (current st)") auto
  have idle: "pc = Outside" if "current st = idlethread (ss_k st)"
    using B(3) that e by (simp add: sem_exec_def Let_def)
  have "ready k (ss_now st) (current st)" if "\<not> may_sleep pc" using rdy [of "current st"] x(5) [OF that] that B(11-13) by blast
  then show ?thesis
    using B(1-6) B(8) B(11) B(13) self prio rdy idle x(4) f e
    by (auto simp: base_inv_def may_sleep_def [of Yielded] sem_exec_def)
qed


lemma exec_excl:
  assumes inv: "sem_inv self st" and e: "sem_exec self (ss_pc st (current st)) (ss_k st) (ss_s st) = (pc, k, s)"
  shows "excl_inv (sem_after st pc k s)"
proof -
  note X = excl_invD [OF sem_invD(2) [OF inv]] and x = sem_exec_exclusive [OF e exec_no_null [OF inv e]] and f = sem_exec_frame [OF e]
  have "\<not> exclusive (ss_pc st j)" if "j \<noteq> current st" "exclusive pc" for j
    using x(1) [OF that(2)] X(1) [of "current st" j] X(2) [of j] that(1) by blast
  moreover have "at_ceil pc \<or> pc = Yielding" if "j \<noteq> current st" "exclusive (ss_pc st j)" for j
    using x(2,3) X(1) [of "current st" j] X(2) [of j] that by blast
  ultimately show ?thesis using X(1) f(3) by (auto simp: excl_inv_def)
qed

lemma exec_owner_self:
  assumes "sem_exec self pc k s = (pc', k', s')" "pc' \<noteq> NullOwner"
    and "case pc of Enter e _ _ slept \<Rightarrow> enter_ok self st (currentThread k) e slept | Leave l _ \<Rightarrow> leave_ok self st (currentThread k) l
      | LeaveRestore _ _ \<Rightarrow> sem_owner s \<noteq> Some (currentThread k) | LeaveYield _ \<Rightarrow> sem_owner s \<noteq> Some (currentThread k)
      | LeaveDec \<Rightarrow> sem_owner s = Some (currentThread k) | _ \<Rightarrow> True" "s = ss_s st"
    and "sem_owner s = Some (currentThread k) \<Longrightarrow> ownerEnterCnt s = int d \<and> owner_place pc d"
    and "sem_owner s \<noteq> Some (currentThread k) \<Longrightarrow> d = 0" "sem_owner s = None \<Longrightarrow> ownerEnterCnt s = 0"
  shows "sem_owner s' = Some (currentThread k) \<Longrightarrow> sem_owner s \<noteq> None \<or> (\<exists>cp prev slept. pc = Enter ETake cp prev slept) \<Longrightarrow>
       ownerEnterCnt s' = int (depth_after pc d) \<and> owner_place pc' (depth_after pc d)"
    "sem_owner s' \<noteq> Some (currentThread k) \<Longrightarrow> depth_after pc d = 0"
    "sem_owner s' = None \<Longrightarrow> ownerEnterCnt s' = 0"
  using assms
  by (auto simp: sem_exec_defs depth_after_def owner_place_def enter_ok_def leave_ok_def split: sem_pc.splits enter_at.splits leave_at.splits option.splits if_splits)


lemma exec_owner_other:
  assumes inv: "sem_inv self st" and e: "sem_exec self (ss_pc st (current st)) (ss_k st) (ss_s st) = (pc, k, s)" and j: "j \<noteq> current st"
  shows "sem_owner (ss_s st) = Some j \<Longrightarrow> sem_owner s = Some j \<and> ownerEnterCnt s = ownerEnterCnt (ss_s st)"
    "sem_owner s = Some j \<Longrightarrow> sem_owner (ss_s st) = Some j \<or>
       sem_owner (ss_s st) = None \<and> ownerEnterCnt s = ownerEnterCnt (ss_s st) \<and> (\<exists>c prev. ss_pc st (current st) = Leave (LFound c (Some j)) prev)"
  using sem_invD(4) [OF inv, of "current st"] j unfolding sem_exec_owner [OF e]
  by (auto simp: place_ok_def enter_ok_def leave_ok_def split: sem_pc.splits enter_at.splits leave_at.splits option.splits if_splits)

text \<open>The waiter found is asleep: nobody else is at an exclusive place.\<close>

lemma found_asleep:
  assumes inv: "sem_inv self st" and "ss_pc st i = Leave (LFound c (Some v)) prev"
  shows "v < length (threadList (ss_k st))" "v \<noteq> i" "\<exists>cp q. ss_pc st v = Sleeping cp q" "th_waitingFor (thr (ss_k st) v) = Some self"
proof -
  have w: "v < length (threadList (ss_k st))" "th_waitingFor (thr (ss_k st) v) = Some self"
    using sem_invD(4) [OF inv, of i] assms(2) by (auto simp: place_ok_def leave_ok_def Let_def)
  then have "waiting_place (ss_pc st v)" by (rule sem_invD(5) [OF inv])
  moreover have "v = i" if "exclusive (ss_pc st v)"
    using excl_invD(1) [OF sem_invD(2) [OF inv] that, of i] assms(2) by (simp add: exclusive_def)
  ultimately show "v < length (threadList (ss_k st))" "v \<noteq> i" "\<exists>cp q. ss_pc st v = Sleeping cp q" "th_waitingFor (thr (ss_k st) v) = Some self"
    using w assms(2) by (auto simp: waiting_place_def exclusive_def split: sem_pc.splits)
qed

lemma exec_owner:
  assumes inv: "sem_inv self st" and e: "sem_exec self (ss_pc st (current st)) (ss_k st) (ss_s st) = (pc, k, s)"
  shows "owner_inv (sem_after st pc k s)"
proof -
  let ?i = "current st" and ?o = "sem_owner (ss_s st)" and ?d = "depth_after (ss_pc st (current st)) (ss_depth st (current st))"
  note O = owner_invD [OF sem_invD(3) [OF inv]] and P = sem_invD(4) [OF inv, of ?i] and f = sem_exec_frame [OF e]
    and B = base_invD [OF sem_invD(1) [OF inv]]
  have p: "case ss_pc st ?i of Enter e _ _ slept \<Rightarrow> enter_ok self st ?i e slept | Leave l _ \<Rightarrow> leave_ok self st ?i l
      | LeaveRestore _ _ \<Rightarrow> ?o \<noteq> Some ?i | LeaveYield _ \<Rightarrow> ?o \<noteq> Some ?i | LeaveDec \<Rightarrow> ?o = Some ?i | _ \<Rightarrow> True"
    using P by (auto simp: place_ok_def split: sem_pc.splits)
  note self = exec_owner_self [OF e exec_no_null [OF inv e] p refl, of "ss_depth st ?i"]
  have take: "?o \<noteq> None \<or> (\<exists>cp prev slept. ss_pc st ?i = Enter ETake cp prev slept)" if "sem_owner s = Some ?i"
    using that found_asleep(2) [OF inv, of ?i _ ?i] unfolding sem_exec_owner [OF e]
    by (auto split: sem_pc.splits enter_at.splits leave_at.splits option.splits if_splits)
  have idle: "?i \<noteq> idlethread (ss_k st)" if "sem_owner s = Some ?i"
    using that take [OF that] B(3) O(4) [of ?i] unfolding sem_exec_owner [OF e]
    by (auto split: sem_pc.splits enter_at.splits leave_at.splits option.splits if_splits)
  have self': "sem_owner s = Some ?i \<Longrightarrow> ownerEnterCnt s = int ?d \<and> owner_place pc ?d"
    "sem_owner s \<noteq> Some ?i \<Longrightarrow> ?d = 0" "sem_owner s = None \<Longrightarrow> ownerEnterCnt s = 0"
    using self take O by blast+
  have other: "j < length (threadList (ss_k st)) \<and> j \<noteq> idlethread (ss_k st) \<and> ownerEnterCnt s = int (ss_depth st j) \<and>
      owner_place (ss_pc st j) (ss_depth st j)" if "sem_owner s = Some j" "j \<noteq> ?i" for j
  proof (cases "?o = Some j")
    case True
    then show ?thesis using O(3-6) exec_owner_other(1) [OF inv e that(2)] by simp
  next
    case False
    with exec_owner_other(2) [OF inv e that(2,1)]
    obtain c prev where l: "ss_pc st ?i = Leave (LFound c (Some j)) prev" "?o = None" "ownerEnterCnt s = 0"
      using O(2) by auto
    with found_asleep [OF inv l(1)] O(1) [of j] False B(3) show ?thesis by (auto simp: owner_place_def)
  qed
  have zero: "ss_depth st j = 0" if "sem_owner s \<noteq> Some j" "j \<noteq> ?i" for j
    using exec_owner_other(1) [OF inv e that(2)] O(1) [of j] that(1) by blast
  show ?thesis using self' other zero idle B(13) f by (auto simp: owner_inv_def)
qed

lemma exec_waiting:
  assumes inv: "sem_inv self st" and e: "sem_exec self (ss_pc st (current st)) (ss_k st) (ss_s st) = (pc, k, s)"
    and "j < length (threadList k)" "th_waitingFor (thr k j) = Some self"
  shows "waiting_place (ss_pc (sem_after st pc k s) j)"
proof -
  have j: "j < length (threadList (ss_k st))" using assms(3) sem_exec_frame(1) [OF e] by simp
  note W = sem_invD(5) [OF inv j] and w = sem_exec_waiting [OF e j] and P = sem_invD(4) [OF inv, of "current st"]
  show ?thesis
  proof (cases "j = current st")
    case False
    with w assms(4) W show ?thesis by (auto split: sem_pc.splits if_splits)
  next
    case True
    with w assms(4) W P e show ?thesis
      by (auto simp: waiting_place_def place_ok_def enter_ok_def sem_exec_defs split: sem_pc.splits enter_at.splits leave_at.splits option.splits if_splits)
  qed
qed


lemma exec_enter_self:
  assumes inv: "sem_inv self st" and e: "sem_exec self (ss_pc st (current st)) (ss_k st) (ss_s st) = (pc, k, s)"
    and pc: "pc = Enter a cp prev slept"
  shows "enter_ok self (sem_after st pc k s) (current st) a slept"
proof -
  let ?i = "current st"
  note P = sem_invD(4) [OF inv, of ?i] and B = base_invD [OF sem_invD(1) [OF inv]] and O = owner_invD [OF sem_invD(3) [OF inv]]
  have low: "\<not> at_ceil (ss_pc st ow)" if "sem_owner (ss_s st) = Some ow" "th_priority (thr (ss_k st) ow) < p" "p < CEILING_PRIORITY" for ow p
    using B(9) [OF O(3) [OF that(1)]] that by auto
  have sv: "saved_ok (ss_pc st ?i)" by (rule B(8))
  show ?thesis
    using P e pc low sv B(13)
    by (auto simp: sem_exec_defs place_ok_def enter_ok_def saved_ok_def thr_upd_thread
        split: sem_pc.splits enter_at.splits leave_at.splits option.splits if_splits)
qed


text \<open>The search for a waiter passes no waiter by: the waiters have the ceiling priority, the idle thread has not.\<close>

lemma waiter_found:
  assumes inv: "sem_inv self st" and j: "j < length (threadList (ss_k st))" "th_waitingFor (thr (ss_k st) j) = Some self"
  shows "before (ss_k st) j (idlethread (ss_k st))" "j \<noteq> idlethread (ss_k st)"
proof -
  note B = base_invD [OF sem_invD(1) [OF inv]]
  have w: "waiting_place (ss_pc st j)" by (rule sem_invD(5) [OF inv j])
  then show n: "j \<noteq> idlethread (ss_k st)" using B(3) by (auto simp: waiting_place_def)
  have "at_ceil (ss_pc st j)" using w by (auto simp: waiting_place_def at_ceil_def split: sem_pc.splits)
  moreover have "\<not> at_ceil (ss_pc st (idlethread (ss_k st)))" by (simp add: B(3) at_ceil_def)
  ultimately show "before (ss_k st) j (idlethread (ss_k st))" using B(9) [OF j(1)] B(10) [OF B(14)] by (simp add: before_def)
qed

lemma exec_leave_self:
  assumes inv: "sem_inv self st" and e: "sem_exec self (ss_pc st (current st)) (ss_k st) (ss_s st) = (pc, k, s)"
    and pc: "pc = Leave l prev"
  shows "leave_ok self (sem_after st pc k s) (current st) l"
proof -
  let ?i = "current st"
  note P = sem_invD(4) [OF inv, of ?i]
  have found: "v \<noteq> ?i" if "ss_pc st ?i = Leave (LFound c (Some v)) q" for c v q by (rule found_asleep(2) [OF inv that])
  show ?thesis
  proof (cases "\<exists>c n m q. ss_pc st ?i = Leave (LLoop c n m) q \<and> m < length (threadList (ss_k st))")
    case False
    then show ?thesis
      using P e pc found
      by (auto simp: sem_exec_defs place_ok_def leave_ok_def split: sem_pc.splits enter_at.splits leave_at.splits option.splits if_splits)
  next
    case True
    then obtain c n m q where l: "ss_pc st ?i = Leave (LLoop c n m) q" "m < length (threadList (ss_k st))" by blast
    have eq: "l = LLoop c (waiter_step (ss_k st) (Some self) m n) (m + 1)" "k = ss_k st" "s = ss_s st"
      using e pc l by (auto simp: sem_exec_defs)
    show ?thesis
      using P l(1,2) waiter_found [OF inv, of m]
      by (auto simp: eq place_ok_def leave_ok_def Let_def waiter_step_before less_Suc_eq)
  qed
qed

lemma exec_sleeper_self:
  assumes inv: "sem_inv self st" and e: "sem_exec self (ss_pc st (current st)) (ss_k st) (ss_s st) = (pc, k, s)"
    and pc: "pc = Sleeping cp prev" and n: "\<not> (\<exists>a b. ss_pc st (current st) = Sleeping a b)"
  shows "sleeper_ok self (sem_after st pc k s) (current st)"
  using sem_invD(4) [OF inv, of "current st"] e pc n base_invD(13) [OF sem_invD(1) [OF inv]]
  by (auto simp: sem_exec_defs place_ok_def enter_ok_def sleeper_ok_def thr_upd_thread
      split: sem_pc.splits enter_at.splits leave_at.splits option.splits if_splits)

lemma exec_place_self:
  assumes inv: "sem_inv self st" and e: "sem_exec self (ss_pc st (current st)) (ss_k st) (ss_s st) = (pc, k, s)"
  shows "place_ok self (sem_after st pc k s) (current st)"
proof (cases "\<exists>a b. ss_pc st (current st) = Sleeping a b")
  case True
  then obtain a b where sl: "ss_pc st (current st) = Sleeping a b" by blast
  then have "(ss_pc st)(current st := pc) = ss_pc st" "k = ss_k st" "s = ss_s st"
    using e by (auto simp: sem_exec_def fun_upd_idem_iff)
  then have "sem_after st pc k s = st"
    using sl by (simp add: sem_after_def depth_after_def Let_def)
  then show ?thesis using sem_invD(4) [OF inv] by simp
next
  case False
  note P = sem_invD(4) [OF inv, of "current st"]
  show ?thesis
  proof (cases "at_ceil pc")
    case True
    then show ?thesis
      using exec_enter_self [OF inv e] exec_leave_self [OF inv e] exec_sleeper_self [OF inv e _ False]
      by (cases pc) (simp_all add: place_ok_def at_ceil_def)
  next
    case low: False
    then show ?thesis
      using P e exec_no_null [OF inv e]
      by (auto simp: sem_exec_defs place_ok_def leave_ok_def at_ceil_def split: sem_pc.splits enter_at.splits leave_at.splits option.splits if_splits)
  qed
qed


text \<open>While another thread is at an exclusive place, the running thread changes nothing that matters there.\<close>

lemma exec_other_exclusive:
  assumes inv: "sem_inv self st" and e: "sem_exec self (ss_pc st (current st)) (ss_k st) (ss_s st) = (pc, k, s)"
    and j: "j \<noteq> current st" "exclusive (ss_pc st j)"
  shows "sem_owner s = sem_owner (ss_s st)" "\<And>l. l < length (threadList (ss_k st)) \<Longrightarrow> th_waitingFor (thr k l) = th_waitingFor (thr (ss_k st) l)"
    "at_ceil pc \<Longrightarrow> at_ceil (ss_pc st (current st))"
proof -
  let ?i = "current st"
  note X = excl_invD [OF sem_invD(2) [OF inv]] and P = sem_invD(4) [OF inv, of ?i]
  have c: "\<not> exclusive (ss_pc st ?i)" "at_ceil (ss_pc st ?i) \<or> ss_pc st ?i = Yielding"
    using X(1) [of ?i j] X(2) [OF j(2,1)] j by auto
  show "sem_owner s = sem_owner (ss_s st)"
    using c P unfolding sem_exec_owner [OF e] by (auto simp: place_ok_def enter_ok_def place_defs split: sem_pc.splits)
  show "th_waitingFor (thr k l) = th_waitingFor (thr (ss_k st) l)" if "l < length (threadList (ss_k st))" for l
    using c P unfolding sem_exec_waiting [OF e that] by (auto simp: place_ok_def enter_ok_def place_defs split: sem_pc.splits)
  show "at_ceil pc \<Longrightarrow> at_ceil (ss_pc st ?i)" using c(2) sem_exec_exclusive(3) [OF e exec_no_null [OF inv e]] by (auto simp: at_ceil_def)
qed

lemma exec_enter_other:
  assumes inv: "sem_inv self st" and e: "sem_exec self (ss_pc st (current st)) (ss_k st) (ss_s st) = (pc, k, s)"
    and j: "j \<noteq> current st" "ss_pc st j = Enter a cp prev slept"
  shows "enter_ok self (sem_after st pc k s) j a slept"
proof -
  have P: "enter_ok self st j a slept" using sem_invD(4) [OF inv, of j] j(2) by (simp add: place_ok_def)
  show ?thesis
  proof (cases slept)
    case True
    then show ?thesis using P exec_owner_other(1) [OF inv e j(1)] by (simp add: enter_ok_def)
  next
    case False
    then have x: "exclusive (ss_pc st j)" using j(2) by (simp add: exclusive_def)
    have "j < length (threadList (ss_k st))" using base_invD(4) [OF sem_invD(1) [OF inv], of j] j(2) by auto
    then show ?thesis
      using P False exec_other_exclusive [OF inv e j(1) x] by (auto simp: enter_ok_def split: enter_at.splits)
  qed
qed

lemma exec_leave_other:
  assumes inv: "sem_inv self st" and e: "sem_exec self (ss_pc st (current st)) (ss_k st) (ss_s st) = (pc, k, s)"
    and j: "j \<noteq> current st" "ss_pc st j = Leave l prev"
  shows "leave_ok self (sem_after st pc k s) j l"
proof -
  have P: "leave_ok self st j l" using sem_invD(4) [OF inv, of j] j(2) by (simp add: place_ok_def)
  have "exclusive (ss_pc st j)" using j(2) by (simp add: exclusive_def)
  note x = exec_other_exclusive [OF inv e j(1) this] and f = sem_exec_frame [OF e]
  have w: "(l < length (threadList k) \<and> th_waitingFor (thr k l) = Some self) =
      (l < length (threadList (ss_k st)) \<and> th_waitingFor (thr (ss_k st) l) = Some self)" for l
    using x(2) [of l] f(1) by auto
  show ?thesis using P unfolding leave_ok_def sem_after_fields Let_def w f(2) x(1) .
qed

lemma handing_exclusive:
  "releasing pc \<Longrightarrow> exclusive pc" "resuming v pc \<Longrightarrow> exclusive pc" "resuming2 v pc \<Longrightarrow> exclusive pc"
  by (auto simp: releasing_def resuming_def resuming2_def exclusive_def split: sem_pc.splits)

lemma exec_not_exclusive:
  assumes "sem_exec self (ss_pc st (current st)) (ss_k st) (ss_s st) = (pc, k, s)" "\<not> exclusive (ss_pc st (current st))"
    and "j < length (threadList (ss_k st))" "j \<noteq> current st"
  shows "th_waitingFor (thr k j) = th_waitingFor (thr (ss_k st) j)" "th_suspendedUntil (thr k j) = th_suspendedUntil (thr (ss_k st) j)"
  unfolding sem_exec_waiting [OF assms(1,3)] sem_exec_until [OF assms(1,3)] using assms(2,4)
  by (auto simp: exclusive_def split: sem_pc.splits)

text \<open>The thread that was handed the semaphore.\<close>

lemma exec_sleeper_handed:
  assumes inv: "sem_inv self st" and e: "sem_exec self (ss_pc st (current st)) (ss_k st) (ss_s st) = (pc, k, s)"
    and j: "j \<noteq> current st" "j < length (threadList (ss_k st))" "sleeper_ok self st j" "sem_owner (ss_s st) = Some j"
  shows "sleeper_ok self (sem_after st pc k s) j"
proof -
  let ?i = "current st" and ?w = "th_waitingFor (thr (ss_k st) j)" and ?u = "th_suspendedUntil (thr (ss_k st) j)"
  let ?st = "sem_after st pc k s"
  note X = excl_invD(1) [OF sem_invD(2) [OF inv]] and w = sem_exec_waiting [OF e j(2)] and u = sem_exec_until [OF e j(2)]
  have o': "sem_owner (ss_s ?st) = Some j" using exec_owner_other(1) [OF inv e j(1,4)] by simp
  have stay: "l \<noteq> ?i \<Longrightarrow> ss_pc ?st l = ss_pc st l" for l by simp
  consider (one) l where "resuming j (ss_pc st l)" "?w = Some self" "?u = END_OF_TIME"
    | (two) l where "resuming2 j (ss_pc st l)" "?w \<noteq> Some self" "?u = END_OF_TIME" | (three) "?w \<noteq> Some self" "?u = 0"
    using j(3,4) by (auto simp: sleeper_ok_def Let_def)
  then show ?thesis
  proof cases
    case one
    show ?thesis
    proof (cases "l = ?i")
      case True
      then obtain c q where l: "ss_pc st ?i = Leave (LResume c j) q"
        using one(1) by (auto simp: resuming_def split: sem_pc.splits leave_at.splits)
      then have "resuming2 j (ss_pc ?st ?i)" using e by (auto simp: sem_exec_defs resuming2_def)
      then show ?thesis using w u l one(3) unfolding sleeper_ok_def Let_def if_P [OF o'] by auto
    next
      case False
      then have "\<not> exclusive (ss_pc st ?i)" using X [of l ?i] handing_exclusive(2) [OF one(1)] by blast
      then have "th_waitingFor (thr k j) = Some self" "th_suspendedUntil (thr k j) = END_OF_TIME"
        using exec_not_exclusive [OF e _ j(2,1)] one(2,3) by simp_all
      then show ?thesis using stay [OF False] one(1) unfolding sleeper_ok_def Let_def if_P [OF o'] by (metis sem_after_fields(1))
    qed
  next
    case two
    have w': "th_waitingFor (thr k j) \<noteq> Some self" using w two(2) j(1) by (auto split: sem_pc.splits)
    show ?thesis
    proof (cases "l = ?i")
      case True
      then obtain c q where l: "ss_pc st ?i = Leave (LResume2 c j) q"
        using two(1) by (auto simp: resuming2_def split: sem_pc.splits leave_at.splits)
      then show ?thesis using w' u unfolding sleeper_ok_def Let_def if_P [OF o'] by simp
    next
      case False
      then have "\<not> exclusive (ss_pc st ?i)" using X [of l ?i] handing_exclusive(3) [OF two(1)] by blast
      then have "th_suspendedUntil (thr k j) = END_OF_TIME" using exec_not_exclusive [OF e _ j(2,1)] two(3) by simp
      then show ?thesis using w' stay [OF False] two(1) unfolding sleeper_ok_def Let_def if_P [OF o'] by (metis sem_after_fields(1))
    qed
  next
    case three
    then show ?thesis using w u j(1) o' by (auto simp: sleeper_ok_def split: sem_pc.splits)
  qed
qed

text \<open>While the semaphore is free and a thread waits, somebody hands it over.\<close>

lemma exec_releasing:
  assumes inv: "sem_inv self st" and e: "sem_exec self (ss_pc st (current st)) (ss_k st) (ss_s st) = (pc, k, s)"
    and j: "j < length (threadList (ss_k st))" "th_waitingFor (thr (ss_k st) j) = Some self"
    and "sem_owner (ss_s st) = None \<Longrightarrow> \<exists>l. releasing (ss_pc st l)" "sem_owner s = None"
  shows "\<exists>l. releasing (ss_pc (sem_after st pc k s) l)"
proof -
  let ?i = "current st"
  note P = sem_invD(4) [OF inv, of ?i]
  have step: "releasing pc" if "sem_owner (ss_s st) \<noteq> None \<or> releasing (ss_pc st ?i)"
    using that e P assms(6) j unfolding sem_exec_owner [OF e]
    by (auto simp: releasing_def sem_exec_defs place_ok_def leave_ok_def split: sem_pc.splits enter_at.splits leave_at.splits option.splits if_splits)
  show ?thesis
  proof (cases "sem_owner (ss_s st) \<noteq> None \<or> releasing (ss_pc st ?i)")
    case True
    then show ?thesis using step by (intro exI [of _ ?i]) simp
  next
    case False
    then obtain l where "releasing (ss_pc st l)" "l \<noteq> ?i" using assms(5) by metis
    then show ?thesis by (intro exI [of _ l]) simp
  qed
qed

lemma exec_sleeper_other:
  assumes inv: "sem_inv self st" and e: "sem_exec self (ss_pc st (current st)) (ss_k st) (ss_s st) = (pc, k, s)"
    and j: "j \<noteq> current st" "ss_pc st j = Sleeping cp prev"
  shows "sleeper_ok self (sem_after st pc k s) j"
proof -
  let ?i = "current st" and ?st = "sem_after st pc k s"
  have lt: "j < length (threadList (ss_k st))" using base_invD(4) [OF sem_invD(1) [OF inv], of j] j(2) by auto
  have S: "sleeper_ok self st j" using sem_invD(4) [OF inv, of j] j(2) by (simp add: place_ok_def)
  show ?thesis
  proof (cases "sem_owner (ss_s st) = Some j")
    case True
    then show ?thesis by (rule exec_sleeper_handed [OF inv e j(1) lt S])
  next
    case False
    then have S': "th_waitingFor (thr (ss_k st) j) = Some self" "th_suspendedUntil (thr (ss_k st) j) = END_OF_TIME"
      "sem_owner (ss_s st) = None \<Longrightarrow> \<exists>l. releasing (ss_pc st l)"
      using S by (auto simp: sleeper_ok_def Let_def)
    have k: "th_waitingFor (thr k j) = Some self" "th_suspendedUntil (thr k j) = END_OF_TIME"
      using sem_exec_waiting [OF e lt] sem_exec_until [OF e lt] S'(1,2) sem_invD(4) [OF inv, of ?i] False j(1)
      by (auto simp: place_ok_def leave_ok_def split: sem_pc.splits)
    show ?thesis
    proof (cases "sem_owner s = Some j")
      case True
      with exec_owner_other(2) [OF inv e j(1)] False obtain c q where "ss_pc st ?i = Leave (LFound c (Some j)) q" by blast
      then have "resuming j (ss_pc ?st ?i)" using e by (auto simp: sem_exec_defs resuming_def)
      then show ?thesis using k True unfolding sleeper_ok_def Let_def by auto
    next
      case n: False
      have "sem_owner s = None \<Longrightarrow> \<exists>l. releasing (ss_pc ?st l)" by (rule exec_releasing [OF inv e lt S'(1,3)])
      then show ?thesis using k n unfolding sleeper_ok_def Let_def by simp
    qed
  qed
qed

lemma exec_inv:
  assumes inv: "sem_inv self st" and e: "sem_exec self (ss_pc st (current st)) (ss_k st) (ss_s st) = (pc, k, s)"
  shows "sem_inv self (sem_after st pc k s)"
proof -
  have "place_ok self (sem_after st pc k s) j" for j
  proof (cases "j = current st")
    case True
    then show ?thesis using exec_place_self [OF inv e] by simp
  next
    case False
    note oo = exec_owner_other [OF inv e False] and P = sem_invD(4) [OF inv, of j]
    have "\<not> (\<exists>c q. ss_pc st (current st) = Leave (LFound c (Some j)) q)" if "\<And>a b. ss_pc st j \<noteq> Sleeping a b"
      using found_asleep(3) [OF inv, of "current st" _ j] that by blast
    then show ?thesis
      using P oo False exec_enter_other [OF inv e False] exec_leave_other [OF inv e False] exec_sleeper_other [OF inv e False]
      by (cases "ss_pc st j") (auto simp: place_ok_def)
  qed
  then show ?thesis
    using exec_base [OF inv e] exec_excl [OF inv e] exec_owner [OF inv e] exec_waiting [OF inv e] by (simp add: sem_inv_def)
qed


subsection \<open>The other steps\<close>

text \<open>A step that does not touch the semaphore nor who waits for it.\<close>

definition quiet :: "nat \<Rightarrow> sem_sys \<Rightarrow> sem_sys \<Rightarrow> bool" where
  "quiet self st st' \<longleftrightarrow> ss_s st' = ss_s st \<and> ss_depth st' = ss_depth st \<and>
     length (threadList (ss_k st')) = length (threadList (ss_k st)) \<and> idlethread (ss_k st') = idlethread (ss_k st) \<and>
     (\<forall>i. ss_pc st' i \<noteq> ss_pc st i \<longrightarrow> (\<forall>a q. ss_pc st i \<noteq> Leave a q) \<and> (at_ceil (ss_pc st' i) \<longrightarrow> at_ceil (ss_pc st i))) \<and>
     (\<forall>i < length (threadList (ss_k st)).
        (th_waitingFor (thr (ss_k st') i) = Some self \<longleftrightarrow> th_waitingFor (thr (ss_k st) i) = Some self))"

lemma place_transfer:
  assumes q: "quiet self st st'" and pc: "ss_pc st' j = ss_pc st j" and P: "place_ok self st j"
    and u: "j < length (threadList (ss_k st)) \<Longrightarrow> th_suspendedUntil (thr (ss_k st') j) = th_suspendedUntil (thr (ss_k st) j) \<or>
      th_waitingFor (thr (ss_k st) j) \<noteq> Some self \<and> th_suspendedUntil (thr (ss_k st') j) = 0"
    and j: "j < length (threadList (ss_k st)) \<or> ss_pc st j = Outside"
  shows "place_ok self st' j"
proof (cases "ss_pc st j = Outside")
  case True
  then show ?thesis using pc by (simp add: place_ok_def)
next
  case False
  then have lt: "j < length (threadList (ss_k st))" using j by simp
  have s: "sem_owner (ss_s st') = sem_owner (ss_s st)" using q by (simp add: quiet_def)
  have w: "th_waitingFor (thr (ss_k st') i) = Some self \<longleftrightarrow> th_waitingFor (thr (ss_k st) i) = Some self"
    if "i < length (threadList (ss_k st))" for i using q that by (simp add: quiet_def)
  have L: "ss_pc st l = Leave a b \<Longrightarrow> ss_pc st' l = Leave a b" for l a b using q unfolding quiet_def by metis
  have hand: "releasing (ss_pc st l) \<Longrightarrow> ss_pc st' l = ss_pc st l" "resuming j (ss_pc st l) \<Longrightarrow> ss_pc st' l = ss_pc st l"
    "resuming2 j (ss_pc st l) \<Longrightarrow> ss_pc st' l = ss_pc st l" for l
    using L by (auto simp: releasing_def resuming_def resuming2_def split: sem_pc.splits)
  have A: "at_ceil (ss_pc st' l) \<Longrightarrow> at_ceil (ss_pc st l)" for l using q unfolding quiet_def by metis
  have "enter_ok self st' j a slept" if "enter_ok self st j a slept" for a slept
    using that w [OF lt] A by (auto simp: enter_ok_def s split: enter_at.splits if_splits)
  moreover have "leave_ok self st' j a" if "leave_ok self st j a" for a
    using that w q by (auto simp: leave_ok_def s Let_def quiet_def split: leave_at.splits option.splits)
  moreover have "sleeper_ok self st' j" if "sleeper_ok self st j"
    using that w [OF lt] u [OF lt] hand unfolding sleeper_ok_def s Let_def by (metis (no_types))
  ultimately show ?thesis using P pc s by (auto simp: place_ok_def split: sem_pc.splits)
qed

text \<open>Places at which the semaphore is not concerned.\<close>

definition neutral :: "sem_pc \<Rightarrow> bool" where
  "neutral pc = (case pc of Outside \<Rightarrow> True | EnterStart \<Rightarrow> True | LeaveStart \<Rightarrow> True | OtherPrev \<Rightarrow> True | Other _ _ \<Rightarrow> True
     | Yielding \<Rightarrow> True | Yielded \<Rightarrow> True | _ \<Rightarrow> False)"

lemma quiet_inv:
  assumes inv: "sem_inv self st" and q: "quiet self st st'" and new: "base_inv st'" "excl_inv st'"
    and pc: "\<And>i. ss_pc st' i = ss_pc st i \<or> neutral (ss_pc st i) \<and> neutral (ss_pc st' i)"
    and u: "\<And>j. j < length (threadList (ss_k st)) \<Longrightarrow> th_suspendedUntil (thr (ss_k st') j) = th_suspendedUntil (thr (ss_k st) j) \<or>
      neutral (ss_pc st j) \<or> th_waitingFor (thr (ss_k st) j) \<noteq> Some self \<and> th_suspendedUntil (thr (ss_k st') j) = 0"
  shows "sem_inv self st'"
proof -
  note O = owner_invD [OF sem_invD(3) [OF inv]]
  have "place_ok self st' j" for j
  proof (cases "neutral (ss_pc st' j)")
    case True
    then show ?thesis by (auto simp: place_ok_def neutral_def split: sem_pc.splits)
  next
    case False
    then have same: "ss_pc st' j = ss_pc st j" using pc [of j] by blast
    show ?thesis
      by (rule place_transfer [OF q same sem_invD(4) [OF inv]]) (use same False u [of j] base_invD(4) [OF sem_invD(1) [OF inv], of j] in auto)
  qed
  moreover have "owner_place (ss_pc st' i) (ss_depth st i)" if "sem_owner (ss_s st) = Some i" for i
    using O(6) [OF that] pc [of i] by (auto simp: owner_place_def neutral_def split: sem_pc.splits)
  moreover have "waiting_place (ss_pc st' i)" if "i < length (threadList (ss_k st))" "th_waitingFor (thr (ss_k st) i) = Some self" for i
    using sem_invD(5) [OF inv that] pc [of i] by (auto simp: waiting_place_def neutral_def split: sem_pc.splits)
  ultimately show ?thesis using q new O by (auto simp: sem_inv_def quiet_def owner_inv_def)
qed

lemma neutral_simps [simp]:
  "neutral Outside" "neutral EnterStart" "neutral LeaveStart" "neutral OtherPrev" "neutral (Other q b)" "neutral Yielding" "neutral Yielded"
  by (simp_all add: neutral_def)

lemma stamp_inv:
  assumes inv: "sem_inv self st"
  shows "sem_inv self (st\<lparr>ss_k := upd_thread j (\<lambda>t. t\<lparr>th_lastActivation := c\<rparr>) (ss_k st)\<rparr>)" (is "sem_inv self ?st")
proof (rule quiet_inv [OF inv])
  show "base_inv ?st" using sem_invD(1) [OF inv] by (auto simp: base_inv_def thr_upd_thread ready_def)
  show "excl_inv ?st" using sem_invD(2) [OF inv] by (simp add: excl_inv_def)
qed (auto simp: quiet_def thr_upd_thread)

lemma time_inv:
  assumes inv: "sem_inv self st" and t: "ss_now st \<le> t" "t < END_OF_TIME"
  shows "sem_inv self (st\<lparr>ss_now := t\<rparr>)" (is "sem_inv self ?st")
proof (rule quiet_inv [OF inv])
  show "base_inv ?st" using sem_invD(1) [OF inv] t by (auto simp: base_inv_def ready_def)
  show "excl_inv ?st" using sem_invD(2) [OF inv] by (simp add: excl_inv_def)
qed (auto simp: quiet_def)

lemma resume_inv:
  assumes inv: "sem_inv self st" and j: "th_waitingFor (thr (ss_k st) j) \<noteq> Some self"
  shows "sem_inv self (st\<lparr>ss_k := resume j (ss_k st)\<rparr>)" (is "sem_inv self ?st")
proof (rule quiet_inv [OF inv])
  show "base_inv ?st" using sem_invD(1) [OF inv] by (auto simp: base_inv_def resume_def thr_upd_thread ready_def kernel_inv_def)
  show "excl_inv ?st" using sem_invD(2) [OF inv] by (simp add: excl_inv_def resume_def)
qed (use j in \<open>auto simp: quiet_def resume_def thr_upd_thread\<close>)

lemma place_simps:
  "at_ceil Outside = False" "at_ceil EnterStart = False" "at_ceil LeaveStart = False" "at_ceil OtherPrev = False" "at_ceil (Other q b) = True"
  "at_ceil Yielding = False" "at_ceil Yielded = False" "may_sleep Outside = False" "may_sleep EnterStart = False"
  "may_sleep LeaveStart = False" "may_sleep OtherPrev = False" "may_sleep (Other q b) = b" "may_sleep Yielding = True" "may_sleep Yielded = True"
  "exclusive Outside = False" "exclusive EnterStart = False" "exclusive LeaveStart = False" "exclusive OtherPrev = False"
  "exclusive (Other q b) = (\<not> b)" "exclusive Yielding = False" "exclusive Yielded = False"
  "saved_ok Outside = True" "saved_ok EnterStart = True" "saved_ok LeaveStart = True" "saved_ok OtherPrev = True"
  "saved_ok (Other q b) = (q < CEILING_PRIORITY)" "saved_ok Yielding = True" "saved_ok Yielded = True"
  by (simp_all add: place_defs)

text \<open>A running thread at such a place does not wait for the semaphore.\<close>

lemma neutral_not_waiting:
  assumes "sem_inv self st" "neutral (ss_pc st (current st))"
  shows "th_waitingFor (thr (ss_k st) (current st)) \<noteq> Some self"
  using sem_invD(5) [OF assms(1) base_invD(13) [OF sem_invD(1) [OF assms(1)]]] assms(2)
  by (auto simp: waiting_place_def neutral_def split: sem_pc.splits)

lemma call_inv:
  assumes inv: "sem_inv self st" and i: "current st \<noteq> idlethread (ss_k st)" "ss_pc st (current st) = Outside"
    and pc: "pc \<in> {EnterStart, LeaveStart, OtherPrev}"
  shows "sem_inv self (st\<lparr>ss_pc := (ss_pc st)(current st := pc)\<rparr>)" (is "sem_inv self ?st")
proof (rule quiet_inv [OF inv])
  note D = base_invD [OF sem_invD(1) [OF inv]]
  have n: "\<not> at_ceil pc" "\<not> may_sleep pc" "\<not> exclusive pc" "saved_ok pc" "pc \<noteq> Yielded" using pc by (auto simp: place_simps)
  have "(if at_ceil (ss_pc ?st j) then th_priority (thr (ss_k st) j) = CEILING_PRIORITY else th_priority (thr (ss_k st) j) < CEILING_PRIORITY) \<and>
      (\<not> may_sleep (ss_pc ?st j) \<or> ss_pc ?st j = Yielded \<and> j = current st \<longrightarrow> ready (ss_k st) (ss_now st) j)"
    if "j < length (threadList (ss_k st))" for j
    using D(9-12) that n i(2) by (cases "j = current st") (auto simp: place_simps)
  moreover have "\<not> j < length (threadList (ss_k st)) \<Longrightarrow> ss_pc ?st j = Outside" "saved_ok (ss_pc ?st j)" for j
    using D(4) [of j] D(8) [of j] D(13) n(4) by auto
  moreover have "ss_pc ?st (idlethread (ss_k st)) = Outside" using D(3) i(1) by simp
  moreover have "ss_k ?st = ss_k st" "ss_s ?st = ss_s st" "ss_now ?st = ss_now st" by simp_all
  ultimately show "base_inv ?st" using D(1,2,5-7) unfolding base_inv_def by presburger
  show "excl_inv ?st" using sem_invD(2) [OF inv] i n by (auto simp: excl_inv_def place_simps)
  show "quiet self st ?st" using i n by (auto simp: quiet_def)
qed (use i pc in auto)

lemma priority_inv:
  assumes inv: "sem_inv self st" and i: "ss_pc st (current st) = Outside" "p < CEILING_PRIORITY"
  shows "sem_inv self (st\<lparr>ss_k := setPriority (current st) p (ss_k st)\<rparr>)" (is "sem_inv self ?st")
proof (rule quiet_inv [OF inv])
  show "base_inv ?st" using sem_invD(1) [OF inv] i by (auto simp: base_inv_def setPriority_def thr_upd_thread ready_def place_simps)
  show "excl_inv ?st" using sem_invD(2) [OF inv] by (simp add: excl_inv_def setPriority_def)
qed (auto simp: quiet_def setPriority_def thr_upd_thread)

lemma other_wait_inv:
  assumes inv: "sem_inv self st" and i: "ss_pc st (current st) = Outside \<or> ss_pc st (current st) = Other prev b" "sg \<noteq> Some self"
  shows "sem_inv self (st\<lparr>ss_k := upd_thread (current st) (\<lambda>t. t\<lparr>th_waitingFor := sg\<rparr>) (ss_k st)\<rparr>)" (is "sem_inv self ?st")
proof (rule quiet_inv [OF inv])
  show "base_inv ?st" using sem_invD(1) [OF inv] by (auto simp: base_inv_def thr_upd_thread ready_def)
  show "excl_inv ?st" using sem_invD(2) [OF inv] by (simp add: excl_inv_def)
  show "quiet self st ?st" using neutral_not_waiting [OF inv] i by (auto simp: quiet_def thr_upd_thread)
qed (auto simp: thr_upd_thread)

lemma other_sleep_inv:
  assumes inv: "sem_inv self st" and i: "ss_pc st (current st) = Other prev b"
  shows "sem_inv self (st\<lparr>ss_k := upd_thread (current st) (\<lambda>t. t\<lparr>th_suspendedUntil := u\<rparr>) (ss_k st),
      ss_pc := (ss_pc st)(current st := Other prev True)\<rparr>)" (is "sem_inv self ?st")
proof (rule quiet_inv [OF inv])
  note B = sem_invD(1) [OF inv]
  have "saved_ok (Other prev b)" using base_invD(8) [OF B, of "current st"] i by simp
  then show "base_inv ?st"
    using B i by (auto simp: base_inv_def thr_upd_thread ready_def place_simps kernel_inv_def)
  show "excl_inv ?st" using sem_invD(2) [OF inv] i by (auto simp: excl_inv_def place_simps)
  show "quiet self st ?st" using i by (auto simp: quiet_def thr_upd_thread place_simps)
qed (use i in \<open>auto simp: thr_upd_thread\<close>)

lemma other_lower_inv:
  assumes inv: "sem_inv self st" and i: "ss_pc st (current st) = Other prev b"
  shows "sem_inv self (st\<lparr>ss_k := setPriority (current st) prev (ss_k st), ss_pc := (ss_pc st)(current st := Yielding)\<rparr>)" (is "sem_inv self ?st")
proof (rule quiet_inv [OF inv])
  note B = sem_invD(1) [OF inv]
  have "saved_ok (Other prev b)" using base_invD(8) [OF B, of "current st"] i by simp
  then show "base_inv ?st"
    using B i by (auto simp: base_inv_def setPriority_def thr_upd_thread ready_def place_simps kernel_inv_def)
  show "excl_inv ?st" using sem_invD(2) [OF inv] i by (auto simp: excl_inv_def setPriority_def place_simps)
  show "quiet self st ?st" using i by (auto simp: quiet_def setPriority_def thr_upd_thread place_simps)
qed (use i in \<open>auto simp: setPriority_def thr_upd_thread\<close>)

lemma sleep_inv:
  assumes inv: "sem_inv self st" and i: "current st \<noteq> idlethread (ss_k st)" "ss_pc st (current st) = Outside"
  shows "sem_inv self (st\<lparr>ss_k := upd_thread (current st) (\<lambda>t. t\<lparr>th_suspendedUntil := u\<rparr>) (ss_k st),
      ss_pc := (ss_pc st)(current st := Yielding)\<rparr>)" (is "sem_inv self ?st")
proof (rule quiet_inv [OF inv])
  show "base_inv ?st"
    using sem_invD(1) [OF inv] i by (auto simp: base_inv_def thr_upd_thread ready_def place_simps kernel_inv_def)
  show "excl_inv ?st" using sem_invD(2) [OF inv] i by (auto simp: excl_inv_def place_simps)
  show "quiet self st ?st" using i by (auto simp: quiet_def thr_upd_thread place_simps)
qed (use i in \<open>auto simp: thr_upd_thread\<close>)

text \<open>The thread chosen by the scheduler is ready or idle, and at the ceiling if a ready thread is.\<close>

lemma next_to_run:
  assumes "kernel_inv k" "t = fst (findNextToRun k now)"
  shows "t < length (threadList k)" "t = idlethread k \<or> ready k now t"
    "j < length (threadList k) \<Longrightarrow> ready k now j \<Longrightarrow> th_priority (thr k j) \<le> th_priority (thr k t)"
  using findNextToRun_selects [of k now] assms by (auto simp: selects_def kernel_inv_def before_def not_less split: prod.splits)

lemma switch_inv:
  assumes inv: "sem_inv self st"
  shows "sem_inv self (sem_switch st)" (is "sem_inv self ?st")
proof (rule quiet_inv [OF inv])
  note B = sem_invD(1) [OF inv] and D = base_invD [OF sem_invD(1) [OF inv]] and X = sem_invD(2) [OF inv]
  define t where "t = fst (findNextToRun (ss_k st) (ss_now st))"
  note n = next_to_run [OF D(2) t_def]
  define pc where "pc = ss_pc ?st"
  have pc: "pc j = (if j = current st \<and> ss_pc st j = Yielding then Yielded else ss_pc st j)" for j
    by (simp add: pc_def sem_switch_def)
  have st: "ss_k ?st = (ss_k st)\<lparr>currentThread := t\<rparr>" "ss_s ?st = ss_s st" "ss_now ?st = ss_now st" "ss_depth ?st = ss_depth st" "ss_pc ?st = pc"
    by (simp_all add: sem_switch_def t_def pc_def)
  have same: "at_ceil (pc j) = at_ceil (ss_pc st j)" "may_sleep (pc j) = may_sleep (ss_pc st j)"
    "exclusive (pc j) = exclusive (ss_pc st j)" "saved_ok (pc j) = saved_ok (ss_pc st j)" for j
    by (auto simp: pc place_simps)
  have r: "ready (ss_k st) (ss_now st) t" using n(2) D(11) [OF D(14)] D(3) by (auto simp: place_simps)
  have "pc j = Outside" if "ss_pc st j = Outside" for j using that by (simp add: pc)
  then show "base_inv ?st"
    using B n(1) r by (auto simp: base_inv_def st same kernel_inv_def ready_def)
  have ceil: "at_ceil (ss_pc st t)" if "exclusive (ss_pc st j)" for j
  proof -
    have "at_ceil (ss_pc st j)" "\<not> may_sleep (ss_pc st j)" using that by (auto simp: place_defs split: sem_pc.splits)
    moreover have "j < length (threadList (ss_k st))" using D(4) [of j] that
      by (cases "j < length (threadList (ss_k st))") (auto simp: place_simps)
    ultimately have "th_priority (thr (ss_k st) t) \<ge> CEILING_PRIORITY" using n(3) [of j] D(9,11) by metis
    then show ?thesis using D(10) [OF n(1)] by fastforce
  qed
  then show "excl_inv ?st" using X by (auto simp: excl_inv_def st same)
  show "quiet self st ?st" by (auto simp: quiet_def st same) (auto simp: pc split: if_splits)
  show "ss_pc ?st i = ss_pc st i \<or> neutral (ss_pc st i) \<and> neutral (ss_pc ?st i)" for i by (auto simp: st pc)
qed (simp add: sem_switch_def)

lemma wake_inv:
  assumes inv: "sem_inv self st" and i: "ss_pc st (current st) = Sleeping cp prev" "ready (ss_k st) (ss_now st) (current st)"
  shows "sem_inv self (st\<lparr>ss_k := snd (suspend_end (current st) (ss_k st)), ss_pc := (ss_pc st)(current st := Enter ELoop cp prev True)\<rparr>)"
    (is "sem_inv self ?st")
proof -
  let ?i = "current st"
  note B = sem_invD(1) [OF inv] and D = base_invD [OF sem_invD(1) [OF inv]] and X = sem_invD(2) [OF inv] and O = sem_invD(3) [OF inv]
  have "sleeper_ok self st ?i" using sem_invD(4) [OF inv, of ?i] i(1) by (simp add: place_ok_def)
  then have ow: "sem_owner (ss_s st) = Some ?i" "th_waitingFor (thr (ss_k st) ?i) \<noteq> Some self"
    using i(2) D(6) by (auto simp: sleeper_ok_def ready_def Let_def split: if_splits)
  have k: "snd (suspend_end ?i (ss_k st)) = upd_thread ?i (\<lambda>t. t\<lparr>th_waitingFor := None\<rparr>) (ss_k st)"
    by (simp add: suspend_end_def Let_def)
  have pcs: "at_ceil (Enter ELoop cp prev True)" "\<not> may_sleep (Enter ELoop cp prev True)" "\<not> exclusive (Enter ELoop cp prev True)"
    "saved_ok (Enter ELoop cp prev True)" "at_ceil (ss_pc st ?i)" "\<not> exclusive (ss_pc st ?i)"
    using i(1) D(8) [of ?i] by (simp_all add: place_defs)
  have "?i \<noteq> idlethread (ss_k st)" using D(3) i(1) by auto
  then have base: "base_inv ?st" using B pcs i by (auto simp: base_inv_def k thr_upd_thread ready_def kernel_inv_def)
  have excl: "excl_inv ?st" using X pcs by (auto simp: excl_inv_def k)
  have q: "quiet self st ?st" using ow(2) pcs i(1) by (auto simp: quiet_def k thr_upd_thread)
  have "place_ok self ?st j" for j
  proof (cases "j = ?i")
    case True
    then show ?thesis using ow by (simp add: place_ok_def enter_ok_def k)
  next
    case False
    show ?thesis
      by (rule place_transfer [OF q _ sem_invD(4) [OF inv]]) (use False D(4) [of j] in \<open>auto simp: k thr_upd_thread\<close>)
  qed
  moreover have "owner_inv ?st" using O i(1) by (auto simp: owner_inv_def owner_place_def k)
  moreover have "waiting_place (ss_pc ?st j)"
    if "j < length (threadList (ss_k ?st))" "th_waitingFor (thr (ss_k ?st) j) = Some self" for j
    using sem_invD(5) [OF inv, of j] that by (auto simp: k thr_upd_thread split: if_splits)
  ultimately show ?thesis using base excl by (auto simp: sem_inv_def)
qed

lemma step_inv: "sem_step False self st st' \<Longrightarrow> sem_inv self st \<Longrightarrow> sem_inv self st'"
proof (induction rule: sem_step.induct)
  case (exec st pc k s)
  then show ?case using exec_inv by blast
next
  case (resume j st)
  then show ?case using resume_inv by blast
next
  case (other_wait st prev b sg)
  then show ?case using other_wait_inv by blast
qed (blast intro: call_inv wake_inv switch_inv stamp_inv time_inv priority_inv other_sleep_inv other_lower_inv sleep_inv)+

lemma reachable_inv: "sem_reachable False self st \<Longrightarrow> sem_inv self st"
  by (induction rule: sem_reachable.induct) (auto intro: start_inv step_inv)


section \<open>Runs\<close>

text \<open>Runs of a system as lists of actions, for concrete inputs.\<close>

datatype sem_action = ACall sem_pc | AExec | AWake | ASwitch | AStamp nat u64 | ATime int | AResume nat | ASleep int

fun sem_act :: "bool \<Rightarrow> nat \<Rightarrow> sem_action \<Rightarrow> sem_sys \<Rightarrow> sem_sys option" where
  "sem_act foreign self (ACall pc) st = (if current st \<noteq> idlethread (ss_k st) \<and> ss_pc st (current st) = Outside \<and> pc \<in> {EnterStart, LeaveStart, OtherPrev}
     then Some (st\<lparr>ss_pc := (ss_pc st)(current st := pc)\<rparr>) else None)"
| "sem_act foreign self AExec st = (case sem_exec self (ss_pc st (current st)) (ss_k st) (ss_s st) of (pc, k, s) \<Rightarrow> Some (sem_after st pc k s))"
| "sem_act foreign self AWake st = (case ss_pc st (current st) of
     Sleeping cp prev \<Rightarrow> if ready (ss_k st) (ss_now st) (current st) then Some (st\<lparr>ss_k := snd (suspend_end (current st) (ss_k st)),
         ss_pc := (ss_pc st)(current st := Enter ELoop cp prev True)\<rparr>) else None
   | _ \<Rightarrow> None)"
| "sem_act foreign self ASwitch st = Some (sem_switch st)"
| "sem_act foreign self (AStamp j c) st = Some (st\<lparr>ss_k := upd_thread j (\<lambda>t. t\<lparr>th_lastActivation := c\<rparr>) (ss_k st)\<rparr>)"
| "sem_act foreign self (ATime t) st = (if ss_now st \<le> t \<and> t < END_OF_TIME then Some (st\<lparr>ss_now := t\<rparr>) else None)"
| "sem_act foreign self (AResume j) st = (if j < length (threadList (ss_k st)) \<and> (foreign \<or> th_waitingFor (thr (ss_k st) j) \<noteq> Some self)
     then Some (st\<lparr>ss_k := resume j (ss_k st)\<rparr>) else None)"
| "sem_act foreign self (ASleep u) st = (if current st \<noteq> idlethread (ss_k st) \<and> ss_pc st (current st) = Outside
     then Some (st\<lparr>ss_k := upd_thread (current st) (\<lambda>t. t\<lparr>th_suspendedUntil := u\<rparr>) (ss_k st), ss_pc := (ss_pc st)(current st := Yielding)\<rparr>) else None)"

fun sem_run :: "bool \<Rightarrow> nat \<Rightarrow> sem_action list \<Rightarrow> sem_sys \<Rightarrow> sem_sys option" where
  "sem_run foreign self [] st = Some st"
| "sem_run foreign self (a # as) st = (case sem_act foreign self a st of None \<Rightarrow> None | Some st \<Rightarrow> sem_run foreign self as st)"

lemma sem_act_step: "sem_act foreign self a st = Some st' \<Longrightarrow> sem_step foreign self st st'"
  by (cases a) (auto intro: sem_step.intros split: if_splits sem_pc.splits prod.splits)

lemma sem_run_reachable: "sem_run foreign self as st = Some st' \<Longrightarrow> sem_reachable foreign self st \<Longrightarrow> sem_reachable foreign self st'"
proof (induction as arbitrary: st)
  case (Cons a as)
  then obtain st1 where s: "sem_act foreign self a st = Some st1" "sem_run foreign self as st1 = Some st'" by (auto split: option.splits)
  show ?case using Cons.IH [OF s(2)] sem_reachable.step [OF Cons.prems(2) sem_act_step [OF s(1)]] .
qed simp

definition sem_thread :: "int \<Rightarrow> u64 \<Rightarrow> thread" where
  "sem_thread prio stamp = \<lparr>th_name = [], th_priority = prio, th_suspendedUntil = 0,
     th_waitingFor = None, th_lastActivation = stamp, th_nextBeat = 0, th_period = 0,
     th_stackBegin = 0, th_stackAddr = 400, th_stackWord = EMPTY_MEMORY_MARKER\<rparr>"

text \<open>The idle thread and three threads of priority 10, 30 and 50, the last of which runs.\<close>

definition sem_kernel :: kernel where
  "sem_kernel = \<lparr>threadList = [sem_thread 0 0, sem_thread 10 1, sem_thread 30 2, sem_thread 50 3],
     idlethread = 0, currentThread = 3, scheduleCounter = 3, preSelectedNextToRun = None,
     preSelectedEarliestSuspendedUntil = 0, timeToTryAgainToSchedule = 0, yieldSchedulingLock = False,
     schedulerRunning = True, timerRunning = True, timerInterval = 0\<rparr>"

definition sem_demo :: sem_sys where
  "sem_demo = \<lparr>ss_k = sem_kernel, ss_s = Semaphore_init, ss_pc = (\<lambda>i. Outside), ss_depth = (\<lambda>i. 0), ss_now = 1\<rparr>"

lemma sem_demo_start: "sem_start 7 sem_demo"
  by (auto simp: sem_start_def sem_demo_def sem_kernel_def sem_thread_def CEILING_PRIORITY_def kernel_inv_def END_OF_TIME_def less_Suc_eq
      numeral_eq_Suc)

lemma demo_run_reachable: "sem_run foreign 7 as sem_demo = Some st \<Longrightarrow> sem_reachable foreign 7 st"
  by (rule sem_run_reachable [OF _ sem_reachable.start [OF sem_demo_start]])

text \<open>Thread 1 enters while the others sleep until 3 and 5; then 2 and 3 enter and block.\<close>

definition enter_free :: "sem_action list" where
  "enter_free = ACall EnterStart # replicate 8 AExec"

definition enter_blocked :: "sem_action list" where
  "enter_blocked = ACall EnterStart # replicate 11 AExec"

definition one_waiter :: "sem_action list" where
  "one_waiter = [ASleep 5, ASwitch, ASleep 3, ASwitch] @ enter_free @ [ATime 4, ASwitch, AExec] @ enter_blocked @ [ASwitch, AExec]"

definition two_waiters :: "sem_action list" where
  "two_waiters = one_waiter @ [ATime 6, ASwitch, AExec] @ enter_blocked @ [ASwitch, AStamp 1 4]"

definition summary :: "sem_sys \<Rightarrow> nat \<times> nat option \<times> int \<times> sem_pc list \<times> nat list \<times> int list \<times> nat option list" where
  "summary st = (current st, sem_owner (ss_s st), ownerEnterCnt (ss_s st), map (ss_pc st) [1, 2, 3], map (ss_depth st) [1, 2, 3],
     map th_priority (tl (threadList (ss_k st))), map th_waitingFor (tl (threadList (ss_k st))))"

definition blocked_summary :: "nat \<times> nat option \<times> int \<times> sem_pc list \<times> nat list \<times> int list \<times> nat option list" where
  "blocked_summary = (1, Some 1, 1, [Outside, Sleeping 30 30, Sleeping 50 50], [1, 0, 0], [50, CEILING_PRIORITY, CEILING_PRIORITY],
     [None, Some 7, Some 7])"

lemma two_waiters_run: "map_option summary (sem_run False 7 two_waiters sem_demo) = Some blocked_summary"
  by code_simp

lemma two_waiters_reachable:
  obtains st where "sem_reachable False 7 st" "summary st = blocked_summary"
  using two_waiters_run demo_run_reachable by auto

section \<open>Properties\<close>

text \<open>
  C8. Mutual exclusion: any number of threads enter, leave, nest, wait, sleep in other ceiling sections, change their
  priority and are resumed, the scheduler switches between them before any access to a shared variable, and only \<open>leave\<close>
  resumes the waiters of the semaphore. Then in every reachable state at most one thread is inside the semaphore, that thread
  is the recorded owner, \<open>ownerEnterCnt\<close> is the number of times it entered without leaving, and no thread has used a null owner.
\<close>

theorem semaphore_mutex:
  assumes "sem_reachable False self st" "0 < ss_depth st i"
  shows "sem_owner (ss_s st) = Some i \<and> ownerEnterCnt (ss_s st) = int (ss_depth st i) \<and>
    (\<forall>j. j \<noteq> i \<longrightarrow> ss_depth st j = 0) \<and> (\<forall>j. ss_pc st j \<noteq> NullOwner)"
proof -
  note inv = reachable_inv [OF assms(1)]
  note O = owner_invD [OF sem_invD(3) [OF inv]]
  have ow: "sem_owner (ss_s st) = Some i" using O(1) [of i] assms(2) by auto
  have "ss_pc st j \<noteq> NullOwner" for j using sem_invD(4) [OF inv, of j] by (auto simp: place_ok_def)
  then show ?thesis using O(1) O(5) [OF ow] ow by auto
qed

theorem semaphore_mutex_witness:
  "\<exists>st. sem_reachable False 7 st \<and> ss_depth st 1 = 1 \<and> ss_pc st 2 = Sleeping 30 30 \<and> ss_pc st 3 = Sleeping 50 50 \<and>
     sem_owner (ss_s st) = Some 1 \<and> ownerEnterCnt (ss_s st) = 1 \<and> ss_depth st 3 = 0"
proof -
  obtain st where st: "sem_reachable False 7 st" "summary st = blocked_summary" by (rule two_waiters_reachable)
  then have "ss_depth st 1 = 1" "ss_pc st 2 = Sleeping 30 30" "ss_pc st 3 = Sleeping 50 50"
    by (simp_all add: summary_def blocked_summary_def)
  then show ?thesis using semaphore_mutex [OF st(1), of 1] st(1) by (intro exI [of _ st]) simp
qed

text \<open>
  C29. No wake-up is lost: under the same conditions a thread that waits for the semaphore is in \<open>enter\<close>. If it is asleep
  there, then another thread owns the semaphore; or the semaphore is free and a ready thread in \<open>leave\<close> is about to hand it over,
  which finds nobody only if nobody waits; or it was handed over to the sleeping thread itself, which is awake or which a ready thread in
  \<open>leave\<close> is about to resume.
\<close>

theorem semaphore_no_lost_wakeup:
  assumes "sem_reachable False self st"
  shows "(\<forall>i < length (threadList (ss_k st)). th_waitingFor (thr (ss_k st) i) = Some self \<longrightarrow> waiting_place (ss_pc st i)) \<and>
    (\<forall>i cp prev. ss_pc st i = Sleeping cp prev \<longrightarrow>
      (case sem_owner (ss_s st) of
         None \<Rightarrow> \<exists>l. releasing (ss_pc st l) \<and> ready (ss_k st) (ss_now st) l
       | Some j \<Rightarrow> j = i \<longrightarrow> th_suspendedUntil (thr (ss_k st) i) = 0 \<or>
           (\<exists>l. (resuming i (ss_pc st l) \<or> resuming2 i (ss_pc st l)) \<and> ready (ss_k st) (ss_now st) l))) \<and>
    (\<forall>l c prev i. ss_pc st l = Leave (LFound c None) prev \<and> i < length (threadList (ss_k st)) \<longrightarrow>
      th_waitingFor (thr (ss_k st) i) \<noteq> Some self)"
proof -
  note inv = reachable_inv [OF assms]
  note B = base_invD [OF sem_invD(1) [OF inv]] and P = sem_invD(4) [OF inv]
  have rdy: "ready (ss_k st) (ss_now st) l" if "exclusive (ss_pc st l)" for l
  proof -
    have "l < length (threadList (ss_k st))" using B(4) [of l] that
      by (cases "l < length (threadList (ss_k st))") (auto simp: place_simps)
    moreover have "\<not> may_sleep (ss_pc st l)" using that by (auto simp: place_defs split: sem_pc.splits)
    ultimately show ?thesis by (rule B(11))
  qed
  have "case sem_owner (ss_s st) of None \<Rightarrow> \<exists>l. releasing (ss_pc st l) \<and> ready (ss_k st) (ss_now st) l
       | Some j \<Rightarrow> j = i \<longrightarrow> th_suspendedUntil (thr (ss_k st) i) = 0 \<or>
           (\<exists>l. (resuming i (ss_pc st l) \<or> resuming2 i (ss_pc st l)) \<and> ready (ss_k st) (ss_now st) l)"
    if "ss_pc st i = Sleeping cp prev" for i cp prev
  proof -
    have "sleeper_ok self st i" using P [of i] that by (simp add: place_ok_def)
    then show ?thesis
      using rdy handing_exclusive unfolding sleeper_ok_def Let_def by (cases "sem_owner (ss_s st)") (auto split: if_splits)
  qed
  moreover have "th_waitingFor (thr (ss_k st) i) \<noteq> Some self"
    if "ss_pc st l = Leave (LFound c None) prev" "i < length (threadList (ss_k st))" for l c prev i
    using P [of l] that by (simp add: place_ok_def leave_ok_def Let_def)
  ultimately show ?thesis using sem_invD(5) [OF inv] by blast
qed

theorem semaphore_no_lost_wakeup_witness:
  "\<exists>st. sem_reachable False 7 st \<and> sem_owner (ss_s st) = None \<and> ss_pc st 3 = Sleeping 50 50 \<and> (\<exists>l. releasing (ss_pc st l) \<and> ready (ss_k st) (ss_now st) l)"
proof -
  have r: "map_option summary (sem_run False 7 (two_waiters @ [ACall LeaveStart] @ replicate 13 AExec) sem_demo) =
      Some (1, None, 0, [Leave (LFound 10 (Some 2)) 50, Sleeping 30 30, Sleeping 50 50], [0, 0, 0], [CEILING_PRIORITY, CEILING_PRIORITY, CEILING_PRIORITY],
        [None, Some 7, Some 7])"
    by code_simp
  then obtain st where st: "sem_run False 7 (two_waiters @ [ACall LeaveStart] @ replicate 13 AExec) sem_demo = Some st"
    "sem_owner (ss_s st) = None" "ss_pc st 3 = Sleeping 50 50"
    by (auto simp: summary_def)
  then show ?thesis
    using semaphore_no_lost_wakeup [OF demo_run_reachable [OF st(1)]] demo_run_reachable [OF st(1)] by (intro exI [of _ st]) auto
qed

text \<open>
  The waiters sleep inside the ceiling section of \<open>enter\<close>, so all of them have the ceiling
  priority and the release does not see their own priorities: the semaphore goes to the waiter
  that was activated longest ago, whatever the priorities of the waiters are.
\<close>

lemma semaphore_handover_ignores_priority:
  assumes "sem_reachable False self st" "findNextWaitingFor (ss_k st) (Some self) = Some w"
  shows "\<forall>i < length (threadList (ss_k st)). th_waitingFor (thr (ss_k st) i) = Some self \<longrightarrow>
    th_priority (thr (ss_k st) i) = CEILING_PRIORITY \<and>
    th_lastActivation (thr (ss_k st) w) \<le> th_lastActivation (thr (ss_k st) i)"
proof -
  note inv = reachable_inv [OF assms(1)]
  note f = findNextWaitingFor_Some [OF assms(2)]
  have p: "th_priority (thr (ss_k st) i) = CEILING_PRIORITY" if "waits_for (ss_k st) (Some self) i" for i
    using sem_invD(5) [OF inv, of i] base_invD(9) [OF sem_invD(1) [OF inv], of i] that
    by (auto simp: waits_for_def waiting_place_def at_ceil_def split: sem_pc.splits)
  then show ?thesis using f by (auto simp: before_def waits_for_def)
qed

lemma semaphore_handover_ignores_priority_witness:
  "case sem_run False 7 two_waiters sem_demo of None \<Rightarrow> False
   | Some st \<Rightarrow> map (ss_pc st) [2, 3] = [Sleeping 30 30, Sleeping 50 50] \<and> findNextWaitingFor (ss_k st) (Some 7) = Some 2"
  by code_simp

text \<open>
  A thread that was raised by priority inheritance and enters the semaphore it already owns
  records the raised priority as the one to restore: after it has left as often as it entered, it
  keeps the priority of the thread that had waited (30 instead of its own 10).
\<close>

lemma semaphore_reentry_keeps_raised_priority:
  "th_priority (thr sem_kernel 1) = 10 \<and>
   map_option summary (sem_run False 7 (one_waiter @ [ACall EnterStart] @ replicate 9 AExec @ [ASwitch, AExec, ACall LeaveStart] @ replicate 3 AExec @
     [ACall LeaveStart] @ replicate 18 AExec) sem_demo) =
   Some (1, Some 2, 0, [LeaveYield (Some 2), Sleeping 30 30, Yielded], [0, 0, 0], [30, CEILING_PRIORITY, 50], [None, None, None])"
  by code_simp

text \<open>
  The condition that only \<open>leave\<close> resumes waiters is needed: the ceiling does not protect \<open>leave\<close> from a waiter, which sleeps with
  the ceiling priority. If an interrupt resumes a waiter (say, because the thread is still registered as the caller of a device)
  while the owner is between \<open>owner = 0\<close> and the handing over, the waiter takes the free semaphore, and the owner then
  hands it to another one: two threads are inside.
\<close>

lemma semaphore_foreign_resume_two_inside:
  "\<exists>st. sem_reachable True 7 st \<and> 0 < ss_depth st 2 \<and> 0 < ss_depth st 3"
proof -
  let ?run = "two_waiters @ [ACall LeaveStart] @ replicate 6 AExec @ [AResume 3, ASwitch, AWake] @ replicate 6 AExec @
    [ASwitch] @ replicate 10 AExec @ [ASwitch, AWake] @ replicate 6 AExec"
  have "map_option (\<lambda>st. (ss_depth st 2, ss_depth st 3)) (sem_run True 7 ?run sem_demo) = Some (1, 1)"
    by code_simp
  then obtain st where "sem_run True 7 ?run sem_demo = Some st" "0 < ss_depth st 2" "0 < ss_depth st 3" by auto
  then show ?thesis using demo_run_reachable by blast
qed

text \<open>If the waiter tests the owner just before \<open>owner = 0\<close> and suspends itself after the search, it sleeps for ever on a free
  semaphore.\<close>

lemma semaphore_foreign_resume_lost_wakeup:
  "\<exists>st. sem_reachable True 7 st \<and> sem_owner (ss_s st) = None \<and> ss_pc st 3 = Sleeping 50 50 \<and>
     th_suspendedUntil (thr (ss_k st) 3) = END_OF_TIME \<and> ss_pc st 1 = Outside \<and> ss_pc st 2 = Yielded"
proof -
  let ?run = "[ASleep 5, ASwitch, ASleep 1000, ASwitch] @ enter_free @ [ATime 6, ASwitch, AExec] @ enter_blocked @ [ASwitch, AExec, AStamp 1 4] @
    [ACall LeaveStart] @ replicate 5 AExec @ [AResume 3, ASwitch, AWake, AExec, AExec, AStamp 3 5, ASwitch] @ replicate 12 AExec @
    [ASwitch, AExec, AExec]"
  have "map_option (\<lambda>st. (sem_owner (ss_s st), ss_pc st 3, th_suspendedUntil (thr (ss_k st) 3), ss_pc st 1, ss_pc st 2)) (sem_run True 7 ?run sem_demo) =
      Some (None, Sleeping 50 50, END_OF_TIME, Outside, Yielded)"
    by code_simp
  then obtain st where "sem_run True 7 ?run sem_demo = Some st" "sem_owner (ss_s st) = None" "ss_pc st 3 = Sleeping 50 50"
    "th_suspendedUntil (thr (ss_k st) 3) = END_OF_TIME" "ss_pc st 1 = Outside" "ss_pc st 2 = Yielded" by auto
  then show ?thesis using demo_run_reachable by blast
qed

text \<open>
  A barrier reports what happened: the waiting thread gets \<open>True\<close> exactly if \<open>unblock\<close> was
  called during the wait (whatever else resumed it), \<open>unblock\<close> then resumes that thread and returns
  \<open>True\<close>, its priority is restored, and the barrier is free again; a second thread that waits on
  an occupied barrier is turned away without a change.
\<close>

lemma barrier_reports_signal:
  assumes "barrier_wait self True t k None = (Inr prev, k1, ow)"
    "currentThread k < length (threadList k)" "barrier_unblock (k2\<lparr>currentThread := c\<rparr>) ow = (ok, k3, ow')"
    "threadList k2 = threadList k1" "c < length (threadList k)" "c \<noteq> currentThread k"
  shows "ow = Some (currentThread k) \<and> ok \<and> ow' = None \<and>
    th_suspendedUntil (thr k3 (currentThread k)) = 0 \<and> th_waitingFor (thr k3 (currentThread k)) = None \<and>
    fst (barrier_woken prev k3 ow') \<and> \<not> fst (barrier_woken prev k1 ow) \<and>
    th_priority (thr (fst (snd (barrier_woken prev (k3\<lparr>currentThread := currentThread k\<rparr>) ow'))) (currentThread k)) =
      th_priority (thr k (currentThread k)) \<and>
    barrier_wait self cond t k1 ow = (Inl False, k1, ow)"
proof -
  have ow: "ow = Some (currentThread k)" "prev = th_priority (thr k (currentThread k))"
    "k1 = suspend_begin t (Some self) (snd (setPrioCurrentRunner CEILING_PRIORITY k))"
    using assms(1) by (auto simp: barrier_wait_def Let_def setPrioCurrentRunner_def)
  have "length (threadList k2) = length (threadList k)"
    unfolding assms(4) ow(3) by (simp add: kernel_op_defs)
  then show ?thesis
    using assms(2,3,5,6) ow
    by (auto simp: barrier_unblock_def barrier_woken_def barrier_wait_def kernel_op_defs thr_upd_thread)
qed

lemma barrier_reports_signal_witness:
  "case barrier_wait 9 True 1000 sem_kernel None of (r, k1, ow) \<Rightarrow>
     (case barrier_unblock (k1\<lparr>currentThread := 2\<rparr>) ow of (ok, k3, ow') \<Rightarrow>
        ow = Some 3 \<and> ok \<and> ow' = None \<and> th_suspendedUntil (thr k3 3) = 0)"
proof -
  let ?k1 = "suspend_begin 1000 (Some 9) (snd (setPrioCurrentRunner CEILING_PRIORITY sem_kernel))"
  have w: "barrier_wait 9 True 1000 sem_kernel None = (Inr 50, ?k1, Some 3)"
    by (simp add: barrier_wait_def setPrioCurrentRunner_def sem_kernel_def sem_thread_def)
  obtain ok k3 ow' where u: "barrier_unblock (?k1\<lparr>currentThread := 2\<rparr>) (Some 3) = (ok, k3, ow')"
    by (cases "barrier_unblock (?k1\<lparr>currentThread := 2\<rparr>) (Some 3)")
  have c: "currentThread sem_kernel = 3" "length (threadList sem_kernel) = 4"
    by (simp_all add: sem_kernel_def)
  show ?thesis
    unfolding w prod.case u using barrier_reports_signal [OF w _ u refl, of True] by (simp add: c)
qed

end
