(* ===== verification/Checksums.thy ===== *)
theory Checksums
  imports Rodos_Prelude
begin

text \<open>
  Checksums (\<open>src/independent/checksumes.cpp\<close>): the rotating checksum, the bitwise CRC-16 of
  CCSDS, its table driven variant, the printable hash and the xor of 32-bit words. A buffer and its
  length are a list of bytes; a C string is the list of its bytes before the terminating zero.
\<close>

unbundle bit_operations_syntax

section \<open>The code\<close>

definition rotateRight :: "u16 \<Rightarrow> u16" where
  "rotateRight c = (if c AND 0x01 \<noteq> 0 then drop_bit 1 c OR 0x8000 else drop_bit 1 c)"

definition checkSum :: "u8 list \<Rightarrow> u16" where
  "checkSum data = fold (\<lambda>b checksum. rotateRight checksum + ucast b) data 0"

text \<open>The inner loop of \<open>computeCrc\<close>: one bit, then all bits of a character.\<close>

definition crc_bit :: "u8 \<times> u16 \<Rightarrow> u8 \<times> u16" where
  "crc_bit s = (let (curChar, currentValue) = s
     in (push_bit 1 curChar,
         if (ucast (curChar AND 0x80) :: u32) XOR drop_bit 8 (ucast currentValue AND 0x8000) \<noteq> 0
         then push_bit 1 currentValue XOR 0x1021 else push_bit 1 currentValue))"

definition crc_char :: "u8 \<Rightarrow> u16 \<Rightarrow> u16" where
  "crc_char curChar currentValue = snd ((crc_bit ^^ 8) (curChar, currentValue))"

definition computeCrc :: "u8 list \<Rightarrow> u16 \<Rightarrow> u16" where
  "computeCrc data initialValue = fold crc_char data initialValue"

text \<open>The table of the class \<open>CRC\<close> and the loop that uses it.\<close>

definition crc_entry :: "nat \<Rightarrow> u16" where
  "crc_entry i =
     (let tmp = 0;
          tmp = (if (of_nat i :: u32) AND 1 \<noteq> 0 then tmp XOR 0x1021 else tmp);
          tmp = (if (of_nat i :: u32) AND 2 \<noteq> 0 then tmp XOR 0x2042 else tmp);
          tmp = (if (of_nat i :: u32) AND 4 \<noteq> 0 then tmp XOR 0x4084 else tmp);
          tmp = (if (of_nat i :: u32) AND 8 \<noteq> 0 then tmp XOR 0x8108 else tmp);
          tmp = (if (of_nat i :: u32) AND 16 \<noteq> 0 then tmp XOR 0x1231 else tmp);
          tmp = (if (of_nat i :: u32) AND 32 \<noteq> 0 then tmp XOR 0x2462 else tmp);
          tmp = (if (of_nat i :: u32) AND 64 \<noteq> 0 then tmp XOR 0x48C4 else tmp);
          tmp = (if (of_nat i :: u32) AND 128 \<noteq> 0 then tmp XOR 0x9188 else tmp)
      in tmp)"

definition lookUpTable :: "u16 list" where
  "lookUpTable = map crc_entry [0..<256]"

definition computeCRC :: "u16 list \<Rightarrow> u8 list \<Rightarrow> u16 \<Rightarrow> u16" where
  "computeCRC tbl data initialValue =
     fold (\<lambda>b currentValue. (push_bit 8 currentValue AND 0xFF00) XOR
             tbl ! unat ((drop_bit 8 currentValue XOR ucast b) AND 0x00FF)) data initialValue"

definition hash :: "u8 list \<Rightarrow> u16" where
  "hash str =
     (let crc = computeCrc str 0xffff;
          a = (ucast (drop_bit 8 crc AND 0xff) :: u8);
          b = (ucast (crc AND 0xff) :: u8);
          range = 0x7e - 0x20;
          a = (if a \<le> 0x20 \<or> a \<ge> 0x7e then (a mod range) + 0x20 else a);
          b = (if b \<le> 0x20 \<or> b \<ge> 0x7e then (b mod range) + 0x20 else b)
      in push_bit 8 (ucast a) OR ucast b)"

definition checkSumXor32 :: "u32 list \<Rightarrow> u32" where
  "checkSumXor32 buf = fold (\<lambda>w cksum. cksum XOR w) buf 0"

section \<open>The bitwise and the table driven CRC\<close>

abbreviation POLY :: u16 where "POLY \<equiv> 0x1021"

lemma and_single_bit: "w AND 2 ^ n = (if bit w n then 2 ^ n else 0)" for w :: "'a :: len word"
  by (rule bit_word_eqI) (auto simp: bit_simps)

lemma crc_bit_cond:
  "((ucast (c AND 0x80) :: u32) XOR drop_bit 8 (ucast v AND 0x8000) \<noteq> 0) \<longleftrightarrow> bit (c :: u8) 7 \<noteq> bit (v :: u16) 15"
proof -
  have "c AND 0x80 = (if bit c 7 then 0x80 else 0)" using and_single_bit [of c 7] by simp
  moreover have "(ucast v :: u32) AND 0x8000 = (if bit v 15 then 0x8000 else 0)"
    using and_single_bit [of "ucast v :: u32" 15] by (simp add: bit_ucast_iff)
  ultimately show ?thesis by (simp add: drop_bit_eq_div)
qed

text \<open>The part of the register that depends on the feedback only.\<close>

definition crc_feed :: "bool \<Rightarrow> u16 \<Rightarrow> u16" where
  "crc_feed b a = push_bit 1 a XOR (if b \<noteq> bit a 15 then POLY else 0)"

lemma crc_bit_step:
  assumes "k < 8"
  shows "crc_bit (push_bit k c, push_bit k v XOR a) =
    (push_bit (Suc k) c, push_bit (Suc k) v XOR crc_feed (bit c (7 - k) \<noteq> bit v (15 - k)) a)"
proof -
  have "bit (push_bit k c) 7 = bit c (7 - k)" "bit (push_bit k v XOR a) 15 = (bit v (15 - k) \<noteq> bit a 15)"
    using assms by (auto simp: bit_simps)
  moreover have "push_bit 1 (push_bit k v XOR a) = push_bit (Suc k) v XOR push_bit 1 a"
    by (rule bit_word_eqI) (auto simp: bit_simps)
  moreover have "push_bit 1 (push_bit k c) = push_bit (Suc k) c" by (simp add: push_bit_push_bit)
  ultimately show ?thesis
    unfolding crc_bit_def crc_bit_cond Let_def prod.case crc_feed_def by (auto simp: xor.assoc)
qed

lemma crc_bits_run:
  "n \<le> 8 \<Longrightarrow> (crc_bit ^^ n) (c, v) = (push_bit n c, push_bit n v XOR
     fold crc_feed (map (\<lambda>k. bit c (7 - k) \<noteq> bit v (15 - k)) [0..<n]) 0)"
proof (induction n)
  case (Suc n)
  then show ?case using crc_bit_step [of n c v] by (simp del: push_bit_Suc)
qed simp

lemma crc_char_feed:
  "crc_char c v = push_bit 8 v XOR fold crc_feed
     (map (\<lambda>k. bit c k \<noteq> bit v (8 + k)) [7, 6, 5, 4, 3, 2, 1, 0]) 0"
proof -
  have "[0..<8] = [0, 1, 2, 3, 4, 5, 6, 7 :: nat]" by (simp add: upt_rec)
  then show ?thesis using crc_bits_run [of 8 c v] by (simp add: crc_char_def)
qed

definition crc_bits :: "bool \<Rightarrow> bool \<Rightarrow> bool \<Rightarrow> bool \<Rightarrow> bool \<Rightarrow> bool \<Rightarrow> bool \<Rightarrow> bool \<Rightarrow> u16" where
  "crc_bits b7 b6 b5 b4 b3 b2 b1 b0 =
     (if b7 then 0x9188 else 0) XOR (if b6 then 0x48C4 else 0) XOR (if b5 then 0x2462 else 0) XOR
     (if b4 then 0x1231 else 0) XOR (if b3 then 0x8108 else 0) XOR (if b2 then 0x4084 else 0) XOR
     (if b1 then 0x2042 else 0) XOR (if b0 then 0x1021 else 0)"

lemma crc_feed_bits:
  "fold crc_feed [b7, b6, b5, b4, b3, b2, b1, b0] 0 = crc_bits b7 b6 b5 b4 b3 b2 b1 b0"
  by (cases b7; cases b6; cases b5; cases b4; cases b3; cases b2; cases b1; cases b0;
      simp add: crc_feed_def crc_bits_def push_bit_eq_mult)

lemma crc_entry_bits:
  "crc_entry i = crc_bits (bit i 7) (bit i 6) (bit i 5) (bit i 4) (bit i 3) (bit i 2) (bit i 1) (bit i 0)"
proof -
  have b: "((of_nat i :: u32) AND 2 ^ k \<noteq> 0) = bit i k" if "k < 32" for k
    using that by (simp only: and_single_bit) (simp add: bit_of_nat_iff power_eq_0_iff)
  have m: "((of_nat i :: u32) AND 1 \<noteq> 0) = bit i 0" "((of_nat i :: u32) AND 2 \<noteq> 0) = bit i 1"
    "((of_nat i :: u32) AND 4 \<noteq> 0) = bit i 2" "((of_nat i :: u32) AND 8 \<noteq> 0) = bit i 3"
    "((of_nat i :: u32) AND 16 \<noteq> 0) = bit i 4" "((of_nat i :: u32) AND 32 \<noteq> 0) = bit i 5"
    "((of_nat i :: u32) AND 64 \<noteq> 0) = bit i 6" "((of_nat i :: u32) AND 128 \<noteq> 0) = bit i 7"
    using b [of 0] b [of 1] b [of 2] b [of 3] b [of 4] b [of 5] b [of 6] b [of 7] by simp_all
  have "crc_entry i = (let tmp = 0;
          tmp = (if bit i 0 then tmp XOR 0x1021 else tmp);
          tmp = (if bit i 1 then tmp XOR 0x2042 else tmp);
          tmp = (if bit i 2 then tmp XOR 0x4084 else tmp);
          tmp = (if bit i 3 then tmp XOR 0x8108 else tmp);
          tmp = (if bit i 4 then tmp XOR 0x1231 else tmp);
          tmp = (if bit i 5 then tmp XOR 0x2462 else tmp);
          tmp = (if bit i 6 then tmp XOR 0x48C4 else tmp);
          tmp = (if bit i 7 then tmp XOR 0x9188 else tmp)
      in tmp)"
    unfolding crc_entry_def m ..
  moreover have "(if b then t XOR w else t) = t XOR (if b then w else 0)" for b and t w :: u16 by simp
  ultimately show ?thesis by (simp add: crc_bits_def Let_def ac_simps)
qed

text \<open>One byte of the table driven loop.\<close>

definition crc_table_char :: "u8 \<Rightarrow> u16 \<Rightarrow> u16" where
  "crc_table_char b v = (push_bit 8 v AND 0xFF00) XOR
     lookUpTable ! unat ((drop_bit 8 v XOR ucast b) AND 0x00FF)"

lemma high_byte: "push_bit 8 v AND 0xFF00 = push_bit 8 v" for v :: u16
proof -
  have m: "(0xFF00 :: u16) = push_bit 8 (mask 8)" by (simp add: push_bit_eq_mult mask_eq_exp_minus_1)
  show ?thesis unfolding m by (rule bit_word_eqI) (auto simp: bit_simps)
qed

lemma table_index:
  fixes v :: u16 and b :: u8
  defines "i \<equiv> (drop_bit 8 v XOR ucast b) AND 0x00FF"
  shows "unat i < 256" "k < 8 \<Longrightarrow> bit (unat i) k = (bit b k \<noteq> bit v (8 + k))"
proof -
  have m: "(0x00FF :: u16) = mask 8" by (simp add: mask_eq_exp_minus_1)
  have "i \<le> 0x00FF" unfolding i_def by (rule word_and_le1)
  then show "unat i < 256" by (simp add: word_le_nat_alt)
  assume "k < 8"
  then show "bit (unat i) k = (bit b k \<noteq> bit v (8 + k))"
    unfolding i_def m by (auto simp: bit_simps)
qed

lemma crc_char_table: "crc_char b v = crc_table_char b v"
proof -
  let ?i = "unat ((drop_bit 8 v XOR ucast b) AND 0x00FF)"
  have "lookUpTable ! ?i = crc_entry ?i" using table_index(1) by (simp add: lookUpTable_def)
  also have "\<dots> = fold crc_feed (map (\<lambda>k. bit b k \<noteq> bit v (8 + k)) [7, 6, 5, 4, 3, 2, 1, 0]) 0"
    using table_index(2) [of _ v b] unfolding crc_entry_bits list.map by (simp only: crc_feed_bits)
  finally show ?thesis by (simp only: crc_char_feed crc_table_char_def high_byte)
qed

lemma computeCRC_table: "computeCRC lookUpTable data v = fold crc_table_char data v"
  by (simp add: computeCRC_def crc_table_char_def [abs_def])

section \<open>Checksums that detect a corrupted element\<close>

text \<open>A checksum computed by a loop that keeps different registers different and maps different
  data to different registers.\<close>

locale step_checksum =
  fixes csum_step :: "'d \<Rightarrow> 'r \<Rightarrow> 'r"
  assumes inj_register: "csum_step b v = csum_step b v' \<Longrightarrow> v = v'"
    and inj_data: "csum_step b v = csum_step b' v \<Longrightarrow> b = b'"
begin

lemma fold_inj: "fold csum_step xs v = fold csum_step xs v' \<Longrightarrow> v = v'"
proof (induction xs arbitrary: v v')
  case (Cons x xs)
  then have "csum_step x v = csum_step x v'" by simp
  then show ?case by (rule inj_register)
qed simp

lemma detects:
  assumes "x \<noteq> y"
  shows "fold csum_step (xs @ x # ys) v \<noteq> fold csum_step (xs @ y # ys) v"
proof
  assume "fold csum_step (xs @ x # ys) v = fold csum_step (xs @ y # ys) v"
  then have "fold csum_step ys (csum_step x (fold csum_step xs v)) =
      fold csum_step ys (csum_step y (fold csum_step xs v))" by simp
  then have "csum_step x (fold csum_step xs v) = csum_step y (fold csum_step xs v)" by (rule fold_inj)
  then have "x = y" by (rule inj_data)
  with assms show False by simp
qed

end

lemma bit_if_zero: "bit (if b then w else 0) k = (b \<and> bit w k)" for w :: u16
  by simp

lemma crc_bits_low:
  "bit (crc_bits b7 b6 b5 b4 b3 b2 b1 b0) 0 = (b0 \<noteq> b4)" "bit (crc_bits b7 b6 b5 b4 b3 b2 b1 b0) 1 = (b1 \<noteq> b5)"
  "bit (crc_bits b7 b6 b5 b4 b3 b2 b1 b0) 2 = (b2 \<noteq> b6)" "bit (crc_bits b7 b6 b5 b4 b3 b2 b1 b0) 3 = (b3 \<noteq> b7)"
  "bit (crc_bits b7 b6 b5 b4 b3 b2 b1 b0) 4 = b4" "bit (crc_bits b7 b6 b5 b4 b3 b2 b1 b0) 5 = (b0 \<noteq> (b4 \<noteq> b5))"
  "bit (crc_bits b7 b6 b5 b4 b3 b2 b1 b0) 6 = (b1 \<noteq> (b5 \<noteq> b6))"
  "bit (crc_bits b7 b6 b5 b4 b3 b2 b1 b0) 7 = (b2 \<noteq> (b6 \<noteq> b7))"
  unfolding crc_bits_def bit_xor_iff bit_if_zero by (simp_all, argo+)

lemma crc_entry_low_inj:
  assumes e: "crc_entry i AND 0xFF = crc_entry j AND 0xFF" and "i < 256" "j < 256"
  shows "i = j"
proof -
  have m: "(0xFF :: u16) = mask 8" by (simp add: mask_eq_exp_minus_1)
  have "bit (crc_entry i) k = bit (crc_entry j) k" if "k < 8" for k
  proof -
    have "bit (crc_entry i AND mask 8) k = bit (crc_entry j AND mask 8) k" using e unfolding m by simp
    with that show ?thesis by (simp add: bit_simps)
  qed
  from this [of 0] this [of 1] this [of 2] this [of 3] this [of 4] this [of 5] this [of 6] this [of 7]
  have "bit i 0 = bit j 0" "bit i 1 = bit j 1" "bit i 2 = bit j 2" "bit i 3 = bit j 3"
    "bit i 4 = bit j 4" "bit i 5 = bit j 5" "bit i 6 = bit j 6" "bit i 7 = bit j 7"
    unfolding crc_entry_bits crc_bits_low by (simp_all, argo+)
  then have b: "bit i k = bit j k" if "k < 8" for k
    using that by (auto simp: less_Suc_eq numeral_eq_Suc)
  have "bit (take_bit 8 i) k = bit (take_bit 8 j) k" for k using b by (cases "k < 8") (simp_all add: bit_take_bit_iff)
  then have "take_bit 8 i = take_bit 8 j" by (simp add: bit_eq_iff)
  with assms(2,3) show ?thesis by (simp add: take_bit_nat_eq_self)
qed

lemma xor_cancel: "a XOR c = b XOR c \<Longrightarrow> a = b" for a b c :: "'a :: len word"
proof -
  assume "a XOR c = b XOR c"
  then have "(a XOR c) XOR c = (b XOR c) XOR c" by simp
  then show ?thesis by (simp add: xor.assoc)
qed

lemma table_index_byte: "(drop_bit 8 v XOR ucast b) AND 0x00FF = drop_bit 8 v XOR ucast b"
  for v :: u16 and b :: u8
proof -
  have m: "(0x00FF :: u16) = mask 8" by (simp add: mask_eq_exp_minus_1)
  show ?thesis unfolding m by (rule bit_word_eqI) (auto simp: bit_simps dest: bit_imp_le_length)
qed

lemma crc_table_inj:
  assumes "crc_table_char b v = crc_table_char b' v'"
  shows "push_bit 8 v = push_bit 8 v' \<and> (drop_bit 8 v XOR ucast b) = drop_bit 8 v' XOR (ucast b' :: u16)"
proof -
  let ?x = "drop_bit 8 v XOR ucast b" and ?x' = "drop_bit 8 v' XOR (ucast b' :: u16)"
  let ?i = "unat (?x AND 0x00FF)" and ?i' = "unat (?x' AND 0x00FF)"
  have lt: "?i < 256" "?i' < 256" using table_index(1) by auto
  have m: "(0xFF :: u16) = mask 8" by (simp add: mask_eq_exp_minus_1)
  have low: "crc_table_char b v AND 0xFF = crc_entry (unat ((drop_bit 8 v XOR ucast b) AND 0x00FF)) AND 0xFF"
    for b v
  proof -
    have "crc_table_char b v = push_bit 8 v XOR crc_entry (unat ((drop_bit 8 v XOR ucast b) AND 0x00FF))"
      using table_index(1) by (simp add: crc_table_char_def high_byte lookUpTable_def)
    then show ?thesis unfolding m by (intro bit_word_eqI) (auto simp: bit_simps)
  qed
  have "crc_entry ?i AND 0xFF = crc_entry ?i' AND 0xFF" using assms low by metis
  then have ii: "?i = ?i'"
    using lt by (rule crc_entry_low_inj)
  then have "push_bit 8 v XOR lookUpTable ! ?i' = push_bit 8 v' XOR lookUpTable ! ?i'"
    using assms by (simp add: crc_table_char_def high_byte)
  then have "push_bit 8 v = push_bit 8 v'" by (rule xor_cancel)
  moreover have "?x AND 0x00FF = ?x' AND 0x00FF" using ii by (rule unsigned_word_eqI)
  ultimately show ?thesis by (simp add: table_index_byte)
qed

lemma ucast_u8_inj: "(ucast b :: u16) = ucast b' \<Longrightarrow> b = (b' :: u8)"
proof -
  assume "(ucast b :: u16) = ucast b'"
  then have "(ucast (ucast b :: u16) :: u8) = ucast (ucast b' :: u16)" by simp
  moreover have "(ucast (ucast x :: u16) :: u8) = x" for x :: u8
    by (rule bit_word_eqI) (simp add: bit_simps)
  ultimately show "b = b'" by simp
qed

lemma crc_table_inj_data: "crc_table_char b v = crc_table_char b' v \<Longrightarrow> b = b'"
proof -
  assume "crc_table_char b v = crc_table_char b' v"
  then have "drop_bit 8 v XOR ucast b = drop_bit 8 v XOR (ucast b' :: u16)" using crc_table_inj by blast
  then have "drop_bit 8 v XOR (drop_bit 8 v XOR ucast b) = drop_bit 8 v XOR (drop_bit 8 v XOR (ucast b' :: u16))"
    by simp
  then have "(ucast b :: u16) = ucast b'" by (simp flip: xor.assoc)
  then show "b = b'" by (rule ucast_u8_inj)
qed

lemma crc_table_inj_register: "crc_table_char b v = crc_table_char b v' \<Longrightarrow> v = v'"
proof -
  assume e: "crc_table_char b v = crc_table_char b v'"
  have "drop_bit 8 v XOR ucast b = drop_bit 8 v' XOR (ucast b :: u16)" using crc_table_inj [OF e] by simp
  then have d: "drop_bit 8 v = drop_bit 8 v'" by (rule xor_cancel)
  have p: "push_bit 8 v = push_bit 8 v'" using crc_table_inj [OF e] by simp
  show "v = v'"
  proof (rule bit_word_eqI)
    fix n assume n: "n < LENGTH(16)"
    have "bit (drop_bit 8 v) (n - 8) = bit (drop_bit 8 v') (n - 8)" using d by simp
    moreover have "bit (push_bit 8 v) (n + 8) = bit (push_bit 8 v') (n + 8)" using p by simp
    ultimately show "bit v n = bit v' n" using n by (cases "n < 8") (simp_all add: bit_simps)
  qed
qed

interpretation crc: step_checksum crc_char
proof
  show "crc_char b v = crc_char b v' \<Longrightarrow> v = v'" for b v v'
    unfolding crc_char_table by (rule crc_table_inj_register)
  show "crc_char b v = crc_char b' v \<Longrightarrow> b = b'" for b b' v
    unfolding crc_char_table by (rule crc_table_inj_data)
qed

lemma rotateRight_bits:
  "n < 16 \<Longrightarrow> bit (rotateRight c) n = (if n = 15 then bit c 0 else bit c (Suc n))"
proof -
  assume n: "n < 16"
  have c: "(c AND 0x01 \<noteq> 0) = bit c 0" using and_single_bit [of c 0] by simp
  have m: "(0x8000 :: u16) = 2 ^ 15" by simp
  have b: "bit (0x8000 :: u16) n = (n = 15)" unfolding m bit_exp_iff using n by simp
  show ?thesis using n b unfolding rotateRight_def c
    by (cases "bit c 0") (auto simp: bit_or_iff bit_drop_bit_eq dest: bit_imp_le_length)
qed

lemma rotateRight_inj: "rotateRight c = rotateRight d \<Longrightarrow> c = d"
proof (rule bit_word_eqI)
  fix n assume e: "rotateRight c = rotateRight d" and n: "n < LENGTH(16)"
  show "bit c n = bit d n"
  proof (cases n)
    case 0 then show ?thesis using rotateRight_bits [of 15 c] rotateRight_bits [of 15 d] e by simp
  next
    case (Suc m)
    then show ?thesis using rotateRight_bits [of m c] rotateRight_bits [of m d] e n by simp
  qed
qed

interpretation sum: step_checksum "\<lambda>b c. rotateRight c + ucast (b :: u8)"
proof
  show "rotateRight v + ucast b = rotateRight v' + ucast b \<Longrightarrow> v = v'" for b :: u8 and v v'
    by (simp add: rotateRight_inj)
  show "rotateRight v + ucast b = rotateRight v + ucast b' \<Longrightarrow> b = b'" for b b' :: u8 and v
    using ucast_u8_inj by simp
qed

interpretation xor32: step_checksum "\<lambda>(w :: u32) c. c XOR w"
proof
  show "v XOR b = v' XOR b \<Longrightarrow> v = v'" for b v v' :: u32 by (rule xor_cancel)
  show "v XOR b = v XOR b' \<Longrightarrow> b = b'" for b b' v :: u32
    using xor_cancel [of b v b'] by (simp add: xor.commute)
qed

section \<open>Further facts\<close>

lemma table_is_bitwise: "computeCRC lookUpTable = computeCrc"
proof -
  have "crc_char = crc_table_char" by (simp add: fun_eq_iff crc_char_table)
  then show ?thesis by (intro ext) (simp only: computeCRC_table computeCrc_def)
qed

lemma crc_table_zero: "drop_bit 8 v = (ucast b :: u16) \<Longrightarrow> crc_char b v = push_bit 8 v"
proof -
  assume "drop_bit 8 v = (ucast b :: u16)"
  then have "unat ((drop_bit 8 v XOR ucast b) AND 0x00FF) = 0" by simp
  moreover have "lookUpTable ! 0 = 0" by (simp add: lookUpTable_def crc_entry_def)
  ultimately show ?thesis by (simp only: crc_char_table crc_table_char_def high_byte) simp
qed

lemma crc_residue:
  "let crc = computeCrc xs v in computeCrc (xs @ [ucast (drop_bit 8 crc), ucast crc]) v = 0"
proof -
  define crc where "crc = computeCrc xs v"
  have h: "drop_bit 8 crc = (ucast (ucast (drop_bit 8 crc) :: u8) :: u16)"
    "drop_bit 8 (push_bit 8 crc) = (ucast (ucast crc :: u8) :: u16)" "push_bit 8 (push_bit 8 crc) = 0"
    by (rule bit_word_eqI, auto simp: bit_simps dest: bit_imp_le_length)+
  then have "crc_char (ucast crc) (crc_char (ucast (drop_bit 8 crc)) crc) = 0"
    using crc_table_zero [OF h(1)] crc_table_zero [OF h(2)] by simp
  then show ?thesis by (simp add: Let_def crc_def computeCrc_def)
qed

definition printable :: "u8 \<Rightarrow> u8" where
  "printable a = (if a \<le> 0x20 \<or> a \<ge> 0x7e then (a mod (0x7e - 0x20)) + 0x20 else a)"

lemma printable_range: "0x20 \<le> printable a" "printable a < 0x7e"
proof -
  have "unat (a mod 0x5e) < 94" by (simp add: unat_mod)
  then have "unat ((a mod 0x5e) + 0x20) = unat (a mod 0x5e) + 32"
    by (simp add: unat_word_ariths)
  with \<open>unat (a mod 0x5e) < 94\<close> show "0x20 \<le> printable a" "printable a < 0x7e"
    by (auto simp: printable_def word_le_nat_alt word_less_nat_alt)
qed

lemma hash_bytes:
  obtains a b :: u8 where "hash str = push_bit 8 (ucast a) OR ucast b"
    "0x20 \<le> a" "a < 0x7e" "0x20 \<le> b" "b < (0x7e :: u8)"
proof -
  let ?crc = "computeCrc str 0xffff"
  let ?a = "printable (ucast (drop_bit 8 ?crc AND 0xff))" and ?b = "printable (ucast (?crc AND 0xff))"
  have "hash str = push_bit 8 (ucast ?a) OR ucast ?b" by (simp only: hash_def printable_def Let_def)
  then show thesis by (rule that) (rule printable_range)+
qed

lemma pack_high: "drop_bit 8 (push_bit 8 (ucast a) OR ucast b :: u16) = ucast (a :: u8)" for b :: u8
  by (rule bit_word_eqI) (auto simp: bit_simps dest: bit_imp_le_length)

lemma pack_low: "(push_bit 8 (ucast a) OR ucast b :: u16) AND 0xff = ucast (b :: u8)" for a :: u8
proof -
  have m: "(0xff :: u16) = mask 8" by (simp add: mask_eq_exp_minus_1)
  show ?thesis unfolding m by (rule bit_word_eqI) (auto simp: bit_simps dest: bit_imp_le_length)
qed

lemma unat_ucast_u8: "unat (ucast a :: u16) = unat (a :: u8)"
proof -
  have "unat a < 2 ^ 16" using unsigned_less [of a, where ?'a = nat] by simp
  then show ?thesis by (simp add: unsigned_ucast_eq take_bit_nat_eq_self)
qed

section \<open>Properties\<close>

text \<open>
  C32. The optimised CRC with the table of the class \<open>CRC\<close> computes the same value as the bitwise
  loop \<open>computeCrc\<close>, for every message and every initial value.
\<close>

theorem crc_table_equals_bitwise: "computeCRC lookUpTable data v = computeCrc data v"
  by (simp only: table_is_bitwise)

text \<open>
  Every message with one corrupted element is detected, by each of the checksums: the CRC
  (bitwise and table driven), the rotating sum and the xor of words differ, whatever the rest of
  the message and the initial value are; and a message followed by its own CRC, high byte first,
  has the CRC 0.
\<close>

lemma checksums_detect_corruption:
  assumes "x \<noteq> y" "a \<noteq> b"
  shows "computeCrc (xs @ x # ys) v \<noteq> computeCrc (xs @ y # ys) v \<and>
    computeCRC lookUpTable (xs @ x # ys) v \<noteq> computeCRC lookUpTable (xs @ y # ys) v \<and>
    checkSum (xs @ x # ys) \<noteq> checkSum (xs @ y # ys) \<and>
    checkSumXor32 (ws @ a # zs) \<noteq> checkSumXor32 (ws @ b # zs) \<and>
    (let crc = computeCrc xs v in computeCrc (xs @ [ucast (drop_bit 8 crc), ucast crc]) v = 0)"
proof -
  have crc: "computeCrc (xs @ x # ys) v \<noteq> computeCrc (xs @ y # ys) v"
    unfolding computeCrc_def by (rule crc.detects [OF assms(1)])
  moreover have "checkSum (xs @ x # ys) \<noteq> checkSum (xs @ y # ys)"
    unfolding checkSum_def by (rule sum.detects [OF assms(1)])
  moreover have "checkSumXor32 (ws @ a # zs) \<noteq> checkSumXor32 (ws @ b # zs)"
    unfolding checkSumXor32_def by (rule xor32.detects [OF assms(2)])
  ultimately show ?thesis by (simp add: table_is_bitwise crc_residue)
qed

lemma checksums_detect_corruption_witness:
  "computeCrc [1, 2, 3] 0xffff \<noteq> computeCrc [1, 7, 3] 0xffff \<and> checkSum [1, 2, 3] \<noteq> checkSum [1, 7, 3] \<and>
   checkSumXor32 [5] \<noteq> checkSumXor32 [6]"
  using checksums_detect_corruption [where x = 2 and y = 7 and a = 5 and b = 6 and xs = "[1]" and ys = "[3]"
      and v = "0xffff" and ws = "[]" and zs = "[]"] by simp

text \<open>The hash of a name consists of two printable characters, whatever the name is.\<close>

lemma hash_printable:
  "0x20 \<le> drop_bit 8 (hash str) \<and> drop_bit 8 (hash str) < 0x7e \<and>
   0x20 \<le> hash str AND 0xff \<and> hash str AND 0xff < 0x7e"
proof -
  obtain a b :: u8 where h: "hash str = push_bit 8 (ucast a) OR ucast b"
    and a: "0x20 \<le> a" "a < 0x7e" and b: "0x20 \<le> b" "b < (0x7e :: u8)"
    by (rule hash_bytes)
  have "drop_bit 8 (hash str) = ucast a" "hash str AND 0xff = ucast b"
    unfolding h by (simp_all only: pack_high pack_low)
  then show ?thesis using a b by (simp add: word_le_nat_alt word_less_nat_alt unat_ucast_u8)
qed

end
