(* ===== verification/Byte_Stream.thy ===== *)
theory Byte_Stream
  imports Rodos_Prelude
begin

text \<open>
  Byte streams (\<open>src/independent/stream-bytesex.cpp\<close>, \<open>api/stream-bytesex.h\<close>): big-endian encoding
  of integers, conversion between host and network order, bit fields in the CCSDS numbering (bit 0
  is the most significant one), and the serializers. A buffer is a list of bytes; the null pointer
  is \<open>None\<close>. A value in the memory of the host is the list of its bytes, in the order
  of the host.
\<close>

unbundle bit_operations_syntax

section \<open>Host order\<close>

definition swapChars :: "nat \<Rightarrow> nat \<Rightarrow> u8 list \<Rightarrow> u8 list" where
  "swapChars i j c = c[i := c ! j, j := c ! i]"

text \<open>The bytes of a value, least significant first, and the value of such bytes.\<close>

definition le_bytes :: "nat \<Rightarrow> 'a :: len word \<Rightarrow> u8 list" where
  "le_bytes n w = map (\<lambda>i. ucast (drop_bit (8 * i) w)) [0..<n]"

definition le_value :: "u8 list \<Rightarrow> 'a :: len word" where
  "le_value bs = foldr (\<lambda>b w. push_bit 8 w OR ucast b) bs 0"

definition host_bytes :: "bool \<Rightarrow> nat \<Rightarrow> 'a :: len word \<Rightarrow> u8 list" where
  "host_bytes isHostBigEndian n w = (if isHostBigEndian then rev (le_bytes n w) else le_bytes n w)"

definition host_value :: "bool \<Rightarrow> u8 list \<Rightarrow> 'a :: len word" where
  "host_value isHostBigEndian bs = le_value (if isHostBigEndian then rev bs else bs)"

definition swap16 :: "bool \<Rightarrow> u16 \<Rightarrow> u16" where
  "swap16 be sw = host_value be (swapChars 0 1 (host_bytes be 2 sw))"

definition swap32 :: "bool \<Rightarrow> u32 \<Rightarrow> u32" where
  "swap32 be lw = host_value be (swapChars 1 2 (swapChars 0 3 (host_bytes be 4 lw)))"

definition swap64 :: "bool \<Rightarrow> u64 \<Rightarrow> u64" where
  "swap64 be llw = host_value be
     (swapChars 3 4 (swapChars 2 5 (swapChars 1 6 (swapChars 0 7 (host_bytes be 8 llw)))))"

definition int16ConvertHost2Net :: "bool \<Rightarrow> u16 \<Rightarrow> u16" where
  "int16ConvertHost2Net isHostBigEndian sw = (if isHostBigEndian then sw else swap16 isHostBigEndian sw)"

definition int32ConvertHost2Net :: "bool \<Rightarrow> u32 \<Rightarrow> u32" where
  "int32ConvertHost2Net isHostBigEndian lw = (if isHostBigEndian then lw else swap32 isHostBigEndian lw)"

definition int64ConvertHost2Net :: "bool \<Rightarrow> u64 \<Rightarrow> u64" where
  "int64ConvertHost2Net isHostBigEndian llw = (if isHostBigEndian then llw else swap64 isHostBigEndian llw)"

section \<open>Big-endian streams\<close>

definition bigEndianToUint16_t :: "u8 list option \<Rightarrow> u16" where
  "bigEndianToUint16_t buff =
     (case buff of None \<Rightarrow> 0 | Some bs \<Rightarrow> push_bit 8 (ucast (bs ! 0)) OR ucast (bs ! 1))"

definition bigEndianToUint32_t :: "u8 list option \<Rightarrow> u32" where
  "bigEndianToUint32_t buff =
     (case buff of None \<Rightarrow> 0
      | Some bs \<Rightarrow> push_bit 24 (ucast (bs ! 0)) OR push_bit 16 (ucast (bs ! 1)) OR
                  push_bit 8 (ucast (bs ! 2)) OR ucast (bs ! 3))"

definition bigEndianToUint64_t :: "u8 list option \<Rightarrow> u64" where
  "bigEndianToUint64_t buff =
     (case buff of None \<Rightarrow> 0
      | Some bs \<Rightarrow> push_bit 56 (ucast (bs ! 0)) OR push_bit 48 (ucast (bs ! 1)) OR
                  push_bit 40 (ucast (bs ! 2)) OR push_bit 32 (ucast (bs ! 3)) OR
                  push_bit 24 (ucast (bs ! 4)) OR push_bit 16 (ucast (bs ! 5)) OR
                  push_bit 8 (ucast (bs ! 6)) OR ucast (bs ! 7))"

definition uint16_tToBigEndian :: "u8 list option \<Rightarrow> u16 \<Rightarrow> u8 list option" where
  "uint16_tToBigEndian buff val =
     (case buff of None \<Rightarrow> None
      | Some bs \<Rightarrow> Some (bs[0 := ucast (drop_bit 8 val AND 0xFF), 1 := ucast (drop_bit 0 val AND 0xFF)]))"

definition uint32_tToBigEndian :: "u8 list option \<Rightarrow> u32 \<Rightarrow> u8 list option" where
  "uint32_tToBigEndian buff val =
     (case buff of None \<Rightarrow> None
      | Some bs \<Rightarrow> Some (bs[0 := ucast (drop_bit 24 val AND 0xFF), 1 := ucast (drop_bit 16 val AND 0xFF),
                           2 := ucast (drop_bit 8 val AND 0xFF), 3 := ucast (drop_bit 0 val AND 0xFF)]))"

definition uint64_tToBigEndian :: "u8 list option \<Rightarrow> u64 \<Rightarrow> u8 list option" where
  "uint64_tToBigEndian buff val =
     (case buff of None \<Rightarrow> None
      | Some bs \<Rightarrow> Some (bs[0 := ucast (drop_bit 56 val AND 0xFF), 1 := ucast (drop_bit 48 val AND 0xFF),
                           2 := ucast (drop_bit 40 val AND 0xFF), 3 := ucast (drop_bit 32 val AND 0xFF),
                           4 := ucast (drop_bit 24 val AND 0xFF), 5 := ucast (drop_bit 16 val AND 0xFF),
                           6 := ucast (drop_bit 8 val AND 0xFF), 7 := ucast (drop_bit 0 val AND 0xFF)]))"

text \<open>The signed and the floating point variants pass the same bits through; a signed value, a
  \<open>float\<close> or a \<open>double\<close> is represented by its bits.\<close>

definition bigEndianToInt16_t :: "u8 list option \<Rightarrow> int" where
  "bigEndianToInt16_t buff = sint (bigEndianToUint16_t buff)"

definition bigEndianToInt32_t :: "u8 list option \<Rightarrow> int" where
  "bigEndianToInt32_t buff = sint (bigEndianToUint32_t buff)"

definition bigEndianToInt64_t :: "u8 list option \<Rightarrow> int" where
  "bigEndianToInt64_t buff = sint (bigEndianToUint64_t buff)"

definition int16_tToBigEndian :: "u8 list option \<Rightarrow> int \<Rightarrow> u8 list option" where
  "int16_tToBigEndian buff val = uint16_tToBigEndian buff (of_int val)"

definition int32_tToBigEndian :: "u8 list option \<Rightarrow> int \<Rightarrow> u8 list option" where
  "int32_tToBigEndian buff val = uint32_tToBigEndian buff (of_int val)"

definition int64_tToBigEndian :: "u8 list option \<Rightarrow> int \<Rightarrow> u8 list option" where
  "int64_tToBigEndian buff val = uint64_tToBigEndian buff (of_int val)"

definition bigEndianToFloat :: "u8 list option \<Rightarrow> u32" where
  "bigEndianToFloat buff = bigEndianToUint32_t buff"

definition bigEndianToDouble :: "u8 list option \<Rightarrow> u64" where
  "bigEndianToDouble buff = bigEndianToUint64_t buff"

definition floatToBigEndian :: "u8 list option \<Rightarrow> u32 \<Rightarrow> u8 list option" where
  "floatToBigEndian buff val = uint32_tToBigEndian buff val"

definition doubleToBigEndian :: "u8 list option \<Rightarrow> u64 \<Rightarrow> u8 list option" where
  "doubleToBigEndian buff val = uint64_tToBigEndian buff val"

section \<open>Bits and bit fields\<close>

definition setBitInByteStream :: "u8 list \<Rightarrow> nat \<Rightarrow> bool \<Rightarrow> u8 list" where
  "setBitInByteStream bytes bitIndex val =
     (let byteIndex = bitIndex div 8; bitPos = bitIndex mod 8
      in if val then bytes[byteIndex := bytes ! byteIndex OR push_bit (7 - bitPos) 1]
         else bytes[byteIndex := bytes ! byteIndex AND NOT (push_bit (7 - bitPos) 1)])"

definition getBitFromByteStream :: "u8 list \<Rightarrow> nat \<Rightarrow> int" where
  "getBitFromByteStream bytes bitIndex =
     (let selectedByte = bytes ! (bitIndex div 8)
      in uint (drop_bit (7 - bitIndex mod 8) selectedByte AND 0x01))"

definition uint32_tOnes :: "nat \<Rightarrow> u32" where
  "uint32_tOnes n = push_bit n 1 - 1"

text \<open>The conversion of the shift count to \<open>uint8_t\<close>.\<close>

definition field_shift :: "nat \<Rightarrow> nat \<Rightarrow> nat" where
  "field_shift bitPos numOfBits = nat ((24 - int (bitPos + numOfBits)) mod 256)"

text \<open>The three bytes around a field as one word; a byte is read only if the field reaches it.\<close>

definition field_word :: "u8 list \<Rightarrow> nat \<Rightarrow> nat \<Rightarrow> u32" where
  "field_word buf byteIndex end =
     (let w0 = push_bit 16 (ucast (buf ! byteIndex));
          w1 = (if end > 8 then w0 OR push_bit 8 (ucast (buf ! (byteIndex + 1))) else w0)
      in if end > 16 then w1 OR ucast (buf ! (byteIndex + 2)) else w1)"

definition setBitField :: "u8 list \<Rightarrow> nat \<Rightarrow> nat \<Rightarrow> u32 \<Rightarrow> u8 list" where
  "setBitField buf bitPos0 numOfBits val =
     (let byteIndex = bitPos0 div 8; bitPos = bitPos0 mod 8;
          shifts = field_shift bitPos numOfBits;
          mask = push_bit shifts (uint32_tOnes numOfBits);
          val' = push_bit shifts val;
          word = field_word buf byteIndex (bitPos + numOfBits);
          word1 = word AND NOT mask;
          word2 = word1 OR (mask AND val');
          buf1 = buf[byteIndex := ucast (drop_bit 16 word2 AND 0xff)];
          buf2 = (if bitPos + numOfBits > 8
                  then buf1[byteIndex + 1 := ucast (drop_bit 8 word2 AND 0xff)] else buf1)
      in if bitPos + numOfBits > 16 then buf2[byteIndex + 2 := ucast (word2 AND 0xff)] else buf2)"

definition getBitField :: "u8 list \<Rightarrow> nat \<Rightarrow> nat \<Rightarrow> u32" where
  "getBitField buf bitPos0 numOfBits =
     (let byteIndex = bitPos0 div 8; bitPos = bitPos0 mod 8;
          shifts = field_shift bitPos numOfBits;
          mask = uint32_tOnes numOfBits;
          word = field_word buf byteIndex (bitPos + numOfBits)
      in drop_bit shifts word AND mask)"

definition getSetBits :: "u32 \<Rightarrow> u32" where
  "getSetBits v =
     (let x = v - (drop_bit 1 v AND 0x55555555);
          x = (x AND 0x33333333) + (drop_bit 2 x AND 0x33333333);
          x = (x + drop_bit 4 x) AND 0x0F0F0F0F;
          x = x + drop_bit 8 x;
          x = x + drop_bit 16 x
      in x AND 0x0000003F)"

section \<open>Integers in big-endian order\<close>

lemma byte_mask: "(0xFF :: 'a :: len word) = mask 8"
  by (simp add: mask_eq_exp_minus_1)

lemma bit_byte: "bit (ucast (w AND 0xFF) :: u8) n = (n < 8 \<and> bit (w :: 'a :: len word) n)"
  unfolding byte_mask by (auto simp: bit_simps dest: bit_imp_le_length)

lemma not_bit_u8: "8 \<le> n \<Longrightarrow> \<not> bit (b :: u8) n"
  by (auto dest: bit_imp_le_length)

lemma read16_bits: "bit (bigEndianToUint16_t (Some bs)) n =
   (if n < 8 then bit (bs ! 1) n else bit (bs ! 0) (n - 8))"
  by (auto simp: bigEndianToUint16_t_def bit_simps dest: bit_imp_le_length)

lemma read32_bits: "bit (bigEndianToUint32_t (Some bs)) n =
   (if n < 8 then bit (bs ! 3) n else if n < 16 then bit (bs ! 2) (n - 8)
    else if n < 24 then bit (bs ! 1) (n - 16) else bit (bs ! 0) (n - 24))"
  by (auto simp: bigEndianToUint32_t_def bit_simps dest: bit_imp_le_length)

lemma read64_bits: "bit (bigEndianToUint64_t (Some bs)) n =
   (if n < 8 then bit (bs ! 7) n else if n < 16 then bit (bs ! 6) (n - 8)
    else if n < 24 then bit (bs ! 5) (n - 16) else if n < 32 then bit (bs ! 4) (n - 24)
    else if n < 40 then bit (bs ! 3) (n - 32) else if n < 48 then bit (bs ! 2) (n - 40)
    else if n < 56 then bit (bs ! 1) (n - 48) else bit (bs ! 0) (n - 56))"
proof -
  consider "n < 8" | "8 \<le> n" "n < 16" | "16 \<le> n" "n < 24" | "24 \<le> n" "n < 32" | "32 \<le> n" "n < 40"
    | "40 \<le> n" "n < 48" | "48 \<le> n" "n < 56" | "56 \<le> n" "n < 64" | "64 \<le> n" by linarith
  then show ?thesis
    by cases (auto simp: bigEndianToUint64_t_def bit_or_iff bit_push_bit_iff bit_ucast_iff not_bit_u8)
qed

lemmas write_defs = uint16_tToBigEndian_def uint32_tToBigEndian_def uint64_tToBigEndian_def

lemma write_read16:
  "2 \<le> length bs \<Longrightarrow> bigEndianToUint16_t (uint16_tToBigEndian (Some bs) v) = v"
  by (rule bit_word_eqI)
    (auto simp: uint16_tToBigEndian_def read16_bits bit_byte bit_drop_bit_eq simp del: length_greater_0_conv)

lemma write_read32:
  "4 \<le> length bs \<Longrightarrow> bigEndianToUint32_t (uint32_tToBigEndian (Some bs) v) = v"
  by (rule bit_word_eqI)
    (auto simp: uint32_tToBigEndian_def read32_bits bit_byte bit_drop_bit_eq simp del: length_greater_0_conv)

lemma write_read64:
  "8 \<le> length bs \<Longrightarrow> bigEndianToUint64_t (uint64_tToBigEndian (Some bs) v) = v"
  by (rule bit_word_eqI)
    (auto simp: uint64_tToBigEndian_def read64_bits bit_byte bit_drop_bit_eq simp del: length_greater_0_conv)

lemma byte_of_read:
  "(\<And>n. n < 8 \<Longrightarrow> bit w (k + n) = bit b n) \<Longrightarrow> ucast (drop_bit k w AND 0xFF) = (b :: u8)"
  for w :: "'a :: len word"
  by (rule bit_word_eqI) (simp add: bit_byte bit_drop_bit_eq)

section \<open>Bytes in host order\<close>

lemma length_le_bytes [simp]: "length (le_bytes n w) = n"
  by (simp add: le_bytes_def)

lemma le_bytes_nth: "i < n \<Longrightarrow> le_bytes n w ! i = ucast (drop_bit (8 * i) w)"
  by (simp add: le_bytes_def)

lemma le_value_bits:
  "bit (le_value bs :: 'a :: len word) k =
     (k < LENGTH('a) \<and> k div 8 < length bs \<and> bit (bs ! (k div 8)) (k mod 8))"
proof (induction bs arbitrary: k)
  case Nil
  then show ?case by (simp add: le_value_def)
next
  case (Cons b bs)
  have e: "(le_value (b # bs) :: 'a word) = push_bit 8 (le_value bs) OR ucast b" by (simp add: le_value_def)
  show ?case
  proof (cases "k < 8")
    case True
    then show ?thesis by (auto simp: e bit_simps)
  next
    case False
    then have k: "k div 8 = Suc ((k - 8) div 8)" "k mod 8 = (k - 8) mod 8"
      by (auto simp: le_div_geq le_mod_geq)
    show ?thesis using False by (auto simp: e bit_simps Cons.IH k not_bit_u8)
  qed
qed

lemma le_bytes_value:
  assumes "length bs = n" "8 * n \<le> LENGTH('a :: len)"
  shows "le_bytes n (le_value bs :: 'a word) = bs"
proof (rule nth_equalityI)
  fix i assume "i < length (le_bytes n (le_value bs :: 'a word))"
  then have i: "i < n" by simp
  show "le_bytes n (le_value bs :: 'a word) ! i = bs ! i"
  proof (rule bit_word_eqI)
    fix k assume k: "k < LENGTH(8)"
    then have "8 * i + k < LENGTH('a)" "(8 * i + k) div 8 = i" "(8 * i + k) mod 8 = k"
      using i assms(2) by auto
    then show "bit (le_bytes n (le_value bs :: 'a word) ! i) k = bit (bs ! i) k"
      using i k assms(1) by (simp add: le_bytes_nth bit_ucast_iff bit_drop_bit_eq le_value_bits)
  qed
qed (simp add: assms)

lemma le_value_bytes:
  assumes "LENGTH('a :: len) = 8 * n"
  shows "le_value (le_bytes n w) = (w :: 'a word)"
proof (rule bit_word_eqI)
  fix k assume k: "k < LENGTH('a)"
  then have "k div 8 < n" using assms by auto
  moreover have "8 * (k div 8) + k mod 8 = k" by simp
  ultimately show "bit (le_value (le_bytes n w) :: 'a word) k = bit w k"
    using k by (simp add: le_value_bits le_bytes_nth bit_ucast_iff bit_drop_bit_eq)
qed

text \<open>Swapping the bytes pairwise from the ends reverses them.\<close>

lemma swap_rev:
  "length c = 2 \<Longrightarrow> swapChars 0 1 c = rev c"
  "length c = 4 \<Longrightarrow> swapChars 1 2 (swapChars 0 3 c) = rev c"
  "length c = 8 \<Longrightarrow> swapChars 3 4 (swapChars 2 5 (swapChars 1 6 (swapChars 0 7 c))) = rev c"
  by (auto simp: swapChars_def eval_nat_numeral length_Suc_conv)

lemma swap_eq:
  "swap16 be w = host_value be (rev (host_bytes be 2 w))"
  "swap32 be v = host_value be (rev (host_bytes be 4 v))"
  "swap64 be u = host_value be (rev (host_bytes be 8 u))"
  by (simp_all add: swap16_def swap32_def swap64_def host_bytes_def swap_rev del: One_nat_def)

lemma host2net_bytes:
  "host_bytes be 2 (int16ConvertHost2Net be w) = rev (le_bytes 2 w)"
  "host_bytes be 4 (int32ConvertHost2Net be v) = rev (le_bytes 4 v)"
  "host_bytes be 8 (int64ConvertHost2Net be u) = rev (le_bytes 8 u)"
  by (auto simp: int16ConvertHost2Net_def int32ConvertHost2Net_def int64ConvertHost2Net_def swap_eq
      host_bytes_def host_value_def le_bytes_value)

lemma ucast_byte: "ucast (w AND 0xFF) = (ucast w :: u8)" for w :: "'a :: len word"
  by (rule bit_word_eqI, unfold bit_byte) (simp add: bit_ucast_iff)

lemma write_bytes:
  "2 \<le> length bs \<Longrightarrow> uint16_tToBigEndian (Some bs) w = Some (rev (le_bytes 2 w) @ drop 2 bs)"
  "4 \<le> length bs \<Longrightarrow> uint32_tToBigEndian (Some bs) v = Some (rev (le_bytes 4 v) @ drop 4 bs)"
  "8 \<le> length bs \<Longrightarrow> uint64_tToBigEndian (Some bs) u = Some (rev (le_bytes 8 u) @ drop 8 bs)"
  by (auto simp: write_defs ucast_byte le_bytes_def upt_rec eval_nat_numeral Suc_le_length_iff)

lemma read_bytes:
  "2 \<le> length bs \<Longrightarrow> bigEndianToUint16_t (Some bs) = le_value (rev (take 2 bs))"
  "4 \<le> length bs \<Longrightarrow> bigEndianToUint32_t (Some bs) = le_value (rev (take 4 bs))"
  "8 \<le> length bs \<Longrightarrow> bigEndianToUint64_t (Some bs) = le_value (rev (take 8 bs))"
proof -
  show "2 \<le> length bs \<Longrightarrow> bigEndianToUint16_t (Some bs) = le_value (rev (take 2 bs))"
    using write_read16 [of bs "le_value (rev (take 2 bs))"] write_bytes(1) [of bs]
    by (simp add: le_bytes_value)
  show "4 \<le> length bs \<Longrightarrow> bigEndianToUint32_t (Some bs) = le_value (rev (take 4 bs))"
    using write_read32 [of bs "le_value (rev (take 4 bs))"] write_bytes(2) [of bs]
    by (simp add: le_bytes_value)
  show "8 \<le> length bs \<Longrightarrow> bigEndianToUint64_t (Some bs) = le_value (rev (take 8 bs))"
    using write_read64 [of bs "le_value (rev (take 8 bs))"] write_bytes(3) [of bs]
    by (simp add: le_bytes_value)
qed

section \<open>Bit fields\<close>

definition bit_at :: "u8 list \<Rightarrow> nat \<Rightarrow> bool" where
  "bit_at buf q = bit (buf ! (q div 8)) (7 - q mod 8)"

lemma getBit_bit_at: "getBitFromByteStream buf q = of_bool (bit_at buf q)"
  by (simp add: getBitFromByteStream_def bit_at_def Let_def bit_iff_odd_drop_bit and_one_eq
      one_and_eq mod2_eq_if uint_word_of_int odd_iff_mod_2_eq_one)

lemma bit_at_byte: "k < 8 \<Longrightarrow> bit_at buf (8 * i + k) = bit (buf ! i) (7 - k)"
  by (simp add: bit_at_def)

lemma setBit_bit_at:
  assumes "q div 8 < length buf"
  shows "bit_at (setBitInByteStream buf q v) q' = (if q' = q then v else bit_at buf q')"
proof (cases "q' div 8 = q div 8")
  case True
  then have e: "q' = q \<longleftrightarrow> q' mod 8 = q mod 8" by (metis div_mult_mod_eq)
  have "7 - q' mod 8 = 7 - q mod 8 \<longleftrightarrow> q' mod 8 = q mod 8"
    using mod_less_divisor [of 8 q] mod_less_divisor [of 8 q'] by linarith
  then show ?thesis using True assms e
    by (auto simp: setBitInByteStream_def bit_at_def Let_def bit_simps dest: bit_imp_le_length)
next
  case False
  then show ?thesis by (auto simp: setBitInByteStream_def bit_at_def Let_def)
qed

lemma ones_mask: "uint32_tOnes n = mask n"
  by (simp add: uint32_tOnes_def mask_eq_exp_minus_1 push_bit_of_1)

lemma field_shift_exact: "m + n \<le> 24 \<Longrightarrow> field_shift m n = 24 - (m + n)"
  by (simp add: field_shift_def nat_diff_distrib)

lemma field_word_bits:
  assumes "r < 24" "8 \<le> r \<longrightarrow> 8 < m" "16 \<le> r \<longrightarrow> 16 < m"
  shows "bit (field_word buf bi m) (23 - r) = bit_at buf (8 * bi + r)"
proof -
  consider "r < 8" | t where "r = 8 + t" "t < 8" | t where "r = 16 + t" "t < 8"
    using assms(1) by (metis add_diff_inverse_nat less_diff_conv2 linorder_not_le add.commute
        numeral_plus_numeral add_num_simps)
  then show ?thesis
  proof cases
    case 1
    then show ?thesis
      by (auto simp: field_word_def Let_def bit_at_byte bit_or_iff bit_push_bit_iff bit_ucast_iff not_bit_u8)
  next
    case 2
    then have b: "bit_at buf (8 * bi + r) = bit (buf ! (bi + 1)) (7 - t)"
      using bit_at_byte [of t buf "bi + 1"] by (simp add: ac_simps)
    show ?thesis unfolding b using 2 assms
      by (auto simp: field_word_def Let_def bit_or_iff bit_push_bit_iff bit_ucast_iff not_bit_u8)
  next
    case 3
    then have b: "bit_at buf (8 * bi + r) = bit (buf ! (bi + 2)) (7 - t)"
      using bit_at_byte [of t buf "bi + 2"] by (simp add: ac_simps)
    show ?thesis unfolding b using 3 assms
      by (auto simp: field_word_def Let_def bit_or_iff bit_push_bit_iff bit_ucast_iff not_bit_u8)
  qed
qed

text \<open>The word with the field replaced.\<close>

definition field_set :: "nat \<Rightarrow> nat \<Rightarrow> u32 \<Rightarrow> u32 \<Rightarrow> u32" where
  "field_set sh n v w = (w AND NOT (push_bit sh (mask n))) OR (push_bit sh (mask n) AND push_bit sh v)"

lemma field_set_bits:
  "j < 32 \<Longrightarrow> bit (field_set sh n v w) j = (if sh \<le> j \<and> j < sh + n then bit v (j - sh) else bit w j)"
  by (auto simp: field_set_def bit_simps)

lemma setBitField_eq:
  fixes buf :: "u8 list" and v :: u32
  assumes "p mod 8 + n \<le> 24"
  defines "m \<equiv> p mod 8 + n" and "bi \<equiv> p div 8"
  defines "w \<equiv> field_set (24 - m) n v (field_word buf bi m)"
  shows "setBitField buf p n v =
    (let buf1 = buf[bi := ucast (drop_bit 16 w AND 0xff)];
         buf2 = (if m > 8 then buf1[bi + 1 := ucast (drop_bit 8 w AND 0xff)] else buf1)
     in if m > 16 then buf2[bi + 2 := ucast (w AND 0xff)] else buf2)"
  using assms(1)
  by (simp add: setBitField_def field_shift_exact ones_mask field_set_def w_def m_def bi_def Let_def)

lemma setBitField_byte:
  fixes buf :: "u8 list" and v :: u32
  assumes "p mod 8 + n \<le> 24" "p div 8 < length buf" "p + n \<le> 8 * length buf" "i < length buf"
  defines "m \<equiv> p mod 8 + n" and "bi \<equiv> p div 8"
  defines "w \<equiv> field_set (24 - m) n v (field_word buf bi m)"
  shows "setBitField buf p n v ! i =
    (if i = bi then ucast (drop_bit 16 w AND 0xff)
     else if i = bi + 1 \<and> m > 8 then ucast (drop_bit 8 w AND 0xff)
     else if i = bi + 2 \<and> m > 16 then ucast (w AND 0xff) else buf ! i)"
  using assms(4) unfolding setBitField_eq [OF assms(1), folded m_def bi_def, folded w_def]
  by (auto simp: Let_def nth_list_update' w_def)

lemma setBitField_bit_at:
  assumes "p mod 8 + n \<le> 24" "p div 8 < length buf" "p + n \<le> 8 * length buf" "q < 8 * length buf"
  shows "bit_at (setBitField buf p n v) q =
    (if p \<le> q \<and> q < p + n then bit v (p + n - 1 - q) else bit_at buf q)"
proof -
  define m bi where "m = p mod 8 + n" and "bi = p div 8"
  define w where "w = field_set (24 - m) n v (field_word buf bi m)"
  define t k where "t = q div 8" and "k = q mod 8"
  have q: "q = 8 * t + k" "k < 8" "t < length buf" using assms(4) by (auto simp: t_def k_def)
  have qb: "bit_at b q = bit (b ! t) (7 - k)" for b by (simp add: bit_at_def t_def k_def)
  have p: "p = 8 * bi + p mod 8" "p mod 8 < 8" by (simp_all add: bi_def)
  note byte = setBitField_byte [OF assms(1-3) q(3), where v = v, folded m_def bi_def, folded w_def]
  have m: "m \<le> 24" using assms(1) by (simp add: m_def)
  have word: "bit w (23 - r) = (if p \<le> 8 * bi + r \<and> 8 * bi + r < p + n then bit v (p + n - 1 - (8 * bi + r))
      else bit_at buf (8 * bi + r))"
    if r: "r < 24" "8 \<le> r \<longrightarrow> 8 < m" "16 \<le> r \<longrightarrow> 16 < m" for r
  proof -
    have "24 - m \<le> 23 - r \<and> 23 - r < 24 - m + n \<longleftrightarrow> p \<le> 8 * bi + r \<and> 8 * bi + r < p + n"
      using r(1) m p(1) unfolding m_def by linarith
    moreover have "23 - r - (24 - m) = p + n - 1 - (8 * bi + r)" if "8 * bi + r < p + n"
      using r(1) m p(1) that unfolding m_def by linarith
    ultimately show ?thesis
      using field_set_bits [of "23 - r" "24 - m" n v] field_word_bits [OF r, of buf bi] by (auto simp: w_def)
  qed
  consider (b0) "t = bi" | (b1) "t = bi + 1" "m > 8" | (b2) "t = bi + 2" "m > 16"
    | (out) "t < bi \<or> t = bi + 1 \<and> m \<le> 8 \<or> t = bi + 2 \<and> m \<le> 16 \<or> t > bi + 2" by linarith
  then show ?thesis
  proof cases
    case b0
    then have "bit_at (setBitField buf p n v) q = bit w (23 - k)"
      using byte q(2) by (auto simp: qb bit_byte bit_drop_bit_eq)
    then show ?thesis using word [of k] q b0 by simp
  next
    case b1
    then have "bit_at (setBitField buf p n v) q = bit w (23 - (8 + k))"
      using byte q(2) by (auto simp: qb bit_byte bit_drop_bit_eq)
    moreover have "8 * bi + (8 + k) = q" using b1 q by simp
    ultimately show ?thesis using word [of "8 + k"] q(2) b1 by (simp only:) simp
  next
    case b2
    then have "bit_at (setBitField buf p n v) q = bit w (23 - (16 + k))"
      using byte q(2) by (auto simp: qb bit_byte)
    moreover have "8 * bi + (16 + k) = q" using b2 q by simp
    ultimately show ?thesis using word [of "16 + k"] q(2) b2 by (simp only:) simp
  next
    case out
    then have "setBitField buf p n v ! t = buf ! t" using byte by auto
    then have "bit_at (setBitField buf p n v) q = bit_at buf q" by (simp add: qb)
    moreover have "\<not> (p \<le> q \<and> q < p + n)" using out p q m unfolding m_def by linarith
    ultimately show ?thesis by auto
  qed
qed

lemma getBitField_bits:
  assumes "p mod 8 + n \<le> 24"
  shows "bit (getBitField buf p n) k = (k < n \<and> bit_at buf (p + n - 1 - k))"
proof (cases "k < n")
  case True
  define m bi where "m = p mod 8 + n" and "bi = p div 8"
  define r where "r = m - 1 - k"
  have p: "p = 8 * bi + p mod 8" by (simp add: bi_def)
  have r: "r < 24" "8 \<le> r \<longrightarrow> 8 < m" "16 \<le> r \<longrightarrow> 16 < m" "24 - m + k = 23 - r" "8 * bi + r = p + n - 1 - k"
    using True assms p unfolding r_def m_def by linarith+
  have "bit (getBitField buf p n) k = bit (field_word buf bi m) (24 - m + k)"
    using True assms
    by (simp add: getBitField_def field_shift_exact ones_mask Let_def m_def bi_def bit_simps)
  then show ?thesis using field_word_bits [OF r(1-3)] True r(4,5) by simp
next
  case False
  then show ?thesis using assms
    by (simp add: getBitField_def field_shift_exact ones_mask Let_def bit_simps)
qed

lemma length_setBitField: "p mod 8 + n \<le> 24 \<Longrightarrow> length (setBitField buf p n v) = length buf"
  by (simp add: setBitField_eq Let_def)

section \<open>Serializers\<close>

text \<open>The overloaded \<open>serialize\<close> and \<open>deserialize\<close>: both return the number of bytes.\<close>

definition serialize_bool :: "bool \<Rightarrow> u8 list \<Rightarrow> nat \<times> u8 list" where
  "serialize_bool b buffer = (1, buffer[0 := (if b then 1 else 0)])"

definition serialize_u8 :: "u8 \<Rightarrow> u8 list \<Rightarrow> nat \<times> u8 list" where
  "serialize_u8 i buffer = (1, buffer[0 := i])"

definition serialize_u16 :: "u16 \<Rightarrow> u8 list \<Rightarrow> nat \<times> u8 list" where
  "serialize_u16 i buffer = (2, the (uint16_tToBigEndian (Some buffer) i))"

definition serialize_u32 :: "u32 \<Rightarrow> u8 list \<Rightarrow> nat \<times> u8 list" where
  "serialize_u32 i buffer = (4, the (uint32_tToBigEndian (Some buffer) i))"

definition serialize_u64 :: "u64 \<Rightarrow> u8 list \<Rightarrow> nat \<times> u8 list" where
  "serialize_u64 i buffer = (8, the (uint64_tToBigEndian (Some buffer) i))"

definition deserialize_bool :: "u8 list \<Rightarrow> nat \<times> bool" where
  "deserialize_bool buffer = (1, buffer ! 0 \<noteq> 0)"

definition deserialize_u8 :: "u8 list \<Rightarrow> nat \<times> u8" where
  "deserialize_u8 buffer = (1, buffer ! 0)"

definition deserialize_u16 :: "u8 list \<Rightarrow> nat \<times> u16" where
  "deserialize_u16 buffer = (2, bigEndianToUint16_t (Some buffer))"

definition deserialize_u32 :: "u8 list \<Rightarrow> nat \<times> u32" where
  "deserialize_u32 buffer = (4, bigEndianToUint32_t (Some buffer))"

definition deserialize_u64 :: "u8 list \<Rightarrow> nat \<times> u64" where
  "deserialize_u64 buffer = (8, bigEndianToUint64_t (Some buffer))"

text \<open>An array: element after element, each at the offset the previous ones left.\<close>

definition serialize_array :: "('a \<Rightarrow> u8 list \<Rightarrow> nat \<times> u8 list) \<Rightarrow> 'a list \<Rightarrow> u8 list \<Rightarrow> nat \<times> u8 list" where
  "serialize_array ser arr buffer =
     fold (\<lambda>x (size, buf). let (n, tail) = ser x (drop size buf) in (size + n, take size buf @ tail))
       arr (0, buffer)"

definition deserialize_array :: "(u8 list \<Rightarrow> nat \<times> 'a) \<Rightarrow> nat \<Rightarrow> u8 list \<Rightarrow> nat \<times> 'a list" where
  "deserialize_array des n buffer =
     fold (\<lambda>_ (size, xs). let (m, x) = des (drop size buffer) in (size + m, xs @ [x])) [0..<n] (0, [])"

locale serializer =
  fixes ser :: "'a \<Rightarrow> u8 list \<Rightarrow> nat \<times> u8 list" and des :: "u8 list \<Rightarrow> nat \<times> 'a"
    and enc :: "'a \<Rightarrow> u8 list" and width :: nat
  assumes enc_length: "length (enc x) = width"
    and ser_enc: "width \<le> length buf \<Longrightarrow> ser x buf = (width, enc x @ drop width buf)"
    and des_enc: "des (enc x @ rest) = (width, x)"
begin

lemma array_ser:
  "length arr * width \<le> length buf \<Longrightarrow>
   serialize_array ser arr buf = (length arr * width, concat (map enc arr) @ drop (length arr * width) buf)"
proof (induction arr rule: rev_induct)
  case (snoc x arr)
  let ?n = "length arr * width"
  have len: "length (concat (map enc arr)) = ?n" by (induction arr) (simp_all add: enc_length)
  have n: "?n + width \<le> length buf" using snoc.prems by simp
  have "serialize_array ser arr buf = (?n, concat (map enc arr) @ drop ?n buf)"
    using snoc n by (simp add: algebra_simps)
  moreover have "ser x (drop ?n buf) = (width, enc x @ drop (?n + width) buf)"
    using ser_enc [of "drop ?n buf" x] n by (simp add: add.commute)
  ultimately show ?case using len by (simp add: serialize_array_def algebra_simps)
qed (simp add: serialize_array_def)

lemma array_des:
  "deserialize_array des (length arr) (concat (map enc arr) @ rest) = (length arr * width, arr)"
proof (induction arr arbitrary: rest rule: rev_induct)
  case (snoc x arr)
  have len: "length (concat (map enc arr)) = length arr * width" by (induction arr) (simp_all add: enc_length)
  have "des (drop (length arr * width) (concat (map enc arr) @ enc x @ rest)) = (width, x)"
    using len by (simp add: des_enc)
  then show ?case using snoc [of "enc x @ rest"] by (simp add: deserialize_array_def algebra_simps)
qed (simp add: deserialize_array_def)

lemma array_roundtrip:
  assumes "length arr * width \<le> length buf"
  shows "case serialize_array ser arr buf of (n, out) \<Rightarrow> n = length arr * width \<and>
    length out = length buf \<and> drop n out = drop n buf \<and> deserialize_array des (length arr) out = (n, arr)"
proof -
  have "length (concat (map enc arr)) = length arr * width" by (induction arr) (simp_all add: enc_length)
  then show ?thesis using assms by (simp add: array_ser array_des)
qed

end

interpretation ser_bool: serializer serialize_bool deserialize_bool "\<lambda>b. [if b then 1 else 0]" 1
  by unfold_locales (auto simp: serialize_bool_def deserialize_bool_def Suc_le_length_iff)

interpretation ser_u8: serializer serialize_u8 deserialize_u8 "\<lambda>i. [i]" 1
  by unfold_locales (auto simp: serialize_u8_def deserialize_u8_def Suc_le_length_iff)

interpretation ser_u16: serializer serialize_u16 deserialize_u16 "\<lambda>i. rev (le_bytes 2 i)" 2
  by unfold_locales
    (simp_all add: serialize_u16_def deserialize_u16_def write_bytes read_bytes le_value_bytes)

interpretation ser_u32: serializer serialize_u32 deserialize_u32 "\<lambda>i. rev (le_bytes 4 i)" 4
  by unfold_locales
    (simp_all add: serialize_u32_def deserialize_u32_def write_bytes read_bytes le_value_bytes)

interpretation ser_u64: serializer serialize_u64 deserialize_u64 "\<lambda>i. rev (le_bytes 8 i)" 8
  by unfold_locales
    (simp_all add: serialize_u64_def deserialize_u64_def write_bytes read_bytes le_value_bytes)

section \<open>Properties\<close>

text \<open>
  Integers survive the big-endian stream: reading what was written gives the value, the bytes
  are the value's own bytes with the most significant first, and no byte beyond them changes; the
  signed variants give the same number for every value of their range. The conversion to network
  order puts exactly these bytes into memory, on hosts of either byte order.
\<close>

lemma big_endian_roundtrip:
  assumes "8 \<le> length bs" "- (2 ^ 31) \<le> i" "i < 2 ^ 31"
  shows "bigEndianToUint16_t (uint16_tToBigEndian (Some bs) w) = w \<and>
    bigEndianToUint32_t (uint32_tToBigEndian (Some bs) v) = v \<and>
    bigEndianToUint64_t (uint64_tToBigEndian (Some bs) u) = u \<and>
    bigEndianToInt32_t (int32_tToBigEndian (Some bs) i) = i \<and>
    uint32_tToBigEndian (Some bs) v = Some (host_bytes be 4 (int32ConvertHost2Net be v) @ drop 4 bs) \<and>
    uint64_tToBigEndian (Some bs) u = Some (host_bytes be 8 (int64ConvertHost2Net be u) @ drop 8 bs)"
proof -
  have "sint (of_int i :: u32) = i" using assms(2,3) by (simp add: signed_of_int signed_take_bit_int_eq_self)
  then have "bigEndianToInt32_t (int32_tToBigEndian (Some bs) i) = i"
    using assms(1) by (simp add: bigEndianToInt32_t_def int32_tToBigEndian_def write_read32)
  then show ?thesis
    using assms(1) by (simp add: host2net_bytes write_bytes read_bytes le_value_bytes)
qed

lemma big_endian_roundtrip_witness:
  "bigEndianToInt32_t (int32_tToBigEndian (Some [0, 0, 0, 0, 0, 0, 0, 0]) (- 5)) = - 5"
  using big_endian_roundtrip [of "[0, 0, 0, 0, 0, 0, 0, 0]" "- 5"] by simp

text \<open>
  Bit fields in CCSDS numbering: reading a field after writing it gives the written value
  (truncated to the width of the field), every other field that does not overlap keeps its value,
  and so does every single bit outside the field; the length of the buffer does not change. This
  holds for all fields of up to 16 bits at any position, also across byte boundaries.
\<close>

lemma bit_field_roundtrip:
  assumes "n \<le> 16" "p div 8 < length buf" "p + n \<le> 8 * length buf"
    "n' \<le> 16" "p' + n' \<le> 8 * length buf" "p' + n' \<le> p \<or> p + n \<le> p'"
    "q < 8 * length buf" "q < p \<or> p + n \<le> q"
  shows "getBitField (setBitField buf p n v) p n = take_bit n v \<and>
    getBitField (setBitField buf p n v) p' n' = getBitField buf p' n' \<and>
    getBitFromByteStream (setBitField buf p n v) q = getBitFromByteStream buf q \<and>
    length (setBitField buf p n v) = length buf"
proof -
  have m: "p mod 8 + n \<le> 24" "p' mod 8 + n' \<le> 24"
    using assms(1,4) mod_less_divisor [of 8 p] mod_less_divisor [of 8 p'] by linarith+
  note at = setBitField_bit_at [OF m(1) assms(2,3)]
  have "getBitField (setBitField buf p n v) p n = take_bit n v"
  proof (rule bit_word_eqI)
    fix k
    show "bit (getBitField (setBitField buf p n v) p n) k = bit (take_bit n v) k"
      using at [of "p + n - 1 - k"] assms(3) by (cases "k < n") (auto simp: getBitField_bits [OF m(1)] bit_take_bit_iff)
  qed
  moreover have "getBitField (setBitField buf p n v) p' n' = getBitField buf p' n'"
  proof (rule bit_word_eqI)
    fix k
    show "bit (getBitField (setBitField buf p n v) p' n') k = bit (getBitField buf p' n') k"
      using at [of "p' + n' - 1 - k"] assms(5,6) by (cases "k < n'") (auto simp: getBitField_bits [OF m(2)])
  qed
  moreover have "bit_at (setBitField buf p n v) q = bit_at buf q" using at [OF assms(7)] assms(8) by auto
  ultimately show ?thesis by (simp add: length_setBitField [OF m(1)] getBit_bit_at)
qed

lemma bit_field_roundtrip_witness:
  "getBitField (setBitField [0xAA, 0xBB, 0xCC] 6 11 0x5A5) 6 11 = 0x5A5 \<and>
   getBitField (setBitField [0xAA, 0xBB, 0xCC] 6 11 0x5A5) 0 6 = getBitField [0xAA, 0xBB, 0xCC] 0 6"
  using bit_field_roundtrip [of 11 6 "[0xAA, 0xBB, 0xCC]" 6 0 0 "0x5A5"] by (simp add: take_bit_eq_mod)

text \<open>
  Serialized arrays are read again as they were written: for arrays of bytes, booleans and of
  16, 32 and 64 bit integers, the number of bytes is the number of elements times their width, the
  buffer behind them is not touched, and deserializing gives the array and the same size.
\<close>

lemma serialize_array_roundtrip:
  assumes "length ws * 2 \<le> length buf" "length vs * 4 \<le> length buf" "length us * 8 \<le> length buf"
    "length bs \<le> length buf"
  shows "(case serialize_array serialize_u16 ws buf of (n, out) \<Rightarrow> n = length ws * 2 \<and>
      drop n out = drop n buf \<and> deserialize_array deserialize_u16 (length ws) out = (n, ws)) \<and>
    (case serialize_array serialize_u32 vs buf of (n, out) \<Rightarrow> n = length vs * 4 \<and>
      drop n out = drop n buf \<and> deserialize_array deserialize_u32 (length vs) out = (n, vs)) \<and>
    (case serialize_array serialize_u64 us buf of (n, out) \<Rightarrow> n = length us * 8 \<and>
      drop n out = drop n buf \<and> deserialize_array deserialize_u64 (length us) out = (n, us)) \<and>
    (case serialize_array serialize_bool bs buf of (n, out) \<Rightarrow> n = length bs \<and>
      drop n out = drop n buf \<and> deserialize_array deserialize_bool (length bs) out = (n, bs))"
  using ser_u16.array_roundtrip [OF assms(1)] ser_u32.array_roundtrip [OF assms(2)]
    ser_u64.array_roundtrip [OF assms(3)] ser_bool.array_roundtrip [of bs buf] assms(4)
  by (auto split: prod.splits)

lemma serialize_array_roundtrip_witness:
  "deserialize_array deserialize_u16 2 (snd (serialize_array serialize_u16 [0x1234, 7] [0, 0, 0, 0, 9])) =
     (4, [0x1234, 7])"
  using serialize_array_roundtrip [of "[0x1234, 7]" "[0, 0, 0, 0, 9]" "[]" "[]" "[]"]
  by (auto simp: numeral_2_eq_2 split: prod.splits)

end
