(* ===== verification/Misc_Funcs.thy ===== *)
theory Misc_Funcs
  imports Rodos_Prelude
begin

text \<open>
  Small functions of the kernel: the static allocator \<open>xmalloc\<close>
  (\<open>src/independent/misc-rodos-funcs.cpp\<close>), bitmaps and intervals (\<open>api/misc-rodos-funcs.h\<close>), and
  the register bit fields of \<open>api/bit_field.h\<close>. A pointer into \<open>xmallocBuf\<close> is its offset; \<open>size_t\<close>
  has 64 bits.
\<close>

unbundle bit_operations_syntax

section \<open>The static allocator\<close>

definition XMALLOC_SIZE :: u64 where "XMALLOC_SIZE = 2000000"

text \<open>The literal \<open>0x7u\<close> has 32 bits, so its complement is extended with zeros.\<close>

definition xmalloc :: "bool \<Rightarrow> u64 \<Rightarrow> u64 \<Rightarrow> u64 option \<times> u64" where
  "xmalloc schedulerRunning len0 index =
     (let len = (len0 + 7) AND ucast (NOT (0x7 :: u32))
      in if \<not> len \<le> XMALLOC_SIZE then (None, index)
         else if schedulerRunning then (None, index)
         else if \<not> index + len < XMALLOC_SIZE then (None, index)
         else (Some index, index + len))"

text \<open>\<open>None\<close> is the trap.\<close>

definition xmallocAndTrapOnFailure :: "bool \<Rightarrow> u64 \<Rightarrow> u64 \<Rightarrow> (u64 \<times> u64) option" where
  "xmallocAndTrapOnFailure running len index =
     (case xmalloc running len index of (None, i) \<Rightarrow> None | (Some p, i) \<Rightarrow> Some (p, i))"

text \<open>A sequence of requests: the blocks handed out, with the lengths asked for.\<close>

fun xmalloc_run :: "u64 list \<Rightarrow> u64 \<Rightarrow> (u64 \<times> u64) list" where
  "xmalloc_run [] index = []"
| "xmalloc_run (len # lens) index =
     (case xmalloc False len index of
        (None, index') \<Rightarrow> xmalloc_run lens index'
      | (Some p, index') \<Rightarrow> (p, len) # xmalloc_run lens index')"

section \<open>Bitmaps and intervals\<close>

definition getbit :: "u32 \<Rightarrow> nat \<Rightarrow> bool" where
  "getbit bitmap bitIndex = (drop_bit bitIndex bitmap AND 0x01 \<noteq> 0)"

definition setbit :: "u32 \<Rightarrow> bool \<Rightarrow> nat \<Rightarrow> u32" where
  "setbit bitmap val bitIndex =
     (if val then bitmap OR push_bit bitIndex 0x01 else bitmap AND NOT (push_bit bitIndex 0x01))"

definition inClosedInterval :: "int \<Rightarrow> int \<Rightarrow> int \<Rightarrow> bool" where
  "inClosedInterval a mn mx = (mn \<le> a \<and> a \<le> mx)"

definition inOpenInterval :: "int \<Rightarrow> int \<Rightarrow> int \<Rightarrow> bool" where
  "inOpenInterval a mn mx = (mn < a \<and> a < mx)"

definition areIntervalsDisjunt :: "int \<Rightarrow> int \<Rightarrow> int \<Rightarrow> int \<Rightarrow> bool" where
  "areIntervalsDisjunt minA maxA minB maxB = (maxA < minB \<or> maxB < minA)"

section \<open>Register bit fields\<close>

text \<open>A sub-value: its offset, its length and the value to store.\<close>

record 'w sub_value =
  sv_offset :: nat
  sv_length :: nat
  sv_value :: 'w

definition bitMask :: "nat \<Rightarrow> nat \<Rightarrow> 'a :: len word" where
  "bitMask offset len = ucast (push_bit offset (push_bit len 1 - 1 :: u64))"

definition shiftedValue :: "'a :: len word sub_value \<Rightarrow> 'a word" where
  "shiftedValue s = push_bit (sv_offset s) (sv_value s) AND bitMask (sv_offset s) (sv_length s)"

definition setBits :: "'a :: len word \<Rightarrow> 'a word \<Rightarrow> 'a word" where
  "setBits setMask cell = cell OR setMask"

definition clearBits :: "'a :: len word \<Rightarrow> 'a word \<Rightarrow> 'a word" where
  "clearBits clearMask cell = cell AND NOT clearMask"

definition readBits :: "'a :: len word \<Rightarrow> 'a word \<Rightarrow> 'a word" where
  "readBits readMask cell = cell AND readMask"

definition clearAndSetBits :: "'a :: len word \<Rightarrow> 'a word \<Rightarrow> 'a word \<Rightarrow> 'a word" where
  "clearAndSetBits clearMask setMask cell = (cell AND NOT clearMask) OR setMask"

definition bf_set :: "'a :: len word sub_value list \<Rightarrow> 'a word \<Rightarrow> 'a word" where
  "bf_set args cell =
     (let clearMask = fold (\<lambda>s m. m OR bitMask (sv_offset s) (sv_length s)) args 0;
          setMask = fold (\<lambda>s m. m OR shiftedValue s) args 0
      in clearAndSetBits clearMask setMask cell)"

definition bf_write :: "'a :: len word sub_value list \<Rightarrow> 'a word" where
  "bf_write args = fold (\<lambda>s m. m OR shiftedValue s) args 0"

definition bf_read :: "nat \<Rightarrow> nat \<Rightarrow> 'a :: len word \<Rightarrow> 'a word" where
  "bf_read offset len cell = drop_bit offset (cell AND bitMask offset len)"

section \<open>The allocator hands out disjoint blocks\<close>

lemma round_up:
  fixes len :: u64
  assumes "unat len < 2 ^ 32 - 8"
  defines "r \<equiv> (len + 7) AND ucast (NOT (0x7 :: u32))"
  shows "unat len \<le> unat r" "8 dvd unat r" "unat r \<le> unat len + 7"
proof -
  have e: "unat (len + 7) = unat len + 7" using assms(1) by (simp add: unat_word_ariths)
  have r: "r = push_bit 3 (drop_bit 3 (len + 7))"
  proof (rule bit_word_eqI)
    fix n assume n: "n < LENGTH(64)"
    have "bit (len + 7) n \<Longrightarrow> n < 32"
    proof (rule ccontr)
      assume b: "bit (len + 7) n" "\<not> n < 32"
      then have "odd (unat (len + 7) div 2 ^ n)" by (simp flip: bit_iff_odd add: bit_simps)
      then have "2 ^ n \<le> unat (len + 7)" by (cases "unat (len + 7) < 2 ^ n") auto
      moreover have "(2 :: nat) ^ 32 \<le> 2 ^ n" using b(2) by (intro power_increasing) auto
      ultimately show False using e assms(1) by simp
    qed
    moreover have m: "NOT (0x7 :: u32) = NOT (mask 3)" by (simp add: mask_eq_exp_minus_1)
    ultimately show "bit r n = bit (push_bit 3 (drop_bit 3 (len + 7))) n"
      using n unfolding r_def m by (auto simp: bit_simps)
  qed
  have "unat r = unat (len + 7) div 8 * 8"
  proof -
    have "unat ((len + 7) div 8) * 8 < 2 ^ 64" using assms(1) e by (simp add: unat_div)
    then show ?thesis unfolding r by (simp add: push_bit_eq_mult drop_bit_eq_div unat_word_ariths unat_div)
  qed
  then show "unat len \<le> unat r" "8 dvd unat r" "unat r \<le> unat len + 7"
    unfolding e by auto
qed

lemma xmalloc_ok:
  assumes "xmalloc False len index = (Some p, index')" "unat len < 2 ^ 32 - 8" "8 dvd unat index"
    "unat index < 2000000"
  shows "p = index \<and> 8 dvd unat index' \<and> unat p + unat len \<le> unat index' \<and> unat index' < 2000000"
proof -
  let ?r = "(len + 7) AND ucast (NOT (0x7 :: u32))"
  note r = round_up [OF assms(2)]
  have i: "p = index" "index' = index + ?r" "?r \<le> XMALLOC_SIZE" "index + ?r < XMALLOC_SIZE"
    using assms(1) by (auto simp: xmalloc_def Let_def split: if_splits)
  then have "unat ?r \<le> 2000000" by (simp add: XMALLOC_SIZE_def word_le_nat_alt)
  then have "unat index' = unat index + unat ?r" using assms(4) i(2) by (simp add: unat_word_ariths)
  then show ?thesis using i r assms(3) by (auto simp: XMALLOC_SIZE_def word_less_nat_alt)
qed

lemma xmalloc_fail: "xmalloc False len index = (None, index') \<Longrightarrow> index' = index"
  by (auto simp: xmalloc_def Let_def split: if_splits)

lemma xmalloc_run_blocks:
  assumes "\<forall>len \<in> set lens. unat len < 2 ^ 32 - 8" "8 dvd unat index" "unat index < 2000000"
  shows "(\<forall>(p, n) \<in> set (xmalloc_run lens index). 8 dvd unat p \<and> unat index \<le> unat p \<and>
      unat p + unat n < 2000000) \<and>
    sorted_wrt (\<lambda>(p, n) (q, m). unat p + unat n \<le> unat q) (xmalloc_run lens index)"
  using assms
proof (induction lens arbitrary: index)
  case (Cons len lens)
  obtain r index' where x: "xmalloc False len index = (r, index')" by (cases "xmalloc False len index")
  show ?case
  proof (cases r)
    case None
    then show ?thesis using Cons x xmalloc_fail [of len index index'] by simp
  next
    case (Some p)
    then have p: "p = index" "8 dvd unat index'" "unat p + unat len \<le> unat index'" "unat index' < 2000000"
      using xmalloc_ok [of len index p index'] x Cons.prems by auto
    have "(\<forall>(p, n) \<in> set (xmalloc_run lens index'). 8 dvd unat p \<and> unat index' \<le> unat p \<and>
        unat p + unat n < 2000000) \<and>
      sorted_wrt (\<lambda>(p, n) (q, m). unat p + unat n \<le> unat q) (xmalloc_run lens index')"
      using Cons p by simp
    then show ?thesis using x Some p Cons.prems(2) by (fastforce intro: order_trans)
  qed
qed simp

section \<open>Sub-values of a register\<close>

text \<open>The \<open>static_assert\<close> of \<open>SubValue\<close>, for registers of at most 64 bits.\<close>

definition sv_fits :: "'a :: len itself \<Rightarrow> nat \<Rightarrow> nat \<Rightarrow> bool" where
  "sv_fits T offset len \<longleftrightarrow> offset + len \<le> LENGTH('a) \<and> LENGTH('a) \<le> 64"

lemma bitMask_bits:
  assumes "sv_fits TYPE('a :: len) off len"
  shows "bit (bitMask off len :: 'a word) n = (off \<le> n \<and> n < off + len)"
proof -
  have "push_bit len 1 - 1 = (mask len :: u64)" by (simp add: mask_eq_exp_minus_1 push_bit_of_1)
  then show ?thesis using assms by (auto simp: bitMask_def sv_fits_def bit_simps)
qed

definition sv_in :: "'w sub_value \<Rightarrow> nat \<Rightarrow> bool" where
  "sv_in s n \<longleftrightarrow> sv_offset s \<le> n \<and> n < sv_offset s + sv_length s"

lemma shiftedValue_bits:
  assumes "sv_fits TYPE('a :: len) (sv_offset s) (sv_length s)"
  shows "bit (shiftedValue (s :: 'a word sub_value)) n = (sv_in s n \<and> bit (sv_value s) (n - sv_offset s))"
  using assms bitMask_bits [OF assms, of n]
  by (auto simp: shiftedValue_def bit_simps sv_in_def sv_fits_def)

lemma fold_or_bits:
  "bit (fold (\<lambda>s m. m OR f s) xs (w :: 'a :: len word)) n = (bit w n \<or> (\<exists>s \<in> set xs. bit (f s) n))"
  by (induction xs arbitrary: w) (auto simp: bit_or_iff)

lemma bf_set_bits:
  assumes "\<forall>s \<in> set args. sv_fits TYPE('a :: len) (sv_offset s) (sv_length s)"
  shows "bit (bf_set args (cell :: 'a word)) n =
    (if \<exists>s \<in> set args. sv_in s n then \<exists>s \<in> set args. sv_in s n \<and> bit (sv_value s) (n - sv_offset s)
     else bit cell n)"
proof (cases "n < LENGTH('a)")
  case True
  then show ?thesis using assms
    by (auto simp: bf_set_def clearAndSetBits_def bit_simps fold_or_bits shiftedValue_bits bitMask_bits sv_in_def)
next
  case False
  have "\<not> sv_in s n" if "s \<in> set args" for s
    using assms that False by (fastforce simp: sv_in_def sv_fits_def)
  moreover have "\<not> bit w n" for w :: "'a word" using False by (auto dest: bit_imp_le_length)
  ultimately show ?thesis by auto
qed

lemma bf_read_bits:
  assumes "sv_fits TYPE('a :: len) off len"
  shows "bit (bf_read off len (cell :: 'a word)) k = (k < len \<and> bit cell (off + k))"
  using bitMask_bits [OF assms, of "off + k"] by (auto simp: bf_read_def bit_simps)

section \<open>Properties\<close>

text \<open>
  The blocks that \<open>xmalloc\<close> hands out before the scheduler starts are aligned to 8 bytes, lie
  inside the buffer, are as long as requested and do not overlap, for any sequence of requests
  below 4 GiB; afterwards every request fails and changes nothing.
\<close>

lemma xmalloc_blocks_disjoint:
  assumes "\<forall>len \<in> set lens. unat len < 2 ^ 32 - 8"
  shows "(\<forall>i < length (xmalloc_run lens 0). 8 dvd unat (fst (xmalloc_run lens 0 ! i)) \<and>
      unat (fst (xmalloc_run lens 0 ! i)) + unat (snd (xmalloc_run lens 0 ! i)) < unat XMALLOC_SIZE) \<and>
    (\<forall>j < length (xmalloc_run lens 0). \<forall>i < j.
      unat (fst (xmalloc_run lens 0 ! i)) + unat (snd (xmalloc_run lens 0 ! i)) \<le>
        unat (fst (xmalloc_run lens 0 ! j))) \<and>
    xmalloc True len index = (None, index)"
proof -
  have z: "unat (0 :: u64) = 0" by simp
  note b = xmalloc_run_blocks [OF assms, of 0, unfolded z]
  have "\<forall>(p, n) \<in> set (xmalloc_run lens 0). 8 dvd unat p \<and> unat p + unat n < 2000000" using b by auto
  then have "\<forall>i < length (xmalloc_run lens 0). 8 dvd unat (fst (xmalloc_run lens 0 ! i)) \<and>
      unat (fst (xmalloc_run lens 0 ! i)) + unat (snd (xmalloc_run lens 0 ! i)) < 2000000"
    by (metis (no_types, lifting) case_prod_beta nth_mem)
  moreover have "unat XMALLOC_SIZE = 2000000" by (simp add: XMALLOC_SIZE_def)
  moreover have "xmalloc True len index = (None, index)" by (simp add: xmalloc_def Let_def)
  ultimately show ?thesis using b by (auto simp: sorted_wrt_iff_nth_less case_prod_beta)
qed

lemma xmalloc_blocks_disjoint_witness:
  "xmalloc_run [10, 3000000, 5] 0 = [(0, 10), (16, 5)] \<and>
   unat (fst (xmalloc_run [10, 3000000, 5] 0 ! 1)) + 5 < unat XMALLOC_SIZE"
proof -
  have r: "xmalloc_run [10, 3000000, 5] 0 = [(0, 10), (16, 5)]" by code_simp
  then show ?thesis
    using xmalloc_blocks_disjoint [of "[10, 3000000, 5]" 0 0] by (simp add: XMALLOC_SIZE_def)
qed

text \<open>
  The mask that rounds the length has 32 bits: with a 64-bit \<open>size_t\<close> a request of 4 GiB is
  rounded to 0 bytes, passes the check against the size of the buffer and succeeds without
  reserving anything.
\<close>

lemma xmalloc_truncates: "xmalloc False (2 ^ 32) 16 = (Some 16, 16)"
  by code_simp

text \<open>
  \<open>BitField::set\<close> changes exactly the sub-values it is given: reading one of them gives the
  stored value (truncated to its length) when the given sub-values do not overlap, and reading any
  sub-value that overlaps none of them gives what it gave before.
\<close>

lemma bit_field_set_read:
  fixes args :: "'a :: len word sub_value list"
  assumes "\<forall>s \<in> set args. sv_fits TYPE('a) (sv_offset s) (sv_length s)" "s \<in> set args"
    "\<forall>r \<in> set args. r \<noteq> s \<longrightarrow> (\<forall>n. \<not> (sv_in r n \<and> sv_in s n))"
    "sv_fits TYPE('a) off len" "\<forall>r \<in> set args. \<forall>n. sv_in r n \<longrightarrow> \<not> (off \<le> n \<and> n < off + len)"
  shows "bf_read (sv_offset s) (sv_length s) (bf_set args cell) = take_bit (sv_length s) (sv_value s) \<and>
    bf_read off len (bf_set args cell) = bf_read off len cell"
proof -
  have fs: "sv_fits TYPE('a) (sv_offset s) (sv_length s)" using assms(1,2) by auto
  have "bit (bf_set args cell) (sv_offset s + k) = bit (sv_value s) k" if "k < sv_length s" for k
  proof -
    have "sv_in s (sv_offset s + k)" using that by (simp add: sv_in_def)
    then show ?thesis using assms(2,3) by (auto simp: bf_set_bits [OF assms(1)])
  qed
  then have "bf_read (sv_offset s) (sv_length s) (bf_set args cell) = take_bit (sv_length s) (sv_value s)"
    by (intro bit_word_eqI) (auto simp: bf_read_bits [OF fs] bit_take_bit_iff)
  moreover have "bit (bf_set args cell) (off + k) = bit cell (off + k)" if "k < len" for k
  proof -
    have "\<not> sv_in r (off + k)" if "r \<in> set args" for r
      using bspec [OF assms(5) that] \<open>k < len\<close> by (auto dest: spec [where x = "off + k"])
    then show ?thesis by (auto simp: bf_set_bits [OF assms(1)])
  qed
  then have "bf_read off len (bf_set args cell) = bf_read off len cell"
    by (intro bit_word_eqI) (auto simp: bf_read_bits [OF assms(4)])
  ultimately show ?thesis ..
qed

lemma bit_field_set_read_witness:
  "bf_read 4 3 (bf_set [\<lparr>sv_offset = 4, sv_length = 3, sv_value = 13\<rparr>] (0xFF01 :: u16)) = 5 \<and>
   bf_read 8 8 (bf_set [\<lparr>sv_offset = 4, sv_length = 3, sv_value = 13\<rparr>] (0xFF01 :: u16)) = 0xFF"
proof -
  have "bf_read 8 8 (0xFF01 :: u16) = 0xFF" by code_simp
  moreover have "take_bit 3 (13 :: u16) = 5" by (simp add: take_bit_eq_mod)
  ultimately show ?thesis
    using bit_field_set_read [of "[\<lparr>sv_offset = 4, sv_length = 3, sv_value = 13\<rparr>]"
        "\<lparr>sv_offset = 4, sv_length = 3, sv_value = 13\<rparr>" 8 8 "0xFF01 :: u16"]
    by (simp add: sv_fits_def sv_in_def)
qed

end
