(* ===== verification/S3P.thy ===== *)
theory S3P
  imports Rodos_Prelude
begin

text \<open>
  The framing of messages in a byte stream (\<open>support/support-libs/s3p-code.h\<close>,
  \<open>s3p-synchronous-interface.h\<close>, \<open>s3p-asynchronous-interface.h\<close>). The up-calls to the UART are the
  bytes they put or get: a sender produces a list of bytes, a receiver consumes one. A receiver that
  would wait for more bytes than the list has is \<open>None\<close>.
\<close>

unbundle bit_operations_syntax

section \<open>Codes\<close>

definition S3P_BOM :: u16 where "S3P_BOM = 0xFE02"
definition S3P_EOM :: u16 where "S3P_EOM = 0xFE03"
definition S3P_STUFF :: u16 where "S3P_STUFF = 0xFE7E"
definition S3P_NODATA :: u16 where "S3P_NODATA = 0xFEAA"
definition S3P_COMMAND :: u16 where "S3P_COMMAND = 0xFE00"
definition S3P_MARK :: u16 where "S3P_MARK = 0x00FE"

definition s3p_isMark :: "u16 \<Rightarrow> bool" where "s3p_isMark c = (c AND 0x00ff = S3P_MARK)"
definition s3p_isCommand :: "u16 \<Rightarrow> bool" where "s3p_isCommand c = (c AND 0xff00 = S3P_COMMAND)"
definition s3p_hasMark :: "u16 \<Rightarrow> bool" where "s3p_hasMark c = (s3p_isCommand c \<or> s3p_isMark c)"
definition s3p_isDataByte :: "u16 \<Rightarrow> bool" where "s3p_isDataByte c = (c AND 0xff00 = 0)"
definition s3p_dataByte :: "u16 \<Rightarrow> u8" where "s3p_dataByte c = ucast (c AND 0x00ff)"
definition s3p_msb :: "u16 \<Rightarrow> u8" where "s3p_msb c = ucast (drop_bit 8 c)"
definition s3p_lsb :: "u16 \<Rightarrow> u8" where "s3p_lsb c = ucast (c AND 0xff)"
definition s3p_compose :: "u8 \<Rightarrow> u8 \<Rightarrow> u16" where
  "s3p_compose hi lo = push_bit 8 (ucast hi) OR ucast lo"

lemmas s3p_codes = S3P_BOM_def S3P_EOM_def S3P_STUFF_def S3P_NODATA_def S3P_COMMAND_def S3P_MARK_def

section \<open>The synchronous sender\<close>

definition s3p_putCommand :: "u16 \<Rightarrow> u8 list" where
  "s3p_putCommand c = (if c = S3P_NODATA then [] else [s3p_msb c, s3p_lsb c])"

definition s3p_putDataByte :: "u8 \<Rightarrow> u8 list" where
  "s3p_putDataByte c = (if ucast c = S3P_MARK then s3p_putCommand S3P_STUFF else [c])"

definition s3p_sendMsg :: "u8 list \<Rightarrow> u8 list" where
  "s3p_sendMsg s = s3p_putCommand S3P_BOM @ concat (map s3p_putDataByte s) @ s3p_putCommand S3P_EOM"

section \<open>The synchronous receiver\<close>

text \<open>\<open>got\<close> holds the bytes stored so far, \<open>None\<close> for \<open>len = -1\<close>; \<open>cmds\<close> the commands executed.
  The result has the message, the executed commands and the bytes not yet read.\<close>

definition s3p_store :: "nat \<Rightarrow> u8 \<Rightarrow> u8 list option \<Rightarrow> u8 list option" where
  "s3p_store maxLen c got =
     (case got of None \<Rightarrow> None | Some m \<Rightarrow> if length m < maxLen then Some (m @ [c]) else Some m)"

fun s3p_getMsg ::
  "nat \<Rightarrow> u8 list option \<Rightarrow> u16 list \<Rightarrow> u8 list \<Rightarrow> (u8 list \<times> u16 list \<times> u8 list) option" where
  "s3p_getMsg maxLen got cmds [] = None"
| "s3p_getMsg maxLen got cmds (c # cs) =
     (if ucast c \<noteq> S3P_MARK then s3p_getMsg maxLen (s3p_store maxLen c got) cmds cs
      else (case cs of
              [] \<Rightarrow> None
            | d # ds \<Rightarrow>
                (let dualByte = S3P_COMMAND OR ucast d
                 in if dualByte = S3P_BOM then s3p_getMsg maxLen (Some []) cmds ds
                    else if dualByte = S3P_EOM then
                      (case got of Some m \<Rightarrow> Some (m, cmds, ds) | None \<Rightarrow> s3p_getMsg maxLen got cmds ds)
                    else if dualByte = S3P_STUFF then
                      s3p_getMsg maxLen (s3p_store maxLen (ucast S3P_MARK) got) cmds ds
                    else s3p_getMsg maxLen got (cmds @ [dualByte]) ds)))"

section \<open>The asynchronous sender\<close>

text \<open>The bytes of the message still to be sent (\<open>None\<close>: no message), and the messages the
  application has waiting.\<close>

record s3p_sender =
  as_msg :: "u8 list option"
  as_queue :: "u8 list list"
  as_pending :: u16
  as_isPending :: bool

definition s3p_getDualByte :: "s3p_sender \<Rightarrow> u16 \<times> s3p_sender" where
  "s3p_getDualByte s =
     (case as_msg s of
        None \<Rightarrow> (case as_queue s of
                   [] \<Rightarrow> (S3P_NODATA, s)
                 | m # ms \<Rightarrow> (S3P_BOM, s\<lparr>as_msg := Some m, as_queue := ms\<rparr>))
      | Some [] \<Rightarrow> (S3P_EOM, s\<lparr>as_msg := None\<rparr>)
      | Some (b # bs) \<Rightarrow> (ucast b, s\<lparr>as_msg := Some bs\<rparr>))"

definition s3p_getByteOrNODATA :: "s3p_sender \<Rightarrow> u16 \<times> s3p_sender" where
  "s3p_getByteOrNODATA s =
     (if as_isPending s then (ucast (s3p_lsb (as_pending s)), s\<lparr>as_isPending := False\<rparr>)
      else (let (d, s1) = s3p_getDualByte s; s2 = s1\<lparr>as_pending := d\<rparr>
            in if d = S3P_NODATA then (S3P_NODATA, s2)
               else if s3p_isCommand d then (ucast (s3p_msb d), s2\<lparr>as_isPending := True\<rparr>)
               else if d = S3P_MARK
               then (ucast (s3p_msb S3P_STUFF), s2\<lparr>as_pending := S3P_STUFF, as_isPending := True\<rparr>)
               else (ucast (s3p_lsb d), s2)))"

text \<open>The UART asks \<open>n\<close> times for a byte.\<close>

fun s3p_uart_poll :: "nat \<Rightarrow> s3p_sender \<Rightarrow> u16 list \<times> s3p_sender" where
  "s3p_uart_poll 0 s = ([], s)"
| "s3p_uart_poll (Suc n) s =
     (let (b, s1) = s3p_getByteOrNODATA s; (bs, s2) = s3p_uart_poll n s1 in (b # bs, s2))"

section \<open>The asynchronous receiver\<close>

text \<open>\<open>maxlen\<close> is what the application answers when asked for a buffer, \<open>None\<close> if it has none.\<close>

record s3p_receiver =
  ar_len :: "u8 list option"   \<comment> \<open>the bytes stored, \<open>None\<close> for \<open>len = -1\<close>\<close>
  ar_msg :: bool               \<comment> \<open>there is a buffer\<close>
  ar_maxLen :: nat
  ar_dualByte :: u16
  ar_done :: "u8 list list"    \<comment> \<open>messages reported by \<open>endOfMessage\<close>\<close>
  ar_cmds :: "u16 list"

definition s3p_putByte :: "nat option \<Rightarrow> u8 \<Rightarrow> s3p_receiver \<Rightarrow> s3p_receiver" where
  "s3p_putByte maxlen inputByte r0 =
     (let r1 = (if \<not> ar_msg r0 then (case maxlen of None \<Rightarrow> r0 | Some n \<Rightarrow> r0\<lparr>ar_msg := True, ar_maxLen := n\<rparr>)
                else r0);
          d = push_bit 8 (ar_dualByte r1) OR ucast inputByte
      in if ucast inputByte = S3P_MARK then r1\<lparr>ar_dualByte := d\<rparr>
         else (let d' = (if s3p_msb d = 0 then 0 else d);
                   store = (\<lambda>b. if ar_msg r1 then r1\<lparr>ar_len := s3p_store (ar_maxLen r1) b (ar_len r1)\<rparr> else r1);
                   r2 = (if d' = 0 then store inputByte
                         else if d' = S3P_STUFF then store (ucast S3P_MARK)
                         else if d' = S3P_EOM then
                           (case ar_len r1 of
                              None \<Rightarrow> r1
                            | Some m \<Rightarrow> r1\<lparr>ar_done := ar_done r1 @ [m], ar_msg := False, ar_len := None\<rparr>)
                         else if d' = S3P_BOM then (if ar_msg r1 then r1\<lparr>ar_len := Some []\<rparr> else r1)
                         else r1\<lparr>ar_cmds := ar_cmds r1 @ [d']\<rparr>)
               in r2\<lparr>ar_dualByte := 0\<rparr>))"

definition s3p_receiver_init :: s3p_receiver where
  "s3p_receiver_init = \<lparr>ar_len = None, ar_msg = False, ar_maxLen = 1300, ar_dualByte = 0,
     ar_done = [], ar_cmds = []\<rparr>"

section \<open>Sending and receiving\<close>

lemma mark_iff: "(ucast c = S3P_MARK) = (c = 0xFE)" for c :: u8
proof
  assume "ucast c = S3P_MARK"
  then have "(ucast (ucast c :: u16) :: u8) = ucast S3P_MARK" by simp
  moreover have "(ucast (ucast c :: u16) :: u8) = c" by (rule bit_word_eqI) (simp add: bit_simps)
  ultimately show "c = 0xFE" by (simp add: S3P_MARK_def)
qed (simp add: S3P_MARK_def)

lemma putCommand_codes:
  "s3p_putCommand S3P_BOM = [0xFE, 0x02]" "s3p_putCommand S3P_EOM = [0xFE, 0x03]"
  "s3p_putCommand S3P_STUFF = [0xFE, 0x7E]"
  by (code_simp)+

lemma putDataByte_eq: "s3p_putDataByte c = (if c = 0xFE then [0xFE, 0x7E] else [c])"
  by (simp add: s3p_putDataByte_def mark_iff putCommand_codes)

lemma getMsg_steps:
  "c \<noteq> 0xFE \<Longrightarrow> s3p_getMsg n got cmds (c # cs) = s3p_getMsg n (s3p_store n c got) cmds cs"
  "s3p_getMsg n got cmds (0xFE # 0x02 # cs) = s3p_getMsg n (Some []) cmds cs"
  "s3p_getMsg n (Some m) cmds (0xFE # 0x03 # cs) = Some (m, cmds, cs)"
  "s3p_getMsg n got cmds (0xFE # 0x7E # cs) = s3p_getMsg n (s3p_store n 0xFE got) cmds cs"
  using mark_iff [of c] by (simp_all add: s3p_codes Let_def)

text \<open>Bytes outside a message are skipped; the body of a message is stored up to the limit.\<close>

lemma getMsg_junk:
  "\<forall>c \<in> set junk. c \<noteq> 0xFE \<Longrightarrow> s3p_getMsg n None cmds (junk @ cs) = s3p_getMsg n None cmds cs"
  by (induction junk) (auto simp: getMsg_steps s3p_store_def simp del: s3p_getMsg.simps)

lemma getMsg_body:
  "length m \<le> n \<Longrightarrow> s3p_getMsg n (Some m) cmds (concat (map s3p_putDataByte s) @ cs) =
     s3p_getMsg n (Some (take n (m @ s))) cmds cs"
proof (induction s arbitrary: m)
  case (Cons b s)
  have step: "s3p_getMsg n (Some m) cmds (s3p_putDataByte b @ xs) =
      s3p_getMsg n (Some (take n (m @ [b]))) cmds xs" for xs
    using Cons.prems by (auto simp: putDataByte_eq getMsg_steps s3p_store_def simp del: s3p_getMsg.simps)
  have "s3p_getMsg n (Some (take n (m @ [b]))) cmds (concat (map s3p_putDataByte s) @ cs) =
      s3p_getMsg n (Some (take n (take n (m @ [b]) @ s))) cmds cs"
    by (rule Cons.IH) simp
  moreover have "take n (take n (m @ [b]) @ s) = take n (m @ b # s)"
    using Cons.prems by (cases "length m = n") auto
  ultimately show ?case using step by simp
qed simp

lemma getMsg_message:
  "s3p_getMsg n got cmds (s3p_sendMsg s @ cs) = Some (take n s, cmds, cs)"
proof -
  have "s3p_getMsg n got cmds (s3p_sendMsg s @ cs) =
      s3p_getMsg n (Some []) cmds (concat (map s3p_putDataByte s) @ [0xFE, 0x03] @ cs)"
    by (simp add: s3p_sendMsg_def putCommand_codes getMsg_steps del: s3p_getMsg.simps)
  also have "\<dots> = s3p_getMsg n (Some (take n s)) cmds ([0xFE, 0x03] @ cs)"
    by (subst getMsg_body) (simp_all del: s3p_getMsg.simps)
  also have "\<dots> = Some (take n s, cmds, cs)" by (simp add: getMsg_steps del: s3p_getMsg.simps)
  finally show ?thesis .
qed

section \<open>The asynchronous receiver\<close>

lemma msb_byte: "s3p_msb (ucast b) = 0" for b :: u8
  by (rule bit_word_eqI) (auto simp: s3p_msb_def bit_simps dest: bit_imp_le_length)

text \<open>Between two messages, and inside a message whose bytes so far are \<open>m\<close>.\<close>

definition rcv_idle :: "nat \<Rightarrow> s3p_receiver \<Rightarrow> bool" where
  "rcv_idle n r \<longleftrightarrow> ar_len r = None \<and> ar_dualByte r = 0 \<and> (ar_msg r \<longrightarrow> ar_maxLen r = n)"

definition rcv_body :: "nat \<Rightarrow> u8 list \<Rightarrow> s3p_receiver \<Rightarrow> bool" where
  "rcv_body n m r \<longleftrightarrow> ar_len r = Some m \<and> ar_dualByte r = 0 \<and> ar_msg r \<and> ar_maxLen r = n"

lemma putByte_data:
  "b \<noteq> 0xFE \<Longrightarrow> ar_dualByte r = 0 \<Longrightarrow> ar_msg r \<Longrightarrow>
   s3p_putByte mx b r = r\<lparr>ar_len := s3p_store (ar_maxLen r) b (ar_len r)\<rparr>"
  using mark_iff [of b] by (cases r) (simp add: s3p_putByte_def msb_byte Let_def)

lemma putByte_pair:
  assumes "ar_dualByte r = 0" "ar_msg r"
  shows "s3p_putByte mx 0x7E (s3p_putByte mx 0xFE r) = r\<lparr>ar_len := s3p_store (ar_maxLen r) 0xFE (ar_len r)\<rparr>"
    and "ar_len r = Some m \<Longrightarrow> s3p_putByte mx 0x03 (s3p_putByte mx 0xFE r) =
      r\<lparr>ar_done := ar_done r @ [m], ar_msg := False, ar_len := None\<rparr>"
  using assms by (cases r; simp add: s3p_putByte_def s3p_codes s3p_msb_def Let_def push_bit_eq_mult drop_bit_eq_div)+

lemma putByte_begin:
  assumes "ar_dualByte r = 0"
  shows "s3p_putByte (Some n) 0x02 (s3p_putByte (Some n) 0xFE r) =
    r\<lparr>ar_msg := True, ar_maxLen := (if ar_msg r then ar_maxLen r else n), ar_len := Some []\<rparr>"
  using assms by (cases r; simp add: s3p_putByte_def s3p_codes s3p_msb_def Let_def push_bit_eq_mult drop_bit_eq_div)

lemma rcv_body_bytes:
  "rcv_body n m r \<Longrightarrow> length m \<le> n \<Longrightarrow>
   fold (s3p_putByte mx) (concat (map s3p_putDataByte s)) r = r\<lparr>ar_len := Some (take n (m @ s))\<rparr>"
proof (induction s arbitrary: m r)
  case Nil
  then show ?case by (cases r) (simp add: rcv_body_def)
next
  case (Cons b s)
  let ?r = "r\<lparr>ar_len := Some (take n (m @ [b]))\<rparr>"
  have step: "fold (s3p_putByte mx) (s3p_putDataByte b) r = ?r"
    using Cons.prems by (auto simp: putDataByte_eq putByte_data putByte_pair(1) rcv_body_def s3p_store_def)
  have "fold (s3p_putByte mx) (concat (map s3p_putDataByte s)) ?r =
      ?r\<lparr>ar_len := Some (take n (take n (m @ [b]) @ s))\<rparr>"
    using Cons.prems(1) by (intro Cons.IH) (simp_all add: rcv_body_def)
  moreover have "take n (take n (m @ [b]) @ s) = take n (m @ b # s)"
    using Cons.prems(2) by (cases "length m = n") auto
  ultimately show ?case using step by simp
qed

lemma rcv_message:
  assumes "rcv_idle n r"
  shows "let r' = fold (s3p_putByte (Some n)) (s3p_sendMsg s) r
    in rcv_idle n r' \<and> ar_done r' = ar_done r @ [take n s] \<and> ar_cmds r' = ar_cmds r"
proof -
  let ?r = "r\<lparr>ar_msg := True, ar_maxLen := n, ar_len := Some []\<rparr>"
  have b: "s3p_putByte (Some n) 0x02 (s3p_putByte (Some n) 0xFE r) = ?r"
    using putByte_begin [of r n] assms by (simp add: rcv_idle_def)
  have "fold (s3p_putByte (Some n)) (s3p_sendMsg s) r =
      fold (s3p_putByte (Some n)) [0xFE, 0x03] (fold (s3p_putByte (Some n)) (concat (map s3p_putDataByte s)) ?r)"
    by (simp add: s3p_sendMsg_def putCommand_codes b)
  also have "\<dots> = fold (s3p_putByte (Some n)) [0xFE, 0x03] (?r\<lparr>ar_len := Some (take n s)\<rparr>)"
    using rcv_body_bytes [of n "[]" ?r "Some n" s] assms by (simp add: rcv_body_def rcv_idle_def)
  also have "\<dots> = ?r\<lparr>ar_len := None, ar_done := ar_done r @ [take n s], ar_msg := False\<rparr>"
    using putByte_pair(2) [of "?r\<lparr>ar_len := Some (take n s)\<rparr>" "take n s"] assms
    by (cases r) (simp add: rcv_idle_def)
  finally show ?thesis using assms by (simp add: rcv_idle_def Let_def)
qed

lemma rcv_messages:
  "rcv_idle n r \<Longrightarrow>
   ar_done (fold (s3p_putByte (Some n)) (concat (map s3p_sendMsg ms)) r) = ar_done r @ map (take n) ms"
proof (induction ms arbitrary: r)
  case (Cons m ms)
  then show ?case using rcv_message [OF Cons.prems, of m] by (simp add: Let_def)
qed simp

section \<open>The asynchronous sender\<close>

lemma poll_append:
  "s3p_uart_poll (a + b) s =
     (let (xs, s1) = s3p_uart_poll a s; (ys, s2) = s3p_uart_poll b s1 in (xs @ ys, s2))"
  by (induction a arbitrary: s) (simp_all add: case_prod_beta Let_def)

lemma byte_not_command: "\<not> s3p_isCommand (ucast b)" "ucast b \<noteq> S3P_NODATA" for b :: u8
proof -
  have m: "(0xff00 :: u16) = push_bit 8 (mask 8)" by (simp add: push_bit_eq_mult mask_eq_exp_minus_1)
  have "(ucast b :: u16) AND 0xff00 = 0"
    unfolding m by (rule bit_word_eqI) (auto simp: bit_simps dest: bit_imp_le_length)
  moreover have "S3P_NODATA AND 0xff00 \<noteq> 0" by (simp add: s3p_codes)
  ultimately show "\<not> s3p_isCommand (ucast b)" "ucast b \<noteq> S3P_NODATA"
    by (auto simp: s3p_isCommand_def S3P_COMMAND_def)
qed

lemma lsb_byte: "ucast (s3p_lsb (ucast b)) = (ucast b :: u16)" for b :: u8
proof -
  have m: "(0xff :: u16) = mask 8" by (simp add: mask_eq_exp_minus_1)
  show ?thesis unfolding s3p_lsb_def m
    by (rule bit_word_eqI) (auto simp: bit_simps dest: bit_imp_le_length)
qed

lemma command_bytes:
  "s3p_isCommand S3P_BOM" "s3p_isCommand S3P_EOM" "S3P_BOM \<noteq> S3P_NODATA" "S3P_EOM \<noteq> S3P_NODATA"
  "ucast (s3p_msb S3P_BOM) = (0xFE :: u16)" "ucast (s3p_lsb S3P_BOM) = (0x02 :: u16)"
  "ucast (s3p_msb S3P_EOM) = (0xFE :: u16)" "ucast (s3p_lsb S3P_EOM) = (0x03 :: u16)"
  "ucast (s3p_msb S3P_STUFF) = (0xFE :: u16)" "ucast (s3p_lsb S3P_STUFF) = (0x7E :: u16)"
  by code_simp+

lemma poll_2: "s3p_uart_poll 2 s =
   (let (b, s1) = s3p_getByteOrNODATA s; (c, s2) = s3p_getByteOrNODATA s1 in ([b, c], s2))"
  by (simp add: numeral_2_eq_2 case_prod_beta Let_def)

text \<open>One data byte, the begin and the end of a message.\<close>

lemma poll_data:
  assumes "as_msg s = Some (b # bs)" "\<not> as_isPending s"
  shows "\<exists>p. s3p_uart_poll (length (s3p_putDataByte b)) s =
    (map ucast (s3p_putDataByte b), s\<lparr>as_msg := Some bs, as_pending := p\<rparr>)"
proof (cases "b = 0xFE")
  case True
  then have "s3p_uart_poll 2 s = ([0xFE, 0x7E], s\<lparr>as_msg := Some bs, as_pending := S3P_STUFF\<rparr>)"
    using assms byte_not_command [of b] mark_iff [of b]
    by (cases s) (simp add: poll_2 s3p_getByteOrNODATA_def s3p_getDualByte_def command_bytes Let_def)
  moreover have "length (s3p_putDataByte b) = 2" "map ucast (s3p_putDataByte b) = [0xFE, 0x7E :: u16]"
    using True by (simp_all add: putDataByte_eq)
  ultimately show ?thesis by metis
next
  case False
  then have "s3p_uart_poll 1 s = ([ucast b], s\<lparr>as_msg := Some bs, as_pending := ucast b\<rparr>)"
    using assms byte_not_command [of b] mark_iff [of b] lsb_byte [of b]
    by (cases s) (simp add: s3p_getByteOrNODATA_def s3p_getDualByte_def Let_def)
  moreover have "length (s3p_putDataByte b) = 1" "map ucast (s3p_putDataByte b) = [ucast b :: u16]"
    using False by (simp_all add: putDataByte_eq)
  ultimately show ?thesis by metis
qed

lemma poll_begin:
  assumes "as_msg s = None" "as_queue s = m # ms" "\<not> as_isPending s"
  shows "s3p_uart_poll 2 s = ([0xFE, 0x02], s\<lparr>as_msg := Some m, as_queue := ms, as_pending := S3P_BOM\<rparr>)"
  using assms
  by (cases s) (simp add: poll_2 s3p_getByteOrNODATA_def s3p_getDualByte_def command_bytes Let_def)

lemma poll_end:
  assumes "as_msg s = Some []" "\<not> as_isPending s"
  shows "s3p_uart_poll 2 s = ([0xFE, 0x03], s\<lparr>as_msg := None, as_pending := S3P_EOM\<rparr>)"
  using assms
  by (cases s) (simp add: poll_2 s3p_getByteOrNODATA_def s3p_getDualByte_def command_bytes Let_def)

lemma poll_body:
  "as_msg s = Some m \<Longrightarrow> \<not> as_isPending s \<Longrightarrow>
   \<exists>p. s3p_uart_poll (length (concat (map s3p_putDataByte m))) s =
     (map ucast (concat (map s3p_putDataByte m)), s\<lparr>as_msg := Some [], as_pending := p\<rparr>)"
proof (induction m arbitrary: s)
  case Nil
  then show ?case by (intro exI [of _ "as_pending s"], cases s) simp
next
  case (Cons b m)
  obtain p where p: "s3p_uart_poll (length (s3p_putDataByte b)) s =
      (map ucast (s3p_putDataByte b), s\<lparr>as_msg := Some m, as_pending := p\<rparr>)"
    using poll_data [OF Cons.prems] by blast
  obtain q where "s3p_uart_poll (length (concat (map s3p_putDataByte m))) (s\<lparr>as_msg := Some m, as_pending := p\<rparr>) =
      (map ucast (concat (map s3p_putDataByte m)), s\<lparr>as_msg := Some [], as_pending := q\<rparr>)"
    using Cons.IH [of "s\<lparr>as_msg := Some m, as_pending := p\<rparr>"] Cons.prems(2) by auto
  with p show ?case by (auto simp: poll_append)
qed

lemma poll_message:
  assumes "as_msg s = None" "as_queue s = m # ms" "\<not> as_isPending s"
  shows "\<exists>p. s3p_uart_poll (length (s3p_sendMsg m)) s =
    (map ucast (s3p_sendMsg m), s\<lparr>as_queue := ms, as_pending := p\<rparr>)"
proof -
  let ?s1 = "s\<lparr>as_msg := Some m, as_queue := ms, as_pending := S3P_BOM\<rparr>"
  let ?n = "length (concat (map s3p_putDataByte m))"
  obtain p where p: "s3p_uart_poll ?n ?s1 =
      (map ucast (concat (map s3p_putDataByte m)), ?s1\<lparr>as_msg := Some [], as_pending := p\<rparr>)"
    using poll_body [of ?s1 m] assms(3) by auto
  have e: "s3p_uart_poll 2 (?s1\<lparr>as_msg := Some [], as_pending := p\<rparr>) =
      ([0xFE, 0x03], s\<lparr>as_queue := ms, as_pending := S3P_EOM\<rparr>)"
    using poll_end [of "?s1\<lparr>as_msg := Some [], as_pending := p\<rparr>"] assms(1,3) by (cases s) simp
  have "length (s3p_sendMsg m) = 2 + (?n + 2)" by (simp add: s3p_sendMsg_def putCommand_codes)
  moreover have "map ucast (s3p_sendMsg m) =
      [0xFE, 0x02 :: u16] @ map ucast (concat (map s3p_putDataByte m)) @ [0xFE, 0x03]"
    by (simp add: s3p_sendMsg_def putCommand_codes)
  ultimately show ?thesis
    using poll_begin [OF assms] p e by (simp only: poll_append) (auto simp: Let_def simp del: s3p_uart_poll.simps)
qed

lemma poll_messages:
  "as_msg s = None \<Longrightarrow> as_queue s = ms \<Longrightarrow> \<not> as_isPending s \<Longrightarrow>
   fst (s3p_uart_poll (length (concat (map s3p_sendMsg ms))) s) = map ucast (concat (map s3p_sendMsg ms))"
proof (induction ms arbitrary: s)
  case (Cons m ms)
  obtain p where p: "s3p_uart_poll (length (s3p_sendMsg m)) s =
      (map ucast (s3p_sendMsg m), s\<lparr>as_queue := ms, as_pending := p\<rparr>)"
    using poll_message [OF Cons.prems] by blast
  have "fst (s3p_uart_poll (length (concat (map s3p_sendMsg ms))) (s\<lparr>as_queue := ms, as_pending := p\<rparr>)) =
      map ucast (concat (map s3p_sendMsg ms))"
    using Cons.prems by (intro Cons.IH) simp_all
  with p show ?case by (simp add: poll_append case_prod_beta Let_def)
qed simp

section \<open>Properties\<close>

text \<open>
  Framing is transparent: from a byte stream that contains arbitrary bytes without the mark,
  then a framed message, the receiver returns exactly the message (any bytes, the mark included),
  cut at the length of the buffer, executes no command and leaves the rest of the stream unread;
  a frame that was started before and not finished is discarded.
\<close>

lemma s3p_framing_transparent:
  assumes "\<forall>c \<in> set junk. c \<noteq> 0xFE"
  shows "s3p_getMsg maxLen None cmds (junk @ s3p_sendMsg s @ rest) = Some (take maxLen s, cmds, rest) \<and>
    s3p_getMsg maxLen None cmds (s3p_putCommand S3P_BOM @ junk @ s3p_sendMsg s @ rest) =
      Some (take maxLen s, cmds, rest)"
proof -
  have "s3p_getMsg maxLen (Some m) cmds (junk @ cs) = s3p_getMsg maxLen (Some (take maxLen (m @ junk))) cmds cs"
    if "length m \<le> maxLen" for m cs
  proof -
    have "concat (map s3p_putDataByte junk) = junk" using assms by (induction junk) (auto simp: putDataByte_eq)
    then show ?thesis using getMsg_body [OF that, of cmds junk cs] by simp
  qed
  from this [of "[]"] show ?thesis
    using assms by (simp add: getMsg_junk getMsg_message putCommand_codes getMsg_steps del: s3p_getMsg.simps)
qed

lemma s3p_framing_transparent_witness:
  "s3p_getMsg 10 None [] ([7, 9] @ s3p_sendMsg [1, 0xFE, 3] @ [5]) = Some ([1, 0xFE, 3], [], [5])"
  using s3p_framing_transparent [of "[7, 9]" 10 "[]" "[1, 0xFE, 3]" "[5]"] by simp

text \<open>
  C36. The asynchronous sender and receiver, driven byte by byte by the UART, carry any sequence of
  messages: the bytes requested from the sender are those of the synchronous encoder, and the
  receiver reports exactly these messages, in order, each cut at the length of its buffer.
\<close>

theorem s3p_async_delivers:
  assumes "as_msg s = None" "\<not> as_isPending s" "rcv_idle n r"
  shows "let bytes = fst (s3p_uart_poll (length (concat (map s3p_sendMsg (as_queue s)))) s)
    in bytes = map ucast (concat (map s3p_sendMsg (as_queue s))) \<and>
       ar_done (fold (s3p_putByte (Some n)) (map ucast bytes) r) = ar_done r @ map (take n) (as_queue s)"
proof -
  have u: "map (ucast \<circ> (ucast :: u8 \<Rightarrow> u16)) bs = bs" for bs :: "u8 list"
  proof (rule map_idI)
    show "(ucast \<circ> (ucast :: u8 \<Rightarrow> u16)) b = b" for b :: u8 by (simp, rule bit_word_eqI) (simp add: bit_simps)
  qed
  show ?thesis using poll_messages [OF assms(1) refl assms(2)] rcv_messages [OF assms(3)]
    by (simp add: Let_def u)
qed

theorem s3p_async_delivers_witness:
  "ar_done (fold (s3p_putByte (Some 5)) (map ucast (fst (s3p_uart_poll 13
     \<lparr>as_msg = None, as_queue = [[1, 0xFE], [2, 3]], as_pending = 0, as_isPending = False\<rparr>))) s3p_receiver_init) =
   [[1, 0xFE], [2, 3]]"
proof -
  have "length (concat (map s3p_sendMsg [[1, 0xFE], [2, 3]])) = 13" by code_simp
  moreover have "rcv_idle 5 s3p_receiver_init" "ar_done s3p_receiver_init = []"
    by (simp_all add: rcv_idle_def s3p_receiver_init_def)
  ultimately show ?thesis
    using s3p_async_delivers [of "\<lparr>as_msg = None, as_queue = [[1, 0xFE], [2, 3]], as_pending = 0,
      as_isPending = False\<rparr>" 5 s3p_receiver_init, unfolded Let_def, THEN conjunct2]
    by (simp del: s3p_uart_poll.simps)
qed

end
