(* ===== verification/Network_Message.thy ===== *)
theory Network_Message
  imports Byte_Stream Checksums
begin

text \<open>
  Messages between nodes (\<open>api/netmsginfo.h\<close>, \<open>api/gateway/networkmessage.h\<close>,
  \<open>src/independent/gateway/networkmessage.cpp\<close> and \<open>prepareNetworkMessage\<close> of
  \<open>gateway.cpp\<close>). A \<open>NetworkMessage\<close> is packed: 36 bytes of header and the buffer for the
  user data behind it. Every field of the header is written and read big-endian at its offset. An
  access behind the end of the object, which the code does not exclude, has the result \<open>None\<close>.
\<close>

section \<open>The code\<close>

definition MAX_NETWORK_MESSAGE_LENGTH :: nat where "MAX_NETWORK_MESSAGE_LENGTH = 1300"

definition HEADER_SIZE :: nat where "HEADER_SIZE = 36"

text \<open>The enumeration \<open>NetMsgType\<close> has the underlying type \<open>uint16_t\<close>; a received type may be any value of
  it.\<close>

datatype NetMsgType = PUB_SUB_MSG | TOPIC_LIST | P2P_RELIABLE | P2P_ACK | REQUEST | RESPONSE
  | other_type u16

definition msgtype_code :: "NetMsgType \<Rightarrow> u16" where
  "msgtype_code t = (case t of PUB_SUB_MSG \<Rightarrow> 0 | TOPIC_LIST \<Rightarrow> 1 | P2P_RELIABLE \<Rightarrow> 2 | P2P_ACK \<Rightarrow> 3
     | REQUEST \<Rightarrow> 4 | RESPONSE \<Rightarrow> 5 | other_type c \<Rightarrow> c)"

definition msgtype_of :: "u16 \<Rightarrow> NetMsgType" where
  "msgtype_of c = (if c = 0 then PUB_SUB_MSG else if c = 1 then TOPIC_LIST else if c = 2 then P2P_RELIABLE
     else if c = 3 then P2P_ACK else if c = 4 then REQUEST else if c = 5 then RESPONSE else other_type c)"

record NetMsgInfo =
  senderNode :: int
  senderThreadId :: u32
  sentTime :: int
  receiverNode :: int
  receiverNodesBitMap :: u32
  linkId :: u32
  messageType :: NetMsgType

text \<open>\<open>init\<close> reads the clock, the node number and the current thread; it does not write the field
  \<open>receiverNodesBitMap\<close>.\<close>

definition NetMsgInfo_init :: "int \<Rightarrow> int \<Rightarrow> u64 \<Rightarrow> NetMsgType \<Rightarrow> NetMsgInfo \<Rightarrow> NetMsgInfo" where
  "NetMsgInfo_init now nodeNr currentThread type i =
     i\<lparr>linkId := 0, sentTime := now, senderNode := nodeNr, senderThreadId := ucast currentThread,
       messageType := type, receiverNode := -1\<rparr>"

record NetworkMessage =
  header :: "u8 list"
  userDataC :: "u8 list"

text \<open>Reading and writing through the pointer \<open>header + off\<close>.\<close>

definition read_at :: "nat \<Rightarrow> (u8 list option \<Rightarrow> 'a) \<Rightarrow> NetworkMessage \<Rightarrow> 'a" where
  "read_at off f m = f (Some (drop off (header m)))"

definition write_at :: "nat \<Rightarrow> (u8 list option \<Rightarrow> u8 list option) \<Rightarrow> NetworkMessage \<Rightarrow> NetworkMessage" where
  "write_at off f m = m\<lparr>header := take off (header m) @ the (f (Some (drop off (header m))))\<rparr>"

definition put_receiverNode :: "int \<Rightarrow> NetworkMessage \<Rightarrow> NetworkMessage" where
  "put_receiverNode x = write_at 0 (\<lambda>b. int32_tToBigEndian b x)"
definition put_receiverNodesBitMap :: "u32 \<Rightarrow> NetworkMessage \<Rightarrow> NetworkMessage" where
  "put_receiverNodesBitMap x = write_at 4 (\<lambda>b. uint32_tToBigEndian b x)"
definition put_maxStepsToForward :: "int \<Rightarrow> NetworkMessage \<Rightarrow> NetworkMessage" where
  "put_maxStepsToForward x = write_at 8 (\<lambda>b. int16_tToBigEndian b x)"
definition put_checkSum :: "u16 \<Rightarrow> NetworkMessage \<Rightarrow> NetworkMessage" where
  "put_checkSum x = write_at 10 (\<lambda>b. uint16_tToBigEndian b x)"
definition put_type :: "u16 \<Rightarrow> NetworkMessage \<Rightarrow> NetworkMessage" where
  "put_type x = write_at 12 (\<lambda>b. uint16_tToBigEndian b x)"
definition put_len :: "u16 \<Rightarrow> NetworkMessage \<Rightarrow> NetworkMessage" where
  "put_len x = write_at 14 (\<lambda>b. uint16_tToBigEndian b x)"
definition put_senderNode :: "int \<Rightarrow> NetworkMessage \<Rightarrow> NetworkMessage" where
  "put_senderNode x = write_at 16 (\<lambda>b. int32_tToBigEndian b x)"
definition put_sentTime :: "int \<Rightarrow> NetworkMessage \<Rightarrow> NetworkMessage" where
  "put_sentTime x = write_at 20 (\<lambda>b. int64_tToBigEndian b x)"
definition put_senderThreadId :: "u32 \<Rightarrow> NetworkMessage \<Rightarrow> NetworkMessage" where
  "put_senderThreadId x = write_at 28 (\<lambda>b. uint32_tToBigEndian b x)"
definition put_topicId :: "u32 \<Rightarrow> NetworkMessage \<Rightarrow> NetworkMessage" where
  "put_topicId x = write_at 32 (\<lambda>b. uint32_tToBigEndian b x)"

definition get_receiverNode :: "NetworkMessage \<Rightarrow> int" where
  "get_receiverNode = read_at 0 bigEndianToInt32_t"
definition get_receiverNodesBitMap :: "NetworkMessage \<Rightarrow> u32" where
  "get_receiverNodesBitMap = read_at 4 bigEndianToUint32_t"
definition get_maxStepsToForward :: "NetworkMessage \<Rightarrow> int" where
  "get_maxStepsToForward = read_at 8 bigEndianToInt16_t"
definition get_checksum :: "NetworkMessage \<Rightarrow> u16" where
  "get_checksum = read_at 10 bigEndianToUint16_t"
definition get_type :: "NetworkMessage \<Rightarrow> u16" where
  "get_type = read_at 12 bigEndianToUint16_t"
definition get_len :: "NetworkMessage \<Rightarrow> u16" where
  "get_len = read_at 14 bigEndianToUint16_t"
definition get_senderNode :: "NetworkMessage \<Rightarrow> int" where
  "get_senderNode = read_at 16 bigEndianToInt32_t"
definition get_sentTime :: "NetworkMessage \<Rightarrow> int" where
  "get_sentTime = read_at 20 bigEndianToInt64_t"
definition get_senderThreadId :: "NetworkMessage \<Rightarrow> u32" where
  "get_senderThreadId = read_at 28 bigEndianToUint32_t"
definition get_topicId :: "NetworkMessage \<Rightarrow> u32" where
  "get_topicId = read_at 32 bigEndianToUint32_t"

definition dec_maxStepsToForward :: "NetworkMessage \<Rightarrow> NetworkMessage" where
  "dec_maxStepsToForward m = put_maxStepsToForward (sint (of_int (get_maxStepsToForward m - 1) :: u16)) m"

definition numberOfBytesToSend :: "NetworkMessage \<Rightarrow> u16" where
  "numberOfBytesToSend m = of_nat HEADER_SIZE + get_len m"

definition msg_bytes :: "NetworkMessage \<Rightarrow> u8 list" where
  "msg_bytes m = header m @ userDataC m"

text \<open>The copy constructor and the assignment: \<open>memcpy\<close> of the bytes to send, over what the
  target holds.\<close>

definition msg_of_bytes :: "u8 list \<Rightarrow> NetworkMessage" where
  "msg_of_bytes bs = \<lparr>header = take HEADER_SIZE bs, userDataC = drop HEADER_SIZE bs\<rparr>"

definition assign_msg :: "NetworkMessage \<Rightarrow> NetworkMessage \<Rightarrow> NetworkMessage option" where
  "assign_msg this oldMsg =
     (let n = unat (numberOfBytesToSend oldMsg)
      in if n \<le> length (msg_bytes oldMsg)
         then Some (msg_of_bytes (take n (msg_bytes oldMsg) @ drop n (msg_bytes this))) else None)"

definition calculateCheckSum :: "NetworkMessage \<Rightarrow> u16 option" where
  "calculateCheckSum m =
     (let n = HEADER_SIZE - 12 + unat (get_len m); rest = drop 12 (msg_bytes m)
      in if n \<le> length rest then Some (checkSum (take n rest)) else None)"

definition isCheckSumOk :: "NetworkMessage \<Rightarrow> bool option" where
  "isCheckSumOk m = map_option (\<lambda>c. c = get_checksum m) (calculateCheckSum m)"

definition setCheckSum :: "NetworkMessage \<Rightarrow> NetworkMessage option" where
  "setCheckSum m = map_option (\<lambda>c. put_checkSum c m) (calculateCheckSum m)"

definition setUserData :: "u8 list \<Rightarrow> u16 \<Rightarrow> NetworkMessage \<Rightarrow> u16 \<times> NetworkMessage" where
  "setUserData data len m =
     (let len = min len (of_nat MAX_NETWORK_MESSAGE_LENGTH)
      in (len, put_len len
           (m\<lparr>userDataC := take (unat len) data @ drop (unat len) (userDataC m)\<rparr>)))"

definition getUserData :: "u16 \<Rightarrow> NetworkMessage \<Rightarrow> u16 \<times> u8 list" where
  "getUserData maxLen m = (let maxLen = min maxLen (get_len m) in (maxLen, take (unat maxLen) (userDataC m)))"

text \<open>\<open>prepareNetworkMessage\<close> with the pointer \<open>data\<close> to at least \<open>len\<close> bytes.\<close>

definition prepareNetworkMessage ::
    "u32 \<Rightarrow> u8 list \<Rightarrow> nat \<Rightarrow> NetMsgInfo \<Rightarrow> NetworkMessage \<Rightarrow> NetworkMessage option" where
  "prepareNetworkMessage topicId data len netMsgInfo netMsg =
     (let m = put_receiverNode (receiverNode netMsgInfo) netMsg;
          m = put_receiverNodesBitMap (receiverNodesBitMap netMsgInfo) m;
          m = put_maxStepsToForward 10 m;
          m = put_senderNode (senderNode netMsgInfo) m;
          m = put_topicId topicId m;
          m = put_sentTime (sentTime netMsgInfo) m;
          m = put_type (msgtype_code (messageType netMsgInfo)) m;
          m = put_senderThreadId (senderThreadId netMsgInfo) m;
          len = (if len > 0xFFFF then 0xFFFF else len);
          (_, m) = setUserData data (of_nat len) m
      in setCheckSum m)"

section \<open>Fields of the header\<close>

definition wf_msg :: "NetworkMessage \<Rightarrow> bool" where
  "wf_msg m \<longleftrightarrow> length (header m) = HEADER_SIZE \<and> length (userDataC m) = MAX_NETWORK_MESSAGE_LENGTH"

text \<open>The bytes of a field, and the bytes after writing one.\<close>

definition bytes_at :: "nat \<Rightarrow> nat \<Rightarrow> 'a list \<Rightarrow> 'a list" where
  "bytes_at off w xs = take w (drop off xs)"

definition patch_at :: "nat \<Rightarrow> 'a list \<Rightarrow> 'a list \<Rightarrow> 'a list" where
  "patch_at off ys xs = take off xs @ ys @ drop (off + length ys) xs"

lemma length_patch [simp]: "off + length ys \<le> length xs \<Longrightarrow> length (patch_at off ys xs) = length xs"
  by (simp add: patch_at_def)

lemma bytes_patch_same: "off + length ys \<le> length xs \<Longrightarrow> w = length ys \<Longrightarrow> bytes_at off w (patch_at off ys xs) = ys"
  by (simp add: bytes_at_def patch_at_def)

lemma bytes_patch_other:
  assumes "off' + length ys \<le> length xs" "off + w \<le> off' \<or> off' + length ys \<le> off"
  shows "bytes_at off w (patch_at off' ys xs) = bytes_at off w xs"
proof (rule nth_equalityI)
  fix i assume "i < length (bytes_at off w (patch_at off' ys xs))"
  then show "bytes_at off w (patch_at off' ys xs) ! i = bytes_at off w xs ! i"
    using assms by (auto simp: bytes_at_def patch_at_def nth_append)
qed (use assms in \<open>auto simp: bytes_at_def\<close>)

lemma drop_patch: "off' + length ys \<le> k \<Longrightarrow> k \<le> length xs \<Longrightarrow> drop k (patch_at off' ys xs) = drop k xs"
  by (simp add: patch_at_def)

text \<open>
  A field: its place in the header and the encoding of its values. Every field of the header is an
  instance; two of them that do not overlap are independent.
\<close>

locale header_field =
  fixes off w :: nat
    and getf :: "NetworkMessage \<Rightarrow> 'a"
    and putf :: "'a \<Rightarrow> NetworkMessage \<Rightarrow> NetworkMessage"
    and enc :: "'a \<Rightarrow> u8 list" and dec :: "u8 list \<Rightarrow> 'a"
    and valid :: "'a \<Rightarrow> bool"
  assumes inside: "off + w \<le> HEADER_SIZE"
    and get_bytes: "wf_msg m \<Longrightarrow> getf m = dec (bytes_at off w (header m))"
    and put_patch: "wf_msg m \<Longrightarrow> putf x m = m\<lparr>header := patch_at off (enc x) (header m)\<rparr>"
    and enc_length: "length (enc x) = w"
    and dec_enc: "valid x \<Longrightarrow> dec (enc x) = x"
begin

lemma put_wf: "wf_msg m \<Longrightarrow> wf_msg (putf x m)"
  using inside by (simp add: put_patch wf_msg_def enc_length)

lemma put_data: "wf_msg m \<Longrightarrow> userDataC (putf x m) = userDataC m"
  by (simp add: put_patch)

lemma put_header: "wf_msg m \<Longrightarrow> header (putf x m) = patch_at off (enc x) (header m)"
  by (simp add: put_patch)

lemma get_put: "wf_msg m \<Longrightarrow> valid x \<Longrightarrow> getf (putf x m) = x"
  using inside by (simp add: get_bytes [OF put_wf] put_header bytes_patch_same enc_length dec_enc)
    (simp add: bytes_patch_same enc_length dec_enc wf_msg_def)

lemma put_bytes:
  "wf_msg m \<Longrightarrow> o' + w' \<le> off \<or> off + w \<le> o' \<Longrightarrow> bytes_at o' w' (header (putf x m)) = bytes_at o' w' (header m)"
  using inside by (simp add: put_header bytes_patch_other enc_length wf_msg_def)

lemma put_same: "wf_msg m \<Longrightarrow> bytes_at off w (header (putf x m)) = enc x"
  using inside by (simp add: put_header bytes_patch_same enc_length wf_msg_def)

lemma put_drop:
  "wf_msg m \<Longrightarrow> off + w \<le> k \<Longrightarrow> k \<le> HEADER_SIZE \<Longrightarrow> drop k (header (putf x m)) = drop k (header m)"
  using inside by (simp add: put_header drop_patch enc_length wf_msg_def)

end

definition enc16 :: "u16 \<Rightarrow> u8 list" where "enc16 x = rev (le_bytes 2 x)"
definition enc32 :: "u32 \<Rightarrow> u8 list" where "enc32 x = rev (le_bytes 4 x)"
definition enc64 :: "u64 \<Rightarrow> u8 list" where "enc64 x = rev (le_bytes 8 x)"
definition dec_word :: "u8 list \<Rightarrow> 'a :: len word" where "dec_word bs = le_value (rev bs)"

lemma enc_lengths: "length (enc16 x) = 2" "length (enc32 y) = 4" "length (enc64 z) = 8"
  by (simp_all add: enc16_def enc32_def enc64_def)

lemma dec_encs: "dec_word (enc16 x) = x" "dec_word (enc32 y) = y" "dec_word (enc64 z) = z"
  by (simp_all add: enc16_def enc32_def enc64_def dec_word_def le_value_bytes)

lemma read_at_word:
  assumes "wf_msg m"
  shows "off + 2 \<le> HEADER_SIZE \<Longrightarrow> read_at off bigEndianToUint16_t m = dec_word (bytes_at off 2 (header m))"
    "off + 4 \<le> HEADER_SIZE \<Longrightarrow> read_at off bigEndianToUint32_t m = dec_word (bytes_at off 4 (header m))"
    "off + 8 \<le> HEADER_SIZE \<Longrightarrow> read_at off bigEndianToUint64_t m = dec_word (bytes_at off 8 (header m))"
  using assms by (simp_all add: read_at_def bytes_at_def dec_word_def read_bytes wf_msg_def)

lemma write_at_word:
  assumes "wf_msg m"
  shows "off + 2 \<le> HEADER_SIZE \<Longrightarrow> write_at off (\<lambda>b. uint16_tToBigEndian b x) m =
      m\<lparr>header := patch_at off (enc16 x) (header m)\<rparr>"
    "off + 4 \<le> HEADER_SIZE \<Longrightarrow> write_at off (\<lambda>b. uint32_tToBigEndian b y) m =
      m\<lparr>header := patch_at off (enc32 y) (header m)\<rparr>"
    "off + 8 \<le> HEADER_SIZE \<Longrightarrow> write_at off (\<lambda>b. uint64_tToBigEndian b z) m =
      m\<lparr>header := patch_at off (enc64 z) (header m)\<rparr>"
  using assms
  by (simp_all add: write_at_def patch_at_def write_bytes wf_msg_def enc16_def enc32_def enc64_def add.commute)

lemma signed_read_at:
  "read_at off bigEndianToInt16_t m = sint (read_at off bigEndianToUint16_t m)"
  "read_at off bigEndianToInt32_t m = sint (read_at off bigEndianToUint32_t m)"
  "read_at off bigEndianToInt64_t m = sint (read_at off bigEndianToUint64_t m)"
  by (simp_all add: read_at_def bigEndianToInt16_t_def bigEndianToInt32_t_def bigEndianToInt64_t_def)

definition signed_range :: "nat \<Rightarrow> int \<Rightarrow> bool" where
  "signed_range n x \<longleftrightarrow> - (2 ^ (n - 1)) \<le> x \<and> x < 2 ^ (n - 1)"

lemma sint_of_int: "signed_range (LENGTH('a)) x \<Longrightarrow> sint (of_int x :: 'a :: len word) = x"
  by (simp add: signed_range_def sint_sbintrunc' signed_take_bit_int_eq_self)

lemmas field_facts = HEADER_SIZE_def read_at_word write_at_word enc_lengths dec_encs signed_read_at
  int16_tToBigEndian_def int32_tToBigEndian_def int64_tToBigEndian_def sint_of_int

interpretation fReceiver: header_field 0 4 get_receiverNode put_receiverNode "\<lambda>x. enc32 (of_int x)"
    "\<lambda>bs. sint (dec_word bs :: u32)" "signed_range 32"
  by unfold_locales (simp_all add: get_receiverNode_def put_receiverNode_def field_facts)

interpretation fBitMap: header_field 4 4 get_receiverNodesBitMap put_receiverNodesBitMap enc32 dec_word "\<lambda>_. True"
  by unfold_locales (simp_all add: get_receiverNodesBitMap_def put_receiverNodesBitMap_def field_facts)

interpretation fSteps: header_field 8 2 get_maxStepsToForward put_maxStepsToForward "\<lambda>x. enc16 (of_int x)"
    "\<lambda>bs. sint (dec_word bs :: u16)" "signed_range 16"
  by unfold_locales (simp_all add: get_maxStepsToForward_def put_maxStepsToForward_def field_facts)

interpretation fSum: header_field 10 2 get_checksum put_checkSum enc16 dec_word "\<lambda>_. True"
  by unfold_locales (simp_all add: get_checksum_def put_checkSum_def field_facts)

interpretation fType: header_field 12 2 get_type put_type enc16 dec_word "\<lambda>_. True"
  by unfold_locales (simp_all add: get_type_def put_type_def field_facts)

interpretation fLen: header_field 14 2 get_len put_len enc16 dec_word "\<lambda>_. True"
  by unfold_locales (simp_all add: get_len_def put_len_def field_facts)

interpretation fSender: header_field 16 4 get_senderNode put_senderNode "\<lambda>x. enc32 (of_int x)"
    "\<lambda>bs. sint (dec_word bs :: u32)" "signed_range 32"
  by unfold_locales (simp_all add: get_senderNode_def put_senderNode_def field_facts)

interpretation fTime: header_field 20 8 get_sentTime put_sentTime "\<lambda>x. enc64 (of_int x)"
    "\<lambda>bs. sint (dec_word bs :: u64)" "signed_range 64"
  by unfold_locales (simp_all add: get_sentTime_def put_sentTime_def field_facts)

interpretation fThread: header_field 28 4 get_senderThreadId put_senderThreadId enc32 dec_word "\<lambda>_. True"
  by unfold_locales (simp_all add: get_senderThreadId_def put_senderThreadId_def field_facts)

interpretation fTopic: header_field 32 4 get_topicId put_topicId enc32 dec_word "\<lambda>_. True"
  by unfold_locales (simp_all add: get_topicId_def put_topicId_def field_facts)

lemmas fields_wf = fReceiver.put_wf fBitMap.put_wf fSteps.put_wf fSum.put_wf fType.put_wf fLen.put_wf
  fSender.put_wf fTime.put_wf fThread.put_wf fTopic.put_wf

lemmas fields_data = fReceiver.put_data fBitMap.put_data fSteps.put_data fSum.put_data fType.put_data
  fLen.put_data fSender.put_data fTime.put_data fThread.put_data fTopic.put_data

lemmas fields_get_put = fReceiver.get_put fBitMap.get_put fSteps.get_put fSum.get_put fType.get_put
  fLen.get_put fSender.get_put fTime.get_put fThread.get_put fTopic.get_put

lemmas fields_get = fReceiver.get_bytes fBitMap.get_bytes fSteps.get_bytes fSum.get_bytes fType.get_bytes
  fLen.get_bytes fSender.get_bytes fTime.get_bytes fThread.get_bytes fTopic.get_bytes

lemmas fields_put_bytes = fReceiver.put_bytes fBitMap.put_bytes fSteps.put_bytes fSum.put_bytes fType.put_bytes
  fLen.put_bytes fSender.put_bytes fTime.put_bytes fThread.put_bytes fTopic.put_bytes

lemmas fields_put_same = fReceiver.put_same fBitMap.put_same fSteps.put_same fSum.put_same fType.put_same
  fLen.put_same fSender.put_same fTime.put_same fThread.put_same fTopic.put_same

lemmas field_simps = fields_wf fields_get fields_put_bytes fields_put_same fields_data dec_encs sint_of_int

section \<open>The checksum of a message\<close>

definition protected :: "NetworkMessage \<Rightarrow> u8 list" where
  "protected m = drop 12 (header m) @ userDataC m"

lemma calculateCheckSum_eq:
  assumes "wf_msg m"
  shows "calculateCheckSum m = (if unat (get_len m) \<le> MAX_NETWORK_MESSAGE_LENGTH
     then Some (checkSum (take (24 + unat (get_len m)) (protected m))) else None)"
  using assms by (auto simp: calculateCheckSum_def msg_bytes_def protected_def wf_msg_def HEADER_SIZE_def)

lemma protected_put:
  assumes "wf_msg m"
  shows "protected (put_receiverNode a m) = protected m" "protected (put_receiverNodesBitMap b m) = protected m"
    "protected (put_maxStepsToForward c m) = protected m" "protected (put_checkSum d m) = protected m"
  using assms fReceiver.put_drop [of m 12] fBitMap.put_drop [of m 12] fSteps.put_drop [of m 12]
    fSum.put_drop [of m 12] by (simp_all add: protected_def fields_data HEADER_SIZE_def)

lemma len_put:
  assumes "wf_msg m"
  shows "get_len (put_receiverNode a m) = get_len m" "get_len (put_receiverNodesBitMap b m) = get_len m"
    "get_len (put_maxStepsToForward c m) = get_len m" "get_len (put_checkSum d m) = get_len m"
  using assms by (simp_all add: field_simps)

text \<open>The fields in front of the checksum may change on the way; the checksum stays right.\<close>

lemma checkSum_unprotected:
  assumes "wf_msg m"
  shows "isCheckSumOk (put_receiverNode a m) = isCheckSumOk m"
    "isCheckSumOk (put_receiverNodesBitMap b m) = isCheckSumOk m"
    "isCheckSumOk (put_maxStepsToForward c m) = isCheckSumOk m"
  using assms by (simp_all add: isCheckSumOk_def calculateCheckSum_eq fields_wf len_put protected_put)
    (simp_all add: field_simps)

lemma setCheckSum_ok:
  assumes "wf_msg m" "unat (get_len m) \<le> MAX_NETWORK_MESSAGE_LENGTH"
  obtains c where "setCheckSum m = Some (put_checkSum c m)" "isCheckSumOk (put_checkSum c m) = Some True"
  using assms by (simp add: setCheckSum_def isCheckSumOk_def calculateCheckSum_eq fields_wf len_put protected_put)
    (simp add: field_simps)

lemma dec_steps:
  assumes "wf_msg m" "signed_range 16 (get_maxStepsToForward m - 1)"
  shows "get_maxStepsToForward (dec_maxStepsToForward m) = get_maxStepsToForward m - 1"
  using assms unfolding dec_maxStepsToForward_def by (subst sint_of_int) (simp_all add: fSteps.get_put)

lemma setUserData_eq:
  assumes "wf_msg m" "unat len \<le> length data"
  shows "setUserData data len m = (min len 1300,
     put_len (min len 1300) (m\<lparr>userDataC := take (unat (min len 1300)) data @ drop (unat (min len 1300)) (userDataC m)\<rparr>))"
    "wf_msg (m\<lparr>userDataC := take (unat (min len 1300)) data @ drop (unat (min len 1300)) (userDataC m)\<rparr>)"
  using assms unfolding setUserData_def MAX_NETWORK_MESSAGE_LENGTH_def wf_msg_def
  by (auto simp: Let_def min_def word_le_nat_alt)

lemma msgtype_roundtrip: "msgtype_code (msgtype_of c) = c"
  by (simp add: msgtype_of_def msgtype_code_def)

text \<open>All header fields but the length and the checksum, as \<open>prepareNetworkMessage\<close> writes them.\<close>

definition prepare_fields :: "u32 \<Rightarrow> NetMsgInfo \<Rightarrow> NetworkMessage \<Rightarrow> NetworkMessage" where
  "prepare_fields topicId i m =
     put_senderThreadId (senderThreadId i) (put_type (msgtype_code (messageType i))
      (put_sentTime (sentTime i) (put_topicId topicId (put_senderNode (senderNode i)
       (put_maxStepsToForward 10 (put_receiverNodesBitMap (receiverNodesBitMap i)
        (put_receiverNode (receiverNode i) m)))))))"

definition clip_len :: "nat \<Rightarrow> nat" where
  "clip_len len = min len MAX_NETWORK_MESSAGE_LENGTH"

lemma prepare_eq:
  assumes "wf_msg m" "len \<le> length data"
  shows "prepareNetworkMessage topicId data len i m =
    setCheckSum (put_len (of_nat (clip_len len)) ((prepare_fields topicId i m)
      \<lparr>userDataC := take (clip_len len) data @ drop (clip_len len) (userDataC m)\<rparr>))"
    "wf_msg ((prepare_fields topicId i m)\<lparr>userDataC := take (clip_len len) data @ drop (clip_len len) (userDataC m)\<rparr>)"
proof -
  define l :: u16 where "l = of_nat (if len > 0xFFFF then 0xFFFF else len)"
  have l: "unat l = (if len > 0xFFFF then 0xFFFF else len)" unfolding l_def by (simp add: unat_of_nat)
  have c: "unat (min l 1300) = clip_len len" by (auto simp: min_def word_le_nat_alt l clip_len_def MAX_NETWORK_MESSAGE_LENGTH_def)
  have c': "min l 1300 = of_nat (clip_len len)" using word_unat_eq_iff [of "min l 1300"] c by (simp add: unat_of_nat clip_len_def MAX_NETWORK_MESSAGE_LENGTH_def)
  have w: "wf_msg (prepare_fields topicId i m)" and d: "userDataC (prepare_fields topicId i m) = userDataC m"
    using assms(1) by (simp_all add: prepare_fields_def fields_wf fields_data)
  have "unat l \<le> length data" using assms(2) l by auto
  note u = setUserData_eq [OF w this, unfolded c d, unfolded c']
  show "prepareNetworkMessage topicId data len i m =
    setCheckSum (put_len (of_nat (clip_len len)) ((prepare_fields topicId i m)
      \<lparr>userDataC := take (clip_len len) data @ drop (clip_len len) (userDataC m)\<rparr>))"
    using u(1) unfolding prepareNetworkMessage_def Let_def l_def [symmetric] prepare_fields_def [symmetric] by simp
  show "wf_msg ((prepare_fields topicId i m)\<lparr>userDataC := take (clip_len len) data @ drop (clip_len len) (userDataC m)\<rparr>)"
    using u(2) .
qed

lemma prepared_message:
  assumes "wf_msg m" "len \<le> length data"
    and "signed_range 32 (senderNode i)" "signed_range 64 (sentTime i)" "signed_range 32 (receiverNode i)"
  shows "\<exists>m'. prepareNetworkMessage topicId data len i m = Some m' \<and> wf_msg m' \<and>
    get_topicId m' = topicId \<and> get_senderNode m' = senderNode i \<and> get_sentTime m' = sentTime i \<and>
    get_receiverNode m' = receiverNode i \<and> get_receiverNodesBitMap m' = receiverNodesBitMap i \<and>
    get_type m' = msgtype_code (messageType i) \<and> get_senderThreadId m' = senderThreadId i \<and>
    get_maxStepsToForward m' = 10 \<and> get_maxStepsToForward (dec_maxStepsToForward m') = 9 \<and>
    getUserData 0xFFFF m' = (of_nat (clip_len len), take (clip_len len) data) \<and>
    isCheckSumOk m' = Some True \<and> isCheckSumOk (dec_maxStepsToForward m') = Some True"
proof -
  let ?f = "(prepare_fields topicId i m)\<lparr>userDataC := take (clip_len len) data @ drop (clip_len len) (userDataC m)\<rparr>"
  let ?l = "of_nat (clip_len len) :: u16"
  have wf: "wf_msg ?f" by (rule prepare_eq(2) [OF assms(1,2)])
  have cl: "clip_len len \<le> 1300" "clip_len len \<le> len" by (simp_all add: clip_len_def MAX_NETWORK_MESSAGE_LENGTH_def)
  then have l: "unat ?l = clip_len len" by (simp add: unat_of_nat)
  obtain c where c: "prepareNetworkMessage topicId data len i m = Some (put_checkSum c (put_len ?l ?f))"
    "isCheckSumOk (put_checkSum c (put_len ?l ?f)) = Some True"
    using setCheckSum_ok [of "put_len ?l ?f"] wf cl l prepare_eq(1) [OF assms(1,2)]
    by (auto simp: fields_wf fLen.get_put MAX_NETWORK_MESSAGE_LENGTH_def)
  let ?m = "put_checkSum c (put_len ?l ?f)"
  have w: "wf_msg ?m" by (simp add: fields_wf wf)
  have h: "header ?f = header (prepare_fields topicId i m)" by simp
  have g: "get_topicId ?m = topicId" "get_senderNode ?m = senderNode i" "get_sentTime ?m = sentTime i"
    "get_receiverNode ?m = receiverNode i" "get_receiverNodesBitMap ?m = receiverNodesBitMap i"
    "get_type ?m = msgtype_code (messageType i)" "get_senderThreadId ?m = senderThreadId i"
    "get_maxStepsToForward ?m = 10" "get_len ?m = ?l"
    using assms wf by (simp_all add: field_simps h) (simp_all add: prepare_fields_def field_simps signed_range_def)
  have d: "userDataC ?m = take (clip_len len) data @ drop (clip_len len) (userDataC m)"
    by (simp add: fields_data fields_wf wf)
  have "?l \<le> 0xFFFF" using cl by (simp add: word_le_nat_alt l)
  then have "getUserData 0xFFFF ?m = (?l, take (clip_len len) data)"
    using cl assms(2) unfolding getUserData_def Let_def g d by (simp add: min_absorb2 l)
  moreover have "get_maxStepsToForward (dec_maxStepsToForward ?m) = 9"
    using dec_steps [OF w] by (simp add: g signed_range_def)
  moreover have "isCheckSumOk (dec_maxStepsToForward ?m) = Some True"
    by (simp add: dec_maxStepsToForward_def checkSum_unprotected w c(2))
  ultimately show ?thesis using c w g by auto
qed

text \<open>
  C18. A prepared message carries its parameters: the receiver reads the fields, the topic and the
  user data, cut at the size of the buffer, as the sender gave them; the checksum is right, and it stays
  right when a router decrements the number of steps.
\<close>

theorem network_message_roundtrip:
  assumes "wf_msg m" "len \<le> length data"
    and "signed_range 32 (senderNode i)" "signed_range 64 (sentTime i)" "signed_range 32 (receiverNode i)"
  shows "\<exists>m'. prepareNetworkMessage topicId data len i m = Some m' \<and> wf_msg m' \<and>
    get_topicId m' = topicId \<and> get_senderNode m' = senderNode i \<and> get_sentTime m' = sentTime i \<and>
    get_receiverNode m' = receiverNode i \<and> get_receiverNodesBitMap m' = receiverNodesBitMap i \<and>
    get_type m' = msgtype_code (messageType i) \<and> get_senderThreadId m' = senderThreadId i \<and>
    get_maxStepsToForward m' = 10 \<and> get_maxStepsToForward (dec_maxStepsToForward m') = 9 \<and>
    getUserData 0xFFFF m' = (of_nat (clip_len len), take (clip_len len) data) \<and>
    isCheckSumOk m' = Some True \<and> isCheckSumOk (dec_maxStepsToForward m') = Some True"
  by (rule prepared_message [OF assms])

theorem network_message_roundtrip_witness:
  "\<exists>m'. prepareNetworkMessage 1000 [1, 2, 3] 3 \<lparr>senderNode = -7, senderThreadId = 9, sentTime = 12345678901, receiverNode = -1,
       receiverNodesBitMap = 6, linkId = 0, messageType = REQUEST\<rparr>
     \<lparr>header = replicate 36 0, userDataC = replicate 1300 0xAA\<rparr> = Some m' \<and>
     get_senderNode m' = -7 \<and> get_sentTime m' = 12345678901 \<and> get_type m' = 4 \<and>
     getUserData 0xFFFF m' = (3, [1, 2, 3]) \<and> isCheckSumOk m' = Some True"
  using network_message_roundtrip [of "\<lparr>header = replicate 36 0, userDataC = replicate 1300 0xAA\<rparr>" 3 "[1, 2, 3]"
      "\<lparr>senderNode = -7, senderThreadId = 9, sentTime = 12345678901, receiverNode = -1,
       receiverNodesBitMap = 6, linkId = 0, messageType = REQUEST\<rparr>" 1000]
  by (force simp: wf_msg_def HEADER_SIZE_def MAX_NETWORK_MESSAGE_LENGTH_def signed_range_def clip_len_def msgtype_code_def)

section \<open>Corrupted messages\<close>

lemma checkSum_update: "i < length xs \<Longrightarrow> b \<noteq> xs ! i \<Longrightarrow> checkSum (xs[i := b]) \<noteq> checkSum xs"
  using sum.detects [of b "xs ! i" "take i xs" "drop (Suc i) xs" 0]
  by (simp add: checkSum_def upd_conv_take_nth_drop id_take_nth_drop [symmetric])

lemma dec_word_inj:
  assumes "length xs = 2" "length ys = 2" "(dec_word xs :: u16) = dec_word ys"
  shows "xs = ys"
proof -
  have "le_bytes 2 (dec_word zs :: u16) = rev zs" if "length zs = 2" for zs
    unfolding dec_word_def using that by (intro le_bytes_value) simp_all
  then show ?thesis using assms by (metis rev_is_rev_conv)
qed

lemma bytes_at_nth: "i < w \<Longrightarrow> off + i < length xs \<Longrightarrow> bytes_at off w xs ! i = xs ! (off + i)"
  by (simp add: bytes_at_def)

lemma bytes_at_update_other: "p < off \<or> off + w \<le> p \<Longrightarrow> bytes_at off w (xs[p := b]) = bytes_at off w xs"
  by (rule nth_equalityI) (auto simp: bytes_at_def)

lemma bytes_at_update_same:
  assumes "off \<le> p" "p < off + w" "p < length xs" "b \<noteq> xs ! p"
  shows "bytes_at off w (xs[p := b]) \<noteq> bytes_at off w xs"
proof
  assume "bytes_at off w (xs[p := b]) = bytes_at off w xs"
  then have "bytes_at off w (xs[p := b]) ! (p - off) = bytes_at off w xs ! (p - off)" by simp
  with assms show False by (simp add: bytes_at_nth)
qed

text \<open>A message with one byte of its representation changed.\<close>

definition corrupt :: "nat \<Rightarrow> u8 \<Rightarrow> NetworkMessage \<Rightarrow> NetworkMessage" where
  "corrupt p b m = msg_of_bytes ((msg_bytes m)[p := b])"

lemma corrupt_parts:
  assumes "wf_msg m" "p < HEADER_SIZE + MAX_NETWORK_MESSAGE_LENGTH"
  shows "wf_msg (corrupt p b m)" "header (corrupt p b m) = (header m)[p := b]"
    "12 \<le> p \<Longrightarrow> protected (corrupt p b m) = (protected m)[p - 12 := b]"
    "p < 12 \<Longrightarrow> protected (corrupt p b m) = protected m"
proof -
  have l: "length (header m) = 36" "length (userDataC m) = 1300"
    using assms(1) by (simp_all add: wf_msg_def HEADER_SIZE_def MAX_NETWORK_MESSAGE_LENGTH_def)
  have c: "header (corrupt p b m) = (header m)[p := b]" "userDataC (corrupt p b m) = (if 36 \<le> p then (userDataC m)[p - 36 := b] else userDataC m)"
    using l by (auto simp: corrupt_def msg_of_bytes_def msg_bytes_def HEADER_SIZE_def list_update_append)
      (simp add: list_update_beyond)
  show "header (corrupt p b m) = (header m)[p := b]" by (rule c(1))
  show "wf_msg (corrupt p b m)" using l by (simp add: wf_msg_def c HEADER_SIZE_def MAX_NETWORK_MESSAGE_LENGTH_def)
  show "protected (corrupt p b m) = (protected m)[p - 12 := b]" if "12 \<le> p"
    using that l by (auto simp: protected_def c list_update_append drop_update_swap) (simp add: list_update_beyond)
  show "protected (corrupt p b m) = protected m" if "p < 12"
    using that l by (simp add: protected_def c drop_update_cancel)
qed

text \<open>
  C19. A message with one corrupted byte is rejected: whichever byte of the checksum, of the protected
  header fields other than the length, or of the user data is changed, the checksum no longer
  matches.
\<close>

theorem network_message_corruption_detected:
  assumes "wf_msg m" "isCheckSumOk m = Some True"
    and "10 \<le> p" "p < 36 + unat (get_len m)" "p \<noteq> 14" "p \<noteq> 15" "b \<noteq> msg_bytes m ! p"
  shows "isCheckSumOk (corrupt p b m) = Some False"
proof -
  have len: "unat (get_len m) \<le> 1300" and ok: "checkSum (take (24 + unat (get_len m)) (protected m)) = get_checksum m"
    using assms(1,2) by (auto simp: isCheckSumOk_def calculateCheckSum_eq MAX_NETWORK_MESSAGE_LENGTH_def split: if_splits)
  have pl: "p < HEADER_SIZE + MAX_NETWORK_MESSAGE_LENGTH" using assms(4) len by (simp add: HEADER_SIZE_def MAX_NETWORK_MESSAGE_LENGTH_def)
  note c = corrupt_parts [OF assms(1) pl]
  have l: "length (header m) = 36" "length (userDataC m) = 1300" "length (protected m) = 1324"
    using assms(1) by (simp_all add: wf_msg_def HEADER_SIZE_def MAX_NETWORK_MESSAGE_LENGTH_def protected_def)
  have "p < 14 \<or> 14 + 2 \<le> p" using assms(5,6) by linarith
  then have g: "get_len (corrupt p b m) = get_len m"
    using assms(1) by (simp add: fLen.get_bytes c bytes_at_update_other)
  have "checkSum (take (24 + unat (get_len m)) (protected (corrupt p b m))) \<noteq> get_checksum (corrupt p b m)"
  proof (cases "p < 12")
    case True
    then have "b \<noteq> header m ! p" using assms(7) l by (simp add: msg_bytes_def nth_append)
    then have "bytes_at 10 2 ((header m)[p := b]) \<noteq> bytes_at 10 2 (header m)"
      using True assms(3) l by (intro bytes_at_update_same) simp_all
    then have "get_checksum (corrupt p b m) \<noteq> get_checksum m"
      using dec_word_inj [of "bytes_at 10 2 ((header m)[p := b])" "bytes_at 10 2 (header m)"] l assms(1)
      by (auto simp: fSum.get_bytes c bytes_at_def)
    then show ?thesis using ok True by (simp add: c)
  next
    case False
    then have s: "get_checksum (corrupt p b m) = get_checksum m"
      using assms(1) by (simp add: fSum.get_bytes c bytes_at_update_other)
    have "protected m ! (p - 12) = msg_bytes m ! p"
      using False l by (auto simp: protected_def msg_bytes_def nth_append)
    then have "checkSum ((take (24 + unat (get_len m)) (protected m))[p - 12 := b]) \<noteq> get_checksum m"
      unfolding ok [symmetric] using False assms(4,7) len l by (intro checkSum_update) auto
    then show ?thesis using False by (simp add: c s take_update_swap)
  qed
  then show ?thesis
    using c(1) len by (simp add: isCheckSumOk_def calculateCheckSum_eq g MAX_NETWORK_MESSAGE_LENGTH_def)
qed

text \<open>A small message for the witnesses.\<close>

definition example_msg :: NetworkMessage where
  "example_msg = \<lparr>header = [0, 0, 0, 1,  0, 0, 0, 2,  0, 10,  0, 0,  0, 0,  0, 0,  0, 0, 0, 0,
     0, 0, 0, 0, 0, 0, 0, 0,  0, 0, 0, 0,  0, 0, 0, 0], userDataC = replicate 1300 0\<rparr>"

theorem network_message_corruption_detected_witness:
  "isCheckSumOk example_msg = Some True \<and> isCheckSumOk (corrupt 33 1 example_msg) = Some False"
proof -
  have w: "wf_msg example_msg" by (simp add: example_msg_def wf_msg_def HEADER_SIZE_def MAX_NETWORK_MESSAGE_LENGTH_def)
  have l: "get_len example_msg = 0" and s: "get_checksum example_msg = 0"
    by (simp_all add: example_msg_def get_len_def get_checksum_def read_at_def bigEndianToUint16_t_def)
  have "take 24 (protected example_msg) = replicate 24 0"
    by (simp add: protected_def example_msg_def numeral_eq_Suc)
  moreover have "checkSum (replicate 24 0) = 0" by code_simp
  ultimately have ok: "isCheckSumOk example_msg = Some True"
    by (simp add: isCheckSumOk_def calculateCheckSum_eq w l s)
  moreover have "msg_bytes example_msg ! 33 \<noteq> 1" by (simp add: msg_bytes_def example_msg_def nth_append)
  ultimately show ?thesis
    using network_message_corruption_detected [OF w ok, of 33 1] by (simp add: l)
qed

end
