(* ===== verification/Topic.thy ===== *)
theory Topic
  imports Network_Message
begin

text \<open>
  Topics of the middleware (\<open>src/independent/topic.cpp\<close>, \<open>api/topic.h\<close>) and the list of topics a
  gateway forwards (\<open>TopicListReport\<close> of \<open>api/gateway/networkmessage.h\<close>). The virtual \<open>put\<close>
  of a subscriber is a parameter of the publishing functions: it gets the topic id, the length, the
  data and the message information, and returns its count, the data (a subscriber may change them in
  place) and the new state of the node; \<open>None\<close> stands for undefined behaviour.
\<close>

section \<open>The code\<close>

definition FIRST_USER_TOPIC_ID :: u32 where "FIRST_USER_TOPIC_ID = 1000"

definition ALL_TOPICS_BELOW_THIS_ARE_BROADCAST :: u32 where "ALL_TOPICS_BELOW_THIS_ARE_BROADCAST = 10"

text \<open>A filter changes the data before the subscribers get them, and again afterwards.\<close>

record TopicFilter =
  prolog :: "u32 \<Rightarrow> nat \<Rightarrow> u8 list \<Rightarrow> NetMsgInfo \<Rightarrow> u8 list"
  epilog :: "u32 \<Rightarrow> nat \<Rightarrow> u8 list \<Rightarrow> NetMsgInfo \<Rightarrow> u8 list"

record 's Topic =
  t_topicId :: u32
  t_msgLen :: nat
  t_onlyLocal :: bool
  t_topicFilter :: "TopicFilter option"
  t_receiverNodesBitMap :: u32
  t_mySubscribers :: "'s list"

definition new_topicId :: "int \<Rightarrow> u8 list \<Rightarrow> u32" where
  "new_topicId ident name =
     (if ident = -1
      then (let topicId = ucast (hash name)
            in if topicId < FIRST_USER_TOPIC_ID then topicId + FIRST_USER_TOPIC_ID else topicId)
      else of_int (ident AND 0xFFFFFFFF))"

text \<open>The constructor adds the topic at the front of the list and reports a duplicated id; the id 22582
  of the UDP topic may occur more than once.\<close>

definition TopicInterface :: "int \<Rightarrow> nat \<Rightarrow> u8 list \<Rightarrow> bool \<Rightarrow> 's Topic list \<Rightarrow> 's Topic list \<times> bool" where
  "TopicInterface ident len name onlyLocal topicList =
     (let topicId = new_topicId ident name;
          t = \<lparr>t_topicId = topicId, t_msgLen = len, t_onlyLocal = onlyLocal, t_topicFilter = None,
               t_receiverNodesBitMap = (if topicId < ALL_TOPICS_BELOW_THIS_ARE_BROADCAST then NOT 0 else 0),
               t_mySubscribers = []\<rparr>
      in (t # topicList, \<exists>iter \<in> set topicList. t_topicId iter \<noteq> 22582 \<and> t_topicId iter = topicId))"

text \<open>A second filter replaces the first and is reported.\<close>

definition setTopicFilter :: "TopicFilter \<Rightarrow> 's Topic \<Rightarrow> 's Topic \<times> bool" where
  "setTopicFilter flt t = (t\<lparr>t_topicFilter := Some flt\<rparr>, t_topicFilter t \<noteq> None)"

definition findTopicId :: "u32 \<Rightarrow> 's Topic list \<Rightarrow> 's Topic option" where
  "findTopicId wantedTopicId topicList = find (\<lambda>iter. t_topicId iter = wantedTopicId) topicList"

function bitmap_index :: "u32 \<Rightarrow> int \<Rightarrow> int \<Rightarrow> int" where
  "bitmap_index bitmap index indexFound =
     (if bitmap = 0 then indexFound
      else if bitmap AND 0x01 \<noteq> 0 \<and> indexFound \<noteq> -2 then -1
      else bitmap_index (drop_bit 1 bitmap) (index + 1) (if bitmap AND 0x01 \<noteq> 0 then index else indexFound))"
  by pat_completeness auto
termination
proof (relation "measure (\<lambda>(b, _, _). unat b)")
  fix bitmap :: u32 and index indexFound :: int
  assume "bitmap \<noteq> 0"
  then have "0 < unat bitmap" using unat_gt_0 by blast
  then have "unat bitmap div 2 < unat bitmap" by simp
  then show "((drop_bit 1 bitmap, index + 1, if bitmap AND 0x01 \<noteq> 0 then index else indexFound), bitmap, index, indexFound)
    \<in> measure (\<lambda>(b, _, _). unat b)" by (simp add: drop_bit_eq_div unat_div_distrib)
qed simp

declare bitmap_index.simps [simp del]

definition receiverNodesBitMap2Index :: "'s Topic \<Rightarrow> int \<times> 's Topic" where
  "receiverNodesBitMap2Index t =
     (if t_topicId t < ALL_TOPICS_BELOW_THIS_ARE_BROADCAST then (-1, t\<lparr>t_receiverNodesBitMap := NOT 0\<rparr>)
      else (bitmap_index (t_receiverNodesBitMap t) 0 (-2), t))"

type_synonym ('s, 'w) put_op = "'s \<Rightarrow> u32 \<Rightarrow> nat \<Rightarrow> u8 list \<Rightarrow> NetMsgInfo \<Rightarrow> 'w \<Rightarrow> (u32 \<times> u8 list \<times> 'w) option"

text \<open>The loop over a list of subscribers; \<open>check\<close> is the test of \<open>isEnabled\<close>.\<close>

fun distribute :: "('s, 'w) put_op \<Rightarrow> ('s \<Rightarrow> 'w \<Rightarrow> bool) \<Rightarrow> 's list \<Rightarrow> u32 \<Rightarrow> nat \<Rightarrow> NetMsgInfo \<Rightarrow>
    u32 \<Rightarrow> u8 list \<Rightarrow> 'w \<Rightarrow> (u32 \<times> u8 list \<times> 'w) option" where
  "distribute put check [] topicId len info cnt data w = Some (cnt, data, w)"
| "distribute put check (iter # subs) topicId len info cnt data w =
     (if check iter w
      then do {
        (c, data', w') \<leftarrow> put iter topicId len data info w;
        distribute put check subs topicId len info (cnt + c) data' w'
      }
      else distribute put check subs topicId len info cnt data w)"

text \<open>
  \<open>publishMsgPart\<close> with the message information the caller passed, or the local one of the node; the
  subscribers of the gateway topic are \<open>gwSubs\<close>. The results are the number of receivers, the data, the
  message information, the topic and the node.
\<close>

definition publishMsgPart :: "('s, 'w) put_op \<Rightarrow> ('s \<Rightarrow> 'w \<Rightarrow> bool) \<Rightarrow> 's list \<Rightarrow> NetMsgInfo \<Rightarrow> 's Topic \<Rightarrow>
    u8 list \<Rightarrow> nat \<Rightarrow> bool \<Rightarrow> NetMsgInfo option \<Rightarrow> 'w \<Rightarrow> (u32 \<times> u8 list \<times> NetMsgInfo \<times> 's Topic \<times> 'w) option" where
  "publishMsgPart put enabled gwSubs localInfo t data lenToSend shallSendToNetwork netMsgInfo w =
     (let info = (case netMsgInfo of None \<Rightarrow> localInfo | Some i \<Rightarrow> i);
          tid = t_topicId t;
          data = (case t_topicFilter t of None \<Rightarrow> data | Some f \<Rightarrow> prolog f tid lenToSend data info)
      in do {
        (cnt, data, w) \<leftarrow> distribute put enabled (t_mySubscribers t) tid lenToSend info 0 data w;
        let data = (case t_topicFilter t of None \<Rightarrow> data | Some f \<Rightarrow> epilog f tid lenToSend data info);
        if t_onlyLocal t \<or> \<not> shallSendToNetwork then Some (cnt, data, info, t, w)
        else do {
          let (index, t) = receiverNodesBitMap2Index t;
          let info = info\<lparr>receiverNode := index, receiverNodesBitMap := t_receiverNodesBitMap t\<rparr>;
          (cnt, data, w) \<leftarrow> distribute put (\<lambda>_ _. True) gwSubs tid lenToSend info cnt data w;
          Some (cnt, data, info, t, w)
        }
      })"

definition publish :: "('s, 'w) put_op \<Rightarrow> ('s \<Rightarrow> 'w \<Rightarrow> bool) \<Rightarrow> 's list \<Rightarrow> NetMsgInfo \<Rightarrow> 's Topic \<Rightarrow>
    u8 list \<Rightarrow> bool \<Rightarrow> NetMsgInfo option \<Rightarrow> 'w \<Rightarrow> (u32 \<times> u8 list \<times> NetMsgInfo \<times> 's Topic \<times> 'w) option" where
  "publish put enabled gwSubs localInfo t data =
     publishMsgPart put enabled gwSubs localInfo t data (t_msgLen t)"

text \<open>From an interrupt the handlers of the subscribers are called without any test.\<close>

definition publishFromInterrupt :: "('s \<Rightarrow> u32 \<Rightarrow> u8 list \<Rightarrow> nat \<Rightarrow> 'w \<Rightarrow> 'w) \<Rightarrow> 's Topic \<Rightarrow> u8 list \<Rightarrow> nat \<Rightarrow> 'w \<Rightarrow> 'w" where
  "publishFromInterrupt putFromInterrupt t any len w =
     fold (\<lambda>iter w. putFromInterrupt iter (t_topicId t) any len w) (t_mySubscribers t) w"

text \<open>The handlers of signals (\<open>interruptservers.cpp\<close>) publish a null pointer without a length on their topic.\<close>

definition sigtermHandler :: "('s \<Rightarrow> u32 \<Rightarrow> u8 list \<Rightarrow> nat \<Rightarrow> 'w \<Rightarrow> 'w) \<Rightarrow> 's Topic \<Rightarrow> int \<Rightarrow> 'w \<Rightarrow> 'w" where
  "sigtermHandler putFromInterrupt interruptSigterm sig w = publishFromInterrupt putFromInterrupt interruptSigterm [] 0 w"

definition uartHandler :: "('s \<Rightarrow> u32 \<Rightarrow> u8 list \<Rightarrow> nat \<Rightarrow> 'w \<Rightarrow> 'w) \<Rightarrow> 's Topic \<Rightarrow> int \<Rightarrow> 'w \<Rightarrow> 'w" where
  "uartHandler putFromInterrupt interruptUart sig w = publishFromInterrupt putFromInterrupt interruptUart [] 0 w"

definition timerHandler :: "('s \<Rightarrow> u32 \<Rightarrow> u8 list \<Rightarrow> nat \<Rightarrow> 'w \<Rightarrow> 'w) \<Rightarrow> 's Topic \<Rightarrow> int \<Rightarrow> 'w \<Rightarrow> 'w" where
  "timerHandler putFromInterrupt interruptTimer sig w = publishFromInterrupt putFromInterrupt interruptTimer [] 0 w"

section \<open>Lists of topics\<close>

definition MAX_SUBSCRIBERS :: nat where "MAX_SUBSCRIBERS = 60"

record TopicListReport =
  numberOfTopics :: nat
  topicList :: "u32 list"

definition report_init :: "TopicListReport \<Rightarrow> TopicListReport" where
  "report_init r = r\<lparr>numberOfTopics := 0\<rparr>"

text \<open>Reading behind the end of the array is undefined.\<close>

function report_find_from :: "nat \<Rightarrow> u32 \<Rightarrow> TopicListReport \<Rightarrow> bool option" where
  "report_find_from i topicId r =
     (if i < numberOfTopics r
      then if i < length (topicList r)
           then if topicId = topicList r ! i then Some True else report_find_from (i + 1) topicId r
           else None
      else Some False)"
  by pat_completeness auto
termination by (relation "measure (\<lambda>(i, _, r). numberOfTopics r - i)") auto

declare report_find_from.simps [simp del]

definition report_find :: "u32 \<Rightarrow> TopicListReport \<Rightarrow> bool option" where
  "report_find topicId r = report_find_from 0 topicId r"

definition report_add :: "u32 \<Rightarrow> TopicListReport \<Rightarrow> TopicListReport option" where
  "report_add topicId r =
     (if \<not> numberOfTopics r < MAX_SUBSCRIBERS - 1 then Some r
      else do {
        found \<leftarrow> report_find topicId r;
        Some (if found then r
              else r\<lparr>topicList := (topicList r)[numberOfTopics r := topicId], numberOfTopics := numberOfTopics r + 1\<rparr>)
      })"

definition report_numberOfBytesToSend :: "nat \<Rightarrow> TopicListReport \<Rightarrow> nat" where
  "report_numberOfBytesToSend sizeof_long r = sizeof_long + numberOfTopics r * 4"

section \<open>The receivers of a topic\<close>

lemma odd_bit0: "(w AND 0x01 \<noteq> 0) = bit w 0" for w :: u32
  by (simp add: and_one_eq bit_0 odd_iff_mod_2_eq_one)

lemma bits_shift: "{k. bit w k} = (if bit w 0 then {0} else {}) \<union> Suc ` {k. bit (drop_bit 1 w) k}" for w :: u32
proof (rule set_eqI)
  show "k \<in> {k. bit w k} \<longleftrightarrow> k \<in> (if bit w 0 then {0} else {}) \<union> Suc ` {k. bit (drop_bit 1 w) k}" for k
    by (cases k) (auto simp: bit_drop_bit_eq)
qed

lemma bits_empty: "{k. bit w k} = {} \<longleftrightarrow> w = 0" for w :: u32
  by (auto intro!: bit_word_eqI)

lemma bit_nonzero: "bit w k \<Longrightarrow> w \<noteq> 0" for w :: u32
  by auto

lemma bitmap_index_found:
  "f \<noteq> -2 \<Longrightarrow> bitmap_index w i f = (if w = 0 then f else -1)"
proof (induction w i f rule: bitmap_index.induct)
  case (1 w i f)
  then show ?case using bits_shift [of w] bits_empty [of w] bits_empty [of "drop_bit 1 w"]
    by (subst bitmap_index.simps) (auto simp: odd_bit0)
qed

lemma bitmap_index_step:
  "w \<noteq> 0 \<Longrightarrow> bitmap_index w i (-2) = bitmap_index (drop_bit 1 w) (i + 1) (if bit w 0 then i else -2)"
  by (subst bitmap_index.simps) (simp add: odd_bit0)

lemma bitmap_index_one:
  "{k. bit w k} = {n} \<Longrightarrow> 0 \<le> i \<Longrightarrow> bitmap_index w i (-2) = i + int n"
proof (induction n arbitrary: w i)
  case 0
  then have "w \<noteq> 0" "drop_bit 1 w = 0" "bit w 0"
    using bits_shift [of w] bits_empty [of w] bits_empty [of "drop_bit 1 w"] by auto
  then show ?case using 0 by (simp add: bitmap_index_step bitmap_index_found)
next
  case (Suc n)
  then have z: "w \<noteq> 0" "\<not> bit w 0" using bits_empty [of w] by auto
  then have "Suc ` {k. bit (drop_bit 1 w) k} = Suc ` {n}" using bits_shift [of w] Suc.prems by simp
  then have "{k. bit (drop_bit 1 w) k} = {n}" by (simp only: inj_image_eq_iff [OF inj_Suc])
  from Suc.IH [OF this, of "i + 1"] z Suc.prems show ?case by (simp add: bitmap_index_step)
qed

lemma bitmap_index_many:
  "bit w m \<Longrightarrow> bit w n \<Longrightarrow> m < n \<Longrightarrow> 0 \<le> i \<Longrightarrow> bitmap_index w i (-2) = -1"
proof (induction m arbitrary: w n i)
  case 0
  have "bit (drop_bit 1 w) (n - 1)" using 0 by (simp add: bit_drop_bit_eq)
  then have "w \<noteq> 0" "drop_bit 1 w \<noteq> 0" using 0 bit_nonzero by auto
  then show ?case using 0 by (simp add: bitmap_index_step bitmap_index_found)
next
  case (Suc m)
  have b: "bit (drop_bit 1 w) m" "bit (drop_bit 1 w) (n - 1)" "m < n - 1"
    using Suc.prems by (auto simp: bit_drop_bit_eq)
  then have z: "w \<noteq> 0" "drop_bit 1 w \<noteq> 0" using Suc.prems bit_nonzero by auto
  from Suc.IH [OF b, of "i + 1"] z Suc.prems show ?case by (simp add: bitmap_index_step bitmap_index_found)
qed

text \<open>
  The receiver a topic computes for its messages from the bit map of the nodes that listen to it:
  no receiver is -2, a single one is the index of its bit, several are -1 (broadcast), and the topics
  reserved for broadcast are sent to all nodes whatever their bit map is.
\<close>

lemma receiver_of_topic:
  "receiverNodesBitMap2Index t =
     (if t_topicId t < ALL_TOPICS_BELOW_THIS_ARE_BROADCAST then (-1, t\<lparr>t_receiverNodesBitMap := NOT 0\<rparr>)
      else (case sorted_list_of_set {k. bit (t_receiverNodesBitMap t) k} of [] \<Rightarrow> -2 | [k] \<Rightarrow> int k | _ \<Rightarrow> -1, t))"
proof -
  let ?w = "t_receiverNodesBitMap t" and ?B = "{k. bit (t_receiverNodesBitMap t) k}"
  have fin: "finite ?B" by (rule finite_subset [of _ "{..<32}"]) (auto dest: bit_imp_le_length)
  have "bitmap_index ?w 0 (-2) = (case sorted_list_of_set ?B of [] \<Rightarrow> -2 | [k] \<Rightarrow> int k | _ \<Rightarrow> -1)"
  proof -
    note st = set_sorted_list_of_set [OF fin] and so = strict_sorted_list_of_set [of ?B]
    consider (none) "sorted_list_of_set ?B = []" | (one) k where "sorted_list_of_set ?B = [k]"
      | (many) j k ks where "sorted_list_of_set ?B = j # k # ks" by (metis neq_Nil_conv)
    then show ?thesis
    proof cases
      case none
      then have "?w = 0" using st bits_empty [of ?w] by simp
      then show ?thesis using none by (simp add: bitmap_index.simps)
    next
      case one
      then have "?B = {k}" using st by simp
      then show ?thesis using one bitmap_index_one [of ?w k 0] by simp
    next
      case many
      then have "bit ?w j" "bit ?w k" "j < k" using st so by auto
      then show ?thesis using many bitmap_index_many [of ?w j k 0] by simp
    qed
  qed
  then show ?thesis by (simp add: receiverNodesBitMap2Index_def)
qed

section \<open>Lists of topics as sets\<close>

definition wf_report :: "TopicListReport \<Rightarrow> bool" where
  "wf_report r \<longleftrightarrow> length (topicList r) = MAX_SUBSCRIBERS \<and> numberOfTopics r \<le> MAX_SUBSCRIBERS"

definition listed :: "TopicListReport \<Rightarrow> u32 set" where
  "listed r = set (take (numberOfTopics r) (topicList r))"

lemma report_find_from_listed:
  "numberOfTopics r \<le> length (topicList r) \<Longrightarrow>
     report_find_from i t r = Some (t \<in> set (drop i (take (numberOfTopics r) (topicList r))))"
proof (induction i t r rule: report_find_from.induct)
  case (1 i t r)
  let ?l = "take (numberOfTopics r) (topicList r)"
  show ?case
  proof (cases "i < numberOfTopics r")
    case True
    then have "drop i ?l = topicList r ! i # drop (Suc i) ?l" using 1 by (simp add: Cons_nth_drop_Suc [symmetric])
    then show ?thesis using 1 True by (subst report_find_from.simps) auto
  qed (simp add: report_find_from.simps)
qed

lemma report_find_listed: "wf_report r \<Longrightarrow> report_find t r = Some (t \<in> listed r)"
  by (simp add: report_find_def report_find_from_listed wf_report_def listed_def)

lemma report_add_listed:
  assumes "wf_report r"
  shows "\<exists>r'. report_add t r = Some r' \<and> wf_report r' \<and>
    listed r' = (if numberOfTopics r < MAX_SUBSCRIBERS - 1 then insert t (listed r) else listed r)"
proof (cases "numberOfTopics r < MAX_SUBSCRIBERS - 1 \<and> t \<notin> listed r")
  case True
  then have "take (Suc (numberOfTopics r)) ((topicList r)[numberOfTopics r := t]) = take (numberOfTopics r) (topicList r) @ [t]"
    using assms by (auto simp: wf_report_def take_Suc_conv_app_nth)
  then show ?thesis using True assms
    by (auto simp: report_add_def report_find_listed) (auto simp: wf_report_def listed_def)
next
  case False
  then show ?thesis using assms by (auto simp: report_add_def report_find_listed)
qed

lemma unat_ucast_u16: "unat (ucast a :: u32) = unat (a :: u16)"
proof -
  have "unat a < 2 ^ 32" using unsigned_less [of a, where ?'a = nat] by simp
  then show ?thesis by (simp add: unsigned_ucast_eq take_bit_nat_eq_self)
qed

text \<open>
  A topic without a given id gets the hash of its name: two printable characters, so the id is
  always in the range left to the user and the topic is not one of the reserved broadcast topics; the
  constructor reports exactly the ids that another topic has already.
\<close>

lemma generated_topic_id:
  "TopicInterface (-1) len name onlyLocal ts =
     (\<lparr>t_topicId = ucast (hash name), t_msgLen = len, t_onlyLocal = onlyLocal, t_topicFilter = None,
       t_receiverNodesBitMap = 0, t_mySubscribers = []\<rparr> # ts,
      \<exists>t \<in> set ts. t_topicId t = ucast (hash name) \<and> hash name \<noteq> 22582) \<and>
   0x20 \<le> drop_bit 8 (hash name) \<and> drop_bit 8 (hash name) < 0x7e \<and>
   0x20 \<le> hash name AND 0xff \<and> hash name AND 0xff < 0x7e"
proof -
  have "32 \<le> unat (drop_bit 8 (hash name))" using hash_printable [of name] by (simp add: word_le_nat_alt)
  then have "8192 \<le> unat (hash name)" by (simp add: drop_bit_eq_div unat_div_distrib)
  then have h: "8192 \<le> unat (ucast (hash name) :: u32)" by (simp add: unat_ucast_u16)
  then have i: "new_topicId (-1) name = ucast (hash name)"
    by (simp add: new_topicId_def FIRST_USER_TOPIC_ID_def word_less_nat_alt)
  have u: "(ucast (hash name) :: u32) = 22582 \<longleftrightarrow> hash name = 22582"
    using unat_ucast_u16 [of "hash name"] by (auto simp: word_unat_eq_iff)
  have "(\<exists>iter \<in> set ts. t_topicId iter \<noteq> 22582 \<and> t_topicId iter = ucast (hash name)) =
    (\<exists>t \<in> set ts. t_topicId t = ucast (hash name) \<and> hash name \<noteq> 22582)" using u by metis
  then show ?thesis using h hash_printable [of name]
    by (simp add: TopicInterface_def i Let_def ALL_TOPICS_BELOW_THIS_ARE_BROADCAST_def word_less_nat_alt)
qed

end
