(* ===== verification/Gateway.thy ===== *)
theory Gateway
  imports Topic Time_Model
begin

text \<open>
  Gateways and routers (\<open>src/independent/gateway/gateway.cpp\<close>, \<open>gateway/router.cpp\<close>,
  \<open>src/independent/subscriber.cpp\<close>). A node has its topics, the subscribers of the gateway topic and of
  the router topic, its gateways with the messages they handed to their links, its routers, and the
  table of the nodes it has received from. The messages a receiver got are recorded in
  \<open>nd_delivered\<close>. The semaphores serialise the operations; of \<open>seenNodesProtector\<close> the number of
  enters without a leave is kept. \<open>None\<close> is undefined behaviour: an access outside an array or an
  object.
\<close>

section \<open>The code\<close>

definition MAX_NUMBER_OF_NODES :: nat where "MAX_NUMBER_OF_NODES = 10"

definition MAX_NUMBER_OF_GATEWAYS_PER_ROUTER :: nat where "MAX_NUMBER_OF_GATEWAYS_PER_ROUTER = 8"

definition LINK_ID_RODOS_LOCAL_BROADCAST :: u32 where "LINK_ID_RODOS_LOCAL_BROADCAST = 0"

record SeenNode =
  nodeID :: int
  lastMsgTime :: int

text \<open>The subscribers: with a receiver (or none), a gateway, the network side of a router and its local
  side. Gateways and routers are named by their index in the node.\<close>

datatype subscriber = Receiver (sub_isEnabled: bool) "nat option" | GatewaySub nat
  | RouterSub bool nat | RouterLocal nat

record Gateway =
  gw_isEnabled :: bool
  networkOutMessage :: NetworkMessage
  networkInMessage :: NetworkMessage
  externalsubscribers :: TopicListReport
  forwardAll :: bool
  linkIdentifier :: u32
  isBroadcastLink :: bool
  getTopicsToForwardFromOutside :: bool
  gw_sent :: "NetworkMessage list"

record Router =
  localMessage :: NetworkMessage
  gateways :: "nat option list"
  numberOfGateways :: nat
  forwardTopicReports :: bool

record node =
  myNodeNr :: int
  bigEndianHost :: bool
  nd_topics :: "subscriber Topic list"
  nd_gatewaySubs :: "subscriber list"
  nd_routerTopic :: "subscriber Topic"
  nd_gateways :: "Gateway list"
  nd_routers :: "Router list"
  seenNodes :: "SeenNode list"
  seenNodesHeld :: nat
  numberOfReceivedMsgsFromNetwork :: int
  nd_delivered :: "(nat \<times> u32 \<times> u8 list \<times> NetMsgInfo) list"

subsection \<open>Messages seen before\<close>

fun find_node :: "int \<Rightarrow> SeenNode list \<Rightarrow> nat option" where
  "find_node sender [] = None"
| "find_node sender (n # ns) = (if nodeID n = sender then Some 0 else map_option Suc (find_node sender ns))"

definition messageSeen :: "NetworkMessage \<Rightarrow> node \<Rightarrow> bool \<times> node" where
  "messageSeen msg nd =
     (let nd = nd\<lparr>seenNodesHeld := seenNodesHeld nd + 1\<rparr>;
          msgSentTime = get_sentTime msg;
          decide = (\<lambda>i nd.
            let nd' = nd\<lparr>seenNodesHeld := seenNodesHeld nd - 1\<rparr>;
                new = nd'\<lparr>seenNodes := (seenNodes nd)[i := (seenNodes nd ! i)\<lparr>lastMsgTime := msgSentTime\<rparr>]\<rparr>;
                last = lastMsgTime (seenNodes nd ! i)
            in if last \<ge> msgSentTime
               then if i64 (last - msgSentTime) > 5 * SECONDS then (False, new) else (True, nd')
               else (False, new))
      in case find_node (get_senderNode msg) (seenNodes nd) of
           Some i \<Rightarrow> decide i nd
         | None \<Rightarrow>
             if \<not> length (seenNodes nd) < MAX_NUMBER_OF_NODES then (False, nd)
             else decide (length (seenNodes nd))
               (nd\<lparr>seenNodes := seenNodes nd @ [\<lparr>nodeID = get_senderNode msg, lastMsgTime = i64 (msgSentTime - 1)\<rparr>]\<rparr>))"

subsection \<open>Sending\<close>

definition upd_gateway :: "nat \<Rightarrow> (Gateway \<Rightarrow> Gateway) \<Rightarrow> node \<Rightarrow> node" where
  "upd_gateway g f nd = nd\<lparr>nd_gateways := (nd_gateways nd)[g := f (nd_gateways nd ! g)]\<rparr>"

definition sendNetworkMessage :: "nat \<Rightarrow> NetworkMessage \<Rightarrow> node \<Rightarrow> node option" where
  "sendNetworkMessage g msg nd =
     (if g < length (nd_gateways nd) then Some (upd_gateway g (\<lambda>gw. gw\<lparr>gw_sent := gw_sent gw @ [msg]\<rparr>) nd) else None)"

definition Gateway_put :: "nat \<Rightarrow> u32 \<Rightarrow> nat \<Rightarrow> u8 list \<Rightarrow> NetMsgInfo \<Rightarrow> node \<Rightarrow> (u32 \<times> node) option" where
  "Gateway_put g topicId len data netMsgInfo nd =
     (if \<not> g < length (nd_gateways nd) then None
      else let gw = nd_gateways nd ! g
      in if \<not> gw_isEnabled gw then Some (0, nd)
      else do {
        found \<leftarrow> (if \<not> forwardAll gw \<and> topicId \<noteq> 0 then report_find topicId (externalsubscribers gw) else Some True);
        if \<not> found then Some (0, nd)
        else do {
          m \<leftarrow> prepareNetworkMessage topicId data len netMsgInfo (networkOutMessage gw);
          nd \<leftarrow> sendNetworkMessage g m (upd_gateway g (\<lambda>gw. gw\<lparr>networkOutMessage := m\<rparr>) nd);
          Some (1, nd)
        }
      })"

text \<open>The constructor of a gateway on a link, with the memory its messages and its list occupy.\<close>

definition Gateway_new :: "u32 \<Rightarrow> bool \<Rightarrow> bool \<Rightarrow> bool \<Rightarrow> NetworkMessage \<Rightarrow> NetworkMessage \<Rightarrow> TopicListReport \<Rightarrow> Gateway" where
  "Gateway_new link broadcast forwardall enab outMsg inMsg lst = \<lparr>gw_isEnabled = enab, networkOutMessage = outMsg,
     networkInMessage = inMsg, externalsubscribers = report_init lst, forwardAll = forwardall, linkIdentifier = link,
     isBroadcastLink = broadcast, getTopicsToForwardFromOutside = True, gw_sent = []\<rparr>"

definition shouldTopicForwarded :: "u32 \<Rightarrow> Gateway \<Rightarrow> bool option" where
  "shouldTopicForwarded topicId gw = (if forwardAll gw then Some True else report_find topicId (externalsubscribers gw))"

subsection \<open>Topics to forward\<close>

definition setTopicsToForward :: "TopicListReport \<Rightarrow> Gateway \<Rightarrow> Gateway" where
  "setTopicsToForward r gw = gw\<lparr>getTopicsToForwardFromOutside := False, externalsubscribers := r\<rparr>"

fun add_topics :: "nat list \<Rightarrow> TopicListReport \<Rightarrow> TopicListReport \<Rightarrow> TopicListReport option" where
  "add_topics [] wanted r = Some r"
| "add_topics (i # is) wanted r =
     (if i < length (topicList wanted)
      then do { r' \<leftarrow> report_add (topicList wanted ! i) r; add_topics is wanted r' } else None)"

definition addTopicsToForward :: "TopicListReport \<Rightarrow> Gateway \<Rightarrow> Gateway option" where
  "addTopicsToForward wanted gw = do {
     r \<leftarrow> add_topics [0..<numberOfTopics wanted] wanted (externalsubscribers gw);
     Some (gw\<lparr>getTopicsToForwardFromOutside := False, externalsubscribers := r\<rparr>)
   }"

fun add_topic_ids :: "u32 option list \<Rightarrow> TopicListReport \<Rightarrow> TopicListReport option" where
  "add_topic_ids [] r = Some r"
| "add_topic_ids (None # ts) r = add_topic_ids ts r"
| "add_topic_ids (Some t # ts) r = do { r' \<leftarrow> report_add t r; add_topic_ids ts r' }"

definition addTopicsToForward4 :: "u32 \<Rightarrow> u32 option \<Rightarrow> u32 option \<Rightarrow> u32 option \<Rightarrow> Gateway \<Rightarrow> Gateway option" where
  "addTopicsToForward4 t1 t2 t3 t4 gw = do {
     r \<leftarrow> add_topic_ids [Some t1, t2, t3, t4] (externalsubscribers gw);
     Some (gw\<lparr>getTopicsToForwardFromOutside := False, externalsubscribers := r\<rparr>)
   }"

definition resetTopicsToForward :: "Gateway \<Rightarrow> Gateway" where
  "resetTopicsToForward gw =
     gw\<lparr>getTopicsToForwardFromOutside := False, externalsubscribers := report_init (externalsubscribers gw)\<rparr>"

subsection \<open>Routing\<close>

definition shouldRouteThisMsg :: "NetworkMessage \<Rightarrow> Router \<Rightarrow> bool" where
  "shouldRouteThisMsg msg r =
     (if get_maxStepsToForward msg \<le> 0 then False
      else if get_topicId msg = 0 \<and> \<not> forwardTopicReports r then False
      else True)"

definition shouldRouteThisMsgToGateway :: "NetworkMessage \<Rightarrow> u32 \<Rightarrow> Gateway \<Rightarrow> bool option" where
  "shouldRouteThisMsgToGateway msg linkid gateway =
     (if linkIdentifier gateway = linkid then Some False else shouldTopicForwarded (get_topicId msg) gateway)"

fun route_to :: "nat option list \<Rightarrow> NetworkMessage \<Rightarrow> u32 \<Rightarrow> node \<Rightarrow> node option" where
  "route_to [] msg linkid nd = Some nd"
| "route_to (None # gs) msg linkid nd = None"
| "route_to (Some g # gs) msg linkid nd =
     (if \<not> g < length (nd_gateways nd) then None
      else do {
        b \<leftarrow> shouldRouteThisMsgToGateway msg linkid (nd_gateways nd ! g);
        nd \<leftarrow> (if b then sendNetworkMessage g msg nd else Some nd);
        route_to gs msg linkid nd
      })"

definition routeMsg :: "Router \<Rightarrow> NetworkMessage \<Rightarrow> u32 \<Rightarrow> node \<Rightarrow> (NetworkMessage \<times> node) option" where
  "routeMsg r msg linkid nd =
     (if shouldRouteThisMsg msg r
      then do {
        msg \<leftarrow> setCheckSum msg;
        nd \<leftarrow> (if numberOfGateways r \<le> length (gateways r)
               then route_to (take (numberOfGateways r) (gateways r)) msg linkid nd else None);
        Some (msg, nd)
      }
      else Some (msg, nd))"

text \<open>The data of the router topic are the bytes of a whole message.\<close>

definition Router_put :: "nat \<Rightarrow> u8 list \<Rightarrow> NetMsgInfo \<Rightarrow> node \<Rightarrow> (u32 \<times> u8 list \<times> node) option" where
  "Router_put k data netMsgInfo nd =
     (if k < length (nd_routers nd) \<and> length data = HEADER_SIZE + MAX_NETWORK_MESSAGE_LENGTH
      then do {
        (msg, nd) \<leftarrow> routeMsg (nd_routers nd ! k) (msg_of_bytes data) (linkId netMsgInfo) nd;
        Some (1, msg_bytes msg, nd)
      }
      else None)"

definition Router_putGeneric :: "nat \<Rightarrow> u32 \<Rightarrow> nat \<Rightarrow> u8 list \<Rightarrow> NetMsgInfo \<Rightarrow> node \<Rightarrow> node option" where
  "Router_putGeneric k topicId len data netMsgInfo nd =
     (if k < length (nd_routers nd)
      then do {
        m \<leftarrow> prepareNetworkMessage topicId data len netMsgInfo (localMessage (nd_routers nd ! k));
        (m, nd) \<leftarrow> routeMsg (nd_routers nd ! k) m LINK_ID_RODOS_LOCAL_BROADCAST nd;
        Some (nd\<lparr>nd_routers := (nd_routers nd)[k := (nd_routers nd ! k)\<lparr>localMessage := m\<rparr>]\<rparr>)
      }
      else None)"

definition addGateway :: "nat \<Rightarrow> Router \<Rightarrow> Router option" where
  "addGateway g r =
     (if numberOfGateways r < length (gateways r)
      then (let r = r\<lparr>gateways := (gateways r)[numberOfGateways r := Some g], numberOfGateways := numberOfGateways r + 1\<rparr>
            in Some (if numberOfGateways r > MAX_NUMBER_OF_GATEWAYS_PER_ROUTER
                     then r\<lparr>numberOfGateways := numberOfGateways r - 1\<rparr> else r))
      else None)"

definition Router_new :: "bool \<Rightarrow> nat option \<Rightarrow> nat option \<Rightarrow> nat option \<Rightarrow> nat option \<Rightarrow> NetworkMessage \<Rightarrow> Router" where
  "Router_new fwd g1 g2 g3 g4 m = \<lparr>localMessage = m, gateways = [g1, g2, g3, g4, None, None, None, None],
     numberOfGateways = length (filter (\<lambda>g. g \<noteq> None) [g1, g2, g3, g4]), forwardTopicReports = fwd\<rparr>"

subsection \<open>Subscribers\<close>

definition isEnabled :: "subscriber \<Rightarrow> node \<Rightarrow> bool" where
  "isEnabled s nd = (case s of Receiver en _ \<Rightarrow> en | GatewaySub g \<Rightarrow> g < length (nd_gateways nd) \<and> gw_isEnabled (nd_gateways nd ! g)
     | RouterSub en _ \<Rightarrow> en | RouterLocal _ \<Rightarrow> True)"

definition Subscriber_put :: "(subscriber, node) put_op" where
  "Subscriber_put s topicId len data netMsgInfo nd =
     (case s of
        Receiver en r \<Rightarrow>
          if \<not> en then Some (0, data, nd)
          else (case r of None \<Rightarrow> Some (0, data, nd)
            | Some k \<Rightarrow> if len \<le> length data
                then Some (1, data, nd\<lparr>nd_delivered := nd_delivered nd @ [(k, topicId, take len data, netMsgInfo)]\<rparr>)
                else None)
      | GatewaySub g \<Rightarrow> map_option (\<lambda>(c, nd). (c, data, nd)) (Gateway_put g topicId len data netMsgInfo nd)
      | RouterSub en k \<Rightarrow> Router_put k data netMsgInfo nd
      | RouterLocal k \<Rightarrow> map_option (\<lambda>nd. (1, data, nd)) (Router_putGeneric k topicId len data netMsgInfo nd))"

text \<open>From an interrupt the receiver is called without the semaphore and whether or not the subscriber is
  enabled.\<close>

definition Subscriber_putFromInterrupt :: "NetMsgInfo \<Rightarrow> subscriber \<Rightarrow> u32 \<Rightarrow> u8 list \<Rightarrow> nat \<Rightarrow> node \<Rightarrow> node" where
  "Subscriber_putFromInterrupt dummy s topicId any len nd =
     (case s of Receiver _ (Some k) \<Rightarrow> nd\<lparr>nd_delivered := nd_delivered nd @ [(k, topicId, take len any, dummy)]\<rparr> | _ \<Rightarrow> nd)"

definition Subscriber_enable :: "bool \<Rightarrow> subscriber \<Rightarrow> node \<Rightarrow> subscriber \<times> node" where
  "Subscriber_enable onOff s nd =
     (case s of Receiver _ r \<Rightarrow> (Receiver onOff r, nd) | RouterSub _ k \<Rightarrow> (RouterSub onOff k, nd)
      | GatewaySub g \<Rightarrow> (s, upd_gateway g (\<lambda>gw. gw\<lparr>gw_isEnabled := onOff\<rparr>) nd) | RouterLocal _ \<Rightarrow> (s, nd))"

text \<open>Publishing on a topic of the node; the local message information is that of the calling thread.\<close>

definition node_publish :: "NetMsgInfo \<Rightarrow> subscriber Topic \<Rightarrow> u8 list \<Rightarrow> bool \<Rightarrow> NetMsgInfo option \<Rightarrow> node \<Rightarrow>
    (u32 \<times> u8 list \<times> NetMsgInfo \<times> subscriber Topic \<times> node) option" where
  "node_publish localInfo t data toNet netMsgInfo nd =
     publish Subscriber_put isEnabled (nd_gatewaySubs nd) localInfo t data toNet netMsgInfo nd"

subsection \<open>Receiving\<close>

text \<open>The bytes of a received topic report, in the order of the host.\<close>

definition report_of_bytes :: "bool \<Rightarrow> u8 list \<Rightarrow> TopicListReport" where
  "report_of_bytes be bs =
     \<lparr>numberOfTopics = unat (host_value be (take 4 bs) :: u32),
      topicList = map (\<lambda>i. host_value be (bytes_at (4 + 4 * i) 4 bs)) [0..<MAX_SUBSCRIBERS]\<rparr>"

fun publish_topics :: "subscriber Topic list \<Rightarrow> u32 \<Rightarrow> NetMsgInfo \<Rightarrow> u8 list \<Rightarrow> node \<Rightarrow> (u8 list \<times> node) option" where
  "publish_topics [] topicId info data nd = Some (data, nd)"
| "publish_topics (t # ts) topicId info data nd =
     (if t_topicId t = topicId
      then do {
        (_, data, _, _, nd) \<leftarrow> node_publish info t data False (Some info) nd;
        publish_topics ts topicId info data nd
      }
      else publish_topics ts topicId info data nd)"

definition received_info :: "u32 \<Rightarrow> NetworkMessage \<Rightarrow> NetMsgInfo" where
  "received_info link m = \<lparr>senderNode = get_senderNode m, senderThreadId = get_senderThreadId m,
     sentTime = get_sentTime m, receiverNode = get_receiverNode m,
     receiverNodesBitMap = get_receiverNodesBitMap m, linkId = link, messageType = msgtype_of (get_type m)\<rparr>"

definition set_inMessage :: "nat \<Rightarrow> NetworkMessage \<Rightarrow> node \<Rightarrow> node" where
  "set_inMessage g m = upd_gateway g (\<lambda>gw. gw\<lparr>networkInMessage := m\<rparr>)"

text \<open>A received report of topics: added for a broadcast link, else it replaces the list.\<close>

definition topic_report :: "nat \<Rightarrow> NetworkMessage \<Rightarrow> node \<Rightarrow> node option" where
  "topic_report g m nd = do {
     gw \<leftarrow> (let gw = nd_gateways nd ! g; r = report_of_bytes (bigEndianHost nd) (userDataC m)
           in if isBroadcastLink gw then addTopicsToForward r gw else Some (setTopicsToForward r gw));
     Some (upd_gateway g (\<lambda>_. gw\<lparr>getTopicsToForwardFromOutside := True\<rparr>) nd)
   }"

definition distribute_message :: "nat \<Rightarrow> NetworkMessage \<Rightarrow> node \<Rightarrow> node option" where
  "distribute_message g m nd =
     (let info = received_info (linkIdentifier (nd_gateways nd ! g)) m
      in do {
        (data, nd) \<leftarrow> publish_topics (nd_topics nd) (get_topicId m) info (userDataC m) nd;
        let m = m\<lparr>userDataC := data\<rparr>;
        (_, bytes, _, _, nd) \<leftarrow> node_publish info (nd_routerTopic nd) (msg_bytes m) False (Some info) nd;
        Some (set_inMessage g (msg_of_bytes bytes) nd)
      })"

definition AnalyseAndDistribute :: "nat \<Rightarrow> node \<Rightarrow> node option" where
  "AnalyseAndDistribute g nd =
     (let m = networkInMessage (nd_gateways nd ! g)
      in if get_senderNode m = myNodeNr nd then Some nd
      else do {
        ok \<leftarrow> isCheckSumOk m;
        if \<not> ok then Some nd
        else (let (seen, nd) = messageSeen m nd
              in if seen then Some nd
              else let m = dec_maxStepsToForward m;
                       nd = (set_inMessage g m nd)\<lparr>numberOfReceivedMsgsFromNetwork := numberOfReceivedMsgsFromNetwork nd + 1\<rparr>
              in if get_topicId m = 0 \<and> getTopicsToForwardFromOutside (nd_gateways nd ! g) then topic_report g m nd
              else if get_topicId m > 0 then distribute_message g m nd
              else Some nd)
      })"

text \<open>One message from the link, as \<open>Gateway::run\<close> handles it: the link has written the message and
  reports its size, or a negative value if it does not know it.\<close>

definition gateway_receive :: "nat \<Rightarrow> NetworkMessage \<Rightarrow> int \<Rightarrow> node \<Rightarrow> node option" where
  "gateway_receive g inMsg realMsgSize nd =
     (if \<not> g < length (nd_gateways nd) then None
      else let nd = set_inMessage g inMsg nd
      in if realMsgSize < 0 then AnalyseAndDistribute g nd
      else if realMsgSize \<ge> int HEADER_SIZE
           then if realMsgSize = uint (numberOfBytesToSend inMsg) then AnalyseAndDistribute g nd else Some nd
           else Some nd)"

fun gateway_run :: "nat \<Rightarrow> (NetworkMessage \<times> int) list \<Rightarrow> node \<Rightarrow> node option" where
  "gateway_run g [] nd = Some nd"
| "gateway_run g ((m, n) # ms) nd = do { nd \<leftarrow> gateway_receive g m n nd; gateway_run g ms nd }"

section \<open>Well-formed nodes\<close>

definition wf_gateway :: "Gateway \<Rightarrow> bool" where
  "wf_gateway gw \<longleftrightarrow> wf_msg (networkOutMessage gw) \<and> wf_msg (networkInMessage gw) \<and> wf_report (externalsubscribers gw)"

definition wf_router :: "nat \<Rightarrow> Router \<Rightarrow> bool" where
  "wf_router n r \<longleftrightarrow> wf_msg (localMessage r) \<and> length (gateways r) = MAX_NUMBER_OF_GATEWAYS_PER_ROUTER \<and>
     numberOfGateways r \<le> MAX_NUMBER_OF_GATEWAYS_PER_ROUTER \<and>
     list_all (\<lambda>g. case g of None \<Rightarrow> False | Some k \<Rightarrow> k < n) (take (numberOfGateways r) (gateways r))"

definition is_receiver :: "subscriber \<Rightarrow> bool" where
  "is_receiver s = (case s of Receiver _ _ \<Rightarrow> True | _ \<Rightarrow> False)"

definition wf_local_topic :: "subscriber Topic \<Rightarrow> bool" where
  "wf_local_topic t \<longleftrightarrow> list_all is_receiver (t_mySubscribers t) \<and> t_msgLen t \<le> MAX_NETWORK_MESSAGE_LENGTH \<and>
     t_topicFilter t = None"

definition wf_router_topic :: "nat \<Rightarrow> subscriber Topic \<Rightarrow> bool" where
  "wf_router_topic n t \<longleftrightarrow> t_msgLen t = HEADER_SIZE + MAX_NETWORK_MESSAGE_LENGTH \<and> t_topicFilter t = None \<and>
     list_all (\<lambda>s. case s of Receiver _ _ \<Rightarrow> True | RouterSub _ k \<Rightarrow> k < n | _ \<Rightarrow> False) (t_mySubscribers t)"

definition wf_node :: "node \<Rightarrow> bool" where
  "wf_node nd \<longleftrightarrow> list_all wf_gateway (nd_gateways nd) \<and> list_all (wf_router (length (nd_gateways nd))) (nd_routers nd) \<and>
     list_all (\<lambda>t. t_topicId t = t_topicId (nd_routerTopic nd) \<or> wf_local_topic t) (nd_topics nd) \<and>
     wf_router_topic (length (nd_routers nd)) (nd_routerTopic nd)"

text \<open>The node after its gateways handed the messages \<open>f\<close> to their links, and its receivers got \<open>ds\<close>.\<close>

definition sent_more :: "(nat \<Rightarrow> NetworkMessage list) \<Rightarrow> node \<Rightarrow> node" where
  "sent_more f nd = nd\<lparr>nd_gateways :=
     map (\<lambda>i. (nd_gateways nd ! i)\<lparr>gw_sent := gw_sent (nd_gateways nd ! i) @ f i\<rparr>) [0..<length (nd_gateways nd)]\<rparr>"

definition got_more :: "(nat \<times> u32 \<times> u8 list \<times> NetMsgInfo) list \<Rightarrow> node \<Rightarrow> node" where
  "got_more ds nd = nd\<lparr>nd_delivered := nd_delivered nd @ ds\<rparr>"

lemma sent_more_nth: "i < length (nd_gateways nd) \<Longrightarrow>
    nd_gateways (sent_more f nd) ! i = (nd_gateways nd ! i)\<lparr>gw_sent := gw_sent (nd_gateways nd ! i) @ f i\<rparr>"
  by (simp add: sent_more_def)

lemma sent_more_length [simp]: "length (nd_gateways (sent_more f nd)) = length (nd_gateways nd)"
  by (simp add: sent_more_def)

lemma sent_more_none [simp]: "sent_more (\<lambda>_. []) nd = nd"
  by (simp add: sent_more_def map_nth)

lemma got_more_none [simp]: "got_more [] nd = nd"
  by (simp add: got_more_def)

lemma sent_more_twice: "sent_more h (sent_more f nd) = sent_more (\<lambda>i. f i @ h i) nd"
  by (simp add: sent_more_def)

lemma got_more_twice: "got_more b (got_more a nd) = got_more (a @ b) nd"
  by (simp add: got_more_def)

lemma sent_got: "sent_more f (got_more d nd) = got_more d (sent_more f nd)"
  by (simp add: sent_more_def got_more_def)

lemma sent_more_fields [simp]:
  "nd_routers (sent_more f nd) = nd_routers nd" "nd_topics (sent_more f nd) = nd_topics nd"
  "nd_routerTopic (sent_more f nd) = nd_routerTopic nd" "seenNodes (sent_more f nd) = seenNodes nd"
  "nd_delivered (sent_more f nd) = nd_delivered nd" "nd_gatewaySubs (sent_more f nd) = nd_gatewaySubs nd"
  by (simp_all add: sent_more_def)

lemma got_more_fields [simp]:
  "nd_routers (got_more d nd) = nd_routers nd" "nd_topics (got_more d nd) = nd_topics nd"
  "nd_routerTopic (got_more d nd) = nd_routerTopic nd" "seenNodes (got_more d nd) = seenNodes nd"
  "nd_gateways (got_more d nd) = nd_gateways nd" "nd_delivered (got_more d nd) = nd_delivered nd @ d"
  "nd_gatewaySubs (got_more d nd) = nd_gatewaySubs nd"
  by (simp_all add: got_more_def)

lemma wf_gateway_nth: "wf_node nd \<Longrightarrow> g < length (nd_gateways nd) \<Longrightarrow> wf_gateway (nd_gateways nd ! g)"
  by (simp add: wf_node_def list_all_length)

lemma wf_sent_more [inv_intros]: "wf_node nd \<Longrightarrow> wf_node (sent_more f nd)"
  by (auto simp: wf_node_def list_all_length sent_more_nth wf_gateway_def)

lemma wf_got_more [inv_intros]: "wf_node nd \<Longrightarrow> wf_node (got_more d nd)"
  by (simp add: wf_node_def)

lemma send_is_sent_more:
  "g < length (nd_gateways nd) \<Longrightarrow>
     sendNetworkMessage g m nd = Some (sent_more (\<lambda>i. if i = g then [m] else []) nd)"
  by (auto simp: sendNetworkMessage_def upd_gateway_def sent_more_def intro!: arg_cong [where f = "\<lambda>x. nd\<lparr>nd_gateways := x\<rparr>"] nth_equalityI)

section \<open>Routing\<close>

text \<open>The messages a router hands to the links: copies of the message, never to the link it came from.\<close>

definition routes :: "NetworkMessage \<Rightarrow> u32 \<Rightarrow> node \<Rightarrow> (nat \<Rightarrow> NetworkMessage list) \<Rightarrow> bool" where
  "routes m link nd f \<longleftrightarrow> (\<forall>i < length (nd_gateways nd).
     set (f i) \<subseteq> {m} \<and> (f i \<noteq> [] \<longrightarrow> linkIdentifier (nd_gateways nd ! i) \<noteq> link \<and> 0 < get_maxStepsToForward m))"

lemma routes_none [simp]: "routes m link nd (\<lambda>_. [])"
  by (simp add: routes_def)

lemma routes_append:
  "routes m link nd f \<Longrightarrow> routes m link (sent_more f nd) h \<Longrightarrow> routes m link nd (\<lambda>i. f i @ h i)"
  by (auto simp: routes_def sent_more_nth)

lemma routes_got [simp]: "routes m link (got_more d nd) f = routes m link nd f"
  by (simp add: routes_def)

lemma shouldTopicForwarded_total: "wf_gateway gw \<Longrightarrow> \<exists>b. shouldTopicForwarded t gw = Some b"
  by (auto simp: shouldTopicForwarded_def report_find_listed wf_gateway_def)

lemma route_to_routes:
  assumes "wf_node nd" "list_all (\<lambda>g. case g of None \<Rightarrow> False | Some k \<Rightarrow> k < length (nd_gateways nd)) gs"
    and "0 < get_maxStepsToForward m"
  shows "\<exists>f. route_to gs m link nd = Some (sent_more f nd) \<and> routes m link nd f"
  using assms
proof (induction gs arbitrary: nd)
  case Nil
  then show ?case by (auto intro!: exI [of _ "\<lambda>_. []"])
next
  case (Cons g gs)
  then obtain k where k: "g = Some k" "k < length (nd_gateways nd)" by (cases g) auto
  obtain b where b: "shouldTopicForwarded (get_topicId m) (nd_gateways nd ! k) = Some b"
    using shouldTopicForwarded_total [OF wf_gateway_nth [OF Cons.prems(1) k(2)]] by auto
  define f where "f = (\<lambda>i. if i = k \<and> b \<and> linkIdentifier (nd_gateways nd ! k) \<noteq> link then [m] else [])"
  have f: "routes m link nd f" using k Cons.prems by (auto simp: routes_def f_def)
  have st: "route_to (g # gs) m link nd = route_to gs m link (sent_more f nd)"
    using k b by (auto simp: shouldRouteThisMsgToGateway_def send_is_sent_more f_def if_distrib cong: if_cong)
  obtain h where h: "route_to gs m link (sent_more f nd) = Some (sent_more h (sent_more f nd))"
    "routes m link (sent_more f nd) h"
    using Cons.IH [of "sent_more f nd"] Cons.prems wf_sent_more by auto
  then show ?case using st routes_append [OF f h(2)] by (auto simp: sent_more_twice)
qed

text \<open>Setting the checksum of a message whose checksum is right changes nothing.\<close>

lemma patch_same: "off + w \<le> length xs \<Longrightarrow> patch_at off (bytes_at off w xs) xs = xs"
  by (simp add: patch_at_def bytes_at_def min_def) (metis append_take_drop_id drop_drop add.commute)

lemma enc_dec: "length bs = 2 \<Longrightarrow> enc16 (dec_word bs) = bs"
  using le_bytes_value [where 'a = 16, of "rev bs" 2] by (simp add: enc16_def dec_word_def)

lemma setCheckSum_same:
  assumes "wf_msg m" "isCheckSumOk m = Some True"
  shows "setCheckSum m = Some m"
proof -
  have "length (bytes_at 10 2 (header m)) = 2" using assms(1) by (simp add: wf_msg_def HEADER_SIZE_def bytes_at_def)
  then have "put_checkSum (get_checksum m) m = m"
    using assms(1) patch_same [of 10 2 "header m"]
    by (simp add: fSum.put_patch fSum.get_bytes enc_dec wf_msg_def HEADER_SIZE_def)
  then show ?thesis using assms(2) by (auto simp: setCheckSum_def isCheckSumOk_def)
qed

lemma routeMsg_routes:
  assumes "wf_node nd" "k < length (nd_routers nd)" "wf_msg m" "isCheckSumOk m = Some True"
  shows "\<exists>f. routeMsg (nd_routers nd ! k) m link nd = Some (m, sent_more f nd) \<and> routes m link nd f"
proof -
  have r: "wf_router (length (nd_gateways nd)) (nd_routers nd ! k)"
    using assms(1,2) by (simp add: wf_node_def list_all_length)
  show ?thesis
  proof (cases "shouldRouteThisMsg m (nd_routers nd ! k)")
    case True
    then have "0 < get_maxStepsToForward m" by (auto simp: shouldRouteThisMsg_def split: if_splits)
    from route_to_routes [OF assms(1) _ this, of "take (numberOfGateways (nd_routers nd ! k)) (gateways (nd_routers nd ! k))" link]
    show ?thesis using True r by (auto simp: routeMsg_def setCheckSum_same assms wf_router_def)
  next
    case False
    then show ?thesis by (auto simp: routeMsg_def intro!: exI [of _ "\<lambda>_. []"])
  qed
qed

lemma msg_bytes_inverse: "wf_msg m \<Longrightarrow> msg_of_bytes (msg_bytes m) = m"
  by (simp add: msg_of_bytes_def msg_bytes_def wf_msg_def)

lemma length_msg_bytes: "wf_msg m \<Longrightarrow> length (msg_bytes m) = HEADER_SIZE + MAX_NETWORK_MESSAGE_LENGTH"
  by (simp add: msg_bytes_def wf_msg_def)

text \<open>What the receivers among a list of subscribers get.\<close>

definition deliveries :: "subscriber list \<Rightarrow> u32 \<Rightarrow> u8 list \<Rightarrow> NetMsgInfo \<Rightarrow> (nat \<times> u32 \<times> u8 list \<times> NetMsgInfo) list" where
  "deliveries subs topicId data info =
     concat (map (\<lambda>s. case s of Receiver True (Some k) \<Rightarrow> [(k, topicId, data, info)] | _ \<Rightarrow> []) subs)"

lemma put_receiver:
  "is_receiver s \<Longrightarrow> isEnabled s nd \<Longrightarrow> len \<le> length data \<Longrightarrow>
    \<exists>c. Subscriber_put s tid len data info nd = Some (c, data, got_more (deliveries [s] tid (take len data) info) nd)"
  by (auto simp: is_receiver_def isEnabled_def Subscriber_put_def deliveries_def got_more_def split: subscriber.splits option.splits)

lemma deliveries_disabled: "is_receiver s \<Longrightarrow> \<not> isEnabled s nd \<Longrightarrow> deliveries [s] tid data info = []"
  by (auto simp: is_receiver_def isEnabled_def deliveries_def split: subscriber.splits)

lemma deliveries_Cons: "deliveries (s # ss) tid data info = deliveries [s] tid data info @ deliveries ss tid data info"
  by (simp add: deliveries_def)

lemma distribute_receivers:
  assumes "list_all is_receiver subs" "len \<le> length data"
  shows "\<exists>c. distribute Subscriber_put isEnabled subs tid len info cnt data nd =
    Some (c, data, got_more (deliveries subs tid (take len data) info) nd)"
  using assms
proof (induction subs arbitrary: cnt nd)
  case Nil
  then show ?case by (simp add: deliveries_def)
next
  case (Cons s subs)
  show ?case
  proof (cases "isEnabled s nd")
    case True
    then obtain c where c: "Subscriber_put s tid len data info nd =
        Some (c, data, got_more (deliveries [s] tid (take len data) info) nd)"
      using put_receiver Cons.prems by force
    show ?thesis using Cons True c
      by (simp add: deliveries_Cons [of s subs] got_more_twice [symmetric])
  next
    case False
    then show ?thesis using Cons deliveries_disabled [of s nd tid "take len data" info]
      by (simp add: deliveries_Cons [of s subs])
  qed
qed

lemma distribute_router_topic:
  assumes "wf_node nd" "wf_msg m" "isCheckSumOk m = Some True" "linkId info = link"
    and "list_all (\<lambda>s. case s of Receiver _ _ \<Rightarrow> True | RouterSub _ k \<Rightarrow> k < length (nd_routers nd) | _ \<Rightarrow> False) subs"
  shows "\<exists>c f. distribute Subscriber_put isEnabled subs tid (HEADER_SIZE + MAX_NETWORK_MESSAGE_LENGTH) info cnt (msg_bytes m) nd =
    Some (c, msg_bytes m, got_more (deliveries subs tid (msg_bytes m) info) (sent_more f nd)) \<and> routes m link nd f"
  using assms
proof (induction subs arbitrary: cnt nd)
  case Nil
  then show ?case by (auto simp: deliveries_def intro!: exI [of _ "\<lambda>_. []"])
next
  case (Cons s subs)
  let ?n = "HEADER_SIZE + MAX_NETWORK_MESSAGE_LENGTH"
  have "\<exists>f c. (if isEnabled s nd then Subscriber_put s tid ?n (msg_bytes m) info nd else Some (0, msg_bytes m, nd)) =
     Some (c, msg_bytes m, got_more (deliveries [s] tid (msg_bytes m) info) (sent_more f nd)) \<and> routes m link nd f"
  proof (cases "is_receiver s")
    case True
    then show ?thesis
      using put_receiver [of s nd ?n "msg_bytes m" tid info] deliveries_disabled [of s nd tid "msg_bytes m" info] Cons.prems
      by (cases "isEnabled s nd") (auto simp: length_msg_bytes intro!: exI [of _ "\<lambda>_. []"])
  next
    case False
    then obtain en k where s: "s = RouterSub en k" "k < length (nd_routers nd)"
      using Cons.prems by (cases s) (auto simp: is_receiver_def)
    obtain f where f: "routeMsg (nd_routers nd ! k) m link nd = Some (m, sent_more f nd)" "routes m link nd f"
      using routeMsg_routes [OF Cons.prems(1) s(2) Cons.prems(2,3), of link] by blast
    show ?thesis using s f Cons.prems
      by (intro exI [of _ "if en then f else (\<lambda>_. [])"] exI [of _ "if en then 1 else 0"])
        (auto simp: isEnabled_def Subscriber_put_def Router_put_def length_msg_bytes msg_bytes_inverse deliveries_def)
  qed
  then obtain f c where f: "(if isEnabled s nd then Subscriber_put s tid ?n (msg_bytes m) info nd else Some (0, msg_bytes m, nd)) =
     Some (c, msg_bytes m, got_more (deliveries [s] tid (msg_bytes m) info) (sent_more f nd))" "routes m link nd f"
    by blast
  let ?nd = "got_more (deliveries [s] tid (msg_bytes m) info) (sent_more f nd)"
  have st: "distribute Subscriber_put isEnabled (s # subs) tid ?n info cnt (msg_bytes m) nd =
    distribute Subscriber_put isEnabled subs tid ?n info (cnt + c) (msg_bytes m) ?nd"
    using f(1) by (cases "isEnabled s nd") auto
  obtain c' h where h: "distribute Subscriber_put isEnabled subs tid ?n info (cnt + c) (msg_bytes m) ?nd =
      Some (c', msg_bytes m, got_more (deliveries subs tid (msg_bytes m) info) (sent_more h ?nd))" "routes m link ?nd h"
    using Cons.IH [of ?nd "cnt + c"] Cons.prems by (auto intro: inv_intros)
  have "routes m link nd (\<lambda>i. f i @ h i)"
    using routes_append [OF f(2), of h] h(2) by simp
  then show ?case using st h(1)
    by (auto simp: sent_got got_more_twice sent_more_twice deliveries_Cons [of s subs])
qed

section \<open>Receiving\<close>

lemma publish_local:
  assumes "wf_local_topic t" "length data = MAX_NETWORK_MESSAGE_LENGTH"
  shows "\<exists>c. node_publish li t data False (Some info) nd =
    Some (c, data, info, t, got_more (deliveries (t_mySubscribers t) (t_topicId t) (take (t_msgLen t) data) info) nd)"
  using assms distribute_receivers [of "t_mySubscribers t" "t_msgLen t" data "t_topicId t" info 0 nd]
  by (auto simp: node_publish_def publish_def publishMsgPart_def wf_local_topic_def)

lemma publish_topics_deliveries:
  assumes "list_all (\<lambda>t. t_topicId t = tid \<longrightarrow> wf_local_topic t) ts" "length data = MAX_NETWORK_MESSAGE_LENGTH"
  shows "publish_topics ts tid info data nd = Some (data, got_more
    (concat (map (\<lambda>t. deliveries (t_mySubscribers t) tid (take (t_msgLen t) data) info) (filter (\<lambda>t. t_topicId t = tid) ts))) nd)"
  using assms
proof (induction ts arbitrary: nd)
  case (Cons t ts)
  then show ?case using publish_local [of t data info info nd]
    by (cases "t_topicId t = tid") (auto simp: got_more_twice)
qed simp

lemma publish_router_topic:
  assumes "wf_node nd" "wf_msg m" "isCheckSumOk m = Some True"
  shows "\<exists>c f. node_publish info (nd_routerTopic nd) (msg_bytes m) False (Some info) nd =
    Some (c, msg_bytes m, info, nd_routerTopic nd,
      got_more (deliveries (t_mySubscribers (nd_routerTopic nd)) (t_topicId (nd_routerTopic nd)) (msg_bytes m) info) (sent_more f nd)) \<and>
    routes m (linkId info) nd f"
  using distribute_router_topic [where info = info and subs = "t_mySubscribers (nd_routerTopic nd)" and
      tid = "t_topicId (nd_routerTopic nd)" and cnt = 0, OF assms refl]
    assms(1) by (auto simp: node_publish_def publish_def publishMsgPart_def wf_node_def wf_router_topic_def)

text \<open>All that the receivers of a node get of a message.\<close>

definition all_deliveries :: "NetworkMessage \<Rightarrow> NetMsgInfo \<Rightarrow> node \<Rightarrow> (nat \<times> u32 \<times> u8 list \<times> NetMsgInfo) list" where
  "all_deliveries m info nd =
     concat (map (\<lambda>t. deliveries (t_mySubscribers t) (get_topicId m) (take (t_msgLen t) (userDataC m)) info)
       (filter (\<lambda>t. t_topicId t = get_topicId m) (nd_topics nd))) @
     deliveries (t_mySubscribers (nd_routerTopic nd)) (t_topicId (nd_routerTopic nd)) (msg_bytes m) info"

lemma set_inMessage_same: "networkInMessage (nd_gateways nd ! g) = m \<Longrightarrow> set_inMessage g m nd = nd"
  by (cases "g < length (nd_gateways nd)") (auto simp: set_inMessage_def upd_gateway_def list_update_same_conv)

lemma distribute_message_eq:
  assumes "wf_node nd" "wf_msg m" "isCheckSumOk m = Some True" "g < length (nd_gateways nd)"
    and "networkInMessage (nd_gateways nd ! g) = m" "get_topicId m \<noteq> t_topicId (nd_routerTopic nd)"
  defines "info \<equiv> received_info (linkIdentifier (nd_gateways nd ! g)) m"
  shows "\<exists>f. distribute_message g m nd = Some (got_more (all_deliveries m info nd) (sent_more f nd)) \<and>
    routes m (linkIdentifier (nd_gateways nd ! g)) nd f"
proof -
  let ?ds = "concat (map (\<lambda>t. deliveries (t_mySubscribers t) (get_topicId m) (take (t_msgLen t) (userDataC m)) info)
       (filter (\<lambda>t. t_topicId t = get_topicId m) (nd_topics nd)))"
  have "list_all (\<lambda>t. t_topicId t = get_topicId m \<longrightarrow> wf_local_topic t) (nd_topics nd)"
    using assms(1,6) by (auto simp: wf_node_def list_all_iff)
  then have p: "publish_topics (nd_topics nd) (get_topicId m) info (userDataC m) nd = Some (userDataC m, got_more ?ds nd)"
    using assms(2) by (intro publish_topics_deliveries) (simp_all add: wf_msg_def)
  obtain c f where f: "node_publish info (nd_routerTopic nd) (msg_bytes m) False (Some info) (got_more ?ds nd) =
      Some (c, msg_bytes m, info, nd_routerTopic nd,
      got_more (deliveries (t_mySubscribers (nd_routerTopic nd)) (t_topicId (nd_routerTopic nd)) (msg_bytes m) info)
       (sent_more f (got_more ?ds nd)))" "routes m (linkId info) nd f"
    using publish_router_topic [OF wf_got_more [OF assms(1), of ?ds] assms(2,3), of info] by auto
  have l: "linkId info = linkIdentifier (nd_gateways nd ! g)" by (simp add: info_def received_info_def)
  have i: "networkInMessage (nd_gateways (sent_more f nd) ! g) = m" using assms(4,5) by (simp add: sent_more_nth)
  show ?thesis using p f l i
    by (auto simp: distribute_message_def info_def [symmetric] msg_bytes_inverse assms(2) sent_got got_more_twice
      all_deliveries_def set_inMessage_same)
qed

lemma dec_fields:
  assumes "wf_msg m"
  shows "wf_msg (dec_maxStepsToForward m)" "userDataC (dec_maxStepsToForward m) = userDataC m"
    "isCheckSumOk (dec_maxStepsToForward m) = isCheckSumOk m" "get_topicId (dec_maxStepsToForward m) = get_topicId m"
    "received_info l (dec_maxStepsToForward m) = received_info l m"
  using assms by (simp_all add: dec_maxStepsToForward_def checkSum_unprotected fields_wf fields_data received_info_def)
    (simp_all add: field_simps)

text \<open>\<open>messageSeen\<close> changes only its table and its semaphore.\<close>

lemma messageSeen_frame:
  assumes "messageSeen m nd = (b, nd')"
  shows "nd_gateways nd' = nd_gateways nd" "nd_routers nd' = nd_routers nd" "nd_topics nd' = nd_topics nd"
    "nd_routerTopic nd' = nd_routerTopic nd" "nd_delivered nd' = nd_delivered nd" "myNodeNr nd' = myNodeNr nd"
    "numberOfReceivedMsgsFromNetwork nd' = numberOfReceivedMsgsFromNetwork nd" "bigEndianHost nd' = bigEndianHost nd"
    "nd_gatewaySubs nd' = nd_gatewaySubs nd"
  using assms by (auto simp: messageSeen_def Let_def split: option.splits if_splits)

lemmas messageSeen_snd = messageSeen_frame [OF prod.collapse [symmetric]]

lemma wf_node_same:
  assumes "nd_gateways nd' = nd_gateways nd" "nd_routers nd' = nd_routers nd" "nd_topics nd' = nd_topics nd"
    "nd_routerTopic nd' = nd_routerTopic nd"
  shows "wf_node nd' = wf_node nd"
  using assms by (simp add: wf_node_def)

lemma wf_upd_gateway:
  assumes "wf_node nd" "g < length (nd_gateways nd)" "wf_gateway (f (nd_gateways nd ! g))"
  shows "wf_node (upd_gateway g f nd)"
  using assms by (auto simp: wf_node_def upd_gateway_def list_all_length nth_list_update)

lemma wf_set_inMessage [inv_intros]:
  "wf_node nd \<Longrightarrow> g < length (nd_gateways nd) \<Longrightarrow> wf_msg m \<Longrightarrow> wf_node (set_inMessage g m nd)"
  using wf_gateway_nth [of nd g] by (simp add: set_inMessage_def wf_upd_gateway wf_gateway_def)

lemma upd_gateway_fields [simp]:
  "length (nd_gateways (upd_gateway g f nd)) = length (nd_gateways nd)"
  "nd_routers (upd_gateway g f nd) = nd_routers nd" "nd_topics (upd_gateway g f nd) = nd_topics nd"
  "nd_routerTopic (upd_gateway g f nd) = nd_routerTopic nd" "nd_delivered (upd_gateway g f nd) = nd_delivered nd"
  "myNodeNr (upd_gateway g f nd) = myNodeNr nd" "seenNodes (upd_gateway g f nd) = seenNodes nd"
  "seenNodesHeld (upd_gateway g f nd) = seenNodesHeld nd" "bigEndianHost (upd_gateway g f nd) = bigEndianHost nd"
  "numberOfReceivedMsgsFromNetwork (upd_gateway g f nd) = numberOfReceivedMsgsFromNetwork nd"
  "nd_gatewaySubs (upd_gateway g f nd) = nd_gatewaySubs nd"
  by (simp_all add: upd_gateway_def)

lemma upd_gateway_nth:
  "i < length (nd_gateways nd) \<Longrightarrow> nd_gateways (upd_gateway g f nd) ! i =
     (if i = g then f (nd_gateways nd ! i) else nd_gateways nd ! i)"
  by (simp add: upd_gateway_def nth_list_update')

lemma add_topics_wf:
  assumes "wf_report r" "length (topicList w) = MAX_SUBSCRIBERS" "\<forall>i \<in> set is. i < MAX_SUBSCRIBERS"
  shows "\<exists>r'. add_topics is w r = Some r' \<and> wf_report r'"
  using assms
proof (induction "is" arbitrary: r)
  case (Cons i "is")
  obtain r1 where "report_add (topicList w ! i) r = Some r1" "wf_report r1"
    using report_add_listed [OF Cons.prems(1)] by blast
  then show ?case using Cons by auto
qed simp

lemma topic_report_wf:
  assumes "wf_node nd" "g < length (nd_gateways nd)"
    and "numberOfTopics (report_of_bytes (bigEndianHost nd) (userDataC m)) \<le> MAX_SUBSCRIBERS"
  shows "\<exists>nd'. topic_report g m nd = Some nd' \<and> wf_node nd' \<and>
    (\<forall>i < length (nd_gateways nd). gw_sent (nd_gateways nd' ! i) = gw_sent (nd_gateways nd ! i)) \<and>
    length (nd_gateways nd') = length (nd_gateways nd)"
proof -
  let ?gw = "nd_gateways nd ! g" and ?r = "report_of_bytes (bigEndianHost nd) (userDataC m)"
  have w: "wf_gateway ?gw" using assms wf_gateway_nth by blast
  have l: "length (topicList ?r) = MAX_SUBSCRIBERS" by (simp add: report_of_bytes_def)
  have "\<forall>i \<in> set [0..<numberOfTopics ?r]. i < MAX_SUBSCRIBERS" using assms(3) by auto
  from add_topics_wf [OF _ l this] w obtain r' where r': "add_topics [0..<numberOfTopics ?r] ?r (externalsubscribers ?gw) = Some r'"
    "wf_report r'" unfolding wf_gateway_def by blast
  have "wf_report ?r" using l assms(3) by (simp add: wf_report_def)
  then obtain gw where gw: "(if isBroadcastLink ?gw then addTopicsToForward ?r ?gw else Some (setTopicsToForward ?r ?gw)) = Some gw"
    "wf_gateway gw" "gw_sent gw = gw_sent ?gw"
    using w r' by (cases "isBroadcastLink ?gw") (auto simp: addTopicsToForward_def setTopicsToForward_def wf_gateway_def)
  then have "topic_report g m nd = Some (upd_gateway g (\<lambda>_. gw\<lparr>getTopicsToForwardFromOutside := True\<rparr>) nd)"
    by (simp add: topic_report_def Let_def)
  moreover have "wf_node (upd_gateway g (\<lambda>_. gw\<lparr>getTopicsToForwardFromOutside := True\<rparr>) nd)"
    using gw(2) assms by (intro wf_upd_gateway) (simp_all add: wf_gateway_def)
  ultimately show ?thesis using gw(3) by (auto simp: upd_gateway_nth)
qed

lemma messageSeen_cong: "seenNodes nd = seenNodes nd' \<Longrightarrow> fst (messageSeen m nd) = fst (messageSeen m nd')"
  by (auto simp: messageSeen_def Let_def split: option.splits)

lemma set_inMessage_fields [simp]:
  "length (nd_gateways (set_inMessage g m nd)) = length (nd_gateways nd)"
  "seenNodes (set_inMessage g m nd) = seenNodes nd" "nd_delivered (set_inMessage g m nd) = nd_delivered nd"
  "myNodeNr (set_inMessage g m nd) = myNodeNr nd" "nd_topics (set_inMessage g m nd) = nd_topics nd"
  "nd_routerTopic (set_inMessage g m nd) = nd_routerTopic nd" "bigEndianHost (set_inMessage g m nd) = bigEndianHost nd"
  "numberOfReceivedMsgsFromNetwork (set_inMessage g m nd) = numberOfReceivedMsgsFromNetwork nd"
  "seenNodesHeld (set_inMessage g m nd) = seenNodesHeld nd"
  by (simp_all add: set_inMessage_def)

lemma set_inMessage_nth:
  "i < length (nd_gateways nd) \<Longrightarrow> nd_gateways (set_inMessage g m nd) ! i =
     (if i = g then (nd_gateways nd ! i)\<lparr>networkInMessage := m\<rparr> else nd_gateways nd ! i)"
  by (simp add: set_inMessage_def upd_gateway_nth)

text \<open>The node after the bookkeeping for an accepted message, before it is distributed.\<close>

definition accepted_node :: "nat \<Rightarrow> NetworkMessage \<Rightarrow> node \<Rightarrow> node" where
  "accepted_node g m nd = (let nd1 = snd (messageSeen m (set_inMessage g m nd))
     in (set_inMessage g (dec_maxStepsToForward m) nd1)
       \<lparr>numberOfReceivedMsgsFromNetwork := numberOfReceivedMsgsFromNetwork nd1 + 1\<rparr>)"

lemma accepted_node_facts:
  assumes "g < length (nd_gateways nd)"
  shows "length (nd_gateways (accepted_node g m nd)) = length (nd_gateways nd)"
    "nd_delivered (accepted_node g m nd) = nd_delivered nd" "nd_topics (accepted_node g m nd) = nd_topics nd"
    "nd_routerTopic (accepted_node g m nd) = nd_routerTopic nd" "bigEndianHost (accepted_node g m nd) = bigEndianHost nd"
    "numberOfReceivedMsgsFromNetwork (accepted_node g m nd) = numberOfReceivedMsgsFromNetwork nd + 1"
    "i < length (nd_gateways nd) \<Longrightarrow> gw_sent (nd_gateways (accepted_node g m nd) ! i) = gw_sent (nd_gateways nd ! i)"
    "i < length (nd_gateways nd) \<Longrightarrow> linkIdentifier (nd_gateways (accepted_node g m nd) ! i) = linkIdentifier (nd_gateways nd ! i)"
    "networkInMessage (nd_gateways (accepted_node g m nd) ! g) = dec_maxStepsToForward m"
    "wf_node nd \<Longrightarrow> wf_msg m \<Longrightarrow> wf_node (accepted_node g m nd)"
proof -
  obtain b nd1 where s: "messageSeen m (set_inMessage g m nd) = (b, nd1)" by fastforce
  note f = messageSeen_frame [OF s]
  have w: "wf_node (set_inMessage g (dec_maxStepsToForward m) nd1)" if "wf_node nd" "wf_msg m"
  proof (rule wf_set_inMessage)
    show "wf_node nd1" using that assms f wf_node_same [of nd1 "set_inMessage g m nd"] wf_set_inMessage by simp
  qed (use assms f that dec_fields in \<open>simp_all\<close>)
  then show "wf_node nd \<Longrightarrow> wf_msg m \<Longrightarrow> wf_node (accepted_node g m nd)"
    by (simp add: accepted_node_def s wf_node_def)
qed (use assms in \<open>auto simp: accepted_node_def Let_def set_inMessage_nth messageSeen_snd\<close>)

definition size_ok :: "int \<Rightarrow> NetworkMessage \<Rightarrow> bool" where
  "size_ok n m \<longleftrightarrow> n < 0 \<or> int HEADER_SIZE \<le> n \<and> n = uint (numberOfBytesToSend m)"

lemma gateway_receive_eq:
  assumes "g < length (nd_gateways nd)"
  shows "gateway_receive g m n nd =
    (if \<not> size_ok n m \<or> get_senderNode m = myNodeNr nd then Some (set_inMessage g m nd)
     else case isCheckSumOk m of None \<Rightarrow> None | Some False \<Rightarrow> Some (set_inMessage g m nd)
     | Some True \<Rightarrow>
         if fst (messageSeen m nd) then Some (snd (messageSeen m (set_inMessage g m nd)))
         else if get_topicId (dec_maxStepsToForward m) = 0 \<and> getTopicsToForwardFromOutside (nd_gateways nd ! g)
         then topic_report g (dec_maxStepsToForward m) (accepted_node g m nd)
         else if get_topicId (dec_maxStepsToForward m) > 0
         then distribute_message g (dec_maxStepsToForward m) (accepted_node g m nd)
         else Some (accepted_node g m nd))"
proof -
  have s: "fst (messageSeen m (set_inMessage g m nd)) = fst (messageSeen m nd)" by (rule messageSeen_cong) simp
  have r: "gateway_receive g m n nd =
      (if size_ok n m then AnalyseAndDistribute g (set_inMessage g m nd) else Some (set_inMessage g m nd))"
    using assms by (auto simp: gateway_receive_def size_ok_def Let_def)
  have t: "getTopicsToForwardFromOutside (nd_gateways (accepted_node g m nd) ! g) = getTopicsToForwardFromOutside (nd_gateways nd ! g)"
    using assms by (simp add: accepted_node_def Let_def set_inMessage_nth messageSeen_snd)
  have m: "networkInMessage (nd_gateways (set_inMessage g m nd) ! g) = m" using assms by (simp add: set_inMessage_nth)
  have "AnalyseAndDistribute g (set_inMessage g m nd) =
    (if get_senderNode m = myNodeNr nd then Some (set_inMessage g m nd)
     else case isCheckSumOk m of None \<Rightarrow> None | Some False \<Rightarrow> Some (set_inMessage g m nd)
     | Some True \<Rightarrow>
         if fst (messageSeen m nd) then Some (snd (messageSeen m (set_inMessage g m nd)))
         else if get_topicId (dec_maxStepsToForward m) = 0 \<and> getTopicsToForwardFromOutside (nd_gateways nd ! g)
         then topic_report g (dec_maxStepsToForward m) (accepted_node g m nd)
         else if get_topicId (dec_maxStepsToForward m) > 0
         then distribute_message g (dec_maxStepsToForward m) (accepted_node g m nd)
         else Some (accepted_node g m nd))"
    unfolding AnalyseAndDistribute_def m Let_def t [symmetric]
    by (auto simp: s [symmetric] accepted_node_def Let_def split_beta split: option.splits bool.splits)
  then show ?thesis using r by simp
qed

lemma checksum_ok_len: "wf_msg m \<Longrightarrow> isCheckSumOk m = Some b \<Longrightarrow> unat (get_len m) \<le> MAX_NETWORK_MESSAGE_LENGTH"
  by (auto simp: isCheckSumOk_def calculateCheckSum_eq split: if_splits)

lemma receive_fresh:
  assumes "wf_node nd" "g < length (nd_gateways nd)" "wf_msg m" "size_ok n m" "get_senderNode m \<noteq> myNodeNr nd"
    and "isCheckSumOk m = Some True" "\<not> fst (messageSeen m nd)"
    and "0 < get_topicId m" "get_topicId m \<noteq> t_topicId (nd_routerTopic nd)"
  defines "m' \<equiv> dec_maxStepsToForward m" and "link \<equiv> linkIdentifier (nd_gateways nd ! g)"
  shows "\<exists>f. gateway_receive g m n nd = Some (got_more (all_deliveries m' (received_info link m) nd)
       (sent_more f (accepted_node g m nd))) \<and> routes m' link nd f"
proof -
  note a = accepted_node_facts [OF assms(2), where m = m]
  note d = dec_fields [OF assms(3)]
  obtain f where f: "distribute_message g m' (accepted_node g m nd) =
      Some (got_more (all_deliveries m' (received_info (linkIdentifier (nd_gateways (accepted_node g m nd) ! g)) m') (accepted_node g m nd))
        (sent_more f (accepted_node g m nd)))"
    "routes m' (linkIdentifier (nd_gateways (accepted_node g m nd) ! g)) (accepted_node g m nd) f"
    using distribute_message_eq [of "accepted_node g m nd" m' g] assms a d by (auto simp: m'_def)
  moreover have "all_deliveries m' i (accepted_node g m nd) = all_deliveries m' i nd" for i
    by (simp add: all_deliveries_def a)
  moreover have "linkIdentifier (nd_gateways (accepted_node g m nd) ! g) = link" by (simp add: a assms(2) link_def)
  moreover have "routes m' link nd f" using f(2) calculation(4) by (simp add: routes_def a)
  moreover have "gateway_receive g m n nd = distribute_message g m' (accepted_node g m nd)"
    using assms d unfolding m'_def by (subst gateway_receive_eq) auto
  ultimately show ?thesis using d by (auto simp: m'_def)
qed

section \<open>Messages seen before\<close>

text \<open>The table of the nodes as a map from senders to the time of the last message accepted from them.\<close>

definition last_seen :: "SeenNode list \<Rightarrow> int \<rightharpoonup> int" where
  "last_seen ns = map_of (map (\<lambda>n. (nodeID n, lastMsgTime n)) ns)"

lemma find_node_None: "find_node s ns = None \<longleftrightarrow> s \<notin> nodeID ` set ns"
  by (induction ns) auto

lemma find_node_Some:
  "find_node s ns = Some i \<Longrightarrow> i < length ns \<and> nodeID (ns ! i) = s \<and> last_seen ns s = Some (lastMsgTime (ns ! i)) \<and>
     last_seen (ns[i := (ns ! i)\<lparr>lastMsgTime := t\<rparr>]) = (last_seen ns)(s \<mapsto> t)"
proof (induction ns arbitrary: i)
  case (Cons n ns)
  then show ?case
    by (cases "nodeID n = s") (auto simp: last_seen_def fun_upd_twist split: option.splits)
qed simp

lemma last_seen_None: "last_seen ns s = None \<longleftrightarrow> s \<notin> nodeID ` set ns"
  by (simp add: last_seen_def map_of_eq_None_iff image_image)

lemma last_seen_snoc:
  "s \<notin> nodeID ` set ns \<Longrightarrow> last_seen (ns @ [\<lparr>nodeID = s, lastMsgTime = t\<rparr>]) = (last_seen ns)(s \<mapsto> t)"
  by (induction ns) (auto simp: last_seen_def fun_upd_twist)

text \<open>The table holds every sender once, and times of this side of the end of time.\<close>

definition wf_seen :: "SeenNode list \<Rightarrow> bool" where
  "wf_seen ns \<longleftrightarrow> distinct (map nodeID ns) \<and> list_all (\<lambda>n. 0 \<le> lastMsgTime n \<and> lastMsgTime n \<le> END_OF_TIME) ns"

text \<open>The decision on a message, over the map.\<close>

definition is_repeated :: "(int \<rightharpoonup> int) \<Rightarrow> int \<Rightarrow> int \<Rightarrow> bool" where
  "is_repeated lst s t = (case lst s of None \<Rightarrow> False | Some l \<Rightarrow> t \<le> l \<and> l - t \<le> 5 * SECONDS)"

lemma i64_diff: "0 \<le> l \<Longrightarrow> l \<le> END_OF_TIME \<Longrightarrow> 0 \<le> t \<Longrightarrow> t \<le> END_OF_TIME \<Longrightarrow> i64 (l - t) = l - t"
  by (rule i64_exact) (auto simp: in_i64_def END_OF_TIME_def)

lemma messageSeen_refines:
  assumes "wf_seen (seenNodes nd)" "0 \<le> get_sentTime m" "get_sentTime m \<le> END_OF_TIME"
    and "get_senderNode m \<in> nodeID ` set (seenNodes nd) \<or> length (seenNodes nd) < MAX_NUMBER_OF_NODES"
  defines "s \<equiv> get_senderNode m" and "t \<equiv> get_sentTime m" and "lst \<equiv> last_seen (seenNodes nd)"
  shows "fst (messageSeen m nd) = is_repeated lst s t"
    "last_seen (seenNodes (snd (messageSeen m nd))) = (if is_repeated lst s t then lst else lst(s \<mapsto> t))"
    "nodeID ` set (seenNodes (snd (messageSeen m nd))) = insert s (nodeID ` set (seenNodes nd))"
    "wf_seen (seenNodes (snd (messageSeen m nd)))" "seenNodesHeld (snd (messageSeen m nd)) = seenNodesHeld nd"
proof -
  have "fst (messageSeen m nd) = is_repeated lst s t \<and>
    last_seen (seenNodes (snd (messageSeen m nd))) = (if is_repeated lst s t then lst else lst(s \<mapsto> t)) \<and>
    nodeID ` set (seenNodes (snd (messageSeen m nd))) = insert s (nodeID ` set (seenNodes nd)) \<and>
    wf_seen (seenNodes (snd (messageSeen m nd))) \<and> seenNodesHeld (snd (messageSeen m nd)) = seenNodesHeld nd"
  proof (cases "find_node s (seenNodes nd)")
    case None
    let ?e = "\<lparr>nodeID = s, lastMsgTime = t\<rparr>"
    have n: "s \<notin> nodeID ` set (seenNodes nd)" using None by (simp add: find_node_None)
    then have len: "length (seenNodes nd) < MAX_NUMBER_OF_NODES" using assms(4) by (simp add: s_def)
    have "i64 (t - 1) = t - 1" using assms(2,3) by (intro i64_exact) (auto simp: in_i64_def END_OF_TIME_def t_def)
    then have "messageSeen m nd = (False, nd\<lparr>seenNodes := seenNodes nd @ [?e]\<rparr>)"
      using None len by (simp add: messageSeen_def Let_def s_def t_def nth_append)
    moreover have "is_repeated lst s t = False" using n by (simp add: is_repeated_def lst_def last_seen_None [THEN iffD2])
    ultimately show ?thesis using n assms(1-3) by (simp add: last_seen_snoc lst_def) (auto simp: wf_seen_def t_def)
  next
    case (Some i)
    note i = find_node_Some [OF Some, where t = t]
    have r: "0 \<le> lastMsgTime (seenNodes nd ! i)" "lastMsgTime (seenNodes nd ! i) \<le> END_OF_TIME"
      using i assms(1) by (auto simp: wf_seen_def list_all_length)
    have rep: "is_repeated lst s t \<longleftrightarrow> t \<le> lastMsgTime (seenNodes nd ! i) \<and> i64 (lastMsgTime (seenNodes nd ! i) - t) \<le> 5 * SECONDS"
      using i r assms(2,3) i64_diff [OF r, of t] by (simp add: is_repeated_def lst_def t_def)
    have eq: "messageSeen m nd = (is_repeated lst s t, if is_repeated lst s t then nd
        else nd\<lparr>seenNodes := (seenNodes nd)[i := (seenNodes nd ! i)\<lparr>lastMsgTime := t\<rparr>]\<rparr>)"
      using Some unfolding rep by (auto simp: messageSeen_def Let_def s_def [symmetric] t_def [symmetric])
    have ids: "map nodeID ((seenNodes nd)[i := (seenNodes nd ! i)\<lparr>lastMsgTime := t\<rparr>]) = map nodeID (seenNodes nd)"
      using i by (simp add: map_update list_update_same_conv)
    have "nodeID ` set ((seenNodes nd)[i := (seenNodes nd ! i)\<lparr>lastMsgTime := t\<rparr>]) = nodeID ` set (seenNodes nd)"
      using ids by (metis list.set_map)
    moreover have "insert s (nodeID ` set (seenNodes nd)) = nodeID ` set (seenNodes nd)"
      using i by (metis image_eqI insert_absorb nth_mem)
    moreover have "wf_seen ((seenNodes nd)[i := (seenNodes nd ! i)\<lparr>lastMsgTime := t\<rparr>])"
      using assms(1-3) i ids by (auto simp: wf_seen_def list_all_length nth_list_update t_def)
    ultimately show ?thesis using eq i assms(1) by (auto simp: lst_def)
  qed
  then show "fst (messageSeen m nd) = is_repeated lst s t"
    "last_seen (seenNodes (snd (messageSeen m nd))) = (if is_repeated lst s t then lst else lst(s \<mapsto> t))"
    "nodeID ` set (seenNodes (snd (messageSeen m nd))) = insert s (nodeID ` set (seenNodes nd))"
    "wf_seen (seenNodes (snd (messageSeen m nd)))" "seenNodesHeld (snd (messageSeen m nd)) = seenNodesHeld nd"
    by blast+
qed

text \<open>The messages of a sequence that pass the test, in order.\<close>

fun accept_all :: "NetworkMessage list \<Rightarrow> node \<Rightarrow> NetworkMessage list \<times> node" where
  "accept_all [] nd = ([], nd)"
| "accept_all (m # ms) nd =
     (let (seen, nd1) = messageSeen m nd; (as, nd2) = accept_all ms nd1 in (if seen then as else m # as, nd2))"

definition times_of :: "int \<Rightarrow> NetworkMessage list \<Rightarrow> int list" where
  "times_of s ms = map get_sentTime (filter (\<lambda>m. get_senderNode m = s) ms)"

abbreviation newer :: "int \<Rightarrow> int \<Rightarrow> bool" where
  "newer a b \<equiv> a < b \<or> b + 5 * SECONDS < a"

lemma times_of_simps [simp]:
  "times_of s [] = []" "times_of s (m # ms) = (if get_senderNode m = s then get_sentTime m # times_of s ms else times_of s ms)"
  by (simp_all add: times_of_def)

text \<open>One step of the filter keeps what the induction over a sequence of messages needs.\<close>

definition seen_room :: "NetworkMessage list \<Rightarrow> node \<Rightarrow> bool" where
  "seen_room ms nd \<longleftrightarrow> wf_seen (seenNodes nd) \<and> card (nodeID ` set (seenNodes nd) \<union> get_senderNode ` set ms) \<le> MAX_NUMBER_OF_NODES \<and>
     list_all (\<lambda>m. 0 \<le> get_sentTime m \<and> get_sentTime m \<le> END_OF_TIME) ms"

lemma seen_room_step:
  assumes "seen_room (m # ms) nd"
  defines "s \<equiv> get_senderNode m" and "t \<equiv> get_sentTime m" and "l \<equiv> last_seen (seenNodes nd)"
  shows "fst (messageSeen m nd) = is_repeated l s t"
    "last_seen (seenNodes (snd (messageSeen m nd))) = (if is_repeated l s t then l else l(s \<mapsto> t))"
    "seen_room ms (snd (messageSeen m nd))" "seenNodesHeld (snd (messageSeen m nd)) = seenNodesHeld nd"
proof -
  let ?I = "nodeID ` set (seenNodes nd)"
  have w: "wf_seen (seenNodes nd)" and t: "0 \<le> t" "t \<le> END_OF_TIME" and c: "card (?I \<union> insert s (get_senderNode ` set ms)) \<le> MAX_NUMBER_OF_NODES"
    using assms(1) by (simp_all add: seen_room_def s_def t_def)
  have "length (seenNodes nd) = card ?I" using w distinct_card [of "map nodeID (seenNodes nd)"] by (simp add: wf_seen_def)
  moreover have "card (insert s ?I) \<le> card (?I \<union> insert s (get_senderNode ` set ms))" by (intro card_mono) auto
  moreover have "s \<notin> ?I \<Longrightarrow> card (insert s ?I) = Suc (card ?I)" by simp
  ultimately have "s \<in> ?I \<or> length (seenNodes nd) < MAX_NUMBER_OF_NODES" using c by linarith
  note r = messageSeen_refines [OF w t [unfolded t_def] this [unfolded s_def], folded s_def t_def l_def]
  show "fst (messageSeen m nd) = is_repeated l s t"
    "last_seen (seenNodes (snd (messageSeen m nd))) = (if is_repeated l s t then l else l(s \<mapsto> t))"
    "seenNodesHeld (snd (messageSeen m nd)) = seenNodesHeld nd" using r by simp_all
  have "insert s ?I \<union> get_senderNode ` set ms = ?I \<union> insert s (get_senderNode ` set ms)" by auto
  then show "seen_room ms (snd (messageSeen m nd))"
    using assms(1) r c by (simp add: seen_room_def)
qed

lemma accept_all_newer:
  "seen_room ms nd \<Longrightarrow> successively newer ((case last_seen (seenNodes nd) s of None \<Rightarrow> [] | Some l \<Rightarrow> [l]) @
     times_of s (fst (accept_all ms nd))) \<and> seenNodesHeld (snd (accept_all ms nd)) = seenNodesHeld nd"
proof (induction ms arbitrary: nd)
  case Nil
  then show ?case by (simp split: option.splits)
next
  case (Cons m ms)
  note st = seen_room_step [OF Cons.prems]
  note ih = Cons.IH [OF st(3)]
  show ?case
  proof (cases "is_repeated (last_seen (seenNodes nd)) (get_senderNode m) (get_sentTime m)")
    case True
    then show ?thesis using ih st by (simp add: Let_def split_beta)
  next
    case False
    then have e: "fst (accept_all (m # ms) nd) = m # fst (accept_all ms (snd (messageSeen m nd)))"
      "snd (accept_all (m # ms) nd) = snd (accept_all ms (snd (messageSeen m nd)))"
      using st by (simp_all add: Let_def split_beta)
    show ?thesis
    proof (cases "get_senderNode m = s")
      case True
      then show ?thesis using ih st False unfolding e
        by (auto simp: is_repeated_def split: option.splits)
    next
      case s: False
      then show ?thesis using ih st False unfolding e by simp
    qed
  qed
qed

lemma accept_all_increasing:
  "seen_room ms nd \<Longrightarrow> (\<And>s. sorted_wrt (<) ((case last_seen (seenNodes nd) s of None \<Rightarrow> [] | Some l \<Rightarrow> [l]) @ times_of s ms)) \<Longrightarrow>
     fst (accept_all ms nd) = ms"
proof (induction ms arbitrary: nd)
  case (Cons m ms)
  note st = seen_room_step [OF Cons.prems(1)]
  have n: "\<not> is_repeated (last_seen (seenNodes nd)) (get_senderNode m) (get_sentTime m)"
    using Cons.prems(2) [of "get_senderNode m"] by (auto simp: is_repeated_def split: option.splits)
  have "fst (accept_all ms (snd (messageSeen m nd))) = ms"
  proof (rule Cons.IH [OF st(3)])
    fix s show "sorted_wrt (<) ((case last_seen (seenNodes (snd (messageSeen m nd))) s of None \<Rightarrow> [] | Some l \<Rightarrow> [l]) @ times_of s ms)"
      using Cons.prems(2) [of s] n st(2) by (auto split: option.splits)
  qed
  then show ?case using st(1) n by (simp add: Let_def split_beta)
qed simp

section \<open>Properties\<close>

text \<open>
  C12. Duplicates are suppressed: of the messages that arrive at a node with an empty table from at most
  ten senders, over whichever gateways and in whichever order, those of one sender that are accepted are
  each newer than the one accepted before, or older by more than five seconds (the sender was
  restarted). Messages that arrive in the order of their times are all accepted, and the semaphore is
  released.
\<close>

theorem duplicates_suppressed:
  assumes "seenNodes nd = []" "card (get_senderNode ` set ms) \<le> 10"
    and "\<forall>m \<in> set ms. 0 \<le> get_sentTime m \<and> get_sentTime m \<le> END_OF_TIME"
  shows "successively newer (times_of s (fst (accept_all ms nd))) \<and>
    ((\<forall>s. sorted_wrt (<) (times_of s ms)) \<longrightarrow> fst (accept_all ms nd) = ms) \<and>
    seenNodesHeld (snd (accept_all ms nd)) = seenNodesHeld nd"
proof -
  have r: "seen_room ms nd" using assms by (simp add: seen_room_def wf_seen_def MAX_NUMBER_OF_NODES_def list_all_iff)
  have "last_seen (seenNodes nd) s = None" for s by (simp add: assms(1) last_seen_def)
  then show ?thesis using accept_all_newer [OF r, of s] accept_all_increasing [OF r] by simp
qed

text \<open>A node with one gateway and one topic with a receiver, for the witnesses.\<close>

definition blank_msg :: NetworkMessage where
  "blank_msg = \<lparr>header = replicate 36 0, userDataC = replicate 1300 0\<rparr>"

definition example_gateway :: "u32 \<Rightarrow> Gateway" where
  "example_gateway link = \<lparr>gw_isEnabled = True, networkOutMessage = blank_msg, networkInMessage = blank_msg,
     externalsubscribers = \<lparr>numberOfTopics = 0, topicList = replicate 60 0\<rparr>, forwardAll = True, linkIdentifier = link,
     isBroadcastLink = False, getTopicsToForwardFromOutside = True, gw_sent = []\<rparr>"

definition example_node :: "int \<Rightarrow> node" where
  "example_node nr = \<lparr>myNodeNr = nr, bigEndianHost = False,
     nd_topics = [\<lparr>t_topicId = 2000, t_msgLen = 3, t_onlyLocal = False, t_topicFilter = None, t_receiverNodesBitMap = 0,
        t_mySubscribers = [Receiver True (Some 7), Receiver False (Some 8)]\<rparr>],
     nd_gatewaySubs = [GatewaySub 0],
     nd_routerTopic = \<lparr>t_topicId = 9000, t_msgLen = 1336, t_onlyLocal = False, t_topicFilter = None, t_receiverNodesBitMap = 0,
        t_mySubscribers = [RouterSub True 0]\<rparr>,
     nd_gateways = [example_gateway 1, example_gateway 2],
     nd_routers = [\<lparr>localMessage = blank_msg, gateways = [Some 0, Some 1, None, None, None, None, None, None],
        numberOfGateways = 2, forwardTopicReports = False\<rparr>],
     seenNodes = [], seenNodesHeld = 0, numberOfReceivedMsgsFromNetwork = 0, nd_delivered = []\<rparr>"

lemma blank_wf: "wf_msg blank_msg"
  by (simp add: blank_msg_def wf_msg_def HEADER_SIZE_def MAX_NETWORK_MESSAGE_LENGTH_def)

lemma example_wf: "wf_node (example_node nr)"
  by (simp add: wf_node_def example_node_def example_gateway_def wf_gateway_def blank_wf wf_report_def MAX_SUBSCRIBERS_def
      wf_router_def MAX_NUMBER_OF_GATEWAYS_PER_ROUTER_def wf_router_topic_def wf_local_topic_def is_receiver_def
      HEADER_SIZE_def MAX_NETWORK_MESSAGE_LENGTH_def numeral_eq_Suc)

theorem duplicates_suppressed_witness:
  "successively newer (times_of 0 (fst (accept_all [put_sentTime 5 blank_msg, put_sentTime 5 blank_msg, put_sentTime 7 blank_msg] (example_node 1)))) \<and>
   fst (accept_all [put_sentTime 5 blank_msg, put_sentTime 7 blank_msg] (example_node 1)) =
     [put_sentTime 5 blank_msg, put_sentTime 7 blank_msg]"
proof -
  have t: "get_sentTime (put_sentTime t blank_msg) = t" if "0 \<le> t" "t < 100" for t
    using that by (intro fTime.get_put blank_wf) (simp add: signed_range_def)
  have s: "get_senderNode (put_sentTime t blank_msg) = get_senderNode blank_msg" for t
    by (simp add: field_simps blank_wf)
  have n: "seenNodes (example_node 1) = []" by (simp add: example_node_def)
  have srt: "sorted_wrt (<) (times_of s [put_sentTime 5 blank_msg, put_sentTime 7 blank_msg])" for s
    by (simp add: t)
  show ?thesis
    using duplicates_suppressed [of "example_node 1" "[put_sentTime 5 blank_msg, put_sentTime 5 blank_msg, put_sentTime 7 blank_msg]" 0]
      duplicates_suppressed [of "example_node 1" "[put_sentTime 5 blank_msg, put_sentTime 7 blank_msg]" 0]
    by (simp only: n srt) (simp add: t s END_OF_TIME_def)
qed

text \<open>
  C11. A message that arrives intact, is not the node's own and was not seen before is delivered once to
  every enabled receiver of every topic with its id, in the order of the lists, with the first bytes of
  the user data and the information of the header; the node forwards at most copies of the message with
  the number of steps decremented, never on the link it came from, and stays well-formed.
\<close>

theorem gateway_delivers:
  assumes "wf_node nd" "g < length (nd_gateways nd)" "wf_msg m" "size_ok n m" "get_senderNode m \<noteq> myNodeNr nd"
    and "isCheckSumOk m = Some True" "\<not> fst (messageSeen m nd)"
    and "0 < get_topicId m" "get_topicId m \<noteq> t_topicId (nd_routerTopic nd)"
  shows "\<exists>nd' f. gateway_receive g m n nd = Some nd' \<and> wf_node nd' \<and>
    nd_delivered nd' = nd_delivered nd @
      all_deliveries (dec_maxStepsToForward m) (received_info (linkIdentifier (nd_gateways nd ! g)) m) nd \<and>
    numberOfReceivedMsgsFromNetwork nd' = numberOfReceivedMsgsFromNetwork nd + 1 \<and>
    (\<forall>i < length (nd_gateways nd). gw_sent (nd_gateways nd' ! i) = gw_sent (nd_gateways nd ! i) @ f i) \<and>
    routes (dec_maxStepsToForward m) (linkIdentifier (nd_gateways nd ! g)) nd f"
proof -
  note a = accepted_node_facts [OF assms(2), where m = m]
  obtain f where f: "gateway_receive g m n nd = Some (got_more (all_deliveries (dec_maxStepsToForward m)
      (received_info (linkIdentifier (nd_gateways nd ! g)) m) nd) (sent_more f (accepted_node g m nd)))"
    "routes (dec_maxStepsToForward m) (linkIdentifier (nd_gateways nd ! g)) nd f"
    using receive_fresh [OF assms] by blast
  show ?thesis
  proof (intro exI conjI)
    show "wf_node (got_more (all_deliveries (dec_maxStepsToForward m)
      (received_info (linkIdentifier (nd_gateways nd ! g)) m) nd) (sent_more f (accepted_node g m nd)))"
      by (intro inv_intros a assms)
  qed (use f a in \<open>auto simp: sent_more_nth sent_more_def got_more_def\<close>)
qed

definition example_info :: NetMsgInfo where
  "example_info = \<lparr>senderNode = 5, senderThreadId = 9, sentTime = 1000, receiverNode = -1, receiverNodesBitMap = 6,
     linkId = 0, messageType = REQUEST\<rparr>"

definition example_message :: NetworkMessage where
  "example_message = the (prepareNetworkMessage 2000 [1, 2, 3] 3 example_info blank_msg)"

lemma example_message_facts:
  "wf_msg example_message" "get_topicId example_message = 2000" "get_senderNode example_message = 5"
  "get_sentTime example_message = 1000" "get_maxStepsToForward example_message = 10"
  "isCheckSumOk example_message = Some True" "take 3 (userDataC example_message) = [1, 2, 3]"
proof -
  obtain m where m: "prepareNetworkMessage 2000 [1, 2, 3] 3 example_info blank_msg = Some m" "wf_msg m"
    "get_topicId m = 2000" "get_senderNode m = 5" "get_sentTime m = 1000" "get_maxStepsToForward m = 10"
    "isCheckSumOk m = Some True" "getUserData 0xFFFF m = (3, [1, 2, 3])"
    using prepared_message [of blank_msg 3 "[1, 2, 3]" example_info 2000]
    by (auto simp: blank_wf example_info_def signed_range_def clip_len_def MAX_NETWORK_MESSAGE_LENGTH_def)
  moreover have "take 3 (userDataC m) = [1, 2, 3]" using m(8) by (auto simp: getUserData_def Let_def)
  ultimately show "wf_msg example_message" "get_topicId example_message = 2000" "get_senderNode example_message = 5"
    "get_sentTime example_message = 1000" "get_maxStepsToForward example_message = 10"
    "isCheckSumOk example_message = Some True" "take 3 (userDataC example_message) = [1, 2, 3]"
    by (simp_all add: example_message_def)
qed

lemma example_fresh: "\<not> fst (messageSeen example_message (example_node 1))"
  by (simp add: messageSeen_def example_message_facts example_node_def MAX_NUMBER_OF_NODES_def i64_def)

theorem gateway_delivers_witness:
  "\<exists>nd' info. gateway_receive 0 example_message (-1) (example_node 1) = Some nd' \<and>
     nd_delivered nd' = [(7, 2000, [1, 2, 3], info)] \<and> numberOfReceivedMsgsFromNetwork nd' = 1"
proof -
  have s: "size_ok (-1) example_message" by (simp add: size_ok_def)
  have d: "all_deliveries (dec_maxStepsToForward example_message) i (example_node 1) = [(7, 2000, [1, 2, 3], i)]" for i
    using dec_fields [OF example_message_facts(1)]
    by (simp add: all_deliveries_def example_node_def example_message_facts deliveries_def)
  show ?thesis
    using gateway_delivers [OF example_wf _ example_message_facts(1) s _ example_message_facts(6) example_fresh, of 0]
    unfolding d by (auto simp: example_message_facts example_node_def)
qed

text \<open>
  C20. A message of a wrong size, from the node itself or with a wrong checksum changes nothing but the
  buffer it was received into, and a repeated one only the bookkeeping: nothing is delivered, counted or
  forwarded.
\<close>

theorem gateway_rejects:
  assumes "g < length (nd_gateways nd)"
  shows "(\<not> size_ok n m \<or> get_senderNode m = myNodeNr nd \<or> isCheckSumOk m = Some False \<longrightarrow>
      gateway_receive g m n nd = Some (set_inMessage g m nd)) \<and>
    (fst (messageSeen m nd) \<and> isCheckSumOk m = Some True \<longrightarrow>
      (\<exists>nd'. gateway_receive g m n nd = Some nd' \<and> nd_delivered nd' = nd_delivered nd \<and>
        nd_gateways nd' = nd_gateways (set_inMessage g m nd) \<and>
        numberOfReceivedMsgsFromNetwork nd' = numberOfReceivedMsgsFromNetwork nd))"
proof (cases "\<not> size_ok n m \<or> get_senderNode m = myNodeNr nd")
  case True
  then show ?thesis using gateway_receive_eq [OF assms, of m n] by auto
next
  case False
  then show ?thesis using gateway_receive_eq [OF assms, of m n] messageSeen_snd [of m "set_inMessage g m nd"]
    by (auto simp: messageSeen_snd)
qed

theorem gateway_rejects_witness:
  "gateway_receive 0 example_message (-1) (example_node 5) = Some (set_inMessage 0 example_message (example_node 5)) \<and>
   gateway_receive 0 example_message 17 (example_node 1) = Some (set_inMessage 0 example_message (example_node 1))"
  using gateway_rejects [of 0 "example_node 5" "-1" example_message] gateway_rejects [of 0 "example_node 1" 17 example_message]
  by (simp add: example_message_facts example_node_def size_ok_def HEADER_SIZE_def)

text \<open>
  The router topic is a topic of the list like any other. A message from the network with its id is published
  on it as if its 1300 bytes of user data were a whole message of 1336 bytes: the router reads and routes a
  message whose header is made of user data and whose end lies behind \<open>userDataC\<close>.
\<close>

lemma publish_router_topic_data:
  assumes "t_topicFilter t = None" "t_mySubscribers t = RouterSub True k # subs"
    and "length data \<noteq> HEADER_SIZE + MAX_NETWORK_MESSAGE_LENGTH"
  shows "node_publish info t data toNet (Some i) nd = None"
  using assms by (simp add: node_publish_def publish_def publishMsgPart_def isEnabled_def Subscriber_put_def Router_put_def)

lemma router_topic_message_undefined:
  assumes "g < length (nd_gateways nd)" "wf_msg m" "size_ok n m" "get_senderNode m \<noteq> myNodeNr nd"
    and "isCheckSumOk m = Some True" "\<not> fst (messageSeen m nd)"
    and "0 < get_topicId m" "get_topicId m = t_topicId (nd_routerTopic nd)"
    and "nd_topics nd = ts @ nd_routerTopic nd # ts'" "\<forall>t \<in> set ts. t_topicId t \<noteq> get_topicId m"
    and "t_topicFilter (nd_routerTopic nd) = None" "t_mySubscribers (nd_routerTopic nd) = RouterSub True k # subs"
  shows "gateway_receive g m n nd = None"
proof -
  have l: "length (userDataC m) \<noteq> HEADER_SIZE + MAX_NETWORK_MESSAGE_LENGTH"
    using assms(2) by (simp add: wf_msg_def HEADER_SIZE_def)
  have skip: "publish_topics (ts @ us) (t_topicId (nd_routerTopic nd)) info data nd' =
      publish_topics us (t_topicId (nd_routerTopic nd)) info data nd'" for us info data nd'
    using assms(8,10) by (induction ts) auto
  show ?thesis
    using assms(3-9) accepted_node_facts [OF assms(1), where m = m] dec_fields [OF assms(2)]
    by (subst gateway_receive_eq [OF assms(1)])
      (auto simp: distribute_message_def Let_def skip publish_router_topic_data [OF assms(11,12) l])
qed

text \<open>
  C17. No message brings a well-formed node into undefined behaviour, provided its length field and, in a
  topic report, its number of topics are within their arrays and it does not carry the id of the router topic
  (\<open>router_topic_message_undefined\<close> shows what happens then); the node stays well-formed.
\<close>

theorem gateway_receive_safe:
  assumes "wf_node nd" "g < length (nd_gateways nd)" "wf_msg m"
    and "unat (get_len m) \<le> MAX_NETWORK_MESSAGE_LENGTH" "get_topicId m \<noteq> t_topicId (nd_routerTopic nd)"
    and "numberOfTopics (report_of_bytes (bigEndianHost nd) (userDataC m)) \<le> MAX_SUBSCRIBERS \<or> get_topicId m \<noteq> 0"
  shows "\<exists>nd'. gateway_receive g m n nd = Some nd' \<and> wf_node nd'"
proof -
  note a = accepted_node_facts [OF assms(2), where m = m] and d = dec_fields [OF assms(3)]
  let ?seen = "snd (messageSeen m (set_inMessage g m nd))"
  have w: "wf_node (set_inMessage g m nd)" "wf_node (accepted_node g m nd)"
    using assms a(10) by (auto intro: inv_intros)
  have ws: "wf_node ?seen" using w(1) wf_node_same [of ?seen "set_inMessage g m nd"] by (simp add: messageSeen_snd)
  obtain ok where ok: "isCheckSumOk m = Some ok"
    using assms(3,4) by (simp add: isCheckSumOk_def calculateCheckSum_eq)
  consider (old) "\<not> size_ok n m \<or> get_senderNode m = myNodeNr nd \<or> \<not> ok \<or> fst (messageSeen m nd)"
    | (report) "size_ok n m" "get_senderNode m \<noteq> myNodeNr nd" "ok" "\<not> fst (messageSeen m nd)" "get_topicId m = 0"
    | (fresh) "size_ok n m" "get_senderNode m \<noteq> myNodeNr nd" "ok" "\<not> fst (messageSeen m nd)" "0 < get_topicId m"
    using word_neq_0_conv by blast
  then show ?thesis
  proof cases
    case old
    then show ?thesis using gateway_receive_eq [OF assms(2), of m n] w ws ok by (cases ok) auto
  next
    case report
    then have "numberOfTopics (report_of_bytes (bigEndianHost nd) (userDataC m)) \<le> MAX_SUBSCRIBERS" using assms(6) by simp
    then obtain nd' where "topic_report g (dec_maxStepsToForward m) (accepted_node g m nd) = Some nd'" "wf_node nd'"
      using topic_report_wf [OF w(2), of g "dec_maxStepsToForward m"] a assms(2) d by auto
    then show ?thesis using gateway_receive_eq [OF assms(2), of m n] report ok w d by auto
  next
    case fresh
    then obtain f where "gateway_receive g m n nd = Some (got_more (all_deliveries (dec_maxStepsToForward m)
        (received_info (linkIdentifier (nd_gateways nd ! g)) m) nd) (sent_more f (accepted_node g m nd)))"
      using receive_fresh [OF assms(1-3), of n] assms(5) ok by auto
    then show ?thesis using w(2) by (auto intro: inv_intros)
  qed
qed

theorem gateway_receive_safe_witness:
  "\<exists>nd'. gateway_receive 1 example_message (-1) (example_node 1) = Some nd' \<and> wf_node nd'"
  using gateway_receive_safe [OF example_wf, of 1 1 example_message "-1"]
    checksum_ok_len [OF example_message_facts(1,6)] by (simp add: example_message_facts example_node_def)

section \<open>From node to node\<close>

lemma gateway_put_sends:
  assumes "wf_node nd" "g < length (nd_gateways nd)" "gw_isEnabled (nd_gateways nd ! g)"
    and "forwardAll (nd_gateways nd ! g) \<or> tid = 0 \<or> tid \<in> listed (externalsubscribers (nd_gateways nd ! g))"
    and "prepareNetworkMessage tid data len info (networkOutMessage (nd_gateways nd ! g)) = Some m"
  shows "\<exists>nd'. Gateway_put g tid len data info nd = Some (1, nd') \<and>
    gw_sent (nd_gateways nd' ! g) = gw_sent (nd_gateways nd ! g) @ [m]"
proof -
  let ?gw = "nd_gateways nd ! g"
  have "wf_report (externalsubscribers ?gw)" using assms(1,2) wf_gateway_nth by (auto simp: wf_gateway_def)
  then have "(if \<not> forwardAll ?gw \<and> tid \<noteq> 0 then report_find tid (externalsubscribers ?gw) else Some True) = Some True"
    using assms(4) by (auto simp: report_find_listed)
  then show ?thesis using assms by (simp add: Gateway_put_def Let_def send_is_sent_more sent_more_nth upd_gateway_nth)
qed

text \<open>
  Publishing reaches the receivers of another node: the message a gateway hands to its link, when it
  arrives there, is delivered to every enabled receiver of the topics with its id, with exactly the
  published data and the information of the sender; the other deliveries are those of the router topic.
\<close>

lemma published_message_arrives:
  assumes "wf_node A" "a < length (nd_gateways A)" "gw_isEnabled (nd_gateways A ! a)" "forwardAll (nd_gateways A ! a)"
    and "len \<le> length data" "len \<le> 1300"
    and "signed_range 32 (senderNode i)" "0 \<le> sentTime i" "sentTime i \<le> END_OF_TIME" "signed_range 32 (receiverNode i)"
    and "msgtype_of (msgtype_code (messageType i)) = messageType i"
    and "wf_node B" "b < length (nd_gateways B)" "senderNode i \<noteq> myNodeNr B"
    and "wf_seen (seenNodes B)" "length (seenNodes B) < MAX_NUMBER_OF_NODES"
    and "\<not> is_repeated (last_seen (seenNodes B)) (senderNode i) (sentTime i)"
    and "0 < tid" "tid \<noteq> t_topicId (nd_routerTopic B)" "\<forall>t \<in> set (nd_topics B). t_topicId t = tid \<longrightarrow> t_msgLen t = len"
  shows "\<exists>A' m. Gateway_put a tid len data i A = Some (1, A') \<and>
    gw_sent (nd_gateways A' ! a) = gw_sent (nd_gateways A ! a) @ [m] \<and>
    (\<forall>n. size_ok n m \<longrightarrow> (\<exists>B' ds. gateway_receive b m n B = Some B' \<and>
       nd_delivered B' = nd_delivered B @ concat (map (\<lambda>t. deliveries (t_mySubscribers t) tid (take len data)
           (i\<lparr>linkId := linkIdentifier (nd_gateways B ! b)\<rparr>)) (filter (\<lambda>t. t_topicId t = tid) (nd_topics B))) @ ds \<and>
       list_all (\<lambda>(_, t, _). t = t_topicId (nd_routerTopic B)) ds))"
proof -
  have w: "wf_msg (networkOutMessage (nd_gateways A ! a))" using assms(1,2) wf_gateway_nth by (auto simp: wf_gateway_def)
  have "signed_range 64 (sentTime i)" using assms(8,9) by (simp add: signed_range_def END_OF_TIME_def)
  then obtain m where m: "prepareNetworkMessage tid data len i (networkOutMessage (nd_gateways A ! a)) = Some m" "wf_msg m"
    "get_topicId m = tid" "get_senderNode m = senderNode i" "get_sentTime m = sentTime i" "get_receiverNode m = receiverNode i"
    "get_receiverNodesBitMap m = receiverNodesBitMap i" "get_type m = msgtype_code (messageType i)"
    "get_senderThreadId m = senderThreadId i" "isCheckSumOk m = Some True"
    "getUserData 0xFFFF m = (of_nat (clip_len len), take (clip_len len) data)"
    using prepared_message [OF w assms(5,7) _ assms(10), of tid] by blast
  have c: "clip_len len = len" using assms(6) by (simp add: clip_len_def MAX_NETWORK_MESSAGE_LENGTH_def)
  have "length data \<ge> len" "unat (of_nat len :: u16) = len" using assms(5,6) by (simp_all add: unat_of_nat)
  then have data: "take len (userDataC m) = take len data"
    using m(11) unfolding c getUserData_def Let_def by (metis Pair_inject)
  have info: "received_info (linkIdentifier (nd_gateways B ! b)) m = i\<lparr>linkId := linkIdentifier (nd_gateways B ! b)\<rparr>"
    using m assms(11) by (simp add: received_info_def)
  have fresh: "\<not> fst (messageSeen m B)" using messageSeen_refines(1) [OF assms(15), of m] m assms(8,9,16,17) by simp
  let ?i = "i\<lparr>linkId := linkIdentifier (nd_gateways B ! b)\<rparr>"
  let ?ds = "deliveries (t_mySubscribers (nd_routerTopic B)) (t_topicId (nd_routerTopic B)) (msg_bytes (dec_maxStepsToForward m)) ?i"
  have "all_deliveries (dec_maxStepsToForward m) ?i B = concat (map (\<lambda>t. deliveries (t_mySubscribers t) tid (take len data) ?i)
      (filter (\<lambda>t. t_topicId t = tid) (nd_topics B))) @ ?ds"
    using assms(20) data dec_fields [OF m(2)] m(3) by (auto simp: all_deliveries_def intro!: arg_cong [where f = concat] map_cong)
  moreover have "list_all (\<lambda>(_, t, _). t = t_topicId (nd_routerTopic B)) ?ds"
    by (auto simp: deliveries_def list_all_iff split: subscriber.splits bool.splits option.splits)
  moreover have "\<exists>f. gateway_receive b m n B = Some (got_more (all_deliveries (dec_maxStepsToForward m) ?i B)
      (sent_more f (accepted_node b m B)))" if "size_ok n m" for n
    using receive_fresh [OF assms(12,13) m(2) that] assms(14,18,19) m fresh by (auto simp: info)
  ultimately show ?thesis
    using gateway_put_sends [OF assms(1-3) _ m(1)] assms(4) accepted_node_facts(2) [OF assms(13)] by fastforce
qed

lemma published_message_arrives_witness:
  "\<exists>A' m B' ds. Gateway_put 0 2000 3 [1, 2, 3] example_info (example_node 5) = Some (1, A') \<and>
     gw_sent (nd_gateways A' ! 0) = [m] \<and> gateway_receive 1 m (-1) (example_node 1) = Some B' \<and>
     nd_delivered B' = (7, 2000, [1, 2, 3], example_info\<lparr>linkId := 2\<rparr>) # ds"
proof -
  have t: "\<forall>t \<in> set (nd_topics (example_node 1)). t_topicId t = 2000 \<longrightarrow> t_msgLen t = 3" by (simp add: example_node_def)
  have s: "size_ok (-1) m" for m by (simp add: size_ok_def)
  show ?thesis
    using published_message_arrives [OF example_wf _ _ _ _ _ _ _ _ _ _ example_wf _ _ _ _ _ _ _ t, of 0 5 "[1, 2, 3]" example_info 1] s
    by (simp add: example_node_def example_gateway_def example_info_def signed_range_def END_OF_TIME_def wf_seen_def
      MAX_NUMBER_OF_NODES_def is_repeated_def last_seen_def msgtype_of_def msgtype_code_def deliveries_def) blast
qed

section \<open>The number of steps\<close>

lemma add_topics_sent: "topic_report g m nd = Some nd' \<Longrightarrow> g < length (nd_gateways nd) \<Longrightarrow> i < length (nd_gateways nd) \<Longrightarrow>
    gw_sent (nd_gateways nd' ! i) = gw_sent (nd_gateways nd ! i)"
  by (auto simp: topic_report_def Let_def addTopicsToForward_def setTopicsToForward_def upd_gateway_nth
      split: Option.bind_splits if_splits)

text \<open>A node that received \<open>m\<close> hands \<open>m'\<close> to one of its links.\<close>

definition forwards :: "NetworkMessage \<Rightarrow> NetworkMessage \<Rightarrow> bool" where
  "forwards m m' \<longleftrightarrow> (\<exists>nd g n nd' i. wf_node nd \<and> g < length (nd_gateways nd) \<and> wf_msg m \<and>
     get_topicId m \<noteq> t_topicId (nd_routerTopic nd) \<and> gateway_receive g m n nd = Some nd' \<and> i < length (nd_gateways nd) \<and>
     m' \<in> set (drop (length (gw_sent (nd_gateways nd ! i))) (gw_sent (nd_gateways nd' ! i))))"

inductive hops :: "nat \<Rightarrow> NetworkMessage \<Rightarrow> NetworkMessage \<Rightarrow> bool" where
  hops_0: "hops 0 m m"
| hops_Suc: "hops n m m' \<Longrightarrow> forwards m' m'' \<Longrightarrow> hops (Suc n) m m''"

inductive_cases hops_SucE: "hops (Suc n) m m'"

lemma forwards_dec:
  assumes "forwards m m'"
  shows "wf_msg m" "m' = dec_maxStepsToForward m" "0 < get_maxStepsToForward m'"
proof -
  obtain nd g n nd' i where nd: "wf_node nd" "g < length (nd_gateways nd)" "wf_msg m"
    "get_topicId m \<noteq> t_topicId (nd_routerTopic nd)" "gateway_receive g m n nd = Some nd'" "i < length (nd_gateways nd)"
    "m' \<in> set (drop (length (gw_sent (nd_gateways nd ! i))) (gw_sent (nd_gateways nd' ! i)))"
    using assms unfolding forwards_def by blast
  note a = accepted_node_facts [OF nd(2), where m = m] and d = dec_fields [OF nd(3)]
  have new: "gw_sent (nd_gateways nd' ! i) \<noteq> gw_sent (nd_gateways nd ! i)" using nd(7) by auto
  have frame: "gw_sent (nd_gateways (set_inMessage g m nd) ! i) = gw_sent (nd_gateways nd ! i)"
    "gw_sent (nd_gateways (snd (messageSeen m (set_inMessage g m nd))) ! i) = gw_sent (nd_gateways nd ! i)"
    using nd(6) by (simp_all add: set_inMessage_nth messageSeen_snd)
  have "size_ok n m \<and> get_senderNode m \<noteq> myNodeNr nd \<and> isCheckSumOk m = Some True \<and> \<not> fst (messageSeen m nd) \<and> 0 < get_topicId m"
    using gateway_receive_eq [OF nd(2), of m n] nd(5) new frame a(1,7) nd(2,6) d
      add_topics_sent [of g "dec_maxStepsToForward m" "accepted_node g m nd" nd' i]
    by (auto split: if_splits option.splits bool.splits)
  then obtain f where f: "nd' = got_more (all_deliveries (dec_maxStepsToForward m) (received_info (linkIdentifier (nd_gateways nd ! g)) m) nd)
       (sent_more f (accepted_node g m nd))" "routes (dec_maxStepsToForward m) (linkIdentifier (nd_gateways nd ! g)) nd f"
    using receive_fresh [OF nd(1-3)] nd(4,5) by (metis option.inject)
  then have "m' \<in> set (f i)" using nd(6,7) a by (simp add: sent_more_nth)
  moreover have "set (f i) \<subseteq> {dec_maxStepsToForward m}" "f i \<noteq> [] \<longrightarrow> 0 < get_maxStepsToForward (dec_maxStepsToForward m)"
    using f(2) nd(6) unfolding routes_def by blast+
  ultimately have "m' = dec_maxStepsToForward m \<and> 0 < get_maxStepsToForward m'" by auto
  then show "wf_msg m" "m' = dec_maxStepsToForward m" "0 < get_maxStepsToForward m'" using nd(3) by blast+
qed

lemma steps_range: "wf_msg m \<Longrightarrow> get_maxStepsToForward m < 32768"
  using sint_lt [of "dec_word (bytes_at 8 2 (header m)) :: u16"] by (simp add: fSteps.get_bytes)

text \<open>
  C13. A message is forwarded a bounded number of times: every node decrements the number of steps and
  forwards only while it is positive, so a message that leaves its sender with \<open>k\<close> steps is handed on
  fewer than \<open>k\<close> times, however the network is connected and whatever the routers forward.
\<close>

theorem hops_bounded:
  assumes "hops n m m'" "0 \<le> get_maxStepsToForward m"
  shows "get_maxStepsToForward m' = get_maxStepsToForward m - int n \<and> (n = 0 \<or> int n < get_maxStepsToForward m)"
  using assms
proof (induction rule: hops.induct)
  case (hops_Suc n m m' m'')
  note f = forwards_dec [OF hops_Suc.hyps(2)]
  have "signed_range 16 (get_maxStepsToForward m' - 1)"
    using hops_Suc steps_range [OF f(1)] by (auto simp: signed_range_def)
  from dec_steps [OF f(1) this] show ?case using f hops_Suc by auto
qed simp

lemma example_dec:
  "get_maxStepsToForward (dec_maxStepsToForward example_message) = 9"
  "get_topicId (dec_maxStepsToForward example_message) = 2000"
  "wf_msg (dec_maxStepsToForward example_message)" "isCheckSumOk (dec_maxStepsToForward example_message) = Some True"
  "setCheckSum (dec_maxStepsToForward example_message) = Some (dec_maxStepsToForward example_message)"
  using dec_steps [OF example_message_facts(1)] dec_fields [OF example_message_facts(1)]
  by (simp_all add: example_message_facts signed_range_def setCheckSum_same)

lemma example_forwarded:
  "\<exists>nd'. gateway_receive 0 example_message (-1) (example_node 1) = Some nd' \<and>
     gw_sent (nd_gateways nd' ! 1) = [dec_maxStepsToForward example_message]"
proof -
  let ?m = "dec_maxStepsToForward example_message"
  have len: "length (userDataC example_message) = 1300" "length (header ?m) = 36" "length (userDataC ?m) = 1300"
    using example_message_facts(1) example_dec(3) by (simp_all add: wf_msg_def HEADER_SIZE_def MAX_NETWORK_MESSAGE_LENGTH_def)
  have m: "messageSeen example_message (set_inMessage 0 example_message (example_node 1)) =
     (False, (set_inMessage 0 example_message (example_node 1))\<lparr>seenNodes := [\<lparr>nodeID = 5, lastMsgTime = 1000\<rparr>]\<rparr>)"
    by (simp add: messageSeen_def example_message_facts example_node_def set_inMessage_def upd_gateway_def
      MAX_NUMBER_OF_NODES_def i64_def)
  have "gateway_receive 0 example_message (-1) (example_node 1) =
      distribute_message 0 ?m (accepted_node 0 example_message (example_node 1))"
    using example_fresh by (subst gateway_receive_eq)
      (simp_all add: example_message_facts example_dec size_ok_def, simp_all add: example_node_def)
  then show ?thesis
    unfolding accepted_node_def m
    by (simp add: distribute_message_def set_inMessage_def upd_gateway_def example_node_def example_gateway_def node_publish_def
        publish_def publishMsgPart_def Subscriber_put_def isEnabled_def Router_put_def msg_bytes_inverse example_dec
        length_msg_bytes HEADER_SIZE_def MAX_NETWORK_MESSAGE_LENGTH_def routeMsg_def shouldRouteThisMsg_def
        shouldRouteThisMsgToGateway_def shouldTopicForwarded_def sendNetworkMessage_def received_info_def len Let_def)
qed

theorem hops_bounded_witness:
  "hops 1 example_message (dec_maxStepsToForward example_message) \<and>
   get_maxStepsToForward (dec_maxStepsToForward example_message) = 9"
proof -
  obtain nd' where nd': "gateway_receive 0 example_message (-1) (example_node 1) = Some nd'"
    "gw_sent (nd_gateways nd' ! 1) = [dec_maxStepsToForward example_message]" using example_forwarded by blast
  have "forwards example_message (dec_maxStepsToForward example_message)" unfolding forwards_def
    by (rule exI [of _ "example_node 1"], rule exI [of _ 0], rule exI [of _ "-1"], rule exI [of _ nd'], rule exI [of _ 1])
      (simp add: nd' example_wf example_message_facts, simp add: nd'(2) [unfolded One_nat_def] example_node_def example_gateway_def)
  then have h: "hops 1 example_message (dec_maxStepsToForward example_message)"
    using hops_Suc [OF hops_0] by simp
  then show ?thesis using hops_bounded [OF h] by (simp add: example_message_facts)
qed

text \<open>
  When the table of senders is full, a message of an unknown sender is accepted however often it
  arrives, and \<open>messageSeen\<close> returns without leaving \<open>seenNodesProtector\<close>.
\<close>

lemma full_table_keeps_semaphore:
  assumes "length (seenNodes nd) = MAX_NUMBER_OF_NODES" "get_senderNode m \<notin> nodeID ` set (seenNodes nd)"
  shows "messageSeen m nd = (False, nd\<lparr>seenNodesHeld := seenNodesHeld nd + 1\<rparr>)"
  using assms by (simp add: messageSeen_def find_node_None [THEN iffD2])

lemma full_table_keeps_semaphore_witness:
  "messageSeen example_message ((example_node 1)\<lparr>seenNodes := replicate 10 \<lparr>nodeID = 1, lastMsgTime = 0\<rparr>\<rparr>) =
     (False, (example_node 1)\<lparr>seenNodes := replicate 10 \<lparr>nodeID = 1, lastMsgTime = 0\<rparr>, seenNodesHeld := 1\<rparr>)"
  using full_table_keeps_semaphore [of "(example_node 1)\<lparr>seenNodes := replicate 10 \<lparr>nodeID = 1, lastMsgTime = 0\<rparr>\<rparr>" example_message]
  by (simp add: MAX_NUMBER_OF_NODES_def example_message_facts example_node_def)

end
