(* ===== verification/Link_Spec.thy ===== *)
theory Link_Spec
  imports Gateway
begin

text \<open>
  What a gateway relies on of its link (\<open>api/gateway/linkinterface.h\<close>), as locales: a message that one link
  sends and another hands out is well-formed, has the size that is reported with it, the same user
  data, a topic and a sender determined by those sent, and a right checksum if it was sent
  with one. Under these laws publishing on one node reaches the receivers of another, which is proved here
  once; the theories of the links discharge them. A transparent link brings the bytes of the
  message unchanged.
\<close>

section \<open>The bytes that are sent\<close>

lemma msg_of_bytes_inverse: "msg_bytes (msg_of_bytes bs) = bs"
  by (simp add: msg_bytes_def msg_of_bytes_def)

lemma bytes_to_send:
  assumes "unat (get_len m) \<le> MAX_NETWORK_MESSAGE_LENGTH"
  shows "unat (numberOfBytesToSend m) = HEADER_SIZE + unat (get_len m)"
  using assms by (simp add: numberOfBytesToSend_def unat_word_ariths HEADER_SIZE_def MAX_NETWORK_MESSAGE_LENGTH_def)

text \<open>Two messages with the same bytes to send are the same for every reader.\<close>

lemma same_sent_bytes:
  assumes "wf_msg m" "wf_msg m'" "take n (msg_bytes m') = take n (msg_bytes m)" "n = HEADER_SIZE + unat (get_len m)"
    and "unat (get_len m) \<le> MAX_NETWORK_MESSAGE_LENGTH"
  shows "header m' = header m" "get_len m' = get_len m" "isCheckSumOk m' = isCheckSumOk m"
    "take (unat (get_len m)) (userDataC m') = take (unat (get_len m)) (userDataC m)"
proof -
  have "take HEADER_SIZE (take n (msg_bytes m')) = take HEADER_SIZE (take n (msg_bytes m))" by (simp only: assms(3))
  then show h: "header m' = header m" using assms(1,2,4) by (simp add: msg_bytes_def wf_msg_def)
  then show l: "get_len m' = get_len m" by (simp add: get_len_def read_at_def)
  show "take (unat (get_len m)) (userDataC m') = take (unat (get_len m)) (userDataC m)"
    using assms h by (simp add: msg_bytes_def wf_msg_def)
  have c: "get_checksum m' = get_checksum m" using h by (simp add: get_checksum_def read_at_def)
  have "take (HEADER_SIZE - 12 + unat (get_len m)) (drop 12 (msg_bytes x)) = drop 12 (take n (msg_bytes x))" for x
    using assms(4) by (simp add: take_drop HEADER_SIZE_def)
  then have "take (HEADER_SIZE - 12 + unat (get_len m)) (drop 12 (msg_bytes m')) =
      take (HEADER_SIZE - 12 + unat (get_len m)) (drop 12 (msg_bytes m))" using assms(3) by metis
  moreover have "length (msg_bytes m') = length (msg_bytes m)" using assms(1,2) by (simp add: msg_bytes_def wf_msg_def)
  ultimately show "isCheckSumOk m' = isCheckSumOk m" by (simp add: isCheckSumOk_def calculateCheckSum_def l c Let_def)
qed

section \<open>The two ends\<close>

text \<open>A gateway that sends all topics, with data that fit into a message; a gateway that accepts
  a message of the sender and time, and topics of the id with the length of the data.\<close>

definition ready_to_send :: "node \<Rightarrow> nat \<Rightarrow> u8 list \<Rightarrow> nat \<Rightarrow> NetMsgInfo \<Rightarrow> bool" where
  "ready_to_send A a data len i \<longleftrightarrow>
     wf_node A \<and> a < length (nd_gateways A) \<and> gw_isEnabled (nd_gateways A ! a) \<and> forwardAll (nd_gateways A ! a) \<and>
     len \<le> length data \<and> len \<le> MAX_NETWORK_MESSAGE_LENGTH \<and> signed_range 32 (senderNode i) \<and>
     signed_range 64 (sentTime i) \<and> signed_range 32 (receiverNode i)"

definition ready_to_receive :: "node \<Rightarrow> nat \<Rightarrow> u32 \<Rightarrow> int \<Rightarrow> int \<Rightarrow> nat \<Rightarrow> bool" where
  "ready_to_receive B b tid sender sent len \<longleftrightarrow>
     wf_node B \<and> b < length (nd_gateways B) \<and> sender \<noteq> myNodeNr B \<and> wf_seen (seenNodes B) \<and>
     length (seenNodes B) < MAX_NUMBER_OF_NODES \<and> 0 \<le> sent \<and> sent \<le> END_OF_TIME \<and>
     \<not> is_repeated (last_seen (seenNodes B)) sender sent \<and> 0 < tid \<and> tid \<noteq> t_topicId (nd_routerTopic B) \<and>
     (\<forall>t \<in> set (nd_topics B). t_topicId t = tid \<longrightarrow> t_msgLen t = len)"

text \<open>The node \<open>B\<close> gets the data on the topic; besides only the router topic has its deliveries.\<close>

definition delivered :: "node \<Rightarrow> u32 \<Rightarrow> u8 list \<Rightarrow> NetMsgInfo \<Rightarrow> node \<Rightarrow> bool" where
  "delivered B tid data info B' \<longleftrightarrow>
     (\<exists>ds. nd_delivered B' = nd_delivered B @
          concat (map (\<lambda>t. deliveries (t_mySubscribers t) tid data info) (filter (\<lambda>t. t_topicId t = tid) (nd_topics B))) @ ds \<and>
        list_all (\<lambda>(_, t, _). t = t_topicId (nd_routerTopic B)) ds)"

lemma gateway_put_message:
  assumes "ready_to_send A a data len i"
  shows "\<exists>A' m. Gateway_put a tid len data i A = Some (1, A') \<and>
    gw_sent (nd_gateways A' ! a) = gw_sent (nd_gateways A ! a) @ [m] \<and>
    wf_msg m \<and> get_topicId m = tid \<and> get_senderNode m = senderNode i \<and> get_sentTime m = sentTime i \<and> isCheckSumOk m = Some True \<and>
    unat (get_len m) = len \<and> take len (userDataC m) = take len data \<and>
    (msgtype_of (msgtype_code (messageType i)) = messageType i \<longrightarrow> received_info link m = i\<lparr>linkId := link\<rparr>)"
proof -
  note d = assms [unfolded ready_to_send_def]
  have w: "wf_msg (networkOutMessage (nd_gateways A ! a))" using d wf_gateway_nth by (auto simp: wf_gateway_def)
  obtain m where m: "prepareNetworkMessage tid data len i (networkOutMessage (nd_gateways A ! a)) = Some m" "wf_msg m"
    "get_topicId m = tid" "get_senderNode m = senderNode i" "get_sentTime m = sentTime i" "get_receiverNode m = receiverNode i"
    "get_receiverNodesBitMap m = receiverNodesBitMap i" "get_type m = msgtype_code (messageType i)"
    "get_senderThreadId m = senderThreadId i" "isCheckSumOk m = Some True"
    "getUserData 0xFFFF m = (of_nat (clip_len len), take (clip_len len) data)"
    using prepared_message [OF w, of len data i tid] d by blast
  have c: "clip_len len = len" using d by (simp add: clip_len_def MAX_NETWORK_MESSAGE_LENGTH_def)
  have n: "unat (of_nat len :: u16) = len" using d by (simp add: unat_of_nat MAX_NETWORK_MESSAGE_LENGTH_def)
  have "min 0xFFFF (get_len m) = get_len m"
    using unsigned_less [of "get_len m", where 'a = nat] by (intro min_absorb2) (simp add: word_le_nat_alt)
  then have l: "get_len m = of_nat len" using m(11) unfolding c getUserData_def Let_def by simp
  have data: "take len (userDataC m) = take len data"
    using m(11) n unfolding c getUserData_def Let_def by (metis Pair_inject)
  show ?thesis
    using gateway_put_sends [of A a tid data len i m] d m l data n by (auto simp: received_info_def)
qed

lemma example_ends:
  "ready_to_send (example_node 5) 0 [1, 2, 3] 3 example_info" "msgtype_of (msgtype_code (messageType example_info)) = messageType example_info"
  "ready_to_receive (example_node 1) 1 2000 (senderNode example_info) (sentTime example_info) 3"
  using example_wf
  by (simp_all add: ready_to_send_def ready_to_receive_def example_node_def example_gateway_def example_info_def signed_range_def
      END_OF_TIME_def wf_seen_def MAX_NUMBER_OF_NODES_def MAX_NETWORK_MESSAGE_LENGTH_def is_repeated_def last_seen_def
      msgtype_of_def msgtype_code_def)

section \<open>Links\<close>

locale network_link =
  fixes crosses :: "NetworkMessage \<Rightarrow> int \<Rightarrow> NetworkMessage \<Rightarrow> bool"
    and topic_as :: "u32 \<Rightarrow> u32"
    and sender_as :: "int \<Rightarrow> int"
  assumes crosses_wf: "crosses m n m' \<Longrightarrow> wf_msg m'"
    and crosses_size: "crosses m n m' \<Longrightarrow> size_ok n m'"
    and crosses_len: "crosses m n m' \<Longrightarrow> get_len m' = get_len m"
    and crosses_data: "crosses m n m' \<Longrightarrow> take (unat (get_len m)) (userDataC m') = take (unat (get_len m)) (userDataC m)"
    and crosses_topic: "crosses m n m' \<Longrightarrow> get_topicId m' = topic_as (get_topicId m)"
    and crosses_sender: "crosses m n m' \<Longrightarrow> get_senderNode m' = sender_as (get_senderNode m)"
    and crosses_sum: "crosses m n m' \<Longrightarrow> isCheckSumOk m = Some True \<Longrightarrow> isCheckSumOk m' = Some True"
begin

lemma received:
  assumes "crosses m n m'" "isCheckSumOk m = Some True"
    and "ready_to_receive B b (topic_as (get_topicId m)) (sender_as (get_senderNode m)) (get_sentTime m') (unat (get_len m))"
  shows "\<exists>B'. gateway_receive b m' n B = Some B' \<and>
    delivered B (topic_as (get_topicId m)) (take (unat (get_len m)) (userDataC m))
      (received_info (linkIdentifier (nd_gateways B ! b)) m') B'"
proof -
  note r = assms(3) [unfolded ready_to_receive_def, folded crosses_topic [OF assms(1)] crosses_sender [OF assms(1)]]
  have fresh: "\<not> fst (messageSeen m' B)" using messageSeen_refines(1) [of B m'] r by simp
  let ?i = "received_info (linkIdentifier (nd_gateways B ! b)) m'" and ?m = "dec_maxStepsToForward m'"
  have "\<exists>f. gateway_receive b m' n B = Some (got_more (all_deliveries ?m ?i B) (sent_more f (accepted_node b m' B)))"
    using receive_fresh [of B b m' n] r fresh crosses_wf [OF assms(1)] crosses_size [OF assms(1)] crosses_sum [OF assms(1,2)] by blast
  moreover have "all_deliveries ?m ?i B =
      concat (map (\<lambda>t. deliveries (t_mySubscribers t) (get_topicId m') (take (unat (get_len m)) (userDataC m)) ?i)
        (filter (\<lambda>t. t_topicId t = get_topicId m') (nd_topics B))) @
      deliveries (t_mySubscribers (nd_routerTopic B)) (t_topicId (nd_routerTopic B)) (msg_bytes ?m) ?i"
    using r crosses_data [OF assms(1)] dec_fields [OF crosses_wf [OF assms(1)]]
    by (auto simp: all_deliveries_def intro!: arg_cong [where f = concat] map_cong)
  moreover have "list_all (\<lambda>(_, t, _). t = t_topicId (nd_routerTopic B))
      (deliveries (t_mySubscribers (nd_routerTopic B)) (t_topicId (nd_routerTopic B)) (msg_bytes ?m) ?i)"
    by (auto simp: deliveries_def list_all_iff split: subscriber.splits bool.splits option.splits)
  moreover have "nd_delivered (accepted_node b m' B) = nd_delivered B" using accepted_node_facts(2) [of b B m'] r by simp
  ultimately show ?thesis unfolding delivered_def crosses_topic [OF assms(1), symmetric] by fastforce
qed

text \<open>From \<open>put\<close> on the gateway of one node to the receivers of the other.\<close>

lemma published:
  assumes "ready_to_send A a data len i"
  shows "\<exists>A' m. Gateway_put a tid len data i A = Some (1, A') \<and>
    gw_sent (nd_gateways A' ! a) = gw_sent (nd_gateways A ! a) @ [m] \<and> wf_msg m \<and> unat (get_len m) = len \<and>
    (\<forall>n m'. crosses m n m' \<longrightarrow> ready_to_receive B b (topic_as tid) (sender_as (senderNode i)) (get_sentTime m') len \<longrightarrow>
      (\<exists>B'. gateway_receive b m' n B = Some B' \<and>
        delivered B (topic_as tid) (take len data) (received_info (linkIdentifier (nd_gateways B ! b)) m') B'))"
proof -
  obtain A' m where m: "Gateway_put a tid len data i A = Some (1, A')" "gw_sent (nd_gateways A' ! a) = gw_sent (nd_gateways A ! a) @ [m]"
    "wf_msg m" "get_topicId m = tid" "get_senderNode m = senderNode i" "isCheckSumOk m = Some True" "unat (get_len m) = len"
    "take len (userDataC m) = take len data"
    using gateway_put_message [OF assms, of tid undefined] by blast
  moreover have "\<exists>B'. gateway_receive b m' n B = Some B' \<and>
        delivered B (topic_as tid) (take len data) (received_info (linkIdentifier (nd_gateways B ! b)) m') B'"
    if "crosses m n m'" "ready_to_receive B b (topic_as tid) (sender_as (senderNode i)) (get_sentTime m') len" for n m'
    using received [OF that(1) m(6)] that(2) m by simp
  ultimately show ?thesis by blast
qed

end

text \<open>A link that brings the bytes of the message, and the size or nothing about it.\<close>

locale transparent_link =
  fixes crosses :: "NetworkMessage \<Rightarrow> int \<Rightarrow> NetworkMessage \<Rightarrow> bool"
  assumes same_wf: "crosses m n m' \<Longrightarrow> wf_msg m \<and> wf_msg m'"
    and same_room: "crosses m n m' \<Longrightarrow> unat (get_len m) \<le> MAX_NETWORK_MESSAGE_LENGTH"
    and same_bytes: "crosses m n m' \<Longrightarrow>
      take (HEADER_SIZE + unat (get_len m)) (msg_bytes m') = take (HEADER_SIZE + unat (get_len m)) (msg_bytes m)"
    and same_size: "crosses m n m' \<Longrightarrow> n < 0 \<or> n = int (HEADER_SIZE + unat (get_len m))"
begin

lemma same_message:
  assumes "crosses m n m'"
  shows "header m' = header m" "get_len m' = get_len m" "isCheckSumOk m' = isCheckSumOk m"
    "take (unat (get_len m)) (userDataC m') = take (unat (get_len m)) (userDataC m)"
  using same_sent_bytes [of m m' "HEADER_SIZE + unat (get_len m)"] same_wf [OF assms] same_room [OF assms] same_bytes [OF assms]
  by blast+

lemma same_info:
  assumes "crosses m n m'"
  shows "received_info link m' = received_info link m" "get_sentTime m' = get_sentTime m"
  using same_message(1) [OF assms]
  by (simp_all add: received_info_def get_senderNode_def get_senderThreadId_def get_sentTime_def get_receiverNode_def
      get_receiverNodesBitMap_def get_type_def read_at_def)

end

sublocale transparent_link \<subseteq> as_link: network_link crosses "\<lambda>t. t" "\<lambda>s. s"
proof unfold_locales
  fix m n m' assume c: "crosses m n m'"
  note s = same_message [OF c]
  show "wf_msg m'" using same_wf [OF c] by simp
  have "unat (numberOfBytesToSend m') = HEADER_SIZE + unat (get_len m)" using bytes_to_send [of m'] same_room [OF c] s(2) by simp
  then have "uint (numberOfBytesToSend m') = int (HEADER_SIZE + unat (get_len m))" by (metis uint_nat)
  then show "size_ok n m'" using same_size [OF c] by (auto simp: size_ok_def)
  show "get_len m' = get_len m" "take (unat (get_len m)) (userDataC m') = take (unat (get_len m)) (userDataC m)" by (fact s)+
  show "get_topicId m' = get_topicId m" "get_senderNode m' = get_senderNode m"
    using s(1) by (simp_all add: get_topicId_def get_senderNode_def read_at_def)
  show "isCheckSumOk m' = Some True" if "isCheckSumOk m = Some True" using that s(3) by simp
qed

context transparent_link
begin

text \<open>The receivers get the information of the sender.\<close>

lemma published_with_info:
  assumes "ready_to_send A a data len i" "msgtype_of (msgtype_code (messageType i)) = messageType i"
    and "ready_to_receive B b tid (senderNode i) (sentTime i) len"
  shows "\<exists>A' m. Gateway_put a tid len data i A = Some (1, A') \<and>
    gw_sent (nd_gateways A' ! a) = gw_sent (nd_gateways A ! a) @ [m] \<and> wf_msg m \<and> unat (get_len m) = len \<and>
    (\<forall>n m'. crosses m n m' \<longrightarrow> (\<exists>B'. gateway_receive b m' n B = Some B' \<and>
        delivered B tid (take len data) (i\<lparr>linkId := linkIdentifier (nd_gateways B ! b)\<rparr>) B'))"
proof -
  let ?link = "linkIdentifier (nd_gateways B ! b)"
  obtain A' m where m: "Gateway_put a tid len data i A = Some (1, A')" "gw_sent (nd_gateways A' ! a) = gw_sent (nd_gateways A ! a) @ [m]"
    "wf_msg m" "get_topicId m = tid" "get_senderNode m = senderNode i" "get_sentTime m = sentTime i" "isCheckSumOk m = Some True"
    "unat (get_len m) = len" "take len (userDataC m) = take len data" "received_info ?link m = i\<lparr>linkId := ?link\<rparr>"
    using gateway_put_message [OF assms(1), of tid ?link] assms(2) by blast
  moreover have "\<exists>B'. gateway_receive b m' n B = Some B' \<and> delivered B tid (take len data) (i\<lparr>linkId := ?link\<rparr>) B'"
    if "crosses m n m'" for n m'
    using as_link.received [OF that m(7), of B b] assms(3) m same_info [OF that] by simp
  ultimately show ?thesis by blast
qed

end

end
