(* ===== verification/Can_Link.thy ===== *)
theory Can_Link
  imports Link_Spec
begin

text \<open>
  The link over a CAN bus (\<open>src/independent/gateway/linkinterfacecan.cpp\<close>): a message is cut into
  telegrams of at most eight bytes and put together again by the receiver, which buffers the telegrams
  of other messages that arrive in between. The linked list of buffered telegrams is a list, the stack of
  free telegrams its position; the telegrams the controller delivers are a list, and the clock is an
  arbitrary function. \<open>None\<close> is a write behind a buffer or an access through a null pointer.
\<close>

section \<open>The code\<close>

definition CAN_LINK_NODE_BITS :: nat where "CAN_LINK_NODE_BITS = 8"
definition CAN_LINK_TOPIC_BITS :: nat where "CAN_LINK_TOPIC_BITS = 16"
definition CAN_LINK_ID :: u32 where "CAN_LINK_ID = push_bit (CAN_LINK_NODE_BITS + CAN_LINK_TOPIC_BITS) 0x1C"
definition CAN_MSG_BUFFER_SIZE :: int where "CAN_MSG_BUFFER_SIZE = 128"

record BufferedCANMessage =
  canID :: u32
  can_data :: "u8 list"
  can_len :: int

record LinkinterfaceCAN =
  isBroadcast :: bool
  emptyBufferedCANMessagesPos :: int
  bufferedCANMsgs :: "BufferedCANMessage list"
  currentReceiveCANId :: u32
  currentDataPos :: nat
  bytesReceived :: u16
  sequenceCounter :: u8

definition can_init :: "LinkinterfaceCAN \<Rightarrow> LinkinterfaceCAN" where
  "can_init l = l\<lparr>isBroadcast := True, emptyBufferedCANMessagesPos := CAN_MSG_BUFFER_SIZE - 1\<rparr>"

definition message_canID :: "NetworkMessage \<Rightarrow> u32" where
  "message_canID m =
     (let senderNode = of_int (get_senderNode m) AND uint32_tOnes CAN_LINK_NODE_BITS;
          topicId = get_topicId m AND uint32_tOnes CAN_LINK_TOPIC_BITS
      in CAN_LINK_ID OR push_bit CAN_LINK_NODE_BITS topicId OR senderNode)"

text \<open>The inner loop: fill the buffer from \<open>count\<close> on.\<close>

fun fill_buffer :: "u8 list \<Rightarrow> nat \<Rightarrow> u8 list \<Rightarrow> u8 list \<times> nat \<times> u8 list" where
  "fill_buffer buffer count [] = (buffer, count, [])"
| "fill_buffer buffer count (d # ds) =
     (if count < 8 then fill_buffer (buffer[count := d]) (count + 1) ds else (buffer, count, d # ds))"

lemma fill_buffer_rest: "length (snd (snd (fill_buffer b c ds))) \<le> length ds"
  by (induction b c ds rule: fill_buffer.induct) auto

lemma fill_buffer_less: "c < 8 \<Longrightarrow> ds \<noteq> [] \<Longrightarrow> length (snd (snd (fill_buffer b c ds))) < length ds"
  using fill_buffer_rest [of "b[c := hd ds]" "c + 1" "tl ds"] by (cases ds) auto

text \<open>The outer loop. \<open>accepted n\<close> says whether the controller takes the telegram \<open>n\<close> in the end, or reports
  an error; the telegrams are the bytes given to it.\<close>

function send_loop :: "(nat \<Rightarrow> bool) \<Rightarrow> nat \<Rightarrow> u8 list \<Rightarrow> nat \<Rightarrow> u8 \<Rightarrow> u8 list \<Rightarrow> bool \<times> u8 list list" where
  "send_loop accepted n buffer count seqCounter data =
     (if data = [] \<or> \<not> count < 8 then (True, [])
      else (let (buffer, count, rest) = fill_buffer (buffer[0 := seqCounter]) count data
            in if \<not> accepted n then (False, [])
               else (let (ok, ts) = send_loop accepted (n + 1) buffer 1 (seqCounter + 1) rest
                     in (ok, take count buffer # ts))))"
  by pat_completeness auto
termination
proof (relation "measure (\<lambda>(_, _, _, _, _, data). length data)")
  fix accepted :: "nat \<Rightarrow> bool" and n :: nat and buffer :: "u8 list" and count :: nat and seqCounter :: u8
    and data :: "u8 list" and x buffer' y count' rest
  assume "\<not> (data = [] \<or> \<not> count < 8)" "x = fill_buffer (buffer[0 := seqCounter]) count data"
    "(buffer', y) = x" "(count', rest) = y"
  then show "((accepted, n + 1, buffer', 1, seqCounter + 1, rest), accepted, n, buffer, count, seqCounter, data)
    \<in> measure (\<lambda>(_, _, _, _, _, data). length data)"
    using fill_buffer_less [of count data "buffer[0 := seqCounter]"] by (auto dest: sym)
qed simp

declare send_loop.simps [simp del]

definition can_sendNetworkMsg :: "(nat \<Rightarrow> bool) \<Rightarrow> u8 list \<Rightarrow> NetworkMessage \<Rightarrow> bool \<times> u8 list list" where
  "can_sendNetworkMsg accepted buffer outMsg =
     (let dataLength = get_len outMsg;
          buffer = take 1 buffer @ the (uint16_tToBigEndian (Some (drop 1 buffer)) dataLength)
      in send_loop accepted 0 buffer 3 0 (take (unat dataLength) (userDataC outMsg)))"

text \<open>Writing the bytes of a telegram through \<open>currentDataPointer\<close>.\<close>

definition store_bytes :: "nat \<Rightarrow> u8 list \<Rightarrow> NetworkMessage \<Rightarrow> NetworkMessage option" where
  "store_bytes pos bs m =
     (if bs = [] then Some m
      else if pos + length bs \<le> length (userDataC m)
      then Some (m\<lparr>userDataC := take pos (userDataC m) @ bs @ drop (pos + length bs) (userDataC m)\<rparr>) else None)"

definition start_message :: "int \<Rightarrow> BufferedCANMessage \<Rightarrow> LinkinterfaceCAN \<Rightarrow> NetworkMessage \<Rightarrow> LinkinterfaceCAN \<times> NetworkMessage" where
  "start_message now canMsg l currentMsg =
     (let len = bigEndianToUint16_t (Some (drop 1 (can_data canMsg)));
          rid = canID canMsg;
          m = put_maxStepsToForward 5 currentMsg;
          m = put_senderNode (uint (rid AND uint32_tOnes CAN_LINK_NODE_BITS)) m;
          m = put_senderThreadId 0 m;
          m = put_sentTime now m;
          m = put_topicId (drop_bit CAN_LINK_NODE_BITS rid AND uint32_tOnes CAN_LINK_TOPIC_BITS) m;
          m = put_len len m
      in (l\<lparr>currentReceiveCANId := rid, currentDataPos := 0, bytesReceived := 0, sequenceCounter := 0\<rparr>, m))"

definition appendCANMsgToCurrentNetMsg :: "int \<Rightarrow> BufferedCANMessage \<Rightarrow> LinkinterfaceCAN \<Rightarrow> NetworkMessage \<Rightarrow>
    (bool \<times> LinkinterfaceCAN \<times> NetworkMessage) option" where
  "appendCANMsgToCurrentNetMsg now canMsg l currentMsg =
     (let l = l\<lparr>emptyBufferedCANMessagesPos := emptyBufferedCANMessagesPos l + 1\<rparr>
      in if emptyBufferedCANMessagesPos l < 0 \<or> emptyBufferedCANMessagesPos l \<ge> CAN_MSG_BUFFER_SIZE then None
      else let (userDataBegin, l, m) =
             (if can_data canMsg ! 0 = 0 then (3, start_message now canMsg l currentMsg) else (1, l, currentMsg))
      in if (if currentReceiveCANId l = 0 then can_data canMsg ! 0 > 0
             else canID canMsg \<noteq> currentReceiveCANId l \<or> can_data canMsg ! 0 \<noteq> sequenceCounter l)
         then Some (False, l, m)
         else do {
           let bs = drop userDataBegin (take (nat (can_len canMsg)) (can_data canMsg));
           m \<leftarrow> store_bytes (currentDataPos l) bs m;
           let l = l\<lparr>currentDataPos := currentDataPos l + length bs,
                     bytesReceived := of_int (uint (bytesReceived l) + can_len canMsg - int userDataBegin)\<rparr>;
           if bytesReceived l \<ge> get_len m
           then do { m \<leftarrow> setCheckSum m; Some (True, l\<lparr>currentReceiveCANId := 0\<rparr>, m) }
           else Some (False, l\<lparr>sequenceCounter := sequenceCounter l + 1\<rparr>, m)
         })"

text \<open>Taking a telegram from the controller. Without a free one the last buffered telegram is taken, and
  it needs a predecessor.\<close>

definition receiveCANMessage :: "BufferedCANMessage list \<Rightarrow> LinkinterfaceCAN \<Rightarrow>
    (BufferedCANMessage option \<times> LinkinterfaceCAN) option" where
  "receiveCANMessage input l =
     (if \<not> isBroadcast l then Some (None, l)
      else if emptyBufferedCANMessagesPos l < 0
      then if length (bufferedCANMsgs l) < 2 then None
           else (let l = l\<lparr>bufferedCANMsgs := butlast (bufferedCANMsgs l)\<rparr>
                 in case input of
                      t # _ \<Rightarrow> Some (Some t, l)
                    | [] \<Rightarrow> Some (None, l\<lparr>emptyBufferedCANMessagesPos := emptyBufferedCANMessagesPos l + 1\<rparr>))
      else case input of
             t # _ \<Rightarrow> Some (Some t, l\<lparr>emptyBufferedCANMessagesPos := emptyBufferedCANMessagesPos l - 1\<rparr>)
           | [] \<Rightarrow> Some (None, l))"

text \<open>The loop over the buffered telegrams; \<open>prev\<close> are those that stay.\<close>

fun scan_buffer :: "(BufferedCANMessage \<Rightarrow> int) \<Rightarrow> BufferedCANMessage list \<Rightarrow> BufferedCANMessage list \<Rightarrow> LinkinterfaceCAN \<Rightarrow>
    NetworkMessage \<Rightarrow> (bool \<times> LinkinterfaceCAN \<times> NetworkMessage) option" where
  "scan_buffer clock prev [] l m = Some (False, l\<lparr>bufferedCANMsgs := prev\<rparr>, m)"
| "scan_buffer clock prev (b # bs) l m =
     (if canID b = currentReceiveCANId l \<or> currentReceiveCANId l = 0
      then do {
        (fin, l, m) \<leftarrow> appendCANMsgToCurrentNetMsg (clock b) b (l\<lparr>bufferedCANMsgs := prev @ bs\<rparr>) m;
        if fin then Some (True, l, m) else scan_buffer clock prev bs l m
      }
      else scan_buffer clock (prev @ [b]) bs l m)"

text \<open>The loop over the telegrams of the controller; the result has those left there.\<close>

fun read_loop :: "(BufferedCANMessage \<Rightarrow> int) \<Rightarrow> BufferedCANMessage list \<Rightarrow> LinkinterfaceCAN \<Rightarrow> NetworkMessage \<Rightarrow>
    (bool \<times> LinkinterfaceCAN \<times> NetworkMessage \<times> BufferedCANMessage list) option" where
  "read_loop clock input l m =
     do {
       (r, l) \<leftarrow> receiveCANMessage input l;
       (case (r, input) of
          (Some t, _ # rest) \<Rightarrow>
            if canID t = currentReceiveCANId l \<or> currentReceiveCANId l = 0
            then do {
              (fin, l, m) \<leftarrow> appendCANMsgToCurrentNetMsg (clock t) t l m;
              if fin then Some (True, l, m, rest) else read_loop clock rest l m
            }
            else read_loop clock rest (l\<lparr>bufferedCANMsgs := bufferedCANMsgs l @ [t]\<rparr>) m
        | _ \<Rightarrow> Some (False, l, m, input))
     }"

declare read_loop.simps [simp del]

text \<open>\<open>getNetworkMsg\<close>; the size of the message is reported as unknown.\<close>

definition can_getNetworkMsg :: "(BufferedCANMessage \<Rightarrow> int) \<Rightarrow> BufferedCANMessage list \<Rightarrow> LinkinterfaceCAN \<Rightarrow> NetworkMessage \<Rightarrow>
    (bool \<times> LinkinterfaceCAN \<times> NetworkMessage \<times> BufferedCANMessage list) option" where
  "can_getNetworkMsg clock input l inMsg =
     do {
       (fin, l, m) \<leftarrow> (if currentReceiveCANId l = 0 then scan_buffer clock [] (bufferedCANMsgs l) l inMsg
                        else Some (False, l, inMsg));
       if fin then Some (True, l, m, input) else read_loop clock input l m
     }"

section \<open>Cutting a message\<close>

text \<open>The telegrams of a message, as the comment at the head of the source describes them.\<close>

function can_chunks :: "u8 \<Rightarrow> u8 list \<Rightarrow> u8 list list" where
  "can_chunks s ds = (if ds = [] then [] else (s # take 7 ds) # can_chunks (s + 1) (drop 7 ds))"
  by pat_completeness auto
termination by (relation "measure (\<lambda>(_, ds). length ds)") auto

declare can_chunks.simps [simp del]

definition can_telegrams :: "u8 list \<Rightarrow> u8 list list" where
  "can_telegrams ds = (if ds = [] then []
     else (0 # rev (le_bytes 2 (of_nat (length ds) :: u16)) @ take 5 ds) # can_chunks 1 (drop 5 ds))"

lemma take_min_length [simp]: "take (min (length xs) n) xs = take n xs"
  by (simp add: min_def)

lemma fill_buffer_eq:
  "length b = 8 \<Longrightarrow> c \<le> 8 \<Longrightarrow> fill_buffer b c ds =
     (take c b @ take (8 - c) ds @ drop (c + length (take (8 - c) ds)) b, c + length (take (8 - c) ds), drop (8 - c) ds)"
proof (induction b c ds rule: fill_buffer.induct)
  case (2 b c d ds)
  show ?case
  proof (cases "c < 8")
    case True
    then have e: "8 - c = Suc (8 - (c + 1))" by simp
    have "take (c + 1) (b[c := d]) = take c b @ [d]" using True 2 by (simp add: take_Suc_conv_app_nth)
    then show ?thesis using 2 True unfolding e by simp
  next
    case False
    then show ?thesis using 2 by simp
  qed
qed simp

lemma send_loop_chunks:
  "length b = 8 \<Longrightarrow> send_loop (\<lambda>_. True) n b 1 s ds = (True, can_chunks s ds)"
proof (induction s ds arbitrary: n b rule: can_chunks.induct)
  case (1 s ds)
  show ?case
  proof (cases "ds = []")
    case True
    then show ?thesis by (simp add: send_loop.simps can_chunks.simps)
  next
    case False
    then have t: "take (Suc 0) (b[0 := s]) = [s]" using 1(2) by (cases b) auto
    have f: "fill_buffer (b[0 := s]) 1 ds = (s # take 7 ds @ drop (1 + length (take 7 ds)) (b[0 := s]), 1 + length (take 7 ds), drop 7 ds)"
      using fill_buffer_eq [of "b[0 := s]" 1 ds] 1(2) t by simp
    have l: "length (s # take 7 ds @ drop (1 + length (take 7 ds)) (b[0 := s])) = 8" using 1(2) by simp
    show ?thesis using 1(1) [OF False l] False
      by (subst send_loop.simps, subst can_chunks.simps) (simp add: f [unfolded One_nat_def])
  qed
qed

lemma can_send_telegrams:
  assumes "wf_msg m" "length b = 8" "unat (get_len m) \<le> MAX_NETWORK_MESSAGE_LENGTH"
  shows "can_sendNetworkMsg (\<lambda>_. True) b m = (True, can_telegrams (take (unat (get_len m)) (userDataC m)))"
proof -
  let ?ds = "take (unat (get_len m)) (userDataC m)" and ?h = "rev (le_bytes 2 (get_len m))"
  define b1 where "b1 = take 1 b @ the (uint16_tToBigEndian (Some (drop 1 b)) (get_len m))"
  define b2 where "b2 = b1[0 := 0]"
  define b3 where "b3 = 0 # ?h @ take 5 ?ds @ drop (3 + length (take 5 ?ds)) b2"
  have l: "length ?ds = unat (get_len m)" using assms by (simp add: wf_msg_def)
  have "b1 = hd b # ?h @ drop 3 b" unfolding b1_def using assms(2) by (cases b) (simp_all add: write_bytes)
  then have b2: "b2 = 0 # ?h @ drop 3 b" by (simp add: b2_def)
  then have len: "length b2 = 8" "length b3 = 8" and t: "take 3 b2 = 0 # ?h"
    using assms(2) by (simp_all add: b3_def take_Cons')
  have f: "fill_buffer b2 3 ?ds = (b3, 3 + length (take 5 ?ds), drop 5 ?ds)"
    using fill_buffer_eq [OF len(1), of 3 ?ds] unfolding t by (simp add: b3_def)
  have n: "of_nat (length ?ds) = get_len m" unfolding l by simp
  have k: "take (3 + length (take 5 ?ds)) b3 = 0 # ?h @ take 5 ?ds" by (simp add: b3_def numeral_3_eq_3)
  have "send_loop (\<lambda>_. True) 0 b1 3 0 ?ds = (True, can_telegrams ?ds)"
  proof (cases "?ds = []")
    case True
    then show ?thesis unfolding True by (simp add: send_loop.simps can_telegrams_def)
  next
    case False
    have "send_loop (\<lambda>_. True) 0 b1 3 0 ?ds = (True, take (3 + length (take 5 ?ds)) b3 # can_chunks 1 (drop 5 ?ds))"
      using False send_loop_chunks [OF len(2), of 1 1 "drop 5 ?ds"]
      by (subst send_loop.simps) (simp add: b2_def [symmetric] f)
    then show ?thesis using False unfolding k can_telegrams_def n by simp
  qed
  then show ?thesis unfolding can_sendNetworkMsg_def Let_def b1_def .
qed

section \<open>Putting a message together\<close>

text \<open>A telegram in the memory of the receiver that carries the given bytes; the rest of its eight bytes is
  arbitrary.\<close>

definition carries :: "u32 \<Rightarrow> u8 list \<Rightarrow> BufferedCANMessage \<Rightarrow> bool" where
  "carries i bs t \<longleftrightarrow> canID t = i \<and> length (can_data t) = 8 \<and> can_len t = int (length bs) \<and> take (length bs) (can_data t) = bs"

text \<open>The receiver has stored the first \<open>k\<close> bytes of \<open>data\<close>.\<close>

definition stored :: "u8 list \<Rightarrow> nat \<Rightarrow> LinkinterfaceCAN \<Rightarrow> NetworkMessage \<Rightarrow> bool" where
  "stored data k l m \<longleftrightarrow> wf_msg m \<and> currentDataPos l = k \<and> bytesReceived l = of_nat k \<and>
     get_len m = of_nat (length data) \<and> take k (userDataC m) = take k data"

lemma carries_bytes:
  assumes "carries i (a @ bs) t"
  shows "drop (length a) (take (nat (can_len t)) (can_data t)) = bs"
proof -
  have "take (nat (can_len t)) (can_data t) = a @ bs" using assms unfolding carries_def by (metis nat_int)
  then show ?thesis by simp
qed

lemma store_next:
  fixes n :: nat
  assumes "stored data k l m" "k \<le> length data" "length data \<le> 1300"
  defines "bs \<equiv> take n (drop k data)"
  shows "\<exists>m'. store_bytes k bs m = Some m' \<and> header m' = header m \<and> wf_msg m' \<and> get_len m' = of_nat (length data) \<and>
    take (k + length bs) (userDataC m') = take (k + length bs) data"
proof -
  have u: "length (userDataC m) = 1300" using assms(1) by (simp add: stored_def wf_msg_def MAX_NETWORK_MESSAGE_LENGTH_def)
  have k: "k + length bs \<le> 1300" using assms(2,3) by (simp add: bs_def)
  have t: "take k (userDataC m) @ bs = take (k + length bs) data"
    using assms(1) take_min_length [of "drop k data" n] by (simp add: stored_def bs_def take_add)
  show ?thesis
  proof (cases "bs = []")
    case True
    then show ?thesis using assms(1) by (auto simp: store_bytes_def stored_def)
  next
    case False
    let ?m = "m\<lparr>userDataC := take k (userDataC m) @ bs @ drop (k + length bs) (userDataC m)\<rparr>"
    have w: "wf_msg ?m" using assms(1,2) u k by (auto simp: stored_def wf_msg_def)
    have "get_len ?m = get_len m" by (simp add: get_len_def read_at_def)
    moreover have "take (k + length bs) (userDataC ?m) = take (k + length bs) data" using t u k by simp
    ultimately show ?thesis using False u k w assms(1,2) by (simp add: store_bytes_def stored_def min_absorb2)
  qed
qed

lemma of_nat_bytes: "of_int (uint (of_nat k :: u16) + int (n + b) - int b) = (of_nat (k + n) :: u16)"
proof -
  have "of_int (uint (of_nat k :: u16) + int (n + b) - int b) = (of_int (uint (of_nat k :: u16)) :: u16) + of_int (int n)" by simp
  then show ?thesis by simp
qed

text \<open>The part of \<open>appendCANMsgToCurrentNetMsg\<close> after its tests: store, count, and finish the message or wait for
  the next telegram.\<close>

definition take_telegram :: "nat \<Rightarrow> BufferedCANMessage \<Rightarrow> LinkinterfaceCAN \<Rightarrow> NetworkMessage \<Rightarrow>
    (bool \<times> LinkinterfaceCAN \<times> NetworkMessage) option" where
  "take_telegram userDataBegin canMsg l m = do {
     let bs = drop userDataBegin (take (nat (can_len canMsg)) (can_data canMsg));
     m \<leftarrow> store_bytes (currentDataPos l) bs m;
     let l = l\<lparr>currentDataPos := currentDataPos l + length bs,
               bytesReceived := of_int (uint (bytesReceived l) + can_len canMsg - int userDataBegin)\<rparr>;
     if bytesReceived l \<ge> get_len m
     then do { m \<leftarrow> setCheckSum m; Some (True, l\<lparr>currentReceiveCANId := 0\<rparr>, m) }
     else Some (False, l\<lparr>sequenceCounter := sequenceCounter l + 1\<rparr>, m)
   }"

lemma take_telegram_stored:
  assumes "stored data k l m" "k \<le> length data" "length data \<le> 1300" "carries i (a @ take n (drop k data)) t"
  shows "(k + n < length data \<longrightarrow> (\<exists>m'. take_telegram (length a) t l m = Some (False, l\<lparr>currentDataPos := k + n,
       bytesReceived := of_nat (k + n), sequenceCounter := sequenceCounter l + 1\<rparr>, m') \<and> header m' = header m \<and>
       stored data (k + n) (l\<lparr>currentDataPos := k + n, bytesReceived := of_nat (k + n), sequenceCounter := sequenceCounter l + 1\<rparr>) m')) \<and>
    (length data \<le> k + n \<longrightarrow> (\<exists>l' m' c. take_telegram (length a) t l m = Some (True, l', m') \<and> currentReceiveCANId l' = 0 \<and>
       bufferedCANMsgs l' = bufferedCANMsgs l \<and> isBroadcast l' = isBroadcast l \<and> emptyBufferedCANMessagesPos l' = emptyBufferedCANMessagesPos l \<and>
       wf_msg m' \<and> isCheckSumOk m' = Some True \<and> header m' = header (put_checkSum c m) \<and> take (length data) (userDataC m') = data))"
proof -
  let ?bs = "take n (drop k data)"
  obtain m' where m': "store_bytes k ?bs m = Some m'" "header m' = header m" "wf_msg m'" "get_len m' = of_nat (length data)"
    "take (k + length ?bs) (userDataC m') = take (k + length ?bs) data"
    using store_next [OF assms(1-3), of n] by blast
  have b: "drop (length a) (take (nat (can_len t)) (can_data t)) = ?bs" using carries_bytes [OF assms(4)] .
  have n: "can_len t = int (length ?bs + length a)" using assms(4) by (simp add: carries_def)
  define kb where "kb = k + length ?bs"
  have w: "of_int (uint (of_nat k :: u16) + can_len t - int (length a)) = (of_nat kb :: u16)"
    unfolding n kb_def by (rule of_nat_bytes)
  have kb: "kb \<le> length data" using assms(2) by (auto simp: kb_def)
  then have cmp: "(of_nat (length data) :: u16) \<le> of_nat kb \<longleftrightarrow> length data \<le> kb"
    using assms(3) by (simp add: word_le_nat_alt unat_of_nat)
  have st: "currentDataPos l = k" "bytesReceived l = of_nat k" "wf_msg m" using assms(1) by (simp_all add: stored_def)
  have eq: "take_telegram (length a) t l m = (let l = l\<lparr>currentDataPos := kb, bytesReceived := of_nat kb\<rparr>
     in if length data \<le> kb then do { m \<leftarrow> setCheckSum m'; Some (True, l\<lparr>currentReceiveCANId := 0\<rparr>, m) }
        else Some (False, l\<lparr>sequenceCounter := sequenceCounter l + 1\<rparr>, m'))"
    unfolding take_telegram_def Let_def b st m'(1) bind.bind_lunit w kb_def [symmetric] by (simp add: m'(4) cmp)
  show ?thesis
  proof (cases "k + n < length data")
    case True
    then have "kb = k + n" by (simp add: kb_def)
    then show ?thesis using True eq m' by (simp add: stored_def kb_def [symmetric])
  next
    case False
    then have l: "kb = length data" using assms(2) by (auto simp: kb_def)
    have "unat (get_len m') \<le> MAX_NETWORK_MESSAGE_LENGTH"
      using assms(3) by (simp add: m'(4) unat_of_nat MAX_NETWORK_MESSAGE_LENGTH_def)
    then obtain c where c: "setCheckSum m' = Some (put_checkSum c m')" "isCheckSumOk (put_checkSum c m') = Some True"
      using setCheckSum_ok [OF m'(3)] by blast
    have "header (put_checkSum c m') = header (put_checkSum c m)" using m'(2,3) st(3) by (simp add: fSum.put_header)
    moreover have "take (length data) (userDataC (put_checkSum c m')) = data" using m'(3) m'(5) [folded kb_def] l by (simp add: fields_data)
    ultimately show ?thesis using False eq c l m'(3) by (auto simp: Let_def fields_wf)
  qed
qed

text \<open>The whole operation in terms of that part.\<close>

lemma append_eq:
  assumes "0 \<le> emptyBufferedCANMessagesPos l + 1" "emptyBufferedCANMessagesPos l + 1 < CAN_MSG_BUFFER_SIZE"
  shows "appendCANMsgToCurrentNetMsg now t l m =
    (let l = l\<lparr>emptyBufferedCANMessagesPos := emptyBufferedCANMessagesPos l + 1\<rparr>;
         (b, l, m) = (if can_data t ! 0 = 0 then (3, start_message now t l m) else (1, l, m))
     in if (if currentReceiveCANId l = 0 then can_data t ! 0 > 0
            else canID t \<noteq> currentReceiveCANId l \<or> can_data t ! 0 \<noteq> sequenceCounter l)
        then Some (False, l, m) else take_telegram b t l m)"
  using assms by (simp add: appendCANMsgToCurrentNetMsg_def take_telegram_def Let_def split_beta not_le)

lemma carries_nth: "carries i bs t \<Longrightarrow> n < length bs \<Longrightarrow> can_data t ! n = bs ! n"
  unfolding carries_def by (metis nth_take)

text \<open>The state between two telegrams of a message.\<close>

definition receiving :: "u32 \<Rightarrow> u8 list \<Rightarrow> nat \<Rightarrow> LinkinterfaceCAN \<Rightarrow> NetworkMessage \<Rightarrow> bool" where
  "receiving i data k l m \<longleftrightarrow> stored data k l m \<and> currentReceiveCANId l = i \<and> k + 2 = 7 * unat (sequenceCounter l)"

text \<open>What a finished message looks like, given the message with its header filled in.\<close>

definition finished :: "u8 list \<Rightarrow> NetworkMessage \<Rightarrow> NetworkMessage \<Rightarrow> bool" where
  "finished data m m' \<longleftrightarrow> wf_msg m' \<and> isCheckSumOk m' = Some True \<and> (\<exists>c. header m' = header (put_checkSum c m)) \<and>
     take (length data) (userDataC m') = data"

lemma append_next:
  assumes "receiving i data k l m" "k < length data" "length data \<le> 1300" "i \<noteq> 0"
    and "carries i (sequenceCounter l # take 7 (drop k data)) t"
    and "-1 \<le> emptyBufferedCANMessagesPos l" "emptyBufferedCANMessagesPos l + 1 < CAN_MSG_BUFFER_SIZE"
  shows "\<exists>l' m'. appendCANMsgToCurrentNetMsg now t l m = Some (length data \<le> k + 7, l', m') \<and>
    bufferedCANMsgs l' = bufferedCANMsgs l \<and> isBroadcast l' = isBroadcast l \<and>
    emptyBufferedCANMessagesPos l' = emptyBufferedCANMessagesPos l + 1 \<and>
    (if length data \<le> k + 7 then currentReceiveCANId l' = 0 \<and> finished data m m'
     else receiving i data (k + 7) l' m' \<and> header m' = header m \<and> sequenceCounter l' = sequenceCounter l + 1)"
proof -
  let ?l = "l\<lparr>emptyBufferedCANMessagesPos := emptyBufferedCANMessagesPos l + 1\<rparr>"
  have r: "stored data k l m" "currentReceiveCANId l = i" "k + 2 = 7 * unat (sequenceCounter l)"
    using assms(1) by (simp_all add: receiving_def)
  then have s: "sequenceCounter l \<noteq> 0" and s1: "unat (sequenceCounter l) < 200" using assms(2,3) by auto
  then have u: "unat (sequenceCounter l + 1) = unat (sequenceCounter l) + 1" by (simp add: unat_word_ariths)
  have d: "can_data t ! 0 = sequenceCounter l" "canID t = i" using carries_nth [OF assms(5), of 0] assms(5) by (simp_all add: carries_def)
  have eq: "appendCANMsgToCurrentNetMsg now t l m = take_telegram 1 t ?l m"
    using append_eq [of l now t m] assms(6,7) r s d by (simp add: Let_def assms(4))
  have st: "stored data k ?l m" using r(1) by (simp add: stored_def)
  have c: "carries i ([sequenceCounter l] @ take 7 (drop k data)) t" using assms(5) by simp
  show ?thesis
    using take_telegram_stored [OF st _ assms(3) c] assms(2) eq r u
    by (cases "k + 7 < length data") (auto simp: receiving_def finished_def stored_def)
qed

lemma finished_header: "header m1 = header m \<Longrightarrow> wf_msg m \<Longrightarrow> wf_msg m1 \<Longrightarrow> finished data m1 m2 = finished data m m2"
  by (simp add: finished_def fSum.put_header)

lemma receive_free:
  "isBroadcast l \<Longrightarrow> 0 \<le> emptyBufferedCANMessagesPos l \<Longrightarrow> receiveCANMessage (t # ts) l =
     Some (Some t, l\<lparr>emptyBufferedCANMessagesPos := emptyBufferedCANMessagesPos l - 1\<rparr>)"
  by (simp add: receiveCANMessage_def)

lemma read_loop_own:
  assumes "isBroadcast l" "0 \<le> emptyBufferedCANMessagesPos l" "canID t = currentReceiveCANId l \<or> currentReceiveCANId l = 0"
    and "appendCANMsgToCurrentNetMsg (clock t) t (l\<lparr>emptyBufferedCANMessagesPos := emptyBufferedCANMessagesPos l - 1\<rparr>) m = Some (fin, l', m')"
  shows "read_loop clock (t # ts) l m = (if fin then Some (True, l', m', ts) else read_loop clock ts l' m')"
  using assms by (subst read_loop.simps) (simp add: receive_free)

lemma read_loop_foreign:
  assumes "isBroadcast l" "0 \<le> emptyBufferedCANMessagesPos l" "canID t \<noteq> currentReceiveCANId l" "currentReceiveCANId l \<noteq> 0"
  shows "read_loop clock (t # ts) l m = read_loop clock ts (l\<lparr>emptyBufferedCANMessagesPos := emptyBufferedCANMessagesPos l - 1,
     bufferedCANMsgs := bufferedCANMsgs l @ [t]\<rparr>) m"
  using assms by (subst read_loop.simps) (simp add: receive_free)

lemma read_rest:
  assumes "receiving i data k l m" "k < length data" "length data \<le> 1300" "i \<noteq> 0" "isBroadcast l"
    and "emptyBufferedCANMessagesPos l < CAN_MSG_BUFFER_SIZE" "int (length (filter (\<lambda>t. canID t \<noteq> i) xs)) \<le> emptyBufferedCANMessagesPos l"
    and "list_all2 (carries i) (can_chunks (sequenceCounter l) (drop k data)) (filter (\<lambda>t. canID t = i) xs)"
    and "xs \<noteq> [] \<Longrightarrow> canID (last xs) = i"
  shows "\<exists>l' m'. read_loop clock (xs @ rest) l m = Some (True, l', m', rest) \<and> currentReceiveCANId l' = 0 \<and>
    bufferedCANMsgs l' = bufferedCANMsgs l @ filter (\<lambda>t. canID t \<noteq> i) xs \<and> finished data m m'"
  using assms
proof (induction xs arbitrary: k l m)
  case Nil
  then show ?case by (simp add: can_chunks.simps)
next
  case (Cons t xs)
  have pos: "0 \<le> emptyBufferedCANMessagesPos l" using Cons.prems(7) by linarith
  have id: "currentReceiveCANId l = i" and wf: "wf_msg m" using Cons.prems(1) by (simp_all add: receiving_def stored_def)
  let ?l = "l\<lparr>emptyBufferedCANMessagesPos := emptyBufferedCANMessagesPos l - 1\<rparr>"
  show ?case
  proof (cases "canID t = i")
    case True
    have ne: "drop k data \<noteq> []" using Cons.prems(2) by simp
    have ch: "can_chunks (sequenceCounter l) (drop k data) =
        (sequenceCounter l # take 7 (drop k data)) # can_chunks (sequenceCounter l + 1) (drop (k + 7) data)"
      using ne by (subst can_chunks.simps) (simp add: add.commute)
    have c: "carries i (sequenceCounter ?l # take 7 (drop k data)) t"
      and rest: "list_all2 (carries i) (can_chunks (sequenceCounter l + 1) (drop (k + 7) data)) (filter (\<lambda>t. canID t = i) xs)"
      using Cons.prems(8) True unfolding ch by simp_all
    have r: "receiving i data k ?l m" using Cons.prems(1) by (simp add: receiving_def stored_def)
    obtain l' m' where a: "appendCANMsgToCurrentNetMsg (clock t) t ?l m = Some (length data \<le> k + 7, l', m')"
      "bufferedCANMsgs l' = bufferedCANMsgs l" "isBroadcast l'" "emptyBufferedCANMessagesPos l' = emptyBufferedCANMessagesPos l"
      "if length data \<le> k + 7 then currentReceiveCANId l' = 0 \<and> finished data m m'
       else receiving i data (k + 7) l' m' \<and> header m' = header m \<and> sequenceCounter l' = sequenceCounter l + 1"
      using append_next [OF r Cons.prems(2-4) c, of "clock t"] pos Cons.prems(5,6) by auto
    note step = read_loop_own [where clock = clock and t = t and ts = "xs @ rest", OF Cons.prems(5) pos _ a(1)]
    show ?thesis
    proof (cases "length data \<le> k + 7")
      case fin: True
      then have "filter (\<lambda>t. canID t = i) xs = []" using rest by (simp add: can_chunks.simps)
      then have "xs = []" using Cons.prems(9) by (cases xs rule: rev_cases) auto
      then show ?thesis using fin a step True id by simp
    next
      case False
      have n: "xs \<noteq> [] \<Longrightarrow> canID (last xs) = i" using Cons.prems(9) by simp
      have rc: "receiving i data (k + 7) l' m'" and hd: "header m' = header m" and sc: "sequenceCounter l' = sequenceCounter l + 1"
        using a(5) False by simp_all
      obtain l2 m2 where "read_loop clock (xs @ rest) l' m' = Some (True, l2, m2, rest)" "currentReceiveCANId l2 = 0"
        "bufferedCANMsgs l2 = bufferedCANMsgs l' @ filter (\<lambda>t. canID t \<noteq> i) xs" "finished data m' m2"
        using Cons.IH [OF rc _ Cons.prems(3,4) a(3) _ _ _ n] False Cons.prems(6,7) True a(4) rest sc by auto
      moreover have "finished data m m2" using finished_header [OF hd wf] rc calculation(4) by (simp add: receiving_def stored_def)
      ultimately show ?thesis using step False True id a(2) by simp
    qed
  next
    case False
    have n: "xs \<noteq> [] \<Longrightarrow> canID (last xs) = i" and ne: "xs \<noteq> []" using Cons.prems(9) False by auto
    let ?l2 = "l\<lparr>emptyBufferedCANMessagesPos := emptyBufferedCANMessagesPos l - 1, bufferedCANMsgs := bufferedCANMsgs l @ [t]\<rparr>"
    have r: "receiving i data k ?l2 m" using Cons.prems(1) by (simp add: receiving_def stored_def)
    show ?thesis
      using Cons.IH [OF r Cons.prems(2-4) _ _ _ _ n] read_loop_foreign [OF Cons.prems(5) pos, of t clock "xs @ rest" m]
        Cons.prems(4-8) False id by simp
  qed
qed

section \<open>The identifier\<close>

lemma id_mask: "n < 32 \<Longrightarrow> uint32_tOnes n = mask n"
  by (simp add: uint32_tOnes_def mask_eq_exp_minus_1)

lemma message_canID_parts:
  "message_canID m \<noteq> 0" "message_canID m AND uint32_tOnes 8 = of_int (get_senderNode m) AND uint32_tOnes 8"
  "drop_bit 8 (message_canID m) AND uint32_tOnes 16 = get_topicId m AND uint32_tOnes 16"
proof -
  let ?s = "of_int (get_senderNode m) :: u32" and ?t = "get_topicId m"
  define c :: u32 where "c = 0x1C"
  have e: "message_canID m = push_bit 24 c OR push_bit 8 (?t AND mask 16) OR (?s AND mask 8)"
    by (simp add: message_canID_def Let_def CAN_LINK_ID_def CAN_LINK_NODE_BITS_def CAN_LINK_TOPIC_BITS_def id_mask c_def)
  have b: "bit (message_canID m) n \<longleftrightarrow> n < 32 \<and> (24 \<le> n \<and> bit c (n - 24) \<or> 8 \<le> n \<and> n < 24 \<and> bit ?t (n - 8) \<or> n < 8 \<and> bit ?s n)" for n
    unfolding e by (auto simp: bit_or_iff bit_push_bit_iff bit_and_iff bit_mask_iff)
  have "bit (message_canID m) 28" unfolding b by (simp add: c_def)
  then show "message_canID m \<noteq> 0" by auto
  show "message_canID m AND uint32_tOnes 8 = ?s AND uint32_tOnes 8"
    by (rule bit_word_eqI) (auto simp: id_mask bit_and_iff bit_mask_iff b)
  show "drop_bit 8 (message_canID m) AND uint32_tOnes 16 = ?t AND uint32_tOnes 16"
    by (rule bit_word_eqI) (auto simp: id_mask bit_and_iff bit_mask_iff bit_drop_bit_eq b)
qed

section \<open>Properties\<close>

lemma low_byte: "uint (w AND uint32_tOnes 8) = take_bit 8 (uint w)"
proof -
  have "w AND uint32_tOnes 8 = take_bit 8 w" by (simp add: id_mask take_bit_eq_mask)
  then show ?thesis by (simp add: unsigned_take_bit_eq)
qed

lemma start_message_fields:
  assumes "wf_msg m" "signed_range 64 now" "carries i (0 # rev (le_bytes 2 (of_nat n :: u16)) @ bs) t"
  shows "wf_msg (snd (start_message now t l m))" "get_len (snd (start_message now t l m)) = of_nat n"
    "get_sentTime (snd (start_message now t l m)) = now"
    "get_topicId (snd (start_message now t l m)) = drop_bit 8 i AND uint32_tOnes 16"
    "get_senderNode (snd (start_message now t l m)) = uint (i AND uint32_tOnes 8)"
proof -
  have i: "canID t = i" using assms(3) by (simp add: carries_def)
  let ?h = "rev (le_bytes 2 (of_nat n :: u16))"
  have "take (2 + length bs) (drop 1 (can_data t)) = ?h @ bs"
    using assms(3) unfolding carries_def by (cases "can_data t") auto
  then have "take 2 (take (2 + length bs) (drop 1 (can_data t))) = ?h" by simp
  then have "take 2 (drop 1 (can_data t)) = ?h" by (simp add: min_def)
  then have len: "bigEndianToUint16_t (Some (drop 1 (can_data t))) = of_nat n"
    using assms(3) by (simp add: read_bytes carries_def le_value_bytes)
  obtain u where "uint (i AND uint32_tOnes 8) = u" "0 \<le> u" "u < 2 ^ 8"
    using take_bit_int_less_exp [of 8 "uint i"] by (auto simp: low_byte)
  then have "signed_range 32 (uint (i AND uint32_tOnes 8))" by (simp add: signed_range_def)
  then have sw: "sint (i AND uint32_tOnes 8) = uint (i AND uint32_tOnes 8)"
    using sint_of_int [where 'a = 32, of "uint (i AND uint32_tOnes 8)"] by simp
  show "wf_msg (snd (start_message now t l m))" "get_len (snd (start_message now t l m)) = of_nat n"
    "get_sentTime (snd (start_message now t l m)) = now"
    "get_topicId (snd (start_message now t l m)) = drop_bit 8 i AND uint32_tOnes 16"
    "get_senderNode (snd (start_message now t l m)) = uint (i AND uint32_tOnes 8)"
    using assms(1,2) by (simp_all add: start_message_def Let_def i len [unfolded One_nat_def] fields_wf CAN_LINK_NODE_BITS_def
        CAN_LINK_TOPIC_BITS_def) (simp_all add: field_simps sw)
qed

lemma append_first:
  assumes "wf_msg m" "signed_range 64 now" "data \<noteq> []" "length data \<le> 1300" "i \<noteq> 0"
    and "carries i (0 # rev (le_bytes 2 (of_nat (length data) :: u16)) @ take 5 data) t"
    and "-1 \<le> emptyBufferedCANMessagesPos l" "emptyBufferedCANMessagesPos l + 1 < CAN_MSG_BUFFER_SIZE"
  defines "m0 \<equiv> snd (start_message now t l m)"
  shows "\<exists>l' m'. appendCANMsgToCurrentNetMsg now t l m = Some (length data \<le> 5, l', m') \<and>
    bufferedCANMsgs l' = bufferedCANMsgs l \<and> isBroadcast l' = isBroadcast l \<and>
    emptyBufferedCANMessagesPos l' = emptyBufferedCANMessagesPos l + 1 \<and>
    (if length data \<le> 5 then currentReceiveCANId l' = 0 \<and> finished data m0 m'
     else receiving i data 5 l' m' \<and> header m' = header m0 \<and> sequenceCounter l' = 1)"
proof -
  let ?l = "l\<lparr>emptyBufferedCANMessagesPos := emptyBufferedCANMessagesPos l + 1\<rparr>"
  let ?start = "?l\<lparr>currentReceiveCANId := i, currentDataPos := 0, bytesReceived := 0, sequenceCounter := 0\<rparr>"
  let ?a = "0 # rev (le_bytes 2 (of_nat (length data) :: u16))"
  have i: "canID t = i" and d: "can_data t ! 0 = 0" using assms(6) carries_nth [OF assms(6), of 0] by (simp_all add: carries_def)
  have s: "start_message now t ?l m = (?start, m0)" by (simp add: start_message_def m0_def Let_def i)
  have eq: "appendCANMsgToCurrentNetMsg now t l m = take_telegram 3 t ?start m0"
    using append_eq [of l now t m] assms(5,7,8) by (simp add: Let_def d s i)
  have st: "stored data 0 ?start m0"
    using start_message_fields(1,2) [OF assms(1,2,6), of l] by (simp add: stored_def m0_def)
  have c: "carries i (?a @ take 5 (drop 0 data)) t" using assms(6) by simp
  have "take_telegram (length ?a) t ?start m0 = take_telegram 3 t ?start m0" by simp
  then show ?thesis
    using take_telegram_stored [OF st _ assms(4) c] eq
    by (cases "5 < length data") (auto simp: receiving_def finished_def stored_def)
qed

text \<open>The whole way of a message over the bus.\<close>

lemma can_reassembles:
  assumes "wf_msg m" "0 < get_len m" "unat (get_len m) \<le> MAX_NETWORK_MESSAGE_LENGTH" "length buffer = 8" "wf_msg inMsg"
    and "currentReceiveCANId l = 0" "bufferedCANMsgs l = []" "isBroadcast l" "emptyBufferedCANMessagesPos l = CAN_MSG_BUFFER_SIZE - 1"
    and "list_all2 (carries (message_canID m)) (snd (can_sendNetworkMsg (\<lambda>_. True) buffer m))
           (t # filter (\<lambda>t. canID t = message_canID m) xs)"
    and "canID (last (t # xs)) = message_canID m" "length (filter (\<lambda>t. canID t \<noteq> message_canID m) xs) \<le> 127"
    and "signed_range 64 (clock t)"
  shows "\<exists>l' m'. can_getNetworkMsg clock (t # xs @ rest) l inMsg = Some (True, l', m', rest) \<and>
    bufferedCANMsgs l' = filter (\<lambda>t. canID t \<noteq> message_canID m) xs \<and> currentReceiveCANId l' = 0 \<and>
    get_len m' = get_len m \<and> take (unat (get_len m)) (userDataC m') = take (unat (get_len m)) (userDataC m) \<and>
    get_topicId m' = get_topicId m AND 0xFFFF \<and> get_senderNode m' = get_senderNode m mod 256 \<and>
    get_sentTime m' = clock t \<and> isCheckSumOk m' = Some True \<and> wf_msg m'"
proof -
  let ?i = "message_canID m" and ?data = "take (unat (get_len m)) (userDataC m)"
  have len: "length ?data = unat (get_len m)" and l1300: "length ?data \<le> 1300"
    using assms(1,3) by (auto simp: wf_msg_def MAX_NETWORK_MESSAGE_LENGTH_def)
  have ne: "?data \<noteq> []" using assms(2) len unat_gt_0 [of "get_len m"] by (metis length_greater_0_conv word_neq_0_conv)
  have tel: "list_all2 (carries ?i) (can_telegrams ?data) (t # filter (\<lambda>t. canID t = ?i) xs)"
    using assms(10) unfolding can_send_telegrams [OF assms(1,4,3)] by simp
  then have c: "carries ?i (0 # rev (le_bytes 2 (of_nat (length ?data) :: u16)) @ take 5 ?data) t"
    and rest: "list_all2 (carries ?i) (can_chunks 1 (drop 5 ?data)) (filter (\<lambda>t. canID t = ?i) xs)"
    using ne unfolding can_telegrams_def by (simp_all only: if_False list_all2_Cons)
  have i: "?i \<noteq> 0" by (rule message_canID_parts)
  have pos: "0 \<le> emptyBufferedCANMessagesPos l" "emptyBufferedCANMessagesPos l < CAN_MSG_BUFFER_SIZE"
    using assms(9) by (simp_all add: CAN_MSG_BUFFER_SIZE_def)
  let ?l = "l\<lparr>emptyBufferedCANMessagesPos := emptyBufferedCANMessagesPos l - 1\<rparr>"
  define m0 where "m0 = snd (start_message (clock t) t ?l inMsg)"
  have w0: "wf_msg m0" unfolding m0_def by (rule start_message_fields [OF assms(5,13) c])
  have get: "can_getNetworkMsg clock (t # xs @ rest) l inMsg = read_loop clock (t # xs @ rest) l inMsg"
    using assms(6,7) by (cases l) (simp add: can_getNetworkMsg_def)
  obtain l1 m1 where a: "appendCANMsgToCurrentNetMsg (clock t) t ?l inMsg = Some (length ?data \<le> 5, l1, m1)"
    "bufferedCANMsgs l1 = []" "isBroadcast l1" "emptyBufferedCANMessagesPos l1 = emptyBufferedCANMessagesPos l"
    "if length ?data \<le> 5 then currentReceiveCANId l1 = 0 \<and> finished ?data m0 m1
     else receiving ?i ?data 5 l1 m1 \<and> header m1 = header m0 \<and> sequenceCounter l1 = 1"
    using append_first [OF assms(5,13) ne l1300 i c, of ?l] pos assms(7,8) unfolding m0_def by auto
  note step = read_loop_own [where clock = clock and t = t and ts = "xs @ rest", OF assms(8) pos(1) _ a(1)]
  have last: "xs \<noteq> [] \<Longrightarrow> canID (last xs) = ?i" using assms(11) by simp
  have "\<exists>l' m'. read_loop clock (t # xs @ rest) l inMsg = Some (True, l', m', rest) \<and> currentReceiveCANId l' = 0 \<and>
    bufferedCANMsgs l' = filter (\<lambda>t. canID t \<noteq> ?i) xs \<and> finished ?data m0 m'"
  proof (cases "length ?data \<le> 5")
    case True
    then have "filter (\<lambda>t. canID t = ?i) xs = []" using rest by (simp add: can_chunks.simps)
    then have "xs = []" using last by (cases xs rule: rev_cases) auto
    then show ?thesis using True a step assms(6) by simp
  next
    case False
    then have r: "receiving ?i ?data 5 l1 m1" "header m1 = header m0" "sequenceCounter l1 = 1" using a(5) by simp_all
    have f: "int (length (filter (\<lambda>t. canID t \<noteq> ?i) xs)) \<le> emptyBufferedCANMessagesPos l1"
      using assms(9,12) a(4) by (simp add: CAN_MSG_BUFFER_SIZE_def)
    have p: "emptyBufferedCANMessagesPos l1 < CAN_MSG_BUFFER_SIZE" using a(4) pos by simp
    have n: "5 < length ?data" using False by linarith
    from read_rest [OF r(1) n l1300 i a(3) p f _ last, of clock rest] rest
    obtain l' m' where "read_loop clock (xs @ rest) l1 m1 = Some (True, l', m', rest)" "currentReceiveCANId l' = 0"
      "bufferedCANMsgs l' = filter (\<lambda>t. canID t \<noteq> ?i) xs" "finished ?data m1 m'" unfolding r(3) a(2) by auto
    then show ?thesis
      using step False assms(6) finished_header [OF r(2) w0] r(1) by (simp add: receiving_def stored_def)
  qed
  then obtain l' m' where r: "read_loop clock (t # xs @ rest) l inMsg = Some (True, l', m', rest)" "currentReceiveCANId l' = 0"
    "bufferedCANMsgs l' = filter (\<lambda>t. canID t \<noteq> ?i) xs" "finished ?data m0 m'" by blast
  then obtain k where k: "wf_msg m'" "isCheckSumOk m' = Some True" "header m' = header (put_checkSum k m0)"
    "take (length ?data) (userDataC m') = ?data" by (auto simp: finished_def)
  have g: "get_len m' = get_len m0" "get_topicId m' = get_topicId m0" "get_senderNode m' = get_senderNode m0" "get_sentTime m' = get_sentTime m0"
    using k(1,3) w0 by (simp_all add: field_simps)
  note st = start_message_fields [OF assms(5,13) c, of ?l, folded m0_def]
  have "uint (?i AND uint32_tOnes 8) = get_senderNode m mod 256"
    unfolding message_canID_parts(2) low_byte by (simp add: unsigned_of_int take_bit_take_bit) (simp add: take_bit_eq_mod)
  then have "get_senderNode m' = get_senderNode m mod 256" using g st by simp
  moreover have "get_topicId m' = get_topicId m AND 0xFFFF"
    using g st message_canID_parts(3) [of m] by (simp add: id_mask mask_eq_exp_minus_1)
  moreover have "get_len m' = get_len m" using g st len by simp
  ultimately show ?thesis using get r k g st len by auto
qed

text \<open>
  A message survives the CAN bus: the telegrams a link sends, arriving in order at another link and
  interleaved with up to 127 telegrams of other messages, are put together to a message with the same user
  data and length, the topic and sender cut to the bits of the identifier, the time of arrival of the first
  telegram and a right checksum; the other telegrams are kept in order for later.
\<close>

lemma can_message_survives:
  assumes "wf_msg m" "0 < get_len m" "unat (get_len m) \<le> MAX_NETWORK_MESSAGE_LENGTH" "length buffer = 8" "wf_msg inMsg"
    and "currentReceiveCANId l = 0" "bufferedCANMsgs l = []" "isBroadcast l" "emptyBufferedCANMessagesPos l = CAN_MSG_BUFFER_SIZE - 1"
    and "list_all2 (carries (message_canID m)) (snd (can_sendNetworkMsg (\<lambda>_. True) buffer m))
           (t # filter (\<lambda>t. canID t = message_canID m) xs)"
    and "canID (last (t # xs)) = message_canID m" "length (filter (\<lambda>t. canID t \<noteq> message_canID m) xs) \<le> 127"
    and "signed_range 64 (clock t)"
  shows "\<exists>l' m'. can_getNetworkMsg clock (t # xs @ rest) l inMsg = Some (True, l', m', rest) \<and>
    bufferedCANMsgs l' = filter (\<lambda>t. canID t \<noteq> message_canID m) xs \<and> currentReceiveCANId l' = 0 \<and>
    get_len m' = get_len m \<and> take (unat (get_len m)) (userDataC m') = take (unat (get_len m)) (userDataC m) \<and>
    get_topicId m' = get_topicId m AND 0xFFFF \<and> get_senderNode m' = get_senderNode m mod 256 \<and>
    get_sentTime m' = clock t \<and> isCheckSumOk m' = Some True"
  using can_reassembles [where clock = clock and rest = rest, OF assms] by blast

text \<open>Telegrams of an eight-byte message with one foreign telegram in between.\<close>

definition example_can_msg :: NetworkMessage where
  "example_can_msg = put_len 6 example_msg"

definition example_telegram :: "u8 list \<Rightarrow> BufferedCANMessage" where
  "example_telegram bs = \<lparr>canID = message_canID example_can_msg, can_data = bs @ replicate (8 - length bs) 0xEE, can_len = int (length bs)\<rparr>"

lemma can_message_survives_witness:
  "\<exists>l' m'. can_getNetworkMsg (\<lambda>_. 77) [example_telegram [0, 0, 6, 0, 0, 0, 0, 0], \<lparr>canID = 1, can_data = replicate 8 9, can_len = 8\<rparr>,
       example_telegram [1, 0]] (can_init \<lparr>isBroadcast = False, emptyBufferedCANMessagesPos = 0, bufferedCANMsgs = [], currentReceiveCANId = 0,
       currentDataPos = 0, bytesReceived = 0, sequenceCounter = 0\<rparr>) example_msg = Some (True, l', m', []) \<and>
     bufferedCANMsgs l' = [\<lparr>canID = 1, can_data = replicate 8 9, can_len = 8\<rparr>] \<and> get_sentTime m' = 77 \<and> isCheckSumOk m' = Some True"
proof -
  let ?l = "can_init \<lparr>isBroadcast = False, emptyBufferedCANMessagesPos = 0, bufferedCANMsgs = [], currentReceiveCANId = 0,
       currentDataPos = 0, bytesReceived = 0, sequenceCounter = 0\<rparr>"
  have w: "wf_msg example_msg" by (simp add: example_msg_def wf_msg_def HEADER_SIZE_def MAX_NETWORK_MESSAGE_LENGTH_def)
  then have wc: "wf_msg example_can_msg" and g: "get_len example_can_msg = 6" and d: "userDataC example_can_msg = replicate 1300 0"
    by (simp_all add: example_can_msg_def fields_wf fLen.get_put fields_data) (simp add: example_msg_def)
  have "bit (message_canID example_can_msg) 28"
    by (simp add: message_canID_def Let_def CAN_LINK_ID_def CAN_LINK_NODE_BITS_def CAN_LINK_TOPIC_BITS_def bit_or_iff bit_push_bit_iff bit_and_iff
      uint32_tOnes_def)
  then have id: "1 \<noteq> message_canID example_can_msg" by auto
  have t: "can_telegrams (replicate 6 0) = [[0, 0, 6, 0, 0, 0, 0, 0], [1, 0]]" by code_simp
  have c: "carries (message_canID example_can_msg) bs (example_telegram bs)" "canID (example_telegram bs) = message_canID example_can_msg"
    if "length bs \<le> 8" for bs
    using that by (simp_all add: carries_def example_telegram_def)
  have "list_all2 (carries (message_canID example_can_msg)) (snd (can_sendNetworkMsg (\<lambda>_. True) (replicate 8 0) example_can_msg))
      (example_telegram [0, 0, 6, 0, 0, 0, 0, 0] # filter (\<lambda>t. canID t = message_canID example_can_msg)
         [\<lparr>canID = 1, can_data = replicate 8 9, can_len = 8\<rparr>, example_telegram [1, 0]])"
    using id c by (subst can_send_telegrams [OF wc]) (simp_all add: g d t MAX_NETWORK_MESSAGE_LENGTH_def)
  from can_message_survives [OF wc _ _ _ w _ _ _ _ this, of ?l "\<lambda>_. 77" "[]"] show ?thesis
    using id by (simp add: g can_init_def MAX_NETWORK_MESSAGE_LENGTH_def signed_range_def) (auto simp: example_telegram_def)
qed

section \<open>The bus as a link\<close>

text \<open>A link without a message begun or buffered, and the telegrams of a message as they arrive: in order, perhaps
  with up to 127 telegrams of others in between.\<close>

definition idle_can :: "LinkinterfaceCAN \<Rightarrow> bool" where
  "idle_can l \<longleftrightarrow> currentReceiveCANId l = 0 \<and> bufferedCANMsgs l = [] \<and> isBroadcast l \<and>
     emptyBufferedCANMessagesPos l = CAN_MSG_BUFFER_SIZE - 1"

definition telegrams_arrive :: "NetworkMessage \<Rightarrow> u8 list \<Rightarrow> BufferedCANMessage \<Rightarrow> BufferedCANMessage list \<Rightarrow> bool" where
  "telegrams_arrive m buffer t xs \<longleftrightarrow> length buffer = 8 \<and>
     list_all2 (carries (message_canID m)) (snd (can_sendNetworkMsg (\<lambda>_. True) buffer m)) (t # filter (\<lambda>t. canID t = message_canID m) xs) \<and>
     canID (last (t # xs)) = message_canID m \<and> length (filter (\<lambda>t. canID t \<noteq> message_canID m) xs) \<le> 127"

definition can_crosses :: "NetworkMessage \<Rightarrow> int \<Rightarrow> NetworkMessage \<Rightarrow> bool" where
  "can_crosses m n m' \<longleftrightarrow> n = - 1 \<and> wf_msg m \<and> 0 < get_len m \<and> unat (get_len m) \<le> MAX_NETWORK_MESSAGE_LENGTH \<and>
     (\<exists>buffer inMsg l clock t xs rest l'. telegrams_arrive m buffer t xs \<and> wf_msg inMsg \<and> idle_can l \<and> signed_range 64 (clock t) \<and>
        can_getNetworkMsg clock (t # xs @ rest) l inMsg = Some (True, l', m', rest))"

lemma can_arrives:
  assumes "wf_msg m" "0 < get_len m" "unat (get_len m) \<le> MAX_NETWORK_MESSAGE_LENGTH"
    and "telegrams_arrive m buffer t xs" "wf_msg inMsg" "idle_can l" "signed_range 64 (clock t)"
  shows "\<exists>l' m'. can_getNetworkMsg clock (t # xs @ rest) l inMsg = Some (True, l', m', rest) \<and>
    get_len m' = get_len m \<and> take (unat (get_len m)) (userDataC m') = take (unat (get_len m)) (userDataC m) \<and>
    get_topicId m' = get_topicId m AND 0xFFFF \<and> get_senderNode m' = get_senderNode m mod 256 \<and>
    get_sentTime m' = clock t \<and> isCheckSumOk m' = Some True \<and> wf_msg m'"
  using can_reassembles [of m buffer inMsg l t xs clock rest] assms unfolding telegrams_arrive_def idle_can_def by blast

lemma can_crossesD:
  assumes "can_crosses m n m'"
  shows "n = - 1" "get_len m' = get_len m" "take (unat (get_len m)) (userDataC m') = take (unat (get_len m)) (userDataC m)"
    "get_topicId m' = get_topicId m AND 0xFFFF" "get_senderNode m' = get_senderNode m mod 256" "isCheckSumOk m' = Some True" "wf_msg m'"
proof -
  obtain buffer inMsg l clock t xs rest l' where c: "n = - 1" "wf_msg m" "0 < get_len m" "unat (get_len m) \<le> MAX_NETWORK_MESSAGE_LENGTH"
    "telegrams_arrive m buffer t xs" "wf_msg inMsg" "idle_can l" "signed_range 64 (clock t)"
    "can_getNetworkMsg clock (t # xs @ rest) l inMsg = Some (True, l', m', rest)" using assms by (auto simp: can_crosses_def)
  from can_arrives [where clock = clock, OF c(2-8), of rest] c(1,9)
  show "n = - 1" "get_len m' = get_len m" "take (unat (get_len m)) (userDataC m') = take (unat (get_len m)) (userDataC m)"
    "get_topicId m' = get_topicId m AND 0xFFFF" "get_senderNode m' = get_senderNode m mod 256" "isCheckSumOk m' = Some True" "wf_msg m'"
    by auto
qed

interpretation can: network_link can_crosses "\<lambda>t. t AND 0xFFFF" "\<lambda>s. s mod 256"
  by unfold_locales (auto dest: can_crossesD simp: size_ok_def)

text \<open>The telegrams of a message do arrive, one by one, on a bus without other traffic.\<close>

lemma can_chunks_short: "bs \<in> set (can_chunks n ds) \<Longrightarrow> length bs \<le> 8"
proof (induction n ds rule: can_chunks.induct)
  case (1 s ds)
  then show ?case by (subst (asm) (2) can_chunks.simps) (auto split: if_splits)
qed

lemma can_telegrams_short: "bs \<in> set (can_telegrams ds) \<Longrightarrow> length bs \<le> 8"
  by (auto simp: can_telegrams_def le_bytes_def can_chunks_short split: if_splits)

definition telegram :: "u32 \<Rightarrow> u8 list \<Rightarrow> BufferedCANMessage" where
  "telegram i bs = \<lparr>canID = i, can_data = bs @ replicate (8 - length bs) 0, can_len = int (length bs)\<rparr>"

lemma telegrams_exist:
  assumes "wf_msg m" "0 < get_len m" "unat (get_len m) \<le> MAX_NETWORK_MESSAGE_LENGTH" "length buffer = 8"
  shows "\<exists>t xs. telegrams_arrive m buffer t xs"
proof -
  let ?i = "message_canID m" and ?cs = "can_telegrams (take (unat (get_len m)) (userDataC m))"
  have "take (unat (get_len m)) (userDataC m) \<noteq> []"
    using assms(1-3) by (auto simp: wf_msg_def MAX_NETWORK_MESSAGE_LENGTH_def unat_eq_0)
  then obtain c cs where c: "?cs = c # cs" by (simp add: can_telegrams_def)
  have l: "list_all2 (carries ?i) xs (map (telegram ?i) xs)" if "set xs \<subseteq> set ?cs" for xs
  proof -
    have "carries ?i (xs ! k) (telegram ?i (xs ! k))" if "k < length xs" for k
      using can_telegrams_short [of "xs ! k"] nth_mem [OF that] \<open>set xs \<subseteq> set ?cs\<close> by (auto simp: carries_def telegram_def)
    then show ?thesis by (simp add: list_all2_conv_all_nth)
  qed
  have f: "filter (\<lambda>t. canID t = ?i) (map (telegram ?i) cs) = map (telegram ?i) cs" "filter (\<lambda>t. canID t \<noteq> ?i) (map (telegram ?i) cs) = []"
    by (auto simp: filter_empty_conv telegram_def intro!: filter_True)
  have "canID (last (map (telegram ?i) (c # cs))) = ?i" by (subst last_map) (auto simp: telegram_def)
  then have "telegrams_arrive m buffer (telegram ?i c) (map (telegram ?i) cs)"
    unfolding telegrams_arrive_def can_send_telegrams [OF assms(1,4,3)] snd_conv f using l [of ?cs] assms(4) c by simp
  then show ?thesis by blast
qed

text \<open>
  C5. Publishing over a CAN bus: what is put on a gateway is sent as telegrams, and when they arrive at
  an idle link, mixed with those of other senders, the gateway there delivers exactly the published
  data, under the topic cut to 16 bits and from the sender cut to eight, stamped with the time of arrival.
\<close>

theorem published_over_can:
  assumes "ready_to_send A a data len i" "0 < len"
  shows "\<exists>A' m. Gateway_put a tid len data i A = Some (1, A') \<and> gw_sent (nd_gateways A' ! a) = gw_sent (nd_gateways A ! a) @ [m] \<and>
    (\<forall>buffer. length buffer = 8 \<longrightarrow> (\<exists>t xs. telegrams_arrive m buffer t xs)) \<and>
    (\<forall>buffer t xs inMsg l clock rest B b. telegrams_arrive m buffer t xs \<and> wf_msg inMsg \<and> idle_can l \<and> signed_range 64 (clock t) \<and>
        ready_to_receive B b (tid AND 0xFFFF) (senderNode i mod 256) (clock t) len \<longrightarrow>
      (\<exists>l' m' B' info. can_getNetworkMsg clock (t # xs @ rest) l inMsg = Some (True, l', m', rest) \<and>
        gateway_receive b m' (- 1) B = Some B' \<and> delivered B (tid AND 0xFFFF) (take len data) info B' \<and>
        senderNode info = senderNode i mod 256 \<and> sentTime info = clock t))"
proof -
  obtain A' m where m: "Gateway_put a tid len data i A = Some (1, A')" "gw_sent (nd_gateways A' ! a) = gw_sent (nd_gateways A ! a) @ [m]"
    "wf_msg m" "get_topicId m = tid" "get_senderNode m = senderNode i" "isCheckSumOk m = Some True" "unat (get_len m) = len"
    "take len (userDataC m) = take len data"
    using gateway_put_message [OF assms(1), of tid undefined] by blast
  have len: "0 < get_len m" "unat (get_len m) \<le> MAX_NETWORK_MESSAGE_LENGTH"
    using assms m(7) unat_gt_0 [of "get_len m"] by (auto simp: ready_to_send_def word_neq_0_conv)
  have "\<exists>l' m' B' info. can_getNetworkMsg clock (t # xs @ rest) l inMsg = Some (True, l', m', rest) \<and>
        gateway_receive b m' (- 1) B = Some B' \<and> delivered B (tid AND 0xFFFF) (take len data) info B' \<and>
        senderNode info = senderNode i mod 256 \<and> sentTime info = clock t"
    if c: "telegrams_arrive m buffer t xs" "wf_msg inMsg" "idle_can l" "signed_range 64 (clock t)"
      and r: "ready_to_receive B b (tid AND 0xFFFF) (senderNode i mod 256) (clock t) len"
    for buffer t xs inMsg l clock rest B b
  proof -
    obtain l' m' where g: "can_getNetworkMsg clock (t # xs @ rest) l inMsg = Some (True, l', m', rest)" "get_sentTime m' = clock t"
      using can_arrives [where clock = clock, OF m(3) len c, of rest] by blast
    then have x: "can_crosses m (- 1) m'" using m(3) len c unfolding can_crosses_def by blast
    from can.received [OF x m(6), of B b] r m g(2) can.crosses_sender [OF x] g(1) show ?thesis
      by (fastforce simp: received_info_def)
  qed
  then show ?thesis using m(1,2) telegrams_exist [OF m(3) len] by blast
qed

lemma example_can_end: "ready_to_receive (example_node 1) 1 2000 (senderNode example_info mod 256) 77 3"
  using example_wf
  by (simp add: ready_to_receive_def example_node_def example_gateway_def example_info_def
      END_OF_TIME_def wf_seen_def MAX_NUMBER_OF_NODES_def is_repeated_def last_seen_def)

theorem published_over_can_witness:
  "\<exists>A' m t xs l' m' B' info. Gateway_put 0 2000 3 [1, 2, 3] example_info (example_node 5) = Some (1, A') \<and>
    gw_sent (nd_gateways A' ! 0) = gw_sent (nd_gateways (example_node 5) ! 0) @ [m] \<and> telegrams_arrive m (replicate 8 0) t xs \<and>
    can_getNetworkMsg (\<lambda>_. 77) (t # xs @ []) (can_init \<lparr>isBroadcast = False, emptyBufferedCANMessagesPos = 0, bufferedCANMsgs = [],
       currentReceiveCANId = 0, currentDataPos = 0, bytesReceived = 0, sequenceCounter = 0\<rparr>) example_msg = Some (True, l', m', []) \<and>
    gateway_receive 1 m' (- 1) (example_node 1) = Some B' \<and> delivered (example_node 1) 2000 [1, 2, 3] info B' \<and> sentTime info = 77"
proof -
  let ?l = "can_init \<lparr>isBroadcast = False, emptyBufferedCANMessagesPos = 0, bufferedCANMsgs = [], currentReceiveCANId = 0,
       currentDataPos = 0, bytesReceived = 0, sequenceCounter = 0\<rparr>"
  from published_over_can [OF example_ends(1), of 2000] obtain A' m where
    1: "Gateway_put 0 2000 3 [1, 2, 3] example_info (example_node 5) = Some (1, A')"
      "gw_sent (nd_gateways A' ! 0) = gw_sent (nd_gateways (example_node 5) ! 0) @ [m]" and
    2: "\<forall>buffer. length buffer = 8 \<longrightarrow> (\<exists>t xs. telegrams_arrive m buffer t xs)" and
    3: "\<And>buffer t xs inMsg l clock rest B b. telegrams_arrive m buffer t xs \<and> wf_msg inMsg \<and> idle_can l \<and> signed_range 64 (clock t) \<and>
        ready_to_receive B b (2000 AND 0xFFFF) (senderNode example_info mod 256) (clock t) 3 \<Longrightarrow>
      (\<exists>l' m' B' info. can_getNetworkMsg clock (t # xs @ rest) l inMsg = Some (True, l', m', rest) \<and>
        gateway_receive b m' (- 1) B = Some B' \<and> delivered B (2000 AND 0xFFFF) (take 3 [1, 2, 3]) info B' \<and>
        senderNode info = senderNode example_info mod 256 \<and> sentTime info = clock t)" by auto
  obtain t xs where t: "telegrams_arrive m (replicate 8 0) t xs" using 2 by fastforce
  have "idle_can ?l" by (simp add: idle_can_def can_init_def)
  moreover have "wf_msg example_msg" by (simp add: example_msg_def wf_msg_def HEADER_SIZE_def MAX_NETWORK_MESSAGE_LENGTH_def)
  moreover have e: "2000 AND 0xFFFF = (2000 :: u32)" "take 3 [1, 2, 3 :: u8] = [1, 2, 3]" by simp_all
  ultimately have "\<exists>l' m' B' info. can_getNetworkMsg (\<lambda>_. 77) (t # xs @ []) ?l example_msg = Some (True, l', m', []) \<and>
      gateway_receive 1 m' (- 1) (example_node 1) = Some B' \<and> delivered (example_node 1) 2000 [1, 2, 3] info B' \<and>
      senderNode info = senderNode example_info mod 256 \<and> sentTime info = 77"
    using 3 [of "replicate 8 0" t xs example_msg ?l "\<lambda>_. 77" "example_node 1" 1 "[]", unfolded e] t example_can_end
    by (simp add: signed_range_def)
  then show ?thesis using 1 t by metis
qed

end
