(* ===== verification/String_Pico.thy ===== *)
theory String_Pico
  imports Rodos_Prelude "HOL-Library.Sublist"
begin

text \<open>
  The string functions of the kernel (\<open>src/independent/string_pico.cpp\<close>). A pointer is the list of bytes
  from its address to the end of the object it points into, the null pointer is \<open>None\<close>; a function
  that reads or writes behind the end of an object has the result \<open>None\<close> (undefined behaviour). A
  pointer that is returned is an offset.
\<close>

section \<open>The code\<close>

fun strlen_loop :: "u8 list \<Rightarrow> nat option" where
  "strlen_loop [] = None"
| "strlen_loop (c # s) = (if c = 0 then Some 0 else map_option Suc (strlen_loop s))"

definition strlen :: "u8 list option \<Rightarrow> nat option" where
  "strlen s = (case s of None \<Rightarrow> Some 0 | Some m \<Rightarrow> strlen_loop m)"

fun strnlen_loop :: "u8 list \<Rightarrow> nat \<Rightarrow> nat \<Rightarrow> nat option" where
  "strnlen_loop [] n len = None"
| "strnlen_loop (c # s) n len =
     (if c = 0 then Some len else if len + 1 \<ge> n then Some (len + 1) else strnlen_loop s n (len + 1))"

definition strnlen :: "u8 list option \<Rightarrow> nat \<Rightarrow> nat option" where
  "strnlen s n = (case s of None \<Rightarrow> Some 0 | Some m \<Rightarrow> strnlen_loop m n 0)"

text \<open>The destination is returned as it is afterwards.\<close>

fun strcpy_loop :: "u8 list \<Rightarrow> u8 list \<Rightarrow> u8 list option" where
  "strcpy_loop dest [] = None"
| "strcpy_loop [] (c # s) = None"
| "strcpy_loop (d # dest) (c # s) = (if c = 0 then Some (0 # dest) else map_option ((#) c) (strcpy_loop dest s))"

definition strcpy :: "u8 list option \<Rightarrow> u8 list option \<Rightarrow> u8 list option option" where
  "strcpy destP s = (case (destP, s) of (Some d, Some m) \<Rightarrow> map_option Some (strcpy_loop d m) | _ \<Rightarrow> Some destP)"

fun strncpy_loop :: "u8 list \<Rightarrow> u8 list \<Rightarrow> nat \<Rightarrow> u8 list option" where
  "strncpy_loop [] src n = None"
| "strncpy_loop (d # dest) src 0 = Some (0 # dest)"
| "strncpy_loop (d # dest) [] (Suc n) = None"
| "strncpy_loop (d # dest) (c # src) (Suc n) =
     (if c = 0 then Some (0 # dest) else map_option ((#) c) (strncpy_loop dest src n))"

definition strncpy :: "u8 list option \<Rightarrow> u8 list option \<Rightarrow> nat \<Rightarrow> u8 list option option" where
  "strncpy destP src n =
     (case (destP, src) of (Some d, Some m) \<Rightarrow> map_option Some (strncpy_loop d m n) | _ \<Rightarrow> Some None)"

fun strcmp_loop :: "u8 list \<Rightarrow> u8 list \<Rightarrow> int option" where
  "strcmp_loop (ac # a) (bc # b) =
     (if ac < bc then Some (-1) else if ac > bc then Some 1 else if ac \<noteq> 0 then strcmp_loop a b else Some 0)"
| "strcmp_loop _ _ = None"

definition strcmp :: "u8 list option \<Rightarrow> u8 list option \<Rightarrow> int option" where
  "strcmp a b = (case a of None \<Rightarrow> Some (if b = None then 0 else -1)
     | Some m \<Rightarrow> (case b of None \<Rightarrow> Some 1 | Some n \<Rightarrow> strcmp_loop m n))"

text \<open>The characters are read before the count is tested.\<close>

fun strncmp_loop :: "u8 list \<Rightarrow> u8 list \<Rightarrow> nat \<Rightarrow> int option" where
  "strncmp_loop (ac # a) (bc # b) n =
     (if n = 0 then Some 0
      else if ac < bc then Some (-1) else if ac > bc then Some 1
      else if ac \<noteq> 0 then strncmp_loop a b (n - 1) else Some 0)"
| "strncmp_loop _ _ n = None"

definition strncmp :: "u8 list option \<Rightarrow> u8 list option \<Rightarrow> nat \<Rightarrow> int option" where
  "strncmp a b n = (case a of None \<Rightarrow> Some (if b = None then 0 else -1)
     | Some m \<Rightarrow> (case b of None \<Rightarrow> Some 1 | Some k \<Rightarrow> strncmp_loop m k n))"

text \<open>The two loops of \<open>strstr\<close>: the next occurrence of the first character, and the comparison behind it.
  The result is the offset of the occurrence, or \<open>None\<close> for the null pointer.\<close>

fun strstr_loop :: "u8 \<Rightarrow> u8 list \<Rightarrow> nat \<Rightarrow> nat \<Rightarrow> u8 list \<Rightarrow> nat option option" where
  "strstr_loop c f len pos [] = None"
| "strstr_loop c f len pos (sc # s) =
     (if sc = 0 then Some None
      else if sc \<noteq> c then strstr_loop c f len (pos + 1) s
      else (case strncmp (Some s) (Some f) len of
              None \<Rightarrow> None
            | Some r \<Rightarrow> if r \<noteq> 0 then strstr_loop c f len (pos + 1) s else Some (Some pos)))"

definition strstr :: "u8 list \<Rightarrow> u8 list \<Rightarrow> nat option option" where
  "strstr s fnd =
     (case fnd of [] \<Rightarrow> None
      | c # f \<Rightarrow> if c \<noteq> 0 then (case strlen (Some f) of None \<Rightarrow> None | Some len \<Rightarrow> strstr_loop c f len 0 s)
                else Some (Some 0))"

fun strchr_loop :: "nat \<Rightarrow> u8 list \<Rightarrow> u8 \<Rightarrow> nat option option" where
  "strchr_loop pos [] ch = None"
| "strchr_loop pos (c # s) ch =
     (if c \<noteq> 0 \<and> c \<noteq> ch then strchr_loop (pos + 1) s ch else if c = ch then Some (Some pos) else Some None)"

definition strchr :: "u8 list \<Rightarrow> u8 \<Rightarrow> nat option option" where
  "strchr str character = strchr_loop 0 str character"

fun memset_loop :: "u8 list \<Rightarrow> u8 \<Rightarrow> nat \<Rightarrow> u8 list option" where
  "memset_loop dest c 0 = Some dest"
| "memset_loop [] c (Suc len) = None"
| "memset_loop (d # dest) c (Suc len) = map_option ((#) c) (memset_loop dest c len)"

definition memset :: "u8 list option \<Rightarrow> u8 \<Rightarrow> nat \<Rightarrow> u8 list option option" where
  "memset destP c len = (case destP of None \<Rightarrow> Some None | Some d \<Rightarrow> map_option Some (memset_loop d c len))"

fun memcpy_loop :: "u8 list \<Rightarrow> u8 list \<Rightarrow> nat \<Rightarrow> u8 list option" where
  "memcpy_loop dest s 0 = Some dest"
| "memcpy_loop (d # dest) (c # s) (Suc len) = map_option ((#) c) (memcpy_loop dest s len)"
| "memcpy_loop _ _ (Suc len) = None"

definition memcpy :: "u8 list option \<Rightarrow> u8 list option \<Rightarrow> nat \<Rightarrow> u8 list option option" where
  "memcpy destP sP len =
     (case (destP, sP) of (Some d, Some s) \<Rightarrow> map_option Some (memcpy_loop d s len) | _ \<Rightarrow> Some None)"

fun memcmp :: "u8 list \<Rightarrow> u8 list \<Rightarrow> nat \<Rightarrow> int option" where
  "memcmp a b 0 = Some 0"
| "memcmp (ca # a) (cb # b) (Suc len) = (if ca < cb then Some (-1) else if ca > cb then Some 1 else memcmp a b len)"
| "memcmp _ _ (Suc len) = None"

section \<open>Strings\<close>

text \<open>A C string in memory: its characters, the terminating zero and what follows it.\<close>

definition chars :: "u8 list \<Rightarrow> bool" where
  "chars xs \<longleftrightarrow> 0 \<notin> set xs"

lemma chars_simps [simp]: "chars []" "chars (x # xs) \<longleftrightarrow> x \<noteq> 0 \<and> chars xs" "chars (xs @ ys) \<longleftrightarrow> chars xs \<and> chars ys"
  by (auto simp: chars_def)

lemma strlen_string: "chars xs \<Longrightarrow> strlen (Some (xs @ 0 # r)) = Some (length xs)"
proof -
  assume "chars xs"
  then have "strlen_loop (xs @ 0 # r) = Some (length xs)" by (induction xs) auto
  then show ?thesis by (simp add: strlen_def)
qed

lemma strnlen_loop_string:
  "chars xs \<Longrightarrow> strnlen_loop (xs @ 0 # r) n k = Some (if xs = [] then k else min (k + length xs) (max (k + 1) n))"
  by (induction xs arbitrary: k) (auto simp: min_def max_def)

lemma strcpy_string:
  "chars xs \<Longrightarrow> length xs < length d \<Longrightarrow> strcpy_loop d (xs @ 0 # r) = Some (xs @ 0 # drop (Suc (length xs)) d)"
proof (induction xs arbitrary: d)
  case Nil
  then show ?case by (cases d) auto
next
  case (Cons x xs)
  then show ?case by (cases d) auto
qed

lemma strncpy_string:
  "chars xs \<Longrightarrow> length (take n xs) < length d \<Longrightarrow>
     strncpy_loop d (xs @ 0 # r) n = Some (take n xs @ 0 # drop (Suc (length (take n xs))) d)"
proof (induction xs arbitrary: d n)
  case Nil
  then show ?case by (cases d; cases n) auto
next
  case (Cons x xs)
  then show ?case by (cases d; cases n) auto
qed

text \<open>The comparison of strings.\<close>

fun compare :: "u8 list \<Rightarrow> u8 list \<Rightarrow> int" where
  "compare [] [] = 0"
| "compare [] (y # ys) = -1"
| "compare (x # xs) [] = 1"
| "compare (x # xs) (y # ys) = (if x < y then -1 else if y < x then 1 else compare xs ys)"

lemma compare_eq: "compare xs ys = 0 \<longleftrightarrow> xs = ys"
  by (induction xs ys rule: compare.induct) auto

lemma compare_lexord: "compare xs ys = -1 \<longleftrightarrow> (xs, ys) \<in> lexord {(a, b). a < b}"
  by (induction xs ys rule: compare.induct) auto

lemma compare_sym: "compare ys xs = - compare xs ys"
  by (induction xs ys rule: compare.induct) auto

lemma zero_less_char: "x \<noteq> 0 \<Longrightarrow> 0 < (x :: u8)"
  by (simp add: word_neq_0_conv)

lemma strcmp_string: "chars xs \<Longrightarrow> chars ys \<Longrightarrow> strcmp_loop (xs @ 0 # r) (ys @ 0 # q) = Some (compare xs ys)"
  by (induction xs ys rule: compare.induct) (auto simp: zero_less_char not_less_iff_gr_or_eq)

lemma strncmp_string:
  "chars xs \<Longrightarrow> chars ys \<Longrightarrow> strncmp_loop (xs @ 0 # r) (ys @ 0 # q) n = Some (compare (take n xs) (take n ys))"
proof (induction xs ys arbitrary: n rule: compare.induct)
  case (4 x xs y ys)
  then show ?case by (cases n) auto
qed (case_tac n, auto simp: zero_less_char not_less_iff_gr_or_eq)+

text \<open>The loop of \<open>strstr\<close> finds the first position where the string begins with the one searched for.\<close>

fun first_at :: "u8 list \<Rightarrow> u8 list \<Rightarrow> nat option" where
  "first_at f [] = (if f = [] then Some 0 else None)"
| "first_at f (x # xs) = (if prefix f (x # xs) then Some 0 else map_option Suc (first_at f xs))"

lemma prefix_take: "take (length f) xs = f \<longleftrightarrow> prefix f xs"
  by (metis append_eq_conv_conj prefix_def)

lemma strstr_loop_string:
  "chars xs \<Longrightarrow> c \<noteq> 0 \<Longrightarrow> chars f \<Longrightarrow> strstr_loop c (f @ 0 # q) (length f) pos (xs @ 0 # r) =
     Some (map_option ((+) pos) (first_at (c # f) xs))"
proof (induction xs arbitrary: pos)
  case (Cons x xs)
  have "strncmp (Some (xs @ 0 # r)) (Some (f @ 0 # q)) (length f) = Some (compare (take (length f) xs) f)"
    using strncmp_string [of xs f r q "length f"] Cons.prems by (simp add: strncmp_def)
  moreover have "(+) (Suc pos) = (\<lambda>x. Suc (pos + x))" by auto
  ultimately show ?case using Cons by (auto simp: compare_eq prefix_take option.map_comp comp_def)
qed simp

lemma first_at_Some:
  "first_at f xs = Some p \<longleftrightarrow> prefix f (drop p xs) \<and> (\<forall>i < p. \<not> prefix f (drop i xs)) \<and> p \<le> length xs"
proof (induction xs arbitrary: p)
  case Nil
  then show ?case by auto
next
  case (Cons x xs)
  show ?case
  proof (cases p)
    case 0
    then show ?thesis by auto
  next
    case (Suc k)
    have "(\<forall>i < Suc k. \<not> prefix f (drop i (x # xs))) \<longleftrightarrow> \<not> prefix f (x # xs) \<and> (\<forall>i < k. \<not> prefix f (drop i xs))"
      by (auto simp: less_Suc_eq_0_disj)
    then show ?thesis using Suc Cons.IH [of k] by auto
  qed
qed

lemma first_at_None: "first_at f xs = None \<longleftrightarrow> \<not> sublist f xs"
  by (induction xs) (auto simp: sublist_Cons_right)

section \<open>Properties\<close>

text \<open>
  The comparison of C strings is the lexicographic order of their characters as unsigned values: 0
  exactly for equal strings, -1 exactly if the first is smaller, and the sign changes with the order of
  the arguments; with a count the same holds for the first characters. What follows the terminating zero
  plays no role, and a copied string compares equal.
\<close>

lemma string_compare_order:
  assumes "chars xs" "chars ys" "length xs < length d"
  shows "(strcmp (Some (xs @ 0 # r)) (Some (ys @ 0 # q)) = Some 0 \<longleftrightarrow> xs = ys) \<and>
    (strcmp (Some (xs @ 0 # r)) (Some (ys @ 0 # q)) = Some (-1) \<longleftrightarrow> (xs, ys) \<in> lexord {(a, b). a < b}) \<and>
    strcmp (Some (ys @ 0 # q)) (Some (xs @ 0 # r)) = map_option uminus (strcmp (Some (xs @ 0 # r)) (Some (ys @ 0 # q))) \<and>
    strncmp (Some (xs @ 0 # r)) (Some (ys @ 0 # q)) n = strcmp (Some (take n xs @ [0])) (Some (take n ys @ [0])) \<and>
    (\<exists>d'. strcpy (Some d) (Some (xs @ 0 # r)) = Some (Some d') \<and> strcmp (Some d') (Some (xs @ 0 # r)) = Some 0)"
proof -
  have c: "chars (take n zs)" if "chars zs" for zs using that by (auto simp: chars_def dest: in_set_takeD)
  have "strcpy (Some d) (Some (xs @ 0 # r)) = Some (Some (xs @ 0 # drop (Suc (length xs)) d))"
    using strcpy_string [OF assms(1,3), of r] by (simp add: strcpy_def)
  moreover have "strcmp_loop (xs @ 0 # drop (Suc (length xs)) d) (xs @ 0 # r) = Some 0"
    using strcmp_string [OF assms(1,1)] by (simp add: compare_eq)
  ultimately show ?thesis using assms(1,2) strcmp_string [OF c [OF assms(1)] c [OF assms(2)], of "[]" "[]"]
    by (simp add: strcmp_def strncmp_def strcmp_string strncmp_string compare_eq compare_lexord) (metis compare_sym)
qed

lemma string_compare_order_witness:
  "strcmp (Some [97, 98, 0, 7]) (Some [97, 99, 0]) = Some (-1) \<and>
   strcmp (Some [97, 99, 0]) (Some [97, 98, 0, 7]) = map_option uminus (strcmp (Some [97, 98, 0, 7]) (Some [97, 99, 0]))"
  using string_compare_order [of "[97, 98]" "[97, 99]" "[0, 0, 0, 0]" "[7]" "[]" 1] by simp

text \<open>
  \<open>strstr\<close> returns the position of the first occurrence: a string is found exactly if it is contained,
  at the least position where it begins; the empty string is found at the beginning.
\<close>

lemma strstr_first_occurrence:
  assumes "chars xs" "chars f"
  shows "(strstr (xs @ 0 # r) (f @ 0 # q) = Some (Some p) \<longleftrightarrow>
      prefix f (drop p xs) \<and> (\<forall>i < p. \<not> prefix f (drop i xs)) \<and> p \<le> length xs) \<and>
    (strstr (xs @ 0 # r) (f @ 0 # q) = Some None \<longleftrightarrow> \<not> sublist f xs)"
proof -
  have "strstr (xs @ 0 # r) (f @ 0 # q) = Some (first_at f xs)"
  proof (cases f)
    case Nil
    then show ?thesis by (cases xs) (simp_all add: strstr_def)
  next
    case (Cons c f')
    then have "strstr_loop c (f' @ 0 # q) (length f') 0 (xs @ 0 # r) = Some (map_option ((+) 0) (first_at f xs))"
      using strstr_loop_string [of xs c f' q 0 r] assms by simp
    moreover have "(+) (0 :: nat) = id" by auto
    ultimately show ?thesis using Cons assms by (simp add: strstr_def strlen_string option.map_id)
  qed
  then show ?thesis by (simp add: first_at_Some first_at_None)
qed

lemma strstr_first_occurrence_witness:
  "strstr [1, 2, 2, 3, 0, 9] [2, 3, 0] = Some (Some 2) \<and> \<not> prefix [2, 3] (drop 1 [1, 2, 2, 3 :: u8])"
proof -
  have "\<forall>i < 2. \<not> prefix [2, 3] (drop i [1, 2, 2, 3 :: u8])" by (simp add: less_Suc_eq numeral_2_eq_2)
  then show ?thesis using strstr_first_occurrence [of "[1, 2, 2, 3]" "[2, 3]" "[9]" "[]" 2] by simp
qed

text \<open>With a count that the source exceeds, \<open>strncpy\<close> writes one byte more than the count: a destination of that
  size is overrun.\<close>

lemma strncpy_overrun:
  "chars xs \<Longrightarrow> n \<le> length xs \<Longrightarrow> length d = n \<Longrightarrow> strncpy (Some d) (Some (xs @ 0 # r)) n = None"
proof -
  assume "chars xs" "n \<le> length xs" "length d = n"
  then have "strncpy_loop d (xs @ 0 # r) n = None"
  proof (induction xs arbitrary: d n)
    case Nil
    then show ?case by (cases d) auto
  next
    case (Cons x xs)
    then show ?case by (cases d; cases n) auto
  qed
  then show ?thesis by (simp add: strncpy_def)
qed

text \<open>With the count 0, \<open>strnlen\<close> of a string that is not empty is 1.\<close>

lemma strnlen_zero: "chars xs \<Longrightarrow> xs \<noteq> [] \<Longrightarrow> strnlen (Some (xs @ 0 # r)) 0 = Some 1"
  by (simp add: strnlen_def strnlen_loop_string) (cases xs; simp)

lemma strnlen_string: "chars xs \<Longrightarrow> 0 < n \<Longrightarrow> strnlen (Some (xs @ 0 # r)) n = Some (min (length xs) n)"
  by (cases xs) (simp_all add: strnlen_def strnlen_loop_string)

lemma memory_functions:
  "len \<le> length d \<Longrightarrow> memset (Some d) c len = Some (Some (replicate len c @ drop len d))"
  "len \<le> length d \<Longrightarrow> len \<le> length s \<Longrightarrow> memcpy (Some d) (Some s) len = Some (Some (take len s @ drop len d))"
  "len \<le> length a \<Longrightarrow> len \<le> length b \<Longrightarrow> memcmp a b len = Some (compare (take len a) (take len b))"
proof -
  have "memset_loop d c len = Some (replicate len c @ drop len d)" if "len \<le> length d" for d len
    using that by (induction d c len rule: memset_loop.induct) auto
  then show "len \<le> length d \<Longrightarrow> memset (Some d) c len = Some (Some (replicate len c @ drop len d))"
    by (simp add: memset_def)
  have "memcpy_loop d s len = Some (take len s @ drop len d)" if "len \<le> length d" "len \<le> length s" for d s len
    using that by (induction d s len rule: memcpy_loop.induct) auto
  then show "len \<le> length d \<Longrightarrow> len \<le> length s \<Longrightarrow> memcpy (Some d) (Some s) len = Some (Some (take len s @ drop len d))"
    by (simp add: memcpy_def)
  show "len \<le> length a \<Longrightarrow> len \<le> length b \<Longrightarrow> memcmp a b len = Some (compare (take len a) (take len b))"
    by (induction a b len rule: memcmp.induct) auto
qed

end
