(* ===== verification/Yprintf.thy ===== *)
theory Yprintf
  imports Rodos_Prelude
begin

text \<open>
  Numbers as text: the formatted output of the kernel (\<open>src/independent/yprintf.cpp\<close>) and the conversion
  of strings to integers (\<open>src/independent/stdlib_pico.cpp\<close>). A format is the list of its characters
  before the terminating zero; the text of \<open>%e\<close> and \<open>%f\<close>, computed in floating point, is a
  parameter. The output is the list of the characters given to \<open>yputc\<close>; \<open>None\<close> is a write outside
  of the scratch buffer, a read behind the end of a string, a missing argument or, in \<open>strToInt32_t\<close>, an
  overflow of a signed integer.
\<close>

section \<open>Formatted output\<close>

datatype arg = ArgInt int | ArgString "u8 list" | ArgDouble u64

record spec =
  sp_fill :: u8
  sp_width :: nat
  sp_decimalPos :: nat
  sp_long :: bool
  sp_longlong :: bool

text \<open>Reading the next character of the format: zero at its end.\<close>

definition next_char :: "u8 list \<Rightarrow> u8 \<times> u8 list" where
  "next_char fmt = (case fmt of [] \<Rightarrow> (0, []) | c # cs \<Rightarrow> (c, cs))"

definition is_dec :: "u8 \<Rightarrow> bool" where
  "is_dec c \<longleftrightarrow> 48 \<le> c \<and> c \<le> 57"

fun more_decimals :: "u8 \<Rightarrow> u8 list \<Rightarrow> nat \<Rightarrow> nat \<times> u8 \<times> u8 list" where
  "more_decimals c [] pos = (if is_dec c then ((pos * 10 + unat (c - 48)) mod 256, 0, []) else (pos, c, []))"
| "more_decimals c (d # fmt) pos =
     (if is_dec c then more_decimals d fmt ((pos * 10 + unat (c - 48)) mod 256) else (pos, c, d # fmt))"

text \<open>The flags between the percent sign and the conversion. The result is \<open>None\<close> for a bad format, where
  the output ends.\<close>

definition parse_spec :: "u8 list \<Rightarrow> (spec \<times> u8 \<times> u8 list) option" where
  "parse_spec fmt =
     (let (c, fmt) = next_char fmt;
          (fill, c, fmt) = (if c = 48 then (c, next_char fmt) else (32, c, fmt));
          (width, c, fmt) = (if is_dec c then (unat (c - 48), next_char fmt) else (0, c, fmt))
      in do {
        (decimalPos, c, fmt) \<leftarrow>
          (if c = 46 then
             (let (c1, fmt) = next_char fmt
              in if c1 = 0 then None
                 else let (c2, fmt) = next_char fmt
                 in if c2 = 0 then None else Some (more_decimals c2 fmt (unat (c1 - 48))))
           else Some (3, c, fmt));
        let (is_long, c, fmt) = (if c = 108 then (True, next_char fmt) else (False, c, fmt));
        let (is_longlong, c, fmt) = (if c = 108 then (True, next_char fmt) else (False, c, fmt));
        if c = 0 then None
        else Some (\<lparr>sp_fill = fill, sp_width = width, sp_decimalPos = decimalPos, sp_long = is_long, sp_longlong = is_longlong\<rparr>, c, fmt)
      })"

definition SCRATCH_SIZE :: nat where "SCRATCH_SIZE = 26"

text \<open>The loop over the digits, into the scratch buffer from its end; \<open>buf\<close> is what was written so far, and
  the last byte of the buffer holds the terminating zero.\<close>

function digit_loop :: "nat \<Rightarrow> nat \<Rightarrow> nat \<Rightarrow> u8 list \<Rightarrow> (u8 list \<times> nat) option" where
  "digit_loop u_val base width buf =
     (if length buf \<ge> SCRATCH_SIZE - 1 then None
      else let ch = of_nat (u_val mod base + 48);
               ch = (if ch > 57 then ch + 65 - 57 - 1 else ch);
               width = (if width > 0 then width - 1 else width)
      in if u_val div base \<noteq> 0 then digit_loop (u_val div base) base width (ch # buf) else Some (ch # buf, width))"
  by pat_completeness auto
termination by (relation "measure (\<lambda>(_, _, _, buf). SCRATCH_SIZE - length buf)") auto

declare digit_loop.simps [simp del]

fun pad_loop :: "nat \<Rightarrow> u8 \<Rightarrow> u8 list \<Rightarrow> u8 list option" where
  "pad_loop 0 fill buf = Some buf"
| "pad_loop (Suc width) fill buf = (if length buf \<ge> SCRATCH_SIZE - 1 then None else pad_loop width fill (fill # buf))"

text \<open>The conversion of the value; \<open>long_bits\<close> is the width of \<open>long\<close>.\<close>

definition number_value :: "nat \<Rightarrow> spec \<Rightarrow> int \<Rightarrow> nat" where
  "number_value long_bits sp s_val =
     (if sp_longlong sp then nat (s_val mod 2 ^ 64) else if sp_long sp then nat (s_val mod 2 ^ long_bits)
      else nat (s_val mod 2 ^ 32))"

definition print_number :: "nat \<Rightarrow> spec \<Rightarrow> bool \<Rightarrow> nat \<Rightarrow> int \<Rightarrow> u8 list option" where
  "print_number long_bits sp is_signed base s_val =
     (let negative = (is_signed \<and> s_val < 0);
          width = (if negative \<and> sp_width sp > 0 then sp_width sp - 1 else sp_width sp);
          s_val = (if negative then i64 (- s_val) else s_val)
      in do {
        (buf, width) \<leftarrow> digit_loop (number_value long_bits sp s_val) base width [];
        buf \<leftarrow> pad_loop width (sp_fill sp) buf;
        Some ((if negative then [45] else []) @ buf)
      })"

definition conversion :: "u8 \<Rightarrow> (bool \<times> nat \<times> u8 list) option" where
  "conversion c =
     (if c = 111 then Some (False, 8, [48])
      else if c = 100 then Some (True, 10, [])
      else if c = 105 then Some (False, 10, [])
      else if c = 117 then Some (False, 10, [])
      else if c = 120 then Some (False, 16, [])
      else if c = 98 then Some (False, 2, [])
      else None)"

fun c_string :: "u8 list \<Rightarrow> u8 list option" where
  "c_string [] = None"
| "c_string (c # s) = (if c = 0 then Some [] else map_option ((#) c) (c_string s))"

text \<open>One conversion: the output and the remaining arguments.\<close>

definition convert :: "(u8 \<Rightarrow> spec \<Rightarrow> u64 \<Rightarrow> u8 list) \<Rightarrow> nat \<Rightarrow> spec \<Rightarrow> u8 \<Rightarrow> arg list \<Rightarrow> (u8 list \<times> arg list) option" where
  "convert float_text long_bits sp c args =
     (if c = 115 then
        (case args of ArgString s # args \<Rightarrow> map_option (\<lambda>out. (out, args)) (c_string s) | _ \<Rightarrow> None)
      else if c = 101 \<or> c = 102 then
        (case args of ArgDouble d # args \<Rightarrow> Some (float_text c sp d, args) | _ \<Rightarrow> None)
      else if c = 99 then
        (case args of ArgInt v # args \<Rightarrow> Some ([of_int v], args) | _ \<Rightarrow> None)
      else (case conversion c of
              None \<Rightarrow> Some ([c], args)
            | Some (is_signed, base, first) \<Rightarrow>
                (case args of ArgInt v # args \<Rightarrow>
                     map_option (\<lambda>out. (first @ out, args)) (print_number long_bits sp is_signed base v)
                 | _ \<Rightarrow> None)))"

lemma more_decimals_length: "length fmt \<le> n \<Longrightarrow> length (snd (snd (more_decimals c fmt pos))) \<le> n"
  by (induction c fmt pos rule: more_decimals.induct) auto

lemma next_char_length: "length fmt \<le> n \<Longrightarrow> length (snd (next_char fmt)) \<le> n"
  by (auto simp: next_char_def split: list.splits)

lemma parse_spec_snd_length: "parse_spec fmt = Some r \<Longrightarrow> length (snd (snd r)) \<le> length fmt"
  by (auto simp: parse_spec_def Let_def split_beta split: if_splits Option.bind_splits
      intro!: next_char_length more_decimals_length)

lemma parse_spec_length: "parse_spec fmt = Some (sp, c, rest) \<Longrightarrow> length rest \<le> length fmt"
  using parse_spec_snd_length [of fmt "(sp, c, rest)"] by simp

text \<open>The loop over the format: the output, or \<open>None\<close> for an undefined run.\<close>

function vaprintf :: "(u8 \<Rightarrow> spec \<Rightarrow> u64 \<Rightarrow> u8 list) \<Rightarrow> nat \<Rightarrow> u8 list \<Rightarrow> arg list \<Rightarrow> u8 list option" where
  "vaprintf float_text long_bits [] args = Some []"
| "vaprintf float_text long_bits (c # fmt) args =
     (if c = 0 then Some []
      else if c \<noteq> 37 then map_option ((#) c) (vaprintf float_text long_bits fmt args)
      else (case parse_spec fmt of
              None \<Rightarrow> Some []
            | Some (sp, d, rest) \<Rightarrow>
                (case convert float_text long_bits sp d args of
                   None \<Rightarrow> None
                 | Some (out, args) \<Rightarrow> map_option ((@) out) (vaprintf float_text long_bits rest args))))"
  by pat_completeness auto
termination
  by (relation "measure (\<lambda>(_, _, fmt, _). length fmt)") (auto dest!: parse_spec_length)

section \<open>Strings to integers\<close>

definition isspace :: "u8 \<Rightarrow> bool" where
  "isspace c \<longleftrightarrow> (9 \<le> c \<and> c \<le> 13) \<or> c = 32"

definition isdigit :: "u8 \<Rightarrow> bool" where
  "isdigit c \<longleftrightarrow> 48 \<le> c \<and> c \<le> 57"

definition isalpha :: "u8 \<Rightarrow> bool" where
  "isalpha c \<longleftrightarrow> (97 \<le> c \<and> c \<le> 122) \<or> (65 \<le> c \<and> c \<le> 90)"

definition isupper :: "u8 \<Rightarrow> bool" where
  "isupper c \<longleftrightarrow> 65 \<le> c \<and> c \<le> 90"

text \<open>The first character that is not white space, and the position behind it.\<close>

fun skip_space :: "u8 list \<Rightarrow> nat \<Rightarrow> (u8 \<times> u8 list \<times> nat) option" where
  "skip_space [] k = None"
| "skip_space (c # s) k = (if isspace c then skip_space s (k + 1) else Some (c, s, k + 1))"

definition digit_value :: "u8 \<Rightarrow> int option" where
  "digit_value c =
     (if isdigit c then Some (uint (c - 48))
      else if isalpha c then Some (uint (c - (if isupper c then 55 else 87)))
      else None)"

text \<open>The loop over the digits: the accumulator, the flag \<open>any\<close> and the position behind the character that
  ended the loop. \<open>None\<close> is undefined behaviour: a read behind the end of the string, or an overflow of the
  signed accumulator. It is never negative, so \<open>acc *= base; acc += c\<close> overflows exactly when the sum does.\<close>

fun strtoi_loop :: "int \<Rightarrow> int \<Rightarrow> int \<Rightarrow> u8 \<Rightarrow> u8 list \<Rightarrow> nat \<Rightarrow> int \<Rightarrow> int \<Rightarrow> (int \<times> int \<times> nat) option" where
  "strtoi_loop base cutoff cutlim c s k acc any =
     (case digit_value c of
        None \<Rightarrow> Some (acc, any, k)
      | Some v \<Rightarrow>
          if v \<ge> base then Some (acc, any, k)
          else let (acc, any) = (if any < 0 \<or> acc > i32 cutoff \<or> (acc = i32 cutoff \<and> v > i8 cutlim) then (acc, - 1)
                                 else (acc * base + v, 1))
          in if \<not> in_i32 acc then None
             else (case s of [] \<Rightarrow> None | d # s \<Rightarrow> strtoi_loop base cutoff cutlim d s (k + 1) acc any))"

declare strtoi_loop.simps [simp del]


text \<open>The value and the number of characters consumed, the difference of \<open>*endptr\<close> and \<open>nptr\<close>. The string is
  given with its terminating zero.\<close>

definition strToInt32_t :: "u8 list \<Rightarrow> u8 \<Rightarrow> (int \<times> nat) option" where
  "strToInt32_t nptr base0 = do {
     (c, s, k) \<leftarrow> skip_space nptr 0;
     let neg = (c = 45);
     (c, s, k) \<leftarrow> (if c = 45 \<or> c = 43 then (case s of [] \<Rightarrow> None | d # s \<Rightarrow> Some (d, s, k + 1)) else Some (c, s, k));
     (base, c, s, k) \<leftarrow>
       (if (base0 = 0 \<or> base0 = 16) \<and> c = 48 then
          (case s of [] \<Rightarrow> None
           | x # s' \<Rightarrow>
               if x = 120 \<or> x = 88 then (case s' of [] \<Rightarrow> None | d # s'' \<Rightarrow> Some (16, d, s'', k + 2))
               else Some (base0, c, s, k))
        else Some (base0, c, s, k));
     let base = uint (if base = 0 then (if c = 48 then 8 else 10) else base);
     let limit = (if neg then 2147483648 else 2147483647 :: int);
     (acc, any, k) \<leftarrow> strtoi_loop base (limit div base) (limit mod base) c s k 0 0;
     let acc = (if any < 0 then (if neg then - 2147483648 else 2147483647) else if neg then - acc else acc);
     if in_i32 acc then Some (acc, if any \<noteq> 0 then k - 1 else 0) else None
   }"

section \<open>The digits of a number\<close>

text \<open>The reference: the digits of a number from the most significant one on.\<close>

function to_digits :: "nat \<Rightarrow> nat \<Rightarrow> nat list" where
  "to_digits base n = (if n < base \<or> base < 2 then [n] else to_digits base (n div base) @ [n mod base])"
  by pat_completeness auto
termination by (relation "measure snd") (auto simp: div_less_dividend)

declare to_digits.simps [simp del]

definition digit_char :: "nat \<Rightarrow> u8" where
  "digit_char d = (if d < 10 then of_nat (d + 48) else of_nat (d + 55))"

lemma to_digits_nonempty [simp]: "to_digits base n \<noteq> []"
  by (simp add: to_digits.simps)

lemma to_digits_less: "2 \<le> base \<Longrightarrow> \<forall>d \<in> set (to_digits base n). d < base"
  by (induction base n rule: to_digits.induct) (subst to_digits.simps, auto)

lemma to_digits_length:
  assumes "2 \<le> base"
  shows "length (to_digits base n) \<le> Suc k \<longleftrightarrow> n < base ^ Suc k"
  using assms
proof (induction k arbitrary: n)
  case 0
  then show ?case by (subst to_digits.simps) (auto simp: Suc_le_eq)
next
  case (Suc k)
  have "n < base ^ Suc k \<Longrightarrow> n < base * base ^ Suc k" and "n < base \<Longrightarrow> n < base * base ^ Suc k"
    using Suc.prems by (auto intro: less_le_trans)
  then show ?case
    using Suc.prems Suc.IH [of "n div base"]
    by (subst to_digits.simps) (auto simp: less_mult_imp_div_less div_less_iff_less_mult mult.commute)
qed

lemma digit_char_loop:
  assumes "d < 16"
  shows "(let ch = of_nat (d + 48) :: u8 in if ch > 57 then ch + 65 - 57 - 1 else ch) = digit_char d"
proof -
  have "d \<in> set [0..<16]" using assms by simp
  then show ?thesis by (auto simp: digit_char_def upt_rec Let_def)
qed

lemma digit_loop_step:
  assumes "2 \<le> base" "base \<le> 16"
  shows "digit_loop n base w buf =
    (if length buf \<ge> SCRATCH_SIZE - 1 then None
     else if n div base \<noteq> 0 then digit_loop (n div base) base (w - 1) (digit_char (n mod base) # buf)
     else Some (digit_char (n mod base) # buf, w - 1))"
proof -
  have "n mod base < base" using assms by simp
  then have "n mod base < 16" using assms by linarith
  note ch = digit_char_loop [OF this, unfolded Let_def]
  show ?thesis unfolding digit_loop.simps [of n base w buf] Let_def ch by simp
qed

lemma digit_loop_digits:
  assumes "2 \<le> base" "base \<le> 16"
  shows "digit_loop n base w buf =
    (if length (to_digits base n) + length buf < SCRATCH_SIZE
     then Some (map digit_char (to_digits base n) @ buf, w - length (to_digits base n)) else None)"
  using assms
proof (induction base n arbitrary: w buf rule: to_digits.induct)
  case (1 base n)
  have len: "0 < length (to_digits base m)" for m by simp
  show ?case
  proof (cases "n < base")
    case True
    then show ?thesis using "1.prems" by (simp add: digit_loop_step [of _ n] to_digits.simps [of _ n] SCRATCH_SIZE_def)
  next
    case False
    then have "n div base \<noteq> 0" using "1.prems" by (simp add: div_eq_0_iff)
    then show ?thesis
      using "1.prems" False "1.IH" len [of "n div base"]
      by (auto simp: digit_loop_step [of _ n] to_digits.simps [of _ n] SCRATCH_SIZE_def)
  qed
qed

lemma pad_loop_replicate:
  "pad_loop w fill buf = (if length buf + w < SCRATCH_SIZE \<or> w = 0 then Some (replicate w fill @ buf) else None)"
  by (induction w fill buf rule: pad_loop.induct) (auto simp: SCRATCH_SIZE_def replicate_app_Cons_same)

text \<open>The width of a conversion is a single digit.\<close>

lemma is_dec_value: "is_dec c \<Longrightarrow> unat (c - 48) \<le> 9"
  unfolding is_dec_def by (auto simp: unat_sub word_le_nat_alt)

lemma parse_spec_width: "parse_spec fmt = Some (sp, c, rest) \<Longrightarrow> sp_width sp \<le> 9"
  by (auto simp: parse_spec_def Let_def split_beta split: if_splits Option.bind_splits intro: is_dec_value)

lemma number_value_bound: "long_bits \<le> 64 \<Longrightarrow> number_value long_bits sp v < 2 ^ 64"
proof -
  assume "long_bits \<le> 64"
  then have "(2 :: int) ^ long_bits \<le> 2 ^ 64" by (rule power_increasing) simp
  moreover have "v mod 2 ^ long_bits < 2 ^ long_bits" "v mod 2 ^ 64 < (2 :: int) ^ 64" "v mod 2 ^ 32 < (2 :: int) ^ 32"
    by (simp_all add: pos_mod_bound)
  moreover have "(2 :: int) ^ 32 \<le> 2 ^ 64" by simp
  ultimately have "v mod 2 ^ long_bits < 2 ^ 64" "v mod 2 ^ 64 < (2 :: int) ^ 64" "v mod 2 ^ 32 < (2 :: int) ^ 64"
    by linarith+
  then show ?thesis by (simp add: number_value_def nat_less_iff)
qed

lemma conversion_base:
  "conversion c = Some (is_signed, base, first) \<Longrightarrow>
     (base = 2 \<and> c = 98) \<or> (base \<in> {8, 10, 16} \<and> c \<noteq> 98)"
  by (auto simp: conversion_def split: if_splits)

lemma to_digits_64bit:
  assumes "base \<in> {8, 10, 16}" "n < 2 ^ 64"
  shows "length (to_digits base n) \<le> 22"
proof -
  have "n < base ^ Suc 21" using assms by auto
  then show ?thesis using assms(1) by (subst (asm) to_digits_length [symmetric]) auto
qed

lemma print_number_digits:
  assumes "2 \<le> base" "base \<le> 16" "sp_width sp \<le> 9"
    and "v' = (if is_signed \<and> v < 0 then i64 (- v) else v)"
    and "ds = map digit_char (to_digits base (number_value long_bits sp v'))"
  shows "print_number long_bits sp is_signed base v =
    (if length ds < SCRATCH_SIZE
     then Some ((if is_signed \<and> v < 0 then [45] else []) @
            replicate (sp_width sp - (if is_signed \<and> v < 0 then 1 else 0) - length ds) (sp_fill sp) @ ds)
     else None)"
  using assms
  by (cases "is_signed \<and> v < 0")
    (auto simp: print_number_def Let_def digit_loop_digits pad_loop_replicate SCRATCH_SIZE_def)

text \<open>
  The scratch buffer of 26 bytes in which the digits are put suffices for every octal, decimal
  and hexadecimal conversion of every value up to 64 bits with every width a format can give. The
  only conversion that writes in front of it is \<open>%b\<close>, exactly when the value has more than 25
  binary digits.
\<close>

lemma scratch_buffer_bound:
  assumes "parse_spec fmt = Some (sp, c, rest)" "conversion c = Some (is_signed, base, first)" "long_bits \<le> 64"
  shows "print_number long_bits sp is_signed base v = None \<longleftrightarrow>
    c = 98 \<and> number_value long_bits sp v \<ge> 2 ^ 25"
proof -
  let ?v = "if is_signed \<and> v < 0 then i64 (- v) else v"
  note base = conversion_base [OF assms(2)]
  have signed: "c = 98 \<Longrightarrow> \<not> is_signed" using assms(2) by (auto simp: conversion_def split: if_splits)
  have n: "number_value long_bits sp ?v < 2 ^ 64" by (rule number_value_bound [OF assms(3)])
  have "print_number long_bits sp is_signed base v = None \<longleftrightarrow>
      \<not> length (to_digits base (number_value long_bits sp ?v)) \<le> Suc 24"
    using base by (subst print_number_digits [OF _ _ parse_spec_width [OF assms(1)] refl refl]) (auto simp: SCRATCH_SIZE_def)
  also have "\<dots> \<longleftrightarrow> c = 98 \<and> number_value long_bits sp v \<ge> 2 ^ 25"
  proof (cases "c = 98")
    case True
    with base signed show ?thesis using to_digits_length [of 2 "number_value long_bits sp v" 24] by auto
  next
    case False
    with base to_digits_64bit [OF _ n, of base] show ?thesis by auto
  qed
  finally show ?thesis .
qed


lemma scratch_buffer_bound_witness:
  "print_number 64 \<lparr>sp_fill = 32, sp_width = 0, sp_decimalPos = 3, sp_long = False, sp_longlong = False\<rparr> False 2 33554432 = None"
  using scratch_buffer_bound
    [of "[98]" "\<lparr>sp_fill = 32, sp_width = 0, sp_decimalPos = 3, sp_long = False, sp_longlong = False\<rparr>" 98 "[]" False 2 "[]" 64 33554432]
  by (simp add: parse_spec_def next_char_def is_dec_def conversion_def number_value_def)

section \<open>Printing and reading decimal numbers\<close>

definition horner :: "int \<Rightarrow> u8 list \<Rightarrow> int" where
  "horner acc cs = foldl (\<lambda>acc c. acc * 10 + uint (c - 48)) acc cs"

lemma horner_simps [simp]:
  "horner acc [] = acc"
  "horner acc (c # cs) = horner (acc * 10 + uint (c - 48)) cs"
  "horner acc (cs @ [c]) = horner acc cs * 10 + uint (c - 48)"
  by (simp_all add: horner_def)

lemma horner_ge: "0 \<le> acc \<Longrightarrow> acc \<le> horner acc cs"
proof (induction cs arbitrary: acc)
  case (Cons c cs)
  have "0 \<le> uint (c - 48)" by simp
  with Cons.IH [of "acc * 10 + uint (c - 48)"] Cons.prems show ?case unfolding horner_simps by linarith
qed simp

text \<open>The reading loop computes the value of a row of decimal digits that stays below the limit.\<close>

lemma strtoi_digits:
  assumes "\<forall>c \<in> set cs. isdigit c" "0 \<le> acc" "horner acc cs \<le> 2147483647" "cutlim \<in> {7, 8}" "0 \<le> any"
    and "d # s = cs @ [0]"
  shows "strtoi_loop 10 214748364 cutlim d s k acc any = Some (horner acc cs, if cs = [] then any else 1, k + length cs)"
  using assms
proof (induction cs arbitrary: acc any d s k)
  case Nil
  then show ?case by (simp add: strtoi_loop.simps digit_value_def isdigit_def isalpha_def)
next
  case (Cons c cs)
  then have d: "d = c" "isdigit c" and s: "s = cs @ [0]" by auto
  define v where "v = uint (c - 48)"
  have v: "v < 10" "0 \<le> v"
    using d(2) by (auto simp: v_def isdigit_def uint_sub_lem [THEN iffD1] word_le_def)
  have le: "acc * 10 + v \<le> 2147483647"
    using horner_ge [of "acc * 10 + v" cs] Cons.prems v by (simp add: v_def)
  have i8: "i8 cutlim = cutlim" using Cons.prems(4) by (auto simp: i8_def)
  have "acc \<le> 214748364" "acc = 214748364 \<Longrightarrow> v \<le> 7" using le v by linarith+
  then have fits: "\<not> (any < 0 \<or> acc > i32 214748364 \<or> (acc = i32 214748364 \<and> v > i8 cutlim))"
    using Cons.prems(4,5) unfolding i8 by (auto simp: i32_def)
  have acc: "in_i32 (acc * 10 + v)" using le v Cons.prems(2) by (simp add: in_i32_def)
  obtain d' s' where next': "d' # s' = cs @ [0]" "s = d' # s'" using s by (cases s) auto
  have "strtoi_loop 10 214748364 cutlim d' s' (k + 1) (acc * 10 + v) 1 =
      Some (horner acc (c # cs), 1, k + length (c # cs))"
    using Cons.IH [OF _ _ _ _ _ next'(1), of "acc * 10 + v" 1 "k + 1"] Cons.prems v by (simp add: v_def)
  then show ?case
    using fits acc v d next'(2) by (subst strtoi_loop.simps) (auto simp: digit_value_def v_def)
qed

lemma digit_char_decimal:
  assumes "d < 10"
  shows "isdigit (digit_char d)" "uint (digit_char d - 48) = int d"
proof -
  have "d \<in> set [0..<10]" using assms by simp
  then show "isdigit (digit_char d)" "uint (digit_char d - 48) = int d"
    by (auto simp: digit_char_def isdigit_def upt_rec)
qed

lemma decimal_chars:
  "\<forall>c \<in> set (map digit_char (to_digits 10 n)). isdigit c"
  using to_digits_less [of 10 n] by (auto intro: digit_char_decimal)

lemma horner_decimal: "horner 0 (map digit_char (to_digits 10 n)) = int n"
proof (induction "10 :: nat" n rule: to_digits.induct)
  case (1 n)
  then show ?case
    by (subst to_digits.simps) (auto simp: digit_char_decimal zdiv_int zmod_int minus_mod_eq_mult_div [symmetric] mult.commute)
qed


definition plain :: spec where
  "plain = \<lparr>sp_fill = 32, sp_width = 0, sp_decimalPos = 3, sp_long = False, sp_longlong = False\<rparr>"

lemma parse_spec_d: "parse_spec [100] = Some (plain, 100, [])"
  by (simp add: parse_spec_def next_char_def is_dec_def plain_def)

lemma vaprintf_d: "vaprintf float_text long_bits [37, 100] [ArgInt v] = print_number long_bits plain True 10 v"
  by (simp add: parse_spec_d convert_def conversion_def option.map_comp comp_def option.map_ident split: option.splits)

lemma print_decimal:
  assumes "in_i32 v"
  shows "print_number long_bits plain True 10 v =
    Some ((if v < 0 then [45] else []) @ map digit_char (to_digits 10 (nat \<bar>v\<bar>)))"
proof -
  let ?v = "if v < 0 then i64 (- v) else v"
  have n: "number_value long_bits plain ?v = nat \<bar>v\<bar>"
    using assms by (auto simp: number_value_def plain_def in_i32_def in_i64_def)
  have "nat \<bar>v\<bar> < 2 ^ 64" using assms by (auto simp: in_i32_def nat_less_iff abs_if)
  then have "length (to_digits 10 (nat \<bar>v\<bar>)) \<le> 22" by (intro to_digits_64bit) auto
  then show ?thesis
    using n by (subst print_number_digits [OF _ _ _ refl refl]) (auto simp: plain_def SCRATCH_SIZE_def)
qed

lemma digit_not_sign: "isdigit c \<Longrightarrow> \<not> isspace c \<and> c \<noteq> 45 \<and> c \<noteq> 43"
  by (auto simp: isdigit_def isspace_def word_le_nat_alt)

lemma strToInt32_t_decimal:
  assumes "in_i32 v" "v \<noteq> - 2147483648" "cs = map digit_char (to_digits 10 (nat \<bar>v\<bar>))"
  shows "strToInt32_t ((if v < 0 then [45] else []) @ cs @ [0]) 10 = Some (v, length cs + (if v < 0 then 1 else 0))"
proof -
  obtain d s where ds: "d # s = cs @ [0]" by (cases "cs @ [0]") auto
  have cs: "\<forall>c \<in> set cs. isdigit c" "horner 0 cs = \<bar>v\<bar>" "cs \<noteq> []"
    unfolding assms(3) using decimal_chars horner_decimal [of "nat \<bar>v\<bar>"] by auto
  have le: "horner 0 cs \<le> 2147483647" using cs(2) assms(1,2) by (auto simp: in_i32_def)
  have loop: "strtoi_loop 10 214748364 l d s k 0 0 = Some (\<bar>v\<bar>, 1, k + length cs)" if "l \<in> {7, 8}" for l k
    using strtoi_digits [OF cs(1) _ le that _ ds, of 0 k] cs by simp
  have "d \<in> set cs" using ds cs(3) by (cases cs) auto
  then have d: "\<not> isspace d" "d \<noteq> 45" "d \<noteq> 43" using cs(1) digit_not_sign by auto
  show ?thesis
    unfolding ds [symmetric] strToInt32_t_def Let_def
    using d loop [of 7] loop [of 8] assms(1) by (auto simp: isspace_def abs_if)
qed

text \<open>
  The smallest integer is the exception: its digits are accepted (the limit of a negative number is
  2147483648), but the accumulator is built as a positive number, and \<open>acc += c\<close> overflows.
\<close>

lemma decimal_minimum_undefined:
  "vaprintf float_text long_bits [37, 100] [ArgInt (- 2147483648)] = Some [45, 50, 49, 52, 55, 52, 56, 51, 54, 52, 56]"
  "strToInt32_t [45, 50, 49, 52, 55, 52, 56, 51, 54, 52, 56, 0] 10 = None"
proof -
  have "map digit_char (to_digits 10 2147483648) = [50, 49, 52, 55, 52, 56, 51, 54, 52, 56]"
    by (simp add: to_digits.simps digit_char_def)
  moreover have "in_i32 (- 2147483648)" by (simp add: in_i32_def)
  ultimately show "vaprintf float_text long_bits [37, 100] [ArgInt (- 2147483648)] =
      Some [45, 50, 49, 52, 55, 52, 56, 51, 54, 52, 56]"
    unfolding vaprintf_d by (subst print_decimal) auto
  show "strToInt32_t [45, 50, 49, 52, 55, 52, 56, 51, 54, 52, 56, 0] 10 = None"
    by (simp add: strToInt32_t_def isspace_def strtoi_loop.simps digit_value_def isdigit_def isalpha_def i32_def i8_def in_i32_def)
qed

text \<open>
  C37. Printing and reading are inverse: \<open>%d\<close> prints every 32-bit integer but the smallest as a
  text that \<open>strToInt32_t\<close> reads back as the same integer, without an overflow of its signed
  accumulator and consuming exactly that text.
\<close>

theorem decimal_roundtrip:
  assumes "in_i32 v" "v \<noteq> - 2147483648"
  shows "\<exists>out. vaprintf float_text long_bits [37, 100] [ArgInt v] = Some out \<and>
    strToInt32_t (out @ [0]) 10 = Some (v, length out)"
  unfolding vaprintf_d print_decimal [OF assms(1)] using strToInt32_t_decimal [OF assms refl] by simp

theorem decimal_roundtrip_witness:
  "\<exists>out. vaprintf (\<lambda>_ _ _. []) 64 [37, 100] [ArgInt (- 2147483647)] = Some out \<and>
     strToInt32_t (out @ [0]) 10 = Some (- 2147483647, length out)"
  by (rule decimal_roundtrip) (simp_all add: in_i32_def)

end
