(* ===== verification/Sorted_List.thy ===== *)
theory Sorted_List
  imports Rodos_Prelude "HOL-Library.Multiset"
begin

text \<open>
  The sorted lists of \<open>support-libs/sortedlist.h\<close> and \<open>sortedlist.cpp\<close>: circular doubly linked lists whose
  entries hold the pointers themselves. Several lists share one memory, because an entry that is
  inserted into a list is taken out of the list it was in. A node is an entry or the \<open>headAndTail\<close> of
  a list; the memory maps every node to its fields. \<open>None\<close> as the result of an operation is a null
  pointer followed or a loop that does not end. The operations are shown to refine a stable insertion
  into sorted lists.
\<close>

section \<open>The code\<close>

datatype node = Entry nat | Head nat

record chain_mem =
  ch_sortField :: "node \<Rightarrow> int"
  ch_currentList :: "node \<Rightarrow> nat option"
  ch_next :: "node \<Rightarrow> node option"
  ch_prev :: "node \<Rightarrow> node option"
  ch_numberOfElements :: "nat \<Rightarrow> int"

text \<open>Static objects are zero before their constructors run.\<close>

definition static_mem :: chain_mem where
  "static_mem = \<lparr>ch_sortField = \<lambda>_. 0, ch_currentList = \<lambda>_. None, ch_next = \<lambda>_. None, ch_prev = \<lambda>_. None,
     ch_numberOfElements = \<lambda>_. 0\<rparr>"

definition SortedChainable_init :: "node \<Rightarrow> chain_mem \<Rightarrow> chain_mem" where
  "SortedChainable_init n m = m\<lparr>ch_next := (ch_next m)(n := None), ch_prev := (ch_prev m)(n := None),
     ch_sortField := (ch_sortField m)(n := 0), ch_currentList := (ch_currentList m)(n := None)\<rparr>"

definition SortedList_new :: "nat \<Rightarrow> chain_mem \<Rightarrow> chain_mem" where
  "SortedList_new l m =
     (let m = SortedChainable_init (Head l) (m\<lparr>ch_numberOfElements := (ch_numberOfElements m)(l := 0)\<rparr>)
      in m\<lparr>ch_prev := (ch_prev m)(Head l := Some (Head l)), ch_next := (ch_next m)(Head l := Some (Head l))\<rparr>)"

definition endOfList :: "nat \<Rightarrow> node option \<Rightarrow> bool" where
  "endOfList l item = (if item = None then True else item = Some (Head l))"

definition getFirst :: "nat \<Rightarrow> chain_mem \<Rightarrow> node option" where
  "getFirst l m = (if ch_next m (Head l) = Some (Head l) then None else ch_next m (Head l))"

definition getLast :: "nat \<Rightarrow> chain_mem \<Rightarrow> node option" where
  "getLast l m = (if ch_prev m (Head l) = Some (Head l) then None else ch_prev m (Head l))"

definition getFirstValue :: "nat \<Rightarrow> chain_mem \<Rightarrow> int option" where
  "getFirstValue l m = map_option (ch_sortField m) (ch_next m (Head l))"

definition getLastValue :: "nat \<Rightarrow> chain_mem \<Rightarrow> int option" where
  "getLastValue l m = map_option (ch_sortField m) (ch_prev m (Head l))"

text \<open>The loop \<open>ITERATE_SORTED_LIST\<close> up to the first entry whose field satisfies a test.\<close>

partial_function (option) iterate_list :: "nat \<Rightarrow> (int \<Rightarrow> bool) \<Rightarrow> node option \<Rightarrow> chain_mem \<Rightarrow> node option option" where
  "iterate_list l found iter m =
     (if endOfList l iter then Some None
      else (case iter of None \<Rightarrow> None
            | Some n \<Rightarrow> if found (ch_sortField m n) then Some (Some n) else iterate_list l found (ch_next m n) m))"

definition sl_find :: "nat \<Rightarrow> int \<Rightarrow> chain_mem \<Rightarrow> node option option" where
  "sl_find l sortItem m = iterate_list l (\<lambda>v. sortItem = v) (getFirst l m) m"

definition sl_remove :: "nat \<Rightarrow> node option \<Rightarrow> chain_mem \<Rightarrow> (bool \<times> chain_mem) option" where
  "sl_remove l entry m =
     (case entry of None \<Rightarrow> Some (False, m)
      | Some e \<Rightarrow>
          if ch_currentList m e \<noteq> Some l then Some (False, m)
          else if e = Head l then Some (False, m)
          else do {
            let m = m\<lparr>ch_currentList := (ch_currentList m)(e := None)\<rparr>;
            n \<leftarrow> ch_next m e;
            let m = m\<lparr>ch_prev := (ch_prev m)(n := ch_prev m e)\<rparr>;
            p \<leftarrow> ch_prev m e;
            let m = m\<lparr>ch_next := (ch_next m)(p := ch_next m e)\<rparr>;
            Some (True, m\<lparr>ch_numberOfElements := (ch_numberOfElements m)(l := i32 (ch_numberOfElements m l - 1))\<rparr>)
          })"

definition insertBefore :: "nat \<Rightarrow> node \<Rightarrow> node \<Rightarrow> chain_mem \<Rightarrow> chain_mem option" where
  "insertBefore l beforeThis newEntry m = do {
     let m = m\<lparr>ch_next := (ch_next m)(newEntry := Some beforeThis)\<rparr>;
     let m = m\<lparr>ch_prev := (ch_prev m)(newEntry := ch_prev m beforeThis)\<rparr>;
     let m = m\<lparr>ch_currentList := (ch_currentList m)(newEntry := Some l)\<rparr>;
     p \<leftarrow> ch_prev m beforeThis;
     let m = m\<lparr>ch_next := (ch_next m)(p := Some newEntry)\<rparr>;
     let m = m\<lparr>ch_prev := (ch_prev m)(beforeThis := Some newEntry)\<rparr>;
     Some (m\<lparr>ch_numberOfElements := (ch_numberOfElements m)(l := i32 (ch_numberOfElements m l + 1))\<rparr>)
   }"

text \<open>Taking an entry out of the list it is in, at the beginning of \<open>insert\<close> and \<open>append\<close>.\<close>

definition leave_list :: "node \<Rightarrow> chain_mem \<Rightarrow> chain_mem option" where
  "leave_list newEntry m =
     (case ch_currentList m newEntry of None \<Rightarrow> Some m | Some l \<Rightarrow> map_option snd (sl_remove l (Some newEntry) m))"

definition sl_append :: "nat \<Rightarrow> node option \<Rightarrow> int \<Rightarrow> chain_mem \<Rightarrow> (bool \<times> chain_mem) option" where
  "sl_append l newEntry sortVal m =
     (case newEntry of None \<Rightarrow> Some (False, m)
      | Some e \<Rightarrow>
          if e = Head l then Some (False, m)
          else do {
            lastValue \<leftarrow> getLastValue l m;
            if sortVal < lastValue then Some (False, m)
            else do {
              m \<leftarrow> leave_list e m;
              let m = m\<lparr>ch_currentList := (ch_currentList m)(e := Some l)\<rparr>;
              let m = m\<lparr>ch_sortField := (ch_sortField m)(e := sortVal)\<rparr>;
              m \<leftarrow> insertBefore l (Head l) e m;
              Some (True, m)
            }
          })"

definition sl_appendForce :: "nat \<Rightarrow> node option \<Rightarrow> int \<Rightarrow> chain_mem \<Rightarrow> (bool \<times> chain_mem) option" where
  "sl_appendForce l newEntry sortVal m = do {
     lastValue \<leftarrow> getLastValue l m;
     sl_append l newEntry (if sortVal < lastValue then lastValue else sortVal) m
   }"

definition sl_insert :: "nat \<Rightarrow> node option \<Rightarrow> int \<Rightarrow> chain_mem \<Rightarrow> (bool \<times> chain_mem) option" where
  "sl_insert l newEntry sortVal m =
     (case newEntry of None \<Rightarrow> Some (False, m)
      | Some e \<Rightarrow>
          if e = Head l then Some (False, m)
          else do {
            m \<leftarrow> leave_list e m;
            let m = m\<lparr>ch_sortField := (ch_sortField m)(e := sortVal)\<rparr>;
            place \<leftarrow> iterate_list l (\<lambda>v. v > sortVal) (getFirst l m) m;
            case place of
              Some iter \<Rightarrow> map_option (Pair True) (insertBefore l iter e m)
            | None \<Rightarrow> map_option (\<lambda>(_, m). (True, m)) (sl_appendForce l newEntry sortVal m)
          })"

definition getAndRemoveTheFirst :: "nat \<Rightarrow> chain_mem \<Rightarrow> (node option \<times> chain_mem) option" where
  "getAndRemoveTheFirst l m =
     (let entry = getFirst l m in map_option (\<lambda>(_, m). (entry, m)) (sl_remove l entry m))"

section \<open>Chains of nodes\<close>

fun chained :: "chain_mem \<Rightarrow> node \<Rightarrow> node list \<Rightarrow> node \<Rightarrow> bool" where
  "chained m a [] b \<longleftrightarrow> ch_next m a = Some b \<and> ch_prev m b = Some a"
| "chained m a (x # xs) b \<longleftrightarrow> ch_next m a = Some x \<and> ch_prev m x = Some a \<and> chained m x xs b"

lemma chained_append: "chained m a (xs @ y # ys) b \<longleftrightarrow> chained m a xs y \<and> chained m y ys b"
  by (induction xs arbitrary: a) auto

lemma chained_frame:
  "(\<And>z. z \<in> set (a # xs) \<Longrightarrow> ch_next m' z = ch_next m z) \<Longrightarrow> (\<And>z. z \<in> set (b # xs) \<Longrightarrow> ch_prev m' z = ch_prev m z) \<Longrightarrow>
   chained m' a xs b \<longleftrightarrow> chained m a xs b"
  by (induction xs arbitrary: a) auto

lemma chained_ends: "chained m a xs b \<Longrightarrow> ch_next m a = Some (hd (xs @ [b])) \<and> ch_prev m b = Some (last (a # xs))"
  by (induction xs arbitrary: a) auto

lemma iterate_chained:
  "chained m a (map Entry xs) (Head l) \<Longrightarrow>
   iterate_list l P (ch_next m a) m = Some (map_option Entry (List.find (\<lambda>x. P (ch_sortField m (Entry x))) xs))"
  by (induction xs arbitrary: a; subst iterate_list.simps) (auto simp: endOfList_def)

text \<open>Putting a node in at the end of a chain and taking one out.\<close>

lemma chained_insert:
  assumes "chained m a xs b" "distinct xs" "a \<notin> set xs" "b \<notin> set xs" "n \<notin> set (a # b # xs)"
    and "p = last (a # xs)"
    and "ch_next m' = ((ch_next m)(n := Some b, p := Some n))" "ch_prev m' = ((ch_prev m)(n := Some p, b := Some n))"
  shows "chained m' a (xs @ [n]) b"
  using assms
proof (cases xs rule: rev_cases)
  case Nil
  with assms show ?thesis by auto
next
  case (snoc ys y)
  have "chained m a ys y" using assms(1) by (simp add: snoc chained_append)
  then have "chained m' a ys y"
    using assms snoc by (subst chained_frame [where m = m]) auto
  moreover have "chained m' y [n] b" using assms snoc by auto
  ultimately show ?thesis by (simp add: snoc chained_append)
qed

lemma chained_remove:
  assumes "chained m a (xs @ n # ys) b" "distinct (xs @ n # ys)" "a \<notin> set (xs @ n # ys)" "b \<notin> set (xs @ n # ys)"
    and "p = last (a # xs)" "s = hd (ys @ [b])"
    and "ch_next m' = (ch_next m)(p := Some s)" "ch_prev m' = (ch_prev m)(s := Some p)"
  shows "chained m' a (xs @ ys) b"
proof -
  have c: "chained m a xs n" "chained m n ys b" using assms(1) by (auto simp: chained_append)
  have left: "chained m' a xs s"
  proof (cases xs rule: rev_cases)
    case Nil
    with assms show ?thesis by auto
  next
    case (snoc zs z)
    have "chained m a zs z" using c(1) by (simp add: snoc chained_append)
    then have "chained m' a zs z" using assms snoc by (subst chained_frame [where m = m]) (cases ys; auto)+
    then show ?thesis using assms snoc by (simp add: chained_append)
  qed
  show ?thesis
  proof (cases ys)
    case Nil
    with left assms show ?thesis by simp
  next
    case (Cons y zs)
    have "chained m y zs b" using c(2) by (simp add: Cons)
    then have "chained m' y zs b" using assms Cons by (subst chained_frame [where m = m]) (cases xs rule: rev_cases; auto)+
    then show ?thesis using left assms(6) Cons by (simp add: chained_append)
  qed
qed

section \<open>Memories that represent lists\<close>

text \<open>\<open>chains m L cs\<close>: in \<open>m\<close> the lists \<open>L\<close> hold the entries \<open>cs\<close>, each entry is in at most one of them and
  knows which one.\<close>

definition chains :: "chain_mem \<Rightarrow> nat set \<Rightarrow> (nat \<Rightarrow> nat list) \<Rightarrow> bool" where
  "chains m L cs \<longleftrightarrow>
     (\<forall>l \<in> L. chained m (Head l) (map Entry (cs l)) (Head l) \<and> distinct (cs l) \<and>
        ch_numberOfElements m l = i32 (int (length (cs l))) \<and> ch_sortField m (Head l) = 0) \<and>
     (\<forall>l. ch_currentList m (Head l) = None) \<and>
     (\<forall>e l. ch_currentList m (Entry e) = Some l \<longleftrightarrow> l \<in> L \<and> e \<in> set (cs l))"

abbreviation sort_val :: "chain_mem \<Rightarrow> nat \<Rightarrow> int" where
  "sort_val m e \<equiv> ch_sortField m (Entry e)"

lemma chainsD:
  assumes "chains m L cs" "l \<in> L"
  shows "chained m (Head l) (map Entry (cs l)) (Head l)" "distinct (cs l)"
    "ch_numberOfElements m l = i32 (int (length (cs l)))" "ch_sortField m (Head l) = 0" "ch_currentList m (Head k) = None"
  using assms by (auto simp: chains_def)

lemma chainsI:
  assumes "\<And>l. l \<in> L \<Longrightarrow> chained m (Head l) (map Entry (cs l)) (Head l)" "\<And>l. l \<in> L \<Longrightarrow> distinct (cs l)"
    "\<And>l. l \<in> L \<Longrightarrow> ch_numberOfElements m l = i32 (int (length (cs l)))" "\<And>l. l \<in> L \<Longrightarrow> ch_sortField m (Head l) = 0"
    "\<And>l. ch_currentList m (Head l) = None" "\<And>e l. ch_currentList m (Entry e) = Some l \<longleftrightarrow> l \<in> L \<and> e \<in> set (cs l)"
  shows "chains m L cs"
  using assms by (simp add: chains_def)

lemma chains_entry: "chains m L cs \<Longrightarrow> ch_currentList m (Entry e) = Some l \<longleftrightarrow> l \<in> L \<and> e \<in> set (cs l)"
  by (auto simp: chains_def)

lemma chains_disjoint: "chains m L cs \<Longrightarrow> l \<in> L \<Longrightarrow> k \<in> L \<Longrightarrow> e \<in> set (cs l) \<Longrightarrow> e \<in> set (cs k) \<Longrightarrow> k = l"
  using chains_entry [of m L cs e] by (metis option.inject)

lemma i32_step: "i32 (i32 x + y) = i32 (x + y)" "i32 (i32 x - y) = i32 (x - y)"
proof -
  have "(x + 2147483648) mod 4294967296 - 2147483648 + y + 2147483648 = (x + 2147483648) mod 4294967296 + y"
    "(x + 2147483648) mod 4294967296 - 2147483648 - y + 2147483648 = (x + 2147483648) mod 4294967296 - y" by auto
  then show "i32 (i32 x + y) = i32 (x + y)" "i32 (i32 x - y) = i32 (x - y)"
    by (simp_all add: i32_def mod_simps algebra_simps)
qed

text \<open>A change of the links next to one list leaves the chains of the other lists as they are.\<close>

lemma chains_other:
  assumes "chains m L cs" "l \<in> L" "k \<in> L" "k \<noteq> l"
    and "\<And>z. z \<notin> insert (Entry e) (insert (Head l) (Entry ` set (cs l))) \<Longrightarrow> ch_next m' z = ch_next m z \<and> ch_prev m' z = ch_prev m z"
    and "e \<in> set (cs k) \<Longrightarrow> k = l"
  shows "chained m' (Head k) (map Entry (cs k)) (Head k)"
proof -
  have "z \<notin> insert (Entry e) (insert (Head l) (Entry ` set (cs l)))" if "z \<in> set (Head k # map Entry (cs k))" for z
    using that assms(4,6) chains_disjoint [OF assms(1,2,3)] by auto
  then have "ch_next m' z = ch_next m z" "ch_prev m' z = ch_prev m z" if "z \<in> set (Head k # map Entry (cs k))" for z
    using that assms(5) by blast+
  then show ?thesis using chainsD(1) [OF assms(1,3)] by (subst chained_frame [where m = m]) auto
qed

lemma remove_chains:
  assumes c: "chains m L cs" and l: "l \<in> L" and e: "e \<in> set (cs l)"
  shows "\<exists>m'. sl_remove l (Some (Entry e)) m = Some (True, m') \<and> chains m' L (cs(l := remove1 e (cs l))) \<and>
    ch_sortField m' = ch_sortField m"
proof -
  obtain xs ys where xs: "cs l = xs @ e # ys" "e \<notin> set xs" using split_list_first [OF e] by blast
  note d = chainsD [OF c l]
  let ?p = "last (Head l # map Entry xs)" and ?s = "hd (map Entry ys @ [Head l])"
  have "chained m (Head l) (map Entry xs) (Entry e)" "chained m (Entry e) (map Entry ys) (Head l)"
    using d(1) by (auto simp: xs chained_append)
  then have n: "ch_next m (Entry e) = Some ?s" "ch_prev m (Entry e) = Some ?p" by (auto dest: chained_ends)
  have s: "?s \<noteq> Entry e" using d(2) by (cases ys) (auto simp: xs)
  define m' where "m' = m\<lparr>ch_currentList := (ch_currentList m)(Entry e := None), ch_prev := (ch_prev m)(?s := Some ?p),
     ch_next := (ch_next m)(?p := Some ?s),
     ch_numberOfElements := (ch_numberOfElements m)(l := i32 (ch_numberOfElements m l - 1))\<rparr>"
  have run: "sl_remove l (Some (Entry e)) m = Some (True, m')"
    using n s chains_entry [OF c, of e l] l e by (simp add: sl_remove_def m'_def)
  have own: "chained m' (Head l) (map Entry (xs @ ys)) (Head l)"
    unfolding map_append
    by (rule chained_remove [where m = m and n = "Entry e", OF _ _ _ _ refl refl])
      (use d(1,2) in \<open>auto simp: xs m'_def distinct_map inj_on_def\<close>)
  have ps: "?p \<in> insert (Head l) (Entry ` set (cs l))" "?s \<in> insert (Head l) (Entry ` set (cs l))"
    using last_in_set [of "Head l # map Entry xs"] hd_in_set [of "map Entry ys @ [Head l]"] by (auto simp: xs)
  have other: "chained m' (Head k) (map Entry (cs k)) (Head k)" if "k \<in> L" "k \<noteq> l" for k
    using that ps chains_disjoint [OF c l that(1) e] by (intro chains_other [OF c l, where e = e]) (auto simp: m'_def)
  have len: "i32 (ch_numberOfElements m l - 1) = i32 (int (length (xs @ ys)))"
    unfolding d(3) i32_step by (simp add: xs)
  have r: "remove1 e (cs l) = xs @ ys" using xs by (simp add: remove1_append)
  have cur: "ch_currentList m' (Entry x) = Some k \<longleftrightarrow> k \<in> L \<and> x \<in> set ((cs(l := xs @ ys)) k)" for x k
  proof -
    have "ch_currentList m' (Entry x) = Some k \<longleftrightarrow> x \<noteq> e \<and> k \<in> L \<and> x \<in> set (cs k)"
      using chains_entry [OF c, of x k] by (simp add: m'_def)
    moreover have "k \<in> L \<Longrightarrow> k \<noteq> l \<Longrightarrow> e \<notin> set (cs k)" using chains_disjoint [OF c l _ e] by blast
    ultimately show ?thesis using d(2) by (cases "k = l") (auto simp: xs)
  qed
  have "chains m' L (cs(l := xs @ ys))"
  proof (rule chainsI)
    fix k assume k: "k \<in> L"
    note dk = chainsD [OF c k]
    show "chained m' (Head k) (map Entry ((cs(l := xs @ ys)) k)) (Head k)" using own other k by simp
    show "distinct ((cs(l := xs @ ys)) k)" using d(2) dk(2) by (simp add: xs)
    show "ch_numberOfElements m' k = i32 (int (length ((cs(l := xs @ ys)) k)))" using len dk(3) by (simp add: m'_def)
    show "ch_sortField m' (Head k) = 0" using dk(4) by (simp add: m'_def)
  next
    show "ch_currentList m' (Head k) = None" for k using d(5) by (simp add: m'_def)
  qed (rule cur)
  then show ?thesis using run r by (auto simp: m'_def)
qed

lemma insertBefore_chains:
  assumes c: "chains m L cs" and l: "l \<in> L" and e: "ch_currentList m (Entry e) = None" and xs: "cs l = xs @ ys"
    and m1: "ch_next m1 = ch_next m" "ch_prev m1 = ch_prev m" "ch_numberOfElements m1 = ch_numberOfElements m"
      "ch_sortField m1 = (ch_sortField m)(Entry e := v)" "(ch_currentList m1)(Entry e := Some l) = (ch_currentList m)(Entry e := Some l)"
  shows "\<exists>m'. insertBefore l (hd (map Entry ys @ [Head l])) (Entry e) m1 = Some m' \<and> chains m' L (cs(l := xs @ e # ys)) \<and>
    ch_sortField m' = (ch_sortField m)(Entry e := v)"
proof -
  note d = chainsD [OF c l]
  let ?p = "last (Head l # map Entry xs)" and ?b = "hd (map Entry ys @ [Head l])"
  have fresh: "k \<in> L \<Longrightarrow> e \<notin> set (cs k)" for k using chains_entry [OF c, of e k] e by auto
  have split: "chained m (Head l) (map Entry xs) ?b" "ys \<noteq> [] \<Longrightarrow> chained m ?b (map Entry (tl ys)) (Head l)"
    using d(1) by (cases ys; auto simp: xs chained_append)+
  have p: "ch_prev m ?b = Some ?p" using chained_ends [OF split(1)] by simp
  have b: "?b \<noteq> Entry e" using fresh [OF l] by (cases ys) (auto simp: xs)
  define m' where "m' = m1\<lparr>ch_next := (ch_next m)(Entry e := Some ?b, ?p := Some (Entry e)),
     ch_prev := (ch_prev m)(Entry e := Some ?p, ?b := Some (Entry e)), ch_currentList := (ch_currentList m1)(Entry e := Some l),
     ch_numberOfElements := (ch_numberOfElements m)(l := i32 (ch_numberOfElements m l + 1))\<rparr>"
  have run: "insertBefore l ?b (Entry e) m1 = Some m'"
    using p b m1 by (simp add: insertBefore_def m'_def)
  have notin: "?b \<notin> Entry ` set xs" using d(2) by (cases ys) (auto simp: xs)
  have left: "chained m' (Head l) (map Entry xs @ [Entry e]) ?b"
    by (rule chained_insert [OF split(1) _ _ _ _ refl])
      (use d(2) fresh [OF l] b notin in \<open>auto simp: xs m'_def distinct_map inj_on_def\<close>)
  have own: "chained m' (Head l) (map Entry (xs @ e # ys)) (Head l)"
  proof (cases ys)
    case Nil
    with left show ?thesis by simp
  next
    case (Cons y zs)
    have "?p \<in> insert (Head l) (Entry ` set xs)" using last_in_set [of "Head l # map Entry xs"] by auto
    then have "chained m' (Entry y) (map Entry zs) (Head l)"
      using split(2) d(2) fresh [OF l] Cons by (subst chained_frame [where m = m]) (auto simp: m'_def xs)
    with left Cons show ?thesis by (simp add: chained_append)
  qed
  have ps: "?p \<in> insert (Head l) (Entry ` set (cs l))" "?b \<in> insert (Head l) (Entry ` set (cs l))"
    using last_in_set [of "Head l # map Entry xs"] hd_in_set [of "map Entry ys @ [Head l]"] by (auto simp: xs)
  have other: "chained m' (Head k) (map Entry (cs k)) (Head k)" if "k \<in> L" "k \<noteq> l" for k
    using that ps fresh by (intro chains_other [OF c l, where e = e]) (auto simp: m'_def)
  have len: "i32 (ch_numberOfElements m l + 1) = i32 (int (length (xs @ e # ys)))"
    unfolding d(3) i32_step by (simp add: xs algebra_simps)
  have cur: "ch_currentList m' (Entry x) = Some k \<longleftrightarrow> k \<in> L \<and> x \<in> set ((cs(l := xs @ e # ys)) k)" for x k
    using chains_entry [OF c, of x k] fresh l by (auto simp: m'_def xs m1)
  have hd: "ch_currentList m' (Head k) = None" for k using chainsD(5) [OF c l] by (simp add: m'_def m1)
  have "chains m' L (cs(l := xs @ e # ys))"
  proof (rule chainsI)
    fix k assume k: "k \<in> L"
    note dk = chainsD [OF c k]
    show "chained m' (Head k) (map Entry ((cs(l := xs @ e # ys)) k)) (Head k)" using own other k by simp
    show "distinct ((cs(l := xs @ e # ys)) k)" using d(2) dk(2) fresh [OF l] by (simp add: xs)
    show "ch_numberOfElements m' k = i32 (int (length ((cs(l := xs @ e # ys)) k)))" using len dk(3) by (simp add: m'_def m1)
    show "ch_sortField m' (Head k) = 0" using dk(4) by (simp add: m'_def m1)
  qed (rule hd cur)+
  then show ?thesis using run m1 by (auto simp: m'_def)
qed

section \<open>The operations\<close>

definition represents :: "chain_mem \<Rightarrow> nat set \<Rightarrow> (nat \<Rightarrow> nat list) \<Rightarrow> bool" where
  "represents m L cs \<longleftrightarrow> chains m L cs \<and> (\<forall>l \<in> L. sorted (map (sort_val m) (cs l)))"

text \<open>The specification: an entry is taken out of every list, and goes behind the entries with a value that is
  not greater.\<close>

definition taken :: "nat \<Rightarrow> (nat \<Rightarrow> nat list) \<Rightarrow> nat \<Rightarrow> nat list" where
  "taken e cs = (\<lambda>l. remove1 e (cs l))"

definition ins_after :: "('e \<Rightarrow> int) \<Rightarrow> 'e \<Rightarrow> int \<Rightarrow> 'e list \<Rightarrow> 'e list" where
  "ins_after key e k xs = takeWhile (\<lambda>x. key x \<le> k) xs @ e # dropWhile (\<lambda>x. key x \<le> k) xs"

lemma chains_cong: "chains m L cs \<Longrightarrow> (\<And>l. l \<in> L \<Longrightarrow> cs' l = cs l) \<Longrightarrow> chains m L cs'"
  by (simp add: chains_def cong: conj_cong)

lemma chains_sortField: "chains m L cs \<Longrightarrow> chains (m\<lparr>ch_sortField := (ch_sortField m)(Entry e := v)\<rparr>) L cs"
  unfolding chains_def by (simp add: chained_frame [where m = m and m' = "m\<lparr>ch_sortField := (ch_sortField m)(Entry e := v)\<rparr>"])

lemma sorted_taken: "sorted (map f xs) \<Longrightarrow> sorted (map f (remove1 e xs))"
  by (metis sorted_map_remove1)

lemma leave_list_chains:
  assumes "represents m L cs"
  shows "\<exists>m'. leave_list (Entry e) m = Some m' \<and> represents m' L (taken e cs) \<and> ch_sortField m' = ch_sortField m \<and>
    ch_currentList m' (Entry e) = None"
proof (cases "ch_currentList m (Entry e)")
  case None
  then have "l \<in> L \<Longrightarrow> e \<notin> set (cs l)" for l using assms chains_entry [of m L cs e l] by (auto simp: represents_def)
  then have "represents m L (taken e cs)"
    using assms by (auto simp: represents_def taken_def remove1_idem intro: chains_cong)
  with None show ?thesis by (simp add: leave_list_def)
next
  case (Some l)
  have c: "chains m L cs" using assms by (simp add: represents_def)
  then have l: "l \<in> L" "e \<in> set (cs l)" using Some chains_entry by auto
  obtain m' where m': "sl_remove l (Some (Entry e)) m = Some (True, m')" "chains m' L (cs(l := remove1 e (cs l)))"
    "ch_sortField m' = ch_sortField m" using remove_chains [OF c l] by blast
  have t: "chains m' L (taken e cs)"
  proof (rule chains_cong [OF m'(2)])
    fix k assume "k \<in> L"
    then have "k \<noteq> l \<Longrightarrow> e \<notin> set (cs k)" using chains_disjoint [OF c l(1) _ l(2)] by blast
    then show "taken e cs k = (cs(l := remove1 e (cs l))) k" by (simp add: taken_def remove1_idem)
  qed
  have "k \<in> L \<Longrightarrow> e \<notin> set (taken e cs k)" for k using chainsD(2) [OF c] by (simp add: taken_def)
  then have "ch_currentList m' (Entry e) = None" using chains_entry [OF t] by (meson not_None_eq)
  with m' t Some assms show ?thesis by (auto simp: leave_list_def represents_def taken_def sorted_taken)
qed

lemma getFirst_chains:
  assumes "chains m L cs" "l \<in> L"
  shows "getFirst l m = (case cs l of [] \<Rightarrow> None | x # xs \<Rightarrow> Some (Entry x))"
    "getLastValue l m = Some (if cs l = [] then 0 else sort_val m (last (cs l)))"
    "iterate_list l P (getFirst l m) m = Some (map_option Entry (List.find (\<lambda>x. P (sort_val m x)) (cs l)))"
proof -
  note d = chainsD [OF assms]
  note ends = chained_ends [OF d(1)]
  show "getFirst l m = (case cs l of [] \<Rightarrow> None | x # xs \<Rightarrow> Some (Entry x))"
    using ends by (auto simp: getFirst_def split: list.splits)
  show "getLastValue l m = Some (if cs l = [] then 0 else sort_val m (last (cs l)))"
    using ends d(4) by (auto simp: getLastValue_def last_map)
  show "iterate_list l P (getFirst l m) m = Some (map_option Entry (List.find (\<lambda>x. P (sort_val m x)) (cs l)))"
  proof (cases "cs l")
    case Nil
    then have "getFirst l m = None" using ends by (auto simp: getFirst_def)
    then show ?thesis using Nil by (subst iterate_list.simps) (simp add: endOfList_def)
  next
    case (Cons x xs)
    then have "getFirst l m = ch_next m (Head l)" using ends by (auto simp: getFirst_def)
    then show ?thesis using iterate_chained [OF d(1)] by simp
  qed
qed

lemma find_dropWhile: "List.find P xs = (case dropWhile (\<lambda>x. \<not> P x) xs of [] \<Rightarrow> None | y # _ \<Rightarrow> Some y)"
  by (induction xs) auto

lemma sorted_ins_after:
  assumes "sorted (map f xs)" "f e = k" "\<forall>x \<in> set xs. f x = key x"
  shows "sorted (map f (ins_after key e k xs))"
proof -
  let ?P = "\<lambda>x. key x \<le> k"
  have a: "sorted (map f (takeWhile ?P xs))" "sorted (map f (dropWhile ?P xs))"
  proof -
    have "sorted (map f (takeWhile ?P xs) @ map f (dropWhile ?P xs))"
      unfolding map_append [symmetric] takeWhile_dropWhile_id by (rule assms(1))
    then show "sorted (map f (takeWhile ?P xs))" "sorted (map f (dropWhile ?P xs))" unfolding sorted_append by blast+
  qed
  have b: "\<forall>x \<in> set (takeWhile ?P xs). f x \<le> k" using assms(3) by (auto dest: set_takeWhileD)
  have d: "\<forall>y \<in> set (dropWhile ?P xs). k \<le> f y"
  proof (cases "dropWhile ?P xs")
    case Nil
    then show ?thesis unfolding Nil by simp
  next
    case (Cons y ys)
    then have "\<not> ?P y" using hd_dropWhile [of ?P xs] by simp
    moreover have "y \<in> set xs" using Cons by (metis list.set_intros(1) set_dropWhileD)
    ultimately show ?thesis using a(2) assms(3) unfolding Cons by auto
  qed
  show ?thesis using a b d assms(2) unfolding ins_after_def by (fastforce simp: sorted_append)
qed


lemma append_represents:
  assumes r: "represents m L cs" and l: "l \<in> L" and e: "ch_currentList m (Entry e) = None"
    and k: "(if cs l = [] then 0 else sort_val m (last (cs l))) \<le> k"
  shows "\<exists>m'. sl_append l (Some (Entry e)) k m = Some (True, m') \<and> represents m' L (cs(l := cs l @ [e])) \<and>
    ch_sortField m' = (ch_sortField m)(Entry e := k)"
proof -
  have c: "chains m L cs" using r by (simp add: represents_def)
  have fresh: "j \<in> L \<Longrightarrow> e \<notin> set (cs j)" for j using chains_entry [OF c, of e j] e by auto
  let ?m1 = "m\<lparr>ch_currentList := (ch_currentList m)(Entry e := Some l), ch_sortField := (ch_sortField m)(Entry e := k)\<rparr>"
  obtain m' where m': "insertBefore l (Head l) (Entry e) ?m1 = Some m'" "chains m' L (cs(l := cs l @ [e]))"
    "ch_sortField m' = (ch_sortField m)(Entry e := k)"
    using insertBefore_chains [OF c l e, of "cs l" "[]" ?m1 k] by auto
  have "sl_append l (Some (Entry e)) k m = Some (True, m')"
    using k m'(1) by (simp add: sl_append_def getFirst_chains(2) [OF c l] leave_list_def e)
  moreover have "sorted (map (sort_val m') ((cs(l := cs l @ [e])) j))" if "j \<in> L" for j
  proof -
    have s: "sorted (map (sort_val m) (cs j))" using r that by (simp add: represents_def)
    have same: "\<forall>x \<in> set (cs j). sort_val m' x = sort_val m x" using fresh [OF that] by (auto simp: m'(3))
    then have "map (sort_val m') (cs j) = map (sort_val m) (cs j)" by simp
    then have sm: "sorted (map (sort_val m') (cs j))" using s by (simp only:)
    have new: "sort_val m' e = k" by (simp add: m'(3))
    have "\<forall>x \<in> set (cs j). sort_val m x \<le> k" if "j = l"
    proof
      fix x assume x: "x \<in> set (cs j)"
      then have "sort_val m x \<le> sort_val m (last (cs j))"
        using s by (cases "cs j" rule: rev_cases) (auto simp: sorted_append)
      then show "sort_val m x \<le> k" using k x that by (auto split: if_splits)
    qed
    then show ?thesis using same sm new by (cases "j = l") (auto simp: sorted_append)
  qed
  ultimately show ?thesis using m' unfolding represents_def by blast
qed

lemma insert_represents:
  assumes r: "represents m L cs" and l: "l \<in> L" and xs: "xs = remove1 e (cs l)"
    and v: "v = (if xs = [] then max 0 k else k)"
  shows "\<exists>m'. sl_insert l (Some (Entry e)) k m = Some (True, m') \<and>
    represents m' L ((taken e cs)(l := ins_after (sort_val m) e k xs)) \<and> ch_sortField m' = (ch_sortField m)(Entry e := v)"
proof -
  obtain m1 where m1: "leave_list (Entry e) m = Some m1" "represents m1 L (taken e cs)" "ch_sortField m1 = ch_sortField m"
    "ch_currentList m1 (Entry e) = None" using leave_list_chains [OF r] by blast
  have c: "chains m1 L (taken e cs)" using m1(2) by (simp add: represents_def)
  have fresh: "j \<in> L \<Longrightarrow> e \<notin> set (taken e cs j)" for j using chains_entry [OF c, of e j] m1(4) by auto
  have s: "j \<in> L \<Longrightarrow> sorted (map (sort_val m) (taken e cs j))" for j using m1(2,3) by (simp add: represents_def)
  have tl: "taken e cs l = xs" by (simp add: taken_def xs)
  let ?m2 = "m1\<lparr>ch_sortField := (ch_sortField m)(Entry e := k)\<rparr>"
  let ?P = "\<lambda>x. sort_val m x \<le> k"
  define rest where "rest = dropWhile ?P xs"
  have c2: "chains ?m2 L (taken e cs)" using chains_sortField [OF c, of e k] by (simp add: m1(3))
  have same: "j \<in> L \<Longrightarrow> map (\<lambda>x. ((ch_sortField m)(Entry e := w)) (Entry x)) (taken e cs j) = map (sort_val m) (taken e cs j)" for w j
    using fresh by auto
  have it: "iterate_list l (\<lambda>v. v > k) (getFirst l ?m2) ?m2 =
      Some (case rest of [] \<Rightarrow> None | y # _ \<Rightarrow> Some (Entry y))"
  proof -
    have "List.find (\<lambda>x. k < sort_val ?m2 x) xs = List.find (\<lambda>x. k < sort_val m x) xs"
      using fresh [OF l] tl by (intro find_cong) auto
    also have "\<dots> = (case rest of [] \<Rightarrow> None | y # _ \<Rightarrow> Some y)" by (simp add: find_dropWhile not_less rest_def)
    finally have fd: "List.find (\<lambda>x. k < sort_val ?m2 x) xs = (case rest of [] \<Rightarrow> None | y # _ \<Rightarrow> Some y)" .
    show ?thesis
      unfolding getFirst_chains(3) [OF c2 l] tl fd by (cases rest) (simp_all only: list.case option.map)
  qed
  have run: "sl_insert l (Some (Entry e)) k m = (case rest of
       [] \<Rightarrow> map_option (\<lambda>(_, m). (True, m)) (sl_appendForce l (Some (Entry e)) k ?m2)
     | y # _ \<Rightarrow> map_option (Pair True) (insertBefore l (Entry y) (Entry e) ?m2))"
    using it by (simp add: sl_insert_def m1 split: list.splits)
  show ?thesis
  proof (cases rest)
    case Nil
    then have le: "\<forall>x \<in> set xs. ?P x" by (simp add: rest_def dropWhile_eq_Nil_conv)
    let ?last = "if xs = [] then 0 else sort_val m (last xs)"
    have "xs \<noteq> [] \<Longrightarrow> last xs \<noteq> e" using fresh [OF l] tl last_in_set [of xs] by metis
    then have last: "getLastValue l ?m2 = Some ?last"
      using getFirst_chains(2) [OF c2 l] tl by auto
    have v': "(if k < ?last then ?last else k) = v" using le v last_in_set [of xs] by (cases "xs = []") (auto simp: not_less dest!: bspec [where x = "last xs"])
    have r2: "represents ?m2 L (taken e cs)"
      using c2 s same by (simp add: represents_def cong: map_cong)
    have le': "(if taken e cs l = [] then 0 else sort_val ?m2 (last (taken e cs l))) \<le> v"
      using v' fresh [OF l] tl by (auto split: if_splits)
    have "ch_currentList ?m2 (Entry e) = None" using m1(4) by simp
    note app = append_represents [OF r2 l this le']
    obtain m' where m': "sl_append l (Some (Entry e)) v ?m2 = Some (True, m')" "represents m' L ((taken e cs)(l := xs @ [e]))"
      "ch_sortField m' = (ch_sortField m)(Entry e := v)" using app tl by auto
    have "sl_appendForce l (Some (Entry e)) k ?m2 = Some (True, m')"
      unfolding sl_appendForce_def last using v' m'(1) by simp
    moreover have "ins_after (sort_val m) e k xs = xs @ [e]"
      unfolding ins_after_def rest_def [symmetric] Nil using le by simp
    ultimately show ?thesis using run m' Nil by simp
  next
    case (Cons y ys)
    then have "xs \<noteq> []" by (auto simp: rest_def)
    then have vk: "v = k" using v by simp
    have split: "taken e cs l = takeWhile ?P xs @ y # ys" using tl Cons takeWhile_dropWhile_id [of ?P xs] by (simp add: rest_def)
    obtain m' where m': "insertBefore l (Entry y) (Entry e) ?m2 = Some m'"
      "chains m' L ((taken e cs)(l := ins_after (sort_val m) e k xs))" "ch_sortField m' = (ch_sortField m)(Entry e := k)"
      using insertBefore_chains [OF c l m1(4) split, of ?m2 k] Cons by (auto simp: m1(3) ins_after_def rest_def [symmetric])
    have "sorted (map (sort_val m') (((taken e cs)(l := ins_after (sort_val m) e k xs)) j))" if "j \<in> L" for j
    proof (cases "j = l")
      case True
      have eq: "map (sort_val m') xs = map (sort_val m) xs" using same [OF l, of k] by (simp only: m'(3) tl)
      have "sorted (map (sort_val m') xs)" using s [OF l] unfolding eq tl .
      moreover have "\<forall>x \<in> set xs. sort_val m' x = sort_val m x" using eq by simp
      ultimately show ?thesis using True sorted_ins_after [of "sort_val m'" xs e k "sort_val m"] by (simp add: m'(3))
    next
      case False
      then show ?thesis using s [OF that] same [OF that, of k] by (simp only: m'(3) fun_upd_apply if_False)
    qed
    then show ?thesis using run Cons m' vk by (simp add: represents_def)
  qed
qed


lemma remove_represents:
  assumes "represents m L cs" "l \<in> L"
  shows "\<exists>m'. sl_remove l (Some (Entry e)) m = Some (e \<in> set (cs l), m') \<and> represents m' L (cs(l := remove1 e (cs l))) \<and>
    ch_sortField m' = ch_sortField m"
proof (cases "e \<in> set (cs l)")
  case True
  then show ?thesis
    using remove_chains [of m L cs l e] assms unfolding represents_def by (fastforce simp: sorted_taken)
next
  case False
  then have "ch_currentList m (Entry e) \<noteq> Some l" using assms chains_entry [of m L cs e l] by (auto simp: represents_def)
  then show ?thesis using assms False by (simp add: sl_remove_def remove1_idem)
qed

lemma first_represents:
  assumes "represents m L cs" "l \<in> L"
  shows "\<exists>m'. getAndRemoveTheFirst l m = Some (case cs l of [] \<Rightarrow> None | x # _ \<Rightarrow> Some (Entry x), m') \<and>
    represents m' L (cs(l := tl (cs l))) \<and> ch_sortField m' = ch_sortField m"
proof -
  have f: "getFirst l m = (case cs l of [] \<Rightarrow> None | x # xs \<Rightarrow> Some (Entry x))"
    using assms by (auto simp: represents_def intro: getFirst_chains)
  show ?thesis
  proof (cases "cs l")
    case Nil
    then have "cs(l := tl (cs l)) = cs" by auto
    with Nil f assms show ?thesis by (simp add: getAndRemoveTheFirst_def sl_remove_def)
  next
    case (Cons x xs)
    then show ?thesis using f remove_represents [OF assms, of x] by (auto simp: getAndRemoveTheFirst_def)
  qed
qed

text \<open>The constructor makes an empty list.\<close>

lemma new_represents:
  assumes "represents m L cs" "l \<notin> L" "\<And>e. ch_currentList m (Entry e) \<noteq> Some l"
  shows "represents (SortedList_new l m) (insert l L) (cs(l := []))"
proof -
  have c: "chains m L cs" using assms(1) by (simp add: represents_def)
  have "chained (SortedList_new l m) (Head k) (map Entry (cs k)) (Head k)" if "k \<in> L" for k
    using chainsD(1) [OF c that] assms(2) that
    by (subst chained_frame [where m = m]) (auto simp: SortedList_new_def SortedChainable_init_def Let_def)
  moreover have "chained (SortedList_new l m) (Head l) [] (Head l)" by (simp add: SortedList_new_def Let_def)
  moreover have "ch_numberOfElements (SortedList_new l m) k = (if k = l then 0 else ch_numberOfElements m k)"
    "ch_sortField (SortedList_new l m) (Head k) = (if k = l then 0 else ch_sortField m (Head k))"
    "ch_currentList (SortedList_new l m) (Head k) = None" "ch_currentList (SortedList_new l m) (Entry e) = ch_currentList m (Entry e)"
    for k e using c by (simp_all add: SortedList_new_def SortedChainable_init_def Let_def chains_def)
  moreover have "i32 0 = 0" by (simp add: i32_def)
  ultimately have "chains (SortedList_new l m) (insert l L) (cs(l := []))"
    using assms(2,3) c unfolding chains_def by auto
  then show ?thesis
    using assms(1,2) by (auto simp: represents_def SortedList_new_def SortedChainable_init_def Let_def)
qed

lemma static_represents: "represents static_mem {} cs"
  by (simp add: represents_def chains_def static_mem_def)

section \<open>Queues ordered by a value\<close>

text \<open>The contract of a sorted list toward its clients, and what it gives them: entries come out ordered by their
  values, entries of equal value in the order they came in.\<close>

fun insert_all :: "('e \<Rightarrow> int \<Rightarrow> 's \<Rightarrow> 's option) \<Rightarrow> ('e \<Rightarrow> int) \<Rightarrow> 'e list \<Rightarrow> 's \<Rightarrow> 's option" where
  "insert_all ins key [] s = Some s"
| "insert_all ins key (e # es) s = Option.bind (ins e (key e) s) (insert_all ins key es)"

fun take_firsts :: "('s \<Rightarrow> ('e option \<times> 's) option) \<Rightarrow> nat \<Rightarrow> 's \<Rightarrow> ('e option list \<times> 's) option" where
  "take_firsts pop 0 s = Some ([], s)"
| "take_firsts pop (Suc n) s = do { (e, s) \<leftarrow> pop s; (es, s) \<leftarrow> take_firsts pop n s; Some (e # es, s) }"

lemma ins_after_sort_key:
  "ins_after key e (key e) (sort_key key es) = sort_key key (es @ [e])"
proof (rule properties_for_sort_key [symmetric])
  let ?P = "\<lambda>x. key x \<le> key e" and ?xs = "sort_key key es"
  have d: "x \<in> set (dropWhile ?P ?xs) \<Longrightarrow> key e < key x" for x
  proof -
    assume x: "x \<in> set (dropWhile ?P ?xs)"
    then obtain y ys where ys: "dropWhile ?P ?xs = y # ys" by (metis list.set_cases)
    have "sorted (map key (takeWhile ?P ?xs @ dropWhile ?P ?xs))" by simp
    then have "sorted (map key (y # ys))" unfolding map_append sorted_append ys by blast
    moreover have "\<not> ?P y" using hd_dropWhile [of ?P ?xs] ys by simp
    ultimately show "key e < key x" using x ys by (fastforce simp: not_le)
  qed
  have "mset (takeWhile ?P ?xs) + mset (dropWhile ?P ?xs) = mset ?xs" by (metis mset_append takeWhile_dropWhile_id)
  then show "mset (ins_after key e (key e) ?xs) = mset (es @ [e])" by (simp add: ins_after_def)
  show "sorted (map key (ins_after key e (key e) ?xs))" by (rule sorted_ins_after) auto
  fix k assume "k \<in> set (ins_after key e (key e) ?xs)"
  have none: "key k = key e \<Longrightarrow> filter (\<lambda>x. key k = key x) (dropWhile ?P ?xs) = []"
    by (auto simp: filter_empty_conv dest!: d)
  have "filter (\<lambda>x. key k = key x) (takeWhile ?P ?xs) @ filter (\<lambda>x. key k = key x) (dropWhile ?P ?xs) =
      filter (\<lambda>x. key k = key x) ?xs" by (metis filter_append takeWhile_dropWhile_id)
  also have "\<dots> = filter (\<lambda>x. key k = key x) es"
    using sort_key_stable [of key "key k" es] by (simp add: eq_commute [of "key k"])
  finally show "filter (\<lambda>x. key k = key x) (ins_after key e (key e) ?xs) = filter (\<lambda>x. key k = key x) (es @ [e])"
    using none by (auto simp: ins_after_def)
qed

locale sorted_queue =
  fixes rel :: "'s \<Rightarrow> 'e list \<Rightarrow> bool"
    and val_of :: "'s \<Rightarrow> 'e \<Rightarrow> int"
    and ins :: "'e \<Rightarrow> int \<Rightarrow> 's \<Rightarrow> 's option"
    and pop :: "'s \<Rightarrow> ('e option \<times> 's) option"
    and fresh :: "'s \<Rightarrow> 'e \<Rightarrow> bool"
  assumes ins_law: "rel s xs \<Longrightarrow> fresh s e \<Longrightarrow> 0 \<le> k \<Longrightarrow>
      \<exists>s'. ins e k s = Some s' \<and> rel s' (ins_after (val_of s) e k xs) \<and> val_of s' = (val_of s)(e := k) \<and>
        (\<forall>x. x \<noteq> e \<longrightarrow> fresh s x \<longrightarrow> fresh s' x)"
    and pop_law: "rel s xs \<Longrightarrow> \<exists>s'. pop s = Some (case xs of [] \<Rightarrow> None | x # _ \<Rightarrow> Some x, s') \<and> rel s' (tl xs)"
begin

lemma insert_all_sorts:
  assumes "rel s (sort_key key ds)" "\<forall>x \<in> set ds. val_of s x = key x" "distinct (ds @ es)"
    "\<forall>e \<in> set es. fresh s e \<and> 0 \<le> key e"
  shows "\<exists>s'. insert_all ins key es s = Some s' \<and> rel s' (sort_key key (ds @ es))"
  using assms
proof (induction es arbitrary: s ds)
  case (Cons e es)
  let ?xs = "sort_key key ds"
  have same: "\<And>x. x \<in> set ?xs \<Longrightarrow> val_of s x = key x" using Cons.prems(2) by simp
  have ia: "ins_after (val_of s) e (key e) ?xs = sort_key key (ds @ [e])"
    unfolding ins_after_sort_key [symmetric] ins_after_def
    using takeWhile_cong [OF refl, of ?xs "\<lambda>x. val_of s x \<le> key e" "\<lambda>x. key x \<le> key e"]
      dropWhile_cong [OF refl, of ?xs "\<lambda>x. val_of s x \<le> key e" "\<lambda>x. key x \<le> key e"] same by simp
  have "fresh s e" "0 \<le> key e" using Cons.prems(4) by auto
  from ins_law [OF Cons.prems(1) this] obtain s' where s': "ins e (key e) s = Some s'" "rel s' (sort_key key (ds @ [e]))"
    "val_of s' = (val_of s)(e := key e)" "\<forall>x. x \<noteq> e \<longrightarrow> fresh s x \<longrightarrow> fresh s' x" unfolding ia by blast
  have "\<exists>t. insert_all ins key es s' = Some t \<and> rel t (sort_key key ((ds @ [e]) @ es))"
    by (rule Cons.IH [OF s'(2)]) (use Cons.prems s' in auto)
  then show ?case using s'(1) by simp
qed simp

lemma take_firsts_all: "rel s xs \<Longrightarrow> \<exists>s'. take_firsts pop (length xs) s = Some (map Some xs, s') \<and> rel s' []"
proof (induction xs arbitrary: s)
  case (Cons x xs)
  then show ?case using pop_law [OF Cons.prems] by fastforce
qed simp

lemma comes_out_sorted:
  assumes "rel s []" "distinct es" "\<forall>e \<in> set es. fresh s e \<and> 0 \<le> key e"
  shows "\<exists>s' s''. insert_all ins key es s = Some s' \<and>
    take_firsts pop (length es) s' = Some (map Some (sort_key key es), s'') \<and> rel s'' []"
proof -
  obtain s' where s': "insert_all ins key es s = Some s'" "rel s' (sort_key key es)"
    using insert_all_sorts [of s key "[]" es] assms by auto
  then show ?thesis using take_firsts_all [OF s'(2)] by auto
qed

end


text \<open>One list of a memory as such a queue.\<close>

fun entry_id :: "node \<Rightarrow> nat" where
  "entry_id (Entry e) = e"
| "entry_id (Head l) = l"

definition list_holds :: "nat \<Rightarrow> chain_mem \<Rightarrow> nat list \<Rightarrow> bool" where
  "list_holds l m xs \<longleftrightarrow> (\<exists>L cs. represents m L cs \<and> l \<in> L \<and> cs l = xs)"

definition list_ins :: "nat \<Rightarrow> nat \<Rightarrow> int \<Rightarrow> chain_mem \<Rightarrow> chain_mem option" where
  "list_ins l e k m = map_option snd (sl_insert l (Some (Entry e)) k m)"

definition list_pop :: "nat \<Rightarrow> chain_mem \<Rightarrow> (nat option \<times> chain_mem) option" where
  "list_pop l m = map_option (\<lambda>(n, m). (map_option entry_id n, m)) (getAndRemoveTheFirst l m)"

definition free_entry :: "chain_mem \<Rightarrow> nat \<Rightarrow> bool" where
  "free_entry m e \<longleftrightarrow> ch_currentList m (Entry e) = None"

lemma set_ins_after: "set (ins_after key e k xs) = insert e (set xs)"
proof -
  have "set (takeWhile P xs) \<union> set (dropWhile P xs) = set xs" for P by (metis set_append takeWhile_dropWhile_id)
  then show ?thesis by (simp add: ins_after_def)
qed

lemma list_ins_law:
  assumes "list_holds l m xs" "free_entry m e" "0 \<le> k"
  shows "\<exists>m'. list_ins l e k m = Some m' \<and> list_holds l m' (ins_after (sort_val m) e k xs) \<and>
    sort_val m' = (sort_val m)(e := k) \<and> (\<forall>x. x \<noteq> e \<longrightarrow> free_entry m x \<longrightarrow> free_entry m' x)"
proof -
  obtain L cs where r: "represents m L cs" and l: "l \<in> L" and xs: "cs l = xs"
    using assms(1) unfolding list_holds_def by blast
  have c: "chains m L cs" using r by (simp add: represents_def)
  have fresh: "j \<in> L \<Longrightarrow> free_entry m x \<Longrightarrow> x \<notin> set (cs j)" for j x
    using chains_entry [OF c, of x j] by (auto simp: free_entry_def)
  have same: "j \<in> L \<Longrightarrow> taken e cs j = cs j" for j using fresh [OF _ assms(2)] by (simp add: taken_def remove1_idem)
  have rem: "xs = remove1 e (cs l)" using same [OF l] xs by (simp add: taken_def)
  have "k = (if xs = [] then max 0 k else k)" using assms(3) by simp
  note ins = insert_represents [OF r l rem this]
  obtain m' where m': "sl_insert l (Some (Entry e)) k m = Some (True, m')"
    "represents m' L ((taken e cs)(l := ins_after (sort_val m) e k xs))" "ch_sortField m' = (ch_sortField m)(Entry e := k)"
    using ins by blast
  have c': "chains m' L ((taken e cs)(l := ins_after (sort_val m) e k xs))" using m'(2) by (simp add: represents_def)
  have "free_entry m' x" if "x \<noteq> e" "free_entry m x" for x
  proof (rule ccontr)
    assume "\<not> free_entry m' x"
    then obtain j where "j \<in> L" "x \<in> set (((taken e cs)(l := ins_after (sort_val m) e k xs)) j)"
      using chains_entry [OF c', of x] by (auto simp: free_entry_def)
    then show False using that fresh [OF \<open>j \<in> L\<close> that(2)] same [OF \<open>j \<in> L\<close>] xs by (auto simp: set_ins_after split: if_splits)
  qed
  moreover have "list_holds l m' (ins_after (sort_val m) e k xs)" using m'(2) l by (force simp: list_holds_def)
  moreover have "sort_val m' = (sort_val m)(e := k)" by (auto simp: m'(3))
  ultimately show ?thesis using m'(1) by (simp add: list_ins_def)
qed

lemma list_pop_law:
  assumes "list_holds l m xs"
  shows "\<exists>m'. list_pop l m = Some (case xs of [] \<Rightarrow> None | x # _ \<Rightarrow> Some x, m') \<and> list_holds l m' (tl xs)"
proof -
  obtain L cs where r: "represents m L cs" and l: "l \<in> L" and xs: "cs l = xs"
    using assms(1) unfolding list_holds_def by blast
  obtain m' where m': "getAndRemoveTheFirst l m = Some (case cs l of [] \<Rightarrow> None | x # _ \<Rightarrow> Some (Entry x), m')"
    "represents m' L (cs(l := tl (cs l)))" using first_represents [OF r l] by blast
  have "list_holds l m' (tl xs)" using m'(2) l xs by (force simp: list_holds_def)
  then show ?thesis using m'(1) xs by (auto simp: list_pop_def split: list.splits)
qed

interpretation sl: sorted_queue "list_holds l" sort_val "list_ins l" "list_pop l" free_entry for l
  by unfold_locales (use list_ins_law list_pop_law in blast)+

section \<open>Properties\<close>

text \<open>
  C24. The linked lists implement sorted lists, for any number of lists that share their entries: \<open>insert\<close> puts
  an entry behind all entries with a value that is not greater and takes it out of the list it was in,
  \<open>remove\<close> and \<open>getAndRemoveTheFirst\<close> take one entry out and tell whether there was one, \<open>find\<close> returns the
  first entry with the value. All links stay consistent and all loops end. (The value of an entry that
  goes into an empty list is raised to zero.)
\<close>

theorem sorted_list_refines:
  assumes "represents m L cs" "l \<in> L"
  shows "(\<exists>m'. sl_insert l (Some (Entry e)) k m = Some (True, m') \<and>
        represents m' L ((taken e cs)(l := ins_after (sort_val m) e k (remove1 e (cs l)))) \<and>
        ch_sortField m' = (ch_sortField m)(Entry e := if remove1 e (cs l) = [] then max 0 k else k)) \<and>
    (\<exists>m'. sl_remove l (Some (Entry e)) m = Some (e \<in> set (cs l), m') \<and> represents m' L (cs(l := remove1 e (cs l)))) \<and>
    (\<exists>m'. getAndRemoveTheFirst l m = Some (case cs l of [] \<Rightarrow> None | x # _ \<Rightarrow> Some (Entry x), m') \<and>
        represents m' L (cs(l := tl (cs l)))) \<and>
    sl_find l k m = Some (map_option Entry (List.find (\<lambda>x. sort_val m x = k) (cs l)))"
proof -
  have c: "chains m L cs" using assms(1) by (simp add: represents_def)
  have "sl_find l k m = Some (map_option Entry (List.find (\<lambda>x. sort_val m x = k) (cs l)))"
    unfolding sl_find_def getFirst_chains(3) [OF c assms(2)] by (simp add: eq_commute)
  then show ?thesis
    using insert_represents [OF assms refl refl, of e k] remove_represents [OF assms, of e] first_represents [OF assms] by blast
qed

lemma two_lists: "represents (SortedList_new 1 (SortedList_new 0 static_mem)) {1, 0} (\<lambda>_. [])"
proof -
  have "represents (SortedList_new 0 static_mem) {0} ((\<lambda>_. [])(0 := []))"
    by (rule new_represents [OF static_represents]) (auto simp: static_mem_def)
  from new_represents [OF this, of 1] show ?thesis
    by (auto simp: static_mem_def SortedList_new_def SortedChainable_init_def Let_def fun_upd_idem)
qed

theorem sorted_list_refines_witness:
  "\<exists>m'. sl_insert 0 (Some (Entry 7)) 5 (SortedList_new 1 (SortedList_new 0 static_mem)) = Some (True, m') \<and>
     represents m' {1, 0} ((\<lambda>_. [])(0 := [7]))"
  using sorted_list_refines [OF two_lists, of 0 7 5] by (auto simp: taken_def ins_after_def)

text \<open>
  First come first served: entries inserted into an empty list in any order come out of it ordered by their
  values, those of equal value in the order of their insertion, exactly as a stable sort orders them.
\<close>

lemma sorted_list_first_come:
  assumes "represents m L cs" "l \<in> L" "cs l = []" "distinct es"
    and "\<forall>e \<in> set es. ch_currentList m (Entry e) = None \<and> 0 \<le> key e"
  shows "\<exists>m' m''. insert_all (list_ins l) key es m = Some m' \<and>
    take_firsts (list_pop l) (length es) m' = Some (map Some (sort_key key es), m'') \<and> list_holds l m'' []"
  by (rule sl.comes_out_sorted) (use assms in \<open>auto simp: list_holds_def free_entry_def\<close>)

lemma sorted_list_first_come_witness:
  "\<exists>m' m''. insert_all (list_ins 0) (\<lambda>e. if e = 2 then 3 else 8) [4, 2, 9] (SortedList_new 1 (SortedList_new 0 static_mem)) = Some m' \<and>
     take_firsts (list_pop 0) 3 m' = Some ([Some 2, Some 4, Some 9], m'')"
  using sorted_list_first_come [OF two_lists, of 0 "[4, 2, 9]" "\<lambda>e. if e = 2 then 3 else 8"]
  by (auto simp: static_mem_def SortedList_new_def SortedChainable_init_def Let_def numeral_3_eq_3)

end
