(* ===== verification/Allocable_Objects.thy ===== *)
theory Allocable_Objects
  imports Rodos_Prelude
begin

text \<open>
  The reference counting pools of \<open>support-libs/allocableobjects.h\<close>: objects with a counter each, allocated
  from pools of fixed length and referred to by \<open>SharedPtr\<close> variables whose constructors, assignments and
  destructors count. The memory holds the pools and the pointer variables that are alive. \<open>None\<close> is an
  access outside of the counters or the use of a variable that does not exist. It is shown that every
  counter is the number of pointers to its object, whatever a program does with its pointers.
\<close>

section \<open>The code\<close>

record pool =
  referenceCnt :: "u32 list"
  freeCnt :: u32

record shared_ptr =
  objectsPool :: "nat option"
  objectPointer :: "nat option"

record ptr_mem =
  pools :: "nat \<Rightarrow> pool"
  vars :: "nat \<Rightarrow> shared_ptr option"

datatype ErrorCode = MEMORY | BAD_POINTER

definition pool_init :: "nat \<Rightarrow> pool" where
  "pool_init n = \<lparr>referenceCnt = replicate n 0, freeCnt = of_nat n\<rparr>"

text \<open>An object is given by its index in the buffer.\<close>

definition indexOf :: "nat \<Rightarrow> pool \<Rightarrow> ErrorCode + nat" where
  "indexOf item p = (if item > length (referenceCnt p) then Inl BAD_POINTER else Inr item)"

definition pool_free :: "nat \<Rightarrow> pool \<Rightarrow> (bool \<times> pool) option" where
  "pool_free item p =
     (case indexOf item p of Inl _ \<Rightarrow> Some (False, p)
      | Inr i \<Rightarrow>
          if i \<ge> length (referenceCnt p) then None
          else if referenceCnt p ! i < 1 then Some (False, p)
          else let p = p\<lparr>referenceCnt := (referenceCnt p)[i := referenceCnt p ! i - 1]\<rparr>
          in Some (True, if referenceCnt p ! i = 0 then p\<lparr>freeCnt := freeCnt p + 1\<rparr> else p))"

definition copyReference :: "nat \<Rightarrow> pool \<Rightarrow> (nat option \<times> pool) option" where
  "copyReference item p =
     (case indexOf item p of Inl _ \<Rightarrow> Some (None, p)
      | Inr i \<Rightarrow>
          if i \<ge> length (referenceCnt p) then None
          else if referenceCnt p ! i = 0 then Some (None, p)
          else Some (Some item, p\<lparr>referenceCnt := (referenceCnt p)[i := referenceCnt p ! i + 1]\<rparr>))"

text \<open>The loop of \<open>alloc\<close>: the first counter that is zero.\<close>

fun alloc_loop :: "nat \<Rightarrow> u32 list \<Rightarrow> nat option" where
  "alloc_loop i [] = None"
| "alloc_loop i (c # cs) = (if c = 0 then Some i else alloc_loop (i + 1) cs)"

definition default_ptr :: shared_ptr where
  "default_ptr = \<lparr>objectsPool = None, objectPointer = None\<rparr>"

definition upd_pool :: "nat \<Rightarrow> pool \<Rightarrow> ptr_mem \<Rightarrow> ptr_mem" where
  "upd_pool k p h = h\<lparr>pools := (pools h)(k := p)\<rparr>"

definition set_var :: "nat \<Rightarrow> shared_ptr option \<Rightarrow> ptr_mem \<Rightarrow> ptr_mem" where
  "set_var v s h = h\<lparr>vars := (vars h)(v := s)\<rparr>"

text \<open>Counting up and down of the pool a pointer belongs to.\<close>

definition ptr_copy :: "shared_ptr \<Rightarrow> ptr_mem \<Rightarrow> ptr_mem option" where
  "ptr_copy s h =
     (case objectsPool s of None \<Rightarrow> Some h
      | Some k \<Rightarrow> do {
          i \<leftarrow> objectPointer s;
          (_, p) \<leftarrow> copyReference i (pools h k);
          Some (upd_pool k p h)
        })"

definition ptr_free :: "shared_ptr \<Rightarrow> ptr_mem \<Rightarrow> ptr_mem option" where
  "ptr_free s h =
     (case objectsPool s of None \<Rightarrow> Some h
      | Some k \<Rightarrow> do {
          i \<leftarrow> objectPointer s;
          (_, p) \<leftarrow> pool_free i (pools h k);
          Some (upd_pool k p h)
        })"

definition SharedPtr_default :: "nat \<Rightarrow> ptr_mem \<Rightarrow> ptr_mem option" where
  "SharedPtr_default v h = Some (set_var v (Some default_ptr) h)"

definition SharedPtr_copy :: "nat \<Rightarrow> nat \<Rightarrow> ptr_mem \<Rightarrow> ptr_mem option" where
  "SharedPtr_copy v other h = do {
     s \<leftarrow> vars h other;
     ptr_copy s (set_var v (Some s) h)
   }"

definition SharedPtr_destroy :: "nat \<Rightarrow> ptr_mem \<Rightarrow> ptr_mem option" where
  "SharedPtr_destroy v h = do {
     s \<leftarrow> vars h v;
     h \<leftarrow> ptr_free s h;
     Some (set_var v None h)
   }"

definition SharedPtr_assign :: "nat \<Rightarrow> nat \<Rightarrow> ptr_mem \<Rightarrow> ptr_mem option" where
  "SharedPtr_assign v other h = do {
     this \<leftarrow> vars h v;
     s \<leftarrow> vars h other;
     if v \<noteq> other then do {
       h \<leftarrow> ptr_free this h;
       ptr_copy s (set_var v (Some s) h)
     } else Some h
   }"

definition SharedPtr_clear :: "nat \<Rightarrow> ptr_mem \<Rightarrow> ptr_mem option" where
  "SharedPtr_clear v h = do {
     s \<leftarrow> vars h v;
     h \<leftarrow> ptr_free s h;
     Some (set_var v (Some default_ptr) h)
   }"

definition isValid :: "shared_ptr \<Rightarrow> bool" where
  "isValid s \<longleftrightarrow> objectsPool s \<noteq> None \<and> objectPointer s \<noteq> None"

text \<open>\<open>alloc\<close> makes a temporary pointer, the result \<open>v\<close> is a copy of it, and the temporary is destroyed. Without a
  free object the result holds the error and a default pointer.\<close>

definition alloc :: "nat \<Rightarrow> nat \<Rightarrow> ptr_mem \<Rightarrow> ((ErrorCode + nat) \<times> ptr_mem) option" where
  "alloc v k h =
     (let p = pools h k
      in case alloc_loop 0 (referenceCnt p) of
           None \<Rightarrow> Some (Inl MEMORY, set_var v (Some default_ptr) h)
         | Some i \<Rightarrow>
             let h = upd_pool k (p\<lparr>freeCnt := freeCnt p - 1, referenceCnt := (referenceCnt p)[i := 1]\<rparr>) h;
                 temporary = \<lparr>objectsPool = Some k, objectPointer = Some i\<rparr>
             in do {
               h \<leftarrow> ptr_copy temporary (set_var v (Some temporary) h);
               h \<leftarrow> ptr_free temporary h;
               Some (Inr i, h)
             })"

text \<open>What a program does with its pointers.\<close>

datatype ptr_op = Default nat | Copy nat nat | Destroy nat | Assign nat nat | Clear nat | Alloc nat nat

fun ptr_exec :: "ptr_op \<Rightarrow> ptr_mem \<Rightarrow> ptr_mem option" where
  "ptr_exec (Default v) h = SharedPtr_default v h"
| "ptr_exec (Copy v w) h = SharedPtr_copy v w h"
| "ptr_exec (Destroy v) h = SharedPtr_destroy v h"
| "ptr_exec (Assign v w) h = SharedPtr_assign v w h"
| "ptr_exec (Clear v) h = SharedPtr_clear v h"
| "ptr_exec (Alloc v k) h = map_option snd (alloc v k h)"

text \<open>The scoping of the language: a variable is constructed once, and used only while it is alive.\<close>

fun scoped :: "ptr_op \<Rightarrow> nat set \<Rightarrow> bool" where
  "scoped (Default v) A \<longleftrightarrow> v \<notin> A"
| "scoped (Copy v w) A \<longleftrightarrow> v \<notin> A \<and> w \<in> A"
| "scoped (Destroy v) A \<longleftrightarrow> v \<in> A"
| "scoped (Assign v w) A \<longleftrightarrow> v \<in> A \<and> w \<in> A"
| "scoped (Clear v) A \<longleftrightarrow> v \<in> A"
| "scoped (Alloc v k) A \<longleftrightarrow> v \<notin> A"

fun alive :: "ptr_op \<Rightarrow> nat set \<Rightarrow> nat set" where
  "alive (Default v) A = insert v A"
| "alive (Copy v w) A = insert v A"
| "alive (Destroy v) A = A - {v}"
| "alive (Assign v w) A = A"
| "alive (Clear v) A = A"
| "alive (Alloc v k) A = insert v A"

fun ptr_run :: "ptr_op list \<Rightarrow> ptr_mem \<Rightarrow> ptr_mem option" where
  "ptr_run [] h = Some h"
| "ptr_run (x # xs) h = Option.bind (ptr_exec x h) (ptr_run xs)"

fun scoped_run :: "ptr_op list \<Rightarrow> nat set \<Rightarrow> bool" where
  "scoped_run [] A \<longleftrightarrow> True"
| "scoped_run (x # xs) A \<longleftrightarrow> scoped x A \<and> card (alive x A) < 2 ^ 32 - 1 \<and> scoped_run xs (alive x A)"

section \<open>Counters and pointers\<close>

definition object_ptr :: "nat \<Rightarrow> nat \<Rightarrow> shared_ptr" where
  "object_ptr k i = \<lparr>objectsPool = Some k, objectPointer = Some i\<rparr>"

text \<open>\<open>counts h vs\<close>: the counters of the pools are the numbers of the references in \<open>vs\<close>.\<close>

definition counts :: "ptr_mem \<Rightarrow> (nat \<Rightarrow> shared_ptr option) \<Rightarrow> bool" where
  "counts h vs \<longleftrightarrow> finite (dom vs) \<and>
     (\<forall>s \<in> ran vs. s = default_ptr \<or> (\<exists>k i. s = object_ptr k i \<and> i < length (referenceCnt (pools h k)))) \<and>
     (\<forall>k i. i < length (referenceCnt (pools h k)) \<longrightarrow>
        unat (referenceCnt (pools h k) ! i) = card {v. vs v = Some (object_ptr k i)}) \<and>
     (\<forall>k. length (referenceCnt (pools h k)) < 2 ^ 32 \<and>
        unat (freeCnt (pools h k)) = length (filter (\<lambda>c. c = 0) (referenceCnt (pools h k))))"


lemma filter_update:
  "i < length xs \<Longrightarrow>
   length (filter P (xs[i := y])) + (if P (xs ! i) then 1 else 0) = length (filter P xs) + (if P y then 1 else 0)"
proof -
  assume i: "i < length xs"
  have "filter P (take i xs @ xs ! i # drop (Suc i) xs) = filter P (take i xs) @ (if P (xs ! i) then [xs ! i] else []) @ filter P (drop (Suc i) xs)"
    by simp
  then show ?thesis unfolding id_take_nth_drop [OF i, symmetric] using i by (simp add: upd_conv_take_nth_drop)
qed

lemma countsD:
  assumes "counts h vs"
  shows "finite (dom vs)"
    "vs v = Some s \<Longrightarrow> s = default_ptr \<or> (\<exists>k i. s = object_ptr k i \<and> i < length (referenceCnt (pools h k)))"
    "i < length (referenceCnt (pools h k)) \<Longrightarrow> unat (referenceCnt (pools h k) ! i) = card {v. vs v = Some (object_ptr k i)}"
    "length (referenceCnt (pools h k)) < 2 ^ 32"
    "unat (freeCnt (pools h k)) = length (filter (\<lambda>c. c = 0) (referenceCnt (pools h k)))"
proof -
  show "vs v = Some s \<Longrightarrow> s = default_ptr \<or> (\<exists>k i. s = object_ptr k i \<and> i < length (referenceCnt (pools h k)))"
    using assms ranI [of vs v s] unfolding counts_def by blast
qed (use assms in \<open>simp_all add: counts_def\<close>)

lemma finite_refs: "finite (dom vs) \<Longrightarrow> finite {v. vs v = Some x}"
  by (rule finite_subset [of _ "dom vs"]) auto

lemma card_refs_new:
  "finite (dom vs) \<Longrightarrow> v \<notin> dom vs \<Longrightarrow>
   card {x. (vs(v \<mapsto> s)) x = Some y} = card {x. vs x = Some y} + (if s = y then 1 else 0)"
proof -
  assume "finite (dom vs)" "v \<notin> dom vs"
  moreover have "{x. (vs(v \<mapsto> s)) x = Some y} = (if s = y then insert v {x. vs x = Some y} else {x. vs x = Some y})"
    using \<open>v \<notin> dom vs\<close> by (auto split: if_splits)
  ultimately show ?thesis using finite_refs [of vs y] by auto
qed

lemma card_refs_gone:
  assumes "finite (dom vs)" "vs v = Some s"
  shows "card {x. (vs(v := None)) x = Some y} + (if s = y then 1 else 0) = card {x. vs x = Some y}"
proof -
  have "(vs(v := None))(v \<mapsto> s) = vs" using assms(2) by (auto simp: fun_eq_iff)
  then show ?thesis using card_refs_new [of "vs(v := None)" v s y] assms(1) by (simp only: dom_fun_upd) simp
qed

text \<open>A pointer to an object is added or removed, with its counter.\<close>

definition with_count :: "nat \<Rightarrow> nat \<Rightarrow> u32 \<Rightarrow> u32 \<Rightarrow> ptr_mem \<Rightarrow> ptr_mem" where
  "with_count k i c f h = upd_pool k \<lparr>referenceCnt = (referenceCnt (pools h k))[i := c], freeCnt = f\<rparr> h"

lemma with_count_length [simp]: "length (referenceCnt (pools (with_count k i c f h) j)) = length (referenceCnt (pools h j))"
  by (simp add: with_count_def upd_pool_def)

lemma counts_change:
  assumes "counts h vs" "finite (dom vs')" "i < length (referenceCnt (pools h k))"
    and "\<And>v s. vs' v = Some s \<Longrightarrow> (\<exists>w. vs w = Some s) \<or> s = object_ptr k i \<or> s = default_ptr"
    and "unat c = card {v. vs' v = Some (object_ptr k i)}"
    and "\<And>j l. (j, l) \<noteq> (k, i) \<Longrightarrow> {v. vs' v = Some (object_ptr j l)} = {v. vs v = Some (object_ptr j l)}"
    and "unat f = length (filter (\<lambda>c. c = 0) ((referenceCnt (pools h k))[i := c]))"
  shows "counts (with_count k i c f h) vs'"
proof -
  have ran: "s = default_ptr \<or> (\<exists>k' i'. s = object_ptr k' i' \<and> i' < length (referenceCnt (pools (with_count k i c f h) k')))"
    if "s \<in> ran vs'" for s
    using that assms(3,4) countsD(2) [OF assms(1)] by (force simp: ran_def)
  have cnt: "unat (referenceCnt (pools (with_count k i c f h) j) ! l) = card {v. vs' v = Some (object_ptr j l)}"
    if "l < length (referenceCnt (pools (with_count k i c f h) j))" for j l
    using that assms(3,5,6) countsD(3) [OF assms(1), of l j]
    by (cases "(j, l) = (k, i)") (auto simp: with_count_def upd_pool_def nth_list_update)
  have "unat (freeCnt (pools (with_count k i c f h) j)) = length (filter (\<lambda>c. c = 0) (referenceCnt (pools (with_count k i c f h) j)))" for j
    using assms(7) countsD(5) [OF assms(1), of j] by (simp add: with_count_def upd_pool_def)
  then show ?thesis unfolding counts_def using assms(2) ran cnt countsD(4) [OF assms(1)] by simp
qed

lemma object_ptr_eq [simp]: "object_ptr k i = object_ptr j l \<longleftrightarrow> k = j \<and> i = l" "object_ptr k i \<noteq> default_ptr"
  by (auto simp: object_ptr_def default_ptr_def)

lemma counts_default:
  assumes "counts h vs" "v \<notin> dom vs"
  shows "counts h (vs(v \<mapsto> default_ptr))"
proof -
  have "{x. (vs(v \<mapsto> default_ptr)) x = Some (object_ptr k i)} = {x. vs x = Some (object_ptr k i)}" for k i
    using assms(2) by (auto simp: object_ptr_def default_ptr_def)
  then show ?thesis using assms unfolding counts_def by (auto simp: ran_def split: if_splits)
qed

lemma refs_bound: "finite (dom vs) \<Longrightarrow> card {v. vs v = Some x} \<le> card (dom vs)"
  by (rule card_mono) auto

lemma ptr_copy_counts:
  assumes c: "counts h vs" and w: "vs w = Some s" and v: "v \<notin> dom vs" and small: "card (dom vs) < 2 ^ 32 - 1"
  shows "\<exists>h'. ptr_copy s h = Some h' \<and> counts h' (vs(v \<mapsto> s)) \<and> vars h' = vars h"
proof -
  consider "s = default_ptr" | k i where "s = object_ptr k i" "i < length (referenceCnt (pools h k))"
    using countsD(2) [OF c w] by blast
  then show ?thesis
  proof cases
    case 1
    then show ?thesis using counts_default [OF c v] by (simp add: ptr_copy_def default_ptr_def)
  next
    case (2 k i)
    let ?c = "referenceCnt (pools h k) ! i"
    note fin = countsD(1) [OF c]
    have n: "unat ?c = card {x. vs x = Some s}" using countsD(3) [OF c 2(2)] 2(1) by simp
    have pos: "0 < unat ?c" using w finite_refs [OF fin, of s] unfolding n by (auto simp: card_gt_0_iff)
    have big: "unat ?c < 2 ^ 32 - 1" using refs_bound [OF fin, of s] small n by simp
    then have inc: "unat (?c + 1) = unat ?c + 1" by (simp add: unat_word_ariths)
    then have nz: "?c \<noteq> 0" "?c + 1 \<noteq> 0" using pos by (metis less_irrefl unat_0, metis add_gr_0 less_irrefl unat_0 zero_less_one)
    let ?h = "with_count k i (?c + 1) (freeCnt (pools h k)) h"
    have "counts ?h (vs(v \<mapsto> s))"
    proof (rule counts_change [OF c _ 2(2)])
      show "unat (?c + 1) = card {x. (vs(v \<mapsto> s)) x = Some (object_ptr k i)}"
        using card_refs_new [OF fin v, of s s] inc n by (simp add: 2(1))
      show "{x. (vs(v \<mapsto> s)) x = Some (object_ptr j l)} = {x. vs x = Some (object_ptr j l)}" if "(j, l) \<noteq> (k, i)" for j l
        using that v 2(1) by auto
      show "unat (freeCnt (pools h k)) = length (filter (\<lambda>c. c = 0) ((referenceCnt (pools h k))[i := ?c + 1]))"
        using filter_update [OF 2(2), of "\<lambda>c. c = 0" "?c + 1"] nz countsD(5) [OF c, of k] by simp
    qed (use fin 2 in \<open>auto split: if_splits\<close>)
    moreover have "ptr_copy s h = Some ?h"
      using 2 nz by (cases "pools h k") (simp add: ptr_copy_def object_ptr_def copyReference_def indexOf_def with_count_def)
    ultimately show ?thesis by (auto simp: with_count_def upd_pool_def)
  qed
qed


lemma ptr_free_counts:
  assumes c: "counts h vs" and v: "vs v = Some s"
  shows "\<exists>h'. ptr_free s h = Some h' \<and> counts h' (vs(v := None)) \<and> vars h' = vars h"
proof -
  note fin = countsD(1) [OF c]
  consider "s = default_ptr" | k i where "s = object_ptr k i" "i < length (referenceCnt (pools h k))"
    using countsD(2) [OF c v] by blast
  then show ?thesis
  proof cases
    case 1
    have "{x. (vs(v := None)) x = Some (object_ptr k i)} = {x. vs x = Some (object_ptr k i)}" for k i
      using v 1 by (auto simp: object_ptr_def default_ptr_def)
    then have "counts h (vs(v := None))" using c unfolding counts_def by (auto simp: ran_def split: if_splits)
    with 1 show ?thesis by (simp add: ptr_free_def default_ptr_def)
  next
    case (2 k i)
    let ?c = "referenceCnt (pools h k) ! i" and ?f = "freeCnt (pools h k)"
    have n: "unat ?c = card {x. vs x = Some s}" using countsD(3) [OF c 2(2)] 2(1) by simp
    have pos: "0 < unat ?c" using v finite_refs [OF fin, of s] unfolding n by (auto simp: card_gt_0_iff)
    then have dec: "unat (?c - 1) = unat ?c - 1" by (simp add: unat_minus_one unat_gt_0)
    have nz: "?c \<noteq> 0" using pos by (metis less_irrefl unat_0)
    have upd: "length (filter (\<lambda>c. c = 0) ((referenceCnt (pools h k))[i := ?c - 1])) =
        unat ?f + (if ?c - 1 = 0 then 1 else 0)"
      using filter_update [OF 2(2), of "\<lambda>c. c = 0" "?c - 1"] nz countsD(5) [OF c, of k] by simp
    have "unat ?f + (if ?c - 1 = 0 then 1 else 0) < 2 ^ 32"
      unfolding upd [symmetric] using countsD(4) [OF c, of k]
      by (metis length_filter_le length_list_update le_less_trans)
    then have f: "unat (if ?c - 1 = 0 then ?f + 1 else ?f) = unat ?f + (if ?c - 1 = 0 then 1 else 0)"
      by (simp add: unat_word_ariths split: if_splits)
    let ?h = "with_count k i (?c - 1) (if ?c - 1 = 0 then ?f + 1 else ?f) h"
    have "counts ?h (vs(v := None))"
    proof (rule counts_change [OF c _ 2(2)])
      show "unat (?c - 1) = card {x. (vs(v := None)) x = Some (object_ptr k i)}"
        using card_refs_gone [OF fin v, of s] dec n by (simp add: 2(1))
      show "{x. (vs(v := None)) x = Some (object_ptr j l)} = {x. vs x = Some (object_ptr j l)}" if "(j, l) \<noteq> (k, i)" for j l
        using that v 2(1) by auto
      show "unat (if ?c - 1 = 0 then ?f + 1 else ?f) = length (filter (\<lambda>c. c = 0) ((referenceCnt (pools h k))[i := ?c - 1]))"
        unfolding f upd ..
    qed (use fin 2 in \<open>auto split: if_splits\<close>)
    moreover have "\<not> ?c < 1" using nz by (simp add: word_less_1)
    then have "ptr_free s h = Some ?h"
      using 2 by (cases "pools h k") (simp add: ptr_free_def object_ptr_def pool_free_def indexOf_def with_count_def)
    ultimately show ?thesis by (auto simp: with_count_def upd_pool_def)
  qed
qed

lemma set_var_commute:
  "ptr_copy s (set_var v x h) = map_option (set_var v x) (ptr_copy s h)"
  "ptr_free s (set_var v x h) = map_option (set_var v x) (ptr_free s h)"
  by (auto simp: ptr_copy_def ptr_free_def set_var_def upd_pool_def split: option.splits Option.bind_splits)

lemma counts_set_var [simp]: "counts (set_var v x h) vs \<longleftrightarrow> counts h vs" "vars (set_var v x h) = (vars h)(v := x)"
  by (simp_all add: counts_def set_var_def)

lemma alloc_loop_Some: "alloc_loop j cs = Some i \<Longrightarrow> j \<le> i \<and> i - j < length cs \<and> cs ! (i - j) = 0"
  by (induction j cs rule: alloc_loop.induct) (auto simp: nth_Cons' split: if_splits)

lemma alloc_loop_None: "alloc_loop j cs = None \<longleftrightarrow> 0 \<notin> set cs"
  by (induction j cs rule: alloc_loop.induct) auto


lemma alloc_raw_counts:
  assumes c: "counts h vs" and t: "t \<notin> dom vs" and i: "i < length (referenceCnt (pools h k))" "referenceCnt (pools h k) ! i = 0"
  shows "counts (with_count k i 1 (freeCnt (pools h k) - 1) h) (vs(t \<mapsto> object_ptr k i))"
proof (rule counts_change [OF c _ i(1)])
  note fin = countsD(1) [OF c]
  have "unat (referenceCnt (pools h k) ! i) = card {x. vs x = Some (object_ptr k i)}" by (rule countsD(3) [OF c i(1)])
  then show "unat (1 :: u32) = card {x. (vs(t \<mapsto> object_ptr k i)) x = Some (object_ptr k i)}"
    using card_refs_new [OF fin t, of "object_ptr k i" "object_ptr k i"] i(2) by simp
  have upd: "length (filter (\<lambda>c. c = 0) ((referenceCnt (pools h k))[i := 1])) + 1 = unat (freeCnt (pools h k))"
    using filter_update [OF i(1), of "\<lambda>c. c = 0" 1] i(2) countsD(5) [OF c, of k] by simp
  then have "unat (freeCnt (pools h k) - 1) = unat (freeCnt (pools h k)) - 1"
    by (metis add_gr_0 less_irrefl unat_0 unat_minus_one zero_less_one)
  then show "unat (freeCnt (pools h k) - 1) = length (filter (\<lambda>c. c = 0) ((referenceCnt (pools h k))[i := 1]))"
    using upd by simp
  show "{x. (vs(t \<mapsto> object_ptr k i)) x = Some (object_ptr j l)} = {x. vs x = Some (object_ptr j l)}" if "(j, l) \<noteq> (k, i)" for j l
    using that t by auto
qed (use countsD(1) [OF c] in \<open>auto split: if_splits\<close>)

lemma alloc_counts:
  assumes c: "counts h (vars h)" and v: "v \<notin> dom (vars h)" and small: "Suc (card (dom (vars h))) < 2 ^ 32 - 1"
  shows "case alloc_loop 0 (referenceCnt (pools h k)) of
      None \<Rightarrow> \<exists>h'. alloc v k h = Some (Inl MEMORY, h') \<and> vars h' = (vars h)(v \<mapsto> default_ptr) \<and> counts h' (vars h')
    | Some i \<Rightarrow> \<exists>h'. alloc v k h = Some (Inr i, h') \<and> vars h' = (vars h)(v \<mapsto> object_ptr k i) \<and> counts h' (vars h')"
proof (cases "alloc_loop 0 (referenceCnt (pools h k))")
  case None
  then show ?thesis using counts_default [OF c v] by (simp add: alloc_def)
next
  case (Some i)
  then have i: "i < length (referenceCnt (pools h k))" "referenceCnt (pools h k) ! i = 0"
    using alloc_loop_Some [of 0] by auto
  note fin = countsD(1) [OF c]
  obtain t where t: "t \<notin> insert v (dom (vars h))" using ex_new_if_finite [OF infinite_UNIV_nat, of "insert v (dom (vars h))"] fin by blast
  let ?s = "object_ptr k i" and ?h1 = "with_count k i 1 (freeCnt (pools h k) - 1) h"
  have c1: "counts ?h1 ((vars h)(t \<mapsto> ?s))" using alloc_raw_counts [OF c _ i] t by simp
  have "card (dom ((vars h)(t \<mapsto> ?s))) < 2 ^ 32 - 1" using small t fin by simp
  then obtain h2 where h2: "ptr_copy ?s ?h1 = Some h2" "counts h2 ((vars h)(t \<mapsto> ?s, v \<mapsto> ?s))" "vars h2 = vars ?h1"
    using ptr_copy_counts [OF c1, of t ?s v] t v by auto
  obtain h3 where h3: "ptr_free ?s h2 = Some h3" "counts h3 ((vars h)(t \<mapsto> ?s, v \<mapsto> ?s, t := None))" "vars h3 = vars h2"
    using ptr_free_counts [OF h2(2), of t ?s] t by auto
  have vars: "(vars h)(t \<mapsto> ?s, v \<mapsto> ?s, t := None) = (vars h)(v \<mapsto> ?s)" using t by (auto simp: fun_eq_iff)
  have "upd_pool k (pools h k\<lparr>freeCnt := freeCnt (pools h k) - 1, referenceCnt := (referenceCnt (pools h k))[i := 1]\<rparr>) h = ?h1"
    by (cases "pools h k") (simp add: with_count_def)
  then have "alloc v k h = Some (Inr i, set_var v (Some ?s) h3)"
    using h2(1) h3(1) Some by (simp add: alloc_def object_ptr_def [symmetric] set_var_commute)
  moreover have "vars h3 = vars h" using h2(3) h3(3) by (simp add: with_count_def upd_pool_def)
  ultimately show ?thesis using Some h3(2) vars by simp
qed

lemma exec_counts:
  assumes "counts h (vars h)" "scoped x (dom (vars h))" "card (alive x (dom (vars h))) < 2 ^ 32 - 1"
  shows "\<exists>h'. ptr_exec x h = Some h' \<and> counts h' (vars h') \<and> dom (vars h') = alive x (dom (vars h))"
proof -
  note c = assms(1) and fin = countsD(1) [OF assms(1)]
  show ?thesis
  proof (cases x)
    case (Default v)
    then show ?thesis using counts_default [OF c, of v] assms(2) by (auto simp: SharedPtr_default_def)
  next
    case (Copy v w)
    then obtain s where w: "vars h w = Some s" "v \<notin> dom (vars h)" using assms(2) by auto
    then have "card (dom (vars h)) < 2 ^ 32 - 1" using assms(3) Copy fin by simp
    from ptr_copy_counts [OF c w this] obtain h' where "ptr_copy s h = Some h'" "counts h' ((vars h)(v \<mapsto> s))" "vars h' = vars h"
      by blast
    then show ?thesis using Copy w by (simp add: SharedPtr_copy_def set_var_commute)
  next
    case (Destroy v)
    then obtain s where v: "vars h v = Some s" using assms(2) by auto
    from ptr_free_counts [OF c v] show ?thesis using Destroy v by (auto simp: SharedPtr_destroy_def)
  next
    case (Clear v)
    then obtain s where v: "vars h v = Some s" using assms(2) by auto
    from ptr_free_counts [OF c v] obtain h' where h': "ptr_free s h = Some h'" "counts h' ((vars h)(v := None))" "vars h' = vars h"
      by blast
    have "counts h' ((vars h)(v \<mapsto> default_ptr))" using counts_default [OF h'(2), of v] by simp
    then show ?thesis using Clear v h' by (auto simp: SharedPtr_clear_def)
  next
    case (Assign v w)
    then obtain s s' where v: "vars h v = Some s" "vars h w = Some s'" using assms(2) by auto
    show ?thesis
    proof (cases "v = w")
      case True
      then show ?thesis using Assign v c by (auto simp: SharedPtr_assign_def)
    next
      case False
      from ptr_free_counts [OF c v(1)] obtain h' where h': "ptr_free s h = Some h'" "counts h' ((vars h)(v := None))" "vars h' = vars h"
        by blast
      have "card (dom ((vars h)(v := None))) \<le> card (dom (vars h))" by (rule card_mono [OF fin]) auto
      then have "card (dom ((vars h)(v := None))) < 2 ^ 32 - 1" using assms(3) Assign by simp
      from ptr_copy_counts [OF h'(2), of w s' v, OF _ _ this] v False obtain h'' where
        "ptr_copy s' h' = Some h''" "counts h'' ((vars h)(v \<mapsto> s'))" "vars h'' = vars h'" by auto
      then show ?thesis using Assign v h' False by (auto simp: SharedPtr_assign_def set_var_commute)
    qed
  next
    case (Alloc v k)
    then have "v \<notin> dom (vars h)" "Suc (card (dom (vars h))) < 2 ^ 32 - 1" using assms(2,3) fin by auto
    from alloc_counts [OF c this, of k] show ?thesis using Alloc by (auto split: option.splits)
  qed
qed

lemma counter_zero:
  assumes "counts h vs" "i < length (referenceCnt (pools h k))"
  shows "referenceCnt (pools h k) ! i = 0 \<longleftrightarrow> object_ptr k i \<notin> ran vs"
proof -
  have "referenceCnt (pools h k) ! i = 0 \<longleftrightarrow> card {v. vs v = Some (object_ptr k i)} = 0"
    unfolding countsD(3) [OF assms, symmetric] by (simp add: unat_eq_0)
  then show ?thesis using finite_refs [OF countsD(1) [OF assms(1)], of "object_ptr k i"] by (auto simp: ran_def)
qed

section \<open>Properties\<close>

lemma init_counts: "(\<And>k. n k < 2 ^ 32) \<Longrightarrow> counts \<lparr>pools = \<lambda>k. pool_init (n k), vars = Map.empty\<rparr> Map.empty"
  by (simp add: counts_def pool_init_def unat_of_nat)

text \<open>
  C25. Whatever a program does with shared pointers -- construction, copying, assignment (to itself too), clearing,
  destruction and allocation, from any number of pools -- no operation accesses a counter that does
  not exist, every counter is the number of live pointers to its object, and the number of free
  objects is right. An object is thus in use exactly as long as a pointer refers to it. (Less than
  \<open>2^32 - 1\<close> pointers may be alive, or a counter of 32 bits wraps around.)
\<close>

theorem shared_pointers_count:
  assumes "counts h (vars h)" "scoped_run ops (dom (vars h))"
  shows "\<exists>h'. ptr_run ops h = Some h' \<and> counts h' (vars h') \<and>
    (\<forall>k i. i < length (referenceCnt (pools h' k)) \<longrightarrow> (referenceCnt (pools h' k) ! i = 0 \<longleftrightarrow> object_ptr k i \<notin> ran (vars h')))"
  using assms
proof (induction ops arbitrary: h)
  case Nil
  then show ?case using counter_zero [OF Nil.prems(1)] by simp
next
  case (Cons x ops)
  from exec_counts [OF Cons.prems(1), of x] Cons.prems(2) obtain h' where
    "ptr_exec x h = Some h'" "counts h' (vars h')" "dom (vars h') = alive x (dom (vars h))" by auto
  then show ?case using Cons.IH [of h'] Cons.prems(2) by simp
qed

theorem shared_pointers_count_witness:
  "\<exists>h'. ptr_run [Alloc 0 0, Copy 1 0, Assign 0 0, Destroy 0] \<lparr>pools = \<lambda>k. pool_init 1, vars = Map.empty\<rparr> = Some h' \<and>
     counts h' (vars h')"
proof -
  have "scoped_run [Alloc 0 0, Copy 1 0, Assign 0 0, Destroy 0] {}" by simp
  then show ?thesis
    using shared_pointers_count [of "\<lparr>pools = \<lambda>k. pool_init 1, vars = Map.empty\<rparr>" "[Alloc 0 0, Copy 1 0, Assign 0 0, Destroy 0]"]
      init_counts [of "\<lambda>_. 1"] by (auto simp del: ptr_run.simps)
qed

text \<open>
  \<open>alloc\<close> hands out an object that no live pointer refers to, and fails only if every object of
  the pool is referred to.
\<close>

lemma alloc_fresh:
  assumes "counts h (vars h)" "v \<notin> dom (vars h)" "Suc (card (dom (vars h))) < 2 ^ 32 - 1"
  shows "(\<exists>i h'. alloc v k h = Some (Inr i, h') \<and> i < length (referenceCnt (pools h k)) \<and> object_ptr k i \<notin> ran (vars h) \<and>
            vars h' = (vars h)(v \<mapsto> object_ptr k i)) \<or>
    (\<exists>h'. alloc v k h = Some (Inl MEMORY, h') \<and> vars h' = (vars h)(v \<mapsto> default_ptr) \<and>
       (\<forall>i < length (referenceCnt (pools h k)). object_ptr k i \<in> ran (vars h)))"
proof -
  note refs = counter_zero [OF assms(1)]
  show ?thesis
  proof (cases "alloc_loop 0 (referenceCnt (pools h k))")
    case None
    then have "\<forall>i < length (referenceCnt (pools h k)). object_ptr k i \<in> ran (vars h)"
      using refs unfolding alloc_loop_None by (metis nth_mem)
    then show ?thesis using None alloc_counts [OF assms, of k] by auto
  next
    case (Some i)
    then have "i < length (referenceCnt (pools h k))" "referenceCnt (pools h k) ! i = 0" using alloc_loop_Some [of 0] by auto
    then show ?thesis using refs Some alloc_counts [OF assms, of k] by auto
  qed
qed


lemma alloc_fresh_witness:
  "\<exists>h'. alloc 3 0 \<lparr>pools = \<lambda>k. pool_init 0, vars = Map.empty\<rparr> = Some (Inl MEMORY, h') \<and> vars h' = [3 \<mapsto> default_ptr]"
  using alloc_fresh [of "\<lparr>pools = \<lambda>k. pool_init 0, vars = Map.empty\<rparr>" 3 0] init_counts [of "\<lambda>_. 0"]
  by (auto simp: pool_init_def)

end
