(* ===== verification/Byte_Ring.thy ===== *)
theory Byte_Ring
  imports Rodos_Prelude
begin

text \<open>
  The ring of byte strings of \<open>support-libs/bytestreamringbuffer.h\<close>. The buffer holds words of 32 bits, here
  as integers; each message is its length in bytes and then its words. A write that needs room drops
  the oldest messages. Indices and lengths are \<open>int\<close> as in the source, \<open>None\<close> is an access outside of the
  buffer or of the source. The ring is shown to keep the latest messages that fit.
\<close>

section \<open>The code\<close>

record byte_ring =
  bs_buffer :: "int list"
  bs_writeX :: int
  bs_readX :: int

definition wordsInObject :: "int \<Rightarrow> int" where
  "wordsInObject bytes = c_div (bytes + 3) 4"

abbreviation WORDS :: "byte_ring \<Rightarrow> int" where
  "WORDS b \<equiv> int (length (bs_buffer b))"

definition bs_new :: "int \<Rightarrow> byte_ring" where
  "bs_new len = \<lparr>bs_buffer = replicate (nat (wordsInObject len)) 0, bs_writeX = 0, bs_readX = 0\<rparr>"

definition bs_isEmpty :: "byte_ring \<Rightarrow> bool" where
  "bs_isEmpty b \<longleftrightarrow> bs_readX b = bs_writeX b"

definition bs_reset :: "byte_ring \<Rightarrow> byte_ring" where
  "bs_reset b = b\<lparr>bs_readX := 0, bs_writeX := 0\<rparr>"

text \<open>The word at an index.\<close>

definition word_at :: "byte_ring \<Rightarrow> int \<Rightarrow> int option" where
  "word_at b i = (if 0 \<le> i \<and> i < WORDS b then Some (bs_buffer b ! nat i) else None)"

definition writeWord :: "int \<Rightarrow> byte_ring \<Rightarrow> byte_ring option" where
  "writeWord v b = do {
     _ \<leftarrow> word_at b (bs_writeX b);
     let b = b\<lparr>bs_buffer := (bs_buffer b)[nat (bs_writeX b) := v]\<rparr>;
     let b = b\<lparr>bs_writeX := c_mod (bs_writeX b + 1) (WORDS b)\<rparr>;
     if bs_writeX b = bs_readX b then do {
       h \<leftarrow> word_at b (bs_readX b);
       Some (b\<lparr>bs_readX := c_mod (bs_readX b + 1 + wordsInObject h) (WORDS b)\<rparr>)
     } else Some b
   }"

definition readWord :: "byte_ring \<Rightarrow> (int \<times> byte_ring) option" where
  "readWord b = do {
     v \<leftarrow> word_at b (bs_readX b);
     Some (v, b\<lparr>bs_readX := c_mod (bs_readX b + 1) (WORDS b)\<rparr>)
   }"

function write_loop :: "int \<Rightarrow> int list \<Rightarrow> byte_ring \<Rightarrow> byte_ring option" where
  "write_loop len source b =
     (if len > 0 then
        (case source of [] \<Rightarrow> None
         | w # source \<Rightarrow> Option.bind (writeWord w b) (write_loop (len - 4) source))
      else Some b)"
  by pat_completeness auto
termination by (relation "measure (\<lambda>(len, _, _). nat len)") auto

declare write_loop.simps [simp del]

definition bs_write :: "int list \<Rightarrow> int \<Rightarrow> byte_ring \<Rightarrow> (bool \<times> byte_ring) option" where
  "bs_write source len b =
     (if wordsInObject len \<ge> WORDS b then Some (False, b)
      else if len = 0 then Some (True, b)
      else do {
        b \<leftarrow> writeWord len b;
        b \<leftarrow> write_loop len source b;
        Some (True, b)
      })"

text \<open>The words that are transferred to the destination are part of the result.\<close>

function read_words :: "int \<Rightarrow> byte_ring \<Rightarrow> (int list \<times> byte_ring) option" where
  "read_words len b =
     (if len > 0 then do {
        (w, b) \<leftarrow> readWord b;
        (ws, b) \<leftarrow> read_words (len - 4) b;
        Some (w # ws, b)
      } else Some ([], b))"
  by pat_completeness auto
termination by (relation "measure (\<lambda>(len, _). nat len)") auto

declare read_words.simps [simp del]

definition bs_read :: "int \<Rightarrow> byte_ring \<Rightarrow> (int \<times> int list \<times> byte_ring) option" where
  "bs_read maxLen b =
     (if bs_isEmpty b then Some (0, [], b)
      else do {
        (len, b) \<leftarrow> readWord b;
        if len > maxLen then Some (- 1, [], b\<lparr>bs_readX := c_mod (bs_readX b + wordsInObject len) (WORDS b)\<rparr>)
        else do {
          (ws, b) \<leftarrow> read_words len b;
          Some (len, ws, b)
        }
      })"

section \<open>Messages in the ring\<close>

type_synonym message = "int \<times> int list"

fun enc :: "message \<Rightarrow> int list" where
  "enc (len, ws) = len # ws"

definition is_message :: "message \<Rightarrow> bool" where
  "is_message m \<longleftrightarrow> 0 < fst m \<and> length (snd m) = nat ((fst m + 3) div 4)"

definition stored :: "byte_ring \<Rightarrow> int list" where
  "stored b = ring_list (bs_buffer b) (nat (bs_readX b))
     (ring_dist (length (bs_buffer b)) (nat (bs_readX b)) (nat (bs_writeX b)))"

definition ring_ok :: "byte_ring \<Rightarrow> bool" where
  "ring_ok b \<longleftrightarrow> 2 \<le> length (bs_buffer b) \<and> 0 \<le> bs_readX b \<and> bs_readX b < WORDS b \<and> 0 \<le> bs_writeX b \<and> bs_writeX b < WORDS b"

lemma enc_length: "length (enc m) = Suc (length (snd m))"
  by (cases m) simp

lemma wordsInObject_pos [simp]: "0 \<le> x \<Longrightarrow> wordsInObject x = (x + 3) div 4"
  by (simp add: wordsInObject_def)

lemma c_mod_next: "0 \<le> i \<Longrightarrow> i < int n \<Longrightarrow> c_mod (i + 1) (int n) = int (ring_next n (nat i))"
  by (simp add: ring_next_mod nat_less_iff zmod_int add.commute)

lemma length_stored: "ring_ok b \<Longrightarrow> length (stored b) < length (bs_buffer b)"
  unfolding stored_def ring_ok_def by (auto intro!: ring_dist_less simp: nat_less_iff)

text \<open>Writing a word with room for it.\<close>

lemma writeWord_room:
  assumes ok: "ring_ok b" and room: "length (stored b) < length (bs_buffer b) - 1"
  shows "\<exists>b'. writeWord v b = Some b' \<and> ring_ok b' \<and> stored b' = stored b @ [v] \<and>
    length (bs_buffer b') = length (bs_buffer b)"
proof -
  let ?n = "length (bs_buffer b)" and ?r = "nat (bs_readX b)" and ?w = "nat (bs_writeX b)"
  have rw: "?r < ?n" "?w < ?n" "2 \<le> ?n" "bs_readX b = int ?r" "bs_writeX b = int ?w"
    using ok by (auto simp: ring_ok_def nat_less_iff)
  have next': "ring_next ?n ?w \<noteq> ?r" using ring_full_iff [OF rw(1,2,3)] room by (simp add: stored_def)
  let ?b = "b\<lparr>bs_buffer := (bs_buffer b)[?w := v], bs_writeX := int (ring_next ?n ?w)\<rparr>"
  have "int (ring_next ?n ?w) \<noteq> bs_readX b" using next' rw(4) by linarith
  then have run: "writeWord v b = Some ?b"
    using rw c_mod_next [of "bs_writeX b" ?n] ok by (simp add: writeWord_def word_at_def ring_ok_def)
  have "stored ?b = stored b @ [v]"
    using ring_list_push [OF rw(1,2) next', of v] by (simp add: stored_def)
  moreover have "ring_ok ?b" using ok rw(2) by (auto simp: ring_ok_def)
  ultimately show ?thesis using run by auto
qed


text \<open>Writing a word into a full ring: the oldest message goes.\<close>

lemma drop_ring_list:
  "r < length xs \<Longrightarrow> drop k (ring_list xs r n) = ring_list xs ((r + k) mod length xs) (n - k)"
proof (rule nth_equalityI)
  assume "r < length xs"
  fix i assume "i < length (drop k (ring_list xs r n))"
  then have i: "k + i < n" by simp
  show "drop k (ring_list xs r n) ! i = ring_list xs ((r + k) mod length xs) (n - k) ! i"
    using i by (simp add: nth_ring_list mod_add_left_eq add.assoc)
qed simp

lemma writeWord_full:
  assumes ok: "ring_ok b" and full: "length (stored b) = length (bs_buffer b) - 1"
    and old: "stored b = enc m @ rest" "is_message m"
  shows "\<exists>b'. writeWord v b = Some b' \<and> ring_ok b' \<and> stored b' = rest @ [v] \<and>
    length (bs_buffer b') = length (bs_buffer b)"
proof -
  let ?n = "length (bs_buffer b)" and ?r = "nat (bs_readX b)" and ?w = "nat (bs_writeX b)" and ?k = "length (enc m)"
  have rw: "?r < ?n" "?w < ?n" "2 \<le> ?n" "bs_readX b = int ?r" "bs_writeX b = int ?w"
    using ok by (auto simp: ring_ok_def nat_less_iff)
  have d: "ring_dist ?n ?r ?w = ?n - 1" using full by (simp add: stored_def)
  have next': "ring_next ?n ?w = ?r" using ring_full_iff [OF rw(1,2,3)] d by simp
  have neq: "?r \<noteq> ?w" using d rw(3) by (auto simp: ring_dist_def)
  let ?buf = "(bs_buffer b)[?w := v]" and ?r' = "(?r + ?k) mod ?n"
  obtain len ws where m: "m = (len, ws)" by (cases m)
  have hd: "?buf ! ?r = len"
    using arg_cong [OF old(1), of hd] neq rw d by (simp add: m stored_def ring_list_def upt_conv_Cons)
  have k: "bs_readX b + 1 + wordsInObject len = int (?r + ?k)"
    using old(2) rw(4) by (auto simp: m is_message_def pos_imp_zdiv_nonneg_iff)
  let ?b = "b\<lparr>bs_buffer := ?buf, bs_writeX := int ?r, bs_readX := int ?r'\<rparr>"
  have run: "writeWord v b = Some ?b"
  proof -
    have "c_mod (bs_readX b + 1 + wordsInObject len) (int ?n) = int ?r'"
      unfolding k using rw(3) by (subst c_mod_nonneg) (auto simp: zmod_int)
    then show ?thesis
      using rw hd next' c_mod_next [of "bs_writeX b" ?n] ok by (simp add: writeWord_def word_at_def ring_ok_def)
  qed
  have len: "?k < ?n" using arg_cong [OF old(1), of length] full rw(3) by simp
  have "(?r + (?n - 1)) mod ?n = ?w" using ring_dist_add [OF rw(1,2)] d by simp
  then have w: "?buf ! ((?r + (?n - 1)) mod ?n) = v" "?w = (?r + (?n - 1)) mod ?n" using rw(2) by simp_all
  have n: "Suc (?n - 1) = ?n" "?n - 1 < ?n" using rw(3) by auto
  have all: "ring_list ?buf ?r ?n = stored b @ [v]"
    using ring_list_snoc [of ?buf ?r "?n - 1"] ring_list_update_outside [OF rw(1) n(2) w(2), of v] w(1)
    unfolding n(1) stored_def d by simp
  have "(?r' + (?n - ?k)) mod ?n = (?r + ?n) mod ?n" using len by (simp only: mod_add_left_eq add.assoc le_add_diff_inverse less_imp_le)
  then have dist: "ring_dist ?n ?r' ?r = ?n - ?k"
    using rw(1) len by (intro ring_dist_eqI) (auto simp: enc_length)
  have "stored ?b = ring_list ?buf ?r' (ring_dist ?n ?r' ?r)" using ok by (simp add: stored_def ring_ok_def)
  also have "\<dots> = drop ?k (ring_list ?buf ?r ?n)" unfolding dist using rw(1) by (simp add: drop_ring_list)
  finally have "stored ?b = drop ?k (stored b @ [v])" unfolding all .
  then have "stored ?b = rest @ [v]" by (simp add: old(1))
  moreover have "ring_ok ?b" using ok rw(1,3) by (auto simp: ring_ok_def intro: ring_mod_less)
  ultimately show ?thesis using run by auto
qed


section \<open>The operations\<close>

abbreviation words :: "message list \<Rightarrow> int list" where
  "words ms \<equiv> concat (map enc ms)"

definition holds :: "byte_ring \<Rightarrow> message list \<Rightarrow> int list \<Rightarrow> bool" where
  "holds b ms part \<longleftrightarrow> ring_ok b \<and> stored b = words ms @ part \<and> (\<forall>m \<in> set ms. is_message m)"

text \<open>The latest messages that leave room for some words.\<close>

fun fit :: "nat \<Rightarrow> nat \<Rightarrow> message list \<Rightarrow> message list" where
  "fit cap need [] = []"
| "fit cap need (m # ms) = (if need + length (words (m # ms)) \<le> cap then m # ms else fit cap need ms)"

lemma fit_all: "need + length (words ms) \<le> cap \<Longrightarrow> fit cap need ms = ms"
  by (cases ms) auto

lemma fit_fit: "a \<le> b \<Longrightarrow> fit cap b (fit cap a ms) = fit cap b ms"
  by (induction ms) auto

lemma writeWord_holds:
  assumes h: "holds b ms part" and part: "length part + 1 \<le> length (bs_buffer b) - 1"
  shows "\<exists>b'. writeWord v b = Some b' \<and> holds b' (fit (length (bs_buffer b) - 1) (length part + 1) ms) (part @ [v]) \<and>
    length (bs_buffer b') = length (bs_buffer b)"
proof -
  have ok: "ring_ok b" and st: "stored b = words ms @ part" and msg: "\<forall>m \<in> set ms. is_message m"
    using h by (auto simp: holds_def)
  have le: "length (stored b) \<le> length (bs_buffer b) - 1" using length_stored [OF ok] by linarith
  show ?thesis
  proof (cases "length (stored b) = length (bs_buffer b) - 1")
    case False
    then have "fit (length (bs_buffer b) - 1) (length part + 1) ms = ms" using le st by (intro fit_all) simp
    then show ?thesis using writeWord_room [OF ok, of v] False le st msg by (fastforce simp: holds_def)
  next
    case True
    then obtain m ms' where ms: "ms = m # ms'" using part st by (cases ms) auto
    have "length part + 1 + length (words ms') \<le> length (bs_buffer b) - 1"
      using True st ms by (simp add: enc_length)
    then have "fit (length (bs_buffer b) - 1) (length part + 1) ms = ms'" using True st ms by (simp add: fit_all)
    moreover have "\<exists>b'. writeWord v b = Some b' \<and> ring_ok b' \<and> stored b' = (words ms' @ part) @ [v] \<and>
      length (bs_buffer b') = length (bs_buffer b)"
      by (rule writeWord_full [OF ok True, of m]) (use st msg ms in auto)
    ultimately show ?thesis using msg ms by (auto simp: holds_def)
  qed
qed

lemma write_loop_holds:
  assumes "holds b ms part" "n = nat ((len + 3) div 4)" "length part + n \<le> length (bs_buffer b) - 1" "n \<le> length source"
  shows "\<exists>b'. write_loop len source b = Some b' \<and>
    holds b' (fit (length (bs_buffer b) - 1) (length part + n) ms) (part @ take n source)"
  using assms
proof (induction len source b arbitrary: ms part n rule: write_loop.induct)
  case (1 len source b)
  show ?case
  proof (cases "len > 0")
    case False
    have "length part + length (words ms) \<le> length (bs_buffer b) - 1"
      using "1.prems"(1) length_stored [of b] by (simp add: holds_def)
    then show ?thesis using False "1.prems" by (subst write_loop.simps) (simp add: fit_all)
  next
    case True
    have n: "n = Suc (nat ((len - 4 + 3) div 4))" "0 \<le> (len - 4 + 3) div 4" unfolding "1.prems"(2) using True by auto
    then obtain w source' where src: "source = w # source'" using "1.prems"(4) by (cases source) auto
    obtain b1 where b1: "writeWord w b = Some b1" "length (bs_buffer b1) = length (bs_buffer b)"
      "holds b1 (fit (length (bs_buffer b) - 1) (length part + 1) ms) (part @ [w])"
      using writeWord_holds [OF "1.prems"(1), of w] "1.prems"(3) n by auto
    have "\<exists>b'. write_loop (len - 4) source' b1 = Some b' \<and>
      holds b' (fit (length (bs_buffer b1) - 1) (length (part @ [w]) + nat ((len - 4 + 3) div 4))
        (fit (length (bs_buffer b) - 1) (length part + 1) ms)) ((part @ [w]) @ take (nat ((len - 4 + 3) div 4)) source')"
      by (rule "1.IH" [OF True src b1(1,3) refl]) (use "1.prems"(3,4) n(1) src b1(2) in auto)
    then show ?thesis using True b1(1,2) src n(1) by (subst write_loop.simps) (simp add: fit_fit)
  qed
qed

lemma readWord_stored:
  assumes "ring_ok b" "stored b = x # xs"
  shows "\<exists>b'. readWord b = Some (x, b') \<and> ring_ok b' \<and> stored b' = xs"
proof -
  let ?n = "length (bs_buffer b)" and ?r = "nat (bs_readX b)" and ?w = "nat (bs_writeX b)"
  have rw: "?r < ?n" "?w < ?n" using assms(1) by (auto simp: ring_ok_def nat_less_iff)
  have neq: "?r \<noteq> ?w" using assms(2) by (auto simp: stored_def ring_dist_def)
  let ?b = "b\<lparr>bs_readX := int (ring_next ?n ?r)\<rparr>"
  have "bs_buffer b ! ?r = x" "stored ?b = xs"
    using assms(2) ring_list_pop [OF rw neq] by (auto simp: stored_def)
  moreover have "ring_ok ?b" using assms(1) rw by (auto simp: ring_ok_def)
  moreover have "readWord b = Some (bs_buffer b ! ?r, ?b)"
    using assms(1) c_mod_next [of "bs_readX b" ?n] by (simp add: readWord_def word_at_def ring_ok_def)
  ultimately show ?thesis by auto
qed

lemma read_words_stored:
  "ring_ok b \<Longrightarrow> stored b = ws @ rest \<Longrightarrow> length ws = nat ((len + 3) div 4) \<Longrightarrow>
   \<exists>b'. read_words len b = Some (ws, b') \<and> ring_ok b' \<and> stored b' = rest"
proof (induction len b arbitrary: ws rule: read_words.induct)
  case (1 len b)
  show ?case
  proof (cases "len > 0")
    case False
    then show ?thesis using "1.prems" by (subst read_words.simps) simp
  next
    case True
    then have "length ws = Suc (nat ((len - 4 + 3) div 4))" unfolding "1.prems"(3) by auto
    then obtain w ws' where ws: "ws = w # ws'" "length ws' = nat ((len - 4 + 3) div 4)" by (cases ws) auto
    obtain b1 where b1: "readWord b = Some (w, b1)" "ring_ok b1" "stored b1 = ws' @ rest"
      using readWord_stored [OF "1.prems"(1), of w "ws' @ rest"] "1.prems"(2) ws by auto
    from "1.IH" [OF True _ refl b1(2,3) ws(2), of w] b1(1) show ?thesis
      using True ws by (subst read_words.simps) auto
  qed
qed

lemma skip_stored:
  assumes "ring_ok b" "k \<le> length (stored b)"
  shows "ring_ok (b\<lparr>bs_readX := c_mod (bs_readX b + int k) (WORDS b)\<rparr>) \<and>
    stored (b\<lparr>bs_readX := c_mod (bs_readX b + int k) (WORDS b)\<rparr>) = drop k (stored b)"
proof -
  let ?n = "length (bs_buffer b)" and ?r = "nat (bs_readX b)" and ?w = "nat (bs_writeX b)"
  have rw: "?r < ?n" "?w < ?n" "bs_readX b = int ?r" using assms(1) by (auto simp: ring_ok_def nat_less_iff)
  have r': "c_mod (bs_readX b + int k) (int ?n) = int ((?r + k) mod ?n)"
    using assms(1) rw(1) by (subst c_mod_nonneg) (auto simp: zmod_int ring_ok_def)
  have lt: "(?r + k) mod ?n < ?n" using rw(1) by (rule ring_mod_less)
  let ?d = "ring_dist ?n ?r ?w"
  have d: "?d < ?n" "k \<le> ?d" using ring_dist_less [OF rw(1,2)] assms(2) by (auto simp: stored_def)
  have "((?r + k) mod ?n + (?d - k)) mod ?n = (?r + ?d) mod ?n" using d(2) by (simp only: mod_add_left_eq add.assoc le_add_diff_inverse)
  then have "ring_dist ?n ((?r + k) mod ?n) ?w = ?d - k"
    using ring_dist_add [OF rw(1,2)] lt less_imp_diff_less [OF d(1), of k] by (intro ring_dist_eqI) auto
  then show ?thesis
    unfolding r' using assms(1) lt rw(1) by (auto simp: ring_ok_def stored_def drop_ring_list)
qed


section \<open>Properties\<close>

text \<open>
  The ring keeps the latest messages: a message that leaves one word of the ring free is stored behind the
  messages that were there, of which as few of the oldest as necessary are dropped. Reading returns
  the oldest message unchanged, or drops it and reports \<open>-1\<close> when the destination is too small, or
  reports 0 when the ring is empty; the other messages stay as they are.
\<close>

lemma byte_ring_keeps_latest:
  assumes "holds b ms []"
  shows "(0 < len \<and> wordsInObject len + 2 \<le> WORDS b \<and> wordsInObject len \<le> int (length source) \<longrightarrow>
      (\<exists>b'. bs_write source len b = Some (True, b') \<and>
         holds b' (fit (length (bs_buffer b) - 1) (nat (wordsInObject len) + 1) ms @ [(len, take (nat (wordsInObject len)) source)]) [])) \<and>
    (case ms of [] \<Rightarrow> bs_read maxLen b = Some (0, [], b)
     | (l, ws) # ms' \<Rightarrow> \<exists>b'. bs_read maxLen b = Some (if l > maxLen then (- 1, [], b') else (l, ws, b')) \<and> holds b' ms' [])"
proof -
  have ok: "ring_ok b" and st: "stored b = words ms" and msg: "\<forall>m \<in> set ms. is_message m"
    using assms by (auto simp: holds_def)
  have wr: "\<exists>b'. bs_write source len b = Some (True, b') \<and>
      holds b' (fit (length (bs_buffer b) - 1) (nat (wordsInObject len) + 1) ms @ [(len, take (nat (wordsInObject len)) source)]) []"
    if fits: "0 < len" "wordsInObject len + 2 \<le> WORDS b" "wordsInObject len \<le> int (length source)"
  proof -
    let ?n = "nat ((len + 3) div 4)" and ?c = "length (bs_buffer b) - 1"
    have n: "wordsInObject len = int ?n" "?n + 1 \<le> ?c" "?n \<le> length source" using fits by auto
    obtain b1 where b1: "writeWord len b = Some b1" "holds b1 (fit ?c 1 ms) [len]" "length (bs_buffer b1) = length (bs_buffer b)"
      using writeWord_holds [OF assms, of len] n(2) by auto
    obtain b2 where b2: "write_loop len source b1 = Some b2" "holds b2 (fit ?c (1 + ?n) (fit ?c 1 ms)) ([len] @ take ?n source)"
      using write_loop_holds [OF b1(2) refl, of len source] n b1(3) by auto
    have "is_message (len, take ?n source)" using fits(1) n(3) by (simp add: is_message_def)
    then have "holds b2 (fit ?c (?n + 1) ms @ [(len, take ?n source)]) []"
      using b2(2) by (auto simp: holds_def fit_fit)
    then show ?thesis using b1(1) b2(1) n fits(1) by (auto simp: bs_write_def)
  qed
  have empty: "bs_isEmpty b \<longleftrightarrow> stored b = []"
  proof -
    have "length (stored b) = 0 \<longleftrightarrow> nat (bs_readX b) = nat (bs_writeX b)"
      using ok by (simp add: stored_def ring_dist_0_iff ring_ok_def nat_less_iff)
    then show ?thesis using ok by (auto simp: bs_isEmpty_def ring_ok_def)
  qed
  have rd: "\<exists>b'. bs_read maxLen b = Some (if l > maxLen then (- 1, [], b') else (l, ws, b')) \<and> holds b' ms' []"
    if ms: "ms = (l, ws) # ms'" for l ws ms'
  proof -
    have m: "0 < l" "length ws = nat ((l + 3) div 4)" using msg ms by (auto simp: is_message_def)
    obtain b1 where b1: "readWord b = Some (l, b1)" "ring_ok b1" "stored b1 = ws @ words ms'"
      using readWord_stored [OF ok, of l "ws @ words ms'"] st ms by auto
    have "wordsInObject l = int (length ws)" using m by (simp add: pos_imp_zdiv_nonneg_iff)
    then show ?thesis
      using b1 skip_stored [OF b1(2), of "length ws"] read_words_stored [OF b1(2,3) m(2)] msg ms empty st
      by (auto simp: bs_read_def holds_def)
  qed
  have "ms = [] \<Longrightarrow> bs_read maxLen b = Some (0, [], b)" using empty st by (simp add: bs_read_def)
  then show ?thesis using wr rd by (auto split: list.splits)
qed

lemma new_holds: "0 < len \<Longrightarrow> 2 \<le> (len + 3) div 4 \<Longrightarrow> holds (bs_new len) [] []"
  by (auto simp: holds_def bs_new_def ring_ok_def stored_def ring_dist_def)

lemma byte_ring_keeps_latest_witness:
  "\<exists>b'. bs_write [7, 8] 5 (bs_new 16) = Some (True, b') \<and> holds b' [(5, [7, 8])] []"
  using byte_ring_keeps_latest [OF new_holds [of 16], of 5 "[7, 8]"] by (simp add: bs_new_def)

text \<open>A message that fills the whole ring is accepted, and then the ring is empty.\<close>

lemma byte_ring_loses_full_message:
  "map_option (\<lambda>(ok, b). (ok, bs_isEmpty b)) (bs_write [7, 8, 9] 12 (bs_new 16)) = Some (True, True)"
  by (simp add: bs_write_def bs_new_def writeWord_def word_at_def write_loop.simps bs_isEmpty_def)

end
