(* ===== verification/Uart_Link.thy ===== *)
theory Uart_Link
  imports S3P Link_Spec
begin

text \<open>
  The link over a serial line (\<open>gateway/linkinterfaceuart.h\<close> and \<open>.cpp\<close>), which sends network messages in
  S3P frames. The HAL is a parameter: a list of the results of the calls of \<open>uart->write\<close>, and the
  bytes the line delivers; what waits for more of either than there is has the result \<open>None\<close>. The
  theorems compose the link with the framing on the one side and with the gateway on the other.
\<close>

section \<open>The code\<close>

record LinkinterfaceUART =
  maxNumOfRetriesPerWrite :: u32
  errFLag :: bool
  txInProg :: bool

definition LinkinterfaceUART_new :: "u32 \<Rightarrow> LinkinterfaceUART" where
  "LinkinterfaceUART_new maxRetries = \<lparr>maxNumOfRetriesPerWrite = maxRetries, errFLag = False, txInProg = False\<rparr>"

text \<open>The retry loop of \<open>putByte\<close>: what went out, the link and the results not yet used.\<close>

fun putByte_loop :: "u32 \<Rightarrow> u8 \<Rightarrow> int list \<Rightarrow> LinkinterfaceUART \<Rightarrow> (u8 list \<times> int list \<times> LinkinterfaceUART) option" where
  "putByte_loop errCnt c [] l = None"
| "putByte_loop errCnt c (r # rs) l =
     (if r \<le> 0 then
        (let errCnt = errCnt + 1
         in if errCnt \<ge> maxNumOfRetriesPerWrite l then Some ([], rs, l\<lparr>errFLag := True\<rparr>)
            else putByte_loop errCnt c rs l)
      else Some ([c], rs, l))"

definition uart_putByte :: "u8 \<Rightarrow> int list \<Rightarrow> LinkinterfaceUART \<Rightarrow> (u8 list \<times> int list \<times> LinkinterfaceUART) option" where
  "uart_putByte c rs l = putByte_loop 0 c rs l"

text \<open>The calls of \<open>putByte\<close> by the encoder, which does not look at the error flag.\<close>

fun uart_putBytes :: "u8 list \<Rightarrow> int list \<Rightarrow> LinkinterfaceUART \<Rightarrow> (u8 list \<times> int list \<times> LinkinterfaceUART) option" where
  "uart_putBytes [] rs l = Some ([], rs, l)"
| "uart_putBytes (c # cs) rs l = do {
     (out, rs, l) \<leftarrow> uart_putByte c rs l;
     (outs, rs, l) \<leftarrow> uart_putBytes cs rs l;
     Some (out @ outs, rs, l)
   }"

definition uart_sendNetworkMsg ::
    "NetworkMessage \<Rightarrow> int list \<Rightarrow> LinkinterfaceUART \<Rightarrow> (bool \<times> u8 list \<times> int list \<times> LinkinterfaceUART) option" where
  "uart_sendNetworkMsg outgoingMessage rs l =
     (let l = l\<lparr>txInProg := True\<rparr>;
          outputBufferSize = unat (numberOfBytesToSend outgoingMessage)
      in if outputBufferSize > length (msg_bytes outgoingMessage) then None
         else do {
           let l = l\<lparr>errFLag := False\<rparr>;
           (wire, rs, l) \<leftarrow> uart_putBytes (s3p_sendMsg (take outputBufferSize (msg_bytes outgoingMessage))) rs l;
           let l = l\<lparr>txInProg := False\<rparr>;
           Some (\<not> errFLag l, wire, rs, l)
         })"

definition uart_isNetworkMsgSent :: "LinkinterfaceUART \<Rightarrow> bool" where
  "uart_isNetworkMsgSent l \<longleftrightarrow> \<not> txInProg l"

definition MAX_UART_MESSAGE_LENGTH :: nat where
  "MAX_UART_MESSAGE_LENGTH = MAX_NETWORK_MESSAGE_LENGTH"

text \<open>\<open>getMsg\<close> of the decoder, with the memory it writes into. \<open>len\<close> is \<open>None\<close> for \<open>-1\<close>; a command it does not know
  is skipped, as the default \<open>executeCommand\<close> does.\<close>

definition store_at :: "nat \<Rightarrow> u8 \<Rightarrow> nat option \<Rightarrow> u8 list \<Rightarrow> nat option \<times> u8 list" where
  "store_at maxLen c len msg =
     (case len of None \<Rightarrow> (None, msg) | Some n \<Rightarrow> if n < maxLen then (Some (n + 1), msg[n := c]) else (Some n, msg))"

fun getMsg_into :: "nat \<Rightarrow> nat option \<Rightarrow> u8 list \<Rightarrow> u8 list \<Rightarrow> (nat \<times> u8 list \<times> u8 list) option" where
  "getMsg_into maxLen len msg [] = None"
| "getMsg_into maxLen len msg (c # cs) =
     (if ucast c \<noteq> S3P_MARK then (let (len, msg) = store_at maxLen c len msg in getMsg_into maxLen len msg cs)
      else (case cs of
              [] \<Rightarrow> None
            | d # ds \<Rightarrow>
                (let dualByte = S3P_COMMAND OR ucast d
                 in if dualByte = S3P_BOM then getMsg_into maxLen (Some 0) msg ds
                    else if dualByte = S3P_EOM then
                      (case len of Some n \<Rightarrow> Some (n, msg, ds) | None \<Rightarrow> getMsg_into maxLen len msg ds)
                    else if dualByte = S3P_STUFF then
                      (let (len, msg) = store_at maxLen (ucast S3P_MARK) len msg in getMsg_into maxLen len msg ds)
                    else getMsg_into maxLen len msg ds)))"

definition uart_getNetworkMsg :: "u8 list \<Rightarrow> NetworkMessage \<Rightarrow> (bool \<times> int \<times> NetworkMessage \<times> u8 list) option" where
  "uart_getNetworkMsg line inMsg = do {
     (n, memory, line) \<leftarrow> getMsg_into MAX_UART_MESSAGE_LENGTH None (msg_bytes inMsg) line;
     let numberOfReceivedBytes = int n;
     Some (numberOfReceivedBytes \<noteq> - 1, numberOfReceivedBytes, msg_of_bytes memory, line)
   }"

section \<open>Sending\<close>

text \<open>A byte goes out or the error flag is set, never both.\<close>

lemma putByte_cases:
  "uart_putByte c rs l = Some (out, rs', l') \<Longrightarrow> (out = [c] \<and> l' = l) \<or> (out = [] \<and> l' = l\<lparr>errFLag := True\<rparr>)"
proof -
  have "putByte_loop n c rs l = Some (out, rs', l') \<Longrightarrow> (out = [c] \<and> l' = l) \<or> (out = [] \<and> l' = l\<lparr>errFLag := True\<rparr>)" for n
    by (induction n c rs l rule: putByte_loop.induct) (auto simp: Let_def split: if_splits)
  then show "uart_putByte c rs l = Some (out, rs', l') \<Longrightarrow> ?thesis" by (simp add: uart_putByte_def)
qed

lemma putBytes_flag:
  "uart_putBytes cs rs l = Some (wire, rs', l') \<Longrightarrow>
   length wire \<le> length cs \<and> (errFLag l' \<longleftrightarrow> errFLag l \<or> length wire < length cs) \<and> (length wire = length cs \<longrightarrow> wire = cs)"
proof (induction cs arbitrary: rs l wire)
  case (Cons c cs)
  then obtain out rs1 l1 outs where 1: "uart_putByte c rs l = Some (out, rs1, l1)" "uart_putBytes cs rs1 l1 = Some (outs, rs', l')"
    "wire = out @ outs" by (auto split: Option.bind_splits)
  from Cons.IH [OF 1(2)] putByte_cases [OF 1(1)] show ?case using 1(3) by auto
qed simp

lemma putBytes_ready: "\<forall>r \<in> set rs. r > 0 \<Longrightarrow> length rs = length cs \<Longrightarrow> uart_putBytes cs (rs @ rest) l = Some (cs, rest, l)"
proof (induction cs arbitrary: rs)
  case (Cons c cs)
  then show ?case by (cases rs) (auto simp: uart_putByte_def)
qed simp

section \<open>Receiving\<close>

text \<open>The decoder that writes into memory agrees with the framing that collects a list.\<close>

lemma store_at_got:
  assumes "map_option length got = len" "case got of None \<Rightarrow> True | Some m \<Rightarrow> take (length m) msg = m \<and> length m \<le> n" "n \<le> length msg"
    and "store_at n c len msg = (len', msg')"
  shows "map_option length (s3p_store n c got) = len' \<and> length msg' = length msg \<and>
    (case s3p_store n c got of None \<Rightarrow> True | Some m \<Rightarrow> take (length m) msg' = m \<and> length m \<le> n)"
proof (cases got)
  case None
  with assms show ?thesis by (simp add: store_at_def s3p_store_def)
next
  case (Some m)
  then have "take (Suc (length m)) (msg[length m := c]) = m @ [c]" if "length m < n"
    using that assms(2,3) by (simp add: take_Suc_conv_app_nth)
  with Some assms show ?thesis by (auto simp: store_at_def s3p_store_def split: if_splits)
qed

lemma getMsg_into_got:
  "s3p_getMsg n got cmds bs = Some (m, cmds', rest) \<Longrightarrow> map_option length got = len \<Longrightarrow>
   case got of None \<Rightarrow> True | Some m \<Rightarrow> take (length m) msg = m \<and> length m \<le> n \<Longrightarrow> n \<le> length msg \<Longrightarrow>
   \<exists>msg'. getMsg_into n len msg bs = Some (length m, msg', rest) \<and> take (length m) msg' = m \<and> length msg' = length msg"
proof (induction n got cmds bs arbitrary: len msg rule: s3p_getMsg.induct)
  case (2 n got cmds c cs)
  show ?case
  proof (cases "ucast c = S3P_MARK")
    case False
    obtain len' msg' where st: "store_at n c len msg = (len', msg')" by fastforce
    note g = store_at_got [OF "2.prems"(2,3,4) st]
    have "s3p_getMsg n (s3p_store n c got) cmds cs = Some (m, cmds', rest)" using "2.prems"(1) False by simp
    from "2.IH"(1) [OF False this, of len' msg'] g "2.prems"(4) st False show ?thesis by auto
  next
    case True
    then obtain d ds where cs: "cs = d # ds" using "2.prems"(1) by (cases cs) auto
    let ?d = "S3P_COMMAND OR ucast d"
    consider "?d = S3P_BOM" | "?d = S3P_EOM" "?d \<noteq> S3P_BOM" | "?d = S3P_STUFF" "?d \<noteq> S3P_BOM" "?d \<noteq> S3P_EOM"
      | "?d \<noteq> S3P_BOM" "?d \<noteq> S3P_EOM" "?d \<noteq> S3P_STUFF" by blast
    then show ?thesis
    proof cases
      case 1
      have "s3p_getMsg n (Some []) cmds ds = Some (m, cmds', rest)" using "2.prems"(1) True cs 1 by (simp add: Let_def)
      from "2.IH"(2) [OF _ cs refl 1 this, of "Some 0" msg] True cs 1 "2.prems"(4) show ?thesis by (simp add: Let_def)
    next
      case 2
      show ?thesis
      proof (cases got)
        case None
        then have "s3p_getMsg n got cmds ds = Some (m, cmds', rest)" using "2.prems"(1) True cs 2 by (simp add: Let_def)
        from "2.IH"(3) [OF _ cs refl 2(2,1) None this, of len msg] True cs 2 None "2.prems" show ?thesis by (simp add: Let_def)
      next
        case (Some g)
        then show ?thesis using "2.prems" True cs 2 by (auto simp: Let_def)
      qed
    next
      case 3
      obtain len' msg' where st: "store_at n (ucast S3P_MARK) len msg = (len', msg')" by fastforce
      note g = store_at_got [OF "2.prems"(2,3,4) st]
      have "s3p_getMsg n (s3p_store n (ucast S3P_MARK) got) cmds ds = Some (m, cmds', rest)"
        using "2.prems"(1) True cs 3 by (simp add: Let_def)
      from "2.IH"(4) [OF _ cs refl 3(2,3,1) this, of len' msg'] g "2.prems"(4) st True cs 3 show ?thesis by (auto simp: Let_def)
    next
      case 4
      have "s3p_getMsg n got (cmds @ [?d]) ds = Some (m, cmds', rest)" using "2.prems"(1) True cs 4 by (simp add: Let_def)
      from "2.IH"(5) [OF _ cs refl 4 this "2.prems"(2,3,4)] True cs 4 show ?thesis by (simp add: Let_def)
    qed
  qed
qed simp


lemma getNetworkMsg_frame:
  assumes "wf_msg inMsg"
  shows "\<exists>inMsg'. uart_getNetworkMsg (s3p_sendMsg bs @ rest) inMsg =
      Some (True, int (min MAX_UART_MESSAGE_LENGTH (length bs)), inMsg', rest) \<and> wf_msg inMsg' \<and>
    take (min MAX_UART_MESSAGE_LENGTH (length bs)) (msg_bytes inMsg') = take MAX_UART_MESSAGE_LENGTH bs"
proof -
  let ?n = MAX_UART_MESSAGE_LENGTH
  have n: "?n \<le> length (msg_bytes inMsg)"
    using assms by (simp add: length_msg_bytes MAX_UART_MESSAGE_LENGTH_def)
  obtain msg' where msg': "getMsg_into ?n None (msg_bytes inMsg) (s3p_sendMsg bs @ rest) = Some (length (take ?n bs), msg', rest)"
    "take (length (take ?n bs)) msg' = take ?n bs" "length msg' = length (msg_bytes inMsg)"
    using getMsg_into_got [OF getMsg_message [of ?n None "[]" bs rest], of None "msg_bytes inMsg"] n by auto
  have "msg_bytes (msg_of_bytes msg') = msg'" by (simp add: msg_bytes_def msg_of_bytes_def)
  moreover have "wf_msg (msg_of_bytes msg')"
    using msg'(3) assms by (simp add: wf_msg_def msg_of_bytes_def length_msg_bytes)
  ultimately show ?thesis using msg' by (auto simp: uart_getNetworkMsg_def min.commute)
qed

text \<open>What is on the line after a call of \<open>sendNetworkMsg\<close>, and what the other side makes of a whole frame.\<close>

abbreviation sent_bytes :: "NetworkMessage \<Rightarrow> u8 list" where
  "sent_bytes m \<equiv> take (HEADER_SIZE + unat (get_len m)) (msg_bytes m)"

lemma uart_send_run:
  assumes "wf_msg m" "unat (get_len m) \<le> MAX_NETWORK_MESSAGE_LENGTH"
  shows "uart_sendNetworkMsg m rs l = (case uart_putBytes (s3p_sendMsg (sent_bytes m)) rs (l\<lparr>txInProg := True, errFLag := False\<rparr>) of
      None \<Rightarrow> None | Some (wire, rs, l) \<Rightarrow> Some (\<not> errFLag l, wire, rs, l\<lparr>txInProg := False\<rparr>))"
  using bytes_to_send [OF assms(2)] assms by (simp add: uart_sendNetworkMsg_def length_msg_bytes Let_def split: option.splits)

lemma uart_sent:
  assumes "wf_msg m" "unat (get_len m) \<le> MAX_NETWORK_MESSAGE_LENGTH" "uart_sendNetworkMsg m rs l = Some (ok, wire, rs', l')"
  shows "ok \<longleftrightarrow> wire = s3p_sendMsg (sent_bytes m)" "uart_isNetworkMsgSent l'"
proof -
  obtain l1 where p: "uart_putBytes (s3p_sendMsg (sent_bytes m)) rs (l\<lparr>txInProg := True, errFLag := False\<rparr>) = Some (wire, rs', l1)"
    "ok = (\<not> errFLag l1)" "l' = l1\<lparr>txInProg := False\<rparr>"
    using assms(3) unfolding uart_send_run [OF assms(1,2)] by (auto split: option.splits)
  from putBytes_flag [OF p(1)] p(2,3) show "ok \<longleftrightarrow> wire = s3p_sendMsg (sent_bytes m)" "uart_isNetworkMsgSent l'"
    by (auto simp: uart_isNetworkMsgSent_def)
qed

lemma uart_send_ready:
  assumes "wf_msg m" "unat (get_len m) \<le> MAX_NETWORK_MESSAGE_LENGTH" "length (s3p_sendMsg (sent_bytes m)) \<le> length rs" "\<forall>r \<in> set rs. 0 < r"
  shows "\<exists>wire rs' l'. uart_sendNetworkMsg m rs l = Some (True, wire, rs', l')"
proof -
  let ?cs = "s3p_sendMsg (sent_bytes m)"
  have "uart_putBytes ?cs (take (length ?cs) rs @ drop (length ?cs) rs) l0 = Some (?cs, drop (length ?cs) rs, l0)" for l0
    using assms(3,4) by (intro putBytes_ready) (auto dest: in_set_takeD)
  then show ?thesis unfolding uart_send_run [OF assms(1,2)] by simp
qed

lemma uart_got:
  assumes "wf_msg m" "wf_msg inMsg" "HEADER_SIZE + unat (get_len m) \<le> MAX_UART_MESSAGE_LENGTH"
  shows "\<exists>inMsg'. uart_getNetworkMsg (s3p_sendMsg (sent_bytes m) @ rest) inMsg =
      Some (True, int (HEADER_SIZE + unat (get_len m)), inMsg', rest) \<and> wf_msg inMsg' \<and>
    take (HEADER_SIZE + unat (get_len m)) (msg_bytes inMsg') = sent_bytes m"
proof -
  have "length (sent_bytes m) = HEADER_SIZE + unat (get_len m)"
    using assms(1,3) by (simp add: length_msg_bytes MAX_UART_MESSAGE_LENGTH_def)
  then show ?thesis using getNetworkMsg_frame [OF assms(2), of "sent_bytes m" rest] assms(3) by (auto simp: min_absorb2)
qed

text \<open>The serial line as a link: a message sent completely and read by the other side.\<close>

definition uart_crosses :: "NetworkMessage \<Rightarrow> int \<Rightarrow> NetworkMessage \<Rightarrow> bool" where
  "uart_crosses m n m' \<longleftrightarrow> wf_msg m \<and> HEADER_SIZE + unat (get_len m) \<le> MAX_UART_MESSAGE_LENGTH \<and>
     (\<exists>rs l wire rs' l' inMsg rest. uart_sendNetworkMsg m rs l = Some (True, wire, rs', l') \<and> wf_msg inMsg \<and>
        uart_getNetworkMsg (wire @ rest) inMsg = Some (True, n, m', rest))"

lemma uart_crossesD:
  assumes "uart_crosses m n m'"
  shows "wf_msg m" "wf_msg m'" "unat (get_len m) \<le> MAX_NETWORK_MESSAGE_LENGTH" "n = int (HEADER_SIZE + unat (get_len m))"
    "take (HEADER_SIZE + unat (get_len m)) (msg_bytes m') = sent_bytes m"
proof -
  obtain rs l wire rs' l' inMsg rest where c: "wf_msg m" "HEADER_SIZE + unat (get_len m) \<le> MAX_UART_MESSAGE_LENGTH"
    "uart_sendNetworkMsg m rs l = Some (True, wire, rs', l')" "wf_msg inMsg"
    "uart_getNetworkMsg (wire @ rest) inMsg = Some (True, n, m', rest)" using assms by (auto simp: uart_crosses_def)
  show len: "unat (get_len m) \<le> MAX_NETWORK_MESSAGE_LENGTH" using c(2) by (simp add: MAX_UART_MESSAGE_LENGTH_def)
  have "wire = s3p_sendMsg (sent_bytes m)" using uart_sent(1) [OF c(1) len c(3)] by simp
  then show "wf_msg m" "wf_msg m'" "n = int (HEADER_SIZE + unat (get_len m))"
    "take (HEADER_SIZE + unat (get_len m)) (msg_bytes m') = sent_bytes m"
    using uart_got [OF c(1,4,2), of rest] c(1,5) by auto
qed

interpretation uart: transparent_link uart_crosses
  by unfold_locales (auto dest: uart_crossesD)

section \<open>Properties\<close>

text \<open>
  A network message crosses the serial line: \<open>sendNetworkMsg\<close> reports success exactly if the whole frame
  went out, and it does so when the UART accepts every byte. The receiver of a frame of up to 1300
  bytes, header included, then gets the message with its header, its user data, its checksum and its
  number of bytes, and leaves what follows on the line.
\<close>

lemma uart_link_delivers:
  assumes "wf_msg m" "wf_msg inMsg" "HEADER_SIZE + unat (get_len m) \<le> MAX_UART_MESSAGE_LENGTH"
  shows "(uart_sendNetworkMsg m rs l = Some (ok, wire, rs', l') \<longrightarrow>
      (ok \<longleftrightarrow> wire = s3p_sendMsg (take (HEADER_SIZE + unat (get_len m)) (msg_bytes m))) \<and> uart_isNetworkMsgSent l' \<and>
      (ok \<longrightarrow> (\<exists>inMsg'. uart_getNetworkMsg (wire @ rest) inMsg = Some (True, uint (numberOfBytesToSend inMsg'), inMsg', rest) \<and>
         header inMsg' = header m \<and> take (unat (get_len m)) (userDataC inMsg') = take (unat (get_len m)) (userDataC m) \<and>
         isCheckSumOk inMsg' = isCheckSumOk m))) \<and>
    ((\<forall>r \<in> set rs. 0 < r) \<and> length rs = length (s3p_sendMsg (take (HEADER_SIZE + unat (get_len m)) (msg_bytes m))) \<longrightarrow>
      (\<exists>wire l'. uart_sendNetworkMsg m rs l = Some (True, wire, [], l')))"
proof -
  have len: "unat (get_len m) \<le> MAX_NETWORK_MESSAGE_LENGTH" using assms(3) by (simp add: MAX_UART_MESSAGE_LENGTH_def)
  obtain inMsg' where i: "uart_getNetworkMsg (s3p_sendMsg (sent_bytes m) @ rest) inMsg =
      Some (True, int (HEADER_SIZE + unat (get_len m)), inMsg', rest)" "wf_msg inMsg'"
    "take (HEADER_SIZE + unat (get_len m)) (msg_bytes inMsg') = sent_bytes m" using uart_got [OF assms] by blast
  note same = same_sent_bytes [OF assms(1) i(2,3) refl len]
  have "uint (numberOfBytesToSend inMsg') = int (HEADER_SIZE + unat (get_len m))"
    using bytes_to_send [of inMsg'] len same(2) by (metis uint_nat)
  then have "\<exists>inMsg'. uart_getNetworkMsg (s3p_sendMsg (sent_bytes m) @ rest) inMsg = Some (True, uint (numberOfBytesToSend inMsg'), inMsg', rest) \<and>
         header inMsg' = header m \<and> take (unat (get_len m)) (userDataC inMsg') = take (unat (get_len m)) (userDataC m) \<and>
         isCheckSumOk inMsg' = isCheckSumOk m" using i(1) same by auto
  moreover have "\<exists>wire l'. uart_sendNetworkMsg m rs l = Some (True, wire, [], l')"
    if "\<forall>r \<in> set rs. 0 < r" "length rs = length (s3p_sendMsg (sent_bytes m))"
    unfolding uart_send_run [OF assms(1) len] using putBytes_ready [OF that, of "[]"] by auto
  ultimately show ?thesis using uart_sent [OF assms(1) len] by blast
qed

lemma example_sizes:
  "wf_msg example_msg" "get_len example_msg = 0" "wf_msg (put_len 1300 example_msg)" "get_len (put_len 1300 example_msg) = 1300"
proof -
  show w: "wf_msg example_msg" by (simp add: example_msg_def wf_msg_def HEADER_SIZE_def MAX_NETWORK_MESSAGE_LENGTH_def)
  show "get_len example_msg = 0" by (simp add: example_msg_def get_len_def read_at_def bigEndianToUint16_t_def)
  show "wf_msg (put_len 1300 example_msg)" by (rule fLen.put_wf [OF w])
  show "get_len (put_len 1300 example_msg) = 1300" by (rule fLen.get_put [OF w]) simp
qed

lemma uart_link_delivers_witness:
  "\<exists>wire l'. uart_sendNetworkMsg example_msg (replicate (length (s3p_sendMsg (take 36 (msg_bytes example_msg)))) 1)
     (LinkinterfaceUART_new 1000) = Some (True, wire, [], l')"
  using uart_link_delivers [OF example_sizes(1,1),
      where rs = "replicate (length (s3p_sendMsg (take 36 (msg_bytes example_msg)))) 1" and l = "LinkinterfaceUART_new 1000"]
  by (simp add: example_sizes HEADER_SIZE_def MAX_UART_MESSAGE_LENGTH_def MAX_NETWORK_MESSAGE_LENGTH_def)

text \<open>
  A message of the allowed size whose frame is longer than 1300 bytes, header included, is cut by the
  receiving link and then dropped by its gateway, though the sender was told that it was sent.
\<close>

lemma uart_link_drops_long_messages:
  assumes "wf_msg m" "wf_msg inMsg" "MAX_UART_MESSAGE_LENGTH < HEADER_SIZE + unat (get_len m)"
    "unat (get_len m) \<le> MAX_NETWORK_MESSAGE_LENGTH" "g < length (nd_gateways nd)"
  shows "\<exists>inMsg' n. uart_getNetworkMsg (s3p_sendMsg (take (unat (numberOfBytesToSend m)) (msg_bytes m)) @ rest) inMsg =
      Some (True, n, inMsg', rest) \<and> gateway_receive g inMsg' n nd = Some (set_inMessage g inMsg' nd)"
proof -
  let ?N = "HEADER_SIZE + unat (get_len m)"
  have N: "unat (numberOfBytesToSend m) = ?N" "length (take ?N (msg_bytes m)) = ?N"
    using bytes_to_send [OF assms(4)] assms(1,4) by (simp_all add: length_msg_bytes)
  obtain inMsg' where i: "uart_getNetworkMsg (s3p_sendMsg (take ?N (msg_bytes m)) @ rest) inMsg =
      Some (True, int MAX_UART_MESSAGE_LENGTH, inMsg', rest)" "wf_msg inMsg'"
    "take MAX_UART_MESSAGE_LENGTH (msg_bytes inMsg') = take MAX_UART_MESSAGE_LENGTH (take ?N (msg_bytes m))"
    using getNetworkMsg_frame [OF assms(2), of "take ?N (msg_bytes m)" rest] N(2) assms(3) by (auto simp: min_absorb1)
  have "take HEADER_SIZE (take MAX_UART_MESSAGE_LENGTH (msg_bytes inMsg')) = take HEADER_SIZE (take ?N (msg_bytes m))"
    unfolding i(3) by (simp add: HEADER_SIZE_def MAX_UART_MESSAGE_LENGTH_def MAX_NETWORK_MESSAGE_LENGTH_def)
  then have "header inMsg' = header m"
    using i(2) assms(1) by (simp add: msg_bytes_def wf_msg_def HEADER_SIZE_def MAX_UART_MESSAGE_LENGTH_def MAX_NETWORK_MESSAGE_LENGTH_def)
  then have "numberOfBytesToSend inMsg' = numberOfBytesToSend m" by (simp add: numberOfBytesToSend_def get_len_def read_at_def)
  then have "uint (numberOfBytesToSend inMsg') = int ?N" using N(1) by (metis uint_nat)
  then have "int MAX_UART_MESSAGE_LENGTH \<noteq> uint (numberOfBytesToSend inMsg')" using assms(3) by linarith
  then have "gateway_receive g inMsg' (int MAX_UART_MESSAGE_LENGTH) nd = Some (set_inMessage g inMsg' nd)"
    using assms(3,5) by (simp add: gateway_receive_def Let_def)
  then show ?thesis using i(1) N(1) by auto
qed


lemma uart_link_drops_long_messages_witness:
  "\<exists>inMsg' n. uart_getNetworkMsg (s3p_sendMsg (take (unat (numberOfBytesToSend (put_len 1300 example_msg))) (msg_bytes (put_len 1300 example_msg))) @ [])
     example_msg = Some (True, n, inMsg', []) \<and> gateway_receive 0 inMsg' n (example_node 1) = Some (set_inMessage 0 inMsg' (example_node 1))"
  by (rule uart_link_drops_long_messages [OF example_sizes(3,1)])
    (simp_all add: example_sizes(4) HEADER_SIZE_def MAX_UART_MESSAGE_LENGTH_def MAX_NETWORK_MESSAGE_LENGTH_def example_node_def)

text \<open>
  C4. Publishing over a serial line: what is put on a gateway is sent as a message, completely if the UART
  accepts every byte; and whenever the link has sent it completely, the gateway at the other end of the line delivers exactly the published data with the
  information of the sender to all receivers of the topic, and leaves the rest of the line to the next message.
\<close>

theorem published_over_uart:
  assumes "ready_to_send A a data len i" "HEADER_SIZE + len \<le> MAX_UART_MESSAGE_LENGTH"
    and "msgtype_of (msgtype_code (messageType i)) = messageType i" "ready_to_receive B b tid (senderNode i) (sentTime i) len"
  shows "\<exists>A' m. Gateway_put a tid len data i A = Some (1, A') \<and> gw_sent (nd_gateways A' ! a) = gw_sent (nd_gateways A ! a) @ [m] \<and>
    (\<exists>k. \<forall>rs l. k \<le> length rs \<and> (\<forall>r \<in> set rs. 0 < r) \<longrightarrow> (\<exists>wire rs' l'. uart_sendNetworkMsg m rs l = Some (True, wire, rs', l'))) \<and>
    (\<forall>rs l wire rs' l' inMsg rest. uart_sendNetworkMsg m rs l = Some (True, wire, rs', l') \<and> wf_msg inMsg \<longrightarrow>
      (\<exists>n m' B'. uart_getNetworkMsg (wire @ rest) inMsg = Some (True, n, m', rest) \<and> gateway_receive b m' n B = Some B' \<and>
        delivered B tid (take len data) (i\<lparr>linkId := linkIdentifier (nd_gateways B ! b)\<rparr>) B'))"
proof -
  obtain A' m where m: "Gateway_put a tid len data i A = Some (1, A')" "gw_sent (nd_gateways A' ! a) = gw_sent (nd_gateways A ! a) @ [m]"
    "wf_msg m" "unat (get_len m) = len"
    "\<forall>n m'. uart_crosses m n m' \<longrightarrow> (\<exists>B'. gateway_receive b m' n B = Some B' \<and>
        delivered B tid (take len data) (i\<lparr>linkId := linkIdentifier (nd_gateways B ! b)\<rparr>) B')"
    using uart.published_with_info [OF assms(1,3,4)] by blast
  have fits: "HEADER_SIZE + unat (get_len m) \<le> MAX_UART_MESSAGE_LENGTH" using assms(2) m(4) by simp
  then have len: "unat (get_len m) \<le> MAX_NETWORK_MESSAGE_LENGTH" by (simp add: MAX_UART_MESSAGE_LENGTH_def)
  have "\<exists>n m' B'. uart_getNetworkMsg (wire @ rest) inMsg = Some (True, n, m', rest) \<and> gateway_receive b m' n B = Some B' \<and>
        delivered B tid (take len data) (i\<lparr>linkId := linkIdentifier (nd_gateways B ! b)\<rparr>) B'"
    if s: "uart_sendNetworkMsg m rs l = Some (True, wire, rs', l')" "wf_msg inMsg" for rs l wire rs' l' inMsg rest
  proof -
    have "wire = s3p_sendMsg (sent_bytes m)" using uart_sent(1) [OF m(3) len s(1)] by simp
    then obtain n m' where "uart_getNetworkMsg (wire @ rest) inMsg = Some (True, n, m', rest)"
      using uart_got [OF m(3) s(2) fits, of rest] by blast
    moreover from this have "uart_crosses m n m'" using m(3) fits s unfolding uart_crosses_def by blast
    ultimately show ?thesis using m(5) by blast
  qed
  moreover have "\<exists>wire rs' l'. uart_sendNetworkMsg m rs l = Some (True, wire, rs', l')"
    if "length (s3p_sendMsg (sent_bytes m)) \<le> length rs" "\<forall>r \<in> set rs. 0 < r" for rs l
    using uart_send_ready [OF m(3) len that] .
  ultimately show ?thesis using m(1,2) by blast
qed

theorem published_over_uart_witness:
  "\<exists>A' m rs wire rs' l' n m' B'. Gateway_put 0 2000 3 [1, 2, 3] example_info (example_node 5) = Some (1, A') \<and>
    gw_sent (nd_gateways A' ! 0) = gw_sent (nd_gateways (example_node 5) ! 0) @ [m] \<and>
    uart_sendNetworkMsg m rs (LinkinterfaceUART_new 1000) = Some (True, wire, rs', l') \<and>
    uart_getNetworkMsg (wire @ [7]) example_msg = Some (True, n, m', [7]) \<and> gateway_receive 1 m' n (example_node 1) = Some B' \<and>
    delivered (example_node 1) 2000 [1, 2, 3] (example_info\<lparr>linkId := linkIdentifier (nd_gateways (example_node 1) ! 1)\<rparr>) B'"
proof -
  have "HEADER_SIZE + 3 \<le> MAX_UART_MESSAGE_LENGTH" by (simp add: HEADER_SIZE_def MAX_UART_MESSAGE_LENGTH_def MAX_NETWORK_MESSAGE_LENGTH_def)
  from published_over_uart [OF example_ends(1) this example_ends(2,3)] obtain A' m k where
    1: "Gateway_put 0 2000 3 [1, 2, 3] example_info (example_node 5) = Some (1, A')"
      "gw_sent (nd_gateways A' ! 0) = gw_sent (nd_gateways (example_node 5) ! 0) @ [m]" and
    2: "\<forall>rs l. k \<le> length rs \<and> (\<forall>r \<in> set rs. 0 < r) \<longrightarrow> (\<exists>wire rs' l'. uart_sendNetworkMsg m rs l = Some (True, wire, rs', l'))" and
    3: "\<forall>rs l wire rs' l' inMsg rest. uart_sendNetworkMsg m rs l = Some (True, wire, rs', l') \<and> wf_msg inMsg \<longrightarrow>
      (\<exists>n m' B'. uart_getNetworkMsg (wire @ rest) inMsg = Some (True, n, m', rest) \<and> gateway_receive 1 m' n (example_node 1) = Some B' \<and>
        delivered (example_node 1) 2000 (take 3 [1, 2, 3]) (example_info\<lparr>linkId := linkIdentifier (nd_gateways (example_node 1) ! 1)\<rparr>) B')"
    by blast
  from 2 have "\<exists>wire rs' l'. uart_sendNetworkMsg m (replicate k 1) (LinkinterfaceUART_new 1000) = Some (True, wire, rs', l')" by simp
  then obtain wire rs' l' where s: "uart_sendNetworkMsg m (replicate k 1) (LinkinterfaceUART_new 1000) = Some (True, wire, rs', l')" by blast
  with 3 example_sizes(1) have "\<exists>n m' B'. uart_getNetworkMsg (wire @ [7]) example_msg = Some (True, n, m', [7]) \<and>
      gateway_receive 1 m' n (example_node 1) = Some B' \<and>
      delivered (example_node 1) 2000 (take 3 [1, 2, 3]) (example_info\<lparr>linkId := linkIdentifier (nd_gateways (example_node 1) ! 1)\<rparr>) B'"
    by blast
  moreover have "take 3 [1, 2, 3 :: u8] = [1, 2, 3]" by simp
  ultimately show ?thesis using 1 s by metis
qed

end
