(* ===== verification/Tokenizer.thy ===== *)
theory Tokenizer
  imports Yprintf
begin

text \<open>
  Reading words and numbers from a line of text (\<open>support-libs/scanf-substitue.cpp\<close>). The tokenizer cuts the
  text it works on: the memory is the list of the bytes of the buffer, a pointer is an index into it,
  the null pointer \<open>None\<close>, and an access outside of the buffer makes the result \<open>None\<close>.
\<close>

section \<open>The code\<close>

record Tokenizer =
  tk_text :: "u8 list"
  tk_ptr :: "nat option"
  tk_separators :: "u8 list"

text \<open>The separators blank, comma, semicolon and newline, with their terminating zero.\<close>

definition Tokenizer_new :: Tokenizer where
  "Tokenizer_new = \<lparr>tk_text = [], tk_ptr = None, tk_separators = [32, 44, 59, 10, 0]\<rparr>"

definition Tokenizer_init :: "u8 list \<Rightarrow> Tokenizer \<Rightarrow> Tokenizer" where
  "Tokenizer_init s t = t\<lparr>tk_text := s, tk_ptr := Some 0\<rparr>"

definition setSeparators :: "u8 list \<Rightarrow> Tokenizer \<Rightarrow> Tokenizer" where
  "setSeparators s t = t\<lparr>tk_separators := s\<rparr>"

fun isSeparator_loop :: "u8 list \<Rightarrow> u8 \<Rightarrow> bool" where
  "isSeparator_loop [] c = False"
| "isSeparator_loop (s # ss) c = (if s = 0 then False else if c = s then True else isSeparator_loop ss c)"

definition isSeparator :: "Tokenizer \<Rightarrow> u8 \<Rightarrow> bool" where
  "isSeparator t c = isSeparator_loop (tk_separators t) c"

text \<open>The first index from \<open>i\<close> on whose byte does not satisfy a test.\<close>

function advance_while :: "(u8 \<Rightarrow> bool) \<Rightarrow> u8 list \<Rightarrow> nat \<Rightarrow> nat option" where
  "advance_while P text i = (if i < length text then if P (text ! i) then advance_while P text (i + 1) else Some i else None)"
  by pat_completeness auto
termination by (relation "measure (\<lambda>(_, text, i). length text - i)") auto

declare advance_while.simps [simp del]

definition tk_next :: "Tokenizer \<Rightarrow> (nat option \<times> Tokenizer) option" where
  "tk_next t =
     (case tk_ptr t of None \<Rightarrow> Some (None, t)
      | Some p \<Rightarrow>
          if p \<ge> length (tk_text t) then None
          else if tk_text t ! p = 0 then Some (None, t)
          else do {
            p \<leftarrow> advance_while (isSeparator t) (tk_text t) p;
            let t = t\<lparr>tk_ptr := Some p\<rparr>;
            if tk_text t ! p = 0 then Some (None, t)
            else do {
              q \<leftarrow> advance_while (\<lambda>c. c \<noteq> 0 \<and> \<not> isSeparator t c) (tk_text t) p;
              let t = t\<lparr>tk_ptr := Some q\<rparr>;
              if tk_text t ! q \<noteq> 0 then Some (Some p, t\<lparr>tk_text := (tk_text t)[q := 0], tk_ptr := Some (q + 1)\<rparr>)
              else Some (Some p, t)
            }
          })"

fun getAll :: "nat \<Rightarrow> Tokenizer \<Rightarrow> (nat option list \<times> Tokenizer) option" where
  "getAll 0 t = Some ([], t)"
| "getAll (Suc n) t = do {
     (p, t) \<leftarrow> tk_next t;
     (ps, t) \<leftarrow> getAll n t;
     Some (p # ps, t)
   }"

fun s2int_loop :: "u8 list \<Rightarrow> int \<Rightarrow> int option" where
  "s2int_loop [] retVal = None"
| "s2int_loop (c # s) retVal =
     (if c \<ge> 48 \<and> c \<le> 57 then s2int_loop s (i64 (retVal * 10 + uint (c - 48))) else Some retVal)"

definition s2int :: "u8 list \<Rightarrow> int option" where
  "s2int s =
     (case s of [] \<Rightarrow> None
      | c # cs \<Rightarrow>
          if c = 45 then map_option (\<lambda>v. i64 (- v)) (s2int_loop cs 0) else s2int_loop s 0)"

text \<open>The offset behind the terminator, or null, and the destination.\<close>

fun strCpy_loop :: "u8 list \<Rightarrow> u8 list \<Rightarrow> nat \<Rightarrow> u8 \<Rightarrow> (nat option \<times> u8 list) option" where
  "strCpy_loop dest [] i terminator = None"
| "strCpy_loop dest (c # source) i terminator =
     (if c = 0 then Some (None, dest)
      else if c = terminator \<or> c = 10 then Some (Some (i + 1), dest)
      else if i + 1 \<ge> length dest then None
      else strCpy_loop (dest[i := c, i + 1 := 0]) source (i + 1) terminator)"

definition strCpyUntilChar :: "u8 list \<Rightarrow> u8 list option \<Rightarrow> u8 \<Rightarrow> (nat option \<times> u8 list) option" where
  "strCpyUntilChar dest source terminator =
     (case source of None \<Rightarrow> Some (None, dest)
      | Some s \<Rightarrow> if dest = [] then None else strCpy_loop (dest[0 := 0]) s 0 terminator)"

section \<open>Tokens\<close>

text \<open>The words of a text: the maximal runs without separators.\<close>

function tokens :: "(u8 \<Rightarrow> bool) \<Rightarrow> u8 list \<Rightarrow> u8 list list" where
  "tokens sep xs =
     (case dropWhile sep xs of [] \<Rightarrow> []
      | y # ys \<Rightarrow> (y # takeWhile (\<lambda>c. \<not> sep c) ys) # tokens sep (dropWhile (\<lambda>c. \<not> sep c) ys))"
  by pat_completeness auto
termination
proof (relation "measure (\<lambda>(_, xs). length xs)")
  fix sep :: "u8 \<Rightarrow> bool" and xs y ys assume "dropWhile sep xs = y # ys"
  then have "length (y # ys) \<le> length xs" by (metis length_dropWhile_le)
  moreover have "length (dropWhile (\<lambda>c. \<not> sep c) ys) \<le> length ys" by (rule length_dropWhile_le)
  ultimately show "((sep, dropWhile (\<lambda>c. \<not> sep c) ys), sep, xs) \<in> measure (\<lambda>(_, xs). length xs)" by simp
qed simp

declare tokens.simps [simp del]

lemma tokens_skip: "sep c \<Longrightarrow> tokens sep (c # xs) = tokens sep xs"
  by (simp add: tokens.simps [of sep "c # xs"] tokens.simps [of sep xs])

text \<open>A text in the buffer from an index on, with its terminating zero.\<close>

lemma advance_while_run:
  "text = pre @ xs @ rest \<Longrightarrow> \<forall>c \<in> set xs. P c \<Longrightarrow> rest \<noteq> [] \<Longrightarrow> \<not> P (hd rest) \<Longrightarrow>
   advance_while P text (length pre) = Some (length pre + length xs)"
proof (induction xs arbitrary: pre)
  case Nil
  then show ?case by (subst advance_while.simps) (cases rest; simp add: nth_append)
next
  case (Cons x xs)
  have "advance_while P text (length (pre @ [x])) = Some (length (pre @ [x]) + length xs)"
    by (rule Cons.IH) (use Cons.prems in auto)
  then show ?case using Cons.prems by (subst advance_while.simps) (simp add: nth_append)
qed

lemma separator_zero: "\<not> isSeparator t 0"
proof -
  have "\<not> isSeparator_loop ss 0" for ss by (induction ss) auto
  then show ?thesis by (simp add: isSeparator_def)
qed


lemma c_string_chars: "0 \<notin> set w \<Longrightarrow> c_string (w @ 0 # r) = Some w"
  by (induction w) auto

lemma getAll_end:
  "tk_ptr t = Some p \<Longrightarrow> p < length (tk_text t) \<Longrightarrow> tk_text t ! p = 0 \<Longrightarrow> getAll n t = Some (replicate n None, t)"
  by (induction n) (auto simp: tk_next_def)

lemma next_none:
  assumes buf: "tk_text t = pre @ xs @ 0 # post" and ptr: "tk_ptr t = Some (length pre)"
    and none: "\<forall>c \<in> set xs. isSeparator t c"
  shows "tk_next t = Some (None, t\<lparr>tk_ptr := Some (length pre + length xs)\<rparr>)"
proof (cases xs)
  case Nil
  then show ?thesis using buf ptr by (cases t) (simp add: tk_next_def nth_append)
next
  case (Cons x ys)
  then have "x \<noteq> 0" using none separator_zero [of t] by auto
  moreover have "advance_while (isSeparator t) (tk_text t) (length pre) = Some (length pre + length xs)"
    using advance_while_run [OF buf none] separator_zero by simp
  ultimately show ?thesis using buf ptr Cons by (simp add: tk_next_def nth_append)
qed

text \<open>The text in front of a token, the token and what follows; \<open>rest'\<close> is what is left to read.\<close>

lemma next_some:
  assumes buf: "tk_text t = pre @ (sp @ tok @ rest) @ 0 # post" and ptr: "tk_ptr t = Some (length pre)"
    and zero: "0 \<notin> set (sp @ tok @ rest)" and sp: "\<forall>c \<in> set sp. isSeparator t c"
    and tok: "tok \<noteq> []" "\<forall>c \<in> set tok. \<not> isSeparator t c" and rest: "rest \<noteq> [] \<longrightarrow> isSeparator t (hd rest)"
  shows "tk_next t = Some (Some (length (pre @ sp)),
    if rest = [] then t\<lparr>tk_ptr := Some (length (pre @ sp @ tok))\<rparr>
    else t\<lparr>tk_text := (pre @ sp @ tok @ [0]) @ tl rest @ 0 # post, tk_ptr := Some (length (pre @ sp @ tok @ [0]))\<rparr>)"
proof -
  let ?text = "tk_text t"
  obtain y ys where y: "tok = y # ys" using tok(1) by (cases tok) auto
  have first: "?text ! length pre \<noteq> 0" "length pre < length ?text"
    using buf zero y by (cases sp; auto simp: nth_append)+
  have a1: "advance_while (isSeparator t) ?text (length pre) = Some (length (pre @ sp))"
    using advance_while_run [of ?text pre sp "tok @ rest @ 0 # post" "isSeparator t"] buf sp tok y by simp
  have a2: "advance_while (\<lambda>c. c \<noteq> 0 \<and> \<not> isSeparator t c) ?text (length (pre @ sp)) = Some (length (pre @ sp) + length tok)"
    by (rule advance_while_run [where rest = "rest @ 0 # post"]) (use buf zero tok(2) rest in \<open>auto simp: hd_append\<close>)
  have ny: "?text ! length (pre @ sp) = y" "y \<noteq> 0" using buf zero y by (auto simp: nth_append)
  have nq: "?text ! (length (pre @ sp) + length tok) = hd (rest @ [0])"
    using buf by (cases rest) (auto simp: nth_append)
  have upd: "?text[length (pre @ sp) + length tok := 0] = (pre @ sp @ tok @ [0]) @ tl rest @ 0 # post" if "rest \<noteq> []"
    using that buf by (cases rest) (auto simp: list_update_append)
  have h: "rest \<noteq> [] \<Longrightarrow> hd rest \<noteq> 0" using zero by (cases rest) auto
  have iss: "isSeparator (t\<lparr>tk_ptr := p\<rparr>) = isSeparator t" for p by (simp add: isSeparator_def fun_eq_iff)
  show ?thesis
    using ptr first a1 a2 ny nq upd h
    by (cases "rest = []") (simp_all add: tk_next_def iss add.assoc)
qed


definition token_at :: "u8 list \<Rightarrow> nat option \<Rightarrow> u8 list option option" where
  "token_at buf p = map_option (\<lambda>i. c_string (drop i buf)) p"

lemma split_token:
  assumes "dropWhile sep xs = y # ys"
  obtains sp tok rest where "xs = sp @ tok @ rest" "\<forall>c \<in> set sp. sep c" "tok = y # takeWhile (\<lambda>c. \<not> sep c) ys"
    "\<forall>c \<in> set tok. \<not> sep c" "rest \<noteq> [] \<longrightarrow> sep (hd rest)" "rest = dropWhile (\<lambda>c. \<not> sep c) ys"
proof
  let ?sp = "takeWhile sep xs" and ?tok = "y # takeWhile (\<lambda>c. \<not> sep c) ys" and ?rest = "dropWhile (\<lambda>c. \<not> sep c) ys"
  have "xs = ?sp @ (y # ys)" using assms takeWhile_dropWhile_id [of sep xs] by simp
  then show "xs = ?sp @ ?tok @ ?rest" by simp
  show "\<forall>c \<in> set ?sp. sep c" by (auto dest: set_takeWhileD)
  have "\<not> sep y" using assms by (metis hd_dropWhile list.sel(1) list.distinct(1))
  then show "\<forall>c \<in> set ?tok. \<not> sep c" by (auto dest: set_takeWhileD)
  show "?rest \<noteq> [] \<longrightarrow> sep (hd ?rest)" using hd_dropWhile [of "\<lambda>c. \<not> sep c" ys] by auto
qed auto

lemma take_pad: "take n (xs @ x # replicate n x) = take n (xs @ replicate n x)" "take n (x # replicate n x) = replicate n x"
proof -
  have "x # replicate n x = replicate n x @ [x]" by (rule replicate_append_same [symmetric])
  then show "take n (xs @ x # replicate n x) = take n (xs @ replicate n x)" "take n (x # replicate n x) = replicate n x" by simp_all
qed

lemma take_pad_Cons: "take (Suc n) (map f (w # ws) @ replicate (Suc n) x) = f w # take n (map f ws @ replicate n x)"
  by (simp only: list.map append_Cons take_Suc_Cons replicate_Suc take_pad(1))

lemma token_at_simps [simp]: "token_at buf None = None" "token_at buf (Some i) = Some (c_string (drop i buf))"
  by (simp_all add: token_at_def)

lemma getAll_tokens:
  assumes "tk_text t = pre @ xs @ 0 # post" "tk_ptr t = Some (length pre)" "0 \<notin> set xs"
  shows "\<exists>ps t'. getAll n t = Some (ps, t') \<and> take (length pre) (tk_text t') = pre \<and> (xs = [] \<longrightarrow> tk_text t' = tk_text t) \<and>
    map (token_at (tk_text t')) ps = take n (map (\<lambda>w. Some (Some w)) (tokens (isSeparator t) xs) @ replicate n None)"
  using assms
proof (induction n arbitrary: t pre xs)
  case (Suc n)
  let ?sep = "isSeparator t"
  show ?case
  proof (cases "dropWhile ?sep xs")
    case Nil
    let ?t = "t\<lparr>tk_ptr := Some (length pre + length xs)\<rparr>"
    have "tk_next t = Some (None, ?t)" using next_none [OF Suc.prems(1,2)] Nil by (simp add: dropWhile_eq_Nil_conv)
    moreover have "getAll n ?t = Some (replicate n None, ?t)"
      by (rule getAll_end [where p = "length pre + length xs"]) (use Suc.prems in \<open>auto simp: nth_append\<close>)
    moreover have "tokens ?sep xs = []" by (subst tokens.simps) (simp only: Nil list.case)
    ultimately show ?thesis using Suc.prems(1) by simp
  next
    case (Cons y ys)
    from split_token [OF Cons] obtain sp tok rest where st: "xs = sp @ tok @ rest" "\<forall>c \<in> set sp. ?sep c"
      "tok = y # takeWhile (\<lambda>c. \<not> ?sep c) ys" "\<forall>c \<in> set tok. \<not> ?sep c" "rest \<noteq> [] \<longrightarrow> ?sep (hd rest)"
      "rest = dropWhile (\<lambda>c. \<not> ?sep c) ys" by blast
    have toks: "tokens ?sep xs = tok # tokens ?sep rest" using Cons st(3,6) by (subst tokens.simps) simp
    note next' = next_some [OF Suc.prems(1) [unfolded st(1)] Suc.prems(2) Suc.prems(3) [unfolded st(1)] st(2) _ st(4,5)]
    have zero: "0 \<notin> set tok" "0 \<notin> set rest" using Suc.prems(3) st(1) by auto
    show ?thesis
    proof (cases "rest = []")
      case True
      let ?t = "t\<lparr>tk_ptr := Some (length (pre @ sp @ tok))\<rparr>"
      have "tk_next t = Some (Some (length (pre @ sp)), ?t)" using next' True st(3) by simp
      moreover have "getAll n ?t = Some (replicate n None, ?t)"
        by (rule getAll_end [where p = "length (pre @ sp @ tok)"]) (use Suc.prems st(1) True in \<open>auto simp: nth_append\<close>)
      moreover have "tokens ?sep rest = []" using True by (simp add: tokens.simps)
      moreover have "c_string (drop (length (pre @ sp)) (tk_text t)) = Some tok"
        using Suc.prems(1) st(1) True c_string_chars [OF zero(1)] by simp
      ultimately show ?thesis using Suc.prems(1) st(1,3) unfolding toks take_pad_Cons by (simp add: take_pad)
    next
      case False
      let ?pre = "pre @ sp @ tok @ [0]"
      let ?t = "t\<lparr>tk_text := ?pre @ tl rest @ 0 # post, tk_ptr := Some (length ?pre)\<rparr>"
      have n1: "tk_next t = Some (Some (length (pre @ sp)), ?t)" using next' False st(3) by simp
      have iss: "isSeparator ?t = ?sep" by (simp add: isSeparator_def fun_eq_iff)
      have "\<exists>ps t'. getAll n ?t = Some (ps, t') \<and> take (length ?pre) (tk_text t') = ?pre \<and> (tl rest = [] \<longrightarrow> tk_text t' = tk_text ?t) \<and>
        map (token_at (tk_text t')) ps = take n (map (\<lambda>w. Some (Some w)) (tokens (isSeparator ?t) (tl rest)) @ replicate n None)"
        by (rule Suc.IH) (use zero(2) False in \<open>auto dest: list.set_sel(2)\<close>)
      then obtain ps t' where p: "getAll n ?t = Some (ps, t')" "take (length ?pre) (tk_text t') = ?pre"
        "map (token_at (tk_text t')) ps = take n (map (\<lambda>w. Some (Some w)) (tokens ?sep (tl rest)) @ replicate n None)"
        unfolding iss by blast
      obtain more where more: "tk_text t' = ?pre @ more" using p(2) by (metis append_take_drop_id)
      have "tokens ?sep (tl rest) = tokens ?sep rest" using tokens_skip [of ?sep "hd rest" "tl rest"] st(5) False by simp
      moreover have "c_string (drop (length (pre @ sp)) (tk_text t')) = Some tok"
        using more c_string_chars [OF zero(1)] by simp
      ultimately show ?thesis using n1 p(1,3) more st(1,3) unfolding toks take_pad_Cons by simp
    qed
  qed
qed simp

lemma horner_bound: "0 \<le> acc \<Longrightarrow> 0 \<le> horner acc cs"
  using horner_ge [of acc cs] by simp

lemma s2int_loop_digits:
  "\<forall>c \<in> set cs. isdigit c \<Longrightarrow> 0 \<le> acc \<Longrightarrow> horner acc cs < 2 ^ 63 \<Longrightarrow> \<not> isdigit e \<Longrightarrow>
   s2int_loop (cs @ e # r) acc = Some (horner acc cs)"
proof (induction cs arbitrary: acc)
  case Nil
  then show ?case by (auto simp: isdigit_def)
next
  case (Cons c cs)
  have le: "acc * 10 + uint (c - 48) \<le> horner (acc * 10 + uint (c - 48)) cs" using horner_ge Cons.prems(2) by simp
  moreover have "0 \<le> uint (c - 48)" by simp
  ultimately have "in_i64 (acc * 10 + uint (c - 48))" using Cons.prems(2,3) unfolding in_i64_def horner_simps by linarith
  then show ?case using Cons by (simp add: isdigit_def)
qed

section \<open>Properties\<close>

text \<open>
  Calling \<open>next\<close> again and again on a text returns pointers to exactly the words of the text, in order, each
  terminated by a zero in the buffer and not damaged by the later calls, and then null pointers.
\<close>

lemma tokenizer_splits:
  assumes "0 \<notin> set xs"
  shows "\<exists>ps t'. getAll n (Tokenizer_init (xs @ 0 # post) t) = Some (ps, t') \<and>
    map (token_at (tk_text t')) ps = take n (map (\<lambda>w. Some (Some w)) (tokens (isSeparator t) xs) @ replicate n None)"
proof -
  have "isSeparator (Tokenizer_init (xs @ 0 # post) t) = isSeparator t"
    by (simp add: isSeparator_def Tokenizer_init_def fun_eq_iff)
  then show ?thesis
    using getAll_tokens [of "Tokenizer_init (xs @ 0 # post) t" "[]" xs post n] assms by (auto simp: Tokenizer_init_def)
qed

lemma tokenizer_splits_witness:
  "\<exists>ps t'. getAll 3 (Tokenizer_init [97, 32, 44, 98, 99, 0] Tokenizer_new) = Some (ps, t') \<and>
     map (token_at (tk_text t')) ps = [Some (Some [97]), Some (Some [98, 99]), None]"
  using tokenizer_splits [of "[97, 32, 44, 98, 99]" 3 "[]" Tokenizer_new]
  by (simp add: tokens.simps isSeparator_def Tokenizer_new_def numeral_3_eq_3)

text \<open>\<open>s2int\<close> reads back what \<open>%lld\<close> prints, whatever character follows the digits.\<close>

lemma s2int_decimal:
  assumes "in_i64 v" "v \<noteq> - (2 ^ 63)" "\<not> isdigit e"
  shows "s2int ((if v < 0 then [45] else []) @ map digit_char (to_digits 10 (nat \<bar>v\<bar>)) @ e # r) = Some v"
proof -
  let ?cs = "map digit_char (to_digits 10 (nat \<bar>v\<bar>))"
  have cs: "\<forall>c \<in> set ?cs. isdigit c" "horner 0 ?cs = \<bar>v\<bar>" using decimal_chars horner_decimal [of "nat \<bar>v\<bar>"] by auto
  have loop: "s2int_loop (?cs @ e # r) 0 = Some \<bar>v\<bar>"
    using s2int_loop_digits [OF cs(1), of 0 e r] cs(2) assms by (auto simp: in_i64_def)
  obtain d ds where d: "?cs = d # ds" by (cases ?cs) auto
  then have "d \<noteq> 45" using cs(1) digit_not_sign by auto
  then show ?thesis using loop assms(1) unfolding d by (auto simp: s2int_def)
qed

end
