(* ===== verification/Sync_Fifo.thy ===== *)
theory Sync_Fifo
  imports Fifo Time_Model
begin

text \<open>
  The blocking fifo \<open>SyncFifo\<close> of \<open>api/fifo.h\<close>, for one writer and one reader thread. \<open>syncPut\<close> and \<open>syncGet\<close> are
  cut at the points where another thread may run: a section under the ceiling priority is one step
  unless the caller suspends itself inside it, and \<open>put\<close> and \<open>get\<close> of the fifo are one step each (their
  interleaving is the subject of the theory \<open>Fifo_Async\<close>). A thread is the time until which it is
  suspended, which \<open>resume\<close> sets to zero.
\<close>

section \<open>The code\<close>

record 'a sync_fifo =
  sf_fifo :: "'a fifo"
  suspendedReader :: "nat option"
  suspendedWriter :: "nat option"
  sf_until :: "nat \<Rightarrow> int"

definition SyncFifo_new :: "'a list \<Rightarrow> 'a sync_fifo" where
  "SyncFifo_new buf = \<lparr>sf_fifo = Fifo_init buf, suspendedReader = None, suspendedWriter = None, sf_until = \<lambda>_. 0\<rparr>"

definition sf_resume :: "nat option \<Rightarrow> 'a sync_fifo \<Rightarrow> 'a sync_fifo" where
  "sf_resume t s = (case t of None \<Rightarrow> s | Some t \<Rightarrow> s\<lparr>sf_until := (sf_until s)(t := 0)\<rparr>)"

definition sf_suspend :: "nat \<Rightarrow> int \<Rightarrow> int \<Rightarrow> 'a sync_fifo \<Rightarrow> 'a sync_fifo" where
  "sf_suspend t now timeout s =
     s\<lparr>sf_until := (sf_until s)(t := if timeout = END_OF_TIME then END_OF_TIME else i64 (now + timeout))\<rparr>"

text \<open>Where a thread is in its call: suspended, behind the first section, before the last section.\<close>

datatype 'a writer_pc = WIdle | WSleep 'a int | WAfter 'a int bool | WEnd bool

datatype 'a reader_pc = RIdle | RSleep int | RAfter int "'a option" | REnd "'a option"

definition syncPut_first :: "nat \<Rightarrow> int \<Rightarrow> 'a \<Rightarrow> int \<Rightarrow> 'a sync_fifo \<Rightarrow> bool \<times> 'a writer_pc \<times> 'a sync_fifo" where
  "syncPut_first me now v timeout s =
     (let (ok, f) = put (sf_fifo s) v;
          s = s\<lparr>sf_fifo := f\<rparr>
      in if ok then (True, WAfter v timeout True, s)
         else let s = s\<lparr>suspendedWriter := Some me\<rparr>
         in if timeout = 0 then (False, WAfter v timeout False, s\<lparr>suspendedWriter := None\<rparr>)
            else (False, WSleep v timeout, sf_suspend me now timeout s))"

definition syncPut_woken :: "'a \<Rightarrow> int \<Rightarrow> 'a sync_fifo \<Rightarrow> 'a writer_pc \<times> 'a sync_fifo" where
  "syncPut_woken v timeout s = (WAfter v timeout False, s\<lparr>suspendedWriter := None\<rparr>)"

text \<open>The first component tells whether an element was put now.\<close>

definition syncPut_second :: "'a \<Rightarrow> int \<Rightarrow> bool \<Rightarrow> 'a sync_fifo \<Rightarrow> bool \<times> 'a writer_pc \<times> 'a sync_fifo" where
  "syncPut_second v timeout ok s =
     (if \<not> ok \<and> timeout > 0 then let (ok, f) = put (sf_fifo s) v in (ok, WEnd ok, s\<lparr>sf_fifo := f\<rparr>)
      else (False, WEnd ok, s))"

definition syncPut_last :: "bool \<Rightarrow> 'a sync_fifo \<Rightarrow> 'a sync_fifo" where
  "syncPut_last ok s = (if ok then sf_resume (suspendedReader s) s else s)"

text \<open>\<open>putGeneric\<close> does not suspend; its resume is the last section of \<open>syncPut\<close>.\<close>

definition sf_putGeneric :: "nat \<Rightarrow> nat \<Rightarrow> 'a \<Rightarrow> 'a sync_fifo \<Rightarrow> bool \<times> 'a writer_pc \<times> 'a sync_fifo" where
  "sf_putGeneric sizeofType msgLen v s =
     (if \<not> msgLen \<le> sizeofType then (False, WIdle, s)
      else let (ok, f) = put (sf_fifo s) v in (ok, WEnd ok, s\<lparr>sf_fifo := f\<rparr>))"

definition syncGet_first :: "nat \<Rightarrow> int \<Rightarrow> int \<Rightarrow> 'a sync_fifo \<Rightarrow> 'a option \<times> 'a reader_pc \<times> 'a sync_fifo" where
  "syncGet_first me now timeout s =
     (let (r, f) = fifo_get (sf_fifo s);
          s = s\<lparr>sf_fifo := f\<rparr>
      in if r \<noteq> None then (r, RAfter timeout r, s)
         else let s = s\<lparr>suspendedReader := Some me\<rparr>
         in if timeout = 0 then (None, RAfter timeout None, s\<lparr>suspendedReader := None\<rparr>)
            else (None, RSleep timeout, sf_suspend me now timeout s))"

definition syncGet_woken :: "int \<Rightarrow> 'a sync_fifo \<Rightarrow> 'a reader_pc \<times> 'a sync_fifo" where
  "syncGet_woken timeout s = (RAfter timeout None, s\<lparr>suspendedReader := None\<rparr>)"

definition syncGet_second :: "int \<Rightarrow> 'a option \<Rightarrow> 'a sync_fifo \<Rightarrow> 'a option \<times> 'a reader_pc \<times> 'a sync_fifo" where
  "syncGet_second timeout r s =
     (if r = None \<and> timeout > 0 then let (r, f) = fifo_get (sf_fifo s) in (r, REnd r, s\<lparr>sf_fifo := f\<rparr>)
      else (None, REnd r, s))"

definition syncGet_last :: "'a option \<Rightarrow> 'a sync_fifo \<Rightarrow> 'a sync_fifo" where
  "syncGet_last r s = (if r \<noteq> None then sf_resume (suspendedWriter s) s else s)"

section \<open>One writer and one reader\<close>

text \<open>Thread 0 is the writer and thread 1 the reader. A suspended thread runs again when its time is over. The
  system records the values that were put and those that were got.\<close>

record 'a sync_system =
  ss_fifo :: "'a sync_fifo"
  ss_writer :: "'a writer_pc"
  ss_reader :: "'a reader_pc"
  ss_put :: "'a list"
  ss_got :: "'a list"

definition did_put :: "'a \<Rightarrow> bool \<times> 'a writer_pc \<times> 'a sync_fifo \<Rightarrow> 'a sync_system \<Rightarrow> 'a sync_system" where
  "did_put v r s = (case r of (ok, pc, f) \<Rightarrow>
     s\<lparr>ss_fifo := f, ss_writer := pc, ss_put := ss_put s @ (if ok then [v] else [])\<rparr>)"

definition did_get :: "'a option \<times> 'a reader_pc \<times> 'a sync_fifo \<Rightarrow> 'a sync_system \<Rightarrow> 'a sync_system" where
  "did_get r s = (case r of (x, pc, f) \<Rightarrow>
     s\<lparr>ss_fifo := f, ss_reader := pc, ss_got := ss_got s @ (case x of None \<Rightarrow> [] | Some v \<Rightarrow> [v])\<rparr>)"

inductive sync_step :: "'a sync_system \<Rightarrow> 'a sync_system \<Rightarrow> bool" where
  put_call: "ss_writer s = WIdle \<Longrightarrow> sync_step s (did_put v (syncPut_first 0 now v timeout (ss_fifo s)) s)"
| put_generic: "ss_writer s = WIdle \<Longrightarrow> sync_step s (did_put v (sf_putGeneric sizeofType msgLen v (ss_fifo s)) s)"
| put_wake: "ss_writer s = WSleep v timeout \<Longrightarrow> sf_until (ss_fifo s) 0 < now \<Longrightarrow> now < END_OF_TIME \<Longrightarrow>
    syncPut_woken v timeout (ss_fifo s) = (pc, f) \<Longrightarrow> sync_step s (s\<lparr>ss_fifo := f, ss_writer := pc\<rparr>)"
| put_retry: "ss_writer s = WAfter v timeout ok \<Longrightarrow> sync_step s (did_put v (syncPut_second v timeout ok (ss_fifo s)) s)"
| put_return: "ss_writer s = WEnd ok \<Longrightarrow> sync_step s (s\<lparr>ss_fifo := syncPut_last ok (ss_fifo s), ss_writer := WIdle\<rparr>)"
| get_call: "ss_reader s = RIdle \<Longrightarrow> sync_step s (did_get (syncGet_first 1 now timeout (ss_fifo s)) s)"
| get_wake: "ss_reader s = RSleep timeout \<Longrightarrow> sf_until (ss_fifo s) 1 < now \<Longrightarrow> now < END_OF_TIME \<Longrightarrow>
    syncGet_woken timeout (ss_fifo s) = (pc, f) \<Longrightarrow> sync_step s (s\<lparr>ss_fifo := f, ss_reader := pc\<rparr>)"
| get_retry: "ss_reader s = RAfter timeout r \<Longrightarrow> sync_step s (did_get (syncGet_second timeout r (ss_fifo s)) s)"
| get_return: "ss_reader s = REnd r \<Longrightarrow> sync_step s (s\<lparr>ss_fifo := syncGet_last r (ss_fifo s), ss_reader := RIdle\<rparr>)"

definition sync_start :: "'a list \<Rightarrow> 'a sync_system" where
  "sync_start buf = \<lparr>ss_fifo = SyncFifo_new buf, ss_writer = WIdle, ss_reader = RIdle, ss_put = [], ss_got = []\<rparr>"

inductive sync_reachable :: "'a list \<Rightarrow> 'a sync_system \<Rightarrow> bool" for buf where
  start: "sync_reachable buf (sync_start buf)"
| step: "sync_reachable buf s \<Longrightarrow> sync_step s s' \<Longrightarrow> sync_reachable buf s'"

section \<open>The invariant\<close>

text \<open>A thread that has put or got an element and has not yet resumed the other one.\<close>

fun writer_owes :: "'a writer_pc \<Rightarrow> bool" where
  "writer_owes (WAfter v t ok) = ok"
| "writer_owes (WEnd ok) = ok"
| "writer_owes _ = False"

fun reader_owes :: "'a reader_pc \<Rightarrow> bool" where
  "reader_owes (RAfter t r) = (r \<noteq> None)"
| "reader_owes (REnd r) = (r \<noteq> None)"
| "reader_owes _ = False"

fun w_sleeps :: "'a writer_pc \<Rightarrow> bool" where
  "w_sleeps (WSleep v t) = True" | "w_sleeps _ = False"

fun r_sleeps :: "'a reader_pc \<Rightarrow> bool" where
  "r_sleeps (RSleep t) = True" | "r_sleeps _ = False"

definition sync_inv :: "'a sync_system \<Rightarrow> bool" where
  "sync_inv s \<longleftrightarrow>
     (let f = sf_fifo (ss_fifo s)
      in fifo_inv f \<and> ss_put s = ss_got s @ fifo_list f \<and>
         suspendedWriter (ss_fifo s) = (if w_sleeps (ss_writer s) then Some 0 else None) \<and>
         suspendedReader (ss_fifo s) = (if r_sleeps (ss_reader s) then Some 1 else None) \<and>
         (w_sleeps (ss_writer s) \<and> sf_until (ss_fifo s) 0 \<noteq> 0 \<and> \<not> reader_owes (ss_reader s) \<longrightarrow> isFull f) \<and>
         (r_sleeps (ss_reader s) \<and> sf_until (ss_fifo s) 1 \<noteq> 0 \<and> \<not> writer_owes (ss_writer s) \<longrightarrow> isEmpty f))"

lemma put_result:
  assumes "fifo_inv f" "put f v = (ok, f')"
  shows "fifo_inv f'" "fifo_list f' = fifo_list f @ (if ok then [v] else [])" "ok \<longleftrightarrow> \<not> isFull f"
    "\<not> ok \<Longrightarrow> isFull f'" "\<not> ok \<Longrightarrow> isEmpty f' \<longleftrightarrow> isEmpty f"
  using assms fifo_inv_put [of f v] fifo_list_put [of f v]
  by (auto simp: put_def isFull_def isEmpty_def Let_def fifo_len_def split: if_splits)

lemma get_result:
  assumes "fifo_inv f" "fifo_get f = (r, f')"
  shows "fifo_inv f'" "fifo_list f = (case r of None \<Rightarrow> [] | Some v \<Rightarrow> [v]) @ fifo_list f'" "r = None \<longleftrightarrow> isEmpty f"
    "r = None \<Longrightarrow> isEmpty f'" "r = None \<Longrightarrow> isFull f' \<longleftrightarrow> isFull f"
proof -
  show "fifo_inv f'" using assms fifo_inv_get [of f "buffer f ! 0"] by (auto simp: fifo_get_def split: prod.splits)
  show "fifo_list f = (case r of None \<Rightarrow> [] | Some v \<Rightarrow> [v]) @ fifo_list f'" using fifo_get_cases [OF assms(1)] assms(2) by simp
  show "r = None \<longleftrightarrow> isEmpty f" "r = None \<Longrightarrow> isEmpty f'" "r = None \<Longrightarrow> isFull f' \<longleftrightarrow> isFull f"
    using assms(2) by (auto simp: fifo_get_def get_def isEmpty_def isFull_def fifo_len_def split: if_splits)
qed


lemma sync_invD:
  assumes "sync_inv s"
  shows "fifo_inv (sf_fifo (ss_fifo s))" "ss_put s = ss_got s @ fifo_list (sf_fifo (ss_fifo s))"
    "suspendedWriter (ss_fifo s) = (if w_sleeps (ss_writer s) then Some 0 else None)"
    "suspendedReader (ss_fifo s) = (if r_sleeps (ss_reader s) then Some 1 else None)"
    "w_sleeps (ss_writer s) \<Longrightarrow> sf_until (ss_fifo s) 0 \<noteq> 0 \<Longrightarrow> \<not> reader_owes (ss_reader s) \<Longrightarrow> isFull (sf_fifo (ss_fifo s))"
    "r_sleeps (ss_reader s) \<Longrightarrow> sf_until (ss_fifo s) 1 \<noteq> 0 \<Longrightarrow> \<not> writer_owes (ss_writer s) \<Longrightarrow> isEmpty (sf_fifo (ss_fifo s))"
  using assms by (auto simp: sync_inv_def Let_def)

lemma put_call_inv:
  assumes i: "sync_inv s" and w: "ss_writer s = WIdle"
  shows "sync_inv (did_put v (syncPut_first 0 now v timeout (ss_fifo s)) s)" "sync_inv (did_put v (sf_putGeneric n k v (ss_fifo s)) s)"
proof -
  obtain ok f where p: "put (sf_fifo (ss_fifo s)) v = (ok, f)" by fastforce
  note d = sync_invD [OF i] and r = put_result [OF sync_invD(1) [OF i] p]
  show "sync_inv (did_put v (syncPut_first 0 now v timeout (ss_fifo s)) s)"
    using d r w by (cases ok) (auto simp: sync_inv_def did_put_def syncPut_first_def p sf_suspend_def Let_def)
  show "sync_inv (did_put v (sf_putGeneric n k v (ss_fifo s)) s)"
    using d r w by (cases ok) (auto simp: sync_inv_def did_put_def sf_putGeneric_def p Let_def)
qed

lemma put_retry_inv:
  assumes i: "sync_inv s" and w: "ss_writer s = WAfter v timeout ok"
  shows "sync_inv (did_put v (syncPut_second v timeout ok (ss_fifo s)) s)"
proof -
  obtain ok' f where p: "put (sf_fifo (ss_fifo s)) v = (ok', f)" by fastforce
  note d = sync_invD [OF i] and r = put_result [OF sync_invD(1) [OF i] p]
  show ?thesis
    using d r w by (cases ok'; cases ok) (auto simp: sync_inv_def did_put_def syncPut_second_def p Let_def)
qed

lemma get_call_inv:
  assumes i: "sync_inv s" and w: "ss_reader s = RIdle"
  shows "sync_inv (did_get (syncGet_first 1 now timeout (ss_fifo s)) s)"
proof -
  obtain x f where p: "fifo_get (sf_fifo (ss_fifo s)) = (x, f)" by fastforce
  note d = sync_invD [OF i] and r = get_result [OF sync_invD(1) [OF i] p]
  show ?thesis
    using d r w by (cases x) (auto simp: sync_inv_def did_get_def syncGet_first_def p sf_suspend_def Let_def)
qed

lemma get_retry_inv:
  assumes i: "sync_inv s" and w: "ss_reader s = RAfter timeout y"
  shows "sync_inv (did_get (syncGet_second timeout y (ss_fifo s)) s)"
proof -
  obtain x f where p: "fifo_get (sf_fifo (ss_fifo s)) = (x, f)" by fastforce
  note d = sync_invD [OF i] and r = get_result [OF sync_invD(1) [OF i] p]
  show ?thesis
    using d r w by (cases x; cases y) (auto simp: sync_inv_def did_get_def syncGet_second_def p Let_def)
qed

lemma sync_step_inv: "sync_step s s' \<Longrightarrow> sync_inv s \<Longrightarrow> sync_inv s'"
proof (induction rule: sync_step.induct)
  case (put_wake s v timeout now pc f)
  then show ?case using sync_invD [OF put_wake.prems] by (auto simp: sync_inv_def syncPut_woken_def Let_def)
next
  case (put_return s ok)
  then show ?case using sync_invD [OF put_return.prems]
    by (auto simp: sync_inv_def syncPut_last_def sf_resume_def Let_def split: option.splits)
next
  case (get_wake s timeout now pc f)
  then show ?case using sync_invD [OF get_wake.prems] by (auto simp: sync_inv_def syncGet_woken_def Let_def)
next
  case (get_return s r)
  then show ?case using sync_invD [OF get_return.prems]
    by (auto simp: sync_inv_def syncGet_last_def sf_resume_def Let_def split: option.splits)
qed (rule put_call_inv put_retry_inv get_call_inv get_retry_inv; assumption)+

lemma sync_reachable_inv:
  assumes "2 \<le> length buf" "sync_reachable buf s"
  shows "sync_inv s"
  using assms(2)
proof (induction rule: sync_reachable.induct)
  case start
  show ?case
    using assms(1) by (auto simp: sync_inv_def sync_start_def SyncFifo_new_def Let_def fifo_inv_init Fifo_init_def fifo_list_def getElementCount_def
        fifo_inv_def fifo_len_def)
next
  case (step s s')
  then show ?case using sync_step_inv by blast
qed

section \<open>Properties\<close>


text \<open>A reader that called \<open>syncGet\<close> on the empty fifo.\<close>

lemma reader_waits:
  "sync_reachable [7, 7] (did_get (syncGet_first 1 5 END_OF_TIME (ss_fifo (sync_start [7, 7]))) (sync_start [7, 7]))"
  by (rule sync_reachable.step [OF sync_reachable.start], rule get_call) (simp add: sync_start_def)


end
