(* ===== verification/Debug_Print.thy ===== *)
theory Debug_Print
  imports Yprintf
begin

text \<open>
  The users of the formatted output: the console and the error reports of \<open>src/independent/rodos-debug.cpp\<close>, the
  bounded output into a buffer, and the error log \<open>TimePoints\<close> of \<open>api/timepoints.h\<close>. The console is the list of
  the characters put out; the semaphore that protects it is the number of times it was entered and
  not left. Output into a buffer that writes outside of it has the result \<open>None\<close>. The conversions of
  floating point numbers and the width of \<open>long\<close> are parameters, as in the theory \<open>Yprintf\<close>.
\<close>

section \<open>The error log\<close>

record 'a TimePoints =
  tp_time :: "int list"
  tp_text :: "'a list"
  tp_id :: "int list"
  tp_index :: nat
  tp_addCounter :: u64

definition tp_points :: "'a TimePoints \<Rightarrow> nat" where
  "tp_points t = length (tp_time t)"

definition tp_clear :: "'a TimePoints \<Rightarrow> 'a TimePoints" where
  "tp_clear t = t\<lparr>tp_index := 0\<rparr>"

definition tp_isEmpty :: "'a TimePoints \<Rightarrow> bool" where
  "tp_isEmpty t \<longleftrightarrow> tp_index t = 0"

definition addRaw :: "int \<Rightarrow> 'a \<Rightarrow> int \<Rightarrow> 'a TimePoints \<Rightarrow> (bool \<times> 'a TimePoints) option" where
  "addRaw now name i t =
     (let index = tp_index t
      in if index \<ge> tp_points t then None
         else let t = t\<lparr>tp_time := (tp_time t)[index := now], tp_text := (tp_text t)[index := name], tp_id := (tp_id t)[index := i]\<rparr>
         in if index \<ge> tp_points t - 1 then Some (False, t) else Some (True, t\<lparr>tp_index := index + 1\<rparr>))"

section \<open>Output to the console\<close>

record console =
  printfMask :: u32
  schedulerRunning :: bool
  printfProtector :: int
  con_out :: "u8 list"
  con_flushed :: nat
  printErrorReports :: bool
  rodosErrorMsg :: "u8 list"
  rodosErrorCounter :: u64
  errorLog :: "u8 list TimePoints"

abbreviation protect :: "int \<Rightarrow> console \<Rightarrow> console" where
  "protect d c \<equiv> c\<lparr>printfProtector := printfProtector c + d\<rparr>"

definition console_put :: "u8 list \<Rightarrow> console \<Rightarrow> console" where
  "console_put out c = c\<lparr>con_out := con_out c @ out\<rparr>"

definition FFLUSH :: "console \<Rightarrow> console" where
  "FFLUSH c = c\<lparr>con_flushed := length (con_out c)\<rparr>"

text \<open>The part that \<open>PRINTF\<close> and \<open>PRINTF_CONDITIONAL\<close> share.\<close>

definition protected_print ::
    "(u8 \<Rightarrow> spec \<Rightarrow> u64 \<Rightarrow> u8 list) \<Rightarrow> nat \<Rightarrow> u8 list \<Rightarrow> arg list \<Rightarrow> console \<Rightarrow> console option" where
  "protected_print float_text long_bits fmt args c = do {
     c \<leftarrow> (if \<not> schedulerRunning c then map_option (\<lambda>out. console_put out c) (vaprintf float_text long_bits fmt args)
          else do {
            let c = protect 1 c;
            out \<leftarrow> vaprintf float_text long_bits fmt args;
            let c = console_put out c;
            Some (protect (- 1) c)
          });
     Some (FFLUSH c)
   }"

definition PRINTF :: "(u8 \<Rightarrow> spec \<Rightarrow> u64 \<Rightarrow> u8 list) \<Rightarrow> nat \<Rightarrow> u8 list \<Rightarrow> arg list \<Rightarrow> console \<Rightarrow> console option" where
  "PRINTF float_text long_bits fmt args c =
     (if printfMask c = 0 then Some c else protected_print float_text long_bits fmt args c)"

definition PRINTF_CONDITIONAL ::
    "(u8 \<Rightarrow> spec \<Rightarrow> u64 \<Rightarrow> u8 list) \<Rightarrow> nat \<Rightarrow> u32 \<Rightarrow> u8 list \<Rightarrow> arg list \<Rightarrow> console \<Rightarrow> console option" where
  "PRINTF_CONDITIONAL float_text long_bits i fmt args c =
     (if i \<noteq> 0xffffffff \<and> i AND printfMask c = 0 then Some c else protected_print float_text long_bits fmt args c)"

definition xprintf :: "(u8 \<Rightarrow> spec \<Rightarrow> u64 \<Rightarrow> u8 list) \<Rightarrow> nat \<Rightarrow> u8 list \<Rightarrow> arg list \<Rightarrow> console \<Rightarrow> console option" where
  "xprintf float_text long_bits fmt args c =
     (if printfMask c = 0 then Some c
      else map_option (\<lambda>out. console_put out c) (vaprintf float_text long_bits fmt args))"

text \<open>The format of \<open>RODOS_ERROR\<close>: the colour, a line break, \<open>!! Programm ERROR %s!!\<close> and a line break.\<close>

definition error_format :: "u8 list" where
  "error_format = [27, 91, 51, 49, 109, 10, 33, 33, 32, 80, 114, 111, 103, 114, 97, 109, 109, 32, 69, 82, 82, 79, 82, 32,
     37, 115, 33, 33, 10]"

definition RODOS_ERROR :: "(u8 \<Rightarrow> spec \<Rightarrow> u64 \<Rightarrow> u8 list) \<Rightarrow> nat \<Rightarrow> int \<Rightarrow> u8 list \<Rightarrow> console \<Rightarrow> console option" where
  "RODOS_ERROR float_text long_bits now msg c = do {
     let c = c\<lparr>rodosErrorMsg := msg, rodosErrorCounter := rodosErrorCounter c + 1\<rparr>;
     (_, lg) \<leftarrow> addRaw now msg 0 (errorLog c);
     let c = c\<lparr>errorLog := lg\<rparr>;
     if printErrorReports c then PRINTF float_text long_bits error_format [ArgString msg] c else Some c
   }"

fun hex_loop :: "(u8 \<Rightarrow> spec \<Rightarrow> u64 \<Rightarrow> u8 list) \<Rightarrow> nat \<Rightarrow> u8 list \<Rightarrow> console \<Rightarrow> console option" where
  "hex_loop float_text long_bits [] c = Some c"
| "hex_loop float_text long_bits (v # vals) c =
     Option.bind (PRINTF float_text long_bits [37, 48, 50, 120, 32] [ArgInt (uint v)] c) (hex_loop float_text long_bits vals)"

definition printCharsHex ::
    "(u8 \<Rightarrow> spec \<Rightarrow> u64 \<Rightarrow> u8 list) \<Rightarrow> nat \<Rightarrow> u8 list \<Rightarrow> u8 list \<Rightarrow> console \<Rightarrow> console option" where
  "printCharsHex float_text long_bits titel vals c = do {
     c \<leftarrow> PRINTF float_text long_bits [37, 115] [ArgString titel] c;
     c \<leftarrow> hex_loop float_text long_bits vals c;
     PRINTF float_text long_bits [10] [] c
   }"

definition printCharsHex_Conditional ::
    "(u8 \<Rightarrow> spec \<Rightarrow> u64 \<Rightarrow> u8 list) \<Rightarrow> nat \<Rightarrow> u32 \<Rightarrow> u8 list \<Rightarrow> u8 list \<Rightarrow> console \<Rightarrow> console option" where
  "printCharsHex_Conditional float_text long_bits i titel vals c =
     (if i AND printfMask c = 0 then Some c else printCharsHex float_text long_bits titel vals c)"

section \<open>Output into a buffer\<close>

text \<open>\<open>formatBinary\<close>: a shift by 32 or more is undefined.\<close>

fun binary_loop :: "nat \<Rightarrow> nat \<Rightarrow> u32 \<Rightarrow> u8 list \<Rightarrow> u8 list option" where
  "binary_loop 0 i val outputBuf = (if i < length outputBuf then Some (outputBuf[i := 0]) else None)"
| "binary_loop (Suc n) i val outputBuf =
     (if i < length outputBuf
      then binary_loop n (i + 1) (push_bit 1 val) (outputBuf[i := if val AND 0x80000000 \<noteq> 0 then 49 else 48])
      else None)"

definition formatBinary :: "u32 \<Rightarrow> nat \<Rightarrow> u8 list \<Rightarrow> u8 list option" where
  "formatBinary val len outputBuf =
     (if len = 0 \<or> 32 < len then None else binary_loop len 0 (push_bit (32 - len) val) outputBuf)"

record SNYprintf =
  sny_buf :: "u8 list"
  sny_max_size :: nat
  sny_cur_size :: nat

definition sny_yputc :: "u8 \<Rightarrow> SNYprintf \<Rightarrow> SNYprintf option" where
  "sny_yputc c y =
     (if sny_cur_size y + 1 < sny_max_size y then
        if sny_cur_size y < length (sny_buf y)
        then Some (y\<lparr>sny_buf := (sny_buf y)[sny_cur_size y := c], sny_cur_size := sny_cur_size y + 1\<rparr>) else None
      else Some y)"

fun sny_puts :: "u8 list \<Rightarrow> SNYprintf \<Rightarrow> SNYprintf option" where
  "sny_puts [] y = Some y"
| "sny_puts (c # cs) y = Option.bind (sny_yputc c y) (sny_puts cs)"

text \<open>The destructor terminates the string.\<close>

definition sny_destroy :: "SNYprintf \<Rightarrow> u8 list option" where
  "sny_destroy y =
     (if sny_max_size y \<noteq> 0 then
        if sny_cur_size y < length (sny_buf y) then Some ((sny_buf y)[sny_cur_size y := 0]) else None
      else Some (sny_buf y))"

definition vsnprintf ::
    "(u8 \<Rightarrow> spec \<Rightarrow> u64 \<Rightarrow> u8 list) \<Rightarrow> nat \<Rightarrow> u8 list \<Rightarrow> nat \<Rightarrow> u8 list \<Rightarrow> arg list \<Rightarrow> console \<Rightarrow> (nat \<times> u8 list \<times> console) option" where
  "vsnprintf float_text long_bits dest n fmt args c = do {
     let y = \<lparr>sny_buf = dest, sny_max_size = n, sny_cur_size = 0\<rparr>;
     let c = (if schedulerRunning c then protect 1 c else c);
     out \<leftarrow> vaprintf float_text long_bits fmt args;
     y \<leftarrow> sny_puts out y;
     let c = (if schedulerRunning c then protect (- 1) c else c);
     let written = sny_cur_size y;
     dest \<leftarrow> sny_destroy y;
     Some (written, dest, c)
   }"

definition SNPRINTF ::
    "(u8 \<Rightarrow> spec \<Rightarrow> u64 \<Rightarrow> u8 list) \<Rightarrow> nat \<Rightarrow> u8 list \<Rightarrow> nat \<Rightarrow> u8 list \<Rightarrow> arg list \<Rightarrow> console \<Rightarrow> (nat \<times> u8 list \<times> console) option" where
  "SNPRINTF float_text long_bits dest n fmt args c = vsnprintf float_text long_bits dest n fmt args c"

definition SPRINTF_MAX_SIZE :: nat where
  "SPRINTF_MAX_SIZE = 1000"

definition SPRINTF ::
    "(u8 \<Rightarrow> spec \<Rightarrow> u64 \<Rightarrow> u8 list) \<Rightarrow> nat \<Rightarrow> u8 list \<Rightarrow> u8 list \<Rightarrow> arg list \<Rightarrow> console \<Rightarrow> (u8 list \<times> console) option" where
  "SPRINTF float_text long_bits dest fmt args c =
     map_option snd (vsnprintf float_text long_bits dest SPRINTF_MAX_SIZE fmt args c)"

text \<open>\<open>Ysprintf\<close> and \<open>xsprintf\<close>, without a bound: each character is written with a zero behind it.\<close>

fun ysp_puts :: "u8 list \<Rightarrow> nat \<Rightarrow> u8 list \<Rightarrow> u8 list option" where
  "ysp_puts [] i dest = Some dest"
| "ysp_puts (c # cs) i dest = (if i + 1 < length dest then ysp_puts cs (i + 1) (dest[i := c, i + 1 := 0]) else None)"

definition xsprintf :: "(u8 \<Rightarrow> spec \<Rightarrow> u64 \<Rightarrow> u8 list) \<Rightarrow> nat \<Rightarrow> u8 list \<Rightarrow> u8 list \<Rightarrow> arg list \<Rightarrow> u8 list option" where
  "xsprintf float_text long_bits dest fmt args = do {
     out \<leftarrow> vaprintf float_text long_bits fmt args;
     ysp_puts out 0 dest
   }"

section \<open>Lemmas\<close>

lemma sny_puts_prefix:
  "sny_max_size y \<le> length (sny_buf y) \<Longrightarrow> sny_cur_size y < sny_max_size y \<or> sny_max_size y = 0 \<and> sny_cur_size y = 0 \<Longrightarrow>
   sny_puts out y = Some (let n = min (length out) (sny_max_size y - 1 - sny_cur_size y)
     in y\<lparr>sny_buf := take (sny_cur_size y) (sny_buf y) @ take n out @ drop (sny_cur_size y + n) (sny_buf y),
         sny_cur_size := sny_cur_size y + n\<rparr>)"
proof (induction out arbitrary: y)
  case Nil
  then show ?case by (cases y) simp
next
  case (Cons c cs)
  show ?case
  proof (cases "sny_cur_size y + 1 < sny_max_size y")
    case False
    then have "sny_yputc c y = Some y" "sny_max_size y - 1 - sny_cur_size y = 0" using Cons.prems by (auto simp: sny_yputc_def)
    then show ?thesis using Cons.IH [OF Cons.prems] by (cases y) simp
  next
    case True
    let ?y = "y\<lparr>sny_buf := (sny_buf y)[sny_cur_size y := c], sny_cur_size := sny_cur_size y + 1\<rparr>"
    have y: "sny_yputc c y = Some ?y" using True Cons.prems(1) by (simp add: sny_yputc_def)
    have "sny_puts cs ?y = Some (let n = min (length cs) (sny_max_size ?y - 1 - sny_cur_size ?y)
     in ?y\<lparr>sny_buf := take (sny_cur_size ?y) (sny_buf ?y) @ take n cs @ drop (sny_cur_size ?y + n) (sny_buf ?y),
         sny_cur_size := sny_cur_size ?y + n\<rparr>)" by (rule Cons.IH) (use True Cons.prems in auto)
    moreover have "min (length (c # cs)) (sny_max_size y - 1 - sny_cur_size y) =
        Suc (min (length cs) (sny_max_size ?y - 1 - sny_cur_size ?y))" using True by simp
    moreover have "take (Suc (sny_cur_size y)) ((sny_buf y)[sny_cur_size y := c]) = take (sny_cur_size y) (sny_buf y) @ [c]"
      using True Cons.prems(1) by (simp add: take_Suc_conv_app_nth)
    ultimately show ?thesis using y True by (simp add: Let_def)
  qed
qed


lemma protect_undo [simp]: "protect (- 1) (protect 1 c) = c"
  by (cases c) simp

text \<open>Two hexadecimal digits of a byte.\<close>

definition hex_byte :: "u8 \<Rightarrow> u8 list" where
  "hex_byte v = [digit_char (unat v div 16), digit_char (unat v mod 16)]"

lemma print_hex_byte:
  "vaprintf float_text long_bits [37, 48, 50, 120, 32] [ArgInt (uint v)] = Some (hex_byte v @ [32])"
proof -
  let ?sp = "\<lparr>sp_fill = 48, sp_width = 2, sp_decimalPos = 3, sp_long = False, sp_longlong = False\<rparr>"
  have spec: "parse_spec [48, 50, 120, 32] = Some (?sp, 120, [32])"
    by (simp add: parse_spec_def next_char_def is_dec_def)
  have lt: "unat v < 256" using unsigned_less [of v] by simp
  have n: "number_value long_bits ?sp (uint v) = unat v"
  proof -
    have "uint v = int (unat v)" by (fact uint_nat)
    then have "0 \<le> uint v" "uint v < 4294967296" using lt by linarith+
    then have "uint v mod 2 ^ 32 = uint v" by (simp add: mod_pos_pos_trivial)
    then show ?thesis by (simp add: number_value_def)
  qed
  have d: "unat v div 16 < 16" using lt by linarith
  have ds: "to_digits 16 (unat v) = (if unat v < 16 then [unat v] else [unat v div 16, unat v mod 16])"
  proof (cases "unat v < 16")
    case True
    then show ?thesis by (subst to_digits.simps) simp
  next
    case False
    have "to_digits 16 (unat v div 16) = [unat v div 16]" using d by (subst to_digits.simps) simp
    then show ?thesis using False by (subst to_digits.simps) simp
  qed
  have "print_number long_bits ?sp False 16 (uint v) = Some (hex_byte v)"
  proof (cases "unat v < 16")
    case True
    then show ?thesis
      by (subst print_number_digits [OF _ _ _ refl refl]) (simp_all add: n ds hex_byte_def SCRATCH_SIZE_def digit_char_def)
  next
    case False
    then show ?thesis
      by (subst print_number_digits [OF _ _ _ refl refl]) (simp_all add: n ds hex_byte_def SCRATCH_SIZE_def)
  qed
  then show ?thesis by (simp add: spec convert_def conversion_def)
qed

lemma PRINTF_out:
  assumes "vaprintf float_text long_bits fmt args = Some out" "printfMask c \<noteq> 0"
  shows "PRINTF float_text long_bits fmt args c = Some (FFLUSH (console_put out c))"
proof (cases "schedulerRunning c")
  case True
  have "protect (- 1) (console_put out (protect 1 c)) = console_put out c" by (cases c) (simp add: console_put_def)
  then show ?thesis using True assms by (simp add: PRINTF_def protected_print_def)
next
  case False
  then show ?thesis using assms by (simp add: PRINTF_def protected_print_def)
qed

lemma hex_loop_out:
  "printfMask c \<noteq> 0 \<Longrightarrow> vals \<noteq> [] \<Longrightarrow>
   hex_loop float_text long_bits vals c = Some (FFLUSH (console_put (concat (map (\<lambda>v. hex_byte v @ [32]) vals)) c))"
proof (induction vals arbitrary: c)
  case (Cons v vals)
  note p = PRINTF_out [OF print_hex_byte Cons.prems(1), of float_text long_bits v]
  show ?case
  proof (cases "vals = []")
    case True
    then show ?thesis using p by simp
  next
    case False
    have "hex_loop float_text long_bits vals (FFLUSH (console_put (hex_byte v @ [32]) c)) =
        Some (FFLUSH (console_put (concat (map (\<lambda>v. hex_byte v @ [32]) vals)) (FFLUSH (console_put (hex_byte v @ [32]) c))))"
      using False Cons.prems(1) by (intro Cons.IH) (simp_all add: FFLUSH_def console_put_def)
    then show ?thesis using p by (simp add: FFLUSH_def console_put_def)
  qed
qed simp

lemma vaprintf_s: "c_string s = Some t \<Longrightarrow> vaprintf float_text long_bits [37, 115] [ArgString s] = Some t"
  by (simp add: parse_spec_def next_char_def is_dec_def convert_def)

text \<open>The dump of some bytes: the title, two digits and a blank for each byte, and a line break.\<close>

lemma printCharsHex_out:
  assumes "printfMask c \<noteq> 0" "c_string titel = Some t" "vals \<noteq> []"
  shows "map_option con_out (printCharsHex float_text long_bits titel vals c) =
    Some (con_out c @ t @ concat (map (\<lambda>v. hex_byte v @ [32]) vals) @ [10])"
proof -
  let ?c1 = "FFLUSH (console_put t c)"
  let ?c2 = "FFLUSH (console_put (concat (map (\<lambda>v. hex_byte v @ [32]) vals)) ?c1)"
  have m: "printfMask ?c1 \<noteq> 0" "printfMask ?c2 \<noteq> 0" using assms(1) by (simp_all add: FFLUSH_def console_put_def)
  have "vaprintf float_text long_bits [10] [] = Some [10]" by simp
  then have "printCharsHex float_text long_bits titel vals c = Some (FFLUSH (console_put [10] ?c2))"
    using PRINTF_out [OF vaprintf_s [OF assms(2)] assms(1), of float_text long_bits] hex_loop_out [OF m(1) assms(3), of float_text long_bits]
      PRINTF_out [OF _ m(2), of float_text long_bits "[10]" "[]" "[10]"]
    by (simp add: printCharsHex_def)
  then show ?thesis by (simp add: FFLUSH_def console_put_def)
qed

text \<open>The characters of \<open>formatBinary\<close> are the lowest bits of the value, the highest of them first.\<close>

lemma binary_loop_bits:
  "i + n < length buf \<Longrightarrow>
   binary_loop n i val buf = Some (take i buf @ map (\<lambda>j. if bit val (31 - j) then 49 else 48) [0..<n] @ 0 # drop (i + n + 1) buf)"
  if "n \<le> 32"
  using that
proof (induction n arbitrary: i val buf)
  case 0
  then show ?case by (simp add: upd_conv_take_nth_drop)
next
  case (Suc n)
  let ?d = "if val AND 0x80000000 \<noteq> 0 then 49 else 48 :: u8"
  have top: "val AND 0x80000000 \<noteq> 0 \<longleftrightarrow> bit val 31"
  proof -
    have "(0x80000000 :: u32) = push_bit 31 1" by simp
    then show ?thesis by (metis and_exp_eq_0_iff_not_bit push_bit_of_1)
  qed
  have "binary_loop n (i + 1) (push_bit 1 val) (buf[i := ?d]) =
     Some (take (i + 1) (buf[i := ?d]) @ map (\<lambda>j. if bit (push_bit 1 val) (31 - j) then 49 else 48) [0..<n] @ 0 # drop (i + 1 + n + 1) (buf[i := ?d]))"
    using Suc.prems by (intro Suc.IH) auto
  moreover have "take (i + 1) (buf[i := ?d]) = take i buf @ [?d]" using Suc.prems by (simp add: take_Suc_conv_app_nth)
  moreover have "map (\<lambda>j. if bit (push_bit 1 val) (31 - j) then 49 else 48 :: u8) [0..<n] =
      map (\<lambda>j. if bit val (31 - j) then 49 else 48) (map Suc [0..<n])"
  proof -
    have "bit (push_bit 1 val) (31 - j) = bit val (31 - Suc j)" if "j < n" for j
      using that Suc.prems by (subst bit_push_bit_iff) (auto simp: bit_simps)
    then show ?thesis by simp
  qed
  ultimately show ?case using Suc.prems top by (simp add: upt_conv_Cons map_Suc_upt del: upt_Suc)
qed

lemma formatBinary_bits:
  assumes "0 < len" "len \<le> 32" "len < length buf"
  shows "formatBinary val len buf =
    Some (map (\<lambda>j. if bit val (len - 1 - j) then 49 else 48) [0..<len] @ 0 # drop (len + 1) buf)"
  using assms binary_loop_bits [OF assms(2), of 0 buf "push_bit (32 - len) val"]
  by (auto simp: formatBinary_def bit_simps)

section \<open>Properties\<close>

text \<open>
  C27. \<open>SNPRINTF\<close> with a size that the buffer has never writes behind it: the buffer gets as much of the output
  as fits before a terminating zero, the rest of it and the console state stay as they were, and the
  number of characters is returned. With size zero nothing is written.
\<close>

theorem snprintf_bounded:
  assumes "vaprintf float_text long_bits fmt args = Some out" "n \<le> length dest"
  shows "SNPRINTF float_text long_bits dest n fmt args c =
    (if n = 0 then Some (0, dest, c)
     else let k = min (length out) (n - 1) in Some (k, take k out @ 0 # drop (k + 1) dest, c))"
proof -
  let ?y = "\<lparr>sny_buf = dest, sny_max_size = n, sny_cur_size = 0\<rparr>" and ?k = "min (length out) (n - 1)"
  have p: "sny_puts out ?y = Some \<lparr>sny_buf = take ?k out @ drop ?k dest, sny_max_size = n, sny_cur_size = ?k\<rparr>"
    using sny_puts_prefix [of ?y out] assms(2) by (cases "n = 0") (simp_all add: Let_def)
  have e: "(take ?k out @ drop ?k dest)[?k := 0] = take ?k out @ 0 # drop (?k + 1) dest" if "n \<noteq> 0"
    using that assms(2) by (simp add: list_update_append upd_conv_take_nth_drop)
  show ?thesis
    using assms p e by (cases "schedulerRunning c") (auto simp: SNPRINTF_def vsnprintf_def sny_destroy_def Let_def)
qed

definition boot_console :: console where
  "boot_console = \<lparr>printfMask = 0xffffffff, schedulerRunning = True, printfProtector = 0, con_out = [], con_flushed = 0,
     printErrorReports = True, rodosErrorMsg = [], rodosErrorCounter = 0,
     errorLog = \<lparr>tp_time = replicate 20 0, tp_text = replicate 20 [], tp_id = replicate 20 0, tp_index = 0, tp_addCounter = 0\<rparr>\<rparr>"

theorem snprintf_bounded_witness:
  "SNPRINTF (\<lambda>_ _ _. []) 64 [9, 9, 9, 9] 3 [97, 98, 99] [] boot_console = Some (2, [97, 98, 0, 9], boot_console)"
  using snprintf_bounded [of "\<lambda>_ _ _. []" 64 "[97, 98, 99]" "[]" "[97, 98, 99]" 3 "[9, 9, 9, 9]" boot_console] by (simp add: Let_def)

fun log_all :: "(int \<times> 'a \<times> int) list \<Rightarrow> 'a TimePoints \<Rightarrow> 'a TimePoints option" where
  "log_all [] t = Some t"
| "log_all ((now, name, i) # es) t = Option.bind (addRaw now name i t) (\<lambda>(_, t). log_all es t)"

definition tp_ok :: "'a TimePoints \<Rightarrow> bool" where
  "tp_ok t \<longleftrightarrow> 0 < tp_points t \<and> length (tp_text t) = tp_points t \<and> length (tp_id t) = tp_points t \<and> tp_index t < tp_points t"

lemma addRaw_ok:
  assumes "tp_ok t"
  shows "\<exists>t'. addRaw now name i t = Some (tp_index t < tp_points t - 1, t') \<and> tp_ok t' \<and> tp_points t' = tp_points t \<and>
    tp_text t' = (tp_text t)[tp_index t := name] \<and> tp_index t' = min (tp_index t + 1) (tp_points t - 1)"
  using assms by (auto simp: addRaw_def tp_ok_def tp_points_def Let_def)

lemma log_all_run:
  "tp_ok t \<Longrightarrow>
      \<exists>t'. log_all es t = Some t' \<and> tp_ok t' \<and> tp_points t' = tp_points t \<and>
      take (min (tp_index t + length es) (tp_points t - 1)) (tp_text t') =
        take (tp_index t) (tp_text t) @ map (fst \<circ> snd) (take (tp_points t - 1 - tp_index t) es) \<and>
      (es \<noteq> [] \<longrightarrow> tp_points t \<le> tp_index t + length es \<longrightarrow> tp_text t' ! (tp_points t - 1) = fst (snd (last es)))"
proof (induction es arbitrary: t)
  case Nil
  then show ?case by (auto simp: tp_ok_def min_def)
next
  case (Cons e es)
  obtain now name i where e: "e = (now, name, i)" by (cases e) auto
  from addRaw_ok [OF Cons.prems, of now name i] obtain t1 where t1: "addRaw now name i t = Some (tp_index t < tp_points t - 1, t1)"
    "tp_ok t1" "tp_points t1 = tp_points t" "tp_text t1 = (tp_text t)[tp_index t := name]"
    "tp_index t1 = min (tp_index t + 1) (tp_points t - 1)" by blast
  from Cons.IH [OF t1(2)] obtain t' where t': "log_all es t1 = Some t'" "tp_ok t'" "tp_points t' = tp_points t1"
    "take (min (tp_index t1 + length es) (tp_points t1 - 1)) (tp_text t') =
      take (tp_index t1) (tp_text t1) @ map (fst \<circ> snd) (take (tp_points t1 - 1 - tp_index t1) es)"
    "es \<noteq> [] \<longrightarrow> tp_points t1 \<le> tp_index t1 + length es \<longrightarrow> tp_text t' ! (tp_points t1 - 1) = fst (snd (last es))" by blast
  have ok: "tp_index t < tp_points t" "length (tp_text t) = tp_points t" using Cons.prems by (auto simp: tp_ok_def)
  have first: "take (tp_index t1) (tp_text t1) @ map (fst \<circ> snd) (take (tp_points t1 - 1 - tp_index t1) es) =
      take (tp_index t) (tp_text t) @ map (fst \<circ> snd) (take (tp_points t - 1 - tp_index t) (e # es))"
  proof (cases "tp_index t < tp_points t - 1")
    case True
    then have "tp_index t1 = Suc (tp_index t)" "tp_points t - 1 - tp_index t = Suc (tp_points t - 1 - tp_index t1)" using t1(5) by auto
    then show ?thesis using ok t1(3,4) e by (simp add: take_Suc_conv_app_nth)
  next
    case False
    then have "tp_index t = tp_points t - 1" "tp_index t1 = tp_points t - 1" using ok t1(5) by auto
    then show ?thesis using t1(3,4) by simp
  qed
  have last: "tp_text t' ! (tp_points t - 1) = fst (snd (last (e # es)))" if "tp_points t \<le> tp_index t + length (e # es)"
  proof (cases "es = []")
    case True
    then have "tp_index t = tp_points t - 1" using that ok by simp
    then show ?thesis using True t'(1) t1(4) ok e by simp
  next
    case False
    then have "tp_points t1 \<le> tp_index t1 + length es" using that t1(3,5) by (cases es) auto
    then show ?thesis using False t'(5) t1(3) by simp
  qed
  have "min (tp_index t1 + length es) (tp_points t1 - 1) = min (tp_index t + length (e # es)) (tp_points t - 1)"
    using t1(3,5) ok by auto
  then show ?case using t' t1(1,3) first last e by auto
qed

text \<open>
  The error log never writes outside of its arrays and never loses the first errors: after any number of
  errors it holds the first ones, all but one entry, in order, and in the last entry the latest error.
\<close>

lemma error_log_keeps_first:
  assumes "tp_ok t" "tp_index t = 0" "es \<noteq> []"
  shows "\<exists>t'. log_all es t = Some t' \<and>
    take (min (length es) (tp_points t - 1)) (tp_text t') = map (fst \<circ> snd) (take (tp_points t - 1) es) \<and>
    (tp_points t \<le> length es \<longrightarrow> tp_text t' ! (tp_points t - 1) = fst (snd (last es)))"
  using log_all_run [OF assms(1), of es] assms(2,3) by auto

lemma error_log_keeps_first_witness:
  "\<exists>t'. log_all [(5, 1, 0), (6, 2, 0), (7, 3, 0)] \<lparr>tp_time = [0, 0], tp_text = [0, 0 :: nat], tp_id = [0, 0], tp_index = 0, tp_addCounter = 0\<rparr> = Some t' \<and>
     take 1 (tp_text t') = [1] \<and> tp_text t' ! 1 = 3"
  using error_log_keeps_first [of "\<lparr>tp_time = [0, 0], tp_text = [0, 0 :: nat], tp_id = [0, 0], tp_index = 0, tp_addCounter = 0\<rparr>"
      "[(5, 1, 0), (6, 2, 0), (7, 3, 0)]"]
  by (simp add: tp_ok_def tp_points_def)

end
