(* ===== verification/Generic_IO.thy ===== *)
theory Generic_IO
  imports Rodos_Prelude
begin

text \<open>
  The waiting for input and output of all drivers (\<open>src/independent/genericIO.cpp\<close>): a thread suspends itself until the
  device has finished, and the interrupt of the device resumes it. The virtual functions \<open>isReadFinished\<close>,
  \<open>isWriteFinished\<close> and \<open>isDataReady\<close> belong to the drivers; here they are flags the device sets. A
  thread is the time until which it is suspended, which \<open>resume\<close> sets to zero, and its place in \<open>suspendUntil\<close>, which
  is cut at every statement. Wherever interrupts are enabled the device may interrupt and another thread may run.
  Any number of threads may wait for the same event.
\<close>

section \<open>The code\<close>

datatype io_event = ReadFinished | WriteFinished | DataReady

record generic_io =
  io_caller :: "io_event \<Rightarrow> nat option"
  io_receiver :: "nat option"
  io_notified :: "(nat \<times> io_event) list"
  io_done :: "io_event \<Rightarrow> bool"
  io_until :: "nat \<Rightarrow> int"
  io_enabled :: bool

definition GenericIO_new :: generic_io where
  "GenericIO_new = \<lparr>io_caller = \<lambda>_. None, io_receiver = None, io_notified = [], io_done = \<lambda>_. False, io_until = \<lambda>_. 0,
     io_enabled = True\<rparr>"

definition hwDisableInterrupts :: "generic_io \<Rightarrow> generic_io" where
  "hwDisableInterrupts s = s\<lparr>io_enabled := False\<rparr>"

definition hwEnableInterrupts :: "generic_io \<Rightarrow> generic_io" where
  "hwEnableInterrupts s = s\<lparr>io_enabled := True\<rparr>"

text \<open>The places of a thread in one of the three functions, which are the same but for their event: in front of each
  statement, and in \<open>yield\<close>. \<open>NullCaller\<close> is the use of the caller through a null pointer.\<close>

datatype io_pc =
    Outside
  | Disable io_event int
  | Test io_event int
  | EnableReturn
  | Register io_event int
  | Suspend io_event int
  | Enable io_event
  | Yield io_event
  | NullCaller

definition suspendUntilReadFinished :: "int \<Rightarrow> io_pc" where
  "suspendUntilReadFinished reactivationTime = Disable ReadFinished reactivationTime"

definition suspendUntilWriteFinished :: "int \<Rightarrow> io_pc" where
  "suspendUntilWriteFinished reactivationTime = Disable WriteFinished reactivationTime"

definition suspendUntilDataReady :: "int \<Rightarrow> io_pc" where
  "suspendUntilDataReady reactivationTime = Disable DataReady reactivationTime"

text \<open>One statement of the thread \<open>me\<close>. The \<open>yield\<close> ends when the thread is chosen again.\<close>

definition suspend_until :: "nat \<Rightarrow> io_pc \<Rightarrow> generic_io \<Rightarrow> io_pc \<times> generic_io" where
  "suspend_until me pc s =
     (case pc of
        Disable ev time \<Rightarrow> (Test ev time, hwDisableInterrupts s)
      | Test ev time \<Rightarrow> (if io_done s ev then EnableReturn else Register ev time, s)
      | EnableReturn \<Rightarrow> (Outside, hwEnableInterrupts s)
      | Register ev time \<Rightarrow> (Suspend ev time, s\<lparr>io_caller := (io_caller s)(ev := Some me)\<rparr>)
      | Suspend ev time \<Rightarrow>
          (case io_caller s ev of
             None \<Rightarrow> (NullCaller, s)
           | Some caller \<Rightarrow> (Enable ev, s\<lparr>io_until := (io_until s)(caller := time)\<rparr>))
      | Enable ev \<Rightarrow> (Yield ev, hwEnableInterrupts s)
      | Yield ev \<Rightarrow> (Outside, s)
      | _ \<Rightarrow> (pc, s))"

definition up_call :: "io_event \<Rightarrow> generic_io \<Rightarrow> generic_io" where
  "up_call ev s =
     (let s = (case io_caller s ev of None \<Rightarrow> s | Some t \<Rightarrow> s\<lparr>io_until := (io_until s)(t := 0)\<rparr>);
          s = s\<lparr>io_caller := (io_caller s)(ev := None)\<rparr>
      in case io_receiver s of None \<Rightarrow> s | Some r \<Rightarrow> s\<lparr>io_notified := io_notified s @ [(r, ev)]\<rparr>)"

definition upCallWriteFinished :: "generic_io \<Rightarrow> generic_io" where
  "upCallWriteFinished = up_call WriteFinished"

definition upCallReadFinished :: "generic_io \<Rightarrow> generic_io" where
  "upCallReadFinished = up_call ReadFinished"

definition upCallDataReady :: "generic_io \<Rightarrow> generic_io" where
  "upCallDataReady = up_call DataReady"

definition setIoEventReceiver :: "nat option \<Rightarrow> generic_io \<Rightarrow> generic_io" where
  "setIoEventReceiver receiver s = s\<lparr>io_receiver := receiver\<rparr>"

section \<open>Threads and the device\<close>

text \<open>The auxiliary variable \<open>ws_overtaken t\<close> says that another thread registered itself for the event the thread \<open>t\<close> waits
  for after \<open>t\<close> did.\<close>

record io_world =
  ws_io :: generic_io
  ws_pc :: "nat \<Rightarrow> io_pc"
  ws_running :: nat
  ws_overtaken :: "nat \<Rightarrow> bool"

definition waits_for :: "io_event \<Rightarrow> io_pc \<Rightarrow> bool" where
  "waits_for ev pc = (case pc of Suspend e _ \<Rightarrow> e = ev | Enable e \<Rightarrow> e = ev | Yield e \<Rightarrow> e = ev | _ \<Rightarrow> False)"

definition overtaking :: "nat \<Rightarrow> io_world \<Rightarrow> nat \<Rightarrow> bool" where
  "overtaking t w u = (case ws_pc w t of
     Register ev _ \<Rightarrow> u \<noteq> t \<and> (ws_overtaken w u \<or> waits_for ev (ws_pc w u)) | _ \<Rightarrow> ws_overtaken w u)"

text \<open>The running thread executes its next statement, or calls one of the functions; a \<open>yield\<close> ends when the time of the thread
  is reached. The scheduler runs another thread that is not suspended, and the device interrupts, only where interrupts are
  enabled. The device finishes, sets its flag and calls up in one interrupt; the drivers clear the flag.\<close>

inductive io_step :: "io_world \<Rightarrow> io_world \<Rightarrow> bool" where
  call: "t = ws_running w \<Longrightarrow> ws_pc w t = Outside \<Longrightarrow>
    pc \<in> {suspendUntilReadFinished time, suspendUntilWriteFinished time, suspendUntilDataReady time} \<Longrightarrow>
    io_step w (w\<lparr>ws_pc := (ws_pc w)(t := pc)\<rparr>)"
| exec: "t = ws_running w \<Longrightarrow> suspend_until t (ws_pc w t) (ws_io w) = (pc, s) \<Longrightarrow>
    (\<And>ev. ws_pc w t = Yield ev \<Longrightarrow> io_until (ws_io w) t < now) \<Longrightarrow> now < END_OF_TIME \<Longrightarrow>
    io_step w (w\<lparr>ws_io := s, ws_pc := (ws_pc w)(t := pc), ws_overtaken := overtaking t w\<rparr>)"
| switch: "io_enabled (ws_io w) \<Longrightarrow> io_until (ws_io w) t < now \<Longrightarrow> now < END_OF_TIME \<Longrightarrow> io_step w (w\<lparr>ws_running := t\<rparr>)"
| device: "io_enabled (ws_io w) \<Longrightarrow>
    io_step w (w\<lparr>ws_io := up_call ev ((ws_io w)\<lparr>io_done := (io_done (ws_io w))(ev := True)\<rparr>)\<rparr>)"
| clear: "io_step w (w\<lparr>ws_io := (ws_io w)\<lparr>io_done := (io_done (ws_io w))(ev := False)\<rparr>\<rparr>)"
| receiver: "io_step w (w\<lparr>ws_io := setIoEventReceiver r (ws_io w)\<rparr>)"

definition io_start :: io_world where
  "io_start = \<lparr>ws_io = GenericIO_new, ws_pc = \<lambda>_. Outside, ws_running = 0, ws_overtaken = \<lambda>_. False\<rparr>"

inductive io_reachable :: "io_world \<Rightarrow> bool" where
  start: "io_reachable io_start"
| step: "io_reachable w \<Longrightarrow> io_step w w' \<Longrightarrow> io_reachable w'"

text \<open>The places where interrupts are disabled.\<close>

definition locked :: "io_pc \<Rightarrow> bool" where
  "locked pc = (case pc of Test _ _ \<Rightarrow> True | EnableReturn \<Rightarrow> True | Register _ _ \<Rightarrow> True | Suspend _ _ \<Rightarrow> True
     | Enable _ \<Rightarrow> True | _ \<Rightarrow> False)"

text \<open>What holds of a thread at its place.\<close>

definition place_ok :: "generic_io \<Rightarrow> nat \<Rightarrow> bool \<Rightarrow> io_pc \<Rightarrow> bool" where
  "place_ok s t overtaken pc = (case pc of
     Register ev _ \<Rightarrow> \<not> io_done s ev
   | Suspend ev _ \<Rightarrow> \<not> io_done s ev \<and> io_caller s ev = Some t
   | Enable ev \<Rightarrow> \<not> io_done s ev \<and> io_caller s ev = Some t
   | Yield ev \<Rightarrow> io_until s t \<noteq> 0 \<and> \<not> overtaken \<longrightarrow> \<not> io_done s ev \<and> io_caller s ev = Some t
   | NullCaller \<Rightarrow> False
   | _ \<Rightarrow> True)"

definition io_inv :: "io_world \<Rightarrow> bool" where
  "io_inv w \<longleftrightarrow> (\<forall>t. locked (ws_pc w t) \<longleftrightarrow> \<not> io_enabled (ws_io w) \<and> t = ws_running w) \<and>
     (\<forall>t. place_ok (ws_io w) t (ws_overtaken w t) (ws_pc w t))"

lemma io_invI:
  assumes "\<And>t. locked (ws_pc w t) \<longleftrightarrow> \<not> io_enabled (ws_io w) \<and> t = ws_running w"
    "\<And>t. place_ok (ws_io w) t (ws_overtaken w t) (ws_pc w t)"
  shows "io_inv w"
  using assms by (simp add: io_inv_def)

lemma io_invD:
  assumes "io_inv w"
  shows "locked (ws_pc w t) \<longleftrightarrow> \<not> io_enabled (ws_io w) \<and> t = ws_running w" "place_ok (ws_io w) t (ws_overtaken w t) (ws_pc w t)"
  using assms by (simp_all add: io_inv_def)

lemmas io_defs = suspend_until_def up_call_def hwDisableInterrupts_def hwEnableInterrupts_def setIoEventReceiver_def Let_def
  suspendUntilReadFinished_def suspendUntilWriteFinished_def suspendUntilDataReady_def upCallDataReady_def

lemma io_exec_inv:
  assumes "io_inv w" "t = ws_running w" "suspend_until t (ws_pc w t) (ws_io w) = (pc, s)"
    and "\<And>ev. ws_pc w t = Yield ev \<Longrightarrow> io_until (ws_io w) t < now"
  shows "io_inv (w\<lparr>ws_io := s, ws_pc := (ws_pc w)(t := pc), ws_overtaken := overtaking t w\<rparr>)"
proof -
  note d = io_invD(1) [OF assms(1), of t] io_invD(2) [OF assms(1), of t]
  have lock: "locked pc \<longleftrightarrow> \<not> io_enabled s" "locked (ws_pc w t) \<or> io_enabled (ws_io w)"
    "place_ok s t (overtaking t w t) pc"
    using d assms(2,3) by (auto simp: io_defs locked_def place_ok_def overtaking_def split: io_pc.splits option.splits if_splits)
  have "place_ok s u (overtaking t w u) (ws_pc w u)" if "u \<noteq> t" for u
    using io_invD [OF assms(1), of u] d that assms(2,3)
    by (cases "ws_pc w t"; cases "ws_pc w u")
      (auto simp: io_defs locked_def place_ok_def overtaking_def waits_for_def split: option.splits if_splits)
  with lock show ?thesis
    using io_invD(1) [OF assms(1)] assms(2) by (intro io_invI) auto
qed

lemma io_device_inv:
  assumes "io_inv w" "io_enabled (ws_io w)"
  shows "io_inv (w\<lparr>ws_io := up_call ev ((ws_io w)\<lparr>io_done := (io_done (ws_io w))(ev := True)\<rparr>)\<rparr>)"
proof (rule io_invI)
  fix t
  show "locked (ws_pc (w\<lparr>ws_io := up_call ev ((ws_io w)\<lparr>io_done := (io_done (ws_io w))(ev := True)\<rparr>)\<rparr>) t) \<longleftrightarrow>
      \<not> io_enabled (ws_io (w\<lparr>ws_io := up_call ev ((ws_io w)\<lparr>io_done := (io_done (ws_io w))(ev := True)\<rparr>)\<rparr>)) \<and>
      t = ws_running (w\<lparr>ws_io := up_call ev ((ws_io w)\<lparr>io_done := (io_done (ws_io w))(ev := True)\<rparr>)\<rparr>)"
    using io_invD(1) [OF assms(1), of t] assms(2) by (auto simp: io_defs split: option.splits)
  show "place_ok (ws_io (w\<lparr>ws_io := up_call ev ((ws_io w)\<lparr>io_done := (io_done (ws_io w))(ev := True)\<rparr>)\<rparr>)) t
      (ws_overtaken (w\<lparr>ws_io := up_call ev ((ws_io w)\<lparr>io_done := (io_done (ws_io w))(ev := True)\<rparr>)\<rparr>) t)
      (ws_pc (w\<lparr>ws_io := up_call ev ((ws_io w)\<lparr>io_done := (io_done (ws_io w))(ev := True)\<rparr>)\<rparr>) t)"
    using io_invD [OF assms(1), of t] assms(2)
    by (cases "ws_pc w t") (auto simp: io_defs locked_def place_ok_def split: option.splits if_splits)
qed

lemma place_ok_mono:
  "place_ok s t overtaken pc \<Longrightarrow> io_caller s' = io_caller s \<Longrightarrow> io_until s' = io_until s \<Longrightarrow>
     (\<And>ev. io_done s' ev \<Longrightarrow> io_done s ev) \<Longrightarrow> place_ok s' t overtaken pc"
  by (cases pc) (auto simp: place_ok_def)

lemma io_step_inv: "io_step w w' \<Longrightarrow> io_inv w \<Longrightarrow> io_inv w'"
proof (induction rule: io_step.induct)
  case (call t w pc time)
  have "locked (ws_pc w u) \<longleftrightarrow> \<not> io_enabled (ws_io w) \<and> u = ws_running w" for u by (rule io_invD(1) [OF call.prems])
  from this [of t] have "io_enabled (ws_io w)" using call.hyps by (simp add: locked_def)
  with call show ?case by (auto simp: io_inv_def io_defs locked_def place_ok_def)
next
  case (exec t w pc s now)
  then show ?case using io_exec_inv by blast
next
  case (device w ev)
  then show ?case using io_device_inv by blast
next
  case (clear w ev)
  note d = io_invD [OF clear.prems]
  show ?case by (rule io_invI) (use d in \<open>auto intro!: place_ok_mono [OF d(2)] split: if_splits\<close>)
next
  case (receiver w r)
  note d = io_invD [OF receiver.prems]
  show ?case by (rule io_invI) (use d in \<open>auto simp: io_defs intro!: place_ok_mono [OF d(2)]\<close>)
qed (auto simp: io_inv_def)

lemma io_reachable_inv: "io_reachable w \<Longrightarrow> io_inv w"
proof (induction rule: io_reachable.induct)
  case start
  show ?case by (simp add: io_inv_def io_start_def GenericIO_new_def locked_def place_ok_def)
next
  case (step w w')
  then show ?case using io_step_inv by blast
qed

section \<open>Properties\<close>


subsection \<open>Runs\<close>

text \<open>Runs of the system as lists of actions, for concrete inputs.\<close>

datatype io_action = ACall io_pc | AExec int | ASwitch nat int | ADevice io_event

fun io_act :: "io_action \<Rightarrow> io_world \<Rightarrow> io_world option" where
  "io_act (ACall pc) w = (case pc of
     Disable ev time \<Rightarrow> if ws_pc w (ws_running w) = Outside then Some (w\<lparr>ws_pc := (ws_pc w)(ws_running w := pc)\<rparr>) else None
   | _ \<Rightarrow> None)"
| "io_act (AExec now) w = (case ws_pc w (ws_running w) of
     Yield ev \<Rightarrow> if io_until (ws_io w) (ws_running w) < now \<and> now < END_OF_TIME
       then Some (w\<lparr>ws_pc := (ws_pc w)(ws_running w := Outside)\<rparr>) else None
   | pc \<Rightarrow> (case suspend_until (ws_running w) pc (ws_io w) of (pc, s) \<Rightarrow>
       Some (w\<lparr>ws_io := s, ws_pc := (ws_pc w)(ws_running w := pc), ws_overtaken := overtaking (ws_running w) w\<rparr>)))"
| "io_act (ASwitch t now) w = (if io_enabled (ws_io w) \<and> io_until (ws_io w) t < now \<and> now < END_OF_TIME
     then Some (w\<lparr>ws_running := t\<rparr>) else None)"
| "io_act (ADevice ev) w = (if io_enabled (ws_io w)
     then Some (w\<lparr>ws_io := up_call ev ((ws_io w)\<lparr>io_done := (io_done (ws_io w))(ev := True)\<rparr>)\<rparr>) else None)"

fun io_run :: "io_action list \<Rightarrow> io_world \<Rightarrow> io_world option" where
  "io_run [] w = Some w"
| "io_run (a # as) w = Option.bind (io_act a w) (io_run as)"

lemma io_act_step: "io_act a w = Some w' \<Longrightarrow> io_step w w'"
proof (cases a)
  case (ACall pc)
  assume "io_act a w = Some w'"
  with ACall obtain ev time where "pc = Disable ev time" "ws_pc w (ws_running w) = Outside"
    "w' = w\<lparr>ws_pc := (ws_pc w)(ws_running w := pc)\<rparr>"
    by (auto split: io_pc.splits if_splits)
  then show ?thesis using io_step.call [OF refl, of w pc time] by (cases ev) (simp_all add: io_defs)
next
  case (AExec now)
  assume a: "io_act a w = Some w'"
  have over: "overtaking (ws_running w) w = ws_overtaken w" if "ws_pc w (ws_running w) = Yield ev" for ev
    using that by (simp add: overtaking_def fun_eq_iff)
  obtain pc s where s: "suspend_until (ws_running w) (ws_pc w (ws_running w)) (ws_io w) = (pc, s)" by fastforce
  from a AExec s have "w' = w\<lparr>ws_io := s, ws_pc := (ws_pc w)(ws_running w := pc), ws_overtaken := overtaking (ws_running w) w\<rparr>"
    "\<exists>now'. (\<forall>ev. ws_pc w (ws_running w) = Yield ev \<longrightarrow> io_until (ws_io w) (ws_running w) < now') \<and> now' < END_OF_TIME"
    by (auto simp: over suspend_until_def split: io_pc.splits if_splits intro: exI [of _ 0] simp: END_OF_TIME_def)
  then show ?thesis using io_step.exec [OF refl s] by blast
qed (auto intro: io_step.intros split: if_splits)

lemma io_run_reachable: "io_run as w = Some w' \<Longrightarrow> io_reachable w \<Longrightarrow> io_reachable w'"
proof (induction as arbitrary: w)
  case (Cons a as)
  then show ?case using io_reachable.step [OF Cons.prems(2) io_act_step] by (auto split: Option.bind_splits)
qed simp

lemma reachable_by_run: "io_run as io_start = Some w \<Longrightarrow> io_reachable w"
  using io_run_reachable io_reachable.start by blast

lemmas io_run_simps = io_start_def io_defs GenericIO_new_def END_OF_TIME_def overtaking_def waits_for_def fun_eq_iff

definition waiting_run :: "nat \<Rightarrow> io_pc \<Rightarrow> io_action list" where
  "waiting_run t pc = [ASwitch t 1, ACall pc, AExec 1, AExec 1, AExec 1, AExec 1, AExec 1]"


text \<open>The caller of a call that timed out stays registered: if the thread then waits for another event without a
  time limit, the late interrupt of the first one ends that wait too.\<close>

lemma io_stale_caller:
  "\<exists>w. io_reachable w \<and> ws_pc w 3 = Yield ReadFinished \<and> io_until (ws_io w) 3 = END_OF_TIME \<and>
     io_until (upCallDataReady (ws_io w)) 3 = 0"
proof -
  obtain w where "io_run (waiting_run 3 (suspendUntilDataReady 10) @ [ASwitch 3 11, AExec 11, ACall (suspendUntilReadFinished END_OF_TIME),
      AExec 1, AExec 1, AExec 1, AExec 1, AExec 1]) io_start = Some w"
    "ws_pc w 3 = Yield ReadFinished \<and> io_until (ws_io w) 3 = END_OF_TIME \<and> io_until (upCallDataReady (ws_io w)) 3 = 0"
    by (simp add: waiting_run_def io_run_simps)
  then show ?thesis using reachable_by_run by blast
qed

text \<open>An event has one slot for its caller: a thread overtaken by another one that waits for the same event sleeps on after
  the event, and nobody will resume it.\<close>

lemma io_overtaken_caller:
  "\<exists>w. io_reachable w \<and> ws_pc w 3 = Yield DataReady \<and> io_until (ws_io w) 3 = END_OF_TIME \<and> io_done (ws_io w) DataReady \<and>
     (\<forall>ev. io_caller (ws_io w) ev = None)"
proof -
  obtain w where "io_run (waiting_run 3 (suspendUntilDataReady END_OF_TIME) @ waiting_run 4 (suspendUntilDataReady END_OF_TIME) @
      [ADevice DataReady]) io_start = Some w"
    "ws_pc w 3 = Yield DataReady \<and> io_until (ws_io w) 3 = END_OF_TIME \<and> io_done (ws_io w) DataReady \<and> (\<forall>ev. io_caller (ws_io w) ev = None)"
    by (simp add: waiting_run_def io_run_simps)
  then show ?thesis using reachable_by_run by blast
qed

end
