(* ===== verification/Fifo_Links.thy ===== *)
theory Fifo_Links
  imports Fifo Link_Spec
begin

text \<open>
  The two links that hand whole messages over: through shared memory between the processes of one computer
  (\<open>gateway/linkinterfaceshm.h\<close> and \<open>.cpp\<close>) with a fifo of several readers, and over UDP
  (\<open>gateway/linkinterfaceudp.h\<close> and \<open>.cpp\<close>) with a fifo that the interrupt fills. The HAL is a parameter:
  the results of the calls of \<open>lock\<close>, the success of \<open>send\<close> and the bytes of the receive buffer. \<open>None\<close> is
  waiting for a lock for ever, or an access behind the receive buffer.
\<close>

section \<open>Shared memory\<close>

definition FIFOSIZE :: nat where "FIFOSIZE = 10"

definition MAXMEMBERS :: nat where "MAXMEMBERS = 50"

definition FIFO_MAGIC_WORD :: int where "FIFO_MAGIC_WORD = 1234"

text \<open>The memory: its first word, the fifo behind it, and how often a change was announced.\<close>

record shared_memory =
  sm_word :: int
  sm_fifo :: "NetworkMessage mrfifo"
  sm_changed :: nat

record LinkinterfaceSHM =
  shm_fifo :: bool
  shm_readerId :: int

text \<open>\<open>while (lock() == false) ;\<close>\<close>

fun shm_lock :: "bool list \<Rightarrow> bool list option" where
  "shm_lock [] = None"
| "shm_lock (ok # rs) = (if ok then Some rs else shm_lock rs)"

text \<open>\<open>attached\<close> tells whether the HAL has found the memory. The constructor of the fifo leaves its buffer as it is.\<close>

definition shm_init :: "bool \<Rightarrow> int \<Rightarrow> bool list \<Rightarrow> shared_memory \<Rightarrow> (LinkinterfaceSHM \<times> bool list \<times> shared_memory) option" where
  "shm_init attached memberId rs mem =
     (let l = \<lparr>shm_fifo = False, shm_readerId = memberId\<rparr>
      in if \<not> attached then Some (l, rs, mem)
         else do {
           rs \<leftarrow> shm_lock rs;
           let mem = (if sm_word mem = FIFO_MAGIC_WORD then mem
              else mem\<lparr>sm_word := FIFO_MAGIC_WORD, sm_fifo := MultipleReaderFifo_init (mr_buffer (sm_fifo mem)) MAXMEMBERS\<rparr>);
           Some (l\<lparr>shm_fifo := True\<rparr>, rs, mem)
         })"

definition shm_sendNetworkMsg :: "NetworkMessage \<Rightarrow> bool list \<Rightarrow> LinkinterfaceSHM \<Rightarrow> shared_memory \<Rightarrow> (bool \<times> bool list \<times> shared_memory) option" where
  "shm_sendNetworkMsg outMsg rs l mem =
     (if \<not> shm_fifo l then Some (False, rs, mem)
      else do {
        rs \<leftarrow> shm_lock rs;
        let mem = mem\<lparr>sm_fifo := snd (mr_put (sm_fifo mem) outMsg)\<rparr>;
        Some (True, rs, mem\<lparr>sm_changed := sm_changed mem + 1\<rparr>)
      })"

definition shm_getNetworkMsg :: "NetworkMessage \<Rightarrow> int \<Rightarrow> LinkinterfaceSHM \<Rightarrow> shared_memory \<Rightarrow> bool \<times> int \<times> NetworkMessage \<times> shared_memory" where
  "shm_getNetworkMsg inMsg numberOfReceivedBytes l mem =
     (if \<not> shm_fifo l \<or> shm_readerId l < 0 then (False, numberOfReceivedBytes, inMsg, mem)
      else let (ok, m, f) = mr_get (sm_fifo mem) inMsg (nat (shm_readerId l))
      in (ok, - 1, m, mem\<lparr>sm_fifo := f\<rparr>))"

section \<open>UDP\<close>

record LinkinterfaceUDP =
  incoming :: "NetworkMessage fifo"
  udp_threadToResume :: bool
  udp_until :: int

definition udp_sendNetworkMsg :: "(u8 list \<Rightarrow> bool) \<Rightarrow> NetworkMessage \<Rightarrow> bool" where
  "udp_sendNetworkMsg send outMsg = send (take (unat (numberOfBytesToSend outMsg)) (msg_bytes outMsg))"

text \<open>The whole object is copied from the receive buffer, whatever the length of the datagram.\<close>

definition udp_putFromInterrupt :: "u8 list \<Rightarrow> LinkinterfaceUDP \<Rightarrow> LinkinterfaceUDP option" where
  "udp_putFromInterrupt buf l =
     (if length buf < HEADER_SIZE + MAX_NETWORK_MESSAGE_LENGTH then None
      else let l = l\<lparr>incoming := snd (put (incoming l) (msg_of_bytes (take (HEADER_SIZE + MAX_NETWORK_MESSAGE_LENGTH) buf)))\<rparr>
      in Some (if udp_threadToResume l then l\<lparr>udp_until := 0\<rparr> else l))"

definition udp_getNetworkMsg :: "NetworkMessage \<Rightarrow> LinkinterfaceUDP \<Rightarrow> bool \<times> int \<times> NetworkMessage \<times> LinkinterfaceUDP" where
  "udp_getNetworkMsg inMsg l = (let (ok, m, f) = get (incoming l) inMsg in (ok, - 1, m, l\<lparr>incoming := f\<rparr>))"

section \<open>The members of the shared memory\<close>

definition shm_ok :: "shared_memory \<Rightarrow> bool" where
  "shm_ok mem \<longleftrightarrow> mr_inv (sm_fifo mem) \<and> length (mr_readX (sm_fifo mem)) = MAXMEMBERS"

definition member_of :: "LinkinterfaceSHM \<Rightarrow> nat \<Rightarrow> bool" where
  "member_of l k \<longleftrightarrow> shm_fifo l \<and> shm_readerId l = int k \<and> k < MAXMEMBERS"

definition unread :: "nat \<Rightarrow> shared_memory \<Rightarrow> NetworkMessage list" where
  "unread k mem = mr_list (sm_fifo mem) k"

definition lost :: "nat \<Rightarrow> shared_memory \<Rightarrow> u32" where
  "lost k mem = mr_overflowCnt (sm_fifo mem) ! k"

lemma length_readX_put [simp]: "mr_inv f \<Longrightarrow> length (mr_readX (snd (mr_put f v))) = length (mr_readX f)"
  using shiftReaders_length [of "mr_overflowCnt f" "mr_readX f"]
  by (simp add: mr_put_def mr_inv_def Let_def case_prod_beta)

lemma length_readX_get [simp]: "length (mr_readX (snd (snd (mr_get f v k)))) = length (mr_readX f)"
  by (simp add: mr_get_def)

lemma overflowCnt_get [simp]: "mr_overflowCnt (snd (snd (mr_get f v k))) = mr_overflowCnt f"
  by (simp add: mr_get_def)

lemma length_buffer_put [simp]: "length (mr_buffer (snd (mr_put f v))) = length (mr_buffer f)"
  by (simp add: mr_put_def Let_def case_prod_beta)

lemma length_buffer_get [simp]: "mr_buffer (snd (snd (mr_get f v k))) = mr_buffer f"
  by (simp add: mr_get_def)

lemma shm_send_facts:
  assumes "shm_ok mem" "k < MAXMEMBERS" "shm_sendNetworkMsg m rs l mem = Some (ok, rs', mem')"
  shows "shm_ok mem'" "ok = shm_fifo l" "length (mr_buffer (sm_fifo mem')) = length (mr_buffer (sm_fifo mem))"
    "lost k mem' = lost k mem + (if ok \<and> length (unread k mem) = length (mr_buffer (sm_fifo mem)) - 1 then 1 else 0)"
    "unread k mem' = (if \<not> ok then unread k mem
       else (if length (unread k mem) = length (mr_buffer (sm_fifo mem)) - 1 then tl (unread k mem) else unread k mem) @ [m])"
  using assms mr_list_put [of "sm_fifo mem" k m]
  by (auto simp: shm_sendNetworkMsg_def shm_ok_def unread_def lost_def mr_inv_put Let_def split: bind_splits if_splits)

lemma shm_get_facts:
  assumes "shm_ok mem" "member_of l j" "k < MAXMEMBERS" "shm_getNetworkMsg inMsg n0 l mem = (ok, n, m, mem')"
  shows "shm_ok mem'" "n = - 1" "lost k mem' = lost k mem" "mr_buffer (sm_fifo mem') = mr_buffer (sm_fifo mem)"
    "ok \<longleftrightarrow> unread j mem \<noteq> []" "unread k mem = (if ok \<and> j = k then [m] else []) @ unread k mem'"
proof -
  let ?g = "mr_get (sm_fifo mem) inMsg j"
  have g: "ok = fst ?g" "n = - 1" "m = fst (snd ?g)" "mem' = mem\<lparr>sm_fifo := snd (snd ?g)\<rparr>"
    using assms(2,4) by (auto simp: shm_getNetworkMsg_def member_of_def case_prod_beta)
  have j: "j < MAXMEMBERS" using assms(2) by (simp add: member_of_def)
  then have j: "mr_inv (sm_fifo mem)" "j < length (mr_readX (sm_fifo mem))" "k < length (mr_readX (sm_fifo mem))"
    using assms(1,3) by (simp_all add: shm_ok_def)
  show "shm_ok mem'" using assms(1) g mr_inv_get [OF j(1)] by (simp add: shm_ok_def)
  show "n = - 1" "lost k mem' = lost k mem" "mr_buffer (sm_fifo mem') = mr_buffer (sm_fifo mem)" using g by (simp_all add: lost_def)
  show "ok \<longleftrightarrow> unread j mem \<noteq> []" using g mr_list_get(1) [OF j, of inMsg] by (simp add: unread_def)
  have "\<not> fst ?g \<Longrightarrow> snd (snd ?g) = sm_fifo mem" by (auto simp: mr_get_def split: if_splits)
  then show "unread k mem = (if ok \<and> j = k then [m] else []) @ unread k mem'"
    using g mr_list_get(2,3) [OF j, of inMsg] by (cases "fst ?g") (auto simp: unread_def)
qed

text \<open>A run of the members: \<open>ShmSend\<close> sends a message, or a member reads; what each member got, and all that was sent.\<close>

datatype shm_op = ShmSend LinkinterfaceSHM NetworkMessage "bool list" | ShmGet LinkinterfaceSHM NetworkMessage

fun shm_run :: "shm_op list \<Rightarrow> shared_memory \<Rightarrow> (NetworkMessage list \<times> (int \<Rightarrow> NetworkMessage list) \<times> shared_memory) option" where
  "shm_run [] mem = Some ([], \<lambda>_. [], mem)"
| "shm_run (ShmSend l m rs # ops) mem = do {
     (ok, _, mem) \<leftarrow> shm_sendNetworkMsg m rs l mem;
     (sent, got, mem) \<leftarrow> shm_run ops mem;
     Some ((if ok then m # sent else sent), got, mem)
   }"
| "shm_run (ShmGet l inMsg # ops) mem =
     (let (ok, _, m, mem) = shm_getNetworkMsg inMsg 0 l mem
      in do {
        (sent, got, mem) \<leftarrow> shm_run ops mem;
        Some (sent, if ok then got(shm_readerId l := m # got (shm_readerId l)) else got, mem)
      })"

definition op_link :: "shm_op \<Rightarrow> LinkinterfaceSHM" where
  "op_link x = (case x of ShmSend l _ _ \<Rightarrow> l | ShmGet l _ \<Rightarrow> l)"

lemma shm_run_stream:
  assumes "shm_run ops mem = Some (sent, got, mem')" "shm_ok mem" "k < MAXMEMBERS" "\<forall>x \<in> set ops. \<exists>j. member_of (op_link x) j"
    and "unat (lost k mem) + length ops < 2 ^ 32"
  shows "shm_ok mem' \<and> unat (lost k mem) \<le> unat (lost k mem') \<and>
    (lost k mem' = lost k mem \<longrightarrow> unread k mem @ sent = got (int k) @ unread k mem')"
  using assms
proof (induction ops arbitrary: mem sent got)
  case Nil
  then show ?case by auto
next
  case (Cons x ops)
  note room = Cons.prems(5)
  have mem: "\<forall>x \<in> set ops. \<exists>j. member_of (op_link x) j" using Cons.prems(4) by simp
  show ?case
  proof (cases x)
    case (ShmSend l m rs)
    obtain ok rs1 mem1 sent1 where s: "shm_sendNetworkMsg m rs l mem = Some (ok, rs1, mem1)" "shm_run ops mem1 = Some (sent1, got, mem')"
      "sent = (if ok then m # sent1 else sent1)"
      using Cons.prems(1) ShmSend by (auto split: bind_splits)
    note f = shm_send_facts [OF Cons.prems(2,3) s(1)]
    have ok: "ok" using f(2) Cons.prems(4) ShmSend by (auto simp: op_link_def member_of_def)
    let ?full = "length (unread k mem) = length (mr_buffer (sm_fifo mem)) - 1"
    have u: "unat (lost k mem1) = unat (lost k mem) + (if ?full then 1 else 0)"
    proof (cases ?full)
      case True
      have "unat (lost k mem + 1) = unat (lost k mem) + 1" using room by (simp add: unat_word_ariths)
      then show ?thesis using True f(4) ok by simp
    qed (use f(4) in simp)
    have i: "unat (lost k mem1) + length ops < 2 ^ 32" using u room by (auto split: if_splits)
    note ih = Cons.IH [OF s(2) f(1) Cons.prems(3) mem i]
    show ?thesis
    proof (cases ?full)
      case True
      then have "unat (lost k mem) < unat (lost k mem')" using conjunct1 [OF conjunct2 [OF ih]] u by simp
      then show ?thesis using ih by auto
    next
      case False
      then have "lost k mem1 = lost k mem" "unread k mem1 = unread k mem @ [m]" using f(4,5) ok by simp_all
      then show ?thesis using ih s(3) ok by auto
    qed
  next
    case (ShmGet l inMsg)
    obtain ok n m mem1 where g: "shm_getNetworkMsg inMsg 0 l mem = (ok, n, m, mem1)" by (metis prod.collapse)
    then obtain got1 where s: "shm_getNetworkMsg inMsg 0 l mem = (ok, n, m, mem1)" "shm_run ops mem1 = Some (sent, got1, mem')"
      "got = (if ok then got1(shm_readerId l := m # got1 (shm_readerId l)) else got1)"
      using Cons.prems(1) ShmGet by (auto split: bind_splits)
    obtain j where j: "member_of l j" using Cons.prems(4) ShmGet by (auto simp: op_link_def)
    note f = shm_get_facts [OF Cons.prems(2) j Cons.prems(3) s(1)]
    have i: "unat (lost k mem1) + length ops < 2 ^ 32" using f(3) room by simp
    have r: "shm_readerId l = int j" using j by (simp add: member_of_def)
    note ih = Cons.IH [OF s(2) f(1) Cons.prems(3) mem i]
    show ?thesis using ih f(3,6) s(3) r by (cases "j = k") auto
  qed
qed

section \<open>The links\<close>

definition shm_crosses :: "NetworkMessage \<Rightarrow> int \<Rightarrow> NetworkMessage \<Rightarrow> bool" where
  "shm_crosses m n m' \<longleftrightarrow> wf_msg m \<and> unat (get_len m) \<le> MAX_NETWORK_MESSAGE_LENGTH \<and>
     (\<exists>rs rs' l l' k mem mem' mem'' inMsg n0. shm_ok mem \<and> member_of l' k \<and> unread k mem = [] \<and>
        shm_sendNetworkMsg m rs l mem = Some (True, rs', mem') \<and> shm_getNetworkMsg inMsg n0 l' mem' = (True, n, m', mem''))"

lemma shm_crossesD:
  assumes "shm_crosses m n m'"
  shows "wf_msg m" "unat (get_len m) \<le> MAX_NETWORK_MESSAGE_LENGTH" "n = - 1" "m' = m"
proof -
  obtain rs rs' l l' k mem mem' mem'' inMsg n0 where c: "wf_msg m" "unat (get_len m) \<le> MAX_NETWORK_MESSAGE_LENGTH" "shm_ok mem"
    "member_of l' k" "unread k mem = []" "shm_sendNetworkMsg m rs l mem = Some (True, rs', mem')"
    "shm_getNetworkMsg inMsg n0 l' mem' = (True, n, m', mem'')" using assms by (auto simp: shm_crosses_def)
  have k: "k < MAXMEMBERS" using c(4) by (simp add: member_of_def)
  note s = shm_send_facts [OF c(3) k c(6)]
  note g = shm_get_facts [OF s(1) c(4) k c(7)]
  have "length (mr_buffer (sm_fifo mem)) \<noteq> 1" using c(3) by (auto simp: shm_ok_def mr_inv_def)
  then show "m' = m" using s(5) g(6) c(5) by (auto split: if_splits)
  show "wf_msg m" "unat (get_len m) \<le> MAX_NETWORK_MESSAGE_LENGTH" "n = - 1" using c g by simp_all
qed

interpretation shm: transparent_link shm_crosses
  by unfold_locales (auto dest: shm_crossesD)

definition udp_crosses :: "NetworkMessage \<Rightarrow> int \<Rightarrow> NetworkMessage \<Rightarrow> bool" where
  "udp_crosses m n m' \<longleftrightarrow> wf_msg m \<and> unat (get_len m) \<le> MAX_NETWORK_MESSAGE_LENGTH \<and>
     (\<exists>buf l l' l'' inMsg. take (unat (numberOfBytesToSend m)) buf = take (unat (numberOfBytesToSend m)) (msg_bytes m) \<and>
        fifo_inv (incoming l) \<and> fifo_list (incoming l) = [] \<and>
        udp_putFromInterrupt buf l = Some l' \<and> udp_getNetworkMsg inMsg l' = (True, n, m', l''))"

lemma udp_received:
  assumes "fifo_inv (incoming l)" "fifo_list (incoming l) = []" "udp_putFromInterrupt buf l = Some l'"
  shows "\<exists>l''. udp_getNetworkMsg inMsg l' = (True, - 1, msg_of_bytes (take (HEADER_SIZE + MAX_NETWORK_MESSAGE_LENGTH) buf), l'')"
    "HEADER_SIZE + MAX_NETWORK_MESSAGE_LENGTH \<le> length buf"
proof -
  let ?m = "msg_of_bytes (take (HEADER_SIZE + MAX_NETWORK_MESSAGE_LENGTH) buf)" and ?f = "incoming l"
  have l: "incoming l' = snd (put ?f ?m)" and len: "HEADER_SIZE + MAX_NETWORK_MESSAGE_LENGTH \<le> length buf"
    using assms(3) by (auto simp: udp_putFromInterrupt_def Let_def split: if_splits)
  have "fst (put ?f ?m)" using put_ok_iff [OF assms(1), of ?m] assms(1) length_fifo_list [of ?f] assms(2)
    by (auto simp: fifo_inv_def)
  then have "fifo_list (incoming l') = [?m]" using fifo_list_put [OF assms(1), of ?m] l assms(2) by simp
  moreover have "fifo_list (incoming l') = (case fst (fifo_get (incoming l')) of None \<Rightarrow> [] | Some v \<Rightarrow> [v]) @ fifo_list (snd (fifo_get (incoming l')))"
    by (rule fifo_get_cases) (simp add: l fifo_inv_put assms(1))
  moreover have "(fst (fifo_get (incoming l')) = None) = (fifo_list (incoming l') = [])"
    using fq.get_None [of "incoming l'"] fifo_inv_put [OF assms(1)] l by simp
  ultimately have "fst (fifo_get (incoming l')) = Some ?m" by (auto split: option.splits)
  then show "\<exists>l''. udp_getNetworkMsg inMsg l' = (True, - 1, ?m, l'')"
    by (auto simp: udp_getNetworkMsg_def fifo_get_def get_def split: if_splits)
  show "HEADER_SIZE + MAX_NETWORK_MESSAGE_LENGTH \<le> length buf" by (rule len)
qed

lemma udp_crossesD:
  assumes "udp_crosses m n m'"
  shows "wf_msg m" "wf_msg m'" "unat (get_len m) \<le> MAX_NETWORK_MESSAGE_LENGTH" "n = - 1"
    "take (HEADER_SIZE + unat (get_len m)) (msg_bytes m') = take (HEADER_SIZE + unat (get_len m)) (msg_bytes m)"
proof -
  obtain buf l l' l'' inMsg where c: "wf_msg m" "unat (get_len m) \<le> MAX_NETWORK_MESSAGE_LENGTH"
    "take (unat (numberOfBytesToSend m)) buf = take (unat (numberOfBytesToSend m)) (msg_bytes m)"
    "fifo_inv (incoming l)" "fifo_list (incoming l) = []"
    "udp_putFromInterrupt buf l = Some l'" "udp_getNetworkMsg inMsg l' = (True, n, m', l'')" using assms by (auto simp: udp_crosses_def)
  let ?N = "HEADER_SIZE + MAX_NETWORK_MESSAGE_LENGTH"
  have m': "m' = msg_of_bytes (take ?N buf)" "n = - 1" "?N \<le> length buf"
    using udp_received(1) [OF c(4,5,6), of inMsg] udp_received(2) [OF c(4,5,6)] c(7) by auto
  then show "wf_msg m'" "n = - 1" by (simp_all add: msg_of_bytes_def wf_msg_def)
  have "msg_bytes m' = take ?N buf" unfolding m'(1) by (rule msg_of_bytes_inverse)
  then show "take (HEADER_SIZE + unat (get_len m)) (msg_bytes m') = take (HEADER_SIZE + unat (get_len m)) (msg_bytes m)"
    using c(2,3) bytes_to_send [OF c(2)] by (simp add: min_absorb1)
qed (use assms in \<open>auto simp: udp_crosses_def\<close>)

interpretation udp: transparent_link udp_crosses
  by unfold_locales (auto dest: udp_crossesD)

section \<open>Properties\<close>


definition fresh_memory :: shared_memory where
  "fresh_memory = \<lparr>sm_word = 1234, sm_fifo = MultipleReaderFifo_init (replicate 10 blank_msg) 50, sm_changed = 0\<rparr>"

lemma fresh_memory_facts: "shm_ok fresh_memory" "k < 50 \<Longrightarrow> unread k fresh_memory = []" "k < 50 \<Longrightarrow> lost k fresh_memory = 0"
  by (simp_all add: fresh_memory_def shm_ok_def mr_inv_def MultipleReaderFifo_init_def MAXMEMBERS_def list_all_length unread_def
      mr_list_def lost_def ring_dist_def)


text \<open>
  Publishing over UDP: what is put on a gateway is sent as one datagram; when it arrives in the receive buffer of
  another node, whatever an earlier datagram left behind it there, the gateway delivers exactly the published data
  with the information of the sender.
\<close>

lemma published_over_udp:
  assumes "ready_to_send A a data len i" "msgtype_of (msgtype_code (messageType i)) = messageType i"
    and "ready_to_receive B b tid (senderNode i) (sentTime i) len"
    and "fifo_inv (incoming l)" "fifo_list (incoming l) = []" "HEADER_SIZE + MAX_NETWORK_MESSAGE_LENGTH \<le> length buf"
  shows "\<exists>A' m. Gateway_put a tid len data i A = Some (1, A') \<and> gw_sent (nd_gateways A' ! a) = gw_sent (nd_gateways A ! a) @ [m] \<and>
    (\<exists>datagram. (\<forall>send. udp_sendNetworkMsg send m = send datagram) \<and>
      (take (length datagram) buf = datagram \<longrightarrow>
        (\<exists>l' l'' m' B'. udp_putFromInterrupt buf l = Some l' \<and> udp_getNetworkMsg inMsg l' = (True, - 1, m', l'') \<and>
          gateway_receive b m' (- 1) B = Some B' \<and>
          delivered B tid (take len data) (i\<lparr>linkId := linkIdentifier (nd_gateways B ! b)\<rparr>) B')))"
proof -
  obtain A' m where m: "Gateway_put a tid len data i A = Some (1, A')" "gw_sent (nd_gateways A' ! a) = gw_sent (nd_gateways A ! a) @ [m]"
    "wf_msg m" "unat (get_len m) = len"
    "\<forall>n m'. udp_crosses m n m' \<longrightarrow> (\<exists>B'. gateway_receive b m' n B = Some B' \<and>
        delivered B tid (take len data) (i\<lparr>linkId := linkIdentifier (nd_gateways B ! b)\<rparr>) B')"
    using udp.published_with_info [OF assms(1-3)] by blast
  let ?d = "take (unat (numberOfBytesToSend m)) (msg_bytes m)"
  have len: "unat (get_len m) \<le> MAX_NETWORK_MESSAGE_LENGTH" using assms(1) m(4) by (simp add: ready_to_send_def)
  have d: "length ?d = unat (numberOfBytesToSend m)" using bytes_to_send [OF len] len m(3) by (simp add: length_msg_bytes)
  have "\<exists>l' l'' m' B'. udp_putFromInterrupt buf l = Some l' \<and> udp_getNetworkMsg inMsg l' = (True, - 1, m', l'') \<and>
      gateway_receive b m' (- 1) B = Some B' \<and> delivered B tid (take len data) (i\<lparr>linkId := linkIdentifier (nd_gateways B ! b)\<rparr>) B'"
    if t: "take (length ?d) buf = ?d"
  proof -
    obtain l' where l': "udp_putFromInterrupt buf l = Some l'" using assms(6) by (simp add: udp_putFromInterrupt_def Let_def)
    obtain l'' m' where g: "udp_getNetworkMsg inMsg l' = (True, - 1, m', l'')" using udp_received(1) [OF assms(4,5) l'] by blast
    have "udp_crosses m (- 1) m'" using m(3) len assms(4,5) l' g t [unfolded d] unfolding udp_crosses_def by blast
    then show ?thesis using m(5) l' g by blast
  qed
  moreover have "\<forall>send. udp_sendNetworkMsg send m = send ?d" by (simp add: udp_sendNetworkMsg_def)
  ultimately show ?thesis using m(1,2) by blast
qed

lemma published_over_udp_witness:
  "\<exists>A' m. Gateway_put 0 2000 3 [1, 2, 3] example_info (example_node 5) = Some (1, A') \<and>
    gw_sent (nd_gateways A' ! 0) = gw_sent (nd_gateways (example_node 5) ! 0) @ [m] \<and>
    (\<forall>send. udp_sendNetworkMsg send m = send (take (unat (numberOfBytesToSend m)) (msg_bytes m)))"
proof -
  let ?l = "\<lparr>incoming = Fifo_init (replicate 4 blank_msg), udp_threadToResume = True, udp_until = 0\<rparr>"
  have f: "fifo_inv (incoming ?l)" "fifo_list (incoming ?l) = []"
    by (simp_all add: Fifo_init_def fifo_inv_def fifo_len_def fifo_list_def getElementCount_def)
  have b: "HEADER_SIZE + MAX_NETWORK_MESSAGE_LENGTH \<le> length (replicate 1336 (0 :: u8))"
    by (simp add: HEADER_SIZE_def MAX_NETWORK_MESSAGE_LENGTH_def)
  obtain A' m where "Gateway_put 0 2000 3 [1, 2, 3] example_info (example_node 5) = Some (1, A')"
    "gw_sent (nd_gateways A' ! 0) = gw_sent (nd_gateways (example_node 5) ! 0) @ [m]"
    using published_over_udp [OF example_ends f b, of blank_msg] by (elim exE conjE)
  then show ?thesis by (auto simp: udp_sendNetworkMsg_def)
qed

text \<open>The same through shared memory, for a member that has read everything before.\<close>

lemma published_over_shm:
  assumes "ready_to_send A a data len i" "msgtype_of (msgtype_code (messageType i)) = messageType i"
    and "ready_to_receive B b tid (senderNode i) (sentTime i) len"
    and "shm_ok mem" "shm_fifo l" "member_of l' k" "unread k mem = []"
  shows "\<exists>A' m. Gateway_put a tid len data i A = Some (1, A') \<and> gw_sent (nd_gateways A' ! a) = gw_sent (nd_gateways A ! a) @ [m] \<and>
    (\<forall>ok rs rs' mem'. shm_sendNetworkMsg m rs l mem = Some (ok, rs', mem') \<longrightarrow>
      (\<exists>m' mem'' B'. shm_getNetworkMsg inMsg n0 l' mem' = (True, - 1, m', mem'') \<and> gateway_receive b m' (- 1) B = Some B' \<and>
        delivered B tid (take len data) (i\<lparr>linkId := linkIdentifier (nd_gateways B ! b)\<rparr>) B'))"
proof -
  obtain A' m where m: "Gateway_put a tid len data i A = Some (1, A')" "gw_sent (nd_gateways A' ! a) = gw_sent (nd_gateways A ! a) @ [m]"
    "wf_msg m" "unat (get_len m) = len"
    "\<forall>n m'. shm_crosses m n m' \<longrightarrow> (\<exists>B'. gateway_receive b m' n B = Some B' \<and>
        delivered B tid (take len data) (i\<lparr>linkId := linkIdentifier (nd_gateways B ! b)\<rparr>) B')"
    using shm.published_with_info [OF assms(1-3)] by blast
  have len: "unat (get_len m) \<le> MAX_NETWORK_MESSAGE_LENGTH" using assms(1) m(4) by (simp add: ready_to_send_def)
  have k: "k < MAXMEMBERS" using assms(6) by (simp add: member_of_def)
  have "\<exists>m' mem'' B'. shm_getNetworkMsg inMsg n0 l' mem' = (True, - 1, m', mem'') \<and> gateway_receive b m' (- 1) B = Some B' \<and>
        delivered B tid (take len data) (i\<lparr>linkId := linkIdentifier (nd_gateways B ! b)\<rparr>) B'"
    if s: "shm_sendNetworkMsg m rs l mem = Some (ok, rs', mem')" for ok rs rs' mem'
  proof -
    note f = shm_send_facts [OF assms(4) k s]
    obtain ok2 n m' mem'' where g: "shm_getNetworkMsg inMsg n0 l' mem' = (ok2, n, m', mem'')" by (metis prod.collapse)
    note h = shm_get_facts [OF f(1) assms(6) k g]
    have "ok2" using f(2,5) h(5) assms(5,7) by simp
    then have g: "shm_getNetworkMsg inMsg n0 l' mem' = (True, n, m', mem'')" using g by simp
    have "shm_sendNetworkMsg m rs l mem = Some (True, rs', mem')" using s f(2) assms(5) by simp
    then have "shm_crosses m n m'" using m(3) len assms(4,6,7) g unfolding shm_crosses_def by blast
    then show ?thesis using m(5) h(2) g by blast
  qed
  then show ?thesis using m(1,2) by blast
qed

end
