(* ===== verification/Boot.thy ===== *)
theory Boot
  imports String_Pico
begin

text \<open>
  The start of the system: the lists to which all static objects of an application add themselves
  (\<open>api/listelement.h\<close>, \<open>src/independent/listelement.cpp\<close>), the registered applications
  (\<open>src/independent/application.cpp\<close>) and \<open>initSystem\<close> of \<open>src/independent/main.cpp\<close>, which calls the initiators
  and links each subscriber into the list of its topic. An element is an address, the pointers are a store. A
  traversal of a cyclic list does not end, which is the value \<open>None\<close>. The functions \<open>init\<close> that
  belong to the applications are a list of calls. \<open>RODOS_ASSERT\<close> reports an error and goes on.
\<close>

section \<open>The code\<close>

subsection \<open>Lists\<close>

text \<open>The variables of type \<open>List\<close>: one for each kind of object, and \<open>mySubscribers\<close> of each topic.\<close>

datatype list_head = ThreadList | TimeEventList | InitiatorList | SubscriberList | TopicList | ApplicationList
  | SubscribersOf nat

record list_heap =
  le_next :: "nat \<Rightarrow> nat option"
  le_first :: "list_head \<Rightarrow> nat option"
  le_listElementID :: "nat \<Rightarrow> int"
  le_listElementCounter :: int
  le_isSchedulerRunning :: bool
  le_errors :: nat

definition le_append :: "list_head \<Rightarrow> nat \<Rightarrow> list_heap \<Rightarrow> list_heap" where
  "le_append l e h =
     (let h = h\<lparr>le_next := (le_next h)(e := le_first h l)\<rparr>;
          h = h\<lparr>le_first := (le_first h)(l := Some e)\<rparr>
      in if \<not> le_isSchedulerRunning h then h else h\<lparr>le_errors := le_errors h + 1\<rparr>)"

definition ListElement_new :: "list_head \<Rightarrow> nat \<Rightarrow> list_heap \<Rightarrow> list_heap" where
  "ListElement_new l e h =
     (let h = h\<lparr>le_listElementID := (le_listElementID h)(e := le_listElementCounter h), le_listElementCounter := le_listElementCounter h + 1\<rparr>
      in le_append l e h)"

text \<open>\<open>ITERATE_LIST\<close>: the elements it visits, and the search for the first one with a property.\<close>

partial_function (option) iterate :: "(nat \<Rightarrow> nat option) \<Rightarrow> nat option \<Rightarrow> nat list option" where
  "iterate nx iter =
     (case iter of None \<Rightarrow> Some [] | Some e \<Rightarrow> Option.bind (iterate nx (nx e)) (\<lambda>es. Some (e # es)))"

partial_function (option) find_element :: "(nat \<Rightarrow> bool option) \<Rightarrow> (nat \<Rightarrow> nat option) \<Rightarrow> nat option \<Rightarrow> nat option option" where
  "find_element p nx iter =
     (case iter of None \<Rightarrow> Some None
      | Some e \<Rightarrow> Option.bind (p e) (\<lambda>found. if found then Some (Some e) else find_element p nx (nx e)))"

subsection \<open>Applications\<close>

record applications =
  ap_heap :: list_heap
  ap_name :: "nat \<Rightarrow> u8 list option"
  ap_applicationId :: "nat \<Rightarrow> int"
  ap_isActivated :: "nat \<Rightarrow> bool"

definition Application_new :: "u8 list option \<Rightarrow> int \<Rightarrow> nat \<Rightarrow> applications \<Rightarrow> applications" where
  "Application_new name i e s =
     s\<lparr>ap_heap := ListElement_new ApplicationList e (ap_heap s), ap_name := (ap_name s)(e := name),
       ap_applicationId := (ap_applicationId s)(e := i), ap_isActivated := (ap_isActivated s)(e := True)\<rparr>"

definition activate_app :: "nat \<Rightarrow> applications \<Rightarrow> applications" where
  "activate_app e s = s\<lparr>ap_isActivated := (ap_isActivated s)(e := True)\<rparr>"

definition deactivate_app :: "nat \<Rightarrow> applications \<Rightarrow> applications" where
  "deactivate_app e s = s\<lparr>ap_isActivated := (ap_isActivated s)(e := False)\<rparr>"

definition findApplication :: "int \<Rightarrow> applications \<Rightarrow> nat option option" where
  "findApplication i s =
     find_element (\<lambda>e. Some (ap_applicationId s e = i)) (le_next (ap_heap s)) (le_first (ap_heap s) ApplicationList)"

definition findApplication_name :: "u8 list option \<Rightarrow> applications \<Rightarrow> nat option option" where
  "findApplication_name name s =
     find_element (\<lambda>e. map_option (\<lambda>c. c = 0) (strcmp (ap_name s e) name)) (le_next (ap_heap s)) (le_first (ap_heap s) ApplicationList)"

subsection \<open>The start\<close>

datatype boot_call = CallInitTime | CallInitiator nat | CallApplication nat | CallTimeEvent nat | CallThread nat

record system =
  sys_heap :: list_heap
  sys_isHostBigEndian :: bool
  sys_defaultGatewayTopic :: nat
  sys_isAGateway :: "nat \<Rightarrow> bool"
  sys_topicInterface :: "nat \<Rightarrow> nat"
  sys_calls :: "boot_call list"

text \<open>The union \<open>ByteSexDetector\<close>, given the bytes of the value \<open>1\<close> of type \<open>long\<close> in memory.\<close>

definition detect_big_endian :: "u8 list \<Rightarrow> bool" where
  "detect_big_endian asBytes \<longleftrightarrow> asBytes ! 3 = 1"

definition call_all :: "(nat \<Rightarrow> boot_call) \<Rightarrow> list_head \<Rightarrow> system \<Rightarrow> system option" where
  "call_all call l s = do {
     es \<leftarrow> iterate (le_next (sys_heap s)) (le_first (sys_heap s) l);
     Some (s\<lparr>sys_calls := sys_calls s @ map call es\<rparr>)
   }"

definition subscribed_to :: "system \<Rightarrow> nat \<Rightarrow> list_head" where
  "subscribed_to s e = SubscribersOf (if sys_isAGateway s e then sys_defaultGatewayTopic s else sys_topicInterface s e)"

text \<open>The successor is read before the element is moved to the list of its topic.\<close>

partial_function (option) move_subscribers :: "(nat \<Rightarrow> list_head) \<Rightarrow> nat option \<Rightarrow> list_heap \<Rightarrow> list_heap option" where
  "move_subscribers tgt iter h =
     (case iter of None \<Rightarrow> Some h
      | Some e \<Rightarrow> (let nxt = le_next h e; h = le_append (tgt e) e h in move_subscribers tgt nxt h))"

definition initSystem :: "u8 list \<Rightarrow> system \<Rightarrow> system option" where
  "initSystem one s = do {
     let s = s\<lparr>sys_isHostBigEndian := detect_big_endian one\<rparr>;
     let s = s\<lparr>sys_calls := sys_calls s @ [CallInitTime]\<rparr>;
     s \<leftarrow> call_all CallInitiator InitiatorList s;
     s \<leftarrow> call_all CallApplication ApplicationList s;
     h \<leftarrow> move_subscribers (subscribed_to s) (le_first (sys_heap s) SubscriberList) (sys_heap s);
     let s = s\<lparr>sys_heap := h\<rparr>;
     s \<leftarrow> call_all CallTimeEvent TimeEventList s;
     call_all CallThread ThreadList s
   }"

section \<open>Lists in the store\<close>

fun chain :: "(nat \<Rightarrow> nat option) \<Rightarrow> nat option \<Rightarrow> nat list \<Rightarrow> bool" where
  "chain nx p [] \<longleftrightarrow> p = None"
| "chain nx p (e # es) \<longleftrightarrow> p = Some e \<and> chain nx (nx e) es"

lemma chain_upd [simp]: "e \<notin> set es \<Longrightarrow> chain (nx(e := q)) p es = chain nx p es"
  by (induction es arbitrary: p) auto

lemma iterate_chain: "chain nx p es \<Longrightarrow> iterate nx p = Some es"
  by (induction es arbitrary: p) (simp_all add: iterate.simps)

lemma find_chain:
  "chain nx p es \<Longrightarrow> (\<And>e. e \<in> set es \<Longrightarrow> q e = Some (r e)) \<Longrightarrow> find_element q nx p = Some (find r es)"
  by (induction es arbitrary: p) (simp_all add: find_element.simps)

text \<open>The lists of a heap: each is the chain of some elements, no element is in two of them.\<close>

definition holds_lists :: "list_heap \<Rightarrow> (list_head \<Rightarrow> nat list) \<Rightarrow> bool" where
  "holds_lists h cs \<longleftrightarrow> (\<forall>l. chain (le_next h) (le_first h l) (cs l) \<and> distinct (cs l)) \<and>
     (\<forall>l k. l \<noteq> k \<longrightarrow> set (cs l) \<inter> set (cs k) = {})"

lemma append_fields:
  "le_next (le_append l e h) = (le_next h)(e := le_first h l)" "le_first (le_append l e h) = (le_first h)(l := Some e)"
  "le_isSchedulerRunning (le_append l e h) = le_isSchedulerRunning h"
  "\<not> le_isSchedulerRunning h \<Longrightarrow> le_errors (le_append l e h) = le_errors h"
  by (simp_all add: le_append_def Let_def)

lemma new_fields:
  "le_next (ListElement_new l e h) = (le_next h)(e := le_first h l)" "le_first (ListElement_new l e h) = (le_first h)(l := Some e)"
  "le_isSchedulerRunning (ListElement_new l e h) = le_isSchedulerRunning h"
  "\<not> le_isSchedulerRunning h \<Longrightarrow> le_errors (ListElement_new l e h) = le_errors h"
  "le_listElementCounter (ListElement_new l e h) = le_listElementCounter h + 1"
  by (simp_all add: ListElement_new_def append_fields) (simp add: le_append_def Let_def)

text \<open>The static constructors run in some order; every one puts its object in front of its list.\<close>

fun construct_all :: "(list_head \<times> nat) list \<Rightarrow> list_heap \<Rightarrow> list_heap" where
  "construct_all [] h = h"
| "construct_all ((l, e) # os) h = construct_all os (ListElement_new l e h)"

definition objects_of :: "list_head \<Rightarrow> (list_head \<times> nat) list \<Rightarrow> nat list" where
  "objects_of l os = map snd (filter (\<lambda>(k, _). k = l) os)"

lemma objects_of_simps [simp]:
  "objects_of l [] = []" "objects_of l ((k, e) # os) = (if k = l then e # objects_of l os else objects_of l os)"
  by (simp_all add: objects_of_def)

lemma objects_of_subset: "set (objects_of l os) \<subseteq> snd ` set os"
  by (auto simp: objects_of_def)

lemma construct_lists:
  assumes "holds_lists h cs" "distinct (map snd os)" "\<forall>l. set (cs l) \<inter> snd ` set os = {}" "\<not> le_isSchedulerRunning h"
  shows "holds_lists (construct_all os h) (\<lambda>l. rev (objects_of l os) @ cs l) \<and> le_errors (construct_all os h) = le_errors h \<and>
    \<not> le_isSchedulerRunning (construct_all os h)"
  using assms
proof (induction os arbitrary: h cs)
  case Nil
  then show ?case by simp
next
  case (Cons x os)
  obtain l e where x: "x = (l, e)" by (cases x)
  let ?h = "ListElement_new l e h" and ?cs = "cs(l := e # cs l)"
  have e: "\<forall>k. e \<notin> set (cs k)" using Cons.prems(3) x by auto
  have holds: "holds_lists ?h ?cs" using Cons.prems(1) e by (auto simp: holds_lists_def new_fields)
  have new: "\<forall>k. set (?cs k) \<inter> snd ` set os = {}" "distinct (map snd os)" using Cons.prems(2,3) x by auto
  have run: "\<not> le_isSchedulerRunning ?h" using Cons.prems(4) by (simp add: new_fields)
  note Cons.IH [OF holds new(2,1) run]
  moreover have "(\<lambda>k. rev (objects_of k os) @ ?cs k) = (\<lambda>k. rev (objects_of k (x # os)) @ cs k)" by (auto simp: x)
  ultimately show ?case using Cons.prems(4) x by (simp add: new_fields)
qed

text \<open>Moving the subscribers: they leave their list and get in front of those of their topics.\<close>

lemma move_lists:
  assumes "chain (le_next h) p es" "distinct es" "\<forall>l. l \<noteq> SubscriberList \<longrightarrow> chain (le_next h) (le_first h l) (cs l) \<and> set (cs l) \<inter> set es = {}"
    and "\<forall>e. tgt e \<noteq> SubscriberList" "\<not> le_isSchedulerRunning h"
  shows "\<exists>h'. move_subscribers tgt p h = Some h' \<and> le_errors h' = le_errors h \<and>
    (\<forall>l. l \<noteq> SubscriberList \<longrightarrow> chain (le_next h') (le_first h' l) (rev (filter (\<lambda>e. tgt e = l) es) @ cs l))"
  using assms
proof (induction es arbitrary: p h cs)
  case Nil
  then show ?case by (simp add: move_subscribers.simps)
next
  case (Cons e es)
  let ?l = "tgt e" and ?h = "le_append (tgt e) e h"
  let ?cs = "cs(?l := e # cs ?l)"
  have p: "p = Some e" "chain (le_next h) (le_next h e) es" "e \<notin> set es" "distinct es" using Cons.prems(1,2) by auto
  have l: "?l \<noteq> SubscriberList" using Cons.prems(4) by simp
  have rest: "chain (le_next ?h) (le_next h e) es" using p by (simp add: append_fields)
  have lists: "\<forall>k. k \<noteq> SubscriberList \<longrightarrow> chain (le_next ?h) (le_first ?h k) (?cs k) \<and> set (?cs k) \<inter> set es = {}"
    using Cons.prems(3) p(3) l by (auto simp: append_fields)
  have run: "\<not> le_isSchedulerRunning ?h" using Cons.prems(5) by (simp add: append_fields)
  obtain h' where h': "move_subscribers tgt (le_next h e) ?h = Some h'" "le_errors h' = le_errors ?h"
    "\<forall>k. k \<noteq> SubscriberList \<longrightarrow> chain (le_next h') (le_first h' k) (rev (filter (\<lambda>e. tgt e = k) es) @ ?cs k)"
    using Cons.IH [OF rest p(4) lists Cons.prems(4) run] by blast
  have "rev (filter (\<lambda>e. tgt e = k) es) @ ?cs k = rev (filter (\<lambda>e. tgt e = k) (e # es)) @ cs k" for k by auto
  then have "\<forall>k. k \<noteq> SubscriberList \<longrightarrow> chain (le_next h') (le_first h' k) (rev (filter (\<lambda>e. tgt e = k) (e # es)) @ cs k)"
    using h'(3) by metis
  moreover have "move_subscribers tgt p h = Some h'" using h'(1) p(1) by (subst move_subscribers.simps) (simp add: Let_def)
  moreover have "le_errors h' = le_errors h" using h'(2) Cons.prems(5) by (simp add: append_fields)
  ultimately show ?case by blast
qed

lemma call_all_chain:
  "chain (le_next (sys_heap s)) (le_first (sys_heap s) l) es \<Longrightarrow> call_all c l s = Some (s\<lparr>sys_calls := sys_calls s @ map c es\<rparr>)"
  by (simp add: call_all_def iterate_chain)

section \<open>Properties\<close>

definition static_heap :: list_heap where
  "static_heap = \<lparr>le_next = \<lambda>_. None, le_first = \<lambda>_. None, le_listElementID = \<lambda>_. 0, le_listElementCounter = 0,
     le_isSchedulerRunning = False, le_errors = 0\<rparr>"

lemma static_lists: "holds_lists static_heap (\<lambda>_. [])"
  by (simp add: holds_lists_def static_heap_def)

text \<open>
  C14. The start connects everything: whatever static objects were constructed, in any order and of any kinds,
  \<open>initSystem\<close> ends without an error report, each topic has exactly its subscribers, in the order of
  their construction, and the default gateway topic the gateways; each initiator, application, timer and thread
  is initialized once, in this order of kinds, those constructed last first.
\<close>

theorem boot_connects:
  assumes "distinct (map snd os)" "sys_heap s = construct_all os static_heap" "\<forall>t. objects_of (SubscribersOf t) os = []"
  shows "\<exists>s'. initSystem one s = Some s' \<and> le_errors (sys_heap s') = 0 \<and>
    (\<forall>t. iterate (le_next (sys_heap s')) (le_first (sys_heap s') (SubscribersOf t)) =
       Some (filter (\<lambda>e. subscribed_to s e = SubscribersOf t) (objects_of SubscriberList os))) \<and>
    sys_calls s' = sys_calls s @ [CallInitTime] @ map CallInitiator (rev (objects_of InitiatorList os)) @
      map CallApplication (rev (objects_of ApplicationList os)) @ map CallTimeEvent (rev (objects_of TimeEventList os)) @
      map CallThread (rev (objects_of ThreadList os))"
proof -
  let ?cs = "\<lambda>l. rev (objects_of l os)" and ?h = "sys_heap s" and ?es = "rev (objects_of SubscriberList os)"
  have c: "holds_lists ?h ?cs" "le_errors ?h = 0" "\<not> le_isSchedulerRunning ?h"
    using construct_lists [OF static_lists assms(1)] assms(2) by (simp_all add: static_heap_def)
  then have ch: "chain (le_next ?h) (le_first ?h l) (?cs l)" "distinct (?cs l)" "l \<noteq> k \<Longrightarrow> set (?cs l) \<inter> set (?cs k) = {}" for l k
    unfolding holds_lists_def by blast+
  let ?tgt = "subscribed_to s"
  obtain h' where h': "move_subscribers ?tgt (le_first ?h SubscriberList) ?h = Some h'" "le_errors h' = le_errors ?h"
    "\<forall>l. l \<noteq> SubscriberList \<longrightarrow> chain (le_next h') (le_first h' l) (rev (filter (\<lambda>e. ?tgt e = l) ?es) @ ?cs l)"
    using move_lists [OF ch(1,2) [of SubscriberList], of ?cs ?tgt] ch c(3) by (fastforce simp: subscribed_to_def)
  have other: "chain (le_next h') (le_first h' l) (?cs l)" if "l = TimeEventList \<or> l = ThreadList" for l
    using h'(3) [rule_format, of l] that by (auto simp: subscribed_to_def)
  have "iterate (le_next h') (le_first h' (SubscribersOf t)) = Some (filter (\<lambda>e. ?tgt e = SubscribersOf t) (objects_of SubscriberList os))" for t
    using h'(3) [rule_format, of "SubscribersOf t"] assms(3) by (intro iterate_chain) (simp add: rev_filter)
  moreover have "\<exists>s'. initSystem one s = Some s' \<and> sys_heap s' = h' \<and>
      sys_calls s' = sys_calls s @ [CallInitTime] @ map CallInitiator (?cs InitiatorList) @
      map CallApplication (?cs ApplicationList) @ map CallTimeEvent (?cs TimeEventList) @ map CallThread (?cs ThreadList)"
  proof -
    have t: "subscribed_to (s\<lparr>sys_isHostBigEndian := b, sys_calls := c\<rparr>) = ?tgt" for b c by (simp add: subscribed_to_def fun_eq_iff)
    show ?thesis
      using ch(1) [of InitiatorList] ch(1) [of ApplicationList] other [of TimeEventList] other [of ThreadList] h'(1)
      by (simp add: initSystem_def call_all_chain t)
  qed
  ultimately show ?thesis using h'(2) c(2) by auto
qed

theorem boot_connects_witness:
  "\<exists>s'. initSystem [1, 0, 0, 0] \<lparr>sys_heap = construct_all [(TopicList, 10), (SubscriberList, 1), (SubscriberList, 2), (SubscriberList, 3)] static_heap,
       sys_isHostBigEndian = False, sys_defaultGatewayTopic = 0, sys_isAGateway = (\<lambda>e. e = 2), sys_topicInterface = (\<lambda>_. 10), sys_calls = []\<rparr> = Some s' \<and>
     iterate (le_next (sys_heap s')) (le_first (sys_heap s') (SubscribersOf 10)) = Some [1, 3] \<and> sys_calls s' = [CallInitTime]"
  using boot_connects [of "[(TopicList, 10), (SubscriberList, 1), (SubscriberList, 2), (SubscriberList, 3)]"
      "\<lparr>sys_heap = construct_all [(TopicList, 10), (SubscriberList, 1), (SubscriberList, 2), (SubscriberList, 3)] static_heap,
       sys_isHostBigEndian = False, sys_defaultGatewayTopic = 0, sys_isAGateway = (\<lambda>e. e = 2), sys_topicInterface = (\<lambda>_. 10), sys_calls = []\<rparr>" "[1, 0, 0, 0]"]
  by (fastforce simp: subscribed_to_def)

text \<open>An application is found by its number or name if there is one; of several the one constructed last.\<close>

lemma findApplication_last:
  assumes "holds_lists (ap_heap s) cs"
  shows "findApplication i s = Some (find (\<lambda>e. ap_applicationId s e = i) (cs ApplicationList))"
  using assms unfolding findApplication_def holds_lists_def by (intro find_chain) auto

lemma findApplication_name_last:
  assumes "holds_lists (ap_heap s) cs" "chars name" "\<And>e. e \<in> set (cs ApplicationList) \<Longrightarrow> ap_name s e = Some (nm e @ 0 # r e) \<and> chars (nm e)"
  shows "findApplication_name (Some (name @ 0 # q)) s = Some (find (\<lambda>e. nm e = name) (cs ApplicationList))"
proof -
  have "strcmp (ap_name s e) (Some (name @ 0 # q)) = Some (compare (nm e) name)" if "e \<in> set (cs ApplicationList)" for e
    using assms(3) [OF that] assms(2) by (simp add: strcmp_def strcmp_string)
  then show ?thesis
    using assms(1) unfolding findApplication_name_def holds_lists_def by (intro find_chain) (auto simp: compare_eq)
qed

text \<open>The detection of the byte order is right where \<open>long\<close> has four bytes. A big-endian host with eight
  bytes is taken for a little-endian one.\<close>

lemma detect_four: "detect_big_endian [0, 0, 0, 1]" "\<not> detect_big_endian [1, 0, 0, 0]" "\<not> detect_big_endian [1, 0, 0, 0, 0, 0, 0, 0]"
  by (simp_all add: detect_big_endian_def)

lemma detect_eight_wrong: "\<not> detect_big_endian [0, 0, 0, 0, 0, 0, 0, 1]"
  by (simp add: detect_big_endian_def)

end
