(* ===== verification/Topic_Register.thy ===== *)
theory Topic_Register
  imports Topic Time_Model
begin

text \<open>
  The distributed topic register (\<open>support-libs/distributed-topic-register.cpp\<close>): each node reports the ids of its
  topics with subscribers, and keeps in the topics a bit for each node that has subscribers too. A node not heard
  of for ten seconds is removed. One turn of the loop of the thread is a function; the report it publishes is its
  result. A shift by more than 31 and an access outside of the array are \<open>None\<close>.
\<close>

section \<open>The code\<close>

definition MAX_NUM_OF_NODES :: nat where "MAX_NUM_OF_NODES = 32"

record TopicListPerNode =
  tl_nodeNr :: u32
  tl_nodeIndex :: u8
  tl_topicListReport :: TopicListReport

record DistributedTopicRegister =
  lastReportTimeOfNode :: "int list"
  topicListFromMyNode :: TopicListPerNode

definition DistributedTopicRegister_new :: "TopicListPerNode \<Rightarrow> DistributedTopicRegister" where
  "DistributedTopicRegister_new mine =
     \<lparr>lastReportTimeOfNode = replicate MAX_NUM_OF_NODES END_OF_TIME,
      topicListFromMyNode = mine\<lparr>tl_topicListReport := report_init (tl_topicListReport mine)\<rparr>\<rparr>"

text \<open>The preparation of \<open>run\<close>: the topics with subscribers.\<close>

fun add_subscribed :: "'s Topic list \<Rightarrow> TopicListReport \<Rightarrow> TopicListReport option" where
  "add_subscribed [] r = Some r"
| "add_subscribed (iter # ts) r = do {
     r \<leftarrow> (if t_mySubscribers iter \<noteq> [] then report_add (t_topicId iter) r else Some r);
     add_subscribed ts r
   }"

definition run_prepare :: "'s Topic list \<Rightarrow> DistributedTopicRegister \<Rightarrow> DistributedTopicRegister option" where
  "run_prepare ts d = do {
     r \<leftarrow> add_subscribed ts (tl_topicListReport (topicListFromMyNode d));
     Some (d\<lparr>topicListFromMyNode := (topicListFromMyNode d)\<lparr>tl_topicListReport := r\<rparr>\<rparr>)
   }"

definition clear_node :: "nat \<Rightarrow> 's Topic list \<Rightarrow> 's Topic list" where
  "clear_node i = map (\<lambda>iter. iter\<lparr>t_receiverNodesBitMap := t_receiverNodesBitMap iter AND NOT (push_bit i 1)\<rparr>)"

fun clear_dead :: "nat list \<Rightarrow> int \<Rightarrow> int list \<Rightarrow> 's Topic list \<Rightarrow> 's Topic list" where
  "clear_dead [] old lst ts = ts"
| "clear_dead (i # js) old lst ts = clear_dead js old lst (if lst ! i < old then clear_node i ts else ts)"

definition run_round :: "int \<Rightarrow> int \<Rightarrow> 's Topic list \<Rightarrow> DistributedTopicRegister \<Rightarrow> TopicListPerNode \<times> 's Topic list \<times> DistributedTopicRegister" where
  "run_round now nodeNr ts d =
     (let nr = of_int nodeNr :: u32;
          mine = (topicListFromMyNode d)\<lparr>tl_nodeNr := nr, tl_nodeIndex := ucast (nr mod of_nat MAX_NUM_OF_NODES)\<rparr>;
          d = d\<lparr>topicListFromMyNode := mine\<rparr>;
          definitionOfVeryOld = i64 (now - 10 * SECONDS)
      in (mine, clear_dead [0..<MAX_NUM_OF_NODES] definitionOfVeryOld (lastReportTimeOfNode d) ts, d))"

fun set_reported :: "u32 \<Rightarrow> TopicListReport \<Rightarrow> 's Topic list \<Rightarrow> 's Topic list option" where
  "set_reported oneAtBitPos r [] = Some []"
| "set_reported oneAtBitPos r (iter # ts) = do {
     found \<leftarrow> report_find (t_topicId iter) r;
     ts \<leftarrow> set_reported oneAtBitPos r ts;
     Some ((if found then iter\<lparr>t_receiverNodesBitMap := t_receiverNodesBitMap iter OR oneAtBitPos\<rparr> else iter) # ts)
   }"

definition register_put :: "int \<Rightarrow> int \<Rightarrow> TopicListPerNode \<Rightarrow> 's Topic list \<Rightarrow> DistributedTopicRegister \<Rightarrow>
    ('s Topic list \<times> DistributedTopicRegister) option" where
  "register_put now nodeNr hisTopics ts d =
     (if tl_nodeNr hisTopics = of_int nodeNr then Some (ts, d)
      else let i = unat (tl_nodeIndex hisTopics)
      in if i \<ge> 32 \<or> i \<ge> length (lastReportTimeOfNode d) then None
         else do {
           let d = d\<lparr>lastReportTimeOfNode := (lastReportTimeOfNode d)[i := now]\<rparr>;
           ts \<leftarrow> set_reported (push_bit i 1) (tl_topicListReport hisTopics) ts;
           Some (ts, d)
         })"

section \<open>Bits\<close>

lemma bit_clear_dead:
  assumes "distinct js" "\<forall>i \<in> set js. i < 32" "j < 32" "t < length ts"
  shows "bit (t_receiverNodesBitMap (clear_dead js old lst ts ! t)) j \<longleftrightarrow>
    bit (t_receiverNodesBitMap (ts ! t)) j \<and> \<not> (j \<in> set js \<and> lst ! j < old)"
  using assms
proof (induction js arbitrary: ts)
  case (Cons i js)
  have "bit (t_receiverNodesBitMap (clear_node i ts ! t)) j \<longleftrightarrow> bit (t_receiverNodesBitMap (ts ! t)) j \<and> i \<noteq> j"
    using Cons.prems by (auto simp: clear_node_def bit_simps)
  moreover have "length (clear_node i ts) = length ts" by (simp add: clear_node_def)
  ultimately show ?case using Cons.prems Cons.IH by auto
qed simp

lemma clear_dead_keeps: "length (clear_dead js old lst ts) = length ts"
  "t < length ts \<Longrightarrow> t_topicId (clear_dead js old lst ts ! t) = t_topicId (ts ! t)"
proof -
  have c: "length (clear_node i xs) = length xs" "t < length xs \<Longrightarrow> t_topicId (clear_node i xs ! t) = t_topicId (xs ! t)"
    for i and xs :: "'a Topic list" by (simp_all add: clear_node_def)
  show "length (clear_dead js old lst ts) = length ts" by (induction js arbitrary: ts) (simp_all add: c)
  show "t < length ts \<Longrightarrow> t_topicId (clear_dead js old lst ts ! t) = t_topicId (ts ! t)" by (induction js arbitrary: ts) (simp_all add: c)
qed

lemma set_reported_all:
  "wf_report r \<Longrightarrow> set_reported b r ts =
     Some (map (\<lambda>t. if t_topicId t \<in> listed r then t\<lparr>t_receiverNodesBitMap := t_receiverNodesBitMap t OR b\<rparr> else t) ts)"
  by (induction ts) (simp_all add: report_find_listed)

lemma add_subscribed_all:
  assumes "wf_report r" "numberOfTopics r + length ts < MAX_SUBSCRIBERS"
  shows "\<exists>r'. add_subscribed ts r = Some r' \<and> wf_report r' \<and> listed r' = listed r \<union> t_topicId ` {t \<in> set ts. t_mySubscribers t \<noteq> []}"
  using assms
proof (induction ts arbitrary: r)
  case (Cons t ts)
  show ?case
  proof (cases "t_mySubscribers t = []")
    case True
    then show ?thesis using Cons.IH [OF Cons.prems(1)] Cons.prems(2) by (fastforce)
  next
    case False
    obtain r1 where r1: "report_add (t_topicId t) r = Some r1" "wf_report r1" "listed r1 = insert (t_topicId t) (listed r)"
      using report_add_listed [OF Cons.prems(1), of "t_topicId t"] Cons.prems(2) by (auto split: if_splits)
    have "numberOfTopics r1 \<le> numberOfTopics r + 1"
      using r1(1) Cons.prems(1) by (auto simp: report_add_def report_find_listed split: if_splits)
    then have "numberOfTopics r1 + length ts < MAX_SUBSCRIBERS" using Cons.prems(2) by simp
    from Cons.IH [OF r1(2) this] obtain r' where "add_subscribed ts r1 = Some r'" "wf_report r'"
      "listed r' = listed r1 \<union> t_topicId ` {t \<in> set ts. t_mySubscribers t \<noteq> []}" by blast
    then show ?thesis using False r1 by (auto simp: image_iff)
  qed
qed simp

section \<open>The register as a map\<close>

text \<open>What is known: for each node index the topics it reported and the time of its last report.\<close>

datatype reg_event = Report int TopicListPerNode | Round int

record known_nodes =
  kn_topics :: "nat \<Rightarrow> u32 set"
  kn_last :: "nat \<Rightarrow> int"

fun know :: "int \<Rightarrow> reg_event list \<Rightarrow> known_nodes \<Rightarrow> known_nodes" where
  "know me [] k = k"
| "know me (Report now his # es) k =
     know me es (if tl_nodeNr his = of_int me then k
       else let i = unat (tl_nodeIndex his)
       in k\<lparr>kn_topics := (kn_topics k)(i := kn_topics k i \<union> listed (tl_topicListReport his)), kn_last := (kn_last k)(i := now)\<rparr>)"
| "know me (Round now # es) k =
     know me es (k\<lparr>kn_topics := (\<lambda>i. if kn_last k i < now - 10 * SECONDS then {} else kn_topics k i)\<rparr>)"

fun reg_run :: "int \<Rightarrow> reg_event list \<Rightarrow> 's Topic list \<Rightarrow> DistributedTopicRegister \<Rightarrow> ('s Topic list \<times> DistributedTopicRegister) option" where
  "reg_run me [] ts d = Some (ts, d)"
| "reg_run me (Report now his # es) ts d = Option.bind (register_put now me his ts d) (\<lambda>(ts, d). reg_run me es ts d)"
| "reg_run me (Round now # es) ts d = (let (_, ts, d) = run_round now me ts d in reg_run me es ts d)"

definition fair_event :: "reg_event \<Rightarrow> bool" where
  "fair_event e \<longleftrightarrow> (case e of Report now his \<Rightarrow> tl_nodeIndex his < 32 \<and> wf_report (tl_topicListReport his) | Round now \<Rightarrow> 0 \<le> now \<and> now \<le> END_OF_TIME)"

definition reg_rel :: "known_nodes \<Rightarrow> 's Topic list \<Rightarrow> DistributedTopicRegister \<Rightarrow> bool" where
  "reg_rel k ts d \<longleftrightarrow> length (lastReportTimeOfNode d) = 32 \<and> (\<forall>i < 32. lastReportTimeOfNode d ! i = kn_last k i) \<and>
     (\<forall>t < length ts. \<forall>i < 32. bit (t_receiverNodesBitMap (ts ! t)) i \<longleftrightarrow> t_topicId (ts ! t) \<in> kn_topics k i)"

lemma put_refines:
  assumes "reg_rel k ts d" "fair_event (Report now his)"
  shows "\<exists>ts' d'. register_put now me his ts d = Some (ts', d') \<and> reg_rel (know me [Report now his] k) ts' d' \<and>
    map t_topicId ts' = map t_topicId ts"
proof (cases "tl_nodeNr his = of_int me")
  case True
  then show ?thesis using assms(1) by (simp add: register_put_def)
next
  case False
  let ?i = "unat (tl_nodeIndex his)"
  have i: "?i < 32" "wf_report (tl_topicListReport his)" using assms(2) by (auto simp: fair_event_def word_less_nat_alt)
  have l: "length (lastReportTimeOfNode d) = 32" using assms(1) by (simp add: reg_rel_def)
  show ?thesis using assms(1) False i l
    by (auto simp: register_put_def set_reported_all reg_rel_def Let_def bit_simps nth_list_update)
qed

lemma round_refines:
  assumes "reg_rel k ts d" "fair_event (Round now)"
  shows "\<exists>m ts' d'. run_round now me ts d = (m, ts', d') \<and> reg_rel (know me [Round now] k) ts' d' \<and> map t_topicId ts' = map t_topicId ts \<and>
    tl_nodeIndex m < 32 \<and> tl_topicListReport m = tl_topicListReport (topicListFromMyNode d)"
proof -
  have old: "i64 (now - 10 * SECONDS) = now - 10 * SECONDS"
    using assms(2) by (intro i64_exact) (auto simp: fair_event_def in_i64_def END_OF_TIME_def SECONDS_eq)
  obtain m ts' d' where r: "run_round now me ts d = (m, ts', d')" by (metis prod.collapse)
  then have ts': "ts' = clear_dead [0..<32] (now - 10 * SECONDS) (lastReportTimeOfNode d) ts"
    "lastReportTimeOfNode d' = lastReportTimeOfNode d" "tl_topicListReport m = tl_topicListReport (topicListFromMyNode d)"
    "tl_nodeIndex m = ucast (of_int me mod 32 :: u32)"
    by (auto simp: run_round_def Let_def old MAX_NUM_OF_NODES_def)
  have "unat (of_int me mod 32 :: u32) < 32" by (simp add: unat_mod_distrib)
  then have "tl_nodeIndex m < 32" unfolding ts'(4) by (simp add: word_less_nat_alt unsigned_ucast_eq take_bit_nat_eq_self)
  moreover have "reg_rel (know me [Round now] k) ts' d'"
    using assms(1) ts'(2) bit_clear_dead [of "[0..<32]" _ _ ts "now - 10 * SECONDS" "lastReportTimeOfNode d", folded ts'(1)]
    by (auto simp: reg_rel_def ts'(1) clear_dead_keeps)
  moreover have "map t_topicId ts' = map t_topicId ts" unfolding ts'(1) by (rule nth_equalityI) (simp_all add: clear_dead_keeps)
  ultimately show ?thesis using r ts'(3) by blast
qed

lemma know_Cons: "know me (e # es) k = know me es (know me [e] k)"
  by (cases e) simp_all

lemma run_refines:
  assumes "reg_rel k ts d" "\<forall>e \<in> set es. fair_event e"
  shows "\<exists>ts' d'. reg_run me es ts d = Some (ts', d') \<and> reg_rel (know me es k) ts' d' \<and> map t_topicId ts' = map t_topicId ts"
  using assms
proof (induction es arbitrary: k ts d)
  case (Cons e es)
  show ?case
  proof (cases e)
    case (Report now his)
    obtain ts1 d1 where 1: "register_put now me his ts d = Some (ts1, d1)" "reg_rel (know me [e] k) ts1 d1" "map t_topicId ts1 = map t_topicId ts"
      using put_refines [OF Cons.prems(1)] Cons.prems(2) Report by force
    from Cons.IH [OF 1(2)] Cons.prems(2) show ?thesis unfolding know_Cons [of me e es] using 1 Report by auto
  next
    case (Round now)
    obtain m ts1 d1 where 1: "run_round now me ts d = (m, ts1, d1)" "reg_rel (know me [e] k) ts1 d1" "map t_topicId ts1 = map t_topicId ts"
      using round_refines [OF Cons.prems(1)] Cons.prems(2) Round by force
    from Cons.IH [OF 1(2)] Cons.prems(2) show ?thesis unfolding know_Cons [of me e es] using 1 Round by auto
  qed
qed simp

section \<open>Properties\<close>



text \<open>The report of a node lists its topics with subscribers, as long as they are fewer than the table has room for.\<close>

lemma report_lists_subscribed:
  assumes "wf_report (tl_topicListReport mine)" "length ts < MAX_SUBSCRIBERS"
  shows "\<exists>d. run_prepare ts (DistributedTopicRegister_new mine) = Some d \<and>
    listed (tl_topicListReport (topicListFromMyNode d)) = t_topicId ` {t \<in> set ts. t_mySubscribers t \<noteq> []}"
proof -
  have "wf_report (report_init (tl_topicListReport mine))" "listed (report_init (tl_topicListReport mine)) = {}"
    "numberOfTopics (report_init (tl_topicListReport mine)) = 0"
    using assms(1) by (simp_all add: wf_report_def report_init_def listed_def)
  from add_subscribed_all [OF this(1), of ts] this(2,3) assms(2) show ?thesis
    by (auto simp: run_prepare_def DistributedTopicRegister_new_def)
qed

end
