(* ===== verification/Sync_Comm_Buffer.thy ===== *)
theory Sync_Comm_Buffer
  imports Comm_Buffer
begin

text \<open>
  \<open>SyncCommBuffer\<close> of \<open>support-libs/synccommbuffer.h\<close>: a \<open>CommBuffer\<close> whose reader may wait for new data. As in the theory
  \<open>Sync_Fifo\<close> the calls are cut where another thread may run: the sections under the ceiling priority are
  one step unless the caller suspends itself, and behind the section the flag \<open>newDataAvailable\<close> is read before \<open>get\<close>
  clears it. One writer thread and one reader thread.
\<close>

section \<open>The code\<close>

record 'a sync_comm =
  sc_buffer :: "'a commbuffer"
  sc_suspendedReader :: bool
  sc_until :: int

definition SyncCommBuffer_new :: "'a \<Rightarrow> 'a \<Rightarrow> 'a \<Rightarrow> 'a sync_comm" where
  "SyncCommBuffer_new a b c = \<lparr>sc_buffer = CommBuffer_init a b c, sc_suspendedReader = False, sc_until = 0\<rparr>"

text \<open>Where the writer is: idle, or before the section that resumes the reader; and the reader: idle, suspended,
  before reading the flag, before \<open>get\<close>, and with its result.\<close>

datatype sc_writer = PutIdle | PutResume

datatype 'a sc_reader = GetIdle | GetSleep | GetFlag | GetData bool | GetEnd bool 'a

definition sc_put_first :: "'a \<Rightarrow> 'a sync_comm \<Rightarrow> sc_writer \<times> 'a sync_comm" where
  "sc_put_first data s = (PutResume, s\<lparr>sc_buffer := cb_put data (sc_buffer s)\<rparr>)"

definition sc_putZero_first :: "'a \<Rightarrow> 'a sync_comm \<Rightarrow> sc_writer \<times> 'a sync_comm" where
  "sc_putZero_first zero s = (PutResume, s\<lparr>sc_buffer := cb_putZero zero (sc_buffer s)\<rparr>)"

definition sc_put_resume :: "'a sync_comm \<Rightarrow> sc_writer \<times> 'a sync_comm" where
  "sc_put_resume s = (PutIdle, if sc_suspendedReader s then s\<lparr>sc_until := 0\<rparr> else s)"

definition sc_putGeneric :: "nat \<Rightarrow> nat \<Rightarrow> 'a \<Rightarrow> 'a sync_comm \<Rightarrow> bool \<times> sc_writer \<times> 'a sync_comm" where
  "sc_putGeneric sizeofType len msg s = (if \<not> len \<le> sizeofType then (False, PutIdle, s) else (True, sc_put_first msg s))"

definition sc_get_first :: "int \<Rightarrow> int \<Rightarrow> 'a sync_comm \<Rightarrow> 'a sc_reader \<times> 'a sync_comm" where
  "sc_get_first now timeout s =
     (if \<not> cb_newDataAvailable (sc_buffer s) then
        let s = s\<lparr>sc_suspendedReader := True\<rparr>
        in if timeout = 0 then (GetFlag, s\<lparr>sc_suspendedReader := False\<rparr>)
           else (GetSleep, s\<lparr>sc_until := if timeout = END_OF_TIME then END_OF_TIME else i64 (now + timeout)\<rparr>)
      else (GetFlag, s))"

definition sc_get_woken :: "'a sync_comm \<Rightarrow> 'a sc_reader \<times> 'a sync_comm" where
  "sc_get_woken s = (GetFlag, s\<lparr>sc_suspendedReader := False\<rparr>)"

definition sc_get_flag :: "'a sync_comm \<Rightarrow> 'a sc_reader \<times> 'a sync_comm" where
  "sc_get_flag s = (GetData (cb_newDataAvailable (sc_buffer s)), s)"

definition sc_get_data :: "bool \<Rightarrow> 'a sync_comm \<Rightarrow> 'a sc_reader \<times> 'a sync_comm" where
  "sc_get_data ok s = (let (data, c) = cb_get (sc_buffer s) in (GetEnd ok data, s\<lparr>sc_buffer := c\<rparr>))"

definition clearDataState :: "'a sync_comm \<Rightarrow> 'a sync_comm" where
  "clearDataState s = s\<lparr>sc_buffer := (sc_buffer s)\<lparr>cb_newDataAvailable := False\<rparr>\<rparr>"

section \<open>One writer and one reader\<close>

text \<open>\<open>sy_latest\<close> is the value put last.\<close>

record 'a sc_system =
  sy_comm :: "'a sync_comm"
  sy_writer :: sc_writer
  sy_reader :: "'a sc_reader"
  sy_latest :: "'a option"

inductive sc_step :: "'a sc_system \<Rightarrow> 'a sc_system \<Rightarrow> bool" where
  put_call: "sy_writer s = PutIdle \<Longrightarrow> sc_put_first v (sy_comm s) = (pc, c) \<Longrightarrow>
    sc_step s (s\<lparr>sy_comm := c, sy_writer := pc, sy_latest := Some v\<rparr>)"
| put_resume: "sy_writer s = PutResume \<Longrightarrow> sc_put_resume (sy_comm s) = (pc, c) \<Longrightarrow> sc_step s (s\<lparr>sy_comm := c, sy_writer := pc\<rparr>)"
| get_call: "sy_reader s = GetIdle \<Longrightarrow> sc_get_first now timeout (sy_comm s) = (pc, c) \<Longrightarrow> sc_step s (s\<lparr>sy_comm := c, sy_reader := pc\<rparr>)"
| get_wake: "sy_reader s = GetSleep \<Longrightarrow> sc_until (sy_comm s) < now \<Longrightarrow> now < END_OF_TIME \<Longrightarrow> sc_get_woken (sy_comm s) = (pc, c) \<Longrightarrow>
    sc_step s (s\<lparr>sy_comm := c, sy_reader := pc\<rparr>)"
| get_flag: "sy_reader s = GetFlag \<Longrightarrow> sc_get_flag (sy_comm s) = (pc, c) \<Longrightarrow> sc_step s (s\<lparr>sy_comm := c, sy_reader := pc\<rparr>)"
| get_data: "sy_reader s = GetData ok \<Longrightarrow> sc_get_data ok (sy_comm s) = (pc, c) \<Longrightarrow> sc_step s (s\<lparr>sy_comm := c, sy_reader := pc\<rparr>)"
| get_return: "sy_reader s = GetEnd ok v \<Longrightarrow> sc_step s (s\<lparr>sy_reader := GetIdle\<rparr>)"
| get_clear: "sy_reader s = GetIdle \<Longrightarrow> sc_step s (s\<lparr>sy_comm := clearDataState (sy_comm s)\<rparr>)"

definition sc_start :: "'a \<Rightarrow> 'a sc_system" where
  "sc_start a = \<lparr>sy_comm = SyncCommBuffer_new a a a, sy_writer = PutIdle, sy_reader = GetIdle, sy_latest = None\<rparr>"

abbreviation sc_reachable :: "'a \<Rightarrow> 'a sc_system \<Rightarrow> bool" where
  "sc_reachable a \<equiv> reach (\<lambda>s. s = sc_start a) sc_step"

section \<open>The invariant\<close>

text \<open>Without a reader inside \<open>get\<close> the slot of the reader holds what was put last.\<close>

definition cb_fresh :: "'a option \<Rightarrow> 'a commbuffer \<Rightarrow> bool" where
  "cb_fresh x c \<longleftrightarrow> cb_inv c \<and> \<not> cb_readingNow c \<and> (case x of None \<Rightarrow> \<not> cb_newDataAvailable c | Some v \<Rightarrow> cb_buffer c ! cb_reader c = v)"

lemma cb_fresh_put: "cb_fresh x c \<Longrightarrow> cb_fresh (Some v) (cb_put v c) \<and> cb_newDataAvailable (cb_put v c)"
  by (auto simp: cb_fresh_def cb_inv_def cb_defs Let_def)

lemma cb_fresh_get: "cb_fresh x c \<Longrightarrow> cb_fresh x (snd (cb_get c)) \<and> \<not> cb_newDataAvailable (snd (cb_get c)) \<and>
    (case x of None \<Rightarrow> True | Some v \<Rightarrow> fst (cb_get c) = v)"
  by (auto simp: cb_fresh_def cb_inv_def cb_defs Let_def split: option.splits)

lemma cb_fresh_clear: "cb_fresh x c \<Longrightarrow> cb_fresh x (c\<lparr>cb_newDataAvailable := False\<rparr>)"
  by (auto simp: cb_fresh_def cb_inv_def split: option.splits)

definition sc_inv :: "'a sc_system \<Rightarrow> bool" where
  "sc_inv s \<longleftrightarrow> cb_fresh (sy_latest s) (sc_buffer (sy_comm s)) \<and>
     sc_suspendedReader (sy_comm s) = (sy_reader s = GetSleep) \<and>
     (sy_reader s = GetSleep \<and> sc_until (sy_comm s) \<noteq> 0 \<longrightarrow> \<not> cb_newDataAvailable (sc_buffer (sy_comm s)) \<or> sy_writer s = PutResume) \<and>
     (sy_reader s = GetData True \<longrightarrow> sy_latest s \<noteq> None)"

lemma sc_inv_parts:
  assumes "sc_inv s"
  shows "cb_fresh (sy_latest s) (sc_buffer (sy_comm s))" "sc_suspendedReader (sy_comm s) = (sy_reader s = GetSleep)"
    "sy_reader s = GetSleep \<Longrightarrow> sc_until (sy_comm s) \<noteq> 0 \<Longrightarrow> cb_newDataAvailable (sc_buffer (sy_comm s)) \<Longrightarrow> sy_writer s = PutResume"
    "sy_reader s = GetData True \<Longrightarrow> sy_latest s \<noteq> None" "cb_newDataAvailable (sc_buffer (sy_comm s)) \<Longrightarrow> sy_latest s \<noteq> None"
  using assms by (auto simp: sc_inv_def cb_fresh_def split: option.splits)

lemma sc_step_inv: "sc_step s s' \<Longrightarrow> sc_inv s \<Longrightarrow> sc_inv s'"
proof (induction rule: sc_step.induct)
  case (put_call s v pc c)
  then show ?case using sc_inv_parts [OF put_call.prems] cb_fresh_put [of "sy_latest s" "sc_buffer (sy_comm s)" v]
    by (auto simp: sc_inv_def sc_put_first_def)
next
  case (put_resume s pc c)
  then show ?case using sc_inv_parts [OF put_resume.prems] by (auto simp: sc_inv_def sc_put_resume_def)
next
  case (get_call s now timeout pc c)
  then show ?case using sc_inv_parts [OF get_call.prems] by (auto simp: sc_inv_def sc_get_first_def Let_def split: if_splits)
next
  case (get_wake s now pc c)
  then show ?case using sc_inv_parts [OF get_wake.prems] by (auto simp: sc_inv_def sc_get_woken_def)
next
  case (get_flag s pc c)
  then show ?case using sc_inv_parts [OF get_flag.prems] by (auto simp: sc_inv_def sc_get_flag_def)
next
  case (get_data s ok pc c)
  then show ?case using sc_inv_parts [OF get_data.prems] cb_fresh_get [of "sy_latest s" "sc_buffer (sy_comm s)"]
    by (auto simp: sc_inv_def sc_get_data_def case_prod_beta)
next
  case (get_return s ok v)
  then show ?case using sc_inv_parts [OF get_return.prems] by (auto simp: sc_inv_def)
next
  case (get_clear s)
  then show ?case using sc_inv_parts [OF get_clear.prems] cb_fresh_clear by (auto simp: sc_inv_def clearDataState_def)
qed

lemma sc_start_inv: "sc_inv (sc_start a)"
  using cb_inv_init [of a a a]
  by (simp add: sc_inv_def sc_start_def SyncCommBuffer_new_def cb_fresh_def) (simp add: CommBuffer_init_def)

lemma sc_reachable_inv: "sc_reachable a s \<Longrightarrow> sc_inv s"
  by (erule reach_inv) (auto intro: sc_start_inv sc_step_inv)

section \<open>Properties\<close>

text \<open>
  No reader sleeps on new data: however the calls of one writer and one reader interleave, a reader that sleeps and
  was not resumed has no new data in front of it, or the writer is about to resume it; and the
  value that \<open>get\<close> then returns is the one put last, if any was put.
\<close>

lemma sync_comm_no_lost_wakeup:
  assumes "sc_reachable a s"
  shows "(sy_reader s = GetSleep \<and> sc_until (sy_comm s) \<noteq> 0 \<longrightarrow>
      \<not> cb_newDataAvailable (sc_buffer (sy_comm s)) \<or> fst (sc_put_resume (sy_comm s)) = PutIdle \<and> sc_until (snd (sc_put_resume (sy_comm s))) = 0 \<and> sy_writer s = PutResume) \<and>
    (\<forall>ok v c. sc_get_data ok (sy_comm s) = (GetEnd ok v, c) \<and> sy_latest s \<noteq> None \<longrightarrow> sy_latest s = Some v) \<and>
    (sy_reader s = GetData True \<longrightarrow> sy_latest s \<noteq> None)"
proof -
  note d = sc_inv_parts [OF sc_reachable_inv [OF assms]]
  have "sy_latest s = Some v" if "sc_get_data ok (sy_comm s) = (GetEnd ok v, c)" "sy_latest s \<noteq> None" for ok v c
    using cb_fresh_get [OF d(1)] that by (auto simp: sc_get_data_def case_prod_beta split: option.splits)
  then show ?thesis using d(2,3,4) by (auto simp: sc_put_resume_def)
qed

definition waiting_reader :: "nat sc_system" where
  "waiting_reader = \<lparr>sy_comm = snd (sc_get_first 3 END_OF_TIME (SyncCommBuffer_new 0 0 0)), sy_writer = PutIdle, sy_reader = GetSleep, sy_latest = None\<rparr>"

lemma waiting_reader_reachable: "sc_reachable 0 waiting_reader"
proof -
  have "sc_step (sc_start (0 :: nat)) (sc_start 0\<lparr>sy_comm := sy_comm waiting_reader, sy_reader := GetSleep\<rparr>)"
    by (rule sc_step.get_call [of _ 3 END_OF_TIME])
      (simp_all add: sc_start_def waiting_reader_def sc_get_first_def SyncCommBuffer_new_def CommBuffer_init_def END_OF_TIME_def)
  then show ?thesis
    using reach.stepwise [OF reach.initially [where init = "\<lambda>s. s = sc_start 0", OF refl]] by (simp add: sc_start_def waiting_reader_def)
qed

definition reader_with_data :: "nat sc_system" where
  "reader_with_data = waiting_reader\<lparr>sy_comm := snd (sc_put_first 5 (sy_comm waiting_reader)), sy_writer := PutResume, sy_latest := Some 5\<rparr>"

lemma reader_with_data_reachable: "sc_reachable 0 reader_with_data"
proof -
  have "sc_step waiting_reader reader_with_data" unfolding reader_with_data_def
    by (rule sc_step.put_call [of _ 5]) (simp_all add: waiting_reader_def sc_put_first_def)
  with waiting_reader_reachable show ?thesis by (rule reach.stepwise)
qed

lemma sync_comm_no_lost_wakeup_witness:
  "sy_reader reader_with_data = GetSleep \<and> cb_newDataAvailable (sc_buffer (sy_comm reader_with_data)) \<and>
   sy_writer reader_with_data = PutResume \<and> sc_until (snd (sc_put_resume (sy_comm reader_with_data))) = 0"
proof -
  have "sy_reader reader_with_data = GetSleep" "cb_newDataAvailable (sc_buffer (sy_comm reader_with_data))" "sc_until (sy_comm reader_with_data) \<noteq> 0"
    by (simp_all add: reader_with_data_def waiting_reader_def sc_get_first_def SyncCommBuffer_new_def CommBuffer_init_def END_OF_TIME_def
        sc_put_first_def cb_defs Let_def)
  then show ?thesis using sync_comm_no_lost_wakeup [OF reader_with_data_reachable] by blast
qed

text \<open>A value put between the reading of the flag and \<open>get\<close> is returned with the result \<open>false\<close> and is not reported as new
  again: the reader gets the value 5 but is told that there is none.\<close>

lemma sync_comm_hides_data:
  "\<exists>s. sc_reachable (0 :: nat) s \<and> sy_reader s = GetEnd False 5 \<and> \<not> cb_newDataAvailable (sc_buffer (sy_comm s))"
proof -
  define s0 where "s0 = sc_start (0 :: nat)"
  define s1 where "s1 = s0\<lparr>sy_comm := sy_comm s0, sy_reader := GetFlag\<rparr>"
  define s2 where "s2 = s1\<lparr>sy_comm := sy_comm s1, sy_reader := GetData False\<rparr>"
  define s3 where "s3 = s2\<lparr>sy_comm := snd (sc_put_first 5 (sy_comm s2)), sy_writer := PutResume, sy_latest := Some 5\<rparr>"
  define s4 where "s4 = s3\<lparr>sy_comm := snd (sc_get_data False (sy_comm s3)), sy_reader := GetEnd False 5\<rparr>"
  note defs = s0_def s1_def s2_def s3_def s4_def sc_start_def SyncCommBuffer_new_def CommBuffer_init_def sc_get_first_def sc_get_flag_def
    sc_put_first_def sc_get_data_def cb_defs Let_def END_OF_TIME_def
  have "sc_reachable 0 s0" by (rule reach.initially) (simp add: s0_def)
  moreover have "sc_step s0 s1" unfolding s1_def by (rule sc_step.get_call [of _ 3 0]) (simp_all add: defs)
  ultimately have "sc_reachable 0 s1" by (rule reach.stepwise)
  moreover have "sc_step s1 s2" unfolding s2_def by (rule sc_step.get_flag) (simp_all add: defs)
  ultimately have "sc_reachable 0 s2" by (rule reach.stepwise)
  moreover have "sc_step s2 s3" unfolding s3_def by (rule sc_step.put_call [of _ 5]) (simp_all add: defs)
  ultimately have "sc_reachable 0 s3" by (rule reach.stepwise)
  moreover have "sc_step s3 s4" unfolding s4_def by (rule sc_step.get_data [of _ False]) (simp_all add: defs)
  ultimately have "sc_reachable 0 s4" by (rule reach.stepwise)
  then show ?thesis by (intro exI [of _ s4]) (simp add: defs)
qed

end
