(* ===== verification/Ring_Buffer.thy ===== *)
theory Ring_Buffer
  imports Rodos_Prelude "HOL-Library.Multiset"
begin

text \<open>
  \<open>RingBuffer\<close> of \<open>support-libs/ringbuffer.h\<close>: the last values put, read again and again in turn. The template parameter
  \<open>poolSize\<close> is the length of the array; \<open>currentWrite\<close> is \<open>None\<close> for the value \<open>UINT32_MAX\<close>. The calls are
  modelled one after the other.
\<close>

section \<open>The code\<close>

record 'a ringbuffer =
  rb_writeIndex :: nat
  rb_readIndex :: nat
  rb_currentWrite :: "nat option"
  rb_vals :: "'a list"
  rb_writeCnt :: u64
  rb_readCnt :: u64
  rb_occupiedCnt :: nat

definition rb_clear :: "'a ringbuffer \<Rightarrow> 'a ringbuffer" where
  "rb_clear r = r\<lparr>rb_writeIndex := 0, rb_readIndex := 0, rb_currentWrite := None, rb_writeCnt := 0, rb_readCnt := 0, rb_occupiedCnt := 0\<rparr>"

definition RingBuffer_new :: "'a list \<Rightarrow> 'a ringbuffer" where
  "RingBuffer_new vals = \<lparr>rb_writeIndex = 0, rb_readIndex = 0, rb_currentWrite = None, rb_vals = vals, rb_writeCnt = 0,
     rb_readCnt = 0, rb_occupiedCnt = 0\<rparr>"

text \<open>The pointer is the index it points to.\<close>

definition getNextEntryToPut :: "'a ringbuffer \<Rightarrow> nat" where
  "getNextEntryToPut r = rb_writeIndex r"

definition rb_put :: "'a \<Rightarrow> 'a ringbuffer \<Rightarrow> 'a ringbuffer" where
  "rb_put newdata r =
     (let poolSize = length (rb_vals r);
          r = r\<lparr>rb_currentWrite := Some (rb_writeIndex r)\<rparr>;
          r = r\<lparr>rb_vals := (rb_vals r)[rb_writeIndex r := newdata]\<rparr>;
          r = r\<lparr>rb_writeIndex := rb_writeIndex r + 1\<rparr>;
          r = (if rb_writeIndex r \<ge> poolSize then r\<lparr>rb_writeIndex := 0\<rparr> else r);
          r = (if rb_occupiedCnt r < poolSize then r\<lparr>rb_occupiedCnt := rb_occupiedCnt r + 1\<rparr> else r)
      in r\<lparr>rb_writeCnt := rb_writeCnt r + 1, rb_currentWrite := None\<rparr>)"

definition rb_get :: "'a ringbuffer \<Rightarrow> 'a option \<times> 'a ringbuffer" where
  "rb_get r =
     (if rb_writeCnt r = 0 then (None, r)
      else let poolSize = length (rb_vals r);
          r = (if Some (rb_readIndex r) = rb_currentWrite r then r\<lparr>rb_readIndex := rb_readIndex r + 1\<rparr> else r);
          r = (if rb_readIndex r \<ge> poolSize then r\<lparr>rb_readIndex := 0\<rparr> else r);
          r = (if rb_writeCnt r < of_nat poolSize \<and> rb_readIndex r \<ge> rb_writeIndex r then r\<lparr>rb_readIndex := 0\<rparr> else r);
          fromRing = rb_vals r ! rb_readIndex r;
          r = r\<lparr>rb_readIndex := rb_readIndex r + 1\<rparr>;
          r = (if rb_readIndex r \<ge> poolSize then r\<lparr>rb_readIndex := 0\<rparr> else r);
          r = (if rb_occupiedCnt r > 0 then r\<lparr>rb_occupiedCnt := rb_occupiedCnt r - 1\<rparr> else r)
      in (Some fromRing, r\<lparr>rb_readCnt := rb_readCnt r + 1\<rparr>))"

definition rb_getLen :: "'a ringbuffer \<Rightarrow> nat" where
  "rb_getLen r = length (rb_vals r)"

section \<open>What the ring holds\<close>

text \<open>The array is up to a rotation the end of the list \<open>hs\<close> of all values put.\<close>

definition rb_holds :: "'a ringbuffer \<Rightarrow> 'a list \<Rightarrow> bool" where
  "rb_holds r hs \<longleftrightarrow>
     (let n = length (rb_vals r); w = length hs
      in 0 < n \<and> n < 2 ^ 32 \<and> unat (rb_writeCnt r) = w \<and> rb_writeIndex r = w mod n \<and> rb_readIndex r < n \<and> rb_currentWrite r = None \<and>
         (if w < n then take w (rb_vals r) = hs else rotate (w mod n) (rb_vals r) = drop (w - n) hs))"

abbreviation rb_size :: "'a ringbuffer \<Rightarrow> 'a list \<Rightarrow> nat" where
  "rb_size r hs \<equiv> min (length hs) (length (rb_vals r))"

lemma new_rb_holds: "0 < length vals \<Longrightarrow> length vals < 2 ^ 32 \<Longrightarrow> rb_holds (RingBuffer_new vals) []"
  by (simp add: rb_holds_def RingBuffer_new_def Let_def)

lemma rotate_update:
  assumes "w < length xs"
  shows "rotate (Suc w mod length xs) (xs[w := v]) = tl (rotate w xs) @ [v]"
proof -
  have "rotate (Suc w mod length xs) (xs[w := v]) = rotate1 (rotate w (xs[w := v]))"
    by (metis length_list_update rotate_Suc rotate_conv_mod)
  also have "rotate w (xs[w := v]) = v # tl (rotate w xs)"
    using assms by (simp add: rotate_drop_take drop_update_swap Cons_nth_drop_Suc [symmetric])
  finally show ?thesis by simp
qed

lemma rb_put_holds:
  assumes "rb_holds r hs" "length hs < 2 ^ 64 - 1"
  shows "rb_holds (rb_put v r) (hs @ [v])" "length (rb_vals (rb_put v r)) = length (rb_vals r)"
proof -
  let ?n = "length (rb_vals r)" and ?w = "length hs"
  have r: "0 < ?n" "?n < 2 ^ 32" "unat (rb_writeCnt r) = ?w" "rb_writeIndex r = ?w mod ?n" "rb_readIndex r < ?n" "rb_currentWrite r = None"
    and s: "if ?w < ?n then take ?w (rb_vals r) = hs else rotate (?w mod ?n) (rb_vals r) = drop (?w - ?n) hs"
    using assms(1) by (auto simp: rb_holds_def Let_def)
  have f: "rb_vals (rb_put v r) = (rb_vals r)[?w mod ?n := v]" "rb_writeCnt (rb_put v r) = rb_writeCnt r + 1"
    "rb_readIndex (rb_put v r) = rb_readIndex r" "rb_currentWrite (rb_put v r) = None"
    "rb_writeIndex (rb_put v r) = (if Suc (?w mod ?n) \<ge> ?n then 0 else Suc (?w mod ?n))"
    using r by (auto simp: rb_put_def Let_def)
  show l: "length (rb_vals (rb_put v r)) = ?n" using f by simp
  have c: "unat (rb_writeCnt (rb_put v r)) = Suc ?w" using f(2) r(3) assms(2) by (simp add: unat_word_ariths)
  have i: "rb_writeIndex (rb_put v r) = Suc ?w mod ?n"
  proof -
    have "?w mod ?n < ?n" using r(1) by simp
    then show ?thesis using f(5) by (auto simp: mod_Suc)
  qed
  have "if Suc ?w < ?n then take (Suc ?w) ((rb_vals r)[?w mod ?n := v]) = hs @ [v]
      else rotate (Suc ?w mod ?n) ((rb_vals r)[?w mod ?n := v]) = drop (Suc ?w - ?n) (hs @ [v])"
  proof (cases "?w < ?n")
    case True
    then have t: "take (Suc ?w) ((rb_vals r)[?w := v]) = hs @ [v]" using s by (simp add: take_Suc_conv_app_nth)
    then show ?thesis using True by (cases "Suc ?w = ?n") auto
  next
    case False
    have "rotate (Suc (?w mod ?n) mod ?n) ((rb_vals r)[?w mod ?n := v]) = tl (rotate (?w mod ?n) (rb_vals r)) @ [v]"
      using r(1) by (intro rotate_update) simp
    moreover have "Suc (?w mod ?n) mod ?n = Suc ?w mod ?n" by (simp add: mod_Suc_eq)
    moreover have "tl (drop (?w - ?n) hs) = drop (Suc ?w - ?n) hs" using False by (simp add: drop_Suc [symmetric] tl_drop Suc_diff_le)
    ultimately show ?thesis using False s r(1) by (simp add: Suc_diff_le Suc_leI)
  qed
  then show "rb_holds (rb_put v r) (hs @ [v])" using r c i f(1,3,4) l
    by (cases "Suc ?w < ?n") (simp_all add: rb_holds_def Let_def)
qed

text \<open>The position from which \<open>get\<close> reads next.\<close>

definition rb_next :: "'a ringbuffer \<Rightarrow> 'a list \<Rightarrow> nat" where
  "rb_next r hs = (if rb_readIndex r < rb_size r hs then rb_readIndex r else 0)"

lemma rb_get_holds:
  assumes "rb_holds r hs" "hs \<noteq> []"
  shows "fst (rb_get r) = Some (take (rb_size r hs) (rb_vals r) ! rb_next r hs)" "rb_holds (snd (rb_get r)) hs"
    "rb_vals (snd (rb_get r)) = rb_vals r" "rb_next (snd (rb_get r)) hs = Suc (rb_next r hs) mod rb_size r hs"
    "rb_next r hs < rb_size r hs"
proof -
  let ?n = "length (rb_vals r)" and ?w = "length hs"
  have r: "0 < ?n" "?n < 2 ^ 32" "unat (rb_writeCnt r) = ?w" "rb_writeIndex r = ?w mod ?n" "rb_readIndex r < ?n" "rb_currentWrite r = None"
    using assms(1) by (auto simp: rb_holds_def Let_def)
  have w: "rb_writeCnt r \<noteq> 0" using r(3) assms(2) by auto
  have "unat (of_nat ?n :: u64) = ?n" using r(2) by (simp add: unat_of_nat)
  then have lt: "rb_writeCnt r < of_nat ?n \<longleftrightarrow> ?w < ?n" using r(3) by (simp add: word_less_nat_alt)
  have m: "?w < ?n \<Longrightarrow> ?w mod ?n = ?w" by simp
  show n: "rb_next r hs < rb_size r hs" using r(1) assms(2) by (auto simp: rb_next_def)
  have g: "rb_get r = (Some (rb_vals r ! rb_next r hs),
      r\<lparr>rb_readIndex := (if Suc (rb_next r hs) \<ge> ?n then 0 else Suc (rb_next r hs)),
        rb_occupiedCnt := rb_occupiedCnt r - 1, rb_readCnt := rb_readCnt r + 1\<rparr>)"
    using r w lt m by (cases r) (auto simp: rb_get_def rb_next_def Let_def)
  show "fst (rb_get r) = Some (take (rb_size r hs) (rb_vals r) ! rb_next r hs)" using g n by simp
  show "rb_vals (snd (rb_get r)) = rb_vals r" using g by simp
  show "rb_holds (snd (rb_get r)) hs" using assms(1) r(1) g by (simp add: rb_holds_def Let_def)
  show "rb_next (snd (rb_get r)) hs = Suc (rb_next r hs) mod rb_size r hs"
    using g n by (auto simp: rb_next_def mod_Suc)
qed

fun rb_gets :: "nat \<Rightarrow> 'a ringbuffer \<Rightarrow> 'a option list \<times> 'a ringbuffer" where
  "rb_gets 0 r = ([], r)"
| "rb_gets (Suc k) r = (let (x, r) = rb_get r; (xs, r) = rb_gets k r in (x # xs, r))"

lemma rb_gets_cycle:
  assumes "rb_holds r hs" "hs \<noteq> []"
  shows "fst (rb_gets k r) = map (\<lambda>i. Some (take (rb_size r hs) (rb_vals r) ! ((rb_next r hs + i) mod rb_size r hs))) [0..<k]"
  using assms(1)
proof (induction k arbitrary: r)
  case (Suc k)
  note g = rb_get_holds [OF Suc.prems assms(2)]
  have "fst (rb_gets k (snd (rb_get r))) =
      map (\<lambda>i. Some (take (rb_size r hs) (rb_vals r) ! ((Suc (rb_next r hs) mod rb_size r hs + i) mod rb_size r hs))) [0..<k]"
    using Suc.IH [OF g(2)] g(3,4) by simp
  moreover have "(Suc a mod m + i) mod m = (a + Suc i) mod m" for a m i :: nat by (metis add_Suc_right add_Suc_shift mod_add_left_eq)
  ultimately show ?case
    using g(1,5) by (simp add: case_prod_beta upt_conv_Cons map_Suc_upt [symmetric] del: upt_Suc)
qed simp

section \<open>Properties\<close>

text \<open>
  The ring is read in turn: after any values were put, as many reads as the ring holds values return each of the
  latest values put exactly once, in the cyclic order of the array, from wherever the reader stands; only a
  ring into which nothing was put has nothing to read.
\<close>

lemma ring_buffer_cycles:
  assumes "rb_holds r hs"
  shows "(fst (rb_get r) = None \<longleftrightarrow> hs = []) \<and>
    fst (rb_gets (rb_size r hs) r) = map Some (rotate (rb_next r hs) (take (rb_size r hs) (rb_vals r))) \<and>
    mset (take (rb_size r hs) (rb_vals r)) = mset (drop (length hs - rb_size r hs) hs)"
proof (cases "hs = []")
  case True
  then have "rb_writeCnt r = 0" using assms by (auto simp: rb_holds_def Let_def unat_eq_0)
  then show ?thesis using True by (simp add: rb_get_def)
next
  case False
  let ?m = "rb_size r hs" and ?xs = "take (rb_size r hs) (rb_vals r)"
  have l: "length ?xs = ?m" by simp
  have "fst (rb_gets ?m r) = map Some (rotate (rb_next r hs) ?xs)"
    using rb_gets_cycle [OF assms False, of ?m] by (auto intro!: nth_equalityI simp: nth_rotate)
  moreover have "mset ?xs = mset (drop (length hs - ?m) hs)"
  proof (cases "length hs < length (rb_vals r)")
    case True
    then show ?thesis using assms by (simp add: rb_holds_def Let_def)
  next
    case False
    then have "mset (rotate (length hs mod length (rb_vals r)) (rb_vals r)) = mset (drop (length hs - length (rb_vals r)) hs)"
      using assms by (simp add: rb_holds_def Let_def)
    moreover have "mset (rotate k xs) = mset xs" for k and xs :: "'a list"
      by (metis append_take_drop_id mset_append rotate_drop_take union_commute)
    ultimately show ?thesis using False by simp
  qed
  ultimately show ?thesis using rb_get_holds(1) [OF assms False] False by simp
qed

lemma ring_buffer_cycles_witness:
  "fst (rb_gets 2 (rb_put 7 (rb_put 6 (rb_put 5 (RingBuffer_new [0, 0 :: nat]))))) = [Some 7, Some 6]"
proof -
  let ?r = "rb_put 7 (rb_put 6 (rb_put 5 (RingBuffer_new [0, 0 :: nat])))"
  have "rb_holds ?r ((([] @ [5]) @ [6]) @ [7])"
    by (intro rb_put_holds new_rb_holds) simp_all
  then have h: "rb_holds ?r [5, 6, 7]" by simp
  have v: "rb_vals ?r = [7, 6]" "rb_readIndex ?r = 0" by (simp_all add: rb_put_def RingBuffer_new_def Let_def)
  show ?thesis using ring_buffer_cycles [OF h] v by (simp add: rb_next_def eval_nat_numeral)
qed

text \<open>The number \<open>occupiedCnt\<close> is not the difference of the two counters, once values were overwritten.\<close>

lemma occupied_not_difference:
  "let r = rb_put 7 (rb_put 6 (rb_put 5 (RingBuffer_new [0, 0 :: nat]))) in int (rb_occupiedCnt r) \<noteq> uint (rb_writeCnt r) - uint (rb_readCnt r)"
  by (simp add: rb_put_def RingBuffer_new_def Let_def)

end
