(* ===== verification/Random_Kiss.thy ===== *)
theory Random_Kiss
  imports Rodos_Prelude
begin

text \<open>
  The pseudo random numbers of \<open>support-libs/random.cpp\<close>: the sum of a linear congruential generator, an xorshift
  generator and a multiply-with-carry generator on 64-bit words. The functions that scale the numbers to
  floating point are not modelled.
\<close>

section \<open>The code\<close>

record RandomKiss =
  kiss_x :: u64
  kiss_y :: u64
  kiss_z :: u64
  kiss_c :: u64

definition kiss_seed :: RandomKiss where
  "kiss_seed = \<lparr>kiss_x = 1066149217761810, kiss_y = 362436362436362436, kiss_z = 1234567890987654321, kiss_c = 123456123456123456\<rparr>"

definition KISS64 :: "RandomKiss \<Rightarrow> u64 \<times> RandomKiss" where
  "KISS64 k =
     (let k = k\<lparr>kiss_x := 6906969069 * kiss_x k + 1234567\<rparr>;
          k = k\<lparr>kiss_y := kiss_y k XOR push_bit 13 (kiss_y k)\<rparr>;
          k = k\<lparr>kiss_y := kiss_y k XOR drop_bit 17 (kiss_y k)\<rparr>;
          k = k\<lparr>kiss_y := kiss_y k XOR push_bit 43 (kiss_y k)\<rparr>;
          t = push_bit 58 (kiss_z k) + kiss_c k;
          k = k\<lparr>kiss_c := drop_bit 6 (kiss_z k)\<rparr>;
          k = k\<lparr>kiss_z := kiss_z k + t\<rparr>;
          k = k\<lparr>kiss_c := kiss_c k + (if kiss_z k < t then 1 else 0)\<rparr>
      in (kiss_x k + kiss_y k + kiss_z k, k))"

definition uint64Rand :: "RandomKiss \<Rightarrow> u64 \<times> RandomKiss" where
  "uint64Rand k = KISS64 k"

definition uint32Rand :: "RandomKiss \<Rightarrow> u32 \<times> RandomKiss" where
  "uint32Rand k = (let (r, k) = KISS64 k in (ucast r, k))"

definition setRandSeed :: "u64 \<Rightarrow> RandomKiss \<Rightarrow> RandomKiss" where
  "setRandSeed x k = k\<lparr>kiss_x := x\<rparr>"

section \<open>The three generators\<close>

definition lcg :: "u64 \<Rightarrow> u64" where
  "lcg x = 6906969069 * x + 1234567"

definition xorshift :: "u64 \<Rightarrow> u64" where
  "xorshift y = (let y = y XOR push_bit 13 y; y = y XOR drop_bit 17 y in y XOR push_bit 43 y)"

definition mwc :: "u64 \<Rightarrow> u64 \<Rightarrow> u64 \<times> u64" where
  "mwc z c = (let t = push_bit 58 z + c in (z + t, drop_bit 6 z + (if z + t < t then 1 else 0)))"

lemma KISS64_parts:
  "snd (KISS64 k) = \<lparr>kiss_x = lcg (kiss_x k), kiss_y = xorshift (kiss_y k), kiss_z = fst (mwc (kiss_z k) (kiss_c k)), kiss_c = snd (mwc (kiss_z k) (kiss_c k))\<rparr>"
  by (cases k) (simp add: KISS64_def lcg_def xorshift_def mwc_def Let_def)

text \<open>The factor of the first is odd and so has an inverse.\<close>

lemma lcg_inj: "lcg a = lcg b \<Longrightarrow> a = b"
proof -
  have inverse: "8575357931815410149 * (lcg x - 1234567) = x" for x
  proof -
    have "8575357931815410149 * (lcg x - 1234567) = (8575357931815410149 * 6906969069) * x" by (simp add: lcg_def mult.assoc)
    also have "(8575357931815410149 * 6906969069 :: u64) = 1" by simp
    finally show ?thesis by simp
  qed
  assume "lcg a = lcg b"
  then show "a = b" using inverse by metis
qed

text \<open>A word is not changed to another one by shifting it and adding without carry.\<close>

lemma push_bit_fixed:
  assumes "0 < k" "d = push_bit k (d :: u64)"
  shows "d = 0"
proof (rule bit_eqI)
  fix n
  have "\<not> bit d n"
  proof (induction n rule: less_induct)
    case (less n)
    show ?case
    proof
      assume "bit d n"
      then have "bit (push_bit k d) n" using assms(2) by metis
      then have "k \<le> n" "bit d (n - k)" by (auto simp: bit_push_bit_iff)
      then show False using less [of "n - k"] assms(1) by simp
    qed
  qed
  then show "bit d n = bit 0 n" by simp
qed

lemma drop_bit_fixed:
  assumes "0 < k" "d = drop_bit k (d :: u64)"
  shows "d = 0"
proof (rule bit_eqI)
  fix n
  have shift: "bit d m = bit d (k + m)" for m using assms(2) by (metis bit_drop_bit_eq comp_apply)
  have "bit d n = bit d (n + i * k)" for i
    by (induction i) (simp_all add: shift [of "n + _"] algebra_simps)
  from this [of 64] have "bit d n = bit d (n + 64 * k)" .
  moreover have "64 \<le> n + 64 * k" using assms(1) by linarith
  ultimately show "bit d n = bit 0 n" using bit_imp_le_length [of d "n + 64 * k"] by auto
qed

lemma xor_shift_inj:
  assumes "0 < k"
  shows "a XOR push_bit k a = b XOR push_bit k b \<Longrightarrow> a = (b :: u64)" "a XOR drop_bit k a = b XOR drop_bit k b \<Longrightarrow> a = b"
proof -
  have split: "x XOR y = f (x XOR y)" if "x XOR f x = y XOR f y" "\<And>u v. f (u XOR v) = f u XOR f v" for f :: "u64 \<Rightarrow> u64" and x y
  proof -
    have "x XOR y = (x XOR f x) XOR (y XOR f x)" by (rule bit_eqI) (auto simp: bit_xor_iff)
    also have "\<dots> = (y XOR f y) XOR (y XOR f x)" using that(1) by simp
    also have "\<dots> = f x XOR f y" by (rule bit_eqI) (auto simp: bit_xor_iff)
    also have "\<dots> = f (x XOR y)" by (rule that(2) [symmetric])
    finally show ?thesis .
  qed
  have eq: "x = y" if "x XOR y = 0" for x y :: u64
  proof (rule bit_eqI)
    fix n
    have "bit (x XOR y) n = bit 0 n" using that by simp
    then show "bit x n = bit y n" by (simp add: bit_xor_iff)
  qed
  show "a = b" if "a XOR push_bit k a = b XOR push_bit k b"
    using split [of a "push_bit k" b, OF that push_bit_xor] push_bit_fixed [OF assms] eq by blast
  show "a = b" if "a XOR drop_bit k a = b XOR drop_bit k b"
    using split [of a "drop_bit k" b, OF that drop_bit_xor] drop_bit_fixed [OF assms] eq by blast
qed

lemma xorshift_inj: "xorshift a = xorshift b \<Longrightarrow> a = b"
  unfolding xorshift_def Let_def
  by (drule xor_shift_inj(1) [rotated], simp, drule xor_shift_inj(2) [rotated], simp, drule xor_shift_inj(1) [rotated], simp)

lemma xorshift_zero: "xorshift 0 = 0"
  by (simp add: xorshift_def)

text \<open>The carry of the sum and the word above it.\<close>

lemma mwc_value:
  assumes "unat c \<le> 2 ^ 58" "\<not> (unat c = 2 ^ 58 \<and> unat z mod 64 = 63)"
  shows "unat (fst (mwc z c)) + 2 ^ 64 * unat (snd (mwc z c)) = (2 ^ 58 + 1) * unat z + unat c" "unat (snd (mwc z c)) \<le> 2 ^ 58"
proof -
  let ?z = "unat z" and ?c = "unat c" and ?t = "push_bit 58 z + c"
  have z: "?z < 2 ^ 64" using unsigned_less [of z] by simp
  have r: "?z mod 64 * 2 ^ 58 + ?c < 2 ^ 64"
  proof -
    have "?z mod 64 \<le> 63" by simp
    then show ?thesis using assms by (cases "?z mod 64 = 63") (auto simp: le_less)
  qed
  have p: "unat (push_bit 58 z) = ?z mod 64 * 2 ^ 58"
  proof -
    have "?z * 2 ^ 58 mod (64 * 2 ^ 58) = ?z mod 64 * 2 ^ 58" by (rule mod_mult_mult2)
    then show ?thesis by (simp add: push_bit_eq_mult unat_word_ariths)
  qed
  have t: "unat ?t = ?z mod 64 * 2 ^ 58 + ?c" using r p by (simp add: unat_word_ariths)
  have d: "unat (drop_bit 6 z) = ?z div 64" by (simp add: drop_bit_eq_div unat_div_distrib)
  have q: "?z div 64 < 2 ^ 58" using z by (simp add: less_mult_imp_div_less)
  have carry: "z + ?t < ?t \<longleftrightarrow> 2 ^ 64 \<le> ?z + unat ?t" and s: "unat (z + ?t) = (if 2 ^ 64 \<le> ?z + unat ?t then ?z + unat ?t - 2 ^ 64 else ?z + unat ?t)"
  proof -
    have lt: "unat ?t < 2 ^ 64" using unsigned_less [of ?t] by simp
    show s: "unat (z + ?t) = (if 2 ^ 64 \<le> ?z + unat ?t then ?z + unat ?t - 2 ^ 64 else ?z + unat ?t)"
      using z lt by (simp add: unat_word_ariths(1) [of z ?t] mod_if)
    then show "z + ?t < ?t \<longleftrightarrow> 2 ^ 64 \<le> ?z + unat ?t" using z by (auto simp: word_less_nat_alt)
  qed
  have c': "unat (snd (mwc z c)) = ?z div 64 + (if 2 ^ 64 \<le> ?z + unat ?t then 1 else 0)"
    using q d carry by (simp add: mwc_def Let_def unat_word_ariths)
  then show "unat (snd (mwc z c)) \<le> 2 ^ 58" using q by simp
  define T q where "T = unat ?t" and "q = ?z div 64"
  have "64 * q + ?z mod 64 = ?z" by (simp add: q_def)
  then have sum: "(2 ^ 58 + 1) * ?z + ?c = ?z + 2 ^ 64 * q + T" unfolding T_def t by (simp add: algebra_simps)
  have f: "fst (mwc z c) = z + ?t" by (simp add: mwc_def Let_def)
  show "unat (fst (mwc z c)) + 2 ^ 64 * unat (snd (mwc z c)) = (2 ^ 58 + 1) * unat z + unat c"
    unfolding sum f s c' T_def [symmetric] q_def [symmetric] by (cases "2 ^ 64 \<le> ?z + T") simp_all
qed

section \<open>Properties\<close>

text \<open>The states from which the third generator computes its product without losing a carry.\<close>

definition kiss_ok :: "RandomKiss \<Rightarrow> bool" where
  "kiss_ok k \<longleftrightarrow> unat (kiss_c k) \<le> 2 ^ 58 \<and> \<not> (unat (kiss_c k) = 2 ^ 58 \<and> unat (kiss_z k) mod 64 = 63)"

lemma mwc_inj:
  assumes "unat c \<le> 2 ^ 58" "\<not> (unat c = 2 ^ 58 \<and> unat z mod 64 = 63)" "unat c' \<le> 2 ^ 58" "\<not> (unat c' = 2 ^ 58 \<and> unat z' mod 64 = 63)"
    and "mwc z c = mwc z' c'"
  shows "z = z' \<and> c = c'"
proof -
  have e: "(2 ^ 58 + 1) * unat z + unat c = (2 ^ 58 + 1) * unat z' + unat c'"
    using mwc_value(1) [OF assms(1,2)] mwc_value(1) [OF assms(3,4)] assms(5) by simp
  have dv: "((2 ^ 58 + 1) * a + b) div (2 ^ 58 + 1) = a" "((2 ^ 58 + 1) * a + b) mod (2 ^ 58 + 1) = b" if "b \<le> 2 ^ 58" for a b :: nat
    using that by simp_all
  have "unat z = unat z'" "unat c = unat c'" using dv [OF assms(1), of "unat z"] dv [OF assms(3), of "unat z'"] e by metis+
  then show ?thesis by (simp add: word_unat_eq_iff)
qed

text \<open>
  The random generator does not degenerate: two different states never have the same successor, so no
  entropy of the seeds is lost, the xorshift generator never falls into its fixed point zero from any other value, and
  the multiply-with-carry generator computes exactly \<open>(2^58 + 1) * z + c\<close> and keeps its carry small.
\<close>

lemma kiss_keeps_state:
  assumes "kiss_ok k" "kiss_ok k'"
  shows "(snd (KISS64 k) = snd (KISS64 k') \<longrightarrow> k = k') \<and> (kiss_y (snd (KISS64 k)) = 0 \<longleftrightarrow> kiss_y k = 0) \<and>
    unat (kiss_z (snd (KISS64 k))) + 2 ^ 64 * unat (kiss_c (snd (KISS64 k))) = (2 ^ 58 + 1) * unat (kiss_z k) + unat (kiss_c k) \<and>
    unat (kiss_c (snd (KISS64 k))) \<le> 2 ^ 58"
proof -
  have o: "unat (kiss_c k) \<le> 2 ^ 58" "\<not> (unat (kiss_c k) = 2 ^ 58 \<and> unat (kiss_z k) mod 64 = 63)"
    "unat (kiss_c k') \<le> 2 ^ 58" "\<not> (unat (kiss_c k') = 2 ^ 58 \<and> unat (kiss_z k') mod 64 = 63)"
    using assms unfolding kiss_ok_def by blast+
  have "k = k'" if "snd (KISS64 k) = snd (KISS64 k')"
  proof -
    have "lcg (kiss_x k) = lcg (kiss_x k')" "xorshift (kiss_y k) = xorshift (kiss_y k')" "mwc (kiss_z k) (kiss_c k) = mwc (kiss_z k') (kiss_c k')"
      using that by (simp_all add: KISS64_parts prod_eq_iff)
    then have "kiss_x k = kiss_x k'" "kiss_y k = kiss_y k'" "kiss_z k = kiss_z k' \<and> kiss_c k = kiss_c k'"
      using lcg_inj xorshift_inj mwc_inj [OF o] by blast+
    then show ?thesis by (cases k, cases k') simp
  qed
  moreover have "xorshift (kiss_y k) = 0 \<longleftrightarrow> kiss_y k = 0" using xorshift_inj [of "kiss_y k" 0] xorshift_zero by metis
  ultimately show ?thesis using mwc_value [OF o(1,2)] by (simp only: KISS64_parts RandomKiss.simps) blast
qed

lemma kiss_keeps_state_witness:
  "kiss_y (snd (KISS64 kiss_seed)) \<noteq> 0"
proof -
  have "kiss_ok kiss_seed" by (simp add: kiss_ok_def kiss_seed_def)
  from kiss_keeps_state [OF this this] show ?thesis by (simp add: kiss_seed_def)
qed

end
