(* ===== verification/Monitoring.thy ===== *)
theory Monitoring
  imports String_Pico
begin

text \<open>
  The messages for monitoring of \<open>support-libs/monitoringMsg.h\<close> and \<open>.cpp\<close>: parameters are appended on one side and taken
  off on the other. A value is the list of its bytes in memory. An access outside of the array \<open>params\<close> has the result \<open>None\<close>.
  The part of the message that is sent ends behind the used parameters.
\<close>

section \<open>The code\<close>

definition MAX_PARAMS :: nat where "MAX_PARAMS = 64"

record MonitoringMsg =
  mm_sendTime :: int
  mm_msgType :: u16
  mm_nodeNr :: u8
  mm_taskId :: u8
  mm_numOfParamsToSend :: u8
  mm_numOfParamsDeserialized :: u8
  mm_params :: "u8 list"

definition mm_clear :: "MonitoringMsg \<Rightarrow> MonitoringMsg" where
  "mm_clear m = m\<lparr>mm_numOfParamsToSend := 0, mm_numOfParamsDeserialized := 0, mm_msgType := 0\<rparr>"

definition MonitoringMsg_new :: "int \<Rightarrow> u8 \<Rightarrow> MonitoringMsg \<Rightarrow> MonitoringMsg" where
  "MonitoringMsg_new nodeNumber taskId m = (mm_clear m)\<lparr>mm_nodeNr := of_int (nodeNumber AND 0xFF), mm_taskId := taskId\<rparr>"

text \<open>The offset of \<open>params\<close>, behind eight, two and four bytes.\<close>

definition mm_numOfBytesToSend :: "MonitoringMsg \<Rightarrow> nat" where
  "mm_numOfBytesToSend m = 14 + unat (mm_numOfParamsToSend m)"

definition mm_serialize :: "u8 list \<Rightarrow> MonitoringMsg \<Rightarrow> (bool \<times> MonitoringMsg) option" where
  "mm_serialize src m =
     (let n = unat (mm_numOfParamsToSend m); newEnd = n + length src
      in if newEnd \<ge> MAX_PARAMS then Some (False, m)
         else if newEnd > length (mm_params m) then None
         else Some (True, m\<lparr>mm_params := take n (mm_params m) @ src @ drop newEnd (mm_params m), mm_numOfParamsToSend := of_nat newEnd\<rparr>))"

definition mm_serializeString :: "u8 list \<Rightarrow> MonitoringMsg \<Rightarrow> (bool \<times> MonitoringMsg) option" where
  "mm_serializeString s m = do {
     n \<leftarrow> strlen (Some s);
     mm_serialize (take (n + 1) s) m
   }"

text \<open>The result of \<open>report\<close> is the message as it is published.\<close>

definition mm_report :: "int \<Rightarrow> u16 \<Rightarrow> MonitoringMsg \<Rightarrow> (MonitoringMsg \<times> nat) \<times> MonitoringMsg" where
  "mm_report now i m = (let m = m\<lparr>mm_sendTime := now, mm_msgType := i\<rparr> in ((m, mm_numOfBytesToSend m), mm_clear m))"

definition mm_deserialize :: "nat \<Rightarrow> MonitoringMsg \<Rightarrow> (u8 list option \<times> MonitoringMsg) option" where
  "mm_deserialize len m =
     (let n = unat (mm_numOfParamsDeserialized m); newEnd = n + len
      in if newEnd > unat (mm_numOfParamsToSend m) then Some (None, m)
         else if newEnd > length (mm_params m) then None
         else Some (Some (take len (drop n (mm_params m))), m\<lparr>mm_numOfParamsDeserialized := of_nat newEnd\<rparr>))"

definition mm_deserializeNoCopy :: "nat \<Rightarrow> MonitoringMsg \<Rightarrow> nat \<times> MonitoringMsg" where
  "mm_deserializeNoCopy len m =
     (unat (mm_numOfParamsDeserialized m), m\<lparr>mm_numOfParamsDeserialized := of_nat (unat (mm_numOfParamsDeserialized m) + len)\<rparr>)"

definition mm_deserializeString :: "MonitoringMsg \<Rightarrow> (u8 list option \<times> MonitoringMsg) option" where
  "mm_deserializeString m = do {
     n \<leftarrow> strlen (Some (drop (unat (mm_numOfParamsDeserialized m)) (mm_params m)));
     mm_deserialize (n + 1) m
   }"

definition mm_deserializeString_ptr :: "MonitoringMsg \<Rightarrow> (nat \<times> MonitoringMsg) option" where
  "mm_deserializeString_ptr m = do {
     n \<leftarrow> strlen (Some (drop (unat (mm_numOfParamsDeserialized m)) (mm_params m)));
     Some (mm_deserializeNoCopy (n + 1) m)
   }"

section \<open>Many parameters\<close>

text \<open>All parameters in turn; those that do not fit are left out. The parameters the message got, and reading some.\<close>

fun serialize_all :: "u8 list list \<Rightarrow> MonitoringMsg \<Rightarrow> (u8 list list \<times> MonitoringMsg) option" where
  "serialize_all [] m = Some ([], m)"
| "serialize_all (x # xs) m = do {
     (ok, m) \<leftarrow> mm_serialize x m;
     (acc, m) \<leftarrow> serialize_all xs m;
     Some (if ok then x # acc else acc, m)
   }"

fun deserialize_all :: "nat list \<Rightarrow> MonitoringMsg \<Rightarrow> (u8 list option list \<times> MonitoringMsg) option" where
  "deserialize_all [] m = Some ([], m)"
| "deserialize_all (n # ns) m = do {
     (x, m) \<leftarrow> mm_deserialize n m;
     (xs, m) \<leftarrow> deserialize_all ns m;
     Some (x # xs, m)
   }"

definition mm_ok :: "MonitoringMsg \<Rightarrow> bool" where
  "mm_ok m \<longleftrightarrow> length (mm_params m) = MAX_PARAMS \<and> unat (mm_numOfParamsToSend m) < MAX_PARAMS"

abbreviation mm_used :: "MonitoringMsg \<Rightarrow> u8 list" where
  "mm_used m \<equiv> take (unat (mm_numOfParamsToSend m)) (mm_params m)"

lemma unat_small: "n < 256 \<Longrightarrow> unat (of_nat n :: u8) = n"
  by (simp add: unat_of_nat)

lemma serialize_appends:
  assumes "mm_ok m"
  shows "\<exists>ok m'. mm_serialize src m = Some (ok, m') \<and> mm_ok m' \<and> mm_used m' = mm_used m @ (if ok then src else []) \<and>
    mm_numOfParamsDeserialized m' = mm_numOfParamsDeserialized m \<and> (ok \<longleftrightarrow> length (mm_used m) + length src < MAX_PARAMS)"
proof -
  let ?n = "unat (mm_numOfParamsToSend m)"
  have l: "length (mm_params m) = 64" "?n < 64" using assms by (simp_all add: mm_ok_def MAX_PARAMS_def)
  show ?thesis
  proof (cases "?n + length src < 64")
    case True
    then have u: "unat (of_nat (?n + length src) :: u8) = ?n + length src" by (intro unat_small) simp
    have "length (mm_used m) = ?n" using l by simp
    then show ?thesis using True l u by (auto simp: mm_serialize_def mm_ok_def MAX_PARAMS_def Let_def)
  next
    case False
    then show ?thesis using l assms by (auto simp: mm_serialize_def MAX_PARAMS_def Let_def)
  qed
qed

lemma serialize_all_appends:
  assumes "mm_ok m"
  shows "\<exists>acc m'. serialize_all xs m = Some (acc, m') \<and> mm_ok m' \<and> mm_used m' = mm_used m @ concat acc \<and>
    mm_numOfParamsDeserialized m' = mm_numOfParamsDeserialized m \<and>
    (length (mm_used m) + length (concat xs) < MAX_PARAMS \<longrightarrow> acc = xs)"
  using assms
proof (induction xs arbitrary: m)
  case (Cons x xs)
  obtain ok m1 where 1: "mm_serialize x m = Some (ok, m1)" "mm_ok m1" "mm_used m1 = mm_used m @ (if ok then x else [])"
    "mm_numOfParamsDeserialized m1 = mm_numOfParamsDeserialized m" "ok \<longleftrightarrow> length (mm_used m) + length x < MAX_PARAMS"
    using serialize_appends [OF Cons.prems] by blast
  obtain acc m2 where 2: "serialize_all xs m1 = Some (acc, m2)" "mm_ok m2" "mm_used m2 = mm_used m1 @ concat acc"
    "mm_numOfParamsDeserialized m2 = mm_numOfParamsDeserialized m1"
    "length (mm_used m1) + length (concat xs) < MAX_PARAMS \<longrightarrow> acc = xs" using Cons.IH [OF 1(2)] by blast
  have "length (mm_used m) + length (concat (x # xs)) < MAX_PARAMS \<Longrightarrow> ok \<and> acc = xs" using 1(3,5) 2(5) by simp
  then show ?case using 1 2 by auto
qed simp

lemma deserialize_all_reads:
  assumes "length (mm_params m) = MAX_PARAMS" "unat (mm_numOfParamsToSend m) \<le> MAX_PARAMS"
    and "drop (unat (mm_numOfParamsDeserialized m)) (mm_used m) = concat xs @ rest" "unat (mm_numOfParamsDeserialized m) \<le> unat (mm_numOfParamsToSend m)"
  shows "\<exists>m'. deserialize_all (map length xs) m = Some (map Some xs, m') \<and> mm_params m' = mm_params m \<and>
    mm_numOfParamsToSend m' = mm_numOfParamsToSend m \<and> drop (unat (mm_numOfParamsDeserialized m')) (mm_used m') = rest"
  using assms
proof (induction xs arbitrary: m)
  case (Cons x xs)
  let ?d = "unat (mm_numOfParamsDeserialized m)" and ?n = "unat (mm_numOfParamsToSend m)"
  have "length (drop ?d (mm_used m)) = length x + length (concat xs @ rest)" using Cons.prems(3) by simp
  then have fits: "?d + length x \<le> ?n" "?n \<le> 64" using Cons.prems(1,2,4) by (simp_all add: MAX_PARAMS_def)
  then have u: "unat (of_nat (?d + length x) :: u8) = ?d + length x" by (intro unat_small) simp
  have x: "take (length x) (drop ?d (mm_params m)) = x"
  proof -
    have "take (length x) (drop ?d (mm_used m)) = x" using Cons.prems(3) by simp
    moreover have "take (length x) (drop ?d (mm_used m)) = take (length x) (drop ?d (mm_params m))"
      using fits by (simp add: drop_take)
    ultimately show ?thesis by simp
  qed
  let ?m = "m\<lparr>mm_numOfParamsDeserialized := of_nat (?d + length x)\<rparr>"
  have s: "mm_deserialize (length x) m = Some (Some x, ?m)"
    using fits x Cons.prems(1) by (simp add: mm_deserialize_def MAX_PARAMS_def Let_def)
  have "drop (?d + length x) (mm_used m) = drop (length x) (drop ?d (mm_used m))" by (simp add: add.commute)
  then have "drop (unat (mm_numOfParamsDeserialized ?m)) (mm_used ?m) = concat xs @ rest" using Cons.prems(3) u by simp
  from Cons.IH [of ?m, OF _ _ this] obtain m' where "deserialize_all (map length xs) ?m = Some (map Some xs, m')" "mm_params m' = mm_params m"
    "mm_numOfParamsToSend m' = mm_numOfParamsToSend m" "drop (unat (mm_numOfParamsDeserialized m')) (mm_used m') = rest"
    using Cons.prems(1,2) fits(1) u by auto
  then show ?case using s by auto
qed auto

section \<open>Properties\<close>

text \<open>
  A monitor reads what was reported: whatever parameters are appended, those that fit arrive, in order and unchanged,
  at a receiver that has only the sent part of the message, and nothing more can be read from it; nothing is ever
  written outside of the message.
\<close>

lemma monitoring_roundtrip:
  assumes "length (mm_params m0) = MAX_PARAMS" "length (mm_params r) = MAX_PARAMS"
  shows "\<exists>acc m. serialize_all xs (MonitoringMsg_new nodeNumber taskId m0) = Some (acc, m) \<and>
    (length (concat xs) < MAX_PARAMS \<longrightarrow> acc = xs) \<and>
    (\<exists>m1 n m2. mm_report now i m = ((m1, n), m2) \<and> n \<le> 14 + MAX_PARAMS \<and>
      (mm_numOfParamsToSend r = mm_numOfParamsToSend m1 \<and> mm_numOfParamsDeserialized r = mm_numOfParamsDeserialized m1 \<and>
       take (n - 14) (mm_params r) = take (n - 14) (mm_params m1) \<longrightarrow>
       (\<exists>r'. deserialize_all (map length acc) r = Some (map Some acc, r') \<and> (\<forall>k > 0. mm_deserialize k r' = Some (None, r')))))"
proof -
  let ?m = "MonitoringMsg_new nodeNumber taskId m0"
  have "mm_ok ?m" "mm_used ?m = []" "mm_numOfParamsDeserialized ?m = 0"
    using assms(1) by (simp_all add: mm_ok_def MonitoringMsg_new_def mm_clear_def MAX_PARAMS_def)
  with serialize_all_appends [of ?m xs] obtain acc m where s: "serialize_all xs ?m = Some (acc, m)" "mm_ok m" "mm_used m = concat acc"
    "mm_numOfParamsDeserialized m = 0" "length (concat xs) < MAX_PARAMS \<longrightarrow> acc = xs" by auto
  let ?m1 = "m\<lparr>mm_sendTime := now, mm_msgType := i\<rparr>" and ?n = "14 + unat (mm_numOfParamsToSend m)"
  have rep: "mm_report now i m = ((?m1, ?n), mm_clear ?m1)" by (simp add: mm_report_def mm_numOfBytesToSend_def Let_def)
  have n: "?n \<le> 14 + MAX_PARAMS" using s(2) by (simp add: mm_ok_def)
  have "\<exists>r'. deserialize_all (map length acc) r = Some (map Some acc, r') \<and> (\<forall>k > 0. mm_deserialize k r' = Some (None, r'))"
    if r: "mm_numOfParamsToSend r = mm_numOfParamsToSend ?m1" "mm_numOfParamsDeserialized r = mm_numOfParamsDeserialized ?m1"
      "take (?n - 14) (mm_params r) = take (?n - 14) (mm_params ?m1)"
  proof -
    have "drop (unat (mm_numOfParamsDeserialized r)) (mm_used r) = concat acc @ []" "unat (mm_numOfParamsToSend r) \<le> MAX_PARAMS"
      "unat (mm_numOfParamsDeserialized r) \<le> unat (mm_numOfParamsToSend r)"
      using r s(2,3,4) by (simp_all add: mm_ok_def)
    from deserialize_all_reads [OF assms(2) this(2,1,3)] obtain r' where r': "deserialize_all (map length acc) r = Some (map Some acc, r')"
      "mm_params r' = mm_params r" "mm_numOfParamsToSend r' = mm_numOfParamsToSend r" "drop (unat (mm_numOfParamsDeserialized r')) (mm_used r') = []" by blast
    have "unat (mm_numOfParamsToSend r') \<le> unat (mm_numOfParamsDeserialized r')"
      using r'(2-4) assms(2) \<open>unat (mm_numOfParamsToSend r) \<le> MAX_PARAMS\<close> by simp
    then show ?thesis using r'(1) by (auto simp: mm_deserialize_def Let_def)
  qed
  then show ?thesis using s(1,5) rep n by blast
qed

lemma monitoring_roundtrip_witness:
  "\<exists>acc m. serialize_all [[1, 2], [3]] (MonitoringMsg_new 5 7 \<lparr>mm_sendTime = 0, mm_msgType = 0, mm_nodeNr = 0, mm_taskId = 0,
     mm_numOfParamsToSend = 9, mm_numOfParamsDeserialized = 0, mm_params = replicate 64 0\<rparr>) = Some (acc, m) \<and> acc = [[1, 2], [3]]"
proof -
  let ?m0 = "\<lparr>mm_sendTime = 0, mm_msgType = 0, mm_nodeNr = 0, mm_taskId = 0,
     mm_numOfParamsToSend = 9, mm_numOfParamsDeserialized = 0, mm_params = replicate 64 0\<rparr>"
  have l: "length (mm_params ?m0) = MAX_PARAMS" by (simp add: MAX_PARAMS_def)
  obtain acc m where "serialize_all [[1, 2], [3]] (MonitoringMsg_new 5 7 ?m0) = Some (acc, m)"
    "length (concat [[1, 2], [3 :: u8]]) < MAX_PARAMS \<longrightarrow> acc = [[1, 2], [3]]"
    using monitoring_roundtrip [OF l l, of "[[1, 2], [3]]" 5 7 0 0] by (elim exE conjE)
  then show ?thesis by (simp add: MAX_PARAMS_def)
qed

text \<open>A string is one parameter with its terminating zero, and is read back as such.\<close>

lemma monitoring_string:
  assumes "chars s"
  shows "mm_serializeString (s @ 0 # q) m = mm_serialize (s @ [0]) m"
    "drop (unat (mm_numOfParamsDeserialized m)) (mm_params m) = s @ 0 # q \<Longrightarrow> mm_deserializeString m = mm_deserialize (length s + 1) m"
  using strlen_string [OF assms] by (simp_all add: mm_serializeString_def mm_deserializeString_def)

end
