(* ===== verification/Activity.thy ===== *)
theory Activity
  imports Time_Model "HOL-Library.Multiset"
begin

text \<open>
  Activities (\<open>support-libs/activity.h\<close> and \<open>.cpp\<close>): periodic steps of many objects, all run by one thread. The list of
  activities is a HOL list, an activity is its position in it. The virtual \<open>step\<close> is a parameter that may change
  any activity. One turn of the loop of the thread is a function of the two times it reads; its result tells
  which activity ran and until when the thread then suspends itself.
\<close>

section \<open>The code\<close>

record activity =
  ac_pseudoThreadLine :: int
  ac_suspendedUntil :: int
  ac_periode :: int
  ac_priority :: int

definition Activity_new :: "int \<Rightarrow> int \<Rightarrow> int \<Rightarrow> activity" where
  "Activity_new prio startAt period =
     \<lparr>ac_pseudoThreadLine = 0, ac_suspendedUntil = startAt, ac_periode = period, ac_priority = prio\<rparr>"

definition ac_activateAt :: "int \<Rightarrow> activity \<Rightarrow> activity" where
  "ac_activateAt time a = a\<lparr>ac_suspendedUntil := time\<rparr>"

definition ac_activatePeriodic :: "int \<Rightarrow> int \<Rightarrow> activity \<Rightarrow> activity" where
  "ac_activatePeriodic startAt periode a = a\<lparr>ac_periode := periode, ac_suspendedUntil := startAt\<rparr>"

text \<open>The search for the next activity and the earliest time.\<close>

fun ac_search :: "activity list \<Rightarrow> int \<Rightarrow> nat list \<Rightarrow> nat option \<Rightarrow> int \<Rightarrow> nat option \<times> int" where
  "ac_search as timeNow [] nextActivity nextTime = (nextActivity, nextTime)"
| "ac_search as timeNow (iter # rest) nextActivity nextTime =
     (let nextActivity =
            (if ac_suspendedUntil (as ! iter) \<le> timeNow
             then case nextActivity of None \<Rightarrow> Some iter
                  | Some n \<Rightarrow> if ac_priority (as ! iter) > ac_priority (as ! n) then Some iter else Some n
             else nextActivity);
          nextTime = (if ac_suspendedUntil (as ! iter) < nextTime then ac_suspendedUntil (as ! iter) else nextTime)
      in ac_search as timeNow rest nextActivity nextTime)"

definition executer_round :: "(nat \<Rightarrow> int \<Rightarrow> activity list \<Rightarrow> activity list) \<Rightarrow> int \<Rightarrow> int \<Rightarrow> activity list \<Rightarrow>
    nat option \<times> int option \<times> activity list" where
  "executer_round step timeNow timeNow2 as =
     (let (nextActivity, nextTime) = ac_search as timeNow [0..<length as] None END_OF_TIME;
          as = (case nextActivity of None \<Rightarrow> as
            | Some n \<Rightarrow> let as = step n timeNow as
                in as[n := (as ! n)\<lparr>ac_suspendedUntil := computeNextBeat (ac_suspendedUntil (as ! n)) (ac_periode (as ! n)) timeNow\<rparr>])
      in (nextActivity, if nextTime > timeNow2 then Some nextTime else None, as))"

section \<open>The choice of an activity\<close>

definition due :: "int \<Rightarrow> activity list \<Rightarrow> nat \<Rightarrow> bool" where
  "due t as i \<longleftrightarrow> ac_suspendedUntil (as ! i) \<le> t"

text \<open>The first of the activities with the highest priority.\<close>

fun first_best :: "(nat \<Rightarrow> int) \<Rightarrow> nat option \<Rightarrow> nat list \<Rightarrow> nat option" where
  "first_best p b [] = b"
| "first_best p b (i # js) = first_best p (case b of None \<Rightarrow> Some i | Some n \<Rightarrow> if p i > p n then Some i else Some n) js"

lemma search_result:
  "ac_search as t js b m = (first_best (\<lambda>i. ac_priority (as ! i)) b (filter (due t as) js), Min (insert m (ac_suspendedUntil ` (!) as ` set js)))"
proof (induction js arbitrary: b m)
  case (Cons i js)
  let ?m = "if ac_suspendedUntil (as ! i) < m then ac_suspendedUntil (as ! i) else m"
  have "Min (insert ?m A) = Min (insert m (insert (ac_suspendedUntil (as ! i)) A))" if "finite A" for A
    using that by (cases "A = {}") (auto simp: min_def)
  then show ?case using Cons by (simp add: Let_def due_def)
qed simp

lemma first_best_Some:
  "first_best p (Some n) js = Some r \<Longrightarrow>
     (r = n \<and> (\<forall>i \<in> set js. p i \<le> p n)) \<or> (\<exists>xs ys. js = xs @ r # ys \<and> p n < p r \<and> (\<forall>i \<in> set xs. p i < p r) \<and> (\<forall>i \<in> set ys. p i \<le> p r))"
proof (induction js arbitrary: n)
  case (Cons i js)
  show ?case
  proof (cases "p n < p i")
    case True
    then have "first_best p (Some i) js = Some r" using Cons.prems by simp
    from Cons.IH [OF this] show ?thesis
    proof (elim disjE exE conjE)
      fix xs ys assume a: "js = xs @ r # ys" "p i < p r" "\<forall>i \<in> set xs. p i < p r" "\<forall>i \<in> set ys. p i \<le> p r"
      then show ?thesis using True by (intro disjI2 exI [of _ "i # xs"] exI [of _ ys]) auto
    next
      assume "r = i" "\<forall>k \<in> set js. p k \<le> p i"
      then show ?thesis using True by (intro disjI2 exI [of _ "[]"] exI [of _ js]) auto
    qed
  next
    case False
    then have "first_best p (Some n) js = Some r" using Cons.prems by simp
    from Cons.IH [OF this] show ?thesis
    proof (elim disjE exE conjE)
      fix xs ys assume a: "js = xs @ r # ys" "p n < p r" "\<forall>i \<in> set xs. p i < p r" "\<forall>i \<in> set ys. p i \<le> p r"
      then show ?thesis using False by (intro disjI2 exI [of _ "i # xs"] exI [of _ ys]) auto
    qed (use False in auto)
  qed
qed simp

lemma first_best_total: "\<exists>r. first_best p (Some n) js = Some r"
  by (induction js arbitrary: n) (auto split: option.splits)

lemma first_best_split:
  assumes "js \<noteq> []"
  shows "\<exists>r xs ys. first_best p None js = Some r \<and> js = xs @ r # ys \<and> (\<forall>i \<in> set xs. p i < p r) \<and> (\<forall>i \<in> set ys. p i \<le> p r)"
proof -
  obtain i js' where i: "js = i # js'" using assms by (cases js) auto
  obtain r where r: "first_best p (Some i) js' = Some r" using first_best_total by blast
  from first_best_Some [OF this] show ?thesis
  proof (elim disjE exE conjE)
    fix xs ys assume a: "js' = xs @ r # ys" "p i < p r" "\<forall>i \<in> set xs. p i < p r" "\<forall>i \<in> set ys. p i \<le> p r"
    then show ?thesis using r i by (intro exI [of _ r] exI [of _ "i # xs"] exI [of _ ys]) auto
  qed (use r i in force)
qed

text \<open>Taking it first is what a stable sort does.\<close>

lemma sort_first_best:
  fixes p :: "nat \<Rightarrow> int"
  assumes "js = xs @ r # ys" "\<forall>i \<in> set xs. p i < p r" "\<forall>i \<in> set ys. p i \<le> p r"
  shows "sort_key (\<lambda>i. - p i) js = r # sort_key (\<lambda>i. - p i) (xs @ ys)"
proof (rule properties_for_sort_key)
  show "mset (r # sort_key (\<lambda>i. - p i) (xs @ ys)) = mset js" using assms(1) by simp
  show "sorted (map (\<lambda>i. - p i) (r # sort_key (\<lambda>i. - p i) (xs @ ys)))" using assms(2,3) by auto
  fix k assume "k \<in> set (r # sort_key (\<lambda>i. - p i) (xs @ ys))"
  show "filter (\<lambda>x. - p k = - p x) (r # sort_key (\<lambda>i. - p i) (xs @ ys)) = filter (\<lambda>x. - p k = - p x) js"
  proof -
    have "filter (\<lambda>x. - p k = - p x) (sort_key (\<lambda>i. - p i) (xs @ ys)) = filter (\<lambda>x. - p k = - p x) (xs @ ys)"
      using sort_key_stable [of "\<lambda>i. - p i" "- p k" "xs @ ys"] by (simp add: eq_commute)
    moreover have "p k = p r \<Longrightarrow> filter (\<lambda>x. - p k = - p x) xs = []" using assms(2) by (auto simp: filter_empty_conv)
    ultimately show ?thesis using assms(1) by auto
  qed
qed

section \<open>Rounds at one time\<close>

text \<open>Steps that do not touch the activities, on a clock that stands still; at most \<open>n\<close> turns that run an activity.\<close>

fun executer_run :: "nat \<Rightarrow> int \<Rightarrow> activity list \<Rightarrow> nat list \<times> int option \<times> activity list" where
  "executer_run n t as =
     (case executer_round (\<lambda>_ _ as. as) t t as of
        (None, sleep, as) \<Rightarrow> ([], sleep, as)
      | (Some i, sleep, as) \<Rightarrow> (case n of 0 \<Rightarrow> ([], None, as) | Suc n \<Rightarrow> let (js, s, as) = executer_run n t as in (i # js, s, as)))"

declare executer_run.simps [simp del]

definition ac_ok :: "int \<Rightarrow> activity \<Rightarrow> bool" where
  "ac_ok t a \<longleftrightarrow> 0 \<le> ac_suspendedUntil a \<and> 0 \<le> ac_periode a \<and>
     (ac_periode a = 0 \<or> ac_periode a < END_OF_TIME - ac_suspendedUntil a \<and> t + ac_periode a \<le> END_OF_TIME)"

lemma beat_in_future:
  assumes "ac_ok t a" "0 \<le> t" "t < END_OF_TIME" "ac_suspendedUntil a \<le> t"
  shows "t < computeNextBeat (ac_suspendedUntil a) (ac_periode a) t"
proof (cases "ac_periode a = 0")
  case True
  then show ?thesis using assms by (simp add: computeNextBeat_def ac_ok_def)
next
  case False
  let ?b = "ac_suspendedUntil a" and ?p = "ac_periode a"
  have p: "0 < ?p" using assms(1) False by (simp add: ac_ok_def)
  have "computeNextBeat ?b ?p t = ((t - ?b) div ?p + 1) * ?p + ?b"
    using assms False p by (intro computeNextBeat_exact) (auto simp: ac_ok_def)
  then show ?thesis using next_multiple_bounds(1) [of "t - ?b" ?p] p assms(4) by simp
qed

lemma round_idle:
  assumes "filter (due t as) [0..<length as] = []"
  shows "executer_round step t t2 as = (None, if Min (insert END_OF_TIME (set (map ac_suspendedUntil as))) > t2
    then Some (Min (insert END_OF_TIME (set (map ac_suspendedUntil as)))) else None, as)"
proof -
  have "(!) as ` {0..<length as} = set as" by (auto simp: set_conv_nth image_def)
  then have "ac_suspendedUntil ` (!) as ` set [0..<length as] = set (map ac_suspendedUntil as)" by simp
  then show ?thesis using assms by (simp add: executer_round_def search_result Let_def)
qed

lemma round_runs:
  assumes "filter (due t as) [0..<length as] = xs @ r # ys" "\<forall>i \<in> set xs. ac_priority (as ! i) < ac_priority (as ! r)"
    and "\<forall>i \<in> set ys. ac_priority (as ! i) \<le> ac_priority (as ! r)" "0 \<le> t" "t < END_OF_TIME" "\<forall>a \<in> set as. ac_suspendedUntil a \<le> t \<longrightarrow> ac_ok t a"
  defines "as' \<equiv> as[r := (as ! r)\<lparr>ac_suspendedUntil := computeNextBeat (ac_suspendedUntil (as ! r)) (ac_periode (as ! r)) t\<rparr>]"
  shows "executer_round (\<lambda>_ _ as. as) t t as = (Some r, None, as')" "filter (due t as') [0..<length as'] = xs @ ys"
    "map ac_priority as' = map ac_priority as"
    "\<forall>a \<in> set as'. ac_suspendedUntil a \<le> t \<longrightarrow> ac_ok t a"
proof -
  let ?js = "filter (due t as) [0..<length as]" and ?p = "\<lambda>i. ac_priority (as ! i)"
  have d: "distinct (xs @ r # ys)" using assms(1) distinct_filter [of "[0..<length as]" "due t as"] by (metis distinct_upt)
  have "r \<in> set ?js" using assms(1) by simp
  then have r: "r < length as" "due t as r" by auto
  obtain q us vs where q: "first_best ?p None ?js = Some q" "?js = us @ q # vs" "\<forall>i \<in> set us. ?p i < ?p q" "\<forall>i \<in> set vs. ?p i \<le> ?p q"
    using first_best_split [of ?js ?p] assms(1) by auto
  have "q = r"
    using sort_first_best [OF q(2,3,4)] sort_first_best [of ?js xs r ys ?p] assms(1-3) by simp
  moreover have "Min (insert END_OF_TIME (ac_suspendedUntil ` (!) as ` set [0..<length as])) \<le> t"
  proof -
    have "Min (insert END_OF_TIME (ac_suspendedUntil ` (!) as ` set [0..<length as])) \<le> ac_suspendedUntil (as ! r)"
      using r(1) by (intro Min_le) auto
    then show ?thesis using r(2) by (simp add: due_def)
  qed
  then have "\<not> t < Min (insert END_OF_TIME (ac_suspendedUntil ` (!) as ` set [0..<length as]))" unfolding not_less .
  ultimately show "executer_round (\<lambda>_ _ as. as) t t as = (Some r, None, as')"
    using q(1) by (simp only: executer_round_def search_result as'_def Let_def split option.simps if_False)
  have f: "t < computeNextBeat (ac_suspendedUntil (as ! r)) (ac_periode (as ! r)) t"
    using beat_in_future [of t "as ! r"] assms(4-6) r by (auto simp: due_def)
  then have "\<not> due t as' r" using r by (auto simp: due_def as'_def)
  moreover have "due t as' i = due t as i" if "i \<noteq> r" for i using that by (simp add: due_def as'_def)
  ultimately have "due t as' i \<longleftrightarrow> due t as i \<and> i \<noteq> r" for i by (cases "i = r") auto
  then have "filter (due t as') [0..<length as'] = filter (\<lambda>i. i \<noteq> r) ?js"
    by (simp add: as'_def conj_commute cong: filter_cong)
  also have "\<dots> = xs @ ys"
  proof -
    have "filter (\<lambda>i. i \<noteq> r) xs = xs" "filter (\<lambda>i. i \<noteq> r) ys = ys" using d by (auto intro!: filter_True)
    then show ?thesis by (simp add: assms(1))
  qed
  finally show "filter (due t as') [0..<length as'] = xs @ ys" .
  show "\<forall>a \<in> set as'. ac_suspendedUntil a \<le> t \<longrightarrow> ac_ok t a"
    using assms(6) f set_update_subset_insert [of as r] unfolding as'_def by fastforce
  show "map ac_priority as' = map ac_priority as" using r(1) by (simp add: as'_def map_update) (metis list_update_id nth_map)
qed

lemma executer_run_priority:
  assumes "0 \<le> t" "t < END_OF_TIME" "\<forall>a \<in> set as. ac_suspendedUntil a \<le> t \<longrightarrow> ac_ok t a"
    and "length (filter (due t as) [0..<length as]) \<le> n" "\<forall>i < length as. ac_priority (as ! i) = p i"
  shows "\<exists>as'. executer_run n t as = (sort_key (\<lambda>i. - p i) (filter (due t as) [0..<length as]),
           Some (Min (insert END_OF_TIME (set (map ac_suspendedUntil as')))), as') \<and>
         map ac_priority as' = map ac_priority as \<and> (\<forall>a \<in> set as'. t < ac_suspendedUntil a)"
  using assms(3-)
proof (induction n arbitrary: as)
  case 0
  then have e: "filter (due t as) [0..<length as] = []" by simp
  then have f: "\<forall>a \<in> set as. t < ac_suspendedUntil a" by (auto simp: filter_empty_conv due_def in_set_conv_nth not_le)
  have "t < Min (insert END_OF_TIME (set (map ac_suspendedUntil as)))" using f assms(2) by (subst Min_gr_iff) auto
  then show ?case using f 0(3) by (simp add: executer_run.simps round_idle [OF e] e del: Min_gr_iff)
next
  case (Suc n)
  show ?case
  proof (cases "filter (due t as) [0..<length as] = []")
    case e: True
    then have f: "\<forall>a \<in> set as. t < ac_suspendedUntil a" by (auto simp: filter_empty_conv due_def in_set_conv_nth not_le)
    have "t < Min (insert END_OF_TIME (set (map ac_suspendedUntil as)))" using f assms(2) by (subst Min_gr_iff) auto
    then show ?thesis using f Suc.prems(3) by (simp add: executer_run.simps round_idle [OF e] e del: Min_gr_iff)
  next
    case False
    let ?p = "\<lambda>i. ac_priority (as ! i)"
    obtain r xs ys where s: "filter (due t as) [0..<length as] = xs @ r # ys" "\<forall>i \<in> set xs. ?p i < ?p r" "\<forall>i \<in> set ys. ?p i \<le> ?p r"
      using first_best_split [OF False, of ?p] by blast
    have "set (xs @ r # ys) \<subseteq> {..<length as}" unfolding s(1) [symmetric] by auto
    then have ps: "\<And>i. i \<in> set (xs @ r # ys) \<Longrightarrow> ?p i = p i" using Suc.prems(3) by auto
    note round = round_runs [OF s assms(1,2) Suc.prems(1)]
    let ?as = "as[r := (as ! r)\<lparr>ac_suspendedUntil := computeNextBeat (ac_suspendedUntil (as ! r)) (ac_periode (as ! r)) t\<rparr>]"
    have "length (filter (due t ?as) [0..<length ?as]) \<le> n" unfolding round(2) using Suc.prems(2) s(1) by simp
    moreover have "\<forall>i < length ?as. ac_priority (?as ! i) = p i"
      using Suc.prems(3) round(3) by (metis length_map nth_map)
    ultimately have "\<exists>as'. executer_run n t ?as = (sort_key (\<lambda>i. - p i) (filter (due t ?as) [0..<length ?as]),
           Some (Min (insert END_OF_TIME (set (map ac_suspendedUntil as')))), as') \<and>
         map ac_priority as' = map ac_priority ?as \<and> (\<forall>a \<in> set as'. t < ac_suspendedUntil a)"
      by (rule Suc.IH [OF round(4)])
    then
    obtain as' where as': "executer_run n t ?as = (sort_key (\<lambda>i. - p i) (xs @ ys),
        Some (Min (insert END_OF_TIME (set (map ac_suspendedUntil as')))), as')"
      "map ac_priority as' = map ac_priority as" "\<forall>a \<in> set as'. t < ac_suspendedUntil a"
      unfolding round(2,3) by blast
    have "sort_key (\<lambda>i. - p i) (xs @ r # ys) = r # sort_key (\<lambda>i. - p i) (xs @ ys)"
      using s(2,3) ps by (intro sort_first_best [of _ xs r ys "p"]) auto
    moreover have "executer_run (Suc n) t as = (r # sort_key (\<lambda>i. - p i) (xs @ ys),
        Some (Min (insert END_OF_TIME (set (map ac_suspendedUntil as')))), as')"
      by (subst executer_run.simps) (simp only: round(1) as'(1) prod.case option.case nat.case Let_def)
    ultimately show ?thesis using as'(2,3) s(1) by auto
  qed
qed

text \<open>
  C23. When the executer runs at time \<open>t\<close>, it performs exactly the due activities, once each: the more important
  ones first and equally important ones in the order of the list. Then no activity is due and the executer suspends
  itself exactly until the next one is. Priorities never change.
\<close>

theorem activities_run_by_priority:
  assumes "0 \<le> t" "t < END_OF_TIME" "\<forall>a \<in> set as. ac_suspendedUntil a \<le> t \<longrightarrow> ac_ok t a"
    and "length (filter (due t as) [0..<length as]) \<le> n"
  shows "\<exists>as'. executer_run n t as = (sort_key (\<lambda>i. - ac_priority (as ! i)) (filter (due t as) [0..<length as]),
           Some (Min (insert END_OF_TIME (set (map ac_suspendedUntil as')))), as') \<and>
         map ac_priority as' = map ac_priority as \<and> (\<forall>a \<in> set as'. t < ac_suspendedUntil a)"
  using executer_run_priority [of t as n "\<lambda>i. ac_priority (as ! i)"] assms by blast

definition example_activities :: "activity list" where
  "example_activities = [Activity_new 100 5 10, Activity_new 200 50 7, ac_activatePeriodic 3 4 (Activity_new 300 END_OF_TIME 0),
     ac_activateAt 7 (Activity_new 100 END_OF_TIME 0)]"

theorem activities_run_by_priority_witness:
  "\<exists>as'. executer_run 3 20 example_activities = ([2, 0, 3], Some (Min (insert END_OF_TIME (set (map ac_suspendedUntil as')))), as') \<and>
     map ac_priority as' = [100, 200, 300, 100] \<and> list_all (\<lambda>a. 20 < ac_suspendedUntil a) as'"
proof -
  have "filter (due 20 example_activities) [0..<length example_activities] = [0, 2, 3]"
    by (simp add: example_activities_def due_def Activity_new_def ac_activatePeriodic_def ac_activateAt_def upt_rec)
  moreover have "\<forall>a \<in> set example_activities. ac_suspendedUntil a \<le> 20 \<longrightarrow> ac_ok 20 a"
    by (simp add: example_activities_def ac_ok_def Activity_new_def ac_activatePeriodic_def ac_activateAt_def END_OF_TIME_def)
  ultimately show ?thesis using activities_run_by_priority [of 20 example_activities 3]
    by (simp add: END_OF_TIME_def example_activities_def Activity_new_def ac_activatePeriodic_def ac_activateAt_def list_all_iff)
qed

text \<open>
  When nothing is activated, the executer suspends itself until the end of time, and \<open>activateAt\<close> called by another
  thread only writes \<open>suspendedUntil\<close>: nobody wakes the executer up.
\<close>

lemma activate_does_not_wake:
  assumes "t < END_OF_TIME" "\<forall>a \<in> set as. ac_suspendedUntil a = END_OF_TIME"
  shows "executer_run n t as = ([], Some END_OF_TIME, as)"
proof -
  have e: "filter (due t as) [0..<length as] = []" using assms by (auto simp: filter_empty_conv due_def)
  have m: "insert END_OF_TIME (set (map ac_suspendedUntil as)) = {END_OF_TIME}" using assms(2) by auto
  show "executer_run n t as = ([], Some END_OF_TIME, as)"
    unfolding executer_run.simps [of n] round_idle [OF e] m using assms(1) by simp
qed

end
