(* ===== verification/Calendar.thy ===== *)
theory Calendar
  imports Time_Model Complex_Main
begin

text \<open>
  The calendar of the time model (\<open>src/independent/timemodel.cpp\<close>). Floating point values are rationals; the
  rounding of a \<open>double\<close> operation is the parameter \<open>rnd\<close>, of which only what the standard says of normal
  numbers is used: representable values are kept, and the relative error is at most \<open>2^-53\<close>. The
  reference is the Gregorian calendar as a function from a day to the next.
\<close>

section \<open>The code\<close>

definition c_trunc :: "rat \<Rightarrow> int" where
  "c_trunc x = (if 0 \<le> x then \<lfloor>x\<rfloor> else \<lceil>x\<rceil>)"

definition to_i32 :: "int \<Rightarrow> int" where
  "to_i32 x = (x + 2 ^ 31) mod 2 ^ 32 - 2 ^ 31"

record calendar =
  cal_year :: int
  cal_month :: int
  cal_day :: int
  cal_hour :: int
  cal_min :: int
  cal_sec :: rat

definition localTime2Calendar :: "(rat \<Rightarrow> rat) \<Rightarrow> int \<Rightarrow> calendar" where
  "localTime2Calendar rnd localTime =
     (let days = to_i32 (c_div localTime DAYS);
          localTimeUnitsOfTheDay = c_mod localTime DAYS;
          a = 2451545 + days;
          b = c_trunc (rnd (rnd (of_int a - rnd (186721625 / 100)) / rnd (3652425 / 100)));
          c = a + b - c_div b 4 + 1525;
          d = c_trunc (rnd (rnd (of_int c - rnd (1221 / 10)) / rnd (36525 / 100)));
          e = 365 * d + c_div d 4;
          f = c_trunc (rnd (of_int (c - e) / rnd (306001 / 10000)));
          day = c - e - c_trunc (rnd (rnd (306001 / 10000) * of_int f));
          month = f - 1 - 12 * c_div f 14;
          year = d - 4715 - c_div (7 + month) 10;
          hour = to_i32 (c_div localTimeUnitsOfTheDay HOURS);
          min = to_i32 (c_mod (c_div localTimeUnitsOfTheDay MINUTES) 60);
          sec = rnd (rnd (of_int (c_mod (c_div localTimeUnitsOfTheDay SECONDS) 60)) +
                rnd (rnd (of_int (c_mod localTimeUnitsOfTheDay SECONDS)) / rnd (of_int SECONDS)))
      in \<lparr>cal_year = year, cal_month = month, cal_day = day, cal_hour = hour, cal_min = min, cal_sec = sec\<rparr>)"

definition calendar2LocalTime :: "(rat \<Rightarrow> rat) \<Rightarrow> calendar \<Rightarrow> int" where
  "calendar2LocalTime rnd cal =
     (let year = cal_year cal; month = cal_month cal;
          daysFrom2000 = to_i32 (367 * year - c_div (7 * (year + c_div (month + 9) 12)) 4 + c_div (275 * month) 9 + cal_day cal - 730531);
          secondsOfDay = rnd (of_int ((cal_hour cal * 60 + cal_min cal) * 60) + cal_sec cal)
      in i64 (i64 (daysFrom2000 * DAYS) + c_trunc (rnd (secondsOfDay * rnd (of_int SECONDS)))))"

section \<open>Rounding\<close>

text \<open>Rounding to \<open>p\<close> significant bits; of values too small for a normal number only the absolute error is bounded.\<close>

definition rounds_to :: "nat \<Rightarrow> (rat \<Rightarrow> rat) \<Rightarrow> bool" where
  "rounds_to p rnd \<longleftrightarrow> (\<forall>m k. \<bar>m\<bar> \<le> 2 ^ p \<and> k \<le> 1000 \<longrightarrow> rnd (of_int m / 2 ^ k) = of_int m / 2 ^ k) \<and>
     (\<forall>x. 1 / 2 ^ 1000 \<le> \<bar>x\<bar> \<and> \<bar>x\<bar> \<le> 2 ^ 1000 \<longrightarrow> \<bar>rnd x - x\<bar> \<le> \<bar>x\<bar> / 2 ^ p) \<and>
     (\<forall>x. \<bar>x\<bar> \<le> 1 / 2 ^ 1000 \<longrightarrow> \<bar>rnd x - x\<bar> \<le> 1 / 2 ^ 1000)"

abbreviation rounds :: "(rat \<Rightarrow> rat) \<Rightarrow> bool" where
  "rounds \<equiv> rounds_to 53"

lemma rounds_int:
  assumes "rounds_to p rnd" "\<bar>m\<bar> \<le> 2 ^ p"
  shows "rnd (of_int m) = of_int m"
proof -
  have "rnd (of_int m / 2 ^ 0) = of_int m / 2 ^ 0" using assms unfolding rounds_to_def by blast
  then show ?thesis by simp
qed

lemma rounds_quarter:
  assumes "rounds rnd" "\<bar>m\<bar> \<le> 2 ^ 53"
  shows "rnd (of_int m / 4) = of_int m / 4"
proof -
  have "rnd (of_int m / 2 ^ 2) = of_int m / 2 ^ 2" using assms unfolding rounds_to_def by (metis numeral_le_iff one_le_numeral semiring_norm(68,69,71,72))
  then show ?thesis by simp
qed

lemma small_power: "1 / (2 :: rat) ^ 1000 \<le> 1 / 2 ^ 30" "(2 :: rat) ^ 60 \<le> 2 ^ 1000"
  by (auto intro: power_increasing divide_left_mono)

lemma rounds_near:
  assumes "rounds rnd" "1 / 2 ^ 30 \<le> x" "x \<le> 2 ^ 60"
  shows "x * (1 - 1 / 2 ^ 53) \<le> rnd x" "rnd x \<le> x * (1 + 1 / 2 ^ 53)"
proof -
  have "1 / 2 ^ 1000 \<le> x" "x \<le> 2 ^ 1000" using small_power assms(2,3) by linarith+
  moreover have "\<bar>x\<bar> = x" using assms(2) by simp
  ultimately have "\<bar>rnd x - x\<bar> \<le> x / 2 ^ 53" using assms(1) unfolding rounds_to_def by metis
  then have "rnd x - x \<le> x / 2 ^ 53" "x - rnd x \<le> x / 2 ^ 53" by linarith+
  then show "x * (1 - 1 / 2 ^ 53) \<le> rnd x" "rnd x \<le> x * (1 + 1 / 2 ^ 53)" by (simp_all add: field_simps)
qed

lemma c_trunc_eq: "0 \<le> k \<Longrightarrow> of_int k \<le> x \<Longrightarrow> x < of_int k + 1 \<Longrightarrow> c_trunc x = k"
  by (auto simp: c_trunc_def floor_eq_iff dest: order_trans [of 0 "of_int k"])

lemma trunc_quotient:
  assumes "rounds rnd" "wl \<le> w" "w \<le> wh" "1 \<le> wl" "1 \<le> k" "k \<le> 2 ^ 40"
    and "of_int k * (1 + 1 / 2 ^ 52) * wh \<le> x" "x \<le> (of_int k + 1) * (1 - 1 / 2 ^ 52) * wl"
  shows "c_trunc (rnd (x / w)) = k"
proof -
  let ?k = "of_int k :: rat"
  have k: "1 \<le> ?k" "?k \<le> 2 ^ 40" using assms(5,6) by (simp_all add: of_int_le_iff [of k "2 ^ 40", where 'a = rat, symmetric])
  have w: "0 < w" using assms(2,4) by linarith
  have "?k * (1 + 1 / 2 ^ 52) * w \<le> ?k * (1 + 1 / 2 ^ 52) * wh" using assms(3) k by (intro mult_left_mono) auto
  then have "?k * (1 + 1 / 2 ^ 52) * w \<le> x" using assms(7) by (rule order_trans)
  then have l: "?k * (1 + 1 / 2 ^ 52) \<le> x / w" unfolding pos_le_divide_eq [OF w] .
  have "(?k + 1) * (1 - 1 / 2 ^ 52) * wl \<le> (?k + 1) * (1 - 1 / 2 ^ 52) * w" using assms(2) k by (intro mult_left_mono) auto
  with assms(8) have "x \<le> (?k + 1) * (1 - 1 / 2 ^ 52) * w" by (rule order_trans)
  then have h: "x / w \<le> (?k + 1) * (1 - 1 / 2 ^ 52)" unfolding pos_divide_le_eq [OF w] .
  define y q where "y = x / w" and "q = ?k"
  note b = l h k
  have "1 / 2 ^ 30 \<le> y" "y \<le> 2 ^ 60" using b unfolding y_def [symmetric] q_def [symmetric] by (simp_all add: algebra_simps)
  note r = rounds_near [OF assms(1) this]
  have "q \<le> rnd y" "rnd y < q + 1"
    using r b unfolding y_def [symmetric] q_def [symmetric] by (simp_all add: algebra_simps)
  then show ?thesis using assms(5) unfolding y_def q_def by (intro c_trunc_eq) auto
qed

text \<open>The four truncations of the calendar are integer divisions.\<close>

lemma trunc_century:
  assumes "rounds rnd" "0 \<le> n" "n \<le> 106751"
  shows "c_trunc (rnd (rnd (of_int (2451545 + n) - rnd (186721625 / 100)) / rnd (3652425 / 100))) = (2337315 + 4 * n) div 146097"
proof -
  define k m where "k = (2337315 + 4 * n) div 146097" and "m = (2337315 + 4 * n) mod 146097"
  have km: "2337315 + 4 * n = 146097 * k + m" "0 \<le> m" "m < 146097" by (simp_all add: k_def m_def)
  have k: "15 \<le> k" "k \<le> 18" using km assms(2,3) by linarith+
  have "m \<noteq> 0"
  proof
    assume "m = 0"
    moreover have "k = 15 \<or> k = 16 \<or> k = 17 \<or> k = 18" using k by linarith
    ultimately show False using km(1) assms(2,3) by presburger
  qed
  then have m: "1 \<le> m" "m \<le> 146096" using km(2,3) by linarith+
  have c: "rnd (186721625 / 100) = 7468865 / 4" "rnd (3652425 / 100) = 146097 / 4"
    using rounds_quarter [OF assms(1), of 7468865] rounds_quarter [OF assms(1), of 146097] by simp_all
  have "of_int (2451545 + n) - 7468865 / 4 = (of_int (2337315 + 4 * n) / 4 :: rat)" by (simp add: field_simps)
  moreover have "rnd (of_int (2337315 + 4 * n) / 4) = of_int (2337315 + 4 * n) / 4"
    using assms(2,3) by (intro rounds_quarter [OF assms(1)]) simp
  moreover have "of_int (2337315 + 4 * n) = (of_int k * 146097 + of_int m :: rat)" unfolding km(1) by simp
  ultimately have x: "rnd (of_int (2451545 + n) - 7468865 / 4) = (of_int k * 146097 + of_int m) / 4" by metis
  have b: "1 \<le> (of_int m :: rat)" "(of_int m :: rat) \<le> 146096" "15 \<le> (of_int k :: rat)" "(of_int k :: rat) \<le> 18"
    using m k by simp_all
  show ?thesis unfolding c x k_def [symmetric]
    by (rule trunc_quotient [OF assms(1), of "146097 / 4" _ "146097 / 4"]) (use b k in \<open>simp_all add: field_simps\<close>)
qed

lemma rounded_constants:
  assumes "rounds rnd"
  shows "1221 / 10 * (1 - 1 / 2 ^ 53) \<le> rnd (1221 / 10)" "rnd (1221 / 10) \<le> 1221 / 10 * (1 + 1 / 2 ^ 53)"
    "306001 / 10000 * (1 - 1 / 2 ^ 53) \<le> rnd (306001 / 10000)" "rnd (306001 / 10000) \<le> 306001 / 10000 * (1 + 1 / 2 ^ 53)"
    "rnd (36525 / 100) = 1461 / 4"
  using rounds_near [OF assms, of "1221 / 10"] rounds_near [OF assms, of "306001 / 10000"] rounds_quarter [OF assms, of 1461] by simp_all

lemma trunc_year:
  assumes "rounds rnd" "2453000 \<le> c" "c \<le> 2560000"
  shows "c_trunc (rnd (rnd (of_int c - rnd (1221 / 10)) / rnd (36525 / 100))) = (20 * c - 2442) div 7305"
proof -
  define d m where "d = (20 * c - 2442) div 7305" and "m = (20 * c - 2442) mod 7305"
  have dm: "20 * c - 2442 = 7305 * d + m" "0 \<le> m" "m < 7305" by (simp_all add: d_def m_def)
  have d: "6715 \<le> d" "d \<le> 7009" using dm assms(2,3) by linarith+
  define j where "j = 4 * c - 1461 * d - 489"
  have "m = 5 * j + 3" using dm(1) by (simp add: j_def)
  then have m: "3 \<le> m" "m \<le> 7303" using dm(2,3) by simp_all
  have c: "(of_int c :: rat) = (7305 * of_int d + of_int m + 2442) / 20"
    using arg_cong [OF dm(1), of "of_int :: int \<Rightarrow> rat"] by simp
  have b: "3 \<le> (of_int m :: rat)" "(of_int m :: rat) \<le> 7303" "6715 \<le> (of_int d :: rat)" "(of_int d :: rat) \<le> 7009"
    using m d by simp_all
  define v x q e where "v = rnd (1221 / 10)" and "x = of_int c - v" and "q = (of_int d :: rat)" and "e = (of_int m :: rat)"
  note v = rounded_constants(1,2) [OF assms(1), folded v_def]
  have x: "x = (7305 * q + e + 2442) / 20 - v" by (simp add: x_def c q_def e_def)
  have "1 / 2 ^ 30 \<le> x" "x \<le> 2 ^ 60" using x v b unfolding q_def [symmetric] e_def [symmetric] by (simp_all add: field_simps)
  note r = rounds_near [OF assms(1) this]
  define y where "y = rnd x"
  have "q * (1 + 1 / 2 ^ 52) * (1461 / 4) \<le> y" "y \<le> (q + 1) * (1 - 1 / 2 ^ 52) * (1461 / 4)"
    using r [folded y_def] x v b unfolding q_def [symmetric] e_def [symmetric] by (simp_all add: field_simps)
  then show ?thesis unfolding d_def [symmetric] rounded_constants(5) [OF assms(1)] v_def [symmetric] x_def [symmetric] y_def q_def
    using d by (intro trunc_quotient [OF assms(1), of "1461 / 4" _ "1461 / 4"]) simp_all
qed

lemma month_cases:
  "4 \<le> f \<Longrightarrow> f \<le> 15 \<Longrightarrow> f = 4 \<or> f = 5 \<or> f = 6 \<or> f = 7 \<or> f = 8 \<or> f = 9 \<or> f = 10 \<or> f = 11 \<or> f = 12 \<or> f = 13 \<or> f = 14 \<or> f = 15" for f :: int
  by presburger

lemma trunc_month:
  assumes "rounds rnd" "123 \<le> r" "r \<le> 488"
  shows "c_trunc (rnd (of_int r / rnd (306001 / 10000))) = 10000 * r div 306001"
proof -
  define f m where "f = 10000 * r div 306001" and "m = 10000 * r mod 306001"
  have fm: "10000 * r = 306001 * f + m" "0 \<le> m" "m < 306001" by (simp_all add: f_def m_def)
  have f: "4 \<le> f" "f \<le> 15" using fm assms(2,3) by linarith+
  have "m \<noteq> 0"
  proof
    assume "m = 0"
    then have "306001 * f mod 10000 = 0" using fm(1) by (metis add.right_neutral mod_mult_self1_is_0)
    with month_cases [OF f] show False by (elim disjE) simp_all
  qed
  then have m: "1 \<le> m" "m \<le> 306000" using fm(2,3) by linarith+
  have r: "(of_int r :: rat) = (306001 * of_int f + of_int m) / 10000"
    using arg_cong [OF fm(1), of "of_int :: int \<Rightarrow> rat"] by simp
  have b: "1 \<le> (of_int m :: rat)" "(of_int m :: rat) \<le> 306000" "4 \<le> (of_int f :: rat)" "(of_int f :: rat) \<le> 15"
    using m f by simp_all
  show ?thesis unfolding f_def [symmetric]
    by (rule trunc_quotient [OF assms(1) rounded_constants(3,4) [OF assms(1)]]) (use b f r in \<open>simp_all add: field_simps\<close>)
qed

lemma trunc_month_start:
  assumes "rounds rnd" "4 \<le> f" "f \<le> 15"
  shows "c_trunc (rnd (rnd (306001 / 10000) * of_int f)) = 306001 * f div 10000"
proof -
  define w where "w = rnd (306001 / 10000)"
  note w = rounded_constants(3,4) [OF assms(1), folded w_def]
  have "c_trunc (rnd y) = k" if "y = w * q" "4 \<le> q" "q \<le> 15" "of_int k * 10000 < 306001 * q - 1 / 100" "306001 * q + 1 / 100 < of_int k * 10000 + 10000" "0 \<le> k" for y q k
  proof (rule c_trunc_eq)
    have "306001 / 10000 * (1 - 1 / 2 ^ 53) * q \<le> y" "y \<le> 306001 / 10000 * (1 + 1 / 2 ^ 53) * q"
      unfolding that(1) using w that(2) by (intro mult_right_mono; simp)+
    then have y: "(1 - 1 / 2 ^ 53) * (306001 / 10000 * q) \<le> y" "y \<le> (1 + 1 / 2 ^ 53) * (306001 / 10000 * q)" by (simp_all add: mult.commute mult.left_commute)
    then have "1 / 2 ^ 30 \<le> y" "y \<le> 2 ^ 60" using that(2,3) by simp_all
    note r = rounds_near [OF assms(1) this]
    show "of_int k \<le> rnd y" "rnd y < of_int k + 1" using r y that(2-5) by simp_all
  qed (rule that(6))
  with month_cases [OF assms(2,3)] show ?thesis unfolding w_def [symmetric] by (elim disjE) simp_all
qed

section \<open>The Gregorian calendar\<close>

definition leap :: "int \<Rightarrow> bool" where
  "leap y \<longleftrightarrow> y mod 4 = 0 \<and> (y mod 100 \<noteq> 0 \<or> y mod 400 = 0)"

definition month_len :: "int \<Rightarrow> int \<Rightarrow> int" where
  "month_len y m = (if m = 2 then if leap y then 29 else 28 else if m = 4 \<or> m = 6 \<or> m = 9 \<or> m = 11 then 30 else 31)"

definition next_day :: "int \<times> int \<times> int \<Rightarrow> int \<times> int \<times> int" where
  "next_day = (\<lambda>(y, m, d). if d < month_len y m then (y, m, d + 1) else if m < 12 then (y, m + 1, 1) else (y + 1, 1, 1))"

text \<open>A day by the year beginning in March and the day in it, from 123, and the day counted from 2000.\<close>

definition month_day :: "int \<Rightarrow> int \<times> int" where
  "month_day r = (let f = 10000 * r div 306001 in (f - 1 - 12 * (f div 14), r - 306001 * f div 10000))"

definition date_of :: "int \<Rightarrow> int \<Rightarrow> int \<times> int \<times> int" where
  "date_of d r = (let (m, day) = month_day r in (d - 4715 - (7 + m) div 10, m, day))"

definition day_count :: "int \<Rightarrow> int" where
  "day_count n = n + 2453070 + (if n < 36584 then 12 else if n < 73108 then 13 else 14)"

definition civil_of :: "int \<Rightarrow> int \<times> int \<times> int" where
  "civil_of c = (let d = (20 * c - 2442) div 7305 in date_of d (c - (365 * d + d div 4)))"

definition in_year :: "int \<Rightarrow> int \<Rightarrow> bool" where
  "in_year d r \<longleftrightarrow> 123 \<le> r \<and> (r \<le> 487 \<or> r = 488 \<and> d mod 4 = 3)"

lemma year_unique:
  "(20 * c - 2442) div 7305 = d \<and> c = 365 * d + d div 4 + r \<longleftrightarrow> in_year d r \<and> c = 365 * d + d div 4 + r"
proof -
  define h j where "h = d div 4" and "j = d mod 4"
  have d: "d = 4 * h + j" "0 \<le> j" "j < 4" by (simp_all add: h_def j_def)
  have "(20 * c - 2442) div 7305 = d \<longleftrightarrow> 7305 * d \<le> 20 * c - 2442 \<and> 20 * c - 2442 < 7305 * d + 7305" by auto
  also have "\<dots> \<longleftrightarrow> in_year d r" if "c = 365 * d + h + r"
  proof -
    have "20 * c - 2442 - 7305 * d = 20 * r - 2442 - 5 * j" using that d(1) by simp
    moreover have "0 \<le> 20 * r - 2442 - 5 * j \<and> 20 * r - 2442 - 5 * j < 7305 \<longleftrightarrow> 123 \<le> r \<and> (r \<le> 487 \<or> r = 488 \<and> j = 3)"
      using d(2,3) by presburger
    ultimately show ?thesis unfolding in_year_def j_def [symmetric] by linarith
  qed
  finally show ?thesis unfolding h_def by blast
qed

lemma civil_of_year: "in_year d r \<Longrightarrow> c = 365 * d + d div 4 + r \<Longrightarrow> civil_of c = date_of d r"
  using year_unique [of c d r] by (simp add: civil_of_def)

lemma year_exists: "\<exists>d r. in_year d r \<and> c = 365 * d + d div 4 + r \<and> d = (20 * c - 2442) div 7305"
  using year_unique [of c "(20 * c - 2442) div 7305" "c - (365 * ((20 * c - 2442) div 7305) + (20 * c - 2442) div 7305 div 4)"] by auto

lemma month_table:
  "list_all (\<lambda>r. case month_day r of (m, day) \<Rightarrow> 1 \<le> m \<and> m \<le> 12 \<and> (m = 2 \<longrightarrow> day < 28) \<and>
     month_day (r + 1) = (if day < month_len 1 m then (m, day + 1) else (m mod 12 + 1, 1))) [123..486]"
  by code_simp

lemma month_ends: "month_day 123 = (3, 1)" "month_day 487 = (2, 28)" "month_day 488 = (2, 29)"
  by code_simp+

text \<open>The next day within the year from March to February, and over its end.\<close>

lemma next_date:
  assumes "in_year d r" "487 \<le> r \<and> d mod 4 = 3 \<longrightarrow> leap (d - 4715)"
  shows "next_day (date_of d r) = (if in_year d (r + 1) then date_of d (r + 1) else date_of (d + 1) 123)"
proof (cases "r \<le> 486")
  case True
  obtain m day where md: "month_day r = (m, day)" by fastforce
  have "r \<in> set [123..486]" unfolding set_upto using assms(1) True by (simp add: in_year_def)
  then have t: "1 \<le> m" "m \<le> 12" "m = 2 \<longrightarrow> day < 28" "month_day (r + 1) = (if day < month_len 1 m then (m, day + 1) else (m mod 12 + 1, 1))"
    using month_table md unfolding list_all_iff by fastforce+
  have "day < month_len y m \<longleftrightarrow> day < month_len 1 m" for y using t(3) by (auto simp: month_len_def)
  moreover have "m mod 12 + 1 = (if m < 12 then m + 1 else 1)" using t(1,2) by auto
  moreover have "(7 + (m + 1)) div 10 = (7 + m) div 10" if "m < 12" "\<not> day < month_len 1 m"
  proof -
    have "m \<noteq> 2" using that(2) t(3) by (auto simp: month_len_def split: if_splits)
    with t(1) that(1) show ?thesis by presburger
  qed
  moreover have "in_year d (r + 1)" using assms(1) True by (simp add: in_year_def)
  ultimately show ?thesis using md t by (auto simp: date_of_def next_day_def split: if_splits)
next
  case False
  then consider "r = 487" | "r = 488" "d mod 4 = 3" using assms(1) by (auto simp: in_year_def)
  then show ?thesis
  proof cases
    case 1
    have "(d - 4715) mod 4 = 0 \<longleftrightarrow> d mod 4 = 3" by presburger
    then have "leap (d - 4715) \<longleftrightarrow> d mod 4 = 3" using assms(2) 1 by (auto simp: leap_def)
    then show ?thesis using 1 by (simp add: date_of_def month_ends next_day_def month_len_def in_year_def)
  next
    case 2
    then show ?thesis using assms(2) by (simp add: date_of_def month_ends next_day_def month_len_def in_year_def)
  qed
qed

lemma year_follows:
  assumes "in_year d r" "\<not> in_year d (r + 1)"
  shows "365 * (d + 1) + (d + 1) div 4 + 123 = 365 * d + d div 4 + r + 1"
proof -
  have "(d + 1) div 4 = d div 4 + (if d mod 4 = 3 then 1 else 0)" by presburger
  then show ?thesis using assms by (auto simp: in_year_def)
qed

lemma leap_year:
  assumes "y mod 4 = 0" "1999 \<le> y" "y \<le> 2293" "y \<noteq> 2100" "y \<noteq> 2200"
  shows "leap y"
proof (cases "y mod 100 = 0")
  case True
  define q where "q = y div 100"
  have y: "y = 100 * q" using True unfolding q_def by (metis mult_div_mod_eq add.right_neutral)
  then have "q = 20 \<or> q = 21 \<or> q = 22" using assms(2,3) by presburger
  then have "q = 20" using y assms(4,5) by auto
  then show ?thesis using y by (simp add: leap_def)
qed (use assms(1) in \<open>simp add: leap_def\<close>)

lemma day_counts:
  assumes "0 \<le> n" "n \<le> 106750" "n + 1 \<noteq> 36584" "n + 1 \<noteq> 73108"
  shows "day_count (n + 1) = day_count n + 1"
  using assms by (simp add: day_count_def)

lemma civil_step:
  assumes "0 \<le> n" "n \<le> 106750"
  shows "civil_of (day_count (n + 1)) = next_day (civil_of (day_count n))"
proof -
  consider "n = 36583" | "n = 73107" | "n + 1 \<noteq> 36584" "n + 1 \<noteq> 73108" by linarith
  then show ?thesis
  proof cases
    case 3
    obtain d r where y: "in_year d r" "day_count n = 365 * d + d div 4 + r" using year_exists by blast
    have c: "day_count (n + 1) = 365 * d + d div 4 + (r + 1)" using day_counts [OF assms 3] y(2) by simp
    have "leap (d - 4715)" if "487 \<le> r" "d mod 4 = 3"
    proof -
      have r: "r = 487 \<or> r = 488" using y(1) that(1) by (auto simp: in_year_def)
      have "6714 \<le> d" "d \<le> 7008" using y(2) assms r by (auto simp: day_count_def split: if_splits)
      moreover have "d \<noteq> 6815" "d \<noteq> 6915" using y(2) r 3 by (auto simp: day_count_def split: if_splits)
      moreover have "(d - 4715) mod 4 = 0" using that(2) by presburger
      ultimately show ?thesis by (intro leap_year) simp_all
    qed
    then have "next_day (civil_of (day_count n)) = (if in_year d (r + 1) then date_of d (r + 1) else date_of (d + 1) 123)"
      unfolding civil_of_year [OF y] by (intro next_date [OF y(1)]) blast
    also have "\<dots> = civil_of (day_count (n + 1))"
    proof (cases "in_year d (r + 1)")
      case False
      have "in_year (d + 1) 123" by (simp add: in_year_def)
      moreover have "day_count (n + 1) = 365 * (d + 1) + (d + 1) div 4 + 123" using year_follows [OF y(1) False] c by simp
      ultimately have "civil_of (day_count (n + 1)) = date_of (d + 1) 123" by (rule civil_of_year)
      then show ?thesis using False by simp
    qed (use civil_of_year [OF _ c] in simp)
    finally show ?thesis ..
  qed (simp_all, code_simp+)
qed

lemma civil_iterates: "n \<le> 106751 \<Longrightarrow> civil_of (day_count (int n)) = (next_day ^^ n) (2000, 1, 1)"
proof (induction n)
  case 0
  show ?case by code_simp
next
  case (Suc n)
  then show ?case using civil_step [of "int n"] by (simp add: add.commute)
qed

section \<open>The code computes the calendar\<close>

lemma century_days:
  assumes "0 \<le> n" "n \<le> 106751"
  shows "2451545 + n + (2337315 + 4 * n) div 146097 - (2337315 + 4 * n) div 146097 div 4 + 1525 = day_count n"
proof -
  define b where "b = (2337315 + 4 * n) div 146097"
  have b: "146097 * b \<le> 2337315 + 4 * n" "2337315 + 4 * n < 146097 * b + 146097" by (simp_all add: b_def)
  then have "15 \<le> b" "b \<le> 18" using assms by linarith+
  then have "b = 15 \<or> b = 16 \<or> b = 17 \<or> b = 18" by presburger
  then show ?thesis unfolding b_def [symmetric] day_count_def using b assms by (elim disjE) simp_all
qed

lemma month_starts:
  fixes r :: int
  assumes "123 \<le> r" "r \<le> 488"
  shows "4 \<le> 10000 * r div 306001" "10000 * r div 306001 \<le> 15"
  using zdiv_mono1 [of "10000 * 123" "10000 * r" 306001] zdiv_mono1 [of "10000 * r" "10000 * 488" 306001] assms by simp_all

lemma DAYS_eq: "DAYS = 86400000000000" "HOURS = 3600000000000" "MINUTES = 60000000000"
  by (simp_all add: unit_defs)

lemma to_i32_id: "0 \<le> x \<Longrightarrow> x < 2 ^ 31 \<Longrightarrow> to_i32 x = x"
  by (simp add: to_i32_def)

lemma calendar_fields:
  assumes "rounds rnd" "0 \<le> t" "t \<le> END_OF_TIME"
  defines "cal \<equiv> localTime2Calendar rnd t"
  shows "(cal_year cal, cal_month cal, cal_day cal) = civil_of (day_count (t div DAYS))"
    "cal_hour cal = t mod DAYS div HOURS" "cal_min cal = t mod DAYS div MINUTES mod 60"
    "cal_sec cal = rnd (of_int (t mod DAYS div SECONDS mod 60) + rnd (of_int (t mod DAYS mod SECONDS) / of_int SECONDS))"
proof -
  define n where "n = t div DAYS"
  have n: "0 \<le> n" "n \<le> 106751"
    using assms(2) zdiv_mono1 [OF assms(3), of DAYS] by (simp_all add: n_def DAYS_eq END_OF_TIME_def pos_imp_zdiv_nonneg_iff)
  have nd: "to_i32 (c_div t DAYS) = n" using n assms(2) by (simp add: to_i32_id DAYS_eq n_def)
  obtain d r where y: "in_year d r" "day_count n = 365 * d + d div 4 + r" "d = (20 * day_count n - 2442) div 7305"
    using year_exists by blast
  have c: "2453000 \<le> day_count n" "day_count n \<le> 2560000" using n by (auto simp: day_count_def)
  have b0: "0 \<le> (2337315 + 4 * n) div 146097" using n by simp
  have r: "123 \<le> r" "r \<le> 488" using y(1) by (auto simp: in_year_def)
  note f = month_starts [OF r]
  let ?f = "10000 * r div 306001"
  have d0: "0 \<le> d" using y(3) c by simp
  have "0 \<le> 7 + (k - 1 - 12 * (k div 14))" if "4 \<le> k" "k \<le> 15" for k :: int
    using month_cases [OF that] by (elim disjE) simp_all
  then have m0: "0 \<le> 7 + (?f - 1 - 12 * (?f div 14))" using f by blast
  have e: "365 * d + d div 4 + r - (365 * d + d div 4) = r" by simp
  have cal: "cal = \<lparr>cal_year = d - 4715 - (7 + (?f - 1 - 12 * (?f div 14))) div 10, cal_month = ?f - 1 - 12 * (?f div 14),
      cal_day = r - 306001 * ?f div 10000, cal_hour = to_i32 (c_div (c_mod t DAYS) HOURS),
      cal_min = to_i32 (c_mod (c_div (c_mod t DAYS) MINUTES) 60),
      cal_sec = rnd (rnd (of_int (c_mod (c_div (c_mod t DAYS) SECONDS) 60)) + rnd (rnd (of_int (c_mod (c_mod t DAYS) SECONDS)) / rnd (of_int SECONDS)))\<rparr>"
    unfolding cal_def localTime2Calendar_def nd trunc_century [OF assms(1) n] Let_def c_div_nonneg [OF b0 zero_less_numeral] century_days [OF n]
    unfolding trunc_year [OF assms(1) c] y(3) [symmetric] c_div_nonneg [OF d0 zero_less_numeral]
    unfolding y(2) e trunc_month [OF assms(1) r]
      trunc_month_start [OF assms(1) f] c_div_nonneg [OF order_trans [OF zero_le_numeral f(1)] zero_less_numeral] c_div_nonneg [OF m0 zero_less_numeral]
    by simp
  have "civil_of (day_count n) = date_of d r" using civil_of_year y(1,2) .
  then show "(cal_year cal, cal_month cal, cal_day cal) = civil_of (day_count (t div DAYS))"
    unfolding n_def [symmetric] cal by (simp add: date_of_def month_day_def Let_def)
  define q where "q = t mod DAYS"
  have q: "0 \<le> q" "q < 86400000000000" unfolding q_def by (simp_all add: DAYS_eq)
  have tq: "c_mod t DAYS = q" using assms(2) by (simp add: q_def DAYS_eq)
  have "to_i32 (c_div q HOURS) = q div HOURS" "to_i32 (c_mod (c_div q MINUTES) 60) = q div MINUTES mod 60"
    using q zdiv_mono1 [of q 86400000000000 HOURS] by (simp_all add: DAYS_eq to_i32_id pos_imp_zdiv_nonneg_iff)
  then show "cal_hour cal = t mod DAYS div HOURS" "cal_min cal = t mod DAYS div MINUTES mod 60"
    unfolding cal q_def [symmetric] by (simp_all add: tq)
  have "rnd (of_int (q div SECONDS mod 60)) = of_int (q div SECONDS mod 60)" "rnd (of_int (q mod SECONDS)) = of_int (q mod SECONDS)"
    "rnd (of_int SECONDS) = of_int SECONDS"
    by (intro rounds_int [OF assms(1)]; simp add: SECONDS_eq abs_le_iff)+
  moreover have "c_mod (c_div q SECONDS) 60 = q div SECONDS mod 60" "c_mod q SECONDS = q mod SECONDS"
    using q by (simp_all add: SECONDS_eq pos_imp_zdiv_nonneg_iff)
  ultimately show "cal_sec cal = rnd (of_int (t mod DAYS div SECONDS mod 60) + rnd (of_int (t mod DAYS mod SECONDS) / of_int SECONDS))"
    unfolding cal q_def [symmetric] by (simp only: tq calendar.simps)
qed

lemma days_table:
  "list_all (\<lambda>r. case month_day r of (m, day) \<Rightarrow> 1 \<le> m \<and> m \<le> 12 \<and> (m + 9) div 12 = (7 + m) div 10 \<and> day + 275 * m div 9 - 367 * ((7 + m) div 10) = r - 398) [123..488]"
  by code_simp

lemma days_back:
  assumes "0 \<le> n" "n < 36584" "civil_of (day_count n) = (y, m, day)"
  shows "367 * y - c_div (7 * (y + c_div (m + 9) 12)) 4 + c_div (275 * m) 9 + day - 730531 = n"
proof -
  obtain d r where dr: "in_year d r" "day_count n = 365 * d + d div 4 + r" using year_exists by blast
  have r: "r \<in> set [123..488]" unfolding set_upto using dr(1) by (auto simp: in_year_def)
  obtain m' day' where md: "month_day r = (m', day')" by fastforce
  have y: "m = m'" "day = day'" "y = d - 4715 - (7 + m) div 10"
    using assms(3) md unfolding civil_of_year [OF dr] date_of_def by auto
  have t: "1 \<le> m" "(m + 9) div 12 = (7 + m) div 10" "day + 275 * m div 9 - 367 * ((7 + m) div 10) = r - 398"
    using bspec [OF days_table [unfolded list_all_iff] r] unfolding md y(1,2) by auto
  have "6710 \<le> d" using dr assms(1,2) by (auto simp: day_count_def in_year_def)
  then have "c_div (7 * (y + c_div (m + 9) 12)) 4 = 7 * (d - 4715) div 4" using t(1,2) y(3) by simp
  moreover have "c_div (275 * m) 9 = 275 * m div 9" using t(1) by simp
  moreover have "7 * (d - 4715) div 4 = 2 * d - 8252 - d div 4"
  proof -
    define h j where "h = d div 4" and "j = d mod 4"
    have d: "d = 4 * h + j" "j = 0 \<or> j = 1 \<or> j = 2 \<or> j = 3" by (auto simp: h_def j_def)
    have "7 * (d - 4715) = 7 * j + 3 + (7 * h - 8252) * 4" using d(1) by simp
    then have "7 * (d - 4715) div 4 = (7 * j + 3) div 4 + (7 * h - 8252)" by (metis div_mult_self1 zero_neq_numeral add.commute)
    then show ?thesis unfolding h_def [symmetric] using d by auto
  qed
  ultimately show ?thesis using t(3) y(3) dr(2) assms(2) by (simp add: day_count_def)
qed

lemma c_trunc_int [simp]: "c_trunc (of_int k) = k"
  by (simp add: c_trunc_def)

lemma clock_parts:
  assumes "0 \<le> q"
  shows "(q div HOURS * 60 + q div MINUTES mod 60) * 60 + q div SECONDS mod 60 = q div SECONDS"
proof -
  have "q div HOURS = q div SECONDS div 3600" "q div MINUTES = q div SECONDS div 60"
    by (simp_all add: DAYS_eq SECONDS_eq zdiv_zmult2_eq [symmetric])
  moreover have "(s div 3600 * 60 + s div 60 mod 60) * 60 + s mod 60 = s" for s :: int
    using mult_div_mod_eq [of 60 s] mult_div_mod_eq [of 60 "s div 60"] zdiv_zmult2_eq [of 60 s 60] by simp
  ultimately show ?thesis by simp
qed

text \<open>Seconds and their fraction in floating point lose at most one nanosecond.\<close>

lemma clock_back:
  assumes "rounds rnd" "0 \<le> q" "q < DAYS"
  defines "sec \<equiv> rnd (of_int (q div SECONDS mod 60) + rnd (of_int (q mod SECONDS) / of_int SECONDS))"
  defines "v \<equiv> c_trunc (rnd (rnd (of_int ((q div HOURS * 60 + q div MINUTES mod 60) * 60) + sec) * rnd (of_int SECONDS)))"
  shows "q - 1 \<le> v" "v \<le> q" "q mod SECONDS = 0 \<Longrightarrow> v = q"
proof -
  define M a n where "M = (q div HOURS * 60 + q div MINUTES mod 60) * 60" and "a = q div SECONDS mod 60" and "n = q mod SECONDS"
  have q: "q = (M + a) * 1000000000 + n" using clock_parts [OF assms(2)] by (simp add: M_def a_def n_def SECONDS_eq)
  have a: "0 \<le> a" "a \<le> 59" "0 \<le> n" "n < 1000000000" by (simp_all add: a_def n_def SECONDS_eq)
  have "0 \<le> q div HOURS" "0 \<le> q div MINUTES mod 60" using assms(2) by (simp_all add: DAYS_eq pos_imp_zdiv_nonneg_iff)
  then have "0 \<le> M" unfolding M_def by simp
  moreover have "M * 1000000000 + a * 1000000000 + n < 86400 * 1000000000" using assms(3) q unfolding DAYS_eq by (simp add: distrib_right)
  then have "M \<le> 86400" using a by simp
  ultimately have M: "0 \<le> M" "M \<le> 86400" by blast+
  have sec: "sec = rnd (of_int a + rnd (of_int n / 1000000000))" by (simp add: sec_def a_def n_def SECONDS_eq)
  have v: "v = c_trunc (rnd (rnd (of_int M + sec) * 1000000000))"
    using rounds_int [OF assms(1), of SECONDS] by (simp add: v_def M_def SECONDS_eq)
  show exact: "v = q" if "q mod SECONDS = 0"
  proof -
    have n: "n = 0" using that by (simp add: n_def)
    have "rnd 0 = 0" using rounds_int [OF assms(1), of 0] by simp
    moreover have "rnd (of_int a) = of_int a" "rnd (of_int (M + a)) = of_int (M + a)"
      "rnd (of_int ((M + a) * 1000000000)) = of_int ((M + a) * 1000000000)"
      using a M by (intro rounds_int [OF assms(1)]; simp)+
    moreover have "c_trunc (of_int ((M + a) * 1000000000)) = (M + a) * 1000000000" by (rule c_trunc_int)
    ultimately show ?thesis unfolding v sec q n by simp
  qed
  have "q - 1 \<le> v \<and> v \<le> q" if "n \<noteq> 0"
  proof -
    define N A B u where "N = (of_int n :: rat)" and "A = (of_int a :: rat)" and "B = (of_int M :: rat)" and "u = N / 1000000000"
    have b: "1 \<le> N" "N \<le> 999999999" "0 \<le> A" "A \<le> 59" "0 \<le> B" "B \<le> 86400" using that a M by (simp_all add: N_def A_def B_def)
    have u: "1 / 1000000000 \<le> u" "u \<le> 1" "N = u * 1000000000" using b by (simp_all add: u_def)
    define x where "x = rnd u"
    have "1 / 2 ^ 30 \<le> u" "u \<le> 2 ^ 60" using u by simp_all
    note x = rounds_near [OF assms(1) this, folded x_def]
    have "1 / 2 ^ 30 \<le> A + x" "A + x \<le> 2 ^ 60" using x u b by simp_all
    note s = rounds_near [OF assms(1) this]
    define s where "s = rnd (A + x)"
    note s = s [folded s_def]
    have "1 / 2 ^ 30 \<le> B + s" "B + s \<le> 2 ^ 60" using s x u b by simp_all
    note t = rounds_near [OF assms(1) this]
    define t where "t = rnd (B + s)"
    note t = t [folded t_def]
    have "1 / 2 ^ 30 \<le> t * 1000000000" "t * 1000000000 \<le> 2 ^ 60" using t s x u b by simp_all
    note z = rounds_near [OF assms(1) this]
    define z where "z = rnd (t * 1000000000)"
    note z = z [folded z_def]
    have Q: "(of_int q :: rat) = (B + A) * 1000000000 + N" by (simp add: q N_def A_def B_def)
    have z2: "of_int q - 1 / 2 \<le> z" "z \<le> of_int q + 1 / 2" unfolding Q using z t s x u b by simp_all
    have "v = c_trunc z" unfolding v sec z_def t_def s_def x_def u_def A_def B_def N_def by simp
    moreover have "1 \<le> q" using q a M that by simp
    then have "1 \<le> (of_int q :: rat)" by simp
    then have "c_trunc z = \<lfloor>z\<rfloor>" using z2 by (simp add: c_trunc_def)
    moreover have "q - 1 \<le> \<lfloor>z\<rfloor>" "\<lfloor>z\<rfloor> \<le> q" using z2 by (simp_all add: le_floor_iff floor_le_iff)
    ultimately show ?thesis by simp
  qed
  then show "q - 1 \<le> v" "v \<le> q" using exact by (cases "n = 0"; simp add: n_def)+
qed

section \<open>Properties\<close>

text \<open>
  C15. The calendar is the Gregorian one: the date of each point of time is the 1st of January 2000 moved by as many
  days as have passed; its time of day is the rest. Before March 2100 the
  conversion back gives the same time, or one nanosecond less when there is a fraction of a second, whatever the rounding of \<open>double\<close>.
\<close>

theorem calendar_correct:
  assumes "rounds rnd" "0 \<le> t" "t \<le> END_OF_TIME"
  defines "cal \<equiv> localTime2Calendar rnd t"
  shows "(cal_year cal, cal_month cal, cal_day cal) = (next_day ^^ nat (t div DAYS)) (2000, 1, 1) \<and>
    cal_hour cal * HOURS + cal_min cal * MINUTES + t mod MINUTES = t mod DAYS \<and> 0 \<le> cal_min cal \<and> cal_min cal < 60 \<and>
    (t div DAYS < 36584 \<longrightarrow> t - 1 \<le> calendar2LocalTime rnd cal \<and> calendar2LocalTime rnd cal \<le> t \<and>
       (t mod SECONDS = 0 \<longrightarrow> calendar2LocalTime rnd cal = t))"
proof -
  let ?n = "t div DAYS" and ?q = "t mod DAYS"
  note c = calendar_fields [OF assms(1-3), folded cal_def]
  have n: "0 \<le> ?n" "?n \<le> 106751"
    using assms(2) zdiv_mono1 [OF assms(3), of DAYS] by (simp_all add: DAYS_eq END_OF_TIME_def pos_imp_zdiv_nonneg_iff)
  have q: "0 \<le> ?q" "?q < DAYS" by (simp_all add: DAYS_eq)
  have "civil_of (day_count ?n) = (next_day ^^ nat ?n) (2000, 1, 1)" using civil_iterates [of "nat ?n"] n by simp
  moreover have "cal_hour cal * HOURS + cal_min cal * MINUTES + t mod MINUTES = ?q"
  proof -
    have "?q div HOURS = ?q div MINUTES div 60" by (simp add: DAYS_eq zdiv_zmult2_eq [symmetric])
    moreover have "MINUTES * (?q div MINUTES) + ?q mod MINUTES = ?q" "60 * (?q div MINUTES div 60) + ?q div MINUTES mod 60 = ?q div MINUTES"
      by (rule mult_div_mod_eq)+
    ultimately have "?q div HOURS * HOURS + ?q div MINUTES mod 60 * MINUTES + ?q mod MINUTES = ?q" unfolding DAYS_eq(2,3) by linarith
    moreover have "?q mod MINUTES = t mod MINUTES" by (rule mod_mod_cancel) (simp add: DAYS_eq)
    ultimately show ?thesis unfolding c by simp
  qed
  moreover have "t - 1 \<le> calendar2LocalTime rnd cal \<and> calendar2LocalTime rnd cal \<le> t \<and> (t mod SECONDS = 0 \<longrightarrow> calendar2LocalTime rnd cal = t)"
    if "?n < 36584"
  proof -
    define v where "v = c_trunc (rnd (rnd (of_int ((cal_hour cal * 60 + cal_min cal) * 60) + cal_sec cal) * rnd (of_int SECONDS)))"
    note v = clock_back [OF assms(1) q, folded c, folded v_def]
    have s: "?q mod SECONDS = t mod SECONDS" by (rule mod_mod_cancel) (simp add: DAYS_eq SECONDS_eq)
    have "to_i32 (367 * cal_year cal - c_div (7 * (cal_year cal + c_div (cal_month cal + 9) 12)) 4 + c_div (275 * cal_month cal) 9 + cal_day cal - 730531) = ?n"
      using days_back [OF n(1) that c(1) [symmetric]] n by (simp add: to_i32_id)
    then have "calendar2LocalTime rnd cal = i64 (i64 (?n * DAYS) + v)" by (simp add: calendar2LocalTime_def v_def)
    also have "\<dots> = ?n * DAYS + v"
    proof -
      have "in_i64 (?n * DAYS)" "in_i64 (?n * DAYS + v)" using n that v(1,2) q by (auto simp: DAYS_eq intro!: in_i64I)
      then show ?thesis by simp
    qed
    finally have "calendar2LocalTime rnd cal = t - ?q + v" by (simp add: minus_mod_eq_div_mult)
    then show ?thesis using v s by simp
  qed
  ultimately show ?thesis unfolding c by simp
qed


text \<open>Exact arithmetic is one of the possible roundings.\<close>

lemma rounds_exactly: "rounds_to p (\<lambda>x. x)"
  by (simp add: rounds_to_def)

theorem calendar_correct_witness:
  "rounds (\<lambda>x. x) \<and> cal_year (localTime2Calendar (\<lambda>x. x) (59 * DAYS + 90 * MINUTES)) = 2000 \<and>
   cal_month (localTime2Calendar (\<lambda>x. x) (59 * DAYS + 90 * MINUTES)) = 2 \<and> cal_day (localTime2Calendar (\<lambda>x. x) (59 * DAYS + 90 * MINUTES)) = 29 \<and>
   calendar2LocalTime (\<lambda>x. x) (localTime2Calendar (\<lambda>x. x) (59 * DAYS + 90 * MINUTES)) = 59 * DAYS + 90 * MINUTES"
proof -
  let ?t = "59 * DAYS + 90 * MINUTES"
  have t: "0 \<le> ?t" "?t \<le> END_OF_TIME" "?t div DAYS = 59" "?t mod SECONDS = 0" by (simp_all add: unit_defs END_OF_TIME_def)
  have "(next_day ^^ 59) (2000, 1, 1) = (2000, 2, 29)" by code_simp
  with calendar_correct [OF rounds_exactly t(1,2)] show ?thesis unfolding t(3,4) using rounds_exactly by simp
qed

text \<open>From March 2100 on \<open>calendar2LocalTime\<close> counts a day too many, since its formula takes 2100 for a leap year.\<close>

lemma calendar_after_2100:
  assumes "rounds rnd"
  shows "(next_day ^^ 36584) (2000, 1, 1) = (2100, 3, 1)"
    "calendar2LocalTime rnd \<lparr>cal_year = 2100, cal_month = 3, cal_day = 1, cal_hour = 0, cal_min = 0, cal_sec = 0\<rparr> = 36585 * DAYS"
proof -
  show "(next_day ^^ 36584) (2000, 1, 1) = (2100, 3, 1)" unfolding civil_iterates [of 36584, simplified, symmetric] by code_simp
  have "rnd 0 = 0" using rounds_int [OF assms, of 0] by simp
  then show "calendar2LocalTime rnd \<lparr>cal_year = 2100, cal_month = 3, cal_day = 1, cal_hour = 0, cal_min = 0, cal_sec = 0\<rparr> = 36585 * DAYS"
    by (simp add: calendar2LocalTime_def unit_defs to_i32_def i64_def c_trunc_def)
qed

text \<open>A time before 2000 gets the date of a later day and a negative time of day.\<close>

lemma calendar_before_2000:
  "cal_hour (localTime2Calendar rnd (- 5 * HOURS)) = - 5"
  unfolding localTime2Calendar_def Let_def calendar.select_convs
  by (simp add: unit_defs to_i32_def c_div_def c_mod_def)

end
