(* ===== verification/Clock_Model.thy ===== *)
theory Clock_Model
  imports Calendar
begin

text \<open>
  The clock model (\<open>api/timemodel.h\<close>, \<open>src/independent/timemodel.cpp\<close>): UTC as a linear function of the local time, and
  modified Julian dates. \<open>rnd\<close> is the rounding of \<open>double\<close>, \<open>rndl\<close> that of \<open>long double\<close> and \<open>rndf\<close> that of \<open>float\<close>.
  \<open>NOW()\<close> is an argument. The conversion of a floating point value outside of the range of \<open>uint8_t\<close> is undefined, which is \<open>None\<close>.
\<close>

section \<open>The code\<close>

record TimeModel =
  tm_utcDeltaTime :: int
  tm_tSync :: int
  tm_drift :: rat
  tm_leapSeconds :: int

definition TimeModel_new :: TimeModel where
  "TimeModel_new = \<lparr>tm_utcDeltaTime = 0, tm_tSync = 0, tm_drift = 0, tm_leapSeconds = 18\<rparr>"

definition setDrift :: "int \<Rightarrow> rat \<Rightarrow> TimeModel \<Rightarrow> TimeModel" where
  "setDrift now drift m = m\<lparr>tm_drift := drift, tm_tSync := now\<rparr>"

definition setClockOffset :: "int \<Rightarrow> int \<Rightarrow> TimeModel \<Rightarrow> TimeModel" where
  "setClockOffset utcDelta tSync m = m\<lparr>tm_utcDeltaTime := utcDelta, tm_tSync := tSync\<rparr>"

definition setUTC :: "int \<Rightarrow> int \<Rightarrow> int \<Rightarrow> TimeModel \<Rightarrow> TimeModel" where
  "setUTC now now2 time m = m\<lparr>tm_utcDeltaTime := i64 (time - now), tm_tSync := now2\<rparr>"

definition setUTCDeltaTime :: "int \<Rightarrow> int \<Rightarrow> TimeModel \<Rightarrow> TimeModel" where
  "setUTCDeltaTime now utcDelta m = m\<lparr>tm_utcDeltaTime := utcDelta, tm_tSync := now\<rparr>"

definition correctUTCDelta :: "int \<Rightarrow> int \<Rightarrow> TimeModel \<Rightarrow> TimeModel" where
  "correctUTCDelta now deltaDelta m = m\<lparr>tm_utcDeltaTime := i64 (tm_utcDeltaTime m + deltaDelta), tm_tSync := now\<rparr>"

definition localTime2UTC :: "(rat \<Rightarrow> rat) \<Rightarrow> TimeModel \<Rightarrow> int \<Rightarrow> int" where
  "localTime2UTC rndl m t =
     i64 (i64 (tm_utcDeltaTime m + t) +
          c_trunc (rndl (rndl (tm_drift m * rndl (of_int (i64 (t - tm_tSync m)))) + 1 / 2)))"

definition UTC2LocalTime :: "(rat \<Rightarrow> rat) \<Rightarrow> (rat \<Rightarrow> rat) \<Rightarrow> TimeModel \<Rightarrow> int \<Rightarrow> int" where
  "UTC2LocalTime rnd rndl m utc =
     (let local = rndl (rndl (of_int (i64 (utc - tm_utcDeltaTime m))) + rndl (tm_drift m * rndl (of_int (tm_tSync m))))
      in c_trunc (rndl (rndl (local / rnd (1 + tm_drift m)) + 1 / 2)))"

definition getGpsTime :: "(rat \<Rightarrow> rat) \<Rightarrow> int \<Rightarrow> TimeModel \<Rightarrow> int" where
  "getGpsTime rndl now m = i64 (localTime2UTC rndl m now + i64 (tm_leapSeconds m * SECONDS))"

definition localTime2mjd_UTC :: "(rat \<Rightarrow> rat) \<Rightarrow> int \<Rightarrow> rat" where
  "localTime2mjd_UTC rnd localTime = rnd (rnd (rnd (of_int localTime) / rnd (of_int DAYS)) + 51544)"

definition calendar2mjd_UTC :: "(rat \<Rightarrow> rat) \<Rightarrow> int \<Rightarrow> int \<Rightarrow> int \<Rightarrow> int \<Rightarrow> int \<Rightarrow> rat \<Rightarrow> rat" where
  "calendar2mjd_UTC rnd year month day hour minute second =
     (let month_mod = (if month \<le> 2 then (month + 12) mod 2 ^ 8 else month);
          year_mod = (if month \<le> 2 then (year - 1) mod 2 ^ 16 else year);
          Mjd_0h = (if 10000 * year_mod + 100 * month + day \<le> 15821004
            then 365 * year_mod - 679004 + - 2 + c_div (year_mod + 4716) 4 - 1179 +
                 c_trunc (rnd (rnd (306001 / 10000) * of_int (month + 1))) + day
            else 365 * year_mod - 679004 + c_div year_mod 400 - c_div year_mod 100 + c_div year_mod 4 +
                 c_trunc (rnd (rnd (306001 / 10000) * of_int (month_mod + 1))) + day) mod 2 ^ 32;
          fraction = rnd (rnd (rnd (of_int hour + rnd (of_int minute / 60)) + rnd (second / 3600)) / 24)
      in rnd (of_int Mjd_0h + fraction))"

definition to_uint8 :: "rat \<Rightarrow> int option" where
  "to_uint8 x = (if -1 < x \<and> x < 256 then Some (c_trunc x) else None)"

definition mjd_UTC2calendar :: "(rat \<Rightarrow> rat) \<Rightarrow> (rat \<Rightarrow> rat) \<Rightarrow> rat \<Rightarrow> calendar option" where
  "mjd_UTC2calendar rnd rndf MJD_UTC = do {
     let a = (c_trunc MJD_UTC + 2400001) mod 2 ^ 32;
     let q = rnd (MJD_UTC - of_int (c_trunc MJD_UTC));
     let b = rnd (of_int (c_trunc (rndf (rndf (of_int a) - rndf (186721625 / 100)))) / rnd (3652425 / 100));
     let c = rnd (rnd (rnd (of_int a + b) - rnd (b / 4)) + 1525);
     let d = c_trunc (rnd (rnd (c - rnd (1211 / 10)) / rnd (36525 / 100)));
     let e = c_trunc (rnd (rnd (36525 / 100) * of_int d));
     let f = c_trunc (rnd (rnd (c - of_int e) / rnd (306001 / 10000)));
     g \<leftarrow> to_uint8 (rndf (rndf (306001 / 10000) * rndf (of_int f)));
     day \<leftarrow> to_uint8 (rnd (rnd (c - of_int e) - of_int g));
     let month = (f - 1 - 12 * c_div f 14) mod 2 ^ 8;
     let year = (d - 4715 - c_div (7 + month) 10) mod 2 ^ 16;
     hour \<leftarrow> to_uint8 (rnd (q * 24));
     let hour_frac = rnd (rnd (q * 24) - of_int hour);
     minute \<leftarrow> to_uint8 (rnd (hour_frac * 60));
     let second = rnd (rnd (rnd (hour_frac * 60) - of_int minute) * 60);
     Some \<lparr>cal_year = year, cal_month = month, cal_day = day, cal_hour = hour, cal_min = minute, cal_sec = second\<rparr>
   }"

definition mjd_UT1fromUTC :: "(rat \<Rightarrow> rat) \<Rightarrow> rat \<Rightarrow> rat \<Rightarrow> rat" where
  "mjd_UT1fromUTC rnd MJD_UTC UT1_UTC = rnd (MJD_UTC + rnd (UT1_UTC / 86400))"

definition mjd_TTfromUT1 :: "(rat \<Rightarrow> rat) \<Rightarrow> rat \<Rightarrow> rat \<Rightarrow> rat \<Rightarrow> rat" where
  "mjd_TTfromUT1 rnd MJD_UT1 UT1_UTC UTC_TAI = rnd (MJD_UT1 + rnd (rnd (rnd (rnd (32184 / 1000) - UTC_TAI) - UT1_UTC) / 86400))"

section \<open>Modified Julian dates\<close>

text \<open>At midnight the modified Julian date of a day is the number of the day.\<close>

lemma mjd_of_day:
  assumes "rounds rnd" "0 \<le> n" "n \<le> 106751" "civil_of (day_count n) = (y, m, day)"
  shows "calendar2mjd_UTC rnd y m day 0 0 0 = of_int (51544 + n)"
proof -
  obtain d r where dr: "in_year d r" "day_count n = 365 * d + d div 4 + r" using year_exists by blast
  have r: "123 \<le> r" "r \<le> 488" using dr(1) by (auto simp: in_year_def)
  define f where "f = 10000 * r div 306001"
  have f: "4 \<le> f" "f \<le> 15" using month_starts [OF r] by (simp_all add: f_def)
  have ymd: "y = d - 4715 - (7 + m) div 10" "m = f - 1 - 12 * (f div 14)" "day = r - 306001 * f div 10000"
    using assms(4) unfolding civil_of_year [OF dr] date_of_def month_day_def Let_def f_def [symmetric] by auto
  have d: "6714 \<le> d" "d \<le> 7008" using dr(2) r assms(2,3) by (auto simp: day_count_def split: if_splits)
  have z: "rnd 0 = 0" using rounds_int [OF assms(1), of 0] by simp
  have m: "(if m \<le> 2 then (m + 12) mod 2 ^ 8 else m) = f - 1 \<and> (m \<le> 2 \<longleftrightarrow> 14 \<le> f) \<and> (7 + m) div 10 = (if m \<le> 2 then 0 else 1)"
    unfolding ymd(2) using month_cases [OF f] by (elim disjE) simp_all
  have ym: "(if m \<le> 2 then (y - 1) mod 2 ^ 16 else y) = d - 4716" using m d ymd(1) by auto
  have g: "c_trunc (rnd (rnd (306001 / 10000) * of_int (f - 1 + 1))) = 306001 * f div 10000" using trunc_month_start [OF assms(1) f] by simp
  have "306001 * f div 10000 \<le> 10000 * r div 10000" by (rule zdiv_mono1) (simp_all add: f_def)
  then have "0 \<le> day" using ymd(3) by simp
  moreover have "1 \<le> m" unfolding ymd(2) using month_cases [OF f] by (elim disjE) simp_all
  ultimately have late: "\<not> 10000 * (d - 4716) + 100 * m + day \<le> 15821004" using d by simp
  define Y where "Y = d - 4716"
  have Y: "1998 \<le> Y" "Y \<le> 2292" using d by (simp_all add: Y_def)
  have y4: "Y div 4 = d div 4 - 1179" unfolding Y_def by presburger
  have cent: "Y div 400 - Y div 100 = - 3 - (if n < 36584 then 12 else if n < 73108 then 13 else 14)"
  proof -
    define k where "k = Y div 100"
    have k: "100 * k \<le> Y" "Y < 100 * k + 100" by (simp_all add: k_def)
    have "19 \<le> k" "k \<le> 22" using k Y by linarith+
    then have "k = 19 \<or> k = 20 \<or> k = 21 \<or> k = 22" by presburger
    moreover have "Y div 400 = k div 4" by (simp add: k_def zdiv_zmult2_eq [symmetric])
    moreover have "365 * Y + Y div 4 + r + 1722519 = day_count n" using dr(2) y4 by (simp add: Y_def)
    then have n: "365 * Y + Y div 4 + r - 730551 = n + (if n < 36584 then 12 else if n < 73108 then 13 else 14)" by (simp add: day_count_def)
    moreover have "4 * (Y div 4) \<le> Y" "Y < 4 * (Y div 4) + 4" by simp_all
    ultimately show ?thesis unfolding k_def [symmetric] using k r by (elim disjE) (auto split: if_splits)
  qed
  have e: "365 * Y - 679004 + Y div 400 - Y div 100 + Y div 4 + 306001 * f div 10000 + day = 51544 + n"
    using y4 cent dr(2) ymd(3) by (simp add: day_count_def Y_def)
  have cd: "c_div Y 400 = Y div 400" "c_div Y 100 = Y div 100" "c_div Y 4 = Y div 4" using Y by simp_all
  have "rnd (of_int (51544 + n)) = of_int (51544 + n)" using assms(2,3) by (intro rounds_int [OF assms(1)]) simp
  then show ?thesis
    unfolding calendar2mjd_UTC_def Let_def conjunct1 [OF m] ym g Y_def [symmetric] if_not_P [OF late [folded Y_def]] cd e
    using z assms(2,3) by simp
qed

section \<open>UTC\<close>

lemma rounds_abs:
  assumes "rounds_to p rnd" "\<bar>x\<bar> \<le> 2 ^ 1000"
  shows "\<bar>rnd x - x\<bar> \<le> \<bar>x\<bar> / 2 ^ p + 1 / 2 ^ 1000"
proof (cases "1 / 2 ^ 1000 \<le> \<bar>x\<bar>")
  case True
  then have "\<bar>rnd x - x\<bar> \<le> \<bar>x\<bar> / 2 ^ p" using assms unfolding rounds_to_def by blast
  moreover have "0 \<le> 1 / (2 :: rat) ^ 1000" by simp
  ultimately show ?thesis by linarith
next
  case False
  then have "\<bar>rnd x - x\<bar> \<le> 1 / 2 ^ 1000" using assms(1) unfolding rounds_to_def by (meson linear)
  moreover have "0 \<le> \<bar>x\<bar> / 2 ^ p" by simp
  ultimately show ?thesis by linarith
qed

lemma rounds_within:
  assumes "rounds_to 64 rnd" "\<bar>x\<bar> \<le> b" "b \<le> 2 ^ 64"
  shows "\<bar>rnd x - x\<bar> \<le> b / 2 ^ 64 + 1 / 2 ^ 64"
proof -
  have "(2 :: rat) ^ 64 \<le> 2 ^ 1000" "1 / (2 :: rat) ^ 1000 \<le> 1 / 2 ^ 64" by (auto intro: power_increasing divide_left_mono)
  moreover have "\<bar>x\<bar> / 2 ^ 64 \<le> b / 2 ^ 64" using assms(2) by (intro divide_right_mono) auto
  ultimately show ?thesis using rounds_abs [OF assms(1), of x] assms(2,3) by linarith
qed

lemma c_trunc_near: "\<bar>of_int (c_trunc x) - x\<bar> < 1"
  by (auto simp: c_trunc_def) linarith+

definition clock_ok :: "TimeModel \<Rightarrow> bool" where
  "clock_ok m \<longleftrightarrow> \<bar>tm_utcDeltaTime m\<bar> \<le> 2 ^ 60 \<and> \<bar>tm_tSync m\<bar> \<le> 2 ^ 60 \<and> \<bar>tm_drift m\<bar> \<le> 1 / 1000"

lemma drift_product:
  assumes "\<bar>c\<bar> \<le> (1 / 1000 :: rat)" "\<bar>k\<bar> \<le> (2 ^ 61 :: int)"
  shows "\<bar>c * of_int k\<bar> \<le> 2 ^ 61 / 1000"
proof -
  have "\<bar>of_int k :: rat\<bar> \<le> 2 ^ 61" using assms(2) by (metis of_int_abs of_int_le_iff of_int_numeral of_int_power)
  then have "\<bar>c\<bar> * \<bar>of_int k\<bar> \<le> 1 / 1000 * 2 ^ 61" using assms(1) by (intro mult_mono) auto
  then show ?thesis by (simp add: abs_mult)
qed

lemma two_powers: "(2 :: rat) ^ 61 = 2 * 2 ^ 60" "(2 :: rat) ^ 62 = 4 * 2 ^ 60" "1000 \<le> (2 :: rat) ^ 60" "x / 2 ^ 51 = 2 * (x / (2 :: rat) ^ 52)"
  "\<bar>x\<bar> \<le> (2 :: rat) ^ 60 \<Longrightarrow> \<bar>x\<bar> / 2 ^ 52 \<le> 256"
  by simp_all

text \<open>The UTC is the linear function of the local time, rounded.\<close>

lemma utc_value:
  assumes "rounds_to 64 rndl" "clock_ok m" "\<bar>t\<bar> \<le> 2 ^ 60"
  obtains k where "localTime2UTC rndl m t = tm_utcDeltaTime m + t + k" "\<bar>k\<bar> \<le> 2 ^ 60"
    "\<bar>of_int k - tm_drift m * of_int (t - tm_tSync m) - 1 / 2\<bar> \<le> 1 + 1 / 1000"
proof -
  let ?s = "tm_tSync m" and ?c = "tm_drift m" and ?u = "tm_utcDeltaTime m"
  have b: "\<bar>t - ?s\<bar> \<le> 2 ^ 61" "\<bar>?c\<bar> \<le> 1 / 1000" "\<bar>?u + t\<bar> \<le> 2 ^ 61" using assms(2,3) by (auto simp: clock_ok_def)
  define X A B where "X = ?c * of_int (t - ?s)" and "A = rndl X" and "B = rndl (A + 1 / 2)"
  have X: "\<bar>X\<bar> \<le> 2 ^ 61 / 1000" unfolding X_def by (rule drift_product [OF b(2,1)])
  have A: "\<bar>A - X\<bar> \<le> 1 / 4000" unfolding A_def using rounds_within [OF assms(1) X] by simp
  have "\<bar>A + 1 / 2\<bar> \<le> 2 ^ 61 / 1000 + 1" using A X by linarith
  from rounds_within [OF assms(1) this] have B: "\<bar>B - (A + 1 / 2)\<bar> \<le> 1 / 4000" unfolding B_def by simp
  define k where "k = c_trunc B"
  have "\<bar>of_int k - B\<bar> < 1" unfolding k_def by (rule c_trunc_near)
  then have k: "\<bar>of_int k - X - 1 / 2\<bar> \<le> 1 + 1 / 1000" using A B by linarith
  then have "\<bar>of_int k :: rat\<bar> \<le> 2 ^ 60" using X two_powers(1,3) by linarith
  then have k60: "\<bar>k\<bar> \<le> 2 ^ 60" by (metis of_int_abs of_int_le_iff of_int_numeral of_int_power)
  have "i64 (t - ?s) = t - ?s" "i64 (?u + t) = ?u + t" "i64 (?u + t + k) = ?u + t + k"
    using b k60 by (auto intro!: i64_exact in_i64I)
  moreover have "rndl (of_int (t - ?s)) = of_int (t - ?s)" using b by (intro rounds_int [OF assms(1)]) simp
  ultimately have "localTime2UTC rndl m t = ?u + t + k"
    unfolding localTime2UTC_def k_def B_def A_def X_def by simp
  then show ?thesis using that k60 k unfolding X_def by blast
qed

lemma quotient_error:
  fixes y t g w :: rat
  assumes "y * w = t * g + e" "\<bar>w - g\<bar> \<le> 1 / 2 ^ 52" "99 / 100 \<le> w" "\<bar>e\<bar> \<le> E"
  shows "\<bar>y - t\<bar> \<le> \<bar>t\<bar> / 2 ^ 52 * (100 / 99) + E * (100 / 99)"
proof -
  have "(y - t) * w = t * (g - w) + e" using assms(1) by (simp add: algebra_simps)
  moreover have "\<bar>t * (g - w)\<bar> \<le> \<bar>t\<bar> * (1 / 2 ^ 52)" unfolding abs_mult using assms(2) by (intro mult_left_mono) (auto simp: abs_minus_commute)
  ultimately have "\<bar>y - t\<bar> * w \<le> \<bar>t\<bar> / 2 ^ 52 + E" using assms(3,4) by (simp add: abs_mult [of "y - t" w, symmetric] abs_of_pos del: abs_mult)
  moreover have "\<bar>y - t\<bar> * (99 / 100) \<le> \<bar>y - t\<bar> * w" using assms(3) by (intro mult_left_mono) auto
  ultimately show ?thesis by simp
qed

section \<open>Properties\<close>

text \<open>
  The local time survives the conversion to UTC and back up to four nanoseconds and the error of the factor \<open>1.0 + drift\<close>, which is
  computed in \<open>double\<close>, for times, offsets and synchronizations of up to 36 years and a drift of at most one per mille,
  when \<open>long double\<close> has 64 bits of precision.
\<close>

lemma utc_roundtrip:
  assumes "rounds_to 64 rndl" "rounds rnd" "clock_ok m" "\<bar>t\<bar> \<le> 2 ^ 60"
  shows "\<bar>of_int (UTC2LocalTime rnd rndl m (localTime2UTC rndl m t) - t)\<bar> \<le> 4 + (of_int \<bar>t\<bar> :: rat) / 2 ^ 51"
proof -
  let ?s = "tm_tSync m" and ?c = "tm_drift m" and ?u = "tm_utcDeltaTime m"
  obtain k where k: "localTime2UTC rndl m t = ?u + t + k" "\<bar>k\<bar> \<le> 2 ^ 60" "\<bar>of_int k - ?c * of_int (t - ?s) - 1 / 2\<bar> \<le> 1 + 1 / 1000"
    using utc_value [OF assms(1,3,4)] .
  have b: "\<bar>?c\<bar> \<le> 1 / 1000" "\<bar>?s\<bar> \<le> 2 ^ 60" "\<bar>t + k\<bar> \<le> 2 ^ 61" using assms(3,4) k(2) by (auto simp: clock_ok_def)
  have "i64 (?u + t + k - ?u) = t + k" using b(3) by (intro trans [OF i64_exact]) (auto intro!: in_i64I)
  moreover have r: "rndl (of_int (t + k)) = of_int (t + k)" "rndl (of_int ?s) = of_int ?s" using b by (intro rounds_int [OF assms(1)]; simp)+
  moreover define D L W Y Z where "D = rndl (?c * of_int ?s)" and "L = rndl (of_int (t + k) + D)" and "W = rnd (1 + ?c)" and "Y = rndl (L / W)" and "Z = rndl (Y + 1 / 2)"
  ultimately have res: "UTC2LocalTime rnd rndl m (localTime2UTC rndl m t) = c_trunc Z"
    unfolding UTC2LocalTime_def k(1) by (simp add: Let_def)
  have s: "\<bar>?c * of_int ?s\<bar> \<le> 2 ^ 61 / 1000" using b(2) by (intro drift_product [OF b(1)]) simp
  from rounds_within [OF assms(1) this] have D: "\<bar>D - ?c * of_int ?s\<bar> \<le> 1 / 1000" unfolding D_def by simp
  have tk: "\<bar>of_int (t + k) :: rat\<bar> \<le> 2 ^ 61" using b(3) by (metis of_int_abs of_int_le_iff of_int_numeral of_int_power)
  have "\<bar>of_int (t + k) + D\<bar> \<le> 2 ^ 62" using tk D s two_powers(1-3) by linarith
  from rounds_within [OF assms(1) this] have L: "\<bar>L - (of_int (t + k) + D)\<bar> \<le> 26 / 100" unfolding L_def by simp
  have "\<bar>rnd (1 + ?c) - (1 + ?c)\<bar> \<le> \<bar>1 + ?c\<bar> / 2 ^ 53 + 1 / 2 ^ 1000"
    by (rule rounds_abs [OF assms(2)]) (use b(1) power_increasing [of 2 1000 "2 :: rat"] in simp)
  moreover have "1 / (2 :: rat) ^ 1000 \<le> 1 / 2 ^ 60" by (auto intro: power_increasing divide_left_mono)
  moreover have "\<bar>1 + ?c\<bar> / 2 ^ 53 \<le> 1001 / 1000 / 2 ^ 53" using b(1) by (intro divide_right_mono) auto
  moreover have "1001 / 1000 / 2 ^ 53 + 1 / 2 ^ 60 \<le> 1 / (2 :: rat) ^ 52" "1 / (2 :: rat) ^ 52 \<le> 1 / 1000" by simp_all
  ultimately have W: "\<bar>W - (1 + ?c)\<bar> \<le> 1 / 2 ^ 52" "99 / 100 \<le> W" unfolding W_def using b(1) by linarith+
  define e where "e = L - of_int t * (1 + ?c)"
  have "e = L - (of_int (t + k) + D) + (D - ?c * of_int ?s) + (of_int k - ?c * of_int (t - ?s))" by (simp add: e_def algebra_simps)
  then have e: "\<bar>e\<bar> \<le> 178 / 100" using L D k(3) by linarith
  have t60: "\<bar>of_int t :: rat\<bar> \<le> 2 ^ 60" using assms(4) by (metis of_int_abs of_int_le_iff of_int_numeral of_int_power)
  have "L / W * W = of_int t * (1 + ?c) + e" using W(2) by (simp add: e_def)
  from quotient_error [OF this W e] have q: "\<bar>L / W - of_int t\<bar> \<le> \<bar>of_int t\<bar> / 2 ^ 52 * (100 / 99) + 18 / 10" by simp
  define T where "T = \<bar>of_int t :: rat\<bar> / 2 ^ 52"
  have T: "0 \<le> T" by (simp add: T_def)
  note q = q [folded T_def] and t256 = two_powers(5) [OF t60, folded T_def] and t51 = two_powers(4) [of "\<bar>of_int t\<bar>", folded T_def]
  have "\<bar>L / W\<bar> \<le> 2 ^ 61" using q t60 two_powers(1-3) t256 by linarith
  from rounds_within [OF assms(1) this] have Y: "\<bar>Y - L / W\<bar> \<le> 13 / 100" unfolding Y_def by simp
  have "\<bar>Y + 1 / 2\<bar> \<le> 2 ^ 62" using q t60 Y two_powers(1-3) t256 by linarith
  from rounds_within [OF assms(1) this] have Z: "\<bar>Z - (Y + 1 / 2)\<bar> \<le> 26 / 100" unfolding Z_def by simp
  have "\<bar>of_int (c_trunc Z) - Z\<bar> < 1" by (rule c_trunc_near)
  then have "\<bar>of_int (c_trunc Z) - of_int t\<bar> \<le> \<bar>of_int t\<bar> / 2 ^ 51 + (4 :: rat)" using q Y Z t51 T by linarith
  then show ?thesis unfolding res by simp
qed

lemma utc_roundtrip_witness:
  "\<bar>of_int (UTC2LocalTime (\<lambda>x. x) (\<lambda>x. x) (setDrift 7 (1 / 2048) (setUTC 5 6 1000000 TimeModel_new))
      (localTime2UTC (\<lambda>x. x) (setDrift 7 (1 / 2048) (setUTC 5 6 1000000 TimeModel_new)) 123456) - 123456)\<bar> \<le> 4 + (of_int \<bar>123456\<bar> :: rat) / 2 ^ 51"
proof -
  have "clock_ok (setDrift 7 (1 / 2048) (setUTC 5 6 1000000 TimeModel_new))"
    by (simp add: clock_ok_def setDrift_def setUTC_def TimeModel_new_def i64_def)
  then show ?thesis by (rule utc_roundtrip [OF rounds_exactly rounds_exactly]) simp
qed

text \<open>
  The inverse conversion of modified Julian dates converts the days before the month to \<open>uint8_t\<close>, although they may be up to 459: on
  the 1st of January 2000, even in exact arithmetic, the conversion is undefined.
\<close>

lemma mjd_conversion_undefined: "mjd_UTC2calendar (\<lambda>x. x) (\<lambda>x. x) 51544 = None"
  by code_simp

text \<open>A date before 17 November 1858 has a negative modified Julian date, which \<open>uint32_t\<close> cannot hold.\<close>

lemma mjd_before_1858: "calendar2mjd_UTC (\<lambda>x. x) 1858 11 16 0 0 0 = 4294967295"
  by code_simp

end
