(* ===== verification/Posix_Port.thy ===== *)
theory Posix_Port
  imports Time_Model
begin

text \<open>
  The port to POSIX threads (\<open>src/on-posix/thread_on_posix.cpp\<close>, \<open>rodos-semaphore.cpp\<close>, \<open>scheduler.cpp\<close>): suspending and resuming
  threads, semaphores, and disabling of interrupts. A mutex is the number of the thread that holds it, locking it waits until it is free;
  \<open>pthread_cond_wait\<close> releases the mutex and sleeps in one step, and may return at any time, as the standard
  allows. Each step of the relations is the code between two calls of the system or two accesses to shared variables.
\<close>

section \<open>Suspending and resuming\<close>

subsection \<open>The code\<close>

text \<open>The thread that suspends itself holds its mutex as number 0, the \<open>k\<close>-th of those that resume it as \<open>k + 1\<close>.\<close>

record px_thread =
  px_suspendedUntil :: int
  px_waitingFor :: nat
  px_mutex :: "nat option"
  px_signalled :: bool

text \<open>Where the thread is in \<open>suspendCallerUntil\<close> (\<open>True\<close>) or \<open>yield\<close> (\<open>False\<close>); \<open>PxCheck\<close> has the local variable \<open>now\<close>.\<close>

datatype px_pc = PxRun | PxLock int nat | PxSuspend int nat | PxLockYield | PxYield | PxCheck bool int | PxSleep bool | PxRelock bool
  | PxUnlock bool | PxUnlocked | PxTimeout | PxReturn bool

datatype px_resumer = RxIdle | RxLock | RxBody | RxUnlock

definition px_suspend_set :: "int \<Rightarrow> nat \<Rightarrow> px_thread \<Rightarrow> px_thread" where
  "px_suspend_set reactivationTime signaler t = t\<lparr>px_waitingFor := signaler, px_suspendedUntil := reactivationTime\<rparr>"

text \<open>The absolute time for \<open>pthread_cond_timedwait\<close>.\<close>

definition px_timespec :: "int \<Rightarrow> int \<Rightarrow> int \<Rightarrow> int \<times> int" where
  "px_timespec absolute reactivationTime now =
     (let hostAbsoluteReactivationTime = i64 (absolute + i64 (reactivationTime - now))
      in (c_div hostAbsoluteReactivationTime SECONDS, c_mod hostAbsoluteReactivationTime SECONDS))"

definition px_check :: "bool \<Rightarrow> int \<Rightarrow> px_thread \<Rightarrow> px_pc \<times> px_thread" where
  "px_check b now t =
     (if px_suspendedUntil t > now then (PxSleep b, t\<lparr>px_mutex := None, px_signalled := False\<rparr>) else (PxUnlock b, t))"

definition px_yield :: "int \<Rightarrow> int \<Rightarrow> px_thread \<Rightarrow> px_pc \<times> px_thread" where
  "px_yield now now2 t =
     (if px_suspendedUntil t > now then (PxCheck False now2, t\<lparr>px_waitingFor := 0\<rparr>) else (PxUnlock False, t))"

definition px_result :: "px_thread \<Rightarrow> px_pc" where
  "px_result t = (if px_suspendedUntil t = 0 then PxReturn True else PxTimeout)"

definition px_timed_out :: "px_thread \<Rightarrow> px_pc \<times> px_thread" where
  "px_timed_out t = (PxReturn False, t\<lparr>px_suspendedUntil := 0\<rparr>)"

definition px_resume :: "px_thread \<Rightarrow> px_thread" where
  "px_resume t = t\<lparr>px_suspendedUntil := 0, px_waitingFor := 0, px_signalled := True\<rparr>"

definition px_setPriority :: "int \<Rightarrow> int" where
  "px_setPriority prio =
     (let posixPrio = c_div prio 10;
          posixPrio = (if posixPrio < 1 then 1 else posixPrio)
      in if posixPrio > 99 then 99 else posixPrio)"

subsection \<open>All interleavings\<close>

text \<open>\<open>pz_until\<close> is the time the thread asked for, \<open>pz_resumed\<close> whether it was resumed since, \<open>pz_now\<close> the last time it read.\<close>

record px_system =
  pz_thread :: px_thread
  pz_pc :: px_pc
  pz_resumer :: "nat \<Rightarrow> px_resumer"
  pz_until :: int
  pz_resumed :: bool
  pz_now :: int

inductive px_step :: "px_system \<Rightarrow> px_system \<Rightarrow> bool" where
  suspend_call: "pz_pc s = PxRun \<Longrightarrow> 0 < u \<Longrightarrow> px_step s (s\<lparr>pz_pc := PxLock u g\<rparr>)"
| suspend_lock: "pz_pc s = PxLock u g \<Longrightarrow> px_mutex (pz_thread s) = None \<Longrightarrow>
    px_step s (s\<lparr>pz_pc := PxSuspend u g, pz_thread := (pz_thread s)\<lparr>px_mutex := Some 0\<rparr>\<rparr>)"
| suspend_set: "pz_pc s = PxSuspend u g \<Longrightarrow> 0 \<le> now \<Longrightarrow>
    px_step s (s\<lparr>pz_pc := PxCheck True now, pz_thread := px_suspend_set u g (pz_thread s), pz_until := u, pz_resumed := False, pz_now := now\<rparr>)"
| prepare_yield: "pz_pc s = PxRun \<Longrightarrow> px_step s (s\<lparr>pz_thread := (pz_thread s)\<lparr>px_suspendedUntil := u\<rparr>\<rparr>)"
| yield_call: "pz_pc s = PxRun \<Longrightarrow> px_step s (s\<lparr>pz_pc := PxLockYield\<rparr>)"
| yield_lock: "pz_pc s = PxLockYield \<Longrightarrow> px_mutex (pz_thread s) = None \<Longrightarrow>
    px_step s (s\<lparr>pz_pc := PxYield, pz_thread := (pz_thread s)\<lparr>px_mutex := Some 0\<rparr>\<rparr>)"
| yield_test: "pz_pc s = PxYield \<Longrightarrow> 0 \<le> now2 \<Longrightarrow> px_yield now now2 (pz_thread s) = (pc, t) \<Longrightarrow> px_step s (s\<lparr>pz_pc := pc, pz_thread := t\<rparr>)"
| check: "pz_pc s = PxCheck b now \<Longrightarrow> px_check b now (pz_thread s) = (pc, t) \<Longrightarrow> px_step s (s\<lparr>pz_pc := pc, pz_thread := t\<rparr>)"
| wake: "pz_pc s = PxSleep b \<Longrightarrow> px_step s (s\<lparr>pz_pc := PxRelock b\<rparr>)"
| relock: "pz_pc s = PxRelock b \<Longrightarrow> px_mutex (pz_thread s) = None \<Longrightarrow> 0 \<le> now \<Longrightarrow>
    px_step s (s\<lparr>pz_pc := PxCheck b now, pz_thread := (pz_thread s)\<lparr>px_mutex := Some 0\<rparr>, pz_now := now\<rparr>)"
| unlock: "pz_pc s = PxUnlock b \<Longrightarrow>
    px_step s (s\<lparr>pz_pc := (if b then PxUnlocked else PxRun), pz_thread := (pz_thread s)\<lparr>px_mutex := None\<rparr>\<rparr>)"
| result: "pz_pc s = PxUnlocked \<Longrightarrow> px_step s (s\<lparr>pz_pc := px_result (pz_thread s)\<rparr>)"
| timed_out: "pz_pc s = PxTimeout \<Longrightarrow> px_timed_out (pz_thread s) = (pc, t) \<Longrightarrow> px_step s (s\<lparr>pz_pc := pc, pz_thread := t\<rparr>)"
| return: "pz_pc s = PxReturn r \<Longrightarrow> px_step s (s\<lparr>pz_pc := PxRun\<rparr>)"
| resume_call: "pz_resumer s k = RxIdle \<Longrightarrow> px_step s (s\<lparr>pz_resumer := (pz_resumer s)(k := RxLock)\<rparr>)"
| resume_lock: "pz_resumer s k = RxLock \<Longrightarrow> px_mutex (pz_thread s) = None \<Longrightarrow>
    px_step s (s\<lparr>pz_resumer := (pz_resumer s)(k := RxBody), pz_thread := (pz_thread s)\<lparr>px_mutex := Some (k + 1)\<rparr>\<rparr>)"
| resume_body: "pz_resumer s k = RxBody \<Longrightarrow>
    px_step s (s\<lparr>pz_resumer := (pz_resumer s)(k := RxUnlock), pz_thread := px_resume (pz_thread s), pz_resumed := True\<rparr>)"
| resume_unlock: "pz_resumer s k = RxUnlock \<Longrightarrow>
    px_step s (s\<lparr>pz_resumer := (pz_resumer s)(k := RxIdle), pz_thread := (pz_thread s)\<lparr>px_mutex := None\<rparr>\<rparr>)"

definition px_start :: px_system where
  "px_start = \<lparr>pz_thread = \<lparr>px_suspendedUntil = 0, px_waitingFor = 0, px_mutex = None, px_signalled = False\<rparr>, pz_pc = PxRun,
     pz_resumer = (\<lambda>_. RxIdle), pz_until = 0, pz_resumed = False, pz_now = 0\<rparr>"

abbreviation px_reachable :: "px_system \<Rightarrow> bool" where
  "px_reachable \<equiv> reach (\<lambda>s. s = px_start) px_step"

subsection \<open>The invariant\<close>

definition caller_locked :: "px_pc \<Rightarrow> bool" where
  "caller_locked pc \<longleftrightarrow> (case pc of PxSuspend _ _ \<Rightarrow> True | PxYield \<Rightarrow> True | PxCheck _ _ \<Rightarrow> True | PxUnlock _ \<Rightarrow> True | _ \<Rightarrow> False)"

definition resumer_locked :: "px_resumer \<Rightarrow> bool" where
  "resumer_locked r \<longleftrightarrow> r = RxBody \<or> r = RxUnlock"

definition in_suspend :: "px_pc \<Rightarrow> bool" where
  "in_suspend pc \<longleftrightarrow> (case pc of PxCheck b _ \<Rightarrow> b | PxSleep b \<Rightarrow> b | PxRelock b \<Rightarrow> b | PxUnlock b \<Rightarrow> b | PxUnlocked \<Rightarrow> True | _ \<Rightarrow> False)"

text \<open>The mutex is held by whom is between locking and unlocking.\<close>

definition px_lock_inv :: "px_system \<Rightarrow> bool" where
  "px_lock_inv s \<longleftrightarrow> (px_mutex (pz_thread s) = Some 0 \<longleftrightarrow> caller_locked (pz_pc s)) \<and>
     (\<forall>k. px_mutex (pz_thread s) = Some (Suc k) \<longleftrightarrow> resumer_locked (pz_resumer s k))"

definition px_wait_inv :: "px_system \<Rightarrow> bool" where
  "px_wait_inv s \<longleftrightarrow>
     (\<forall>b. pz_pc s = PxSleep b \<and> px_suspendedUntil (pz_thread s) = 0 \<longrightarrow> px_signalled (pz_thread s)) \<and>
     (in_suspend (pz_pc s) \<longrightarrow> 0 < pz_until s \<and> px_suspendedUntil (pz_thread s) = (if pz_resumed s then 0 else pz_until s)) \<and>
     (\<forall>b now. pz_pc s = PxCheck b now \<longrightarrow> 0 \<le> now \<and> (b \<longrightarrow> now = pz_now s)) \<and>
     (pz_pc s = PxUnlock True \<or> pz_pc s = PxUnlocked \<longrightarrow> pz_resumed s \<or> pz_until s \<le> pz_now s) \<and>
     (pz_pc s = PxTimeout \<or> pz_pc s = PxReturn False \<longrightarrow> pz_until s \<le> pz_now s) \<and>
     (pz_pc s = PxReturn True \<longrightarrow> pz_resumed s) \<and> (\<forall>u g. pz_pc s = PxLock u g \<or> pz_pc s = PxSuspend u g \<longrightarrow> 0 < u)"

lemmas px_defs = px_suspend_set_def px_check_def px_yield_def px_result_def px_timed_out_def px_resume_def

lemma pc_simps [simp]:
  "caller_locked (PxSuspend u g)" "caller_locked PxYield" "caller_locked (PxCheck b now)" "caller_locked (PxUnlock b)"
  "\<not> caller_locked PxRun" "\<not> caller_locked (PxLock u g)" "\<not> caller_locked PxLockYield" "\<not> caller_locked (PxSleep b)" "\<not> caller_locked (PxRelock b)"
  "\<not> caller_locked PxUnlocked" "\<not> caller_locked PxTimeout" "\<not> caller_locked (PxReturn b)"
  "in_suspend (PxCheck b now) = b" "in_suspend (PxSleep b) = b" "in_suspend (PxRelock b) = b" "in_suspend (PxUnlock b) = b" "in_suspend PxUnlocked"
  "\<not> in_suspend PxRun" "\<not> in_suspend (PxLock u g)" "\<not> in_suspend (PxSuspend u g)" "\<not> in_suspend PxLockYield" "\<not> in_suspend PxYield"
  "\<not> in_suspend PxTimeout" "\<not> in_suspend (PxReturn b)"
  by (simp_all add: caller_locked_def in_suspend_def)

lemma resumer_simps [simp]: "resumer_locked RxBody" "resumer_locked RxUnlock" "\<not> resumer_locked RxIdle" "\<not> resumer_locked RxLock"
  by (simp_all add: resumer_locked_def)

lemma px_step_lock:
  assumes "px_step s s'" "px_lock_inv s"
  shows "px_lock_inv s'"
proof -
  have i: "caller_locked (pz_pc s) \<longleftrightarrow> px_mutex (pz_thread s) = Some 0" "\<And>k. resumer_locked (pz_resumer s k) \<longleftrightarrow> px_mutex (pz_thread s) = Some (Suc k)"
    using assms(2) by (auto simp: px_lock_inv_def)
  show ?thesis
    using assms(1)
  proof (cases rule: px_step.cases)
    case (resume_lock k)
    then show ?thesis using i by (auto simp: px_lock_inv_def)
  next
    case (resume_body k)
    then show ?thesis using i i(2) [of k] by (auto simp: px_lock_inv_def px_defs)
  next
    case (resume_unlock k)
    then show ?thesis using i i(2) [of k] by (auto simp: px_lock_inv_def)
  next
    case (resume_call k)
    then show ?thesis using i i(2) [of k] by (auto simp: px_lock_inv_def)
  qed (use i in \<open>simp_all add: px_lock_inv_def px_defs split: if_splits\<close>, auto)
qed

lemma px_step_wait: "px_step s s' \<Longrightarrow> px_wait_inv s \<Longrightarrow> px_wait_inv s'"
proof (induction rule: px_step.induct)
  case (resume_body s k)
  then show ?case by (auto simp: px_wait_inv_def px_defs)
qed (auto simp: px_wait_inv_def px_defs split: if_splits)

lemma px_reachable_inv:
  assumes "px_reachable s"
  shows "px_lock_inv s" "px_wait_inv s"
proof -
  show "px_lock_inv s"
    by (rule reach_inv [OF assms _ px_step_lock]) (simp_all add: px_start_def px_lock_inv_def)
  show "px_wait_inv s"
    by (rule reach_inv [OF assms _ px_step_wait]) (simp_all add: px_start_def px_wait_inv_def)
qed

lemma timespec_exact:
  assumes "0 \<le> absolute" "0 \<le> now" "now \<le> reactivationTime" "absolute + (reactivationTime - now) \<le> END_OF_TIME"
  shows "fst (px_timespec absolute reactivationTime now) * SECONDS + snd (px_timespec absolute reactivationTime now) =
    absolute + (reactivationTime - now)"
proof -
  have "i64 (reactivationTime - now) = reactivationTime - now" "i64 (absolute + (reactivationTime - now)) = absolute + (reactivationTime - now)"
    using assms by (auto intro!: i64_exact in_i64_nonneg)
  then show ?thesis by (simp add: px_timespec_def c_mod_def Let_def)
qed

text \<open>For \<open>END_OF_TIME\<close> the absolute time of a clock after 1970 does not fit; it wraps to a negative time, which is then not used.\<close>

lemma timespec_overflow: "fst (px_timespec (1700000000 * SECONDS) END_OF_TIME 0) < 0"
  by (simp add: px_timespec_def SECONDS_eq END_OF_TIME_def i64_def c_div_def)

section \<open>The semaphore\<close>

subsection \<open>The code\<close>

record psem =
  ps_owner :: "nat option"
  ps_ownerEnterCnt :: int
  ps_mutex :: "nat option"

definition psem_new :: psem where
  "psem_new = \<lparr>ps_owner = None, ps_ownerEnterCnt = 0, ps_mutex = None\<rparr>"

text \<open>A thread outside, waiting for the mutex, having it, having written \<open>owner\<close>, inside with the number of its calls of \<open>enter\<close>, after the test
  of \<open>leave\<close>, after the decrement, and after the owner was cleared.\<close>

datatype psem_pc = SemOut | SemLock | SemGot | SemOwned | SemIn nat | SemDec nat | SemTest nat | SemRel

definition psem_enter :: "nat \<Rightarrow> nat \<Rightarrow> psem \<Rightarrow> psem_pc \<times> psem" where
  "psem_enter caller depth s =
     (if ps_owner s = Some caller then (SemIn (depth + 1), s\<lparr>ps_ownerEnterCnt := ps_ownerEnterCnt s + 1\<rparr>) else (SemLock, s))"

definition psem_locked :: "nat \<Rightarrow> psem \<Rightarrow> psem_pc \<times> psem" where
  "psem_locked caller s = (SemOwned, s\<lparr>ps_owner := Some caller\<rparr>)"

definition psem_first :: "psem \<Rightarrow> psem_pc \<times> psem" where
  "psem_first s = (SemIn 1, s\<lparr>ps_ownerEnterCnt := 1\<rparr>)"

definition psem_leave :: "nat \<Rightarrow> nat \<Rightarrow> psem_pc \<Rightarrow> psem \<Rightarrow> psem_pc" where
  "psem_leave caller depth pc s = (if ps_owner s \<noteq> Some caller then pc else SemDec depth)"

definition psem_decrement :: "nat \<Rightarrow> psem \<Rightarrow> psem_pc \<times> psem" where
  "psem_decrement depth s = (SemTest depth, s\<lparr>ps_ownerEnterCnt := ps_ownerEnterCnt s - 1\<rparr>)"

definition psem_test :: "nat \<Rightarrow> psem \<Rightarrow> psem_pc \<times> psem" where
  "psem_test depth s = (if ps_ownerEnterCnt s \<noteq> 0 then (SemIn (depth - 1), s) else (SemRel, s\<lparr>ps_owner := None\<rparr>))"

subsection \<open>All interleavings\<close>

record psem_system =
  pv_sem :: psem
  pv_pc :: "nat \<Rightarrow> psem_pc"

definition depth_of :: "psem_pc \<Rightarrow> nat" where
  "depth_of pc = (case pc of SemIn n \<Rightarrow> n | _ \<Rightarrow> 0)"

definition may_call :: "psem_pc \<Rightarrow> bool" where
  "may_call pc \<longleftrightarrow> (case pc of SemOut \<Rightarrow> True | SemIn _ \<Rightarrow> True | _ \<Rightarrow> False)"

inductive psem_step :: "psem_system \<Rightarrow> psem_system \<Rightarrow> bool" where
  enter: "may_call (pv_pc v t) \<Longrightarrow> psem_enter t (depth_of (pv_pc v t)) (pv_sem v) = (pc, s) \<Longrightarrow>
    psem_step v \<lparr>pv_sem = s, pv_pc = (pv_pc v)(t := pc)\<rparr>"
| lock: "pv_pc v t = SemLock \<Longrightarrow> ps_mutex (pv_sem v) = None \<Longrightarrow>
    psem_step v \<lparr>pv_sem = (pv_sem v)\<lparr>ps_mutex := Some t\<rparr>, pv_pc = (pv_pc v)(t := SemGot)\<rparr>"
| locked: "pv_pc v t = SemGot \<Longrightarrow> psem_locked t (pv_sem v) = (pc, s) \<Longrightarrow> psem_step v \<lparr>pv_sem = s, pv_pc = (pv_pc v)(t := pc)\<rparr>"
| first: "pv_pc v t = SemOwned \<Longrightarrow> psem_first (pv_sem v) = (pc, s) \<Longrightarrow> psem_step v \<lparr>pv_sem = s, pv_pc = (pv_pc v)(t := pc)\<rparr>"
| leave: "may_call (pv_pc v t) \<Longrightarrow>
    psem_step v (v\<lparr>pv_pc := (pv_pc v)(t := psem_leave t (depth_of (pv_pc v t)) (pv_pc v t) (pv_sem v))\<rparr>)"
| decrement: "pv_pc v t = SemDec n \<Longrightarrow> psem_decrement n (pv_sem v) = (pc, s) \<Longrightarrow> psem_step v \<lparr>pv_sem = s, pv_pc = (pv_pc v)(t := pc)\<rparr>"
| test: "pv_pc v t = SemTest n \<Longrightarrow> psem_test n (pv_sem v) = (pc, s) \<Longrightarrow> psem_step v \<lparr>pv_sem = s, pv_pc = (pv_pc v)(t := pc)\<rparr>"
| release: "pv_pc v t = SemRel \<Longrightarrow>
    psem_step v \<lparr>pv_sem = (pv_sem v)\<lparr>ps_mutex := None\<rparr>, pv_pc = (pv_pc v)(t := SemOut)\<rparr>"

abbreviation psem_reachable :: "psem_system \<Rightarrow> bool" where
  "psem_reachable \<equiv> reach (\<lambda>v. v = \<lparr>pv_sem = psem_new, pv_pc = \<lambda>_. SemOut\<rparr>) psem_step"

subsection \<open>The invariant\<close>

definition holds_mutex :: "psem_pc \<Rightarrow> bool" where
  "holds_mutex pc \<longleftrightarrow> pc \<noteq> SemOut \<and> pc \<noteq> SemLock"

text \<open>The variables as the thread that holds the mutex sees them.\<close>

definition holder_ok :: "nat \<Rightarrow> psem_pc \<Rightarrow> psem \<Rightarrow> bool" where
  "holder_ok t pc s \<longleftrightarrow> (case pc of
       SemOwned \<Rightarrow> ps_owner s = Some t
     | SemIn n \<Rightarrow> ps_owner s = Some t \<and> 0 < n \<and> ps_ownerEnterCnt s = int n
     | SemDec n \<Rightarrow> ps_owner s = Some t \<and> 0 < n \<and> ps_ownerEnterCnt s = int n
     | SemTest n \<Rightarrow> ps_owner s = Some t \<and> 0 < n \<and> ps_ownerEnterCnt s = int n - 1
     | _ \<Rightarrow> ps_owner s = None)"

definition psem_inv :: "psem_system \<Rightarrow> bool" where
  "psem_inv v \<longleftrightarrow> (\<forall>t. holds_mutex (pv_pc v t) \<longleftrightarrow> ps_mutex (pv_sem v) = Some t) \<and>
     (case ps_mutex (pv_sem v) of None \<Rightarrow> ps_owner (pv_sem v) = None | Some t \<Rightarrow> holder_ok t (pv_pc v t) (pv_sem v))"

lemmas psem_defs = psem_enter_def psem_locked_def psem_first_def psem_leave_def psem_decrement_def psem_test_def

lemma holder_simps [simp]:
  "holds_mutex SemGot" "holds_mutex SemOwned" "holds_mutex (SemIn n)" "holds_mutex (SemDec n)" "holds_mutex (SemTest n)" "holds_mutex SemRel"
  "\<not> holds_mutex SemOut" "\<not> holds_mutex SemLock"
  "holder_ok t SemGot s \<longleftrightarrow> ps_owner s = None" "holder_ok t SemRel s \<longleftrightarrow> ps_owner s = None" "holder_ok t SemOwned s \<longleftrightarrow> ps_owner s = Some t"
  "holder_ok t (SemIn n) s \<longleftrightarrow> ps_owner s = Some t \<and> 0 < n \<and> ps_ownerEnterCnt s = int n"
  "holder_ok t (SemDec n) s \<longleftrightarrow> ps_owner s = Some t \<and> 0 < n \<and> ps_ownerEnterCnt s = int n"
  "holder_ok t (SemTest n) s \<longleftrightarrow> ps_owner s = Some t \<and> 0 < n \<and> ps_ownerEnterCnt s = int n - 1"
  by (simp_all add: holds_mutex_def holder_ok_def)

lemma owner_holds: "psem_inv v \<Longrightarrow> ps_owner (pv_sem v) = Some t \<Longrightarrow> ps_mutex (pv_sem v) = Some t"
  by (auto simp: psem_inv_def holder_ok_def split: option.splits psem_pc.splits)

text \<open>A step of the thread that holds the mutex, and one of a thread that does not and changes nothing but its own position.\<close>

lemma holder_step:
  assumes "psem_inv v" "holds_mutex (pv_pc v t)" "holds_mutex pc" "ps_mutex s = ps_mutex (pv_sem v)" "holder_ok t pc s"
  shows "psem_inv \<lparr>pv_sem = s, pv_pc = (pv_pc v)(t := pc)\<rparr>"
proof -
  have m: "ps_mutex (pv_sem v) = Some t" using assms(1,2) by (auto simp: psem_inv_def)
  with assms show ?thesis unfolding psem_inv_def by auto
qed

lemma waiter_step:
  assumes "psem_inv v" "\<not> holds_mutex (pv_pc v t)" "\<not> holds_mutex pc"
  shows "psem_inv \<lparr>pv_sem = pv_sem v, pv_pc = (pv_pc v)(t := pc)\<rparr>"
  using assms unfolding psem_inv_def by (auto split: option.splits)

lemma psem_holder:
  assumes "psem_inv v" "holds_mutex (pv_pc v t)"
  shows "ps_mutex (pv_sem v) = Some t" "holder_ok t (pv_pc v t) (pv_sem v)"
  using assms unfolding psem_inv_def by (auto split: option.splits)

lemma psem_step_inv:
  assumes "psem_step v v'" "psem_inv v"
  shows "psem_inv v'"
  using assms(1)
proof (cases rule: psem_step.cases)
  case (enter t pc s)
  show ?thesis
  proof (cases "ps_owner (pv_sem v) = Some t")
    case True
    then have m: "ps_mutex (pv_sem v) = Some t" using owner_holds [OF assms(2)] by blast
    then have h: "holds_mutex (pv_pc v t)" using assms(2) by (simp add: psem_inv_def)
    then obtain n where n: "pv_pc v t = SemIn n" using enter(2) by (auto simp: may_call_def split: psem_pc.splits)
    show ?thesis unfolding enter(1) using enter(3) True n psem_holder [OF assms(2) h]
      by (intro holder_step [OF assms(2) h]) (auto simp: psem_defs depth_of_def)
  next
    case False
    then have "pv_pc v t = SemOut" using enter(2) psem_holder [OF assms(2), of t] by (auto simp: may_call_def split: psem_pc.splits)
    then show ?thesis unfolding enter(1) using enter(3) False waiter_step [OF assms(2), of t SemLock] by (simp add: psem_defs)
  qed
next
  case (leave t)
  show ?thesis
  proof (cases "ps_owner (pv_sem v) = Some t")
    case True
    then have m: "ps_mutex (pv_sem v) = Some t" using owner_holds [OF assms(2)] by blast
    then have h: "holds_mutex (pv_pc v t)" using assms(2) by (simp add: psem_inv_def)
    then obtain n where n: "pv_pc v t = SemIn n" using leave(2) by (auto simp: may_call_def split: psem_pc.splits)
    have "psem_inv \<lparr>pv_sem = pv_sem v, pv_pc = (pv_pc v)(t := SemDec n)\<rparr>"
      using n psem_holder [OF assms(2) h] by (intro holder_step [OF assms(2) h]) auto
    then show ?thesis unfolding leave(1) using True n by (cases v) (simp add: psem_defs depth_of_def)
  next
    case False
    then show ?thesis unfolding leave(1) using assms(2) by (simp add: psem_defs)
  qed
next
  case (lock t)
  then show ?thesis using assms(2) unfolding psem_inv_def by auto
next
  case (release t)
  then show ?thesis using assms(2) psem_holder [OF assms(2), of t] unfolding psem_inv_def by auto
next
  case (test t n pc s)
  then show ?thesis using psem_holder [OF assms(2), of t]
    by (auto simp: psem_defs of_nat_diff intro!: holder_step [OF assms(2)] split: if_splits)
next
  case (decrement t n pc s)
  then show ?thesis using psem_holder [OF assms(2), of t] by (auto simp: psem_defs intro!: holder_step [OF assms(2)])
next
  case (first t pc s)
  then show ?thesis using psem_holder [OF assms(2), of t] by (auto simp: psem_defs intro!: holder_step [OF assms(2)])
next
  case (locked t pc s)
  then show ?thesis using psem_holder [OF assms(2), of t] by (auto simp: psem_defs intro!: holder_step [OF assms(2)])
qed

lemma psem_reachable_inv:
  assumes "psem_reachable v"
  shows "psem_inv v"
  by (rule reach_inv [OF assms _ psem_step_inv]) (simp_all add: psem_inv_def psem_new_def)

section \<open>Interrupts\<close>

subsection \<open>The code\<close>

text \<open>The thread that handles the signals holds \<open>signal_mutex\<close> as number 0, thread \<open>t\<close> as \<open>t + 1\<close>. An unlock frees the mutex whoever holds it.\<close>

record irq =
  iq_interruptDisableCounter :: int
  iq_counterMutex :: "nat option"
  iq_signalMutex :: "nat option"

datatype irq_pc = IqRun | IqDisLock | IqDisCount | IqDisSignal | IqDisUnlock | IqEnLock | IqEnCount | IqEnUnlock

definition irq_disable_count :: "irq \<Rightarrow> irq_pc \<times> irq" where
  "irq_disable_count q =
     (let q = q\<lparr>iq_interruptDisableCounter := iq_interruptDisableCounter q + 1\<rparr>
      in (if iq_interruptDisableCounter q = 1 then IqDisSignal else IqDisUnlock, q))"

definition irq_enable_count :: "irq \<Rightarrow> irq_pc \<times> irq" where
  "irq_enable_count q =
     (let q = q\<lparr>iq_interruptDisableCounter := iq_interruptDisableCounter q - 1\<rparr>;
          q = (if iq_interruptDisableCounter q = 0 then q\<lparr>iq_signalMutex := None\<rparr> else q)
      in (IqEnUnlock, q))"

subsection \<open>All interleavings\<close>

text \<open>\<open>ir_handling\<close>: a signal handler runs. \<open>ir_disabled\<close> lists who disabled the interrupts and did not enable them yet.\<close>

record irq_system =
  ir_irq :: irq
  ir_pc :: "nat \<Rightarrow> irq_pc"
  ir_handling :: bool
  ir_disabled :: "nat list"

inductive irq_step :: "irq_system \<Rightarrow> irq_system \<Rightarrow> bool" where
  disable: "ir_pc s t = IqRun \<Longrightarrow> irq_step s (s\<lparr>ir_pc := (ir_pc s)(t := IqDisLock)\<rparr>)"
| disable_lock: "ir_pc s t = IqDisLock \<Longrightarrow> iq_counterMutex (ir_irq s) = None \<Longrightarrow>
    irq_step s (s\<lparr>ir_pc := (ir_pc s)(t := IqDisCount), ir_irq := (ir_irq s)\<lparr>iq_counterMutex := Some t\<rparr>\<rparr>)"
| disable_count: "ir_pc s t = IqDisCount \<Longrightarrow> irq_disable_count (ir_irq s) = (pc, q) \<Longrightarrow>
    irq_step s (s\<lparr>ir_pc := (ir_pc s)(t := pc), ir_irq := q, ir_disabled := t # ir_disabled s\<rparr>)"
| disable_signal: "ir_pc s t = IqDisSignal \<Longrightarrow> iq_signalMutex (ir_irq s) = None \<Longrightarrow>
    irq_step s (s\<lparr>ir_pc := (ir_pc s)(t := IqDisUnlock), ir_irq := (ir_irq s)\<lparr>iq_signalMutex := Some (t + 1)\<rparr>\<rparr>)"
| disable_unlock: "ir_pc s t = IqDisUnlock \<Longrightarrow>
    irq_step s (s\<lparr>ir_pc := (ir_pc s)(t := IqRun), ir_irq := (ir_irq s)\<lparr>iq_counterMutex := None\<rparr>\<rparr>)"
| enable: "ir_pc s t = IqRun \<Longrightarrow> t \<in> set (ir_disabled s) \<Longrightarrow> irq_step s (s\<lparr>ir_pc := (ir_pc s)(t := IqEnLock)\<rparr>)"
| enable_lock: "ir_pc s t = IqEnLock \<Longrightarrow> iq_counterMutex (ir_irq s) = None \<Longrightarrow>
    irq_step s (s\<lparr>ir_pc := (ir_pc s)(t := IqEnCount), ir_irq := (ir_irq s)\<lparr>iq_counterMutex := Some t\<rparr>\<rparr>)"
| enable_count: "ir_pc s t = IqEnCount \<Longrightarrow> irq_enable_count (ir_irq s) = (pc, q) \<Longrightarrow>
    irq_step s (s\<lparr>ir_pc := (ir_pc s)(t := pc), ir_irq := q, ir_disabled := remove1 t (ir_disabled s)\<rparr>)"
| enable_unlock: "ir_pc s t = IqEnUnlock \<Longrightarrow>
    irq_step s (s\<lparr>ir_pc := (ir_pc s)(t := IqRun), ir_irq := (ir_irq s)\<lparr>iq_counterMutex := None\<rparr>\<rparr>)"
| handle: "\<not> ir_handling s \<Longrightarrow> iq_signalMutex (ir_irq s) = None \<Longrightarrow>
    irq_step s (s\<lparr>ir_handling := True, ir_irq := (ir_irq s)\<lparr>iq_signalMutex := Some 0\<rparr>\<rparr>)"
| handled: "ir_handling s \<Longrightarrow> irq_step s (s\<lparr>ir_handling := False, ir_irq := (ir_irq s)\<lparr>iq_signalMutex := None\<rparr>\<rparr>)"

definition irq_start :: irq_system where
  "irq_start = \<lparr>ir_irq = \<lparr>iq_interruptDisableCounter = 0, iq_counterMutex = None, iq_signalMutex = None\<rparr>, ir_pc = (\<lambda>_. IqRun),
     ir_handling = False, ir_disabled = []\<rparr>"

abbreviation irq_reachable :: "irq_system \<Rightarrow> bool" where
  "irq_reachable \<equiv> reach (\<lambda>s. s = irq_start) irq_step"

subsection \<open>The invariant\<close>

definition counting :: "irq_pc \<Rightarrow> bool" where
  "counting pc \<longleftrightarrow> pc = IqDisCount \<or> pc = IqDisSignal \<or> pc = IqDisUnlock \<or> pc = IqEnCount \<or> pc = IqEnUnlock"

lemma counting_simps [simp]:
  "counting IqDisCount" "counting IqDisSignal" "counting IqDisUnlock" "counting IqEnCount" "counting IqEnUnlock"
  "\<not> counting IqRun" "\<not> counting IqDisLock" "\<not> counting IqEnLock"
  by (simp_all add: counting_def)

text \<open>Only the thread that counts may still wait for the signal mutex.\<close>

definition waits_signal :: "irq_system \<Rightarrow> bool" where
  "waits_signal s \<longleftrightarrow> (case iq_counterMutex (ir_irq s) of None \<Rightarrow> False | Some t \<Rightarrow> ir_pc s t = IqDisSignal)"

definition irq_inv :: "irq_system \<Rightarrow> bool" where
  "irq_inv s \<longleftrightarrow> iq_interruptDisableCounter (ir_irq s) = int (length (ir_disabled s)) \<and>
     (\<forall>t. counting (ir_pc s t) \<longleftrightarrow> iq_counterMutex (ir_irq s) = Some t) \<and>
     (\<forall>t. ir_pc s t = IqEnLock \<or> ir_pc s t = IqEnCount \<longrightarrow> t \<in> set (ir_disabled s)) \<and>
     (\<forall>t. ir_pc s t = IqDisSignal \<longrightarrow> ir_disabled s = [t]) \<and>
     (ir_handling s \<longleftrightarrow> iq_signalMutex (ir_irq s) = Some 0) \<and>
     (ir_disabled s \<noteq> [] \<and> \<not> waits_signal s \<longleftrightarrow> (\<exists>t. iq_signalMutex (ir_irq s) = Some (Suc t)))"

lemma irq_step_inv:
  assumes "irq_step s s'" "irq_inv s"
  shows "irq_inv s'"
proof -
  have i: "iq_interruptDisableCounter (ir_irq s) = int (length (ir_disabled s))"
    "\<And>t. counting (ir_pc s t) \<longleftrightarrow> iq_counterMutex (ir_irq s) = Some t"
    "\<And>t. ir_pc s t = IqEnLock \<or> ir_pc s t = IqEnCount \<Longrightarrow> t \<in> set (ir_disabled s)"
    "\<And>t. ir_pc s t = IqDisSignal \<Longrightarrow> ir_disabled s = [t]"
    "ir_handling s \<longleftrightarrow> iq_signalMutex (ir_irq s) = Some 0"
    "ir_disabled s \<noteq> [] \<and> \<not> waits_signal s \<longleftrightarrow> (\<exists>t. iq_signalMutex (ir_irq s) = Some (Suc t))"
    using assms(2) unfolding irq_inv_def by blast+
  have w: "iq_counterMutex (ir_irq s) = Some t" if "ir_pc s t = IqDisSignal \<or> ir_pc s t = IqEnCount" for t using that i(2) [of t] by auto
  show ?thesis using assms(1)
  proof (cases rule: irq_step.cases)
    case (disable t)
    then show ?thesis using i i(2) [of t] w by (auto simp: irq_inv_def waits_signal_def split: option.splits)
  next
    case (disable_lock t)
    then show ?thesis using i i(2) [of t] w by (auto simp: irq_inv_def waits_signal_def split: option.splits)
  next
    case (disable_count t pc q)
    then show ?thesis using i i(2) [of t] w by (auto simp: irq_inv_def waits_signal_def irq_disable_count_def Let_def split: option.splits if_splits)
  next
    case (disable_signal t)
    then show ?thesis using i i(2) [of t] w by (auto simp: irq_inv_def waits_signal_def split: option.splits)
  next
    case (disable_unlock t)
    then show ?thesis using i i(2) [of t] w by (auto simp: irq_inv_def waits_signal_def split: option.splits)
  next
    case (enable t)
    then show ?thesis using i i(2) [of t] w by (auto simp: irq_inv_def waits_signal_def split: option.splits)
  next
    case (enable_lock t)
    then show ?thesis using i i(2) [of t] w by (auto simp: irq_inv_def waits_signal_def split: option.splits)
  next
    case (enable_count t pc q)
    let ?D = "ir_disabled s"
    have t: "t \<in> set ?D" "iq_counterMutex (ir_irq s) = Some t" using i(3) w enable_count(2) by blast+
    then have "\<not> waits_signal s" using enable_count(2) by (simp add: waits_signal_def)
    then obtain u where u: "iq_signalMutex (ir_irq s) = Some (Suc u)" "\<not> ir_handling s" using i(5,6) t(1) by auto
    have len: "length (remove1 t ?D) = length ?D - 1" "0 < length ?D" using t(1) by (auto simp: length_remove1)
    have pc: "ir_pc s v \<noteq> IqDisSignal" "ir_pc s v \<noteq> IqEnCount" if "v \<noteq> t" for v using w [of v] t(2) that by auto
    have q: "pc = IqEnUnlock" "q = (ir_irq s)\<lparr>iq_interruptDisableCounter := int (length (remove1 t ?D)),
        iq_signalMutex := (if remove1 t ?D = [] then None else Some (Suc u))\<rparr>"
    proof -
      have n: "int (length ?D) - 1 = int (length (remove1 t ?D))" using len by linarith
      have "int (length xs) = 0 \<longleftrightarrow> xs = []" for xs :: "nat list" by simp
      note n = n this [of "remove1 t ?D"]
      have "(ir_irq s)\<lparr>iq_interruptDisableCounter := c, iq_signalMutex := Some (Suc u)\<rparr> = (ir_irq s)\<lparr>iq_interruptDisableCounter := c\<rparr>" for c
        using u(1) by (cases "ir_irq s") simp
      then show "pc = IqEnUnlock" "q = (ir_irq s)\<lparr>iq_interruptDisableCounter := int (length (remove1 t ?D)),
          iq_signalMutex := (if remove1 t ?D = [] then None else Some (Suc u))\<rparr>"
        using enable_count(3) i(1) by (simp_all add: irq_enable_count_def Let_def n del: of_nat_eq_0_iff split: if_splits)
    qed
    have "\<not> waits_signal s'" unfolding enable_count(1) q using t(2) by (simp add: waits_signal_def)
    moreover have "v \<in> set (remove1 t ?D)" if "ir_pc s v = IqEnLock" "v \<noteq> t" for v using i(3) [of v] that by simp
    moreover have "remove1 t ?D \<noteq> []" if "ir_pc s v = IqEnLock" "v \<noteq> t" for v
      using i(3) [of v] that in_set_remove1 [of v t ?D] by (metis empty_iff list.set(1))
    ultimately show ?thesis using i(2) t(2) u(2) pc unfolding irq_inv_def enable_count(1) q by auto
  next
    case (enable_unlock t)
    then show ?thesis using i i(2) [of t] w by (auto simp: irq_inv_def waits_signal_def split: option.splits)
  qed (use i in \<open>auto simp: irq_inv_def waits_signal_def split: option.splits\<close>)
qed

lemma irq_reachable_inv:
  assumes "irq_reachable s"
  shows "irq_inv s"
  by (rule reach_inv [OF assms _ irq_step_inv]) (simp_all add: irq_start_def irq_inv_def waits_signal_def)

section \<open>Properties\<close>

text \<open>
  C31. No resume is lost on POSIX: however a thread that suspends itself and any number of threads that resume it interleave, with wake-ups of
  the system at any time, a sleeping thread whose condition was not signalled was not resumed since it wrote its time;
  \<open>suspendCallerUntil\<close> returns true only after a resume and false only after the time was reached; and
  the thread is never inside its mutex together with a resuming one.
\<close>

theorem posix_no_lost_resume:
  assumes "px_reachable s"
  shows "(pz_pc s = PxSleep b \<and> \<not> px_signalled (pz_thread s) \<longrightarrow> px_suspendedUntil (pz_thread s) \<noteq> 0 \<and> (b \<longrightarrow> \<not> pz_resumed s)) \<and>
    (pz_pc s = PxReturn True \<longrightarrow> pz_resumed s) \<and> (pz_pc s = PxReturn False \<longrightarrow> pz_until s \<le> pz_now s) \<and>
    \<not> (caller_locked (pz_pc s) \<and> resumer_locked (pz_resumer s k)) \<and>
    (resumer_locked (pz_resumer s k) \<and> resumer_locked (pz_resumer s j) \<longrightarrow> j = k)"
proof -
  note i = px_reachable_inv [OF assms]
  have "pz_pc s = PxSleep b \<and> \<not> px_signalled (pz_thread s) \<longrightarrow> px_suspendedUntil (pz_thread s) \<noteq> 0" using i(2) by (auto simp: px_wait_inv_def)
  moreover have "pz_pc s = PxSleep True \<longrightarrow> px_suspendedUntil (pz_thread s) = (if pz_resumed s then 0 else pz_until s)" using i(2) by (auto simp: px_wait_inv_def)
  ultimately have "pz_pc s = PxSleep b \<and> \<not> px_signalled (pz_thread s) \<longrightarrow> px_suspendedUntil (pz_thread s) \<noteq> 0 \<and> (b \<longrightarrow> \<not> pz_resumed s)" by auto
  moreover have "pz_pc s = PxReturn True \<longrightarrow> pz_resumed s" "pz_pc s = PxReturn False \<longrightarrow> pz_until s \<le> pz_now s" using i(2) by (auto simp: px_wait_inv_def)
  moreover have "caller_locked (pz_pc s) \<longleftrightarrow> px_mutex (pz_thread s) = Some 0" "resumer_locked (pz_resumer s n) \<longleftrightarrow> px_mutex (pz_thread s) = Some (Suc n)" for n
    using i(1) by (auto simp: px_lock_inv_def)
  ultimately show ?thesis by auto
qed

text \<open>A thread that was resumed while it slept.\<close>

definition px_example :: px_system where
  "px_example = \<lparr>pz_thread = \<lparr>px_suspendedUntil = 0, px_waitingFor = 0, px_mutex = Some 1, px_signalled = True\<rparr>, pz_pc = PxSleep True,
     pz_resumer = (\<lambda>_. RxIdle)(0 := RxUnlock), pz_until = 50, pz_resumed = True, pz_now = 7\<rparr>"

lemma px_example_reachable: "px_reachable px_example"
proof -
  define s1 where "s1 = px_start\<lparr>pz_pc := PxLock 50 3\<rparr>"
  define s2 where "s2 = s1\<lparr>pz_pc := PxSuspend 50 3, pz_thread := (pz_thread s1)\<lparr>px_mutex := Some 0\<rparr>\<rparr>"
  define s3 where "s3 = s2\<lparr>pz_pc := PxCheck True 7, pz_thread := px_suspend_set 50 3 (pz_thread s2), pz_until := 50, pz_resumed := False, pz_now := 7\<rparr>"
  define s4 where "s4 = s3\<lparr>pz_pc := PxSleep True, pz_thread := (pz_thread s3)\<lparr>px_mutex := None, px_signalled := False\<rparr>\<rparr>"
  define s5 where "s5 = s4\<lparr>pz_resumer := (pz_resumer s4)(0 := RxLock)\<rparr>"
  define s6 where "s6 = s5\<lparr>pz_resumer := (pz_resumer s5)(0 := RxBody), pz_thread := (pz_thread s5)\<lparr>px_mutex := Some (0 + 1)\<rparr>\<rparr>"
  note defs = s1_def s2_def s3_def s4_def s5_def s6_def px_start_def px_defs
  have "px_reachable px_start" by (rule reach.initially) simp
  moreover have "px_step px_start s1" unfolding s1_def by (rule px_step.suspend_call) (simp_all add: px_start_def)
  ultimately have "px_reachable s1" by (rule reach.stepwise)
  moreover have "px_step s1 s2" unfolding s2_def by (rule px_step.suspend_lock) (simp_all add: defs)
  ultimately have "px_reachable s2" by (rule reach.stepwise)
  moreover have "px_step s2 s3" unfolding s3_def by (rule px_step.suspend_set) (simp_all add: defs)
  ultimately have "px_reachable s3" by (rule reach.stepwise)
  moreover have "px_step s3 s4" unfolding s4_def by (rule px_step.check [of _ True 7]) (simp_all add: defs)
  ultimately have "px_reachable s4" by (rule reach.stepwise)
  moreover have "px_step s4 s5" unfolding s5_def by (rule px_step.resume_call) (simp_all add: defs)
  ultimately have "px_reachable s5" by (rule reach.stepwise)
  moreover have "px_step s5 s6" unfolding s6_def by (rule px_step.resume_lock) (simp_all add: defs)
  ultimately have "px_reachable s6" by (rule reach.stepwise)
  moreover have "px_step s6 (s6\<lparr>pz_resumer := (pz_resumer s6)(0 := RxUnlock), pz_thread := px_resume (pz_thread s6), pz_resumed := True\<rparr>)"
    by (rule px_step.resume_body) (simp add: defs)
  ultimately have "px_reachable (s6\<lparr>pz_resumer := (pz_resumer s6)(0 := RxUnlock), pz_thread := px_resume (pz_thread s6), pz_resumed := True\<rparr>)"
    by (rule reach.stepwise)
  then show ?thesis by (simp add: defs px_example_def)
qed

theorem posix_no_lost_resume_witness:
  "px_signalled (pz_thread px_example) \<and> \<not> (caller_locked (pz_pc px_example) \<and> resumer_locked (pz_resumer px_example 0)) \<and> resumer_locked (pz_resumer px_example 0)"
  using posix_no_lost_resume [OF px_example_reachable, of True 0 0] by (auto simp: px_example_def)

text \<open>A resume between the test after the unlock and the reset is lost: the thread was resumed, but the result is false.\<close>

lemma posix_late_resume_lost: "\<exists>s. px_reachable s \<and> pz_pc s = PxReturn False \<and> pz_resumed s"
proof -
  define s1 where "s1 = px_start\<lparr>pz_pc := PxLock 5 3\<rparr>"
  define s2 where "s2 = s1\<lparr>pz_pc := PxSuspend 5 3, pz_thread := (pz_thread s1)\<lparr>px_mutex := Some 0\<rparr>\<rparr>"
  define s3 where "s3 = s2\<lparr>pz_pc := PxCheck True 7, pz_thread := px_suspend_set 5 3 (pz_thread s2), pz_until := 5, pz_resumed := False, pz_now := 7\<rparr>"
  define s4 where "s4 = s3\<lparr>pz_pc := PxUnlock True, pz_thread := pz_thread s3\<rparr>"
  define s5 where "s5 = s4\<lparr>pz_pc := (if True then PxUnlocked else PxRun), pz_thread := (pz_thread s4)\<lparr>px_mutex := None\<rparr>\<rparr>"
  define s6 where "s6 = s5\<lparr>pz_pc := px_result (pz_thread s5)\<rparr>"
  define s7 where "s7 = s6\<lparr>pz_resumer := (pz_resumer s6)(0 := RxLock)\<rparr>"
  define s8 where "s8 = s7\<lparr>pz_resumer := (pz_resumer s7)(0 := RxBody), pz_thread := (pz_thread s7)\<lparr>px_mutex := Some (0 + 1)\<rparr>\<rparr>"
  define s9 where "s9 = s8\<lparr>pz_resumer := (pz_resumer s8)(0 := RxUnlock), pz_thread := px_resume (pz_thread s8), pz_resumed := True\<rparr>"
  define s10 where "s10 = s9\<lparr>pz_pc := PxReturn False, pz_thread := (pz_thread s9)\<lparr>px_suspendedUntil := 0\<rparr>\<rparr>"
  note defs = s1_def s2_def s3_def s4_def s5_def s6_def s7_def s8_def s9_def px_start_def px_defs
  have "px_step px_start s1" unfolding s1_def by (rule px_step.suspend_call) (simp_all add: px_start_def)
  moreover have "px_step s1 s2" unfolding s2_def by (rule px_step.suspend_lock) (simp_all add: defs)
  moreover have "px_step s2 s3" unfolding s3_def by (rule px_step.suspend_set) (simp_all add: defs)
  moreover have "px_step s3 s4" unfolding s4_def by (rule px_step.check [of _ True 7]) (simp_all add: defs)
  moreover have "px_step s4 s5" unfolding s5_def by (rule px_step.unlock) (simp add: defs)
  moreover have "px_step s5 s6" unfolding s6_def by (rule px_step.result) (simp add: defs)
  moreover have "px_step s6 s7" unfolding s7_def by (rule px_step.resume_call) (simp add: defs)
  moreover have "px_step s7 s8" unfolding s8_def by (rule px_step.resume_lock) (simp_all add: defs)
  moreover have "px_step s8 s9" unfolding s9_def by (rule px_step.resume_body) (simp add: defs)
  moreover have "px_step s9 s10" unfolding s10_def by (rule px_step.timed_out) (simp_all add: defs)
  moreover have "px_reachable px_start" by (rule reach.initially) simp
  ultimately have "px_reachable s10" by (meson reach.stepwise)
  then show ?thesis by (intro exI [of _ s10]) (simp add: s10_def s9_def)
qed

text \<open>
  C30. The semaphore of the POSIX port excludes: at most one thread is inside, it is the recorded owner, the counter is the number of its calls
  of \<open>enter\<close>, and a thread outside never takes itself for the owner, although it reads the owner without the mutex.
\<close>

theorem posix_semaphore_mutex:
  assumes "psem_reachable v"
  shows "(pv_pc v t = SemIn n \<and> pv_pc v u = SemIn k \<longrightarrow> t = u) \<and>
    (pv_pc v t = SemIn n \<longrightarrow> 0 < n \<and> ps_owner (pv_sem v) = Some t \<and> ps_ownerEnterCnt (pv_sem v) = int n) \<and>
    (pv_pc v t = SemOut \<longrightarrow> fst (psem_enter t 0 (pv_sem v)) = SemLock \<and> psem_leave t 0 SemOut (pv_sem v) = SemOut)"
proof -
  note i = psem_reachable_inv [OF assms]
  have "ps_owner (pv_sem v) \<noteq> Some t" if "pv_pc v t = SemOut"
    using owner_holds [OF i, of t] i that unfolding psem_inv_def by force
  then show ?thesis using psem_holder [OF i, of t] psem_holder(1) [OF i, of u] by (auto simp: psem_defs)
qed

definition psem_example :: psem_system where
  "psem_example = \<lparr>pv_sem = \<lparr>ps_owner = Some 4, ps_ownerEnterCnt = 1, ps_mutex = Some 4\<rparr>, pv_pc = (\<lambda>_. SemOut)(4 := SemIn 1)\<rparr>"

lemma psem_example_reachable: "psem_reachable psem_example"
proof -
  let ?v0 = "\<lparr>pv_sem = psem_new, pv_pc = \<lambda>_. SemOut\<rparr>"
  define v1 where "v1 = \<lparr>pv_sem = psem_new, pv_pc = (pv_pc ?v0)(4 := SemLock)\<rparr>"
  define v2 where "v2 = \<lparr>pv_sem = (pv_sem v1)\<lparr>ps_mutex := Some 4\<rparr>, pv_pc = (pv_pc v1)(4 := SemGot)\<rparr>"
  define v3 where "v3 = \<lparr>pv_sem = (pv_sem v2)\<lparr>ps_owner := Some 4\<rparr>, pv_pc = (pv_pc v2)(4 := SemOwned)\<rparr>"
  define v4 where "v4 = \<lparr>pv_sem = (pv_sem v3)\<lparr>ps_ownerEnterCnt := 1\<rparr>, pv_pc = (pv_pc v3)(4 := SemIn 1)\<rparr>"
  note defs = v1_def v2_def v3_def psem_new_def psem_defs may_call_def depth_of_def
  have "psem_step ?v0 v1" unfolding v1_def by (rule psem_step.enter) (simp_all add: defs)
  moreover have "psem_step v1 v2" unfolding v2_def by (rule psem_step.lock) (simp_all add: defs)
  moreover have "psem_step v2 v3" unfolding v3_def by (rule psem_step.locked) (simp_all add: defs)
  moreover have "psem_step v3 v4" unfolding v4_def by (rule psem_step.first) (simp_all add: defs)
  moreover have "psem_reachable ?v0" by (rule reach.initially) simp
  ultimately have "psem_reachable v4" by (meson reach.stepwise)
  then show ?thesis by (simp add: v4_def defs psem_example_def)
qed

theorem posix_semaphore_mutex_witness:
  "ps_owner (pv_sem psem_example) = Some 4 \<and> ps_ownerEnterCnt (pv_sem psem_example) = 1 \<and> psem_leave 7 0 SemOut (pv_sem psem_example) = SemOut"
  using posix_semaphore_mutex [OF psem_example_reachable, of 4 1 4 1] posix_semaphore_mutex [OF psem_example_reachable, of 7 1 7 1]
  by (auto simp: psem_example_def)

text \<open>
  No handler runs while interrupts are disabled: when a signal handler runs, every thread that called \<open>hwDisableInterrupts\<close> and not yet \<open>hwEnableInterrupts\<close> is still waiting
  inside of it; the counter is the number of these calls.
\<close>

lemma posix_interrupts_disabled:
  assumes "irq_reachable s"
  shows "(ir_handling s \<and> t \<in> set (ir_disabled s) \<longrightarrow> ir_pc s t = IqDisSignal) \<and>
    iq_interruptDisableCounter (ir_irq s) = int (length (ir_disabled s))"
proof -
  note i = irq_reachable_inv [OF assms, unfolded irq_inv_def]
  have "ir_pc s t = IqDisSignal" if "ir_handling s" "t \<in> set (ir_disabled s)"
  proof -
    have "waits_signal s" using i that by auto
    then obtain u where "ir_pc s u = IqDisSignal" by (auto simp: waits_signal_def split: option.splits)
    with i that(2) show ?thesis by auto
  qed
  then show ?thesis using i by blast
qed

lemma irq_next: "irq_reachable s \<Longrightarrow> irq_step s s1 \<Longrightarrow> s1 = s' \<Longrightarrow> irq_reachable s'"
  by (auto intro: reach.stepwise)

text \<open>When two threads disable the interrupts one after the other and enable them in the same order, the second unlocks the mutex that the first locked, which
  is undefined for a mutex of POSIX.\<close>

lemma posix_foreign_unlock:
  "\<exists>s. irq_reachable s \<and> ir_pc s 1 = IqEnCount \<and> iq_interruptDisableCounter (ir_irq s) = 1 \<and> iq_signalMutex (ir_irq s) = Some (0 + 1)"
proof -
  define st where "st c cm sm pcs ds = \<lparr>ir_irq = \<lparr>iq_interruptDisableCounter = c, iq_counterMutex = cm, iq_signalMutex = sm\<rparr>,
     ir_pc = (case pcs of (a, b) \<Rightarrow> (\<lambda>_. IqRun)(0 := a, 1 := b)), ir_handling = False, ir_disabled = ds\<rparr>" for c cm sm pcs ds
  note f = st_def fun_upd_twist fun_eq_iff irq_disable_count_def irq_enable_count_def Let_def
  have "irq_reachable (st 0 None None (IqRun, IqRun) [])" by (rule reach.initially) (simp add: irq_start_def f)
  then have "irq_reachable (st 0 None None (IqDisLock, IqRun) [])"
    by (rule irq_next [OF _ irq_step.disable [of _ 0]]; simp add: f)
  then have "irq_reachable (st 0 (Some 0) None (IqDisCount, IqRun) [])"
    by (rule irq_next [OF _ irq_step.disable_lock [of _ 0]]; simp add: f)
  then have "irq_reachable (st 1 (Some 0) None (IqDisSignal, IqRun) [0])"
    by (rule irq_next [OF _ irq_step.disable_count [of _ 0]]; simp add: f)
  then have "irq_reachable (st 1 (Some 0) (Some 1) (IqDisUnlock, IqRun) [0])"
    by (rule irq_next [OF _ irq_step.disable_signal [of _ 0]]; simp add: f)
  then have "irq_reachable (st 1 None (Some 1) (IqRun, IqRun) [0])"
    by (rule irq_next [OF _ irq_step.disable_unlock [of _ 0]]; simp add: f)
  then have "irq_reachable (st 1 None (Some 1) (IqRun, IqDisLock) [0])"
    by (rule irq_next [OF _ irq_step.disable [of _ 1]]; simp add: f)
  then have "irq_reachable (st 1 (Some 1) (Some 1) (IqRun, IqDisCount) [0])"
    by (rule irq_next [OF _ irq_step.disable_lock [of _ 1]]; simp add: f)
  then have "irq_reachable (st 2 (Some 1) (Some 1) (IqRun, IqDisUnlock) [1, 0])"
    by (rule irq_next [OF _ irq_step.disable_count [of _ 1]]; simp add: f)
  then have "irq_reachable (st 2 None (Some 1) (IqRun, IqRun) [1, 0])"
    by (rule irq_next [OF _ irq_step.disable_unlock [of _ 1]]; simp add: f)
  then have "irq_reachable (st 2 None (Some 1) (IqEnLock, IqRun) [1, 0])"
    by (rule irq_next [OF _ irq_step.enable [of _ 0]]; simp add: f)
  then have "irq_reachable (st 2 (Some 0) (Some 1) (IqEnCount, IqRun) [1, 0])"
    by (rule irq_next [OF _ irq_step.enable_lock [of _ 0]]; simp add: f)
  then have "irq_reachable (st 1 (Some 0) (Some 1) (IqEnUnlock, IqRun) [1])"
    by (rule irq_next [OF _ irq_step.enable_count [of _ 0]]; simp add: f)
  then have "irq_reachable (st 1 None (Some 1) (IqRun, IqRun) [1])"
    by (rule irq_next [OF _ irq_step.enable_unlock [of _ 0]]; simp add: f)
  then have "irq_reachable (st 1 None (Some 1) (IqRun, IqEnLock) [1])"
    by (rule irq_next [OF _ irq_step.enable [of _ 1]]; simp add: f)
  then have "irq_reachable (st 1 (Some 1) (Some 1) (IqRun, IqEnCount) [1])"
    by (rule irq_next [OF _ irq_step.enable_lock [of _ 1]]; simp add: f)
  then show ?thesis by (intro exI) (erule conjI, simp add: f)
qed

end
