(* ===== verification/Result_Code.thy ===== *)
theory Result_Code
  imports Rodos_Prelude
begin

text \<open>
  \<open>src/support/support-libs/rodos-result.h\<close> and the codes of \<open>src/api/rodos-errorcodes.h\<close> that the modelled code
  uses: a result carries an error code beside its value, whether the call succeeded or not. The enumeration has the
  underlying type \<open>uint32_t\<close>, and applications cast further values to it, so a code is a word of 32 bits. The value
  that a constructor leaves to the default constructor of its type is an argument.
\<close>

type_synonym ErrorCode = "32 word"

definition ErrorCode_OK :: ErrorCode where
  "ErrorCode_OK = 0"

definition NUMERICAL :: ErrorCode where
  "NUMERICAL = 600"

definition VECTOR_LEN :: ErrorCode where
  "VECTOR_LEN = 601"

definition COLINEAR_VECTORS :: ErrorCode where
  "COLINEAR_VECTORS = 604"

record 'a Result =
  res_err :: ErrorCode
  res_val :: 'a

definition Result_of_value :: "'a \<Rightarrow> 'a Result" where
  "Result_of_value v = \<lparr>res_err = ErrorCode_OK, res_val = v\<rparr>"

definition Result_of_error :: "'a \<Rightarrow> ErrorCode \<Rightarrow> 'a Result" where
  "Result_of_error def_val e = \<lparr>res_err = e, res_val = def_val\<rparr>"

definition Result_of_both :: "ErrorCode \<Rightarrow> 'a \<Rightarrow> 'a Result" where
  "Result_of_both e v = \<lparr>res_err = e, res_val = v\<rparr>"

definition isOk :: "'a Result \<Rightarrow> bool" where
  "isOk r \<longleftrightarrow> res_err r = ErrorCode_OK"

definition getErr :: "'a Result \<Rightarrow> int" where
  "getErr r = sint (res_err r)"

definition setErr :: "'a Result \<Rightarrow> int \<Rightarrow> 'a Result" where
  "setErr r iErr = r\<lparr>res_err := word_of_int iErr\<rparr>"

text \<open>The conversion to the type of the value, with a violated assertion as \<open>None\<close>.\<close>

definition Result_value :: "'a Result \<Rightarrow> 'a option" where
  "Result_value r = (if isOk r then Some (res_val r) else None)"

lemma getErr_setErr:
  assumes "- (2 ^ 31) \<le> e" "e < 2 ^ 31"
  shows "getErr (setErr r e) = e" "setErr r (getErr r) = r"
  using assms by (simp_all add: getErr_def setErr_def signed_of_int signed_take_bit_int_eq_self)

lemma isOk_iff: "isOk r \<longleftrightarrow> getErr r = 0"
  by (simp add: isOk_def getErr_def ErrorCode_OK_def signed_eq_0_iff)

lemma Result_value_error:
  assumes "e \<noteq> ErrorCode_OK"
  shows "Result_value (Result_of_error d e) = None" "Result_value (Result_of_both e v) = None" "Result_value (Result_of_value v) = Some v"
  using assms by (simp_all add: Result_value_def isOk_def Result_of_error_def Result_of_both_def Result_of_value_def)

end
