(* ===== verification/Matlib_Matrix.thy ===== *)
theory Matlib_Matrix
  imports Rodos_Prelude Complex_Main
begin

text \<open>
  The class template \<open>Matrix_<ROW, COL, TYPE>\<close> of \<open>src/support/support-libs/matlib/api/generic.h\<close> with the
  specialisations of \<open>matlib.cpp\<close>. The member \<open>r[ROW][COL]\<close> is a function of two indices that is 0 outside
  of the array, the template arguments \<open>ROW\<close> and \<open>COL\<close> are arguments of the operations, and \<open>TYPE\<close> is any
  field: the theorems are about the template over exact numbers, not about the rounding of \<open>float\<close> and
  \<open>double\<close>. The reference for \<open>determinant\<close> is the expansion along the first row; that \<open>invert\<close> gives the
  inverse of a matrix of any size follows from the expansions along the other rows and columns.
\<close>

section \<open>The code\<close>

type_synonym 'a mat = "nat \<Rightarrow> nat \<Rightarrow> 'a"

definition EPSILON :: real where
  "EPSILON = 1 / 10 ^ 7"

definition math_sgn :: "real \<Rightarrow> real" where
  "math_sgn val = of_bool (0 < val) - of_bool (val < 0)"

definition isAlmost0 :: "real \<Rightarrow> bool" where
  "isAlmost0 a \<longleftrightarrow> a * math_sgn a \<le> EPSILON"

definition Matrix_new :: "'a::field mat" where
  "Matrix_new = (\<lambda>i j. 0)"

text \<open>The two nested loops \<open>for i < ROW, for j < COL: m.r[i][j] = f(i, j)\<close>.\<close>

definition for_each :: "nat \<Rightarrow> nat \<Rightarrow> 'a mat \<Rightarrow> 'a mat \<Rightarrow> 'a mat" where
  "for_each ROW COL f m = fold (\<lambda>i. fold (\<lambda>j m. m(i := (m i)(j := f i j))) [0..<COL]) [0..<ROW] m"

definition Matrix_of_array :: "nat \<Rightarrow> nat \<Rightarrow> 'a::field list \<Rightarrow> 'a mat" where
  "Matrix_of_array ROW COL arr = fst (fold (\<lambda>i. fold (\<lambda>j (m, k). (m(i := (m i)(j := arr ! k)), k + 1)) [0..<COL])
     [0..<ROW] (Matrix_new, 0))"

definition Matrix_eye :: "nat \<Rightarrow> nat \<Rightarrow> 'a \<Rightarrow> 'a::field mat" where
  "Matrix_eye ROW COL val =
     (let diag = if ROW < COL then ROW else COL
      in fold (\<lambda>i ret. ret(i := (ret i)(i := 1 * val))) [0..<diag] Matrix_new)"

definition Matrix_of_diag :: "nat \<Rightarrow> nat \<Rightarrow> 'a list \<Rightarrow> 'a::field mat" where
  "Matrix_of_diag ROW COL array =
     (let diag = if ROW < COL then ROW else COL
      in fold (\<lambda>i ret. ret(i := (ret i)(i := array ! i))) [0..<diag] Matrix_new)"

definition Matrix_diag :: "nat \<Rightarrow> 'a::field mat \<Rightarrow> 'a mat" where
  "Matrix_diag ROW r = fold (\<lambda>i dia. dia(i := (dia i)(0 := r i i))) [0..<ROW] Matrix_new"

definition Matrix_trace :: "nat \<Rightarrow> 'a::field mat \<Rightarrow> 'a" where
  "Matrix_trace ROW r = foldl (\<lambda>trace i. trace + r i i) 0 [0..<ROW]"

text \<open>The inner loops of \<open>determinant\<close>: the copy of the matrix without row 0 and column \<open>j1\<close>.\<close>

definition fill_rek :: "nat \<Rightarrow> 'a::field mat \<Rightarrow> nat \<Rightarrow> 'a mat \<Rightarrow> 'a mat" where
  "fill_rek ROW r j1 rek =
     fold (\<lambda>i rek. fst (fold (\<lambda>j (rek, j2). if j = j1 then (rek, j2)
         else (rek(i - 1 := (rek (i - 1))(j2 := r i j)), j2 + 1)) [0..<ROW] (rek, 0))) [1..<ROW] rek"

definition determinant2 :: "'a::field mat \<Rightarrow> 'a" where
  "determinant2 r = r 0 0 * r 1 1 - r 1 0 * r 0 1"

definition determinant3 :: "'a::field mat \<Rightarrow> 'a" where
  "determinant3 r =
     (let a = r 0 0; b = r 0 1; c = r 0 2; d = r 1 0; e = r 1 1; f = r 1 2; g = r 2 0; h = r 2 1; i = r 2 2
      in a * e * i + b * f * g + c * d * h - g * e * c - h * f * a - i * d * b)"

function determinant :: "nat \<Rightarrow> 'a::field mat \<Rightarrow> 'a" where
  "determinant ROW r =
     (if ROW = 0 then 0
      else if ROW = 1 then r 0 0
      else if ROW = 2 then determinant2 r
      else if ROW = 3 then determinant3 r
      else fst (fold (\<lambda>j1 (det, rek).
        (let rek = fill_rek ROW r j1 rek
         in (det + (- 1) ^ (j1 + 2) * r 0 j1 * determinant (ROW - 1) rek, rek))) [0..<ROW] (0, Matrix_new)))"
  by pat_completeness auto
termination by (relation "measure fst") auto

declare determinant.simps [simp del]

definition Matrix_getSub :: "nat \<Rightarrow> nat \<Rightarrow> nat \<Rightarrow> nat \<Rightarrow> 'a::field mat \<Rightarrow> nat \<Rightarrow> nat \<Rightarrow> nat \<Rightarrow> nat \<Rightarrow> 'a mat option" where
  "Matrix_getSub ROW COL ROW2 COL2 r start_row end_row start_col end_col =
     fold (\<lambda>i. fold (\<lambda>j res. case res of None \<Rightarrow> None
        | Some m \<Rightarrow> if i < ROW \<and> j < COL \<and> i - start_row < ROW2 \<and> j - start_col < COL2
            then Some (m(i - start_row := (m (i - start_row))(j - start_col := r i j))) else None)
        [start_col..<end_col + 1]) [start_row..<end_row + 1] (Some Matrix_new)"

definition Matrix_getColumn :: "nat \<Rightarrow> nat \<Rightarrow> 'a::field mat \<Rightarrow> nat \<Rightarrow> 'a mat" where
  "Matrix_getColumn ROW COL r j =
     (if j \<ge> COL then Matrix_new else Matrix_of_array ROW 1 (map (\<lambda>i. r i j) [0..<ROW]))"

definition Matrix_getRow :: "nat \<Rightarrow> nat \<Rightarrow> 'a::field mat \<Rightarrow> nat \<Rightarrow> 'a mat" where
  "Matrix_getRow ROW COL r i =
     (if i \<ge> ROW then Matrix_new else Matrix_of_array 1 COL (map (\<lambda>j. r i j) [0..<COL]))"

definition Matrix_setAt :: "nat \<Rightarrow> nat \<Rightarrow> nat \<Rightarrow> nat \<Rightarrow> 'a mat \<Rightarrow> nat \<Rightarrow> nat \<Rightarrow> 'a mat \<Rightarrow> 'a mat" where
  "Matrix_setAt ROW COL ROW2 COL2 r row col sub =
     (if ROW2 + row > ROW then r
      else if COL2 + col > COL then r
      else fold (\<lambda>i. fold (\<lambda>j r. r(i := (r i)(j := sub (i - row) (j - col)))) [col..<COL2 + col]) [row..<ROW2 + row] r)"

definition Matrix_setColumn :: "nat \<Rightarrow> nat \<Rightarrow> 'a mat \<Rightarrow> nat \<Rightarrow> 'a mat \<Rightarrow> 'a mat" where
  "Matrix_setColumn ROW COL r j column =
     (if j \<ge> COL then r else fold (\<lambda>i r. r(i := (r i)(j := column i 0))) [0..<ROW] r)"

definition Matrix_setRow :: "nat \<Rightarrow> nat \<Rightarrow> 'a mat \<Rightarrow> nat \<Rightarrow> 'a mat \<Rightarrow> 'a mat" where
  "Matrix_setRow ROW COL r i row =
     (if i \<ge> ROW then r else fold (\<lambda>j r. r(i := (r i)(j := row 0 j))) [0..<COL] r)"

definition Matrix_equals :: "nat \<Rightarrow> nat \<Rightarrow> real mat \<Rightarrow> real mat \<Rightarrow> bool" where
  "Matrix_equals ROW COL r other \<longleftrightarrow>
     list_all (\<lambda>i. list_all (\<lambda>j. isAlmost0 (r i j - other i j)) [0..<COL]) [0..<ROW]"

text \<open>The inner loops of \<open>cofac\<close>: the copy without row \<open>i\<close> and column \<open>j\<close>.\<close>

definition fill_adjoint :: "nat \<Rightarrow> nat \<Rightarrow> 'a::field mat \<Rightarrow> nat \<Rightarrow> nat \<Rightarrow> 'a mat \<Rightarrow> 'a mat" where
  "fill_adjoint ROW COL r i j c =
     fst (fold (\<lambda>ii (c, i1). if ii = i then (c, i1)
       else (fst (fold (\<lambda>jj (c, j1). if jj = j then (c, j1)
          else (c(i1 := (c i1)(j1 := r ii jj)), j1 + 1)) [0..<COL] (c, 0)), i1 + 1)) [0..<ROW] (c, 0))"

definition cofac :: "nat \<Rightarrow> 'a::field mat \<Rightarrow> 'a mat" where
  "cofac ROW r = fst (fold (\<lambda>i. fold (\<lambda>j (cof, c).
     (let c = fill_adjoint ROW ROW r i j c; det = determinant (ROW - 1) c
      in (cof(i := (cof i)(j := (- 1) ^ (i + j + 2) * det)), c))) [0..<ROW]) [0..<ROW] (Matrix_new, Matrix_new))"

definition Matrix_transpose :: "nat \<Rightarrow> nat \<Rightarrow> 'a::field mat \<Rightarrow> 'a mat" where
  "Matrix_transpose ROW COL r = fold (\<lambda>i. fold (\<lambda>j trans. trans(j := (trans j)(i := r i j))) [0..<COL]) [0..<ROW] Matrix_new"

definition adjoint :: "nat \<Rightarrow> 'a::field mat \<Rightarrow> 'a mat" where
  "adjoint ROW r = Matrix_transpose ROW ROW (cofac ROW r)"

definition Matrix_scale :: "nat \<Rightarrow> nat \<Rightarrow> 'a::field mat \<Rightarrow> 'a \<Rightarrow> 'a mat" where
  "Matrix_scale ROW COL r factor = for_each ROW COL (\<lambda>i j. r i j * factor) Matrix_new"

definition invert1 :: "'a::field mat \<Rightarrow> 'a mat" where
  "invert1 r = Matrix_of_array 1 1 [1 / r 0 0]"

definition invert2 :: "'a::field mat \<Rightarrow> 'a mat" where
  "invert2 r = (let det = determinant 2 r
     in Matrix_of_array 2 2 [r 1 1 / det, - r 0 1 / det, - r 1 0 / det, r 0 0 / det])"

definition invert3 :: "'a::field mat \<Rightarrow> 'a mat" where
  "invert3 r =
     (let a = r 0 0; b = r 0 1; c = r 0 2; d = r 1 0; e = r 1 1; f = r 1 2; g = r 2 0; h = r 2 1; i = r 2 2;
          det = determinant 3 r
      in Matrix_of_array 3 3 [(e * i - f * h) / det, (c * h - b * i) / det, (b * f - c * e) / det,
           (f * g - d * i) / det, (a * i - c * g) / det, (c * d - a * f) / det,
           (d * h - e * g) / det, (b * g - a * h) / det, (a * e - b * d) / det])"

definition invert :: "nat \<Rightarrow> 'a::field mat \<Rightarrow> 'a mat" where
  "invert ROW r =
     (if ROW = 1 then invert1 r
      else if ROW = 2 then invert2 r
      else if ROW = 3 then invert3 r
      else (let det = determinant ROW r
            in if det = 0 then Matrix_new else Matrix_scale ROW ROW (adjoint ROW r) (1 / det)))"

definition mAdd :: "nat \<Rightarrow> nat \<Rightarrow> 'a::field mat \<Rightarrow> 'a mat \<Rightarrow> 'a mat" where
  "mAdd ROW COL r other = for_each ROW COL (\<lambda>i j. r i j + other i j) Matrix_new"

definition mSub :: "nat \<Rightarrow> nat \<Rightarrow> 'a::field mat \<Rightarrow> 'a mat \<Rightarrow> 'a mat" where
  "mSub ROW COL r other = for_each ROW COL (\<lambda>i j. r i j - other i j) Matrix_new"

definition mMult :: "nat \<Rightarrow> nat \<Rightarrow> nat \<Rightarrow> 'a::field mat \<Rightarrow> 'a mat \<Rightarrow> 'a mat" where
  "mMult ROW COL COL2 r other = fold (\<lambda>i. fold (\<lambda>j. fold (\<lambda>k prod.
     prod(i := (prod i)(j := prod i j + r i k * other k j))) [0..<COL]) [0..<COL2]) [0..<ROW] Matrix_new"

definition mDivide :: "nat \<Rightarrow> 'a::field mat \<Rightarrow> 'a mat \<Rightarrow> 'a mat" where
  "mDivide ROW r other = mMult ROW ROW ROW r (invert ROW other)"

definition Matrix_isOrthogonal :: "nat \<Rightarrow> real mat \<Rightarrow> bool" where
  "Matrix_isOrthogonal ROW r \<longleftrightarrow>
     Matrix_equals ROW ROW (mMult ROW ROW ROW r (Matrix_transpose ROW ROW r)) (Matrix_eye ROW ROW 1)"

section \<open>What the loops compute\<close>

named_theorems matrix_at \<open>the element of a computed matrix at an index\<close>

lemma fold_row:
  "fold (\<lambda>j m. m(i := (m i)(j := f j))) [0..<n] = (\<lambda>m. m(i := (\<lambda>j. if j < n then f j else m i j)))"
  by (induction n) (auto simp: fun_eq_iff)

lemma for_each_at [matrix_at]:
  "for_each ROW COL f m i j = (if i < ROW \<and> j < COL then f i j else m i j)"
  unfolding for_each_def fold_row by (induction ROW) auto

lemma fold_diag:
  "fold (\<lambda>i m. m(i := (m i)(g i := f i))) [0..<n] m i j = (if i < n \<and> j = g i then f i else m i j)"
  by (induction n) auto

lemma Matrix_new_at [matrix_at]: "Matrix_new i j = 0"
  by (simp add: Matrix_new_def)

lemma Matrix_eye_at [matrix_at]:
  "Matrix_eye ROW COL val i j = (if i = j \<and> i < ROW \<and> i < COL then val else 0)"
  by (auto simp: Matrix_eye_def fold_diag [where g = "\<lambda>i. i"] matrix_at)

lemma Matrix_of_diag_at [matrix_at]:
  "Matrix_of_diag ROW COL array i j = (if i = j \<and> i < ROW \<and> i < COL then array ! i else 0)"
  by (auto simp: Matrix_of_diag_def fold_diag [where g = "\<lambda>i. i"] matrix_at)

lemma Matrix_diag_at [matrix_at]: "Matrix_diag ROW r i j = (if i < ROW \<and> j = 0 then r i i else 0)"
  by (simp add: Matrix_diag_def fold_diag [where g = "\<lambda>i. 0"] matrix_at)

lemma Matrix_trace_sum: "Matrix_trace ROW r = (\<Sum>i<ROW. r i i)"
  unfolding Matrix_trace_def by (induction ROW) auto

lemma fold_array_row:
  "fold (\<lambda>j (m, k). (m(i := (m i)(j := f k)), k + 1)) [0..<n] =
   (\<lambda>(m, k). (m(i := (\<lambda>j. if j < n then f (k + j) else m i j)), k + n))"
  by (induction n) (auto simp: fun_eq_iff)

lemma Matrix_of_array_at [matrix_at]:
  "Matrix_of_array ROW COL arr i j = (if i < ROW \<and> j < COL then arr ! (i * COL + j) else 0)"
proof -
  have "fold (\<lambda>i. fold (\<lambda>j (m, k). (m(i := (m i)(j := arr ! k)), k + 1)) [0..<COL]) [0..<n] (Matrix_new, 0) =
      (\<lambda>i j. if i < n \<and> j < COL then arr ! (i * COL + j) else 0, n * COL)" for n
    unfolding fold_array_row by (induction n) (auto simp: fun_eq_iff Matrix_new_def less_Suc_eq)
  then show ?thesis
    by (simp add: Matrix_of_array_def)
qed

lemma Matrix_transpose_at [matrix_at]:
  "Matrix_transpose ROW COL r i j = (if j < ROW \<and> i < COL then r j i else 0)"
proof -
  have row: "fold (\<lambda>j m. m(j := (m j)(p := f j))) [0..<n] = (\<lambda>m i j. if i < n \<and> j = p then f i else m i j)"
    for n and f :: "nat \<Rightarrow> 'a" and p :: nat
    by (induction n) (auto simp: fun_eq_iff)
  have "fold (\<lambda>i. fold (\<lambda>j trans. trans(j := (trans j)(i := r i j))) [0..<COL]) [0..<n] Matrix_new =
      (\<lambda>i j. if j < n \<and> i < COL then r j i else 0)" for n
    unfolding row by (induction n) (auto simp: fun_eq_iff Matrix_new_def less_Suc_eq)
  then show ?thesis
    by (simp add: Matrix_transpose_def)
qed

lemma Matrix_scale_at [matrix_at]:
  "Matrix_scale ROW COL r factor i j = (if i < ROW \<and> j < COL then r i j * factor else 0)"
  by (simp add: Matrix_scale_def matrix_at)

lemma mAdd_at [matrix_at]: "mAdd ROW COL r other i j = (if i < ROW \<and> j < COL then r i j + other i j else 0)"
  by (simp add: mAdd_def matrix_at)

lemma mSub_at [matrix_at]: "mSub ROW COL r other i j = (if i < ROW \<and> j < COL then r i j - other i j else 0)"
  by (simp add: mSub_def matrix_at)

lemma mMult_at [matrix_at]:
  "mMult ROW COL COL2 r other i j = (if i < ROW \<and> j < COL2 then \<Sum>k<COL. r i k * other k j else 0)"
proof -
  have k: "fold (\<lambda>k m. m(i := (m i)(j := m i j + h k))) [0..<n] = (\<lambda>m. m(i := (m i)(j := m i j + (\<Sum>k<n. h k))))"
    for i j :: nat and n and h :: "nat \<Rightarrow> 'a"
    by (induction n) (auto simp: fun_eq_iff add.assoc)
  have j: "fold (\<lambda>j m. m(i := (m i)(j := m i j + s j))) [0..<n] = (\<lambda>m. m(i := (\<lambda>j. if j < n then m i j + s j else m i j)))"
    for i :: nat and n and s :: "nat \<Rightarrow> 'a"
    by (induction n) (auto simp: fun_eq_iff)
  have "fold (\<lambda>i m. m(i := (\<lambda>j. if j < COL2 then m i j + s i j else m i j))) [0..<n] Matrix_new i j =
      (if i < n \<and> j < COL2 then s i j else 0)" for n and s :: "'a mat"
    by (induction n) (auto simp: Matrix_new_def less_Suc_eq)
  then show ?thesis
    unfolding mMult_def k j by simp
qed

lemma Matrix_setColumn_at [matrix_at]:
  "Matrix_setColumn ROW COL r j column p q = (if j < COL \<and> p < ROW \<and> q = j then column p 0 else r p q)"
  by (auto simp: Matrix_setColumn_def fold_diag [where g = "\<lambda>i. j"])

lemma Matrix_setRow_at [matrix_at]:
  "Matrix_setRow ROW COL r i row p q = (if i < ROW \<and> p = i \<and> q < COL then row 0 q else r p q)"
  by (auto simp: Matrix_setRow_def fold_row)

lemma Matrix_getColumn_at [matrix_at]:
  "Matrix_getColumn ROW COL r j p q = (if j < COL \<and> p < ROW \<and> q = 0 then r p j else 0)"
  by (auto simp: Matrix_getColumn_def matrix_at)

lemma Matrix_getRow_at [matrix_at]:
  "Matrix_getRow ROW COL r i p q = (if i < ROW \<and> p = 0 \<and> q < COL then r i q else 0)"
  by (auto simp: Matrix_getRow_def matrix_at)

subsection \<open>Minors\<close>

text \<open>The index that follows if column (or row) \<open>q\<close> is left out, and the number of indices below \<open>n\<close>.\<close>

definition skip :: "nat \<Rightarrow> nat \<Rightarrow> nat" where
  "skip q c = (if c < q then c else Suc c)"

definition skip_count :: "nat \<Rightarrow> nat \<Rightarrow> nat" where
  "skip_count q n = (if q < n then n - 1 else n)"

definition minor :: "'a mat \<Rightarrow> nat \<Rightarrow> nat \<Rightarrow> 'a mat" where
  "minor A p q = (\<lambda>i j. A (skip p i) (skip q j))"

lemma skip_count_Suc:
  "skip_count q (Suc n) = (if q = n then skip_count q n else Suc (skip_count q n))"
  by (auto simp: skip_count_def)

lemma skip_count_le: "skip q (skip_count q n) = (if q = n then Suc n else n)" if "q = n \<or> q \<noteq> n"
  by (auto simp: skip_def skip_count_def)

lemma fold_skip_row:
  "fold (\<lambda>j (m, c). if j = q then (m, c) else (m(p := (m p)(c := f j)), c + 1)) [0..<n] (m, 0) =
   (m(p := (\<lambda>c. if c < skip_count q n then f (skip q c) else m p c)), skip_count q n)"
proof (induction n)
  case (Suc n)
  then show ?case
    by (auto simp: skip_count_Suc skip_count_le fun_eq_iff less_Suc_eq)
qed (simp add: skip_count_def)

lemma fill_rek_minor:
  assumes "j1 < ROW"
  shows "fill_rek ROW r j1 rek i j = (if i < ROW - 1 \<and> j < ROW - 1 then minor r 0 j1 i j else rek i j)"
proof -
  have "fold (\<lambda>i rek. rek(i - 1 := (\<lambda>c. if c < skip_count j1 ROW then r i (skip j1 c) else rek (i - 1) c)) ) [1..<Suc n] rek i j =
      (if i < n \<and> j < skip_count j1 ROW then r (Suc i) (skip j1 j) else rek i j)" for n
    by (induction n) (auto simp: less_Suc_eq)
  from this [of "ROW - 1"] show ?thesis
    using assms by (simp add: fill_rek_def fold_skip_row [where f = "r _"] minor_def skip_def [of 0] skip_count_def)
qed

lemma fill_adjoint_minor:
  assumes "i < ROW" "j < COL"
  shows "fill_adjoint ROW COL r i j c p q = (if p < ROW - 1 \<and> q < COL - 1 then minor r i j p q else c p q)"
proof -
  let ?row = "\<lambda>ii c i1. c(i1 := (\<lambda>q. if q < skip_count j COL then r ii (skip j q) else c i1 q))"
  have "fold (\<lambda>ii (c, i1). if ii = i then (c, i1) else (?row ii c i1, i1 + 1)) [0..<n] (c, 0) =
      (\<lambda>p q. if p < skip_count i n \<and> q < skip_count j COL then r (skip i p) (skip j q) else c p q, skip_count i n)" for n
    by (induction n) (auto simp: skip_count_Suc skip_count_le fun_eq_iff less_Suc_eq, auto simp: skip_count_def)
  from this [of ROW] show ?thesis
    using assms unfolding fill_adjoint_def fold_skip_row fst_conv by (simp add: minor_def skip_count_def)
qed

subsection \<open>Products\<close>

lemma mMult_assoc:
  "mMult n k m (mMult n l k A B) C = mMult n l m A (mMult l k m B C)"
proof (intro ext)
  fix i j
  have "(\<Sum>q<k. (\<Sum>p<l. A i p * B p q) * C q j) = (\<Sum>p<l. A i p * (\<Sum>q<k. B p q * C q j))"
    by (simp add: sum_distrib_left sum_distrib_right mult.assoc) (rule sum.swap)
  then show "mMult n k m (mMult n l k A B) C i j = mMult n l m A (mMult l k m B C) i j"
    by (simp add: matrix_at)
qed

lemma transpose_mMult:
  "Matrix_transpose n m (mMult n k m A B) = mMult m k n (Matrix_transpose k m B) (Matrix_transpose n k A)"
  by (auto simp: fun_eq_iff matrix_at mult.commute)

lemma mMult_eye:
  assumes "\<And>i j. \<not> (i < n \<and> j < n) \<Longrightarrow> M i j = 0"
  shows "mMult n n n (Matrix_eye n n 1) M = M" "mMult n n n M (Matrix_eye n n 1) = M"
proof -
  have "(\<Sum>k<n. Matrix_eye n n 1 i k * M k j) = M i j" if "i < n" for i j
    using that by (simp add: matrix_at if_distrib [of "\<lambda>x. x * _"] cong: if_cong)
  then show "mMult n n n (Matrix_eye n n 1) M = M"
    using assms by (auto simp: fun_eq_iff mMult_at)
  have "(\<Sum>k<n. M i k * Matrix_eye n n 1 k j) = M i j" if "j < n" for i j
    using that by (simp add: matrix_at if_distrib cong: if_cong)
  then show "mMult n n n M (Matrix_eye n n 1) = M"
    using assms by (auto simp: fun_eq_iff mMult_at)
qed

section \<open>Determinants\<close>

text \<open>The reference: expansion along the first row.\<close>

fun det :: "nat \<Rightarrow> 'a::field mat \<Rightarrow> 'a" where
  "det 0 A = 1"
| "det (Suc n) A = (\<Sum>j<Suc n. (- 1) ^ j * A 0 j * det n (minor A 0 j))"

lemma skip_less: "c < n \<Longrightarrow> skip q c < Suc n"
  by (simp add: skip_def)

lemma skip_neq: "skip q c \<noteq> q"
  by (simp add: skip_def)

lemma det_cong:
  assumes "\<And>i j. i < n \<Longrightarrow> j < n \<Longrightarrow> A i j = B i j"
  shows "det n A = det n B"
  using assms
proof (induction n arbitrary: A B)
  case (Suc n)
  have "det n (minor A 0 j) = det n (minor B 0 j)" if "j < Suc n" for j
    by (rule Suc.IH) (simp add: minor_def Suc.prems skip_less)
  with Suc.prems show ?case
    by (auto intro!: sum.cong)
qed simp

lemma det_2: "det 2 r = determinant2 r"
  by (simp add: numeral_2_eq_2 determinant2_def minor_def skip_def algebra_simps)

lemma det_3: "det 3 r = determinant3 r"
  by (simp add: numeral_3_eq_3 determinant3_def minor_def skip_def Let_def numeral_2_eq_2 algebra_simps)

text \<open>The template and its specialisations compute the reference.\<close>

lemma determinant_det:
  assumes "0 < ROW"
  shows "determinant ROW r = det ROW r"
  using assms
proof (induction ROW arbitrary: r rule: less_induct)
  case (less ROW)
  show ?case
  proof (cases "ROW < 4")
    case True
    with less.prems have "ROW = 1 \<or> ROW = 2 \<or> ROW = 3" by auto
    then show ?thesis
      by (auto simp: determinant.simps [of ROW] det_2 det_3)
  next
    case False
    let ?step = "\<lambda>j1 (d, rek). (let rek = fill_rek ROW r j1 rek
         in (d + (- 1) ^ (j1 + 2) * r 0 j1 * determinant (ROW - 1) rek, rek))"
    have minor: "determinant (ROW - 1) (fill_rek ROW r j1 rek) = det (ROW - 1) (minor r 0 j1)" if "j1 < ROW" for j1 rek
    proof -
      have "determinant (ROW - 1) (fill_rek ROW r j1 rek) = det (ROW - 1) (fill_rek ROW r j1 rek)"
        by (rule less.IH) (use False in auto)
      also have "\<dots> = det (ROW - 1) (minor r 0 j1)"
        by (rule det_cong) (use that in \<open>simp add: fill_rek_minor\<close>)
      finally show ?thesis .
    qed
    have "fst (fold ?step [0..<m] (0, Matrix_new)) = (\<Sum>j<m. (- 1) ^ j * r 0 j * det (ROW - 1) (minor r 0 j))"
      if "m \<le> ROW" for m
      using that by (induction m) (simp_all add: Let_def split_beta minor [unfolded One_nat_def])
    from this [of ROW] have "determinant ROW r = (\<Sum>j<ROW. (- 1) ^ j * r 0 j * det (ROW - 1) (minor r 0 j))"
      using False by (simp add: determinant.simps [of ROW])
    then show ?thesis
      using less.prems by (cases ROW) simp_all
  qed
qed

subsection \<open>Expansion along any row\<close>

definition row_expansion :: "nat \<Rightarrow> 'a::field mat \<Rightarrow> nat \<Rightarrow> 'a" where
  "row_expansion n A p = (\<Sum>j<Suc n. (- 1) ^ (p + j) * A p j * det n (minor A p j))"

text \<open>A sum over the columns left after the removal of \<open>j\<close>, by their original indices.\<close>

definition unskip :: "nat \<Rightarrow> nat \<Rightarrow> nat" where
  "unskip q k = (if k < q then k else k - 1)"

lemma unskip_skip [simp]: "unskip q (skip q c) = c"
  by (simp add: skip_def unskip_def)

lemma skip_unskip: "k \<noteq> q \<Longrightarrow> skip q (unskip q k) = k"
  by (auto simp: skip_def unskip_def)

lemma sum_skip:
  assumes "j < Suc n"
  shows "(\<Sum>c<n. f (skip j c)) = (\<Sum>k\<in>{..<Suc n} - {j}. f k)"
  by (rule sum.reindex_bij_witness [where i = "unskip j" and j = "skip j"])
     (use assms in \<open>auto simp: skip_unskip skip_less skip_neq, auto simp: unskip_def\<close>)

lemma sum_pairs_swap:
  "(\<Sum>j<Suc n. \<Sum>k\<in>{..<Suc n} - {j}. g j k) = (\<Sum>k<Suc n. \<Sum>j\<in>{..<Suc n} - {k}. g j k)"
  for g :: "nat \<Rightarrow> nat \<Rightarrow> 'a::comm_monoid_add"
proof -
  have *: "(\<Sum>k\<in>{..<Suc n} - {j}. h j k) = (\<Sum>k<Suc n. if k = j then 0 else h j k)" for j and h :: "nat \<Rightarrow> nat \<Rightarrow> 'a"
    by (rule sum.mono_neutral_cong_left) auto
  show ?thesis
    unfolding * [where h = g] * [where h = "\<lambda>k j. g j k"] by (subst sum.swap) (intro sum.cong refl, auto)
qed

lemma minor_minor:
  assumes "j \<noteq> k"
  shows "minor (minor A 0 j) p (unskip j k) = minor (minor A (Suc p) k) 0 (unskip k j)"
  using assms by (auto simp: fun_eq_iff minor_def skip_def unskip_def)

lemma minus_one_unskip:
  assumes "j \<noteq> k"
  shows "(- 1 :: 'a::field) ^ j * (- 1) ^ unskip j k = - ((- 1) ^ k * (- 1) ^ unskip k j)"
proof (cases "k < j")
  case True
  then obtain i where "j = Suc i" by (cases j) auto
  with True show ?thesis by (simp add: unskip_def)
next
  case False
  with assms obtain i where "k = Suc i" "j \<le> i" by (cases k) auto
  then show ?thesis by (simp add: unskip_def)
qed

lemma row_expansion_det:
  assumes "p \<le> n"
  shows "row_expansion n A p = det (Suc n) A"
  using assms
proof (induction n arbitrary: A p)
  case (Suc n)
  show ?case
  proof (cases p)
    case (Suc p')
    with Suc.prems have p': "p' \<le> n" by simp
    let ?g = "\<lambda>j k. (- 1) ^ j * (- 1) ^ (p' + unskip j k) * A 0 j * A p k * det n (minor (minor A 0 j) p' (unskip j k))"
    have "det (Suc (Suc n)) A = (\<Sum>j<Suc (Suc n). (- 1) ^ j * A 0 j * row_expansion n (minor A 0 j) p')"
      using Suc.IH [OF p'] by simp
    also have "\<dots> = (\<Sum>j<Suc (Suc n). \<Sum>c<Suc n. ?g j (skip j c))"
      by (rule sum.cong) (simp_all add: row_expansion_def sum_distrib_left minor_def Suc skip_def [of 0] algebra_simps)
    also have "\<dots> = (\<Sum>j<Suc (Suc n). \<Sum>k\<in>{..<Suc (Suc n)} - {j}. ?g j k)"
      by (rule sum.cong [OF refl], rule sum_skip) simp
    also have "\<dots> = (\<Sum>k<Suc (Suc n). \<Sum>j\<in>{..<Suc (Suc n)} - {k}. ?g j k)"
      by (rule sum_pairs_swap)
    also have "\<dots> = (\<Sum>k<Suc (Suc n). \<Sum>c<Suc n. ?g (skip k c) k)"
      by (rule sum.cong [OF refl], rule sum_skip [symmetric]) simp
    also have "\<dots> = (\<Sum>k<Suc (Suc n). (- 1) ^ (p + k) * A p k * det (Suc n) (minor A p k))"
    proof (rule sum.cong [OF refl])
      fix k
      have "?g (skip k c) k = (- 1) ^ (p + k) * A p k * ((- 1) ^ c * minor A p k 0 c * det n (minor (minor A p k) 0 c))" for c
        using minor_minor [of "skip k c" k A p'] minus_one_unskip [of "skip k c" k, where 'a = 'a]
        by (simp add: Suc skip_neq minor_def power_add skip_def [of "Suc _"] algebra_simps)
      then show "(\<Sum>c<Suc n. ?g (skip k c) k) = (- 1) ^ (p + k) * A p k * det (Suc n) (minor A p k)"
        by (simp only: det.simps sum_distrib_left)
    qed
    finally show ?thesis
      by (simp add: row_expansion_def)
  qed (simp add: row_expansion_def)
qed (simp add: row_expansion_def)

text \<open>Two equal rows give the determinant 0, so the cofactors of a row are orthogonal to the other rows.\<close>

lemma det_equal_rows:
  assumes "p < k" "k \<le> n" "\<And>j. j \<le> n \<Longrightarrow> A p j = A k j"
  shows "det (Suc n) A = 0"
  using assms
proof (induction n arbitrary: A p k)
  case (Suc n)
  show ?case
  proof (cases n)
    case 0
    with Suc.prems have "p = 0" "k = 1" by auto
    with Suc.prems(3) [of 0] Suc.prems(3) [of 1] 0 have "A 0 0 = A 1 0" "A 0 1 = A 1 1" by auto
    then show ?thesis
      by (simp add: 0 minor_def skip_def)
  next
    case (Suc n')
    obtain q where q: "q \<le> Suc n" "q \<noteq> p" "q \<noteq> k"
    proof -
      have "\<not> {..2} \<subseteq> {p, k}"
        using card_mono [of "{p, k}" "{..2}"] by (auto simp: card_insert_if split: if_splits)
      then obtain q :: nat where "q \<le> 2" "q \<noteq> p" "q \<noteq> k" by auto
      with Suc that show ?thesis by auto
    qed
    have "det (Suc n) (minor A q j) = 0" if "j \<le> Suc n" for j
    proof (rule Suc.IH [of "unskip q p" "unskip q k"])
      show "unskip q p < unskip q k" "unskip q k \<le> n"
        using q Suc.prems by (auto simp: unskip_def)
      show "minor A q j (unskip q p) c = minor A q j (unskip q k) c" if "c \<le> n" for c
        using q that Suc.prems(3) [of "skip j c"] skip_less [of c "Suc n" j] by (simp add: minor_def skip_unskip)
    qed
    then have "row_expansion (Suc n) A q = 0"
      by (simp add: row_expansion_def)
    with row_expansion_det [OF q(1), of A] show ?thesis by simp
  qed
qed simp

lemma foreign_row_expansion:
  assumes "p \<le> n" "k \<le> n" "p \<noteq> k"
  shows "(\<Sum>j<Suc n. (- 1) ^ (p + j) * A k j * det n (minor A p j)) = 0"
proof -
  let ?B = "A(p := A k)"
  have "minor ?B p j = minor A p j" for j
    by (simp add: minor_def skip_neq)
  then have "(\<Sum>j<Suc n. (- 1) ^ (p + j) * A k j * det n (minor A p j)) = row_expansion n ?B p"
    by (simp add: row_expansion_def)
  also have "\<dots> = det (Suc n) ?B"
    by (rule row_expansion_det) (rule assms(1))
  also have "\<dots> = 0"
  proof (cases "p < k")
    case True
    then show ?thesis using assms by (intro det_equal_rows [of p k]) auto
  next
    case False
    then show ?thesis using assms by (intro det_equal_rows [of k p]) auto
  qed
  finally show ?thesis .
qed

subsection \<open>Transposition\<close>

definition transposed :: "'a mat \<Rightarrow> 'a mat" where
  "transposed A = (\<lambda>i j. A j i)"

lemma minor_transposed: "minor (transposed A) p q = transposed (minor A q p)"
  by (simp add: minor_def transposed_def)

lemma column_expansion: "det (Suc n) A = (\<Sum>i<Suc n. (- 1) ^ i * A i 0 * det n (minor A i 0))"
proof (induction n arbitrary: A)
  case (Suc n)
  have m: "minor (minor A 0 (Suc j)) i 0 = minor (minor A (Suc i) 0) 0 j" for i j
    by (auto simp: fun_eq_iff minor_def skip_def)
  have row: "det (Suc (Suc n)) A = A 0 0 * det (Suc n) (minor A 0 0) + (\<Sum>j<Suc n. \<Sum>i<Suc n.
      - ((- 1) ^ (i + j) * A 0 (Suc j) * A (Suc i) 0 * det n (minor (minor A (Suc i) 0) 0 j)))"
    unfolding det.simps(2) [of "Suc n" A] sum.lessThan_Suc_shift [of _ "Suc n"] Suc.IH [of "minor A 0 (Suc _)"]
    by (simp only: sum_distrib_left m, simp add: minor_def skip_def [of 0] skip_def [of "Suc _"] power_add sum_negf algebra_simps)
  have col: "(\<Sum>i<Suc (Suc n). (- 1) ^ i * A i 0 * det (Suc n) (minor A i 0)) =
      A 0 0 * det (Suc n) (minor A 0 0) + (\<Sum>i<Suc n. \<Sum>j<Suc n.
      - ((- 1) ^ (i + j) * A 0 (Suc j) * A (Suc i) 0 * det n (minor (minor A (Suc i) 0) 0 j)))"
    unfolding sum.lessThan_Suc_shift [of _ "Suc n"] det.simps(2) [of n "minor A (Suc _) 0"]
    by (simp only: sum_distrib_left, simp add: minor_def skip_def [of 0] skip_def [of "Suc _"] power_add sum_negf algebra_simps)
  show ?case
    unfolding row col by (subst sum.swap) simp
qed (simp add: minor_def)

lemma det_transposed: "det n (transposed A) = det n A"
proof (induction n arbitrary: A)
  case (Suc n)
  have "det (Suc n) (transposed A) = (\<Sum>i<Suc n. (- 1) ^ i * A i 0 * det n (transposed (minor A i 0)))"
    unfolding det.simps(2) minor_transposed by (simp add: transposed_def)
  also have "\<dots> = det (Suc n) A"
    unfolding Suc.IH column_expansion [of n A] ..
  finally show ?case .
qed simp

section \<open>The inverse\<close>

lemma cofac_at:
  assumes "2 \<le> N"
  shows "cofac N r i j = (if i < N \<and> j < N then (- 1) ^ (i + j) * det (N - 1) (minor r i j) else 0)"
proof -
  define s where "s = (\<lambda>i j (cof, c). (let c = fill_adjoint N N r i j c; d = determinant (N - 1) c
      in (cof(i := (cof i)(j := (- 1) ^ (i + j + 2) * d)), c)))"
  let ?w = "\<lambda>i j. (- 1) ^ (i + j) * det (N - 1) (minor r i j)"
  have minor: "determinant (N - 1) (fill_adjoint N N r i j c) = det (N - 1) (minor r i j)" if "i < N" "j < N" for i j c
  proof -
    have "determinant (N - 1) (fill_adjoint N N r i j c) = det (N - 1) (fill_adjoint N N r i j c)"
      by (rule determinant_det) (use assms in simp)
    also have "\<dots> = det (N - 1) (minor r i j)"
      by (rule det_cong) (use that in \<open>simp add: fill_adjoint_minor\<close>)
    finally show ?thesis .
  qed
  have inner: "fst (fold (s i) [0..<m] x) = (fst x)(i := (\<lambda>j. if j < m then ?w i j else fst x i j))" if "i < N" "m \<le> N" for i m x
    using that(2) by (induction m) (simp_all add: s_def Let_def split_beta minor [unfolded One_nat_def] \<open>i < N\<close> fun_eq_iff less_Suc_eq)
  have "fst (fold (\<lambda>i. fold (s i) [0..<N]) [0..<n] (Matrix_new, Matrix_new)) i j =
      (if i < n \<and> j < N then ?w i j else 0)" if "n \<le> N" for n
    using that
  proof (induction n)
    case (Suc n)
    have "fold (\<lambda>i. fold (s i) [0..<N]) [0..<Suc n] x = fold (s n) [0..<N] (fold (\<lambda>i. fold (s i) [0..<N]) [0..<n] x)" for x
      by simp
    with Suc inner [of n N] show ?case
      by (simp only: order.refl Suc_le_eq) (auto simp: less_Suc_eq)
  qed (simp add: Matrix_new_def)
  from this [of N] show ?thesis
    by (simp only: cofac_def s_def order.refl)
qed

lemma invert2_at:
  "invert2 r i j = (if i < 2 \<and> j < 2 then (- 1) ^ (i + j) * det (2 - 1) (minor r j i) / det 2 r else 0)"
proof (cases "i < 2 \<and> j < 2")
  case True
  then have "i = 0 \<or> i = 1" "j = 0 \<or> j = 1" by auto
  then show ?thesis
    by (elim disjE; simp add: invert2_def Let_def matrix_at determinant_det minor_def skip_def)
qed (auto simp: invert2_def matrix_at Let_def)

lemma invert3_at:
  "invert3 r i j = (if i < 3 \<and> j < 3 then (- 1) ^ (i + j) * det (3 - 1) (minor r j i) / det 3 r else 0)"
proof (cases "i < 3 \<and> j < 3")
  case True
  then have "i = 0 \<or> i = 1 \<or> i = 2" "j = 0 \<or> j = 1 \<or> j = 2" by auto
  then show ?thesis
    by (elim disjE; simp add: invert3_def Let_def matrix_at determinant_det det_2 determinant2_def;
        simp add: minor_def skip_def numeral_2_eq_2 algebra_simps)
qed (auto simp: invert3_def matrix_at Let_def)

lemma invert_at:
  assumes "0 < N" "determinant N A \<noteq> 0"
  shows "invert N A i j = (if i < N \<and> j < N then (- 1) ^ (i + j) * det (N - 1) (minor A j i) / det N A else 0)"
proof -
  consider "N = 1" | "N = 2" | "N = 3" | "4 \<le> N" using assms(1) by linarith
  then show ?thesis
  proof cases
    case 1
    then show ?thesis by (simp add: invert_def invert1_def matrix_at)
  next
    case 4
    then show ?thesis
      using assms by (simp add: invert_def Let_def adjoint_def matrix_at cofac_at determinant_det add.commute)
  qed (simp_all only: invert_def invert2_at invert3_at if_True if_False refl numeral_eq_iff num.distinct numeral_eq_one_iff)
qed

lemma mMult_invert_right:
  assumes "0 < N" "determinant N A \<noteq> 0"
  shows "mMult N N N A (invert N A) = Matrix_eye N N 1"
proof (intro ext)
  fix i j
  obtain n where n: "N = Suc n" using assms(1) by (cases N) auto
  have det: "det N A \<noteq> 0" using assms by (simp add: determinant_det)
  have "A i k * invert N A k j = (- 1) ^ (j + k) * A i k * det n (minor A j k) / det N A" if "j < N" "k < N" for k
    using that by (simp add: invert_at [OF assms] del: det.simps) (simp add: n add.commute del: det.simps)
  then have "(\<Sum>k<N. A i k * invert N A k j) = (\<Sum>k<N. (- 1) ^ (j + k) * A i k * det n (minor A j k)) / det N A" if "j < N"
    using that by (simp add: sum_divide_distrib)
  moreover have "(\<Sum>k<N. (- 1) ^ (j + k) * A i k * det n (minor A j k)) = (if i = j then det N A else 0)" if "i < N" "j < N"
    using that row_expansion_det [of j n A] foreign_row_expansion [of j n i A] by (simp add: n row_expansion_def)
  ultimately show "mMult N N N A (invert N A) i j = Matrix_eye N N 1 i j"
    using det by (cases "i = j") (auto simp: matrix_at)
qed

lemma transposed_invert:
  assumes "0 < N" "determinant N A \<noteq> 0"
  shows "transposed (invert N A) = invert N (transposed A)"
proof -
  have "determinant N (transposed A) \<noteq> 0"
    using assms by (simp add: determinant_det det_transposed)
  then show ?thesis
    by (simp add: fun_eq_iff transposed_def [of "invert N A"] invert_at assms minor_transposed det_transposed add.commute)
qed

text \<open>
  C38. A square matrix of any size with a determinant other than 0 times the result of \<open>invert\<close>, on either side, is the
  identity; \<open>invert\<close> uses the special formulas for up to three rows and the adjoint of cofactors, computed by
  recursive expansion, for more.
\<close>

theorem matrix_invert_inverse:
  assumes "0 < N" "determinant N A \<noteq> 0"
  shows "mMult N N N A (invert N A) = Matrix_eye N N 1 \<and> mMult N N N (invert N A) A = Matrix_eye N N 1 \<and>
    mDivide N A A = Matrix_eye N N 1"
proof (intro conjI)
  show "mMult N N N A (invert N A) = Matrix_eye N N 1"
    by (rule mMult_invert_right [OF assms])
  then show "mDivide N A A = Matrix_eye N N 1"
    by (simp add: mDivide_def)
  have "determinant N (transposed A) \<noteq> 0"
    using assms by (simp add: determinant_det det_transposed)
  from mMult_invert_right [OF assms(1) this]
  have eq: "mMult N N N (transposed A) (transposed (invert N A)) j i = Matrix_eye N N 1 j i" for i j
    by (simp add: transposed_invert [OF assms])
  have "mMult N N N (invert N A) A i j = Matrix_eye N N 1 i j" for i j
    using eq [of j i] by (auto simp: matrix_at transposed_def mult.commute split: if_splits)
  then show "mMult N N N (invert N A) A = Matrix_eye N N 1"
    by blast
qed

theorem matrix_invert_inverse_witness:
  "let A = (\<lambda>i j. if i = j then 2 else if j = i + 1 then 1 else 0) :: real mat
   in determinant 4 A = 16 \<and> mMult 4 4 4 A (invert 4 A) = Matrix_eye 4 4 1 \<and> mMult 4 4 4 (invert 4 A) A = Matrix_eye 4 4 1 \<and>
     mDivide 4 A A = Matrix_eye 4 4 1"
proof -
  let ?A = "(\<lambda>i j. if i = j then 2 else if j = i + 1 then 1 else 0) :: real mat"
  have "determinant 4 ?A = 16"
    by (simp add: determinant_det) (simp add: eval_nat_numeral minor_def skip_def)
  with matrix_invert_inverse [of 4 ?A] show ?thesis
    by (simp add: Let_def)
qed

end
