(* ===== verification/Matlib_Vector.thy ===== *)
theory Matlib_Vector
  imports Matlib_Matrix
begin

text \<open>
  The classes of \<open>src/support/support-libs/matlib/api\<close> for space: vectors, rotation matrices, quaternions, rotations
  given by an axis and an angle, yaw-pitch-roll angles, polar coordinates, homogeneous transformations and
  coordinate frames. \<open>TYPE\<close> is the type of the real numbers, \<open>sin\<close>, \<open>cos\<close>, \<open>acos\<close> and \<open>sqrt\<close> are the real
  functions, and \<open>atan2\<close> is written out. A division by zero gives infinities or not-a-number in the code and 0 in the
  model; no theorem covers such a call. Operators are the methods they stand for. A \<open>Matrix3D_\<close> is a
  \<open>Matrix_<3,3>\<close>.
\<close>

section \<open>vector.h\<close>

record Vector3D =
  vx :: real
  vy :: real
  vz :: real

definition vec3 :: "real \<Rightarrow> real \<Rightarrow> real \<Rightarrow> Vector3D" where
  "vec3 x y z = \<lparr>vx = x, vy = y, vz = z\<rparr>"

definition Vector3D_of_matrix :: "real mat \<Rightarrow> Vector3D" where
  "Vector3D_of_matrix other = vec3 (other 0 0) (other 1 0) (other 2 0)"

definition Vector_of_Vector3D :: "Vector3D \<Rightarrow> real mat" where
  "Vector_of_Vector3D other = Matrix_of_array 3 1 [vx other, vy other, vz other]"

definition vecAdd :: "Vector3D \<Rightarrow> Vector3D \<Rightarrow> Vector3D" where
  "vecAdd v other = vec3 (vx v + vx other) (vy v + vy other) (vz v + vz other)"

definition vecSub :: "Vector3D \<Rightarrow> Vector3D \<Rightarrow> Vector3D" where
  "vecSub v other = vec3 (vx v - vx other) (vy v - vy other) (vz v - vz other)"

definition scale :: "Vector3D \<Rightarrow> real \<Rightarrow> Vector3D" where
  "scale v factor = vec3 (vx v * factor) (vy v * factor) (vz v * factor)"

definition cross :: "Vector3D \<Rightarrow> Vector3D \<Rightarrow> Vector3D" where
  "cross v other = vec3 (vy v * vz other - vz v * vy other) (vz v * vx other - vx v * vz other) (vx v * vy other - vy v * vx other)"

definition dot :: "Vector3D \<Rightarrow> Vector3D \<Rightarrow> real" where
  "dot v other = vx v * vx other + vy v * vy other + vz v * vz other"

definition getLen :: "Vector3D \<Rightarrow> real" where
  "getLen v = sqrt (vx v * vx v + vy v * vy v + vz v * vz v)"

definition distance :: "Vector3D \<Rightarrow> Vector3D \<Rightarrow> real" where
  "distance v other = getLen (vecSub v other)"

definition vec_normalize :: "Vector3D \<Rightarrow> Vector3D" where
  "vec_normalize v = (let len = getLen v in vec3 (vx v / len) (vy v / len) (vz v / len))"

definition isNormalized :: "Vector3D \<Rightarrow> bool" where
  "isNormalized v \<longleftrightarrow> isAlmost0 (getLen v - 1)"

definition Vector3D_equals :: "Vector3D \<Rightarrow> Vector3D \<Rightarrow> bool" where
  "Vector3D_equals v other \<longleftrightarrow> isAlmost0 (vx v - vx other) \<and> isAlmost0 (vy v - vy other) \<and> isAlmost0 (vz v - vz other)"

definition getAngle :: "Vector3D \<Rightarrow> Vector3D \<Rightarrow> real" where
  "getAngle v other = (let len = getLen v * getLen other; product = dot v other in arccos (product / len))"

definition isOrthogonal :: "Vector3D \<Rightarrow> Vector3D \<Rightarrow> bool" where
  "isOrthogonal v other \<longleftrightarrow> isAlmost0 (dot v other)"

definition elementWiseProduct :: "Vector3D \<Rightarrow> Vector3D \<Rightarrow> Vector3D" where
  "elementWiseProduct left right = vec3 (vx left * vx right) (vy left * vy right) (vz left * vz right)"

definition elementWiseDivision :: "Vector3D \<Rightarrow> Vector3D \<Rightarrow> Vector3D" where
  "elementWiseDivision left right =
     (if \<not> isAlmost0 (vx right) \<and> \<not> isAlmost0 (vy right) \<and> \<not> isAlmost0 (vz right)
      then vec3 (vx left / vx right) (vy left / vy right) (vz left / vz right) else vec3 0 0 0)"

definition matVecMult :: "Vector3D \<Rightarrow> real mat \<Rightarrow> Vector3D" where
  "matVecMult v r =
     (let x = dot (Vector3D_of_matrix (Matrix_transpose 1 3 (Matrix_getRow 3 3 r 0))) v;
          y = dot (Vector3D_of_matrix (Matrix_transpose 1 3 (Matrix_getRow 3 3 r 1))) v;
          z = dot (Vector3D_of_matrix (Matrix_transpose 1 3 (Matrix_getRow 3 3 r 2))) v
      in vec3 x y z)"

definition mRotate :: "Vector3D \<Rightarrow> real mat \<Rightarrow> Vector3D" where
  "mRotate v r = matVecMult v r"

section \<open>The C library\<close>

definition atan2 :: "real \<Rightarrow> real \<Rightarrow> real" where
  "atan2 y x =
     (if 0 < x then arctan (y / x)
      else if x < 0 then (if 0 \<le> y then arctan (y / x) + pi else arctan (y / x) - pi)
      else if 0 < y then pi / 2 else if y < 0 then - (pi / 2) else 0)"

section \<open>polar.h\<close>

record Polar =
  polar_r :: real
  polar_phi :: real
  polar_theta :: real

definition carToPolar :: "Vector3D \<Rightarrow> Polar" where
  "carToPolar v = (let r = getLen v; phi = atan2 (vy v) (vx v); theta = arccos (vz v / r)
     in \<lparr>polar_r = r, polar_phi = phi, polar_theta = theta\<rparr>)"

definition Polar_of_Vector3D :: "Vector3D \<Rightarrow> Polar" where
  "Polar_of_Vector3D other = (let r = sqrt (vx other * vx other + vy other * vy other + vz other * vz other)
     in \<lparr>polar_r = r, polar_phi = atan2 (vy other) (vx other), polar_theta = arccos (vz other / r)\<rparr>)"

definition toCartesian :: "Polar \<Rightarrow> Vector3D" where
  "toCartesian p =
     (let x = polar_r p * sin (polar_theta p) * cos (polar_phi p);
          y = polar_r p * sin (polar_theta p) * sin (polar_phi p);
          z = polar_r p * cos (polar_theta p)
      in vec3 x y z)"

section \<open>The data of quaternion.h, angleaxis.h and ypr.h\<close>

record Quaternion =
  quat_q0 :: real
  quat_q :: Vector3D

definition quat :: "real \<Rightarrow> real \<Rightarrow> real \<Rightarrow> real \<Rightarrow> Quaternion" where
  "quat q0 q1 q2 q3 = \<lparr>quat_q0 = q0, quat_q = vec3 q1 q2 q3\<rparr>"

definition Quaternion_new :: Quaternion where
  "Quaternion_new = \<lparr>quat_q0 = 1, quat_q = vec3 0 0 0\<rparr>"

record AngleAxis =
  aa_u :: Vector3D
  aa_phi :: real

definition AngleAxis_new :: AngleAxis where
  "AngleAxis_new = \<lparr>aa_u = vec3 1 0 0, aa_phi = 0\<rparr>"

definition AngleAxis_of :: "real \<Rightarrow> Vector3D \<Rightarrow> AngleAxis" where
  "AngleAxis_of phi u = \<lparr>aa_u = vec_normalize u, aa_phi = phi\<rparr>"

record YPR =
  yaw :: real
  pitch :: real
  roll :: real

section \<open>matrix.h\<close>

text \<open>The matrix after the nine assignments to \<open>r[0][0]\<close> to \<open>r[2][2]\<close>.\<close>

definition m33 :: "real \<Rightarrow> real \<Rightarrow> real \<Rightarrow> real \<Rightarrow> real \<Rightarrow> real \<Rightarrow> real \<Rightarrow> real \<Rightarrow> real \<Rightarrow> real mat" where
  "m33 r00 r01 r02 r10 r11 r12 r20 r21 r22 = Matrix_of_array 3 3 [r00, r01, r02, r10, r11, r12, r20, r21, r22]"

definition Matrix3D_of_columns :: "Vector3D \<Rightarrow> Vector3D \<Rightarrow> Vector3D \<Rightarrow> real mat" where
  "Matrix3D_of_columns column1 column2 column3 =
     Matrix_setColumn 3 3 (Matrix_setColumn 3 3 (Matrix_setColumn 3 3 Matrix_new 0 (Vector_of_Vector3D column1))
       1 (Vector_of_Vector3D column2)) 2 (Vector_of_Vector3D column3)"

definition Matrix3D_of_YPR :: "YPR \<Rightarrow> real mat" where
  "Matrix3D_of_YPR ypr =
     (let cy = cos (yaw ypr); cp = cos (pitch ypr); cr = cos (roll ypr);
          sy = sin (yaw ypr); sp = sin (pitch ypr); sr = sin (roll ypr)
      in m33 (cy * cp) (cy * sp * sr - sy * cr) (cy * sp * cr + sy * sr)
             (sy * cp) (sy * sp * sr + cy * cr) (sy * sp * cr - cy * sr)
             (- sp) (cp * sr) (cp * cr))"

definition Matrix3D_of_AngleAxis :: "AngleAxis \<Rightarrow> real mat" where
  "Matrix3D_of_AngleAxis other =
     (let u = aa_u other; phi = aa_phi other; cp = cos phi; sp = sin phi
      in m33 (vx u * vx u * (1 - cp) + cp) (vx u * vy u * (1 - cp) - vz u * sp) (vx u * vz u * (1 - cp) + vy u * sp)
             (vx u * vy u * (1 - cp) + vz u * sp) (vy u * vy u * (1 - cp) + cp) (vy u * vz u * (1 - cp) - vx u * sp)
             (vx u * vz u * (1 - cp) - vy u * sp) (vz u * vy u * (1 - cp) + vx u * sp) (vz u * vz u * (1 - cp) + cp))"

definition Matrix3D_of_Quaternion :: "Quaternion \<Rightarrow> real mat" where
  "Matrix3D_of_Quaternion other =
     (let w = quat_q0 other; x = vx (quat_q other); y = vy (quat_q other); z = vz (quat_q other)
      in m33 (2 * w * w - 1 + 2 * x * x) (2 * y * x - 2 * w * z) (2 * z * x + 2 * w * y)
             (2 * y * x + 2 * w * z) (2 * w * w - 1 + 2 * y * y) (2 * y * z - 2 * w * x)
             (2 * z * x - 2 * w * y) (2 * y * z + 2 * w * x) (2 * w * w - 1 + 2 * z * z))"

definition skew :: "Vector3D \<Rightarrow> real mat" where
  "skew vec = m33 0 (- vz vec) (vy vec) (vz vec) 0 (- vx vec) (- vy vec) (vx vec) 0"

definition skewSymmetricMatrix :: "Vector3D \<Rightarrow> real mat" where
  "skewSymmetricMatrix v = Matrix_of_array 3 3 [0, - vz v, vy v, vz v, 0, - vx v, - vy v, vx v, 0]"

definition Matrix3D_getAngle :: "real mat \<Rightarrow> real" where
  "Matrix3D_getAngle r = arccos (1 / 2 * (r 0 0 + r 1 1 + r 2 2 - 1))"

definition Matrix3D_getVec :: "real mat \<Rightarrow> Vector3D" where
  "Matrix3D_getVec r =
     (let angle = Matrix3D_getAngle r;
          x = 1 / (2 * sin angle) * (r 2 1 - r 1 2);
          y = 1 / (2 * sin angle) * (r 0 2 - r 2 0);
          z = 1 / (2 * sin angle) * (r 1 0 - r 0 1)
      in vec3 x y z)"

definition rotationX :: "real mat \<Rightarrow> real \<Rightarrow> real mat" where
  "rotationX r angle =
     (let r = Matrix_setColumn 3 3 r 0 (Vector_of_Vector3D (vec3 1 0 0));
          r = Matrix_setColumn 3 3 r 1 (Vector_of_Vector3D (vec3 0 (cos angle) (sin angle)))
      in Matrix_setColumn 3 3 r 2 (Vector_of_Vector3D (vec3 0 (- sin angle) (cos angle))))"

definition rotationY :: "real mat \<Rightarrow> real \<Rightarrow> real mat" where
  "rotationY r angle =
     (let r = Matrix_setColumn 3 3 r 0 (Vector_of_Vector3D (vec3 (cos angle) 0 (- sin angle)));
          r = Matrix_setColumn 3 3 r 1 (Vector_of_Vector3D (vec3 0 1 0))
      in Matrix_setColumn 3 3 r 2 (Vector_of_Vector3D (vec3 (sin angle) 0 (cos angle))))"

definition rotationZ :: "real mat \<Rightarrow> real \<Rightarrow> real mat" where
  "rotationZ r angle =
     (let r = Matrix_setColumn 3 3 r 0 (Vector_of_Vector3D (vec3 (cos angle) (sin angle) 0));
          r = Matrix_setColumn 3 3 r 1 (Vector_of_Vector3D (vec3 (- sin angle) (cos angle) 0))
      in Matrix_setColumn 3 3 r 2 (Vector_of_Vector3D (vec3 0 0 1)))"

definition rotateX :: "Vector3D \<Rightarrow> real \<Rightarrow> Vector3D" where
  "rotateX s angle = matVecMult s (rotationX Matrix_new angle)"

definition rotateY :: "Vector3D \<Rightarrow> real \<Rightarrow> Vector3D" where
  "rotateY s angle = matVecMult s (rotationY Matrix_new angle)"

definition rotateZ :: "Vector3D \<Rightarrow> real \<Rightarrow> Vector3D" where
  "rotateZ s angle = matVecMult s (rotationZ Matrix_new angle)"

text \<open>The four cases of \<open>toQuaternion\<close> are tested in turn with the variable \<open>c\<close> they change.\<close>

definition quat_case :: "real \<Rightarrow> (real \<Rightarrow> Quaternion) \<Rightarrow> real \<times> Quaternion \<Rightarrow> real \<times> Quaternion" where
  "quat_case ck build = (\<lambda>(c, p). if c = ck then (let c = 1 / 2 * sqrt c in (c, build c)) else (c, p))"

definition Matrix3D_toQuaternion :: "real mat \<Rightarrow> Quaternion" where
  "Matrix3D_toQuaternion r =
     (let c1 = 1 + r 0 0 + r 1 1 + r 2 2;
          c2 = 1 + r 0 0 - r 1 1 - r 2 2;
          c3 = 1 - r 0 0 + r 1 1 - r 2 2;
          c4 = 1 - r 0 0 - r 1 1 + r 2 2;
          c = c1;
          c = (if c2 > c then c2 else c);
          c = (if c3 > c then c3 else c);
          c = (if c4 > c then c4 else c);
          s = (c, quat 0 0 0 0);
          s = quat_case c1 (\<lambda>c. quat c ((r 2 1 - r 1 2) / (4 * c)) ((r 0 2 - r 2 0) / (4 * c)) ((r 1 0 - r 0 1) / (4 * c))) s;
          s = quat_case c2 (\<lambda>c. quat ((r 2 1 - r 1 2) / (4 * c)) c ((r 1 0 + r 0 1) / (4 * c)) ((r 0 2 + r 2 0) / (4 * c))) s;
          s = quat_case c3 (\<lambda>c. quat ((r 0 2 - r 2 0) / (4 * c)) ((r 1 0 + r 0 1) / (4 * c)) c ((r 2 1 + r 1 2) / (4 * c))) s;
          s = quat_case c4 (\<lambda>c. quat ((r 1 0 - r 0 1) / (4 * c)) ((r 0 2 + r 2 0) / (4 * c)) ((r 2 1 + r 1 2) / (4 * c)) c) s
      in snd s)"

definition Matrix3D_toYPR :: "real mat \<Rightarrow> YPR" where
  "Matrix3D_toYPR r =
     (let m21 = r 1 0; m11 = r 0 0; m31 = r 2 0; m32 = r 2 1; m33 = r 2 2
      in \<lparr>yaw = atan2 m21 m11, pitch = atan2 (- m31) (sqrt (m11 * m11 + m21 * m21)), roll = atan2 m32 m33\<rparr>)"

definition Matrix3D_toAngleAxis :: "real mat \<Rightarrow> AngleAxis" where
  "Matrix3D_toAngleAxis r =
     (let phi = arccos (1 / 2 * (r 0 0 + r 1 1 + r 2 2 - 1)); sp = sin phi;
          x = 1 / (2 * sp) * (r 2 1 - r 1 2);
          y = 1 / (2 * sp) * (r 0 2 - r 2 0);
          z = 1 / (2 * sp) * (r 1 0 - r 0 1)
      in AngleAxis_of phi (vec_normalize (vec3 x y z)))"

section \<open>Coordinates\<close>

named_theorems coords \<open>vectors and 3x3 matrices by their coordinates\<close>

lemma vec3_simps [simp]:
  "vx (vec3 a b c) = a" "vy (vec3 a b c) = b" "vz (vec3 a b c) = c"
  by (simp_all add: vec3_def)

lemma vec3_eq [simp]: "vec3 a b c = vec3 a' b' c' \<longleftrightarrow> a = a' \<and> b = b' \<and> c = c'"
  by (simp add: vec3_def)

lemma vec3_collapse [simp]: "vec3 (vx v) (vy v) (vz v) = v"
  by (simp add: vec3_def)

lemma vec3_cases: obtains x y z where "v = vec3 x y z"
  using that [of "vx v" "vy v" "vz v"] by simp

lemma Vector3D_eqI: "vx v = vx w \<Longrightarrow> vy v = vy w \<Longrightarrow> vz v = vz w \<Longrightarrow> (v :: Vector3D) = w"
  by (cases v; cases w) simp

lemma m33_at [simp]:
  "m33 a b c d e f g h i 0 0 = a" "m33 a b c d e f g h i 0 (Suc 0) = b" "m33 a b c d e f g h i 0 2 = c"
  "m33 a b c d e f g h i (Suc 0) 0 = d" "m33 a b c d e f g h i (Suc 0) (Suc 0) = e" "m33 a b c d e f g h i (Suc 0) 2 = f"
  "m33 a b c d e f g h i 2 0 = g" "m33 a b c d e f g h i 2 (Suc 0) = h" "m33 a b c d e f g h i 2 2 = i"
  by (simp_all add: m33_def matrix_at)

lemma m33_outside: "\<not> (i < 3 \<and> j < 3) \<Longrightarrow> m33 a b c d e f g h k i j = 0"
  by (auto simp: m33_def matrix_at)

lemma m33I:
  assumes "\<And>i j. \<not> (i < 3 \<and> j < 3) \<Longrightarrow> A i j = 0"
    and "A 0 0 = a" "A 0 1 = b" "A 0 2 = c" "A 1 0 = d" "A 1 1 = e" "A 1 2 = f" "A 2 0 = g" "A 2 1 = h" "A 2 2 = k"
  shows "A = m33 a b c d e f g h k"
proof (intro ext)
  fix i j
  show "A i j = m33 a b c d e f g h k i j"
  proof (cases "i < 3 \<and> j < 3")
    case True
    then have "i = 0 \<or> i = 1 \<or> i = 2" "j = 0 \<or> j = 1 \<or> j = 2" by auto
    with assms(2-) show ?thesis by (elim disjE) simp_all
  qed (simp add: m33_outside assms(1))
qed

lemma m33_cong [coords]:
  "m33 a b c d e f g h i = m33 a' b' c' d' e' f' g' h' i' \<longleftrightarrow>
   a = a' \<and> b = b' \<and> c = c' \<and> d = d' \<and> e = e' \<and> f = f' \<and> g = g' \<and> h = h' \<and> i = i'"
  (is "?l = ?r \<longleftrightarrow> _")
proof
  assume "?l = ?r"
  then have "?l i j = ?r i j" for i j by simp
  from this [of 0 0] this [of 0 1] this [of 0 2] this [of 1 0] this [of 1 1] this [of 1 2] this [of 2 0] this [of 2 1] this [of 2 2]
  show "a = a' \<and> b = b' \<and> c = c' \<and> d = d' \<and> e = e' \<and> f = f' \<and> g = g' \<and> h = h' \<and> i = i'" by simp
qed simp

lemma sum3: "(\<Sum>k<3. f k) = f 0 + f 1 + f (2::nat)"
  by (simp add: numeral_3_eq_3 numeral_2_eq_2)

lemma mMult_m33 [coords]:
  "mMult 3 3 3 A B = m33
     (A 0 0 * B 0 0 + A 0 1 * B 1 0 + A 0 2 * B 2 0) (A 0 0 * B 0 1 + A 0 1 * B 1 1 + A 0 2 * B 2 1) (A 0 0 * B 0 2 + A 0 1 * B 1 2 + A 0 2 * B 2 2)
     (A 1 0 * B 0 0 + A 1 1 * B 1 0 + A 1 2 * B 2 0) (A 1 0 * B 0 1 + A 1 1 * B 1 1 + A 1 2 * B 2 1) (A 1 0 * B 0 2 + A 1 1 * B 1 2 + A 1 2 * B 2 2)
     (A 2 0 * B 0 0 + A 2 1 * B 1 0 + A 2 2 * B 2 0) (A 2 0 * B 0 1 + A 2 1 * B 1 1 + A 2 2 * B 2 1) (A 2 0 * B 0 2 + A 2 1 * B 1 2 + A 2 2 * B 2 2)"
  by (rule m33I) (auto simp: matrix_at sum3)

lemma transpose_m33 [coords]:
  "Matrix_transpose 3 3 A = m33 (A 0 0) (A 1 0) (A 2 0) (A 0 1) (A 1 1) (A 2 1) (A 0 2) (A 1 2) (A 2 2)"
  by (rule m33I) (auto simp: matrix_at)

lemma eye_m33 [coords]: "Matrix_eye 3 3 1 = m33 1 0 0 0 1 0 0 0 1"
  by (rule m33I) (auto simp: matrix_at)

lemma matVecMult_coords [coords]:
  "matVecMult v r = vec3 (r 0 0 * vx v + r 0 1 * vy v + r 0 2 * vz v) (r 1 0 * vx v + r 1 1 * vy v + r 1 2 * vz v)
     (r 2 0 * vx v + r 2 1 * vy v + r 2 2 * vz v)"
  by (simp add: matVecMult_def Vector3D_of_matrix_def dot_def matrix_at)

lemma Matrix3D_of_columns_m33 [coords]:
  "Matrix3D_of_columns a b c = m33 (vx a) (vx b) (vx c) (vy a) (vy b) (vy c) (vz a) (vz b) (vz c)"
  unfolding Matrix3D_of_columns_def
  by (rule m33I) (auto simp: matrix_at Vector_of_Vector3D_def)

lemma rotation_columns:
  "rotationX Matrix_new angle = Matrix3D_of_columns (vec3 1 0 0) (vec3 0 (cos angle) (sin angle)) (vec3 0 (- sin angle) (cos angle))"
  "rotationY Matrix_new angle = Matrix3D_of_columns (vec3 (cos angle) 0 (- sin angle)) (vec3 0 1 0) (vec3 (sin angle) 0 (cos angle))"
  "rotationZ Matrix_new angle = Matrix3D_of_columns (vec3 (cos angle) (sin angle) 0) (vec3 (- sin angle) (cos angle) 0) (vec3 0 0 1)"
  by (simp_all add: rotationX_def rotationY_def rotationZ_def Matrix3D_of_columns_def)

lemma determinant_m33 [coords]:
  "determinant 3 (m33 a b c d e f g h i) = a * e * i + b * f * g + c * d * h - g * e * c - h * f * a - i * d * b"
  by (simp add: determinant.simps determinant3_def)

lemmas vector_defs = vecAdd_def vecSub_def scale_def cross_def dot_def

lemma getLen_nonneg [simp]: "0 \<le> getLen v"
  by (simp add: getLen_def)

lemma getLen_square: "getLen v * getLen v = dot v v"
  by (simp add: getLen_def dot_def)

lemma getLen_1: "getLen v = 1 \<longleftrightarrow> vx v * vx v + vy v * vy v + vz v * vz v = 1"
  by (simp add: getLen_def)

lemma getLen_0: "getLen v = 0 \<longleftrightarrow> v = vec3 0 0 0"
proof
  assume "getLen v = 0"
  then have "(vx v)\<^sup>2 + (vy v)\<^sup>2 + (vz v)\<^sup>2 = 0" by (simp add: getLen_def power2_eq_square)
  then have "vx v = 0" "vy v = 0" "vz v = 0"
    by (smt (verit) zero_le_power2 power2_eq_iff_nonneg power_zero_numeral zero_eq_power2)+
  then show "v = vec3 0 0 0" by (intro Vector3D_eqI) simp_all
qed (simp add: getLen_def)

lemma vec_normalize_scale: "vec_normalize v = scale v (1 / getLen v)"
  by (simp add: vec_normalize_def scale_def Let_def)

lemma getLen_scale: "getLen (scale v c) = getLen v * \<bar>c\<bar>"
proof -
  have "vx v * c * (vx v * c) + vy v * c * (vy v * c) + vz v * c * (vz v * c) = (vx v * vx v + vy v * vy v + vz v * vz v) * c\<^sup>2"
    by (simp add: power2_eq_square algebra_simps)
  then show ?thesis by (simp add: getLen_def scale_def real_sqrt_mult)
qed

lemma getLen_normalize:
  assumes "v \<noteq> vec3 0 0 0"
  shows "getLen (vec_normalize v) = 1"
  using assms getLen_0 [of v] by (simp add: vec_normalize_scale getLen_scale)

lemma vec_normalize_unit: "getLen v = 1 \<Longrightarrow> vec_normalize v = v"
  by (simp add: vec_normalize_def)

section \<open>The angle of a point\<close>

lemma atan2_polar:
  assumes "0 < k" "- pi < t" "t \<le> pi"
  shows "atan2 (k * sin t) (k * cos t) = t"
proof -
  have sc: "k * sin t / (k * cos t) = tan t" using assms(1) by (simp add: tan_def)
  consider "t < - (pi / 2)" | "t = - (pi / 2)" | "- (pi / 2) < t" "t < pi / 2" | "t = pi / 2" | "pi / 2 < t"
    by linarith
  then show ?thesis
  proof cases
    case 2
    show ?thesis unfolding 2 using assms(1) by (simp add: atan2_def)
  next
    case 4
    show ?thesis unfolding 4 using assms(1) by (simp add: atan2_def)
  next
    case 1
    have "cos (t + pi) > 0" by (rule cos_gt_zero_pi) (use 1 assms in auto)
    moreover have "sin (t + pi) > 0" by (rule sin_gt_zero) (use 1 assms in auto)
    moreover have "arctan (tan (t + pi)) = t + pi" by (rule arctan_tan) (use 1 assms in auto)
    ultimately show ?thesis
      using assms(1) sc by (simp add: atan2_def mult_less_0_iff zero_less_mult_iff zero_le_mult_iff)
  next
    case 3
    then have "cos t > 0" by (intro cos_gt_zero_pi) auto
    then show ?thesis
      using assms(1) sc arctan_tan [OF 3] by (simp add: atan2_def)
  next
    case 5
    have "cos (t - pi) > 0" by (rule cos_gt_zero_pi) (use 5 assms in auto)
    then have "cos t < 0" by (simp add: cos_diff)
    moreover have "sin t \<ge> 0" by (rule sin_ge_zero) (use 5 assms in auto)
    moreover have "arctan (tan (t - pi)) = t - pi" by (rule arctan_tan) (use 5 assms in auto)
    moreover have "tan (t - pi) = tan t" using tan_periodic_pi [of "t - pi"] by simp
    ultimately show ?thesis
      using assms(1) sc by (simp add: atan2_def mult_less_0_iff zero_less_mult_iff zero_le_mult_iff)
  qed
qed

lemma polar_form:
  obtains t where "- pi < t" "t \<le> pi" "x = sqrt (x\<^sup>2 + y\<^sup>2) * cos t" "y = sqrt (x\<^sup>2 + y\<^sup>2) * sin t"
proof -
  let ?z = "Complex x y"
  have "?z = rcis (cmod ?z) (Arg ?z)" by (simp add: rcis_cmod_Arg)
  then have "x = sqrt (x\<^sup>2 + y\<^sup>2) * cos (Arg ?z)" "y = sqrt (x\<^sup>2 + y\<^sup>2) * sin (Arg ?z)"
    by (auto simp: complex_eq_iff rcis_def cmod_def)
  moreover have "- pi < Arg ?z" "Arg ?z \<le> pi" using Arg_bounded [of ?z] by auto
  ultimately show ?thesis using that by blast
qed

lemma atan2_spec:
  "sqrt (x\<^sup>2 + y\<^sup>2) * cos (atan2 y x) = x" "sqrt (x\<^sup>2 + y\<^sup>2) * sin (atan2 y x) = y"
  "- pi < atan2 y x" "atan2 y x \<le> pi"
proof -
  obtain t where t: "- pi < t" "t \<le> pi" "x = sqrt (x\<^sup>2 + y\<^sup>2) * cos t" "y = sqrt (x\<^sup>2 + y\<^sup>2) * sin t"
    by (rule polar_form)
  have "atan2 y x = t \<or> x = 0 \<and> y = 0"
  proof (cases "0 < sqrt (x\<^sup>2 + y\<^sup>2)")
    case True
    from atan2_polar [OF this t(1,2)] t(3,4) show ?thesis by metis
  next
    case False
    then show ?thesis by (simp add: not_less sum_power2_le_zero_iff)
  qed
  then have "sqrt (x\<^sup>2 + y\<^sup>2) * cos (atan2 y x) = x \<and> sqrt (x\<^sup>2 + y\<^sup>2) * sin (atan2 y x) = y \<and> - pi < atan2 y x \<and> atan2 y x \<le> pi"
    using t by (auto simp: atan2_def)
  then show "sqrt (x\<^sup>2 + y\<^sup>2) * cos (atan2 y x) = x" "sqrt (x\<^sup>2 + y\<^sup>2) * sin (atan2 y x) = y" "- pi < atan2 y x" "atan2 y x \<le> pi"
    by auto
qed

end
