(* ===== verification/Matlib_Rotation.thy ===== *)
theory Matlib_Rotation
  imports Matlib_Vector
begin

text \<open>
  The operations of \<open>quaternion.h\<close>, \<open>angleaxis.h\<close> and \<open>ypr.h\<close>. The theorems show that the representations of a
  rotation agree: axis and angle, quaternion, matrix and yaw-pitch-roll give the same rotated vector, and conversions
  there and back return what they started with, a quaternion up to its sign.
\<close>

section \<open>quaternion.h\<close>

definition Quaternion_of_AngleAxis :: "AngleAxis \<Rightarrow> Quaternion" where
  "Quaternion_of_AngleAxis other =
     \<lparr>quat_q0 = cos (getLen (aa_u other) * aa_phi other / 2),
      quat_q = scale (vec_normalize (aa_u other)) (getLen (aa_u other) * sin (aa_phi other / 2))\<rparr>"

definition Quaternion_of_Matrix3D :: "real mat \<Rightarrow> Quaternion" where
  "Quaternion_of_Matrix3D other =
     (let c1 = 1 + other 0 0 + other 1 1 + other 2 2;
          c2 = 1 + other 0 0 - other 1 1 - other 2 2;
          c3 = 1 - other 0 0 + other 1 1 - other 2 2;
          c4 = 1 - other 0 0 - other 1 1 + other 2 2;
          c = c1;
          c = (if c2 > c then c2 else c);
          c = (if c3 > c then c3 else c);
          c = (if c4 > c then c4 else c);
          s = (c, quat 0 0 0 0);
          s = quat_case c1 (\<lambda>c. quat c ((other 2 1 - other 1 2) / (4 * c)) ((other 0 2 - other 2 0) / (4 * c)) ((other 1 0 - other 0 1) / (4 * c))) s;
          s = quat_case c2 (\<lambda>c. quat ((other 2 1 - other 1 2) / (4 * c)) c ((other 1 0 + other 0 1) / (4 * c)) ((other 0 2 + other 2 0) / (4 * c))) s;
          s = quat_case c3 (\<lambda>c. quat ((other 0 2 - other 2 0) / (4 * c)) ((other 1 0 + other 0 1) / (4 * c)) c ((other 2 1 + other 1 2) / (4 * c))) s;
          s = quat_case c4 (\<lambda>c. quat ((other 1 0 - other 0 1) / (4 * c)) ((other 0 2 + other 2 0) / (4 * c)) ((other 2 1 + other 1 2) / (4 * c)) c) s
      in snd s)"

definition Quaternion_of_YPR :: "YPR \<Rightarrow> Quaternion" where
  "Quaternion_of_YPR other =
     (let a = roll other / 2; b = pitch other / 2; c = yaw other / 2;
          cdx = cos a; sdx = sin a; cdy = cos b; sdy = sin b; cdz = cos c; sdz = sin c;
          q0 = cdz * cdy * cdx + sdz * sdy * sdx;
          q1 = cdz * cdy * sdx - sdz * sdy * cdx;
          q2 = cdz * sdy * cdx + sdz * cdy * sdx;
          q3 = sdz * cdy * cdx - cdz * sdy * sdx;
          len = sqrt (q0 * q0 + q1 * q1 + q2 * q2 + q3 * q3)
      in quat (q0 / len) (q1 / len) (q2 / len) (q3 / len))"

definition Quaternion_getVec :: "Quaternion \<Rightarrow> Vector3D" where
  "Quaternion_getVec p = vec_normalize (quat_q p)"

definition Quaternion_getAngle :: "Quaternion \<Rightarrow> real" where
  "Quaternion_getAngle p = 2 * arccos (quat_q0 p)"

definition qAdd :: "Quaternion \<Rightarrow> Quaternion \<Rightarrow> Quaternion" where
  "qAdd p other = \<lparr>quat_q0 = quat_q0 p + quat_q0 other, quat_q = vecAdd (quat_q p) (quat_q other)\<rparr>"

definition qSub :: "Quaternion \<Rightarrow> Quaternion \<Rightarrow> Quaternion" where
  "qSub p other = \<lparr>quat_q0 = quat_q0 p - quat_q0 other, quat_q = vecSub (quat_q p) (quat_q other)\<rparr>"

definition qScale :: "Quaternion \<Rightarrow> real \<Rightarrow> Quaternion" where
  "qScale p factor = \<lparr>quat_q0 = quat_q0 p * factor, quat_q = scale (quat_q p) factor\<rparr>"

definition qMult :: "Quaternion \<Rightarrow> Quaternion \<Rightarrow> Quaternion" where
  "qMult left right =
     (let mult = Quaternion_new;
          mult = (if Vector3D_equals (quat_q left) (quat_q right)
                  then mult\<lparr>quat_q0 := quat_q0 left + quat_q0 right, quat_q := quat_q left\<rparr> else mult);
          mult = mult\<lparr>quat_q0 := quat_q0 left * quat_q0 right - dot (quat_q left) (quat_q right)\<rparr>
      in mult\<lparr>quat_q := vecAdd (vecAdd (scale (quat_q left) (quat_q0 right)) (scale (quat_q right) (quat_q0 left)))
                               (cross (quat_q left) (quat_q right))\<rparr>)"

definition conjugate :: "Quaternion \<Rightarrow> Quaternion" where
  "conjugate p = \<lparr>quat_q0 = quat_q0 p, quat_q = scale (quat_q p) (- 1)\<rparr>"

definition quads :: "Quaternion \<Rightarrow> real" where
  "quads p = quat_q0 p * quat_q0 p + vx (quat_q p) * vx (quat_q p) + vy (quat_q p) * vy (quat_q p) + vz (quat_q p) * vz (quat_q p)"

definition qInvert :: "Quaternion \<Rightarrow> Quaternion" where
  "qInvert p = qScale (conjugate p) (1 / quads p)"

definition qDivide :: "Quaternion \<Rightarrow> Quaternion \<Rightarrow> Quaternion" where
  "qDivide p other = qMult p (conjugate other)"

definition qLen :: "Quaternion \<Rightarrow> real" where
  "qLen p = sqrt (quads p)"

definition qNormalize :: "Quaternion \<Rightarrow> Quaternion" where
  "qNormalize p = qScale p (1 / qLen p)"

definition Quaternion_isNormalized :: "Quaternion \<Rightarrow> bool" where
  "Quaternion_isNormalized p \<longleftrightarrow> isAlmost0 (qLen p - 1)"

definition Quaternion_equals :: "Quaternion \<Rightarrow> Quaternion \<Rightarrow> bool" where
  "Quaternion_equals p other \<longleftrightarrow> isAlmost0 (quat_q0 p - quat_q0 other) \<and> Vector3D_equals (quat_q p) (quat_q other)"

definition Quaternion_toAngleAxis :: "Quaternion \<Rightarrow> AngleAxis" where
  "Quaternion_toAngleAxis p = AngleAxis_of (Quaternion_getAngle p) (Quaternion_getVec p)"

definition Quaternion_toMatrix3D :: "Quaternion \<Rightarrow> real mat" where
  "Quaternion_toMatrix3D p =
     (let q0sq2 = 2 * quat_q0 p * quat_q0 p;
          qxsq2 = 2 * vx (quat_q p) * vx (quat_q p);
          qysq2 = 2 * vy (quat_q p) * vy (quat_q p);
          qzsq2 = 2 * vz (quat_q p) * vz (quat_q p);
          q0qx2 = 2 * quat_q0 p * vx (quat_q p);
          q0qy2 = 2 * quat_q0 p * vy (quat_q p);
          q0qz2 = 2 * quat_q0 p * vz (quat_q p);
          qyqx2 = 2 * vy (quat_q p) * vx (quat_q p);
          qyqz2 = 2 * vy (quat_q p) * vz (quat_q p);
          qzqx2 = 2 * vz (quat_q p) * vx (quat_q p)
      in m33 (q0sq2 - 1 + qxsq2) (qyqx2 - q0qz2) (qzqx2 + q0qy2)
             (qyqx2 + q0qz2) (q0sq2 - 1 + qysq2) (qyqz2 - q0qx2)
             (qzqx2 - q0qy2) (qyqz2 + q0qx2) (q0sq2 - 1 + qzsq2))"

definition Quaternion_toYPR :: "Quaternion \<Rightarrow> YPR" where
  "Quaternion_toYPR p =
     (let w = quat_q0 p; x = vx (quat_q p); y = vy (quat_q p); z = vz (quat_q p);
          sinPitch = 2 * (w * y - z * x);
          sinPitch = (if sinPitch > 1 then 1 else sinPitch);
          sinPitch = (if sinPitch < - 1 then - 1 else sinPitch)
      in \<lparr>yaw = atan2 (2 * (w * z + x * y)) (1 - 2 * (y * y + z * z)), pitch = arcsin sinPitch,
          roll = atan2 (2 * (w * x + y * z)) (1 - 2 * (x * x + y * y))\<rparr>)"

definition Matrix4_times_Quaternion :: "real mat \<Rightarrow> Quaternion \<Rightarrow> Quaternion" where
  "Matrix4_times_Quaternion mat p =
     (let row = (\<lambda>i. mat i 0 * quat_q0 p + mat i 1 * vx (quat_q p) + mat i 2 * vy (quat_q p) + mat i 3 * vz (quat_q p))
      in quat (row 0) (row 1) (row 2) (row 3))"

definition qX :: "real \<Rightarrow> Quaternion" where
  "qX phi = quat (cos (phi / 2)) (sin (phi / 2)) 0 0"

definition qY :: "real \<Rightarrow> Quaternion" where
  "qY phi = quat (cos (phi / 2)) 0 (sin (phi / 2)) 0"

definition qZ :: "real \<Rightarrow> Quaternion" where
  "qZ phi = quat (cos (phi / 2)) 0 0 (sin (phi / 2))"

definition qRotate :: "Vector3D \<Rightarrow> Quaternion \<Rightarrow> Vector3D" where
  "qRotate u rotQuat = (let v = \<lparr>quat_q0 = 0, quat_q = u\<rparr>; w = qMult (qMult rotQuat v) (conjugate rotQuat) in quat_q w)"

section \<open>angleaxis.h\<close>

definition AngleAxis_of_Quaternion :: "Quaternion \<Rightarrow> AngleAxis" where
  "AngleAxis_of_Quaternion p = \<lparr>aa_u = vec_normalize (Quaternion_getVec p), aa_phi = Quaternion_getAngle p\<rparr>"

definition AngleAxis_of_Matrix3D :: "real mat \<Rightarrow> AngleAxis" where
  "AngleAxis_of_Matrix3D M =
     (let phi = arccos (1 / 2 * (M 0 0 + M 1 1 + M 2 2 - 1));
          x = 1 / (2 * sin phi) * (M 2 1 - M 1 2);
          y = 1 / (2 * sin phi) * (M 0 2 - M 2 0);
          z = 1 / (2 * sin phi) * (M 1 0 - M 0 1)
      in \<lparr>aa_u = vec_normalize (vec3 x y z), aa_phi = phi\<rparr>)"

definition AngleAxis_of_YPR :: "YPR \<Rightarrow> AngleAxis" where
  "AngleAxis_of_YPR ypr =
     (let y = yaw ypr; p = pitch ypr; r = roll ypr;
          c1 = cos (y / 2); c2 = cos (p / 2); c3 = cos (r / 2);
          s1 = sin (y / 2); s2 = sin (p / 2); s3 = sin (r / 2);
          phi = 2 * arccos (c1 * c2 * c3 + s1 * s2 * s3);
          u_x = c1 * c2 * s3 - s1 * s2 * c3;
          u_y = c1 * s2 * c3 + s1 * c2 * s3;
          u_z = s1 * c2 * c3 - c1 * s2 * s3
      in \<lparr>aa_u = vec_normalize (vec3 u_x u_y u_z), aa_phi = phi\<rparr>)"

definition AngleAxis_toQuaternion :: "AngleAxis \<Rightarrow> Quaternion" where
  "AngleAxis_toQuaternion a = \<lparr>quat_q0 = cos (aa_phi a / 2), quat_q = scale (aa_u a) (sin (aa_phi a / 2))\<rparr>"

definition AngleAxis_toMatrix3D :: "AngleAxis \<Rightarrow> real mat" where
  "AngleAxis_toMatrix3D a =
     (let u = aa_u a; phi = aa_phi a
      in m33 (vx u * vx u * (1 - cos phi) + cos phi) (vx u * vy u * (1 - cos phi) - vz u * sin phi) (vx u * vz u * (1 - cos phi) + vy u * sin phi)
             (vx u * vy u * (1 - cos phi) + vz u * sin phi) (vy u * vy u * (1 - cos phi) + cos phi) (vy u * vz u * (1 - cos phi) - vx u * sin phi)
             (vx u * vz u * (1 - cos phi) - vy u * sin phi) (vz u * vy u * (1 - cos phi) + vx u * sin phi) (vz u * vz u * (1 - cos phi) + cos phi))"

definition AngleAxis_toYPR :: "AngleAxis \<Rightarrow> YPR" where
  "AngleAxis_toYPR a =
     (let u = aa_u a; phi = aa_phi a;
          m21 = vx u * vy u * (1 - cos phi) + vz u * sin phi;
          m11 = vx u * vx u * (1 - cos phi) + cos phi;
          m31 = vx u * vz u * (1 - cos phi) - vy u * sin phi;
          m32 = vy u * vz u * (1 - cos phi) + vx u * sin phi;
          m33 = vz u * vz u * (1 - cos phi) + cos phi
      in \<lparr>yaw = atan2 m21 m11, pitch = atan2 (- m31) (sqrt (m11 * m11 + m21 * m21)), roll = atan2 m32 m33\<rparr>)"

definition rotor :: "Vector3D \<Rightarrow> Vector3D \<Rightarrow> AngleAxis" where
  "rotor fromVector toVector =
     (let from = vec_normalize fromVector; to = vec_normalize toVector;
          cosAngle = dot from to; axis = cross from to;
          (cosAngle, axis) = (if isAlmost0 (getLen axis) then (1, vec3 1 1 1) else (cosAngle, axis));
          axis = vec_normalize axis
      in AngleAxis_of (arccos cosAngle) axis)"

definition isNoRotation :: "AngleAxis \<Rightarrow> bool" where
  "isNoRotation a \<longleftrightarrow> isAlmost0 (1 - aa_phi a) \<or> isAlmost0 (getLen (aa_u a)) \<or> \<bar>aa_phi a\<bar> > 1"

definition aRotate :: "Vector3D \<Rightarrow> AngleAxis \<Rightarrow> Vector3D" where
  "aRotate v u_phi =
     (let temp = vecAdd (scale v (cos (aa_phi u_phi))) (cross (aa_u u_phi) (scale v (sin (aa_phi u_phi))))
      in vecAdd temp (scale (aa_u u_phi) (dot (aa_u u_phi) v * (1 - cos (aa_phi u_phi)))))"

section \<open>ypr.h\<close>

definition YPR_of_Quaternion :: "Quaternion \<Rightarrow> YPR" where
  "YPR_of_Quaternion p =
     (let w = quat_q0 p; x = vx (quat_q p); y = vy (quat_q p); z = vz (quat_q p);
          m21 = 2 * x * y + 2 * w * z;
          m11 = 2 * w * w - 1 + 2 * x * x;
          m31 = 2 * x * z - 2 * w * y;
          m32 = 2 * y * z + 2 * w * x;
          m33 = 2 * w * w - 1 + 2 * z * z
      in \<lparr>yaw = atan2 m21 m11, pitch = atan2 (- m31) (sqrt (m11 * m11 + m21 * m21)), roll = atan2 m32 m33\<rparr>)"

definition YPR_of_Matrix3D :: "real mat \<Rightarrow> YPR" where
  "YPR_of_Matrix3D M =
     (let m21 = M 1 0; m11 = M 0 0; m31 = M 2 0; m32 = M 2 1; m33 = M 2 2
      in \<lparr>yaw = atan2 m21 m11, pitch = atan2 (- m31) (sqrt (m11 * m11 + m21 * m21)), roll = atan2 m32 m33\<rparr>)"

definition YPR_of_AngleAxis :: "AngleAxis \<Rightarrow> YPR" where
  "YPR_of_AngleAxis other =
     (let u = aa_u other; phi = aa_phi other; cp = cos phi; sp = sin phi;
          m21 = vx u * vy u * (1 - cp) + vz u * sp;
          m11 = vx u * vx u * (1 - cp) + cp;
          m31 = vx u * vz u * (1 - cp) - vy u * sp;
          m32 = vy u * vz u * (1 - cp) + vx u * sp;
          m33 = vz u * vz u * (1 - cp) + cp
      in \<lparr>yaw = atan2 m21 m11, pitch = atan2 (- m31) (sqrt (m11 * m11 + m21 * m21)), roll = atan2 m32 m33\<rparr>)"

definition YPR_scale :: "YPR \<Rightarrow> real \<Rightarrow> YPR" where
  "YPR_scale y factor = \<lparr>yaw = yaw y * factor, pitch = pitch y * factor, roll = roll y * factor\<rparr>"

definition accumulateRotation :: "YPR \<Rightarrow> YPR \<Rightarrow> YPR" where
  "accumulateRotation y increment =
     (let orig = Quaternion_of_YPR y; inc = Quaternion_of_YPR increment; orig = qMult orig inc in Quaternion_toYPR orig)"

definition YPR_toMatrix3D :: "YPR \<Rightarrow> real mat" where
  "YPR_toMatrix3D ypr =
     (let cy = cos (yaw ypr); cp = cos (pitch ypr); cr = cos (roll ypr);
          sy = sin (yaw ypr); sp = sin (pitch ypr); sr = sin (roll ypr)
      in m33 (cy * cp) (cy * sp * sr - sy * cr) (cy * sp * cr + sy * sr)
             (sy * cp) (sy * sp * sr + cy * cr) (sy * sp * cr - cy * sr)
             (- sp) (cp * sr) (cp * cr))"

definition YPR_toQuaternion :: "YPR \<Rightarrow> Quaternion" where
  "YPR_toQuaternion ypr =
     (let cy2 = cos (yaw ypr / 2); cp2 = cos (pitch ypr / 2); cr2 = cos (roll ypr / 2);
          sy2 = sin (yaw ypr / 2); sp2 = sin (pitch ypr / 2); sr2 = sin (roll ypr / 2)
      in quat (cr2 * cp2 * cy2 + sr2 * sp2 * sy2) (sr2 * cp2 * cy2 - cr2 * sp2 * sy2)
              (cr2 * sp2 * cy2 + sr2 * cp2 * sy2) (cr2 * cp2 * sy2 - sr2 * sp2 * cy2))"

definition YPR_toAngleAxis :: "YPR \<Rightarrow> AngleAxis" where
  "YPR_toAngleAxis ypr =
     (let y = yaw ypr; p = pitch ypr; r = roll ypr;
          phi = arccos (1 / 2 * (- 1 + cos p * cos y + cos r * cos y + sin r * sin p * sin y + cos r * cos p));
          u_x = 1 / (2 * sin phi) * (sin r * cos p - cos r * sin p * sin y + sin r * cos y);
          u_y = 1 / (2 * sin phi) * (sin r * sin y + cos r * sin p * cos y + sin p);
          u_z = 1 / (2 * sin phi) * (cos p * sin y - sin r * sin p * cos y + cos r * sin y)
      in AngleAxis_of phi (vec3 u_x u_y u_z))"

definition yprRotate :: "Vector3D \<Rightarrow> YPR \<Rightarrow> Vector3D" where
  "yprRotate v ypr = matVecMult v (YPR_toMatrix3D ypr)"

section \<open>Quaternions\<close>

lemma quat_simps [simp]:
  "quat_q0 (quat a b c d) = a" "quat_q (quat a b c d) = vec3 b c d"
  by (simp_all add: quat_def)

lemma quat_eq [simp]: "quat a b c d = quat a' b' c' d' \<longleftrightarrow> a = a' \<and> b = b' \<and> c = c' \<and> d = d'"
  by (simp add: quat_def)

lemma quat_collapse: "p = quat (quat_q0 p) (vx (quat_q p)) (vy (quat_q p)) (vz (quat_q p))"
  by (simp add: quat_def)

lemma quat_cases: obtains w x y z where "p = quat w x y z"
  using quat_collapse that by blast

lemma qMult_quat [coords]:
  "qMult (quat a b c d) (quat w x y z) = quat (a * w - b * x - c * y - d * z) (a * x + b * w + c * z - d * y)
     (a * y - b * z + c * w + d * x) (a * z + b * y - c * x + d * w)"
  by (simp add: qMult_def quat_def vector_defs Let_def algebra_simps)

lemma conjugate_quat [coords]: "conjugate (quat w x y z) = quat w (- x) (- y) (- z)"
  by (simp add: conjugate_def quat_def scale_def)

lemma qScale_quat [coords]: "qScale (quat w x y z) c = quat (w * c) (x * c) (y * c) (z * c)"
  by (simp add: qScale_def quat_def scale_def)

lemma quads_quat [coords]: "quads (quat w x y z) = w * w + x * x + y * y + z * z"
  by (simp add: quads_def)

lemma quads_nonneg: "0 \<le> quads p"
  by (simp add: quads_def)

lemma qLen_1: "qLen p = 1 \<longleftrightarrow> quads p = 1"
  by (simp add: qLen_def)

lemma qRotate_quat [coords]:
  "qRotate (vec3 a b c) (quat w x y z) = vec3
     ((w * w + x * x - y * y - z * z) * a + 2 * (x * y - w * z) * b + 2 * (x * z + w * y) * c)
     (2 * (x * y + w * z) * a + (w * w - x * x + y * y - z * z) * b + 2 * (y * z - w * x) * c)
     (2 * (x * z - w * y) * a + 2 * (y * z + w * x) * b + (w * w - x * x - y * y + z * z) * c)"
proof -
  have v: "\<lparr>quat_q0 = 0, quat_q = vec3 a b c\<rparr> = quat 0 a b c" by (simp add: quat_def)
  show ?thesis unfolding qRotate_def Let_def v by (simp add: coords algebra_simps)
qed

lemma Quaternion_toMatrix3D_quat [coords]:
  "Quaternion_toMatrix3D (quat w x y z) =
     m33 (2 * w * w - 1 + 2 * x * x) (2 * y * x - 2 * w * z) (2 * z * x + 2 * w * y)
         (2 * y * x + 2 * w * z) (2 * w * w - 1 + 2 * y * y) (2 * y * z - 2 * w * x)
         (2 * z * x - 2 * w * y) (2 * y * z + 2 * w * x) (2 * w * w - 1 + 2 * z * z)"
  by (simp add: Quaternion_toMatrix3D_def Let_def)

lemma Matrix3D_of_Quaternion_same: "Matrix3D_of_Quaternion p = Quaternion_toMatrix3D p"
  by (simp add: Matrix3D_of_Quaternion_def Quaternion_toMatrix3D_def Let_def)

text \<open>The product is that of the algebra of quaternions: associative, and lengths multiply.\<close>

lemma qMult_assoc: "qMult (qMult p r) s = qMult p (qMult r s)"
  by (rule quat_cases [of p], rule quat_cases [of r], rule quat_cases [of s]) (simp add: coords algebra_simps)

lemma quads_qMult: "quads (qMult p r) = quads p * quads r"
  by (rule quat_cases [of p], rule quat_cases [of r]) (simp add: coords algebra_simps)

lemma qLen_qMult: "qLen (qMult p r) = qLen p * qLen r"
  by (simp add: qLen_def quads_qMult real_sqrt_mult)

lemma qMult_qInvert:
  assumes "quads p \<noteq> 0"
  shows "qMult p (qInvert p) = Quaternion_new" "qMult (qInvert p) p = Quaternion_new"
proof -
  obtain w x y z where p: "p = quat w x y z" by (rule quat_cases)
  have one: "Quaternion_new = quat 1 0 0 0" by (simp add: Quaternion_new_def quat_def)
  have "w * (w * (1 / d)) + x * (x * (1 / d)) + y * (y * (1 / d)) + z * (z * (1 / d)) = 1" if "d = quads p" for d
    using assms that by (simp add: p coords add_divide_distrib [symmetric] mult.assoc)
  then show "qMult p (qInvert p) = Quaternion_new" "qMult (qInvert p) p = Quaternion_new"
    by (simp_all add: p qInvert_def one coords algebra_simps)
qed

text \<open>\<open>qDivide\<close> multiplies by the conjugate and not by the inverse: it divides by unit quaternions only.\<close>

lemma qDivide_scales: "qDivide (qMult p r) r = qScale p (quads r)"
  by (rule quat_cases [of p], rule quat_cases [of r]) (simp add: qDivide_def coords algebra_simps)

lemma qRotate_qMult: "qRotate v (qMult p r) = qRotate (qRotate v r) p"
  by (rule quat_cases [of p], rule quat_cases [of r], rule vec3_cases [of v]) (simp add: coords, simp add: algebra_simps)

lemma qRotate_toMatrix3D:
  assumes "quads p = 1"
  shows "qRotate v p = mRotate v (Quaternion_toMatrix3D p)"
proof -
  obtain w x y z where p: "p = quat w x y z" by (rule quat_cases)
  obtain a b c where v: "v = vec3 a b c" by (rule vec3_cases)
  have "w * w + x * x + y * y + z * z = 1" using assms by (simp add: p coords)
  then show ?thesis
    unfolding p v mRotate_def coords vec3_eq vec3_simps by (intro conjI; simp; algebra)
qed

text \<open>Rotation matrices: orthogonal with determinant 1.\<close>

definition is_rotation :: "real mat \<Rightarrow> bool" where
  "is_rotation M \<longleftrightarrow> mMult 3 3 3 M (Matrix_transpose 3 3 M) = Matrix_eye 3 3 1 \<and>
     mMult 3 3 3 (Matrix_transpose 3 3 M) M = Matrix_eye 3 3 1 \<and> determinant 3 M = 1"

lemma Quaternion_is_rotation:
  assumes "quads p = 1"
  shows "is_rotation (Quaternion_toMatrix3D p)"
proof -
  obtain w x y z where p: "p = quat w x y z" by (rule quat_cases)
  have "w * w + x * x + y * y + z * z = 1" using assms by (simp add: p coords)
  then show ?thesis
    unfolding is_rotation_def p by (intro conjI; simp add: coords; (intro conjI)?; algebra)
qed

lemma is_rotation_length:
  assumes "is_rotation M"
  shows "getLen (mRotate v M) = getLen v"
proof -
  obtain a b c where v: "v = vec3 a b c" by (rule vec3_cases)
  from assms have "M 0 0 * M 0 0 + M 1 0 * M 1 0 + M 2 0 * M 2 0 = 1" "M 0 1 * M 0 1 + M 1 1 * M 1 1 + M 2 1 * M 2 1 = 1"
    "M 0 2 * M 0 2 + M 1 2 * M 1 2 + M 2 2 * M 2 2 = 1" "M 0 0 * M 0 1 + M 1 0 * M 1 1 + M 2 0 * M 2 1 = 0"
    "M 0 0 * M 0 2 + M 1 0 * M 1 2 + M 2 0 * M 2 2 = 0" "M 0 1 * M 0 2 + M 1 1 * M 1 2 + M 2 1 * M 2 2 = 0"
    by (simp_all add: is_rotation_def coords)
  then have "dot (mRotate v M) (mRotate v M) = dot v v"
    unfolding v mRotate_def coords dot_def vec3_simps by algebra
  then show ?thesis by (simp add: getLen_def dot_def)
qed

section \<open>From the matrix back to the quaternion\<close>

definition same_rotation :: "Quaternion \<Rightarrow> Quaternion \<Rightarrow> bool" where
  "same_rotation p r \<longleftrightarrow> r = p \<or> r = qScale p (- 1)"

lemma same_rotation_sgn:
  assumes "a \<noteq> 0"
  shows "same_rotation p (qScale p (sgn a))"
proof -
  have "qScale p 1 = p" by (rule quat_cases [of p]) (simp add: coords)
  then show ?thesis using assms by (cases "0 < a") (simp_all add: same_rotation_def)
qed

lemma quat_case_ok:
  assumes "fst s \<noteq> 0" "fst s = ck \<or> same_rotation p (snd s)"
    and "ck = 4 * (a * a)" "a \<noteq> 0 \<Longrightarrow> build \<bar>a\<bar> = qScale p (sgn a)"
  shows "fst (quat_case ck build s) \<noteq> 0 \<and> same_rotation p (snd (quat_case ck build s))"
proof (cases "fst s = ck")
  case True
  have "sqrt (4 * (a * a)) = 2 * \<bar>a\<bar>" by (simp add: real_sqrt_mult)
  moreover have "a \<noteq> 0" using assms(1,3) True by auto
  ultimately show ?thesis
    using True assms(3,4) same_rotation_sgn [of a p] by (simp add: quat_case_def split_beta)
next
  case False
  then show ?thesis
    using assms(1,2) by (simp add: quat_case_def split_beta)
qed

lemma quat_case_skip: "fst s \<noteq> ck \<Longrightarrow> quat_case ck build s = s"
  by (simp add: quat_case_def split_beta)

lemma over_abs:
  assumes "(a::real) \<noteq> 0"
  shows "4 * (a * b) / (4 * \<bar>a\<bar>) = b * sgn a" "4 * (b * a) / (4 * \<bar>a\<bar>) = b * sgn a" "\<bar>a\<bar> = a * sgn a"
  using assms by (cases "0 < a"; simp)+

lemma quat_cases_in_turn:
  assumes m: "m = 4 * (w * w) \<or> m = 4 * (x * x) \<or> m = 4 * (y * y) \<or> m = 4 * (z * z)" "m \<noteq> 0"
  shows "same_rotation (quat w x y z) (snd (
     quat_case (4 * (z * z)) (\<lambda>c. quat (4 * (w * z) / (4 * c)) (4 * (x * z) / (4 * c)) (4 * (y * z) / (4 * c)) c) (
     quat_case (4 * (y * y)) (\<lambda>c. quat (4 * (w * y) / (4 * c)) (4 * (x * y) / (4 * c)) c (4 * (y * z) / (4 * c))) (
     quat_case (4 * (x * x)) (\<lambda>c. quat (4 * (w * x) / (4 * c)) c (4 * (x * y) / (4 * c)) (4 * (x * z) / (4 * c))) (
     quat_case (4 * (w * w)) (\<lambda>c. quat c (4 * (w * x) / (4 * c)) (4 * (w * y) / (4 * c)) (4 * (w * z) / (4 * c)))
     (m, s))))))"
proof -
  let ?p = "quat w x y z"
  let ?f4 = "quat_case (4 * (z * z)) (\<lambda>c. quat (4 * (w * z) / (4 * c)) (4 * (x * z) / (4 * c)) (4 * (y * z) / (4 * c)) c)"
  let ?f3 = "quat_case (4 * (y * y)) (\<lambda>c. quat (4 * (w * y) / (4 * c)) (4 * (x * y) / (4 * c)) c (4 * (y * z) / (4 * c)))"
  let ?f2 = "quat_case (4 * (x * x)) (\<lambda>c. quat (4 * (w * x) / (4 * c)) c (4 * (x * y) / (4 * c)) (4 * (x * z) / (4 * c)))"
  let ?f1 = "quat_case (4 * (w * w)) (\<lambda>c. quat c (4 * (w * x) / (4 * c)) (4 * (w * y) / (4 * c)) (4 * (w * z) / (4 * c)))"
  let ?ok = "\<lambda>s. fst s \<noteq> 0 \<and> same_rotation ?p (snd s)"
  have f1: "?ok (?f1 s)" if "fst s \<noteq> 0" "fst s = 4 * (w * w) \<or> same_rotation ?p (snd s)" for s
    by (rule quat_case_ok [OF that refl]) (simp only: qScale_quat quat_eq over_abs(1,2) simp_thms, erule over_abs(3))
  have f2: "?ok (?f2 s)" if "fst s \<noteq> 0" "fst s = 4 * (x * x) \<or> same_rotation ?p (snd s)" for s
    by (rule quat_case_ok [OF that refl]) (simp only: qScale_quat quat_eq over_abs(1,2) simp_thms, erule over_abs(3))
  have f3: "?ok (?f3 s)" if "fst s \<noteq> 0" "fst s = 4 * (y * y) \<or> same_rotation ?p (snd s)" for s
    by (rule quat_case_ok [OF that refl]) (simp only: qScale_quat quat_eq over_abs(1,2) simp_thms, erule over_abs(3))
  have f4: "?ok (?f4 s)" if "fst s \<noteq> 0" "fst s = 4 * (z * z) \<or> same_rotation ?p (snd s)" for s
    by (rule quat_case_ok [OF that refl]) (simp only: qScale_quat quat_eq over_abs(1,2) simp_thms, erule over_abs(3))
  have k2: "?ok (?f2 t)" if "?ok t" for t using that f2 [of t] by blast
  have k3: "?ok (?f3 t)" if "?ok t" for t using that f3 [of t] by blast
  have k4: "?ok (?f4 t)" if "?ok t" for t using that f4 [of t] by blast
  have m0: "fst (m, s) \<noteq> 0" using m(2) by simp
  consider "m = 4 * (w * w)" | "m \<noteq> 4 * (w * w)" "m = 4 * (x * x)"
    | "m \<noteq> 4 * (w * w)" "m \<noteq> 4 * (x * x)" "m = 4 * (y * y)"
    | "m \<noteq> 4 * (w * w)" "m \<noteq> 4 * (x * x)" "m \<noteq> 4 * (y * y)" "m = 4 * (z * z)"
    using m(1) by blast
  then have "?ok (?f4 (?f3 (?f2 (?f1 (m, s)))))"
  proof cases
    case 1
    then show ?thesis by (intro k4 k3 k2 f1 [OF m0] disjI1) (simp only: fst_conv)
  next
    case 2
    have "?f1 (m, s) = (m, s)" by (rule quat_case_skip) (use 2 in \<open>simp only: fst_conv not_False_eq_True\<close>)
    then show ?thesis by (simp only:) (intro k4 k3 f2 [OF m0] disjI1, simp only: 2 fst_conv)
  next
    case 3
    have "?f1 (m, s) = (m, s)" by (rule quat_case_skip) (use 3 in \<open>simp only: fst_conv not_False_eq_True\<close>)
    moreover have "?f2 (m, s) = (m, s)" by (rule quat_case_skip) (use 3 in \<open>simp only: fst_conv not_False_eq_True\<close>)
    ultimately show ?thesis by (simp only:) (intro k4 f3 [OF m0] disjI1, simp only: 3 fst_conv)
  next
    case 4
    have "?f1 (m, s) = (m, s)" by (rule quat_case_skip) (use 4 in \<open>simp only: fst_conv not_False_eq_True\<close>)
    moreover have "?f2 (m, s) = (m, s)" by (rule quat_case_skip) (use 4 in \<open>simp only: fst_conv not_False_eq_True\<close>)
    moreover have "?f3 (m, s) = (m, s)" by (rule quat_case_skip) (use 4 in \<open>simp only: fst_conv not_False_eq_True\<close>)
    ultimately show ?thesis by (simp only:) (intro f4 [OF m0] disjI1, simp only: 4 fst_conv)
  qed
  then show ?thesis by blast
qed

lemma matrix_quaternion_back:
  assumes "quads p = 1"
  shows "same_rotation p (Matrix3D_toQuaternion (Quaternion_toMatrix3D p))"
proof -
  obtain w x y z where p: "p = quat w x y z" by (rule quat_cases)
  have unit: "w * w + x * x + y * y + z * z = 1" using assms by (simp add: p coords)
  let ?r = "Quaternion_toMatrix3D p"
  have c: "1 + ?r 0 0 + ?r 1 1 + ?r 2 2 = 4 * (w * w)" "1 + ?r 0 0 - ?r 1 1 - ?r 2 2 = 4 * (x * x)"
    "1 - ?r 0 0 + ?r 1 1 - ?r 2 2 = 4 * (y * y)" "1 - ?r 0 0 - ?r 1 1 + ?r 2 2 = 4 * (z * z)"
    using unit by (simp_all add: p coords)
  have d: "?r 2 1 - ?r 1 2 = 4 * (w * x)" "?r 0 2 - ?r 2 0 = 4 * (w * y)" "?r 1 0 - ?r 0 1 = 4 * (w * z)"
    "?r 1 0 + ?r 0 1 = 4 * (x * y)" "?r 0 2 + ?r 2 0 = 4 * (x * z)" "?r 2 1 + ?r 1 2 = 4 * (y * z)"
    by (simp_all add: p coords)
  show ?thesis
    unfolding Matrix3D_toQuaternion_def Let_def c d unfolding p
    by (rule quat_cases_in_turn) (use unit in \<open>auto simp: not_less\<close>)
qed

section \<open>Axis and angle\<close>

lemma half_angle:
  "cos t = cos (t / 2) * cos (t / 2) - sin (t / 2) * sin (t / 2)" "sin t = 2 * sin (t / 2) * cos (t / 2)"
  "cos (t / 2) * cos (t / 2) + sin (t / 2) * sin (t / 2) = (1::real)"
  using cos_double [of "t / 2"] sin_double [of "t / 2"] sin_cos_squared_add2 [of "t / 2"] by (simp_all add: power2_eq_square)

lemma cos_sin_1: "cos t * cos t + sin t * sin t = (1::real)"
  using sin_cos_squared_add2 [of t] by (simp add: power2_eq_square)

lemma AngleAxis_toQuaternion_quat:
  "AngleAxis_toQuaternion a = quat (cos (aa_phi a / 2)) (vx (aa_u a) * sin (aa_phi a / 2)) (vy (aa_u a) * sin (aa_phi a / 2))
     (vz (aa_u a) * sin (aa_phi a / 2))"
  by (simp add: AngleAxis_toQuaternion_def quat_def scale_def)

lemma Matrix3D_of_AngleAxis_same: "Matrix3D_of_AngleAxis a = AngleAxis_toMatrix3D a"
  by (simp add: Matrix3D_of_AngleAxis_def AngleAxis_toMatrix3D_def Let_def)

lemma Quaternion_of_AngleAxis_same:
  assumes "getLen (aa_u a) = 1"
  shows "Quaternion_of_AngleAxis a = AngleAxis_toQuaternion a"
  using assms by (simp add: Quaternion_of_AngleAxis_def AngleAxis_toQuaternion_def vec_normalize_unit)

lemma AngleAxis_quaternion_unit:
  assumes "getLen (aa_u a) = 1"
  shows "quads (AngleAxis_toQuaternion a) = 1"
proof -
  have "vx (aa_u a) * vx (aa_u a) + vy (aa_u a) * vy (aa_u a) + vz (aa_u a) * vz (aa_u a) = 1"
    using assms by (simp add: getLen_1)
  with half_angle(3) [of "aa_phi a"] show ?thesis
    unfolding AngleAxis_toQuaternion_quat quads_quat by algebra
qed

lemma AngleAxis_matrix:
  assumes "getLen (aa_u a) = 1"
  shows "Quaternion_toMatrix3D (AngleAxis_toQuaternion a) = AngleAxis_toMatrix3D a"
proof -
  obtain x y z where u: "aa_u a = vec3 x y z" by (rule vec3_cases)
  have "x * x + y * y + z * z = 1" using assms by (simp add: getLen_1 u)
  with half_angle(3) [of "aa_phi a"] show ?thesis
    unfolding AngleAxis_toQuaternion_quat Quaternion_toMatrix3D_quat AngleAxis_toMatrix3D_def Let_def m33_cong u vec3_simps
      half_angle(1,2) [of "aa_phi a"]
    by (intro conjI; algebra)
qed

lemma aRotate_matrix:
  assumes "getLen (aa_u a) = 1"
  shows "aRotate v a = mRotate v (AngleAxis_toMatrix3D a)"
proof -
  obtain x y z where u: "aa_u a = vec3 x y z" by (rule vec3_cases)
  obtain a' b' c' where v: "v = vec3 a' b' c'" by (rule vec3_cases)
  show ?thesis
    by (simp add: aRotate_def mRotate_def AngleAxis_toMatrix3D_def u v vector_defs coords Let_def algebra_simps)
qed

text \<open>
  C39. For a rotation given by a unit axis and an angle, the quaternion (from either class) has length 1, the matrix of
  that quaternion is the matrix computed from axis and angle, it is orthogonal with determinant 1, and the three ways to
  rotate a vector (Rodrigues' formula, the quaternion product, the matrix) give the same vector, of the same length.
\<close>

theorem rotation_representations_agree:
  assumes "getLen (aa_u a) = 1"
  shows "Quaternion_of_AngleAxis a = AngleAxis_toQuaternion a \<and> qLen (AngleAxis_toQuaternion a) = 1 \<and>
    Quaternion_toMatrix3D (AngleAxis_toQuaternion a) = AngleAxis_toMatrix3D a \<and>
    Matrix3D_of_AngleAxis a = AngleAxis_toMatrix3D a \<and> is_rotation (AngleAxis_toMatrix3D a) \<and>
    mRotate v (AngleAxis_toMatrix3D a) = aRotate v a \<and> qRotate v (AngleAxis_toQuaternion a) = aRotate v a \<and>
    getLen (aRotate v a) = getLen v"
  using Quaternion_is_rotation [OF AngleAxis_quaternion_unit [OF assms]] is_rotation_length [of "AngleAxis_toMatrix3D a" v]
    qRotate_toMatrix3D [OF AngleAxis_quaternion_unit [OF assms], of v] AngleAxis_quaternion_unit [OF assms]
  by (simp add: assms Quaternion_of_AngleAxis_same Matrix3D_of_AngleAxis_same AngleAxis_matrix aRotate_matrix qLen_1)

theorem rotation_representations_agree_witness:
  "let a = \<lparr>aa_u = vec3 0 0 1, aa_phi = pi / 2\<rparr>; v = vec3 1 0 0
   in qRotate v (AngleAxis_toQuaternion a) = vec3 0 1 0 \<and> mRotate v (AngleAxis_toMatrix3D a) = vec3 0 1 0"
proof -
  let ?a = "\<lparr>aa_u = vec3 0 0 1, aa_phi = pi / 2\<rparr> :: AngleAxis"
  have "aRotate (vec3 1 0 0) ?a = vec3 0 1 0"
    by (simp add: aRotate_def vector_defs)
  moreover have "getLen (aa_u ?a) = 1" by (simp add: getLen_1)
  ultimately show ?thesis
    using rotation_representations_agree [of ?a "vec3 1 0 0"] by (simp add: Let_def)
qed

section \<open>Yaw, pitch and roll\<close>

lemma YPR_toQuaternion_product:
  "YPR_toQuaternion y = qMult (qMult (qZ (yaw y)) (qY (pitch y))) (qX (roll y))"
  by (simp add: YPR_toQuaternion_def qX_def qY_def qZ_def coords Let_def algebra_simps)

lemma unit_axis_quaternions: "quads (qX t) = 1" "quads (qY t) = 1" "quads (qZ t) = 1"
  using half_angle(3) [of t] by (simp_all add: qX_def qY_def qZ_def coords)

lemma YPR_quaternion_unit: "quads (YPR_toQuaternion y) = 1"
  by (simp add: YPR_toQuaternion_product quads_qMult unit_axis_quaternions)

lemma Quaternion_of_YPR_same: "Quaternion_of_YPR y = YPR_toQuaternion y"
proof -
  let ?d = "\<lambda>a b c d. sqrt (a * a + b * b + c * c + d * d) :: real"
  have "quat (a / ?d a b c d) (b / ?d a b c d) (c / ?d a b c d) (d / ?d a b c d) = p"
    if "p = quat a b c d" "quads p = 1" for a b c d p
    using that by (simp add: coords)
  note * = this [OF _ YPR_quaternion_unit]
  show ?thesis
    unfolding Quaternion_of_YPR_def Let_def
    by (rule *) (simp add: YPR_toQuaternion_def Let_def algebra_simps)
qed

lemma rotation_m33:
  "rotationX Matrix_new t = m33 1 0 0 0 (cos t) (- sin t) 0 (sin t) (cos t)"
  "rotationY Matrix_new t = m33 (cos t) 0 (sin t) 0 1 0 (- sin t) 0 (cos t)"
  "rotationZ Matrix_new t = m33 (cos t) (- sin t) 0 (sin t) (cos t) 0 0 0 1"
  by (simp_all add: rotation_columns coords)

lemma axis_quaternion_matrix:
  "Quaternion_toMatrix3D (qX t) = rotationX Matrix_new t" "Quaternion_toMatrix3D (qY t) = rotationY Matrix_new t"
  "Quaternion_toMatrix3D (qZ t) = rotationZ Matrix_new t"
  using half_angle(3) [of t]
  unfolding rotation_m33 qX_def qY_def qZ_def Quaternion_toMatrix3D_quat m33_cong half_angle(1,2) [of t]
  by (simp_all, (intro conjI; use half_angle(3) [of t] in linarith)+)

lemma Quaternion_toMatrix3D_qMult:
  assumes "quads p = 1" "quads r = 1"
  shows "Quaternion_toMatrix3D (qMult p r) = mMult 3 3 3 (Quaternion_toMatrix3D p) (Quaternion_toMatrix3D r)"
proof -
  obtain w x y z where p: "p = quat w x y z" by (rule quat_cases)
  obtain a b c d where r: "r = quat a b c d" by (rule quat_cases)
  have "w * w + x * x + y * y + z * z = 1" "a * a + b * b + c * c + d * d = 1" using assms by (simp_all add: p r coords)
  then show ?thesis
    unfolding p r by (simp add: coords) (intro conjI; algebra)
qed

lemma YPR_toMatrix3D_product:
  "YPR_toMatrix3D y = mMult 3 3 3 (mMult 3 3 3 (rotationZ Matrix_new (yaw y)) (rotationY Matrix_new (pitch y))) (rotationX Matrix_new (roll y))"
  by (simp add: YPR_toMatrix3D_def rotation_m33 coords Let_def algebra_simps)

lemma YPR_matrix_quaternion: "Quaternion_toMatrix3D (YPR_toQuaternion y) = YPR_toMatrix3D y"
  by (simp add: YPR_toQuaternion_product YPR_toMatrix3D_product Quaternion_toMatrix3D_qMult quads_qMult
      unit_axis_quaternions axis_quaternion_matrix)

lemma Matrix3D_of_YPR_same: "Matrix3D_of_YPR y = YPR_toMatrix3D y"
  by (simp add: Matrix3D_of_YPR_def YPR_toMatrix3D_def)

text \<open>The six functions that compute the angles agree.\<close>

lemma toYPR_same: "Matrix3D_toYPR M = YPR_of_Matrix3D M"
  by (simp add: Matrix3D_toYPR_def YPR_of_Matrix3D_def)

lemma YPR_of_Quaternion_same: "YPR_of_Quaternion p = YPR_of_Matrix3D (Quaternion_toMatrix3D p)"
  by (rule quat_cases [of p]) (simp add: YPR_of_Quaternion_def YPR_of_Matrix3D_def coords Let_def mult.commute mult.left_commute)

lemma YPR_of_AngleAxis_same:
  "YPR_of_AngleAxis a = YPR_of_Matrix3D (AngleAxis_toMatrix3D a)" "AngleAxis_toYPR a = YPR_of_Matrix3D (AngleAxis_toMatrix3D a)"
  by (simp_all add: YPR_of_AngleAxis_def AngleAxis_toYPR_def YPR_of_Matrix3D_def AngleAxis_toMatrix3D_def Let_def mult.commute)

lemma atan2_arcsin:
  assumes "\<bar>s\<bar> \<le> 1"
  shows "atan2 s (sqrt (1 - s\<^sup>2)) = arcsin s"
proof -
  have "- 1 \<le> s" "s \<le> 1" using assms by auto
  then have "- pi < arcsin s" "arcsin s \<le> pi" "sin (arcsin s) = s" "cos (arcsin s) = sqrt (1 - s\<^sup>2)"
    using arcsin_lbound [of s] arcsin_ubound [of s] pi_gt_zero by (auto simp: cos_arcsin simp del: pi_gt_zero)
  with atan2_polar [of 1 "arcsin s"] show ?thesis by simp
qed

lemma Quaternion_toYPR_same:
  assumes "quads p = 1"
  shows "Quaternion_toYPR p = YPR_of_Matrix3D (Quaternion_toMatrix3D p)"
proof -
  obtain w x y z where p: "p = quat w x y z" by (rule quat_cases)
  have unit: "w * w + x * x + y * y + z * z = 1" using assms by (simp add: p coords)
  let ?s = "2 * (w * y - z * x)" and ?m11 = "2 * w * w - 1 + 2 * x * x" and ?m21 = "2 * y * x + 2 * w * z"
  have sq: "?m11 * ?m11 + ?m21 * ?m21 = 1 - ?s\<^sup>2"
    using unit by algebra
  then have "?s\<^sup>2 \<le> 1" using sum_squares_ge_zero [of ?m11 ?m21] by linarith
  then have s: "\<bar>?s\<bar> \<le> 1" by (simp add: abs_square_le_1)
  have eqs: "1 - 2 * (y * y + z * z) = ?m11" "1 - 2 * (x * x + y * y) = 2 * w * w - 1 + 2 * z * z"
    "2 * (w * z + x * y) = ?m21" "2 * (w * x + y * z) = 2 * y * z + 2 * w * x"
    using unit by algebra+
  have "Quaternion_toYPR p = \<lparr>yaw = atan2 ?m21 ?m11, pitch = arcsin ?s, roll = atan2 (2 * y * z + 2 * w * x) (2 * w * w - 1 + 2 * z * z)\<rparr>"
    unfolding p Quaternion_toYPR_def Let_def quat_simps vec3_simps eqs
    using s by (simp only: if_not_P not_less abs_le_iff minus_le_iff)
  moreover have "atan2 (- (2 * z * x - 2 * w * y)) (sqrt (?m11 * ?m11 + ?m21 * ?m21)) = arcsin ?s"
  proof -
    have "- (2 * z * x - 2 * w * y) = ?s" by algebra
    then show ?thesis unfolding sq using atan2_arcsin [OF s] by (simp only:)
  qed
  ultimately show ?thesis
    unfolding p YPR_of_Matrix3D_def Let_def Quaternion_toMatrix3D_quat by (simp only: m33_at One_nat_def)
qed

lemma YPR_angles_back:
  assumes "- pi < yaw y" "yaw y \<le> pi" "\<bar>pitch y\<bar> < pi / 2" "- pi < roll y" "roll y \<le> pi"
  shows "YPR_of_Matrix3D (YPR_toMatrix3D y) = y"
proof -
  have k: "0 < cos (pitch y)" using assms(3) by (intro cos_gt_zero_pi) auto
  have "(cos (yaw y) * cos (pitch y)) * (cos (yaw y) * cos (pitch y)) + (sin (yaw y) * cos (pitch y)) * (sin (yaw y) * cos (pitch y)) =
      (cos (pitch y))\<^sup>2"
    using cos_sin_1 [of "yaw y"] by algebra
  then have "sqrt ((cos (yaw y) * cos (pitch y)) * (cos (yaw y) * cos (pitch y)) + (sin (yaw y) * cos (pitch y)) * (sin (yaw y) * cos (pitch y))) =
      cos (pitch y)"
    using k by simp
  moreover have "atan2 (cos (pitch y) * sin (yaw y)) (cos (pitch y) * cos (yaw y)) = yaw y"
    "atan2 (cos (pitch y) * sin (roll y)) (cos (pitch y) * cos (roll y)) = roll y"
    using assms by (simp_all add: atan2_polar k)
  moreover have "atan2 (1 * sin (pitch y)) (1 * cos (pitch y)) = pitch y"
    using assms(3) pi_gt_zero by (intro atan2_polar) (auto simp del: pi_gt_zero)
  ultimately show ?thesis
    by (simp add: YPR_of_Matrix3D_def YPR_toMatrix3D_def Let_def mult.commute)
qed

lemma rotation_entries:
  assumes "is_rotation M"
  shows "M 0 0 * M 0 0 + M 1 0 * M 1 0 + M 2 0 * M 2 0 = 1" "M 2 0 * M 2 0 + M 2 1 * M 2 1 + M 2 2 * M 2 2 = 1"
    "M 0 0 * M 0 1 + M 1 0 * M 1 1 + M 2 0 * M 2 1 = 0" "M 0 0 * M 0 2 + M 1 0 * M 1 2 + M 2 0 * M 2 2 = 0"
    "M 0 0 * M 1 1 - M 0 1 * M 1 0 = M 2 2" "M 0 2 * M 1 0 - M 0 0 * M 1 2 = M 2 1"
proof -
  have "determinant 3 M = 1" using assms by (simp add: is_rotation_def)
  then have det: "M 0 0 * M 1 1 * M 2 2 + M 0 1 * M 1 2 * M 2 0 + M 0 2 * M 1 0 * M 2 1 - M 2 0 * M 1 1 * M 0 2 -
      M 2 1 * M 1 2 * M 0 0 - M 2 2 * M 1 0 * M 0 1 = 1"
    by (simp add: determinant.simps determinant3_def Let_def)
  have rows: "M 0 0 * M 2 0 + M 0 1 * M 2 1 + M 0 2 * M 2 2 = 0" "M 1 0 * M 2 0 + M 1 1 * M 2 1 + M 1 2 * M 2 2 = 0"
    "M 2 0 * M 2 0 + M 2 1 * M 2 1 + M 2 2 * M 2 2 = 1"
    using assms by (simp_all add: is_rotation_def coords)
  show "M 0 0 * M 1 1 - M 0 1 * M 1 0 = M 2 2" "M 0 2 * M 1 0 - M 0 0 * M 1 2 = M 2 1"
    using det rows by algebra+
qed (use assms in \<open>simp_all add: is_rotation_def coords\<close>)

lemma euler_entries:
  fixes k :: real
  assumes "k * cy = a" "k * sy = d" "k * cr = i" "k * sr = h" "k * k = a * a + d * d"
  shows "a * b + d * e + g * h = 0 \<Longrightarrow> a * e - b * d = i \<Longrightarrow> k * k * (cy * (- g) * sr - sy * cr) = k * k * b"
    and "a * c + d * f + g * i = 0 \<Longrightarrow> c * d - a * f = h \<Longrightarrow> k * k * (cy * (- g) * cr + sy * sr) = k * k * c"
    and "a * b + d * e + g * h = 0 \<Longrightarrow> a * e - b * d = i \<Longrightarrow> k * k * (sy * (- g) * sr + cy * cr) = k * k * e"
    and "a * c + d * f + g * i = 0 \<Longrightarrow> c * d - a * f = h \<Longrightarrow> k * k * (sy * (- g) * cr - cy * sr) = k * k * f"
proof -
  have *: "k * k * (cy * (- g) * sr - sy * cr) = a * (- g) * h - d * i" "k * k * (cy * (- g) * cr + sy * sr) = a * (- g) * i + d * h"
    "k * k * (sy * (- g) * sr + cy * cr) = d * (- g) * h + a * i" "k * k * (sy * (- g) * cr - cy * sr) = d * (- g) * i - a * h"
    by (simp_all add: assms(1-4) [symmetric] algebra_simps)
  show "a * b + d * e + g * h = 0 \<Longrightarrow> a * e - b * d = i \<Longrightarrow> k * k * (cy * (- g) * sr - sy * cr) = k * k * b"
    unfolding * unfolding assms(5) by algebra
  show "a * c + d * f + g * i = 0 \<Longrightarrow> c * d - a * f = h \<Longrightarrow> k * k * (cy * (- g) * cr + sy * sr) = k * k * c"
    unfolding * unfolding assms(5) by algebra
  show "a * b + d * e + g * h = 0 \<Longrightarrow> a * e - b * d = i \<Longrightarrow> k * k * (sy * (- g) * sr + cy * cr) = k * k * e"
    unfolding * unfolding assms(5) by algebra
  show "a * c + d * f + g * i = 0 \<Longrightarrow> c * d - a * f = h \<Longrightarrow> k * k * (sy * (- g) * cr - cy * sr) = k * k * f"
    unfolding * unfolding assms(5) by algebra
qed

lemma YPR_matrix_back:
  assumes M: "is_rotation M" "\<And>i j. \<not> (i < 3 \<and> j < 3) \<Longrightarrow> M i j = 0" and nz: "M 0 0 \<noteq> 0 \<or> M 1 0 \<noteq> 0"
  shows "YPR_toMatrix3D (YPR_of_Matrix3D M) = M"
proof -
  note e = rotation_entries [OF M(1)]
  define k where "k = sqrt ((M 0 0)\<^sup>2 + (M 1 0)\<^sup>2)"
  have k: "0 < k" using nz by (simp add: k_def sum_power2_gt_zero_iff)
  have kk: "k * k = M 0 0 * M 0 0 + M 1 0 * M 1 0" by (simp add: k_def power2_eq_square)
  have kk': "k * k = M 2 1 * M 2 1 + M 2 2 * M 2 2" using kk e(1,2) by linarith
  let ?y = "YPR_of_Matrix3D M"
  have "sqrt (k\<^sup>2 + (- M 2 0)\<^sup>2) = 1" using kk e(1) by (simp add: power2_eq_square)
  moreover have "pitch ?y = atan2 (- M 2 0) k" by (simp add: YPR_of_Matrix3D_def k_def power2_eq_square Let_def)
  ultimately have p: "cos (pitch ?y) = k" "sin (pitch ?y) = - M 2 0"
    using atan2_spec [of k "- M 2 0"] by simp_all
  have "yaw ?y = atan2 (M 1 0) (M 0 0)" by (simp add: YPR_of_Matrix3D_def Let_def)
  then have y: "k * cos (yaw ?y) = M 0 0" "k * sin (yaw ?y) = M 1 0"
    using atan2_spec [of "M 0 0" "M 1 0"] by (simp_all add: k_def)
  have "k = sqrt ((M 2 2)\<^sup>2 + (M 2 1)\<^sup>2)"
    using k kk' by (intro real_sqrt_unique [symmetric]) (simp_all add: power2_eq_square)
  moreover have "roll ?y = atan2 (M 2 1) (M 2 2)" by (simp add: YPR_of_Matrix3D_def Let_def)
  ultimately have r: "k * cos (roll ?y) = M 2 2" "k * sin (roll ?y) = M 2 1"
    using atan2_spec [of "M 2 2" "M 2 1"] by simp_all
  have entry: "a = b" if "k * k * a = k * k * b" for a b using that k by simp
  have M: "M = m33 (M 0 0) (M 0 1) (M 0 2) (M 1 0) (M 1 1) (M 1 2) (M 2 0) (M 2 1) (M 2 2)"
    by (rule m33I [OF M(2)]) simp_all
  show ?thesis
  proof -
    let ?cy = "cos (yaw ?y)" and ?sy = "sin (yaw ?y)" and ?cr = "cos (roll ?y)" and ?sr = "sin (roll ?y)"
    have "?cy * (- M 2 0) * ?sr - ?sy * ?cr = M 0 1"
      by (rule entry) (rule euler_entries(1) [OF y r kk e(3,5)])
    moreover have "?cy * (- M 2 0) * ?cr + ?sy * ?sr = M 0 2"
      by (rule entry) (rule euler_entries(2) [OF y r kk e(4,6)])
    moreover have "?sy * (- M 2 0) * ?sr + ?cy * ?cr = M 1 1"
      by (rule entry) (rule euler_entries(3) [OF y r kk e(3,5)])
    moreover have "?sy * (- M 2 0) * ?cr - ?cy * ?sr = M 1 2"
      by (rule entry) (rule euler_entries(4) [OF y r kk e(4,6)])
    ultimately have "YPR_toMatrix3D ?y = m33 (M 0 0) (M 0 1) (M 0 2) (M 1 0) (M 1 1) (M 1 2) (M 2 0) (M 2 1) (M 2 2)"
      using y r by (simp add: YPR_toMatrix3D_def Let_def p m33_cong mult.commute)
    with M show ?thesis by simp
  qed
qed

lemma Quaternion_toMatrix3D_outside: "\<not> (i < 3 \<and> j < 3) \<Longrightarrow> Quaternion_toMatrix3D p i j = 0"
  unfolding Quaternion_toMatrix3D_def Let_def by (rule m33_outside)

text \<open>Accumulated rotations are the product of the rotations, unless the sum points straight up or down.\<close>

lemma accumulateRotation_product:
  assumes "let M = mMult 3 3 3 (YPR_toMatrix3D y) (YPR_toMatrix3D inc) in M 0 0 \<noteq> 0 \<or> M 1 0 \<noteq> 0"
  shows "YPR_toMatrix3D (accumulateRotation y inc) = mMult 3 3 3 (YPR_toMatrix3D y) (YPR_toMatrix3D inc)"
proof -
  let ?p = "qMult (YPR_toQuaternion y) (YPR_toQuaternion inc)"
  have p: "quads ?p = 1" by (simp add: quads_qMult YPR_quaternion_unit)
  have M: "Quaternion_toMatrix3D ?p = mMult 3 3 3 (YPR_toMatrix3D y) (YPR_toMatrix3D inc)"
    by (simp only: Quaternion_toMatrix3D_qMult YPR_quaternion_unit YPR_matrix_quaternion)
  have "accumulateRotation y inc = YPR_of_Matrix3D (Quaternion_toMatrix3D ?p)"
    by (simp only: accumulateRotation_def Let_def Quaternion_of_YPR_same Quaternion_toYPR_same [OF p])
  then show ?thesis
    using YPR_matrix_back [OF Quaternion_is_rotation [OF p] Quaternion_toMatrix3D_outside] assms
    unfolding Let_def M by simp
qed

text \<open>
  C40. Yaw, pitch and roll: the matrix is the product of the rotations about z, y and x and the matrix of the quaternion,
  which has length 1; from the matrix and from the quaternion, by each of the functions of the library, the same angles
  come back, if yaw and roll are in (-pi, pi] and the pitch in (-pi/2, pi/2).
\<close>

theorem ypr_roundtrip:
  assumes "- pi < yaw y" "yaw y \<le> pi" "\<bar>pitch y\<bar> < pi / 2" "- pi < roll y" "roll y \<le> pi"
  shows "YPR_of_Matrix3D (YPR_toMatrix3D y) = y \<and> Matrix3D_toYPR (YPR_toMatrix3D y) = y \<and>
    Quaternion_toYPR (YPR_toQuaternion y) = y \<and> YPR_of_Quaternion (YPR_toQuaternion y) = y \<and>
    Quaternion_toMatrix3D (YPR_toQuaternion y) = YPR_toMatrix3D y \<and> Quaternion_of_YPR y = YPR_toQuaternion y \<and>
    qLen (YPR_toQuaternion y) = 1 \<and>
    YPR_toMatrix3D y = mMult 3 3 3 (mMult 3 3 3 (rotationZ Matrix_new (yaw y)) (rotationY Matrix_new (pitch y)))
      (rotationX Matrix_new (roll y))"
  using YPR_angles_back [OF assms]
  by (simp add: toYPR_same Quaternion_toYPR_same YPR_of_Quaternion_same YPR_quaternion_unit YPR_matrix_quaternion
      Quaternion_of_YPR_same qLen_1 YPR_toMatrix3D_product [symmetric])

theorem ypr_roundtrip_witness:
  "let y = \<lparr>yaw = pi / 2, pitch = 0, roll = 1\<rparr> in Quaternion_toYPR (YPR_toQuaternion y) = y"
  using ypr_roundtrip [of "\<lparr>yaw = pi / 2, pitch = 0, roll = 1\<rparr>"] pi_ge_two by (simp add: Let_def)

text \<open>
  The quaternion computed from the rotation matrix of a unit quaternion is that quaternion or its negative, which
  describe the same rotation: the matrix of the result is the matrix again. It does not matter that the four cases test
  the variable an earlier case has changed.
\<close>

lemma quaternion_matrix_roundtrip:
  assumes "qLen p = 1"
  shows "(Matrix3D_toQuaternion (Quaternion_toMatrix3D p) = p \<or> Matrix3D_toQuaternion (Quaternion_toMatrix3D p) = qScale p (- 1)) \<and>
    Quaternion_of_Matrix3D (Quaternion_toMatrix3D p) = Matrix3D_toQuaternion (Quaternion_toMatrix3D p) \<and>
    Quaternion_toMatrix3D (Matrix3D_toQuaternion (Quaternion_toMatrix3D p)) = Quaternion_toMatrix3D p \<and>
    Matrix3D_of_Quaternion p = Quaternion_toMatrix3D p \<and> is_rotation (Quaternion_toMatrix3D p) \<and>
    qRotate v p = mRotate v (Quaternion_toMatrix3D p)"
proof -
  have p: "quads p = 1" using assms by (simp add: qLen_1)
  have neg: "Quaternion_toMatrix3D (qScale p (- 1)) = Quaternion_toMatrix3D p"
    by (rule quat_cases [of p]) (simp add: coords)
  have same: "Quaternion_of_Matrix3D M = Matrix3D_toQuaternion M" for M
    by (simp only: Quaternion_of_Matrix3D_def Matrix3D_toQuaternion_def)
  show ?thesis
    using matrix_quaternion_back [OF p] neg Quaternion_is_rotation [OF p] qRotate_toMatrix3D [OF p, of v]
    by (auto simp: same Matrix3D_of_Quaternion_same same_rotation_def)
qed

lemma quaternion_matrix_roundtrip_witness:
  "let p = quat (- 1 / 2) (1 / 2) (1 / 2) (1 / 2)
   in qLen p = 1 \<and> (Matrix3D_toQuaternion (Quaternion_toMatrix3D p) = p \<or> Matrix3D_toQuaternion (Quaternion_toMatrix3D p) = qScale p (- 1))"
  using quaternion_matrix_roundtrip [of "quat (- 1 / 2) (1 / 2) (1 / 2) (1 / 2)"] by (simp add: Let_def qLen_def coords)

section \<open>Back to axis and angle\<close>

lemma Quaternion_toAngleAxis_back:
  assumes "getLen (aa_u a) = 1" "0 < aa_phi a" "aa_phi a < 2 * pi"
  shows "Quaternion_toAngleAxis (AngleAxis_toQuaternion a) = a" "AngleAxis_of_Quaternion (AngleAxis_toQuaternion a) = a"
proof -
  have s: "0 < sin (aa_phi a / 2)" using assms by (intro sin_gt_zero) auto
  have "vec_normalize (scale (aa_u a) (sin (aa_phi a / 2))) = aa_u a"
    using s assms(1) by (intro Vector3D_eqI) (simp_all add: vec_normalize_scale getLen_scale, simp_all add: scale_def)
  moreover have "arccos (cos (aa_phi a / 2)) = aa_phi a / 2" using assms by (intro arccos_cos) auto
  ultimately show "Quaternion_toAngleAxis (AngleAxis_toQuaternion a) = a" "AngleAxis_of_Quaternion (AngleAxis_toQuaternion a) = a"
    using assms(1) by (simp_all add: Quaternion_toAngleAxis_def AngleAxis_of_Quaternion_def AngleAxis_of_def Quaternion_getAngle_def
        Quaternion_getVec_def AngleAxis_toQuaternion_def vec_normalize_unit)
qed

lemma Matrix3D_toAngleAxis_back:
  assumes "getLen (aa_u a) = 1" "0 < aa_phi a" "aa_phi a < pi"
  shows "Matrix3D_toAngleAxis (AngleAxis_toMatrix3D a) = a" "AngleAxis_of_Matrix3D (AngleAxis_toMatrix3D a) = a"
proof -
  let ?M = "AngleAxis_toMatrix3D a" and ?u = "aa_u a"
  have s: "0 < sin (aa_phi a)" using assms by (intro sin_gt_zero) auto
  have u: "vx ?u * vx ?u + vy ?u * vy ?u + vz ?u * vz ?u = 1" using assms(1) by (simp add: getLen_1)
  have "?M 0 0 + ?M 1 1 + ?M 2 2 - 1 = (vx ?u * vx ?u + vy ?u * vy ?u + vz ?u * vz ?u) * (1 - cos (aa_phi a)) + 3 * cos (aa_phi a) - 1"
    by (simp add: AngleAxis_toMatrix3D_def Let_def algebra_simps)
  then have phi: "arccos (1 / 2 * (?M 0 0 + ?M 1 1 + ?M 2 2 - 1)) = aa_phi a"
    unfolding u using assms by (simp add: arccos_cos)
  have "?M 2 1 - ?M 1 2 = 2 * vx ?u * sin (aa_phi a)" "?M 0 2 - ?M 2 0 = 2 * vy ?u * sin (aa_phi a)"
    "?M 1 0 - ?M 0 1 = 2 * vz ?u * sin (aa_phi a)"
    by (simp_all add: AngleAxis_toMatrix3D_def Let_def mult.commute mult.left_commute)
  then have "vec3 (1 / (2 * sin (aa_phi a)) * (?M 2 1 - ?M 1 2)) (1 / (2 * sin (aa_phi a)) * (?M 0 2 - ?M 2 0))
      (1 / (2 * sin (aa_phi a)) * (?M 1 0 - ?M 0 1)) = ?u"
    using s by (intro Vector3D_eqI) simp_all
  with phi assms(1) show "Matrix3D_toAngleAxis ?M = a" "AngleAxis_of_Matrix3D ?M = a"
    unfolding Matrix3D_toAngleAxis_def AngleAxis_of_Matrix3D_def Let_def by (simp_all add: AngleAxis_of_def vec_normalize_unit)
qed

text \<open>\<open>rotor\<close> turns one direction into another that is not parallel to it.\<close>

lemma rotor_unit:
  assumes "dot f f = 1" "dot t t = 1" "\<bar>dot f t\<bar> < 1"
  shows "aRotate f \<lparr>aa_u = vec_normalize (cross f t), aa_phi = arccos (dot f t)\<rparr> = t"
proof -
  obtain a b c where f: "f = vec3 a b c" by (rule vec3_cases)
  obtain x y z where t: "t = vec3 x y z" by (rule vec3_cases)
  have ff: "a * a + b * b + c * c = 1" and tt: "x * x + y * y + z * z = 1"
    using assms by (simp_all add: f t dot_def)
  let ?n = "cross f t" and ?d = "dot f t"
  have "dot ?n ?n = 1 - ?d\<^sup>2"
    unfolding f t cross_def dot_def vec3_simps using ff tt by algebra
  then have len: "getLen ?n = sqrt (1 - ?d\<^sup>2)" by (simp add: getLen_def dot_def)
  have "?d\<^sup>2 < 1" using assms(3) by (simp add: abs_square_less_1)
  then have pos: "0 < getLen ?n" by (simp add: len)
  have "cos (arccos ?d) = ?d" "sin (arccos ?d) = getLen ?n"
    using assms(3) by (simp_all add: len sin_arccos_abs)
  moreover have "cross (vec_normalize ?n) (scale f (getLen ?n)) = cross ?n f"
    using pos by (simp add: vec_normalize_def cross_def scale_def Let_def field_simps)
  moreover have "dot (vec_normalize ?n) f = 0"
    using pos by (simp add: vec_normalize_def Let_def f t cross_def dot_def field_simps)
  moreover have "vecAdd (scale f ?d) (cross ?n f) = t"
    unfolding f t cross_def dot_def scale_def vecAdd_def vec3_simps vec3_eq using ff by (intro conjI; algebra)
  ultimately show ?thesis
    by (simp add: aRotate_def) (simp add: vecAdd_def scale_def)
qed

end
