(* ===== verification/Matlib_Frames.thy ===== *)
theory Matlib_Frames
  imports Matlib_Rotation Result_Code
begin

text \<open>
  The operations of \<open>homogenous.h\<close> and \<open>coordinateframe3d.h\<close> and the functions of \<open>matlib.cpp\<close> that find a rotation
  from two pairs of vectors. The theorems: \<open>hinvert\<close> inverts a transformation, \<open>direction_cos_matrix_from_vectors\<close>
  returns the rotation that takes the first pair of directions to the second, and an accepted result of
  \<open>findRotationsAngleAxis\<close> takes the first direction to its image.
\<close>

section \<open>homogenous.h\<close>

definition HTransform_of :: "real mat \<Rightarrow> Vector3D \<Rightarrow> real mat" where
  "HTransform_of rot translation =
     (let r = for_each 3 3 (\<lambda>i j. rot i j) Matrix_new;
          r = r(0 := (r 0)(3 := vx translation));
          r = r(1 := (r 1)(3 := vy translation));
          r = r(2 := (r 2)(3 := vz translation));
          r = r(3 := (r 3)(3 := 1));
          r = r(3 := (r 3)(0 := 0));
          r = r(3 := (r 3)(1 := 0))
      in r(3 := (r 3)(2 := 0)))"

definition getRotation :: "real mat \<Rightarrow> real mat" where
  "getRotation r = for_each 3 3 (\<lambda>i j. r i j) Matrix_new"

definition getTranslation :: "real mat \<Rightarrow> Vector3D" where
  "getTranslation r = vec3 (r 0 3) (r 1 3) (r 2 3)"

definition hinvert :: "real mat \<Rightarrow> real mat" where
  "hinvert r =
     (let transpose = Matrix_transpose 3 3 (getRotation r);
          invtrans = matVecMult (getTranslation r) transpose;
          invtrans = scale invtrans (- 1)
      in HTransform_of transpose invtrans)"

definition toHCoord :: "Vector3D \<Rightarrow> real mat" where
  "toHCoord v = Matrix_of_array 4 1 [vx v, vy v, vz v, 1]"

definition to3D :: "real mat \<Rightarrow> Vector3D" where
  "to3D r = vec3 (r 0 0 / r 3 0) (r 1 0 / r 3 0) (r 2 0 / r 3 0)"

section \<open>coordinateframe3d.h\<close>

record CoordinateFrame3D =
  frame_x :: Vector3D
  frame_y :: Vector3D
  frame_z :: Vector3D
  frame_origin :: Vector3D

definition CoordinateFrame3D_new :: CoordinateFrame3D where
  "CoordinateFrame3D_new = \<lparr>frame_x = vec3 1 0 0, frame_y = vec3 0 1 0, frame_z = vec3 0 0 1, frame_origin = vec3 0 0 0\<rparr>"

definition CoordinateFrame3D_of_axes :: "Vector3D \<Rightarrow> Vector3D \<Rightarrow> Vector3D \<Rightarrow> Vector3D \<Rightarrow> CoordinateFrame3D" where
  "CoordinateFrame3D_of_axes x y z origin =
     \<lparr>frame_x = vec_normalize x, frame_y = vec_normalize y, frame_z = vec_normalize z, frame_origin = origin\<rparr>"

definition CoordinateFrame3D_of :: "Vector3D \<Rightarrow> Vector3D \<Rightarrow> Vector3D \<Rightarrow> CoordinateFrame3D" where
  "CoordinateFrame3D_of x y origin =
     (let y' = vec_normalize (cross x y)
      in \<lparr>frame_x = vec_normalize x, frame_y = y', frame_z = vec_normalize (cross x y'), frame_origin = origin\<rparr>)"

definition mapTo :: "CoordinateFrame3D \<Rightarrow> CoordinateFrame3D \<Rightarrow> real mat" where
  "mapTo f rotated =
     (let R = m33 (dot (frame_x f) (frame_x rotated)) (dot (frame_x f) (frame_y rotated)) (dot (frame_x f) (frame_z rotated))
                  (dot (frame_y f) (frame_x rotated)) (dot (frame_y f) (frame_y rotated)) (dot (frame_y f) (frame_z rotated))
                  (dot (frame_z f) (frame_x rotated)) (dot (frame_z f) (frame_y rotated)) (dot (frame_z f) (frame_z rotated));
          translation = vecSub (frame_origin rotated) (frame_origin f)
      in HTransform_of R translation)"

definition frame_translate :: "CoordinateFrame3D \<Rightarrow> Vector3D \<Rightarrow> CoordinateFrame3D" where
  "frame_translate f translation = f\<lparr>frame_origin := vecAdd (frame_origin f) translation\<rparr>"

definition frame_rotate_matrix :: "CoordinateFrame3D \<Rightarrow> real mat \<Rightarrow> CoordinateFrame3D" where
  "frame_rotate_matrix f rot =
     \<lparr>frame_x = mRotate (frame_x f) rot, frame_y = mRotate (frame_y f) rot, frame_z = mRotate (frame_z f) rot,
      frame_origin = frame_origin f\<rparr>"

definition frame_rotate_quaternion :: "CoordinateFrame3D \<Rightarrow> Quaternion \<Rightarrow> CoordinateFrame3D" where
  "frame_rotate_quaternion f p =
     \<lparr>frame_x = qRotate (frame_x f) p, frame_y = qRotate (frame_y f) p, frame_z = qRotate (frame_x f) p,
      frame_origin = frame_origin f\<rparr>"

definition frame_assign :: "CoordinateFrame3D \<Rightarrow> CoordinateFrame3D" where
  "frame_assign other =
     \<lparr>frame_x = vec3 (vx (frame_x other)) (vy (frame_x other)) (vz (frame_x other)),
      frame_y = vec3 (vx (frame_x other)) (vy (frame_x other)) (vz (frame_x other)),
      frame_z = vec3 (vx (frame_z other)) (vy (frame_z other)) (vz (frame_z other)),
      frame_origin = vec3 (vx (frame_origin other)) (vy (frame_origin other)) (vz (frame_origin other))\<rparr>"

section \<open>matlib.cpp: rotations from pairs of vectors\<close>

definition findRotationsAngleAxis :: "Vector3D \<Rightarrow> Vector3D \<Rightarrow> Vector3D \<Rightarrow> Vector3D \<Rightarrow> AngleAxis Result" where
  "findRotationsAngleAxis fromA toA fromB toB =
     (let fromA = vec_normalize fromA; toA = vec_normalize toA; fromB = vec_normalize fromB; toB = vec_normalize toB;
          rotA = vecSub toA fromA; rotB = vecSub toB fromB;
          rotAxis = vec_normalize (cross rotA rotB);
          projectionFromA = vec_normalize (vecSub fromA (scale rotAxis (dot fromA rotAxis)));
          projectionToA = vec_normalize (vecSub toA (scale rotAxis (dot toA rotAxis)));
          projectionFromB = vec_normalize (vecSub fromB (scale rotAxis (dot fromB rotAxis)));
          projectionToB = vec_normalize (vecSub toB (scale rotAxis (dot toB rotAxis)));
          cosAngleA = dot projectionFromA projectionToA;
          cosAngleB = dot projectionFromB projectionToB
      in if \<not> isAlmost0 (cosAngleA - cosAngleB) then Result_of_error AngleAxis_new VECTOR_LEN
         else let rotor = AngleAxis_of (arccos cosAngleA) rotAxis;
                  newA = aRotate fromA rotor;
                  rotor = (if \<not> Vector3D_equals newA toA then rotor\<lparr>aa_u := scale (aa_u rotor) (- 1)\<rparr> else rotor);
                  newA = aRotate fromA rotor
              in if \<not> Vector3D_equals newA toA then Result_of_both COLINEAR_VECTORS rotor else Result_of_value rotor)"

definition DCM_generator :: "Vector3D \<Rightarrow> Vector3D \<Rightarrow> Vector3D \<Rightarrow> Vector3D \<Rightarrow> real mat" where
  "DCM_generator fromA toA fromB toB =
     (let fromA = vec_normalize fromA; toA = vec_normalize toA; fromB = vec_normalize fromB; toB = vec_normalize toB;
          fromX = fromA; fromZ = cross fromA fromB; fromY = cross fromZ fromX;
          toX = toA; toZ = cross toA toB; toY = cross toZ toX;
          fromX = vec_normalize fromX; fromY = vec_normalize fromY; fromZ = vec_normalize fromZ;
          toX = vec_normalize toX; toY = vec_normalize toY; toZ = vec_normalize toZ
      in m33 (dot fromX toX) (dot fromX toY) (dot fromX toZ)
             (dot fromY toX) (dot fromY toY) (dot fromY toZ)
             (dot fromZ toX) (dot fromZ toY) (dot fromZ toZ))"

definition direction_cos_matrix_from_vectors :: "Vector3D \<Rightarrow> Vector3D \<Rightarrow> Vector3D \<Rightarrow> Vector3D \<Rightarrow> real mat" where
  "direction_cos_matrix_from_vectors fromA toA fromB toB =
     (let x = vec3 1 0 0; y = vec3 0 1 0;
          m1 = DCM_generator fromA x fromB y;
          m2 = DCM_generator x toA y toB
      in mMult 3 3 3 m2 m1)"

section \<open>Rotation matrices\<close>

lemma rotationI:
  assumes "\<And>i j. \<not> (i < 3 \<and> j < 3) \<Longrightarrow> M i j = 0"
    and "mMult 3 3 3 (Matrix_transpose 3 3 M) M = Matrix_eye 3 3 1" "determinant 3 M = 1"
  shows "is_rotation M"
proof -
  let ?T = "Matrix_transpose 3 3 M" and ?R = "invert 3 M"
  have MR: "mMult 3 3 3 M ?R = Matrix_eye 3 3 1"
    using assms(3) by (intro mMult_invert_right) simp_all
  have "?T = mMult 3 3 3 ?T (mMult 3 3 3 M ?R)"
    unfolding MR by (rule mMult_eye(2) [symmetric]) (auto simp: matrix_at)
  also have "\<dots> = mMult 3 3 3 (Matrix_eye 3 3 1) ?R"
    by (simp only: mMult_assoc [symmetric] assms(2))
  also have "\<dots> = ?R"
    using assms(3) by (intro mMult_eye(1)) (auto simp: invert_at)
  finally show ?thesis
    using assms MR by (simp add: is_rotation_def)
qed

lemma determinant_3:
  "determinant 3 r = r 0 0 * r 1 1 * r 2 2 + r 0 1 * r 1 2 * r 2 0 + r 0 2 * r 1 0 * r 2 1 - r 2 0 * r 1 1 * r 0 2 -
     r 2 1 * r 1 2 * r 0 0 - r 2 2 * r 1 0 * r 0 1"
  by (simp add: determinant.simps determinant3_def Let_def)

lemma determinant_mMult3: "determinant 3 (mMult 3 3 3 A B) = determinant 3 A * determinant 3 B" for A B :: "real mat"
  unfolding mMult_m33 determinant_m33 unfolding determinant_3 by algebra

lemma is_rotation_mMult:
  assumes "is_rotation A" "is_rotation B"
  shows "is_rotation (mMult 3 3 3 A B)"
proof (rule rotationI)
  show "mMult 3 3 3 A B i j = 0" if "\<not> (i < 3 \<and> j < 3)" for i j
    using that by (auto simp: mMult_at)
  have "mMult 3 3 3 (Matrix_transpose 3 3 (mMult 3 3 3 A B)) (mMult 3 3 3 A B) =
      mMult 3 3 3 (Matrix_transpose 3 3 B) (mMult 3 3 3 (mMult 3 3 3 (Matrix_transpose 3 3 A) A) B)"
    by (simp only: transpose_mMult mMult_assoc)
  also have "mMult 3 3 3 (mMult 3 3 3 (Matrix_transpose 3 3 A) A) B = mMult 3 3 3 (Matrix_eye 3 3 1) B"
    using assms(1) by (simp only: is_rotation_def)
  also have "mMult 3 3 3 (Matrix_transpose 3 3 B) (mMult 3 3 3 (Matrix_eye 3 3 1) B) =
      mMult 3 3 3 (mMult 3 3 3 (Matrix_transpose 3 3 B) (Matrix_eye 3 3 1)) B"
    by (simp only: mMult_assoc)
  also have "mMult 3 3 3 (Matrix_transpose 3 3 B) (Matrix_eye 3 3 1) = Matrix_transpose 3 3 B"
    by (rule mMult_eye(2)) (auto simp: matrix_at)
  finally show "mMult 3 3 3 (Matrix_transpose 3 3 (mMult 3 3 3 A B)) (mMult 3 3 3 A B) = Matrix_eye 3 3 1"
    using assms(2) by (simp add: is_rotation_def)
  show "determinant 3 (mMult 3 3 3 A B) = 1"
    using assms by (simp add: determinant_mMult3 is_rotation_def)
qed

text \<open>Three orthonormal vectors, the third the cross product of the others, as columns and as rows.\<close>

definition right_handed :: "Vector3D \<Rightarrow> Vector3D \<Rightarrow> Vector3D \<Rightarrow> bool" where
  "right_handed X Y Z \<longleftrightarrow> dot X X = 1 \<and> dot Y Y = 1 \<and> dot X Y = 0 \<and> Z = cross X Y"

lemma right_handed_third:
  assumes "right_handed X Y Z"
  shows "dot Z Z = 1" "dot X Z = 0" "dot Y Z = 0"
proof -
  obtain a b c where X: "X = vec3 a b c" by (rule vec3_cases)
  obtain x y z where Y: "Y = vec3 x y z" by (rule vec3_cases)
  have Z: "Z = cross X Y" and *: "a * a + b * b + c * c = 1" "x * x + y * y + z * z = 1" "a * x + b * y + c * z = 0"
    using assms by (simp_all add: right_handed_def X Y dot_def)
  show "dot Z Z = 1" "dot X Z = 0" "dot Y Z = 0"
    unfolding Z X Y cross_def dot_def vec3_simps using * by algebra+
qed

lemma columns_rotation:
  assumes "right_handed X Y Z"
  shows "is_rotation (Matrix3D_of_columns X Y Z)"
proof (rule rotationI)
  show "Matrix3D_of_columns X Y Z i j = 0" if "\<not> (i < 3 \<and> j < 3)" for i j
    unfolding Matrix3D_of_columns_m33 using that by (rule m33_outside)
  note r = right_handed_third [OF assms]
  show "mMult 3 3 3 (Matrix_transpose 3 3 (Matrix3D_of_columns X Y Z)) (Matrix3D_of_columns X Y Z) = Matrix_eye 3 3 1"
    using assms r unfolding right_handed_def dot_def
    by (simp add: coords mult.commute)
  have "determinant 3 (Matrix3D_of_columns X Y Z) = dot (cross X Y) Z"
    by (simp add: coords dot_def cross_def algebra_simps)
  also have "\<dots> = 1" using assms r by (simp add: right_handed_def)
  finally show "determinant 3 (Matrix3D_of_columns X Y Z) = 1" .
qed

lemma is_rotation_transpose:
  assumes "is_rotation M"
  shows "is_rotation (Matrix_transpose 3 3 M)"
proof (rule rotationI)
  show "Matrix_transpose 3 3 M i j = 0" if "\<not> (i < 3 \<and> j < 3)" for i j
    using that by (auto simp: matrix_at)
  have T: "mMult 3 3 3 (Matrix_transpose 3 3 (Matrix_transpose 3 3 M)) N = mMult 3 3 3 M N" for N
    by (simp add: coords)
  show "mMult 3 3 3 (Matrix_transpose 3 3 (Matrix_transpose 3 3 M)) (Matrix_transpose 3 3 M) = Matrix_eye 3 3 1"
    unfolding T using assms by (simp only: is_rotation_def)
  have "determinant 3 (Matrix_transpose 3 3 M) = determinant 3 M"
    unfolding transpose_m33 determinant_m33 unfolding determinant_3 by algebra
  with assms show "determinant 3 (Matrix_transpose 3 3 M) = 1" by (simp add: is_rotation_def)
qed

section \<open>The direction cosine matrix\<close>

text \<open>The frame that \<open>_DCM_generator\<close> builds from two unit vectors.\<close>

definition triad_y :: "Vector3D \<Rightarrow> Vector3D \<Rightarrow> Vector3D" where
  "triad_y a b = vec_normalize (cross (cross a b) a)"

definition triad_z :: "Vector3D \<Rightarrow> Vector3D \<Rightarrow> Vector3D" where
  "triad_z a b = vec_normalize (cross a b)"

lemma triad:
  assumes "dot a a = 1" "dot b b = 1" "\<bar>dot a b\<bar> < 1"
  defines "s \<equiv> sqrt (1 - (dot a b)\<^sup>2)"
  shows "0 < s" "s * s = 1 - dot a b * dot a b" "triad_y a b = scale (vecSub b (scale a (dot a b))) (1 / s)"
    "triad_z a b = scale (cross a b) (1 / s)" "right_handed a (triad_y a b) (triad_z a b)"
proof -
  obtain x y z where a: "a = vec3 x y z" by (rule vec3_cases)
  obtain u v w where b: "b = vec3 u v w" by (rule vec3_cases)
  have aa: "x * x + y * y + z * z = 1" and bb: "u * u + v * v + w * w = 1"
    using assms by (simp_all add: a b dot_def)
  have "(dot a b)\<^sup>2 < 1" using assms(3) by (simp add: abs_square_less_1)
  then show s: "0 < s" "s * s = 1 - dot a b * dot a b" by (simp_all add: s_def power2_eq_square)
  have W: "cross (cross a b) a = vecSub b (scale a (dot a b))"
    unfolding a b cross_def vecSub_def scale_def dot_def vec3_simps vec3_eq using aa by (intro conjI; algebra)
  have "dot (vecSub b (scale a (dot a b))) (vecSub b (scale a (dot a b))) = 1 - (dot a b)\<^sup>2"
    unfolding a b vecSub_def scale_def dot_def vec3_simps using aa bb by algebra
  then have "getLen (vecSub b (scale a (dot a b))) = s" by (simp add: getLen_def dot_def s_def)
  then show Y: "triad_y a b = scale (vecSub b (scale a (dot a b))) (1 / s)" by (simp add: triad_y_def W vec_normalize_scale)
  have "dot (cross a b) (cross a b) = 1 - (dot a b)\<^sup>2"
    unfolding a b cross_def dot_def vec3_simps using aa bb by algebra
  then have "getLen (cross a b) = s" by (simp add: getLen_def dot_def s_def)
  then show Z: "triad_z a b = scale (cross a b) (1 / s)" by (simp add: triad_z_def vec_normalize_scale)
  have "dot (triad_y a b) (triad_y a b) = dot (vecSub b (scale a (dot a b))) (vecSub b (scale a (dot a b))) / (s * s)"
    unfolding Y by (simp add: scale_def dot_def add_divide_distrib)
  also have "\<dots> = 1"
    using s(1) unfolding \<open>dot (vecSub b (scale a (dot a b))) (vecSub b (scale a (dot a b))) = 1 - (dot a b)\<^sup>2\<close> power2_eq_square s(2) [symmetric]
    by simp
  finally have "dot (triad_y a b) (triad_y a b) = 1" .
  moreover have "dot a (triad_y a b) = (dot a b - dot a a * dot a b) / s"
    unfolding Y by (simp add: scale_def dot_def vecSub_def diff_divide_distrib add_divide_distrib algebra_simps)
  moreover have "triad_z a b = cross a (triad_y a b)"
    unfolding Y Z by (simp add: scale_def cross_def vecSub_def algebra_simps diff_divide_distrib)
  ultimately show "right_handed a (triad_y a b) (triad_z a b)"
    using assms by (simp add: right_handed_def)
qed

lemma unit_axes:
  "vec_normalize (vec3 1 0 0) = vec3 1 0 0" "vec_normalize (vec3 0 1 0) = vec3 0 1 0" "vec_normalize (vec3 0 0 1) = vec3 0 0 1"
  "cross (vec3 1 0 0) (vec3 0 1 0) = vec3 0 0 1" "cross (vec3 0 0 1) (vec3 1 0 0) = vec3 0 1 0"
  by (simp_all add: vec_normalize_def getLen_def cross_def)

lemma vec_normalize_twice: "v \<noteq> vec3 0 0 0 \<Longrightarrow> vec_normalize (vec_normalize v) = vec_normalize v"
  by (simp add: vec_normalize_unit getLen_normalize)

lemma dot_axes: "dot v (vec3 1 0 0) = vx v" "dot v (vec3 0 1 0) = vy v" "dot v (vec3 0 0 1) = vz v"
  "dot (vec3 1 0 0) v = vx v" "dot (vec3 0 1 0) v = vy v" "dot (vec3 0 0 1) v = vz v"
  by (simp_all add: dot_def)

lemma DCM_from:
  assumes "v \<noteq> vec3 0 0 0"
  shows "DCM_generator v (vec3 1 0 0) w (vec3 0 1 0) = Matrix_transpose 3 3 (Matrix3D_of_columns (vec_normalize v)
     (triad_y (vec_normalize v) (vec_normalize w)) (triad_z (vec_normalize v) (vec_normalize w)))"
  unfolding DCM_generator_def Let_def unit_axes dot_axes vec_normalize_twice [OF assms] triad_y_def triad_z_def
  by (simp add: coords)

lemma DCM_to:
  assumes "v \<noteq> vec3 0 0 0"
  shows "DCM_generator (vec3 1 0 0) v (vec3 0 1 0) w = Matrix3D_of_columns (vec_normalize v)
     (triad_y (vec_normalize v) (vec_normalize w)) (triad_z (vec_normalize v) (vec_normalize w))"
  unfolding DCM_generator_def Let_def unit_axes dot_axes vec_normalize_twice [OF assms] triad_y_def triad_z_def
  by (simp add: coords)

lemma mRotate_mMult: "mRotate v (mMult 3 3 3 A B) = mRotate (mRotate v B) A"
  by (simp add: mRotate_def coords algebra_simps)

lemma mRotate_columns: "mRotate v (Matrix3D_of_columns X Y Z) = vecAdd (vecAdd (scale X (vx v)) (scale Y (vy v))) (scale Z (vz v))"
  by (simp add: mRotate_def coords vecAdd_def scale_def)

lemma mRotate_rows: "mRotate v (Matrix_transpose 3 3 (Matrix3D_of_columns X Y Z)) = vec3 (dot X v) (dot Y v) (dot Z v)"
  by (simp add: mRotate_def coords dot_def)

lemma triad_coordinates:
  assumes "dot a a = 1" "dot b b = 1" "\<bar>dot a b\<bar> < 1"
  shows "mRotate a (Matrix_transpose 3 3 (Matrix3D_of_columns a (triad_y a b) (triad_z a b))) = vec3 1 0 0"
    "mRotate b (Matrix_transpose 3 3 (Matrix3D_of_columns a (triad_y a b) (triad_z a b))) = vec3 (dot a b) (sqrt (1 - (dot a b)\<^sup>2)) 0"
    "mRotate (vec3 1 0 0) (Matrix3D_of_columns a (triad_y a b) (triad_z a b)) = a"
    "mRotate (vec3 (dot a b) (sqrt (1 - (dot a b)\<^sup>2)) 0) (Matrix3D_of_columns a (triad_y a b) (triad_z a b)) = b"
proof -
  define s where "s = sqrt (1 - (dot a b)\<^sup>2)"
  note t = triad [OF assms, folded s_def]
  have comm: "dot v w = dot w v" for v w by (simp add: dot_def mult.commute)
  have Y: "dot (triad_y a b) v = (dot b v - dot a b * dot a v) / s" for v
    unfolding t(3) by (simp add: scale_def vecSub_def dot_def add_divide_distrib diff_divide_distrib algebra_simps)
  have Z: "dot (triad_z a b) a = 0" "dot (triad_z a b) b = 0"
    unfolding t(4) by (simp_all add: scale_def cross_def dot_def algebra_simps diff_divide_distrib)
  show "mRotate a (Matrix_transpose 3 3 (Matrix3D_of_columns a (triad_y a b) (triad_z a b))) = vec3 1 0 0"
    unfolding mRotate_rows Y Z assms(1) comm [of b a] by simp
  have "(1 - dot a b * dot a b) / s = s" unfolding t(2) [symmetric] using t(1) by simp
  then show "mRotate b (Matrix_transpose 3 3 (Matrix3D_of_columns a (triad_y a b) (triad_z a b))) = vec3 (dot a b) (sqrt (1 - (dot a b)\<^sup>2)) 0"
    unfolding mRotate_rows Y Z assms(2) s_def [symmetric] by simp
  show "mRotate (vec3 1 0 0) (Matrix3D_of_columns a (triad_y a b) (triad_z a b)) = a"
    unfolding mRotate_columns by (simp add: vecAdd_def scale_def)
  show "mRotate (vec3 (dot a b) (sqrt (1 - (dot a b)\<^sup>2)) 0) (Matrix3D_of_columns a (triad_y a b) (triad_z a b)) = b"
    unfolding mRotate_columns t(3) s_def [symmetric] using t(1) by (simp add: vecAdd_def scale_def vecSub_def)
qed

lemma dot_normalize: "v \<noteq> vec3 0 0 0 \<Longrightarrow> dot (vec_normalize v) (vec_normalize v) = 1"
  using getLen_normalize [of v] getLen_square [of "vec_normalize v"] by simp

text \<open>
  If the angle between the vectors is the same before and after, and they are not collinear, then
  \<open>direction_cos_matrix_from_vectors\<close> returns the rotation that takes the direction of \<open>fromA\<close> to that of \<open>toA\<close> and the
  direction of \<open>fromB\<close> to that of \<open>toB\<close>.
\<close>

lemma direction_cos_matrix_rotates:
  assumes "fromA \<noteq> vec3 0 0 0" "fromB \<noteq> vec3 0 0 0" "toA \<noteq> vec3 0 0 0" "toB \<noteq> vec3 0 0 0"
    and "dot (vec_normalize fromA) (vec_normalize fromB) = dot (vec_normalize toA) (vec_normalize toB)" "\<bar>dot (vec_normalize toA) (vec_normalize toB)\<bar> < 1"
  shows "is_rotation (direction_cos_matrix_from_vectors fromA toA fromB toB) \<and>
    mRotate (vec_normalize fromA) (direction_cos_matrix_from_vectors fromA toA fromB toB) = vec_normalize toA \<and>
    mRotate (vec_normalize fromB) (direction_cos_matrix_from_vectors fromA toA fromB toB) = vec_normalize toB"
proof -
  let ?a = "vec_normalize fromA" and ?b = "vec_normalize fromB" and ?c = "vec_normalize toA" and ?d = "vec_normalize toB"
  note from_unit = dot_normalize [OF assms(1)] dot_normalize [OF assms(2)]
  note to_unit = dot_normalize [OF assms(3)] dot_normalize [OF assms(4)]
  have ab: "\<bar>dot ?a ?b\<bar> < 1" using assms(5,6) by simp
  note from_triad = triad(5) [OF from_unit ab] and to_triad = triad(5) [OF to_unit assms(6)]
  have M: "direction_cos_matrix_from_vectors fromA toA fromB toB =
      mMult 3 3 3 (Matrix3D_of_columns ?c (triad_y ?c ?d) (triad_z ?c ?d))
        (Matrix_transpose 3 3 (Matrix3D_of_columns ?a (triad_y ?a ?b) (triad_z ?a ?b)))"
    by (simp add: direction_cos_matrix_from_vectors_def Let_def DCM_from DCM_to assms)
  show ?thesis
    unfolding M mRotate_mMult triad_coordinates(1,2) [OF from_unit ab] unfolding assms(5) triad_coordinates(3,4) [OF to_unit assms(6)]
    using is_rotation_mMult [OF columns_rotation [OF to_triad] is_rotation_transpose [OF columns_rotation [OF from_triad]]]
    by blast
qed

lemma direction_cos_matrix_rotates_witness:
  "let M = direction_cos_matrix_from_vectors (vec3 2 0 0) (vec3 0 0 1) (vec3 0 1 0) (vec3 3 0 0)
   in is_rotation M \<and> mRotate (vec3 1 0 0) M = vec3 0 0 1 \<and> mRotate (vec3 0 1 0) M = vec3 1 0 0"
  using direction_cos_matrix_rotates [of "vec3 2 0 0" "vec3 0 1 0" "vec3 0 0 1" "vec3 3 0 0"]
  by (simp add: vec_normalize_def getLen_def dot_def Let_def)

text \<open>
  The generator itself gives the rotation in the coordinates of the frame it starts from: used directly it turns
  the wrong way unless one of the frames is the standard one, which is why the code has to go through it.
\<close>

lemma DCM_generator_wrong_frame:
  "mRotate (vec3 0 1 0) (DCM_generator (vec3 0 1 0) (vec3 0 (- 1) 0) (vec3 0 0 1) (vec3 0 0 1)) \<noteq> vec3 0 (- 1) 0"
  by (simp add: DCM_generator_def Let_def vec_normalize_def getLen_def cross_def dot_def mRotate_def coords)

text \<open>What \<open>findRotationsAngleAxis\<close> returns: on success the axis and angle take the first direction to its image, up to \<open>EPSILON\<close>.\<close>

lemma findRotationsAngleAxis_ok:
  assumes "isOk (findRotationsAngleAxis fromA toA fromB toB)"
  shows "Vector3D_equals (aRotate (vec_normalize fromA) (res_val (findRotationsAngleAxis fromA toA fromB toB))) (vec_normalize toA)"
proof -
  have ok: "ErrorCode_OK = 0" "VECTOR_LEN \<noteq> 0" "COLINEAR_VECTORS \<noteq> 0" by (simp_all add: ErrorCode_OK_def VECTOR_LEN_def COLINEAR_VECTORS_def)
  show ?thesis
    using assms unfolding findRotationsAngleAxis_def Let_def isOk_def
    by (simp add: Result_of_error_def Result_of_both_def Result_of_value_def ok split: if_splits)
qed

lemma rotor_rotates:
  assumes "fromVector \<noteq> vec3 0 0 0" "toVector \<noteq> vec3 0 0 0"
    and "\<not> isAlmost0 (getLen (cross (vec_normalize fromVector) (vec_normalize toVector)))"
  shows "aRotate (vec_normalize fromVector) (rotor fromVector toVector) = vec_normalize toVector"
proof -
  let ?f = "vec_normalize fromVector" and ?t = "vec_normalize toVector"
  obtain a b c where f: "?f = vec3 a b c" by (rule vec3_cases)
  obtain x y z where t: "?t = vec3 x y z" by (rule vec3_cases)
  have unit: "dot ?f ?f = 1" "dot ?t ?t = 1" using assms by (simp_all add: dot_normalize)
  have "0 < getLen (cross ?f ?t)"
    using assms(3) by (cases "getLen (cross ?f ?t) = 0") (simp_all add: isAlmost0_def EPSILON_def less_le)
  moreover have "dot (cross ?f ?t) (cross ?f ?t) = 1 - (dot ?f ?t)\<^sup>2"
    using unit unfolding f t cross_def dot_def vec3_simps by algebra
  ultimately have "(dot ?f ?t)\<^sup>2 < 1"
    using getLen_square [of "cross ?f ?t"] zero_less_mult_iff [of "getLen (cross ?f ?t)" "getLen (cross ?f ?t)"] by linarith
  then have "\<bar>dot ?f ?t\<bar> < 1" by (simp add: abs_square_less_1)
  note turn = rotor_unit [OF unit this]
  have nz: "cross ?f ?t \<noteq> vec3 0 0 0" using \<open>0 < getLen (cross ?f ?t)\<close> getLen_0 [of "cross ?f ?t"] by simp
  show ?thesis
    using assms(3) turn by (simp add: rotor_def AngleAxis_of_def vec_normalize_twice [OF nz] Let_def)
qed

text \<open>Opposite directions are treated like equal ones: the angle is 0.\<close>

lemma rotor_opposite: "aa_phi (rotor (vec3 1 0 0) (vec3 (- 1) 0 0)) = 0"
  by (simp add: rotor_def AngleAxis_of_def vec_normalize_def getLen_def cross_def isAlmost0_def EPSILON_def math_sgn_def Let_def)

text \<open>\<open>isNoRotation\<close> is false for the angle 0 and true for an angle of 2.\<close>

lemma isNoRotation_wrong: "\<not> isNoRotation AngleAxis_new" "isNoRotation (AngleAxis_of 2 (vec3 1 0 0))"
  by (simp_all add: isNoRotation_def AngleAxis_new_def AngleAxis_of_def isAlmost0_def math_sgn_def EPSILON_def getLen_def)

section \<open>Homogeneous transformations\<close>

lemma HTransform_at:
  "HTransform_of rot t i j = (if i < 3 \<and> j < 3 then rot i j else if i = 3 \<and> j = 3 then 1
     else if j = 3 then (if i = 0 then vx t else if i = 1 then vy t else if i = 2 then vz t else 0) else 0)"
  by (auto simp: HTransform_of_def Let_def for_each_at Matrix_new_at)

lemma sum4: "(\<Sum>k<4. f k) = f 0 + f 1 + f 2 + f (3::nat)"
  by (simp add: eval_nat_numeral)

lemma HTransform_mMult:
  "mMult 4 4 4 (HTransform_of R t) (HTransform_of S u) = HTransform_of (mMult 3 3 3 R S) (vecAdd (mRotate u R) t)"
proof (intro ext)
  fix i j
  show "mMult 4 4 4 (HTransform_of R t) (HTransform_of S u) i j = HTransform_of (mMult 3 3 3 R S) (vecAdd (mRotate u R) t) i j"
  proof (cases "i < 4 \<and> j < 4")
    case True
    then have "i = 0 \<or> i = 1 \<or> i = 2 \<or> i = 3" "j = 0 \<or> j = 1 \<or> j = 2 \<or> j = 3" by auto
    then show ?thesis
      by (elim disjE; simp add: mMult_at sum3 sum4 HTransform_at mRotate_def matVecMult_coords vecAdd_def)
  qed (auto simp: mMult_at HTransform_at)
qed

lemma HTransform_apply:
  "to3D (mMult 4 4 1 (HTransform_of R t) (toHCoord v)) = vecAdd (mRotate v R) t"
  by (simp add: to3D_def toHCoord_def mMult_at sum4 HTransform_at Matrix_of_array_at mRotate_def matVecMult_coords vecAdd_def)

lemma HTransform_eye: "HTransform_of (Matrix_eye 3 3 1) (vec3 0 0 0) = Matrix_eye 4 4 1"
  by (auto simp: fun_eq_iff HTransform_at Matrix_eye_at)

lemma transpose_getRotation: "Matrix_transpose 3 3 (getRotation (HTransform_of R t)) = Matrix_transpose 3 3 R"
  by (auto simp: fun_eq_iff Matrix_transpose_at getRotation_def for_each_at HTransform_at)

lemma getTranslation_HTransform: "getTranslation (HTransform_of R t) = t"
  by (simp add: getTranslation_def HTransform_at)

lemma mRotate_eye: "mRotate v (Matrix_eye 3 3 1) = v"
  by (simp add: mRotate_def coords)

lemma mRotate_scale: "mRotate (scale v c) M = scale (mRotate v M) c"
  by (simp add: mRotate_def coords scale_def algebra_simps)

text \<open>
  \<open>hinvert\<close> of a rotation followed by a translation is its inverse on both sides, and takes every point back:
  a point in homogeneous coordinates, transformed and transformed back, is the point again.
\<close>

lemma transform_hinvert:
  assumes "is_rotation R"
  shows "mMult 4 4 4 (HTransform_of R t) (hinvert (HTransform_of R t)) = Matrix_eye 4 4 1 \<and>
    mMult 4 4 4 (hinvert (HTransform_of R t)) (HTransform_of R t) = Matrix_eye 4 4 1 \<and>
    to3D (mMult 4 4 1 (hinvert (HTransform_of R t)) (toHCoord (to3D (mMult 4 4 1 (HTransform_of R t) (toHCoord v))))) = v"
proof -
  let ?T = "Matrix_transpose 3 3 R"
  have R: "mMult 3 3 3 R ?T = Matrix_eye 3 3 1" "mMult 3 3 3 ?T R = Matrix_eye 3 3 1"
    using assms by (simp_all only: is_rotation_def)
  have inv: "hinvert (HTransform_of R t) = HTransform_of ?T (scale (mRotate t ?T) (- 1))"
    by (simp add: hinvert_def Let_def transpose_getRotation getTranslation_HTransform mRotate_def)
  have cancel: "vecAdd (scale w (- 1)) w = vec3 0 0 0" "vecAdd w (scale w (- 1)) = vec3 0 0 0" for w
    by (simp_all add: vecAdd_def scale_def)
  have "mRotate (mRotate w ?T) R = w" "mRotate (mRotate w R) ?T = w" for w
    by (simp_all only: mRotate_mMult [symmetric] R mRotate_eye)
  moreover have "vecAdd (mRotate (vecAdd (mRotate v R) t) ?T) (scale (mRotate t ?T) (- 1)) = mRotate (mRotate v R) ?T"
    by (simp add: mRotate_def coords vecAdd_def scale_def algebra_simps)
  ultimately show ?thesis
    unfolding inv HTransform_mMult HTransform_apply R mRotate_scale by (simp add: cancel HTransform_eye)
qed

lemma transform_hinvert_witness:
  "let T = HTransform_of (rotationZ Matrix_new (pi / 2)) (vec3 1 2 3)
   in mMult 4 4 4 T (hinvert T) = Matrix_eye 4 4 1 \<and> to3D (mMult 4 4 1 T (toHCoord (vec3 1 0 0))) = vec3 1 3 3"
proof -
  have "is_rotation (rotationZ Matrix_new (pi / 2))"
    unfolding is_rotation_def rotation_m33 by (simp add: coords)
  from transform_hinvert [OF this, of "vec3 1 2 3"] show ?thesis
    unfolding Let_def HTransform_apply by (simp add: rotation_m33 mRotate_def coords vecAdd_def)
qed

section \<open>Coordinate frames\<close>

definition frame_coordinates :: "CoordinateFrame3D \<Rightarrow> Vector3D \<Rightarrow> Vector3D" where
  "frame_coordinates f v = vec3 (dot (frame_x f) v) (dot (frame_y f) v) (dot (frame_z f) v)"

text \<open>The rotation of \<open>mapTo\<close> takes coordinates in the rotated frame to coordinates in the frame itself.\<close>

lemma mapTo_coordinates:
  assumes "right_handed (frame_x g) (frame_y g) (frame_z g)"
  shows "mRotate (frame_coordinates g v) (getRotation (mapTo f g)) = frame_coordinates f v"
    "getTranslation (mapTo f g) = vecSub (frame_origin g) (frame_origin f)"
proof -
  let ?P = "Matrix3D_of_columns (frame_x g) (frame_y g) (frame_z g)"
  let ?F = "Matrix_transpose 3 3 (Matrix3D_of_columns (frame_x f) (frame_y f) (frame_z f))"
  have "mMult 3 3 3 ?P (Matrix_transpose 3 3 ?P) = Matrix_eye 3 3 1"
    using columns_rotation [OF assms] by (simp only: is_rotation_def)
  then have there: "mRotate (mRotate v (Matrix_transpose 3 3 ?P)) ?P = v"
    by (simp only: mRotate_mMult [symmetric] mRotate_eye)
  have "getRotation (mapTo f g) = mMult 3 3 3 ?F ?P"
    unfolding coords by (auto simp: getRotation_def mapTo_def Let_def fun_eq_iff for_each_at HTransform_at Matrix_new_at m33_outside dot_def)
  then have "mRotate (frame_coordinates g v) (getRotation (mapTo f g)) = mRotate (mRotate (mRotate v (Matrix_transpose 3 3 ?P)) ?P) ?F"
    by (simp add: frame_coordinates_def mRotate_rows mRotate_mMult)
  then show "mRotate (frame_coordinates g v) (getRotation (mapTo f g)) = frame_coordinates f v"
    unfolding there by (simp add: frame_coordinates_def mRotate_rows)
qed (simp add: mapTo_def Let_def getTranslation_HTransform)

lemma is_rotation_dot:
  assumes "is_rotation M"
  shows "dot (mRotate v M) (mRotate w M) = dot v w"
proof -
  obtain a b c where v: "v = vec3 a b c" by (rule vec3_cases)
  obtain x y z where w: "w = vec3 x y z" by (rule vec3_cases)
  from assms have "M 0 0 * M 0 0 + M 1 0 * M 1 0 + M 2 0 * M 2 0 = 1" "M 0 1 * M 0 1 + M 1 1 * M 1 1 + M 2 1 * M 2 1 = 1"
    "M 0 2 * M 0 2 + M 1 2 * M 1 2 + M 2 2 * M 2 2 = 1" "M 0 0 * M 0 1 + M 1 0 * M 1 1 + M 2 0 * M 2 1 = 0"
    "M 0 0 * M 0 2 + M 1 0 * M 1 2 + M 2 0 * M 2 2 = 0" "M 0 1 * M 0 2 + M 1 1 * M 1 2 + M 2 1 * M 2 2 = 0"
    by (simp_all add: is_rotation_def coords)
  then show ?thesis
    unfolding v w mRotate_def coords dot_def vec3_simps by algebra
qed

lemma frame_rotate_matrix_coordinates:
  assumes "is_rotation M"
  shows "frame_coordinates (frame_rotate_matrix f M) (mRotate v M) = frame_coordinates f v"
  by (simp add: frame_coordinates_def frame_rotate_matrix_def is_rotation_dot [OF assms])

text \<open>
  Rotating a frame by a quaternion gives its third axis the value of the first, the assignment from a frame of
  another number type gives the second axis the value of the first, and the constructor from two axes returns
  a second axis that is perpendicular to the one it was given.
\<close>

lemma frame_rotate_quaternion_degenerate: "frame_z (frame_rotate_quaternion f p) = frame_x (frame_rotate_quaternion f p)"
  by (simp add: frame_rotate_quaternion_def)

lemma frame_assign_degenerate: "frame_y (frame_assign f) = frame_x (frame_assign f)"
  by (simp add: frame_assign_def)

lemma frame_of_two_axes:
  "frame_y (CoordinateFrame3D_of (vec3 1 0 0) (vec3 0 1 0) o') = vec3 0 0 1"
  "frame_z (CoordinateFrame3D_of (vec3 1 0 0) (vec3 0 1 0) o') = vec3 0 (- 1) 0"
  by (simp_all add: CoordinateFrame3D_of_def Let_def cross_def vec_normalize_def getLen_def)

end
