(* ===== verification/Matlib_Support.thy ===== *)
theory Matlib_Support
  imports Matlib_Vector
begin

text \<open>
  The remaining parts of the matrix library: \<open>math_support.h\<close>, the class template \<open>Vector_\<close> of \<open>generic.h\<close>, vectors and
  matrices of six dimensions, \<open>complex.h\<close> and polar coordinates. The theorems: complex numbers refine those of
  mathematics, polar coordinates and back is the same point, and the blocks of a 6x6 matrix are those it was
  made of.
\<close>

section \<open>math_support.h and matlib.cpp\<close>

definition c_truncate :: "real \<Rightarrow> int" where
  "c_truncate x = (if 0 \<le> x then \<lfloor>x\<rfloor> else \<lceil>x\<rceil>)"

definition c_fmod :: "real \<Rightarrow> real \<Rightarrow> real" where
  "c_fmod x y = x - y * of_int (c_truncate (x / y))"

definition grad2Rad :: "real \<Rightarrow> real" where
  "grad2Rad grad = grad * pi / 180"

definition rad2Grad :: "real \<Rightarrow> real" where
  "rad2Grad rad = rad * 180 / pi"

definition math_frac :: "real \<Rightarrow> real" where
  "math_frac x = (if x \<ge> 0 then x - of_int \<lfloor>x\<rfloor> else x - of_int \<lceil>x\<rceil>)"

definition math_mod :: "real \<Rightarrow> real \<Rightarrow> real" where
  "math_mod dividend divisor = (if isAlmost0 divisor then 0 else dividend - divisor * of_int (c_truncate (dividend / divisor)))"

text \<open>The result is \<open>None\<close> where the product leaves the 64 bits, which is undefined.\<close>

definition faculty :: "int \<Rightarrow> int option" where
  "faculty x = fold (\<lambda>i f. case f of None \<Rightarrow> None | Some f \<Rightarrow> if in_i64 (f * i) then Some (f * i) else None) [2..x] (Some 1)"

definition FMod2p :: "real \<Rightarrow> real" where
  "FMod2p x = (let rval = c_fmod x (2 * pi) in if rval < 0 then rval + 2 * pi else rval)"

section \<open>The class template Vector\<close>

definition Vector_dot :: "nat \<Rightarrow> real mat \<Rightarrow> real mat \<Rightarrow> real" where
  "Vector_dot ROW r other = foldl (\<lambda>dot i. dot + r i 0 * other i 0) 0 [0..<ROW]"

definition Vector_getLen :: "nat \<Rightarrow> real mat \<Rightarrow> real" where
  "Vector_getLen ROW r = sqrt (foldl (\<lambda>len i. len + r i 0 * r i 0) 0 [0..<ROW])"

definition Vector_getAngle :: "nat \<Rightarrow> real mat \<Rightarrow> real mat \<Rightarrow> real" where
  "Vector_getAngle ROW r other =
     (let len = Vector_getLen ROW r * Vector_getLen ROW other; product = Vector_dot ROW r other in arccos (product / len))"

definition Vector_isOrthogonal :: "nat \<Rightarrow> real mat \<Rightarrow> real mat \<Rightarrow> bool" where
  "Vector_isOrthogonal ROW r other \<longleftrightarrow> \<bar>Vector_dot ROW r other\<bar> < EPSILON"

definition Vector_distance :: "nat \<Rightarrow> real mat \<Rightarrow> real mat \<Rightarrow> real" where
  "Vector_distance ROW r other = Vector_getLen ROW (mSub ROW 1 r other)"

definition Vector_normalize :: "nat \<Rightarrow> real mat \<Rightarrow> real mat" where
  "Vector_normalize ROW r = Matrix_scale ROW 1 r (1 / Vector_getLen ROW r)"

definition Vector_isNormalized :: "nat \<Rightarrow> real mat \<Rightarrow> bool" where
  "Vector_isNormalized ROW r \<longleftrightarrow> \<bar>Vector_getLen ROW r\<bar> < EPSILON"

section \<open>Six dimensions\<close>

type_synonym Vector6D = "nat \<Rightarrow> real"

definition for6 :: "(nat \<Rightarrow> real) \<Rightarrow> Vector6D" where
  "for6 f = fold (\<lambda>i v. v(i := f i)) [0..<6] (\<lambda>i. 0)"

definition Vector6D_of_parts :: "Vector3D \<Rightarrow> Vector3D \<Rightarrow> Vector6D" where
  "Vector6D_of_parts upper lower = (\<lambda>i. 0)(0 := vx upper, 1 := vy upper, 2 := vz upper, 3 := vx lower, 4 := vy lower, 5 := vz lower)"

definition dotProduct6 :: "Vector6D \<Rightarrow> Vector6D \<Rightarrow> real" where
  "dotProduct6 left right = foldl (\<lambda>s i. s + left i * right i) 0 [0..<6]"

definition Vector6D_getLen :: "Vector6D \<Rightarrow> real" where
  "Vector6D_getLen v = sqrt (dotProduct6 v v)"

definition Vector6D_vecAdd :: "Vector6D \<Rightarrow> Vector6D \<Rightarrow> Vector6D" where
  "Vector6D_vecAdd v other = for6 (\<lambda>i. v i + other i)"

definition Vector6D_vecSub :: "Vector6D \<Rightarrow> Vector6D \<Rightarrow> Vector6D" where
  "Vector6D_vecSub v other = for6 (\<lambda>i. v i - other i)"

definition Vector6D_matVecMult :: "Vector6D \<Rightarrow> real mat \<Rightarrow> Vector6D" where
  "Vector6D_matVecMult v M = for6 (\<lambda>i. foldl (\<lambda>s j. s + M i j * v j) 0 [0..<6])"

definition Vector6D_scale :: "Vector6D \<Rightarrow> real \<Rightarrow> Vector6D" where
  "Vector6D_scale v factor = for6 (\<lambda>i. factor * v i)"

definition Matrix6D_of_blocks :: "real mat \<Rightarrow> real mat \<Rightarrow> real mat \<Rightarrow> real mat \<Rightarrow> real mat" where
  "Matrix6D_of_blocks upperLeft upperRight lowerLeft lowerRight =
     fold (\<lambda>i. fold (\<lambda>j r.
       (let r = r(i := (r i)(j := upperLeft i j));
            r = r(i := (r i)(3 + j := upperRight i j));
            r = r(3 + i := (r (3 + i))(j := lowerLeft i j))
        in r(3 + i := (r (3 + i))(3 + j := lowerRight i j)))) [0..<3]) [0..<3] Matrix_new"

definition upperLeft :: "real mat \<Rightarrow> real mat" where
  "upperLeft r = for_each 3 3 (\<lambda>i j. r i j) Matrix_new"

definition upperRight :: "real mat \<Rightarrow> real mat" where
  "upperRight r = for_each 3 3 (\<lambda>i j. r i (3 + j)) Matrix_new"

definition lowerLeft :: "real mat \<Rightarrow> real mat" where
  "lowerLeft r = for_each 3 3 (\<lambda>i j. r (3 + i) j) Matrix_new"

definition lowerRight :: "real mat \<Rightarrow> real mat" where
  "lowerRight r = for_each 3 3 (\<lambda>i j. r (3 + i) (3 + j)) Matrix_new"

definition dyadic :: "Vector6D \<Rightarrow> Vector6D \<Rightarrow> real mat" where
  "dyadic left right = for_each 6 6 (\<lambda>i j. left i * right j) Matrix_new"

section \<open>Matrices in a buffer\<close>

text \<open>
  \<open>Matrix3D_::serialize\<close> and the place from which \<open>deserialize\<close> reads the elements, on a buffer of bytes: the label with
  its terminating zero, then the nine elements of \<open>sz\<close> bytes each. The pointer is one to \<open>uint32_t\<close>, so that it moves by four
  bytes for each unit.
\<close>

definition put_bytes :: "nat \<Rightarrow> u8 list \<Rightarrow> u8 list \<Rightarrow> u8 list" where
  "put_bytes pos bs buffer = take pos buffer @ bs @ drop (pos + length bs) buffer"

definition Matrix3D_serialize :: "nat \<Rightarrow> u8 list \<Rightarrow> u8 list \<Rightarrow> u8 list \<Rightarrow> u8 list \<times> nat" where
  "Matrix3D_serialize sz label elements buffer =
     (let buffer = put_bytes 0 (label @ [0]) buffer;
          ptr = 4 * ((length label + 1) div sz);
          buffer = put_bytes ptr elements buffer
      in (buffer, length label + 1 + sz * 9))"

definition Matrix3D_deserialize :: "nat \<Rightarrow> u8 list \<Rightarrow> u8 list \<times> u8 list \<times> nat" where
  "Matrix3D_deserialize sz buffer =
     (let label = takeWhile (\<lambda>b. b \<noteq> 0) buffer;
          ptr = 4 * ((length label + 1) div sz)
      in (label, take (sz * 9) (drop ptr buffer), length label + 1 + sz * 9))"

section \<open>complex.h\<close>

record Complex_ =
  c_Re :: real
  c_Im :: real

definition cAdd :: "Complex_ \<Rightarrow> Complex_ \<Rightarrow> Complex_" where
  "cAdd this other = \<lparr>c_Re = c_Re other + c_Re this, c_Im = c_Im other + c_Im this\<rparr>"

definition cSub :: "Complex_ \<Rightarrow> Complex_ \<Rightarrow> Complex_" where
  "cSub this other = \<lparr>c_Re = c_Re other - c_Re this, c_Im = c_Im other - c_Im this\<rparr>"

definition cMinus :: "Complex_ \<Rightarrow> Complex_ \<Rightarrow> Complex_" where
  "cMinus left right = cSub right left"

definition cScale :: "Complex_ \<Rightarrow> real \<Rightarrow> Complex_" where
  "cScale this s = \<lparr>c_Re = c_Re this * s, c_Im = c_Im this * s\<rparr>"

definition cMult :: "Complex_ \<Rightarrow> Complex_ \<Rightarrow> Complex_" where
  "cMult this other = \<lparr>c_Re = c_Re this * c_Re other - c_Im other * c_Im this, c_Im = c_Re this * c_Im other + c_Im this * c_Re other\<rparr>"

definition cPow :: "Complex_ \<Rightarrow> int \<Rightarrow> Complex_" where
  "cPow this exponent = (if exponent = 0 then \<lparr>c_Re = 1, c_Im = 0\<rparr> else fold (\<lambda>i z. cMult z this) [1..exponent - 1] this)"

definition cExp :: "Complex_ \<Rightarrow> Complex_" where
  "cExp this = \<lparr>c_Re = exp (c_Re this) * cos (c_Im this), c_Im = exp (c_Re this) * sin (c_Im this)\<rparr>"

section \<open>What the functions compute\<close>

lemma c_truncate_bounds: "0 \<le> x \<Longrightarrow> 0 \<le> x - of_int (c_truncate x) \<and> x - of_int (c_truncate x) < 1"
  "x < 0 \<Longrightarrow> - 1 < x - of_int (c_truncate x) \<and> x - of_int (c_truncate x) \<le> 0"
  by (auto simp: c_truncate_def) linarith+

lemma FMod2p_spec:
  "0 \<le> FMod2p x" "FMod2p x < 2 * pi" "\<exists>k. x = FMod2p x + 2 * pi * of_int k" "sin (FMod2p x) = sin x" "cos (FMod2p x) = cos x"
proof -
  define t where "t = c_truncate (x / (2 * pi))"
  have eq: "c_fmod x (2 * pi) = 2 * pi * (x / (2 * pi) - of_int t)"
    by (simp add: c_fmod_def t_def algebra_simps)
  have "0 \<le> x / (2 * pi) - of_int t \<and> x / (2 * pi) - of_int t < 1 \<or> - 1 < x / (2 * pi) - of_int t \<and> x / (2 * pi) - of_int t \<le> 0"
    using c_truncate_bounds [of "x / (2 * pi)"] unfolding t_def by linarith
  then have "- 1 < x / (2 * pi) - of_int t" "x / (2 * pi) - of_int t < 1" by linarith+
  from mult_strict_left_mono [OF this(1), of "2 * pi"] mult_strict_left_mono [OF this(2), of "2 * pi"]
  have r: "- (2 * pi) < c_fmod x (2 * pi)" "c_fmod x (2 * pi) < 2 * pi"
    unfolding eq by simp_all
  then show "0 \<le> FMod2p x" "FMod2p x < 2 * pi" by (auto simp: FMod2p_def Let_def)
  have x: "x = c_fmod x (2 * pi) + 2 * pi * of_int t" by (simp add: c_fmod_def t_def)
  show "\<exists>k. x = FMod2p x + 2 * pi * of_int k"
  proof (cases "c_fmod x (2 * pi) < 0")
    case True
    with x show ?thesis by (intro exI [of _ "t - 1"]) (simp add: FMod2p_def algebra_simps)
  next
    case False
    with x show ?thesis by (intro exI [of _ t]) (simp add: FMod2p_def)
  qed
  then obtain k where k: "x = FMod2p x + 2 * pi * of_int k" ..
  have "sin (FMod2p x + 2 * pi * of_int k) = sin (FMod2p x)" "cos (FMod2p x + 2 * pi * of_int k) = cos (FMod2p x)"
    by (simp_all add: sin_add cos_add sin_int_2pin cos_int_2pin)
  then show "sin (FMod2p x) = sin x" "cos (FMod2p x) = cos x"
    unfolding k [symmetric] by simp_all
qed

text \<open>The factorials up to 20 fit into 64 bits.\<close>

lemma fact_fits: "in_i64 (fact n :: int) \<longleftrightarrow> n \<le> 20"
proof -
  have f: "(fact 20 :: int) = 2432902008176640000" "(fact 21 :: int) = 51090942171709440000" by (simp_all add: fact_numeral)
  show ?thesis
  proof (cases "n \<le> 20")
    case True
    have "- (2 ^ 63) \<le> (fact n :: int)" by (rule order_trans [OF _ fact_ge_zero]) simp
    with fact_mono [OF True, where 'a = int] f(1) True show ?thesis
      by (simp add: in_i64_def)
  next
    case False
    then have "21 \<le> n" by simp
    from fact_mono [OF this, where 'a = int] f(2) False show ?thesis by (simp add: in_i64_def)
  qed
qed

lemma faculty_fact: "faculty (int n) = (if n \<le> 20 then Some (fact n) else None)"
proof (induction n)
  case 0
  show ?case by (simp add: faculty_def)
next
  case (Suc n)
  show ?case
  proof (cases n)
    case 0
    then show ?thesis by (simp add: faculty_def)
  next
    case (Suc k)
    then have "[2..int (Suc n)] = [2..int n] @ [int (Suc n)]"
      using upto_rec2 [of 2 "int (Suc n)"] by simp
    then have "faculty (int (Suc n)) = (case faculty (int n) of None \<Rightarrow> None | Some f \<Rightarrow>
        if in_i64 (f * int (Suc n)) then Some (f * int (Suc n)) else None)"
      by (simp only: faculty_def fold_append fold_simps o_apply)
    moreover have "fact n * int (Suc n) = fact (Suc n)" by simp
    ultimately show ?thesis
      using Suc.IH fact_fits [of "Suc n"] by (simp del: fact_Suc of_nat_Suc)
  qed
qed

lemma foldl_sum: "foldl (\<lambda>s i. s + f i) 0 [0..<n] = (\<Sum>i<n. f i)" for f :: "nat \<Rightarrow> real"
  by (induction n) auto

text \<open>\<open>isNormalized\<close> of the template accepts short vectors only, never one of length 1.\<close>

lemma Vector_isNormalized_wrong: "Vector_getLen ROW r = 1 \<Longrightarrow> \<not> Vector_isNormalized ROW r"
  by (simp add: Vector_isNormalized_def EPSILON_def)

lemma Vector_3D:
  "Vector_dot 3 (Vector_of_Vector3D v) (Vector_of_Vector3D w) = dot v w" "Vector_getLen 3 (Vector_of_Vector3D v) = getLen v"
  by (simp_all add: Vector_dot_def Vector_getLen_def foldl_sum sum3 Vector_of_Vector3D_def Matrix_of_array_at dot_def getLen_def)

lemma for6_at: "for6 f i = (if i < 6 then f i else 0)"
  by (simp add: for6_def eval_nat_numeral less_Suc_eq)

lemma Vector6D_matVecMult_at:
  "i < 6 \<Longrightarrow> Vector6D_matVecMult v M i = mMult 6 6 1 M (\<lambda>i j. if j = 0 then v i else 0) i 0"
  by (simp add: Vector6D_matVecMult_def for6_at foldl_sum mMult_at)

lemma blocks_back:
  assumes "i < 3" "j < 3"
  shows "upperLeft (Matrix6D_of_blocks A B C D) i j = A i j" "upperRight (Matrix6D_of_blocks A B C D) i j = B i j"
    "lowerLeft (Matrix6D_of_blocks A B C D) i j = C i j" "lowerRight (Matrix6D_of_blocks A B C D) i j = D i j"
proof -
  have ij: "i = 0 \<or> i = 1 \<or> i = 2" "j = 0 \<or> j = 1 \<or> j = 2" using assms by auto
  have l: "[0..<3] = [0, 1, 2 :: nat]" by (simp add: upt_rec)
  show "upperLeft (Matrix6D_of_blocks A B C D) i j = A i j" "upperRight (Matrix6D_of_blocks A B C D) i j = B i j"
    "lowerLeft (Matrix6D_of_blocks A B C D) i j = C i j" "lowerRight (Matrix6D_of_blocks A B C D) i j = D i j"
    using ij unfolding upperLeft_def upperRight_def lowerLeft_def lowerRight_def Matrix6D_of_blocks_def l
    by (elim disjE; simp add: for_each_at)+
qed

text \<open>
  A label of at most six characters is overwritten by the elements of type \<open>double\<close> as soon as it is written; what is read
  back as the label are the elements up to their first zero.
\<close>

lemma serialize_loses_label:
  assumes "length label \<le> 6" "length elements = 72" "length buffer \<ge> 72"
  shows "take 72 (fst (Matrix3D_serialize 8 label elements buffer)) = elements"
    "0 \<in> set elements \<Longrightarrow> fst (Matrix3D_deserialize 8 (fst (Matrix3D_serialize 8 label elements buffer))) = takeWhile (\<lambda>b. b \<noteq> 0) elements"
proof -
  have "fst (Matrix3D_serialize 8 label elements buffer) = elements @ drop 72 (put_bytes 0 (label @ [0]) buffer)"
    using assms by (simp add: Matrix3D_serialize_def Let_def put_bytes_def)
  then show "take 72 (fst (Matrix3D_serialize 8 label elements buffer)) = elements"
    "0 \<in> set elements \<Longrightarrow> fst (Matrix3D_deserialize 8 (fst (Matrix3D_serialize 8 label elements buffer))) = takeWhile (\<lambda>b. b \<noteq> 0) elements"
    using assms(2) by (simp_all add: Matrix3D_deserialize_def Let_def takeWhile_append1)
qed

section \<open>Complex numbers\<close>

definition to_complex :: "Complex_ \<Rightarrow> complex" where
  "to_complex z = Complex (c_Re z) (c_Im z)"

text \<open>The operations are those of the complex numbers; \<open>cPow\<close> with a negative exponent returns its argument.\<close>

lemma complex_refines:
  "to_complex (cAdd z w) = to_complex z + to_complex w" "to_complex (cMinus z w) = to_complex z - to_complex w"
  "to_complex (cMult z w) = to_complex z * to_complex w" "to_complex (cScale z s) = to_complex z * of_real s"
  "to_complex (cExp z) = exp (to_complex z)"
  by (simp_all add: to_complex_def cAdd_def cMinus_def cSub_def cMult_def cScale_def cExp_def complex_eq_iff Re_exp Im_exp)

lemma cPow_power: "to_complex (cPow z (int n)) = to_complex z ^ n"
proof (cases n)
  case 0
  then show ?thesis by (simp add: cPow_def to_complex_def complex_eq_iff)
next
  case (Suc k)
  have "to_complex (fold (\<lambda>i z'. cMult z' z) is z) = to_complex z ^ Suc (length is)" for "is" :: "int list"
  proof (induction "is" rule: rev_induct)
    case (snoc i "is")
    then show ?case by (simp add: complex_refines mult.commute)
  qed simp
  then show ?thesis by (simp add: cPow_def Suc)
qed

lemma cPow_negative: "n < 0 \<Longrightarrow> cPow z n = z"
  by (simp add: cPow_def)

section \<open>Polar coordinates\<close>

lemma carToPolar_same: "carToPolar v = Polar_of_Vector3D v"
  by (simp add: carToPolar_def Polar_of_Vector3D_def getLen_def)

lemma polar_there_and_back:
  assumes "v \<noteq> vec3 0 0 0"
  shows "toCartesian (carToPolar v) = v"
proof -
  obtain x y z where v: "v = vec3 x y z" by (rule vec3_cases)
  define r where "r = getLen v"
  have r: "0 < r" using assms getLen_0 [of v] by (simp add: r_def less_le)
  have rr: "r * r = x * x + y * y + z * z" using getLen_square [of v] by (simp add: r_def v dot_def)
  have "z\<^sup>2 \<le> r\<^sup>2" using rr by (simp add: power2_eq_square)
  then have "\<bar>z\<bar> \<le> r" using abs_le_square_iff [of z r] r by simp
  then have z: "\<bar>z / r\<bar> \<le> 1" using r by simp
  have "r * sqrt (1 - (z / r)\<^sup>2) = sqrt (r\<^sup>2 * (1 - (z / r)\<^sup>2))" using r by (simp add: real_sqrt_mult)
  also have "r\<^sup>2 * (1 - (z / r)\<^sup>2) = r\<^sup>2 - z\<^sup>2" using r by (simp add: right_diff_distrib power_divide)
  also have "\<dots> = x\<^sup>2 + y\<^sup>2" using rr by (simp add: power2_eq_square)
  finally have s: "r * sin (arccos (z / r)) = sqrt (x\<^sup>2 + y\<^sup>2)" using z by (simp add: sin_arccos_abs)
  have "cos (arccos (z / r)) = z / r" using z by (intro cos_arccos_abs)
  then show ?thesis
    using r s atan2_spec [of x y] by (simp add: toCartesian_def carToPolar_def Let_def v r_def)
qed

lemma polar_back_and_there:
  assumes "0 < polar_r p" "- pi < polar_phi p" "polar_phi p \<le> pi" "0 < polar_theta p" "polar_theta p < pi"
  shows "carToPolar (toCartesian p) = p"
proof -
  let ?r = "polar_r p" and ?f = "polar_phi p" and ?t = "polar_theta p"
  have s: "0 < sin ?t" using assms by (intro sin_gt_zero) auto
  have one: "sin a * sin a + cos a * cos a = 1" for a :: real
    using sin_cos_squared_add [of a] by (simp add: power2_eq_square)
  have "(?r * sin ?t * cos ?f) * (?r * sin ?t * cos ?f) + (?r * sin ?t * sin ?f) * (?r * sin ?t * sin ?f) + (?r * cos ?t) * (?r * cos ?t) = ?r\<^sup>2"
    using one [of ?t] one [of ?f] by algebra
  then have len: "getLen (toCartesian p) = ?r"
    using assms(1) by (simp add: getLen_def toCartesian_def Let_def)
  have "atan2 (?r * sin ?t * sin ?f) (?r * sin ?t * cos ?f) = ?f"
    using assms s by (intro atan2_polar) simp_all
  with assms show ?thesis
    unfolding carToPolar_def Let_def len by (simp add: toCartesian_def Let_def arccos_cos)
qed

end
