(* ===== verification/Matlib_Earth.thy ===== *)
theory Matlib_Earth
  imports Matlib_Frames Matlib_Support Calendar "HOL-Library.While_Combinator"
begin

text \<open>
  The functions of \<open>matlib.cpp\<close> for the earth: Julian dates, sidereal time, the rotation between earth-fixed and
  inertial coordinates, and geodetic coordinates on the ellipsoid WGS84. The theorems: Julian dates count the days of
  the calendar of the time model, the two rotations undo each other, geodetic coordinates with height 0 are points of
  the ellipsoid, and on the equator the iteration of \<open>ecefToGeodetic\<close> ends with the coordinates it came from.
\<close>

section \<open>The code\<close>

definition JD2000 :: real where
  "JD2000 = 2451545"

definition A_WGS84 :: real where
  "A_WGS84 = 6378137"

definition F_WGS84 :: real where
  "F_WGS84 = 1 / (298257223563 / 10 ^ 9)"

definition R_n :: "real \<Rightarrow> real" where
  "R_n angle =
     (let a = A_WGS84; f = F_WGS84; e2 = 1 - (1 - f) * (1 - f); phi = angle; sinp = sin phi; tmp = sqrt (1 - e2 * sinp * sinp)
      in a / tmp)"

definition daysSinceY2k :: "int \<Rightarrow> int \<Rightarrow> int \<Rightarrow> int \<Rightarrow> int \<Rightarrow> real \<Rightarrow> real" where
  "daysSinceY2k year month day hour minute second =
     (let temp1 = - of_int \<lfloor>25 / 100 * 7 * (of_int year + of_int \<lfloor>1 / 12 * of_int (month + 9) :: real\<rfloor>) :: real\<rfloor>;
          temp2 = of_int \<lfloor>of_int (275 * month) / 9 :: real\<rfloor> + 1 / 24 * (of_int hour + of_int minute / 60 + second / 3600)
      in of_int (367 * year) + temp1 + temp2 + of_int day - 7305315 / 10)"

definition utcToJD :: "int \<Rightarrow> int \<Rightarrow> int \<Rightarrow> int \<Rightarrow> int \<Rightarrow> real \<Rightarrow> real" where
  "utcToJD year month date hour minute second = daysSinceY2k year month date hour minute second + JD2000"

definition jd2GMST :: "real \<Rightarrow> real" where
  "jd2GMST jd =
     (let jdmin = of_int \<lfloor>jd\<rfloor> - 1 / 2; jdmax = of_int \<lfloor>jd\<rfloor> + 1 / 2;
          jd0 = (if jd > jdmax then jdmax else jdmin);
          h = (jd - jd0) * 24; d = jd - JD2000; d0 = jd0 - JD2000; t = d / 36525;
          gmst = c_fmod (6697374558 / 10 ^ 9 + 6570982441908 / 10 ^ 14 * d0 + 100273790935 / 10 ^ 11 * h + 26 / 10 ^ 6 * (t * t)) 24
      in grad2Rad (gmst * 15))"

definition jd2GAST :: "real \<Rightarrow> real" where
  "jd2GAST jd =
     (let thetam = jd2GMST jd; t = (jd - JD2000) / 36525;
          epsilonm = grad2Rad (23439291 / 10 ^ 6 - 130111 / 10 ^ 7 * t - 164 / 10 ^ 9 * (t * t) + 504 / 10 ^ 9 * (t * t * t));
          l = grad2Rad (2804665 / 10 ^ 4 + 360007698 / 10 ^ 4 * t);
          dL = grad2Rad (2183165 / 10 ^ 4 + 4812678813 / 10 ^ 4 * t);
          omega = grad2Rad (12504452 / 10 ^ 5 - 1934136261 / 10 ^ 6 * t);
          dPSI = - 1720 / 100 * sin omega - 132 / 100 * sin (2 * l) - 23 / 100 * sin (2 * dL) + 21 / 100 * sin (2 * omega);
          dEPSILON = 920 / 100 * cos omega + 57 / 100 * cos (2 * l) + 10 / 100 * cos (2 * dL) - 9 / 100 * cos (2 * omega);
          dPSI = grad2Rad (dPSI * (1 / 3600));
          dEPSILON = grad2Rad (dEPSILON * (1 / 3600))
      in c_fmod (thetam + dPSI * cos (epsilonm + dEPSILON)) (2 * pi))"

definition eciToECEFrotmat :: "real \<Rightarrow> real mat" where
  "eciToECEFrotmat jd = (let theta = jd2GAST jd in rotationZ Matrix_new theta)"

definition ecefToECI :: "Vector3D \<Rightarrow> int \<Rightarrow> Vector3D" where
  "ecefToECI ecef utcNanoseconds =
     (let jd = of_int utcNanoseconds / of_int DAYS + JD2000; rot = eciToECEFrotmat jd in matVecMult ecef rot)"

definition eciToECEF :: "Vector3D \<Rightarrow> int \<Rightarrow> Vector3D" where
  "eciToECEF eci utcNanoseconds =
     (let jd = of_int utcNanoseconds / of_int DAYS + JD2000; rot = eciToECEFrotmat jd in matVecMult eci (Matrix_transpose 3 3 rot))"

definition eciToECEF_angle :: "int \<Rightarrow> real" where
  "eciToECEF_angle utcNanoseconds =
     (let days2k = of_int utcNanoseconds / of_int DAYS; angle = (28046061837 / 10 ^ 8 + 36098564736628 / 10 ^ 11 * days2k) / 180 * pi
      in FMod2p angle)"

definition geodeticToECEF :: "Polar \<Rightarrow> Vector3D" where
  "geodeticToECEF polar =
     (let f = F_WGS84; e2 = 1 - (1 - f) * (1 - f); h = polar_r polar; phi = polar_phi polar; lambda = polar_theta polar; rn = R_n phi;
          x = (rn + h) * cos phi * cos lambda;
          y = (rn + h) * cos phi * sin lambda;
          z = (rn * (1 - e2) + h) * sin phi
      in vec3 x y z)"

text \<open>The variables of the iteration of \<open>ecefToGeodetic\<close>.\<close>

record geodetic_vars =
  g_phi0 :: real
  g_n0 :: real
  g_h0 :: real
  g_phi :: real
  g_n :: real
  g_h :: real
  g_dh :: real
  g_dphi :: real

definition geodetic_step :: "real \<Rightarrow> real \<Rightarrow> real \<Rightarrow> geodetic_vars \<Rightarrow> geodetic_vars" where
  "geodetic_step e2 p z s =
     (let phi = g_phi0 s; n = g_n0 s; h = g_h0 s;
          phi0 = atan2 z (p * (1 - e2 * (n / (n + h))));
          n0 = R_n phi;
          h0 = p / cos phi - n;
          dh = \<bar>h0 - h\<bar>;
          dphi = \<bar>phi0 - phi\<bar>
      in \<lparr>g_phi0 = phi0, g_n0 = n0, g_h0 = h0, g_phi = phi, g_n = n, g_h = h, g_dh = dh, g_dphi = dphi\<rparr>)"

definition ecefToGeodetic :: "Vector3D \<Rightarrow> Polar option" where
  "ecefToGeodetic other =
     (let a = A_WGS84; f = F_WGS84; b = a * (1 - f); e2 = 1 - (b * b) / (a * a);
          x = vx other; y = vy other; z = vz other;
          p = sqrt (x * x + y * y);
          phi0 = atan2 z (p * (1 - e2));
          n0 = R_n phi0;
          h0 = p / cos phi0 - n0;
          eht = 1 / 10 ^ 5;
          ephi = 1 / 10 ^ 12
      in case while_option (\<lambda>s. g_dh s > eht \<or> g_dphi s > ephi) (geodetic_step e2 p z)
             \<lparr>g_phi0 = phi0, g_n0 = n0, g_h0 = h0, g_phi = 0, g_n = 0, g_h = 0, g_dh = 1, g_dphi = 1\<rparr> of
           None \<Rightarrow> None
         | Some s \<Rightarrow> Some \<lparr>polar_r = g_h s, polar_phi = g_phi s, polar_theta = atan2 y x\<rparr>)"

section \<open>Julian dates\<close>

lemma daysSinceY2k_int:
  "daysSinceY2k y m d h mi s = of_int (367 * y - (7 * (y + (m + 9) div 12)) div 4 + (275 * m) div 9 + d) - 7305315 / 10
     + 1 / 24 * (of_int h + of_int mi / 60 + s / 3600)"
proof -
  have a: "\<lfloor>1 / 12 * of_int (m + 9) :: real\<rfloor> = (m + 9) div 12"
    using floor_divide_of_int_eq [of "m + 9" 12, where 'a = real] by simp
  have "25 / 100 * 7 * (of_int y + of_int ((m + 9) div 12)) = (of_int (7 * (y + (m + 9) div 12)) / of_int 4 :: real)" by simp
  then have b: "\<lfloor>25 / 100 * 7 * (of_int y + of_int ((m + 9) div 12)) :: real\<rfloor> = (7 * (y + (m + 9) div 12)) div 4"
    by (simp only: floor_divide_of_int_eq)
  have c: "\<lfloor>of_int (275 * m) / 9 :: real\<rfloor> = (275 * m) div 9"
    using floor_divide_of_int_eq [of "275 * m" 9, where 'a = real] by simp
  show ?thesis
    unfolding daysSinceY2k_def Let_def a b c by simp
qed

lemma civil_positive:
  assumes "0 \<le> n" "civil_of (day_count n) = (y, m, day)"
  shows "1 \<le> m" "0 \<le> y"
proof -
  obtain d r where dr: "in_year d r" "day_count n = 365 * d + d div 4 + r" using year_exists by blast
  have r: "r \<in> set [123..488]" unfolding set_upto using dr(1) by (auto simp: in_year_def)
  obtain m' day' where md: "month_day r = (m', day')" by fastforce
  have y: "m = m'" "y = d - 4715 - (7 + m) div 10"
    using assms(2) md unfolding civil_of_year [OF dr] date_of_def by auto
  have t: "1 \<le> m" "m \<le> 12"
    using bspec [OF days_table [unfolded list_all_iff] r] unfolding md y(1) by auto
  have "6710 \<le> d" using dr assms(1) by (auto simp: day_count_def in_year_def split: if_splits)
  then show "1 \<le> m" "0 \<le> y" using t y(2) by auto
qed

lemma julian_date:
  assumes "n < 36584" "(next_day ^^ n) (2000, 1, 1) = (y, m, d)"
  shows "utcToJD y m d h mi s = 2451544.5 + of_nat n + (of_int h + of_int mi / 60 + s / 3600) / 24"
proof -
  have date: "civil_of (day_count (int n)) = (y, m, d)" using civil_iterates [of n] assms by simp
  have "0 \<le> m" "0 \<le> y" using civil_positive [OF _ date] by simp_all
  have "367 * y - (7 * (y + (m + 9) div 12)) div 4 + (275 * m) div 9 + d - 730531 = int n"
    using days_back [OF _ _ date] assms(1) \<open>0 \<le> m\<close> \<open>0 \<le> y\<close> by simp
  then have "(of_int (367 * y - (7 * (y + (m + 9) div 12)) div 4 + (275 * m) div 9 + d) :: real) = of_nat n + 730531" by linarith
  then show ?thesis
    unfolding utcToJD_def daysSinceY2k_int JD2000_def by simp
qed

text \<open>
  The Julian date: the day \<open>n\<close> days after the 1st of January 2000 in the calendar of the time model, up to the end of
  February 2100, has the date 2451544.5 + \<open>n\<close> at midnight, and the time of day is added as a fraction.
\<close>

lemma julian_date_counts_days:
  assumes "n < 36584" "(next_day ^^ n) (2000, 1, 1) = (y, m, d)"
  shows "utcToJD y m d h mi s = 2451544.5 + of_nat n + (of_int h + of_int mi / 60 + s / 3600) / 24"
  by (rule julian_date [OF assms])

lemma julian_date_counts_days_witness:
  "(next_day ^^ 59) (2000, 1, 1) = (2000, 2, 29) \<and> utcToJD 2000 2 29 12 0 0 = 2451604"
proof -
  have "(next_day ^^ 59) (2000, 1, 1) = (2000, 2, 29)" by code_simp
  with julian_date_counts_days [OF _ this, of 12 0 0] show ?thesis by simp
qed

section \<open>Earth-fixed and inertial coordinates\<close>

lemma rotationZ_rotation: "is_rotation (rotationZ Matrix_new t)"
  unfolding axis_quaternion_matrix(3) [symmetric] by (rule Quaternion_is_rotation) (rule unit_axis_quaternions)

text \<open>
  \<open>JD2000\<close> is noon, the time of the time model starts at midnight: the date that \<open>ecefToECI\<close> and \<open>eciToECEF\<close> compute from a
  time is half a day after the Julian date of its calendar day.
\<close>

lemma ecef_date_half_a_day_late:
  assumes "n < 36584" "(next_day ^^ n) (2000, 1, 1) = (y, m, d)"
  shows "of_int (int n * DAYS) / of_int DAYS + JD2000 = utcToJD y m d 0 0 0 + 1 / 2"
proof -
  have "utcToJD y m d 0 0 0 = 2451544.5 + of_nat n"
    using julian_date [OF assms, of 0 0 0] by simp
  moreover have "(of_int (int n * DAYS) / of_int DAYS :: real) = of_nat n" by (simp add: DAYS_eq)
  ultimately show ?thesis by (simp add: JD2000_def)
qed

text \<open>The two directions undo each other at the same time.\<close>

lemma eci_ecef_back: "eciToECEF (ecefToECI v t) t = v" "ecefToECI (eciToECEF v t) t = v"
proof -
  have "mMult 3 3 3 (Matrix_transpose 3 3 (eciToECEFrotmat jd)) (eciToECEFrotmat jd) = Matrix_eye 3 3 1"
    "mMult 3 3 3 (eciToECEFrotmat jd) (Matrix_transpose 3 3 (eciToECEFrotmat jd)) = Matrix_eye 3 3 1" for jd
    using rotationZ_rotation [of "jd2GAST jd"] by (simp_all only: eciToECEFrotmat_def Let_def is_rotation_def)
  then show "eciToECEF (ecefToECI v t) t = v" "ecefToECI (eciToECEF v t) t = v"
    unfolding eciToECEF_def ecefToECI_def Let_def by (simp_all only: mRotate_def [symmetric] mRotate_mMult [symmetric] mRotate_eye)
qed

section \<open>The ellipsoid\<close>

lemma F_WGS84_range: "0 < F_WGS84" "F_WGS84 < 1"
  by (simp_all add: F_WGS84_def)

lemma e2_range: "0 < 1 - (1 - F_WGS84) * (1 - F_WGS84)" "1 - (1 - F_WGS84) * (1 - F_WGS84) < 1"
  by (simp_all add: F_WGS84_def)

lemma R_n_denominator: "0 < 1 - (1 - (1 - F_WGS84) * (1 - F_WGS84)) * sin t * sin t"
proof -
  define e where "e = 1 - (1 - F_WGS84) * (1 - F_WGS84)"
  have e: "0 < e" "e < 1" using e2_range by (simp_all add: e_def)
  have "sin t * sin t \<le> 1" using cos_sin_1 [of t] zero_le_square [of "cos t"] by linarith
  then have "e * (sin t * sin t) \<le> e * 1" using e by (intro mult_left_mono) simp_all
  then show ?thesis using e unfolding e_def [symmetric] by (simp only: mult.assoc)
qed

text \<open>Geodetic coordinates of height 0 are points of the ellipsoid with the axes \<open>a\<close> and \<open>a (1 - f)\<close>.\<close>

lemma geodeticToECEF_ellipsoid:
  assumes "polar_r p = 0"
  defines "v \<equiv> geodeticToECEF p" and "a \<equiv> A_WGS84" and "b \<equiv> A_WGS84 * (1 - F_WGS84)"
  shows "(vx v / a)\<^sup>2 + (vy v / a)\<^sup>2 + (vz v / b)\<^sup>2 = 1"
proof -
  let ?g = "1 - F_WGS84" and ?s = "sin (polar_phi p)" and ?c = "cos (polar_phi p)" and ?l = "polar_theta p"
  define w where "w = sqrt (1 - (1 - ?g * ?g) * ?s * ?s)"
  have w: "0 < w" "w * w = 1 - (1 - ?g * ?g) * ?s * ?s" using R_n_denominator [of "polar_phi p"] by (simp_all add: w_def)
  have ab: "a \<noteq> 0" "b = a * ?g" "?g \<noteq> 0" using F_WGS84_range by (simp_all add: a_def b_def A_WGS84_def)
  have v: "vx v = a / w * ?c * cos ?l" "vy v = a / w * ?c * sin ?l" "vz v = a / w * (?g * ?g) * ?s"
    using assms(1) by (simp_all add: v_def geodeticToECEF_def R_n_def w_def a_def Let_def)
  have "(vx v / a)\<^sup>2 + (vy v / a)\<^sup>2 + (vz v / b)\<^sup>2 = (?c * cos ?l / w)\<^sup>2 + (?c * sin ?l / w)\<^sup>2 + (?g * ?s / w)\<^sup>2"
    unfolding v ab(2) using ab(1,3) by simp
  also have "\<dots> = ((?c * cos ?l)\<^sup>2 + (?c * sin ?l)\<^sup>2 + (?g * ?s)\<^sup>2) / (w * w)"
    by (simp only: power_divide add_divide_distrib power2_eq_square [of w])
  also have "(?c * cos ?l)\<^sup>2 + (?c * sin ?l)\<^sup>2 + (?g * ?s)\<^sup>2 = w * w"
    using cos_sin_1 [of "polar_phi p"] cos_sin_1 [of ?l] unfolding w(2) by algebra
  finally show ?thesis using w(1) by simp
qed

text \<open>On the equator, from the surface upwards, the iteration ends after one step with the height and longitude it started from.\<close>

lemma ecefToGeodetic_equator:
  assumes "0 \<le> h" "- pi < l" "l \<le> pi"
  shows "ecefToGeodetic (geodeticToECEF \<lparr>polar_r = h, polar_phi = 0, polar_theta = l\<rparr>) = Some \<lparr>polar_r = h, polar_phi = 0, polar_theta = l\<rparr>"
proof -
  let ?a = A_WGS84 and ?g = "1 - F_WGS84"
  let ?p = "?a + h" and ?v = "geodeticToECEF \<lparr>polar_r = h, polar_phi = 0, polar_theta = l\<rparr>"
  define e2 where "e2 = 1 - (?a * ?g * (?a * ?g)) / (?a * ?a)"
  have a: "0 < ?a" by (simp add: A_WGS84_def)
  have p: "0 < ?p" using a assms(1) by simp
  have "e2 = 1 - ?g * ?g" using a by (simp add: e2_def)
  then have e2: "0 < e2" "e2 < 1" using e2_range by simp_all
  have R0: "R_n 0 = ?a" by (simp add: R_n_def Let_def)
  have v: "vx ?v = ?p * cos l" "vy ?v = ?p * sin l" "vz ?v = 0"
    by (simp_all add: geodeticToECEF_def Let_def R0)
  have "vx ?v * vx ?v + vy ?v * vy ?v = ?p\<^sup>2" unfolding v using cos_sin_1 [of l] by algebra
  then have pp: "sqrt (vx ?v * vx ?v + vy ?v * vy ?v) = ?p" using p by simp
  have zero: "atan2 0 x = 0" if "0 < x" for x using that by (simp add: atan2_def)
  have "?a / ?p \<le> 1" using a assms(1) by simp
  then have "e2 * (?a / ?p) \<le> e2 * 1" using e2 by (intro mult_left_mono) simp_all
  then have "0 < 1 - e2 * (?a / ?p)" using e2 by linarith
  then have phi1: "atan2 0 (?p * (1 - e2 * (?a / ?p))) = 0" using p by (intro zero) simp
  let ?i = "\<lparr>g_phi0 = 0, g_n0 = ?a, g_h0 = h, g_phi = 0, g_n = 0, g_h = 0, g_dh = 1, g_dphi = 1\<rparr>"
  let ?f = "\<lparr>g_phi0 = 0, g_n0 = ?a, g_h0 = h, g_phi = 0, g_n = ?a, g_h = h, g_dh = 0, g_dphi = 0\<rparr>"
  have step: "geodetic_step e2 ?p 0 ?i = ?f"
    using phi1 by (simp add: geodetic_step_def Let_def R0)
  have loop: "while_option (\<lambda>s. g_dh s > 1 / 10 ^ 5 \<or> g_dphi s > 1 / 10 ^ 12) (geodetic_step e2 ?p 0) ?i = Some ?f"
    by (subst while_option_unfold, simp add: step) (subst while_option_unfold, simp)
  have "atan2 0 (?p * (1 - e2)) = 0" using p e2 by (intro zero) simp
  moreover have "atan2 (?p * sin l) (?p * cos l) = l" using atan2_polar [OF p assms(2,3)] .
  ultimately show ?thesis
    unfolding ecefToGeodetic_def Let_def pp e2_def [symmetric] unfolding v using loop by (simp add: R0)
qed

end
