(* ===== verification/Ccsds_Headers.thy ===== *)
theory Ccsds_Headers
  imports Byte_Stream
begin

text \<open>
  The headers of the CCSDS transfer frames and source packets
  (\<open>support/support-programs/serializer/ccsds/generated\<close>). A header is a record of integers; \<open>serialize\<close> writes it as a
  sequence of bit fields, \<open>deserialize\<close> reads it again. The locale \<open>packed_header\<close> is what the six headers have in common: the fields
  follow each other without a gap. Its theorems say that the bytes of a header depend on the header only, that the bytes behind
  are not touched, and that reading gives what fits into the fields.
\<close>

unbundle bit_operations_syntax

section \<open>The code\<close>

text \<open>The big-endian functions applied to \<open>buf + k\<close>.\<close>

definition put16 :: "nat \<Rightarrow> u16 \<Rightarrow> u8 list \<Rightarrow> u8 list" where
  "put16 k v buf = take k buf @ the (uint16_tToBigEndian (Some (drop k buf)) v)"

definition put32 :: "nat \<Rightarrow> u32 \<Rightarrow> u8 list \<Rightarrow> u8 list" where
  "put32 k v buf = take k buf @ the (uint32_tToBigEndian (Some (drop k buf)) v)"

definition get16 :: "nat \<Rightarrow> u8 list \<Rightarrow> u16" where
  "get16 k buf = bigEndianToUint16_t (Some (drop k buf))"

definition get32 :: "nat \<Rightarrow> u8 list \<Rightarrow> u32" where
  "get32 k buf = bigEndianToUint32_t (Some (drop k buf))"

record DownlinkSPHeader =
  dsp_version :: u8
  dsp_typeId :: u8
  dsp_secHeaderFlag :: u8
  dsp_applicationId :: u16
  dsp_groupingFlags :: u8
  dsp_sourceSeqCnt :: u16
  dsp_dataPackLen :: u16
  dsp_secondaryFlag :: u8
  dsp_pusVersion :: u8
  dsp_spare :: u8
  dsp_service :: u8
  dsp_subservice :: u8
  dsp_destination :: u8
  dsp_timeStampSeconds :: u32
  dsp_timeStampFraction :: u16

definition DownlinkSPHeader_serialize :: "DownlinkSPHeader \<Rightarrow> u8 list \<Rightarrow> nat \<times> u8 list" where
  "DownlinkSPHeader_serialize h buf =
     (let buf = setBitField buf 0 3 (ucast (dsp_version h));
          buf = setBitField buf 3 1 (ucast (dsp_typeId h));
          buf = setBitField buf 4 1 (ucast (dsp_secHeaderFlag h));
          buf = setBitField buf 5 11 (ucast (dsp_applicationId h));
          buf = setBitField buf 16 2 (ucast (dsp_groupingFlags h));
          buf = setBitField buf 18 14 (ucast (dsp_sourceSeqCnt h));
          buf = put16 4 (dsp_dataPackLen h) buf;
          buf = setBitField buf 48 1 (ucast (dsp_secondaryFlag h));
          buf = setBitField buf 49 3 (ucast (dsp_pusVersion h));
          buf = setBitField buf 52 4 (ucast (dsp_spare h));
          buf = buf[7 := dsp_service h];
          buf = buf[8 := dsp_subservice h];
          buf = buf[9 := dsp_destination h];
          buf = put32 10 (dsp_timeStampSeconds h) buf;
          buf = put16 14 (dsp_timeStampFraction h) buf
      in (16, buf))"

definition DownlinkSPHeader_deserialize :: "u8 list \<Rightarrow> nat \<times> DownlinkSPHeader" where
  "DownlinkSPHeader_deserialize buf =
     (16, \<lparr>dsp_version = ucast (getBitField buf 0 3),
       dsp_typeId = ucast (getBitField buf 3 1),
       dsp_secHeaderFlag = ucast (getBitField buf 4 1),
       dsp_applicationId = ucast (getBitField buf 5 11),
       dsp_groupingFlags = ucast (getBitField buf 16 2),
       dsp_sourceSeqCnt = ucast (getBitField buf 18 14),
       dsp_dataPackLen = get16 4 buf,
       dsp_secondaryFlag = ucast (getBitField buf 48 1),
       dsp_pusVersion = ucast (getBitField buf 49 3),
       dsp_spare = ucast (getBitField buf 52 4),
       dsp_service = buf ! 7,
       dsp_subservice = buf ! 8,
       dsp_destination = buf ! 9,
       dsp_timeStampSeconds = get32 10 buf,
       dsp_timeStampFraction = get16 14 buf\<rparr>)"

record DownlinkTFHeader =
  dtf_version :: u8
  dtf_spaceCraftId :: u16
  dtf_virtualChanId :: u8
  dtf_opControlFlag :: u8
  dtf_masterChanFrameCnt :: u8
  dtf_virtualChanFrameCnt :: u8
  dtf_secondHeaderFlag :: u8
  dtf_synchFlag :: u8
  dtf_packetOrderFlag :: u8
  dtf_segmentLenId :: u8
  dtf_firstHeaderPtr :: u16

definition DownlinkTFHeader_serialize :: "DownlinkTFHeader \<Rightarrow> u8 list \<Rightarrow> nat \<times> u8 list" where
  "DownlinkTFHeader_serialize h buf =
     (let buf = setBitField buf 0 2 (ucast (dtf_version h));
          buf = setBitField buf 2 10 (ucast (dtf_spaceCraftId h));
          buf = setBitField buf 12 3 (ucast (dtf_virtualChanId h));
          buf = setBitField buf 15 1 (ucast (dtf_opControlFlag h));
          buf = buf[2 := dtf_masterChanFrameCnt h];
          buf = buf[3 := dtf_virtualChanFrameCnt h];
          buf = setBitField buf 32 1 (ucast (dtf_secondHeaderFlag h));
          buf = setBitField buf 33 1 (ucast (dtf_synchFlag h));
          buf = setBitField buf 34 1 (ucast (dtf_packetOrderFlag h));
          buf = setBitField buf 35 2 (ucast (dtf_segmentLenId h));
          buf = setBitField buf 37 11 (ucast (dtf_firstHeaderPtr h))
      in (6, buf))"

definition DownlinkTFHeader_deserialize :: "u8 list \<Rightarrow> nat \<times> DownlinkTFHeader" where
  "DownlinkTFHeader_deserialize buf =
     (6, \<lparr>dtf_version = ucast (getBitField buf 0 2),
       dtf_spaceCraftId = ucast (getBitField buf 2 10),
       dtf_virtualChanId = ucast (getBitField buf 12 3),
       dtf_opControlFlag = ucast (getBitField buf 15 1),
       dtf_masterChanFrameCnt = buf ! 2,
       dtf_virtualChanFrameCnt = buf ! 3,
       dtf_secondHeaderFlag = ucast (getBitField buf 32 1),
       dtf_synchFlag = ucast (getBitField buf 33 1),
       dtf_packetOrderFlag = ucast (getBitField buf 34 1),
       dtf_segmentLenId = ucast (getBitField buf 35 2),
       dtf_firstHeaderPtr = ucast (getBitField buf 37 11)\<rparr>)"

record DownlinkTFTrailer =
  dtt_control :: u8
  dtt_version :: u8
  dtt_status :: u8
  dtt_commandOpProcedure :: u8
  dtt_virtualChanel :: u8
  dtt_spare1 :: u8
  dtt_noRF :: u8
  dtt_noBitLock :: u8
  dtt_lockOut :: u8
  dtt_wait :: u8
  dtt_retransmit :: u8
  dtt_farmBCnt :: u8
  dtt_spare2 :: u8
  dtt_reportValue :: u8
  dtt_crc :: u16

definition DownlinkTFTrailer_serialize :: "DownlinkTFTrailer \<Rightarrow> u8 list \<Rightarrow> nat \<times> u8 list" where
  "DownlinkTFTrailer_serialize h buf =
     (let buf = setBitField buf 0 1 (ucast (dtt_control h));
          buf = setBitField buf 1 2 (ucast (dtt_version h));
          buf = setBitField buf 3 3 (ucast (dtt_status h));
          buf = setBitField buf 6 2 (ucast (dtt_commandOpProcedure h));
          buf = setBitField buf 8 6 (ucast (dtt_virtualChanel h));
          buf = setBitField buf 14 2 (ucast (dtt_spare1 h));
          buf = setBitField buf 16 1 (ucast (dtt_noRF h));
          buf = setBitField buf 17 1 (ucast (dtt_noBitLock h));
          buf = setBitField buf 18 1 (ucast (dtt_lockOut h));
          buf = setBitField buf 19 1 (ucast (dtt_wait h));
          buf = setBitField buf 20 1 (ucast (dtt_retransmit h));
          buf = setBitField buf 21 2 (ucast (dtt_farmBCnt h));
          buf = setBitField buf 23 1 (ucast (dtt_spare2 h));
          buf = buf[3 := dtt_reportValue h];
          buf = put16 4 (dtt_crc h) buf
      in (6, buf))"

definition DownlinkTFTrailer_deserialize :: "u8 list \<Rightarrow> nat \<times> DownlinkTFTrailer" where
  "DownlinkTFTrailer_deserialize buf =
     (6, \<lparr>dtt_control = ucast (getBitField buf 0 1),
       dtt_version = ucast (getBitField buf 1 2),
       dtt_status = ucast (getBitField buf 3 3),
       dtt_commandOpProcedure = ucast (getBitField buf 6 2),
       dtt_virtualChanel = ucast (getBitField buf 8 6),
       dtt_spare1 = ucast (getBitField buf 14 2),
       dtt_noRF = ucast (getBitField buf 16 1),
       dtt_noBitLock = ucast (getBitField buf 17 1),
       dtt_lockOut = ucast (getBitField buf 18 1),
       dtt_wait = ucast (getBitField buf 19 1),
       dtt_retransmit = ucast (getBitField buf 20 1),
       dtt_farmBCnt = ucast (getBitField buf 21 2),
       dtt_spare2 = ucast (getBitField buf 23 1),
       dtt_reportValue = buf ! 3,
       dtt_crc = get16 4 buf\<rparr>)"

record UplinkSPHeader =
  usp_version :: u8
  usp_type :: u8
  usp_secondaryHeaderFlag :: u8
  usp_applicationId :: u16
  usp_sequenceFlags :: u8
  usp_sequenceCounter :: u16
  usp_length :: u16
  usp_pusSecondaryHeaderFlag :: u8
  usp_pusVersion :: u8
  usp_ackType :: u8
  usp_serviceType :: u8
  usp_serviceSubtype :: u8
  usp_sourceID :: u8

definition UplinkSPHeader_serialize :: "UplinkSPHeader \<Rightarrow> u8 list \<Rightarrow> nat \<times> u8 list" where
  "UplinkSPHeader_serialize h buf =
     (let buf = setBitField buf 0 3 (ucast (usp_version h));
          buf = setBitField buf 3 1 (ucast (usp_type h));
          buf = setBitField buf 4 1 (ucast (usp_secondaryHeaderFlag h));
          buf = setBitField buf 5 11 (ucast (usp_applicationId h));
          buf = setBitField buf 16 2 (ucast (usp_sequenceFlags h));
          buf = setBitField buf 18 14 (ucast (usp_sequenceCounter h));
          buf = put16 4 (usp_length h) buf;
          buf = setBitField buf 48 1 (ucast (usp_pusSecondaryHeaderFlag h));
          buf = setBitField buf 49 3 (ucast (usp_pusVersion h));
          buf = setBitField buf 52 4 (ucast (usp_ackType h));
          buf = buf[7 := usp_serviceType h];
          buf = buf[8 := usp_serviceSubtype h];
          buf = buf[9 := usp_sourceID h]
      in (10, buf))"

definition UplinkSPHeader_deserialize :: "u8 list \<Rightarrow> nat \<times> UplinkSPHeader" where
  "UplinkSPHeader_deserialize buf =
     (10, \<lparr>usp_version = ucast (getBitField buf 0 3),
       usp_type = ucast (getBitField buf 3 1),
       usp_secondaryHeaderFlag = ucast (getBitField buf 4 1),
       usp_applicationId = ucast (getBitField buf 5 11),
       usp_sequenceFlags = ucast (getBitField buf 16 2),
       usp_sequenceCounter = ucast (getBitField buf 18 14),
       usp_length = get16 4 buf,
       usp_pusSecondaryHeaderFlag = ucast (getBitField buf 48 1),
       usp_pusVersion = ucast (getBitField buf 49 3),
       usp_ackType = ucast (getBitField buf 52 4),
       usp_serviceType = buf ! 7,
       usp_serviceSubtype = buf ! 8,
       usp_sourceID = buf ! 9\<rparr>)"

record UplinkTFHeader =
  utf_version :: u8
  utf_bypassFlag :: u8
  utf_controllCommandFlag :: u8
  utf_spare1 :: u8
  utf_spacecraftID :: u16
  utf_virtualChannelID :: u8
  utf_frameLength :: u16
  utf_frameSequenceNr :: u8
  utf_sequenceFlags :: u8
  utf_multiplexAceessPoint :: u8

definition UplinkTFHeader_serialize :: "UplinkTFHeader \<Rightarrow> u8 list \<Rightarrow> nat \<times> u8 list" where
  "UplinkTFHeader_serialize h buf =
     (let buf = setBitField buf 0 2 (ucast (utf_version h));
          buf = setBitField buf 2 1 (ucast (utf_bypassFlag h));
          buf = setBitField buf 3 1 (ucast (utf_controllCommandFlag h));
          buf = setBitField buf 4 2 (ucast (utf_spare1 h));
          buf = setBitField buf 6 10 (ucast (utf_spacecraftID h));
          buf = setBitField buf 16 6 (ucast (utf_virtualChannelID h));
          buf = setBitField buf 22 10 (ucast (utf_frameLength h));
          buf = buf[4 := utf_frameSequenceNr h];
          buf = setBitField buf 40 2 (ucast (utf_sequenceFlags h));
          buf = setBitField buf 42 6 (ucast (utf_multiplexAceessPoint h))
      in (6, buf))"

definition UplinkTFHeader_deserialize :: "u8 list \<Rightarrow> nat \<times> UplinkTFHeader" where
  "UplinkTFHeader_deserialize buf =
     (6, \<lparr>utf_version = ucast (getBitField buf 0 2),
       utf_bypassFlag = ucast (getBitField buf 2 1),
       utf_controllCommandFlag = ucast (getBitField buf 3 1),
       utf_spare1 = ucast (getBitField buf 4 2),
       utf_spacecraftID = ucast (getBitField buf 6 10),
       utf_virtualChannelID = ucast (getBitField buf 16 6),
       utf_frameLength = ucast (getBitField buf 22 10),
       utf_frameSequenceNr = buf ! 4,
       utf_sequenceFlags = ucast (getBitField buf 40 2),
       utf_multiplexAceessPoint = ucast (getBitField buf 42 6)\<rparr>)"

record UplinkTFTrailer =
  utt_crc :: u16

definition UplinkTFTrailer_serialize :: "UplinkTFTrailer \<Rightarrow> u8 list \<Rightarrow> nat \<times> u8 list" where
  "UplinkTFTrailer_serialize h buf =
     (let buf = put16 0 (utt_crc h) buf
      in (2, buf))"

definition UplinkTFTrailer_deserialize :: "u8 list \<Rightarrow> nat \<times> UplinkTFTrailer" where
  "UplinkTFTrailer_deserialize buf =
     (2, \<lparr>utt_crc = get16 0 buf\<rparr>)"

section \<open>Bytes and bits\<close>

lemma bytes_eqI:
  assumes "length a = length b" "\<And>q. q < 8 * length a \<Longrightarrow> bit_at a q = bit_at b q"
  shows "a = b"
proof (rule nth_equalityI)
  fix i assume i: "i < length a"
  show "a ! i = b ! i"
  proof (rule bit_word_eqI)
    fix n assume "n < LENGTH(8)"
    then have "n < 8" by simp
    then have "bit_at c (8 * i + (7 - n)) = bit (c ! i) n" for c by (subst bit_at_byte) simp_all
    then show "bit (a ! i) n = bit (b ! i) n" using assms(2) [of "8 * i + (7 - n)"] i by simp
  qed
qed (rule assms(1))

lemma bit_at_update:
  "k < length b \<Longrightarrow> bit_at (b[k := x]) q = (if q div 8 = k then bit x (7 - q mod 8) else bit_at b q)"
  by (auto simp: bit_at_def nth_list_update)

lemma bit_at_append: "bit_at (a @ b) q = (if q < 8 * length a then bit_at a q else bit_at b (q - 8 * length a))"
proof (cases "q < 8 * length a")
  case False
  then obtain r where "q = 8 * length a + r" by (metis le_Suc_ex linorder_not_less)
  then show ?thesis by (simp add: bit_at_def)
qed (simp add: bit_at_def nth_append div_less_iff_less_mult)

lemma bit_at_take: "q < 8 * k \<Longrightarrow> bit_at (take k b) q = bit_at b q"
  by (simp add: bit_at_def)

lemma bit_at_drop: "k \<le> length b \<Longrightarrow> bit_at (drop k b) q = bit_at b (8 * k + q)"
  by (simp add: bit_at_def)

lemma field_wide: "n \<le> 16 \<Longrightarrow> p mod 8 + n \<le> (24 :: nat)"
  using mod_less_divisor [of 8 p] by linarith

lemma field_bits:
  assumes "n \<le> 16" "p + n \<le> 8 * length b" "p div 8 < length b" "q < 8 * length b"
  shows "bit_at (setBitField b p n v) q = (if p \<le> q \<and> q < p + n then bit v (p + n - 1 - q) else bit_at b q)"
  using setBitField_bit_at [OF field_wide [OF assms(1)] assms(3,2,4)] .

lemma length_field [simp]: "n \<le> 16 \<Longrightarrow> length (setBitField b p n v) = length b"
  by (rule length_setBitField) (rule field_wide)

lemma byte_field:
  assumes "k < length b"
  shows "b[k := x] = setBitField b (8 * k) 8 (ucast x)"
proof (rule bytes_eqI)
  fix q assume q: "q < 8 * length (b[k := x])"
  define j r where "j = q div 8" and "r = q mod 8"
  have jr: "q = 8 * j + r" "r < 8" by (simp_all add: j_def r_def)
  have "bit_at (b[k := x]) q = (if j = k then bit x (7 - r) else bit_at b q)"
    using assms by (simp add: bit_at_update j_def r_def)
  moreover have "8 * k \<le> q \<and> q < 8 * k + 8 \<longleftrightarrow> j = k" using jr by linarith
  moreover have "j = k \<Longrightarrow> 8 * k + 8 - 1 - q = 7 - r" using jr by linarith
  ultimately show "bit_at (b[k := x]) q = bit_at (setBitField b (8 * k) 8 (ucast x)) q"
    using assms q field_bits [of 8 "8 * k" b q "ucast x"] by (auto simp: bit_ucast_iff)
qed simp

text \<open>A field is the same as its two parts.\<close>

lemma field_split:
  assumes "m + n \<le> 16" "p + m + n \<le> 8 * length b" "0 < n"
  shows "setBitField b p (m + n) v = setBitField (setBitField b p m (drop_bit n v)) (p + m) n v"
proof (rule bytes_eqI)
  fix q assume "q < 8 * length (setBitField b p (m + n) v)"
  then have q: "q < 8 * length b" using assms(1) by simp
  have "p div 8 < length b" "(p + m) div 8 < length b" using assms(2,3) by (simp_all add: div_less_iff_less_mult)
  moreover have "p + (m + n) - 1 - q = n + (p + m - 1 - q)" if "q < p + m" using that by linarith
  ultimately show "bit_at (setBitField b p (m + n) v) q = bit_at (setBitField (setBitField b p m (drop_bit n v)) (p + m) n v) q"
    using assms q field_bits [of "m + n" p b q v] field_bits [of m p b q "drop_bit n v"]
      field_bits [of n "p + m" "setBitField b p m (drop_bit n v)" q v]
    by (auto simp: bit_drop_bit_eq add.assoc)
qed (use assms in simp)

lemma low_byte_field:
  assumes "p + 8 \<le> 8 * length b"
  shows "setBitField b p 8 (ucast (ucast v :: u8)) = setBitField b p 8 v"
proof (rule bytes_eqI)
  fix q assume "q < 8 * length (setBitField b p 8 (ucast (ucast v :: u8)))"
  then show "bit_at (setBitField b p 8 (ucast (ucast v :: u8))) q = bit_at (setBitField b p 8 v) q"
    using assms field_bits [of 8 p b q v] field_bits [of 8 p b q "ucast (ucast v :: u8)"]
    by (auto simp: bit_ucast_iff div_less_iff_less_mult)
qed simp

lemma update_drop: "k \<le> length b \<Longrightarrow> take k b @ c[i := x] = (take k b @ c)[k + i := x]"
  by (simp add: list_update_append min_absorb2)

lemma put16_update: "k + 2 \<le> length b \<Longrightarrow> put16 k v b = b[k := ucast (drop_bit 8 v), k + 1 := ucast v]"
  by (simp add: put16_def uint16_tToBigEndian_def ucast_byte update_drop)

lemma put32_update: "k + 4 \<le> length b \<Longrightarrow> put32 k v b =
    b[k := ucast (drop_bit 24 v), k + 1 := ucast (drop_bit 16 v), k + 2 := ucast (drop_bit 8 v), k + 3 := ucast v]"
  by (simp add: put32_def uint32_tToBigEndian_def ucast_byte update_drop)

lemma two_bytes:
  assumes "k + 2 \<le> length b"
  shows "b[k := ucast (drop_bit 8 v), k + 1 := ucast v] = setBitField b (8 * k) 16 v"
proof -
  have "b[k := ucast (drop_bit 8 v), k + 1 := ucast v] =
      setBitField (setBitField b (8 * k) 8 (drop_bit 8 v)) (8 * k + 8) 8 v"
    using assms byte_field [of k b] byte_field [of "k + 1" "setBitField b (8 * k) 8 (drop_bit 8 v)"]
    by (simp add: low_byte_field add.commute)
  also have "\<dots> = setBitField b (8 * k) (8 + 8) v" using assms by (intro field_split [symmetric]) simp_all
  finally show ?thesis by simp
qed

lemma high_byte_ucast: "ucast (drop_bit 8 (ucast v :: u32)) = (ucast (drop_bit 8 v) :: u8)" for v :: u16
  by (rule bit_word_eqI) (simp add: bit_simps)

lemma low_byte_ucast: "ucast (ucast v :: u32) = (ucast v :: u8)" for v :: u16
  by (rule bit_word_eqI) (simp add: bit_simps)

lemma put16_field: "k + 2 \<le> length b \<Longrightarrow> put16 k v b = setBitField b (8 * k) 16 (ucast v)"
  using two_bytes [of k b "ucast v"] by (simp add: put16_update high_byte_ucast low_byte_ucast)

lemma put32_fields:
  "k + 4 \<le> length b \<Longrightarrow>
   put32 k v b = setBitField (setBitField b (8 * k) 16 (drop_bit 16 v)) (8 * k + 16) 16 v"
  using two_bytes [of k b "drop_bit 16 v"] two_bytes [of "k + 2" "setBitField b (8 * k) 16 (drop_bit 16 v)" v]
  by (simp add: put32_update numeral_3_eq_3 add.commute)

text \<open>Reading.\<close>

lemma bit_at_big: "n < 8 \<Longrightarrow> q + n = 8 * k + 7 \<Longrightarrow> bit_at b q = bit (b ! k) n"
proof -
  assume n: "n < 8" "q + n = 8 * k + 7"
  have "q = 8 * k + (7 - n)" "7 - n < 8" "7 - (7 - n) = n" using n by linarith+
  then show ?thesis using bit_at_byte [of "7 - n" b k] by simp
qed

lemma get_byte: "k < length b \<Longrightarrow> b ! k = ucast (getBitField b (8 * k) 8)"
  by (rule bit_word_eqI) (simp add: bit_ucast_iff getBitField_bits bit_at_big [of _ _ k])

lemma get16_field:
  assumes "k + 2 \<le> length b"
  shows "get16 k b = ucast (getBitField b (8 * k) 16)"
proof (rule bit_word_eqI)
  fix n assume "n < LENGTH(16)"
  then have n: "n < 16" by simp
  show "bit (get16 k b) n = bit (ucast (getBitField b (8 * k) 16) :: u16) n"
    using assms n bit_at_big [of n "8 * k + 16 - 1 - n" "k + 1" b] bit_at_big [of "n - 8" "8 * k + 16 - 1 - n" k b]
    by (cases "n < 8") (simp_all add: get16_def read16_bits bit_ucast_iff getBitField_bits)
qed

lemma get32_fields:
  assumes "k + 4 \<le> length b"
  shows "get32 k b = push_bit 16 (getBitField b (8 * k) 16) OR getBitField b (8 * k + 16) 16"
proof (rule bit_word_eqI)
  fix n assume "n < LENGTH(32)"
  then have n: "n < 32" by simp
  let ?q = "31 + 8 * k - n"
  have bits: "bit_at b ?q = bit (b ! (k + 3 - j)) (n - 8 * j)" if "8 * j \<le> n" "n < 8 * j + 8" "j \<le> 3" for j
    by (rule bit_at_big) (use n that in linarith)+
  have q: "15 + 8 * k - (n - 16) = ?q" "n - 16 < 16" if "16 \<le> n" using that n by linarith+
  show "bit (get32 k b) n = bit (push_bit 16 (getBitField b (8 * k) 16) OR getBitField b (8 * k + 16) 16) n"
    using assms n q bits [of 0] bits [of 1] bits [of 2] bits [of 3]
    by (cases "n < 16") (auto simp: get32_def read32_bits bit_or_iff bit_push_bit_iff getBitField_bits)
qed

section \<open>Fields one after the other\<close>

primrec put_fields :: "nat \<Rightarrow> (nat \<times> u32) list \<Rightarrow> u8 list \<Rightarrow> u8 list" where
  "put_fields p [] buf = buf"
| "put_fields p (f # fs) buf = put_fields (p + fst f) fs (setBitField buf p (fst f) (snd f))"

primrec get_fields :: "nat \<Rightarrow> nat list \<Rightarrow> u8 list \<Rightarrow> u32 list" where
  "get_fields p [] buf = []"
| "get_fields p (n # ns) buf = getBitField buf p n # get_fields (p + n) ns buf"

text \<open>The bits of a sequence of fields, the most significant first.\<close>

definition field_bit_list :: "(nat \<times> u32) list \<Rightarrow> bool list" where
  "field_bit_list fs = concat (map (\<lambda>(n, v). map (\<lambda>i. bit v (n - 1 - i)) [0..<n]) fs)"

lemma length_put_fields: "\<forall>f \<in> set fs. fst f \<le> 16 \<Longrightarrow> length (put_fields p fs b) = length b"
  by (induction fs arbitrary: p b) auto

lemma put_fields_bits:
  assumes "\<forall>f \<in> set fs. 0 < fst f \<and> fst f \<le> 16" "p + sum_list (map fst fs) \<le> 8 * length b" "q < 8 * length b"
  shows "bit_at (put_fields p fs b) q =
    (if p \<le> q \<and> q < p + sum_list (map fst fs) then field_bit_list fs ! (q - p) else bit_at b q)"
  using assms
proof (induction fs arbitrary: p b)
  case (Cons f fs)
  obtain n v where f: "f = (n, v)" by (cases f)
  have n: "0 < n" "n \<le> 16" "p + n \<le> 8 * length b" using Cons.prems(1,2) f by auto
  have "p div 8 < length b" using n by (simp add: div_less_iff_less_mult)
  note field = field_bits [OF n(2,3) this]
  have "bit_at (put_fields (p + n) fs (setBitField b p n v)) q =
      (if p + n \<le> q \<and> q < p + n + sum_list (map fst fs) then field_bit_list fs ! (q - (p + n))
       else bit_at (setBitField b p n v) q)"
    using Cons.prems n f by (intro Cons.IH) auto
  moreover have "field_bit_list (f # fs) ! (q - p) =
      (if q < p + n then bit v (p + n - 1 - q) else field_bit_list fs ! (q - (p + n)))" if "p \<le> q"
    using that n by (auto simp: field_bit_list_def f nth_append add.commute)
  ultimately show ?case using field [of q v] Cons.prems(3) n by (auto simp: f)
qed auto

lemma get_put_fields:
  assumes "\<forall>f \<in> set fs. 0 < fst f \<and> fst f \<le> 16" "p + sum_list (map fst fs) \<le> 8 * length b"
    "length c = length b" "\<And>q. p \<le> q \<Longrightarrow> q < p + sum_list (map fst fs) \<Longrightarrow> bit_at c q = field_bit_list fs ! (q - p)"
  shows "get_fields p (map fst fs) c = map (\<lambda>(n, v). take_bit n v) fs"
  using assms(1,2,4)
proof (induction fs arbitrary: p)
  case (Cons f fs)
  obtain n v where f: "f = (n, v)" by (cases f)
  have n: "0 < n" "n \<le> 16" using Cons.prems(1) f by auto
  have bits: "field_bit_list ((n, v) # fs) ! i = (if i < n then bit v (n - 1 - i) else field_bit_list fs ! (i - n))" for i
    by (simp add: field_bit_list_def nth_append)
  have "get_fields (p + n) (map fst fs) c = map (\<lambda>(n, v). take_bit n v) fs"
    using Cons.prems n by (intro Cons.IH) (auto simp: f bits)
  moreover have "getBitField c p n = take_bit n v"
  proof (rule bit_word_eqI)
    fix k
    show "bit (getBitField c p n) k = bit (take_bit n v) k"
      using Cons.prems(3) [of "p + n - 1 - k"] n
      by (cases "k < n") (auto simp: getBitField_bits [OF field_wide [OF n(2)]] f bits bit_take_bit_iff)
  qed
  ultimately show ?case by (simp add: f)
qed simp

section \<open>Packed headers\<close>

locale packed_header =
  fixes ser :: "'h \<Rightarrow> u8 list \<Rightarrow> nat \<times> u8 list" and des :: "u8 list \<Rightarrow> nat \<times> 'h"
    and fields :: "'h \<Rightarrow> (nat \<times> u32) list" and of_fields :: "u32 list \<Rightarrow> 'h" and trunc :: "'h \<Rightarrow> 'h"
    and widths :: "nat list" and size_bytes :: nat
  assumes ser_fields: "size_bytes \<le> length b \<Longrightarrow> ser h b = (size_bytes, put_fields 0 (fields h) b)"
    and des_fields: "size_bytes \<le> length b \<Longrightarrow> des b = (size_bytes, of_fields (get_fields 0 widths b))"
    and fields_widths: "map fst (fields h) = widths"
    and widths_range: "\<forall>n \<in> set widths. 0 < n \<and> n \<le> 16"
    and widths_sum: "sum_list widths = 8 * size_bytes"
    and of_fields_trunc: "of_fields (map (\<lambda>(n, v). take_bit n v) (fields h)) = trunc h"
begin

definition enc :: "'h \<Rightarrow> u8 list" where
  "enc h = snd (ser h (replicate size_bytes 0))"

lemma field_range: "\<forall>f \<in> set (fields h). 0 < fst f \<and> fst f \<le> 16"
  using widths_range unfolding fields_widths [of h, symmetric] by simp

lemma put_bits:
  "size_bytes \<le> length b \<Longrightarrow> q < 8 * length b \<Longrightarrow>
   bit_at (put_fields 0 (fields h) b) q = (if q < 8 * size_bytes then field_bit_list (fields h) ! q else bit_at b q)"
  using put_fields_bits [OF field_range [of h], of 0 b q] by (simp add: fields_widths widths_sum)

lemma length_put: "length (put_fields 0 (fields h) b) = length b"
  using field_range [of h] by (intro length_put_fields) auto

lemma length_enc [simp]: "length (enc h) = size_bytes"
  by (simp add: enc_def ser_fields length_put)

lemma enc_bits: "q < 8 * size_bytes \<Longrightarrow> bit_at (enc h) q = field_bit_list (fields h) ! q"
  using put_bits [of "replicate size_bytes 0" q h] by (simp add: enc_def ser_fields)

lemma ser_enc:
  assumes "size_bytes \<le> length b"
  shows "ser h b = (size_bytes, enc h @ drop size_bytes b)"
proof -
  have "put_fields 0 (fields h) b = enc h @ drop size_bytes b"
  proof (rule bytes_eqI)
    fix q assume "q < 8 * length (put_fields 0 (fields h) b)"
    then show "bit_at (put_fields 0 (fields h) b) q = bit_at (enc h @ drop size_bytes b) q"
      using assms by (simp add: length_put put_bits bit_at_append enc_bits bit_at_drop)
  qed (use assms in \<open>simp add: length_put\<close>)
  then show ?thesis using assms by (simp add: ser_fields)
qed

lemma des_enc: "des (enc h @ rest) = (size_bytes, trunc h)"
proof -
  have "get_fields 0 (map fst (fields h)) (enc h @ rest) = map (\<lambda>(n, v). take_bit n v) (fields h)"
    using field_range by (intro get_put_fields [where b = "enc h @ rest"])
      (auto simp: fields_widths widths_sum bit_at_append enc_bits)
  then show ?thesis using des_fields [of "enc h @ rest"] by (simp add: fields_widths of_fields_trunc)
qed

lemma enc_trunc_eq: "enc h = enc h' \<Longrightarrow> trunc h = trunc h'"
  using des_enc [of h "[]"] des_enc [of h' "[]"] by simp

end

section \<open>The six headers\<close>

lemma ucast_take_bit: "n \<le> 16 \<Longrightarrow> ucast (take_bit n (ucast x :: u32)) = take_bit n (x :: u16)"
  "n \<le> 8 \<Longrightarrow> ucast (take_bit n (ucast y :: u32)) = take_bit n (y :: u8)"
  by (rule bit_word_eqI, simp add: bit_simps)+

lemma join_halves: "push_bit 16 (take_bit 16 (drop_bit 16 v)) OR take_bit 16 v = (v :: u32)"
  by (rule bit_word_eqI) (auto simp: bit_simps)

lemma take_bit_whole: "take_bit 8 (y :: u8) = y" "take_bit 16 (x :: u16) = x"
  by (simp_all add: take_bit_word_eq_self)

lemmas packed_simps = byte_field put16_field put32_fields get_byte get16_field get32_fields ucast_take_bit join_halves take_bit_whole

definition dsp_fields :: "DownlinkSPHeader \<Rightarrow> (nat \<times> u32) list" where
  "dsp_fields h = [(3, ucast (dsp_version h)),
     (1, ucast (dsp_typeId h)),
     (1, ucast (dsp_secHeaderFlag h)),
     (11, ucast (dsp_applicationId h)),
     (2, ucast (dsp_groupingFlags h)),
     (14, ucast (dsp_sourceSeqCnt h)),
     (16, ucast (dsp_dataPackLen h)),
     (1, ucast (dsp_secondaryFlag h)),
     (3, ucast (dsp_pusVersion h)),
     (4, ucast (dsp_spare h)),
     (8, ucast (dsp_service h)),
     (8, ucast (dsp_subservice h)),
     (8, ucast (dsp_destination h)),
     (16, drop_bit 16 (dsp_timeStampSeconds h)),
     (16, dsp_timeStampSeconds h),
     (16, ucast (dsp_timeStampFraction h))]"

definition dsp_of :: "u32 list \<Rightarrow> DownlinkSPHeader" where
  "dsp_of vs = \<lparr>dsp_version = ucast (vs ! 0),
     dsp_typeId = ucast (vs ! 1),
     dsp_secHeaderFlag = ucast (vs ! 2),
     dsp_applicationId = ucast (vs ! 3),
     dsp_groupingFlags = ucast (vs ! 4),
     dsp_sourceSeqCnt = ucast (vs ! 5),
     dsp_dataPackLen = ucast (vs ! 6),
     dsp_secondaryFlag = ucast (vs ! 7),
     dsp_pusVersion = ucast (vs ! 8),
     dsp_spare = ucast (vs ! 9),
     dsp_service = ucast (vs ! 10),
     dsp_subservice = ucast (vs ! 11),
     dsp_destination = ucast (vs ! 12),
     dsp_timeStampSeconds = push_bit 16 (vs ! 13) OR vs ! 14,
     dsp_timeStampFraction = ucast (vs ! 15)\<rparr>"

text \<open>What of a header fits into its fields.\<close>

definition dsp_trunc :: "DownlinkSPHeader \<Rightarrow> DownlinkSPHeader" where
  "dsp_trunc h = \<lparr>dsp_version = take_bit 3 (dsp_version h),
     dsp_typeId = take_bit 1 (dsp_typeId h),
     dsp_secHeaderFlag = take_bit 1 (dsp_secHeaderFlag h),
     dsp_applicationId = take_bit 11 (dsp_applicationId h),
     dsp_groupingFlags = take_bit 2 (dsp_groupingFlags h),
     dsp_sourceSeqCnt = take_bit 14 (dsp_sourceSeqCnt h),
     dsp_dataPackLen = dsp_dataPackLen h,
     dsp_secondaryFlag = take_bit 1 (dsp_secondaryFlag h),
     dsp_pusVersion = take_bit 3 (dsp_pusVersion h),
     dsp_spare = take_bit 4 (dsp_spare h),
     dsp_service = dsp_service h,
     dsp_subservice = dsp_subservice h,
     dsp_destination = dsp_destination h,
     dsp_timeStampSeconds = dsp_timeStampSeconds h,
     dsp_timeStampFraction = dsp_timeStampFraction h\<rparr>"

interpretation dsp: packed_header DownlinkSPHeader_serialize DownlinkSPHeader_deserialize dsp_fields dsp_of dsp_trunc "[3, 1, 1, 11, 2, 14, 16, 1, 3, 4, 8, 8, 8, 16, 16, 16]" 16
  by unfold_locales
    (simp_all add: DownlinkSPHeader_serialize_def DownlinkSPHeader_deserialize_def dsp_fields_def dsp_of_def dsp_trunc_def packed_simps del: One_nat_def add_2_eq_Suc add_2_eq_Suc')

definition dtf_fields :: "DownlinkTFHeader \<Rightarrow> (nat \<times> u32) list" where
  "dtf_fields h = [(2, ucast (dtf_version h)),
     (10, ucast (dtf_spaceCraftId h)),
     (3, ucast (dtf_virtualChanId h)),
     (1, ucast (dtf_opControlFlag h)),
     (8, ucast (dtf_masterChanFrameCnt h)),
     (8, ucast (dtf_virtualChanFrameCnt h)),
     (1, ucast (dtf_secondHeaderFlag h)),
     (1, ucast (dtf_synchFlag h)),
     (1, ucast (dtf_packetOrderFlag h)),
     (2, ucast (dtf_segmentLenId h)),
     (11, ucast (dtf_firstHeaderPtr h))]"

definition dtf_of :: "u32 list \<Rightarrow> DownlinkTFHeader" where
  "dtf_of vs = \<lparr>dtf_version = ucast (vs ! 0),
     dtf_spaceCraftId = ucast (vs ! 1),
     dtf_virtualChanId = ucast (vs ! 2),
     dtf_opControlFlag = ucast (vs ! 3),
     dtf_masterChanFrameCnt = ucast (vs ! 4),
     dtf_virtualChanFrameCnt = ucast (vs ! 5),
     dtf_secondHeaderFlag = ucast (vs ! 6),
     dtf_synchFlag = ucast (vs ! 7),
     dtf_packetOrderFlag = ucast (vs ! 8),
     dtf_segmentLenId = ucast (vs ! 9),
     dtf_firstHeaderPtr = ucast (vs ! 10)\<rparr>"

text \<open>What of a header fits into its fields.\<close>

definition dtf_trunc :: "DownlinkTFHeader \<Rightarrow> DownlinkTFHeader" where
  "dtf_trunc h = \<lparr>dtf_version = take_bit 2 (dtf_version h),
     dtf_spaceCraftId = take_bit 10 (dtf_spaceCraftId h),
     dtf_virtualChanId = take_bit 3 (dtf_virtualChanId h),
     dtf_opControlFlag = take_bit 1 (dtf_opControlFlag h),
     dtf_masterChanFrameCnt = dtf_masterChanFrameCnt h,
     dtf_virtualChanFrameCnt = dtf_virtualChanFrameCnt h,
     dtf_secondHeaderFlag = take_bit 1 (dtf_secondHeaderFlag h),
     dtf_synchFlag = take_bit 1 (dtf_synchFlag h),
     dtf_packetOrderFlag = take_bit 1 (dtf_packetOrderFlag h),
     dtf_segmentLenId = take_bit 2 (dtf_segmentLenId h),
     dtf_firstHeaderPtr = take_bit 11 (dtf_firstHeaderPtr h)\<rparr>"

interpretation dtf: packed_header DownlinkTFHeader_serialize DownlinkTFHeader_deserialize dtf_fields dtf_of dtf_trunc "[2, 10, 3, 1, 8, 8, 1, 1, 1, 2, 11]" 6
  by unfold_locales
    (simp_all add: DownlinkTFHeader_serialize_def DownlinkTFHeader_deserialize_def dtf_fields_def dtf_of_def dtf_trunc_def packed_simps del: One_nat_def add_2_eq_Suc add_2_eq_Suc')

definition dtt_fields :: "DownlinkTFTrailer \<Rightarrow> (nat \<times> u32) list" where
  "dtt_fields h = [(1, ucast (dtt_control h)),
     (2, ucast (dtt_version h)),
     (3, ucast (dtt_status h)),
     (2, ucast (dtt_commandOpProcedure h)),
     (6, ucast (dtt_virtualChanel h)),
     (2, ucast (dtt_spare1 h)),
     (1, ucast (dtt_noRF h)),
     (1, ucast (dtt_noBitLock h)),
     (1, ucast (dtt_lockOut h)),
     (1, ucast (dtt_wait h)),
     (1, ucast (dtt_retransmit h)),
     (2, ucast (dtt_farmBCnt h)),
     (1, ucast (dtt_spare2 h)),
     (8, ucast (dtt_reportValue h)),
     (16, ucast (dtt_crc h))]"

definition dtt_of :: "u32 list \<Rightarrow> DownlinkTFTrailer" where
  "dtt_of vs = \<lparr>dtt_control = ucast (vs ! 0),
     dtt_version = ucast (vs ! 1),
     dtt_status = ucast (vs ! 2),
     dtt_commandOpProcedure = ucast (vs ! 3),
     dtt_virtualChanel = ucast (vs ! 4),
     dtt_spare1 = ucast (vs ! 5),
     dtt_noRF = ucast (vs ! 6),
     dtt_noBitLock = ucast (vs ! 7),
     dtt_lockOut = ucast (vs ! 8),
     dtt_wait = ucast (vs ! 9),
     dtt_retransmit = ucast (vs ! 10),
     dtt_farmBCnt = ucast (vs ! 11),
     dtt_spare2 = ucast (vs ! 12),
     dtt_reportValue = ucast (vs ! 13),
     dtt_crc = ucast (vs ! 14)\<rparr>"

text \<open>What of a header fits into its fields.\<close>

definition dtt_trunc :: "DownlinkTFTrailer \<Rightarrow> DownlinkTFTrailer" where
  "dtt_trunc h = \<lparr>dtt_control = take_bit 1 (dtt_control h),
     dtt_version = take_bit 2 (dtt_version h),
     dtt_status = take_bit 3 (dtt_status h),
     dtt_commandOpProcedure = take_bit 2 (dtt_commandOpProcedure h),
     dtt_virtualChanel = take_bit 6 (dtt_virtualChanel h),
     dtt_spare1 = take_bit 2 (dtt_spare1 h),
     dtt_noRF = take_bit 1 (dtt_noRF h),
     dtt_noBitLock = take_bit 1 (dtt_noBitLock h),
     dtt_lockOut = take_bit 1 (dtt_lockOut h),
     dtt_wait = take_bit 1 (dtt_wait h),
     dtt_retransmit = take_bit 1 (dtt_retransmit h),
     dtt_farmBCnt = take_bit 2 (dtt_farmBCnt h),
     dtt_spare2 = take_bit 1 (dtt_spare2 h),
     dtt_reportValue = dtt_reportValue h,
     dtt_crc = dtt_crc h\<rparr>"

interpretation dtt: packed_header DownlinkTFTrailer_serialize DownlinkTFTrailer_deserialize dtt_fields dtt_of dtt_trunc "[1, 2, 3, 2, 6, 2, 1, 1, 1, 1, 1, 2, 1, 8, 16]" 6
  by unfold_locales
    (simp_all add: DownlinkTFTrailer_serialize_def DownlinkTFTrailer_deserialize_def dtt_fields_def dtt_of_def dtt_trunc_def packed_simps del: One_nat_def add_2_eq_Suc add_2_eq_Suc')

definition usp_fields :: "UplinkSPHeader \<Rightarrow> (nat \<times> u32) list" where
  "usp_fields h = [(3, ucast (usp_version h)),
     (1, ucast (usp_type h)),
     (1, ucast (usp_secondaryHeaderFlag h)),
     (11, ucast (usp_applicationId h)),
     (2, ucast (usp_sequenceFlags h)),
     (14, ucast (usp_sequenceCounter h)),
     (16, ucast (usp_length h)),
     (1, ucast (usp_pusSecondaryHeaderFlag h)),
     (3, ucast (usp_pusVersion h)),
     (4, ucast (usp_ackType h)),
     (8, ucast (usp_serviceType h)),
     (8, ucast (usp_serviceSubtype h)),
     (8, ucast (usp_sourceID h))]"

definition usp_of :: "u32 list \<Rightarrow> UplinkSPHeader" where
  "usp_of vs = \<lparr>usp_version = ucast (vs ! 0),
     usp_type = ucast (vs ! 1),
     usp_secondaryHeaderFlag = ucast (vs ! 2),
     usp_applicationId = ucast (vs ! 3),
     usp_sequenceFlags = ucast (vs ! 4),
     usp_sequenceCounter = ucast (vs ! 5),
     usp_length = ucast (vs ! 6),
     usp_pusSecondaryHeaderFlag = ucast (vs ! 7),
     usp_pusVersion = ucast (vs ! 8),
     usp_ackType = ucast (vs ! 9),
     usp_serviceType = ucast (vs ! 10),
     usp_serviceSubtype = ucast (vs ! 11),
     usp_sourceID = ucast (vs ! 12)\<rparr>"

text \<open>What of a header fits into its fields.\<close>

definition usp_trunc :: "UplinkSPHeader \<Rightarrow> UplinkSPHeader" where
  "usp_trunc h = \<lparr>usp_version = take_bit 3 (usp_version h),
     usp_type = take_bit 1 (usp_type h),
     usp_secondaryHeaderFlag = take_bit 1 (usp_secondaryHeaderFlag h),
     usp_applicationId = take_bit 11 (usp_applicationId h),
     usp_sequenceFlags = take_bit 2 (usp_sequenceFlags h),
     usp_sequenceCounter = take_bit 14 (usp_sequenceCounter h),
     usp_length = usp_length h,
     usp_pusSecondaryHeaderFlag = take_bit 1 (usp_pusSecondaryHeaderFlag h),
     usp_pusVersion = take_bit 3 (usp_pusVersion h),
     usp_ackType = take_bit 4 (usp_ackType h),
     usp_serviceType = usp_serviceType h,
     usp_serviceSubtype = usp_serviceSubtype h,
     usp_sourceID = usp_sourceID h\<rparr>"

interpretation usp: packed_header UplinkSPHeader_serialize UplinkSPHeader_deserialize usp_fields usp_of usp_trunc "[3, 1, 1, 11, 2, 14, 16, 1, 3, 4, 8, 8, 8]" 10
  by unfold_locales
    (simp_all add: UplinkSPHeader_serialize_def UplinkSPHeader_deserialize_def usp_fields_def usp_of_def usp_trunc_def packed_simps del: One_nat_def add_2_eq_Suc add_2_eq_Suc')

definition utf_fields :: "UplinkTFHeader \<Rightarrow> (nat \<times> u32) list" where
  "utf_fields h = [(2, ucast (utf_version h)),
     (1, ucast (utf_bypassFlag h)),
     (1, ucast (utf_controllCommandFlag h)),
     (2, ucast (utf_spare1 h)),
     (10, ucast (utf_spacecraftID h)),
     (6, ucast (utf_virtualChannelID h)),
     (10, ucast (utf_frameLength h)),
     (8, ucast (utf_frameSequenceNr h)),
     (2, ucast (utf_sequenceFlags h)),
     (6, ucast (utf_multiplexAceessPoint h))]"

definition utf_of :: "u32 list \<Rightarrow> UplinkTFHeader" where
  "utf_of vs = \<lparr>utf_version = ucast (vs ! 0),
     utf_bypassFlag = ucast (vs ! 1),
     utf_controllCommandFlag = ucast (vs ! 2),
     utf_spare1 = ucast (vs ! 3),
     utf_spacecraftID = ucast (vs ! 4),
     utf_virtualChannelID = ucast (vs ! 5),
     utf_frameLength = ucast (vs ! 6),
     utf_frameSequenceNr = ucast (vs ! 7),
     utf_sequenceFlags = ucast (vs ! 8),
     utf_multiplexAceessPoint = ucast (vs ! 9)\<rparr>"

text \<open>What of a header fits into its fields.\<close>

definition utf_trunc :: "UplinkTFHeader \<Rightarrow> UplinkTFHeader" where
  "utf_trunc h = \<lparr>utf_version = take_bit 2 (utf_version h),
     utf_bypassFlag = take_bit 1 (utf_bypassFlag h),
     utf_controllCommandFlag = take_bit 1 (utf_controllCommandFlag h),
     utf_spare1 = take_bit 2 (utf_spare1 h),
     utf_spacecraftID = take_bit 10 (utf_spacecraftID h),
     utf_virtualChannelID = take_bit 6 (utf_virtualChannelID h),
     utf_frameLength = take_bit 10 (utf_frameLength h),
     utf_frameSequenceNr = utf_frameSequenceNr h,
     utf_sequenceFlags = take_bit 2 (utf_sequenceFlags h),
     utf_multiplexAceessPoint = take_bit 6 (utf_multiplexAceessPoint h)\<rparr>"

interpretation utf: packed_header UplinkTFHeader_serialize UplinkTFHeader_deserialize utf_fields utf_of utf_trunc "[2, 1, 1, 2, 10, 6, 10, 8, 2, 6]" 6
  by unfold_locales
    (simp_all add: UplinkTFHeader_serialize_def UplinkTFHeader_deserialize_def utf_fields_def utf_of_def utf_trunc_def packed_simps del: One_nat_def add_2_eq_Suc add_2_eq_Suc')

definition utt_fields :: "UplinkTFTrailer \<Rightarrow> (nat \<times> u32) list" where
  "utt_fields h = [(16, ucast (utt_crc h))]"

definition utt_of :: "u32 list \<Rightarrow> UplinkTFTrailer" where
  "utt_of vs = \<lparr>utt_crc = ucast (vs ! 0)\<rparr>"

text \<open>What of a header fits into its fields.\<close>

definition utt_trunc :: "UplinkTFTrailer \<Rightarrow> UplinkTFTrailer" where
  "utt_trunc h = \<lparr>utt_crc = utt_crc h\<rparr>"

interpretation utt: packed_header UplinkTFTrailer_serialize UplinkTFTrailer_deserialize utt_fields utt_of utt_trunc "[16]" 2
  by unfold_locales
    (simp_all add: UplinkTFTrailer_serialize_def UplinkTFTrailer_deserialize_def utt_fields_def utt_of_def utt_trunc_def packed_simps del: One_nat_def add_2_eq_Suc add_2_eq_Suc')

end
