(* ===== verification/Ccsds_Envelop.thy ===== *)
theory Ccsds_Envelop
  imports Ccsds_Headers Checksums Clock_Model
begin

text \<open>
  CCSDS transfer frames (\<open>support/support-programs/serializer/ccsds\<close>): \<open>ccsds-envelop.h\<close>, \<open>ccsds-envelop-for-spacecraft.cpp\<close>,
  \<open>ccsds-envelop-for-ground.cpp\<close>, \<open>downlink-frame.h\<close> with the default constants of \<open>ccsds-mission-defs.h\<close>. A transfer frame is a header,
  source packets one after the other, and a trailer with a checksum. The spacecraft writes downlink frames of a fixed
  length, which the ground reads; the ground writes uplink frames. An envelope is the buffer with the positions
  in it. A \<open>uint16_t\<close> is a number that is cut to 16 bits where the code assigns it, a pointer into the buffer is its index, an access outside
  of the buffer is \<open>None\<close>. The result of \<open>sysTime.getUTC()\<close> is an argument; \<open>rnd\<close> is the rounding of \<open>double\<close>.

  The loops around the calls belong to the application; \<open>fill_packets\<close> and \<open>read_packets\<close> are the loops of
  \<open>readme-how-to-use.txt\<close>. The locales \<open>packet_writer\<close> and \<open>packet_reader\<close> are what these loops need of an envelope; both are
  interpreted for the downlink and for the uplink.
\<close>

unbundle bit_operations_syntax

section \<open>The envelope\<close>

definition TF_MAX_LEN :: nat where "TF_MAX_LEN = 1024"
definition DOWNLINK_TF_LEN :: nat where "DOWNLINK_TF_LEN = 1000"
definition CRC_SEED :: u16 where "CRC_SEED = 0xffff"

record CCSDSEnvelop =
  env_buf :: "u8 list"
  indexOfCurrentUserData :: nat
  lenOfCurrentTF :: nat
  lenOfCurrentSP :: nat
  lenOfCurrentUserData :: nat
  indexOfCurrentSP :: nat
  userDataBuf :: nat

record DownlinkEnvelop = CCSDSEnvelop +
  d_tfHeader :: DownlinkTFHeader
  d_spHeader :: DownlinkSPHeader
  d_tfTrailer :: DownlinkTFTrailer

record UplinkEnvelop = CCSDSEnvelop +
  u_tfHeader :: UplinkTFHeader
  u_spHeader :: UplinkSPHeader
  u_tfTrailer :: UplinkTFTrailer

text \<open>The conversion to \<open>uint16_t\<close>, also of a floating point value, which is defined only in the range of the type.\<close>

definition to_uint16 :: "int \<Rightarrow> nat" where
  "to_uint16 x = nat (x mod 2 ^ 16)"

definition double_to_uint16 :: "rat \<Rightarrow> u16 option" where
  "double_to_uint16 x = (if -1 < x \<and> x < 65536 then Some (of_int (c_trunc x)) else None)"

text \<open>A header of \<open>n\<close> bytes at an index of the buffer.\<close>

definition header_write :: "nat \<Rightarrow> ('h \<Rightarrow> u8 list \<Rightarrow> nat \<times> u8 list) \<Rightarrow> 'h \<Rightarrow> int \<Rightarrow> u8 list \<Rightarrow> u8 list option" where
  "header_write n ser h i b =
     (if 0 \<le> i \<and> nat i + n \<le> length b then Some (take (nat i) b @ snd (ser h (drop (nat i) b))) else None)"

definition header_read :: "nat \<Rightarrow> (u8 list \<Rightarrow> nat \<times> 'h) \<Rightarrow> int \<Rightarrow> u8 list \<Rightarrow> 'h option" where
  "header_read n des i b = (if 0 \<le> i \<and> nat i + n \<le> length b then Some (snd (des (drop (nat i) b))) else None)"

text \<open>The checksum of a frame of \<open>len\<close> bytes, without its last two.\<close>

definition frame_crc :: "u8 list \<Rightarrow> nat \<Rightarrow> u16 option" where
  "frame_crc b len =
     (if 2 \<le> len \<and> len - 2 \<le> length b then Some (computeCRC lookUpTable (take (len - 2) b) CRC_SEED AND 0xffff) else None)"

text \<open>The application reads and writes user data through \<open>userDataBuf\<close>.\<close>

definition write_user_data :: "u8 list \<Rightarrow> 'a CCSDSEnvelop_scheme \<Rightarrow> 'a CCSDSEnvelop_scheme option" where
  "write_user_data d e =
     (if userDataBuf e + length d \<le> length (env_buf e)
      then Some (e\<lparr>env_buf := take (userDataBuf e) (env_buf e) @ d @ drop (userDataBuf e + length d) (env_buf e),
                   lenOfCurrentUserData := length d\<rparr>)
      else None)"

definition read_user_data :: "'a CCSDSEnvelop_scheme \<Rightarrow> u8 list option" where
  "read_user_data e =
     (if userDataBuf e + lenOfCurrentUserData e \<le> length (env_buf e)
      then Some (take (lenOfCurrentUserData e) (drop (userDataBuf e) (env_buf e))) else None)"

section \<open>Headers filled with zeros\<close>

definition DownlinkSPHeader_zero :: DownlinkSPHeader where
  "DownlinkSPHeader_zero = \<lparr>dsp_version = 0, dsp_typeId = 0, dsp_secHeaderFlag = 0, dsp_applicationId = 0,
     dsp_groupingFlags = 0, dsp_sourceSeqCnt = 0, dsp_dataPackLen = 0, dsp_secondaryFlag = 0, dsp_pusVersion = 0, dsp_spare =
     0, dsp_service = 0, dsp_subservice = 0, dsp_destination = 0, dsp_timeStampSeconds = 0, dsp_timeStampFraction =
     0\<rparr>"

definition DownlinkTFHeader_zero :: DownlinkTFHeader where
  "DownlinkTFHeader_zero = \<lparr>dtf_version = 0, dtf_spaceCraftId = 0, dtf_virtualChanId = 0, dtf_opControlFlag = 0,
     dtf_masterChanFrameCnt = 0, dtf_virtualChanFrameCnt = 0, dtf_secondHeaderFlag = 0, dtf_synchFlag = 0,
     dtf_packetOrderFlag = 0, dtf_segmentLenId = 0, dtf_firstHeaderPtr = 0\<rparr>"

definition DownlinkTFTrailer_zero :: DownlinkTFTrailer where
  "DownlinkTFTrailer_zero = \<lparr>dtt_control = 0, dtt_version = 0, dtt_status = 0, dtt_commandOpProcedure = 0,
     dtt_virtualChanel = 0, dtt_spare1 = 0, dtt_noRF = 0, dtt_noBitLock = 0, dtt_lockOut = 0, dtt_wait = 0, dtt_retransmit =
     0, dtt_farmBCnt = 0, dtt_spare2 = 0, dtt_reportValue = 0, dtt_crc = 0\<rparr>"

definition UplinkSPHeader_zero :: UplinkSPHeader where
  "UplinkSPHeader_zero = \<lparr>usp_version = 0, usp_type = 0, usp_secondaryHeaderFlag = 0, usp_applicationId = 0,
     usp_sequenceFlags = 0, usp_sequenceCounter = 0, usp_length = 0, usp_pusSecondaryHeaderFlag = 0, usp_pusVersion = 0,
     usp_ackType = 0, usp_serviceType = 0, usp_serviceSubtype = 0, usp_sourceID = 0\<rparr>"

definition UplinkTFHeader_zero :: UplinkTFHeader where
  "UplinkTFHeader_zero = \<lparr>utf_version = 0, utf_bypassFlag = 0, utf_controllCommandFlag = 0, utf_spare1 = 0,
     utf_spacecraftID = 0, utf_virtualChannelID = 0, utf_frameLength = 0, utf_frameSequenceNr = 0, utf_sequenceFlags = 0,
     utf_multiplexAceessPoint = 0\<rparr>"

definition UplinkTFTrailer_zero :: UplinkTFTrailer where
  "UplinkTFTrailer_zero = \<lparr>utt_crc = 0\<rparr>"

section \<open>Downlink, spacecraft\<close>

record ccsds_counters =
  DownlinkApidSequenceCounter :: "u32 list"
  DownlinkVirtualChanFrameCnt :: "u32 list"
  DownlinkMasterFramecounter :: u32

definition counters_init :: ccsds_counters where
  "counters_init = \<lparr>DownlinkApidSequenceCounter = replicate 2048 0, DownlinkVirtualChanFrameCnt = replicate 8 0,
     DownlinkMasterFramecounter = 0\<rparr>"

text \<open>A static envelope.\<close>

definition dl_envelop_zero :: DownlinkEnvelop where
  "dl_envelop_zero = \<lparr>env_buf = replicate (TF_MAX_LEN + 10) 0, indexOfCurrentUserData = 0, lenOfCurrentTF = 0, lenOfCurrentSP = 0,
     lenOfCurrentUserData = 0, indexOfCurrentSP = 0, userDataBuf = 0, d_tfHeader = DownlinkTFHeader_zero,
     d_spHeader = DownlinkSPHeader_zero, d_tfTrailer = DownlinkTFTrailer_zero\<rparr>"

definition ul_envelop_zero :: UplinkEnvelop where
  "ul_envelop_zero = \<lparr>env_buf = replicate (TF_MAX_LEN + 10) 0, indexOfCurrentUserData = 0, lenOfCurrentTF = 0, lenOfCurrentSP = 0,
     lenOfCurrentUserData = 0, indexOfCurrentSP = 0, userDataBuf = 0, u_tfHeader = UplinkTFHeader_zero,
     u_spHeader = UplinkSPHeader_zero, u_tfTrailer = UplinkTFTrailer_zero\<rparr>"

definition dl_initDefaultTFHeaderAndTrailer :: "u16 \<Rightarrow> DownlinkEnvelop \<Rightarrow> DownlinkEnvelop" where
  "dl_initDefaultTFHeaderAndTrailer spaceCraftId e =
     e\<lparr>d_tfHeader := DownlinkTFHeader_zero\<lparr>dtf_spaceCraftId := spaceCraftId, dtf_virtualChanId := 7,
         dtf_opControlFlag := 1, dtf_segmentLenId := 0x3\<rparr>,
       d_tfTrailer := DownlinkTFTrailer_zero\<lparr>dtt_commandOpProcedure := 1\<rparr>,
       lenOfCurrentTF := DOWNLINK_TF_LEN\<rparr>"

definition dl_initDefaultSPHeader :: "DownlinkEnvelop \<Rightarrow> DownlinkEnvelop" where
  "dl_initDefaultSPHeader e =
     e\<lparr>d_spHeader := DownlinkSPHeader_zero\<lparr>dsp_secHeaderFlag := 1, dsp_groupingFlags := 0x3, dsp_dataPackLen := 9,
         dsp_service := 3, dsp_subservice := 25\<rparr>\<rparr>"

definition dl_beginNewTF :: "DownlinkEnvelop \<Rightarrow> DownlinkEnvelop" where
  "dl_beginNewTF e =
     e\<lparr>env_buf := replicate TF_MAX_LEN 0xff @ drop TF_MAX_LEN (env_buf e),
       lenOfCurrentSP := 0, lenOfCurrentUserData := 0, indexOfCurrentUserData := 0,
       lenOfCurrentTF := DOWNLINK_TF_LEN, indexOfCurrentSP := 6\<rparr>"

definition dl_beginNewSP :: "DownlinkEnvelop \<Rightarrow> nat \<times> DownlinkEnvelop" where
  "dl_beginNewSP e =
     (let e = e\<lparr>indexOfCurrentUserData := to_uint16 (int (indexOfCurrentSP e) + 16)\<rparr>;
          e = e\<lparr>userDataBuf := indexOfCurrentUserData e, lenOfCurrentSP := 0, lenOfCurrentUserData := 0\<rparr>;
          maxUserLen = int DOWNLINK_TF_LEN - int (indexOfCurrentUserData e) - 6;
          maxUserLen = (if maxUserLen < 0 then 0 else maxUserLen)
      in (to_uint16 maxUserLen, e))"

definition time_fraction :: "(rat \<Rightarrow> rat) \<Rightarrow> int \<Rightarrow> u16 option" where
  "time_fraction rnd timeNow =
     double_to_uint16 (rnd (rnd (rnd (rnd (of_int (c_mod timeNow SECONDS)) / rnd (of_int SECONDS)) * 64) * 1024))"

definition dl_commitSP ::
  "(rat \<Rightarrow> rat) \<Rightarrow> int \<Rightarrow> ccsds_counters \<times> DownlinkEnvelop \<Rightarrow> (ccsds_counters \<times> DownlinkEnvelop) option" where
  "dl_commitSP rnd timeNow ge =
     (let (g, e) = ge
      in if lenOfCurrentUserData e = 0 then Some (g, e\<lparr>lenOfCurrentSP := 0\<rparr>)
         else do {
           let e = e\<lparr>lenOfCurrentSP := to_uint16 (16 + int (lenOfCurrentUserData e))\<rparr>;
           fraction \<leftarrow> time_fraction rnd timeNow;
           let apid = unat (dsp_applicationId (d_spHeader e) AND 2047);
           cnt \<leftarrow> (if apid < length (DownlinkApidSequenceCounter g) then Some (DownlinkApidSequenceCounter g ! apid) else None);
           let h = (d_spHeader e)\<lparr>dsp_dataPackLen := of_int (int (lenOfCurrentSP e) - 6 - 1),
               dsp_timeStampSeconds := of_int (c_div timeNow SECONDS), dsp_timeStampFraction := fraction,
               dsp_sourceSeqCnt := ucast cnt\<rparr>;
           let g = g\<lparr>DownlinkApidSequenceCounter := (DownlinkApidSequenceCounter g)[apid := cnt + 1]\<rparr>;
           b \<leftarrow> header_write 16 DownlinkSPHeader_serialize h (int (indexOfCurrentSP e)) (env_buf e);
           Some (g, e\<lparr>d_spHeader := h, env_buf := b,
             indexOfCurrentSP := to_uint16 (int (indexOfCurrentSP e) + int (lenOfCurrentSP e))\<rparr>)
         })"

definition dl_addIdleSP ::
  "(rat \<Rightarrow> rat) \<Rightarrow> int \<Rightarrow> ccsds_counters \<times> DownlinkEnvelop \<Rightarrow> (ccsds_counters \<times> DownlinkEnvelop) option" where
  "dl_addIdleSP rnd timeNow ge =
     (let (g, e) = ge; (restLen, e) = dl_beginNewSP e
      in if restLen = 0 then Some (g, e)
         else let e = dl_initDefaultSPHeader e;
                  e = e\<lparr>d_spHeader := (d_spHeader e)\<lparr>dsp_applicationId := 0x7ff\<rparr>, lenOfCurrentUserData := restLen\<rparr>
              in dl_commitSP rnd timeNow (g, e))"

definition dl_commitClcwToTF :: "DownlinkEnvelop \<Rightarrow> DownlinkEnvelop option" where
  "dl_commitClcwToTF e = do {
     b \<leftarrow> header_write 6 DownlinkTFTrailer_serialize (d_tfTrailer e) (int (lenOfCurrentTF e) - 6) (env_buf e);
     myCrc \<leftarrow> frame_crc b (lenOfCurrentTF e);
     let trailer = (d_tfTrailer e)\<lparr>dtt_crc := myCrc\<rparr>;
     b \<leftarrow> header_write 6 DownlinkTFTrailer_serialize trailer (int (lenOfCurrentTF e) - 6) b;
     Some (e\<lparr>d_tfTrailer := trailer, env_buf := b\<rparr>)
   }"

definition dl_commitTF ::
  "(rat \<Rightarrow> rat) \<Rightarrow> int \<Rightarrow> ccsds_counters \<times> DownlinkEnvelop \<Rightarrow> (ccsds_counters \<times> DownlinkEnvelop) option" where
  "dl_commitTF rnd timeNow ge = do {
     (g, e) \<leftarrow> dl_addIdleSP rnd timeNow ge;
     let vc = unat (dtf_virtualChanId (d_tfHeader e) AND 7);
     cnt \<leftarrow> (if vc < length (DownlinkVirtualChanFrameCnt g) then Some (DownlinkVirtualChanFrameCnt g ! vc) else None);
     let h = (d_tfHeader e)\<lparr>dtf_masterChanFrameCnt := ucast (DownlinkMasterFramecounter g), dtf_virtualChanFrameCnt := ucast cnt\<rparr>;
     let g = g\<lparr>DownlinkMasterFramecounter := DownlinkMasterFramecounter g + 1,
         DownlinkVirtualChanFrameCnt := (DownlinkVirtualChanFrameCnt g)[vc := cnt + 1]\<rparr>;
     b \<leftarrow> header_write 6 DownlinkTFHeader_serialize h 0 (env_buf e);
     e \<leftarrow> dl_commitClcwToTF (e\<lparr>d_tfHeader := h, env_buf := b\<rparr>);
     Some (g, e)
   }"

section \<open>Downlink, ground\<close>

definition dl_checkoutTF :: "DownlinkEnvelop \<Rightarrow> (bool \<times> DownlinkEnvelop) option" where
  "dl_checkoutTF e = do {
     let e = e\<lparr>indexOfCurrentSP := 0\<rparr>;
     h \<leftarrow> header_read 6 DownlinkTFHeader_deserialize 0 (env_buf e);
     let e = e\<lparr>d_tfHeader := h, lenOfCurrentTF := DOWNLINK_TF_LEN\<rparr>;
     t \<leftarrow> header_read 6 DownlinkTFTrailer_deserialize (int (lenOfCurrentTF e) - 6) (env_buf e);
     let e = e\<lparr>d_tfTrailer := t\<rparr>;
     myCrc \<leftarrow> frame_crc (env_buf e) (lenOfCurrentTF e);
     Some (myCrc = dtt_crc t, e)
   }"

definition dl_checkoutNextSP :: "DownlinkEnvelop \<Rightarrow> (bool \<times> DownlinkEnvelop) option" where
  "dl_checkoutNextSP e =
     (let e = e\<lparr>indexOfCurrentSP :=
            (if indexOfCurrentSP e = 0 then 6 else to_uint16 (int (indexOfCurrentSP e) + int (lenOfCurrentSP e)))\<rparr>
      in if indexOfCurrentSP e + 16 + 6 > lenOfCurrentTF e then Some (False, e)
         else do {
           h \<leftarrow> header_read 16 DownlinkSPHeader_deserialize (int (indexOfCurrentSP e)) (env_buf e);
           let e = e\<lparr>d_spHeader := h\<rparr>;
           let e = e\<lparr>lenOfCurrentSP := to_uint16 (uint (dsp_dataPackLen h) + 6 + 1)\<rparr>;
           let e = e\<lparr>lenOfCurrentUserData := to_uint16 (int (lenOfCurrentSP e) - 16),
               indexOfCurrentUserData := to_uint16 (int (indexOfCurrentSP e) + 16)\<rparr>;
           let e = e\<lparr>userDataBuf := indexOfCurrentUserData e\<rparr>;
           Some (\<not> (dsp_typeId h \<noteq> 0 \<or> dsp_applicationId h = 0x7ff \<or>
             indexOfCurrentSP e + lenOfCurrentSP e > lenOfCurrentTF e), e)
         })"

section \<open>Uplink, ground\<close>

definition ul_initDefaultTFHeaderAndTrailer :: "u16 \<Rightarrow> UplinkEnvelop \<Rightarrow> UplinkEnvelop" where
  "ul_initDefaultTFHeaderAndTrailer spaceCraftId e =
     e\<lparr>u_tfHeader := UplinkTFHeader_zero\<lparr>utf_bypassFlag := 1, utf_controllCommandFlag := 1, utf_spacecraftID := spaceCraftId,
         utf_frameLength := 6 + 2 - 1, utf_sequenceFlags := 3, utf_multiplexAceessPoint := 3\<rparr>,
       u_tfTrailer := UplinkTFTrailer_zero\<rparr>"

definition ul_initDefaultSPHeader :: "UplinkEnvelop \<Rightarrow> UplinkEnvelop" where
  "ul_initDefaultSPHeader e =
     e\<lparr>u_spHeader := UplinkSPHeader_zero\<lparr>usp_type := 1, usp_secondaryHeaderFlag := 1, usp_sequenceFlags := 3,
         usp_length := 10 - 1, usp_pusVersion := 1, usp_ackType := 1\<rparr>\<rparr>"

definition ul_beginNewTF :: "UplinkEnvelop \<Rightarrow> UplinkEnvelop" where
  "ul_beginNewTF e =
     e\<lparr>env_buf := replicate TF_MAX_LEN 0xff @ drop TF_MAX_LEN (env_buf e),
       lenOfCurrentSP := 0, lenOfCurrentUserData := 0, indexOfCurrentUserData := 0,
       lenOfCurrentTF := 6 + 2, indexOfCurrentSP := 6\<rparr>"

definition ul_beginNewSP :: "UplinkEnvelop \<Rightarrow> nat \<times> UplinkEnvelop" where
  "ul_beginNewSP e =
     (let e = e\<lparr>indexOfCurrentUserData := to_uint16 (int (indexOfCurrentSP e) + 10)\<rparr>;
          e = e\<lparr>userDataBuf := indexOfCurrentUserData e, lenOfCurrentSP := 0, lenOfCurrentUserData := 0\<rparr>;
          maxUserLen = int TF_MAX_LEN - int (indexOfCurrentUserData e) - 2;
          maxUserLen = (if maxUserLen < 0 then 0 else maxUserLen)
      in (to_uint16 maxUserLen, e))"

definition ul_commitSP :: "UplinkEnvelop \<Rightarrow> UplinkEnvelop option" where
  "ul_commitSP e =
     (if lenOfCurrentUserData e = 0 then Some (e\<lparr>lenOfCurrentSP := 0\<rparr>)
      else do {
        let e = e\<lparr>lenOfCurrentSP := to_uint16 (10 + int (lenOfCurrentUserData e))\<rparr>;
        let h = (u_spHeader e)\<lparr>usp_length := of_int ((10 - 6) + int (lenOfCurrentUserData e) - 1)\<rparr>;
        b \<leftarrow> header_write 10 UplinkSPHeader_serialize h (int (indexOfCurrentSP e)) (env_buf e);
        Some (e\<lparr>u_spHeader := h, env_buf := b,
          indexOfCurrentSP := to_uint16 (int (indexOfCurrentSP e) + int (lenOfCurrentSP e)),
          lenOfCurrentTF := to_uint16 (int (lenOfCurrentTF e) + int (lenOfCurrentSP e))\<rparr>)
      })"

definition ul_commitTF :: "UplinkEnvelop \<Rightarrow> UplinkEnvelop option" where
  "ul_commitTF e = do {
     let h = (u_tfHeader e)\<lparr>utf_frameLength := of_int (int (lenOfCurrentTF e) - 1)\<rparr>;
     b \<leftarrow> header_write 6 UplinkTFHeader_serialize h 0 (env_buf e);
     b \<leftarrow> header_write 2 UplinkTFTrailer_serialize (u_tfTrailer e) (int (lenOfCurrentTF e) - 2) b;
     myCrc \<leftarrow> frame_crc b (lenOfCurrentTF e);
     let trailer = (u_tfTrailer e)\<lparr>utt_crc := myCrc\<rparr>;
     b \<leftarrow> header_write 2 UplinkTFTrailer_serialize trailer (int (lenOfCurrentTF e) - 2) b;
     Some (e\<lparr>u_tfHeader := h, u_tfTrailer := trailer, env_buf := b\<rparr>)
   }"

section \<open>Uplink, spacecraft\<close>

definition ul_checkoutTF :: "UplinkEnvelop \<Rightarrow> (bool \<times> UplinkEnvelop) option" where
  "ul_checkoutTF e = do {
     let e = e\<lparr>indexOfCurrentSP := 0\<rparr>;
     h \<leftarrow> header_read 6 UplinkTFHeader_deserialize 0 (env_buf e);
     let e = e\<lparr>u_tfHeader := h, lenOfCurrentTF := to_uint16 (uint (utf_frameLength h) + 1)\<rparr>;
     t \<leftarrow> header_read 2 UplinkTFTrailer_deserialize (int (lenOfCurrentTF e) - 2) (env_buf e);
     let e = e\<lparr>u_tfTrailer := t\<rparr>;
     if lenOfCurrentTF e > TF_MAX_LEN then Some (False, e)
     else if lenOfCurrentTF e < 6 then Some (False, e)
     else do {
       myCrc \<leftarrow> frame_crc (env_buf e) (lenOfCurrentTF e);
       Some (myCrc = utt_crc t, e)
     }
   }"

definition ul_checkoutNextSP :: "UplinkEnvelop \<Rightarrow> (bool \<times> UplinkEnvelop) option" where
  "ul_checkoutNextSP e =
     (let e = e\<lparr>indexOfCurrentSP :=
            (if indexOfCurrentSP e = 0 then 6 else to_uint16 (int (indexOfCurrentSP e) + int (lenOfCurrentSP e)))\<rparr>
      in if indexOfCurrentSP e + 10 + 2 > lenOfCurrentTF e then Some (False, e)
         else do {
           h \<leftarrow> header_read 10 UplinkSPHeader_deserialize (int (indexOfCurrentSP e)) (env_buf e);
           let e = e\<lparr>u_spHeader := h\<rparr>;
           let e = e\<lparr>lenOfCurrentUserData := to_uint16 (uint (usp_length h) + 1 - (10 - 6))\<rparr>;
           let e = e\<lparr>lenOfCurrentSP := to_uint16 (int (lenOfCurrentUserData e) + 10),
               indexOfCurrentUserData := to_uint16 (int (indexOfCurrentSP e) + 10)\<rparr>;
           let e = e\<lparr>userDataBuf := indexOfCurrentUserData e\<rparr>;
           Some (\<not> (usp_applicationId h = 0x7ff \<or> indexOfCurrentSP e + lenOfCurrentSP e > lenOfCurrentTF e), e)
         })"

text \<open>The length of a telecommand from its header alone.\<close>

definition getLenOfCurrentUserData :: "UplinkSPHeader \<Rightarrow> u32" where
  "getLenOfCurrentUserData spHeader = ucast (usp_length spHeader) + 1 - (10 - 6)"

definition getLenOfCurrentSP :: "UplinkSPHeader \<Rightarrow> u32" where
  "getLenOfCurrentSP spHeader = getLenOfCurrentUserData spHeader + 10"

section \<open>A frame with one packet\<close>

definition df_beginNewFrame :: "DownlinkEnvelop \<Rightarrow> DownlinkEnvelop" where
  "df_beginNewFrame e = (let (len, e) = dl_beginNewSP (dl_beginNewTF e) in e\<lparr>lenOfCurrentUserData := len\<rparr>)"

definition df_setVcid :: "int \<Rightarrow> DownlinkEnvelop \<Rightarrow> DownlinkEnvelop" where
  "df_setVcid vcid e = e\<lparr>d_tfHeader := (d_tfHeader e)\<lparr>dtf_virtualChanId := of_int vcid\<rparr>\<rparr>"

definition df_setVals :: "u32 \<Rightarrow> int \<Rightarrow> int \<Rightarrow> int \<Rightarrow> int \<Rightarrow> DownlinkEnvelop \<Rightarrow> DownlinkEnvelop" where
  "df_setVals spaceCraftId apid serv subserv vcid e =
     (let e = dl_initDefaultSPHeader (dl_initDefaultTFHeaderAndTrailer (ucast spaceCraftId) e)
      in df_setVcid vcid (e\<lparr>d_spHeader := (d_spHeader e)\<lparr>dsp_applicationId := of_int apid, dsp_service := of_int serv,
           dsp_subservice := of_int subserv\<rparr>\<rparr>))"

definition df_beginNewFrame_with :: "u32 \<Rightarrow> int \<Rightarrow> int \<Rightarrow> int \<Rightarrow> int \<Rightarrow> DownlinkEnvelop \<Rightarrow> DownlinkEnvelop" where
  "df_beginNewFrame_with spaceCraftId apid serv subserv vcid e =
     df_setVals spaceCraftId apid serv subserv vcid (df_beginNewFrame e)"

definition df_commit ::
  "(rat \<Rightarrow> rat) \<Rightarrow> int \<Rightarrow> int \<Rightarrow> ccsds_counters \<times> DownlinkEnvelop \<Rightarrow> (ccsds_counters \<times> DownlinkEnvelop) option" where
  "df_commit rnd timeSP timeTF ge = do { ge \<leftarrow> dl_commitSP rnd timeSP ge; dl_commitTF rnd timeTF ge }"

section \<open>The loops of the application\<close>

primrec fill_packets ::
  "('s \<Rightarrow> nat \<times> 's) \<Rightarrow> ('p \<Rightarrow> 's \<Rightarrow> 's option) \<Rightarrow> ('p \<Rightarrow> nat) \<Rightarrow> 'p list \<Rightarrow> 's \<Rightarrow> ('p list \<times> 's) option" where
  "fill_packets beginNewSP put need [] s = Some ([], s)"
| "fill_packets beginNewSP put need (p # ps) s =
     (let (maxlen, s) = beginNewSP s
      in if maxlen < need p then Some (p # ps, s)
         else do { s \<leftarrow> put p s; fill_packets beginNewSP put need ps s })"

text \<open>The loop of the reader does not end on every frame, so it is a partial function.\<close>

partial_function (option) read_packets ::
  "('e \<Rightarrow> (bool \<times> 'e) option) \<Rightarrow> ('e \<Rightarrow> 'q option) \<Rightarrow> 'e \<Rightarrow> 'q list option" where
  "read_packets checkoutNextSP get e =
     do { (ok, e) \<leftarrow> checkoutNextSP e;
          if ok then do { q \<leftarrow> get e; qs \<leftarrow> read_packets checkoutNextSP get e; Some (q # qs) } else Some [] }"

definition dl_put :: "(rat \<Rightarrow> rat) \<Rightarrow> DownlinkSPHeader \<times> u8 list \<times> int \<Rightarrow> ccsds_counters \<times> DownlinkEnvelop \<Rightarrow>
    (ccsds_counters \<times> DownlinkEnvelop) option" where
  "dl_put rnd p ge =
     (let (h, d, timeNow) = p; (g, e) = ge
      in do { e \<leftarrow> write_user_data d (e\<lparr>d_spHeader := h\<rparr>); dl_commitSP rnd timeNow (g, e) })"

definition dl_begin :: "ccsds_counters \<times> DownlinkEnvelop \<Rightarrow> nat \<times> ccsds_counters \<times> DownlinkEnvelop" where
  "dl_begin ge = (let (g, e) = ge; (maxlen, e) = dl_beginNewSP e in (maxlen, g, e))"

text \<open>A downlink frame with the packets that fit, and the packets that are left.\<close>

definition dl_send :: "(rat \<Rightarrow> rat) \<Rightarrow> DownlinkTFHeader \<Rightarrow> DownlinkTFTrailer \<Rightarrow> int \<Rightarrow> (DownlinkSPHeader \<times> u8 list \<times> int) list \<Rightarrow>
    ccsds_counters \<times> DownlinkEnvelop \<Rightarrow> ((DownlinkSPHeader \<times> u8 list \<times> int) list \<times> ccsds_counters \<times> u8 list) option" where
  "dl_send rnd th tt timeNow ps ge =
     (let (g, e) = ge
      in do {
        (rest, g, e) \<leftarrow> fill_packets dl_begin (dl_put rnd) (\<lambda>(h, d, t). length d) ps (g, dl_beginNewTF e);
        (g, e) \<leftarrow> dl_commitTF rnd timeNow (g, e\<lparr>d_tfHeader := th, d_tfTrailer := tt\<rparr>);
        Some (rest, g, take (lenOfCurrentTF e) (env_buf e))
      })"

definition dl_get :: "DownlinkEnvelop \<Rightarrow> (DownlinkSPHeader \<times> u8 list) option" where
  "dl_get e = do { d \<leftarrow> read_user_data e; Some (d_spHeader e, d) }"

text \<open>What the ground makes of a frame: \<open>None\<close> inside of the outer \<open>Some\<close> is a rejected frame.\<close>

definition dl_receive :: "u8 list \<Rightarrow> DownlinkEnvelop \<Rightarrow>
    (DownlinkTFHeader \<times> (DownlinkSPHeader \<times> u8 list) list) option option" where
  "dl_receive frame e = do {
     (ok, e) \<leftarrow> dl_checkoutTF (e\<lparr>env_buf := frame @ drop (length frame) (env_buf e)\<rparr>);
     if ok then do { qs \<leftarrow> read_packets dl_checkoutNextSP dl_get e; Some (Some (d_tfHeader e, qs)) } else Some None
   }"

definition ul_put :: "UplinkSPHeader \<times> u8 list \<Rightarrow> UplinkEnvelop \<Rightarrow> UplinkEnvelop option" where
  "ul_put p e = (let (h, d) = p in do { e \<leftarrow> write_user_data d (e\<lparr>u_spHeader := h\<rparr>); ul_commitSP e })"

definition ul_send :: "UplinkTFHeader \<Rightarrow> (UplinkSPHeader \<times> u8 list) list \<Rightarrow> UplinkEnvelop \<Rightarrow>
    ((UplinkSPHeader \<times> u8 list) list \<times> u8 list) option" where
  "ul_send th ps e = do {
     (rest, e) \<leftarrow> fill_packets ul_beginNewSP ul_put (\<lambda>(h, d). length d) ps (ul_beginNewTF e);
     e \<leftarrow> ul_commitTF (e\<lparr>u_tfHeader := th\<rparr>);
     Some (rest, take (lenOfCurrentTF e) (env_buf e))
   }"

definition ul_get :: "UplinkEnvelop \<Rightarrow> (UplinkSPHeader \<times> u8 list) option" where
  "ul_get e = do { d \<leftarrow> read_user_data e; Some (u_spHeader e, d) }"

definition ul_receive :: "u8 list \<Rightarrow> UplinkEnvelop \<Rightarrow> (UplinkTFHeader \<times> (UplinkSPHeader \<times> u8 list) list) option option" where
  "ul_receive frame e = do {
     (ok, e) \<leftarrow> ul_checkoutTF (e\<lparr>env_buf := frame @ drop (length frame) (env_buf e)\<rparr>);
     if ok then do { qs \<leftarrow> read_packets ul_checkoutNextSP ul_get e; Some (Some (u_tfHeader e, qs)) } else Some None
   }"

section \<open>Writing and reading packets\<close>

text \<open>The bytes of packets whose image depends on counters.\<close>

primrec packet_images :: "('p \<Rightarrow> 'c \<Rightarrow> 'b list) \<Rightarrow> ('p \<Rightarrow> 'c \<Rightarrow> 'c) \<Rightarrow> 'p list \<Rightarrow> 'c \<Rightarrow> 'b list" where
  "packet_images img count [] c = []"
| "packet_images img count (p # ps) c = img p c @ packet_images img count ps (count p c)"

text \<open>\<open>holds s c body\<close>: the frame under construction has the packets \<open>body\<close> and the counters \<open>c\<close>.\<close>

locale packet_writer =
  fixes begin_sp :: "'s \<Rightarrow> nat \<times> 's" and put_sp :: "'p \<Rightarrow> 's \<Rightarrow> 's option" and need :: "'p \<Rightarrow> nat"
    and holds :: "'s \<Rightarrow> 'c \<Rightarrow> u8 list \<Rightarrow> bool" and img :: "'p \<Rightarrow> 'c \<Rightarrow> u8 list" and count :: "'p \<Rightarrow> 'c \<Rightarrow> 'c"
    and valid :: "'p \<Rightarrow> bool" and room :: nat
  assumes put_fits: "holds s c body \<Longrightarrow> valid p \<Longrightarrow> begin_sp s = (m, s1) \<Longrightarrow> need p \<le> m \<Longrightarrow>
      \<exists>s2. put_sp p s1 = Some s2 \<and> holds s2 (count p c) (body @ img p c)"
    and begin_full: "holds s c body \<Longrightarrow> begin_sp s = (m, s1) \<Longrightarrow> m < need p \<Longrightarrow>
      holds s1 c body \<and> room < length body + length (img p c)"
begin

lemma fill:
  assumes "holds s c body" "\<forall>p \<in> set ps. valid p"
  shows "\<exists>sent rest s'. ps = sent @ rest \<and> fill_packets begin_sp put_sp need ps s = Some (rest, s') \<and>
    holds s' (fold count sent c) (body @ packet_images img count sent c) \<and>
    (rest = [] \<or> room < length body + length (packet_images img count (sent @ [hd rest]) c))"
  using assms
proof (induction ps arbitrary: s c body)
  case Nil
  then show ?case by (intro exI [of _ "[]"] exI [of _ s]) simp
next
  case (Cons p ps)
  obtain m s1 where b: "begin_sp s = (m, s1)" by fastforce
  show ?case
  proof (cases "m < need p")
    case True
    then show ?thesis using begin_full [OF Cons.prems(1) b True] b
      by (intro exI [of _ "[]"] exI [of _ "p # ps"] exI [of _ s1]) simp
  next
    case False
    then obtain s2 where s2: "put_sp p s1 = Some s2" "holds s2 (count p c) (body @ img p c)"
      using put_fits [OF Cons.prems(1) _ b, of p] Cons.prems(2) by auto
    from Cons.IH [OF s2(2)] Cons.prems(2) obtain sent rest s' where
      "ps = sent @ rest" "fill_packets begin_sp put_sp need ps s2 = Some (rest, s')"
      "holds s' (fold count sent (count p c)) ((body @ img p c) @ packet_images img count sent (count p c))"
      "rest = [] \<or> room < length (body @ img p c) + length (packet_images img count (sent @ [hd rest]) (count p c))"
      by auto
    then show ?thesis using False b s2(1)
      by (intro exI [of _ "p # sent"] exI [of _ rest] exI [of _ s']) (simp add: add.assoc)
  qed
qed

end

text \<open>\<open>ahead e bs\<close>: the bytes from the next packet to the end of the packets are \<open>bs\<close>.\<close>

locale packet_reader =
  fixes next_sp :: "'e \<Rightarrow> (bool \<times> 'e) option" and get_sp :: "'e \<Rightarrow> 'q option" and ahead :: "'e \<Rightarrow> u8 list \<Rightarrow> bool"
    and img :: "'p \<Rightarrow> u8 list" and view :: "'p \<Rightarrow> 'q" and valid :: "'p \<Rightarrow> bool" and stop :: "u8 list \<Rightarrow> bool"
  assumes next_packet: "ahead e (img p @ bs) \<Longrightarrow> valid p \<Longrightarrow>
      \<exists>e'. next_sp e = Some (True, e') \<and> get_sp e' = Some (view p) \<and> ahead e' bs"
    and next_stop: "ahead e bs \<Longrightarrow> stop bs \<Longrightarrow> \<exists>e'. next_sp e = Some (False, e')"
begin

lemma read_all:
  assumes "ahead e (concat (map img ps) @ fin)" "\<forall>p \<in> set ps. valid p" "stop fin"
  shows "read_packets next_sp get_sp e = Some (map view ps)"
  using assms
proof (induction ps arbitrary: e)
  case Nil
  then show ?case using next_stop [of e fin] by (subst read_packets.simps) auto
next
  case (Cons p ps)
  then obtain e' where "next_sp e = Some (True, e')" "get_sp e' = Some (view p)" "ahead e' (concat (map img ps) @ fin)"
    using next_packet [of e p "concat (map img ps) @ fin"] by auto
  then show ?case using Cons by (subst read_packets.simps) auto
qed

end

section \<open>Headers in the buffer\<close>

context packed_header
begin

lemma write_at_enc:
  "size_bytes \<le> length rest \<Longrightarrow> i = int (length a) \<Longrightarrow>
   header_write size_bytes ser h i (a @ rest) = Some (a @ enc h @ drop size_bytes rest)"
  by (simp add: header_write_def ser_enc)

lemma read_at_enc: "i = int (length a) \<Longrightarrow> header_read size_bytes des i (a @ enc h @ rest) = Some (trunc h)"
  by (simp add: header_read_def des_enc)

end

lemma to_uint16_id [simp]: "0 \<le> x \<Longrightarrow> x < 65536 \<Longrightarrow> to_uint16 x = nat x"
  by (simp add: to_uint16_def)

section \<open>Downlink: writing\<close>

lemma rounds_error:
  assumes "rounds rnd" "- b \<le> x" "x \<le> b" "b \<le> 2 ^ 64"
  shows "x - (b + 1) / 1000000000000000 \<le> rnd x" "rnd x \<le> x + (b + 1) / 1000000000000000"
proof -
  have "(2 :: rat) ^ 64 \<le> 2 ^ 1000" "1 / (2 :: rat) ^ 1000 \<le> 1 / 2 ^ 53" by (auto intro: power_increasing divide_left_mono)
  moreover have "1 / (2 :: rat) ^ 53 \<le> 1 / 1000000000000000" by simp
  moreover have "\<bar>x\<bar> / 2 ^ 53 \<le> b / 1000000000000000" using assms(2,3) by (intro frac_le) (auto simp: abs_le_iff)
  moreover have "\<bar>x\<bar> \<le> b" using assms(2,3) by (simp add: abs_le_iff)
  ultimately have "\<bar>rnd x - x\<bar> \<le> b / 1000000000000000 + 1 / 1000000000000000" using rounds_abs [OF assms(1), of x] assms(4) by linarith
  then show "x - (b + 1) / 1000000000000000 \<le> rnd x" "rnd x \<le> x + (b + 1) / 1000000000000000"
    by (simp_all add: abs_le_iff add_divide_distrib)
qed

lemma time_fraction_defined:
  assumes "rounds rnd" "0 \<le> t"
  shows "\<exists>f. time_fraction rnd t = Some f"
proof -
  define r where "r = t mod SECONDS"
  have r: "0 \<le> r" "r \<le> 999999999" using pos_mod_bound [of SECONDS t] by (simp_all add: r_def SECONDS_eq)
  have ex: "rnd (of_int r) = of_int r" "rnd (of_int SECONDS) = 1000000000"
    using rounds_int [OF assms(1), of r] rounds_int [OF assms(1), of SECONDS] r by (simp_all add: SECONDS_eq)
  define x y z where "x = of_int r / (1000000000 :: rat)" and "y = rnd x" and "z = rnd (y * 64)"
  have "of_int r \<le> (999999999 :: rat)" using of_int_le_iff [of r 999999999, where 'a = rat] r(2) by simp
  then have x: "0 \<le> x" "x \<le> 999999999 / 1000000000" using r(1) by (simp_all add: x_def)
  have y: "x - 2 / 1000000000000000 \<le> y" "y \<le> x + 2 / 1000000000000000" using rounds_error [OF assms(1), of 1 x] x by (simp_all add: y_def)
  then have "- 65 \<le> y * 64" "y * 64 \<le> 65" using x by linarith+
  then have z: "y * 64 - 66 / 1000000000000000 \<le> z" "z \<le> y * 64 + 66 / 1000000000000000"
    using rounds_error [OF assms(1), of 65 "y * 64"] by (simp_all add: z_def)
  then have "- 70000 \<le> z * 1024" "z * 1024 \<le> 70000" using x y by linarith+
  then have "z * 1024 - 70001 / 1000000000000000 \<le> rnd (z * 1024)" "rnd (z * 1024) \<le> z * 1024 + 70001 / 1000000000000000"
    using rounds_error [OF assms(1), of 70000 "z * 1024"] by simp_all
  then have "-1 < rnd (z * 1024)" "rnd (z * 1024) < 65536" using x y z by linarith+
  moreover have "c_mod t SECONDS = r" using assms(2) by (simp add: r_def SECONDS_eq)
  ultimately show ?thesis
    by (simp add: time_fraction_def double_to_uint16_def ex x_def y_def z_def)
qed

type_synonym dl_packet = "DownlinkSPHeader \<times> u8 list \<times> int"

definition counters_ok :: "ccsds_counters \<Rightarrow> bool" where
  "counters_ok g \<longleftrightarrow> length (DownlinkApidSequenceCounter g) = 2048 \<and> length (DownlinkVirtualChanFrameCnt g) = 8"

definition dl_apid :: "DownlinkSPHeader \<Rightarrow> nat" where
  "dl_apid h = unat (dsp_applicationId h AND 2047)"

text \<open>The header a packet gets when it is committed.\<close>

definition dl_stamp :: "(rat \<Rightarrow> rat) \<Rightarrow> dl_packet \<Rightarrow> ccsds_counters \<Rightarrow> DownlinkSPHeader" where
  "dl_stamp rnd p g =
     (case p of (h, d, t) \<Rightarrow>
        h\<lparr>dsp_dataPackLen := of_nat (length d + 9), dsp_timeStampSeconds := of_int (t div SECONDS),
          dsp_timeStampFraction := the (time_fraction rnd t),
          dsp_sourceSeqCnt := ucast (DownlinkApidSequenceCounter g ! dl_apid h)\<rparr>)"

definition dl_count :: "dl_packet \<Rightarrow> ccsds_counters \<Rightarrow> ccsds_counters" where
  "dl_count p g =
     (case p of (h, d, t) \<Rightarrow>
        g\<lparr>DownlinkApidSequenceCounter :=
            (DownlinkApidSequenceCounter g)[dl_apid h := DownlinkApidSequenceCounter g ! dl_apid h + 1]\<rparr>)"

definition dl_img :: "(rat \<Rightarrow> rat) \<Rightarrow> dl_packet \<Rightarrow> ccsds_counters \<Rightarrow> u8 list" where
  "dl_img rnd p g = dsp.enc (dl_stamp rnd p g) @ fst (snd p)"

definition dl_holds :: "ccsds_counters \<times> DownlinkEnvelop \<Rightarrow> ccsds_counters \<Rightarrow> u8 list \<Rightarrow> bool" where
  "dl_holds ge c body \<longleftrightarrow> fst ge = c \<and> counters_ok c \<and> length body \<le> 988 \<and> lenOfCurrentTF (snd ge) = 1000 \<and>
     indexOfCurrentSP (snd ge) = 6 + length body \<and>
     (\<exists>p z. length p = 6 \<and> length z = 10 \<and> env_buf (snd ge) = p @ body @ replicate (1018 - length body) 0xff @ z)"

lemma dl_apid_less: "dl_apid h < 2048"
proof -
  have "dsp_applicationId h AND 2047 \<le> 2047" by (rule word_and_le1)
  then show ?thesis by (simp add: dl_apid_def word_le_nat_alt)
qed

lemma dl_begin_eq:
  assumes "dl_holds ge c body"
  shows "dl_begin ge = (988 - (length body + 16), fst ge, (snd ge)\<lparr>indexOfCurrentUserData := length body + 22,
     userDataBuf := length body + 22, lenOfCurrentSP := 0, lenOfCurrentUserData := 0\<rparr>)"
proof -
  have "indexOfCurrentSP (snd ge) = 6 + length body" "length body \<le> 988" using assms by (simp_all add: dl_holds_def)
  then show ?thesis
    by (cases "length body + 16 \<le> 988")
      (simp_all add: dl_begin_def dl_beginNewSP_def DOWNLINK_TF_LEN_def case_prod_beta Let_def nat_diff_distrib nat_add_distrib)
qed

lemma dl_holds_begin: "dl_holds ge c body \<Longrightarrow> dl_begin ge = (m, ge') \<Longrightarrow> dl_holds ge' c body"
  by (auto simp: dl_begin_eq) (auto simp: dl_holds_def)

text \<open>Committing user data that is in the buffer.\<close>

lemma dl_commitSP_ok:
  assumes "rounds rnd" "0 \<le> t" "counters_ok g" "d \<noteq> []" "length a + 16 + length d \<le> 2000"
    "env_buf e = a @ w @ d @ r" "length w = 16" "indexOfCurrentSP e = length a"
    "lenOfCurrentUserData e = length d" "d_spHeader e = h"
  shows "\<exists>e'. dl_commitSP rnd t (g, e) = Some (dl_count (h, d, t) g, e') \<and>
    env_buf e' = a @ dl_img rnd (h, d, t) g @ r \<and> indexOfCurrentSP e' = length a + 16 + length d \<and>
    lenOfCurrentTF e' = lenOfCurrentTF e \<and> d_tfHeader e' = d_tfHeader e \<and> d_tfTrailer e' = d_tfTrailer e"
proof -
  obtain f where f: "time_fraction rnd t = Some f" using time_fraction_defined [OF assms(1,2)] by blast
  have apid: "dl_apid h < length (DownlinkApidSequenceCounter g)" using assms(3) dl_apid_less by (simp add: counters_ok_def)
  let ?h = "dl_stamp rnd (h, d, t) g"
  have len: "to_uint16 (16 + int (length d)) = 16 + length d" using assms(5) by (simp add: nat_add_distrib)
  have idx: "to_uint16 (int (length a) + int (16 + length d)) = length a + 16 + length d"
    using assms(5) by (simp add: nat_add_distrib)
  have pl: "word_of_nat (16 + length d) - 7 = (word_of_nat (length d + 9) :: u16)" by simp
  have h: "h\<lparr>dsp_dataPackLen := word_of_nat (length d + 9), dsp_timeStampSeconds := word_of_int (c_div t SECONDS),
      dsp_timeStampFraction := f, dsp_sourceSeqCnt := ucast (DownlinkApidSequenceCounter g ! dl_apid h)\<rparr> = ?h"
    using assms(2) f by (simp add: dl_stamp_def SECONDS_eq)
  have w: "header_write 16 DownlinkSPHeader_serialize ?h (int (length a)) (a @ w @ d @ r) = Some (a @ dsp.enc ?h @ d @ r)"
    using dsp.write_at_enc [of "w @ d @ r" "int (length a)" a ?h] assms(7) by simp
  show ?thesis
    using assms(4,6,8-10) apid
    by (simp add: dl_commitSP_def f len idx pl h w dl_apid_def [symmetric] dl_count_def dl_img_def Let_def del: of_nat_add)
qed

lemma replicate_parts: "n = a + b + c \<Longrightarrow> replicate n x = replicate a x @ replicate b x @ replicate c x"
  by (simp add: replicate_add)

definition dl_valid :: "(rat \<Rightarrow> rat) \<Rightarrow> dl_packet \<Rightarrow> bool" where
  "dl_valid rnd p \<longleftrightarrow> rounds rnd \<and> fst (snd p) \<noteq> [] \<and> 0 \<le> snd (snd p)"

lemma counters_ok_count [simp]: "counters_ok (dl_count p g) = counters_ok g"
  by (cases p) (simp add: dl_count_def counters_ok_def)

lemma length_dl_img: "length (dl_img rnd p g) = 16 + length (fst (snd p))"
  by (simp add: dl_img_def)

lemma dl_holdsI:
  "counters_ok c \<Longrightarrow> length body \<le> 988 \<Longrightarrow> lenOfCurrentTF e = 1000 \<Longrightarrow> indexOfCurrentSP e = 6 + length body \<Longrightarrow> length p = 6 \<Longrightarrow>
   length z = 10 \<Longrightarrow> env_buf e = p @ body @ replicate (1018 - length body) 0xff @ z \<Longrightarrow> dl_holds (c, e) c body"
  unfolding dl_holds_def by auto

lemma dl_put_fits:
  assumes "dl_holds ge c body" "dl_valid rnd p" "dl_begin ge = (m, ge1)" "length (fst (snd p)) \<le> m"
  shows "\<exists>ge2. dl_put rnd p ge1 = Some ge2 \<and> dl_holds ge2 (dl_count p c) (body @ dl_img rnd p c)"
proof -
  obtain h d t where p: "p = (h, d, t)" by (cases p)
  obtain g e where ge: "ge = (g, e)" by (cases ge)
  from assms(1) obtain q z where hd: "g = c" "counters_ok c" "lenOfCurrentTF e = 1000" "indexOfCurrentSP e = 6 + length body"
    and q: "length q = 6" "length z = 10" "env_buf e = q @ body @ replicate (1018 - length body) 0xff @ z"
    by (auto simp: dl_holds_def ge)
  have d: "rounds rnd" "d \<noteq> []" "0 \<le> t" using assms(2) by (simp_all add: dl_valid_def p)
  have "length d \<le> 988 - (length body + 16)" "0 < length d" using assms(3,4) d(2) by (auto simp: dl_begin_eq [OF assms(1)] p)
  then have n: "0 < length d" "length body + 16 + length d \<le> 988" by linarith+
  let ?r = "replicate (1018 - length body - 16 - length d) 0xff @ z"
  have "1018 - length body = 16 + length d + (1018 - length body - 16 - length d)" using n by simp
  from replicate_parts [OF this, where x = "0xff :: u8"]
  have buf: "env_buf e = (q @ body @ replicate 16 0xff) @ replicate (length d) 0xff @ ?r"
    unfolding q(3) by (simp only: append_assoc)
  define e1 where "e1 = e\<lparr>indexOfCurrentUserData := length body + 22, userDataBuf := length body + 22, lenOfCurrentSP := 0,
      lenOfCurrentUserData := 0, d_spHeader := h\<rparr>"
  define e2 where "e2 = e1\<lparr>env_buf := (q @ body) @ replicate 16 0xff @ d @ ?r, lenOfCurrentUserData := length d\<rparr>"
  have "write_user_data d e1 = Some e2"
    using q(1) n by (simp add: write_user_data_def e1_def e2_def buf)
  moreover obtain e3 where e3: "dl_commitSP rnd t (g, e2) = Some (dl_count p g, e3)"
    "env_buf e3 = (q @ body) @ dl_img rnd p g @ ?r" "indexOfCurrentSP e3 = length (q @ body) + 16 + length d"
    "lenOfCurrentTF e3 = lenOfCurrentTF e2"
    using dl_commitSP_ok [of rnd t g d "q @ body" e2 "replicate 16 0xff" ?r h] d n hd(1,2,4) q(1)
    by (auto simp: e1_def e2_def p)
  ultimately have "dl_put rnd p ge1 = Some (dl_count p g, e3)"
    using assms(3) dl_begin_eq [OF assms(1)] by (auto simp: dl_put_def ge p e1_def)
  moreover have "dl_holds (dl_count p c, e3) (dl_count p c) (body @ dl_img rnd p c)"
    using e3 hd q(1,2) n by (intro dl_holdsI [where p = q and z = z]) (auto simp: length_dl_img p e2_def e1_def)
  ultimately show ?thesis using hd(1) by blast
qed

interpretation dlw: packet_writer dl_begin "dl_put rnd" "\<lambda>(h, d, t). length d" dl_holds "dl_img rnd" dl_count "dl_valid rnd" 988 for rnd
proof
  fix ge c body m ge1 and p :: dl_packet
  assume h: "dl_holds ge c body" "dl_begin ge = (m, ge1)"
  {
    assume "dl_valid rnd p" "(case p of (h, d, t) \<Rightarrow> length d) \<le> m"
    then show "\<exists>ge2. dl_put rnd p ge1 = Some ge2 \<and> dl_holds ge2 (dl_count p c) (body @ dl_img rnd p c)"
      using dl_put_fits [OF h(1) _ h(2), of rnd p] by (simp add: case_prod_beta)
  next
    assume "m < (case p of (h, d, t) \<Rightarrow> length d)"
    then have "988 < length body + length (dl_img rnd p c)"
      using h(2) by (auto simp: dl_begin_eq [OF h(1)] length_dl_img case_prod_beta)
    then show "dl_holds ge1 c body \<and> 988 < length body + length (dl_img rnd p c)" using dl_holds_begin [OF h] by simp
  }
qed

lemma dl_beginNewTF_holds:
  "counters_ok g \<Longrightarrow> length (env_buf e) = 1034 \<Longrightarrow> dl_holds (g, dl_beginNewTF e) g []"
proof -
  assume a: "counters_ok g" "length (env_buf e) = 1034"
  have "replicate 1024 0xff = replicate 6 (0xff :: u8) @ replicate 1018 0xff"
    by (simp add: replicate_add [symmetric] del: replicate.simps)
  then have "length (replicate 6 (0xff :: u8)) = 6 \<and> length (drop 1024 (env_buf e)) = 10 \<and>
      env_buf (dl_beginNewTF e) = replicate 6 0xff @ [] @ replicate (1018 - length []) 0xff @ drop 1024 (env_buf e)"
    using a(2) by (simp add: dl_beginNewTF_def TF_MAX_LEN_def)
  then show ?thesis unfolding dl_holds_def
    using a(1) by (intro conjI exI) (auto simp: dl_beginNewTF_def DOWNLINK_TF_LEN_def)
qed

section \<open>Downlink: closing a frame\<close>

definition dl_stop :: "u8 list \<Rightarrow> bool" where
  "dl_stop fin \<longleftrightarrow> length fin < 16 \<or> (\<exists>h r. fin = dsp.enc h @ r \<and> take_bit 11 (dsp_applicationId h) = 0x7ff)"

lemma dl_padding_stops: "dl_stop (replicate 16 0xff)"
proof -
  let ?h = "\<lparr>dsp_version = -1, dsp_typeId = -1, dsp_secHeaderFlag = -1, dsp_applicationId = -1, dsp_groupingFlags = -1,
    dsp_sourceSeqCnt = -1, dsp_dataPackLen = -1, dsp_secondaryFlag = -1, dsp_pusVersion = -1, dsp_spare = -1, dsp_service = -1,
    dsp_subservice = -1, dsp_destination = -1, dsp_timeStampSeconds = -1, dsp_timeStampFraction = -1\<rparr> :: DownlinkSPHeader"
  have "dsp.enc ?h = replicate 16 0xff" unfolding dsp.enc_def by code_simp
  moreover have "take_bit 11 (dsp_applicationId ?h) = 0x7ff" by code_simp
  ultimately show ?thesis unfolding dl_stop_def by (metis append_Nil2)
qed

lemma dl_addIdleSP_ok:
  assumes "rounds rnd" "0 \<le> t" "dl_holds (g, e) g body"
  shows "\<exists>g' e' fin q z. dl_addIdleSP rnd t (g, e) = Some (g', e') \<and> counters_ok g' \<and>
    DownlinkVirtualChanFrameCnt g' = DownlinkVirtualChanFrameCnt g \<and> DownlinkMasterFramecounter g' = DownlinkMasterFramecounter g \<and>
    length body + length fin = 988 \<and> dl_stop fin \<and> length q = 6 \<and> length z = 10 \<and>
    env_buf e' = q @ body @ fin @ replicate 30 0xff @ z \<and> lenOfCurrentTF e' = 1000 \<and>
    d_tfHeader e' = d_tfHeader e \<and> d_tfTrailer e' = d_tfTrailer e"
proof -
  from assms(3) obtain q z where hd: "counters_ok g" "lenOfCurrentTF e = 1000" "indexOfCurrentSP e = 6 + length body" "length body \<le> 988"
    and q: "length q = 6" "length z = 10" "env_buf e = q @ body @ replicate (1018 - length body) 0xff @ z"
    by (auto simp: dl_holds_def)
  define n where "n = 988 - (length body + 16)"
  define e1 where "e1 = e\<lparr>indexOfCurrentUserData := length body + 22, userDataBuf := length body + 22, lenOfCurrentSP := 0,
      lenOfCurrentUserData := 0\<rparr>"
  have b: "dl_beginNewSP e = (n, e1)"
    using dl_begin_eq [OF assms(3)] by (simp add: dl_begin_def n_def e1_def case_prod_beta prod_eq_iff)
  show ?thesis
  proof (cases "n = 0")
    case True
    let ?fin = "replicate (988 - length body) (0xff :: u8)"
    have k: "988 - length body \<le> 16" "1018 - length body = (988 - length body) + 30" using True hd(4) by (auto simp: n_def)
    then have "dl_stop ?fin" using dl_padding_stops by (cases "988 - length body = 16") (simp_all add: dl_stop_def)
    moreover have "env_buf e1 = q @ body @ ?fin @ replicate 30 0xff @ z"
      by (simp add: e1_def q(3) k(2) replicate_add del: replicate.simps)
    ultimately show ?thesis using True hd q(1,2)
      by (intro exI [of _ g] exI [of _ e1] exI [of _ ?fin] exI [of _ q] exI [of _ z])
        (simp add: dl_addIdleSP_def b, simp add: e1_def)
  next
    case False
    let ?d = "replicate n (0xff :: u8)"
    define h where "h = d_spHeader (dl_initDefaultSPHeader e1)\<lparr>dsp_applicationId := 0x7ff\<rparr>"
    define e2 where "e2 = (dl_initDefaultSPHeader e1)\<lparr>d_spHeader := h, lenOfCurrentUserData := n\<rparr>"
    have "1018 - length body = 16 + n + 30" using False hd(4) by (simp add: n_def)
    from replicate_parts [OF this, where x = "0xff :: u8"]
    have buf: "env_buf e2 = (q @ body) @ replicate 16 0xff @ ?d @ replicate 30 0xff @ z"
      by (simp add: e2_def e1_def dl_initDefaultSPHeader_def q(3))
    obtain e3 where e3: "dl_commitSP rnd t (g, e2) = Some (dl_count (h, ?d, t) g, e3)"
      "env_buf e3 = (q @ body) @ dl_img rnd (h, ?d, t) g @ replicate 30 0xff @ z"
      "lenOfCurrentTF e3 = lenOfCurrentTF e2" "d_tfHeader e3 = d_tfHeader e2" "d_tfTrailer e3 = d_tfTrailer e2"
      using dl_commitSP_ok [of rnd t g ?d "q @ body" e2 "replicate 16 0xff" "replicate 30 0xff @ z" h] assms(1,2) hd q False buf
      by (auto simp: e2_def e1_def dl_initDefaultSPHeader_def n_def)
    have "dl_stop (dl_img rnd (h, ?d, t) g)"
      unfolding dl_stop_def dl_img_def
      by (intro disjI2 exI conjI, rule refl) (simp add: dl_stamp_def h_def take_bit_eq_mod)
    moreover have "length body + length (dl_img rnd (h, ?d, t) g) = 988" using False by (simp add: length_dl_img n_def)
    moreover have "dl_addIdleSP rnd t (g, e) = Some (dl_count (h, ?d, t) g, e3)"
      using False e3(1) by (simp add: dl_addIdleSP_def b e2_def h_def Let_def)
    ultimately show ?thesis using e3 hd q(1,2)
      by (intro exI [of _ "dl_count (h, ?d, t) g"] exI [of _ e3] exI [of _ "dl_img rnd (h, ?d, t) g"] exI [of _ q] exI [of _ z])
        (simp add: e2_def e1_def dl_initDefaultSPHeader_def, simp add: dl_count_def)
  qed
qed

lemma and_ffff: "x AND 0xffff = (x :: u16)"
proof -
  have "(0xffff :: u16) = -1" by simp
  then show ?thesis by (simp only: and.right_neutral)
qed

lemma frame_crc_eq: "998 \<le> length b \<Longrightarrow> frame_crc b 1000 = Some (computeCRC lookUpTable (take 998 b) CRC_SEED)"
  by (simp add: frame_crc_def and_ffff)

text \<open>The checksum is the last field of the trailer, so setting it leaves the bytes it is computed from.\<close>

lemma take_put16: "k \<le> length b \<Longrightarrow> take k (put16 k v b) = take k b"
  by (simp add: put16_def)

lemma dtt_enc_crc: "take 4 (dtt.enc (tt\<lparr>dtt_crc := c\<rparr>)) = take 4 (dtt.enc tt)"
  by (simp add: dtt.enc_def DownlinkTFTrailer_serialize_def take_put16)

lemma dl_commitClcwToTF_ok:
  assumes "env_buf e = a @ w @ r" "length a = 994" "length w = 6" "lenOfCurrentTF e = 1000"
  shows "\<exists>e' tt. dl_commitClcwToTF e = Some e' \<and> env_buf e' = a @ dtt.enc tt @ r \<and> lenOfCurrentTF e' = 1000 \<and>
    dtt_crc tt = computeCRC lookUpTable (take 998 (env_buf e')) CRC_SEED"
proof -
  let ?b1 = "a @ dtt.enc (d_tfTrailer e) @ r"
  define c where "c = computeCRC lookUpTable (take 998 ?b1) CRC_SEED"
  let ?tt = "(d_tfTrailer e)\<lparr>dtt_crc := c\<rparr>"
  let ?b2 = "a @ dtt.enc ?tt @ r"
  have w1: "header_write 6 DownlinkTFTrailer_serialize (d_tfTrailer e) 994 (env_buf e) = Some ?b1"
    using dtt.write_at_enc [of "w @ r" 994 a] assms(1-3) by simp
  have w2: "header_write 6 DownlinkTFTrailer_serialize ?tt 994 ?b1 = Some ?b2"
    using dtt.write_at_enc [of "dtt.enc (d_tfTrailer e) @ r" 994 a ?tt] assms(2) by simp
  have crc: "frame_crc ?b1 1000 = Some c" using assms(2) by (simp add: frame_crc_eq c_def)
  have "take 998 ?b2 = take 998 ?b1" using assms(2) dtt_enc_crc [where tt = "d_tfTrailer e" and c = c] by simp
  then have "c = computeCRC lookUpTable (take 998 ?b2) CRC_SEED" by (simp only: c_def)
  moreover have "dl_commitClcwToTF e = Some (e\<lparr>d_tfTrailer := ?tt, env_buf := ?b2\<rparr>)"
    using assms(4) by (simp add: dl_commitClcwToTF_def w1 w2 crc Let_def)
  ultimately show ?thesis
    using assms(4) by (intro exI [of _ "e\<lparr>d_tfTrailer := ?tt, env_buf := ?b2\<rparr>"] exI [of _ ?tt]) simp
qed

definition dl_frame_header :: "ccsds_counters \<Rightarrow> DownlinkTFHeader \<Rightarrow> DownlinkTFHeader" where
  "dl_frame_header g th =
     th\<lparr>dtf_masterChanFrameCnt := ucast (DownlinkMasterFramecounter g),
        dtf_virtualChanFrameCnt := ucast (DownlinkVirtualChanFrameCnt g ! unat (dtf_virtualChanId th AND 7))\<rparr>"

text \<open>A closed frame.\<close>

definition dl_frame :: "DownlinkTFHeader \<Rightarrow> u8 list \<Rightarrow> u8 list \<Rightarrow> bool" where
  "dl_frame th body b \<longleftrightarrow> (\<exists>fin tt. length body + length fin = 988 \<and> dl_stop fin \<and>
     b = dtf.enc th @ body @ fin @ dtt.enc tt \<and> dtt_crc tt = computeCRC lookUpTable (take 998 b) CRC_SEED)"

lemma dl_commitTF_ok:
  assumes "rounds rnd" "0 \<le> t" "dl_holds (g, e) g body"
  shows "\<exists>g' e'. dl_commitTF rnd t (g, e) = Some (g', e') \<and> counters_ok g' \<and> lenOfCurrentTF e' = 1000 \<and>
    dl_frame (dl_frame_header g (d_tfHeader e)) body (take 1000 (env_buf e'))"
proof -
  obtain g1 e1 fin q z where idle: "dl_addIdleSP rnd t (g, e) = Some (g1, e1)" "counters_ok g1"
    "DownlinkVirtualChanFrameCnt g1 = DownlinkVirtualChanFrameCnt g" "DownlinkMasterFramecounter g1 = DownlinkMasterFramecounter g"
    and fin: "length body + length fin = 988" "dl_stop fin" "length q = 6" "length z = 10"
    and e1: "env_buf e1 = q @ body @ fin @ replicate 30 0xff @ z" "lenOfCurrentTF e1 = 1000" "d_tfHeader e1 = d_tfHeader e"
    using dl_addIdleSP_ok [OF assms] by blast
  let ?vc = "unat (dtf_virtualChanId (d_tfHeader e) AND 7)" and ?h = "dl_frame_header g (d_tfHeader e)"
  have "dtf_virtualChanId (d_tfHeader e) AND 7 \<le> 7" by (rule word_and_le1)
  then have vc: "?vc < 8" by (simp add: word_le_nat_alt)
  have w: "header_write 6 DownlinkTFHeader_serialize ?h 0 (env_buf e1) = Some (dtf.enc ?h @ body @ fin @ replicate 30 0xff @ z)"
    using dtf.write_at_enc [of "env_buf e1" 0 "[]" ?h] fin(3) by (simp add: e1(1))
  define e2 where "e2 = e1\<lparr>d_tfHeader := ?h, env_buf := dtf.enc ?h @ body @ fin @ replicate 30 0xff @ z\<rparr>"
  have "replicate 30 (0xff :: u8) = replicate 6 0xff @ replicate 24 0xff" by (simp add: replicate_add [symmetric] del: replicate.simps)
  then obtain e3 tt where e3: "dl_commitClcwToTF e2 = Some e3" "env_buf e3 = (dtf.enc ?h @ body @ fin) @ dtt.enc tt @ replicate 24 0xff @ z"
    "lenOfCurrentTF e3 = 1000" "dtt_crc tt = computeCRC lookUpTable (take 998 (env_buf e3)) CRC_SEED"
    using dl_commitClcwToTF_ok [of e2 "dtf.enc ?h @ body @ fin" "replicate 6 0xff" "replicate 24 0xff @ z"] fin(1) e1(2)
    by (auto simp: e2_def)
  have "take 1000 (env_buf e3) = dtf.enc ?h @ body @ fin @ dtt.enc tt" using fin(1) by (simp add: e3(2))
  moreover have "take 998 (env_buf e3) = take 998 (take 1000 (env_buf e3))" by simp
  ultimately have "dl_frame ?h body (take 1000 (env_buf e3))" unfolding dl_frame_def using fin(1,2) e3(4) by metis
  moreover have "counters_ok (g1\<lparr>DownlinkMasterFramecounter := DownlinkMasterFramecounter g + 1,
      DownlinkVirtualChanFrameCnt := (DownlinkVirtualChanFrameCnt g)[?vc := DownlinkVirtualChanFrameCnt g ! ?vc + 1]\<rparr>)"
    using idle(2,3) by (simp add: counters_ok_def)
  moreover have "?vc < length (DownlinkVirtualChanFrameCnt g)" using idle(2,3) vc by (simp add: counters_ok_def)
  ultimately show ?thesis
    using e3(1,3) w by (simp add: dl_commitTF_def idle e1(3) dl_frame_header_def [symmetric] e2_def Let_def)
qed

section \<open>Downlink: reading\<close>

definition next_index :: "'a CCSDSEnvelop_scheme \<Rightarrow> nat" where
  "next_index e = (if indexOfCurrentSP e = 0 then 6 else to_uint16 (int (indexOfCurrentSP e) + int (lenOfCurrentSP e)))"

text \<open>The last six bytes before the index 1000 are the trailer.\<close>

definition dl_ahead :: "DownlinkEnvelop \<Rightarrow> u8 list \<Rightarrow> bool" where
  "dl_ahead e bs \<longleftrightarrow> lenOfCurrentTF e = 1000 \<and>
     (\<exists>a r. env_buf e = a @ bs @ r \<and> length a + length bs = 994 \<and> length r = 40 \<and> 6 \<le> length a \<and> next_index e = length a)"

definition dl_readable :: "DownlinkSPHeader \<times> u8 list \<Rightarrow> bool" where
  "dl_readable q \<longleftrightarrow> dsp_dataPackLen (fst q) = of_nat (length (snd q) + 9) \<and> even (dsp_typeId (fst q)) \<and>
     take_bit 11 (dsp_applicationId (fst q)) \<noteq> 0x7ff"

lemma dl_next_packet:
  assumes "dl_ahead e ((dsp.enc h @ d) @ bs)" "dl_readable (h, d)"
  shows "\<exists>e'. dl_checkoutNextSP e = Some (True, e') \<and> dl_get e' = Some (dsp_trunc h, d) \<and> dl_ahead e' bs"
proof -
  from assms(1) obtain a r where e: "lenOfCurrentTF e = 1000" "env_buf e = a @ dsp.enc h @ d @ bs @ r" "length r = 40"
    "length a + 16 + length d + length bs = 994" "6 \<le> length a" "next_index e = length a"
    by (auto simp: dl_ahead_def)
  have rd: "header_read 16 DownlinkSPHeader_deserialize (int (length a)) (env_buf e) = Some (dsp_trunc h)"
    unfolding e(2) by (rule dsp.read_at_enc) simp
  have len: "uint (dsp_dataPackLen (dsp_trunc h)) = int (length d) + 9"
    using assms(2) e(4) by (simp add: dl_readable_def dsp_trunc_def unsigned_of_nat take_bit_eq_mod del: of_nat_add)
  have sp: "to_uint16 (int (length d) + 9 + 6 + 1) = 16 + length d" "to_uint16 (int (16 + length d) - 16) = length d"
    "to_uint16 (int (length a) + 16) = length a + 16"
    using e(4) by (simp_all add: nat_add_distrib)
  have ok: "dsp_typeId (dsp_trunc h) = 0" "dsp_applicationId (dsp_trunc h) \<noteq> 0x7ff"
    using assms(2) by (simp_all add: dl_readable_def dsp_trunc_def even_iff_mod_2_eq_zero)
  define e' where "e' = e\<lparr>indexOfCurrentSP := length a, d_spHeader := dsp_trunc h, lenOfCurrentSP := 16 + length d,
      lenOfCurrentUserData := length d, indexOfCurrentUserData := length a + 16, userDataBuf := length a + 16\<rparr>"
  have "dl_checkoutNextSP e = Some (True, e')"
    using e(1,4) ok unfolding dl_checkoutNextSP_def next_index_def [symmetric] e(6)
    by (simp add: rd len sp e'_def Let_def del: of_nat_add)
  moreover have "dl_get e' = Some (dsp_trunc h, d)" by (simp add: dl_get_def read_user_data_def e'_def e(2))
  moreover have "next_index e' = length (a @ dsp.enc h @ d)"
    using e(4,5) by (auto simp: next_index_def e'_def nat_add_distrib)
  then have "dl_ahead e' bs"
    unfolding dl_ahead_def using e by (intro conjI exI [of _ "a @ dsp.enc h @ d"] exI [of _ r]) (simp_all add: e'_def)
  ultimately show ?thesis by blast
qed

lemma dl_next_stop:
  assumes "dl_ahead e bs" "dl_stop bs"
  shows "\<exists>e'. dl_checkoutNextSP e = Some (False, e')"
proof -
  from assms(1) obtain a r where e: "lenOfCurrentTF e = 1000" "env_buf e = a @ bs @ r" "length r = 40"
    "length a + length bs = 994" "next_index e = length a"
    by (auto simp: dl_ahead_def)
  show ?thesis
  proof (cases "length bs < 16")
    case True
    then show ?thesis using e(1,4) unfolding dl_checkoutNextSP_def next_index_def [symmetric] e(5) by (simp add: Let_def)
  next
    case False
    then obtain h c where h: "bs = dsp.enc h @ c" "take_bit 11 (dsp_applicationId h) = 0x7ff" using assms(2) by (auto simp: dl_stop_def)
    have rd: "header_read 16 DownlinkSPHeader_deserialize (int (length a)) (env_buf e) = Some (dsp_trunc h)"
      unfolding e(2) h(1) append_assoc by (rule dsp.read_at_enc) simp
    have "dsp_applicationId (dsp_trunc h) = 0x7ff" using h(2) by (simp add: dsp_trunc_def)
    then show ?thesis using e(1,4) False unfolding dl_checkoutNextSP_def next_index_def [symmetric] e(5)
      by (simp add: Let_def rd)
  qed
qed

interpretation dlr: packet_reader dl_checkoutNextSP dl_get dl_ahead "\<lambda>q. dsp.enc (fst q) @ snd q" "\<lambda>q. (dsp_trunc (fst q), snd q)"
  dl_readable dl_stop
  using dl_next_packet dl_next_stop by unfold_locales auto

lemma dl_checkoutTF_frame:
  assumes "dl_frame th body b" "length (env_buf r) = 1034"
  shows "length b = 1000" "\<exists>e fin. dl_checkoutTF (r\<lparr>env_buf := b @ drop (length b) (env_buf r)\<rparr>) = Some (True, e) \<and>
    d_tfHeader e = dtf_trunc th \<and> dl_ahead e (body @ fin) \<and> dl_stop fin"
proof -
  obtain fin tt where f: "length body + length fin = 988" "dl_stop fin" "b = dtf.enc th @ body @ fin @ dtt.enc tt"
    "dtt_crc tt = computeCRC lookUpTable (take 998 b) CRC_SEED"
    using assms(1) unfolding dl_frame_def by blast
  show b: "length b = 1000" using f(1,3) by simp
  let ?r = "drop 1000 (env_buf r)"
  have h: "header_read 6 DownlinkTFHeader_deserialize 0 (b @ ?r) = Some (dtf_trunc th)"
    using dtf.read_at_enc [of 0 "[]" th] by (simp add: f(3))
  have t: "header_read 6 DownlinkTFTrailer_deserialize 994 (b @ ?r) = Some (dtt_trunc tt)"
    using dtt.read_at_enc [of 994 "dtf.enc th @ body @ fin" tt ?r] f(1) by (simp add: f(3))
  have c: "frame_crc (b @ ?r) 1000 = Some (dtt_crc (dtt_trunc tt))" using b f(4) by (simp add: frame_crc_eq dtt_trunc_def)
  define e where "e = r\<lparr>env_buf := b @ ?r, indexOfCurrentSP := 0, d_tfHeader := dtf_trunc th, lenOfCurrentTF := 1000,
      d_tfTrailer := dtt_trunc tt\<rparr>"
  have "dl_checkoutTF (r\<lparr>env_buf := b @ ?r\<rparr>) = Some (True, e)"
    by (simp add: dl_checkoutTF_def h t c DOWNLINK_TF_LEN_def e_def)
  moreover have "dl_ahead e (body @ fin)"
    unfolding dl_ahead_def using f(1) assms(2)
    by (intro conjI exI [of _ "dtf.enc th"] exI [of _ "dtt.enc tt @ ?r"]) (simp_all add: e_def f(3) next_index_def)
  ultimately show "\<exists>e fin. dl_checkoutTF (r\<lparr>env_buf := b @ drop (length b) (env_buf r)\<rparr>) = Some (True, e) \<and>
      d_tfHeader e = dtf_trunc th \<and> dl_ahead e (body @ fin) \<and> dl_stop fin"
    using f(2) b by (intro exI [of _ e] exI [of _ fin]) (simp add: e_def)
qed

text \<open>The packets with the headers they are sent with.\<close>

primrec dl_stamped :: "(rat \<Rightarrow> rat) \<Rightarrow> dl_packet list \<Rightarrow> ccsds_counters \<Rightarrow> (DownlinkSPHeader \<times> u8 list) list" where
  "dl_stamped rnd [] g = []"
| "dl_stamped rnd (p # ps) g = (dl_stamp rnd p g, fst (snd p)) # dl_stamped rnd ps (dl_count p g)"

lemma dl_images_stamped:
  "packet_images (dl_img rnd) dl_count ps g = concat (map (\<lambda>q. dsp.enc (fst q) @ snd q) (dl_stamped rnd ps g))"
  by (induction ps arbitrary: g) (simp_all add: dl_img_def)

lemma dl_stamped_readable:
  "\<forall>(h, d, t) \<in> set ps. even (dsp_typeId h) \<and> take_bit 11 (dsp_applicationId h) \<noteq> 0x7ff \<Longrightarrow>
   \<forall>q \<in> set (dl_stamped rnd ps g). dl_readable q"
  by (induction ps arbitrary: g) (auto simp: dl_readable_def dl_stamp_def)

section \<open>Uplink: writing\<close>

type_synonym ul_packet = "UplinkSPHeader \<times> u8 list"

definition ul_stamp :: "ul_packet \<Rightarrow> UplinkSPHeader" where
  "ul_stamp p = (fst p)\<lparr>usp_length := of_nat (length (snd p) + 3)\<rparr>"

definition ul_img :: "ul_packet \<Rightarrow> unit \<Rightarrow> u8 list" where
  "ul_img p c = usp.enc (ul_stamp p) @ snd p"

definition ul_holds :: "UplinkEnvelop \<Rightarrow> unit \<Rightarrow> u8 list \<Rightarrow> bool" where
  "ul_holds e c body \<longleftrightarrow> length body \<le> 1016 \<and> lenOfCurrentTF e = 8 + length body \<and> indexOfCurrentSP e = 6 + length body \<and>
     (\<exists>q r. length q = 6 \<and> env_buf e = q @ body @ r \<and> length body + length r = 1028)"

lemma ul_holdsI:
  "length body \<le> 1016 \<Longrightarrow> lenOfCurrentTF e = 8 + length body \<Longrightarrow> indexOfCurrentSP e = 6 + length body \<Longrightarrow> length q = 6 \<Longrightarrow>
   env_buf e = q @ body @ r \<Longrightarrow> length body + length r = 1028 \<Longrightarrow> ul_holds e c body"
  unfolding ul_holds_def by auto

lemma ul_begin_eq:
  assumes "ul_holds e c body"
  shows "ul_beginNewSP e = (1016 - (length body + 10), e\<lparr>indexOfCurrentUserData := length body + 16,
     userDataBuf := length body + 16, lenOfCurrentSP := 0, lenOfCurrentUserData := 0\<rparr>)"
proof -
  have "indexOfCurrentSP e = 6 + length body" "length body \<le> 1016" using assms by (simp_all add: ul_holds_def)
  then show ?thesis
    by (cases "length body + 10 \<le> 1016")
      (simp_all add: ul_beginNewSP_def TF_MAX_LEN_def Let_def nat_diff_distrib nat_add_distrib)
qed

lemma ul_commitSP_ok:
  assumes "d \<noteq> []" "length a + 10 + length d \<le> 2000" "env_buf e = a @ w @ d @ r" "length w = 10"
    "indexOfCurrentSP e = length a" "lenOfCurrentUserData e = length d" "lenOfCurrentTF e \<le> 2000" "u_spHeader e = h"
  shows "\<exists>e'. ul_commitSP e = Some e' \<and> env_buf e' = a @ ul_img (h, d) () @ r \<and>
    indexOfCurrentSP e' = length a + 10 + length d \<and> lenOfCurrentTF e' = lenOfCurrentTF e + 10 + length d"
proof -
  let ?h = "ul_stamp (h, d)"
  have len: "to_uint16 (10 + int (length d)) = 10 + length d"
    "to_uint16 (int (length a) + int (10 + length d)) = length a + 10 + length d"
    "to_uint16 (int (lenOfCurrentTF e) + int (10 + length d)) = lenOfCurrentTF e + 10 + length d"
    using assms(2,7) by (simp_all add: nat_add_distrib)
  have h: "h\<lparr>usp_length := word_of_nat (length d) + 3\<rparr> = ?h" by (simp add: ul_stamp_def)
  have w: "header_write 10 UplinkSPHeader_serialize ?h (int (length a)) (a @ w @ d @ r) = Some (a @ usp.enc ?h @ d @ r)"
    using usp.write_at_enc [of "w @ d @ r" "int (length a)" a ?h] assms(4) by simp
  have l: "word_of_int (3 + int (length d)) = (word_of_nat (length d) + 3 :: u16)" by simp
  show ?thesis
    using assms(1,3,5,6,8) by (simp add: ul_commitSP_def Let_def len l h w ul_img_def del: of_nat_add of_int_diff of_int_add of_nat_numeral)
qed

lemma ul_put_fits:
  assumes "ul_holds e c body" "d \<noteq> []" "ul_beginNewSP e = (m, e1)" "length d \<le> m"
  shows "\<exists>e2. ul_put (h, d) e1 = Some e2 \<and> ul_holds e2 c (body @ ul_img (h, d) ())"
proof -
  from assms(1) obtain q r where hd: "lenOfCurrentTF e = 8 + length body" "indexOfCurrentSP e = 6 + length body"
    and q: "length q = 6" "env_buf e = q @ body @ r" "length body + length r = 1028"
    by (auto simp: ul_holds_def)
  have e1: "m = 1016 - (length body + 10)" "e1 = e\<lparr>indexOfCurrentUserData := length body + 16,
     userDataBuf := length body + 16, lenOfCurrentSP := 0, lenOfCurrentUserData := 0\<rparr>"
    using assms(3) ul_begin_eq [OF assms(1)] by auto
  have "0 < length d" using assms(2) by simp
  then have n: "length body + 10 + length d \<le> 1016" using assms(4) unfolding e1(1) by linarith
  let ?r = "drop (10 + length d) r"
  define e2 where "e2 = e1\<lparr>u_spHeader := h, env_buf := (q @ body) @ take 10 r @ d @ ?r, lenOfCurrentUserData := length d\<rparr>"
  have "write_user_data d (e1\<lparr>u_spHeader := h\<rparr>) = Some e2"
    using q n by (simp add: write_user_data_def e1(2) e2_def)
  moreover obtain e3 where e3: "ul_commitSP e2 = Some e3" "env_buf e3 = (q @ body) @ ul_img (h, d) () @ ?r"
    "indexOfCurrentSP e3 = length (q @ body) + 10 + length d" "lenOfCurrentTF e3 = lenOfCurrentTF e2 + 10 + length d"
    using ul_commitSP_ok [of d "q @ body" e2 "take 10 r" ?r h] assms(2) n hd q
    by (auto simp: e1(2) e2_def)
  moreover have "ul_holds e3 c (body @ ul_img (h, d) ())"
    using e3 hd q n by (intro ul_holdsI [where q = q and r = ?r]) (auto simp: ul_img_def e2_def e1(2))
  ultimately show ?thesis by (auto simp: ul_put_def)
qed

interpretation ulw: packet_writer ul_beginNewSP ul_put "\<lambda>(h, d). length d" ul_holds ul_img "\<lambda>p c. c" "\<lambda>p. snd p \<noteq> []" 1016
proof
  fix e c body m e1 and p :: ul_packet
  assume h: "ul_holds e c body" "ul_beginNewSP e = (m, e1)"
  {
    assume "snd p \<noteq> []" "(case p of (h, d) \<Rightarrow> length d) \<le> m"
    then show "\<exists>e2. ul_put p e1 = Some e2 \<and> ul_holds e2 c (body @ ul_img p c)"
      using ul_put_fits [OF h(1) _ h(2), of "snd p" "fst p"] by (simp add: case_prod_beta)
  next
    assume "m < (case p of (h, d) \<Rightarrow> length d)"
    then show "ul_holds e1 c body \<and> 1016 < length body + length (ul_img p c)"
      using h by (auto simp: ul_begin_eq [OF h(1)] ul_img_def case_prod_beta) (auto simp: ul_holds_def)
  }
qed

lemma ul_beginNewTF_holds: "length (env_buf e) = 1034 \<Longrightarrow> ul_holds (ul_beginNewTF e) () []"
  by (rule ul_holdsI [where q = "replicate 6 0xff" and r = "replicate 1018 0xff @ drop 1024 (env_buf e)"])
    (simp_all add: ul_beginNewTF_def TF_MAX_LEN_def replicate_add [symmetric] del: replicate.simps append_assoc flip: append_assoc)

text \<open>A closed frame.\<close>

definition ul_frame_header :: "u8 list \<Rightarrow> UplinkTFHeader \<Rightarrow> UplinkTFHeader" where
  "ul_frame_header body th = th\<lparr>utf_frameLength := of_nat (length body + 7)\<rparr>"

definition ul_frame :: "UplinkTFHeader \<Rightarrow> u8 list \<Rightarrow> u8 list \<Rightarrow> bool" where
  "ul_frame th body b \<longleftrightarrow> length body \<le> 1016 \<and> (\<exists>tt. b = utf.enc (ul_frame_header body th) @ body @ utt.enc tt \<and>
     utt_crc tt = computeCRC lookUpTable (take (length body + 6) b) CRC_SEED)"

lemma frame_crc_len: "2 \<le> n \<Longrightarrow> n - 2 \<le> length b \<Longrightarrow> frame_crc b n = Some (computeCRC lookUpTable (take (n - 2) b) CRC_SEED)"
  by (simp add: frame_crc_def and_ffff)

lemma ul_commitTF_ok:
  assumes "ul_holds e c body"
  shows "\<exists>e'. ul_commitTF e = Some e' \<and> ul_frame (u_tfHeader e) body (take (lenOfCurrentTF e') (env_buf e'))"
proof -
  from assms obtain q r where hd: "length body \<le> 1016" "lenOfCurrentTF e = 8 + length body"
    and q: "length q = 6" "env_buf e = q @ body @ r" "length body + length r = 1028"
    by (auto simp: ul_holds_def)
  let ?n = "8 + length body" and ?h = "ul_frame_header body (u_tfHeader e)" and ?r = "drop 2 r"
  have h: "(u_tfHeader e)\<lparr>utf_frameLength := word_of_int (int ?n - 1)\<rparr> = ?h" by (simp add: ul_frame_header_def)
  have w1: "header_write 6 UplinkTFHeader_serialize ?h 0 (env_buf e) = Some (utf.enc ?h @ body @ r)"
    using utf.write_at_enc [of "env_buf e" 0 "[]" ?h] q(1) by (simp add: q(2))
  let ?b1 = "(utf.enc ?h @ body) @ utt.enc (u_tfTrailer e) @ ?r"
  have w2: "header_write 2 UplinkTFTrailer_serialize (u_tfTrailer e) (int ?n - 2) (utf.enc ?h @ body @ r) = Some ?b1"
    using utt.write_at_enc [of r "int ?n - 2" "utf.enc ?h @ body"] q(3) hd(1) by simp
  define crc where "crc = computeCRC lookUpTable (take (length body + 6) ?b1) CRC_SEED"
  let ?tt = "(u_tfTrailer e)\<lparr>utt_crc := crc\<rparr>"
  let ?b2 = "(utf.enc ?h @ body) @ utt.enc ?tt @ ?r"
  have c: "frame_crc ?b1 ?n = Some crc" by (simp add: frame_crc_len crc_def add.commute)
  have w3: "header_write 2 UplinkTFTrailer_serialize ?tt (int ?n - 2) ?b1 = Some ?b2"
    using utt.write_at_enc [of "utt.enc (u_tfTrailer e) @ ?r" "int ?n - 2" "utf.enc ?h @ body" ?tt] by simp
  define e' where "e' = e\<lparr>u_tfHeader := ?h, u_tfTrailer := ?tt, env_buf := ?b2\<rparr>"
  have "ul_commitTF e = Some e'"
    unfolding ul_commitTF_def hd(2) h Let_def w1 option.simps(5) bind.simps w2 c w3 e'_def by simp
  moreover have "take (lenOfCurrentTF e') (env_buf e') = utf.enc ?h @ body @ utt.enc ?tt" by (simp add: e'_def hd(2))
  moreover have "crc = computeCRC lookUpTable (take (length body + 6) (utf.enc ?h @ body @ utt.enc ?tt)) CRC_SEED" by (simp add: crc_def)
  ultimately show ?thesis using hd(1) unfolding ul_frame_def
    by (intro exI [of _ e'] conjI exI [of _ ?tt]) (simp_all del: append_assoc)
qed

section \<open>Uplink: reading\<close>

definition ul_ahead :: "UplinkEnvelop \<Rightarrow> u8 list \<Rightarrow> bool" where
  "ul_ahead e bs \<longleftrightarrow>
     (\<exists>a r. env_buf e = a @ bs @ r \<and> lenOfCurrentTF e = length a + length bs + 2 \<and> lenOfCurrentTF e \<le> 1024 \<and> 6 \<le> length a \<and>
        next_index e = length a)"

definition ul_readable :: "ul_packet \<Rightarrow> bool" where
  "ul_readable q \<longleftrightarrow> usp_length (fst q) = of_nat (length (snd q) + 3) \<and> take_bit 11 (usp_applicationId (fst q)) \<noteq> 0x7ff \<and> snd q \<noteq> []"

lemma ul_next_packet:
  assumes "ul_ahead e ((usp.enc h @ d) @ bs)" "ul_readable (h, d)"
  shows "\<exists>e'. ul_checkoutNextSP e = Some (True, e') \<and> ul_get e' = Some (usp_trunc h, d) \<and> ul_ahead e' bs"
proof -
  from assms(1) obtain a r where e: "env_buf e = a @ usp.enc h @ d @ bs @ r"
    "lenOfCurrentTF e = length a + 10 + length d + length bs + 2" "lenOfCurrentTF e \<le> 1024" "6 \<le> length a" "next_index e = length a"
    by (auto simp: ul_ahead_def)
  have rd: "header_read 10 UplinkSPHeader_deserialize (int (length a)) (env_buf e) = Some (usp_trunc h)"
    unfolding e(1) by (rule usp.read_at_enc) simp
  have len: "uint (usp_length (usp_trunc h)) = int (length d) + 3"
    using assms(2) e(2,3) by (simp add: ul_readable_def usp_trunc_def unsigned_of_nat take_bit_eq_mod del: of_nat_add)
  have sp: "to_uint16 (int (length d) + 3 + 1 - (10 - 6)) = length d" "to_uint16 (int (length d) + 10) = length d + 10"
    "to_uint16 (int (length a) + 10) = length a + 10"
    using e(2,3) by (simp_all add: nat_add_distrib)
  have ok: "usp_applicationId (usp_trunc h) \<noteq> 0x7ff" using assms(2) by (simp add: ul_readable_def usp_trunc_def)
  define e' where "e' = e\<lparr>indexOfCurrentSP := length a, u_spHeader := usp_trunc h, lenOfCurrentUserData := length d,
      lenOfCurrentSP := length d + 10, indexOfCurrentUserData := length a + 10, userDataBuf := length a + 10\<rparr>"
  have "ul_checkoutNextSP e = Some (True, e')"
    using e(2) ok unfolding ul_checkoutNextSP_def next_index_def [symmetric] e(5)
    by (simp add: rd len sp [simplified] e'_def Let_def)
  moreover have "ul_get e' = Some (usp_trunc h, d)" by (simp add: ul_get_def read_user_data_def e'_def e(1))
  moreover have "next_index e' = length (a @ usp.enc h @ d)"
    using e(2-4) by (auto simp: next_index_def e'_def nat_add_distrib)
  then have "ul_ahead e' bs"
    unfolding ul_ahead_def using e by (intro exI [of _ "a @ usp.enc h @ d"] exI [of _ r]) (simp add: e'_def)
  ultimately show ?thesis by blast
qed

lemma ul_next_stop: "ul_ahead e bs \<Longrightarrow> bs = [] \<Longrightarrow> \<exists>e'. ul_checkoutNextSP e = Some (False, e')"
  by (auto simp: ul_ahead_def ul_checkoutNextSP_def next_index_def [symmetric] Let_def)

interpretation ulr: packet_reader ul_checkoutNextSP ul_get ul_ahead "\<lambda>q. usp.enc (fst q) @ snd q" "\<lambda>q. (usp_trunc (fst q), snd q)"
  ul_readable "\<lambda>bs. bs = []"
  using ul_next_packet ul_next_stop by unfold_locales auto

lemma ul_checkoutTF_frame:
  assumes "ul_frame th body b" "length (env_buf r) = 1034"
  shows "\<exists>e. ul_checkoutTF (r\<lparr>env_buf := b @ drop (length b) (env_buf r)\<rparr>) = Some (True, e) \<and>
    u_tfHeader e = utf_trunc (ul_frame_header body th) \<and> ul_ahead e body"
proof -
  let ?h = "ul_frame_header body th" and ?n = "length body + 8"
  obtain tt where f: "length body \<le> 1016" "b = utf.enc ?h @ body @ utt.enc tt"
    "utt_crc tt = computeCRC lookUpTable (take (length body + 6) b) CRC_SEED"
    using assms(1) unfolding ul_frame_def by blast
  have b: "length b = ?n" by (simp add: f(2))
  let ?r = "drop (length b) (env_buf r)"
  have h: "header_read 6 UplinkTFHeader_deserialize 0 (b @ ?r) = Some (utf_trunc ?h)"
    using utf.read_at_enc [of 0 "[]" ?h] by (simp add: f(2))
  have "uint (take_bit 10 (word_of_nat (length body + 7) :: u16)) = int (length body + 7)"
    using f(1) by (simp only: unsigned_take_bit_eq unsigned_of_nat) (simp add: take_bit_eq_mod)
  then have len: "to_uint16 (uint (utf_frameLength (utf_trunc ?h)) + 1) = ?n"
    using f(1) by (simp add: utf_trunc_def ul_frame_header_def nat_add_distrib del: of_nat_add)
  have t: "header_read 2 UplinkTFTrailer_deserialize (int ?n - 2) (b @ ?r) = Some (utt_trunc tt)"
    using utt.read_at_enc [of "int ?n - 2" "utf.enc ?h @ body" tt ?r] by (simp add: f(2))
  have c: "frame_crc (b @ ?r) ?n = Some (utt_crc (utt_trunc tt))"
    using b f(3) by (simp add: frame_crc_len utt_trunc_def add.commute)
  define e where "e = r\<lparr>env_buf := b @ ?r, indexOfCurrentSP := 0, u_tfHeader := utf_trunc ?h, lenOfCurrentTF := ?n,
      u_tfTrailer := utt_trunc tt\<rparr>"
  have "ul_checkoutTF (r\<lparr>env_buf := b @ ?r\<rparr>) = Some (True, e)"
    using f(1) t c by (simp add: ul_checkoutTF_def h len TF_MAX_LEN_def e_def)
  moreover have "ul_ahead e body"
    unfolding ul_ahead_def using f(1)
    by (intro exI [of _ "utf.enc ?h"] exI [of _ "utt.enc tt @ ?r"]) (simp add: e_def f(2) next_index_def)
  ultimately show ?thesis by (auto simp: e_def)
qed

lemma ul_images: "packet_images ul_img (\<lambda>p c. c) ps () = concat (map (\<lambda>q. usp.enc (fst q) @ snd q) (map (\<lambda>p. (ul_stamp p, snd p)) ps))"
  by (induction ps) (simp_all add: ul_img_def)

section \<open>Properties\<close>

text \<open>
  C33. Telemetry arrives: for any packets with user data, whose headers do not claim to be idle packets or telecommands, and any frame
  header and trailer, the spacecraft builds a frame of exactly 1000 bytes; the packets it could not put into it are a rest of the list that really does not fit. The
  ground, with whatever was in its envelope before, accepts the frame and reads exactly the packets that were sent, in their order, with their data and with
  their headers as far as the fields can hold them, including the sequence numbers and time stamps, and then stops: the idle packet or the padding is not mistaken for a
  packet.
\<close>

theorem downlink_delivers:
  assumes "rounds rnd" "0 \<le> t" "counters_ok g" "length (env_buf e) = 1034" "length (env_buf r) = 1034"
    "\<forall>(h, d, t) \<in> set ps. d \<noteq> [] \<and> 0 \<le> t \<and> even (dsp_typeId h) \<and> take_bit 11 (dsp_applicationId h) \<noteq> 0x7ff"
  shows "\<exists>sent rest g' frame. ps = sent @ rest \<and> dl_send rnd th tt t ps (g, e) = Some (rest, g', frame) \<and> length frame = 1000 \<and>
    (rest = [] \<or> 988 < (\<Sum>(h, d, t) \<leftarrow> sent @ [hd rest]. 16 + length d)) \<and>
    dl_receive frame r = Some (Some (dtf_trunc (dl_frame_header (fold dl_count sent g) th),
      map (\<lambda>(h, d). (dsp_trunc h, d)) (dl_stamped rnd sent g)))"
proof -
  have "\<forall>p \<in> set ps. dl_valid rnd p" using assms(1,6) by (fastforce simp: dl_valid_def)
  from dlw.fill [OF dl_beginNewTF_holds [OF assms(3,4)] this] obtain sent rest s where s: "ps = sent @ rest"
    "fill_packets dl_begin (dl_put rnd) (\<lambda>(h, d, t). length d) ps (g, dl_beginNewTF e) = Some (rest, s)"
    "dl_holds s (fold dl_count sent g) (packet_images (dl_img rnd) dl_count sent g)"
    "rest = [] \<or> 988 < length (packet_images (dl_img rnd) dl_count (sent @ [hd rest]) g)"
    by auto
  define g1 e1 body where "g1 = fold dl_count sent g" and "e1 = (snd s)\<lparr>d_tfHeader := th, d_tfTrailer := tt\<rparr>"
    and "body = packet_images (dl_img rnd) dl_count sent g"
  have se: "s = (g1, snd s)" "dl_holds (g1, e1) g1 body" using s(3) by (auto simp: dl_holds_def g1_def e1_def body_def prod_eq_iff)
  obtain g2 e2 where e2: "dl_commitTF rnd t (g1, e1) = Some (g2, e2)" "lenOfCurrentTF e2 = 1000"
    "dl_frame (dl_frame_header g1 th) body (take 1000 (env_buf e2))"
    using dl_commitTF_ok [OF assms(1,2) se(2)] by (auto simp: e1_def)
  have send: "dl_send rnd th tt t ps (g, e) = Some (rest, g2, take 1000 (env_buf e2))"
    using s(2) e2(1,2) se(1) by (cases s) (simp add: dl_send_def e1_def)
  obtain e3 fin where e3: "length (take 1000 (env_buf e2)) = 1000"
    "dl_checkoutTF (r\<lparr>env_buf := take 1000 (env_buf e2) @ drop (length (take 1000 (env_buf e2))) (env_buf r)\<rparr>) = Some (True, e3)"
    "d_tfHeader e3 = dtf_trunc (dl_frame_header g1 th)" "dl_ahead e3 (body @ fin)" "dl_stop fin"
    using dl_checkoutTF_frame [OF e2(3) assms(5)] by blast
  have "\<forall>q \<in> set (dl_stamped rnd sent g). dl_readable q" using assms(6) by (intro dl_stamped_readable) (auto simp: s(1))
  then have "read_packets dl_checkoutNextSP dl_get e3 = Some (map (\<lambda>q. (dsp_trunc (fst q), snd q)) (dl_stamped rnd sent g))"
    using dlr.read_all e3(4,5) by (simp add: body_def dl_images_stamped)
  then have "dl_receive (take 1000 (env_buf e2)) r = Some (Some (dtf_trunc (dl_frame_header g1 th),
      map (\<lambda>(h, d). (dsp_trunc h, d)) (dl_stamped rnd sent g)))"
    unfolding dl_receive_def e3(2) by (simp add: e3(3) case_prod_beta)
  moreover have "length (packet_images (dl_img rnd) dl_count qs c) = (\<Sum>(h, d, t) \<leftarrow> qs. 16 + length d)" for qs c
    by (induction qs arbitrary: c) (auto simp: length_dl_img)
  ultimately show ?thesis using s(1,4) send e3(1) unfolding g1_def by metis
qed

theorem downlink_delivers_witness:
  "\<exists>sent rest g' frame. [(DownlinkSPHeader_zero, [1, 2, 3], 0)] = sent @ rest \<and>
    dl_send (\<lambda>x. x) DownlinkTFHeader_zero DownlinkTFTrailer_zero 0 [(DownlinkSPHeader_zero, [1, 2, 3], 0)]
      (counters_init, dl_envelop_zero) = Some (rest, g', frame) \<and>
    (\<exists>h qs. dl_receive frame dl_envelop_zero = Some (Some (h, qs)))"
  using downlink_delivers [of "\<lambda>x. x" 0 counters_init dl_envelop_zero dl_envelop_zero
      "[(DownlinkSPHeader_zero, [1, 2, 3], 0)]" DownlinkTFHeader_zero DownlinkTFTrailer_zero]
  by (auto simp: rounds_to_def counters_ok_def counters_init_def DownlinkSPHeader_zero_def dl_envelop_zero_def TF_MAX_LEN_def)

text \<open>
  C34. Telecommands arrive: the ground puts packets with user data into an uplink frame as long as they fit into 1024 bytes; the
  spacecraft accepts the frame, whose length is in its header, reads exactly the packets that were sent with their data and their headers, and then stops.
\<close>

theorem uplink_delivers:
  assumes "length (env_buf e) = 1034" "length (env_buf r) = 1034"
    "\<forall>(h, d) \<in> set ps. d \<noteq> [] \<and> take_bit 11 (usp_applicationId h) \<noteq> 0x7ff"
  shows "\<exists>sent rest frame body. ps = sent @ rest \<and> ul_send th ps e = Some (rest, frame) \<and>
    length frame = 8 + length body \<and> length body = (\<Sum>(h, d) \<leftarrow> sent. 10 + length d) \<and>
    (rest = [] \<or> 1016 < (\<Sum>(h, d) \<leftarrow> sent @ [hd rest]. 10 + length d)) \<and>
    ul_receive frame r = Some (Some (utf_trunc (ul_frame_header body th), map (\<lambda>(h, d). (usp_trunc (ul_stamp (h, d)), d)) sent))"
proof -
  have "\<forall>p \<in> set ps. snd p \<noteq> []" using assms(3) by fastforce
  from ulw.fill [OF ul_beginNewTF_holds [OF assms(1)] this] obtain sent rest s where s: "ps = sent @ rest"
    "fill_packets ul_beginNewSP ul_put (\<lambda>(h, d). length d) ps (ul_beginNewTF e) = Some (rest, s)"
    "ul_holds s () (packet_images ul_img (\<lambda>p c. c) sent ())"
    "rest = [] \<or> 1016 < length (packet_images ul_img (\<lambda>p c. c) (sent @ [hd rest]) ())"
    by auto
  define body where "body = packet_images ul_img (\<lambda>p c. c) sent ()"
  have "ul_holds (s\<lparr>u_tfHeader := th\<rparr>) () body" using s(3) by (simp add: ul_holds_def body_def)
  then obtain e2 where e2: "ul_commitTF (s\<lparr>u_tfHeader := th\<rparr>) = Some e2"
    "ul_frame th body (take (lenOfCurrentTF e2) (env_buf e2))"
    using ul_commitTF_ok by fastforce
  define frame where "frame = take (lenOfCurrentTF e2) (env_buf e2)"
  have send: "ul_send th ps e = Some (rest, frame)" using s(2) e2(1) by (simp add: ul_send_def frame_def)
  have len: "length (packet_images ul_img (\<lambda>p c. c) qs ()) = (\<Sum>(h, d) \<leftarrow> qs. 10 + length d)" for qs
    by (induction qs) (auto simp: ul_img_def)
  have fl: "length frame = 8 + length body" using e2(2) unfolding frame_def [symmetric] by (auto simp: ul_frame_def)
  obtain e3 where e3: "ul_checkoutTF (r\<lparr>env_buf := frame @ drop (length frame) (env_buf r)\<rparr>) = Some (True, e3)"
    "u_tfHeader e3 = utf_trunc (ul_frame_header body th)" "ul_ahead e3 body"
    using ul_checkoutTF_frame [OF e2(2) assms(2)] unfolding frame_def by blast
  have "\<forall>q \<in> set (map (\<lambda>p. (ul_stamp p, snd p)) sent). ul_readable q"
    using assms(3) by (auto simp: s(1) ul_readable_def ul_stamp_def)
  then have "read_packets ul_checkoutNextSP ul_get e3 =
      Some (map (\<lambda>q. (usp_trunc (fst q), snd q)) (map (\<lambda>p. (ul_stamp p, snd p)) sent))"
    using e3(3) unfolding body_def ul_images by (intro ulr.read_all [where fin = "[]"]) simp_all
  then have "ul_receive frame r = Some (Some (utf_trunc (ul_frame_header body th), map (\<lambda>(h, d). (usp_trunc (ul_stamp (h, d)), d)) sent))"
    by (simp add: ul_receive_def e3(1,2) case_prod_beta comp_def)
  then show ?thesis using s(1,4) send fl len [of sent] len [of "sent @ [hd rest]"]
    by (intro exI [of _ sent] exI [of _ rest] exI [of _ frame] exI [of _ body]) (simp add: body_def)
qed

theorem uplink_delivers_witness:
  "\<exists>sent rest frame. [(UplinkSPHeader_zero, [7, 8])] = sent @ rest \<and>
    ul_send UplinkTFHeader_zero [(UplinkSPHeader_zero, [7, 8])]
      ul_envelop_zero = Some (rest, frame) \<and> (\<exists>h qs. ul_receive frame ul_envelop_zero = Some (Some (h, qs)))"
  using uplink_delivers [of ul_envelop_zero ul_envelop_zero
      "[(UplinkSPHeader_zero, [7, 8])]" UplinkTFHeader_zero]
  by (auto simp: UplinkSPHeader_zero_def ul_envelop_zero_def TF_MAX_LEN_def)

text \<open>The result of checking a frame depends on its first 1000 bytes.\<close>

lemma get16_bytes: "k + 2 \<le> length b \<Longrightarrow> get16 k b = push_bit 8 (ucast (b ! k)) OR ucast (b ! (k + 1))"
  by (simp add: get16_def bigEndianToUint16_t_def)

lemma dl_checkoutTF_eq:
  assumes "length (env_buf e) = 1034"
  shows "\<exists>e'. dl_checkoutTF e = Some (computeCRC lookUpTable (take 998 (env_buf e)) CRC_SEED = get16 998 (env_buf e), e')"
proof -
  have "get16 4 (drop 994 (env_buf e)) = get16 998 (env_buf e)" by (simp add: get16_def)
  then show ?thesis using assms
    by (simp add: dl_checkoutTF_def header_read_def DownlinkTFTrailer_deserialize_def DOWNLINK_TF_LEN_def frame_crc_eq)
qed

lemma frame_length_field:
  fixes b :: "u8 list"
  defines "w \<equiv> getBitField b 22 10"
  shows "unat w \<le> 1023" "to_uint16 (uint (ucast w :: u16) + 1) = unat w + 1"
proof -
  have "w = take_bit 10 w" unfolding w_def by (rule bit_word_eqI) (auto simp: bit_take_bit_iff getBitField_bits)
  then have "uint w = take_bit 10 (uint w)" by (metis unsigned_take_bit_eq)
  then have w: "0 \<le> uint w" "uint w < 1024" using take_bit_int_less_exp [of 10 "uint w"] by simp_all
  then have "nat (uint w) \<le> 1023" by linarith
  then show "unat w \<le> 1023" by simp
  have "uint (ucast w :: u16) = uint w" using w by (simp add: unsigned_ucast_eq take_bit_int_eq_self)
  then show "to_uint16 (uint (ucast w :: u16) + 1) = unat w + 1" using w by (simp add: nat_add_distrib)
qed

lemma ul_checkoutTF_eq:
  assumes "length (env_buf e) = 1034" "n = unat (getBitField (env_buf e) 22 10) + 1" "6 \<le> n"
  shows "\<exists>e'. ul_checkoutTF e =
      Some (computeCRC lookUpTable (take (n - 2) (env_buf e)) CRC_SEED = get16 (n - 2) (env_buf e), e') \<and> lenOfCurrentTF e' = n"
proof -
  have n: "n \<le> 1024" using frame_length_field(1) [of "env_buf e"] assms(2) by simp
  have "get16 0 (drop (n - 2) (env_buf e)) = get16 (n - 2) (env_buf e)" by (simp add: get16_def)
  moreover have "nat (int n - 2) = n - 2" by simp
  ultimately show ?thesis using assms(1,3) n frame_length_field(2) [of "env_buf e", folded assms(2)]
    by (simp add: ul_checkoutTF_def header_read_def UplinkTFHeader_deserialize_def UplinkTFTrailer_deserialize_def TF_MAX_LEN_def
        frame_crc_len Let_def)
qed

lemma ul_checkout_length:
  assumes "length (env_buf e) = 1034" "ul_checkoutTF e = Some (True, e')"
  shows "5 \<le> unat (getBitField (env_buf e) 22 10)"
  using assms frame_length_field(2) [of "env_buf e"]
  by (auto simp: ul_checkoutTF_def UplinkTFHeader_deserialize_def header_read_def Let_def split: if_splits bind_splits)

lemma crc_byte_changed:
  assumes "i < m" "m \<le> length b" "x \<noteq> b ! i"
  shows "computeCRC lookUpTable (take m (b[i := x])) v \<noteq> computeCRC lookUpTable (take m b) v"
proof -
  have "take m b = take i b @ b ! i # drop (Suc i) (take m b)" using assms(1,2) id_take_nth_drop [of i "take m b"] by (simp add: min_def)
  moreover have "take m (b[i := x]) = take i b @ x # drop (Suc i) (take m b)"
    using assms(1,2) upd_conv_take_nth_drop [of i "take m b" x] by (simp add: min_def take_update_swap)
  ultimately show ?thesis using crc.detects [OF assms(3), of "take i b" "drop (Suc i) (take m b)" v]
    unfolding table_is_bitwise computeCrc_def by metis
qed

lemma crc_field_changed:
  assumes "i = m \<or> i = m + 1" "m + 2 \<le> length b" "x \<noteq> b ! i"
  shows "get16 m (b[i := x]) \<noteq> get16 m b"
proof
  assume "get16 m (b[i := x]) = get16 m b"
  then have eq: "push_bit 8 (ucast (b[i := x] ! m)) OR ucast (b[i := x] ! (m + 1)) = (push_bit 8 (ucast (b ! m)) OR ucast (b ! (m + 1)) :: u16)"
    using assms(2) by (simp add: get16_bytes)
  have "(ucast (b[i := x] ! m) :: u16) = ucast (b ! m)" using arg_cong [OF eq, of "drop_bit 8"] by (simp only: pack_high)
  moreover have "(ucast (b[i := x] ! (m + 1)) :: u16) = ucast (b ! (m + 1))" using arg_cong [OF eq, of "\<lambda>w. w AND 0xff"] by (simp only: pack_low)
  ultimately show False using assms by (auto dest!: ucast_u8_inj)
qed

lemma frame_byte_changed:
  assumes "i < m + 2" "m + 2 \<le> length b" "x \<noteq> b ! i" "computeCRC lookUpTable (take m b) v = get16 m b"
  shows "computeCRC lookUpTable (take m (b[i := x])) v \<noteq> get16 m (b[i := x])"
proof (cases "i < m")
  case True
  then have "get16 m (b[i := x]) = get16 m b" by (simp add: get16_def)
  then show ?thesis using crc_byte_changed [of i m b x v] True assms by simp
next
  case False
  then have "take m (b[i := x]) = take m b" by simp
  moreover have "i = m \<or> i = m + 1" using False assms(1) by linarith
  ultimately show ?thesis using crc_field_changed [of i m b x] assms by auto
qed

lemma length_ul_frame: "ul_frame th body b \<Longrightarrow> length b = 8 + length body"
  by (auto simp: ul_frame_def)

lemma accepted_downlink: "\<exists>d d'. length (env_buf d) = 1034 \<and> dl_checkoutTF d = Some (True, d')"
proof -
  let ?d = "dl_envelop_zero"
  have z: "length (env_buf ?d) = 1034" "counters_ok counters_init"
    by (simp_all add: dl_envelop_zero_def TF_MAX_LEN_def counters_ok_def counters_init_def)
  obtain e :: DownlinkEnvelop and th where "dl_frame th [] (take 1000 (env_buf e))"
    using dl_commitTF_ok [OF rounds_exactly order_refl dl_beginNewTF_holds [OF z(2,1)]] by blast
  then obtain d' where "length (take 1000 (env_buf e)) = 1000"
    "dl_checkoutTF (?d\<lparr>env_buf := take 1000 (env_buf e) @ drop (length (take 1000 (env_buf e))) (env_buf ?d)\<rparr>) = Some (True, d')"
    using dl_checkoutTF_frame [OF _ z(1)] by blast
  moreover from this(1) have "length (take 1000 (env_buf e) @ drop (length (take 1000 (env_buf e))) (env_buf ?d)) = 1034"
    using z(1) by (simp only: length_append length_drop)
  ultimately show ?thesis
    by (intro exI [of _ "?d\<lparr>env_buf := take 1000 (env_buf e) @ drop (length (take 1000 (env_buf e))) (env_buf ?d)\<rparr>"] exI [of _ d']) simp
qed

lemma accepted_uplink: "\<exists>u u'. length (env_buf u) = 1034 \<and> ul_checkoutTF u = Some (True, u') \<and> 0 < lenOfCurrentTF u'"
proof -
  let ?u = "ul_envelop_zero"
  have z: "length (env_buf ?u) = 1034" by (simp add: ul_envelop_zero_def TF_MAX_LEN_def)
  obtain e :: UplinkEnvelop and h where f: "ul_frame h [] (take (lenOfCurrentTF e) (env_buf e))"
    using ul_commitTF_ok [OF ul_beginNewTF_holds [OF z]] by blast
  define b where "b = take (lenOfCurrentTF e) (env_buf e)"
  have "length (b @ drop (length b) (env_buf ?u)) = 1034" using length_ul_frame [OF f] z unfolding b_def [symmetric] by simp
  moreover obtain u' where "ul_checkoutTF (?u\<lparr>env_buf := b @ drop (length b) (env_buf ?u)\<rparr>) = Some (True, u')" "ul_ahead u' []"
    using ul_checkoutTF_frame [OF f z] unfolding b_def by blast
  ultimately show ?thesis
    by (intro exI [of _ "?u\<lparr>env_buf := b @ drop (length b) (env_buf ?u)\<rparr>"] exI [of _ u']) (auto simp: ul_ahead_def)
qed

text \<open>
  C35. A corrupted byte is noticed: when a byte of an accepted frame changes, the frame is rejected, for the downlink
  at every position, for the uplink at every position but in the two bytes with the length.
\<close>

theorem ccsds_corruption_detected:
  assumes "length (env_buf d) = 1034" "dl_checkoutTF d = Some (True, d')" "i < 1000" "x \<noteq> env_buf d ! i"
    and "length (env_buf u) = 1034" "ul_checkoutTF u = Some (True, u')" "j < lenOfCurrentTF u'" "j \<notin> {2, 3}" "y \<noteq> env_buf u ! j"
  shows "(\<exists>e. dl_checkoutTF (d\<lparr>env_buf := (env_buf d)[i := x]\<rparr>) = Some (False, e)) \<and>
    (\<exists>e. ul_checkoutTF (u\<lparr>env_buf := (env_buf u)[j := y]\<rparr>) = Some (False, e))"
proof
  have "computeCRC lookUpTable (take 998 (env_buf d)) CRC_SEED = get16 998 (env_buf d)"
    using dl_checkoutTF_eq [OF assms(1)] assms(2) by auto
  then show "\<exists>e. dl_checkoutTF (d\<lparr>env_buf := (env_buf d)[i := x]\<rparr>) = Some (False, e)"
    using dl_checkoutTF_eq [of "d\<lparr>env_buf := (env_buf d)[i := x]\<rparr>"] frame_byte_changed [of i 998 "env_buf d" x] assms(1,3,4) by simp
next
  define n where "n = unat (getBitField (env_buf u) 22 10) + 1"
  have n: "6 \<le> n" using ul_checkout_length [OF assms(5,6)] by (simp add: n_def)
  have n2: "n \<le> 1024" using frame_length_field(1) [of "env_buf u"] by (simp add: n_def)
  obtain e where "ul_checkoutTF u =
      Some (computeCRC lookUpTable (take (n - 2) (env_buf u)) CRC_SEED = get16 (n - 2) (env_buf u), e)" "lenOfCurrentTF e = n"
    using ul_checkoutTF_eq [OF assms(5) n_def n] by blast
  then have u: "computeCRC lookUpTable (take (n - 2) (env_buf u)) CRC_SEED = get16 (n - 2) (env_buf u)" "lenOfCurrentTF u' = n"
    using assms(6) by auto
  have "getBitField ((env_buf u)[j := y]) 22 10 = getBitField (env_buf u) 22 10"
    using assms(8) by (simp add: getBitField_def field_word_def Let_def)
  then have "n = unat (getBitField (env_buf (u\<lparr>env_buf := (env_buf u)[j := y]\<rparr>)) 22 10) + 1" by (simp add: n_def)
  then show "\<exists>e. ul_checkoutTF (u\<lparr>env_buf := (env_buf u)[j := y]\<rparr>) = Some (False, e)"
    using ul_checkoutTF_eq [of "u\<lparr>env_buf := (env_buf u)[j := y]\<rparr>" n] n n2 assms(5,7,9) u
      frame_byte_changed [of j "n - 2" "env_buf u" y CRC_SEED] by auto
qed

theorem ccsds_corruption_detected_witness:
  "\<exists>d d' u u'. dl_checkoutTF d = Some (True, d') \<and> ul_checkoutTF u = Some (True, u') \<and>
    (\<exists>e. dl_checkoutTF (d\<lparr>env_buf := (env_buf d)[7 := env_buf d ! 7 + 1]\<rparr>) = Some (False, e)) \<and>
    (\<exists>e. ul_checkoutTF (u\<lparr>env_buf := (env_buf u)[0 := env_buf u ! 0 + 1]\<rparr>) = Some (False, e))"
proof -
  obtain d d' u u' where a: "length (env_buf d) = 1034" "dl_checkoutTF d = Some (True, d')"
    "length (env_buf u) = 1034" "ul_checkoutTF u = Some (True, u')" "0 < lenOfCurrentTF u'"
    using accepted_downlink accepted_uplink by blast
  have "env_buf d ! 7 + 1 \<noteq> env_buf d ! 7" "env_buf u ! 0 + 1 \<noteq> env_buf u ! 0" by simp_all
  with a ccsds_corruption_detected [of d d' 7 "env_buf d ! 7 + 1" u u' 0 "env_buf u ! 0 + 1"]
  show ?thesis by (intro exI [of _ d] exI [of _ d'] exI [of _ u] exI [of _ u']) simp
qed

text \<open>
  \<open>DownlinkFrame\<close>: a frame with a single packet. The application gets 972 bytes for its data and the ground receives them.
\<close>

lemma single_packet_frame:
  assumes "rounds rnd" "0 \<le> t" "0 \<le> t'" "counters_ok g" "length (env_buf e) = 1034" "length (env_buf r) = 1034" "length d = 972"
    "take_bit 11 (word_of_int apid :: u16) \<noteq> 0x7ff"
  shows "case df_beginNewFrame_with sc apid serv subserv vcid e of e1 \<Rightarrow> lenOfCurrentUserData e1 = 972 \<and>
    (\<exists>e2 g3 e3 th h. write_user_data d e1 = Some e2 \<and> df_commit rnd t t' (g, e2) = Some (g3, e3) \<and>
      dl_receive (take 1000 (env_buf e3)) r = Some (Some (th, [(h, d)])) \<and> dsp_service h = word_of_int serv)"
proof -
  define e1 where "e1 = df_beginNewFrame_with sc apid serv subserv vcid e"
  obtain q z where q: "length q = 6" "length z = 10" "env_buf (dl_beginNewTF e) = q @ replicate 1018 0xff @ z"
    using dl_beginNewTF_holds [OF assms(4,5)] by (auto simp: dl_holds_def)
  have "(1018 :: nat) = 16 + 972 + 30" by simp
  from replicate_parts [OF this, of "0xff :: u8"]
  have buf: "env_buf e1 = q @ replicate 16 0xff @ replicate 972 0xff @ replicate 30 0xff @ z"
    using q(3) by (simp add: e1_def df_beginNewFrame_with_def df_setVals_def df_setVcid_def dl_initDefaultSPHeader_def
        dl_initDefaultTFHeaderAndTrailer_def df_beginNewFrame_def dl_beginNewSP_def Let_def)
  have e1: "lenOfCurrentUserData e1 = 972" "indexOfCurrentSP e1 = 6" "userDataBuf e1 = 22" "lenOfCurrentTF e1 = 1000"
    by (simp_all add: e1_def df_beginNewFrame_with_def df_setVals_def df_setVcid_def dl_initDefaultSPHeader_def dl_beginNewTF_def
        dl_initDefaultTFHeaderAndTrailer_def df_beginNewFrame_def dl_beginNewSP_def DOWNLINK_TF_LEN_def Let_def)
  have h1: "dsp_service (d_spHeader e1) = word_of_int serv" "dsp_applicationId (d_spHeader e1) = word_of_int apid" "dsp_typeId (d_spHeader e1) = 0"
    by (simp_all add: e1_def df_beginNewFrame_with_def df_setVals_def df_setVcid_def dl_initDefaultSPHeader_def DownlinkSPHeader_zero_def Let_def)
  define e2 where "e2 = e1\<lparr>env_buf := q @ replicate 16 0xff @ d @ replicate 30 0xff @ z\<rparr>"
  have w: "write_user_data d e1 = Some e2"
    using assms(7) q(1,2) e1 by (simp add: write_user_data_def buf e2_def)
  let ?p = "(d_spHeader e1, d, t)"
  have "d \<noteq> []" using assms(7) by auto
  then obtain e3 where e3: "dl_commitSP rnd t (g, e2) = Some (dl_count ?p g, e3)"
    "env_buf e3 = q @ dl_img rnd ?p g @ replicate 30 0xff @ z" "indexOfCurrentSP e3 = 994" "lenOfCurrentTF e3 = 1000"
    using dl_commitSP_ok [of rnd t g d q e2 "replicate 16 0xff" "replicate 30 0xff @ z" "d_spHeader e1"] assms q(1) e1
    by (auto simp: e2_def)
  have "dl_holds (dl_count ?p g, e3) (dl_count ?p g) (dl_img rnd ?p g)"
    using e3 q(1,2) assms(4,7) by (intro dl_holdsI [where p = q and z = z]) (simp_all add: length_dl_img)
  from dl_commitTF_ok [OF assms(1,3) this] obtain g4 e4 where e4: "dl_commitTF rnd t' (dl_count ?p g, e3) = Some (g4, e4)"
    "dl_frame (dl_frame_header (dl_count ?p g) (d_tfHeader e3)) (dl_img rnd ?p g) (take 1000 (env_buf e4))" by blast
  from dl_checkoutTF_frame [OF e4(2) assms(6)] obtain e5 fin where
    e5: "dl_checkoutTF (r\<lparr>env_buf := take 1000 (env_buf e4) @ drop (length (take 1000 (env_buf e4))) (env_buf r)\<rparr>) = Some (True, e5)"
    "dl_ahead e5 (dl_img rnd ?p g @ fin)" "dl_stop fin" by blast
  have "dl_readable (dl_stamp rnd ?p g, d)" using h1 assms(8) by (simp add: dl_readable_def dl_stamp_def)
  then have "read_packets dl_checkoutNextSP dl_get e5 = Some [(dsp_trunc (dl_stamp rnd ?p g), d)]"
    using dlr.read_all [of e5 "[(dl_stamp rnd ?p g, d)]" fin] e5(2,3) by (simp add: dl_img_def)
  moreover have "dsp_service (dsp_trunc (dl_stamp rnd ?p g)) = word_of_int serv" using h1(1) by (simp add: dsp_trunc_def dl_stamp_def)
  ultimately show ?thesis
    unfolding e1_def [symmetric] using w e1(1) e3(1) e4(1) e5(1) by (auto simp: df_commit_def dl_receive_def)
qed

text \<open>
  Lengths a sender does not produce are not checked. A length field of 0xFFF9 wraps to a packet of length 0: the ground gets the same packet again and
  again, with a length of the user data outside of the buffer. Lengths shorter than the secondary header give user data that ends outside of the buffer as well.
\<close>

lemma downlink_length_wraps:
  assumes "length (env_buf e) = 1034" "lenOfCurrentTF e = 1000" "indexOfCurrentSP e = 0" "dsp_typeId h = 0" "dsp_applicationId h \<noteq> 0x7ff"
    "header_read 16 DownlinkSPHeader_deserialize 6 (env_buf e) = Some h" "dsp_dataPackLen h = 0xFFF9"
  shows "\<exists>e'. dl_checkoutNextSP e = Some (True, e') \<and> dl_checkoutNextSP e' = Some (True, e') \<and> lenOfCurrentUserData e' = 65520"
  using assms by (simp add: dl_checkoutNextSP_def to_uint16_def Let_def)

lemma short_packets_accepted:
  assumes "length (env_buf e) = 1034" "lenOfCurrentTF e = 1000" "indexOfCurrentSP e = 0" "dsp_typeId h = 0" "dsp_applicationId h \<noteq> 0x7ff"
    "header_read 16 DownlinkSPHeader_deserialize 6 (env_buf e) = Some h" "dsp_dataPackLen h = 0"
    and "length (env_buf u) = 1034" "lenOfCurrentTF u = 1000" "indexOfCurrentSP u = 0" "usp_applicationId k \<noteq> 0x7ff"
    "header_read 10 UplinkSPHeader_deserialize 6 (env_buf u) = Some k" "usp_length k = 0"
  shows "(\<exists>e'. dl_checkoutNextSP e = Some (True, e') \<and> dl_get e' = None) \<and> (\<exists>u'. ul_checkoutNextSP u = Some (True, u') \<and> ul_get u' = None)"
  using assms by (simp add: dl_checkoutNextSP_def ul_checkoutNextSP_def dl_get_def ul_get_def read_user_data_def to_uint16_def Let_def)

text \<open>A telecommand frame with the length field 0 makes the spacecraft read in front of its buffer, before the length is checked.\<close>

lemma uplink_reads_before_buffer:
  assumes "getBitField (env_buf e) 22 10 = 0"
  shows "ul_checkoutTF e = None"
  using assms by (simp add: ul_checkoutTF_def header_read_def UplinkTFHeader_deserialize_def Let_def)

end
