(* ===== verification/Spec2Isabelle.thy ===== *)
theory Spec2Isabelle
  imports Queue_Spec Fifo Fifo_Async Comm_Buffer Time_Model Time_Event Threads Scheduling Semaphore
    Checksums Byte_Stream Misc_Funcs S3P Network_Message Topic Gateway Can_Link String_Pico Yprintf
    Sorted_List Allocable_Objects Byte_Ring Uart_Link Tokenizer Sync_Fifo Debug_Print Generic_IO
    Fifo_Links Boot Topic_Register Sync_Comm_Buffer Ring_Buffer Random_Kiss Monitoring Activity
    Calendar Clock_Model Posix_Port Result_Code Matlib_Matrix Matlib_Vector Matlib_Rotation Matlib_Frames
    Matlib_Support Matlib_Earth Signal_Processing Ccsds_Headers Ccsds_Envelop
begin

text \<open>
  Verification of RODOS, a real-time operating system with a publish/subscribe middleware
  (\<open>src/\<close> holds the repository). The development is a shallow embedding: each function of the C++
  sources is a HOL function of the same name, the state it changes is an argument and a result.

  \<^bold>\<open>The program.\<close> An application is a set of static objects. Their constructors put them into global lists
  (\<open>api/listelement.h\<close>), \<open>initSystem\<close> (\<open>src/independent/main.cpp\<close>) connects subscribers with
  topics, initializes everything and starts the scheduler. Threads run by priority, the scheduler is called from the
  timer interrupt and from \<open>yield\<close>; timers (\<open>TimeEvent\<close>) are handled there as well. Threads exchange data through
  fifos, buffers and semaphores, and through topics: \<open>publish\<close> hands a message to all subscribers of the topic, among
  them the gateways, which send it as a network message over a link (UART, CAN, UDP, shared
  memory) to other nodes; a gateway that receives a message checks it, suppresses duplicates, publishes it
  locally and lets routers forward it to further links.

  \<^bold>\<open>Prelude.\<close> \<open>Rodos_Prelude\<close>: the machine types \<open>u8\<close> to \<open>u64\<close>, signed integers as \<open>int\<close> with wrap-around
  (\<open>i64\<close>) and ranges, bytes of words, reachability of step relations (\<open>reach\<close>, \<open>reach_inv\<close>), lemmas on lists and rings.

  \<^bold>\<open>Kernel.\<close>
  \<^item> \<open>Threads\<close> and \<open>Scheduling\<close>: \<open>bare-metal-generic/thread_on_hw.cpp\<close>, \<open>scheduler.cpp\<close>, \<open>independent/thread.cpp\<close>. The
    record \<open>kernel\<close> has the list of threads, the current thread, the preselection of \<open>yield\<close> and the timer. Shown: which
    thread is selected and when the next scheduling happens, that threads of equal priority rotate, that the
    preselection is sound under interrupts that schedule or resume threads, and an invariant of every sequence of kernel calls. The locale \<open>quiet_op\<close> is
    the contract of the operations between two scheduler calls; it is interpreted for all of them.
  \<^item> \<open>Time_Event\<close>, \<open>Time_Model\<close>, \<open>Calendar\<close>, \<open>Clock_Model\<close>: \<open>independent/timeevent.cpp\<close> and \<open>independent/timemodel.cpp\<close>, beats, the
    ECSS time code, the calendar and UTC. Floating point values are rationals and their rounding is a parameter with the
    hypothesis \<open>rounds_to\<close>, the error bound of the standard. The locale \<open>event_handler\<close> is what propagation needs of a handler.
  \<^item> \<open>Semaphore\<close>: \<open>bare-metal-generic/rodos-semaphore.cpp\<close> and \<open>independent/barrier.cpp\<close> on the kernel of \<open>Threads\<close>; \<open>enter\<close> and
    \<open>leave\<close> are cut at every access to a shared variable (\<open>sem_exec\<close>), and the scheduler switches between any number of threads
    anywhere (\<open>sem_step\<close>). Shown: mutual exclusion and no lost wake-up while only \<open>leave\<close> resumes waiters, and runs in which both fail
    when somebody else does.
  \<^item> \<open>Boot\<close>: the lists, applications and \<open>initSystem\<close>. Lists are pointers in a store; traversals are partial functions,
    and the theorem shows that they end.
  \<^item> \<open>Posix_Port\<close>: \<open>on-posix/thread_on_posix.cpp\<close>, \<open>rodos-semaphore.cpp\<close> and the interrupt lock of \<open>scheduler.cpp\<close>, with the mutexes and
    conditions of POSIX as state; all interleavings with their invariants.
  \<^item> \<open>Generic_IO\<close>: \<open>independent/genericIO.cpp\<close>, waiting for devices, one step for each statement; devices and other
    threads interrupt wherever interrupts are enabled.

  \<^bold>\<open>Communication between threads.\<close> \<open>Fifo\<close> (\<open>api/fifo.h\<close>: \<open>Fifo\<close>, \<open>BlockFifo\<close>, \<open>MultipleReaderFifo\<close>) refines the locale
  \<open>bounded_queue\<close> of \<open>Queue_Spec\<close>; \<open>Fifo_Async\<close> interleaves writer and reader at single memory accesses; \<open>Sync_Fifo\<close>,
  \<open>Comm_Buffer\<close> (\<open>api/commbuffer.h\<close>), \<open>Sync_Comm_Buffer\<close>, \<open>Ring_Buffer\<close>, \<open>Byte_Ring\<close> (\<open>support-libs\<close>) likewise for the other buffers.

  \<^bold>\<open>Middleware and network.\<close>
  \<^item> \<open>Topic\<close>: topics, subscribers and publishing. \<open>Network_Message\<close>: the packed message, its fields as interpretations of the
    locale \<open>header_field\<close>, its checksum. \<open>Gateway\<close>: \<open>gateway.cpp\<close> and \<open>router.cpp\<close> with the state of a node as the
    record \<open>node\<close>; delivery, rejection, duplicates, forwarding, and a network of nodes in which hops are bounded.
  \<^item> \<open>Link_Spec\<close>: the locales \<open>network_link\<close> (a link may cut topic and sender) and \<open>transparent_link\<close>, what a gateway expects of
    a link, with the publication from node to node proved once. \<open>Uart_Link\<close>, \<open>Can_Link\<close> and \<open>Fifo_Links\<close>
    (shared memory and UDP) interpret them on the models of \<open>gateway/linkinterface*.cpp\<close>. \<open>S3P\<close> is the framing on serial lines.
  \<^item> \<open>Ccsds_Headers\<close> and \<open>Ccsds_Envelop\<close>: the transfer frames of telemetry and telecommands (\<open>support-programs/serializer/ccsds\<close>). The six
    headers are interpretations of the locale \<open>packed_header\<close>; the locales \<open>packet_writer\<close> and \<open>packet_reader\<close> are interpreted for the
    downlink and the uplink. Shown: what one side sends the other side reads, and a corrupted byte is noticed.
  \<^item> \<open>Topic_Register\<close>: \<open>distributed-topic-register.cpp\<close> refines a table of who listens to what. \<open>Monitoring\<close>: monitoring messages.

  \<^bold>\<open>Libraries.\<close> \<open>Checksums\<close> (locale \<open>step_checksum\<close>), \<open>Byte_Stream\<close> (locale \<open>serializer\<close>; bit fields), \<open>Misc_Funcs\<close>,
  \<open>String_Pico\<close>, \<open>Yprintf\<close>, \<open>Debug_Print\<close>, \<open>Tokenizer\<close>, \<open>Sorted_List\<close> (pointers in a store, refined to the locale
  \<open>sorted_queue\<close>), \<open>Allocable_Objects\<close>, \<open>Activity\<close>, \<open>Random_Kiss\<close>, \<open>Result_Code\<close> (\<open>support-libs/rodos-result.h\<close>, with its failed
  assertions as \<open>None\<close>), \<open>Signal_Processing\<close> (filters of \<open>signalprocessing.h\<close>, \<open>plausibleValue\<close> of \<open>misc-support.cpp\<close>; the low pass stays
  within the bounds of its inputs).

  \<^bold>\<open>Mathematics\<close> (\<open>support/support-libs/matlib\<close>).
  \<^item> \<open>Matlib_Matrix\<close>: the template \<open>Matrix_\<close> for any size and any field: products, transposition, determinants by expansion,
    and the inverse from the adjugate, which is shown to be one whenever the determinant is not zero.
  \<^item> \<open>Matlib_Vector\<close>, \<open>Matlib_Rotation\<close>: \<open>Vector3D\<close>, \<open>Matrix3D\<close>, \<open>Quaternion\<close>, \<open>AngleAxis\<close>, \<open>YPR\<close>, \<open>Rotor\<close>. The representations of a rotation rotate
    vectors alike, and the conversions between them are round trips outside of the singular cases, which are hypotheses.
  \<^item> \<open>Matlib_Frames\<close>: homogeneous matrices, coordinate frames, the rotation between two vectors. \<open>Matlib_Earth\<close>: Julian dates, sidereal time, ECI,
    ECEF, geodetic coordinates, where the iteration is \<open>while_option\<close>. \<open>Matlib_Support\<close>: the remaining types and the serialization.
  Here \<open>float\<close> and \<open>double\<close> are exact real numbers: the theorems are about the formulas. Where the code divides by zero the theorems have
  the hypothesis that it does not.

  \<^bold>\<open>Conventions.\<close> Unsigned integers are words, so they wrap as in C. Signed integers are \<open>int\<close>; where an operation could overflow
  the wrap or the hypothesis that it does not is written out. A read or write outside of an object, and a loop
  that does not end, is \<open>None\<close>; the theorems show \<open>Some\<close>. Code that blocks is cut into the steps between which
  other threads or interrupts run, and an inductive relation interleaves them. Virtual functions of the
  application, hardware drivers, clocks and sockets are parameters. Loops over lists are structural; the few
  loops with other measures have termination proofs, and the only fuel is the number of turns of \<open>executer_run\<close>, for which the
  number of due activities is shown to be enough.

  \<^bold>\<open>Not modelled.\<close> Context switches and startup code in assembler; registers of the processors and drivers of the boards
  (\<open>src/bare-metal\<close>), of which only the interface is used here; vendor libraries and lwIP; sockets, signals and creation of threads of the
  ports to operating systems; \<open>%e\<close> and \<open>%f\<close> of \<open>yprintf\<close> and the CPU load, where the
  rounding decides about the result; rounding, infinities and NaN in the mathematical library, and its print functions.
\<close>

end
